(* ===== verification/Prelude.thy ===== *)
theory Prelude
  imports Main "HOL-Library.Word"
begin

text \<open>
  Shared ground of the development: the machine types of the 32-bit target, C's signed
  arithmetic with its wrap-around written out, the error values that stand for a kernel panic
  or an access outside an array, sequencing of fallible steps, bounded array access, and the
  generic lemmas on lists and words that several components use.
\<close>

unbundle bit_operations_syntax

subsection \<open>Machine types\<close>

type_synonym u8 = "8 word"
type_synonym u16 = "16 word"
type_synonym u32 = "32 word"

text \<open>The flat byte-addressed memory that the routines of string.c work on.\<close>

type_synonym memory = "u32 \<Rightarrow> u8"

text \<open>Rewrite rules for the C-level arithmetic, and the unfolding rules of the result monad.\<close>

named_theorems c_arith
named_theorems res_simps

subsection \<open>C integers\<close>

text \<open>
  A C \<open>int\<close> is an integer kept in the 32-bit two's complement range: \<open>s32\<close> is the value an
  arithmetic result has after it is stored in an \<open>int\<close>.
\<close>

definition s32 :: "int \<Rightarrow> int" where
  "s32 x = (x + 2147483648) mod 4294967296 - 2147483648"

definition is_s32 :: "int \<Rightarrow> bool" where
  "is_s32 x \<longleftrightarrow> -2147483648 \<le> x \<and> x < 2147483648"

lemma s32_id [c_arith]: "is_s32 x \<Longrightarrow> s32 x = x"
  unfolding s32_def is_s32_def by simp

lemma s32_range: "is_s32 (s32 x)"
proof -
  have "0 \<le> (x + 2147483648) mod 4294967296" "(x + 2147483648) mod 4294967296 < 4294967296"
    by simp_all
  then show ?thesis unfolding s32_def is_s32_def by linarith
qed

lemma s32_s32 [simp]: "s32 (s32 x) = s32 x"
  by (simp add: s32_id s32_range)

lemma s32_add_left: "s32 (s32 x + y) = s32 (x + y)"
proof -
  have "s32 x + y + 2147483648 = (x + 2147483648) mod 4294967296 + y"
    unfolding s32_def by simp
  moreover have "((x + 2147483648) mod 4294967296 + y) mod 4294967296 =
      ((x + 2147483648) + y) mod 4294967296"
    by (rule mod_add_left_eq)
  moreover have "(x + 2147483648) + y = x + y + 2147483648"
    by simp
  ultimately show ?thesis unfolding s32_def by presburger
qed

text \<open>C's division truncates towards zero; \<open>c_rem\<close> is the matching remainder.\<close>

definition c_quot :: "int \<Rightarrow> int \<Rightarrow> int" where
  "c_quot a b = sgn a * sgn b * (\<bar>a\<bar> div \<bar>b\<bar>)"

definition c_rem :: "int \<Rightarrow> int \<Rightarrow> int" where
  "c_rem a b = a - b * c_quot a b"

lemma c_quot_nonneg [c_arith]: "0 \<le> a \<Longrightarrow> 0 < b \<Longrightarrow> c_quot a b = a div b"
  unfolding c_quot_def by (cases "a = 0") (auto simp: sgn_if)

lemma c_rem_nonneg [c_arith]: "0 \<le> a \<Longrightarrow> 0 < b \<Longrightarrow> c_rem a b = a mod b"
  unfolding c_rem_def by (simp add: c_quot_nonneg minus_mult_div_eq_mod)

subsection \<open>Errors and results\<close>

text \<open>
  A kernel routine either returns, or panics with the message of the source, or uses an index
  outside an array (which C leaves undefined; the model reports it), or has to wait for something
  that another process does.
\<close>

datatype kerr = Panic string | Bounds | Blocks

type_synonym 'a res = "kerr + 'a"

definition bindR :: "'a res \<Rightarrow> ('a \<Rightarrow> 'b res) \<Rightarrow> 'b res" where
  "bindR r f = (case r of Inl e \<Rightarrow> Inl e | Inr x \<Rightarrow> f x)"

lemma bindR_Inl [simp, res_simps]: "bindR (Inl e) f = Inl e"
  by (simp add: bindR_def)

lemma bindR_Inr [simp, res_simps]: "bindR (Inr x) f = f x"
  by (simp add: bindR_def)

lemma bindR_eq_Inr: "bindR r f = Inr y \<longleftrightarrow> (\<exists>x. r = Inr x \<and> f x = Inr y)"
  by (cases r) simp_all

lemma bindR_assoc: "bindR (bindR r f) g = bindR r (\<lambda>x. bindR (f x) g)"
  by (cases r) simp_all

lemma bindR_cong [fundef_cong]:
  "r = r' \<Longrightarrow> (\<And>x. r' = Inr x \<Longrightarrow> f x = f' x) \<Longrightarrow> bindR r f = bindR r' f'"
  by (cases r') simp_all

lemma if_None_eq_Some: "(if c then None else Some x) = Some y \<longleftrightarrow> \<not> c \<and> x = y"
  by simp

text \<open>Array access with a C \<open>int\<close> index.\<close>

definition array_get :: "'a list \<Rightarrow> int \<Rightarrow> 'a res" where
  "array_get xs i = (if 0 \<le> i \<and> i < int (length xs) then Inr (xs ! nat i) else Inl Bounds)"

definition array_set :: "'a list \<Rightarrow> int \<Rightarrow> 'a \<Rightarrow> 'a list res" where
  "array_set xs i v = (if 0 \<le> i \<and> i < int (length xs) then Inr (xs[nat i := v]) else Inl Bounds)"

lemma array_get_ok [res_simps]:
  "0 \<le> i \<Longrightarrow> i < int (length xs) \<Longrightarrow> array_get xs i = Inr (xs ! nat i)"
  by (simp add: array_get_def)

lemma array_get_oob [res_simps]: "i < 0 \<or> int (length xs) \<le> i \<Longrightarrow> array_get xs i = Inl Bounds"
  by (auto simp: array_get_def)

lemma array_set_ok [res_simps]:
  "0 \<le> i \<Longrightarrow> i < int (length xs) \<Longrightarrow> array_set xs i v = Inr (xs[nat i := v])"
  by (simp add: array_set_def)

lemma array_set_oob [res_simps]: "i < 0 \<or> int (length xs) \<le> i \<Longrightarrow> array_set xs i v = Inl Bounds"
  by (auto simp: array_set_def)

lemma array_set_length: "array_set xs i v = Inr ys \<Longrightarrow> length ys = length xs"
  by (auto simp: array_set_def split: if_splits)

subsection \<open>Words\<close>

lemma unat_succ_diff:
  fixes x a :: "'a::len word"
  assumes "x \<noteq> a"
  shows "unat (x - (a + 1)) = unat (x - a) - 1"
proof -
  have "x - a \<noteq> 0" using assms by simp
  moreover have "x - (a + 1) = (x - a) - 1" by simp
  ultimately show ?thesis by (metis unat_minus_one)
qed

lemma unat_diff_eq_0_iff:
  fixes x a :: "'a::len word"
  shows "unat (x - a) = 0 \<longleftrightarrow> x = a"
  by (simp add: unat_eq_zero)

lemma unat_of_nat_id: "n < 2 ^ LENGTH('a) \<Longrightarrow> unat (of_nat n :: 'a::len word) = n"
  by (simp add: unat_of_nat)

lemma uint_word_of_int_id:
  "0 \<le> i \<Longrightarrow> i < 2 ^ LENGTH('a) \<Longrightarrow> uint (word_of_int i :: 'a::len word) = i"
  by (simp add: uint_word_of_int_eq take_bit_int_eq_self)

lemma unat_word_of_int_id:
  assumes "0 \<le> i" and "i < 2 ^ LENGTH('a)"
  shows "unat (word_of_int i :: 'a::len word) = nat i"
proof -
  have "int (unat (word_of_int i :: 'a word)) = i"
    using uint_word_of_int_id [OF assms] by simp
  then show ?thesis by linarith
qed

lemma unat_add_no_wrap:
  "unat a + unat b < 2 ^ LENGTH('a) \<Longrightarrow> unat (a + b) = unat a + unat (b :: 'a::len word)"
  by (simp add: unat_word_ariths)

subsection \<open>Lists\<close>

text \<open>
  The first index, from \<open>i\<close> on, of an element that satisfies \<open>P\<close>: the shape of every
  \<open>for\<close> loop of the kernel that scans a fixed table and stops at the first hit.
\<close>

fun scan_from :: "('a \<Rightarrow> bool) \<Rightarrow> nat \<Rightarrow> 'a list \<Rightarrow> nat option" where
  "scan_from P i [] = None"
| "scan_from P i (x # xs) = (if P x then Some i else scan_from P (Suc i) xs)"

lemma scan_from_Some:
  "scan_from P i xs = Some j \<longleftrightarrow>
     i \<le> j \<and> j < i + length xs \<and> P (xs ! (j - i)) \<and> (\<forall>k < j - i. \<not> P (xs ! k))"
proof (induction xs arbitrary: i)
  case Nil
  then show ?case by simp
next
  case (Cons x xs)
  show ?case
  proof (cases "P x")
    case True
    have "j = i" if "i \<le> j" "\<forall>k < j - i. \<not> P ((x # xs) ! k)"
      using that True by (metis diff_is_0_eq' le_antisym nat_le_linear not_gr_zero nth_Cons_0 zero_less_diff le_neq_implies_less)
    with True show ?thesis by auto
  next
    case False
    have *: "(\<forall>k < j - i. \<not> P ((x # xs) ! k)) \<longleftrightarrow> (\<forall>k < j - Suc i. \<not> P (xs ! k))" if "Suc i \<le> j"
    proof -
      from that obtain d where d: "j - i = Suc d" "j - Suc i = d"
        by (metis Suc_diff_Suc Suc_le_lessD)
      show ?thesis unfolding d using False by (auto simp: less_Suc_eq_0_disj)
    qed
    have nth: "(x # xs) ! (j - i) = xs ! (j - Suc i)" if "Suc i \<le> j"
      using that by (simp add: nth_Cons')
    have ge: "Suc i \<le> j" if "i \<le> j" "P ((x # xs) ! (j - i))"
      using that False by (cases "i = j") auto
    show ?thesis
      using False Cons.IH[of "Suc i"] * nth ge
      by (auto 4 3)
  qed
qed

lemma scan_from_None: "scan_from P i xs = None \<longleftrightarrow> (\<forall>x \<in> set xs. \<not> P x)"
  by (induction xs arbitrary: i) auto

lemma scan_0_Some:
  "scan_from P 0 xs = Some j \<longleftrightarrow> j < length xs \<and> P (xs ! j) \<and> (\<forall>k < j. \<not> P (xs ! k))"
  by (simp add: scan_from_Some)

subsection \<open>Counting loops\<close>

text \<open>A \<open>for\<close> loop over fixed indices whose body may fail.\<close>

fun forR :: "nat list \<Rightarrow> (nat \<Rightarrow> 's \<Rightarrow> 's res) \<Rightarrow> 's \<Rightarrow> 's res" where
  "forR [] f s = Inr s"
| "forR (i # is) f s = bindR (f i s) (forR is f)"

lemma forR_append: "forR (is @ js) f s = bindR (forR is f s) (forR js f)"
proof (induction "is" arbitrary: s)
  case (Cons i "is")
  then have "forR (is @ js) f = (\<lambda>s. bindR (forR is f s) (forR js f))" by blast
  then show ?case by (simp add: bindR_assoc)
qed simp

lemma forR_cong [fundef_cong]:
  "is = js \<Longrightarrow> s = t \<Longrightarrow> (\<And>i u. i \<in> set js \<Longrightarrow> f i u = g i u) \<Longrightarrow> forR is f s = forR js g t"
proof -
  assume "is = js" "s = t" and eq: "\<And>i u. i \<in> set js \<Longrightarrow> f i u = g i u"
  have "forR js f t = forR js g t"
    using eq by (induction js arbitrary: t) (auto simp: bindR_def split: sum.split)
  with \<open>is = js\<close> \<open>s = t\<close> show ?thesis by simp
qed

text \<open>A loop whose body never fails while an invariant holds is a fold.\<close>

lemma forR_total:
  assumes "\<And>i s. i \<in> set is \<Longrightarrow> P s \<Longrightarrow> f i s = Inr (g i s) \<and> P (g i s)" and "P s"
  shows "forR is f s = Inr (fold g is s) \<and> P (fold g is s)"
  using assms by (induction "is" arbitrary: s) simp_all

end
