(* ===== verification/CString.thy ===== *)
theory CString
  imports Prelude
begin

text \<open>
  The kernel's memory and string routines (string.c), on a flat memory of bytes addressed by
  32-bit words. Pointers are addresses and pointer arithmetic wraps, as it does on the target.
  Each loop is a recursion on the number of iterations its counter allows; \<open>strlen\<close>, whose
  loop has no counter, returns \<open>None\<close> when it never meets a NUL byte.
\<close>

subsection \<open>Filling memory\<close>

fun stosb :: "memory \<Rightarrow> u32 \<Rightarrow> u8 \<Rightarrow> nat \<Rightarrow> memory" where
  "stosb m addr data 0 = m"
| "stosb m addr data (Suc cnt) = stosb (m(addr := data)) (addr + 1) data cnt"

definition store_le32 :: "memory \<Rightarrow> u32 \<Rightarrow> u32 \<Rightarrow> memory" where
  "store_le32 m addr w =
     m(addr := ucast w, addr + 1 := ucast (drop_bit 8 w),
       addr + 2 := ucast (drop_bit 16 w), addr + 3 := ucast (drop_bit 24 w))"

fun stosl :: "memory \<Rightarrow> u32 \<Rightarrow> u32 \<Rightarrow> nat \<Rightarrow> memory" where
  "stosl m addr data 0 = m"
| "stosl m addr data (Suc cnt) = stosl (store_le32 m addr data) (addr + 4) data cnt"

definition memset :: "memory \<Rightarrow> u32 \<Rightarrow> u32 \<Rightarrow> u32 \<Rightarrow> memory" where
  "memset m dst c n =
     (if dst mod 4 = 0 \<and> n mod 4 = 0
      then let c = c AND 0xFF
           in stosl m dst (push_bit 24 c OR push_bit 16 c OR push_bit 8 c OR c) (unat (n div 4))
      else stosb m dst (ucast c) (unat n))"

subsection \<open>Comparing and copying memory\<close>

fun memcmp :: "memory \<Rightarrow> u32 \<Rightarrow> u32 \<Rightarrow> nat \<Rightarrow> int" where
  "memcmp m s1 s2 0 = 0"
| "memcmp m s1 s2 (Suc n) =
     (if m s1 \<noteq> m s2 then uint (m s1) - uint (m s2) else memcmp m (s1 + 1) (s2 + 1) n)"

text \<open>\<open>*d++ = *s++\<close>, n times, and \<open>*--d = *--s\<close>, n times.\<close>

fun copy_up :: "memory \<Rightarrow> u32 \<Rightarrow> u32 \<Rightarrow> nat \<Rightarrow> memory" where
  "copy_up m d s 0 = m"
| "copy_up m d s (Suc n) = copy_up (m(d := m s)) (d + 1) (s + 1) n"

fun copy_down :: "memory \<Rightarrow> u32 \<Rightarrow> u32 \<Rightarrow> nat \<Rightarrow> memory" where
  "copy_down m d s 0 = m"
| "copy_down m d s (Suc n) = copy_down (m(d - 1 := m (s - 1))) (d - 1) (s - 1) n"

definition memmove :: "memory \<Rightarrow> u32 \<Rightarrow> u32 \<Rightarrow> u32 \<Rightarrow> memory" where
  "memmove m dst src n =
     (if src < dst \<and> src + n > dst
      then copy_down m (dst + n) (src + n) (unat n)
      else copy_up m dst src (unat n))"

definition memcpy :: "memory \<Rightarrow> u32 \<Rightarrow> u32 \<Rightarrow> u32 \<Rightarrow> memory" where
  "memcpy m dst src n = memmove m dst src n"

subsection \<open>Strings\<close>

fun strncmp :: "memory \<Rightarrow> u32 \<Rightarrow> u32 \<Rightarrow> nat \<Rightarrow> int" where
  "strncmp m p q 0 = 0"
| "strncmp m p q (Suc n) =
     (if m p \<noteq> 0 \<and> m p = m q then strncmp m (p + 1) (q + 1) n
      else uint (m p) - uint (m q))"

text \<open>
  The two loops of \<open>strncpy\<close>: copy until the counter or the source ends, then fill with
  zeros. The counter is a C \<open>int\<close>; a negative one does nothing.
\<close>

fun strncpy_copy :: "memory \<Rightarrow> u32 \<Rightarrow> u32 \<Rightarrow> nat \<Rightarrow> memory" where
  "strncpy_copy m s t 0 = m"
| "strncpy_copy m s t (Suc n) =
     (if m t \<noteq> 0 then strncpy_copy (m(s := m t)) (s + 1) (t + 1) n
      else stosb (m(s := m t)) (s + 1) 0 n)"

definition strncpy :: "memory \<Rightarrow> u32 \<Rightarrow> u32 \<Rightarrow> int \<Rightarrow> memory" where
  "strncpy m s t n = strncpy_copy m s t (nat n)"

fun safestrcpy_copy :: "memory \<Rightarrow> u32 \<Rightarrow> u32 \<Rightarrow> nat \<Rightarrow> memory" where
  "safestrcpy_copy m s t 0 = m(s := 0)"
| "safestrcpy_copy m s t (Suc n) =
     (if m t \<noteq> 0 then safestrcpy_copy (m(s := m t)) (s + 1) (t + 1) n
      else (m(s := m t))(s + 1 := 0))"

definition safestrcpy :: "memory \<Rightarrow> u32 \<Rightarrow> u32 \<Rightarrow> int \<Rightarrow> memory" where
  "safestrcpy m s t n = (if n \<le> 0 then m else safestrcpy_copy m s t (nat n - 1))"

partial_function (option) strlen_loop :: "memory \<Rightarrow> u32 \<Rightarrow> u32 \<Rightarrow> u32 option" where
  "strlen_loop m s n = (if m (s + n) = 0 then Some n else strlen_loop m s (n + 1))"

definition strlen :: "memory \<Rightarrow> u32 \<Rightarrow> u32 option" where
  "strlen m s = strlen_loop m s 0"

subsection \<open>What the copy loops do\<close>

text \<open>The n bytes of memory from an address on, and the C string they hold.\<close>

definition bytes_at :: "memory \<Rightarrow> u32 \<Rightarrow> nat \<Rightarrow> u8 list" where
  "bytes_at m a n = map (\<lambda>i. m (a + of_nat i)) [0..<n]"

definition cstr_at :: "memory \<Rightarrow> u32 \<Rightarrow> nat \<Rightarrow> u8 list" where
  "cstr_at m a n = takeWhile (\<lambda>c. c \<noteq> 0) (bytes_at m a n)"

lemma bytes_at_0 [simp]: "bytes_at m a 0 = []"
  by (simp add: bytes_at_def)

lemma bytes_at_Suc: "bytes_at m a (Suc n) = m a # bytes_at m (a + 1) n"
  unfolding bytes_at_def
  by (simp add: upt_conv_Cons map_Suc_upt [symmetric] add.assoc o_def del: upt_Suc)

lemma cstr_at_Suc: "cstr_at m a (Suc n) = (if m a = 0 then [] else m a # cstr_at m (a + 1) n)"
  by (simp add: cstr_at_def bytes_at_Suc)

lemma cstr_at_0 [simp]: "cstr_at m a 0 = []"
  by (simp add: cstr_at_def)

lemma stosb_eq:
  assumes "n \<le> 2 ^ 32"
  shows "stosb m a d n x = (if unat (x - a) < n then d else m x)"
  using assms
proof (induction n arbitrary: m a)
  case 0
  then show ?case by simp
next
  case (Suc n)
  then have IH: "stosb (m(a := d)) (a + 1) d n x =
      (if unat (x - (a + 1)) < n then d else (m(a := d)) x)"
    by simp
  show ?case
  proof (cases "x = a")
    case True
    then show ?thesis using IH by simp
  next
    case False
    then have "unat (x - (a + 1)) = unat (x - a) - 1" "unat (x - a) \<noteq> 0"
      by (simp_all add: unat_succ_diff unat_diff_eq_0_iff)
    then show ?thesis using IH False by auto
  qed
qed

lemma stosb_append: "stosb m a d (j + k) = stosb (stosb m a d j) (a + of_nat j) d k"
  by (induction j arbitrary: m a) (simp_all add: add.assoc)

text \<open>Four copies of a byte in one word, stored little-endian, are four bytes stored in turn.\<close>

lemma spread_low_byte:
  fixes e :: u32
  assumes "\<And>k. 8 \<le> k \<Longrightarrow> \<not> bit e k"
  defines "w \<equiv> push_bit 24 e OR push_bit 16 e OR push_bit 8 e OR e"
  shows "(ucast w :: u8) = ucast e" "(ucast (drop_bit 8 w) :: u8) = ucast e"
    "(ucast (drop_bit 16 w) :: u8) = ucast e" "(ucast (drop_bit 24 w) :: u8) = ucast e"
  unfolding w_def by (rule bit_word_eqI, auto simp: bit_simps assms(1))+

lemma bit_0xFF: "bit (0xFF :: u32) k \<longleftrightarrow> k < 8"
proof -
  have eq: "(0xFF :: u32) = mask 8" by (simp add: mask_eq_exp_minus_1)
  show ?thesis unfolding eq bit_mask_iff by auto
qed

lemma ucast_and_0xFF: "(ucast (c AND 0xFF :: u32) :: u8) = ucast c"
  by (rule bit_word_eqI) (simp add: bit_simps bit_0xFF del: bit_numeral_word_iff)

lemma high_bits_and_0xFF: "8 \<le> k \<Longrightarrow> \<not> bit (c AND 0xFF :: u32) k"
  by (simp add: bit_and_iff bit_0xFF del: bit_numeral_word_iff)

lemma spread_byte:
  fixes c :: u32
  defines "w \<equiv> push_bit 24 (c AND 0xFF) OR push_bit 16 (c AND 0xFF) OR push_bit 8 (c AND 0xFF)
      OR (c AND 0xFF)"
  shows "(ucast w :: u8) = ucast c" "(ucast (drop_bit 8 w) :: u8) = ucast c"
    "(ucast (drop_bit 16 w) :: u8) = ucast c" "(ucast (drop_bit 24 w) :: u8) = ucast c"
  unfolding w_def ucast_and_0xFF [of c, symmetric]
  by (rule spread_low_byte, erule high_bits_and_0xFF)+

lemma stosb_4: "stosb m a d 4 = m(a := d, a + 1 := d, a + 2 := d, a + 3 := d)"
  by (simp add: eval_nat_numeral add.assoc)

lemma stosl_spread:
  "stosl m a (push_bit 24 (c AND 0xFF) OR push_bit 16 (c AND 0xFF) OR push_bit 8 (c AND 0xFF)
      OR (c AND 0xFF)) k = stosb m a (ucast c) (4 * k)"
proof (induction k arbitrary: m a)
  case 0
  then show ?case by simp
next
  case (Suc k)
  have four: "4 * Suc k = 4 + 4 * k" by simp
  have "stosb m a (ucast c) 4 = store_le32 m a (push_bit 24 (c AND 0xFF) OR
      push_bit 16 (c AND 0xFF) OR push_bit 8 (c AND 0xFF) OR (c AND 0xFF))"
    unfolding store_le32_def spread_byte stosb_4 by (rule refl)
  with Suc.IH show ?case
    unfolding four stosb_append by simp
qed

lemma copy_up_eq:
  assumes "n \<le> 2 ^ 32" and "\<And>i j. i < j \<Longrightarrow> j < n \<Longrightarrow> d + of_nat i \<noteq> s + of_nat j"
  shows "copy_up m d s n x = (if unat (x - d) < n then m (s + (x - d)) else m x)"
  using assms
proof (induction n arbitrary: m d s)
  case 0
  then show ?case by simp
next
  case (Suc n)
  have sep: "d + 1 + of_nat i \<noteq> s + 1 + of_nat j" if "i < j" "j < n" for i j
    using Suc.prems(2) [of "Suc i" "Suc j"] that by (simp add: ac_simps)
  have far: "d \<noteq> s + of_nat (Suc j)" if "j < n" for j
    using Suc.prems(2) [of 0 "Suc j"] that by simp
  have IH: "copy_up (m(d := m s)) (d + 1) (s + 1) n x =
      (if unat (x - (d + 1)) < n then (m(d := m s)) (s + 1 + (x - (d + 1))) else (m(d := m s)) x)"
    using Suc.IH [OF _ sep] Suc.prems(1) by simp
  show ?case
  proof (cases "x = d")
    case True
    then show ?thesis using IH Suc.prems(1) by simp
  next
    case False
    then have u: "unat (x - (d + 1)) = unat (x - d) - 1" "unat (x - d) \<noteq> 0"
      by (simp_all add: unat_succ_diff unat_diff_eq_0_iff)
    have "s + (x - d) \<noteq> d" if "unat (x - d) < Suc n"
    proof -
      from that u have "unat (x - d) - 1 < n" by simp
      from far [OF this] u show ?thesis by simp
    qed
    then show ?thesis using IH False u by auto
  qed
qed

lemma copy_down_eq:
  assumes "n \<le> 2 ^ 32" and "\<And>i j. i < j \<Longrightarrow> j < n \<Longrightarrow> d + of_nat j \<noteq> s + of_nat i"
  shows "copy_down m (d + of_nat n) (s + of_nat n) n x =
    (if unat (x - d) < n then m (s + (x - d)) else m x)"
  using assms
proof (induction n arbitrary: m)
  case 0
  then show ?case by simp
next
  case (Suc n)
  let ?m = "m(d + of_nat n := m (s + of_nat n))"
  have "copy_down m (d + of_nat (Suc n)) (s + of_nat (Suc n)) (Suc n) x =
      copy_down ?m (d + of_nat n) (s + of_nat n) n x"
    by (simp add: algebra_simps)
  also have "\<dots> = (if unat (x - d) < n then ?m (s + (x - d)) else ?m x)"
    by (rule Suc.IH) (use Suc.prems in simp_all)
  also have "\<dots> = (if unat (x - d) < Suc n then m (s + (x - d)) else m x)"
  proof (cases "x = d + of_nat n")
    case True
    moreover have "unat (of_nat n :: u32) = n"
      using Suc.prems(1) by (simp add: unat_of_nat_id)
    ultimately show ?thesis by simp
  next
    case False
    then have "unat (x - d) \<noteq> n" by auto
    moreover have "s + (x - d) \<noteq> d + of_nat n" if "unat (x - d) < n"
      using Suc.prems(2) [OF that] by simp
    ultimately show ?thesis using False by auto
  qed
  finally show ?case .
qed

lemma memmove_eq:
  assumes src: "unat src + unat n < 2 ^ 32" and dst: "unat dst + unat n < 2 ^ 32"
  shows "memmove m dst src n x = (if unat (x - dst) < unat n then m (src + (x - dst)) else m x)"
proof -
  have at: "unat (a + of_nat i) = unat a + i" if "unat a + unat n < 2 ^ 32" "i < unat n" for a :: u32 and i
    using that by (simp add: unat_word_ariths unat_of_nat_id)
  have sn: "unat (src + n) = unat src + unat n"
    using src by (simp add: unat_word_ariths)
  have small: "unat n \<le> 2 ^ 32" using src by simp
  show ?thesis
  proof (cases "src < dst \<and> src + n > dst")
    case True
    then have "unat src < unat dst" by (simp add: word_less_nat_alt)
    then have "dst + of_nat j \<noteq> src + of_nat i" if "i < j" "j < unat n" for i j
    proof -
      from that have "i < unat n" by simp
      then have "unat (dst + of_nat j) \<noteq> unat (src + of_nat i)"
        using at [OF src, of i] at [OF dst that(2)] \<open>unat src < unat dst\<close> that by linarith
      then show ?thesis by metis
    qed
    from copy_down_eq [OF small this] True show ?thesis
      by (simp add: memmove_def)
  next
    case False
    then have le: "unat dst \<le> unat src \<or> unat src + unat n \<le> unat dst"
      using sn by (simp add: word_less_nat_alt) linarith
    have "dst + of_nat i \<noteq> src + of_nat j" if "i < j" "j < unat n" for i j
    proof -
      from that have "i < unat n" by simp
      then have "unat (dst + of_nat i) \<noteq> unat (src + of_nat j)"
        using at [OF dst, of i] at [OF src that(2)] le that by linarith
      then show ?thesis by metis
    qed
    from copy_up_eq [OF small this] False show ?thesis
      by (auto simp: memmove_def)
  qed
qed

lemma unat_lt_2_32: "unat (n :: u32) < 2 ^ 32"
  using unsigned_less [of n, where 'a = nat] by simp

lemma memset_pointwise: "memset m dst c n x = (if unat (x - dst) < unat n then ucast c else m x)"
proof (cases "dst mod 4 = 0 \<and> n mod 4 = 0")
  case True
  have "unat (n mod 4) = 0" using True by simp
  then have "unat n mod 4 = 0" by (simp add: unat_mod)
  then have four: "4 * unat (n div 4) = unat n"
    by (simp add: unat_div) presburger
  have "memset m dst c n x = stosb m dst (ucast c) (unat n) x"
    unfolding memset_def Let_def stosl_spread four using True by simp
  then show ?thesis
    using unat_lt_2_32 [of n] by (simp add: stosb_eq)
next
  case False
  then show ?thesis
    unfolding memset_def if_not_P [OF False] using unat_lt_2_32 [of n] by (simp add: stosb_eq)
qed

lemma unat_minus_1: "unat (- 1 :: u32) = 2 ^ 32 - 1"
  by (simp add: unsigned_minus_1_eq_mask mask_eq_exp_minus_1)

text \<open>Two regions of n bytes that share no address.\<close>

definition apart :: "u32 \<Rightarrow> u32 \<Rightarrow> nat \<Rightarrow> bool" where
  "apart s t n \<longleftrightarrow> (\<forall>i < n. \<forall>j < n. s + of_nat i \<noteq> t + of_nat j)"

lemma apartI: "unat s + n \<le> unat t \<Longrightarrow> unat t + n < 2 ^ 32 \<Longrightarrow> apart s t n"
  unfolding apart_def
proof (intro allI impI)
  fix i j
  assume le: "unat s + n \<le> unat t" and lt: "unat t + n < 2 ^ 32" and ij: "i < n" "j < n"
  have "unat (s + of_nat i) = unat s + i" "unat (t + of_nat j) = unat t + j"
    using le lt ij by (simp_all add: unat_word_ariths unat_of_nat_id)
  then have "unat (s + of_nat i) \<noteq> unat (t + of_nat j)" using le ij by linarith
  then show "s + of_nat i \<noteq> t + of_nat j" by metis
qed

lemma apart_Suc:
  assumes "apart s t (Suc n)"
  shows "apart (s + 1) (t + 1) n" "i \<le> n \<Longrightarrow> s \<noteq> t + of_nat i"
proof -
  have "s + of_nat (Suc i) \<noteq> t + of_nat (Suc j)" if "i < n" "j < n" for i j
    using assms that unfolding apart_def by (meson Suc_less_eq)
  then show "apart (s + 1) (t + 1) n"
    by (simp add: apart_def add.assoc)
next
  assume i: "i \<le> n"
  have "\<forall>j < Suc n. s + of_nat 0 \<noteq> t + of_nat j"
    using assms unfolding apart_def by blast
  then show "s \<noteq> t + of_nat i" using i by simp
qed

lemma bytes_at_cong:
  "(\<And>i. i < n \<Longrightarrow> m (a + of_nat i) = m' (a + of_nat i)) \<Longrightarrow> bytes_at m a n = bytes_at m' a n"
  by (simp add: bytes_at_def)

lemma cstr_at_upd:
  assumes "\<And>i. i < n \<Longrightarrow> s \<noteq> a + of_nat i"
  shows "cstr_at (m(s := v)) a n = cstr_at m a n"
proof -
  have "bytes_at (m(s := v)) a n = bytes_at m a n"
    by (rule bytes_at_cong) (use assms in fastforce)
  then show ?thesis by (simp add: cstr_at_def)
qed

lemma length_cstr_at: "length (cstr_at m a n) \<le> n"
  unfolding cstr_at_def bytes_at_def by (rule order_trans [OF length_takeWhile_le]) simp

lemma cstr_at_nth: "k < length (cstr_at m a n) \<Longrightarrow> cstr_at m a n ! k = m (a + of_nat k)"
proof -
  assume k: "k < length (cstr_at m a n)"
  then have "k < n" using length_cstr_at [of m a n] by simp
  then show ?thesis using k by (simp add: cstr_at_def takeWhile_nth bytes_at_def)
qed

lemma cstr_at_nonzero: "k < length (cstr_at m a n) \<Longrightarrow> m (a + of_nat k) \<noteq> 0"
  by (metis (mono_tags, lifting) cstr_at_def cstr_at_nth nth_mem set_takeWhileD)

text \<open>
  Both bounded copies, byte by byte: inside the destination, the string and then whatever the
  routine pads with; outside, no change.
\<close>

lemma strncpy_copy_pointwise:
  assumes "n \<le> 2 ^ 32" and "apart s t n"
  shows "strncpy_copy m s t n x =
    (if unat (x - s) < n
     then if unat (x - s) < length (cstr_at m t n) then m (t + (x - s)) else 0
     else m x)"
  using assms
proof (induction n arbitrary: m s t)
  case 0
  then show ?case by simp
next
  case (Suc n)
  note ap = apart_Suc [OF Suc.prems(2)]
  let ?m = "m(s := m t)"
  have far: "s \<noteq> t + 1 + of_nat i" if "i < n" for i
    using ap(2) [of "Suc i"] that by (simp add: add.assoc)
  have keep: "cstr_at ?m (t + 1) n = cstr_at m (t + 1) n"
    by (rule cstr_at_upd) (rule far)
  have small: "n \<le> 2 ^ 32" using Suc.prems(1) by simp
  show ?case
  proof (cases "m t = 0")
    case True
    then have "strncpy_copy m s t (Suc n) x = stosb ?m (s + 1) 0 n x" by simp
    also have "\<dots> = (if unat (x - (s + 1)) < n then 0 else ?m x)"
      by (rule stosb_eq [OF small])
    also have "\<dots> = (if unat (x - s) < Suc n then 0 else m x)"
      using unat_succ_diff [of x s] unat_diff_eq_0_iff [of x s] True by auto
    finally show ?thesis using True by (simp add: cstr_at_Suc)
  next
    case False
    then have step: "strncpy_copy m s t (Suc n) x = strncpy_copy ?m (s + 1) (t + 1) n x" by simp
    have IH: "strncpy_copy ?m (s + 1) (t + 1) n x =
       (if unat (x - (s + 1)) < n
        then if unat (x - (s + 1)) < length (cstr_at m (t + 1) n)
             then ?m (t + 1 + (x - (s + 1))) else 0 else ?m x)"
      using Suc.IH [OF small ap(1), of ?m] by (simp only: keep)
    have len: "length (cstr_at m t (Suc n)) = Suc (length (cstr_at m (t + 1) n))"
      using False by (simp add: cstr_at_Suc)
    show ?thesis
    proof (cases "x = s")
      case True
      have "\<not> unat (x - (s + 1)) < n" using True Suc.prems(1) by (simp add: unat_minus_1)
      then show ?thesis using step IH len True by simp
    next
      case xs: False
      then have u: "unat (x - (s + 1)) = unat (x - s) - 1" "unat (x - s) \<noteq> 0"
        by (simp_all add: unat_succ_diff unat_diff_eq_0_iff)
      have "s \<noteq> t + (x - s)" if "unat (x - s) < Suc n"
        using ap(2) [of "unat (x - s)"] that by simp
      then show ?thesis using step IH len u xs by auto
    qed
  qed
qed

lemma safestrcpy_copy_pointwise:
  assumes "n < 2 ^ 32 - 1" and "apart s t (Suc n)"
  shows "safestrcpy_copy m s t n x =
    (if unat (x - s) < length (cstr_at m t n) then m (t + (x - s))
     else if x = s + of_nat (length (cstr_at m t n)) then 0
     else if length (cstr_at m t n) < n \<and> x = s + of_nat (length (cstr_at m t n)) + 1 then 0
     else m x)"
  using assms
proof (induction n arbitrary: m s t)
  case 0
  then show ?case by simp
next
  case (Suc n)
  note ap = apart_Suc [OF Suc.prems(2)]
  let ?m = "m(s := m t)"
  have far: "s \<noteq> t + 1 + of_nat i" if "i < n" for i
    using ap(2) [of "Suc i"] that by (simp add: add.assoc)
  have keep: "cstr_at ?m (t + 1) n = cstr_at m (t + 1) n"
    by (rule cstr_at_upd) (rule far)
  show ?case
  proof (cases "m t = 0")
    case True
    then show ?thesis by (auto simp: cstr_at_Suc)
  next
    case False
    let ?l = "length (cstr_at m (t + 1) n)"
    have step: "safestrcpy_copy m s t (Suc n) x = safestrcpy_copy ?m (s + 1) (t + 1) n x"
      using False by simp
    have small: "n < 2 ^ 32 - 1" using Suc.prems(1) by simp
    have IH: "safestrcpy_copy ?m (s + 1) (t + 1) n x =
      (if unat (x - (s + 1)) < ?l then ?m (t + 1 + (x - (s + 1)))
       else if x = s + 1 + of_nat ?l then 0
       else if ?l < n \<and> x = s + 1 + of_nat ?l + 1 then 0 else ?m x)"
      using Suc.IH [OF small ap(1), of ?m] by (simp only: keep)
    have len: "length (cstr_at m t (Suc n)) = Suc ?l"
      using False by (simp add: cstr_at_Suc)
    have l: "?l \<le> n" by (rule length_cstr_at)
    show ?thesis
    proof (cases "x = s")
      case True
      have "\<not> unat (s - (s + 1)) < ?l" using l Suc.prems(1) by (simp add: unat_minus_1)
      moreover have "(1 :: u32) + of_nat ?l \<noteq> 0" "(2 :: u32) + of_nat ?l \<noteq> 0 \<or> \<not> ?l < n"
        using l Suc.prems(1) by (auto simp: unat_eq_zero [symmetric] unat_word_ariths unat_of_nat)
      ultimately show ?thesis using step IH len True by (auto simp: add.assoc)
    next
      case xs: False
      then have u: "unat (x - (s + 1)) = unat (x - s) - 1" "unat (x - s) \<noteq> 0"
        by (simp_all add: unat_succ_diff unat_diff_eq_0_iff)
      have src: "(m(s := m t)) (t + (x - s)) = m (t + (x - s))" if "unat (x - s) < Suc ?l"
        using ap(2) [of "unat (x - s)"] that l by simp
      have lt: "unat (x - (s + 1)) < ?l \<longleftrightarrow> unat (x - s) < Suc ?l"
        using u by linarith
      have eqs: "t + 1 + (x - (s + 1)) = t + (x - s)" "s + of_nat (Suc ?l) = s + 1 + of_nat ?l"
        by simp_all
      show ?thesis
        unfolding step IH len lt eqs using xs src by simp
    qed
  qed
qed

lemma bytes_at_eqI:
  assumes "length xs = n" and "\<And>i. i < n \<Longrightarrow> m (a + of_nat i) = xs ! i"
  shows "bytes_at m a n = xs"
  using assms by (auto simp: bytes_at_def intro!: nth_equalityI)

lemma strncmp_cstr: "strncmp m p q n = 0 \<longleftrightarrow> cstr_at m p n = cstr_at m q n"
proof (induction n arbitrary: p q)
  case 0
  then show ?case by simp
next
  case (Suc n)
  have "uint a = uint b \<longleftrightarrow> a = b" for a b :: u8
    by (simp add: word_uint_eq_iff)
  with Suc.IH show ?case by (auto simp: cstr_at_Suc uint_0_iff)
qed

lemma cstr_at_eqI:
  assumes "length cs < n" and "\<And>i. i < length cs \<Longrightarrow> m (a + of_nat i) = cs ! i"
    and "m (a + of_nat (length cs)) = 0" and "0 \<notin> set cs"
  shows "cstr_at m a n = cs"
  using assms
proof (induction cs arbitrary: a n)
  case Nil
  then show ?case by (cases n) (simp_all add: cstr_at_Suc)
next
  case (Cons c cs)
  from Cons.prems(1) obtain n' where n: "n = Suc n'" by (cases n) auto
  have "cstr_at m (a + 1) n' = cs"
  proof (rule Cons.IH)
    show "length cs < n'" using Cons.prems(1) n by simp
    show "m (a + 1 + of_nat i) = cs ! i" if "i < length cs" for i
      using Cons.prems(2) [of "Suc i"] that by (simp add: ac_simps)
    show "m (a + 1 + of_nat (length cs)) = 0"
      using Cons.prems(3) by (simp add: ac_simps)
    show "0 \<notin> set cs" using Cons.prems(4) by simp
  qed
  moreover have "m a = c" "c \<noteq> 0" using Cons.prems(2) [of 0] Cons.prems(4) by auto
  ultimately show ?case by (simp add: n cstr_at_Suc)
qed

lemma strncpy_bytes:
  assumes "0 \<le> n" and "n < 2 ^ 31" and "apart s t (nat n)"
  shows "bytes_at (strncpy m s t n) s (nat n) =
      cstr_at m t (nat n) @ replicate (nat n - length (cstr_at m t (nat n))) 0"
proof (rule bytes_at_eqI)
  let ?l = "length (cstr_at m t (nat n))"
  show "length (cstr_at m t (nat n) @ replicate (nat n - ?l) 0) = nat n"
    using length_cstr_at [of m t "nat n"] by simp
  fix i assume i: "i < nat n"
  then have u: "unat (of_nat i :: u32) = i" using assms(2) by (simp add: unat_of_nat_id)
  have small: "nat n \<le> 2 ^ 32" using assms(2) by simp
  show "strncpy m s t n (s + of_nat i) = (cstr_at m t (nat n) @ replicate (nat n - ?l) 0) ! i"
    using i u by (simp add: strncpy_def strncpy_copy_pointwise [OF small assms(3)]
        nth_append cstr_at_nth)
qed

lemma safestrcpy_cstr:
  assumes "0 < n" and "n < 2 ^ 31" and "apart s t (nat n)"
  shows "cstr_at (safestrcpy m s t n) s (nat n) = cstr_at m t (nat n - 1)"
proof (rule cstr_at_eqI)
  let ?cs = "cstr_at m t (nat n - 1)"
  have le: "length ?cs \<le> nat n - 1" by (rule length_cstr_at)
  then show "length ?cs < nat n" using assms(1) by linarith
  have small: "nat n - 1 < 2 ^ 32 - 1" using assms(2) by simp
  have suc: "Suc (nat n - 1) = nat n" using assms(1) by simp
  have u: "unat (of_nat i :: u32) = i" if "i \<le> length ?cs" for i
    using that le assms(2) by (simp add: unat_of_nat_id)
  note pw = safestrcpy_copy_pointwise [OF small, unfolded suc, OF assms(3)]
  show "safestrcpy m s t n (s + of_nat i) = ?cs ! i" if "i < length ?cs" for i
    using that u [of i] assms(1) by (simp add: safestrcpy_def pw cstr_at_nth del: One_nat_def)
  show "safestrcpy m s t n (s + of_nat (length ?cs)) = 0"
    using u [of "length ?cs"] assms(1) by (simp add: safestrcpy_def pw del: One_nat_def)
  show "0 \<notin> set ?cs"
    by (metis (mono_tags, lifting) cstr_at_def set_takeWhileD)
qed

lemma string_copy_frame:
  assumes "0 < n" and "n < 2 ^ 31" and "apart s t (nat n)" and "nat n \<le> unat (x - s)"
  shows "strncpy m s t n x = m x" "safestrcpy m s t n x = m x"
proof -
  have small: "nat n \<le> 2 ^ 32" "nat n - 1 < 2 ^ 32 - 1" using assms(2) by simp_all
  have suc: "Suc (nat n - 1) = nat n" using assms(1) by simp
  show "strncpy m s t n x = m x"
    using assms(4) by (simp add: strncpy_def strncpy_copy_pointwise [OF small(1) assms(3)])
  let ?l = "length (cstr_at m t (nat n - 1))"
  have le: "?l \<le> nat n - 1" by (rule length_cstr_at)
  have far: "x \<noteq> s + of_nat k" if "k < nat n" for k
    using that assms(2,4) by (auto simp: unat_of_nat_id)
  have "x \<noteq> s + of_nat ?l" using far [of ?l] le assms(1) by linarith
  moreover have "x \<noteq> s + of_nat ?l + 1" if "?l < nat n - 1"
    using far [of "Suc ?l"] that by (simp add: ac_simps)
  moreover have "\<not> unat (x - s) < ?l" using le assms(4) by linarith
  ultimately show "safestrcpy m s t n x = m x"
    using assms(1) safestrcpy_copy_pointwise [OF small(2), unfolded suc, OF assms(3), of m x]
    by (auto simp: safestrcpy_def)
qed

lemma strlen_loop_found:
  assumes "\<And>i. i < k \<Longrightarrow> m (s + n + of_nat i) \<noteq> 0" and "m (s + n + of_nat k) = 0"
  shows "strlen_loop m s n = Some (n + of_nat k)"
  using assms
proof (induction k arbitrary: n)
  case 0
  then show ?case by (simp add: strlen_loop.simps)
next
  case (Suc k)
  have "m (s + n) \<noteq> 0" using Suc.prems(1) [of 0] by simp
  moreover have "strlen_loop m s (n + 1) = Some (n + 1 + of_nat k)"
  proof (rule Suc.IH)
    show "m (s + (n + 1) + of_nat i) \<noteq> 0" if "i < k" for i
      using Suc.prems(1) [of "Suc i"] that by (simp add: ac_simps)
    show "m (s + (n + 1) + of_nat k) = 0"
      using Suc.prems(2) by (simp add: ac_simps)
  qed
  ultimately show ?case
    by (subst strlen_loop.simps) (simp add: ac_simps)
qed

subsection \<open>Properties\<close>

text \<open>
  \<open>memmove\<close> copies exactly: afterwards the destination holds the n bytes the source held
  before, however the two regions overlap, and every byte outside the destination is unchanged.
\<close>

theorem memmove_copies:
  assumes "unat src + unat n < 2 ^ 32" and "unat dst + unat n < 2 ^ 32"
  shows "bytes_at (memmove m dst src n) dst (unat n) = bytes_at m src (unat n) \<and>
    (\<forall>x. unat n \<le> unat (x - dst) \<longrightarrow> memmove m dst src n x = m x)"
proof -
  have "memmove m dst src n (dst + of_nat i) = m (src + of_nat i)" if "i < unat n" for i
    using that assms(1) by (simp add: memmove_eq [OF assms] unat_of_nat_id)
  then have "bytes_at (memmove m dst src n) dst (unat n) = bytes_at m src (unat n)"
    by (simp add: bytes_at_def)
  then show ?thesis by (simp add: memmove_eq [OF assms])
qed

theorem memmove_copies_witness:
  "bytes_at (memmove (\<lambda>a. ucast a) 18 16 5) 18 5 = [16, 17, 18, 19, 20]"
proof -
  have "bytes_at (memmove (\<lambda>a. ucast a) 18 16 5) 18 (unat (5 :: u32)) =
      bytes_at (\<lambda>a. ucast a) 16 (unat (5 :: u32))"
    by (rule memmove_copies [of 16 5 18, THEN conjunct1]) simp_all
  then show ?thesis by (simp add: bytes_at_def upt_rec)
qed

text \<open>
  \<open>strncpy\<close> writes the source string, cut to n bytes and padded with zeros to exactly n
  bytes, and nothing else; \<open>safestrcpy\<close> leaves a NUL-terminated copy of at most n - 1 bytes.
\<close>

theorem bounded_string_copies:
  assumes "0 < n" and "n < 2 ^ 31" and "apart s t (nat n)"
  shows "bytes_at (strncpy m s t n) s (nat n) =
      cstr_at m t (nat n) @ replicate (nat n - length (cstr_at m t (nat n))) 0 \<and>
    cstr_at (safestrcpy m s t n) s (nat n) = cstr_at m t (nat n - 1) \<and>
    (\<forall>x. nat n \<le> unat (x - s) \<longrightarrow> strncpy m s t n x = m x \<and> safestrcpy m s t n x = m x)"
  using assms strncpy_bytes safestrcpy_cstr string_copy_frame by simp

theorem bounded_string_copies_witness:
  "bytes_at (strncpy ((\<lambda>_. 7)(32 := 104, 33 := 105, 34 := 0)) 16 32 4) 16 4 = [104, 105, 0, 0]"
proof -
  have "apart 16 32 (nat 4)" by (rule apartI) simp_all
  moreover have "replicate 2 (0 :: u8) = [0, 0]" by (simp add: numeral_2_eq_2)
  ultimately show ?thesis
    using bounded_string_copies [of 4 16 32 "(\<lambda>_. 7)(32 := 104, 33 := 105, 34 := 0)"]
    by (simp add: cstr_at_def bytes_at_def upt_rec)
qed

text \<open>
  \<open>strlen\<close> returns, and returns the distance to the first NUL byte, whenever there is one;
  \<open>strncmp\<close> is zero exactly when the two strings, cut to n bytes, are equal.
\<close>

theorem strlen_strncmp_correct:
  assumes "\<And>i. i < k \<Longrightarrow> m (s + of_nat i) \<noteq> 0" and "m (s + of_nat k) = 0"
  shows "strlen m s = Some (of_nat k) \<and>
    (strncmp m p q n = 0 \<longleftrightarrow> cstr_at m p n = cstr_at m q n)"
  using strlen_loop_found [of k m s 0] assms by (simp add: strlen_def strncmp_cstr)

theorem strlen_strncmp_correct_witness:
  "strlen ((\<lambda>_. 65)(10 := 0)) 7 = Some 3"
proof -
  have "strlen ((\<lambda>_. 65)(10 := 0)) 7 = Some (of_nat 3)"
    by (rule strlen_strncmp_correct [of 3 "(\<lambda>_. 65)(10 := 0)" 7, THEN conjunct1])
      (auto simp: less_Suc_eq numeral_3_eq_3)
  then show ?thesis by simp
qed

end
