(* ===== verification/GfxNum.thy ===== *)
theory GfxNum
  imports Prelude
begin

text \<open>
  The number helpers of graphicsQueueables.c: absolute value, decimal printing and parsing, and
  the range limiters. A string argument is the byte buffer its pointer designates, from the
  pointer to the end of the object; a routine that runs off the buffer yields \<open>Inl Bounds\<close>.
\<close>

subsection \<open>Operations\<close>

definition SimpleAbs :: "int \<Rightarrow> int" where
  "SimpleAbs a = (if a < 0 then s32 (a * -1) else a)"

function GetIntLength_loop :: "int \<Rightarrow> int \<Rightarrow> int" where
  "GetIntLength_loop xCh iter =
     (if xCh > 0 then GetIntLength_loop (c_quot xCh 10) (iter + 1) else iter)"
  by pat_completeness auto
termination
  by (relation "measure (\<lambda>(xCh, iter). nat xCh)") (auto simp: c_quot_nonneg)

declare GetIntLength_loop.simps [simp del]

definition GetIntLength :: "int \<Rightarrow> int" where
  "GetIntLength x = GetIntLength_loop x (if x = 0 then 1 else 0)"

text \<open>The length of the NUL-terminated string at the start of a buffer.\<close>

definition buf_strlen :: "u8 list \<Rightarrow> nat res" where
  "buf_strlen bs = (if 0 \<in> set bs then Inr (length (takeWhile (\<lambda>c. c \<noteq> 0) bs)) else Inl Bounds)"

text \<open>\<open>for (x = strlen - 1; x >= 0; x--)\<close>; the counter here is \<open>x + 1\<close>.\<close>

fun ParseInt_loop :: "u8 list \<Rightarrow> nat \<Rightarrow> int \<Rightarrow> int \<Rightarrow> int" where
  "ParseInt_loop bs 0 holder offsetMP = holder"
| "ParseInt_loop bs (Suc x) holder offsetMP =
     ParseInt_loop bs x (s32 (holder + s32 ((sint (bs ! x) - 48) * offsetMP))) (s32 (offsetMP * 10))"

definition ParseInt :: "u8 list \<Rightarrow> int res" where
  "ParseInt charToInt =
     bindR (buf_strlen charToInt) (\<lambda>n. Inr (ParseInt_loop charToInt n 0 1))"

text \<open>\<open>for (y = 1; y < len - x; y++) power *= 10\<close>, run \<open>len - x - 1\<close> times.\<close>

fun ParseChar_power :: "nat \<Rightarrow> int \<Rightarrow> int" where
  "ParseChar_power 0 pw = pw"
| "ParseChar_power (Suc y) pw = ParseChar_power y (s32 (pw * 10))"

text \<open>The outer loop, with \<open>len - x\<close> as its counter.\<close>

fun ParseChar_loop :: "int \<Rightarrow> int \<Rightarrow> nat \<Rightarrow> u8 list \<Rightarrow> u8 list res" where
  "ParseChar_loop intToChar len 0 outChar = Inr outChar"
| "ParseChar_loop intToChar len (Suc k) outChar =
     bindR (array_set outChar (len - int (Suc k))
         (word_of_int (c_rem (c_quot intToChar (ParseChar_power k 1)) 10 + 48)))
       (ParseChar_loop intToChar len k)"

definition ParseChar :: "int \<Rightarrow> u8 list \<Rightarrow> u8 list res" where
  "ParseChar intToChar outChar =
     (let len = GetIntLength intToChar in
      bindR (ParseChar_loop intToChar len (nat len) outChar)
        (\<lambda>outChar. array_set outChar len 0))"

text \<open>
  Both limiters also print a warning when they change the value; the second component says
  whether they do.
\<close>

definition ValueCapper :: "int \<Rightarrow> int \<Rightarrow> int \<times> bool" where
  "ValueCapper a capacity =
     (let warned = (a > capacity \<or> a < 0);
          a = (if a > capacity then capacity else a);
          a = (if a < 0 then 0 else a)
      in (a, warned))"

definition ValueCapperChar :: "u8 list \<Rightarrow> int \<Rightarrow> (int \<times> bool) res" where
  "ValueCapperChar a capacity =
     bindR (ParseInt a) (\<lambda>parsed.
       let warned = (parsed > capacity \<or> parsed < 0);
           parsed = (if parsed > capacity then capacity else parsed);
           parsed = (if parsed < 0 then 0 else parsed)
       in Inr (parsed, warned))"

subsection \<open>Decimal digits\<close>

lemma ValueCapper_range: "0 \<le> cap \<Longrightarrow> 0 \<le> fst (ValueCapper a cap) \<and> fst (ValueCapper a cap) \<le> cap"
  by (simp add: ValueCapper_def Let_def)

lemma ValueCapper_id: "0 \<le> a \<Longrightarrow> a \<le> cap \<Longrightarrow> ValueCapper a cap = (a, False)"
  by (simp add: ValueCapper_def Let_def)

lemma ValueCapperChar_eq: "ValueCapperChar a cap = bindR (ParseInt a) (\<lambda>v. Inr (ValueCapper v cap))"
  by (simp add: ValueCapperChar_def ValueCapper_def Let_def)

text \<open>The number of decimal digits of a natural number (one for zero).\<close>

fun ndigits :: "nat \<Rightarrow> nat" where
  "ndigits n = (if n < 10 then 1 else Suc (ndigits (n div 10)))"

declare ndigits.simps [simp del]

lemma ndigits_pos: "0 < ndigits n"
  by (simp add: ndigits.simps [of n])

lemma less_10_pow_ndigits: "n < 10 ^ ndigits n"
proof (induction n rule: ndigits.induct)
  case (1 n)
  show ?case
  proof (cases "n < 10")
    case True
    then show ?thesis by (simp add: ndigits.simps [of n])
  next
    case False
    with 1 have "n div 10 < 10 ^ ndigits (n div 10)" by simp
    then have "n < 10 * 10 ^ ndigits (n div 10)" by (simp add: div_less_iff_less_mult mult.commute)
    with False show ?thesis by (simp add: ndigits.simps [of n])
  qed
qed

lemma ndigits_le: "n < 10 ^ k \<Longrightarrow> 0 < k \<Longrightarrow> ndigits n \<le> k"
proof (induction n arbitrary: k rule: ndigits.induct)
  case (1 n)
  show ?case
  proof (cases "n < 10")
    case True
    then show ?thesis using "1.prems"(2) by (simp add: ndigits.simps [of n])
  next
    case False
    with "1.prems" obtain j where k: "k = Suc j" "0 < j"
      by (metis One_nat_def neq0_conv not0_implies_Suc power_one_right)
    with "1.prems" have "n div 10 < 10 ^ j" by (simp add: div_less_iff_less_mult mult.commute)
    with "1.IH" [OF False] k False show ?thesis by (simp add: ndigits.simps [of n])
  qed
qed

lemma GetIntLength_loop_eq: "0 < n \<Longrightarrow> GetIntLength_loop (int n) i = i + int (ndigits n)"
proof (induction n arbitrary: i rule: ndigits.induct)
  case (1 n)
  have q: "c_quot (int n) 10 = int (n div 10)" by (simp add: c_quot_nonneg zdiv_int)
  show ?case
  proof (cases "n < 10")
    case True
    then show ?thesis
      using "1.prems" q
      by (simp add: GetIntLength_loop.simps [of "int n"] GetIntLength_loop.simps [of 0] ndigits.simps [of n])
  next
    case False
    then have "0 < n div 10" by auto
    with "1.IH" [OF False] False "1.prems" q show ?thesis
      by (simp add: GetIntLength_loop.simps [of "int n"] ndigits.simps [of n])
  qed
qed

lemma GetIntLength_eq: "0 \<le> v \<Longrightarrow> GetIntLength v = int (ndigits (nat v))"
  using GetIntLength_loop_eq [of "nat v" 0]
  by (cases "v = 0") (auto simp: GetIntLength_def GetIntLength_loop.simps [of 0] ndigits.simps [of 0])

lemma GetIntLength_neg: "v < 0 \<Longrightarrow> GetIntLength v = 0"
  by (simp add: GetIntLength_def GetIntLength_loop.simps [of v])

text \<open>The n low decimal digits of v, most significant first, as ASCII bytes.\<close>

definition digit_byte :: "int \<Rightarrow> nat \<Rightarrow> u8" where
  "digit_byte v k = word_of_int (v div 10 ^ k mod 10 + 48)"

definition dec_digits :: "int \<Rightarrow> nat \<Rightarrow> u8 list" where
  "dec_digits v n = map (digit_byte v) (rev [0..<n])"

lemma dec_digits_0 [simp]: "dec_digits v 0 = []"
  by (simp add: dec_digits_def)

lemma dec_digits_Suc: "dec_digits v (Suc n) = digit_byte v n # dec_digits v n"
  by (simp add: dec_digits_def)

lemma length_dec_digits [simp]: "length (dec_digits v n) = n"
  by (simp add: dec_digits_def)

lemma dec_digits_nth: "x < n \<Longrightarrow> dec_digits v n ! x = digit_byte v (n - Suc x)"
  by (simp add: dec_digits_def rev_nth)

lemma uint_digit_byte: "uint (digit_byte v k) = v div 10 ^ k mod 10 + 48"
proof -
  have "0 \<le> v div 10 ^ k mod 10" "v div 10 ^ k mod 10 < 10" by simp_all
  then show ?thesis unfolding digit_byte_def by (intro uint_word_of_int_id) simp_all
qed

lemma digit_byte_nonzero: "digit_byte v k \<noteq> 0"
proof
  assume "digit_byte v k = 0"
  then have "v div 10 ^ k mod 10 + 48 = 0" using uint_digit_byte [of v k] by simp
  moreover have "0 \<le> v div 10 ^ k mod 10" by simp
  ultimately show False by linarith
qed

lemma sint_digit_byte: "sint (digit_byte v k) - 48 = v div 10 ^ k mod 10"
proof -
  have b: "0 \<le> v div 10 ^ k mod 10" "v div 10 ^ k mod 10 < 10" by simp_all
  have "sint (digit_byte v k) = signed_take_bit 7 (uint (digit_byte v k))"
    by (simp add: sint_uint)
  also have "\<dots> = v div 10 ^ k mod 10 + 48"
    unfolding uint_digit_byte by (rule signed_take_bit_int_eq_self) (use b in simp_all)
  finally show ?thesis by simp
qed

lemma s32_small: "0 \<le> x \<Longrightarrow> x < 2147483648 \<Longrightarrow> s32 x = x"
  by (rule s32_id) (simp add: is_s32_def)

lemma ten_pow_bound: "k \<le> 9 \<Longrightarrow> (10::int) ^ k \<le> 1000000000"
  using power_increasing [of k 9 "10::int"] by simp

lemma ParseChar_power_eq: "j + k \<le> 9 \<Longrightarrow> ParseChar_power k (10 ^ j) = 10 ^ (j + k)"
proof (induction k arbitrary: j)
  case 0
  then show ?case by simp
next
  case (Suc k)
  have "s32 (10 ^ j * 10) = (10::int) ^ Suc j"
    using ten_pow_bound [of "Suc j"] Suc.prems by (simp add: s32_small mult.commute)
  with Suc.IH [of "Suc j"] Suc.prems show ?case by simp
qed

lemma ParseChar_loop_eq:
  assumes "0 \<le> v" and "len \<le> 10" and "len \<le> length out" and "k \<le> len"
  shows "ParseChar_loop v (int len) k out =
    Inr (take (len - k) out @ dec_digits v k @ drop len out)"
  using assms(3,4)
proof (induction k arbitrary: out)
  case 0
  then show ?case by simp
next
  case (Suc k)
  have pw: "ParseChar_power k 1 = 10 ^ k"
    using ParseChar_power_eq [of 0 k] Suc.prems(2) assms(2) by simp
  have d: "word_of_int (c_rem (c_quot v (ParseChar_power k 1)) 10 + 48) = digit_byte v k"
    using assms(1) by (simp add: pw digit_byte_def c_quot_nonneg c_rem_nonneg pos_imp_zdiv_nonneg_iff)
  let ?i = "len - Suc k"
  have idx: "int len - int (Suc k) = int ?i" "?i < length out" "len - k = Suc ?i"
    using Suc.prems by auto
  have "array_set out (int len - int (Suc k)) (digit_byte v k) = Inr (out[?i := digit_byte v k])"
    unfolding idx(1) using idx(2) by (simp add: array_set_def)
  then have "ParseChar_loop v (int len) (Suc k) out =
      ParseChar_loop v (int len) k (out[?i := digit_byte v k])"
    unfolding ParseChar_loop.simps d by simp
  also have "\<dots> = Inr (take (len - k) (out[?i := digit_byte v k]) @ dec_digits v k @
      drop len (out[?i := digit_byte v k]))"
    using Suc.IH [of "out[?i := digit_byte v k]"] Suc.prems by simp
  also have "take (len - k) (out[?i := digit_byte v k]) = take ?i out @ [digit_byte v k]"
    unfolding idx(3) using idx(2) by (simp add: take_Suc_conv_app_nth)
  also have "drop len (out[?i := digit_byte v k]) = drop len out"
    using Suc.prems by simp
  finally show ?case by (simp add: dec_digits_Suc)
qed

lemma ParseChar_eq:
  assumes "0 \<le> v" and "v < 2147483648" and "ndigits (nat v) < length out"
  shows "ParseChar v out =
    Inr (dec_digits v (ndigits (nat v)) @ 0 # drop (Suc (ndigits (nat v))) out)"
proof -
  let ?n = "ndigits (nat v)"
  have "nat v < 10 ^ 10" using assms(2) by simp
  then have n10: "?n \<le> 10" by (rule ndigits_le) simp
  have "ParseChar_loop v (int ?n) ?n out = Inr (dec_digits v ?n @ drop ?n out)"
    using ParseChar_loop_eq [OF assms(1) n10, of out ?n] assms(3) by simp
  moreover have "array_set (dec_digits v ?n @ drop ?n out) (int ?n) 0 =
      Inr ((dec_digits v ?n @ drop ?n out)[?n := 0])"
    using assms(3) by (simp add: array_set_def)
  moreover have "(dec_digits v ?n @ drop ?n out)[?n := 0] = dec_digits v ?n @ 0 # drop (Suc ?n) out"
    using assms(3) by (simp add: list_update_append Cons_nth_drop_Suc [symmetric])
  ultimately show ?thesis
    using assms(1) by (simp add: ParseChar_def GetIntLength_eq Let_def)
qed

lemma ParseChar_neg: "v < 0 \<Longrightarrow> out \<noteq> [] \<Longrightarrow> ParseChar v out = Inr (out[0 := 0])"
  by (cases out) (simp_all add: ParseChar_def GetIntLength_neg array_set_def)

lemma buf_strlen_digits: "buf_strlen (dec_digits v n @ 0 # rest) = Inr n"
proof -
  have nz: "c \<noteq> 0" if "c \<in> set (dec_digits v n)" for c
    using that digit_byte_nonzero by (auto simp: dec_digits_def)
  have "takeWhile (\<lambda>c. c \<noteq> 0) (dec_digits v n @ 0 # rest) = dec_digits v n"
    using nz by (subst takeWhile_append2) auto
  then show ?thesis by (simp add: buf_strlen_def)
qed

lemma ParseInt_loop_eq:
  assumes "0 \<le> v" and "v < 2147483648" and "n \<le> 10" and "j \<le> n"
    and bs: "\<And>x. x < n \<Longrightarrow> bs ! x = digit_byte v (n - Suc x)"
  shows "ParseInt_loop bs j (v mod 10 ^ (n - j)) (s32 (10 ^ (n - j))) = v mod 10 ^ n"
  using assms(4)
proof (induction j)
  case 0
  then show ?case by simp
next
  case (Suc j)
  let ?i = "n - Suc j"
  have i: "n - j = Suc ?i" "?i \<le> 9" using Suc.prems assms(3) by auto
  have mp: "s32 (10 ^ ?i) = 10 ^ ?i"
    using ten_pow_bound [OF i(2)] by (simp add: s32_small)
  let ?d = "v div 10 ^ ?i mod 10"
  have split: "v mod 10 ^ ?i + ?d * 10 ^ ?i = v mod 10 ^ Suc ?i"
    unfolding power_Suc2 by (subst zmod_zmult2_eq) (simp_all add: mult.commute)
  have le: "v mod 10 ^ Suc ?i \<le> v" using assms(1) by (simp add: zmod_le_nonneg_dividend)
  have nn: "0 \<le> v mod 10 ^ ?i" "0 \<le> ?d * 10 ^ ?i" by simp_all
  have "?d * 10 ^ ?i \<le> v" using split le nn by linarith
  then have p: "s32 (?d * 10 ^ ?i) = ?d * 10 ^ ?i"
    using nn assms(2) by (intro s32_small) simp_all
  have q: "s32 (v mod 10 ^ ?i + ?d * 10 ^ ?i) = v mod 10 ^ Suc ?i"
    unfolding split using le assms(2) by (intro s32_small) simp_all
  have byte: "sint (bs ! j) - 48 = ?d"
    using bs [of j] Suc.prems by (simp add: sint_digit_byte)
  have "ParseInt_loop bs (Suc j) (v mod 10 ^ ?i) (s32 (10 ^ ?i)) =
      ParseInt_loop bs j (v mod 10 ^ (n - j)) (s32 (10 ^ (n - j)))"
    unfolding ParseInt_loop.simps byte mp p q i(1) by (simp add: mult.commute)
  with Suc show ?case by simp
qed

lemma ParseInt_digits:
  assumes "0 \<le> v" and "v < 2147483648" and "n = ndigits (nat v)"
  shows "ParseInt (dec_digits v n @ 0 # rest) = Inr v"
proof -
  have "nat v < 10 ^ 10" using assms(2) by simp
  then have n10: "n \<le> 10" unfolding assms(3) by (rule ndigits_le) simp
  have "(dec_digits v n @ 0 # rest) ! x = digit_byte v (n - Suc x)" if "x < n" for x
    using that by (simp add: nth_append dec_digits_nth)
  from ParseInt_loop_eq [OF assms(1,2) n10 order_refl this]
  have "ParseInt_loop (dec_digits v n @ 0 # rest) n 0 1 = v mod 10 ^ n"
    by (simp add: s32_small)
  also have "\<dots> = v"
  proof (rule mod_pos_pos_trivial [OF assms(1)])
    have "int (nat v) < int (10 ^ n)" unfolding assms(3) of_nat_less_iff by (rule less_10_pow_ndigits)
    then show "v < 10 ^ n" using assms(1) by simp
  qed
  finally show ?thesis by (simp add: ParseInt_def buf_strlen_digits)
qed

subsection \<open>Properties\<close>

text \<open>
  A number written by ParseChar into a buffer with room for its digits and their NUL is read
  back by ParseInt as the same number, for every non-negative int.
\<close>

theorem ParseInt_ParseChar:
  assumes "0 \<le> v" "v < 2147483648" "ndigits (nat v) < length out"
  shows "\<exists>out'. ParseChar v out = Inr out' \<and> length out' = length out \<and> ParseInt out' = Inr v"
  using ParseChar_eq [OF assms] ParseInt_digits [OF assms(1,2)] assms(3) by auto

theorem ParseInt_ParseChar_witness:
  "\<exists>out'. ParseChar 2147483647 (replicate 11 0) = Inr out' \<and> ParseInt out' = Inr 2147483647"
proof -
  have "ndigits 2147483647 \<le> 10" by (rule ndigits_le) simp_all
  then show ?thesis using ParseInt_ParseChar [of 2147483647 "replicate 11 0"] by auto
qed

end
