(* ===== verification/GfxDraw.thy ===== *)
theory GfxDraw
  imports GfxNum
begin

text \<open>
  The device contexts of hdc.h and the drawing primitives of graphicsQueueables.c: setting a
  pixel of the 320x200 frame buffer, moving the graphics cursor, the two Bresenham plotters and
  the line drawer that chooses between them. The locale \<open>bresenham\<close> states what a plotter loop
  is, over whatever sets a pixel; it is interpreted on both plotters, which differ only in which
  coordinate they step along.
\<close>

subsection \<open>State\<close>

text \<open>The functions a command buffer can point to; the source stores their addresses.\<close>

datatype queuedFn =
  FnPixelSetterFuncQueue | FnLineDrawFunc | FnMovePosFunc | FnDeclarePenFunc | FnGetPenFunc | FnDrawRect

text \<open>An \<open>argVal\<close> is its array of 100 characters.\<close>

type_synonym argVal = "u8 list"

record commandBuffer =
  queuedAction :: queuedFn
  cmd_args :: "argVal list"
  lastArgSet :: int
  buffset :: int

record hdc =
  hdc_init :: int
  hdc_x :: int
  hdc_y :: int
  penIndex :: int
  commandQueue :: "commandBuffer list"
  queueEnd :: int

text \<open>
  The graphics state: the static array of device contexts, the frame buffer at 0xA0000 (indexed
  by the \<open>ushort\<close> offset the source computes), the bytes written to I/O ports so far, oldest
  first, the console messages printed so far, and the lock-initialised flag of graphics.c.
\<close>

record gfx =
  hdcObjects :: "hdc list"
  pixMem :: "u16 \<Rightarrow> u8"
  ports :: "(u16 \<times> u8) list"
  klog :: "string list"
  lockinit :: int

definition outb :: "u16 \<Rightarrow> u8 \<Rightarrow> gfx \<Rightarrow> gfx" where
  "outb port data s = s\<lparr>ports := ports s @ [(port, data)]\<rparr>"

definition cprintf :: "string \<Rightarrow> gfx \<Rightarrow> gfx" where
  "cprintf msg s = s\<lparr>klog := klog s @ [msg]\<rparr>"

subsection \<open>Primitives\<close>

definition upd_hdc :: "int \<Rightarrow> (hdc \<Rightarrow> hdc) \<Rightarrow> gfx \<Rightarrow> gfx res" where
  "upd_hdc i f s =
     bindR (array_get (hdcObjects s) i) (\<lambda>h.
       bindR (array_set (hdcObjects s) i (f h)) (\<lambda>hs. Inr (s\<lparr>hdcObjects := hs\<rparr>)))"

definition PixelSetterFunc :: "int \<Rightarrow> int \<Rightarrow> int \<Rightarrow> gfx \<Rightarrow> gfx res" where
  "PixelSetterFunc i px py s =
     bindR (array_get (hdcObjects s) i) (\<lambda>h.
       let offset = word_of_int (320 * py + px) :: u16
       in Inr (s\<lparr>pixMem := (pixMem s)(offset := word_of_int (penIndex h))\<rparr>))"

definition MovePos :: "int \<Rightarrow> int \<Rightarrow> int \<Rightarrow> gfx \<Rightarrow> gfx res" where
  "MovePos i px py s = upd_hdc i (\<lambda>h. h\<lparr>hdc_x := px, hdc_y := py\<rparr>) s"

function XIncPlotter_loop ::
  "int \<Rightarrow> int \<Rightarrow> int \<Rightarrow> int \<Rightarrow> int \<Rightarrow> int \<Rightarrow> int \<Rightarrow> int \<Rightarrow> gfx \<Rightarrow> gfx res" where
  "XIncPlotter_loop xInc yInc direc i curX x1 curY D s =
     (if curX \<le> x1
      then bindR (PixelSetterFunc i curX curY s) (\<lambda>s.
        let (curY, D) = (if D \<ge> 0 then (curY + direc, D - 2 * xInc) else (curY, D));
            D = D + 2 * yInc
        in XIncPlotter_loop xInc yInc direc i (curX + 1) x1 curY D s)
      else Inr s)"
  by pat_completeness auto
termination
  by (relation "measure (\<lambda>(_, _, _, _, curX, x1, _). nat (x1 + 1 - curX))") auto

definition XIncPlotter :: "int \<Rightarrow> int \<Rightarrow> int \<Rightarrow> int \<Rightarrow> int \<Rightarrow> gfx \<Rightarrow> gfx res" where
  "XIncPlotter x0 y0 x1 y1 i s =
     (let xInc = SimpleAbs (x1 - x0);
          yInc = SimpleAbs (y1 - y0);
          direc = (if y0 > y1 then -1 else 1)
      in XIncPlotter_loop xInc yInc direc i x0 x1 y0 (2 * yInc - xInc) s)"

function YIncPlotter_loop ::
  "int \<Rightarrow> int \<Rightarrow> int \<Rightarrow> int \<Rightarrow> int \<Rightarrow> int \<Rightarrow> int \<Rightarrow> int \<Rightarrow> gfx \<Rightarrow> gfx res" where
  "YIncPlotter_loop yInc xInc direc i curY y1 curX D s =
     (if curY \<le> y1
      then bindR (PixelSetterFunc i curX curY s) (\<lambda>s.
        let (curX, D) = (if D \<ge> 0 then (curX + direc, D - 2 * yInc) else (curX, D));
            D = D + 2 * xInc
        in YIncPlotter_loop yInc xInc direc i (curY + 1) y1 curX D s)
      else Inr s)"
  by pat_completeness auto
termination
  by (relation "measure (\<lambda>(_, _, _, _, curY, y1, _). nat (y1 + 1 - curY))") auto

declare XIncPlotter_loop.simps [simp del] YIncPlotter_loop.simps [simp del]

definition YIncPlotter :: "int \<Rightarrow> int \<Rightarrow> int \<Rightarrow> int \<Rightarrow> int \<Rightarrow> gfx \<Rightarrow> gfx res" where
  "YIncPlotter x0 y0 x1 y1 i s =
     (let xInc = SimpleAbs (x1 - x0);
          yInc = SimpleAbs (y1 - y0);
          direc = (if x0 > x1 then -1 else 1)
      in YIncPlotter_loop yInc xInc direc i y0 y1 x0 (2 * xInc - yInc) s)"

definition LineDraw :: "int \<Rightarrow> int \<Rightarrow> int \<Rightarrow> int \<Rightarrow> int \<Rightarrow> gfx \<Rightarrow> gfx res" where
  "LineDraw x0 y0 x1 y1 i s =
     (let xDif = x1 - x0; yDif = y1 - y0 in
      if SimpleAbs yDif < SimpleAbs xDif
      then if xDif \<le> 0 then XIncPlotter x1 y1 x0 y0 i s else XIncPlotter x0 y0 x1 y1 i s
      else if yDif \<le> 0 then YIncPlotter x1 y1 x0 y0 i s else YIncPlotter x0 y0 x1 y1 i s)"

text \<open>The filling loop \<open>for (y = bottom; y <= top; y++)\<close> that DrawRect and sys_fillrect share.\<close>

function fill_rows :: "int \<Rightarrow> int \<Rightarrow> int \<Rightarrow> int \<Rightarrow> int \<Rightarrow> gfx \<Rightarrow> gfx res" where
  "fill_rows left right topY i py s =
     (if py \<le> topY
      then bindR (LineDraw left py right py i s) (\<lambda>s. fill_rows left right topY i (py + 1) s)
      else Inr s)"
  by pat_completeness auto
termination
  by (relation "measure (\<lambda>(_, _, topY, _, py, _). nat (topY + 1 - py))") auto

declare fill_rows.simps [simp del]

subsection \<open>The plotter contract\<close>

text \<open>
  How far the minor coordinate has moved after k steps along the major one: \<open>k * dn / dm\<close>
  rounded to the nearest integer, halves upwards.
\<close>

definition bres :: "int \<Rightarrow> int \<Rightarrow> int \<Rightarrow> int" where
  "bres dm dn k = (2 * dn * k + dm) div (2 * dm)"

lemma bres_0: "0 \<le> dm \<Longrightarrow> bres dm dn 0 = 0"
  by (cases "dm = 0") (simp_all add: bres_def div_pos_pos_trivial)

lemma bres_bounds:
  assumes "0 < dm"
  shows "2 * dm * bres dm dn k \<le> 2 * dn * k + dm" "2 * dn * k + dm < 2 * dm * (bres dm dn k + 1)"
proof -
  have "2 * dn * k + dm = 2 * dm * bres dm dn k + (2 * dn * k + dm) mod (2 * dm)"
    by (simp add: bres_def)
  moreover have "0 \<le> (2 * dn * k + dm) mod (2 * dm)" "(2 * dn * k + dm) mod (2 * dm) < 2 * dm"
    using assms by simp_all
  ultimately show "2 * dm * bres dm dn k \<le> 2 * dn * k + dm"
    "2 * dn * k + dm < 2 * dm * (bres dm dn k + 1)"
    by (simp_all add: distrib_left)
qed

lemma bres_Suc:
  assumes "0 < dm" and "0 \<le> dn" and "dn \<le> dm"
  shows "bres dm dn (k + 1) =
    bres dm dn k + (if 0 \<le> 2 * dn * (k + 1) - 2 * dm * bres dm dn k - dm then 1 else 0)"
proof -
  let ?b = "bres dm dn k"
  note bb = bres_bounds [OF assms(1), of dn k]
  have eq: "2 * dn * (k + 1) + dm = 2 * dn * k + dm + 2 * dn"
    by (simp add: distrib_left)
  have quot: "(2 * dn * (k + 1) + dm) div (2 * dm) = q"
    if "2 * dm * q \<le> 2 * dn * (k + 1) + dm" "2 * dn * (k + 1) + dm < 2 * dm * (q + 1)" for q
    using that assms(1) by (intro int_div_pos_eq [where r = "2 * dn * (k + 1) + dm - 2 * dm * q"])
      (simp_all add: distrib_left)
  show ?thesis
  proof (cases "0 \<le> 2 * dn * (k + 1) - 2 * dm * ?b - dm")
    case True
    then have "bres dm dn (k + 1) = ?b + 1"
      unfolding bres_def [of dm dn "k + 1"]
      by (intro quot) (use bb eq assms in \<open>simp_all add: distrib_left\<close>)
    then show ?thesis using True by simp
  next
    case False
    then have "bres dm dn (k + 1) = ?b"
      unfolding bres_def [of dm dn "k + 1"]
      by (intro quot) (use bb eq assms in \<open>simp_all add: distrib_left\<close>)
    then show ?thesis using False by simp
  qed
qed

text \<open>Setting a list of pixels in order.\<close>

fun plot_all :: "('p \<Rightarrow> 's \<Rightarrow> 's res) \<Rightarrow> 'p list \<Rightarrow> 's \<Rightarrow> 's res" where
  "plot_all set_px [] s = Inr s"
| "plot_all set_px (p # ps) s = bindR (set_px p s) (plot_all set_px ps)"

lemma plot_all_Nil: "plot_all set_px [] = Inr"
  by (rule ext) simp

lemma plot_all_map: "plot_all set_px (map g ps) = plot_all (\<lambda>p. set_px (g p)) ps"
proof (induction ps)
  case Nil
  then show ?case by (simp add: plot_all_Nil)
next
  case (Cons p ps)
  then show ?case by (intro ext) simp
qed

text \<open>
  A plotter loop: it steps the major coordinate \<open>cur\<close> to \<open>hi\<close>, sets one pixel per step and moves
  the minor coordinate by \<open>direc\<close> when the error term D is not negative.
\<close>

locale bresenham =
  fixes plot :: "int \<Rightarrow> int \<Rightarrow> 's \<Rightarrow> 's res"
    and loop :: "int \<Rightarrow> int \<Rightarrow> int \<Rightarrow> int \<Rightarrow> int \<Rightarrow> int \<Rightarrow> int \<Rightarrow> 's \<Rightarrow> 's res"
  assumes loop_unfold: "loop dm dn direc cur hi minor D s =
    (if cur \<le> hi
     then bindR (plot cur minor s) (\<lambda>s.
       let (minor, D) = (if D \<ge> 0 then (minor + direc, D - 2 * dm) else (minor, D));
           D = D + 2 * dn
       in loop dm dn direc (cur + 1) hi minor D s)
     else Inr s)"
begin

lemma loop_from:
  assumes "0 < dm" and "0 \<le> dn" and "dn \<le> dm" and "0 \<le> k" and "k \<le> dm + 1"
    and "minor = n0 + direc * bres dm dn k" and "D = 2 * dn * (k + 1) - 2 * dm * bres dm dn k - dm"
  shows "loop dm dn direc (m0 + k) (m0 + dm) minor D s =
    plot_all (\<lambda>(a, b). plot a b) (map (\<lambda>j. (m0 + j, n0 + direc * bres dm dn j)) [k..dm]) s"
  using assms(4-7)
proof (induction "nat (dm + 1 - k)" arbitrary: k minor D s)
  case 0
  then show ?case by (subst loop_unfold) simp
next
  case (Suc t)
  then have le: "k \<le> dm" by linarith
  have up: "[k..dm] = k # [k + 1..dm]" using le by (rule upto_rec1)
  let ?r = "if D \<ge> 0 then (minor + direc, D - 2 * dm) else (minor, D)"
  have minor': "fst ?r = n0 + direc * bres dm dn (k + 1)"
    using bres_Suc [OF assms(1-3), of k] Suc.prems by (auto simp: distrib_left)
  have D': "snd ?r + 2 * dn = 2 * dn * (k + 1 + 1) - 2 * dm * bres dm dn (k + 1) - dm"
    using bres_Suc [OF assms(1-3), of k] Suc.prems by (auto simp: distrib_left)
  have IH: "loop dm dn direc (m0 + (k + 1)) (m0 + dm) (fst ?r) (snd ?r + 2 * dn) s' =
      plot_all (\<lambda>(a, b). plot a b) (map (\<lambda>j. (m0 + j, n0 + direc * bres dm dn j)) [k + 1..dm]) s'"
    for s'
    using Suc.hyps(2) le Suc.prems minor' D' by (intro Suc.hyps(1)) linarith+
  have "loop dm dn direc (m0 + k) (m0 + dm) minor D s =
      bindR (plot (m0 + k) minor s)
        (\<lambda>s. loop dm dn direc (m0 + (k + 1)) (m0 + dm) (fst ?r) (snd ?r + 2 * dn) s)"
    using le by (subst loop_unfold) (simp add: add.assoc split: if_splits)
  then show ?case
    unfolding IH up using Suc.prems(3) by simp
qed

lemma loop_line:
  assumes "0 \<le> dm" and "0 \<le> dn" and "dn \<le> dm"
  shows "loop dm dn direc m0 (m0 + dm) n0 (2 * dn - dm) s =
    plot_all (\<lambda>(a, b). plot a b) (map (\<lambda>j. (m0 + j, n0 + direc * bres dm dn j)) [0..dm]) s"
proof (cases "dm = 0")
  case True
  then show ?thesis
    by (subst loop_unfold) (simp add: loop_unfold [of _ _ _ "m0 + 1"] bres_def upto.simps plot_all_Nil)
next
  case False
  then show ?thesis
    using loop_from [of dm dn 0 n0 n0 direc "2 * dn - dm" m0 s] assms by (simp add: bres_0)
qed

end

interpretation xplot: bresenham "\<lambda>a b. PixelSetterFunc i a b"
    "\<lambda>dm dn direc cur hi minor D s. XIncPlotter_loop dm dn direc i cur hi minor D s" for i
  by unfold_locales (rule XIncPlotter_loop.simps)

interpretation yplot: bresenham "\<lambda>a b. PixelSetterFunc i b a"
    "\<lambda>dm dn direc cur hi minor D s. YIncPlotter_loop dm dn direc i cur hi minor D s" for i
  by unfold_locales (rule YIncPlotter_loop.simps)

subsection \<open>The points of a line\<close>

definition xline :: "int \<Rightarrow> int \<Rightarrow> int \<Rightarrow> int \<Rightarrow> (int \<times> int) list" where
  "xline x0 y0 x1 y1 =
     map (\<lambda>j. (x0 + j, y0 + (if y0 > y1 then -1 else 1) * bres (x1 - x0) \<bar>y1 - y0\<bar> j)) [0..x1 - x0]"

definition yline :: "int \<Rightarrow> int \<Rightarrow> int \<Rightarrow> int \<Rightarrow> (int \<times> int) list" where
  "yline x0 y0 x1 y1 =
     map (\<lambda>j. (x0 + (if x0 > x1 then -1 else 1) * bres (y1 - y0) \<bar>x1 - x0\<bar> j, y0 + j)) [0..y1 - y0]"

definition line_points :: "int \<Rightarrow> int \<Rightarrow> int \<Rightarrow> int \<Rightarrow> (int \<times> int) list" where
  "line_points x0 y0 x1 y1 =
     (if \<bar>y1 - y0\<bar> < \<bar>x1 - x0\<bar>
      then if x1 - x0 \<le> 0 then xline x1 y1 x0 y0 else xline x0 y0 x1 y1
      else if y1 - y0 \<le> 0 then yline x1 y1 x0 y0 else yline x0 y0 x1 y1)"

text \<open>Coordinates that a C \<open>int\<close> difference cannot overflow on; every screen position is one.\<close>

definition coord :: "int \<Rightarrow> bool" where
  "coord v \<longleftrightarrow> 0 \<le> v \<and> v < 1073741824"

definition on_screen :: "int \<Rightarrow> int \<Rightarrow> bool" where
  "on_screen px py \<longleftrightarrow> 0 \<le> px \<and> px \<le> 319 \<and> 0 \<le> py \<and> py \<le> 199"

lemma on_screen_coord: "on_screen px py \<Longrightarrow> coord px \<and> coord py"
  by (simp add: on_screen_def coord_def)

lemma SimpleAbs_eq: "coord a \<Longrightarrow> coord b \<Longrightarrow> SimpleAbs (a - b) = \<bar>a - b\<bar>"
  by (auto simp: SimpleAbs_def coord_def abs_if s32_id is_s32_def)

lemma XIncPlotter_points:
  assumes "coord x0" "coord y0" "coord x1" "coord y1" and "x0 \<le> x1" and "\<bar>y1 - y0\<bar> \<le> x1 - x0"
  shows "XIncPlotter x0 y0 x1 y1 i s =
    plot_all (\<lambda>(a, b). PixelSetterFunc i a b) (xline x0 y0 x1 y1) s"
proof -
  have abs: "SimpleAbs (x1 - x0) = x1 - x0" "SimpleAbs (y1 - y0) = \<bar>y1 - y0\<bar>"
    using assms by (simp_all add: SimpleAbs_eq)
  have "XIncPlotter_loop (x1 - x0) \<bar>y1 - y0\<bar> direc i x0 (x0 + (x1 - x0)) y0 (2 * \<bar>y1 - y0\<bar> - (x1 - x0)) s =
      plot_all (\<lambda>(a, b). PixelSetterFunc i a b)
        (map (\<lambda>j. (x0 + j, y0 + direc * bres (x1 - x0) \<bar>y1 - y0\<bar> j)) [0..x1 - x0]) s" for direc
    by (rule xplot.loop_line) (use assms in simp_all)
  then show ?thesis
    unfolding XIncPlotter_def Let_def xline_def abs by simp
qed

lemma YIncPlotter_points:
  assumes "coord x0" "coord y0" "coord x1" "coord y1" and "y0 \<le> y1" and "\<bar>x1 - x0\<bar> \<le> y1 - y0"
  shows "YIncPlotter x0 y0 x1 y1 i s =
    plot_all (\<lambda>(a, b). PixelSetterFunc i a b) (yline x0 y0 x1 y1) s"
proof -
  have abs: "SimpleAbs (y1 - y0) = y1 - y0" "SimpleAbs (x1 - x0) = \<bar>x1 - x0\<bar>"
    using assms by (simp_all add: SimpleAbs_eq)
  have "YIncPlotter_loop (y1 - y0) \<bar>x1 - x0\<bar> direc i y0 (y0 + (y1 - y0)) x0 (2 * \<bar>x1 - x0\<bar> - (y1 - y0)) s =
      plot_all (\<lambda>(a, b). PixelSetterFunc i b a)
        (map (\<lambda>j. (y0 + j, x0 + direc * bres (y1 - y0) \<bar>x1 - x0\<bar> j)) [0..y1 - y0]) s" for direc
    by (rule yplot.loop_line) (use assms in simp_all)
  then show ?thesis
    unfolding YIncPlotter_def Let_def yline_def abs plot_all_map by simp
qed

lemma LineDraw_points:
  assumes "coord x0" "coord y0" "coord x1" "coord y1"
  shows "LineDraw x0 y0 x1 y1 i s =
    plot_all (\<lambda>(a, b). PixelSetterFunc i a b) (line_points x0 y0 x1 y1) s"
  using assms unfolding LineDraw_def line_points_def Let_def
  by (simp add: SimpleAbs_eq XIncPlotter_points YIncPlotter_points)

text \<open>The major coordinate runs over the whole extent, so the minor one stays within its own.\<close>

lemma bres_range:
  assumes "0 < dm" "0 \<le> dn" "0 \<le> j" "j \<le> dm"
  shows "0 \<le> bres dm dn j" "bres dm dn j \<le> dn"
proof -
  have "0 \<le> 2 * dn * j + dm" using assms by simp
  then show "0 \<le> bres dm dn j" using assms(1) by (simp add: bres_def pos_imp_zdiv_nonneg_iff)
  have "2 * dn * j \<le> 2 * dn * dm" using assms by (simp add: mult_left_mono)
  then have "2 * dn * j + dm < 2 * dm * (dn + 1)" using assms(1) by (simp add: algebra_simps)
  then have "2 * dm * bres dm dn j < 2 * dm * (dn + 1)"
    using bres_bounds(1) [OF assms(1), of dn j] by linarith
  then have "bres dm dn j < dn + 1" using assms(1) by simp
  then show "bres dm dn j \<le> dn" by simp
qed

lemma bres_end:
  assumes "0 < dm" "0 \<le> dn"
  shows "bres dm dn dm = dn"
proof -
  have "dn < bres dm dn dm + 1"
  proof -
    have "2 * dn * dm = 2 * dm * dn" by simp
    then have "2 * dm * dn < 2 * dm * (bres dm dn dm + 1)"
      using bres_bounds(2) [OF assms(1), of dn dm] assms(1) by linarith
    then show ?thesis using assms(1) by simp
  qed
  with bres_range(2) [OF assms(1,2), of dm] assms(1) show ?thesis by simp
qed

lemma bres_error: "0 < dm \<Longrightarrow> \<bar>2 * (dn * j - dm * bres dm dn j)\<bar> \<le> dm"
  using bres_bounds [of dm dn j] by (simp add: algebra_simps)

text \<open>
  A set of points is a faithful line from one end to the other when it holds both ends, stays in
  their bounding box and has each point within half a pixel of the ideal line, measured along
  the minor axis (the cross product is the distance times the major extent).
\<close>

definition near_line :: "int \<Rightarrow> int \<Rightarrow> int \<Rightarrow> int \<Rightarrow> int \<times> int \<Rightarrow> bool" where
  "near_line x0 y0 x1 y1 p \<longleftrightarrow>
     min x0 x1 \<le> fst p \<and> fst p \<le> max x0 x1 \<and> min y0 y1 \<le> snd p \<and> snd p \<le> max y0 y1 \<and>
     2 * \<bar>(fst p - x0) * (y1 - y0) - (snd p - y0) * (x1 - x0)\<bar> \<le> max \<bar>x1 - x0\<bar> \<bar>y1 - y0\<bar>"

lemma near_line_swap: "near_line x1 y1 x0 y0 p = near_line x0 y0 x1 y1 p"
proof -
  have "(fst p - x1) * (y0 - y1) - (snd p - y1) * (x0 - x1) =
      - ((fst p - x0) * (y1 - y0) - (snd p - y0) * (x1 - x0))"
    by (simp add: algebra_simps)
  then have "\<bar>(fst p - x1) * (y0 - y1) - (snd p - y1) * (x0 - x1)\<bar> =
      \<bar>(fst p - x0) * (y1 - y0) - (snd p - y0) * (x1 - x0)\<bar>"
    by (metis abs_minus_cancel)
  then show ?thesis
    unfolding near_line_def by (simp add: min.commute max.commute abs_minus_commute)
qed

lemma near_line_flip: "near_line x0 y0 x1 y1 (a, b) = near_line y0 x0 y1 x1 (b, a)"
proof -
  have "\<bar>(a - x0) * (y1 - y0) - (b - y0) * (x1 - x0)\<bar> =
      \<bar>(b - y0) * (x1 - x0) - (a - x0) * (y1 - y0)\<bar>"
    by (rule abs_minus_commute)
  then show ?thesis
    unfolding near_line_def by (simp add: max.commute) blast
qed

lemma xline_near:
  assumes "0 < x1 - x0" and "\<bar>y1 - y0\<bar> \<le> x1 - x0" and "p \<in> set (xline x0 y0 x1 y1)"
  shows "near_line x0 y0 x1 y1 p"
proof -
  let ?d = "if y0 > y1 then -1 else 1 :: int"
  from assms(3) obtain j where j: "0 \<le> j" "j \<le> x1 - x0"
    and p: "p = (x0 + j, y0 + ?d * bres (x1 - x0) \<bar>y1 - y0\<bar> j)"
    by (auto simp: xline_def)
  let ?b = "bres (x1 - x0) \<bar>y1 - y0\<bar> j"
  note rng = bres_range [OF assms(1) abs_ge_zero j, of "y1 - y0"]
  have "(fst p - x0) * (y1 - y0) - (snd p - y0) * (x1 - x0) =
      ?d * (\<bar>y1 - y0\<bar> * j - (x1 - x0) * ?b)"
    unfolding p fst_conv snd_conv by (cases "y0 > y1") (simp_all add: algebra_simps)
  then have cross: "\<bar>(fst p - x0) * (y1 - y0) - (snd p - y0) * (x1 - x0)\<bar> =
      \<bar>\<bar>y1 - y0\<bar> * j - (x1 - x0) * ?b\<bar>"
    by (simp add: abs_mult)
  have err: "2 * \<bar>\<bar>y1 - y0\<bar> * j - (x1 - x0) * ?b\<bar> \<le> x1 - x0"
    using bres_error [OF assms(1), of "\<bar>y1 - y0\<bar>" j] by (simp only: abs_mult abs_numeral)
  have bx: "min x0 x1 \<le> fst p" "fst p \<le> max x0 x1" using p j assms(1) by auto
  have "min y0 y1 \<le> y0 + ?d * ?b \<and> y0 + ?d * ?b \<le> max y0 y1"
    using rng by (cases "y0 > y1") simp_all
  then have by': "min y0 y1 \<le> snd p" "snd p \<le> max y0 y1" using p by simp_all
  have "x1 - x0 \<le> max \<bar>x1 - x0\<bar> \<bar>y1 - y0\<bar>" by simp
  with err have "2 * \<bar>(fst p - x0) * (y1 - y0) - (snd p - y0) * (x1 - x0)\<bar> \<le> max \<bar>x1 - x0\<bar> \<bar>y1 - y0\<bar>"
    unfolding cross by (rule order_trans)
  with bx by' show ?thesis unfolding near_line_def by blast
qed

text \<open>The vertical walk is the horizontal one with the coordinates exchanged.\<close>

lemma yline_xline: "yline x0 y0 x1 y1 = map prod.swap (xline y0 x0 y1 x1)"
  by (simp add: yline_def xline_def)

lemma xline_ends:
  assumes "0 < x1 - x0"
  shows "(x0, y0) \<in> set (xline x0 y0 x1 y1)" "(x1, y1) \<in> set (xline x0 y0 x1 y1)"
proof -
  have "(x0 + 0, y0 + (if y0 > y1 then -1 else 1) * bres (x1 - x0) \<bar>y1 - y0\<bar> 0) \<in> set (xline x0 y0 x1 y1)"
    unfolding xline_def set_map using assms by (intro imageI) simp
  then show "(x0, y0) \<in> set (xline x0 y0 x1 y1)" using assms by (simp add: bres_0)
  have "(x0 + (x1 - x0), y0 + (if y0 > y1 then -1 else 1) * bres (x1 - x0) \<bar>y1 - y0\<bar> (x1 - x0))
      \<in> set (xline x0 y0 x1 y1)"
    unfolding xline_def set_map using assms by (intro imageI) simp
  then show "(x1, y1) \<in> set (xline x0 y0 x1 y1)"
    using bres_end [OF assms abs_ge_zero, of "y1 - y0"] by (simp split: if_splits)
qed

lemma line_points_spec:
  "(x0, y0) \<in> set (line_points x0 y0 x1 y1) \<and> (x1, y1) \<in> set (line_points x0 y0 x1 y1) \<and>
   (\<forall>p \<in> set (line_points x0 y0 x1 y1). near_line x0 y0 x1 y1 p) \<and>
   length (line_points x0 y0 x1 y1) = nat (max \<bar>x1 - x0\<bar> \<bar>y1 - y0\<bar>) + 1"
proof (cases "x0 = x1 \<and> y0 = y1")
  case True
  then show ?thesis by (simp add: line_points_def yline_def bres_def near_line_def)
next
  case False
  have len: "length (xline a b c d) = nat (c - a) + 1" if "a \<le> c" for a b c d
    using that by (simp add: xline_def)
  show ?thesis
  proof (cases "\<bar>y1 - y0\<bar> < \<bar>x1 - x0\<bar>")
    case steep: True
    show ?thesis
    proof (cases "x1 - x0 \<le> 0")
      case True
      then have "0 < x0 - x1" using steep by linarith
      with steep True xline_ends [of x0 x1] xline_near [of x0 x1 y0 y1] len [of x1 x0 y1 y0]
      show ?thesis
        by (auto simp: line_points_def near_line_swap [of x1 y1] abs_minus_commute max_def)
    next
      case False
      with steep xline_ends [of x1 x0] xline_near [of x1 x0 y1 y0] len [of x0 x1 y0 y1]
      show ?thesis by (auto simp: line_points_def max_def)
    qed
  next
    case flat: False
    have near: "near_line a b c d p" if "p \<in> set (yline a b c d)" "0 < d - b" "\<bar>c - a\<bar> \<le> d - b"
      for a b c d p
      using that xline_near [of d b c a "prod.swap p"] near_line_flip [of a b c d "fst p" "snd p"]
      by (auto simp: yline_xline)
    have ends: "(a, b) \<in> set (yline a b c d)" "(c, d) \<in> set (yline a b c d)" if "0 < d - b" for a b c d
      using xline_ends [OF that] by (force simp: yline_xline)+
    have leny: "length (yline a b c d) = nat (d - b) + 1" if "b \<le> d" for a b c d
      using that len by (simp add: yline_xline)
    show ?thesis
    proof (cases "y1 - y0 \<le> 0")
      case True
      then have "0 < y0 - y1" using flat False by linarith
      with flat True near [of _ x1 y1 x0 y0] ends [of y0 y1] leny [of y1 y0 x1 x0]
      show ?thesis
        by (auto simp: line_points_def near_line_swap [of x1 y1] abs_minus_commute max_def)
    next
      case False
      with flat near [of _ x0 y0 x1 y1] ends [of y1 y0] leny [of y0 y1 x0 x1]
      show ?thesis by (auto simp: line_points_def max_def)
    qed
  qed
qed

text \<open>Exactly one point for each step along the longer extent.\<close>

definition one_per_step :: "int \<Rightarrow> int \<Rightarrow> int \<Rightarrow> int \<Rightarrow> (int \<times> int) set \<Rightarrow> bool" where
  "one_per_step x0 y0 x1 y1 P \<longleftrightarrow>
     (if \<bar>y1 - y0\<bar> < \<bar>x1 - x0\<bar> then \<forall>a. min x0 x1 \<le> a \<and> a \<le> max x0 x1 \<longrightarrow> (\<exists>!b. (a, b) \<in> P)
      else \<forall>b. min y0 y1 \<le> b \<and> b \<le> max y0 y1 \<longrightarrow> (\<exists>!a. (a, b) \<in> P))"

lemma xline_once: "x0 \<le> a \<Longrightarrow> a \<le> x1 \<Longrightarrow> \<exists>!b. (a, b) \<in> set (xline x0 y0 x1 y1)"
proof (rule ex1I)
  assume "x0 \<le> a" "a \<le> x1"
  then show "(a, y0 + (if y0 > y1 then -1 else 1) * bres (x1 - x0) \<bar>y1 - y0\<bar> (a - x0)) \<in> set (xline x0 y0 x1 y1)"
    unfolding xline_def set_map set_upto by (intro image_eqI [of _ _ "a - x0"]) simp_all
qed (auto simp: xline_def)

lemma yline_once: "y0 \<le> b \<Longrightarrow> b \<le> y1 \<Longrightarrow> \<exists>!a. (a, b) \<in> set (yline x0 y0 x1 y1)"
proof -
  assume b: "y0 \<le> b" "b \<le> y1"
  have "(a, b) \<in> set (yline x0 y0 x1 y1) \<longleftrightarrow> (b, a) \<in> set (xline y0 x0 y1 x1)" for a
    by (force simp: yline_xline)
  then show "\<exists>!a. (a, b) \<in> set (yline x0 y0 x1 y1)"
    using xline_once [OF b, of x0 x1] by simp
qed

lemma line_points_once: "one_per_step x0 y0 x1 y1 (set (line_points x0 y0 x1 y1))"
proof (cases "\<bar>y1 - y0\<bar> < \<bar>x1 - x0\<bar>")
  case True
  show ?thesis
  proof (cases "x1 \<le> x0")
    case le: True
    then have m: "min x0 x1 = x1" "max x0 x1 = x0" by simp_all
    show ?thesis using xline_once [of x1 _ x0 y1 y0] True le
      by (simp add: one_per_step_def line_points_def m)
  next
    case le: False
    then have m: "min x0 x1 = x0" "max x0 x1 = x1" by simp_all
    show ?thesis using xline_once [of x0 _ x1 y0 y1] True le
      by (simp add: one_per_step_def line_points_def m)
  qed
next
  case False
  show ?thesis
  proof (cases "y1 \<le> y0")
    case le: True
    then have m: "min y0 y1 = y1" "max y0 y1 = y0" by simp_all
    show ?thesis using yline_once [of y1 _ y0 x1 x0] False le
      by (simp add: one_per_step_def line_points_def m)
  next
    case le: False
    then have m: "min y0 y1 = y0" "max y0 y1 = y1" by simp_all
    show ?thesis using yline_once [of y0 _ y1 x0 x1] False le
      by (simp add: one_per_step_def line_points_def m)
  qed
qed

subsection \<open>The frame buffer\<close>

definition poffset :: "int \<times> int \<Rightarrow> u16" where
  "poffset p = word_of_int (320 * snd p + fst p)"

definition paint :: "(int \<times> int) set \<Rightarrow> u8 \<Rightarrow> (u16 \<Rightarrow> u8) \<Rightarrow> u16 \<Rightarrow> u8" where
  "paint P c fb = (\<lambda>a. if a \<in> poffset ` P then c else fb a)"

text \<open>The colour a device context draws with, as stored in the frame buffer.\<close>

definition pen_of :: "int \<Rightarrow> gfx \<Rightarrow> u8" where
  "pen_of i s = word_of_int (penIndex (hdcObjects s ! nat i))"

definition valid_hdc :: "int \<Rightarrow> gfx \<Rightarrow> bool" where
  "valid_hdc i s \<longleftrightarrow> 0 \<le> i \<and> i < int (length (hdcObjects s))"

definition screen_at :: "gfx \<Rightarrow> int \<Rightarrow> int \<Rightarrow> u8" where
  "screen_at s px py = pixMem s (poffset (px, py))"

lemma paint_empty [simp]: "paint {} c fb = fb"
  by (simp add: paint_def)

lemma paint_paint: "paint Q c (paint P c fb) = paint (P \<union> Q) c fb"
  by (auto simp: paint_def intro!: ext)

lemma poffset_inj:
  assumes "on_screen a b" and "on_screen c d" and "poffset (a, b) = poffset (c, d)"
  shows "a = c \<and> b = d"
proof -
  have off: "uint (poffset (u, v)) = 320 * v + u" if "on_screen u v" for u v
    using that unfolding poffset_def fst_conv snd_conv
    by (intro uint_word_of_int_id) (simp_all add: on_screen_def)
  have eq: "320 * b + a = 320 * d + c"
    using assms off [OF assms(1)] off [OF assms(2)] by simp
  have "b = d"
    using eq assms(1,2) unfolding on_screen_def by (cases b d rule: linorder_cases) linarith+
  then show ?thesis using eq by simp
qed

lemma paint_screen:
  assumes "\<forall>p \<in> P. on_screen (fst p) (snd p)" and "on_screen px py"
  shows "paint P c fb (poffset (px, py)) = (if (px, py) \<in> P then c else fb (poffset (px, py)))"
proof -
  have "(px, py) \<in> P" if "p \<in> P" "poffset (px, py) = poffset p" for p
    using that assms(1) poffset_inj [OF assms(2), of "fst p" "snd p"] by auto
  then have "poffset (px, py) \<in> poffset ` P \<longleftrightarrow> (px, py) \<in> P" by blast
  then show ?thesis by (simp only: paint_def)
qed

lemma PixelSetterFunc_ok:
  "valid_hdc i s \<Longrightarrow>
    PixelSetterFunc i px py s = Inr (s\<lparr>pixMem := paint {(px, py)} (pen_of i s) (pixMem s)\<rparr>)"
  by (auto simp: PixelSetterFunc_def valid_hdc_def array_get_def pen_of_def paint_def poffset_def
      fun_upd_def)

lemma valid_hdc_pixMem [simp]: "valid_hdc i (s\<lparr>pixMem := fb\<rparr>) = valid_hdc i s"
  by (simp add: valid_hdc_def)

lemma pen_of_pixMem [simp]: "pen_of i (s\<lparr>pixMem := fb\<rparr>) = pen_of i s"
  by (simp add: pen_of_def)

lemma plot_all_paint:
  "valid_hdc i s \<Longrightarrow>
    plot_all (\<lambda>(a, b). PixelSetterFunc i a b) ps s =
      Inr (s\<lparr>pixMem := paint (set ps) (pen_of i s) (pixMem s)\<rparr>)"
proof (induction ps arbitrary: s)
  case Nil
  then show ?case by simp
next
  case (Cons p ps)
  obtain a b where p: "p = (a, b)" by (cases p)
  show ?case
    using Cons.prems Cons.IH [of "s\<lparr>pixMem := paint {(a, b)} (pen_of i s) (pixMem s)\<rparr>"]
    by (simp add: p PixelSetterFunc_ok paint_paint)
qed

lemma LineDraw_paint:
  assumes "valid_hdc i s" "coord x0" "coord y0" "coord x1" "coord y1"
  shows "LineDraw x0 y0 x1 y1 i s =
    Inr (s\<lparr>pixMem := paint (set (line_points x0 y0 x1 y1)) (pen_of i s) (pixMem s)\<rparr>)"
  by (simp add: LineDraw_points [OF assms(2-5)] plot_all_paint [OF assms(1)])

lemma line_points_row: "set (line_points x0 py x1 py) = {min x0 x1..max x0 x1} \<times> {py}"
proof -
  have b0: "bres dm 0 j = 0" if "0 \<le> dm" for dm j
    using that by (cases "dm = 0") (simp_all add: bres_def div_pos_pos_trivial)
  have row: "set (xline a py c py) = {a..c} \<times> {py}" if "a \<le> c" for a c
  proof -
    have "(\<lambda>j. (a + j, py)) ` {0..c - a} = {a..c} \<times> {py}"
      by (force simp: image_iff intro!: bexI [of _ "_ - a"])
    then show ?thesis using that by (simp add: xline_def b0)
  qed
  show ?thesis
  proof (cases "x0 = x1")
    case True
    then show ?thesis by (simp add: line_points_def yline_def bres_def)
  next
    case False
    then show ?thesis
      using row [of x0 x1] row [of x1 x0] by (simp add: line_points_def min_def max_def)
  qed
qed

lemma fill_rows_paint:
  assumes "coord lft" "coord rgt" "coord topY" "0 \<le> py" and "valid_hdc i s"
  shows "fill_rows lft rgt topY i py s =
    Inr (s\<lparr>pixMem := paint ({min lft rgt..max lft rgt} \<times> {py..topY}) (pen_of i s) (pixMem s)\<rparr>)"
  using assms(4,5)
proof (induction "nat (topY + 1 - py)" arbitrary: py s)
  case 0
  then show ?case by (subst fill_rows.simps) simp
next
  case (Suc n)
  then have le: "py \<le> topY" by linarith
  then have cy: "coord py" using Suc.prems(1) assms(3) by (simp add: coord_def)
  let ?s = "s\<lparr>pixMem := paint ({min lft rgt..max lft rgt} \<times> {py}) (pen_of i s) (pixMem s)\<rparr>"
  have "fill_rows lft rgt topY i py s = fill_rows lft rgt topY i (py + 1) ?s"
    using le LineDraw_paint [OF Suc.prems(2) assms(1) cy assms(2) cy]
    by (subst fill_rows.simps) (simp add: line_points_row)
  also have "\<dots> = Inr (?s\<lparr>pixMem := paint ({min lft rgt..max lft rgt} \<times> {py + 1..topY})
      (pen_of i ?s) (pixMem ?s)\<rparr>)"
    using Suc.hyps(2) Suc.prems le by (intro Suc.hyps(1)) simp_all
  finally have "fill_rows lft rgt topY i py s = Inr (s\<lparr>pixMem :=
      paint ({min lft rgt..max lft rgt} \<times> {py} \<union> {min lft rgt..max lft rgt} \<times> {py + 1..topY})
        (pen_of i s) (pixMem s)\<rparr>)"
    by (simp add: paint_paint)
  moreover have "{min lft rgt..max lft rgt} \<times> {py} \<union> {min lft rgt..max lft rgt} \<times> {py + 1..topY} =
      {min lft rgt..max lft rgt} \<times> {py..topY}"
    using le by auto
  ultimately show ?case by simp
qed

subsection \<open>Properties\<close>

text \<open>
  C5: drawing a line between two screen positions succeeds and changes the frame buffer only, in
  exactly the pixels of a set that holds both end points, stays in their bounding box, has exactly one
  pixel for each coordinate along the longer extent and none more than half a pixel off the ideal line.
\<close>

theorem LineDraw_correct:
  assumes "valid_hdc i s" and "on_screen x0 y0" and "on_screen x1 y1"
  shows "\<exists>s' P. LineDraw x0 y0 x1 y1 i s = Inr s' \<and> s' = s\<lparr>pixMem := pixMem s'\<rparr> \<and>
    (\<forall>px py. on_screen px py \<longrightarrow>
      screen_at s' px py = (if (px, py) \<in> P then pen_of i s else screen_at s px py)) \<and>
    (x0, y0) \<in> P \<and> (x1, y1) \<in> P \<and> (\<forall>p \<in> P. near_line x0 y0 x1 y1 p) \<and> one_per_step x0 y0 x1 y1 P"
proof -
  let ?P = "set (line_points x0 y0 x1 y1)"
  let ?s' = "s\<lparr>pixMem := paint ?P (pen_of i s) (pixMem s)\<rparr>"
  have draw: "LineDraw x0 y0 x1 y1 i s = Inr ?s'"
    using assms on_screen_coord by (blast intro: LineDraw_paint)
  have "on_screen (fst p) (snd p)" if "near_line x0 y0 x1 y1 p" for p
    using that assms(2,3) unfolding near_line_def on_screen_def by linarith
  then have "\<forall>p \<in> ?P. on_screen (fst p) (snd p)" using line_points_spec by blast
  then have "\<forall>px py. on_screen px py \<longrightarrow>
      screen_at ?s' px py = (if (px, py) \<in> ?P then pen_of i s else screen_at s px py)"
    by (simp add: screen_at_def paint_screen)
  with draw line_points_spec [of x0 y0 x1 y1] line_points_once [of x0 y0 x1 y1] show ?thesis
    by (intro exI [of _ ?s'] exI [of _ ?P]) simp
qed

text \<open>A state with one device context that draws with pen 15 on a black screen.\<close>

definition sample_gfx :: gfx where
  "sample_gfx = \<lparr>hdcObjects = [\<lparr>hdc_init = 1, hdc_x = 0, hdc_y = 0, penIndex = 15,
     commandQueue = [], queueEnd = 0\<rparr>], pixMem = (\<lambda>_. 0), ports = [], klog = [], lockinit = 1\<rparr>"

theorem LineDraw_correct_witness:
  "\<exists>s'. LineDraw 10 20 13 22 0 sample_gfx = Inr s' \<and> screen_at s' 10 20 = 15 \<and> screen_at s' 13 22 = 15"
proof -
  have v: "valid_hdc 0 sample_gfx" "on_screen 10 20" "on_screen 13 22" "pen_of 0 sample_gfx = 15"
    by (simp_all add: valid_hdc_def sample_gfx_def on_screen_def pen_of_def)
  from LineDraw_correct [OF v(1-3)] v show ?thesis by auto
qed

end
