(* ===== verification/Syscall.thy ===== *)
theory Syscall
  imports CString
begin

text \<open>
  System-call argument fetching and dispatch (syscall.c). A process, as these routines see it, is
  its size, the saved user stack pointer and system-call number of its trap frame, and its
  memory. \<open>None\<close> stands for the return value -1.
\<close>

record uproc =
  sz :: u32
  tf_esp :: u32
  tf_eax :: int
  umem :: memory

definition load_le32 :: "memory \<Rightarrow> u32 \<Rightarrow> u32" where
  "load_le32 m a = ucast (m a) OR push_bit 8 (ucast (m (a + 1)))
     OR push_bit 16 (ucast (m (a + 2))) OR push_bit 24 (ucast (m (a + 3)))"

definition fetchint :: "uproc \<Rightarrow> u32 \<Rightarrow> int option" where
  "fetchint curproc addr =
     (if addr \<ge> sz curproc \<or> addr + 4 > sz curproc then None
      else Some (sint (load_le32 (umem curproc) addr)))"

text \<open>The loop \<open>for (s = *pp; s < ep; s++)\<close>; the last argument counts the bytes left to \<open>ep\<close>.\<close>

fun fetchstr_loop :: "memory \<Rightarrow> u32 \<Rightarrow> u32 \<Rightarrow> nat \<Rightarrow> int option" where
  "fetchstr_loop m pp s 0 = None"
| "fetchstr_loop m pp s (Suc n) =
     (if m s = 0 then Some (uint (s - pp)) else fetchstr_loop m pp (s + 1) n)"

definition fetchstr :: "uproc \<Rightarrow> u32 \<Rightarrow> (u32 \<times> int) option" where
  "fetchstr curproc addr =
     (if addr \<ge> sz curproc then None
      else map_option (\<lambda>n. (addr, n))
        (fetchstr_loop (umem curproc) addr addr (unat (sz curproc) - unat addr)))"

definition argint :: "uproc \<Rightarrow> nat \<Rightarrow> int option" where
  "argint p n = fetchint p (tf_esp p + 4 + 4 * of_nat n)"

definition argptr :: "uproc \<Rightarrow> nat \<Rightarrow> int \<Rightarrow> u32 option" where
  "argptr p n len =
     (case argint p n of None \<Rightarrow> None
      | Some i \<Rightarrow>
          if len < 0 \<or> (word_of_int i :: u32) \<ge> sz p \<or> word_of_int i + word_of_int len > sz p
          then None else Some (word_of_int i))"

definition argstr :: "uproc \<Rightarrow> nat \<Rightarrow> (u32 \<times> int) option" where
  "argstr p n = (case argint p n of None \<Rightarrow> None | Some addr \<Rightarrow> fetchstr p (word_of_int addr))"

text \<open>
  Dispatch. The table of handlers is generated at build time, so it is an argument; a handler
  takes the system state and returns its result with the new state, and \<open>unknown\<close> is the effect
  of the diagnostic the source prints.
\<close>

definition syscall ::
  "('s \<Rightarrow> int \<times> 's) option list \<Rightarrow> (int \<Rightarrow> 's \<Rightarrow> 's) \<Rightarrow> uproc \<Rightarrow> 's \<Rightarrow> uproc \<times> 's" where
  "syscall syscalls unknown curproc s =
     (let num = tf_eax curproc in
      if num > 0 \<and> num < int (length syscalls) \<and> syscalls ! nat num \<noteq> None
      then let (r, s') = the (syscalls ! nat num) s in (curproc\<lparr>tf_eax := r\<rparr>, s')
      else (curproc\<lparr>tf_eax := -1\<rparr>, unknown num s))"

subsection \<open>Bounds of the fetched arguments\<close>

text \<open>User memory ends below KERNBASE.\<close>

definition KERNBASE :: u32 where
  "KERNBASE = 0x80000000"

lemma unat_KERNBASE: "sz p \<le> KERNBASE \<Longrightarrow> unat (sz p) \<le> 2147483648"
  by (simp add: KERNBASE_def word_le_nat_alt)

lemma fetchint_Some:
  assumes "sz p \<le> KERNBASE"
  shows "fetchint p a = Some v \<longleftrightarrow> unat a + 4 \<le> unat (sz p) \<and> v = sint (load_le32 (umem p) a)"
proof -
  note b = unat_KERNBASE [OF assms]
  have "unat (a + 4) = unat a + 4" if "a < sz p"
    using that b by (simp add: word_less_nat_alt unat_add_no_wrap)
  then show ?thesis
    unfolding fetchint_def by (auto simp: word_le_nat_alt word_less_nat_alt not_le)
qed

lemma argptr_Some:
  assumes "sz p \<le> KERNBASE" and "len < 2147483648" and "argptr p n len = Some a"
  shows "0 \<le> len \<and> unat a < unat (sz p) \<and> unat a + nat len \<le> unat (sz p)"
proof -
  from assms(3) obtain i where arg: "argint p n = Some i"
    unfolding argptr_def by (cases "argint p n") simp_all
  have "\<not> (len < 0 \<or> (word_of_int i :: u32) \<ge> sz p \<or> word_of_int i + word_of_int len > sz p) \<and>
      word_of_int i = a"
    using assms(3) unfolding argptr_def arg option.case if_None_eq_Some .
  then have i: "0 \<le> len" "a < sz p" "a + word_of_int len \<le> sz p"
    by (auto simp only: not_less not_le de_Morgan_disj)
  have w: "unat (word_of_int len :: u32) = nat len"
    using i(1) assms(2) by (simp add: unat_word_of_int_id)
  have lt: "unat a < unat (sz p)" using i(2) by (simp only: word_less_nat_alt)
  have "unat a + nat len < 2 ^ 32"
    using lt unat_KERNBASE [OF assms(1)] assms(2) by simp
  then have sum: "unat (a + word_of_int len) = unat a + nat len"
    using unat_add_no_wrap [of a "word_of_int len"] w by simp
  have "unat (a + word_of_int len) \<le> unat (sz p)"
    using i(3) by (simp only: word_le_nat_alt)
  then show ?thesis using sum i(1) lt by simp
qed

lemma fetchstr_loop_Some:
  assumes "unat s + n < 2 ^ 32" and "pp \<le> s" and "fetchstr_loop m pp s n = Some l"
  shows "\<exists>k < n. l = uint (s - pp) + int k \<and> m (s + of_nat k) = 0 \<and> (\<forall>i < k. m (s + of_nat i) \<noteq> 0)"
  using assms
proof (induction n arbitrary: s)
  case 0
  then show ?case by simp
next
  case (Suc n)
  show ?case
  proof (cases "m s = 0")
    case True
    then show ?thesis using Suc.prems(3) by (intro exI [of _ 0]) auto
  next
    case False
    have s1: "unat (s + 1) = unat s + 1" using Suc.prems(1) by (simp add: unat_add_no_wrap)
    have "\<exists>k < n. l = uint (s + 1 - pp) + int k \<and> m (s + 1 + of_nat k) = 0 \<and>
        (\<forall>i < k. m (s + 1 + of_nat i) \<noteq> 0)"
      using Suc.IH [of "s + 1"] Suc.prems False s1 by (simp add: word_le_nat_alt)
    then obtain k where k: "k < n" "l = uint (s + 1 - pp) + int k" "m (s + 1 + of_nat k) = 0"
      "\<forall>i < k. m (s + 1 + of_nat i) \<noteq> 0" by blast
    have "unat (s - pp) = unat s - unat pp" "unat (s + 1 - pp) = unat s + 1 - unat pp"
      using Suc.prems(2) s1 by (simp_all add: unat_sub word_le_nat_alt)
    then have "int (unat (s + 1 - pp)) = int (unat (s - pp)) + 1"
      using Suc.prems(2) unfolding word_le_nat_alt by linarith
    then have "uint (s + 1 - pp) = uint (s - pp) + 1" by simp
    moreover have "m (s + of_nat i) \<noteq> 0" if "i < Suc k" for i
      using that False k(4) by (cases i) (auto simp: ac_simps)
    ultimately show ?thesis
      using k by (intro exI [of _ "Suc k"]) (auto simp: ac_simps)
  qed
qed

lemma fetchstr_Some:
  assumes "sz p \<le> KERNBASE" and "fetchstr p a = Some (b, l)"
  shows "b = a \<and> (\<exists>k. l = int k \<and> unat a + k < unat (sz p) \<and> umem p (a + of_nat k) = 0 \<and>
    (\<forall>i < k. umem p (a + of_nat i) \<noteq> 0))"
proof -
  let ?n = "unat (sz p) - unat a"
  from assms(2) have lt: "unat a < unat (sz p)" and
    eqs: "b = a" "fetchstr_loop (umem p) a a ?n = Some l"
    unfolding fetchstr_def by (auto simp: word_le_nat_alt not_le split: if_splits)
  have "unat a + ?n < 2 ^ 32" using lt unat_KERNBASE [OF assms(1)] by simp
  from fetchstr_loop_Some [OF this _ eqs(2)] obtain k where
    "k < ?n" "l = int k" "umem p (a + of_nat k) = 0" "\<forall>i < k. umem p (a + of_nat i) \<noteq> 0" by auto
  then show ?thesis using eqs(1) by (auto intro!: exI [of _ k])
qed

subsection \<open>Properties\<close>

text \<open>
  C38: whatever the arguments on the user stack, a pointer that \<open>argptr\<close> accepts designates a
  block that lies wholly inside the process, an integer that \<open>argint\<close> returns was read inside
  it, and a string that \<open>argstr\<close> accepts ends, with its first NUL byte, inside it.
\<close>

theorem syscall_arguments_in_bounds:
  assumes "sz p \<le> KERNBASE"
  shows "(\<forall>len a. len < 2147483648 \<longrightarrow> argptr p n len = Some a \<longrightarrow>
      0 \<le> len \<and> unat a + nat len \<le> unat (sz p)) \<and>
    (\<forall>v. argint p n = Some v \<longrightarrow> unat (tf_esp p + 4 + 4 * of_nat n) + 4 \<le> unat (sz p)) \<and>
    (\<forall>a l. argstr p n = Some (a, l) \<longrightarrow>
      (\<exists>k. l = int k \<and> unat a + k < unat (sz p) \<and> umem p (a + of_nat k) = 0 \<and>
        (\<forall>i < k. umem p (a + of_nat i) \<noteq> 0)))"
  using argptr_Some [OF assms] fetchint_Some [OF assms] fetchstr_Some [OF assms]
  unfolding argstr_def argint_def by (fastforce split: option.splits)

text \<open>A process of 64 bytes whose stack holds one argument, 5.\<close>

definition sample_proc :: uproc where
  "sample_proc = \<lparr>sz = 64, tf_esp = 16, tf_eax = 1, umem = (\<lambda>_. 0)(20 := 5)\<rparr>"

theorem syscall_arguments_in_bounds_witness:
  "argptr sample_proc 0 8 = Some 5 \<and> unat (5 :: u32) + nat 8 \<le> unat (sz sample_proc)"
proof -
  have "sz sample_proc \<le> KERNBASE" by (simp add: sample_proc_def KERNBASE_def)
  note bnd = syscall_arguments_in_bounds [OF this, of 0]
  have arg: "argptr sample_proc 0 8 = Some 5"
    by (simp add: argptr_def argint_def fetchint_def load_le32_def sample_proc_def)
  have "(8 :: int) < 2147483648" by simp
  with bnd arg show ?thesis by blast
qed

end
