(* ===== verification/GfxQueue.thy ===== *)
theory GfxQueue
  imports GfxDraw Syscall
begin

text \<open>
  The command queue of a device context (graphicsQueueables.c): the actions a queue entry can
  run, the routines that append an entry, and the writeQueue system call. The numbers of a
  command are stored as decimal strings, so an entry is queued correctly when each stored string
  parses back to the number it was made from. Local variables that the source leaves
  uninitialised are arguments (record \<open>stack_junk\<close>): the results hold for whatever the stack held.
\<close>

subsection \<open>Queued actions\<close>

definition parse_arg :: "argVal list \<Rightarrow> int \<Rightarrow> int res" where
  "parse_arg cmdArgs k = bindR (array_get cmdArgs k) ParseInt"

definition PixelSetterFuncQueue :: "argVal list \<Rightarrow> gfx \<Rightarrow> gfx res" where
  "PixelSetterFuncQueue cmdArgs s =
     bindR (parse_arg cmdArgs 0) (\<lambda>i.
     bindR (parse_arg cmdArgs 1) (\<lambda>px.
     bindR (parse_arg cmdArgs 2) (\<lambda>py.
     bindR (array_get (hdcObjects s) i) (\<lambda>h.
       let offset = word_of_int (320 * py + px) :: u16
       in Inr (s\<lparr>pixMem := (pixMem s)(offset := word_of_int (penIndex h))\<rparr>)))))"

definition LineDrawFunc :: "argVal list \<Rightarrow> gfx \<Rightarrow> gfx res" where
  "LineDrawFunc cmdArgs s =
     bindR (parse_arg cmdArgs 0) (\<lambda>i.
     bindR (array_get (hdcObjects s) i) (\<lambda>h.
     bindR (parse_arg cmdArgs 1) (\<lambda>x1.
     bindR (parse_arg cmdArgs 2) (\<lambda>y1.
       let x0 = hdc_x h; y0 = hdc_y h; xDif = x1 - x0; yDif = y1 - y0 in
       bindR
         (if SimpleAbs yDif < SimpleAbs xDif
          then if xDif \<le> 0 then XIncPlotter x1 y1 x0 y0 i s else XIncPlotter x0 y0 x1 y1 i s
          else if yDif \<le> 0 then YIncPlotter x1 y1 x0 y0 i s else YIncPlotter x0 y0 x1 y1 i s)
         (MovePos i x1 y1)))))"

definition MovePosFunc :: "argVal list \<Rightarrow> gfx \<Rightarrow> gfx res" where
  "MovePosFunc cmdArgs s =
     bindR (parse_arg cmdArgs 0) (\<lambda>i.
     bindR (parse_arg cmdArgs 1) (\<lambda>px.
     bindR (parse_arg cmdArgs 2) (\<lambda>py.
       upd_hdc i (\<lambda>h. h\<lparr>hdc_x := px, hdc_y := py\<rparr>) s)))"

text \<open>The palette ports: an index, then the three colour components.\<close>

definition write_pen :: "int \<Rightarrow> int \<Rightarrow> int \<Rightarrow> int \<Rightarrow> gfx \<Rightarrow> gfx" where
  "write_pen idx r g b s =
     outb 0x3C9 (word_of_int b) (outb 0x3C9 (word_of_int g) (outb 0x3C9 (word_of_int r)
       (outb 0x3C8 (word_of_int idx) s)))"

definition DeclarePenFunc :: "argVal list \<Rightarrow> gfx \<Rightarrow> gfx res" where
  "DeclarePenFunc cmdArgs s =
     bindR (parse_arg cmdArgs 1) (\<lambda>idx.
     bindR (parse_arg cmdArgs 2) (\<lambda>r.
     bindR (parse_arg cmdArgs 3) (\<lambda>g.
     bindR (parse_arg cmdArgs 4) (\<lambda>b.
       Inr (write_pen idx r g b s)))))"

definition GetPenFunc :: "argVal list \<Rightarrow> gfx \<Rightarrow> gfx res" where
  "GetPenFunc cmdArgs s =
     bindR (parse_arg cmdArgs 0) (\<lambda>i.
     bindR (parse_arg cmdArgs 1) (\<lambda>idx.
       upd_hdc i (\<lambda>h. h\<lparr>penIndex := idx\<rparr>) s))"

definition DrawRect :: "argVal list \<Rightarrow> gfx \<Rightarrow> gfx res" where
  "DrawRect cmdArgs s =
     bindR (parse_arg cmdArgs 0) (\<lambda>i.
     bindR (parse_arg cmdArgs 1) (\<lambda>topY.
     bindR (parse_arg cmdArgs 2) (\<lambda>lft.
     bindR (parse_arg cmdArgs 3) (\<lambda>bot.
     bindR (parse_arg cmdArgs 4) (\<lambda>rgt.
       fill_rows lft rgt topY i bot s)))))"

text \<open>The indirect call through \<open>queuedAction\<close>.\<close>

fun run_command :: "commandBuffer \<Rightarrow> gfx \<Rightarrow> gfx res" where
  "run_command c s = (case queuedAction c of
     FnPixelSetterFuncQueue \<Rightarrow> PixelSetterFuncQueue (cmd_args c) s
   | FnLineDrawFunc \<Rightarrow> LineDrawFunc (cmd_args c) s
   | FnMovePosFunc \<Rightarrow> MovePosFunc (cmd_args c) s
   | FnDeclarePenFunc \<Rightarrow> DeclarePenFunc (cmd_args c) s
   | FnGetPenFunc \<Rightarrow> GetPenFunc (cmd_args c) s
   | FnDrawRect \<Rightarrow> DrawRect (cmd_args c) s)"

subsection \<open>Appending\<close>

record stack_junk =
  j_cmd :: commandBuffer
  j_str :: "u8 list"
  j_arg :: "nat \<Rightarrow> argVal"
  j_hdc :: int
  j_op :: int

text \<open>The first n bytes \<open>strncpy\<close> writes from a source buffer.\<close>

fun strncpy_src :: "nat \<Rightarrow> u8 list \<Rightarrow> u8 list res" where
  "strncpy_src 0 src = Inr []"
| "strncpy_src (Suc n) [] = Inl Bounds"
| "strncpy_src (Suc n) (c # src) =
     (if c = 0 then Inr (replicate (Suc n) 0) else bindR (strncpy_src n src) (\<lambda>bs. Inr (c # bs)))"

definition strncpy_buf :: "u8 list \<Rightarrow> u8 list \<Rightarrow> nat \<Rightarrow> u8 list res" where
  "strncpy_buf dst src n =
     (if n \<le> length dst then bindR (strncpy_src n src) (\<lambda>bs. Inr (bs @ drop n dst)) else Inl Bounds)"

text \<open>
  The copy is limited to \<open>sizeof(argument)\<close>, which is the size of a pointer: four bytes.
\<close>

definition AppendArg :: "argVal \<Rightarrow> u8 list \<Rightarrow> commandBuffer \<Rightarrow> commandBuffer res" where
  "AppendArg tmpArg argument buffer =
     (let buffer = (if buffset buffer \<noteq> 1 then buffer\<lparr>lastArgSet := 0, buffset := 1\<rparr> else buffer) in
      bindR (strncpy_buf tmpArg argument 4) (\<lambda>tmpArg.
      bindR (array_set (cmd_args buffer) (lastArgSet buffer) tmpArg) (\<lambda>as.
        Inr (buffer\<lparr>cmd_args := as, lastArgSet := lastArgSet buffer + 1\<rparr>))))"

text \<open>AppendArg on several arguments in a row, the k-th with its own stack slot.\<close>

fun append_args :: "stack_junk \<Rightarrow> nat \<Rightarrow> u8 list list \<Rightarrow> commandBuffer \<Rightarrow> commandBuffer res" where
  "append_args j k [] cmd = Inr cmd"
| "append_args j k (a # as) cmd = bindR (AppendArg (j_arg j k) a cmd) (append_args j (Suc k) as)"

definition cap_message :: string where
  "cap_message = ''A supplied value exceeded its capacity and was limited''"

text \<open>\<open>ParseChar(ValueCapperChar(x, capacity), x)\<close>: the user's string is rewritten in place.\<close>

definition cap_arg :: "u8 list \<Rightarrow> int \<Rightarrow> gfx \<Rightarrow> (u8 list \<times> gfx) res" where
  "cap_arg a capacity s =
     bindR (ValueCapperChar a capacity) (\<lambda>(v, warned).
     bindR (ParseChar v a) (\<lambda>a. Inr (a, if warned then cprintf cap_message s else s)))"

text \<open>\<open>commandQueue[queueEnd] = cmd; queueEnd++\<close>.\<close>

definition enqueue :: "int \<Rightarrow> commandBuffer \<Rightarrow> gfx \<Rightarrow> gfx res" where
  "enqueue i cmd s =
     bindR (array_get (hdcObjects s) i) (\<lambda>h.
     bindR (array_set (commandQueue h) (queueEnd h) cmd) (\<lambda>q.
       upd_hdc i (\<lambda>h. h\<lparr>commandQueue := q, queueEnd := queueEnd h + 1\<rparr>) s))"

definition AppendPixel ::
  "stack_junk \<Rightarrow> int \<Rightarrow> u8 list \<Rightarrow> u8 list \<Rightarrow> gfx \<Rightarrow> (u8 list list \<times> gfx) res" where
  "AppendPixel j i px py s =
     bindR (ParseChar i (j_str j)) (\<lambda>str.
     bindR (cap_arg px 319 s) (\<lambda>(px, s).
     bindR (cap_arg py 199 s) (\<lambda>(py, s).
     bindR (append_args j 0 [str, px, py] ((j_cmd j)\<lparr>queuedAction := FnPixelSetterFuncQueue\<rparr>)) (\<lambda>cmd.
     bindR (enqueue i (cmd\<lparr>buffset := 0\<rparr>) s) (\<lambda>s. Inr ([px, py], s))))))"

definition AppendLineTo ::
  "stack_junk \<Rightarrow> int \<Rightarrow> u8 list \<Rightarrow> u8 list \<Rightarrow> gfx \<Rightarrow> (u8 list list \<times> gfx) res" where
  "AppendLineTo j i x1 y1 s =
     bindR (ParseChar i (j_str j)) (\<lambda>str.
     bindR (cap_arg x1 319 s) (\<lambda>(x1, s).
     bindR (cap_arg y1 199 s) (\<lambda>(y1, s).
     bindR (append_args j 0 [str, x1, y1] ((j_cmd j)\<lparr>queuedAction := FnLineDrawFunc\<rparr>)) (\<lambda>cmd.
     bindR (enqueue i (cmd\<lparr>buffset := 0\<rparr>) s) (\<lambda>s. Inr ([x1, y1], s))))))"

definition AppendCursorMove ::
  "stack_junk \<Rightarrow> int \<Rightarrow> u8 list \<Rightarrow> u8 list \<Rightarrow> gfx \<Rightarrow> (u8 list list \<times> gfx) res" where
  "AppendCursorMove j i x1 y1 s =
     bindR (ParseChar i (j_str j)) (\<lambda>str.
     bindR (cap_arg x1 319 s) (\<lambda>(x1, s).
     bindR (cap_arg y1 199 s) (\<lambda>(y1, s).
     bindR (append_args j 0 [str, x1, y1] ((j_cmd j)\<lparr>queuedAction := FnMovePosFunc\<rparr>)) (\<lambda>cmd.
     bindR (enqueue i (cmd\<lparr>buffset := 0\<rparr>) s) (\<lambda>s. Inr ([x1, y1], s))))))"

definition AppendDeclarePen ::
  "stack_junk \<Rightarrow> int \<Rightarrow> u8 list \<Rightarrow> u8 list \<Rightarrow> u8 list \<Rightarrow> u8 list \<Rightarrow> gfx \<Rightarrow> (u8 list list \<times> gfx) res" where
  "AppendDeclarePen j i idx r g b s =
     bindR (ParseChar i (j_str j)) (\<lambda>str.
     bindR (cap_arg idx 50 s) (\<lambda>(idx, s).
     bindR (cap_arg r 63 s) (\<lambda>(r, s).
     bindR (cap_arg g 63 s) (\<lambda>(g, s).
     bindR (cap_arg b 63 s) (\<lambda>(b, s).
     bindR (append_args j 0 [str, idx, r, g, b] ((j_cmd j)\<lparr>queuedAction := FnDeclarePenFunc\<rparr>)) (\<lambda>cmd.
     bindR (enqueue i (cmd\<lparr>buffset := 0\<rparr>) s) (\<lambda>s. Inr ([idx, r, g, b], s))))))))"

definition AppendGetPen ::
  "stack_junk \<Rightarrow> int \<Rightarrow> u8 list \<Rightarrow> gfx \<Rightarrow> (u8 list list \<times> gfx) res" where
  "AppendGetPen j i idx s =
     bindR (ParseChar i (j_str j)) (\<lambda>str.
     bindR (cap_arg idx 50 s) (\<lambda>(idx, s).
     bindR (append_args j 0 [str, idx] ((j_cmd j)\<lparr>queuedAction := FnGetPenFunc\<rparr>)) (\<lambda>cmd.
     bindR (enqueue i (cmd\<lparr>buffset := 0\<rparr>) s) (\<lambda>s. Inr ([idx], s)))))"

definition AppendDrawRect ::
  "stack_junk \<Rightarrow> int \<Rightarrow> u8 list \<Rightarrow> u8 list \<Rightarrow> u8 list \<Rightarrow> u8 list \<Rightarrow> gfx \<Rightarrow> (u8 list list \<times> gfx) res" where
  "AppendDrawRect j i topY botY topX botX s =
     bindR (ParseChar i (j_str j)) (\<lambda>str.
     bindR (cap_arg topY 199 s) (\<lambda>(topY, s).
     bindR (cap_arg botY 199 s) (\<lambda>(botY, s).
     bindR (cap_arg topX 319 s) (\<lambda>(topX, s).
     bindR (cap_arg botX 319 s) (\<lambda>(botX, s).
     bindR (append_args j 0 [str, topY, botX, botY, topX] ((j_cmd j)\<lparr>queuedAction := FnDrawRect\<rparr>)) (\<lambda>cmd.
     bindR (enqueue i (cmd\<lparr>buffset := 0\<rparr>) s) (\<lambda>s. Inr ([topY, botY, topX, botX], s))))))))"

text \<open>The user's argsSet: the buffers its five pointers designate.\<close>

record argsSet =
  arg0 :: "u8 list"
  arg1 :: "u8 list"
  arg2 :: "u8 list"
  arg3 :: "u8 list"
  arg4 :: "u8 list"

text \<open>
  The system call ignores whether its arguments could be fetched: on failure the locals keep what
  the stack held. The result is 1 on every path that returns.
\<close>

definition sys_writeQueue :: "uproc \<Rightarrow> stack_junk \<Rightarrow> argsSet \<Rightarrow> gfx \<Rightarrow> (int \<times> u8 list list \<times> gfx) res" where
  "sys_writeQueue p j aset s =
     (let i = (case argint p 0 of Some v \<Rightarrow> v | None \<Rightarrow> j_hdc j);
          opType = (case argint p 1 of Some v \<Rightarrow> v | None \<Rightarrow> j_op j);
          ret = (\<lambda>r. bindR r (\<lambda>(bufs, s). Inr (1, bufs, s)))
      in if opType = 0 then ret (AppendPixel j i (arg0 aset) (arg1 aset) s)
         else if opType = 1 then ret (AppendLineTo j i (arg0 aset) (arg1 aset) s)
         else if opType = 2 then ret (AppendCursorMove j i (arg0 aset) (arg1 aset) s)
         else if opType = 3
           then ret (AppendDeclarePen j i (arg0 aset) (arg1 aset) (arg2 aset) (arg3 aset) s)
         else if opType = 4 then ret (AppendGetPen j i (arg0 aset) s)
         else if opType = 5
           then ret (AppendDrawRect j i (arg0 aset) (arg1 aset) (arg2 aset) (arg3 aset) s)
         else Inr (1, [], s))"

subsection \<open>Stored numbers\<close>

text \<open>A buffer that holds the decimal digits of v and their NUL.\<close>

definition denotes :: "u8 list \<Rightarrow> int \<Rightarrow> bool" where
  "denotes bs v \<longleftrightarrow> 0 \<le> v \<and> v < 2147483648 \<and>
     (\<exists>rest. bs = dec_digits v (ndigits (nat v)) @ 0 # rest)"

lemma denotes_ParseInt: "denotes bs v \<Longrightarrow> ParseInt bs = Inr v"
  unfolding denotes_def using ParseInt_digits by blast

lemma ParseChar_denotes:
  assumes "0 \<le> v" "v < 2147483648" "ndigits (nat v) < length out"
  shows "\<exists>out'. ParseChar v out = Inr out' \<and> denotes out' v \<and> length out' = length out"
  using ParseChar_eq [OF assms] assms by (auto simp: denotes_def)

lemma ndigits_999: "0 \<le> v \<Longrightarrow> v \<le> 999 \<Longrightarrow> ndigits (nat v) \<le> 3"
  by (rule ndigits_le) simp_all

lemma strncpy_src_digits:
  "k < n \<Longrightarrow> strncpy_src n (dec_digits v k @ 0 # rest) = Inr (dec_digits v k @ replicate (n - k) 0)"
proof (induction k arbitrary: n)
  case 0
  then show ?case by (cases n) simp_all
next
  case (Suc k)
  then obtain n' where "n = Suc n'" "k < n'" by (cases n) auto
  with Suc.IH [of n'] show ?case by (simp add: dec_digits_Suc digit_byte_nonzero)
qed

lemma strncpy_buf_denotes:
  assumes "denotes bs v" and "v \<le> 999" and "4 \<le> length tmp"
  shows "\<exists>a. strncpy_buf tmp bs 4 = Inr a \<and> denotes a v"
proof -
  from assms(1) obtain rest where v: "0 \<le> v" and bs: "bs = dec_digits v (ndigits (nat v)) @ 0 # rest"
    unfolding denotes_def by blast
  have k: "ndigits (nat v) < 4" using ndigits_999 [OF v assms(2)] by simp
  then obtain d where d: "4 - ndigits (nat v) = Suc d" by (metis Suc_diff_Suc)
  show ?thesis
    using strncpy_src_digits [OF k, of v rest] assms v
    by (auto simp: strncpy_buf_def bs d denotes_def)
qed

lemma AppendArg_stores:
  assumes "denotes a v" "v \<le> 999" "4 \<le> length tmp" "buffset cmd = 1" "lastArgSet cmd = int k"
    and "k < length (cmd_args cmd)"
  shows "\<exists>b. AppendArg tmp a cmd =
      Inr (cmd\<lparr>cmd_args := (cmd_args cmd)[k := b], lastArgSet := int (Suc k)\<rparr>) \<and> denotes b v"
  using strncpy_buf_denotes [OF assms(1-3)] assms(4-6)
  by (auto simp: AppendArg_def Let_def array_set_def add.commute)

lemma append_args_stores:
  assumes "list_all2 denotes as vs" and "\<forall>v \<in> set vs. v \<le> 999" and "\<And>n. 4 \<le> length (j_arg j n)"
    and "buffset cmd = 1" and "lastArgSet cmd = int k" and "k + length as \<le> length (cmd_args cmd)"
  shows "\<exists>bs. append_args j m as cmd = Inr (cmd\<lparr>cmd_args := bs, lastArgSet := int (k + length as)\<rparr>) \<and>
    length bs = length (cmd_args cmd) \<and> take k bs = take k (cmd_args cmd) \<and>
    list_all2 denotes (take (length as) (drop k bs)) vs"
  using assms(1,2,4-6)
proof (induction as vs arbitrary: k m cmd rule: list_all2_induct)
  case Nil
  then show ?case by (intro exI [of _ "cmd_args cmd"]) (cases cmd, simp)
next
  case (Cons a as v vs)
  from Cons.prems obtain b where b: "AppendArg (j_arg j m) a cmd =
      Inr (cmd\<lparr>cmd_args := (cmd_args cmd)[k := b], lastArgSet := int (Suc k)\<rparr>)" "denotes b v"
    using AppendArg_stores [OF Cons.hyps(1) _ assms(3), of cmd k] by auto
  let ?cmd = "cmd\<lparr>cmd_args := (cmd_args cmd)[k := b], lastArgSet := int (Suc k)\<rparr>"
  from Cons.prems Cons.IH [of ?cmd "Suc k" "Suc m"] obtain bs where bs:
    "append_args j (Suc m) as ?cmd = Inr (?cmd\<lparr>cmd_args := bs, lastArgSet := int (Suc k + length as)\<rparr>)"
    "length bs = length (cmd_args cmd)" "take (Suc k) bs = take (Suc k) ((cmd_args cmd)[k := b])"
    "list_all2 denotes (take (length as) (drop (Suc k) bs)) vs" by auto
  have k: "k < length (cmd_args cmd)" using Cons.prems by simp
  then have nth: "bs ! k = b" and tk: "take k bs = take k (cmd_args cmd)"
    using bs(2,3) by (auto simp: take_Suc_conv_app_nth)
  have "drop k bs = b # drop (Suc k) bs"
    using k bs(2) nth by (simp add: Cons_nth_drop_Suc [symmetric])
  with b bs tk show ?case by (intro exI [of _ bs]) simp
qed

text \<open>The first argument resets the buffer unless its stale \<open>buffset\<close> happens to be 1.\<close>

lemma append_args_fresh:
  assumes "buffset cmd \<noteq> 1" and "as \<noteq> []"
  shows "append_args j m as cmd = append_args j m as (cmd\<lparr>lastArgSet := 0, buffset := 1\<rparr>)"
proof (cases as)
  case (Cons a as')
  then show ?thesis using assms(1) by (simp add: AppendArg_def Let_def)
qed (use assms(2) in simp)

subsection \<open>Requests\<close>

datatype request =
    Pixel int int
  | Line int int
  | Move int int
  | Declare int int int int
  | Pen int
  | Rect int int int int

fun req_fn :: "request \<Rightarrow> queuedFn" where
  "req_fn (Pixel _ _) = FnPixelSetterFuncQueue"
| "req_fn (Line _ _) = FnLineDrawFunc"
| "req_fn (Move _ _) = FnMovePosFunc"
| "req_fn (Declare _ _ _ _) = FnDeclarePenFunc"
| "req_fn (Pen _) = FnGetPenFunc"
| "req_fn (Rect _ _ _ _) = FnDrawRect"

fun req_vals :: "int \<Rightarrow> request \<Rightarrow> int list" where
  "req_vals i (Pixel px py) = [i, px, py]"
| "req_vals i (Line px py) = [i, px, py]"
| "req_vals i (Move px py) = [i, px, py]"
| "req_vals i (Declare idx r g b) = [i, idx, r, g, b]"
| "req_vals i (Pen idx) = [i, idx]"
| "req_vals i (Rect topY botY topX botX) = [i, topY, botX, botY, topX]"

text \<open>What a request does, without the detour through strings.\<close>

fun exec_request :: "int \<Rightarrow> request \<Rightarrow> gfx \<Rightarrow> gfx res" where
  "exec_request i (Pixel px py) s = PixelSetterFunc i px py s"
| "exec_request i (Line px py) s =
     bindR (array_get (hdcObjects s) i) (\<lambda>h.
       bindR (LineDraw (hdc_x h) (hdc_y h) px py i s) (MovePos i px py))"
| "exec_request i (Move px py) s = MovePos i px py s"
| "exec_request i (Declare idx r g b) s = Inr (write_pen idx r g b s)"
| "exec_request i (Pen idx) s = upd_hdc i (\<lambda>h. h\<lparr>penIndex := idx\<rparr>) s"
| "exec_request i (Rect topY botY topX botX) s = fill_rows botX topX topY i botY s"

definition holds_request :: "int \<Rightarrow> request \<Rightarrow> commandBuffer \<Rightarrow> bool" where
  "holds_request i r c \<longleftrightarrow> queuedAction c = req_fn r \<and>
     length (req_vals i r) \<le> length (cmd_args c) \<and>
     list_all2 denotes (take (length (req_vals i r)) (cmd_args c)) (req_vals i r)"

lemma parse_arg_denotes:
  "list_all2 denotes (take n as) vs \<Longrightarrow> n \<le> length as \<Longrightarrow> k < n \<Longrightarrow> parse_arg as (int k) = Inr (vs ! k)"
  by (auto simp: parse_arg_def array_get_def list_all2_conv_all_nth denotes_ParseInt)

lemma run_command_request:
  assumes "holds_request i r c"
  shows "run_command c s = exec_request i r s"
proof -
  let ?n = "length (req_vals i r)"
  have arg: "parse_arg (cmd_args c) (int k) = Inr (req_vals i r ! k)" if "k < ?n" for k
    using assms that unfolding holds_request_def by (blast intro: parse_arg_denotes)
  note args = arg [of 0] arg [of 1] arg [of 2] arg [of 3] arg [of 4]
  show ?thesis
    using assms args
    by (cases r) (simp_all add: holds_request_def PixelSetterFuncQueue_def PixelSetterFunc_def
        LineDrawFunc_def LineDraw_def MovePosFunc_def MovePos_def DeclarePenFunc_def GetPenFunc_def
        DrawRect_def Let_def if_distrib [where f = "\<lambda>r. bindR r _"] cong: if_cong)
qed

text \<open>The limits the append routines put on the numbers of a request.\<close>

definition capv :: "int \<Rightarrow> int \<Rightarrow> int" where
  "capv capacity v = fst (ValueCapper v capacity)"

fun clip_request :: "request \<Rightarrow> request" where
  "clip_request (Pixel px py) = Pixel (capv 319 px) (capv 199 py)"
| "clip_request (Line px py) = Line (capv 319 px) (capv 199 py)"
| "clip_request (Move px py) = Move (capv 319 px) (capv 199 py)"
| "clip_request (Declare idx r g b) = Declare (capv 50 idx) (capv 63 r) (capv 63 g) (capv 63 b)"
| "clip_request (Pen idx) = Pen (capv 50 idx)"
| "clip_request (Rect topY botY topX botX) =
     Rect (capv 199 topY) (capv 199 botY) (capv 319 topX) (capv 319 botX)"

lemma capv_range: "0 \<le> c \<Longrightarrow> 0 \<le> capv c v \<and> capv c v \<le> c"
  unfolding capv_def by (rule ValueCapper_range)

lemma capv_id: "0 \<le> v \<Longrightarrow> v \<le> c \<Longrightarrow> capv c v = v"
  by (simp add: capv_def ValueCapper_id)

text \<open>A user string that parses to v and has room for three digits and their NUL.\<close>

definition num_buf :: "u8 list \<Rightarrow> int \<Rightarrow> bool" where
  "num_buf b v \<longleftrightarrow> ParseInt b = Inr v \<and> 4 \<le> length b"

lemma cap_arg_denotes:
  assumes "num_buf a v" "0 \<le> c" "c \<le> 999"
  shows "\<exists>a' lg. cap_arg a c s = Inr (a', s\<lparr>klog := lg\<rparr>) \<and> denotes a' (capv c v)"
proof -
  have r: "0 \<le> capv c v" "capv c v \<le> 999" using capv_range [OF assms(2), of v] assms(3) by simp_all
  then have "ndigits (nat (capv c v)) < length a"
    using ndigits_999 [OF r] assms(1) by (simp add: num_buf_def)
  then obtain a' where a': "ParseChar (capv c v) a = Inr a'" "denotes a' (capv c v)"
    using ParseChar_denotes [of "capv c v" a] r by auto
  obtain w where w: "ValueCapper v c = (capv c v, w)" by (cases "ValueCapper v c") (simp add: capv_def)
  have parse: "ParseInt a = Inr v" using assms(1) by (simp add: num_buf_def)
  have "cap_arg a c s = Inr (a', if w then cprintf cap_message s else s)"
    by (simp add: cap_arg_def ValueCapperChar_eq parse w a'(1))
  moreover have "\<exists>lg. (if w then cprintf cap_message s else s) = s\<lparr>klog := lg\<rparr>"
    by (cases w) (auto simp: cprintf_def intro: exI [of _ "klog s"])
  ultimately show ?thesis using a'(2) by auto
qed

definition junk_ok :: "stack_junk \<Rightarrow> bool" where
  "junk_ok j \<longleftrightarrow> length (j_str j) = 100 \<and> (\<forall>n. length (j_arg j n) = 100) \<and>
     length (cmd_args (j_cmd j)) = 20 \<and> buffset (j_cmd j) \<noteq> 1"

text \<open>The state after a command has been put at the end of the queue of context i.\<close>

definition enq_state :: "int \<Rightarrow> commandBuffer \<Rightarrow> gfx \<Rightarrow> gfx" where
  "enq_state i c s =
     (let h = hdcObjects s ! nat i
      in s\<lparr>hdcObjects := (hdcObjects s)[nat i :=
          h\<lparr>commandQueue := (commandQueue h)[nat (queueEnd h) := c], queueEnd := queueEnd h + 1\<rparr>]\<rparr>)"

definition has_room :: "int \<Rightarrow> gfx \<Rightarrow> bool" where
  "has_room i s \<longleftrightarrow> valid_hdc i s \<and> 0 \<le> queueEnd (hdcObjects s ! nat i) \<and>
     queueEnd (hdcObjects s ! nat i) < int (length (commandQueue (hdcObjects s ! nat i)))"

lemma enqueue_ok: "has_room i s \<Longrightarrow> enqueue i c s = Inr (enq_state i c s)"
  by (simp add: has_room_def valid_hdc_def enqueue_def upd_hdc_def array_get_def array_set_def
      enq_state_def Let_def)

lemma has_room_klog [simp]: "has_room i (s\<lparr>klog := lg\<rparr>) = has_room i s"
  by (simp add: has_room_def valid_hdc_def)

lemma enq_state_klog: "enq_state i c (s\<lparr>klog := lg\<rparr>) = (enq_state i c s)\<lparr>klog := lg\<rparr>"
  by (simp add: enq_state_def Let_def)

lemma append_and_enqueue:
  assumes "junk_ok j" "has_room i s" "list_all2 denotes as (req_vals i r)"
    "\<forall>v \<in> set (req_vals i r). v \<le> 999" "as \<noteq> []" "length as \<le> 20"
  shows "\<exists>c. bindR (append_args j 0 as ((j_cmd j)\<lparr>queuedAction := req_fn r\<rparr>))
        (\<lambda>cmd. bindR (enqueue i (cmd\<lparr>buffset := 0\<rparr>) (s\<lparr>klog := lg\<rparr>)) (\<lambda>s. Inr (out, s))) =
      Inr (out, (enq_state i c s)\<lparr>klog := lg\<rparr>) \<and> holds_request i r c"
proof -
  let ?cmd = "(j_cmd j)\<lparr>queuedAction := req_fn r\<rparr>"
  let ?fresh = "?cmd\<lparr>lastArgSet := 0, buffset := 1\<rparr>"
  have j: "\<And>n. 4 \<le> length (j_arg j n)" "length (cmd_args ?cmd) = 20" "buffset ?cmd \<noteq> 1"
    using assms(1) by (simp_all add: junk_ok_def)
  have len: "length as = length (req_vals i r)" using assms(3) by (rule list_all2_lengthD)
  from append_args_stores [OF assms(3,4) j(1), of ?fresh 0 0] j(2) assms(6) obtain bs where
    bs: "append_args j 0 as ?fresh = Inr (?fresh\<lparr>cmd_args := bs, lastArgSet := int (length as)\<rparr>)"
      "length bs = 20" "list_all2 denotes (take (length as) bs) (req_vals i r)" by auto
  let ?c = "?fresh\<lparr>cmd_args := bs, lastArgSet := int (length as), buffset := 0\<rparr>"
  have "append_args j 0 as ?cmd = Inr (?fresh\<lparr>cmd_args := bs, lastArgSet := int (length as)\<rparr>)"
    using append_args_fresh [OF j(3) assms(5), of j 0] bs(1) by simp
  moreover have "holds_request i r ?c"
    using bs(2,3) len assms(6) by (simp add: holds_request_def)
  ultimately show ?thesis
    using assms(2) by (intro exI [of _ ?c]) (simp add: enqueue_ok enq_state_klog)
qed

text \<open>The operation code and strings with which a user asks for a request.\<close>

fun asks :: "int \<Rightarrow> argsSet \<Rightarrow> request \<Rightarrow> bool" where
  "asks opType a (Pixel px py) = (opType = 0 \<and> num_buf (arg0 a) px \<and> num_buf (arg1 a) py)"
| "asks opType a (Line px py) = (opType = 1 \<and> num_buf (arg0 a) px \<and> num_buf (arg1 a) py)"
| "asks opType a (Move px py) = (opType = 2 \<and> num_buf (arg0 a) px \<and> num_buf (arg1 a) py)"
| "asks opType a (Declare idx r g b) = (opType = 3 \<and> num_buf (arg0 a) idx \<and> num_buf (arg1 a) r \<and>
     num_buf (arg2 a) g \<and> num_buf (arg3 a) b)"
| "asks opType a (Pen idx) = (opType = 4 \<and> num_buf (arg0 a) idx)"
| "asks opType a (Rect topY botY topX botX) = (opType = 5 \<and> num_buf (arg0 a) topY \<and>
     num_buf (arg1 a) botY \<and> num_buf (arg2 a) topX \<and> num_buf (arg3 a) botX)"

lemma clip_vals_small: "i \<le> 999 \<Longrightarrow> \<forall>v \<in> set (req_vals i (clip_request r)). v \<le> 999"
proof -
  have c: "capv c v \<le> 999" if "0 \<le> c" "c \<le> 999" for c v
    using capv_range [OF that(1), of v] that(2) by simp
  assume "i \<le> 999"
  then show ?thesis by (cases r) (simp_all add: c)
qed

lemma hdc_string:
  assumes "junk_ok j" "0 \<le> i" "i \<le> 999"
  shows "\<exists>str. ParseChar i (j_str j) = Inr str \<and> denotes str i"
proof -
  have "ndigits (nat i) < length (j_str j)"
    using ndigits_999 [OF assms(2,3)] assms(1) by (simp add: junk_ok_def)
  with ParseChar_denotes [of i "j_str j"] assms show ?thesis by auto
qed

text \<open>The two-number requests share one proof, as do the four-number ones.\<close>

lemma append_two:
  assumes "junk_ok j" "has_room i s" "i \<le> 999" "num_buf a u" "num_buf b v" "0 \<le> cu" "cu \<le> 999"
    "0 \<le> cv" "cv \<le> 999" "req_vals i r = [i, capv cu u, capv cv v]"
  shows "\<exists>bufs c lg. bindR (ParseChar i (j_str j)) (\<lambda>str.
     bindR (cap_arg a cu s) (\<lambda>(a, s). bindR (cap_arg b cv s) (\<lambda>(b, s).
     bindR (append_args j 0 [str, a, b] ((j_cmd j)\<lparr>queuedAction := req_fn r\<rparr>)) (\<lambda>cmd.
     bindR (enqueue i (cmd\<lparr>buffset := 0\<rparr>) s) (\<lambda>s. Inr ([a, b], s)))))) =
       Inr (bufs, (enq_state i c s)\<lparr>klog := lg\<rparr>) \<and> holds_request i r c"
proof -
  have i0: "0 \<le> i" using assms(2) by (simp add: has_room_def valid_hdc_def)
  obtain str where str: "ParseChar i (j_str j) = Inr str" "denotes str i"
    using hdc_string [OF assms(1) i0 assms(3)] by blast
  obtain a' lg1 where a: "cap_arg a cu s = Inr (a', s\<lparr>klog := lg1\<rparr>)" "denotes a' (capv cu u)"
    using cap_arg_denotes [OF assms(4,6,7)] by blast
  obtain b' lg2 where b: "cap_arg b cv (s\<lparr>klog := lg1\<rparr>) = Inr (b', s\<lparr>klog := lg2\<rparr>)" "denotes b' (capv cv v)"
    using cap_arg_denotes [OF assms(5,8,9), of "s\<lparr>klog := lg1\<rparr>"] by auto
  have l: "list_all2 denotes [str, a', b'] (req_vals i r)" using str a b assms(10) by simp
  have m: "\<forall>w \<in> set (req_vals i r). w \<le> 999"
    using assms(3,7,9,10) capv_range [OF assms(6), of u] capv_range [OF assms(8), of v] by auto
  from append_and_enqueue [OF assms(1,2) l m, of lg2 "[a', b']"] str a b show ?thesis by auto
qed

lemma cap_four:
  assumes "num_buf a va" "num_buf b vb" "num_buf c vc" "num_buf d vd"
    "0 \<le> ca" "ca \<le> 999" "0 \<le> cb" "cb \<le> 999" "0 \<le> cc" "cc \<le> 999" "0 \<le> cd" "cd \<le> 999"
  shows "\<exists>a' b' c' d' lg. (\<forall>k. bindR (cap_arg a ca s) (\<lambda>(a, s). bindR (cap_arg b cb s) (\<lambda>(b, s).
      bindR (cap_arg c cc s) (\<lambda>(c, s). bindR (cap_arg d cd s) (\<lambda>(d, s). k a b c d s)))) =
        k a' b' c' d' (s\<lparr>klog := lg\<rparr>)) \<and>
    denotes a' (capv ca va) \<and> denotes b' (capv cb vb) \<and> denotes c' (capv cc vc) \<and> denotes d' (capv cd vd)"
proof -
  obtain a' l1 where a: "cap_arg a ca s = Inr (a', s\<lparr>klog := l1\<rparr>)" "denotes a' (capv ca va)"
    using cap_arg_denotes [OF assms(1,5,6)] by blast
  obtain b' l2 where b: "cap_arg b cb (s\<lparr>klog := l1\<rparr>) = Inr (b', s\<lparr>klog := l2\<rparr>)" "denotes b' (capv cb vb)"
    using cap_arg_denotes [OF assms(2,7,8), of "s\<lparr>klog := l1\<rparr>"] by auto
  obtain c' l3 where c: "cap_arg c cc (s\<lparr>klog := l2\<rparr>) = Inr (c', s\<lparr>klog := l3\<rparr>)" "denotes c' (capv cc vc)"
    using cap_arg_denotes [OF assms(3,9,10), of "s\<lparr>klog := l2\<rparr>"] by auto
  obtain d' l4 where d: "cap_arg d cd (s\<lparr>klog := l3\<rparr>) = Inr (d', s\<lparr>klog := l4\<rparr>)" "denotes d' (capv cd vd)"
    using cap_arg_denotes [OF assms(4,11,12), of "s\<lparr>klog := l3\<rparr>"] by auto
  show ?thesis
    using a b c d by (intro exI [of _ a'] exI [of _ b'] exI [of _ c'] exI [of _ d'] exI [of _ l4]) simp
qed

lemma AppendDeclarePen_queues:
  assumes "junk_ok j" "has_room i s" "i \<le> 999" "num_buf idx u" "num_buf r vr" "num_buf g vg" "num_buf b vb"
  shows "\<exists>bufs c lg. AppendDeclarePen j i idx r g b s = Inr (bufs, (enq_state i c s)\<lparr>klog := lg\<rparr>) \<and>
    holds_request i (clip_request (Declare u vr vg vb)) c"
proof -
  let ?r = "clip_request (Declare u vr vg vb)"
  have i0: "0 \<le> i" using assms(2) by (simp add: has_room_def valid_hdc_def)
  obtain str where str: "ParseChar i (j_str j) = Inr str" "denotes str i"
    using hdc_string [OF assms(1) i0 assms(3)] by blast
  have "\<exists>a' b' c' d' lg. (\<forall>k. bindR (cap_arg idx 50 s) (\<lambda>(a1, s). bindR (cap_arg r 63 s) (\<lambda>(b1, s).
      bindR (cap_arg g 63 s) (\<lambda>(c1, s). bindR (cap_arg b 63 s) (\<lambda>(d1, s). k a1 b1 c1 d1 s)))) =
        (k a' b' c' d' (s\<lparr>klog := lg\<rparr>) :: (u8 list list \<times> gfx) res)) \<and>
    denotes a' (capv 50 u) \<and> denotes b' (capv 63 vr) \<and> denotes c' (capv 63 vg) \<and> denotes d' (capv 63 vb)"
    by (rule cap_four) (use assms in simp_all)
  then obtain a' b' c' d' lg where four: "\<And>k. bindR (cap_arg idx 50 s) (\<lambda>(a1, s). bindR (cap_arg r 63 s)
      (\<lambda>(b1, s). bindR (cap_arg g 63 s) (\<lambda>(c1, s). bindR (cap_arg b 63 s) (\<lambda>(d1, s). k a1 b1 c1 d1 s)))) =
        (k a' b' c' d' (s\<lparr>klog := lg\<rparr>) :: (u8 list list \<times> gfx) res)"
    and l: "list_all2 denotes [str, a', b', c', d'] (req_vals i ?r)"
    using str(2) by auto
  from append_and_enqueue [OF assms(1,2) l clip_vals_small [OF assms(3)], of lg "[a', b', c', d']"]
  show ?thesis
    unfolding AppendDeclarePen_def str(1) bindR_Inr four by auto
qed

lemma AppendDrawRect_queues:
  assumes "junk_ok j" "has_room i s" "i \<le> 999" "num_buf topY t" "num_buf botY b" "num_buf topX u" "num_buf botX v"
  shows "\<exists>bufs c lg. AppendDrawRect j i topY botY topX botX s = Inr (bufs, (enq_state i c s)\<lparr>klog := lg\<rparr>) \<and>
    holds_request i (clip_request (Rect t b u v)) c"
proof -
  let ?r = "clip_request (Rect t b u v)"
  have i0: "0 \<le> i" using assms(2) by (simp add: has_room_def valid_hdc_def)
  obtain str where str: "ParseChar i (j_str j) = Inr str" "denotes str i"
    using hdc_string [OF assms(1) i0 assms(3)] by blast
  have "\<exists>a' b' c' d' lg. (\<forall>k. bindR (cap_arg topY 199 s) (\<lambda>(a, s). bindR (cap_arg botY 199 s) (\<lambda>(b, s).
      bindR (cap_arg topX 319 s) (\<lambda>(c, s). bindR (cap_arg botX 319 s) (\<lambda>(d, s). k a b c d s)))) =
        (k a' b' c' d' (s\<lparr>klog := lg\<rparr>) :: (u8 list list \<times> gfx) res)) \<and>
    denotes a' (capv 199 t) \<and> denotes b' (capv 199 b) \<and> denotes c' (capv 319 u) \<and> denotes d' (capv 319 v)"
    by (rule cap_four) (use assms in simp_all)
  then obtain a' b' c' d' lg where four: "\<And>k. bindR (cap_arg topY 199 s) (\<lambda>(a, s). bindR (cap_arg botY 199 s)
      (\<lambda>(b, s). bindR (cap_arg topX 319 s) (\<lambda>(c, s). bindR (cap_arg botX 319 s) (\<lambda>(d, s). k a b c d s)))) =
        (k a' b' c' d' (s\<lparr>klog := lg\<rparr>) :: (u8 list list \<times> gfx) res)"
    and l: "list_all2 denotes [str, a', d', b', c'] (req_vals i ?r)"
    using str(2) by auto
  from append_and_enqueue [OF assms(1,2) l clip_vals_small [OF assms(3)], of lg "[a', b', c', d']"]
  show ?thesis
    unfolding AppendDrawRect_def str(1) bindR_Inr four by auto
qed

lemma AppendGetPen_queues:
  assumes "junk_ok j" "has_room i s" "i \<le> 999" "num_buf idx u"
  shows "\<exists>bufs c lg. AppendGetPen j i idx s = Inr (bufs, (enq_state i c s)\<lparr>klog := lg\<rparr>) \<and>
    holds_request i (clip_request (Pen u)) c"
proof -
  have i0: "0 \<le> i" using assms(2) by (simp add: has_room_def valid_hdc_def)
  obtain str where str: "ParseChar i (j_str j) = Inr str" "denotes str i"
    using hdc_string [OF assms(1) i0 assms(3)] by blast
  obtain a' lg where a: "cap_arg idx 50 s = Inr (a', s\<lparr>klog := lg\<rparr>)" "denotes a' (capv 50 u)"
    using cap_arg_denotes [OF assms(4), of 50 s] by auto
  have l: "list_all2 denotes [str, a'] (req_vals i (clip_request (Pen u)))" using str a by simp
  from append_and_enqueue [OF assms(1,2) l clip_vals_small [OF assms(3)], of lg "[a']"]
  show ?thesis using str a by (auto simp: AppendGetPen_def)
qed

lemma append_point_queues:
  assumes "junk_ok j" "has_room i s" "i \<le> 999" "num_buf a u" "num_buf b v"
  shows "\<exists>bufs c lg. AppendPixel j i a b s = Inr (bufs, (enq_state i c s)\<lparr>klog := lg\<rparr>) \<and>
      holds_request i (clip_request (Pixel u v)) c"
    and "\<exists>bufs c lg. AppendLineTo j i a b s = Inr (bufs, (enq_state i c s)\<lparr>klog := lg\<rparr>) \<and>
      holds_request i (clip_request (Line u v)) c"
    and "\<exists>bufs c lg. AppendCursorMove j i a b s = Inr (bufs, (enq_state i c s)\<lparr>klog := lg\<rparr>) \<and>
      holds_request i (clip_request (Move u v)) c"
  using append_two [OF assms, of 319 199 "clip_request (Pixel u v)"]
    append_two [OF assms, of 319 199 "clip_request (Line u v)"]
    append_two [OF assms, of 319 199 "clip_request (Move u v)"]
  by (simp_all add: AppendPixel_def AppendLineTo_def AppendCursorMove_def)

lemma writeQueue_ret:
  "\<exists>bufs c lg. A = Inr (bufs, F c lg) \<and> P c \<Longrightarrow>
    \<exists>bufs c lg. bindR A (\<lambda>(bufs, s). Inr (1 :: int, bufs, s)) = Inr (1, bufs, F c lg) \<and> P c"
  by fastforce

lemma sys_writeQueue_queues:
  assumes "junk_ok j" "has_room i s" "i \<le> 999" "argint p 0 = Some i" "argint p 1 = Some opType"
    "asks opType aset r"
  shows "\<exists>bufs c lg. sys_writeQueue p j aset s = Inr (1, bufs, (enq_state i c s)\<lparr>klog := lg\<rparr>) \<and>
    holds_request i (clip_request r) c"
proof -
  note q = append_point_queues [OF assms(1-3), THEN writeQueue_ret]
    AppendDeclarePen_queues [OF assms(1-3), THEN writeQueue_ret]
    AppendGetPen_queues [OF assms(1-3), THEN writeQueue_ret]
    AppendDrawRect_queues [OF assms(1-3), THEN writeQueue_ret]
  note [simp] = sys_writeQueue_def Let_def
  show ?thesis
  proof (cases r)
    case (Pixel u v)
    then show ?thesis using assms(4-6) q(1) [of "arg0 aset" u "arg1 aset" v] by simp
  next
    case (Line u v)
    then show ?thesis using assms(4-6) q(2) [of "arg0 aset" u "arg1 aset" v] by simp
  next
    case (Move u v)
    then show ?thesis using assms(4-6) q(3) [of "arg0 aset" u "arg1 aset" v] by simp
  next
    case (Declare idx vr g b)
    then show ?thesis
      using assms(4-6) q(4) [of "arg0 aset" idx "arg1 aset" vr "arg2 aset" g "arg3 aset" b] by simp
  next
    case (Pen idx)
    then show ?thesis using assms(4-6) q(5) [of "arg0 aset" idx] by simp
  next
    case (Rect t b u v)
    then show ?thesis
      using assms(4-6) q(6) [of "arg0 aset" t "arg1 aset" b "arg2 aset" u "arg3 aset" v] by simp
  qed
qed

end
