(* ===== verification/GfxCalls.thy ===== *)
theory GfxCalls
  imports GfxQueue
begin

text \<open>
  The graphics system calls of graphics.c. Each takes the calling process (for its arguments) and
  the graphics state, and returns the call's result with the new state. The spin lock of the file
  makes beginpaint and endpaint atomic, which a function of the state is by itself.
\<close>

subsection \<open>Operations\<close>

definition clear320x200x256 :: "gfx \<Rightarrow> gfx" where
  "clear320x200x256 s = s\<lparr>pixMem := (\<lambda>a. if unat a < 320 * 200 then 0 else pixMem s a)\<rparr>"

definition cap_int :: "int \<Rightarrow> int \<Rightarrow> gfx \<Rightarrow> int \<times> gfx" where
  "cap_int v capacity s =
     (let (v, warned) = ValueCapper v capacity in (v, if warned then cprintf cap_message s else s))"

definition invalid_hdc_message :: string where
  "invalid_hdc_message = ''Invalid HDC value''"

definition sys_setpixel :: "uproc \<Rightarrow> gfx \<Rightarrow> (int \<times> gfx) res" where
  "sys_setpixel p s =
     (case (argint p 0, argint p 1, argint p 2) of
        (Some i, Some px, Some py) \<Rightarrow>
          if i < 0 then Inr (-1, cprintf invalid_hdc_message s)
          else let (px, s) = cap_int px 319 s; (py, s) = cap_int py 199 s in
               bindR (PixelSetterFunc i px py s) (\<lambda>s. Inr (0, s))
      | _ \<Rightarrow> Inr (-1, cprintf ''An error occured in the pixel setter function'' s))"

definition sys_moveto :: "uproc \<Rightarrow> gfx \<Rightarrow> (int \<times> gfx) res" where
  "sys_moveto p s =
     (case (argint p 0, argint p 1, argint p 2) of
        (Some i, Some px, Some py) \<Rightarrow>
          if i < 0 then Inr (-1, cprintf invalid_hdc_message s)
          else let (px, s) = cap_int px 319 s; (py, s) = cap_int py 199 s in
               bindR (MovePos i px py s) (\<lambda>s. Inr (0, s))
      | _ \<Rightarrow> Inr (-1, cprintf ''An error occured in the movement function'' s))"

definition sys_lineto :: "uproc \<Rightarrow> gfx \<Rightarrow> (int \<times> gfx) res" where
  "sys_lineto p s =
     (case (argint p 0, argint p 1, argint p 2) of
        (Some i, Some nx, Some ny) \<Rightarrow>
          if i < 0 then Inr (-1, cprintf invalid_hdc_message s)
          else let (nx, s) = cap_int nx 319 s; (ny, s) = cap_int ny 199 s in
               bindR (array_get (hdcObjects s) i) (\<lambda>h.
               bindR (LineDraw (hdc_x h) (hdc_y h) nx ny i s) (\<lambda>s.
               bindR (MovePos i nx ny s) (\<lambda>s. Inr (0, s))))
      | _ \<Rightarrow> Inr (-1, cprintf ''An error occured in the line function'' s))"

definition sys_setpencolour :: "uproc \<Rightarrow> gfx \<Rightarrow> (int \<times> gfx) res" where
  "sys_setpencolour p s =
     (case (argint p 0, argint p 1, argint p 2, argint p 3) of
        (Some idx, Some r, Some g, Some b) \<Rightarrow>
          let (r, s) = cap_int r 63 s; (g, s) = cap_int g 63 s; (b, s) = cap_int b 63 s in
          if idx < 16
          then Inr (-1, cprintf ''This operation would overwrite a system pen'' s)
          else if idx > 255
          then Inr (-1, cprintf ''This operation would write to a pen outside of the allocated memory'' s)
          else Inr (0, write_pen idx r g b s)
      | _ \<Rightarrow> Inr (-1, cprintf ''An error occured in the pen creator function'' s))"

definition sys_selectpen :: "uproc \<Rightarrow> gfx \<Rightarrow> (int \<times> gfx) res" where
  "sys_selectpen p s =
     (case (argint p 0, argint p 1) of
        (Some i, Some idx) \<Rightarrow>
          if i < 0 then Inr (-1, cprintf invalid_hdc_message s)
          else if idx > 255
          then Inr (-1, cprintf ''This operation would get a pen outside of the allocated memory'' s)
          else bindR (upd_hdc i (\<lambda>h. h\<lparr>penIndex := idx\<rparr>) s) (\<lambda>s. Inr (0, s))
      | _ \<Rightarrow> Inr (-1, cprintf ''An error occured in the pen selector function'' s))"

text \<open>The user's rectangle (rect.h), as the pointer designates it; the call limits it in place.\<close>

record rect =
  rtop :: int
  rleft :: int
  rbottom :: int
  rright :: int

text \<open>
  The size passed to argptr is the truth value of \<open>sizeof(*pointedRect) < 0\<close>, which is 0, and its
  result is tested for non-zero.
\<close>

definition sys_fillrect :: "uproc \<Rightarrow> rect \<Rightarrow> gfx \<Rightarrow> (int \<times> rect \<times> gfx) res" where
  "sys_fillrect p rc s =
     (case (argint p 0, argptr p 1 0) of
        (Some i, Some _) \<Rightarrow>
          if i < 0 then Inr (-1, rc, cprintf invalid_hdc_message s)
          else let (t, s) = cap_int (rtop rc) 199 s; (b, s) = cap_int (rbottom rc) 199 s;
                   (l, s) = cap_int (rleft rc) 319 s; (r, s) = cap_int (rright rc) 319 s;
                   rc = \<lparr>rtop = t, rleft = l, rbottom = b, rright = r\<rparr> in
               bindR (fill_rows l r t i b s) (\<lambda>s. Inr (0, rc, s))
      | _ \<Rightarrow> Inr (-1, rc, s))"

text \<open>
  The new context is a local struct whose command array the source leaves uninitialised: \<open>q\<close>.
\<close>

definition fresh_hdc :: "int \<Rightarrow> commandBuffer list \<Rightarrow> hdc" where
  "fresh_hdc ini q =
     \<lparr>hdc_init = ini, hdc_x = 0, hdc_y = 0, penIndex = 15, commandQueue = q, queueEnd = 0\<rparr>"

definition sys_beginpaint :: "uproc \<Rightarrow> commandBuffer list \<Rightarrow> gfx \<Rightarrow> (int \<times> gfx) res" where
  "sys_beginpaint p q s =
     (let s = (if lockinit s \<noteq> 1 then s\<lparr>lockinit := 1\<rparr> else s) in
      case argint p 0 of
        None \<Rightarrow> Inr (-1, s)
      | Some hwnd \<Rightarrow>
          (case scan_from (\<lambda>h. hdc_init h = 0) 0 (take 5 (hdcObjects s)) of
             Some index \<Rightarrow>
               Inr (int index, s\<lparr>hdcObjects := (hdcObjects s)[index := fresh_hdc 1 q]\<rparr>)
           | None \<Rightarrow> Inr (-1, s)))"

subsection \<open>What drawing leaves alone\<close>

text \<open>The plotters change the frame buffer and nothing else; no queued action touches a queue.\<close>

definition only_pixels :: "gfx \<Rightarrow> gfx \<Rightarrow> bool" where
  "only_pixels s s' \<longleftrightarrow> (\<exists>fb. s' = s\<lparr>pixMem := fb\<rparr>)"

lemma only_pixels_refl [intro, simp]: "only_pixels s s"
  unfolding only_pixels_def by (rule exI [of _ "pixMem s"]) simp

lemma only_pixels_trans [trans]: "only_pixels s t \<Longrightarrow> only_pixels t u \<Longrightarrow> only_pixels s u"
  by (auto simp: only_pixels_def)

lemma only_pixels_hdcs: "only_pixels s s' \<Longrightarrow> hdcObjects s' = hdcObjects s"
  by (auto simp: only_pixels_def)

lemma Pixel_only: "PixelSetterFunc i px py s = Inr s' \<Longrightarrow> only_pixels s s'"
  by (auto simp: PixelSetterFunc_def bindR_eq_Inr Let_def only_pixels_def)

lemma Xloop_only: "XIncPlotter_loop a b d i u x1 v e s = Inr s' \<Longrightarrow> only_pixels s s'"
proof (induction "nat (x1 + 1 - u)" arbitrary: u v e s)
  case 0
  then show ?case by (simp add: XIncPlotter_loop.simps)
next
  case (Suc n)
  then have le: "u \<le> x1" by linarith
  from Suc.prems le obtain t v' e' where t: "PixelSetterFunc i u v s = Inr t"
    "XIncPlotter_loop a b d i (u + 1) x1 v' e' t = Inr s'"
    by (subst (asm) XIncPlotter_loop.simps) (auto simp: bindR_eq_Inr Let_def split: if_splits)
  have "only_pixels t s'" using Suc.hyps(1) [OF _ t(2)] Suc.hyps(2) by simp
  with Pixel_only [OF t(1)] show ?case by (rule only_pixels_trans)
qed

lemma Yloop_only: "YIncPlotter_loop a b d i u y1 v e s = Inr s' \<Longrightarrow> only_pixels s s'"
proof (induction "nat (y1 + 1 - u)" arbitrary: u v e s)
  case 0
  then show ?case by (simp add: YIncPlotter_loop.simps)
next
  case (Suc n)
  then have le: "u \<le> y1" by linarith
  from Suc.prems le obtain t v' e' where t: "PixelSetterFunc i v u s = Inr t"
    "YIncPlotter_loop a b d i (u + 1) y1 v' e' t = Inr s'"
    by (subst (asm) YIncPlotter_loop.simps) (auto simp: bindR_eq_Inr Let_def split: if_splits)
  have "only_pixels t s'" using Suc.hyps(1) [OF _ t(2)] Suc.hyps(2) by simp
  with Pixel_only [OF t(1)] show ?case by (rule only_pixels_trans)
qed

lemma LineDraw_only: "LineDraw x0 y0 x1 y1 i s = Inr s' \<Longrightarrow> only_pixels s s'"
  by (auto simp: LineDraw_def XIncPlotter_def YIncPlotter_def Let_def split: if_splits
      intro: Xloop_only Yloop_only)

lemma fill_rows_only: "fill_rows l r t i py s = Inr s' \<Longrightarrow> only_pixels s s'"
proof (induction "nat (t + 1 - py)" arbitrary: py s)
  case 0
  then show ?case by (simp add: fill_rows.simps)
next
  case (Suc n)
  then have le: "py \<le> t" by linarith
  from Suc.prems le obtain u where u: "LineDraw l py r py i s = Inr u" "fill_rows l r t i (py + 1) u = Inr s'"
    by (subst (asm) fill_rows.simps) (auto simp: bindR_eq_Inr)
  have "only_pixels u s'" using Suc.hyps(1) [OF _ u(2)] Suc.hyps(2) by simp
  with LineDraw_only [OF u(1)] show ?case by (rule only_pixels_trans)
qed

definition queues :: "gfx \<Rightarrow> (int \<times> commandBuffer list \<times> int) list" where
  "queues s = map (\<lambda>h. (hdc_init h, commandQueue h, queueEnd h)) (hdcObjects s)"

lemma queues_upd_hdc:
  "upd_hdc i f s = Inr s' \<Longrightarrow>
    (\<And>h. hdc_init (f h) = hdc_init h \<and> commandQueue (f h) = commandQueue h \<and> queueEnd (f h) = queueEnd h) \<Longrightarrow>
    queues s' = queues s"
  by (auto simp: upd_hdc_def bindR_eq_Inr array_get_def array_set_def queues_def map_update
      list_update_id split: if_splits intro!: list_update_same_conv [THEN iffD2])

lemma queues_only_pixels: "only_pixels s s' \<Longrightarrow> queues s' = queues s"
  by (simp add: queues_def only_pixels_hdcs)

lemma queues_MovePos: "MovePos i px py s = Inr s' \<Longrightarrow> queues s' = queues s"
  unfolding MovePos_def by (erule queues_upd_hdc) simp

lemma queues_write_pen [simp]: "queues (write_pen idx r g b s) = queues s"
  by (simp add: write_pen_def outb_def queues_def)

lemma queues_LineDrawFunc:
  assumes "LineDrawFunc as s = Inr s'"
  shows "queues s' = queues s"
proof -
  from assms obtain i and h :: hdc and x1 y1 t where t: "LineDraw (hdc_x h) (hdc_y h) x1 y1 i s = Inr t" "MovePos i x1 y1 t = Inr s'"
    unfolding LineDrawFunc_def LineDraw_def bindR_eq_Inr Let_def by blast
  show ?thesis
    using queues_MovePos [OF t(2)] queues_only_pixels [OF LineDraw_only [OF t(1)]] by simp
qed

lemma queues_run_command:
  assumes "run_command c s = Inr s'"
  shows "queues s' = queues s"
proof (cases "queuedAction c")
  case FnPixelSetterFuncQueue
  then show ?thesis
    using assms by (auto simp: PixelSetterFuncQueue_def bindR_eq_Inr Let_def queues_def)
next
  case FnLineDrawFunc
  then show ?thesis using assms by (simp add: queues_LineDrawFunc)
next
  case FnMovePosFunc
  then show ?thesis
    using assms by (auto simp: MovePosFunc_def bindR_eq_Inr elim!: queues_upd_hdc)
next
  case FnDeclarePenFunc
  then show ?thesis using assms by (auto simp: DeclarePenFunc_def bindR_eq_Inr)
next
  case FnGetPenFunc
  then show ?thesis
    using assms by (auto simp: GetPenFunc_def bindR_eq_Inr elim!: queues_upd_hdc)
next
  case FnDrawRect
  then show ?thesis
    using assms by (auto simp: DrawRect_def bindR_eq_Inr intro!: queues_only_pixels dest: fill_rows_only)
qed

subsection \<open>Ending a paint and querying a context\<close>

definition queue_end :: "gfx \<Rightarrow> int \<Rightarrow> int" where
  "queue_end s i = snd (snd (queues s ! nat i))"

lemma queue_end_get: "array_get (hdcObjects s) i = Inr h \<Longrightarrow> queue_end s i = queueEnd h"
  by (auto simp: array_get_def queue_end_def queues_def split: if_splits)

function endpaint_loop :: "int \<Rightarrow> int \<Rightarrow> gfx \<Rightarrow> gfx res" where
  "endpaint_loop i k s =
     bindR (array_get (hdcObjects s) i) (\<lambda>h.
       if k < queueEnd h
       then bindR (array_get (commandQueue h) k) (\<lambda>c.
            bindR (run_command c s) (\<lambda>s. endpaint_loop i (k + 1) s))
       else Inr s)"
  by pat_completeness auto
termination
proof (relation "measure (\<lambda>(i, k, s). nat (queue_end s i - k))", goal_cases)
  case 1
  then show ?case by simp
next
  case (2 i k s h c s')
  then have "queue_end s' i = queue_end s i" "queue_end s i = queueEnd h"
    by (simp_all add: queue_end_def queues_run_command del: run_command.simps)
      (simp add: queue_end_def [symmetric] queue_end_get)
  with 2 show ?case by simp
qed

declare endpaint_loop.simps [simp del]

definition sys_endpaint :: "uproc \<Rightarrow> commandBuffer list \<Rightarrow> gfx \<Rightarrow> (int \<times> gfx) res" where
  "sys_endpaint p q s =
     (case argint p 0 of None \<Rightarrow> Inr (-1, s) | Some i \<Rightarrow>
     (case argint p 1 of None \<Rightarrow> Inr (-1, s) | Some executeQueue \<Rightarrow>
      if i < 0 then Inr (-1, s)
      else bindR (if executeQueue = 1 then endpaint_loop i 0 s else Inr s) (\<lambda>s.
           bindR (array_get (hdcObjects s) i) (\<lambda>h.
             if hdc_init h = 1
             then bindR (upd_hdc i (\<lambda>_. fresh_hdc 0 q) s) (\<lambda>s. Inr (0, s))
             else Inr (-1, s)))))"

definition sys_getHDC :: "uproc \<Rightarrow> gfx \<Rightarrow> int res" where
  "sys_getHDC p s =
     (case argint p 0 of None \<Rightarrow> Inr (-1)
      | Some i \<Rightarrow>
          if i > 5 \<or> i < 0 then Inr (-1)
          else bindR (array_get (hdcObjects s) i) (\<lambda>h. Inr (if hdc_init h = 1 then 0 else -1)))"

end
