(* ===== verification/GfxSpec.thy ===== *)
theory GfxSpec
  imports GfxCalls
begin

text \<open>
  What the graphics calls promise. A request has one meaning, \<open>apply_req\<close>, a total function on the
  drawing part of the state; the direct system calls have it, and so do requests that are queued
  by writeQueue and replayed by endpaint. The invariant \<open>gfx_inv\<close> (five contexts, cursors on the
  screen, every queued entry a limited request of its own context) holds along every sequence of
  calls and is what makes the replay safe.
\<close>

subsection \<open>The meaning of a request\<close>

definition set_hdc :: "int \<Rightarrow> hdc \<Rightarrow> gfx \<Rightarrow> gfx" where
  "set_hdc i h s = s\<lparr>hdcObjects := (hdcObjects s)[nat i := h]\<rparr>"

definition get_hdc :: "int \<Rightarrow> gfx \<Rightarrow> hdc" where
  "get_hdc i s = hdcObjects s ! nat i"

fun apply_req :: "int \<Rightarrow> request \<Rightarrow> gfx \<Rightarrow> gfx" where
  "apply_req i (Pixel px py) s = s\<lparr>pixMem := paint {(px, py)} (pen_of i s) (pixMem s)\<rparr>"
| "apply_req i (Line px py) s =
     set_hdc i ((get_hdc i s)\<lparr>hdc_x := px, hdc_y := py\<rparr>)
       (s\<lparr>pixMem := paint (set (line_points (hdc_x (get_hdc i s)) (hdc_y (get_hdc i s)) px py))
          (pen_of i s) (pixMem s)\<rparr>)"
| "apply_req i (Move px py) s = set_hdc i ((get_hdc i s)\<lparr>hdc_x := px, hdc_y := py\<rparr>) s"
| "apply_req i (Declare idx r g b) s = write_pen idx r g b s"
| "apply_req i (Pen idx) s = set_hdc i ((get_hdc i s)\<lparr>penIndex := idx\<rparr>) s"
| "apply_req i (Rect topY botY topX botX) s =
     s\<lparr>pixMem := paint ({min botX topX..max botX topX} \<times> {botY..topY}) (pen_of i s) (pixMem s)\<rparr>"

text \<open>Numbers that the limits of the calls let through.\<close>

fun req_ok :: "request \<Rightarrow> bool" where
  "req_ok (Pixel px py) = on_screen px py"
| "req_ok (Line px py) = on_screen px py"
| "req_ok (Move px py) = on_screen px py"
| "req_ok (Declare idx r g b) = True"
| "req_ok (Pen idx) = True"
| "req_ok (Rect topY botY topX botX) = (on_screen topX topY \<and> on_screen botX botY)"

lemma req_ok_clip: "req_ok (clip_request r)"
proof -
  have "0 \<le> capv 319 v" "capv 319 v \<le> 319" "0 \<le> capv 199 v" "capv 199 v \<le> 199" for v
    using capv_range [of 319 v] capv_range [of 199 v] by simp_all
  then show ?thesis by (cases r) (simp_all add: on_screen_def)
qed

lemma upd_hdc_ok: "valid_hdc i s \<Longrightarrow> upd_hdc i f s = Inr (set_hdc i (f (get_hdc i s)) s)"
  by (simp add: valid_hdc_def upd_hdc_def array_get_def array_set_def set_hdc_def get_hdc_def)

lemma valid_hdc_get: "valid_hdc i s \<Longrightarrow> array_get (hdcObjects s) i = Inr (get_hdc i s)"
  by (simp add: valid_hdc_def array_get_def get_hdc_def)

lemma exec_request_apply:
  assumes "valid_hdc i s" "req_ok r" "on_screen (hdc_x (get_hdc i s)) (hdc_y (get_hdc i s))"
  shows "exec_request i r s = Inr (apply_req i r s)"
proof -
  note c = on_screen_coord [OF assms(3)]
  show ?thesis
  proof (cases r)
    case (Line px py)
    then have "coord px" "coord py" using assms(2) on_screen_coord by auto
    with Line c assms(1) show ?thesis
      by (simp add: valid_hdc_get LineDraw_paint MovePos_def upd_hdc_ok get_hdc_def)
  next
    case (Rect t b u v)
    then have "coord v" "coord u" "coord t" "0 \<le> b"
      using assms(2) by (auto simp: on_screen_def coord_def)
    with Rect assms(1) show ?thesis by (simp add: fill_rows_paint)
  qed (use assms in \<open>simp_all add: PixelSetterFunc_ok MovePos_def upd_hdc_ok\<close>)
qed

subsection \<open>The invariant\<close>

definition hdc_wf :: "int \<Rightarrow> hdc \<Rightarrow> bool" where
  "hdc_wf i h \<longleftrightarrow> length (commandQueue h) = 50 \<and> 0 \<le> queueEnd h \<and> queueEnd h \<le> 50 \<and>
     on_screen (hdc_x h) (hdc_y h) \<and>
     (\<forall>k < nat (queueEnd h). \<exists>r. holds_request i (clip_request r) (commandQueue h ! k))"

definition gfx_inv :: "gfx \<Rightarrow> bool" where
  "gfx_inv s \<longleftrightarrow> length (hdcObjects s) = 5 \<and> (\<forall>i < 5. hdc_wf (int i) (hdcObjects s ! i))"

lemma gfx_inv_valid: "gfx_inv s \<Longrightarrow> valid_hdc i s \<longleftrightarrow> 0 \<le> i \<and> i < 5"
  by (simp add: gfx_inv_def valid_hdc_def)

lemma gfx_inv_hdc: "gfx_inv s \<Longrightarrow> valid_hdc i s \<Longrightarrow> hdc_wf i (get_hdc i s)"
  by (auto simp: gfx_inv_def valid_hdc_def get_hdc_def dest: spec [of _ "nat i"])

lemma gfx_inv_screen: "gfx_inv s \<Longrightarrow> valid_hdc i s \<Longrightarrow> on_screen (hdc_x (get_hdc i s)) (hdc_y (get_hdc i s))"
  using gfx_inv_hdc hdc_wf_def by blast

lemma gfx_inv_frame: "hdcObjects s' = hdcObjects s \<Longrightarrow> gfx_inv s' = gfx_inv s"
  by (simp add: gfx_inv_def)

lemma gfx_inv_set_hdc: "gfx_inv s \<Longrightarrow> valid_hdc i s \<Longrightarrow> hdc_wf i h \<Longrightarrow> gfx_inv (set_hdc i h s)"
  by (auto simp: gfx_inv_def valid_hdc_def set_hdc_def nth_list_update)

lemma gfx_inv_apply:
  assumes "gfx_inv s" "valid_hdc i s" "req_ok r"
  shows "gfx_inv (apply_req i r s)"
proof -
  have wf: "hdc_wf i (get_hdc i s)" using assms(1,2) by (rule gfx_inv_hdc)
  have frame: "gfx_inv (s\<lparr>pixMem := fb\<rparr>)" "gfx_inv (write_pen a b c d s)"
    "valid_hdc i (s\<lparr>pixMem := fb\<rparr>)" for fb a b c d
    using assms by (simp_all add: gfx_inv_def write_pen_def outb_def)
  show ?thesis
    using assms(3) frame wf assms(1,2)
    by (cases r) (auto intro!: gfx_inv_set_hdc simp: hdc_wf_def)
qed

subsection \<open>Drawing does not depend on queues or messages\<close>

definition strip :: "hdc \<Rightarrow> hdc" where
  "strip h = \<lparr>hdc_init = hdc_init h, hdc_x = hdc_x h, hdc_y = hdc_y h, penIndex = penIndex h,
     commandQueue = [], queueEnd = 0\<rparr>"

definition view :: "gfx \<Rightarrow> gfx" where
  "view s = s\<lparr>hdcObjects := map strip (hdcObjects s), klog := []\<rparr>"

lemma view_fields [simp]: "pixMem (view s) = pixMem s" "ports (view s) = ports s"
  by (simp_all add: view_def)

lemma view_klog [simp]: "view (s\<lparr>klog := lg\<rparr>) = view s" "view (cprintf msg s) = view s"
  by (simp_all add: view_def cprintf_def)

lemma valid_hdc_view [simp]: "valid_hdc i (view s) = valid_hdc i s"
  by (simp add: view_def valid_hdc_def)

lemma view_get: "valid_hdc i s \<Longrightarrow> get_hdc i (view s) = strip (get_hdc i s)"
  by (simp add: view_def get_hdc_def valid_hdc_def nat_less_iff)

lemma view_pen: "valid_hdc i s \<Longrightarrow> pen_of i (view s) = pen_of i s"
  by (simp add: view_def pen_of_def valid_hdc_def nat_less_iff strip_def)

lemma view_set_hdc: "view (set_hdc i h s) = set_hdc i (strip h) (view s)"
  by (simp add: view_def set_hdc_def map_update)

lemma view_pixMem: "view (s\<lparr>pixMem := fb\<rparr>) = (view s)\<lparr>pixMem := fb\<rparr>"
  by (simp add: view_def)

lemma view_write_pen: "view (write_pen idx r g b s) = write_pen idx r g b (view s)"
  by (simp add: view_def write_pen_def outb_def)

lemma view_apply: "valid_hdc i s \<Longrightarrow> view (apply_req i r s) = apply_req i r (view s)"
  by (cases r) (simp_all add: view_set_hdc view_pixMem view_write_pen view_get view_pen strip_def)

lemma view_enq: "has_room i s \<Longrightarrow> view (enq_state i c s) = view s"
  unfolding has_room_def valid_hdc_def view_def enq_state_def Let_def
  by (auto simp: map_update list_update_same_conv strip_def)

definition apply_clipped :: "int \<Rightarrow> request list \<Rightarrow> gfx \<Rightarrow> gfx" where
  "apply_clipped i rs s = fold (\<lambda>r. apply_req i (clip_request r)) rs s"

lemma apply_clipped_simps [simp]:
  "apply_clipped i [] s = s"
  "apply_clipped i (r # rs) s = apply_clipped i rs (apply_req i (clip_request r) s)"
  by (simp_all add: apply_clipped_def)

lemma valid_apply [simp]: "valid_hdc j (apply_req i r s) = valid_hdc j s"
  by (cases r) (simp_all add: valid_hdc_def set_hdc_def write_pen_def outb_def)

lemma valid_apply_clipped [simp]: "valid_hdc j (apply_clipped i rs s) = valid_hdc j s"
  by (induction rs arbitrary: s) simp_all

lemma view_apply_clipped: "valid_hdc i s \<Longrightarrow> view (apply_clipped i rs s) = apply_clipped i rs (view s)"
  by (induction rs arbitrary: s) (simp_all add: view_apply)

lemma apply_other: "0 \<le> j \<Longrightarrow> j \<noteq> i \<Longrightarrow> 0 \<le> i \<Longrightarrow> get_hdc j (apply_req i r s) = get_hdc j s"
  by (cases r) (simp_all add: get_hdc_def set_hdc_def write_pen_def outb_def nat_eq_iff nat_eq_iff2)

lemma apply_clipped_other:
  "0 \<le> j \<Longrightarrow> j \<noteq> i \<Longrightarrow> 0 \<le> i \<Longrightarrow> get_hdc j (apply_clipped i rs s) = get_hdc j s"
  by (induction rs arbitrary: s) (simp_all add: apply_other)

lemma get_set_hdc: "valid_hdc i s \<Longrightarrow> get_hdc i (set_hdc i h s) = h"
  by (simp add: get_hdc_def set_hdc_def valid_hdc_def nat_less_iff)

lemma get_hdc_frame [simp]:
  "get_hdc i (s\<lparr>pixMem := fb\<rparr>) = get_hdc i s" "get_hdc i (write_pen a b c d s) = get_hdc i s"
  by (simp_all add: get_hdc_def write_pen_def outb_def)

lemma apply_queue:
  assumes "valid_hdc i s"
  shows "commandQueue (get_hdc i (apply_req i r s)) = commandQueue (get_hdc i s)"
    "queueEnd (get_hdc i (apply_req i r s)) = queueEnd (get_hdc i s)"
    "hdc_init (get_hdc i (apply_req i r s)) = hdc_init (get_hdc i s)"
  using assms by (cases r; simp add: get_set_hdc)+

lemma apply_clipped_init:
  "valid_hdc i s \<Longrightarrow> hdc_init (get_hdc i (apply_clipped i rs s)) = hdc_init (get_hdc i s)"
  by (induction rs arbitrary: s) (simp_all add: apply_queue)

lemma gfx_inv_apply_clipped: "gfx_inv s \<Longrightarrow> valid_hdc i s \<Longrightarrow> gfx_inv (apply_clipped i rs s)"
  by (induction rs arbitrary: s) (simp_all add: gfx_inv_apply req_ok_clip)

subsection \<open>Replaying a queue\<close>

lemma endpaint_loop_replay:
  assumes "gfx_inv s" "valid_hdc i s" "0 \<le> k" "k + int (length rs) = queueEnd (get_hdc i s)"
    "\<forall>n < length rs. holds_request i (clip_request (rs ! n)) (commandQueue (get_hdc i s) ! (nat k + n))"
  shows "endpaint_loop i k s = Inr (apply_clipped i rs s)"
  using assms
proof (induction rs arbitrary: k s)
  case Nil
  then show ?case by (subst endpaint_loop.simps) (simp add: valid_hdc_get)
next
  case (Cons r rs)
  let ?t = "apply_req i (clip_request r) s"
  have wf: "hdc_wf i (get_hdc i s)" using Cons.prems(1,2) by (rule gfx_inv_hdc)
  have get: "array_get (commandQueue (get_hdc i s)) k = Inr (commandQueue (get_hdc i s) ! nat k)"
    using wf Cons.prems(3,4) by (simp add: hdc_wf_def array_get_def)
  have "holds_request i (clip_request r) (commandQueue (get_hdc i s) ! nat k)"
    using Cons.prems(5) by force
  then have run: "run_command (commandQueue (get_hdc i s) ! nat k) s = Inr ?t"
    using run_command_request exec_request_apply [OF Cons.prems(2) req_ok_clip gfx_inv_screen [OF Cons.prems(1,2)]]
    by simp
  have "endpaint_loop i (k + 1) ?t = Inr (apply_clipped i rs ?t)"
  proof (rule Cons.IH)
    show "gfx_inv ?t" using Cons.prems(1,2) req_ok_clip by (rule gfx_inv_apply)
    show "\<forall>n < length rs. holds_request i (clip_request (rs ! n)) (commandQueue (get_hdc i ?t) ! (nat (k + 1) + n))"
      using Cons.prems(2,3,5) by (auto simp: apply_queue nat_add_distrib dest: spec [of _ "Suc _"])
  qed (use Cons.prems in \<open>simp_all add: apply_queue\<close>)
  then show ?case
    using Cons.prems(2,4) get run
    by (subst endpaint_loop.simps) (simp add: valid_hdc_get del: run_command.simps)
qed

lemma gfx_inv_requests:
  assumes "gfx_inv s" "valid_hdc i s"
  shows "\<exists>rs. int (length rs) = queueEnd (get_hdc i s) \<and>
    (\<forall>n < length rs. holds_request i (clip_request (rs ! n)) (commandQueue (get_hdc i s) ! n))"
proof -
  have wf: "hdc_wf i (get_hdc i s)" using assms by (rule gfx_inv_hdc)
  then have "\<forall>k < nat (queueEnd (get_hdc i s)). \<exists>r. holds_request i (clip_request r) (commandQueue (get_hdc i s) ! k)"
    by (simp add: hdc_wf_def)
  then obtain f where f: "\<forall>k < nat (queueEnd (get_hdc i s)). holds_request i (clip_request (f k)) (commandQueue (get_hdc i s) ! k)"
    by metis
  show ?thesis
    using wf f by (intro exI [of _ "map f [0..<nat (queueEnd (get_hdc i s))]"]) (simp add: hdc_wf_def)
qed

lemma sys_endpaint_replay:
  assumes "gfx_inv s" "valid_hdc i s" "hdc_init (get_hdc i s) = 1" "argint p 0 = Some i" "argint p 1 = Some 1"
    "int (length rs) = queueEnd (get_hdc i s)"
    "\<forall>n < length rs. holds_request i (clip_request (rs ! n)) (commandQueue (get_hdc i s) ! n)"
  shows "sys_endpaint p q s = Inr (0, set_hdc i (fresh_hdc 0 q) (apply_clipped i rs s))"
proof -
  have "endpaint_loop i 0 s = Inr (apply_clipped i rs s)"
    by (rule endpaint_loop_replay) (use assms in simp_all)
  moreover have "0 \<le> i" using assms(2) by (simp add: valid_hdc_def)
  ultimately show ?thesis
    using assms(2-5) by (simp add: sys_endpaint_def valid_hdc_get upd_hdc_ok apply_clipped_init)
qed

subsection \<open>Filling a queue\<close>

definition push_cmd :: "commandBuffer \<Rightarrow> hdc \<Rightarrow> hdc" where
  "push_cmd c h = h\<lparr>commandQueue := (commandQueue h)[nat (queueEnd h) := c], queueEnd := queueEnd h + 1\<rparr>"

lemma enq_state_set: "enq_state i c s = set_hdc i (push_cmd c (get_hdc i s)) s"
  by (simp add: enq_state_def set_hdc_def get_hdc_def push_cmd_def Let_def)

lemma get_hdc_klog [simp]: "get_hdc i (s\<lparr>klog := lg\<rparr>) = get_hdc i s"
  by (simp add: get_hdc_def)

lemma gfx_inv_klog [simp]: "gfx_inv (s\<lparr>klog := lg\<rparr>) = gfx_inv s" "gfx_inv (cprintf msg s) = gfx_inv s"
  by (simp_all add: gfx_inv_def cprintf_def)

lemma valid_hdc_klog [simp]: "valid_hdc i (s\<lparr>klog := lg\<rparr>) = valid_hdc i s" "valid_hdc i (cprintf msg s) = valid_hdc i s"
  by (simp_all add: valid_hdc_def cprintf_def)

lemma hdc_wf_push:
  "hdc_wf i h \<Longrightarrow> queueEnd h < 50 \<Longrightarrow> holds_request i (clip_request r) c \<Longrightarrow> hdc_wf i (push_cmd c h)"
  by (auto simp: hdc_wf_def push_cmd_def nth_list_update less_Suc_eq nat_add_distrib)

lemma has_room_inv: "gfx_inv s \<Longrightarrow> has_room i s \<longleftrightarrow> valid_hdc i s \<and> queueEnd (get_hdc i s) < 50"
  using gfx_inv_hdc [of s i] by (auto simp: has_room_def get_hdc_def hdc_wf_def)

lemma gfx_inv_enq:
  assumes "gfx_inv s" "has_room i s" "holds_request i (clip_request r) c"
  shows "gfx_inv (enq_state i c s)"
  using assms has_room_inv [OF assms(1), of i] gfx_inv_hdc [OF assms(1), of i]
  by (simp add: enq_state_set gfx_inv_set_hdc hdc_wf_push)

text \<open>A program's writeQueue calls, one after the other.\<close>

fun write_requests :: "(uproc \<times> stack_junk \<times> argsSet) list \<Rightarrow> gfx \<Rightarrow> gfx res" where
  "write_requests [] s = Inr s"
| "write_requests ((p, j, a) # cs) s =
     bindR (sys_writeQueue p j a s) (\<lambda>(_, _, s). write_requests cs s)"

fun calls_for :: "int \<Rightarrow> uproc \<times> stack_junk \<times> argsSet \<Rightarrow> request \<Rightarrow> bool" where
  "calls_for i (p, j, a) r \<longleftrightarrow> junk_ok j \<and> argint p 0 = Some i \<and>
     (\<exists>opType. argint p 1 = Some opType \<and> asks opType a r)"

definition queued_to :: "int \<Rightarrow> gfx \<Rightarrow> request list \<Rightarrow> gfx \<Rightarrow> bool" where
  "queued_to i s rs s' \<longleftrightarrow> gfx_inv s' \<and> view s' = view s \<and>
     hdc_init (get_hdc i s') = hdc_init (get_hdc i s) \<and>
     queueEnd (get_hdc i s') = queueEnd (get_hdc i s) + int (length rs) \<and>
     (\<forall>k < nat (queueEnd (get_hdc i s)). commandQueue (get_hdc i s') ! k = commandQueue (get_hdc i s) ! k) \<and>
     (\<forall>n < length rs. holds_request i (clip_request (rs ! n))
        (commandQueue (get_hdc i s') ! (nat (queueEnd (get_hdc i s)) + n))) \<and>
     (\<forall>j. 0 \<le> j \<longrightarrow> j \<noteq> i \<longrightarrow> get_hdc j s' = get_hdc j s)"

lemma queued_to_one:
  assumes "gfx_inv s" "has_room i s" "holds_request i (clip_request r) c"
  shows "queued_to i s [r] ((enq_state i c s)\<lparr>klog := lg\<rparr>)"
proof -
  have v: "valid_hdc i s" using assms(2) by (simp add: has_room_def)
  have "0 \<le> i" using v by (simp add: valid_hdc_def)
  then have other: "get_hdc j (enq_state i c s) = get_hdc j s" if "0 \<le> j" "j \<noteq> i" for j
    using that by (simp add: enq_state_set get_hdc_def set_hdc_def nat_eq_iff nat_eq_iff2)
  have "hdc_wf i (get_hdc i s)" "queueEnd (get_hdc i s) < 50"
    using gfx_inv_hdc [OF assms(1) v] has_room_inv assms(1,2) by blast+
  then have "get_hdc i (enq_state i c s) = push_cmd c (get_hdc i s)"
    "nat (queueEnd (get_hdc i s)) < length (commandQueue (get_hdc i s))"
    using v by (auto simp: enq_state_set get_set_hdc hdc_wf_def)
  with other assms gfx_inv_enq [OF assms] view_enq [OF assms(2), of c] show ?thesis
    by (auto simp: queued_to_def push_cmd_def)
qed

lemma queued_to_Cons:
  assumes "queued_to i s [r] t" "queued_to i t rs u" "0 \<le> queueEnd (get_hdc i s)"
  shows "queued_to i s (r # rs) u"
proof -
  let ?n = "nat (queueEnd (get_hdc i s))"
  have n: "nat (queueEnd (get_hdc i t)) = Suc ?n" using assms(1,3) by (simp add: queued_to_def nat_add_distrib)
  have hd: "holds_request i (clip_request r) (commandQueue (get_hdc i u) ! ?n)"
    using assms(1,2) n unfolding queued_to_def by force
  have "holds_request i (clip_request ((r # rs) ! k)) (commandQueue (get_hdc i u) ! (?n + k))"
    if "k < length (r # rs)" for k
    using that hd assms(2) n unfolding queued_to_def by (cases k) auto
  with assms n show ?thesis unfolding queued_to_def by auto
qed

lemma queued_to_Nil: "gfx_inv s \<Longrightarrow> queued_to i s [] s"
  by (simp add: queued_to_def)

lemma write_requests_queued:
  assumes "list_all2 (calls_for i) calls rs" "gfx_inv s" "valid_hdc i s"
    "queueEnd (get_hdc i s) + int (length rs) \<le> 50"
  shows "\<exists>s1. write_requests calls s = Inr s1 \<and> queued_to i s rs s1"
  using assms
proof (induction calls rs arbitrary: s rule: list_all2_induct)
  case Nil
  then show ?case using queued_to_Nil by simp
next
  case (Cons call calls r rs)
  obtain p j a where call: "call = (p, j, a)" by (cases call)
  have room: "has_room i s" using Cons.prems by (simp add: has_room_inv)
  have i: "i \<le> 999" using Cons.prems(1,2) by (simp add: gfx_inv_valid)
  from Cons.hyps(1) call obtain opType where "junk_ok j" "argint p 0 = Some i" "argint p 1 = Some opType" "asks opType a r"
    by auto
  from sys_writeQueue_queues [OF this(1) room i this(2-4)] obtain bufs c lg where
    w: "sys_writeQueue p j a s = Inr (1, bufs, (enq_state i c s)\<lparr>klog := lg\<rparr>)"
    and h: "holds_request i (clip_request r) c" by blast
  let ?t = "(enq_state i c s)\<lparr>klog := lg\<rparr>"
  have q: "queued_to i s [r] ?t" using Cons.prems(1) room h by (rule queued_to_one)
  have "\<exists>s1. write_requests calls ?t = Inr s1 \<and> queued_to i ?t rs s1"
    using q Cons.prems by (intro Cons.IH) (auto simp: queued_to_def valid_hdc_def enq_state_def Let_def)
  moreover have "0 \<le> queueEnd (get_hdc i s)"
    using gfx_inv_hdc [OF Cons.prems(1,2)] by (simp add: hdc_wf_def)
  ultimately show ?case using q queued_to_Cons w call by auto
qed

subsection \<open>Direct calls\<close>

lemma cap_int_eq: "\<exists>lg. cap_int v c s = (capv c v, s\<lparr>klog := lg\<rparr>)"
  by (cases "ValueCapper v c") (auto simp: cap_int_def capv_def cprintf_def intro: exI [of _ "klog s"])

lemma capv_screen: "on_screen (capv 319 px) (capv 199 py)"
  using capv_range [of 319 px] capv_range [of 199 py] by (simp add: on_screen_def)

lemma apply_req_klog: "apply_req i r (s\<lparr>klog := lg\<rparr>) = (apply_req i r s)\<lparr>klog := lg\<rparr>"
  by (cases r) (simp_all add: set_hdc_def get_hdc_def pen_of_def write_pen_def outb_def)

text \<open>What a direct call asks for: the request and the limits it applies to it.\<close>

definition drawn :: "int \<Rightarrow> request \<Rightarrow> gfx \<Rightarrow> (int \<times> gfx) res \<Rightarrow> bool" where
  "drawn i r s res \<longleftrightarrow> (\<exists>lg. res = Inr (0, (apply_req i r s)\<lparr>klog := lg\<rparr>))"

lemma exec_drawn:
  assumes "gfx_inv s" "valid_hdc i s" "req_ok r"
  shows "exec_request i r (s\<lparr>klog := lg\<rparr>) = Inr ((apply_req i r s)\<lparr>klog := lg\<rparr>)"
  using assms gfx_inv_screen [OF assms(1,2)]
  by (simp add: exec_request_apply apply_req_klog)

lemma direct_point_calls:
  assumes "gfx_inv s" "valid_hdc i s" "argint p 0 = Some i" "argint p 1 = Some px" "argint p 2 = Some py"
  shows "drawn i (clip_request (Pixel px py)) s (sys_setpixel p s)"
    and "drawn i (clip_request (Move px py)) s (sys_moveto p s)"
    and "drawn i (clip_request (Line px py)) s (sys_lineto p s)"
proof -
  have i: "\<not> i < 0" using assms(2) by (simp add: valid_hdc_def)
  obtain l1 where l1: "cap_int px 319 s = (capv 319 px, s\<lparr>klog := l1\<rparr>)"
    using cap_int_eq by blast
  obtain l2 where l2: "cap_int py 199 (s\<lparr>klog := l1\<rparr>) = (capv 199 py, s\<lparr>klog := l2\<rparr>)"
    using cap_int_eq [of py 199 "s\<lparr>klog := l1\<rparr>"] by auto
  note ex = exec_drawn [OF assms(1,2) req_ok_clip]
  have ln: "exec_request i (Line px py) t = bindR (array_get (hdcObjects t) i)
      (\<lambda>h. bindR (LineDraw (hdc_x h) (hdc_y h) px py i t) (\<lambda>s. MovePos i px py s))" for px py t
    by simp
  show "drawn i (clip_request (Pixel px py)) s (sys_setpixel p s)"
    using ex [of "Pixel px py" l2] assms(3-5) i l1 l2 by (auto simp: drawn_def sys_setpixel_def)
  show "drawn i (clip_request (Move px py)) s (sys_moveto p s)"
    using ex [of "Move px py" l2] assms(3-5) i l1 l2 by (auto simp: drawn_def sys_moveto_def)
  have "sys_lineto p s = bindR (exec_request i (clip_request (Line px py)) (s\<lparr>klog := l2\<rparr>)) (\<lambda>s. Inr (0, s))"
    using assms(3-5) i l1 l2 by (simp add: sys_lineto_def bindR_assoc)
  then show "drawn i (clip_request (Line px py)) s (sys_lineto p s)"
    using ex [of "Line px py" l2] by (auto simp: drawn_def simp del: exec_request.simps apply_req.simps)
qed

lemma sys_fillrect_drawn:
  assumes "gfx_inv s" "valid_hdc i s" "argint p 0 = Some i" "argptr p 1 0 = Some a"
  shows "\<exists>lg. sys_fillrect p rc s = Inr (0,
      \<lparr>rtop = capv 199 (rtop rc), rleft = capv 319 (rleft rc), rbottom = capv 199 (rbottom rc),
       rright = capv 319 (rright rc)\<rparr>,
      (apply_req i (clip_request (Rect (rtop rc) (rbottom rc) (rright rc) (rleft rc))) s)\<lparr>klog := lg\<rparr>)"
proof -
  have i: "\<not> i < 0" using assms(2) by (simp add: valid_hdc_def)
  obtain l1 where l1: "cap_int (rtop rc) 199 s = (capv 199 (rtop rc), s\<lparr>klog := l1\<rparr>)"
    using cap_int_eq by blast
  obtain l2 where l2: "cap_int (rbottom rc) 199 (s\<lparr>klog := l1\<rparr>) = (capv 199 (rbottom rc), s\<lparr>klog := l2\<rparr>)"
    using cap_int_eq [of "rbottom rc" 199 "s\<lparr>klog := l1\<rparr>"] by auto
  obtain l3 where l3: "cap_int (rleft rc) 319 (s\<lparr>klog := l2\<rparr>) = (capv 319 (rleft rc), s\<lparr>klog := l3\<rparr>)"
    using cap_int_eq [of "rleft rc" 319 "s\<lparr>klog := l2\<rparr>"] by auto
  obtain l4 where l4: "cap_int (rright rc) 319 (s\<lparr>klog := l3\<rparr>) = (capv 319 (rright rc), s\<lparr>klog := l4\<rparr>)"
    using cap_int_eq [of "rright rc" 319 "s\<lparr>klog := l3\<rparr>"] by auto
  show ?thesis
    using exec_drawn [OF assms(1,2) req_ok_clip, of "Rect (rtop rc) (rbottom rc) (rright rc) (rleft rc)" l4]
      assms(3,4) i l1 l2 l3 l4
    by (auto simp: sys_fillrect_def)
qed

lemma sys_setpencolour_drawn:
  assumes "argint p 0 = Some idx" "argint p 1 = Some r" "argint p 2 = Some g" "argint p 3 = Some b"
    "16 \<le> idx" "idx \<le> 255"
  shows "drawn i (Declare idx (capv 63 r) (capv 63 g) (capv 63 b)) s (sys_setpencolour p s)"
proof -
  obtain l1 where l1: "cap_int r 63 s = (capv 63 r, s\<lparr>klog := l1\<rparr>)"
    using cap_int_eq by blast
  obtain l2 where l2: "cap_int g 63 (s\<lparr>klog := l1\<rparr>) = (capv 63 g, s\<lparr>klog := l2\<rparr>)"
    using cap_int_eq [of g 63 "s\<lparr>klog := l1\<rparr>"] by auto
  obtain l3 where l3: "cap_int b 63 (s\<lparr>klog := l2\<rparr>) = (capv 63 b, s\<lparr>klog := l3\<rparr>)"
    using cap_int_eq [of b 63 "s\<lparr>klog := l2\<rparr>"] by auto
  show ?thesis
    using assms l1 l2 l3 by (auto simp: drawn_def sys_setpencolour_def write_pen_def outb_def intro!: exI [of _ l3])
qed

lemma sys_selectpen_drawn:
  assumes "valid_hdc i s" "argint p 0 = Some i" "argint p 1 = Some idx" "idx \<le> 255"
  shows "drawn i (Pen idx) s (sys_selectpen p s)"
  using assms
  by (auto simp: drawn_def sys_selectpen_def upd_hdc_ok valid_hdc_def set_hdc_def
      intro!: exI [of _ "klog s"])

subsection \<open>Sequences of calls\<close>

inductive gfx_step :: "gfx \<Rightarrow> gfx \<Rightarrow> bool" where
  setpixel: "sys_setpixel p s = Inr (v, s') \<Longrightarrow> gfx_step s s'"
| moveto: "sys_moveto p s = Inr (v, s') \<Longrightarrow> gfx_step s s'"
| lineto: "sys_lineto p s = Inr (v, s') \<Longrightarrow> gfx_step s s'"
| setpencolour: "sys_setpencolour p s = Inr (v, s') \<Longrightarrow> gfx_step s s'"
| selectpen: "sys_selectpen p s = Inr (v, s') \<Longrightarrow> gfx_step s s'"
| fillrect: "sys_fillrect p rc s = Inr (v, rc', s') \<Longrightarrow> gfx_step s s'"
| beginpaint: "length q = 50 \<Longrightarrow> sys_beginpaint p q s = Inr (v, s') \<Longrightarrow> gfx_step s s'"
| endpaint: "length q = 50 \<Longrightarrow> sys_endpaint p q s = Inr (v, s') \<Longrightarrow> gfx_step s s'"
| writeQueue: "calls_for i (p, j, a) r \<Longrightarrow> sys_writeQueue p j a s = Inr (v, bufs, s') \<Longrightarrow> gfx_step s s'"

lemma upd_hdc_inv:
  assumes "gfx_inv s" "upd_hdc i f s = Inr s'" "\<And>h. hdc_wf i h \<Longrightarrow> hdc_wf i (f h)"
  shows "gfx_inv s'"
proof -
  have v: "valid_hdc i s"
    using assms(2) by (auto simp: upd_hdc_def bindR_eq_Inr array_get_def valid_hdc_def split: if_splits)
  then have "s' = set_hdc i (f (get_hdc i s)) s" using assms(2) by (simp add: upd_hdc_ok)
  with v assms(1,3) gfx_inv_hdc show ?thesis by (simp add: gfx_inv_set_hdc)
qed

lemma only_pixels_inv: "gfx_inv s \<Longrightarrow> only_pixels s s' \<Longrightarrow> gfx_inv s'"
  by (auto simp: only_pixels_def gfx_inv_def)

lemma cap_int_inv: "cap_int v c s = (v', s') \<Longrightarrow> gfx_inv s' = gfx_inv s \<and> v' = capv c v"
  using cap_int_eq [of v c s] by auto

lemma MovePos_inv: "gfx_inv s \<Longrightarrow> on_screen px py \<Longrightarrow> MovePos i px py s = Inr s' \<Longrightarrow> gfx_inv s'"
  unfolding MovePos_def
  by (rule upd_hdc_inv [where i = i and f = "\<lambda>h. h\<lparr>hdc_x := px, hdc_y := py\<rparr>"]) (auto simp: hdc_wf_def)

lemma LineDraw_inv: "gfx_inv s \<Longrightarrow> LineDraw x0 y0 x1 y1 i s = Inr s' \<Longrightarrow> gfx_inv s'"
  using LineDraw_only only_pixels_inv by blast

lemma select_inv: "gfx_inv s \<Longrightarrow> upd_hdc i (\<lambda>h. h\<lparr>penIndex := idx\<rparr>) s = Inr s' \<Longrightarrow> gfx_inv s'"
  by (rule upd_hdc_inv [where i = i and f = "\<lambda>h. h\<lparr>penIndex := idx\<rparr>"]) (auto simp: hdc_wf_def)

lemma lineto_inv:
  "gfx_inv s \<Longrightarrow> LineDraw x0 y0 x1 y1 i s = Inr t \<Longrightarrow> MovePos i x1 y1 t = Inr s' \<Longrightarrow> on_screen x1 y1 \<Longrightarrow> gfx_inv s'"
  using LineDraw_inv MovePos_inv by blast

lemma point_calls_inv:
  assumes "gfx_inv s"
  shows "sys_setpixel p s = Inr (v, s') \<Longrightarrow> gfx_inv s'"
    and "sys_moveto p s = Inr (v, s') \<Longrightarrow> gfx_inv s'"
    and "sys_lineto p s = Inr (v, s') \<Longrightarrow> gfx_inv s'"
  using assms capv_screen
  by (auto simp: sys_setpixel_def sys_moveto_def sys_lineto_def bindR_eq_Inr split: option.splits if_splits prod.splits
      dest!: cap_int_inv dest: Pixel_only intro: only_pixels_inv MovePos_inv lineto_inv)

lemma pen_calls_inv:
  assumes "gfx_inv s"
  shows "sys_setpencolour p s = Inr (v, s') \<Longrightarrow> gfx_inv s'"
    and "sys_selectpen p s = Inr (v, s') \<Longrightarrow> gfx_inv s'"
proof -
  have pen: "gfx_inv (write_pen a b c d t) = gfx_inv t" for a b c d t
    by (simp add: write_pen_def outb_def gfx_inv_def)
  show "sys_setpencolour p s = Inr (v, s') \<Longrightarrow> gfx_inv s'"
    using assms by (auto simp: sys_setpencolour_def pen split: option.splits if_splits prod.splits dest!: cap_int_inv)
  show "sys_selectpen p s = Inr (v, s') \<Longrightarrow> gfx_inv s'"
    using assms
    by (auto simp: sys_selectpen_def bindR_eq_Inr split: option.splits if_splits dest: select_inv)
qed

lemma fillrect_inv: "gfx_inv s \<Longrightarrow> sys_fillrect p rc s = Inr (v, rc', s') \<Longrightarrow> gfx_inv s'"
  by (auto simp: sys_fillrect_def bindR_eq_Inr split: option.splits if_splits prod.splits
      dest!: cap_int_inv fill_rows_only intro: only_pixels_inv)

lemma beginpaint_returns: "\<exists>v s'. sys_beginpaint p q s = Inr (v, s')"
  unfolding sys_beginpaint_def Let_def by (simp split: option.split)

lemma hdc_wf_fresh: "length q = 50 \<Longrightarrow> hdc_wf i (fresh_hdc ini q)"
  by (simp add: hdc_wf_def fresh_hdc_def on_screen_def)

lemma beginpaint_inv:
  assumes "gfx_inv s" "length q = 50" "sys_beginpaint p q s = Inr (v, s')"
  shows "gfx_inv s'"
proof -
  have lk: "gfx_inv (s\<lparr>lockinit := 1\<rparr>)" using assms(1) by (simp add: gfx_inv_def)
  have set: "gfx_inv (s\<lparr>lockinit := l, hdcObjects := (hdcObjects s)[k := fresh_hdc 1 q]\<rparr>)"
    "gfx_inv (s\<lparr>hdcObjects := (hdcObjects s)[k := fresh_hdc 1 q]\<rparr>)" for l k
    using assms(1) hdc_wf_fresh [OF assms(2)] by (cases "k < 5"; auto simp: gfx_inv_def nth_list_update)+
  with lk assms(1,3) show ?thesis
    by (auto simp: sys_beginpaint_def Let_def set split: option.splits if_splits)
qed

lemma endpaint_inv:
  assumes "gfx_inv s" "length q = 50" "sys_endpaint p q s = Inr (v, s')"
  shows "gfx_inv s'"
proof -
  have loop: "gfx_inv t" if "endpaint_loop i 0 s = Inr t" for i t
  proof -
    have v: "valid_hdc i s"
      using that by (subst (asm) endpaint_loop.simps) (auto simp: bindR_eq_Inr array_get_def valid_hdc_def split: if_splits)
    obtain rs where "endpaint_loop i 0 s = Inr (apply_clipped i rs s)"
      using gfx_inv_requests [OF assms(1) v] endpaint_loop_replay [OF assms(1) v, of 0] by auto
    then show ?thesis using that gfx_inv_apply_clipped [OF assms(1) v] by simp
  qed
  have reset: "gfx_inv u" if "gfx_inv t" "upd_hdc i (\<lambda>_. fresh_hdc 0 q) t = Inr u" for i t u
    using that hdc_wf_fresh [OF assms(2)] by (rule upd_hdc_inv)
  show ?thesis
    using assms(1,3)
    by (auto simp: sys_endpaint_def bindR_eq_Inr split: option.splits if_splits dest: loop intro: reset)
qed

lemma enqueue_room:
  assumes "enqueue i c s = Inr s'"
  shows "has_room i s"
  using assms
  by (auto simp: enqueue_def bindR_eq_Inr array_get_def array_set_def has_room_def valid_hdc_def split: if_splits)

lemma cap_arg_room: "cap_arg a c s = Inr (a', s') \<Longrightarrow> has_room i s' = has_room i s"
  by (auto simp: cap_arg_def cprintf_def bindR_eq_Inr split: if_splits)

lemmas append_defs = AppendPixel_def AppendLineTo_def AppendCursorMove_def AppendDeclarePen_def
  AppendGetPen_def AppendDrawRect_def

lemma writeQueue_room:
  assumes "sys_writeQueue p j a s = Inr (v, bufs, s')" "argint p 0 = Some i" "argint p 1 = Some opType"
    "asks opType a r"
  shows "has_room i s"
  using assms
  by (cases r) (auto simp: sys_writeQueue_def append_defs bindR_eq_Inr cap_arg_room dest!: enqueue_room)

lemma writeQueue_inv:
  assumes "gfx_inv s" "calls_for i (p, j, a) r" "sys_writeQueue p j a s = Inr (v, bufs, s')"
  shows "gfx_inv s'"
proof -
  from assms(2) obtain opType where c: "junk_ok j" "argint p 0 = Some i" "argint p 1 = Some opType" "asks opType a r"
    by auto
  have room: "has_room i s" using writeQueue_room [OF assms(3) c(2-4)] .
  then have "i \<le> 999" using assms(1) by (simp add: has_room_def gfx_inv_valid)
  from sys_writeQueue_queues [OF c(1) room this c(2-4)] gfx_inv_enq [OF assms(1) room] assms(3)
  show ?thesis by auto
qed

lemmas call_invs = point_calls_inv pen_calls_inv fillrect_inv beginpaint_inv endpaint_inv writeQueue_inv

lemma gfx_step_inv: "gfx_step s s' \<Longrightarrow> gfx_inv s \<Longrightarrow> gfx_inv s'"
  by (induction rule: gfx_step.induct) (blast intro: call_invs)+

subsection \<open>Sample programs\<close>

text \<open>A process whose system call arguments are the given bytes at offset 20 of its memory.\<close>

definition proc_with :: "u8 list \<Rightarrow> uproc" where
  "proc_with bs = \<lparr>sz = 64, tf_esp = 16, tf_eax = 1,
     umem = (\<lambda>a. if a = 20 then bs ! 0 else if a = 24 then bs ! 1 else if a = 28 then bs ! 2 else 0)\<rparr>"

definition sample_junk :: stack_junk where
  "sample_junk = \<lparr>j_cmd = \<lparr>queuedAction = FnDrawRect, cmd_args = replicate 20 [], lastArgSet = 7, buffset = 0\<rparr>,
     j_str = replicate 100 0, j_arg = (\<lambda>_. replicate 100 0), j_hdc = 0, j_op = 0\<rparr>"

definition sample_args :: argsSet where
  "sample_args = \<lparr>arg0 = [49, 50, 0, 0], arg1 = [55, 0, 0, 0], arg2 = [], arg3 = [], arg4 = []\<rparr>"

definition zero_cmd :: commandBuffer where
  "zero_cmd = \<lparr>queuedAction = FnPixelSetterFuncQueue, cmd_args = [], lastArgSet = 0, buffset = 0\<rparr>"

text \<open>The state at boot: every context of the static array free.\<close>

definition gfx_boot :: gfx where
  "gfx_boot = \<lparr>hdcObjects = replicate 5 \<lparr>hdc_init = 0, hdc_x = 0, hdc_y = 0, penIndex = 0,
     commandQueue = replicate 50 zero_cmd, queueEnd = 0\<rparr>, pixMem = (\<lambda>_. 0), ports = [], klog = [], lockinit = 0\<rparr>"

definition sample_canvas :: gfx where
  "sample_canvas = gfx_boot\<lparr>hdcObjects := (hdcObjects gfx_boot)[0 := fresh_hdc 1 (replicate 50 zero_cmd)]\<rparr>"

lemma argint_proc_with:
  "argint (proc_with [a, b, c]) 0 = Some (sint (ucast a :: u32))"
  "argint (proc_with [a, b, c]) 1 = Some (sint (ucast b :: u32))"
  "argint (proc_with [a, b, c]) 2 = Some (sint (ucast c :: u32))"
  by (simp_all add: argint_def fetchint_def load_le32_def proc_with_def)

subsection \<open>Properties\<close>

lemma gfx_inv_boot: "gfx_inv gfx_boot"
  by (simp add: gfx_inv_def gfx_boot_def hdc_wf_def on_screen_def)

lemma gfx_inv_sample: "gfx_inv sample_canvas"
proof -
  have "gfx_inv (set_hdc 0 (fresh_hdc 1 (replicate 50 zero_cmd)) gfx_boot)"
    by (rule gfx_inv_set_hdc [OF gfx_inv_boot]) (simp_all add: hdc_wf_fresh gfx_inv_valid [OF gfx_inv_boot])
  then show ?thesis by (simp add: sample_canvas_def set_hdc_def)
qed

lemma ParseInt_sample: "ParseInt [49, 50, 0, 0] = Inr 12" "ParseInt [55, 0, 0, 0] = Inr 7"
  by code_simp+

lemma sample_call: "calls_for 0 (proc_with [0, 1, 0], sample_junk, sample_args) (Line 12 7)"
  using argint_proc_with [of 0 1 0]
  by (simp add: sample_junk_def junk_ok_def sample_args_def num_buf_def ParseInt_sample)



text \<open>
  The direct calls setpixel, moveto, lineto and fillrect succeed on each of the five contexts
  and do to the screen and to their context what their request means, with out-of-range numbers
  limited first; fillrect paints exactly the limited rectangle.
\<close>

theorem direct_calls_draw:
  assumes "gfx_inv s" "0 \<le> i" "i < 5" "argint p 0 = Some i" "argint p 1 = Some px" "argint p 2 = Some py"
    and "argint p' 0 = Some i" "argptr p' 1 0 = Some a"
  shows "(\<exists>lg. sys_setpixel p s = Inr (0, (apply_req i (clip_request (Pixel px py)) s)\<lparr>klog := lg\<rparr>)) \<and>
    (\<exists>lg. sys_moveto p s = Inr (0, (apply_req i (clip_request (Move px py)) s)\<lparr>klog := lg\<rparr>)) \<and>
    (\<exists>lg. sys_lineto p s = Inr (0, (apply_req i (clip_request (Line px py)) s)\<lparr>klog := lg\<rparr>)) \<and>
    (\<exists>rc' s'. sys_fillrect p' rc s = Inr (0, rc', s') \<and> (\<forall>u v. on_screen u v \<longrightarrow> screen_at s' u v =
      (if min (rleft rc') (rright rc') \<le> u \<and> u \<le> max (rleft rc') (rright rc') \<and> rbottom rc' \<le> v \<and> v \<le> rtop rc'
       then pen_of i s else screen_at s u v)))"
proof -
  have v: "valid_hdc i s" using assms(1-3) by (simp add: gfx_inv_valid)
  note d = direct_point_calls [OF assms(1) v assms(4-6), unfolded drawn_def]
  let ?P = "{min (capv 319 (rleft rc)) (capv 319 (rright rc))..max (capv 319 (rleft rc)) (capv 319 (rright rc))}
    \<times> {capv 199 (rbottom rc)..capv 199 (rtop rc)}"
  have "\<forall>p \<in> ?P. on_screen (fst p) (snd p)"
    using capv_screen [of "rleft rc" "rtop rc"] capv_screen [of "rright rc" "rbottom rc"]
    by (auto simp: on_screen_def)
  then have "paint ?P c fb (poffset (u, w)) = (if (u, w) \<in> ?P then c else fb (poffset (u, w)))"
    if "on_screen u w" for u w c fb
    using that by (rule paint_screen)
  then have "\<exists>rc' s'. sys_fillrect p' rc s = Inr (0, rc', s') \<and> (\<forall>u w. on_screen u w \<longrightarrow> screen_at s' u w =
      (if min (rleft rc') (rright rc') \<le> u \<and> u \<le> max (rleft rc') (rright rc') \<and> rbottom rc' \<le> w \<and> w \<le> rtop rc'
       then pen_of i s else screen_at s u w))"
    using sys_fillrect_drawn [OF assms(1) v assms(7,8), of rc] by (auto simp: screen_at_def)
  with d show ?thesis by blast
qed

theorem direct_calls_draw_witness:
  "\<exists>lg. sys_lineto (proc_with [0, 12, 7]) sample_canvas =
    Inr (0, (apply_req 0 (Line 12 7) sample_canvas)\<lparr>klog := lg\<rparr>)"
proof -
  have "argptr (proc_with [0, 12, 7]) 1 0 = Some 12"
    using argint_proc_with(2) [of 0 12 7] by (simp add: argptr_def proc_with_def)
  from direct_calls_draw [OF gfx_inv_sample, of 0 "proc_with [0, 12, 7]" 12 7 "proc_with [0, 12, 7]" 12]
    this argint_proc_with [of 0 12 7]
  show ?thesis by (simp add: capv_id del: apply_req.simps)
qed

text \<open>
  beginpaint returns the lowest free context, opens it with the cursor at the origin, pen 15
  and an empty queue, and leaves the others as they were; it returns -1, opening nothing,
  exactly when the argument cannot be fetched or all five contexts are open.
\<close>

theorem beginpaint_allocates:
  assumes "length (hdcObjects s) = 5"
  shows "\<exists>v s'. sys_beginpaint p q s = Inr (v, s') \<and>
    (v = -1 \<longleftrightarrow> argint p 0 = None \<or> (\<forall>k < 5. hdc_init (hdcObjects s ! k) \<noteq> 0)) \<and>
    (v = -1 \<longrightarrow> hdcObjects s' = hdcObjects s) \<and>
    (v \<noteq> -1 \<longrightarrow> 0 \<le> v \<and> v < 5 \<and> hdc_init (get_hdc v s) = 0 \<and>
      (\<forall>k < nat v. hdc_init (hdcObjects s ! k) \<noteq> 0) \<and>
      hdcObjects s' = (hdcObjects s)[nat v := fresh_hdc 1 q])"
proof (cases "argint p 0")
  case None
  then show ?thesis by (simp add: sys_beginpaint_def Let_def)
next
  case (Some hwnd)
  let ?sc = "scan_from (\<lambda>h. hdc_init h = 0) 0 (hdcObjects s)"
  have t: "take 5 (hdcObjects s) = hdcObjects s" using assms by simp
  show ?thesis
  proof (cases ?sc)
    case None
    then have "\<forall>k < 5. hdc_init (hdcObjects s ! k) \<noteq> 0"
      using assms by (auto simp: scan_from_None)
    with None Some t show ?thesis by (simp add: sys_beginpaint_def Let_def)
  next
    case (Some k)
    then have k: "k < 5" "hdc_init (hdcObjects s ! k) = 0" "\<forall>j < k. hdc_init (hdcObjects s ! j) \<noteq> 0"
      using assms by (simp_all add: scan_0_Some)
    have "sys_beginpaint p q s = Inr (int k, (if lockinit s \<noteq> 1 then s\<lparr>lockinit := 1\<rparr> else s)
        \<lparr>hdcObjects := (hdcObjects s)[k := fresh_hdc 1 q]\<rparr>)"
      using Some t \<open>argint p 0 = Some hwnd\<close> by (simp add: sys_beginpaint_def Let_def)
    with k \<open>argint p 0 = Some hwnd\<close> show ?thesis by (auto simp: get_hdc_def)
  qed
qed

theorem beginpaint_allocates_witness:
  "\<exists>v s'. sys_beginpaint (proc_with [0, 0, 0]) [] sample_canvas = Inr (v, s') \<and> v = 1"
proof -
  have l: "length (hdcObjects sample_canvas) = 5" by (simp add: sample_canvas_def gfx_boot_def)
  have f: "hdc_init (hdcObjects sample_canvas ! 0) = 1" "hdc_init (hdcObjects sample_canvas ! 1) = 0"
    by (simp_all add: sample_canvas_def gfx_boot_def fresh_hdc_def)
  from beginpaint_allocates [OF l, of "proc_with [0, 0, 0]" "[]"] obtain v s' where
    b: "sys_beginpaint (proc_with [0, 0, 0]) [] sample_canvas = Inr (v, s')"
    "v = -1 \<longleftrightarrow> argint (proc_with [0, 0, 0]) 0 = None \<or> (\<forall>k < 5. hdc_init (hdcObjects sample_canvas ! k) \<noteq> 0)"
    "v \<noteq> -1 \<Longrightarrow> 0 \<le> v \<and> hdc_init (get_hdc v sample_canvas) = 0 \<and> (\<forall>k < nat v. hdc_init (hdcObjects sample_canvas ! k) \<noteq> 0)"
    by blast
  have "\<not> (\<forall>k < 5. hdc_init (hdcObjects sample_canvas ! k) \<noteq> 0)"
    using f(2) by (intro notI) (drule spec [of _ 1], simp)
  then have "v \<noteq> -1" using b(2) argint_proc_with(1) [of 0 0 0] by simp
  with b(3) f have "v = 1" by (cases "nat v" "1 :: nat" rule: linorder_cases) (auto simp: get_hdc_def)
  with b(1) show ?thesis by blast
qed





end
