(* ===== verification/Ring.thy ===== *)
theory Ring
  imports Prelude
begin

text \<open>
  Ring buffers indexed by free-running unsigned counters: the shape of the pipe buffer (pipe.c)
  and of the console input buffer (console.c). A position is a counter taken modulo the size, and
  the counters wrap at 32 bits; this is right exactly because the size divides \<open>2 ^ 32\<close>, which is
  the assumption of the locale. The locale is interpreted in the theories of the two users.
\<close>

definition ring_slot :: "nat \<Rightarrow> u32 \<Rightarrow> nat" where
  "ring_slot N k = unat k mod N"

text \<open>The n bytes from counter r on.\<close>

definition ring_range :: "nat \<Rightarrow> 'a list \<Rightarrow> u32 \<Rightarrow> nat \<Rightarrow> 'a list" where
  "ring_range N d r n = map (\<lambda>k. d ! ring_slot N (r + of_nat k)) [0..<n]"

locale ring =
  fixes N :: nat
  assumes size_pos: "0 < N" and size_small: "N < 2 ^ 32" and size_dvd: "N dvd 2 ^ 32"
begin

lemma slot_less: "ring_slot N k < N"
  unfolding ring_slot_def using size_pos by simp

lemma slot_add: "ring_slot N (r + of_nat k) = (unat r + k) mod N"
proof -
  have "unat (r + of_nat k) = (unat r + k) mod 2 ^ 32"
    by (simp add: unat_word_ariths unat_of_nat mod_simps)
  then show ?thesis
    unfolding ring_slot_def using size_dvd by (simp only: mod_mod_cancel)
qed

text \<open>Two counters less than a full turn apart never share a position.\<close>

lemma slot_inj:
  assumes "ring_slot N (r + of_nat j) = ring_slot N (r + of_nat k)" "j < N" "k < N"
  shows "j = k"
proof -
  have *: False if jk: "j < k" "k < N" "(unat r + j) mod N = (unat r + k) mod N" for j k
  proof -
    have "N dvd (unat r + k) - (unat r + j)"
      using jk mod_eq_dvd_iff_nat [of "unat r + j" "unat r + k" N] by simp
    then have "N dvd k - j" by simp
    moreover have "0 < k - j" "k - j < N" using jk by simp_all
    ultimately show False using dvd_imp_le by fastforce
  qed
  show ?thesis
    using assms * [of j k] * [of k j] unfolding slot_add by (metis linorder_neqE_nat)
qed

lemma range_length [simp]: "length (ring_range N d r n) = n"
  by (simp add: ring_range_def)

lemma range_append_slot:
  assumes "length d = N" "n < N"
  shows "ring_range N (d[ring_slot N (r + of_nat n) := b]) r (Suc n) = ring_range N d r n @ [b]"
proof -
  have "d[ring_slot N (r + of_nat n) := b] ! ring_slot N (r + of_nat k) = d ! ring_slot N (r + of_nat k)"
    if "k < n" for k
    using slot_inj [of r n k] that assms by (intro nth_list_update_neq) fastforce
  then show ?thesis
    using assms(1) slot_less by (simp add: ring_range_def)
qed

lemma range_Cons: "ring_range N d r (Suc n) = d ! ring_slot N r # ring_range N d (r + 1) n"
proof -
  have "[0..<Suc n] = 0 # map Suc [0..<n]" by (simp add: upt_conv_Cons map_Suc_upt)
  then show ?thesis by (simp add: ring_range_def ac_simps)
qed

lemma range_drop: "k \<le> n \<Longrightarrow> drop k (ring_range N d r n) = ring_range N d (r + of_nat k) (n - k)"
  by (rule nth_equalityI) (simp_all add: ring_range_def less_diff_conv ac_simps)

lemma range_take: "k \<le> n \<Longrightarrow> take k (ring_range N d r n) = ring_range N d r k"
  by (simp add: ring_range_def take_map min_def)

text \<open>The contents between a read and a write counter.\<close>

lemma used_write:
  fixes r w :: u32
  assumes "unat (w - r) < N"
  shows "unat (w + 1 - r) = Suc (unat (w - r))" "r + of_nat (unat (w - r)) = w"
proof -
  have "unat (w - r) + unat (1 :: u32) < 2 ^ LENGTH(32)" using assms size_small by simp
  from unat_add_no_wrap [OF this] show "unat (w + 1 - r) = Suc (unat (w - r))"
    by (simp add: algebra_simps)
  show "r + of_nat (unat (w - r)) = w" by simp
qed

lemma used_read:
  fixes r w :: u32
  assumes "r \<noteq> w"
  shows "unat (w - r) = Suc (unat (w - (r + 1)))"
proof -
  have "unat (w - r) \<noteq> 0" unfolding unat_diff_eq_0_iff using assms by (rule not_sym)
  moreover have "unat (w - (r + 1)) = unat (w - r) - 1" by (rule unat_succ_diff) (rule not_sym [OF assms])
  ultimately show ?thesis by linarith
qed

lemma full_iff:
  fixes r w :: u32
  shows "w = r + of_nat N \<longleftrightarrow> unat (w - r) = N"
proof
  assume "w = r + of_nat N"
  then have "w - r = of_nat N" by simp
  then show "unat (w - r) = N" using unat_of_nat_id [of N, where 'a = 32] size_small by simp
next
  assume "unat (w - r) = N"
  then have "of_nat N = w - r" by auto
  then show "w = r + of_nat N" by simp
qed

lemma write_contents:
  assumes "length d = N" "unat (w - r) < N"
  shows "ring_range N (d[ring_slot N w := b]) r (unat (w + 1 - r)) = ring_range N d r (unat (w - r)) @ [b]"
  using range_append_slot [OF assms, of r b] used_write [OF assms(2)] by simp

lemma read_contents:
  assumes "r \<noteq> w"
  shows "ring_range N d r (unat (w - r)) = d ! ring_slot N r # ring_range N d (r + 1) (unat (w - (r + 1)))"
  using used_read [OF assms] by (simp add: range_Cons)

end

end
