(* ===== verification/Pipe.thy ===== *)
theory Pipe
  imports Ring
begin

text \<open>
  Pipes (pipe.c): a 512-byte ring buffer between the processes that hold its read and write ends.
  Each routine runs with the pipe's lock held except while it sleeps, so it is a function of the
  pipe from one point where it sleeps to the next: the result says whether it returned or sleeps,
  and a writer that sleeps goes on later from the byte it had reached. The wakeups it issues are
  listed in order. The locale \<open>ring\<close> supplies the reasoning about the wrapping counters.
\<close>

subsection \<open>State and operations\<close>

abbreviation PIPESIZE :: nat where
  "PIPESIZE \<equiv> 512"

record pipe =
  pdata :: "u8 list"
  nread :: u32
  nwrite :: u32
  readopen :: int
  writeopen :: int

text \<open>The sleep channels: the addresses of \<open>nread\<close> and of \<open>nwrite\<close>.\<close>

datatype pchan = ChanRead | ChanWrite

datatype pout = Returned int | Sleeping pchan

definition pipealloc_init :: "u8 list \<Rightarrow> pipe" where
  "pipealloc_init page = \<lparr>pdata = page, nread = 0, nwrite = 0, readopen = 1, writeopen = 1\<rparr>"

text \<open>The last component tells whether the page of the pipe is freed.\<close>

definition pipeclose :: "pipe \<Rightarrow> int \<Rightarrow> pipe \<times> pchan list \<times> bool" where
  "pipeclose p writable =
     (let (p, wk) = (if writable \<noteq> 0 then (p\<lparr>writeopen := 0\<rparr>, [ChanRead]) else (p\<lparr>readopen := 0\<rparr>, [ChanWrite]))
      in (p, wk, readopen p = 0 \<and> writeopen p = 0))"

definition pipe_full :: "pipe \<Rightarrow> bool" where
  "pipe_full p \<longleftrightarrow> nwrite p = nread p + of_nat PIPESIZE"

definition pipe_put :: "u8 \<Rightarrow> pipe \<Rightarrow> pipe" where
  "pipe_put b p = p\<lparr>pdata := (pdata p)[ring_slot PIPESIZE (nwrite p) := b], nwrite := nwrite p + 1\<rparr>"

text \<open>
  The writing loop from byte i on; \<open>bs\<close> are the bytes \<open>addr[i..n-1]\<close> and \<open>killed\<close> the flag of the
  process while it runs. The result carries the byte it has reached.
\<close>

fun pipewrite_loop :: "bool \<Rightarrow> int \<Rightarrow> nat \<Rightarrow> u8 list \<Rightarrow> pipe \<Rightarrow> pout \<times> nat \<times> pchan list \<times> pipe" where
  "pipewrite_loop killed n i [] p = (Returned n, i, [ChanRead], p)"
| "pipewrite_loop killed n i (b # bs) p =
     (if pipe_full p
      then if readopen p = 0 \<or> killed then (Returned (-1), i, [], p)
           else (Sleeping ChanWrite, i, [ChanRead], p)
      else pipewrite_loop killed n (Suc i) bs (pipe_put b p))"

definition pipewrite :: "bool \<Rightarrow> u8 list \<Rightarrow> int \<Rightarrow> nat \<Rightarrow> pipe \<Rightarrow> pout \<times> nat \<times> pchan list \<times> pipe" where
  "pipewrite killed addr n i p = pipewrite_loop killed n i (drop i (take (nat n) addr)) p"

fun piperead_copy :: "nat \<Rightarrow> pipe \<Rightarrow> u8 list \<times> pipe" where
  "piperead_copy 0 p = ([], p)"
| "piperead_copy (Suc n) p =
     (if nread p = nwrite p then ([], p)
      else let b = pdata p ! ring_slot PIPESIZE (nread p);
               (bs, p) = piperead_copy n (p\<lparr>nread := nread p + 1\<rparr>)
           in (b # bs, p))"

definition piperead :: "bool \<Rightarrow> int \<Rightarrow> pipe \<Rightarrow> pout \<times> u8 list \<times> pchan list \<times> pipe" where
  "piperead killed n p =
     (if nread p = nwrite p \<and> writeopen p \<noteq> 0
      then if killed then (Returned (-1), [], [], p) else (Sleeping ChanRead, [], [], p)
      else let (bs, p) = piperead_copy (nat n) p in (Returned (int (length bs)), bs, [ChanWrite], p))"

subsection \<open>The buffer as a queue\<close>

interpretation pipe_ring: ring PIPESIZE
  by unfold_locales (simp_all add: dvd_def exI [of _ 8388608])

definition pipe_used :: "pipe \<Rightarrow> nat" where
  "pipe_used p = unat (nwrite p - nread p)"

definition contents :: "pipe \<Rightarrow> u8 list" where
  "contents p = ring_range PIPESIZE (pdata p) (nread p) (pipe_used p)"

definition pipe_inv :: "pipe \<Rightarrow> bool" where
  "pipe_inv p \<longleftrightarrow> length (pdata p) = PIPESIZE \<and> pipe_used p \<le> PIPESIZE"

lemma length_contents [simp]: "length (contents p) = pipe_used p"
  by (simp add: contents_def)

lemma pipe_full_iff: "pipe_full p \<longleftrightarrow> pipe_used p = PIPESIZE"
  unfolding pipe_full_def pipe_used_def by (rule pipe_ring.full_iff)

lemma pipe_empty_iff: "nread p = nwrite p \<longleftrightarrow> contents p = []"
proof -
  have "contents p = [] \<longleftrightarrow> pipe_used p = 0" using length_contents [of p] by (metis length_0_conv)
  then show ?thesis unfolding pipe_used_def unat_diff_eq_0_iff by auto
qed

lemma pipe_put_contents:
  assumes "pipe_inv p" "\<not> pipe_full p"
  shows "contents (pipe_put b p) = contents p @ [b]" "pipe_inv (pipe_put b p)"
proof -
  have u: "unat (nwrite p - nread p) < PIPESIZE" and l: "length (pdata p) = PIPESIZE"
    using assms unfolding pipe_full_iff pipe_inv_def pipe_used_def by linarith+
  show "contents (pipe_put b p) = contents p @ [b]"
    using pipe_ring.write_contents [OF l u] by (simp add: contents_def pipe_put_def pipe_used_def)
  show "pipe_inv (pipe_put b p)"
    using pipe_ring.used_write(1) [OF u] u l by (simp add: pipe_inv_def pipe_put_def pipe_used_def)
qed

lemma pipe_put_flags [simp]: "readopen (pipe_put b p) = readopen p" "writeopen (pipe_put b p) = writeopen p"
  by (simp_all add: pipe_put_def)

lemma pipewrite_loop_spec:
  assumes "pipe_inv p" "pipewrite_loop killed n i bs p = (out, i', wk, p')"
  shows "pipe_inv p' \<and> i \<le> i' \<and> i' \<le> i + length bs \<and> contents p' = contents p @ take (i' - i) bs \<and>
    (out = Sleeping ChanWrite \<longrightarrow> i' < i + length bs \<and> pipe_full p' \<and> readopen p' \<noteq> 0 \<and> \<not> killed \<and> wk = [ChanRead]) \<and>
    (\<forall>v. out = Returned v \<longrightarrow> (i' = i + length bs \<and> v = n \<and> wk = [ChanRead]) \<or>
      (i' < i + length bs \<and> v = -1 \<and> pipe_full p' \<and> (readopen p' = 0 \<or> killed))) \<and>
    out \<noteq> Sleeping ChanRead \<and> readopen p' = readopen p \<and> writeopen p' = writeopen p"
  using assms
proof (induction bs arbitrary: i p)
  case Nil
  then show ?case by auto
next
  case (Cons b bs)
  show ?case
  proof (cases "pipe_full p")
    case True
    then show ?thesis using Cons.prems by (auto split: if_splits)
  next
    case False
    note put = pipe_put_contents [OF Cons.prems(1) False, of b]
    have run: "pipewrite_loop killed n (Suc i) bs (pipe_put b p) = (out, i', wk, p')"
      using Cons.prems(2) False by simp
    note ih = Cons.IH [OF put(2) run]
    have "i' - i = Suc (i' - Suc i)" using ih by linarith
    then have "contents p @ take (i' - i) (b # bs) = contents (pipe_put b p) @ take (i' - Suc i) bs"
      by (simp add: put(1))
    moreover have "Suc i + length bs = i + length (b # bs)" by simp
    ultimately show ?thesis using ih unfolding pipe_put_flags by (metis Suc_leD)
  qed
qed

lemma piperead_copy_spec:
  assumes "pipe_inv p" "piperead_copy n p = (bs, p')"
  shows "bs = take n (contents p) \<and> contents p' = drop n (contents p) \<and> pipe_inv p' \<and>
    readopen p' = readopen p \<and> writeopen p' = writeopen p"
  using assms
proof (induction n arbitrary: p bs)
  case 0
  then show ?case by auto
next
  case (Suc n)
  show ?case
  proof (cases "nread p = nwrite p")
    case True
    then have "contents p = []" by (simp add: pipe_empty_iff)
    with True Suc.prems show ?thesis by auto
  next
    case False
    let ?q = "p\<lparr>nread := nread p + 1\<rparr>"
    have c: "contents p = pdata p ! ring_slot PIPESIZE (nread p) # contents ?q"
      using pipe_ring.read_contents [OF False] by (simp add: contents_def pipe_used_def)
    have "pipe_used p = Suc (pipe_used ?q)"
      using arg_cong [OF c, of length] by simp
    then have "pipe_inv ?q" using Suc.prems(1) by (simp add: pipe_inv_def)
    from Suc.IH [OF this] Suc.prems(2) False c show ?thesis
      by (auto simp: Let_def split: prod.splits)
  qed
qed

subsection \<open>Histories\<close>

text \<open>
  A pipe together with the bytes writers have put into it and the bytes readers have got so far.
  Any number of readers and writers take part: each step is one run of a routine between two
  sleeps, by any process and from any byte position.
\<close>

inductive pipe_run :: "pipe \<Rightarrow> u8 list \<Rightarrow> u8 list \<Rightarrow> bool" where
  alloc: "length page = PIPESIZE \<Longrightarrow> pipe_run (pipealloc_init page) [] []"
| write_seg: "pipe_run p ws rs \<Longrightarrow> pipewrite killed addr n i p = (out, i', wk, p') \<Longrightarrow>
    pipe_run p' (ws @ drop i (take i' addr)) rs"
| read_seg: "pipe_run p ws rs \<Longrightarrow> piperead killed n p = (out, bs, wk, p') \<Longrightarrow> pipe_run p' ws (rs @ bs)"
| close_end: "pipe_run p ws rs \<Longrightarrow> pipeclose p writable = (p', wk, freed) \<Longrightarrow> pipe_run p' ws rs"

lemma contents_flags [simp]: "contents (p\<lparr>readopen := a\<rparr>) = contents p" "contents (p\<lparr>writeopen := a\<rparr>) = contents p"
  "pipe_inv (p\<lparr>readopen := a\<rparr>) = pipe_inv p" "pipe_inv (p\<lparr>writeopen := a\<rparr>) = pipe_inv p"
  by (simp_all add: contents_def pipe_used_def pipe_inv_def)

lemma pipeclose_contents:
  "pipeclose p writable = (p', wk, freed) \<Longrightarrow> contents p' = contents p \<and> pipe_inv p' = pipe_inv p"
  by (auto simp: pipeclose_def split: if_splits)

lemma pipewrite_spec:
  assumes "pipe_inv p" "pipewrite killed addr n i p = (out, i', wk, p')"
  shows "pipe_inv p' \<and> i \<le> i' \<and> contents p' = contents p @ drop i (take i' addr) \<and>
    readopen p' = readopen p \<and> writeopen p' = writeopen p"
proof -
  let ?bs = "drop i (take (nat n) addr)"
  note s = pipewrite_loop_spec [OF assms(1) assms(2) [unfolded pipewrite_def]]
  have "take (i' - i) ?bs = drop i (take i' addr)"
  proof (cases "i' = i")
    case True
    then show ?thesis by simp
  next
    case False
    moreover have "i \<le> i'" "i' \<le> i + (min (length addr) (nat n) - i)" using s by simp_all
    ultimately have "i' \<le> nat n" by linarith
    then show ?thesis using s by (simp add: take_drop min_def)
  qed
  with s show ?thesis by auto
qed

lemma piperead_spec:
  assumes "pipe_inv p" "piperead killed n p = (out, bs, wk, p')"
  shows "contents p = bs @ contents p' \<and> pipe_inv p'"
  using assms piperead_copy_spec [OF assms(1), of "nat n"]
  by (auto simp: piperead_def split: if_splits prod.splits)

lemma pipe_run_inv: "pipe_run p ws rs \<Longrightarrow> pipe_inv p \<and> ws = rs @ contents p"
proof (induction rule: pipe_run.induct)
  case (alloc page)
  then show ?case by (simp add: pipealloc_init_def pipe_inv_def pipe_used_def contents_def ring_range_def)
next
  case (write_seg p ws rs killed addr n i out i' wk p')
  then show ?case using pipewrite_spec by fastforce
next
  case (read_seg p ws rs killed n out bs wk p')
  then show ?case using piperead_spec by fastforce
next
  case (close_end p ws rs writable p' wk freed)
  then show ?case using pipeclose_contents by metis
qed

subsection \<open>Properties\<close>

text \<open>
  C14: a pipe is a bounded first-in first-out channel. However the runs of its readers and writers
  interleave, and although its byte counters wrap at 32 bits, the bytes read so far followed by
  the bytes still buffered are exactly the bytes written so far, in order, and at most 512 are
  buffered.
\<close>

theorem pipe_is_fifo:
  assumes "pipe_run p ws rs"
  shows "ws = rs @ contents p \<and> length (contents p) \<le> 512"
  using pipe_run_inv [OF assms] by (simp add: pipe_inv_def)

theorem pipe_is_fifo_witness:
  "\<exists>p ws. pipewrite False [7, 8, 9] 3 0 (pipealloc_init (replicate 512 0)) = (Returned 3, 3, [ChanRead], p) \<and>
    ws = [7, 8, 9] \<and> ws = contents p"
proof -
  let ?q = "pipe_put 9 (pipe_put 8 (pipe_put 7 (pipealloc_init (replicate 512 0))))"
  have w: "pipewrite False [7, 8, 9] 3 0 (pipealloc_init (replicate 512 0)) = (Returned 3, 3, [ChanRead], ?q)"
    by (simp add: pipewrite_def pipealloc_init_def pipe_full_def pipe_put_def)
  have "pipe_run (pipealloc_init (replicate 512 0)) [] []" by (rule pipe_run.alloc) simp
  from pipe_run.write_seg [OF this w] have "pipe_run ?q [7, 8, 9] []" by simp
  from pipe_is_fifo [OF this] w show ?thesis by auto
qed

text \<open>
  C29: blocking is sound and never lasts by itself. A writer goes to sleep only when 512 bytes are
  buffered and the read end is open, after it has woken the readers; the next read of at least
  one byte then does not sleep, returns data and wakes the writers, and the writer, when it goes
  on from the byte it had reached, stores at least one more byte. A reader sleeps only on an
  empty pipe whose write end is open.
\<close>

theorem pipe_blocking:
  assumes "pipe_inv p"
  shows "(\<forall>killed addr n i i' wk q. pipewrite killed addr n i p = (Sleeping ChanWrite, i', wk, q) \<longrightarrow>
      length (contents q) = 512 \<and> readopen q \<noteq> 0 \<and> wk = [ChanRead] \<and>
      (\<forall>m > 0. \<exists>bs q'. piperead False m q = (Returned (min m 512), bs, [ChanWrite], q') \<and>
        (\<forall>out i'' wk' q''. pipewrite killed addr n i' q' = (out, i'', wk', q'') \<longrightarrow> i' < i''))) \<and>
    (\<forall>killed n bs wk q. piperead killed n p = (Sleeping ChanRead, bs, wk, q) \<longrightarrow>
      contents p = [] \<and> writeopen p \<noteq> 0 \<and> q = p)"
proof (intro conjI allI impI)
  fix killed addr n i i' wk q
  assume w: "pipewrite killed addr n i p = (Sleeping ChanWrite, i', wk, q)"
  let ?bs = "drop i (take (nat n) addr)"
  note s = pipewrite_loop_spec [OF assms w [unfolded pipewrite_def], simplified]
  have full: "length (contents q) = 512" using s unfolding length_contents pipe_full_iff by blast
  then show "length (contents q) = 512" "readopen q \<noteq> 0" "wk = [ChanRead]" using s by auto
  fix m :: int
  assume m: "0 < m"
  obtain bs q' where c: "piperead_copy (nat m) q = (bs, q')" by force
  have cs: "bs = take (nat m) (contents q)" "contents q' = drop (nat m) (contents q)" "pipe_inv q'"
    using piperead_copy_spec [OF _ c] s by auto
  have "contents q \<noteq> []" using full by (metis list.size(3) zero_neq_numeral)
  then have "nread q \<noteq> nwrite q" by (simp add: pipe_empty_iff)
  then have r: "piperead False m q = (Returned (min m 512), bs, [ChanWrite], q')"
    using c cs(1) full m by (simp add: piperead_def min_def) linarith
  have notfull: "\<not> pipe_full q'"
    using cs(2) full m length_contents [of q'] by (simp add: pipe_full_iff)
  have "i' < i''" if "pipewrite killed addr n i' q' = (out, i'', wk', q'')" for out i'' wk' q''
  proof -
    have "i' < length (take (nat n) addr)" using s by auto
    then obtain b bs' where bs': "drop i' (take (nat n) addr) = b # bs'"
      by (metis Cons_nth_drop_Suc)
    then have "pipewrite_loop killed n (Suc i') bs' (pipe_put b q') = (out, i'', wk', q'')"
      using that notfull by (simp add: pipewrite_def)
    then show ?thesis
      using pipewrite_loop_spec [OF pipe_put_contents(2) [OF cs(3) notfull]] by fastforce
  qed
  with r show "\<exists>bs q'. piperead False m q = (Returned (min m 512), bs, [ChanWrite], q') \<and>
      (\<forall>out i'' wk' q''. pipewrite killed addr n i' q' = (out, i'', wk', q'') \<longrightarrow> i' < i'')"
    by blast
next
  fix killed n bs wk q
  assume "piperead killed n p = (Sleeping ChanRead, bs, wk, q)"
  then show "contents p = []" "writeopen p \<noteq> 0" "q = p"
    by (auto simp: piperead_def pipe_empty_iff split: if_splits prod.splits)
qed

theorem pipe_blocking_witness:
  "\<exists>p. pipe_inv p \<and> piperead False 4 p = (Sleeping ChanRead, [], [], p) \<and> contents p = []"
proof -
  let ?p = "pipealloc_init (replicate 512 0)"
  have inv: "pipe_inv ?p" by (simp add: pipe_inv_def pipealloc_init_def pipe_used_def)
  have r: "piperead False 4 ?p = (Sleeping ChanRead, [], [], ?p)" by (simp add: piperead_def pipealloc_init_def)
  have "contents ?p = []" using pipe_blocking [OF inv] r by blast
  with inv r show ?thesis by blast
qed

end
