(* ===== verification/Kalloc.thy ===== *)
theory Kalloc
  imports CString Syscall
begin

text \<open>
  The physical page allocator (kalloc.c). The free list is threaded through the free pages
  themselves, so the state is the list head together with the memory. Its lock makes each call
  atomic. The locale \<open>page_allocator\<close> is what the callers rely on: allocation hands out a free
  page, freeing returns one, and stores into pages that are out do not disturb the free ones.
\<close>

subsection \<open>Operations\<close>

record kmem =
  use_lock :: int
  freelist :: u32
  kmem_mem :: memory

definition PHYSTOP :: u32 where
  "PHYSTOP = 0xE000000"

definition V2P :: "u32 \<Rightarrow> u32" where
  "V2P a = a - KERNBASE"

definition PGROUNDUP :: "u32 \<Rightarrow> u32" where
  "PGROUNDUP s = (s + 4096 - 1) AND NOT (4096 - 1)"

definition PGROUNDDOWN :: "u32 \<Rightarrow> u32" where
  "PGROUNDDOWN a = a AND NOT (4096 - 1)"

text \<open>The first address after the kernel, \<open>end\<close>, is set by the linker and is an argument here.\<close>

definition kfree :: "u32 \<Rightarrow> u32 \<Rightarrow> kmem \<Rightarrow> kmem res" where
  "kfree kend v k =
     (if v mod 4096 \<noteq> 0 \<or> v < kend \<or> V2P v \<ge> PHYSTOP then Inl (Panic ''kfree'')
      else let m = memset (kmem_mem k) v 1 4096;
               m = store_le32 m v (freelist k)
           in Inr (k\<lparr>kmem_mem := m, freelist := v\<rparr>))"

definition kalloc :: "kmem \<Rightarrow> u32 \<times> kmem" where
  "kalloc k =
     (let r = freelist k
      in (r, if r \<noteq> 0 then k\<lparr>freelist := load_le32 (kmem_mem k) r\<rparr> else k))"

text \<open>The loop ends because a page at or above \<open>PHYSTOP\<close> makes \<open>kfree\<close> panic.\<close>

lemma kfree_below:
  assumes "kfree kend p k = Inr k'"
  shows "unat (p - KERNBASE) < unat PHYSTOP" "unat (p + 4096 - KERNBASE) = unat (p - KERNBASE) + 4096"
proof -
  show lt: "unat (p - KERNBASE) < unat PHYSTOP"
    using assms by (auto simp: kfree_def V2P_def word_le_nat_alt not_le split: if_splits)
  have P: "unat PHYSTOP = 234881024" by (simp add: PHYSTOP_def)
  have "unat (p - KERNBASE + 4096) = unat (p - KERNBASE) + unat (4096 :: u32)"
    by (rule unat_add_no_wrap) (use lt P in simp)
  moreover have "p + 4096 - KERNBASE = p - KERNBASE + 4096" by simp
  moreover have "unat (4096 :: u32) = 4096" by simp
  ultimately show "unat (p + 4096 - KERNBASE) = unat (p - KERNBASE) + 4096" by presburger
qed

function freerange_loop :: "u32 \<Rightarrow> u32 \<Rightarrow> u32 \<Rightarrow> kmem \<Rightarrow> kmem res" where
  "freerange_loop kend vend p k =
     (if p + 4096 \<le> vend
      then bindR (kfree kend p k) (\<lambda>k. freerange_loop kend vend (p + 4096) k)
      else Inr k)"
  by pat_completeness auto
termination
proof (relation "measure (\<lambda>(kend, vend, p, k). unat PHYSTOP + 4096 - unat (p - KERNBASE))", goal_cases)
  case 1
  then show ?case by simp
next
  case (2 kend vend p k k')
  then show ?case using kfree_below [OF 2(2)] by simp
qed

declare freerange_loop.simps [simp del]

definition freerange :: "u32 \<Rightarrow> u32 \<Rightarrow> u32 \<Rightarrow> kmem \<Rightarrow> kmem res" where
  "freerange kend vstart vend k = freerange_loop kend vend (PGROUNDUP vstart) k"

definition kinit1 :: "u32 \<Rightarrow> u32 \<Rightarrow> u32 \<Rightarrow> kmem \<Rightarrow> kmem res" where
  "kinit1 kend vstart vend k = freerange kend vstart vend (k\<lparr>use_lock := 0\<rparr>)"

definition kinit2 :: "u32 \<Rightarrow> u32 \<Rightarrow> u32 \<Rightarrow> kmem \<Rightarrow> kmem res" where
  "kinit2 kend vstart vend k = bindR (freerange kend vstart vend k) (\<lambda>k. Inr (k\<lparr>use_lock := 1\<rparr>))"

subsection \<open>Words in memory\<close>

lemma load_store_le32: "load_le32 (store_le32 m a w) a = w"
proof -
  have ne: "a + 1 \<noteq> a" "a + 2 \<noteq> a" "a + 3 \<noteq> a" "a + 2 \<noteq> a + 1" "a + 3 \<noteq> a + 1" "a + 3 \<noteq> a + 2"
    by simp_all
  have l: "load_le32 (store_le32 m a w) a = ucast (ucast w :: u8) OR push_bit 8 (ucast (ucast (drop_bit 8 w) :: u8))
     OR push_bit 16 (ucast (ucast (drop_bit 16 w) :: u8)) OR push_bit 24 (ucast (ucast (drop_bit 24 w) :: u8))"
    using ne by (simp add: load_le32_def store_le32_def)
  have split: "n < 32 \<Longrightarrow> n < 8 \<or> (8 \<le> n \<and> n - 8 < 8) \<or> (16 \<le> n \<and> n - 16 < 8) \<or> (24 \<le> n \<and> n - 24 < 8)"
    for n :: nat by linarith
  show ?thesis
    unfolding l
    by (rule bit_word_eqI) (auto simp: bit_or_iff bit_push_bit_iff bit_ucast_iff bit_drop_bit_eq,
        metis le_add_diff_inverse split)
qed

lemma load_le32_cong:
  "(\<And>i. i < 4 \<Longrightarrow> m (a + of_nat i) = m' (a + of_nat i)) \<Longrightarrow> load_le32 m a = load_le32 m' a"
proof -
  assume eq: "\<And>i. i < 4 \<Longrightarrow> m (a + of_nat i) = m' (a + of_nat i)"
  show ?thesis
    using eq [of 0] eq [of 1] eq [of 2] eq [of 3] by (simp add: load_le32_def)
qed

subsection \<open>Pages\<close>

definition page_ok :: "u32 \<Rightarrow> u32 \<Rightarrow> bool" where
  "page_ok kend p \<longleftrightarrow> p mod 4096 = 0 \<and> kend \<le> p \<and> V2P p < PHYSTOP"

definition in_page :: "u32 \<Rightarrow> u32 \<Rightarrow> bool" where
  "in_page p x \<longleftrightarrow> unat (x - p) < 4096"

lemma page_ok_nonzero: "page_ok kend p \<Longrightarrow> p \<noteq> 0"
  by (auto simp: page_ok_def V2P_def PHYSTOP_def KERNBASE_def)

lemma unat_aligned: "(p :: u32) mod 4096 = 0 \<longleftrightarrow> unat p mod 4096 = 0"
proof -
  have "unat (p mod 4096) = unat p mod 4096" by (simp add: unat_mod)
  then show ?thesis by (metis unat_0 unat_eq_zero)
qed

lemma aligned_mult: "(p :: u32) mod 4096 = 0 \<Longrightarrow> \<exists>a. unat p = 4096 * a"
  unfolding unat_aligned by (simp only: mod_eq_0_iff_dvd dvd_def)

lemma aligned_apart:
  fixes p q :: u32
  assumes "p mod 4096 = 0" "q mod 4096 = 0" "p \<noteq> q" "i < 4096"
  shows "4096 \<le> unat (q + of_nat i - p)"
proof -
  have "unat q = (unat (q - p) + unat p) mod 2 ^ 32"
    using unat_word_ariths(1) [of "q - p" p] by simp
  then have "unat q mod 4096 = (unat (q - p) + unat p) mod 4096"
    using mod_mod_cancel [of 4096 "2 ^ 32" "unat (q - p) + unat p"] by simp
  also have "\<dots> = (unat (q - p) + 0) mod 4096"
    using assms(1) unfolding unat_aligned by (intro mod_add_cong) (simp_all only: mod_0)
  finally have "unat (q - p) mod 4096 = 0" using assms(2) by (simp only: unat_aligned add_0_right)
  then obtain c where c: "unat (q - p) = 4096 * c" by (metis dvd_def mod_0_imp_dvd)
  have "c \<noteq> 0" using c assms(3) unat_diff_eq_0_iff [of q p] by auto
  moreover have "4096 * c < 2 ^ 32" using unat_lt_2_32 [of "q - p"] unfolding c .
  ultimately have r: "4096 \<le> unat (q - p)" "unat (q - p) + 4096 \<le> 2 ^ 32" unfolding c by simp_all
  have i: "unat (of_nat i :: u32) = i" using assms(4) by (intro unat_of_nat_id) simp
  have "unat ((q - p) + of_nat i) = unat (q - p) + unat (of_nat i :: u32)"
    by (rule unat_add_no_wrap) (use r i assms(4) in simp)
  moreover have "q + of_nat i - p = (q - p) + of_nat i" by simp
  ultimately show ?thesis using r i by presburger
qed

lemma load_other_page:
  assumes "p mod 4096 = 0" "q mod 4096 = 0" "p \<noteq> q" "\<And>x. \<not> in_page p x \<Longrightarrow> m' x = m x"
  shows "load_le32 m' q = load_le32 m q"
proof (rule load_le32_cong)
  fix i :: nat
  assume "i < 4"
  then have "\<not> in_page p (q + of_nat i)"
    using aligned_apart [OF assms(1-3), of i] by (simp add: in_page_def)
  then show "m' (q + of_nat i) = m (q + of_nat i)" by (rule assms(4))
qed

subsection \<open>The free list\<close>

fun flist :: "memory \<Rightarrow> u32 \<Rightarrow> u32 list \<Rightarrow> bool" where
  "flist m h [] \<longleftrightarrow> h = 0"
| "flist m h (p # ps) \<longleftrightarrow> h = p \<and> p \<noteq> 0 \<and> flist m (load_le32 m p) ps"

definition free_pages :: "u32 \<Rightarrow> kmem \<Rightarrow> u32 list \<Rightarrow> bool" where
  "free_pages kend k ps \<longleftrightarrow> flist (kmem_mem k) (freelist k) ps \<and> distinct ps \<and> (\<forall>p \<in> set ps. page_ok kend p)"

lemma flist_frame:
  "(\<And>p. p \<in> set ps \<Longrightarrow> load_le32 m' p = load_le32 m p) \<Longrightarrow> flist m' h ps = flist m h ps"
  by (induction ps arbitrary: h) auto

lemma free_pages_head: "free_pages kend k ps \<Longrightarrow> freelist k = 0 \<longleftrightarrow> ps = []"
  by (cases ps) (auto simp: free_pages_def)

lemma kalloc_free_pages:
  assumes "free_pages kend k ps"
  shows "ps = [] \<Longrightarrow> kalloc k = (0, k)"
    and "ps = p # qs \<Longrightarrow> \<exists>k'. kalloc k = (p, k') \<and> free_pages kend k' qs \<and> kmem_mem k' = kmem_mem k"
  using assms by (auto simp: kalloc_def free_pages_def Let_def)

lemma kfree_frame:
  assumes "kfree kend v k = Inr k'" "\<not> in_page v x"
  shows "kmem_mem k' x = kmem_mem k x"
proof -
  have off: "unat (v + of_nat i - v) = i" if "i < 4" for i
    using that unat_of_nat_id [of i, where 'a = 32] by simp
  have "x \<noteq> v + of_nat i" if "i < 4" for i
    using that assms(2) off [OF that] by (auto simp: in_page_def)
  from this [of 0] this [of 1] this [of 2] this [of 3] have
    "x \<noteq> v" "x \<noteq> v + 1" "x \<noteq> v + 2" "x \<noteq> v + 3" by simp_all
  moreover have "memset (kmem_mem k) v 1 4096 x = kmem_mem k x"
    using assms(2) by (simp add: memset_pointwise in_page_def)
  ultimately show ?thesis
    using assms(1) unfolding kfree_def Let_def store_le32_def
    by (cases "v mod 4096 \<noteq> 0 \<or> v < kend \<or> V2P v \<ge> PHYSTOP") (simp_all only: if_True if_False sum.simps, auto)
qed

lemma kfree_free_pages:
  assumes "free_pages kend k ps" "page_ok kend p" "p \<notin> set ps"
  shows "\<exists>k'. kfree kend p k = Inr k' \<and> free_pages kend k' (p # ps)"
proof -
  let ?k = "k\<lparr>kmem_mem := store_le32 (memset (kmem_mem k) p 1 4096) p (freelist k), freelist := p\<rparr>"
  have k: "kfree kend p k = Inr ?k"
    using assms(2) by (auto simp: kfree_def page_ok_def Let_def)
  have "load_le32 (kmem_mem ?k) q = load_le32 (kmem_mem k) q" if "q \<in> set ps" for q
    using that assms kfree_frame [OF k] by (intro load_other_page [of p]) (auto simp: free_pages_def page_ok_def)
  then have "flist (kmem_mem ?k) (freelist k) ps = flist (kmem_mem k) (freelist k) ps"
    by (rule flist_frame)
  then have "free_pages kend ?k (p # ps)"
    using assms page_ok_nonzero [OF assms(2)] by (simp add: free_pages_def load_store_le32)
  with k show ?thesis by blast
qed

text \<open>A store that stays within pages that are not free leaves the list alone.\<close>

lemma free_pages_store:
  assumes "free_pages kend k ps" "\<And>x. (\<exists>p \<in> set ps. in_page p x) \<Longrightarrow> m' x = kmem_mem k x"
  shows "free_pages kend (k\<lparr>kmem_mem := m'\<rparr>) ps"
proof -
  have "load_le32 m' q = load_le32 (kmem_mem k) q" if "q \<in> set ps" for q
  proof (rule load_le32_cong)
    fix i :: nat
    assume "i < 4"
    then have "in_page q (q + of_nat i)"
      using unat_of_nat_id [of i, where 'a = 32] by (simp add: in_page_def)
    with that show "m' (q + of_nat i) = kmem_mem k (q + of_nat i)" by (blast intro: assms(2))
  qed
  then have "flist m' (freelist k) ps = flist (kmem_mem k) (freelist k) ps" by (rule flist_frame)
  with assms(1) show ?thesis by (simp add: free_pages_def)
qed

subsection \<open>The allocator contract\<close>

text \<open>
  A history of a client: the pages it holds, as it allocates, frees pages it holds, and stores
  into them.
\<close>

inductive client_run ::
  "('s \<Rightarrow> 'a option \<times> 's) \<Rightarrow> ('a \<Rightarrow> 's \<Rightarrow> 's res) \<Rightarrow> ('a set \<Rightarrow> 's \<Rightarrow> 's \<Rightarrow> bool) \<Rightarrow> 's \<Rightarrow> 'a set \<Rightarrow> 's \<Rightarrow> 'a set \<Rightarrow> bool"
  for alloc free store s H where
  start: "client_run alloc free store s H s H"
| get: "client_run alloc free store s H t J \<Longrightarrow> alloc t = (Some p, u) \<Longrightarrow> client_run alloc free store s H u (insert p J)"
| no_page: "client_run alloc free store s H t J \<Longrightarrow> alloc t = (None, u) \<Longrightarrow> client_run alloc free store s H u J"
| put: "client_run alloc free store s H t J \<Longrightarrow> p \<in> J \<Longrightarrow> free p t = Inr u \<Longrightarrow>
    client_run alloc free store s H u (J - {p})"
| touch: "client_run alloc free store s H t J \<Longrightarrow> store J t u \<Longrightarrow> client_run alloc free store s H u J"

locale page_allocator =
  fixes frees :: "'s \<Rightarrow> 'a set \<Rightarrow> bool"
    and ok :: "'a \<Rightarrow> bool"
    and alloc :: "'s \<Rightarrow> 'a option \<times> 's"
    and free :: "'a \<Rightarrow> 's \<Rightarrow> 's res"
    and store :: "'a set \<Rightarrow> 's \<Rightarrow> 's \<Rightarrow> bool"
  assumes frees_ok: "frees s F \<Longrightarrow> p \<in> F \<Longrightarrow> ok p"
    and alloc_Some: "frees s F \<Longrightarrow> alloc s = (Some p, t) \<Longrightarrow> p \<in> F \<and> frees t (F - {p})"
    and alloc_None: "frees s F \<Longrightarrow> alloc s = (None, t) \<Longrightarrow> F = {} \<and> t = s"
    and free_law: "frees s F \<Longrightarrow> ok p \<Longrightarrow> p \<notin> F \<Longrightarrow> \<exists>t. free p s = Inr t \<and> frees t (insert p F)"
    and store_law: "frees s F \<Longrightarrow> store H s t \<Longrightarrow> H \<inter> F = {} \<Longrightarrow> Ball H ok \<Longrightarrow> frees t F"
begin

text \<open>No page is ever free and held at once, and none is lost or made up.\<close>

lemma conserved:
  assumes "client_run alloc free store s H t J" "frees s F" "H \<inter> F = {}" "Ball H ok"
  shows "\<exists>G. frees t G \<and> J \<inter> G = {} \<and> J \<union> G = H \<union> F \<and> Ball J ok"
  using assms(1)
proof (induction rule: client_run.induct)
  case start
  then show ?case using assms(2-4) by blast
next
  case (get t J p u)
  then obtain G where G: "frees t G" "J \<inter> G = {}" "J \<union> G = H \<union> F" "Ball J ok" by blast
  from alloc_Some [OF G(1) get.hyps(2)] frees_ok [OF G(1)] G(2-4) show ?case
    by (intro exI [of _ "G - {p}"]) auto
next
  case (no_page t J u)
  then obtain G where G: "frees t G" "J \<inter> G = {}" "J \<union> G = H \<union> F" "Ball J ok" by blast
  with alloc_None [OF G(1) no_page.hyps(2)] show ?case by blast
next
  case (put t J p u)
  then obtain G where G: "frees t G" "J \<inter> G = {}" "J \<union> G = H \<union> F" "Ball J ok" by blast
  with put.hyps free_law [OF G(1), of p] have "frees u (insert p G)" by force
  with G put.hyps(2) show ?case by (intro exI [of _ "insert p G"]) auto
next
  case (touch t J u)
  then obtain G where G: "frees t G" "J \<inter> G = {}" "J \<union> G = H \<union> F" "Ball J ok" by blast
  with store_law [OF G(1) touch.hyps(2)] show ?case by blast
qed

lemma free_alloc_fresh:
  assumes "frees s F" "alloc s = (Some p, t)" "alloc t = (Some q, u)"
  shows "p \<noteq> q" "p \<in> F" "q \<in> F"
  using alloc_Some [OF assms(1,2)] alloc_Some [of t "F - {p}", OF _ assms(3)] by auto

end

text \<open>kalloc signals an empty list by a null pointer.\<close>

definition kalloc_page :: "kmem \<Rightarrow> u32 option \<times> kmem" where
  "kalloc_page k = (let (p, k) = kalloc k in (if p = 0 then None else Some p, k))"

definition kmem_frees :: "u32 \<Rightarrow> kmem \<Rightarrow> u32 set \<Rightarrow> bool" where
  "kmem_frees kend k F \<longleftrightarrow> (\<exists>ps. free_pages kend k ps \<and> F = set ps)"

definition store_in :: "u32 set \<Rightarrow> kmem \<Rightarrow> kmem \<Rightarrow> bool" where
  "store_in H k k' \<longleftrightarrow> (\<exists>m'. k' = k\<lparr>kmem_mem := m'\<rparr> \<and> (\<forall>x. (\<forall>p \<in> H. \<not> in_page p x) \<longrightarrow> m' x = kmem_mem k x))"

lemma kalloc_page_cases:
  assumes "free_pages kend k ps"
  shows "ps = [] \<Longrightarrow> kalloc_page k = (None, k)"
    and "ps = p # qs \<Longrightarrow> \<exists>k'. kalloc_page k = (Some p, k') \<and> free_pages kend k' qs"
proof -
  show "ps = [] \<Longrightarrow> kalloc_page k = (None, k)"
    using kalloc_free_pages(1) [OF assms] by (simp add: kalloc_page_def)
  assume ps: "ps = p # qs"
  have "p \<noteq> 0" using assms ps by (auto simp: free_pages_def)
  with kalloc_free_pages(2) [OF assms ps] show "\<exists>k'. kalloc_page k = (Some p, k') \<and> free_pages kend k' qs"
    by (auto simp: kalloc_page_def)
qed

lemma in_page_unique:
  assumes "p mod 4096 = 0" "q mod 4096 = 0" "in_page p x" "in_page q x"
  shows "p = q"
proof (rule ccontr)
  assume ne: "p \<noteq> q"
  have "x = q + of_nat (unat (x - q))" by simp
  moreover have "unat (x - q) < 4096" using assms(4) by (simp add: in_page_def)
  ultimately have "4096 \<le> unat (x - p)" using aligned_apart [OF assms(1,2) ne] by metis
  with assms(3) show False by (simp add: in_page_def)
qed

interpretation kpages: page_allocator "kmem_frees kend" "page_ok kend" kalloc_page "kfree kend" store_in
proof (unfold_locales, goal_cases)
  case (1 s F p)
  then show ?case by (auto simp: kmem_frees_def free_pages_def)
next
  case (2 s F p t)
  then obtain ps where ps: "free_pages kend s ps" "F = set ps" by (auto simp: kmem_frees_def)
  with 2 kalloc_page_cases(1) [OF ps(1)] obtain q qs where qs: "ps = q # qs" by (cases ps) auto
  with kalloc_page_cases(2) [OF ps(1) qs] 2(2) ps show ?case
    by (auto simp: kmem_frees_def free_pages_def)
next
  case (3 s F t)
  then obtain ps where ps: "free_pages kend s ps" "F = set ps" by (auto simp: kmem_frees_def)
  with 3(2) kalloc_page_cases [OF ps(1)] show ?case by (cases ps) force+
next
  case (4 s F p)
  then show ?case using kfree_free_pages by (auto simp: kmem_frees_def) (metis list.simps(15))
next
  case (5 s F H t)
  then obtain ps m' where ps: "free_pages kend s ps" "F = set ps" and t: "t = s\<lparr>kmem_mem := m'\<rparr>"
    and m': "\<And>x. \<forall>p \<in> H. \<not> in_page p x \<Longrightarrow> m' x = kmem_mem s x"
    by (auto simp: kmem_frees_def store_in_def)
  have al: "p mod 4096 = 0" if "p \<in> set ps \<or> p \<in> H" for p
    using that ps(1) 5(4) by (auto simp: free_pages_def page_ok_def)
  have "m' x = kmem_mem s x" if "\<exists>p \<in> set ps. in_page p x" for x
  proof (rule m')
    show "\<forall>p \<in> H. \<not> in_page p x"
      using that al in_page_unique 5(3) ps(2) by (metis disjoint_iff)
  qed
  with ps show ?case unfolding t kmem_frees_def using free_pages_store by blast
qed

subsection \<open>Properties\<close>

text \<open>
  C6: pages are conserved. Whatever a client does with kalloc, kfree of pages it holds and stores
  into pages it holds, no page is ever both free and held, so kalloc never hands out a page
  twice, and every page is at all times either free or held; the free list threaded through the
  free pages stays intact.
\<close>

theorem pages_conserved:
  assumes "client_run kalloc_page (kfree kend) store_in k H k' J" "free_pages kend k ps"
    "H \<inter> set ps = {}" "\<forall>p \<in> H. page_ok kend p"
  shows "\<exists>qs. free_pages kend k' qs \<and> J \<inter> set qs = {} \<and> J \<union> set qs = H \<union> set ps"
proof -
  have "kmem_frees kend k (set ps)" using assms(2) by (auto simp: kmem_frees_def)
  from kpages.conserved [OF assms(1) this assms(3)] assms(4) show ?thesis
    by (auto simp: kmem_frees_def)
qed

definition sample_kmem :: kmem where
  "sample_kmem = \<lparr>use_lock = 0, freelist = 0, kmem_mem = (\<lambda>_. 0)\<rparr>"

lemma sample_page: "page_ok 0x80100000 0x80101000"
  by (simp add: page_ok_def V2P_def PHYSTOP_def KERNBASE_def)

theorem pages_conserved_witness:
  "\<exists>k' qs. kfree 0x80100000 0x80101000 sample_kmem = Inr k' \<and> free_pages 0x80100000 k' qs \<and> set qs = {0x80101000}"
proof -
  have f: "free_pages 0x80100000 sample_kmem []" by (simp add: free_pages_def sample_kmem_def)
  obtain k' where k': "kfree 0x80100000 0x80101000 sample_kmem = Inr k'"
    using kfree_free_pages [OF f sample_page] by auto
  have "client_run kalloc_page (kfree 0x80100000) store_in sample_kmem {0x80101000} k' ({0x80101000} - {0x80101000})"
    using client_run.start _ k' by (rule client_run.put) simp
  from pages_conserved [OF this f] sample_page k' show ?thesis by auto
qed

text \<open>The whole pages between two addresses.\<close>

definition whole_pages :: "u32 \<Rightarrow> u32 \<Rightarrow> u32 set" where
  "whole_pages lo hi = {p. p mod 4096 = 0 \<and> unat lo \<le> unat p \<and> unat p + 4096 \<le> unat hi}"

lemma whole_pages_step:
  assumes "p mod 4096 = 0" "unat p + 4096 \<le> unat hi"
  shows "whole_pages p hi = insert p (whole_pages (p + 4096) hi)" "(p + 4096) mod 4096 = 0"
    "unat (p + 4096) = unat p + 4096"
proof -
  have c: "unat (4096 :: u32) = 4096" by simp
  have "unat p + unat (4096 :: u32) < 2 ^ LENGTH(32)"
    using assms(2) unat_lt_2_32 [of hi] unfolding c by simp
  then have "unat (p + 4096) = unat p + unat (4096 :: u32)" by (rule unat_add_no_wrap)
  then show u: "unat (p + 4096) = unat p + 4096" unfolding c .
  show "(p + 4096) mod 4096 = 0"
    using assms(1) unfolding unat_aligned u by (simp only: mod_add_self2)
  have gap: "unat p = unat q \<or> unat p + 4096 \<le> unat q" if q: "q mod 4096 = 0" "unat p \<le> unat q" for q :: u32
  proof -
    obtain a b where "unat p = 4096 * a" "unat q = 4096 * b"
      using aligned_mult [OF q(1)] aligned_mult [OF assms(1)] by blast
    with q(2) show ?thesis by (cases "a = b") simp_all
  qed
  show "whole_pages p hi = insert p (whole_pages (p + 4096) hi)"
  proof (rule set_eqI)
    fix q
    have "q = p \<longleftrightarrow> unat p = unat q" by (metis word_unat_eq_iff)
    then show "q \<in> whole_pages p hi \<longleftrightarrow> q \<in> insert p (whole_pages (p + 4096) hi)"
      unfolding whole_pages_def mem_Collect_eq insert_iff u
      using gap [of q] assms add_leD1 by (metis order_refl)
  qed
qed


lemma freerange_loop_frees:
  assumes "p mod 4096 = 0" "kend \<le> p" "KERNBASE \<le> p" "unat p < 4294963200"
    "unat vend \<le> 2382364672" "kmem_frees kend k F" "F \<inter> whole_pages p vend = {}"
  shows "\<exists>k'. freerange_loop kend vend p k = Inr k' \<and> kmem_frees kend k' (F \<union> whole_pages p vend) \<and> use_lock k' = use_lock k"
  using assms
proof (induction "unat vend - unat p" arbitrary: p k F rule: less_induct)
  case less
  have c: "unat (4096 :: u32) = 4096" by simp
  have "unat (p + 4096) = unat p + unat (4096 :: u32)"
    by (rule unat_add_no_wrap) (use less.prems(4) c in simp)
  then have u: "unat (p + 4096) = unat p + 4096" unfolding c .
  have le: "p + 4096 \<le> vend \<longleftrightarrow> unat p + 4096 \<le> unat vend" unfolding word_le_nat_alt u ..
  show ?case
  proof (cases "unat p + 4096 \<le> unat vend")
    case False
    then have "whole_pages p vend = {}" by (auto simp: whole_pages_def)
    with False le less.prems(6) show ?thesis by (subst freerange_loop.simps) simp
  next
    case True
    note st = whole_pages_step [OF less.prems(1) True]
    have K: "unat KERNBASE = 2147483648" "unat PHYSTOP = 234881024" by (simp_all add: KERNBASE_def PHYSTOP_def)
    have "unat (V2P p) = unat p - unat KERNBASE"
      unfolding V2P_def using less.prems(3) by (simp add: unat_sub)
    then have ok: "page_ok kend p"
      using less.prems(1,2,5) True K unfolding page_ok_def word_less_nat_alt by linarith
    obtain k1 where k1: "kfree kend p k = Inr k1" "kmem_frees kend k1 (insert p F)"
      using kpages.free_law [OF less.prems(6) ok] less.prems(7) st(1) by blast
    have lk: "use_lock k1 = use_lock k" using k1(1) by (auto simp: kfree_def Let_def split: if_splits)
    have "p \<notin> whole_pages (p + 4096) vend" unfolding whole_pages_def u by simp
    then have "insert p F \<inter> whole_pages (p + 4096) vend = {}" using less.prems(7) st(1) by blast
    moreover have "kend \<le> p + 4096" "KERNBASE \<le> p + 4096" "unat (p + 4096) < 4294963200"
      "unat vend - unat (p + 4096) < unat vend - unat p"
      using less.prems(2,3,5) True unfolding word_le_nat_alt u by linarith+
    ultimately obtain k' where "freerange_loop kend vend (p + 4096) k1 = Inr k'"
      "kmem_frees kend k' (insert p F \<union> whole_pages (p + 4096) vend)" "use_lock k' = use_lock k1"
      using less.hyps [of "p + 4096" k1 "insert p F"] st(2) less.prems(5) k1(2) by blast
    with True le k1(1) lk st(1) show ?thesis by (subst freerange_loop.simps) simp
  qed
qed

lemma unat_PGROUNDDOWN: "unat (PGROUNDDOWN a) = unat a - unat a mod 4096"
proof -
  have m: "(4096 - 1 :: u32) = mask 12" by (simp add: mask_eq_exp_minus_1)
  have "a AND NOT (mask 12) = push_bit 12 (drop_bit 12 a)"
    by (rule bit_word_eqI) (auto simp: bit_simps)
  then have "PGROUNDDOWN a = push_bit 12 (drop_bit 12 a)" unfolding PGROUNDDOWN_def m .
  moreover have "unat (push_bit 12 (drop_bit 12 a)) = unat a div 4096 * 4096"
  proof -
    have d: "unat (drop_bit 12 a) = unat a div 4096" by (simp add: drop_bit_eq_div unat_div)
    have "push_bit 12 (drop_bit 12 a) = drop_bit 12 a * 4096" by (simp add: push_bit_eq_mult)
    moreover have "unat (drop_bit 12 a) * unat (4096 :: u32) < 2 ^ 32"
      unfolding d using unat_lt_2_32 [of a] by (simp add: less_le_trans [OF _ order_refl] le_less_trans [OF div_times_less_eq_dividend])
    ultimately show ?thesis by (simp add: unat_word_ariths d)
  qed
  ultimately show ?thesis by (simp add: minus_mod_eq_div_mult)
qed

lemma PGROUNDUP_spec:
  assumes "unat v + 4095 < 2 ^ 32"
  shows "PGROUNDUP v mod 4096 = 0" "unat v \<le> unat (PGROUNDUP v)" "unat (PGROUNDUP v) \<le> unat v + 4095"
proof -
  have c: "unat (4095 :: u32) = 4095" by simp
  have "unat (v + 4095) = unat v + unat (4095 :: u32)" by (rule unat_add_no_wrap) (use assms c in simp)
  then have a: "unat (v + 4095) = unat v + 4095" unfolding c .
  have "PGROUNDUP v = PGROUNDDOWN (v + 4095)" by (simp add: PGROUNDUP_def PGROUNDDOWN_def add.commute)
  then have r: "unat (PGROUNDUP v) = unat v + 4095 - (unat v + 4095) mod 4096"
    by (simp only: unat_PGROUNDDOWN a)
  show "PGROUNDUP v mod 4096 = 0" unfolding unat_aligned r by (simp only: minus_mod_eq_div_mult mod_mult_self2_is_0)
  have "(unat v + 4095) mod 4096 < 4096" by simp
  then have "(unat v + 4095) mod 4096 \<le> 4095" by linarith
  then show "unat v \<le> unat (PGROUNDUP v)" "unat (PGROUNDUP v) \<le> unat v + 4095"
    unfolding r by linarith+
qed

lemma whole_pages_PGROUNDUP:
  assumes "unat v + 4095 < 2 ^ 32"
  shows "whole_pages (PGROUNDUP v) hi = whole_pages v hi"
proof -
  note r = PGROUNDUP_spec [OF assms]
  have "unat (PGROUNDUP v) \<le> unat q" if "q mod 4096 = 0" "unat v \<le> unat q" for q :: u32
  proof -
    obtain a b where ab: "unat (PGROUNDUP v) = 4096 * a" "unat q = 4096 * b"
      using aligned_mult [OF r(1)] aligned_mult [OF \<open>q mod 4096 = 0\<close>] by blast
    have "4096 * a \<le> 4096 * b + 4095" using r(3) that(2) unfolding ab [symmetric] by linarith
    then have "a \<le> b" by linarith
    then show ?thesis unfolding ab by simp
  qed
  moreover have "unat v \<le> unat q" if "unat (PGROUNDUP v) \<le> unat q" for q :: u32
    using r(2) that by (rule order_trans)
  ultimately show ?thesis unfolding whole_pages_def by (intro Collect_cong) metis
qed

text \<open>
  C33: let kend be the end of the kernel's image, and let the two addresses satisfy what the calls
  of main give: the first is neither below kend nor below KERNBASE and at least two pages below the top
  of the address space, the second is at most the kernel address of PHYSTOP,
  and no page between them is free yet. Then freerange ends without a panic, makes free exactly the
  whole pages between the two addresses, keeps the pages that were free before and does not touch the
  use of the lock; kinit1 and kinit2 do the same and leave locking off and on.
\<close>

theorem freerange_frees_whole_pages:
  assumes "free_pages kend k ps" "set ps \<inter> whole_pages vstart vend = {}"
    "kend \<le> vstart" "KERNBASE \<le> vstart" "unat vstart + 4095 < 4294963200" "unat vend \<le> 2382364672"
  shows "(\<exists>k' qs. freerange kend vstart vend k = Inr k' \<and> free_pages kend k' qs \<and>
      set qs = set ps \<union> whole_pages vstart vend \<and> use_lock k' = use_lock k) \<and>
    (\<exists>k' qs. kinit1 kend vstart vend k = Inr k' \<and> free_pages kend k' qs \<and>
      set qs = set ps \<union> whole_pages vstart vend \<and> use_lock k' = 0) \<and>
    (\<exists>k' qs. kinit2 kend vstart vend k = Inr k' \<and> free_pages kend k' qs \<and>
      set qs = set ps \<union> whole_pages vstart vend \<and> use_lock k' = 1)"
proof -
  have lt: "unat vstart + 4095 < 2 ^ 32" using assms(5) by simp
  note r = PGROUNDUP_spec [OF lt]
  have up: "kend \<le> PGROUNDUP vstart" "KERNBASE \<le> PGROUNDUP vstart" "unat (PGROUNDUP vstart) < 4294963200"
    using assms(3-5) r(2,3) unfolding word_le_nat_alt by linarith+
  have fr: "\<exists>k' qs. freerange kend vstart vend j = Inr k' \<and> free_pages kend k' qs \<and>
      set qs = set ps \<union> whole_pages vstart vend \<and> use_lock k' = use_lock j" if "free_pages kend j ps" for j
  proof -
    have "kmem_frees kend j (set ps)" using that by (auto simp: kmem_frees_def)
    then obtain k' where "freerange_loop kend vend (PGROUNDUP vstart) j = Inr k'"
      "kmem_frees kend k' (set ps \<union> whole_pages vstart vend)" "use_lock k' = use_lock j"
      using freerange_loop_frees [OF r(1), of kend vend j "set ps"] up assms(2,6)
      by (auto simp: whole_pages_PGROUNDUP [OF lt])
    then show ?thesis by (auto simp: freerange_def kmem_frees_def)
  qed
  have lk: "free_pages kend (j\<lparr>use_lock := b\<rparr>) rs = free_pages kend j rs" for j b rs
    by (simp add: free_pages_def)
  from fr [OF assms(1)] fr [of "k\<lparr>use_lock := 0\<rparr>"] assms(1) show ?thesis
    by (fastforce simp: kinit1_def kinit2_def lk)
qed

theorem freerange_frees_whole_pages_witness:
  "\<exists>k' qs. kinit2 0x80100000 0x80100800 0x80102000 sample_kmem = Inr k' \<and> free_pages 0x80100000 k' qs \<and>
    0x80101000 \<in> set qs \<and> 0x80100000 \<notin> set qs"
proof -
  have f: "free_pages 0x80100000 sample_kmem []" by (simp add: free_pages_def sample_kmem_def)
  have w: "0x80101000 \<in> whole_pages 0x80100800 0x80102000" "0x80100000 \<notin> whole_pages 0x80100800 0x80102000"
    by (simp_all add: whole_pages_def)
  from freerange_frees_whole_pages [OF f, of "0x80100800" "0x80102000"]
  obtain k' qs where "kinit2 0x80100000 0x80100800 0x80102000 sample_kmem = Inr k'" "free_pages 0x80100000 k' qs"
    "set qs = whole_pages 0x80100800 0x80102000" by (auto simp: KERNBASE_def)
  with w show ?thesis by (intro exI [of _ k'] exI [of _ qs]) simp
qed

end
