(* ===== verification/Block.thy ===== *)
theory Block
  imports Prelude
begin

text \<open>
  Disk blocks (fs.h: BSIZE bytes) and the 32-bit little-endian words that the kernel reads and
  writes in them through structure pointers.
\<close>

type_synonym block = "u8 list"

abbreviation BSIZE :: nat where
  "BSIZE \<equiv> 512"

definition bytes32 :: "u32 \<Rightarrow> u8 list" where
  "bytes32 w = [ucast w, ucast (drop_bit 8 w), ucast (drop_bit 16 w), ucast (drop_bit 24 w)]"

definition word32 :: "u8 list \<Rightarrow> u32" where
  "word32 bs = ucast (bs ! 0) OR push_bit 8 (ucast (bs ! 1)) OR push_bit 16 (ucast (bs ! 2)) OR push_bit 24 (ucast (bs ! 3))"

definition get32 :: "block \<Rightarrow> nat \<Rightarrow> u32" where
  "get32 b i = word32 (take 4 (drop (4 * i) b))"

definition put32 :: "block \<Rightarrow> nat \<Rightarrow> u32 \<Rightarrow> block" where
  "put32 b i w = take (4 * i) b @ bytes32 w @ drop (4 * i + 4) b"

lemma length_bytes32 [simp]: "length (bytes32 w) = 4"
  by (simp add: bytes32_def)

lemma word32_bytes32 [simp]: "word32 (bytes32 w) = w"
proof -
  have split: "n < 32 \<Longrightarrow> n < 8 \<or> (8 \<le> n \<and> n - 8 < 8) \<or> (16 \<le> n \<and> n - 16 < 8) \<or> (24 \<le> n \<and> n - 24 < 8)"
    for n :: nat by linarith
  show ?thesis
    unfolding word32_def bytes32_def
    by (rule bit_word_eqI) (auto simp: bit_or_iff bit_push_bit_iff bit_ucast_iff bit_drop_bit_eq,
        metis le_add_diff_inverse split)
qed

lemma length_put32: "4 * i + 4 \<le> length b \<Longrightarrow> length (put32 b i w) = length b"
  by (simp add: put32_def)

lemma get32_put32_same: "4 * i + 4 \<le> length b \<Longrightarrow> get32 (put32 b i w) i = w"
  by (simp add: get32_def put32_def)

lemma get32_put32_other:
  assumes "4 * i + 4 \<le> length b" "i \<noteq> j"
  shows "get32 (put32 b i w) j = get32 b j"
proof (cases "j < i")
  case True
  then have "4 \<le> 4 * i - 4 * j" by linarith
  with True have "take 4 (drop (4 * j) (put32 b i w)) = take 4 (drop (4 * j) b)"
    using assms(1) by (simp add: put32_def drop_take min_def)
  then show ?thesis by (simp add: get32_def)
next
  case False
  with assms(2) obtain d where j: "j = Suc (i + d)" by (metis less_imp_Suc_add linorder_neqE_nat)
  have "drop (4 * j) (put32 b i w) = drop (4 * j) b"
    using assms(1) by (simp add: put32_def j ac_simps)
  then show ?thesis by (simp add: get32_def)
qed

lemma get32_put32:
  "4 * i + 4 \<le> length b \<Longrightarrow> get32 (put32 b i w) j = (if i = j then w else get32 b j)"
  by (simp add: get32_put32_same get32_put32_other)

text \<open>Storing an int in a word and reading it back.\<close>

lemma sint_word_of_int_s32: "is_s32 v \<Longrightarrow> sint (word_of_int v :: u32) = v"
  by (simp add: is_s32_def signed_take_bit_int_eq_self signed_of_int)

subsection \<open>Parts of a block\<close>

definition slice :: "nat \<Rightarrow> nat \<Rightarrow> 'a list \<Rightarrow> 'a list" where
  "slice off n d = take n (drop off d)"

text \<open>The list with the bytes from \<open>off\<close> on replaced.\<close>

definition splice :: "nat \<Rightarrow> 'a list \<Rightarrow> 'a list \<Rightarrow> 'a list" where
  "splice off bs d = take off d @ bs @ drop (off + length bs) d"

lemma length_splice [simp]: "off + length bs \<le> length d \<Longrightarrow> length (splice off bs d) = length d"
  by (simp add: splice_def)

lemma nth_splice:
  assumes "off + length bs \<le> length d" "k < length d"
  shows "splice off bs d ! k = (if off \<le> k \<and> k < off + length bs then bs ! (k - off) else d ! k)"
proof -
  consider "k < off" | "off \<le> k" "k < off + length bs" | "off + length bs \<le> k" by linarith
  then show ?thesis
  proof cases
    case 3
    then obtain j where k: "k = off + length bs + j" by (metis le_iff_add)
    with assms have "drop (off + length bs) d ! j = d ! k" by simp
    with k assms show ?thesis by (simp add: splice_def nth_append)
  qed (use assms in \<open>auto simp: splice_def nth_append\<close>)
qed

lemma length_slice [simp]: "off + n \<le> length d \<Longrightarrow> length (slice off n d) = n"
  by (simp add: slice_def)

lemma nth_slice: "k < n \<Longrightarrow> off + n \<le> length d \<Longrightarrow> slice off n d ! k = d ! (off + k)"
  by (simp add: slice_def)

lemma slice_splice_same: "off + length bs \<le> length d \<Longrightarrow> n = length bs \<Longrightarrow> slice off n (splice off bs d) = bs"
  by (simp add: slice_def splice_def)

lemma slice_splice_other:
  assumes "off + length bs \<le> length d" "p + n \<le> length d" "p + n \<le> off \<or> off + length bs \<le> p"
  shows "slice p n (splice off bs d) = slice p n d"
proof (rule nth_equalityI)
  fix k assume "k < length (slice p n (splice off bs d))"
  then have "k < n" using assms by simp
  then show "slice p n (splice off bs d) ! k = slice p n d ! k" using assms by (auto simp: nth_slice nth_splice)
qed (use assms in simp)

lemma put32_splice: "put32 b i w = splice (4 * i) (bytes32 w) b"
  by (simp add: put32_def splice_def)

lemma get32_slice: "get32 b i = word32 (slice (4 * i) 4 b)"
  by (simp add: get32_def slice_def)

subsection \<open>16-bit words\<close>

definition bytes16 :: "u16 \<Rightarrow> u8 list" where
  "bytes16 w = [ucast w, ucast (drop_bit 8 w)]"

definition word16 :: "u8 list \<Rightarrow> u16" where
  "word16 bs = ucast (bs ! 0) OR push_bit 8 (ucast (bs ! 1))"

lemma length_bytes16 [simp]: "length (bytes16 w) = 2"
  by (simp add: bytes16_def)

lemma word16_bytes16 [simp]: "word16 (bytes16 w) = w"
proof -
  have split: "n < 16 \<Longrightarrow> n < 8 \<or> (8 \<le> n \<and> n - 8 < 8)" for n :: nat by linarith
  show ?thesis
    unfolding word16_def bytes16_def
    by (rule bit_word_eqI) (use split in \<open>fastforce simp: bit_or_iff bit_push_bit_iff bit_ucast_iff bit_drop_bit_eq\<close>)
qed

lemma bytes16_word16: "length bs = 2 \<Longrightarrow> bytes16 (word16 bs) = bs"
proof -
  assume l: "length bs = 2"
  then obtain a b where bs: "bs = [a, b]" by (metis (no_types, opaque_lifting) One_nat_def Suc_1 length_0_conv length_Suc_conv)
  have "ucast (ucast a OR push_bit 8 (ucast b) :: u16) = a" "ucast (drop_bit 8 (ucast a OR push_bit 8 (ucast b) :: u16)) = b"
    by (rule bit_word_eqI; auto simp: bit_or_iff bit_push_bit_iff bit_ucast_iff bit_drop_bit_eq dest: bit_imp_le_length)+
  then show ?thesis by (simp add: bytes16_def word16_def bs)
qed

definition is_s16 :: "int \<Rightarrow> bool" where
  "is_s16 v \<longleftrightarrow> -32768 \<le> v \<and> v < 32768"

lemma sint_word_of_int_s16: "is_s16 v \<Longrightarrow> sint (word_of_int v :: u16) = v"
  by (simp add: is_s16_def signed_take_bit_int_eq_self signed_of_int)

end
