(* ===== verification/Log.thy ===== *)
theory Log
  imports Block
begin

text \<open>
  The write-ahead log of the file system (log.c). Its state holds the log header kept in memory,
  the modified blocks that the buffer cache pins until they are committed (\<open>dirty\<close>), the disk and
  the disk writes in the order they reach it. Reading a block gives the pinned copy if there is
  one and the disk's otherwise; the other cached copies agree with the disk. The lock makes
  begin_op, log_write and the first part of end_op atomic; while a commit runs, \<open>committing\<close> keeps
  every other operation out.
\<close>

subsection \<open>Operations\<close>

abbreviation MAXOPBLOCKS :: int where
  "MAXOPBLOCKS \<equiv> 10"

abbreviation LOGSIZE :: int where
  "LOGSIZE \<equiv> 30"

record fslog =
  lg_start :: int
  lg_size :: int
  outstanding :: int
  committing :: int
  lh_n :: int
  lh_block :: "int list"
  dirty :: "int \<Rightarrow> block option"
  disk :: "int \<Rightarrow> block"
  dtrace :: "(int \<times> block) list"

definition bread_data :: "fslog \<Rightarrow> int \<Rightarrow> block" where
  "bread_data s b = (case dirty s b of Some d \<Rightarrow> d | None \<Rightarrow> disk s b)"

text \<open>A buffer written to disk is clean again.\<close>

definition bwrite_data :: "int \<Rightarrow> block \<Rightarrow> fslog \<Rightarrow> fslog" where
  "bwrite_data b d s = s\<lparr>dirty := (dirty s)(b := None), disk := (disk s)(b := d), dtrace := dtrace s @ [(b, d)]\<rparr>"

definition install_one :: "nat \<Rightarrow> fslog \<Rightarrow> fslog res" where
  "install_one tail s =
     (let lbuf = bread_data s (lg_start s + int tail + 1) in
      bindR (array_get (lh_block s) (int tail)) (\<lambda>dst. Inr (bwrite_data dst lbuf s)))"

definition install_trans :: "fslog \<Rightarrow> fslog res" where
  "install_trans s = forR [0..<nat (lh_n s)] install_one s"

definition read_entry :: "block \<Rightarrow> nat \<Rightarrow> fslog \<Rightarrow> fslog res" where
  "read_entry hb i s =
     bindR (array_set (lh_block s) (int i) (sint (get32 hb (Suc i)))) (\<lambda>bl. Inr (s\<lparr>lh_block := bl\<rparr>))"

definition read_head :: "fslog \<Rightarrow> fslog res" where
  "read_head s =
     (let hb = bread_data s (lg_start s);
          s = s\<lparr>lh_n := sint (get32 hb 0)\<rparr>
      in forR [0..<nat (lh_n s)] (read_entry hb) s)"

fun put_entries :: "nat list \<Rightarrow> int list \<Rightarrow> block \<Rightarrow> block res" where
  "put_entries [] bl hb = Inr hb"
| "put_entries (i # is) bl hb =
     bindR (array_get bl (int i)) (\<lambda>v. put_entries is bl (put32 hb (Suc i) (word_of_int v)))"

definition write_head :: "fslog \<Rightarrow> fslog res" where
  "write_head s =
     (let hb = put32 (bread_data s (lg_start s)) 0 (word_of_int (lh_n s)) in
      bindR (put_entries [0..<nat (lh_n s)] (lh_block s) hb) (\<lambda>hb. Inr (bwrite_data (lg_start s) hb s)))"

definition recover_from_log :: "fslog \<Rightarrow> fslog res" where
  "recover_from_log s =
     bindR (read_head s) (\<lambda>s. bindR (install_trans s) (\<lambda>s. write_head (s\<lparr>lh_n := 0\<rparr>)))"

text \<open>The log header needs 124 bytes; the superblock is read by the caller's readsb.\<close>

definition initlog :: "int \<Rightarrow> int \<Rightarrow> fslog \<Rightarrow> fslog res" where
  "initlog logstart nlog s =
     (if (4 * (1 + nat LOGSIZE)) \<ge> BSIZE then Inl (Panic ''initlog: too big logheader'')
      else recover_from_log (s\<lparr>lg_start := logstart, lg_size := nlog\<rparr>))"

text \<open>None: the caller sleeps on the log and tries again when it is woken.\<close>

definition begin_op :: "fslog \<Rightarrow> fslog option" where
  "begin_op s =
     (if committing s \<noteq> 0 then None
      else if lh_n s + (outstanding s + 1) * MAXOPBLOCKS > LOGSIZE then None
      else Some (s\<lparr>outstanding := outstanding s + 1\<rparr>))"

definition write_one :: "nat \<Rightarrow> fslog \<Rightarrow> fslog res" where
  "write_one tail s =
     bindR (array_get (lh_block s) (int tail)) (\<lambda>src.
       Inr (bwrite_data (lg_start s + int tail + 1) (bread_data s src) s))"

definition write_log :: "fslog \<Rightarrow> fslog res" where
  "write_log s = forR [0..<nat (lh_n s)] write_one s"

definition commit :: "fslog \<Rightarrow> fslog res" where
  "commit s =
     (if lh_n s > 0
      then bindR (write_log s) (\<lambda>s. bindR (write_head s) (\<lambda>s. bindR (install_trans s) (\<lambda>s.
             write_head (s\<lparr>lh_n := 0\<rparr>))))
      else Inr s)"

text \<open>
  The second component tells that processes sleeping on the log are woken, which both branches do:
  after the commit, or because the reservation of the finished operation is free again.
\<close>

definition end_op :: "fslog \<Rightarrow> (fslog \<times> bool) res" where
  "end_op s =
     (let s = s\<lparr>outstanding := outstanding s - 1\<rparr> in
      if committing s \<noteq> 0 then Inl (Panic ''log.committing'')
      else if outstanding s = 0
      then bindR (commit (s\<lparr>committing := 1\<rparr>)) (\<lambda>s. Inr (s\<lparr>committing := 0\<rparr>, True))
      else Inr (s, True))"

text \<open>The buffer that log_write is given: its block number and the data the caller has put in it.\<close>

definition log_write :: "int \<Rightarrow> block \<Rightarrow> fslog \<Rightarrow> fslog res" where
  "log_write blockno d s =
     (if lh_n s \<ge> LOGSIZE \<or> lh_n s \<ge> lg_size s - 1 then Inl (Panic ''too big a transaction'')
      else if outstanding s < 1 then Inl (Panic ''log_write outside of trans'')
      else let i = (case scan_from (\<lambda>b. b = blockno) 0 (take (nat (lh_n s)) (lh_block s)) of
                      Some i \<Rightarrow> int i | None \<Rightarrow> lh_n s) in
           bindR (array_set (lh_block s) i blockno) (\<lambda>bl.
             Inr (s\<lparr>lh_block := bl, lh_n := (if i = lh_n s then lh_n s + 1 else lh_n s),
                    dirty := (dirty s)(blockno := Some d)\<rparr>)))"

subsection \<open>Invariants\<close>

text \<open>
  The blocks of the current transaction, and the part of the disk the log occupies: the
  superblock's nlog blocks from logstart on, which are 30 blocks from block 2 on a disk made by
  mkfs, so that block 32, the first block of inodes, is already an ordinary block. Between
  commits the header on disk says that nothing is to be installed, and exactly the transaction's
  blocks are pinned.
\<close>

definition tx_blocks :: "fslog \<Rightarrow> int list" where
  "tx_blocks s = take (nat (lh_n s)) (lh_block s)"

definition log_area :: "fslog \<Rightarrow> int set" where
  "log_area s = {lg_start s..<lg_start s + lg_size s}"

definition log_wf :: "fslog \<Rightarrow> bool" where
  "log_wf s \<longleftrightarrow> length (lh_block s) = 30 \<and> 0 \<le> lh_n s \<and> lh_n s \<le> 30 \<and> lh_n s < lg_size s \<and> distinct (tx_blocks s) \<and>
     (\<forall>b \<in> set (tx_blocks s). is_s32 b \<and> b \<notin> log_area s) \<and> length (disk s (lg_start s)) = BSIZE \<and>
     (\<forall>b \<in> log_area s. dirty s b = None)"

definition log_idle :: "fslog \<Rightarrow> bool" where
  "log_idle s \<longleftrightarrow> log_wf s \<and> sint (get32 (disk s (lg_start s)) 0) = 0 \<and>
     (\<forall>b. dirty s b \<noteq> None \<longleftrightarrow> b \<in> set (tx_blocks s))"

subsection \<open>Runs of disk writes\<close>

definition apply_writes :: "(int \<Rightarrow> block) \<Rightarrow> (int \<times> block) list \<Rightarrow> int \<Rightarrow> block" where
  "apply_writes D ws = fold (\<lambda>(b, d) D. D(b := d)) ws D"

lemma apply_writes_simps [simp]:
  "apply_writes D [] = D" "apply_writes D (ws @ vs) = apply_writes (apply_writes D ws) vs"
  "apply_writes D ((b, d) # ws) = apply_writes (D(b := d)) ws"
  by (simp_all add: apply_writes_def)

lemma apply_writes_other: "b \<notin> fst ` set ws \<Longrightarrow> apply_writes D ws b = D b"
  by (induction ws arbitrary: D) auto

lemma apply_writes_in: "distinct (map fst ws) \<Longrightarrow> (b, d) \<in> set ws \<Longrightarrow> apply_writes D ws b = d"
proof (induction ws arbitrary: D)
  case (Cons w ws)
  obtain b' d' where w: "w = (b', d')" by (cases w)
  show ?case
  proof (cases "(b, d) = w")
    case True
    then have "b \<notin> fst ` set ws" using Cons.prems(1) w by simp
    then show ?thesis using True w by (simp add: apply_writes_other)
  next
    case False
    with Cons.prems w have "distinct (map fst ws)" "(b, d) \<in> set ws" by auto
    with Cons.IH w show ?thesis by simp
  qed
qed simp

definition written :: "(int \<times> block) list \<Rightarrow> fslog \<Rightarrow> fslog" where
  "written ws s = s\<lparr>dirty := (\<lambda>b. if b \<in> fst ` set ws then None else dirty s b),
     disk := apply_writes (disk s) ws, dtrace := dtrace s @ ws\<rparr>"

lemma written_fields [simp]:
  "lg_start (written ws s) = lg_start s" "lg_size (written ws s) = lg_size s" "lh_n (written ws s) = lh_n s"
  "lh_block (written ws s) = lh_block s" "disk (written ws s) = apply_writes (disk s) ws"
  "dtrace (written ws s) = dtrace s @ ws" "outstanding (written ws s) = outstanding s"
  "committing (written ws s) = committing s"
  "dirty (written ws s) b = (if b \<in> fst ` set ws then None else dirty s b)"
  by (simp_all add: written_def)

lemma written_Nil: "written [] s = s"
  by (simp add: written_def)

lemma written_append: "written vs (written ws s) = written (ws @ vs) s"
  by (rule fslog.equality) (auto intro!: ext)

lemma bwrite_written: "bwrite_data b d s = written [(b, d)] s"
  by (rule fslog.equality) (auto simp: bwrite_data_def intro!: ext)

lemma bread_written: "b \<notin> fst ` set ws \<Longrightarrow> bread_data (written ws s) b = bread_data s b"
  by (simp add: bread_data_def apply_writes_other split: option.split)

text \<open>The writes of the three loops.\<close>

definition log_writes :: "fslog \<Rightarrow> nat \<Rightarrow> (int \<times> block) list" where
  "log_writes s k = map (\<lambda>i. (lg_start s + int i + 1, bread_data s (lh_block s ! i))) [0..<k]"

definition home_writes :: "fslog \<Rightarrow> nat \<Rightarrow> (int \<times> block) list" where
  "home_writes s k = map (\<lambda>i. (lh_block s ! i, bread_data s (lg_start s + int i + 1))) [0..<k]"

lemma tx_nth: "log_wf s \<Longrightarrow> i < nat (lh_n s) \<Longrightarrow> lh_block s ! i \<in> set (tx_blocks s)"
  by (auto simp: log_wf_def tx_blocks_def in_set_conv_nth intro!: exI [of _ i])

lemma log_wf_size: "log_wf s \<Longrightarrow> 0 < lg_size s \<and> int (nat (lh_n s)) < lg_size s"
  by (auto simp: log_wf_def)

lemma lg_start_area: "log_wf s \<Longrightarrow> lg_start s \<in> log_area s"
  using log_wf_size by (simp add: log_area_def)

lemma tx_outside: "log_wf s \<Longrightarrow> i < nat (lh_n s) \<Longrightarrow> lh_block s ! i \<notin> log_area s"
  using tx_nth [of s i] by (auto simp: log_wf_def)

lemma log_writes_area: "b \<in> fst ` set (log_writes s k) \<Longrightarrow> int k < lg_size s \<Longrightarrow> b \<in> log_area s \<and> b \<noteq> lg_start s"
  by (auto simp: log_writes_def log_area_def)

lemma home_writes_tx: "log_wf s \<Longrightarrow> k \<le> nat (lh_n s) \<Longrightarrow> b \<in> fst ` set (home_writes s k) \<Longrightarrow> b \<notin> log_area s"
  using tx_outside by (auto simp: home_writes_def)

lemma write_log_eq:
  assumes "log_wf s" "k \<le> nat (lh_n s)"
  shows "forR [0..<k] write_one s = Inr (written (log_writes s k) s)"
  using assms(2)
proof (induction k)
  case 0
  then show ?case by (simp add: log_writes_def written_Nil)
next
  case (Suc k)
  have k: "k < length (lh_block s)" "int k < lg_size s" using assms(1) Suc.prems by (auto simp: log_wf_def)
  have "lh_block s ! k \<notin> fst ` set (log_writes s k)"
    using tx_outside [OF assms(1)] Suc.prems log_writes_area [of _ s k] k(2) by fastforce
  then have "write_one k (written (log_writes s k) s) = Inr (written (log_writes s (Suc k)) s)"
    using k by (simp add: write_one_def array_get_def bread_written bwrite_written written_append log_writes_def)
  with Suc show ?case by (simp add: forR_append)
qed

lemma install_eq:
  assumes "log_wf s" "k \<le> nat (lh_n s)"
  shows "forR [0..<k] install_one s = Inr (written (home_writes s k) s)"
  using assms(2)
proof (induction k)
  case 0
  then show ?case by (simp add: home_writes_def written_Nil)
next
  case (Suc k)
  have k: "k < length (lh_block s)" "int k + 1 < lg_size s" using assms(1) Suc.prems by (auto simp: log_wf_def)
  have "lg_start s + int k + 1 \<notin> fst ` set (home_writes s k)"
    using home_writes_tx [OF assms(1), of k "lg_start s + int k + 1"] Suc.prems k(2) by (auto simp: log_area_def)
  then have "install_one k (written (home_writes s k) s) = Inr (written (home_writes s (Suc k)) s)"
    using k by (simp add: install_one_def array_get_def bread_written bwrite_written written_append home_writes_def Let_def)
  with Suc show ?case by (simp add: forR_append)
qed

text \<open>The header block that write_head produces.\<close>

lemma put_entries_eq:
  assumes "n \<le> 30" "n \<le> length bl" "length hb = BSIZE"
  shows "\<exists>h. put_entries [m..<n] bl hb = Inr h \<and> length h = BSIZE \<and>
    (\<forall>j. get32 h j = (if m < j \<and> j \<le> n then word_of_int (bl ! (j - 1)) else get32 hb j))"
  using assms
proof (induction "n - m" arbitrary: m hb)
  case 0
  then show ?case by auto
next
  case (Suc d)
  then have m: "m < n" by linarith
  let ?hb = "put32 hb (Suc m) (word_of_int (bl ! m))"
  have l: "length ?hb = BSIZE" using Suc.prems m by (simp add: length_put32)
  obtain h where h: "put_entries [Suc m..<n] bl ?hb = Inr h" "length h = BSIZE"
    "\<forall>j. get32 h j = (if Suc m < j \<and> j \<le> n then word_of_int (bl ! (j - 1)) else get32 ?hb j)"
    using Suc.hyps(1) [of "Suc m" ?hb] Suc.hyps(2) Suc.prems(1,2) l by (metis diff_Suc diff_Suc_1 nat.case(2))
  have "get32 ?hb j = (if j = Suc m then word_of_int (bl ! m) else get32 hb j)" for j
    using Suc.prems m by (simp add: get32_put32)
  with h have "\<forall>j. get32 h j = (if m < j \<and> j \<le> n then word_of_int (bl ! (j - 1)) else get32 hb j)"
    using m by auto
  moreover have "[m..<n] = m # [Suc m..<n]" using m by (simp add: upt_conv_Cons)
  ultimately show ?case using h m Suc.prems by (simp add: array_get_def)
qed

definition is_head :: "block \<Rightarrow> int list \<Rightarrow> bool" where
  "is_head h bl \<longleftrightarrow> length h = BSIZE \<and> sint (get32 h 0) = int (length bl) \<and>
     (\<forall>i < length bl. sint (get32 h (Suc i)) = bl ! i)"

lemma write_head_eq:
  assumes "log_wf s" "length (bread_data s (lg_start s)) = BSIZE"
  shows "\<exists>h. write_head s = Inr (written [(lg_start s, h)] s) \<and> is_head h (tx_blocks s)"
proof -
  let ?hb = "put32 (bread_data s (lg_start s)) 0 (word_of_int (lh_n s))"
  have n: "nat (lh_n s) \<le> 30" "nat (lh_n s) \<le> length (lh_block s)" "0 \<le> lh_n s" "length (lh_block s) = 30"
    using assms(1) by (auto simp: log_wf_def)
  have l: "length ?hb = BSIZE" using assms(2) by (simp add: length_put32)
  from put_entries_eq [OF n(1,2) l, of 0] obtain h where h: "put_entries [0..<nat (lh_n s)] (lh_block s) ?hb = Inr h"
    "length h = BSIZE" and g: "\<And>j. get32 h j = (if 0 < j \<and> j \<le> nat (lh_n s) then word_of_int (lh_block s ! (j - 1)) else get32 ?hb j)"
    by blast
  have "sint (get32 h 0) = lh_n s"
    using g [of 0] assms(2) n by (simp add: get32_put32 sint_word_of_int_s32 is_s32_def)
  moreover have "sint (get32 h (Suc i)) = lh_block s ! i" if "i < nat (lh_n s)" for i
  proof -
    have "is_s32 (lh_block s ! i)" using tx_nth [OF assms(1) that] assms(1) by (simp add: log_wf_def)
    then show ?thesis using g [of "Suc i"] that by (simp add: sint_word_of_int_s32)
  qed
  ultimately have "is_head h (tx_blocks s)" using h(2) n by (simp add: is_head_def tx_blocks_def)
  with h(1) show ?thesis by (auto simp: write_head_def bwrite_written)
qed

subsection \<open>Recovery\<close>

text \<open>What memory holds after a restart: nothing but the geometry of the log.\<close>

definition reboot :: "fslog \<Rightarrow> (int \<Rightarrow> block) \<Rightarrow> fslog" where
  "reboot s D = s\<lparr>outstanding := 0, committing := 0, lh_n := 0, lh_block := replicate 30 0,
     dirty := (\<lambda>_. None), disk := D, dtrace := []\<rparr>"

lemma reboot_fields [simp]:
  "lg_start (reboot s D) = lg_start s" "lg_size (reboot s D) = lg_size s" "disk (reboot s D) = D" "lh_block (reboot s D) = replicate 30 0"
  "dtrace (reboot s D) = []" "dirty (reboot s D) = (\<lambda>_. None)" "outstanding (reboot s D) = 0"
  "committing (reboot s D) = 0"
  by (simp_all add: reboot_def)

definition rec_ok :: "int \<Rightarrow> int \<Rightarrow> (int \<Rightarrow> block) \<Rightarrow> int list \<Rightarrow> bool" where
  "rec_ok a m D bl \<longleftrightarrow> is_head (D a) bl \<and> length bl \<le> 30 \<and> int (length bl) < m \<and> distinct bl \<and>
     (\<forall>b \<in> set bl. is_s32 b \<and> b \<notin> {a..<a + m})"

definition homes :: "int \<Rightarrow> (int \<Rightarrow> block) \<Rightarrow> int list \<Rightarrow> (int \<times> block) list" where
  "homes a D bl = map (\<lambda>i. (bl ! i, D (a + int i + 1))) [0..<length bl]"

lemma fst_homes: "map fst (homes a D bl) = bl"
  by (simp add: homes_def o_def map_nth)

lemma fst_homes_set: "fst ` set (homes a D bl) = set bl"
  using arg_cong [OF fst_homes, of set a D bl] by simp

lemma read_entries_eq:
  assumes "is_head hb bl" "k \<le> length bl" "length bl \<le> 30" "lh_block s = replicate 30 0"
  shows "forR [0..<k] (read_entry hb) s = Inr (s\<lparr>lh_block := take k bl @ replicate (30 - k) 0\<rparr>)"
  using assms(2)
proof (induction k)
  case 0
  then show ?case using assms(4) by simp
next
  case (Suc k)
  have "(take k bl @ replicate (30 - k) (0 :: int))[k := bl ! k] = take (Suc k) bl @ replicate (30 - Suc k) 0"
  proof -
    obtain d where d: "30 - k = Suc d" "30 - Suc k = d"
      using Suc.prems assms(3) by (metis Suc_diff_le Suc_le_lessD diff_Suc_Suc dual_order.trans less_eq_Suc_le)
    show ?thesis using Suc.prems unfolding d by (simp add: list_update_append take_Suc_conv_app_nth min_def)
  qed
  moreover have "sint (get32 hb (Suc k)) = bl ! k" using assms(1) Suc.prems by (simp add: is_head_def)
  ultimately have "read_entry hb k (s\<lparr>lh_block := take k bl @ replicate (30 - k) 0\<rparr>) =
      Inr (s\<lparr>lh_block := take (Suc k) bl @ replicate (30 - Suc k) 0\<rparr>)"
    using Suc.prems assms(3) by (simp add: read_entry_def array_set_def)
  with Suc show ?case by (simp add: forR_append)
qed

lemma recover_eq:
  assumes "rec_ok (lg_start s) (lg_size s) D bl"
  shows "\<exists>r h. recover_from_log (reboot s D) = Inr r \<and> dtrace r = homes (lg_start s) D bl @ [(lg_start s, h)] \<and>
    is_head h [] \<and> disk r = apply_writes D (dtrace r) \<and> lg_start r = lg_start s"
proof -
  let ?a = "lg_start s" and ?s = "reboot s D"
  have hd: "is_head (D ?a) bl" "length bl \<le> 30" using assms by (simp_all add: rec_ok_def)
  let ?t = "?s\<lparr>lh_n := int (length bl), lh_block := bl @ replicate (30 - length bl) 0\<rparr>"
  have rd: "read_head ?s = Inr ?t"
    using read_entries_eq [OF hd(1) order_refl hd(2), of "?s\<lparr>lh_n := int (length bl)\<rparr>"] hd
    by (simp add: read_head_def bread_data_def is_head_def Let_def)
  have wf: "log_wf ?t" and tx: "tx_blocks ?t = bl"
    using assms by (auto simp: log_wf_def tx_blocks_def rec_ok_def log_area_def is_head_def)
  have hw: "home_writes ?t (length bl) = homes ?a D bl"
    by (simp add: home_writes_def homes_def bread_data_def nth_append)
  let ?u = "written (homes ?a D bl) ?t"
  have ins: "install_trans ?t = Inr ?u"
    using install_eq [OF wf, of "length bl"] hw by (simp add: install_trans_def)
  have "?a \<notin> set bl" using assms by (auto simp: rec_ok_def)
  then have da: "disk ?u ?a = D ?a" by (simp add: apply_writes_other fst_homes_set)
  have "log_wf (?u\<lparr>lh_n := 0\<rparr>)" "length (bread_data (?u\<lparr>lh_n := 0\<rparr>) ?a) = BSIZE"
    using hd da wf by (auto simp: log_wf_def tx_blocks_def log_area_def is_head_def bread_data_def)
  from write_head_eq [OF this(1)] this(2) obtain h where
    h: "write_head (?u\<lparr>lh_n := 0\<rparr>) = Inr (written [(?a, h)] (?u\<lparr>lh_n := 0\<rparr>))" "is_head h []"
    by (auto simp: tx_blocks_def)
  from rd ins h show ?thesis by (simp add: recover_from_log_def)
qed

text \<open>The disk that recovery leaves, outside the log.\<close>

definition after_recovery :: "int \<Rightarrow> (int \<Rightarrow> block) \<Rightarrow> int list \<Rightarrow> int \<Rightarrow> block" where
  "after_recovery a D bl = apply_writes D (homes a D bl)"

lemma after_recovery_in:
  assumes "distinct bl" "i < length bl"
  shows "after_recovery a D bl (bl ! i) = D (a + int i + 1)"
  unfolding after_recovery_def
proof (rule apply_writes_in)
  show "distinct (map fst (homes a D bl))" using assms(1) by (simp only: fst_homes)
  show "(bl ! i, D (a + int i + 1)) \<in> set (homes a D bl)" using assms(2) by (auto simp: homes_def)
qed

lemma after_recovery_out: "b \<notin> set bl \<Longrightarrow> after_recovery a D bl b = D b"
  by (simp add: after_recovery_def apply_writes_other fst_homes_set)

text \<open>A disk that agrees on the log and on every block that is not to be installed recovers alike.\<close>

lemma after_recovery_cong:
  assumes "distinct bl" "int (length bl) < m" "\<And>b. b \<in> {a..<a + m} \<Longrightarrow> D' b = D b"
    "\<And>b. b \<notin> set bl \<Longrightarrow> b \<notin> {a..<a + m} \<Longrightarrow> D' b = D b"
  shows "b \<notin> {a..<a + m} \<Longrightarrow> after_recovery a D' bl b = after_recovery a D bl b"
proof (cases "b \<in> set bl")
  case True
  then obtain i where i: "i < length bl" "b = bl ! i" by (auto simp: in_set_conv_nth)
  have "D' (a + int i + 1) = D (a + int i + 1)" using i(1) assms(2) by (intro assms(3)) auto
  with i assms(1) show ?thesis by (simp add: after_recovery_in)
next
  case False
  assume "b \<notin> {a..<a + m}"
  with False assms(4) show ?thesis by (simp add: after_recovery_out)
qed

subsection \<open>The writes of a commit\<close>

definition tx_writes :: "fslog \<Rightarrow> (int \<times> block) list" where
  "tx_writes s = map (\<lambda>b. (b, bread_data s b)) (tx_blocks s)"

lemma fst_tx_writes: "fst ` set (tx_writes s) = set (tx_blocks s)"
  by (auto simp: tx_writes_def image_image)

lemma length_tx: "log_wf s \<Longrightarrow> length (tx_blocks s) = nat (lh_n s)"
  by (auto simp: log_wf_def tx_blocks_def)

lemma log_wf_written:
  assumes "log_wf s" "length (disk (written ws s) (lg_start s)) = BSIZE"
  shows "log_wf (written ws s)"
  using assms by (auto simp: log_wf_def tx_blocks_def log_area_def)

lemma written_area: "log_wf s \<Longrightarrow> b \<in> log_area s \<Longrightarrow> bread_data (written ws s) b = apply_writes (disk s) ws b"
  by (simp add: bread_data_def log_wf_def)

lemma log_writes_read:
  assumes "i < k"
  shows "apply_writes (disk s) (log_writes s k) (lg_start s + int i + 1) = bread_data s (lh_block s ! i)"
proof (rule apply_writes_in)
  show "distinct (map fst (log_writes s k))" by (simp add: log_writes_def distinct_map inj_on_def)
  show "(lg_start s + int i + 1, bread_data s (lh_block s ! i)) \<in> set (log_writes s k)"
    using assms by (auto simp: log_writes_def)
qed

lemma home_writes_logged:
  assumes "log_wf s"
  shows "home_writes (written (log_writes s (nat (lh_n s)) @ [(lg_start s, h)]) s) (nat (lh_n s)) = tx_writes s"
proof (rule nth_equalityI)
  let ?n = "nat (lh_n s)" and ?ws = "log_writes s (nat (lh_n s)) @ [(lg_start s, h)]"
  have nsz: "int ?n < lg_size s" using assms by (auto simp: log_wf_def)
  show "length (home_writes (written ?ws s) ?n) = length (tx_writes s)"
    using assms by (simp add: home_writes_def tx_writes_def length_tx)
  fix i
  assume "i < length (home_writes (written ?ws s) ?n)"
  then have i: "i < ?n" by (simp add: home_writes_def)
  then have "lg_start s + int i + 1 \<in> log_area s" using nsz unfolding log_area_def atLeastLessThan_iff by linarith
  then have "bread_data (written ?ws s) (lg_start s + int i + 1) = bread_data s (lh_block s ! i)"
    using i by (simp add: written_area [OF assms] log_writes_read)
  then show "home_writes (written ?ws s) ?n ! i = tx_writes s ! i"
    using i length_tx [OF assms] by (simp add: home_writes_def tx_writes_def tx_blocks_def)
qed

lemma commit_eq:
  assumes "log_wf s" "0 < lh_n s"
  shows "\<exists>r h h0. commit s = Inr r \<and> is_head h (tx_blocks s) \<and> is_head h0 [] \<and>
    r = (written (log_writes s (nat (lh_n s)) @ [(lg_start s, h)] @ tx_writes s @ [(lg_start s, h0)]) s)\<lparr>lh_n := 0\<rparr>"
proof -
  let ?n = "nat (lh_n s)" and ?a = "lg_start s"
  let ?s1 = "written (log_writes s ?n) s"
  have nsz: "int ?n < lg_size s" using assms(1) by (auto simp: log_wf_def)
  have a: "?a \<in> log_area s" using assms(1) by (rule lg_start_area)
  have a_out: "?a \<notin> fst ` set (log_writes s ?n)" "?a \<notin> fst ` set (tx_writes s)"
    using log_writes_area [OF _ nsz, of ?a] assms(1) a unfolding fst_tx_writes by (auto simp: log_wf_def)
  have w1: "write_log s = Inr ?s1" using write_log_eq [OF assms(1) order_refl] by (simp add: write_log_def)
  have l1: "length (disk ?s1 ?a) = BSIZE" using assms(1) a_out by (simp add: apply_writes_other log_wf_def)
  have wf1: "log_wf ?s1" using log_wf_written [OF assms(1) l1] .
  have "bread_data ?s1 ?a = disk ?s1 ?a" using written_area [OF assms(1) a] by simp
  with write_head_eq [OF wf1] l1 obtain h where
    h: "write_head ?s1 = Inr (written [(?a, h)] ?s1)" "is_head h (tx_blocks s)"
    by (auto simp: tx_blocks_def)
  let ?ws = "log_writes s ?n @ [(?a, h)]"
  have l2: "length (disk (written ?ws s) ?a) = BSIZE" using h(2) by (simp add: is_head_def)
  have wf2: "log_wf (written ?ws s)" using log_wf_written [OF assms(1) l2] .
  have w2: "install_trans (written ?ws s) = Inr (written (?ws @ tx_writes s) s)"
    using install_eq [OF wf2, of ?n] by (simp add: install_trans_def home_writes_logged [OF assms(1)] written_append)
  let ?s3 = "(written (?ws @ tx_writes s) s)\<lparr>lh_n := 0\<rparr>"
  have l3: "length (disk ?s3 ?a) = BSIZE" using l2 a_out by (simp add: apply_writes_other)
  have "log_wf ?s3" using assms(1) l3 by (auto simp: log_wf_def tx_blocks_def log_area_def)
  moreover have "bread_data ?s3 ?a = disk ?s3 ?a"
    using assms(1) a by (simp add: bread_data_def log_wf_def)
  ultimately obtain h0 where h0: "write_head ?s3 = Inr (written [(?a, h0)] ?s3)" "is_head h0 []"
    using write_head_eq [of ?s3] l3 by (auto simp: tx_blocks_def)
  have "written [(?a, h0)] ?s3 = (written (?ws @ tx_writes s @ [(?a, h0)]) s)\<lparr>lh_n := 0\<rparr>"
    by (rule fslog.equality) auto
  with w1 h w2 h0 assms(2) show ?thesis by (auto simp: commit_def written_append)
qed

subsection \<open>Crashes\<close>

lemma is_head_Nil: "is_head h [] \<longleftrightarrow> length h = BSIZE \<and> sint (get32 h 0) = 0"
  by (simp add: is_head_def)

lemma rec_ok_Nil: "rec_ok a m D [] \<longleftrightarrow> is_head (D a) [] \<and> 0 < m"
  by (simp add: rec_ok_def)

lemma after_recovery_Nil [simp]: "after_recovery a D [] = D"
  by (simp add: after_recovery_def homes_def)

text \<open>Recovery of a well-formed disk, seen from outside the log.\<close>

lemma recover_disk:
  assumes "rec_ok (lg_start s) (lg_size s) D bl"
  shows "\<exists>r. recover_from_log (reboot s D) = Inr r \<and>
    (\<forall>b. b \<notin> log_area s \<longrightarrow> disk r b = after_recovery (lg_start s) D bl b)"
proof -
  have "lg_start s \<in> log_area s" using assms by (auto simp: rec_ok_def log_area_def)
  with recover_eq [OF assms] show ?thesis by (fastforce simp: after_recovery_def)
qed

lemma before_header:
  assumes "log_idle s" "b \<notin> log_area s"
  shows "is_head (apply_writes (disk s) (take k (log_writes s (nat (lh_n s)))) (lg_start s)) []"
    "apply_writes (disk s) (take k (log_writes s (nat (lh_n s)))) b = disk s b"
proof -
  have nsz: "int (nat (lh_n s)) < lg_size s" using assms(1) by (auto simp: log_idle_def log_wf_def)
  have "c \<in> log_area s \<and> c \<noteq> lg_start s" if "c \<in> fst ` set (take k (log_writes s (nat (lh_n s))))" for c
    using that log_writes_area [OF _ nsz, of c] set_take_subset [of k "log_writes s (nat (lh_n s))"] by blast
  then have "lg_start s \<notin> fst ` set (take k (log_writes s (nat (lh_n s))))"
    "b \<notin> fst ` set (take k (log_writes s (nat (lh_n s))))"
    using assms(2) by blast+
  then show "is_head (apply_writes (disk s) (take k (log_writes s (nat (lh_n s)))) (lg_start s)) []"
    "apply_writes (disk s) (take k (log_writes s (nat (lh_n s)))) b = disk s b"
    using assms(1) by (simp_all add: apply_writes_other is_head_Nil log_idle_def log_wf_def)
qed

lemma after_header:
  assumes "log_idle s" "is_head h (tx_blocks s)" "b \<notin> log_area s"
    and D: "D = apply_writes (disk s) (log_writes s (nat (lh_n s)) @ (lg_start s, h) # take j (tx_writes s))"
  shows "rec_ok (lg_start s) (lg_size s) D (tx_blocks s) \<and> after_recovery (lg_start s) D (tx_blocks s) b = bread_data s b"
proof -
  let ?n = "nat (lh_n s)" and ?a = "lg_start s" and ?bl = "tx_blocks s"
  let ?D0 = "apply_writes (disk s) (log_writes s ?n @ [(?a, h)])"
  have wf: "log_wf s" using assms(1) by (simp add: log_idle_def)
  have nsz: "int ?n < lg_size s" and n30: "?n \<le> 30" and len: "length ?bl = ?n" using wf length_tx by (auto simp: log_wf_def)
  have tx: "c \<in> set ?bl" if "c \<in> fst ` set (take j (tx_writes s))" for c
    using that set_take_subset [of j "tx_writes s"] fst_tx_writes by blast
  have D0: "D c = ?D0 c" if "c \<notin> set ?bl" for c
  proof -
    have "c \<notin> fst ` set (take j (tx_writes s))" using that tx by blast
    then show ?thesis unfolding D by (simp add: apply_writes_other)
  qed
  have area: "c \<notin> set ?bl" if "c \<in> log_area s" for c using that wf by (auto simp: log_wf_def)
  have ar: "{?a..<?a + lg_size s} = log_area s" by (simp add: log_area_def)
  have "D ?a = h" using D0 [OF area, of ?a] lg_start_area [OF wf] by simp
  then have ok: "rec_ok ?a (lg_size s) D ?bl"
    using assms(2) wf len n30 nsz by (simp add: rec_ok_def log_wf_def log_area_def)
  have "after_recovery ?a D ?bl b = after_recovery ?a ?D0 ?bl b"
  proof (rule after_recovery_cong)
    show "distinct ?bl" using wf by (simp add: log_wf_def)
    show "int (length ?bl) < lg_size s" using len nsz by simp
  qed (use D0 area assms(3) ar in auto)
  also have "\<dots> = bread_data s b"
  proof (cases "b \<in> set ?bl")
    case True
    then obtain i where i: "i < ?n" "b = ?bl ! i" using len by (auto simp: in_set_conv_nth)
    then have "after_recovery ?a ?D0 ?bl b = ?D0 (?a + int i + 1)"
      using wf len by (simp add: after_recovery_in log_wf_def del: apply_writes_simps)
    with i show ?thesis by (simp add: log_writes_read tx_blocks_def)
  next
    case False
    then have "dirty s b = None" using assms(1) by (auto simp: log_idle_def)
    moreover have "b \<notin> fst ` set (log_writes s ?n)" "b \<noteq> ?a"
      using assms(3) log_writes_area [OF _ nsz] lg_start_area [OF wf] by auto
    ultimately show ?thesis using False by (simp add: after_recovery_out apply_writes_other bread_data_def)
  qed
  finally show ?thesis using ok by blast
qed

lemma installed:
  assumes "log_idle s" "b \<notin> log_area s"
  shows "apply_writes (disk s) (log_writes s (nat (lh_n s)) @ [(lg_start s, h)] @ tx_writes s @ [(lg_start s, h0)]) b =
    bread_data s b"
proof -
  let ?n = "nat (lh_n s)"
  have wf: "log_wf s" using assms(1) by (simp add: log_idle_def)
  have nsz: "int ?n < lg_size s" using wf by (auto simp: log_wf_def)
  have b: "b \<noteq> lg_start s" "b \<notin> fst ` set (log_writes s ?n)"
    using assms(2) log_writes_area [OF _ nsz, of b] lg_start_area [OF wf] by auto
  show ?thesis
  proof (cases "b \<in> set (tx_blocks s)")
    case True
    have "apply_writes D (tx_writes s) b = bread_data s b" for D
    proof (rule apply_writes_in)
      show "distinct (map fst (tx_writes s))" using wf by (simp add: tx_writes_def log_wf_def o_def)
      show "(b, bread_data s b) \<in> set (tx_writes s)" using True by (simp add: tx_writes_def)
    qed
    with b show ?thesis by simp
  next
    case False
    then have "b \<notin> fst ` set (tx_writes s)" "dirty s b = None"
      using assms(1) fst_tx_writes by (auto simp: log_idle_def)
    with b show ?thesis by (simp add: apply_writes_other bread_data_def)
  qed
qed

lemma take_commit_writes:
  assumes "length L = n" "length T = n"
  shows "k \<le> n \<Longrightarrow> take k (L @ [x] @ T @ [y]) = take k L"
    and "n < k \<Longrightarrow> k \<le> 2 * n + 1 \<Longrightarrow> take k (L @ [x] @ T @ [y]) = L @ x # take (k - n - 1) T"
    and "2 * n + 1 < k \<Longrightarrow> take k (L @ [x] @ T @ [y]) = L @ [x] @ T @ [y]"
proof -
  show "k \<le> n \<Longrightarrow> take k (L @ [x] @ T @ [y]) = take k L" using assms by simp
  show "take k (L @ [x] @ T @ [y]) = L @ x # take (k - n - 1) T" if "n < k" "k \<le> 2 * n + 1"
  proof -
    obtain d where "k = Suc (n + d)" using \<open>n < k\<close> less_iff_Suc_add by blast
    with that assms show ?thesis by simp
  qed
  show "2 * n + 1 < k \<Longrightarrow> take k (L @ [x] @ T @ [y]) = L @ [x] @ T @ [y]" using assms by simp
qed

subsection \<open>Operations of many processes\<close>

lemma log_write_spec:
  assumes "log_idle s" "lh_n s < 30" "lh_n s < lg_size s - 1" "1 \<le> outstanding s" "is_s32 b" "b \<notin> log_area s"
  shows "\<exists>s'. log_write b d s = Inr s' \<and> log_idle s' \<and> disk s' = disk s \<and> lg_size s' = lg_size s \<and>
    outstanding s' = outstanding s \<and> committing s' = committing s \<and> lg_start s' = lg_start s \<and>
    tx_blocks s' = (if b \<in> set (tx_blocks s) then tx_blocks s else tx_blocks s @ [b]) \<and>
    bread_data s' = (bread_data s)(b := d) \<and> lh_n s \<le> lh_n s' \<and> lh_n s' \<le> lh_n s + 1"
proof -
  have wf: "log_wf s" using assms(1) by (simp add: log_idle_def)
  have n: "0 \<le> lh_n s" "length (lh_block s) = 30" using wf by (auto simp: log_wf_def)
  define i where "i = (case scan_from (\<lambda>c. c = b) 0 (tx_blocks s) of Some i \<Rightarrow> int i | None \<Rightarrow> lh_n s)"
  define n' where "n' = (if i = lh_n s then lh_n s + 1 else lh_n s)"
  let ?s = "s\<lparr>lh_block := (lh_block s)[nat i := b], lh_n := n', dirty := (dirty s)(b := Some d)\<rparr>"
  have "0 \<le> i \<and> i < 30 \<and> tx_blocks ?s = (if b \<in> set (tx_blocks s) then tx_blocks s else tx_blocks s @ [b])"
  proof (cases "scan_from (\<lambda>c. c = b) 0 (tx_blocks s)")
    case None
    then have "b \<notin> set (tx_blocks s)" by (auto simp: scan_from_None)
    moreover have "i = lh_n s" using None by (simp add: i_def)
    moreover from \<open>i = lh_n s\<close> have "tx_blocks ?s = tx_blocks s @ [b]"
      using n assms(2) by (simp add: tx_blocks_def n'_def nat_add_distrib take_Suc_conv_app_nth)
    ultimately show ?thesis using n assms(2) by simp
  next
    case (Some k)
    then have "i = int k" by (simp add: i_def)
    with Some have k: "k < nat (lh_n s)" "lh_block s ! k = b" "i = int k"
      by (auto simp: scan_0_Some tx_blocks_def)
    then have "b \<in> set (tx_blocks s)" using tx_nth [OF wf] by blast
    moreover have "(lh_block s)[k := b] = lh_block s" using k(2) list_update_id by metis
    then have "tx_blocks ?s = tx_blocks s" using k by (simp add: tx_blocks_def n'_def)
    ultimately show ?thesis using k n assms(2) by simp
  qed
  then have i: "0 \<le> i" "i < 30" and tx: "tx_blocks ?s = (if b \<in> set (tx_blocks s) then tx_blocks s else tx_blocks s @ [b])"
    by auto
  have "log_write b d s = Inr ?s"
    using assms(2-4) i n unfolding log_write_def tx_blocks_def [symmetric] i_def [symmetric]
    by (simp add: array_set_def n'_def Let_def)
  moreover have "log_wf ?s"
    using wf assms(2,3,5,6) tx n unfolding log_wf_def by (auto simp: log_area_def n'_def)
  then have "log_idle ?s" using assms(1) tx unfolding log_idle_def by auto
  moreover have "bread_data ?s = (bread_data s)(b := d)" by (rule ext) (simp add: bread_data_def split: option.split)
  ultimately show ?thesis using tx by (intro exI [of _ ?s]) (auto simp: n'_def)
qed

lemma commit_idle:
  assumes "log_idle s"
  shows "\<exists>r. commit s = Inr r \<and> log_idle r \<and> lh_n r = 0 \<and> lg_size r = lg_size s \<and> outstanding r = outstanding s \<and>
    committing r = committing s \<and> lg_start r = lg_start s"
proof (cases "0 < lh_n s")
  case False
  then show ?thesis using assms by (auto simp: commit_def log_idle_def log_wf_def)
next
  case True
  have wf: "log_wf s" using assms by (simp add: log_idle_def)
  obtain h h0 where r: "commit s = Inr ((written (log_writes s (nat (lh_n s)) @ [(lg_start s, h)] @ tx_writes s @ [(lg_start s, h0)]) s)\<lparr>lh_n := 0\<rparr>)"
    "is_head h0 []" using commit_eq [OF wf True] by blast
  let ?r = "(written (log_writes s (nat (lh_n s)) @ [(lg_start s, h)] @ tx_writes s @ [(lg_start s, h0)]) s)\<lparr>lh_n := 0\<rparr>"
  have d: "dirty ?r b = None" for b
    using assms by (cases "b \<in> set (tx_blocks s)") (auto simp: log_idle_def image_Un fst_tx_writes)
  have "log_wf ?r" using wf d r(2) by (simp add: log_wf_def tx_blocks_def is_head_Nil)
  then have "log_idle ?r" using d r(2) by (simp add: log_idle_def is_head_Nil tx_blocks_def)
  with r(1) show ?thesis by auto
qed

text \<open>
  The operations in progress, each with the number of log_write calls it has made; an operation
  makes at most MAXOPBLOCKS of them, which is what begin_op reserves.
\<close>

inductive log_run :: "fslog \<Rightarrow> int list \<Rightarrow> bool" where
  start: "log_idle s \<Longrightarrow> lh_n s = 0 \<Longrightarrow> outstanding s = 0 \<Longrightarrow> committing s = 0 \<Longrightarrow> log_run s []"
| begin_step: "log_run s cs \<Longrightarrow> begin_op s = Some s' \<Longrightarrow> log_run s' (0 # cs)"
| write_step: "log_run s cs \<Longrightarrow> i < length cs \<Longrightarrow> cs ! i < MAXOPBLOCKS \<Longrightarrow> is_s32 b \<Longrightarrow> b \<notin> log_area s \<Longrightarrow>
    log_write b d s = Inr s' \<Longrightarrow> log_run s' (cs[i := cs ! i + 1])"
| end_step: "log_run s (cs @ c # cs') \<Longrightarrow> end_op s = Inr (s', w) \<Longrightarrow> log_run s' (cs @ cs')"

definition reserved :: "int list \<Rightarrow> int" where
  "reserved cs = sum_list (map (\<lambda>c. MAXOPBLOCKS - c) cs)"

lemma reserved_append [simp]: "reserved (cs @ ds) = reserved cs + reserved ds"
  "reserved (c # cs) = MAXOPBLOCKS - c + reserved cs" "reserved [] = 0"
  by (simp_all add: reserved_def)

lemma reserved_update: "i < length cs \<Longrightarrow> reserved (cs[i := c]) = reserved cs + cs ! i - c"
proof -
  assume i: "i < length cs"
  then have "reserved cs = reserved (take i cs) + (MAXOPBLOCKS - cs ! i + reserved (drop (Suc i) cs))"
    using arg_cong [OF id_take_nth_drop [OF i], of reserved] by simp
  with i show ?thesis by (simp add: upd_conv_take_nth_drop)
qed

lemma reserved_bounds: "\<forall>c \<in> set cs. 0 \<le> c \<and> c \<le> 10 \<Longrightarrow> 0 \<le> reserved cs \<and> reserved cs \<le> 10 * int (length cs)"
  by (induction cs) (auto simp: reserved_def)

lemma reserved_nth:
  assumes "\<forall>c \<in> set cs. 0 \<le> c \<and> c \<le> 10" "i < length cs" "cs ! i < 10"
  shows "1 \<le> reserved cs"
proof -
  have "\<forall>c \<in> set (cs[i := 10]). 0 \<le> c \<and> c \<le> 10" using assms(1) set_update_subset_insert [of cs i 10] by auto
  then show ?thesis using reserved_update [OF assms(2), of 10] reserved_bounds [of "cs[i := 10]"] assms(3) by simp
qed

definition log_inv :: "fslog \<Rightarrow> int list \<Rightarrow> bool" where
  "log_inv s cs \<longleftrightarrow> log_idle s \<and> committing s = 0 \<and> outstanding s = int (length cs) \<and>
     (\<forall>c \<in> set cs. 0 \<le> c \<and> c \<le> 10) \<and> lh_n s + reserved cs \<le> 30"

lemma end_op_inv:
  assumes "log_inv s (cs @ c # cs')" "end_op s = Inr (s', w)"
  shows "log_inv s' (cs @ cs')"
proof -
  have inv: "log_idle s" "outstanding s = int (length cs + length cs') + 1" "lh_n s + reserved (cs @ c # cs') \<le> 30"
    "\<forall>c \<in> set (cs @ c # cs'). 0 \<le> c \<and> c \<le> 10" "committing s = 0"
    using assms(1) by (auto simp: log_inv_def)
  have res: "0 \<le> 10 - c" using inv(4) by simp
  have idle: "log_idle (s\<lparr>outstanding := k, committing := m\<rparr>)" "log_idle (s\<lparr>outstanding := k\<rparr>)" for k m
    using inv(1) by (simp_all add: log_idle_def log_wf_def tx_blocks_def log_area_def)
  show ?thesis
  proof (cases "length cs + length cs' = 0")
    case False
    then have "outstanding s - 1 \<noteq> 0" using inv(2) by linarith
    then have "s' = s\<lparr>outstanding := outstanding s - 1\<rparr>"
      using assms(2) inv(5) by (simp add: end_op_def Let_def)
    then show ?thesis using idle inv res by (simp add: log_inv_def)
  next
    case True
    then have e: "cs = []" "cs' = []" "outstanding s = 1" using inv(2) by auto
    from commit_idle [OF idle(1) [where k = 0 and m = 1]] obtain r where r: "commit (s\<lparr>outstanding := 0, committing := 1\<rparr>) = Inr r"
      "log_idle r" "lh_n r = 0" "outstanding r = 0" by auto
    then have "s' = r\<lparr>committing := 0\<rparr>" using assms(2) inv(5) e by (simp add: end_op_def Let_def)
    moreover have "log_idle (r\<lparr>committing := 0\<rparr>)"
      using r(2) by (simp add: log_idle_def log_wf_def tx_blocks_def log_area_def)
    ultimately show ?thesis using r e by (simp add: log_inv_def)
  qed
qed

lemma log_run_inv: "log_run s cs \<Longrightarrow> log_inv s cs"
proof (induction rule: log_run.induct)
  case (start s)
  then show ?case by (simp add: log_inv_def)
next
  case (begin_step s cs s')
  then have s': "s' = s\<lparr>outstanding := outstanding s + 1\<rparr>" "lh_n s + (outstanding s + 1) * 10 \<le> 30"
    by (auto simp: begin_op_def split: if_splits)
  have "log_idle s'"
    using begin_step by (simp add: log_inv_def s' log_idle_def log_wf_def tx_blocks_def log_area_def)
  moreover have "lh_n s + (10 + reserved cs) \<le> 30"
    using begin_step.IH s'(2) reserved_bounds [of cs] by (simp add: log_inv_def)
  ultimately show ?case using begin_step.IH by (simp add: log_inv_def s')
next
  case (write_step s cs i b d s')
  then have inv: "log_idle s" "outstanding s = int (length cs)" "lh_n s + reserved cs \<le> 30"
    "\<forall>c \<in> set cs. 0 \<le> c \<and> c \<le> 10" "committing s = 0"
    by (auto simp: log_inv_def)
  have "lh_n s < 30" "lh_n s < lg_size s - 1" "1 \<le> outstanding s"
    using write_step.hyps(6) by (auto simp: log_write_def split: if_splits)
  from log_write_spec [OF inv(1) this write_step.hyps(4,5), of d] write_step.hyps(6)
  have s': "log_idle s'" "outstanding s' = outstanding s" "committing s' = 0" "lh_n s' \<le> lh_n s + 1"
    using inv(5) by auto
  have "\<forall>c \<in> set (cs[i := cs ! i + 1]). 0 \<le> c \<and> c \<le> 10"
    using inv(4) write_step.hyps(2,3) set_update_subset_insert [of cs i "cs ! i + 1"] nth_mem [of i cs] by fastforce
  then show ?case
    using s' inv write_step.hyps(2) by (simp add: log_inv_def reserved_update)
next
  case (end_step s cs c cs' s' w)
  from end_step.IH end_step.hyps(2) show ?case by (rule end_op_inv)
qed

lemma commit_disk:
  assumes "log_idle t"
  shows "\<exists>r. commit t = Inr r \<and> (\<forall>b. b \<notin> log_area t \<longrightarrow> disk r b = bread_data t b)"
proof (cases "0 < lh_n t")
  case False
  then have "tx_blocks t = []" by (simp add: tx_blocks_def)
  then have "dirty t b = None" for b using assms by (auto simp: log_idle_def)
  then show ?thesis using False by (simp add: commit_def bread_data_def)
next
  case True
  have wf: "log_wf t" using assms by (simp add: log_idle_def)
  from commit_eq [OF wf True] installed [OF assms] show ?thesis by fastforce
qed

text \<open>The end of the last operation: everything is on disk and the log is empty.\<close>

lemma end_op_last:
  assumes "log_idle t" "outstanding t = 1" "committing t = 0"
  shows "\<exists>r. end_op t = Inr (r, True) \<and> outstanding r = 0 \<and> committing r = 0 \<and> lh_n r = 0 \<and>
    (\<forall>b. dirty r b = None) \<and> (\<forall>b. b \<notin> log_area t \<longrightarrow> disk r b = bread_data t b)"
proof -
  let ?u = "t\<lparr>outstanding := 0, committing := 1\<rparr>"
  have u: "log_idle ?u" using assms(1) by (simp add: log_idle_def log_wf_def tx_blocks_def log_area_def)
  from commit_disk [OF u] commit_idle [OF u] obtain r where r: "commit ?u = Inr r"
    "\<forall>b. b \<notin> log_area ?u \<longrightarrow> disk r b = bread_data ?u b" "log_idle r" "lh_n r = 0" "outstanding r = 0" by auto
  have "end_op t = Inr (r\<lparr>committing := 0\<rparr>, True)" using assms(2,3) r(1) by (simp add: end_op_def Let_def)
  moreover have "log_area ?u = log_area t" "bread_data ?u = bread_data t" by (simp_all add: log_area_def bread_data_def fun_eq_iff split: option.split)
  moreover have "dirty r b = None" for b using r(3,4) by (simp add: log_idle_def tx_blocks_def)
  ultimately show ?thesis using r(2,4,5) by simp
qed

lemma end_op_not_last:
  "outstanding t \<noteq> 1 \<Longrightarrow> committing t = 0 \<Longrightarrow> end_op t = Inr (t\<lparr>outstanding := outstanding t - 1\<rparr>, True)"
  by (simp add: end_op_def Let_def)

text \<open>Three operations that fill the log with distinct blocks from 100 on.\<close>

lemma fill_log:
  assumes "log_idle s0" "lh_n s0 = 0" "outstanding s0 = 0" "committing s0 = 0" "lg_size s0 = 30"
    "lg_start s0 = 2" "m \<le> 29"
  shows "\<exists>s cs. log_run s cs \<and> length cs = 3 \<and> sum_list cs = int m \<and> lh_n s = int m \<and> lg_size s = 30 \<and>
    lg_start s = 2 \<and> set (tx_blocks s) \<subseteq> {100..<100 + int m}"
  using assms(7)
proof (induction m)
  case 0
  have "log_run (s0\<lparr>outstanding := 3\<rparr>) [0, 0, 0]"
    using log_run.begin_step [OF log_run.begin_step [OF log_run.begin_step [OF log_run.start [OF assms(1-4)]]]] assms
    by (simp add: begin_op_def)
  then show ?case using assms by (intro exI [of _ "s0\<lparr>outstanding := 3\<rparr>"] exI [of _ "[0, 0, 0]"]) (simp add: tx_blocks_def)
next
  case (Suc m)
  then obtain s cs where s: "log_run s cs" "length cs = 3" "sum_list cs = int m" "lh_n s = int m" "lg_size s = 30"
    "lg_start s = 2" "set (tx_blocks s) \<subseteq> {100..<100 + int m}" by auto
  have inv: "log_inv s cs" using s(1) by (rule log_run_inv)
  obtain x y z where cs: "cs = [x, y, z]" using s(2) by (auto simp: numeral_3_eq_3 length_Suc_conv)
  then obtain i where i: "i < length cs" "cs ! i < 10"
    using s(3) Suc.prems by (cases "x < 10"; cases "y < 10") (force intro: that [of 0] that [of 1] that [of 2])+
  let ?b = "100 + int m"
  have b: "is_s32 ?b" "?b \<notin> log_area s" "?b \<notin> set (tx_blocks s)"
    using s(5,6,7) Suc.prems by (auto simp: is_s32_def log_area_def)
  obtain s' where s': "log_write ?b [] s = Inr s'" "tx_blocks s' = tx_blocks s @ [?b]" "lg_size s' = 30" "lg_start s' = 2"
    "log_idle s'"
    using log_write_spec [of s ?b "[]"] inv s b Suc.prems by (auto simp: log_inv_def)
  have "log_run s' (cs[i := cs ! i + 1])" using log_run.write_step [OF s(1) i b(1,2) s'(1)] .
  moreover have "sum_list (cs[i := cs ! i + 1]) = int (Suc m)"
    using s(3) i(1) by (auto simp: cs less_Suc_eq numeral_3_eq_3)
  moreover have "lh_n s' = int (Suc m)"
  proof -
    have wf: "log_wf s" "log_wf s'" using inv s'(5) by (auto simp: log_inv_def log_idle_def)
    have "nat (lh_n s') = Suc (nat (lh_n s))"
      using length_tx [OF wf(1)] length_tx [OF wf(2)] s'(2) by simp
    then show ?thesis using s(4) by linarith
  qed
  ultimately show ?case using s s' i by (intro exI [of _ s'] exI [of _ "cs[i := cs ! i + 1]"]) auto
qed

subsection \<open>Properties\<close>

text \<open>
  C2: a transaction is atomic under crashes. A commit succeeds, and whatever number of its disk
  writes have reached the disk when the machine stops, recovery after the restart succeeds and
  leaves every block outside the log, the log being the blocks that the superblock gives to it, either as it was before the transaction (when the header
  had not been written) or as the transaction left it in memory (from then on), for all blocks
  alike.
\<close>

theorem commit_atomic_under_crash:
  assumes "log_idle s" "0 < lh_n s"
  shows "\<exists>r W. commit s = Inr r \<and> dtrace r = dtrace s @ W \<and> length W = 2 * nat (lh_n s) + 2 \<and>
    (\<forall>b. b \<notin> log_area s \<longrightarrow> disk r b = bread_data s b) \<and>
    (\<forall>k. \<exists>c. recover_from_log (reboot s (apply_writes (disk s) (take k W))) = Inr c \<and>
      (\<forall>b. b \<notin> log_area s \<longrightarrow> disk c b = (if k \<le> nat (lh_n s) then disk s b else bread_data s b)))"
proof -
  let ?n = "nat (lh_n s)" and ?a = "lg_start s" and ?L = "log_writes s (nat (lh_n s))"
  have wf: "log_wf s" using assms(1) by (simp add: log_idle_def)
  obtain r h h0 where r: "commit s = Inr r" "is_head h (tx_blocks s)" "is_head h0 []"
    "r = (written (?L @ [(?a, h)] @ tx_writes s @ [(?a, h0)]) s)\<lparr>lh_n := 0\<rparr>"
    using commit_eq [OF wf assms(2)] by blast
  let ?W = "?L @ [(?a, h)] @ tx_writes s @ [(?a, h0)]"
  have len: "length ?L = ?n" "length (tx_writes s) = ?n"
    using length_tx [OF wf] by (simp_all add: log_writes_def tx_writes_def)
  have "\<exists>c. recover_from_log (reboot s (apply_writes (disk s) (take k ?W))) = Inr c \<and>
      (\<forall>b. b \<notin> log_area s \<longrightarrow> disk c b = (if k \<le> ?n then disk s b else bread_data s b))" for k
  proof -
    let ?D = "apply_writes (disk s) (take k ?W)"
    consider "k \<le> ?n" | "?n < k" "k \<le> 2 * ?n + 1" | "2 * ?n + 1 < k" by linarith
    then have "\<exists>bl. rec_ok ?a (lg_size s) ?D bl \<and> (\<forall>b. b \<notin> log_area s \<longrightarrow>
        after_recovery ?a ?D bl b = (if k \<le> ?n then disk s b else bread_data s b))"
    proof cases
      case 1
      have "?a - 1 \<notin> log_area s" by (simp add: log_area_def)
      with log_wf_size [OF wf] before_header [OF assms(1)] 1 take_commit_writes(1) [OF len 1] show ?thesis
        by (intro exI [of _ "[]"]) (auto simp: rec_ok_Nil)
    next
      case 2
      have "?a - 1 \<notin> log_area s" by (simp add: log_area_def)
      with after_header [OF assms(1) r(2)] 2 take_commit_writes(2) [OF len 2] show ?thesis
        by (intro exI [of _ "tx_blocks s"]) auto
    next
      case 3
      have "?D ?a = h0" unfolding take_commit_writes(3) [OF len 3] by simp
      with log_wf_size [OF wf] r(3) installed [OF assms(1)] 3 take_commit_writes(3) [OF len 3] show ?thesis
        by (intro exI [of _ "[]"]) (auto simp: rec_ok_Nil simp del: apply_writes_simps)
    qed
    then obtain bl where bl: "rec_ok ?a (lg_size s) ?D bl" "\<forall>b. b \<notin> log_area s \<longrightarrow>
        after_recovery ?a ?D bl b = (if k \<le> ?n then disk s b else bread_data s b)" by blast
    from recover_disk [OF bl(1)] bl(2) show ?thesis by auto
  qed
  moreover have "dtrace r = dtrace s @ ?W" "disk r = apply_writes (disk s) ?W"
    using r(4) by simp_all
  moreover have "length ?W = 2 * ?n + 2" using len by simp
  ultimately show ?thesis using r(1) installed [OF assms(1)] by (intro exI [of _ r] exI [of _ ?W]) auto
qed

text \<open>A log at block 2 whose current transaction holds one block, 32, changed to sevens.\<close>

definition sample_log :: fslog where
  "sample_log = \<lparr>lg_start = 2, lg_size = 30, outstanding = 0, committing = 1, lh_n = 1,
     lh_block = 32 # replicate 29 0, dirty = (\<lambda>_. None)(32 := Some (replicate 512 7)),
     disk = (\<lambda>_. replicate 512 0), dtrace = []\<rparr>"

lemma get32_zeros: "4 * i + 4 \<le> n \<Longrightarrow> get32 (replicate n 0) i = 0"
  by (simp add: get32_def word32_def min_def)

lemma sample_log_idle: "log_idle sample_log"
  by (auto simp: log_idle_def log_wf_def sample_log_def tx_blocks_def log_area_def is_s32_def get32_zeros split: if_splits)

theorem commit_atomic_under_crash_witness:
  "\<exists>r W c. commit sample_log = Inr r \<and> dtrace r = W \<and>
    recover_from_log (reboot sample_log (apply_writes (disk sample_log) (take 2 W))) = Inr c \<and>
    disk c 32 = replicate 512 7"
proof -
  have n: "0 < lh_n sample_log" "nat (lh_n sample_log) = 1" "dtrace sample_log = []"
    "bread_data sample_log 32 = replicate 512 7" "32 \<notin> log_area sample_log"
    by (simp_all add: sample_log_def bread_data_def log_area_def)
  from commit_atomic_under_crash [OF sample_log_idle n(1)] obtain r W where
    "commit sample_log = Inr r" "dtrace r = W" and
    rec: "\<And>k. \<exists>c. recover_from_log (reboot sample_log (apply_writes (disk sample_log) (take k W))) = Inr c \<and>
      (\<forall>b. b \<notin> log_area sample_log \<longrightarrow> disk c b = (if k \<le> 1 then disk sample_log b else bread_data sample_log b))"
    unfolding n(2,3) append_Nil by blast
  with rec [of 2] n(4,5) show ?thesis by auto
qed

text \<open>
  Recovery is idempotent under crashes. On a disk with a well-formed log header, recovery
  succeeds; and if the machine stops again after any number of the writes of that recovery, a
  second recovery succeeds and ends with the same contents outside the log.
\<close>

theorem recovery_idempotent:
  assumes "rec_ok (lg_start s) (lg_size s) D bl"
  shows "\<exists>r. recover_from_log (reboot s D) = Inr r \<and>
    (\<forall>k. \<exists>c. recover_from_log (reboot s (apply_writes D (take k (dtrace r)))) = Inr c \<and>
      (\<forall>b. b \<notin> log_area s \<longrightarrow> disk c b = disk r b))"
proof -
  let ?a = "lg_start s"
  obtain r h where r: "recover_from_log (reboot s D) = Inr r" "dtrace r = homes ?a D bl @ [(?a, h)]"
    "is_head h []" "disk r = apply_writes D (dtrace r)"
    using recover_eq [OF assms] by blast
  have bl: "distinct bl" "length bl \<le> 30" "\<forall>b \<in> set bl. b \<notin> log_area s" "length (homes ?a D bl) = length bl" "int (length bl) < lg_size s"
    using assms by (auto simp: rec_ok_def homes_def log_area_def)
  have a: "?a \<in> log_area s" using assms by (auto simp: rec_ok_def log_area_def)
  have fin: "disk r b = after_recovery ?a D bl b" if "b \<notin> log_area s" for b
  proof -
    have "b \<noteq> ?a" using that a by auto
    then show ?thesis using r(2,4) by (simp add: after_recovery_def)
  qed
  have "\<exists>c. recover_from_log (reboot s (apply_writes D (take k (dtrace r)))) = Inr c \<and>
      (\<forall>b. b \<notin> log_area s \<longrightarrow> disk c b = disk r b)" for k
  proof (cases "k \<le> length bl")
    case True
    let ?D = "apply_writes D (take k (homes ?a D bl))"
    have out: "?D b = D b" if "b \<notin> set bl" for b
      using that set_take_subset [of k "homes ?a D bl"] fst_homes_set [of ?a D bl]
      by (intro apply_writes_other) blast
    have "rec_ok ?a (lg_size s) ?D bl" using assms out a bl(3) by (auto simp: rec_ok_def)
    from recover_disk [OF this] obtain c where c: "recover_from_log (reboot s ?D) = Inr c"
      "\<forall>b. b \<notin> log_area s \<longrightarrow> disk c b = after_recovery ?a ?D bl b" by blast
    have "after_recovery ?a ?D bl b = after_recovery ?a D bl b" if "b \<notin> log_area s" for b
      using bl(1) bl(5) by (rule after_recovery_cong) (use out bl(3) that in \<open>auto simp: log_area_def\<close>)
    with c fin True bl(4) r(2) show ?thesis by simp
  next
    case False
    then have "take k (dtrace r) = dtrace r" using r(2) bl(4) by simp
    moreover have "rec_ok ?a (lg_size s) (disk r) []" using r(2-4) bl(5) by (simp add: rec_ok_Nil)
    ultimately show ?thesis using recover_disk [of s "disk r" "[]"] r(4) by auto
  qed
  with r(1) show ?thesis by blast
qed

theorem recovery_idempotent_witness:
  "\<exists>r c. recover_from_log (reboot sample_log (\<lambda>_. replicate 512 0)) = Inr r \<and>
    recover_from_log (reboot sample_log (apply_writes (\<lambda>_. replicate 512 0) (take 1 (dtrace r)))) = Inr c \<and>
    disk c 32 = disk r 32"
proof -
  have "rec_ok (lg_start sample_log) (lg_size sample_log) (\<lambda>_. replicate 512 0) []"
    by (simp add: rec_ok_Nil is_head_Nil get32_zeros sample_log_def)
  from recovery_idempotent [OF this] obtain r where
    r: "recover_from_log (reboot sample_log (\<lambda>_. replicate 512 0)) = Inr r"
    "\<And>k. \<exists>c. recover_from_log (reboot sample_log (apply_writes (\<lambda>_. replicate 512 0) (take k (dtrace r)))) = Inr c \<and>
      (\<forall>b. b \<notin> log_area sample_log \<longrightarrow> disk c b = disk r b)" by blast
  have "32 \<notin> log_area sample_log" by (simp add: sample_log_def log_area_def)
  with r(1) r(2) [of 1] show ?thesis by blast
qed



end
