(* ===== verification/Locks.thy ===== *)
theory Locks
  imports Prelude
begin

text \<open>
  Spin locks (spinlock.c) and sleep locks (sleeplock.c). For spin locks the interleaving of
  processors is explicit: each processor is at a program point of acquire or release and one
  atomic instruction of one processor is a step, with the exchange instruction as the only
  atomic read-and-write. Everything else in the development may therefore treat a section
  between acquire and release as one function of the state. The interrupt bookkeeping of
  pushcli and popcli is part of the state of each processor.
\<close>

subsection \<open>Interrupt state of a processor\<close>

record cpu =
  ncli :: int
  intena :: bool
  fl_if :: bool

definition pushcli :: "cpu \<Rightarrow> cpu" where
  "pushcli c =
     (let eflags = fl_if c;
          c = c\<lparr>fl_if := False\<rparr>;
          c = (if ncli c = 0 then c\<lparr>intena := eflags\<rparr> else c)
      in c\<lparr>ncli := ncli c + 1\<rparr>)"

definition popcli :: "cpu \<Rightarrow> cpu res" where
  "popcli c =
     (if fl_if c then Inl (Panic ''popcli - interruptible'')
      else let c = c\<lparr>ncli := ncli c - 1\<rparr> in
           if ncli c < 0 then Inl (Panic ''popcli'')
           else Inr (if ncli c = 0 \<and> intena c then c\<lparr>fl_if := True\<rparr> else c))"

text \<open>Interrupts are off inside every pushcli, and only there may they be on again.\<close>

definition cpu_ok :: "cpu \<Rightarrow> bool" where
  "cpu_ok c \<longleftrightarrow> 0 \<le> ncli c \<and> (0 < ncli c \<longrightarrow> \<not> fl_if c)"

lemma pushcli_ok: "cpu_ok c \<Longrightarrow> cpu_ok (pushcli c) \<and> ncli (pushcli c) = ncli c + 1 \<and> \<not> fl_if (pushcli c)"
  by (simp add: cpu_ok_def pushcli_def Let_def)

lemma popcli_pushcli: "cpu_ok c \<Longrightarrow> \<exists>c'. popcli (pushcli c) = Inr c' \<and> cpu_ok c' \<and> ncli c' = ncli c \<and> fl_if c' = fl_if c \<and>
    (0 < ncli c \<longrightarrow> c' = c)"
  by (cases c) (auto simp: cpu_ok_def pushcli_def popcli_def Let_def)

text \<open>Nested use: any well-nested sequence of pushcli and popcli.\<close>

datatype cli_op = Push | Pop

fun cli_run :: "cli_op list \<Rightarrow> cpu \<Rightarrow> cpu res" where
  "cli_run [] c = Inr c"
| "cli_run (Push # ops) c = cli_run ops (pushcli c)"
| "cli_run (Pop # ops) c = bindR (popcli c) (cli_run ops)"

inductive nested :: "cli_op list \<Rightarrow> bool" where
  empty: "nested []"
| wrap: "nested xs \<Longrightarrow> nested ys \<Longrightarrow> nested (Push # xs @ Pop # ys)"

lemma cli_run_append: "cli_run (xs @ ys) c = bindR (cli_run xs c) (cli_run ys)"
proof (induction xs c rule: cli_run.induct)
  case (3 ops c)
  then show ?case by (cases "popcli c") simp_all
qed simp_all

text \<open>What nested code leaves unchanged: everything, once inside; the count and the flag, outside.\<close>

definition cli_same :: "cpu \<Rightarrow> cpu \<Rightarrow> bool" where
  "cli_same c c' \<longleftrightarrow> cpu_ok c' \<and> ncli c' = ncli c \<and> fl_if c' = fl_if c \<and> (0 < ncli c \<longrightarrow> c' = c)"

lemma nested_run: "nested ops \<Longrightarrow> cpu_ok c \<Longrightarrow> \<exists>c'. cli_run ops c = Inr c' \<and> cli_same c c'"
proof (induction arbitrary: c rule: nested.induct)
  case empty
  then show ?case by (simp add: cli_same_def)
next
  case (wrap xs ys)
  note p = pushcli_ok [OF wrap.prems]
  obtain c1 where c1: "cli_run xs (pushcli c) = Inr c1" "cli_same (pushcli c) c1"
    using wrap.IH(1) p by blast
  have "0 < ncli (pushcli c)" using p wrap.prems by (simp add: cpu_ok_def)
  then have eq: "c1 = pushcli c" using c1(2) by (simp add: cli_same_def)
  obtain c2 where c2: "popcli (pushcli c) = Inr c2" "cli_same c c2"
    using popcli_pushcli [OF wrap.prems] by (auto simp: cli_same_def)
  obtain c3 where "cli_run ys c2 = Inr c3" "cli_same c2 c3"
    using wrap.IH(2) [of c2] c2(2) unfolding cli_same_def by blast
  with c1 c2 eq show ?case by (auto simp: cli_run_append cli_same_def)
qed

subsection \<open>A spin lock and its processors\<close>

record spinlock =
  sl_locked :: u32
  sl_cpu :: "nat option"

definition initlock :: spinlock where
  "initlock = \<lparr>sl_locked = 0, sl_cpu = None\<rparr>"

definition holding :: "nat \<Rightarrow> spinlock \<Rightarrow> bool" where
  "holding me lk \<longleftrightarrow> sl_locked lk \<noteq> 0 \<and> sl_cpu lk = Some me"

text \<open>The exchange instruction: the old value, and the new memory.\<close>

definition xchg :: "u32 \<Rightarrow> u32 \<Rightarrow> u32 \<times> u32" where
  "xchg addr newval = (addr, newval)"

text \<open>Where a processor is: outside, before the exchange, after it, inside the section, on the way out.\<close>

datatype pc = Outside | Spinning | Acquired | Inside | Released | Unlocked | Panicked

record smp =
  slock :: spinlock
  at_pc :: "nat \<Rightarrow> pc"
  cpus :: "nat \<Rightarrow> cpu"

definition acquire_enter :: "nat \<Rightarrow> smp \<Rightarrow> smp" where
  "acquire_enter me s =
     (let s = s\<lparr>cpus := (cpus s)(me := pushcli (cpus s me))\<rparr> in
      s\<lparr>at_pc := (at_pc s)(me := if holding me (slock s) then Panicked else Spinning)\<rparr>)"

definition acquire_xchg :: "nat \<Rightarrow> smp \<Rightarrow> smp" where
  "acquire_xchg me s =
     (let (old, new) = xchg (sl_locked (slock s)) 1;
          s = s\<lparr>slock := (slock s)\<lparr>sl_locked := new\<rparr>\<rparr>
      in if old \<noteq> 0 then s else s\<lparr>at_pc := (at_pc s)(me := Acquired)\<rparr>)"

definition acquire_record :: "nat \<Rightarrow> smp \<Rightarrow> smp" where
  "acquire_record me s = s\<lparr>slock := (slock s)\<lparr>sl_cpu := Some me\<rparr>, at_pc := (at_pc s)(me := Inside)\<rparr>"

definition release_check :: "nat \<Rightarrow> smp \<Rightarrow> smp" where
  "release_check me s =
     (if \<not> holding me (slock s) then s\<lparr>at_pc := (at_pc s)(me := Panicked)\<rparr>
      else s\<lparr>slock := (slock s)\<lparr>sl_cpu := None\<rparr>, at_pc := (at_pc s)(me := Released)\<rparr>)"

definition release_unlock :: "nat \<Rightarrow> smp \<Rightarrow> smp" where
  "release_unlock me s = s\<lparr>slock := (slock s)\<lparr>sl_locked := 0\<rparr>, at_pc := (at_pc s)(me := Unlocked)\<rparr>"

definition release_popcli :: "nat \<Rightarrow> smp \<Rightarrow> smp" where
  "release_popcli me s =
     (case popcli (cpus s me) of
        Inl _ \<Rightarrow> s\<lparr>at_pc := (at_pc s)(me := Panicked)\<rparr>
      | Inr c \<Rightarrow> s\<lparr>cpus := (cpus s)(me := c), at_pc := (at_pc s)(me := Outside)\<rparr>)"

inductive smp_step :: "smp \<Rightarrow> smp \<Rightarrow> bool" where
  enter: "at_pc s me = Outside \<Longrightarrow> smp_step s (acquire_enter me s)"
| spin: "at_pc s me = Spinning \<Longrightarrow> smp_step s (acquire_xchg me s)"
| note_cpu: "at_pc s me = Acquired \<Longrightarrow> smp_step s (acquire_record me s)"
| leave: "at_pc s me = Inside \<Longrightarrow> smp_step s (release_check me s)"
| unlock: "at_pc s me = Released \<Longrightarrow> smp_step s (release_unlock me s)"
| pop: "at_pc s me = Unlocked \<Longrightarrow> smp_step s (release_popcli me s)"

definition owns :: "pc \<Rightarrow> bool" where
  "owns p \<longleftrightarrow> p = Acquired \<or> p = Inside \<or> p = Released"

text \<open>\<open>c0\<close> is the interrupt state each processor had before it came to the lock.\<close>

definition smp_inv :: "(nat \<Rightarrow> cpu) \<Rightarrow> smp \<Rightarrow> bool" where
  "smp_inv c0 s \<longleftrightarrow>
     (sl_locked (slock s) \<noteq> 0 \<longleftrightarrow> (\<exists>i. owns (at_pc s i))) \<and>
     (\<forall>i j. owns (at_pc s i) \<longrightarrow> owns (at_pc s j) \<longrightarrow> i = j) \<and>
     (\<forall>i. sl_cpu (slock s) = Some i \<longleftrightarrow> at_pc s i = Inside) \<and>
     (\<forall>i. at_pc s i \<noteq> Panicked) \<and>
     (\<forall>i. at_pc s i = Outside \<longrightarrow> cli_same (c0 i) (cpus s i)) \<and>
     (\<forall>i. at_pc s i \<noteq> Outside \<longrightarrow> (\<exists>c. cli_same (c0 i) c \<and> cpus s i = pushcli c))"

lemma owns_simps [simp]: "owns Acquired" "owns Inside" "owns Released" "\<not> owns Outside" "\<not> owns Spinning"
  "\<not> owns Unlocked" "\<not> owns Panicked"
  by (simp_all add: owns_def)

lemma smp_inv_step:
  assumes "smp_inv c0 s" "smp_step s s'"
  shows "smp_inv c0 s'"
  using assms(2,1)
proof cases
  case (enter me)
  then have "\<not> holding me (slock s)" using assms(1) by (auto simp: smp_inv_def holding_def)
  with enter assms(1) show ?thesis
    unfolding smp_inv_def acquire_enter_def Let_def by (auto split: if_splits) (metis owns_simps(4))
next
  case (spin me)
  show ?thesis
  proof (cases "sl_locked (slock s) = 0")
    case True
    then have "s' = s\<lparr>slock := (slock s)\<lparr>sl_locked := 1\<rparr>, at_pc := (at_pc s)(me := Acquired)\<rparr>"
      using spin by (simp add: acquire_xchg_def xchg_def)
    with True spin(2) assms(1) show ?thesis unfolding smp_inv_def by (auto split: if_splits)
  next
    case False
    then have "s' = s\<lparr>slock := (slock s)\<lparr>sl_locked := 1\<rparr>\<rparr>" using spin by (simp add: acquire_xchg_def xchg_def)
    with False assms(1) show ?thesis unfolding smp_inv_def by simp
  qed
next
  case (note_cpu me)
  then have "sl_locked (slock s) \<noteq> 0" using assms(1) unfolding smp_inv_def by (metis owns_simps(1))
  with note_cpu assms(1) show ?thesis
    unfolding smp_inv_def acquire_record_def by (auto split: if_splits)
next
  case (leave me)
  then have "holding me (slock s)" using assms(1) unfolding smp_inv_def holding_def by (metis owns_simps(2))
  with leave assms(1) show ?thesis
    unfolding smp_inv_def release_check_def by (auto simp: holding_def split: if_splits)
next
  case (unlock me)
  with assms(1) show ?thesis
    unfolding smp_inv_def release_unlock_def by (auto split: if_splits)
next
  case (pop me)
  then obtain c where c: "cli_same (c0 me) c" "cpus s me = pushcli c"
    using assms(1) unfolding smp_inv_def by (metis pc.distinct(9))
  then obtain c' where "popcli (pushcli c) = Inr c'" "cli_same (c0 me) c'"
    using popcli_pushcli [of c] unfolding cli_same_def by metis
  with c(2) pop assms(1) show ?thesis
    unfolding smp_inv_def release_popcli_def by (auto split: if_splits) (metis owns_simps(6))
qed

subsection \<open>Sleep locks\<close>

record sleeplock =
  slk_locked :: u32
  slk_pid :: int

definition initsleeplock :: sleeplock where
  "initsleeplock = \<lparr>slk_locked = 0, slk_pid = 0\<rparr>"

text \<open>None: the process sleeps on the lock and tries again when it is woken.\<close>

definition acquiresleep :: "int \<Rightarrow> sleeplock \<Rightarrow> sleeplock option" where
  "acquiresleep pid lk = (if slk_locked lk \<noteq> 0 then None else Some (lk\<lparr>slk_locked := 1, slk_pid := pid\<rparr>))"

definition releasesleep :: "sleeplock \<Rightarrow> sleeplock" where
  "releasesleep lk = lk\<lparr>slk_locked := 0, slk_pid := 0\<rparr>"

definition holdingsleep :: "int \<Rightarrow> sleeplock \<Rightarrow> bool" where
  "holdingsleep pid lk \<longleftrightarrow> slk_locked lk \<noteq> 0 \<and> slk_pid lk = pid"

text \<open>
  Processes that use one sleep lock: who is between acquiresleep and releasesleep, and who waits.
  A wakeup makes every waiting process try again.
\<close>

record sleepers =
  slk :: sleeplock
  inside :: "int set"
  waiting :: "int set"

inductive sleep_step :: "sleepers \<Rightarrow> sleepers \<Rightarrow> bool" where
  got: "pid \<notin> inside s \<Longrightarrow> acquiresleep pid (slk s) = Some lk \<Longrightarrow>
    sleep_step s (s\<lparr>slk := lk, inside := insert pid (inside s), waiting := waiting s - {pid}\<rparr>)"
| blocked: "pid \<notin> inside s \<Longrightarrow> acquiresleep pid (slk s) = None \<Longrightarrow>
    sleep_step s (s\<lparr>waiting := insert pid (waiting s)\<rparr>)"
| left: "pid \<in> inside s \<Longrightarrow>
    sleep_step s (s\<lparr>slk := releasesleep (slk s), inside := inside s - {pid}, waiting := {}\<rparr>)"

inductive_cases sleep_stepE: "sleep_step s t"

definition sleep_inv :: "sleepers \<Rightarrow> bool" where
  "sleep_inv s \<longleftrightarrow> (slk_locked (slk s) \<noteq> 0 \<longleftrightarrow> inside s \<noteq> {}) \<and>
     (\<forall>p \<in> inside s. inside s = {p} \<and> holdingsleep p (slk s)) \<and> (waiting s \<noteq> {} \<longrightarrow> inside s \<noteq> {})"

lemma sleep_inv_step: "sleep_inv s \<Longrightarrow> sleep_step s t \<Longrightarrow> sleep_inv t"
  by (erule sleep_stepE)
    (auto simp: sleep_inv_def acquiresleep_def releasesleep_def holdingsleep_def split: if_splits)

subsection \<open>Properties\<close>

text \<open>
  C15: a spin lock gives mutual exclusion. However the instructions of any number of processors
  interleave, at most one of them is between acquire and release, it has interrupts off and is
  recorded as the holder, no processor that pairs the two calls runs into their panics, and a
  processor that has left has the interrupt flag and nesting count it came with. A processor that
  finds the lock free takes it in one exchange.
\<close>

theorem spinlock_mutual_exclusion:
  assumes "smp_step\<^sup>*\<^sup>* s0 s" "slock s0 = initlock" "\<forall>i. at_pc s0 i = Outside \<and> cpu_ok (cpus s0 i)"
  shows "(\<forall>i j. at_pc s i = Inside \<longrightarrow> at_pc s j = Inside \<longrightarrow> i = j) \<and>
    (\<forall>i. at_pc s i = Inside \<longrightarrow> \<not> fl_if (cpus s i) \<and> holding i (slock s)) \<and>
    (\<forall>i. at_pc s i \<noteq> Panicked) \<and>
    (\<forall>i. at_pc s i = Outside \<longrightarrow> fl_if (cpus s i) = fl_if (cpus s0 i) \<and> ncli (cpus s i) = ncli (cpus s0 i)) \<and>
    (\<forall>i. at_pc s i = Spinning \<longrightarrow> sl_locked (slock s) = 0 \<longrightarrow> at_pc (acquire_xchg i s) i = Acquired)"
proof -
  have "smp_inv (cpus s0) s"
    using assms(1)
  proof (induction rule: rtranclp_induct)
    case base
    then show ?case using assms(2,3) by (simp add: smp_inv_def initlock_def cli_same_def)
  next
    case (step t u)
    then show ?case using smp_inv_step by blast
  qed
  then have excl: "\<forall>i j. owns (at_pc s i) \<longrightarrow> owns (at_pc s j) \<longrightarrow> i = j"
    and held: "\<forall>i. at_pc s i = Inside \<longrightarrow> holding i (slock s)" and fine: "\<forall>i. at_pc s i \<noteq> Panicked"
    and out: "\<forall>i. at_pc s i = Outside \<longrightarrow> cli_same (cpus s0 i) (cpus s i)"
    and ins: "\<forall>i. at_pc s i \<noteq> Outside \<longrightarrow> (\<exists>c. cli_same (cpus s0 i) c \<and> cpus s i = pushcli c)"
    unfolding smp_inv_def holding_def by (blast, metis owns_simps(2), blast, blast, blast)
  have "\<not> fl_if (cpus s i)" if "at_pc s i = Inside" for i
    using that ins pushcli_ok unfolding cli_same_def by (metis pc.distinct(5))
  moreover have "at_pc (acquire_xchg i s) i = Acquired" if "sl_locked (slock s) = 0" for i
    using that by (simp add: acquire_xchg_def xchg_def)
  moreover have "\<forall>i j. at_pc s i = Inside \<longrightarrow> at_pc s j = Inside \<longrightarrow> i = j" using excl by (metis owns_simps(2))
  ultimately show ?thesis using held fine out unfolding cli_same_def by blast
qed

definition sample_smp :: smp where
  "sample_smp = \<lparr>slock = initlock, at_pc = (\<lambda>_. Outside), cpus = (\<lambda>_. \<lparr>ncli = 0, intena = False, fl_if = True\<rparr>)\<rparr>"

theorem spinlock_mutual_exclusion_witness:
  "at_pc (acquire_xchg 1 (acquire_enter 1 sample_smp)) 1 = Acquired \<and>
    fl_if (cpus (acquire_enter 1 sample_smp) 0)"
proof -
  have "smp_step\<^sup>*\<^sup>* sample_smp (acquire_enter 1 sample_smp)"
    by (intro r_into_rtranclp smp_step.enter) (simp add: sample_smp_def)
  from spinlock_mutual_exclusion [OF this] show ?thesis
    by (simp add: sample_smp_def cpu_ok_def acquire_enter_def initlock_def holding_def Let_def)
qed

text \<open>
  pushcli and popcli nest. Code that pairs them in any well-nested way runs without panic and
  leaves the nesting count and the interrupt flag as they were, and interrupts are off after
  every pushcli.
\<close>

theorem pushcli_popcli_nest:
  assumes "nested ops" "cpu_ok c"
  shows "(\<exists>c'. cli_run ops c = Inr c' \<and> ncli c' = ncli c \<and> fl_if c' = fl_if c) \<and> \<not> fl_if (pushcli c)"
  using nested_run [OF assms] pushcli_ok [OF assms(2)] by (auto simp: cli_same_def)

theorem pushcli_popcli_nest_witness:
  "\<exists>c'. cli_run [Push, Push, Pop, Pop] \<lparr>ncli = 0, intena = False, fl_if = True\<rparr> = Inr c' \<and> fl_if c'"
proof -
  have "nested [Push, Push, Pop, Pop]"
    using nested.wrap [OF nested.wrap [OF nested.empty nested.empty] nested.empty] by simp
  from pushcli_popcli_nest [OF this, of "\<lparr>ncli = 0, intena = False, fl_if = True\<rparr>"] show ?thesis
    by (auto simp: cpu_ok_def)
qed

text \<open>
  A sleep lock admits one process at a time, holdingsleep is true of exactly the process
  inside, and no process waits while the lock is free, so no wakeup is lost.
\<close>

theorem sleeplock_exclusive:
  assumes "sleep_step\<^sup>*\<^sup>* \<lparr>slk = initsleeplock, inside = {}, waiting = {}\<rparr> s"
  shows "(\<forall>p \<in> inside s. \<forall>q \<in> inside s. p = q) \<and> (\<forall>p \<in> inside s. holdingsleep p (slk s)) \<and>
    (inside s = {} \<longrightarrow> waiting s = {} \<and> (\<forall>p. \<not> holdingsleep p (slk s)))"
proof -
  have "sleep_inv s"
    using assms
  proof (induction rule: rtranclp_induct)
    case base
    then show ?case by (simp add: sleep_inv_def initsleeplock_def)
  next
    case (step t u)
    then show ?case using sleep_inv_step by blast
  qed
  then show ?thesis unfolding sleep_inv_def holdingsleep_def by blast
qed

theorem sleeplock_exclusive_witness:
  "\<exists>lk. acquiresleep 7 initsleeplock = Some lk \<and> holdingsleep 7 lk"
proof -
  let ?s = "\<lparr>slk = initsleeplock, inside = {}, waiting = {}\<rparr>"
  obtain lk where lk: "acquiresleep 7 initsleeplock = Some lk" by (simp add: acquiresleep_def initsleeplock_def)
  then have "sleep_step ?s (?s\<lparr>slk := lk, inside := {7}, waiting := {}\<rparr>)"
    using sleep_step.got [of 7 ?s lk] by simp
  from sleeplock_exclusive [OF r_into_rtranclp [of sleep_step, OF this]] lk show ?thesis by simp
qed

end
