(* ===== verification/Proc.thy ===== *)
theory Proc
  imports Kalloc
begin

text \<open>
  Processes (proc.c): the process table, creation by fork, termination by exit and wait, sleeping
  and waking, killing, and the scheduler. Every routine is a function of the state between two
  context switches; the switch itself is the update of the processor's current process. The code
  changes the states and identifiers of processes under ptable.lock, but fork gives the lock up
  between claiming its slot (EMBRYO) and making the child runnable, and fills in the child's fields
  without it. Here fork is one step, so that no step of another processor falls in between: not a
  kill that finds the identifier of the new process, and not an exit or wait that reads its parent.
  exit closes the files one after the other, and may sleep doing so, before it takes the lock; here
  that is part of the same step too. A routine that sleeps says so in its result. The page tables
  (vm.c) enter as arguments; a process name is its string; open files and inodes by their reference
  counts, which filedup, fileclose, idup and iput change. The register frames on kernel stacks are
  not modelled, apart from the trap frame that fork copies.
\<close>

subsection \<open>State\<close>

datatype procstate = UNUSED | EMBRYO | SLEEPING | RUNNABLE | RUNNING | ZOMBIE

text \<open>A sleep channel is the address of a process table entry or of some other kernel object.\<close>

datatype chan = ChanProc nat | ChanAddr u32

record trapframe =
  r_eax :: u32
  r_rest :: "u32 list"

record proc =
  p_sz :: u32
  p_pgdir :: u32
  p_kstack :: u32
  p_state :: procstate
  p_pid :: int
  p_parent :: "nat option"
  p_tf :: trapframe
  p_chan :: "chan option"
  p_killed :: int
  p_ofile :: "nat option list"
  p_cwd :: "nat option"
  p_name :: "u8 list"

record ksys =
  ptab :: "proc list"
  nextpid :: int
  initproc :: "nat option"
  cpu_proc :: "nat \<Rightarrow> nat option"
  pages :: kmem
  frefs :: "nat \<Rightarrow> int"
  irefs :: "nat \<Rightarrow> int"

abbreviation NPROC :: nat where
  "NPROC \<equiv> 64"

abbreviation NOFILE :: nat where
  "NOFILE \<equiv> 16"

definition upd_proc :: "nat \<Rightarrow> (proc \<Rightarrow> proc) \<Rightarrow> ksys \<Rightarrow> ksys" where
  "upd_proc i f s = s\<lparr>ptab := (ptab s)[i := f (ptab s ! i)]\<rparr>"

definition myproc :: "nat \<Rightarrow> ksys \<Rightarrow> nat option" where
  "myproc c s = cpu_proc s c"

subsection \<open>Creation\<close>

text \<open>The scan of the table, and then the slot that is claimed before its kernel stack is allocated.\<close>

definition allocproc :: "ksys \<Rightarrow> nat option \<times> ksys" where
  "allocproc s =
     (case scan_from (\<lambda>p. p_state p = UNUSED) 0 (ptab s) of
        None \<Rightarrow> (None, s)
      | Some i \<Rightarrow>
          let s = upd_proc i (\<lambda>p. p\<lparr>p_state := EMBRYO, p_pid := nextpid s\<rparr>) s;
              s = s\<lparr>nextpid := s32 (nextpid s + 1)\<rparr>;
              (page, mem) = kalloc (pages s);
              s = upd_proc i (\<lambda>p. p\<lparr>p_kstack := page\<rparr>) (s\<lparr>pages := mem\<rparr>)
          in if page = 0 then (None, upd_proc i (\<lambda>p. p\<lparr>p_state := UNUSED\<rparr>) s)
             else (Some i, s))"

text \<open>The first process: \<open>pgdir\<close> is what setupkvm returned, \<open>root\<close> the inode of the root directory.\<close>

definition userinit :: "u32 \<Rightarrow> trapframe \<Rightarrow> nat \<Rightarrow> u8 list \<Rightarrow> ksys \<Rightarrow> ksys res" where
  "userinit pgdir frame root initname s =
     (case allocproc s of
        (None, s) \<Rightarrow> Inl Bounds
      | (Some i, s) \<Rightarrow>
          let s = s\<lparr>initproc := Some i\<rparr> in
          if pgdir = 0 then Inl (Panic ''userinit: out of memory?'')
          else Inr (upd_proc i (\<lambda>p. p\<lparr>p_pgdir := pgdir, p_sz := 4096, p_tf := frame, p_name := initname,
                 p_cwd := Some root, p_state := RUNNABLE\<rparr>) s))"

text \<open>allocuvm and deallocuvm: the new size, or 0.\<close>

definition growproc :: "(u32 \<Rightarrow> u32 \<Rightarrow> u32 \<Rightarrow> u32) \<Rightarrow> (u32 \<Rightarrow> u32 \<Rightarrow> u32 \<Rightarrow> u32) \<Rightarrow> nat \<Rightarrow> int \<Rightarrow> ksys \<Rightarrow> int \<times> ksys" where
  "growproc allocuvm deallocuvm i n s =
     (let p = ptab s ! i;
          sz = (if n > 0 then allocuvm (p_pgdir p) (p_sz p) (p_sz p + word_of_int n)
                else if n < 0 then deallocuvm (p_pgdir p) (p_sz p) (p_sz p + word_of_int n)
                else p_sz p)
      in if n \<noteq> 0 \<and> sz = 0 then (-1, s) else (0, upd_proc i (\<lambda>p. p\<lparr>p_sz := sz\<rparr>) s))"

text \<open>filedup of every open file: the copied table and the new counts.\<close>

fun dup_files :: "nat option list \<Rightarrow> (nat \<Rightarrow> int) \<Rightarrow> (nat option list \<times> (nat \<Rightarrow> int)) res" where
  "dup_files [] fr = Inr ([], fr)"
| "dup_files (None # fs) fr = bindR (dup_files fs fr) (\<lambda>(gs, fr). Inr (None # gs, fr))"
| "dup_files (Some f # fs) fr =
     (if fr f < 1 then Inl (Panic ''filedup'')
      else bindR (dup_files fs (fr(f := fr f + 1))) (\<lambda>(gs, fr). Inr (Some f # gs, fr)))"

text \<open>
  A slot the child does not copy into keeps what the slot held: \<open>np->ofile[i]\<close> is assigned only
  where the parent has a file.
\<close>

fun merge_files :: "nat option list \<Rightarrow> nat option list \<Rightarrow> nat option list" where
  "merge_files (Some f # fs) (_ # gs) = Some f # merge_files fs gs"
| "merge_files (None # fs) (g # gs) = g # merge_files fs gs"
| "merge_files [] gs = gs"
| "merge_files fs [] = fs"

text \<open>\<open>copyuvm\<close> returns the copied page directory, or 0, and the remaining pages.\<close>

definition fork :: "u32 \<Rightarrow> (u32 \<Rightarrow> u32 \<Rightarrow> kmem \<Rightarrow> u32 \<times> kmem) \<Rightarrow> nat \<Rightarrow> ksys \<Rightarrow> (int \<times> ksys) res" where
  "fork kend copyuvm cur s =
     (case allocproc s of
        (None, s) \<Rightarrow> Inr (-1, s)
      | (Some np, s) \<Rightarrow>
          let curproc = ptab s ! cur;
              (pgdir, mem) = copyuvm (p_pgdir curproc) (p_sz curproc) (pages s);
              s = upd_proc np (\<lambda>p. p\<lparr>p_pgdir := pgdir\<rparr>) (s\<lparr>pages := mem\<rparr>)
          in if pgdir = 0
             then bindR (kfree kend (p_kstack (ptab s ! np)) (pages s)) (\<lambda>mem.
                  Inr (-1, upd_proc np (\<lambda>p. p\<lparr>p_kstack := 0, p_state := UNUSED\<rparr>) (s\<lparr>pages := mem\<rparr>)))
             else bindR (dup_files (p_ofile curproc) (frefs s)) (\<lambda>(fs, fr).
                  let s = upd_proc np (\<lambda>p. p\<lparr>p_sz := p_sz curproc, p_parent := Some cur,
                            p_tf := (p_tf curproc)\<lparr>r_eax := 0\<rparr>, p_ofile := merge_files fs (p_ofile p),
                            p_cwd := p_cwd curproc, p_name := p_name curproc\<rparr>)
                          (s\<lparr>frefs := fr,
                             irefs := (case p_cwd curproc of None \<Rightarrow> irefs s
                                       | Some d \<Rightarrow> (irefs s)(d := irefs s d + 1))\<rparr>)
                  in Inr (p_pid (ptab s ! np), upd_proc np (\<lambda>p. p\<lparr>p_state := RUNNABLE\<rparr>) s)))"

subsection \<open>Sleeping, waking and scheduling\<close>

definition wakeup1 :: "chan \<Rightarrow> ksys \<Rightarrow> ksys" where
  "wakeup1 ch s = s\<lparr>ptab := map (\<lambda>p. if p_state p = SLEEPING \<and> p_chan p = Some ch
     then p\<lparr>p_state := RUNNABLE\<rparr> else p) (ptab s)\<rparr>"

definition wakeup :: "chan \<Rightarrow> ksys \<Rightarrow> ksys" where
  "wakeup ch s = wakeup1 ch s"

text \<open>Leaving the processor; the locking conditions that sched also checks belong to the lock model.\<close>

definition sched :: "nat \<Rightarrow> nat \<Rightarrow> ksys \<Rightarrow> ksys res" where
  "sched c i s =
     (if p_state (ptab s ! i) = RUNNING then Inl (Panic ''sched running'')
      else Inr (s\<lparr>cpu_proc := (cpu_proc s)(c := None)\<rparr>))"

definition yield :: "nat \<Rightarrow> ksys \<Rightarrow> ksys res" where
  "yield c s =
     (case myproc c s of None \<Rightarrow> Inl Bounds
      | Some i \<Rightarrow> sched c i (upd_proc i (\<lambda>p. p\<lparr>p_state := RUNNABLE\<rparr>) s))"

text \<open>The part of sleep before the switch, and the part after it.\<close>

definition sleep :: "nat \<Rightarrow> chan \<Rightarrow> ksys \<Rightarrow> ksys res" where
  "sleep c ch s =
     (case myproc c s of None \<Rightarrow> Inl (Panic ''sleep'')
      | Some i \<Rightarrow> sched c i (upd_proc i (\<lambda>p. p\<lparr>p_chan := Some ch, p_state := SLEEPING\<rparr>) s))"

definition sleep_tidy :: "nat \<Rightarrow> ksys \<Rightarrow> ksys" where
  "sleep_tidy i s = upd_proc i (\<lambda>p. p\<lparr>p_chan := None\<rparr>) s"

text \<open>
  One turn of the scheduler's inner loop from table position k on: the next RUNNABLE process is
  switched to, where it first tidies up if it had been asleep. None: the pass over the table ends.
\<close>

definition scheduler :: "nat \<Rightarrow> nat \<Rightarrow> ksys \<Rightarrow> (nat \<times> ksys) option" where
  "scheduler c k s =
     (case scan_from (\<lambda>p. p_state p = RUNNABLE) k (drop k (ptab s)) of
        None \<Rightarrow> None
      | Some i \<Rightarrow>
          Some (Suc i, sleep_tidy i (upd_proc i (\<lambda>p. p\<lparr>p_state := RUNNING\<rparr>)
                  (s\<lparr>cpu_proc := (cpu_proc s)(c := Some i)\<rparr>))))"

definition kill :: "int \<Rightarrow> ksys \<Rightarrow> int \<times> ksys" where
  "kill pid s =
     (case scan_from (\<lambda>p. p_pid p = pid) 0 (ptab s) of
        None \<Rightarrow> (-1, s)
      | Some i \<Rightarrow> (0, upd_proc i (\<lambda>p. p\<lparr>p_killed := 1,
          p_state := (if p_state p = SLEEPING then RUNNABLE else p_state p)\<rparr>) s))"

subsection \<open>Termination\<close>

definition close_files :: "nat option list \<Rightarrow> (nat \<Rightarrow> int) \<Rightarrow> (nat \<Rightarrow> int) res" where
  "close_files fs fr = forR [0..<length fs]
     (\<lambda>i fr. case fs ! i of None \<Rightarrow> Inr fr
        | Some f \<Rightarrow> if fr f < 1 then Inl (Panic ''fileclose'') else Inr (fr(f := fr f - 1))) fr"

text \<open>The loop of exit over the table: children of i go to init, which is woken for a zombie.\<close>

fun reparent :: "nat list \<Rightarrow> nat \<Rightarrow> ksys \<Rightarrow> ksys" where
  "reparent [] i s = s"
| "reparent (j # js) i s =
     (if p_parent (ptab s ! j) = Some i
      then let s = upd_proc j (\<lambda>p. p\<lparr>p_parent := initproc s\<rparr>) s;
               s = (if p_state (ptab s ! j) = ZOMBIE
                    then case initproc s of Some ip \<Rightarrow> wakeup1 (ChanProc ip) s | None \<Rightarrow> s
                    else s)
           in reparent js i s
      else reparent js i s)"

definition exit :: "nat \<Rightarrow> ksys \<Rightarrow> ksys res" where
  "exit c s =
     (case myproc c s of None \<Rightarrow> Inl Bounds
      | Some i \<Rightarrow>
          if initproc s = Some i then Inl (Panic ''init exiting'')
          else bindR (close_files (p_ofile (ptab s ! i)) (frefs s)) (\<lambda>fr.
            let s = s\<lparr>frefs := fr\<rparr>;
                ir = (case p_cwd (ptab s ! i) of None \<Rightarrow> irefs s | Some d \<Rightarrow> (irefs s)(d := irefs s d - 1));
                s = upd_proc i (\<lambda>p. p\<lparr>p_ofile := replicate NOFILE None, p_cwd := None\<rparr>) (s\<lparr>irefs := ir\<rparr>);
                s = (case p_parent (ptab s ! i) of Some q \<Rightarrow> wakeup1 (ChanProc q) s | None \<Rightarrow> s);
                s = reparent [0..<NPROC] i s;
                s = upd_proc i (\<lambda>p. p\<lparr>p_state := ZOMBIE\<rparr>) s
            in sched c i s))"

datatype wait_out = Reaped int | NoChildren | WaitSleeps

text \<open>One round of the loop of wait; freevm returns the pages that remain free.\<close>

definition wait :: "u32 \<Rightarrow> (u32 \<Rightarrow> kmem \<Rightarrow> kmem) \<Rightarrow> nat \<Rightarrow> ksys \<Rightarrow> (wait_out \<times> ksys) res" where
  "wait kend freevm c s =
     (case myproc c s of None \<Rightarrow> Inl Bounds
      | Some i \<Rightarrow>
          (case scan_from (\<lambda>p. p_parent p = Some i \<and> p_state p = ZOMBIE) 0 (ptab s) of
             Some j \<Rightarrow>
               let p = ptab s ! j in
               bindR (kfree kend (p_kstack p) (pages s)) (\<lambda>mem.
                 Inr (Reaped (p_pid p), upd_proc j (\<lambda>p. p\<lparr>p_kstack := 0, p_pid := 0, p_parent := None,
                     p_name := [], p_killed := 0, p_state := UNUSED\<rparr>)
                   (s\<lparr>pages := freevm (p_pgdir p) mem\<rparr>)))
           | None \<Rightarrow>
               if (\<forall>p \<in> set (ptab s). p_parent p \<noteq> Some i) \<or> p_killed (ptab s ! i) \<noteq> 0
               then Inr (NoChildren, s)
               else bindR (sleep c (ChanProc i) s) (\<lambda>s. Inr (WaitSleeps, s))))"

subsection \<open>Invariants\<close>

abbreviation st :: "ksys \<Rightarrow> nat \<Rightarrow> procstate" where
  "st s i \<equiv> p_state (ptab s ! i)"

definition live :: "procstate \<Rightarrow> bool" where
  "live p \<longleftrightarrow> p = SLEEPING \<or> p = RUNNABLE \<or> p = RUNNING"

lemma live_simps [simp]: "live SLEEPING" "live RUNNABLE" "live RUNNING" "\<not> live UNUSED" "\<not> live EMBRYO" "\<not> live ZOMBIE"
  by (simp_all add: live_def)

text \<open>Process identifiers in use are positive, below the next one, and distinct.\<close>

definition pids_ok :: "ksys \<Rightarrow> bool" where
  "pids_ok s \<longleftrightarrow> 0 < nextpid s \<and>
     (\<forall>i < NPROC. st s i \<noteq> UNUSED \<longrightarrow> 0 < p_pid (ptab s ! i) \<and> p_pid (ptab s ! i) < nextpid s) \<and>
     (\<forall>i < NPROC. \<forall>j < NPROC. i \<noteq> j \<longrightarrow> st s i \<noteq> UNUSED \<longrightarrow> st s j \<noteq> UNUSED \<longrightarrow>
        p_pid (ptab s ! i) \<noteq> p_pid (ptab s ! j))"

text \<open>The running processes are exactly those that a processor runs, each on one processor.\<close>

definition cpus_ok :: "ksys \<Rightarrow> bool" where
  "cpus_ok s \<longleftrightarrow> (\<forall>c i. cpu_proc s c = Some i \<longrightarrow> i < NPROC \<and> st s i = RUNNING) \<and>
     (\<forall>i < NPROC. st s i = RUNNING \<longrightarrow> (\<exists>c. cpu_proc s c = Some i)) \<and>
     (\<forall>c d i. cpu_proc s c = Some i \<longrightarrow> cpu_proc s d = Some i \<longrightarrow> c = d)"

text \<open>
  Every process but init has a live parent, which is not itself, and a free slot has none.
\<close>

definition tree_ok :: "ksys \<Rightarrow> bool" where
  "tree_ok s \<longleftrightarrow> initproc s \<noteq> None \<and>
     (\<forall>ip. initproc s = Some ip \<longrightarrow> ip < NPROC \<and> live (st s ip) \<and> p_parent (ptab s ! ip) = None) \<and>
     (\<forall>i < NPROC. st s i \<noteq> UNUSED \<longrightarrow> initproc s \<noteq> Some i \<longrightarrow> p_parent (ptab s ! i) \<noteq> None) \<and>
     (\<forall>i < NPROC. st s i = UNUSED \<longrightarrow> p_parent (ptab s ! i) = None) \<and>
     (\<forall>i < NPROC. \<forall>q. p_parent (ptab s ! i) = Some q \<longrightarrow> q < NPROC \<and> live (st s q) \<and> q \<noteq> i)"

text \<open>A process asleep in wait sleeps on its own table entry and has no child to reap.\<close>

definition waits_ok :: "ksys \<Rightarrow> bool" where
  "waits_ok s \<longleftrightarrow> (\<forall>i < NPROC. \<forall>k. st s i = SLEEPING \<longrightarrow> p_chan (ptab s ! i) = Some (ChanProc k) \<longrightarrow>
     k = i \<and> (\<forall>j < NPROC. p_parent (ptab s ! j) = Some i \<longrightarrow> st s j \<noteq> ZOMBIE))"

definition proc_inv :: "ksys \<Rightarrow> bool" where
  "proc_inv s \<longleftrightarrow> length (ptab s) = NPROC \<and> pids_ok s \<and> cpus_ok s \<and> tree_ok s \<and> waits_ok s"

text \<open>The parts of the tree invariant, one by one.\<close>

lemma tree_init: "tree_ok s \<Longrightarrow> initproc s = Some ip \<Longrightarrow> ip < NPROC \<and> live (st s ip) \<and> p_parent (ptab s ! ip) = None"
  and tree_init_Some: "tree_ok s \<Longrightarrow> \<exists>ip. initproc s = Some ip"
  and tree_has_parent: "tree_ok s \<Longrightarrow> i < NPROC \<Longrightarrow> st s i \<noteq> UNUSED \<Longrightarrow> initproc s \<noteq> Some i \<Longrightarrow> \<exists>q. p_parent (ptab s ! i) = Some q"
  and tree_unused: "tree_ok s \<Longrightarrow> i < NPROC \<Longrightarrow> st s i = UNUSED \<Longrightarrow> p_parent (ptab s ! i) = None"
  and tree_parent: "tree_ok s \<Longrightarrow> i < NPROC \<Longrightarrow> p_parent (ptab s ! i) = Some q \<Longrightarrow> q < NPROC \<and> live (st s q) \<and> q \<noteq> i"
  unfolding tree_ok_def by blast+

lemma upd_nth: "i < length (ptab s) \<Longrightarrow> ptab (upd_proc i f s) ! j = (if i = j then f (ptab s ! i) else ptab s ! j)"
  by (simp add: upd_proc_def nth_list_update)

lemma upd_proc_fields [simp]:
  "length (ptab (upd_proc i f s)) = length (ptab s)" "nextpid (upd_proc i f s) = nextpid s"
  "initproc (upd_proc i f s) = initproc s" "cpu_proc (upd_proc i f s) = cpu_proc s"
  "pages (upd_proc i f s) = pages s" "frefs (upd_proc i f s) = frefs s" "irefs (upd_proc i f s) = irefs s"
  by (simp_all add: upd_proc_def)

text \<open>The invariant speaks of the table, the next identifier, init and the processors only.\<close>

lemma proc_inv_frame:
  "ptab s' = ptab s \<Longrightarrow> nextpid s' = nextpid s \<Longrightarrow> initproc s' = initproc s \<Longrightarrow> cpu_proc s' = cpu_proc s \<Longrightarrow>
    proc_inv s' = proc_inv s"
  by (simp add: proc_inv_def pids_ok_def cpus_ok_def tree_ok_def waits_ok_def)

lemmas inv_defs = proc_inv_def pids_ok_def cpus_ok_def tree_ok_def waits_ok_def

text \<open>Which parts a change of one entry needs.\<close>

lemma myproc_running:
  assumes "proc_inv s" "myproc c s = Some i"
  shows "i < NPROC" "st s i = RUNNING" "length (ptab s) = NPROC"
  using assms by (auto simp: proc_inv_def cpus_ok_def myproc_def)

lemma wakeup1_nth:
  "i < length (ptab s) \<Longrightarrow> ptab (wakeup1 ch s) ! i =
    (if st s i = SLEEPING \<and> p_chan (ptab s ! i) = Some ch then (ptab s ! i)\<lparr>p_state := RUNNABLE\<rparr> else ptab s ! i)"
  by (simp add: wakeup1_def)

lemma wakeup1_fields [simp]:
  "length (ptab (wakeup1 ch s)) = length (ptab s)" "nextpid (wakeup1 ch s) = nextpid s"
  "initproc (wakeup1 ch s) = initproc s" "cpu_proc (wakeup1 ch s) = cpu_proc s" "pages (wakeup1 ch s) = pages s"
  by (simp_all add: wakeup1_def)

text \<open>Waking processes, in whatever number, keeps the invariant.\<close>

lemma woken_inv:
  assumes "proc_inv s" "length (ptab s') = length (ptab s)"
    and same: "\<And>i. i < NPROC \<Longrightarrow> p_pid (ptab s' ! i) = p_pid (ptab s ! i) \<and>
      p_parent (ptab s' ! i) = p_parent (ptab s ! i) \<and> p_chan (ptab s' ! i) = p_chan (ptab s ! i) \<and>
      (st s' i = st s i \<or> st s i = SLEEPING \<and> st s' i = RUNNABLE)"
    and "nextpid s' = nextpid s" "initproc s' = initproc s" "cpu_proc s' = cpu_proc s"
  shows "proc_inv s'"
proof -
  have inv: "pids_ok s" "cpus_ok s" "tree_ok s" "waits_ok s" "length (ptab s) = NPROC"
    using assms(1) by (simp_all add: proc_inv_def)
  have un: "st s' i = UNUSED \<longleftrightarrow> st s i = UNUSED" and run: "st s' i = RUNNING \<longleftrightarrow> st s i = RUNNING"
    and zom: "st s' i = ZOMBIE \<longleftrightarrow> st s i = ZOMBIE" and lv: "live (st s' i) = live (st s i)"
    and sl: "st s' i = SLEEPING \<Longrightarrow> st s i = SLEEPING" if "i < NPROC" for i
    using same [OF that] by auto
  have "pids_ok s'" using inv(1) same un assms(4) unfolding pids_ok_def by metis
  moreover have "cpus_ok s'" using inv(2) run assms(6) unfolding cpus_ok_def by metis
  moreover have par: "p_parent (ptab s' ! i) = p_parent (ptab s ! i)" if "i < NPROC" for i using same [OF that] by blast
  have "tree_ok s' = tree_ok s" unfolding tree_ok_def assms(5) by (simp add: par un lv cong: conj_cong)
  with inv(3) have "tree_ok s'" by simp
  moreover have "waits_ok s'" using inv(4) same sl zom unfolding waits_ok_def by metis
  ultimately show ?thesis using inv(5) assms(2) by (simp add: proc_inv_def)
qed

lemma wakeup1_inv: "proc_inv s \<Longrightarrow> proc_inv (wakeup1 ch s)"
  by (rule woken_inv [of s]) (auto simp: wakeup1_nth proc_inv_def)

lemma kill_inv:
  assumes "proc_inv s" "kill n s = (v, s')"
  shows "proc_inv s'"
proof (cases "scan_from (\<lambda>p. p_pid p = n) 0 (ptab s)")
  case None
  then show ?thesis using assms by (simp add: kill_def)
next
  case (Some i)
  then have "i < length (ptab s)" by (simp add: scan_0_Some)
  with Some assms show ?thesis by (intro woken_inv [OF assms(1)]) (auto simp: kill_def upd_nth split: if_splits)
qed

text \<open>A live process that stays live: giving up the processor, falling asleep, being scheduled.\<close>

lemma switch_inv:
  assumes inv: "proc_inv s" and i: "i < NPROC" "live (st s i)"
    and s': "ptab s' = (ptab s)[i := p']" "nextpid s' = nextpid s" "initproc s' = initproc s"
    and p': "p_pid p' = p_pid (ptab s ! i)" "p_parent p' = p_parent (ptab s ! i)" "live (p_state p')"
    and c: "cpus_ok s'"
    and w: "\<And>k. p_state p' = SLEEPING \<Longrightarrow> p_chan p' = Some (ChanProc k) \<Longrightarrow>
      k = i \<and> (\<forall>j < NPROC. p_parent (ptab s ! j) = Some i \<longrightarrow> st s j \<noteq> ZOMBIE)"
  shows "proc_inv s'"
proof -
  have l: "length (ptab s) = NPROC" using inv by (simp add: proc_inv_def)
  have nth: "ptab s' ! j = (if j = i then p' else ptab s ! j)" if "j < NPROC" for j
    using that l s'(1) by (simp add: nth_list_update)
  have pid: "p_pid (ptab s' ! j) = p_pid (ptab s ! j)" and par: "p_parent (ptab s' ! j) = p_parent (ptab s ! j)"
    and un: "st s' j = UNUSED \<longleftrightarrow> st s j = UNUSED" and lv: "live (st s' j) = live (st s j)"
    and zom: "st s' j = ZOMBIE \<longleftrightarrow> st s j = ZOMBIE" if "j < NPROC" for j
    using nth [OF that] p' i(2) by (auto simp: live_def)
  have "pids_ok s' = pids_ok s" unfolding pids_ok_def s'(2) by (simp add: pid un cong: conj_cong)
  moreover have "tree_ok s' = tree_ok s" unfolding tree_ok_def s'(3) by (simp add: par un lv cong: conj_cong)
  moreover have "waits_ok s'"
    unfolding waits_ok_def
  proof (intro allI impI)
    fix j k
    assume j: "j < NPROC" "st s' j = SLEEPING" "p_chan (ptab s' ! j) = Some (ChanProc k)"
    have "k = j \<and> (\<forall>m < NPROC. p_parent (ptab s ! m) = Some j \<longrightarrow> st s m \<noteq> ZOMBIE)"
    proof (cases "j = i")
      case True
      then show ?thesis using w j nth by simp
    next
      case False
      then show ?thesis using inv j nth unfolding proc_inv_def waits_ok_def by simp
    qed
    then show "k = j \<and> (\<forall>m < NPROC. p_parent (ptab s' ! m) = Some j \<longrightarrow> st s' m \<noteq> ZOMBIE)"
      using par zom by metis
  qed
  ultimately show ?thesis using inv c l s'(1) by (simp add: proc_inv_def)
qed

lemma cpus_ok_leave:
  assumes "cpus_ok s" "cpu_proc s c = Some i" "length (ptab s) = NPROC" "p_state p' \<noteq> RUNNING"
    and "cpu_proc s' = (cpu_proc s)(c := None)" "ptab s' = (ptab s)[i := p']"
  shows "cpus_ok s'"
proof -
  have nth: "ptab s' ! j = (if j = i then p' else ptab s ! j)" if "j < NPROC" for j
    using that assms(3,6) by (simp add: nth_list_update)
  have ok: "\<And>d j. cpu_proc s d = Some j \<Longrightarrow> j < NPROC \<and> st s j = RUNNING"
    "\<And>j. j < NPROC \<Longrightarrow> st s j = RUNNING \<Longrightarrow> \<exists>d. cpu_proc s d = Some j"
    "\<And>d e j. cpu_proc s d = Some j \<Longrightarrow> cpu_proc s e = Some j \<Longrightarrow> d = e"
    using assms(1) unfolding cpus_ok_def by blast+
  have cp: "cpu_proc s' d = Some j \<longleftrightarrow> d \<noteq> c \<and> cpu_proc s d = Some j" for d j by (simp add: assms(5))
  have st': "st s' j = RUNNING \<longleftrightarrow> j \<noteq> i \<and> st s j = RUNNING" if "j < NPROC" for j
    using nth [OF that] assms(4) by simp
  have "j < NPROC \<and> st s' j = RUNNING" if "cpu_proc s' d = Some j" for d j
    using that ok(1) [of d j] ok(3) [of d i c] assms(2) st' [of j] unfolding cp by blast
  moreover have "\<exists>d. cpu_proc s' d = Some j" if j: "j < NPROC" "st s' j = RUNNING" for j
  proof -
    obtain d where "cpu_proc s d = Some j" "j \<noteq> i" using ok(2) j st' by blast
    then show ?thesis using assms(2) cp by (metis option.inject)
  qed
  moreover have "d = e" if "cpu_proc s' d = Some j" "cpu_proc s' e = Some j" for d e j
    using that ok(3) unfolding cp by blast
  ultimately show ?thesis unfolding cpus_ok_def by blast
qed

lemma cpus_ok_enter:
  assumes "cpus_ok s" "cpu_proc s c = None" "length (ptab s) = NPROC" "i < NPROC" "st s i \<noteq> RUNNING" "p_state p' = RUNNING"
    and "cpu_proc s' = (cpu_proc s)(c := Some i)" "ptab s' = (ptab s)[i := p']"
  shows "cpus_ok s'"
proof -
  have nth: "ptab s' ! j = (if j = i then p' else ptab s ! j)" if "j < NPROC" for j
    using that assms(3,8) by (simp add: nth_list_update)
  have ok: "\<And>d j. cpu_proc s d = Some j \<Longrightarrow> j < NPROC \<and> st s j = RUNNING"
    "\<And>j. j < NPROC \<Longrightarrow> st s j = RUNNING \<Longrightarrow> \<exists>d. cpu_proc s d = Some j"
    "\<And>d e j. cpu_proc s d = Some j \<Longrightarrow> cpu_proc s e = Some j \<Longrightarrow> d = e"
    using assms(1) unfolding cpus_ok_def by blast+
  have cp: "cpu_proc s' d = Some j \<longleftrightarrow> d = c \<and> j = i \<or> d \<noteq> c \<and> cpu_proc s d = Some j" for d j
    by (auto simp: assms(7))
  have st': "st s' j = RUNNING \<longleftrightarrow> j = i \<or> st s j = RUNNING" if "j < NPROC" for j
    using nth [OF that] assms(6) by simp
  have "j < NPROC \<and> st s' j = RUNNING" if "cpu_proc s' d = Some j" for d j
    using that ok(1) [of d j] st' [of j] assms(4) unfolding cp by blast
  moreover have "\<exists>d. cpu_proc s' d = Some j" if j: "j < NPROC" "st s' j = RUNNING" for j
  proof (cases "j = i")
    case True
    then show ?thesis using cp by blast
  next
    case False
    then obtain d where "cpu_proc s d = Some j" using ok(2) j st' by blast
    then show ?thesis using assms(2) cp by (metis option.distinct(1))
  qed
  moreover have "d = e" if "cpu_proc s' d = Some j" "cpu_proc s' e = Some j" for d e j
    using that ok(1) [of d j] ok(1) [of e j] ok(3) [of d j e] assms(5) unfolding cp by blast
  ultimately show ?thesis unfolding cpus_ok_def by blast
qed

lemma sched_leave:
  assumes "proc_inv s" "myproc c s = Some i" "p_state p' = RUNNABLE \<or> p_state p' = SLEEPING"
    "p_pid p' = p_pid (ptab s ! i)" "p_parent p' = p_parent (ptab s ! i)"
    "sched c i (s\<lparr>ptab := (ptab s)[i := p']\<rparr>) = Inr s'"
    and w: "\<And>k. p_state p' = SLEEPING \<Longrightarrow> p_chan p' = Some (ChanProc k) \<Longrightarrow>
      k = i \<and> (\<forall>j < NPROC. p_parent (ptab s ! j) = Some i \<longrightarrow> st s j \<noteq> ZOMBIE)"
  shows "proc_inv s'"
proof -
  note m = myproc_running [OF assms(1,2)]
  have s': "s' = s\<lparr>ptab := (ptab s)[i := p'], cpu_proc := (cpu_proc s)(c := None)\<rparr>"
    using assms(6) by (simp add: sched_def split: if_splits)
  have nr: "p_state p' \<noteq> RUNNING" and lv: "live (p_state p')" using assms(3) by auto
  have f: "ptab s' = (ptab s)[i := p']" "nextpid s' = nextpid s" "initproc s' = initproc s"
    "cpu_proc s' = (cpu_proc s)(c := None)" by (simp_all add: s')
  have "cpus_ok s" "cpu_proc s c = Some i" "live (st s i)"
    using assms(1,2) m(2) by (simp_all add: proc_inv_def myproc_def)
  then show ?thesis
    using switch_inv [OF assms(1) m(1) _ f(1-3) assms(4,5) lv] cpus_ok_leave [OF _ _ m(3) nr f(4,1)] w by blast
qed

lemma yield_inv: "proc_inv s \<Longrightarrow> yield c s = Inr s' \<Longrightarrow> proc_inv s'"
  by (auto simp: yield_def upd_proc_def split: option.splits elim!: sched_leave [rotated 5])

lemma sleep_inv:
  assumes "proc_inv s" "sleep c ch s = Inr s'"
    "\<And>i k. myproc c s = Some i \<Longrightarrow> ch = ChanProc k \<Longrightarrow>
      k = i \<and> (\<forall>j < NPROC. p_parent (ptab s ! j) = Some i \<longrightarrow> st s j \<noteq> ZOMBIE)"
  shows "proc_inv s'"
  using assms by (auto simp: sleep_def upd_proc_def split: option.splits elim!: sched_leave [rotated 5])

lemma scheduler_inv:
  assumes "proc_inv s" "cpu_proc s c = None" "scheduler c k s = Some (k', s')"
  shows "proc_inv s'"
proof -
  have l: "length (ptab s) = NPROC" using assms(1) by (simp add: proc_inv_def)
  obtain i where i: "scan_from (\<lambda>p. p_state p = RUNNABLE) k (drop k (ptab s)) = Some i"
    and s': "s' = sleep_tidy i (upd_proc i (\<lambda>p. p\<lparr>p_state := RUNNING\<rparr>) (s\<lparr>cpu_proc := (cpu_proc s)(c := Some i)\<rparr>))"
    using assms(3) by (auto simp: scheduler_def split: option.splits)
  have r: "i < NPROC" "st s i = RUNNABLE" using i l by (auto simp: scan_from_Some)
  let ?p = "(ptab s ! i)\<lparr>p_state := RUNNING, p_chan := None\<rparr>"
  have t: "ptab s' = (ptab s)[i := ?p]" "nextpid s' = nextpid s" "initproc s' = initproc s"
    "cpu_proc s' = (cpu_proc s)(c := Some i)"
    using r(1) l by (simp_all add: s' sleep_tidy_def upd_proc_def)
  have "cpus_ok s" using assms(1) by (simp add: proc_inv_def)
  then have "cpus_ok s'" by (rule cpus_ok_enter [OF _ assms(2) l r(1) _ _ t(4,1)]) (simp_all add: r(2))
  with switch_inv [OF assms(1) r(1) _ t(1-3)] r(2) show ?thesis by simp
qed

lemma cpus_ok_cong:
  assumes "\<And>j. j < NPROC \<Longrightarrow> st s' j = RUNNING \<longleftrightarrow> st s j = RUNNING" "cpu_proc s' = cpu_proc s"
  shows "cpus_ok s' = cpus_ok s"
  unfolding cpus_ok_def assms(2) by (simp add: assms(1) cong: conj_cong)

lemma waits_ok_frame:
  assumes "waits_ok s"
    and "\<And>j. j < NPROC \<Longrightarrow> st s' j = SLEEPING \<Longrightarrow> st s j = SLEEPING \<and> p_chan (ptab s' ! j) = p_chan (ptab s ! j)"
    and "\<And>j m. j < NPROC \<Longrightarrow> m < NPROC \<Longrightarrow> st s' j = SLEEPING \<Longrightarrow> p_chan (ptab s' ! j) = Some (ChanProc j) \<Longrightarrow>
      p_parent (ptab s' ! m) = Some j \<Longrightarrow> st s' m = ZOMBIE \<Longrightarrow> p_parent (ptab s ! m) = Some j \<and> st s m = ZOMBIE"
  shows "waits_ok s'"
  unfolding waits_ok_def
proof (intro allI impI conjI)
  fix j k
  assume j: "j < NPROC" "st s' j = SLEEPING" "p_chan (ptab s' ! j) = Some (ChanProc k)"
  then have w: "k = j" "\<And>m. m < NPROC \<Longrightarrow> p_parent (ptab s ! m) = Some j \<Longrightarrow> st s m \<noteq> ZOMBIE"
    using assms(1,2) unfolding waits_ok_def by metis+
  then show "k = j" by blast
  show "st s' m \<noteq> ZOMBIE" if "m < NPROC" "p_parent (ptab s' ! m) = Some j" for m
    using assms(3) [of j m] w j that by blast
qed

text \<open>A slot that no live process occupies becomes, or stays, free.\<close>

lemma free_slot_inv:
  assumes inv: "proc_inv s" and i: "i < NPROC" "\<not> live (st s i)"
    and s': "ptab s' = (ptab s)[i := p']" "nextpid s \<le> nextpid s'" "initproc s' = initproc s" "cpu_proc s' = cpu_proc s"
    and p': "p_state p' = UNUSED" "p_parent p' = None"
  shows "proc_inv s'"
proof -
  have l: "length (ptab s) = NPROC" and ok: "pids_ok s" "cpus_ok s" "tree_ok s" "waits_ok s"
    using inv by (simp_all add: proc_inv_def)
  have nth: "ptab s' ! j = (if j = i then p' else ptab s ! j)" if "j < NPROC" for j
    using that l s'(1) by (simp add: nth_list_update)
  have ne: "j \<noteq> i" if "live (st s j)" for j using that i(2) by auto
  have un: "st s' j \<noteq> UNUSED \<Longrightarrow> j \<noteq> i \<and> ptab s' ! j = ptab s ! j" if "j < NPROC" for j
    using nth [OF that] p'(1) by (cases "j = i") simp_all
  have pr: "p_parent (ptab s' ! j) = Some q \<Longrightarrow> j \<noteq> i \<and> p_parent (ptab s ! j) = Some q" if "j < NPROC" for j q
    using nth [OF that] p'(2) by (cases "j = i") simp_all
  have lv: "live (st s' j) \<longleftrightarrow> live (st s j)" if "j < NPROC" for j
    using nth [OF that] p'(1) i(2) by simp
  have "pids_ok s'"
  proof -
    have "0 < p_pid (ptab s' ! j) \<and> p_pid (ptab s' ! j) < nextpid s'" if "j < NPROC" "st s' j \<noteq> UNUSED" for j
      using un [OF that] that ok(1) s'(2) unfolding pids_ok_def by fastforce
    moreover have "0 < nextpid s'" using ok(1) s'(2) unfolding pids_ok_def by linarith
    ultimately show ?thesis using ok(1) un unfolding pids_ok_def by metis
  qed
  moreover have "cpus_ok s'"
    using ok(2) i(2) nth p'(1) by (subst cpus_ok_cong [of s' s]) (auto simp: s'(4))
  moreover have "tree_ok s'"
    unfolding tree_ok_def s'(3)
  proof (intro conjI allI impI)
    show "initproc s \<noteq> None" using ok(3) by (simp add: tree_ok_def)
    show "ip < NPROC" "live (st s' ip)" "p_parent (ptab s' ! ip) = None" if "initproc s = Some ip" for ip
      using ok(3) that lv nth ne unfolding tree_ok_def by (metis)+
    show "p_parent (ptab s' ! j) \<noteq> None" if "j < NPROC" "st s' j \<noteq> UNUSED" "initproc s \<noteq> Some j" for j
      using ok(3) that un unfolding tree_ok_def by metis
    show "p_parent (ptab s' ! j) = None" if "j < NPROC" "st s' j = UNUSED" for j
      using ok(3) that nth p'(2) unfolding tree_ok_def by metis
    show "q < NPROC" "live (st s' q)" "q \<noteq> j" if "j < NPROC" "p_parent (ptab s' ! j) = Some q" for j q
      using ok(3) that pr lv unfolding tree_ok_def by metis+
  qed
  moreover have "waits_ok s'"
  proof (rule waits_ok_frame [OF ok(4)], goal_cases)
    case (1 j)
    have "ptab s' ! j = ptab s ! j" using un [OF 1(1)] 1(2) by simp
    then show ?case using 1(2) by simp
  next
    case (2 j m)
    then show ?case using pr [OF 2(2,5)] nth [OF 2(2)] by simp
  qed
  ultimately show ?thesis using l s'(1) by (simp add: proc_inv_def)
qed

text \<open>A free slot becomes the child of a live process.\<close>

lemma new_child_inv:
  assumes inv: "proc_inv s" and i: "i < NPROC" "st s i = UNUSED"
    and s': "ptab s' = (ptab s)[i := p']" "nextpid s' = nextpid s + 1" "initproc s' = initproc s" "cpu_proc s' = cpu_proc s"
    and p': "p_state p' = RUNNABLE" "p_pid p' = nextpid s" "p_parent p' = Some cur"
    and cur: "cur < NPROC" "live (st s cur)"
  shows "proc_inv s'"
proof -
  have l: "length (ptab s) = NPROC" and ok: "pids_ok s" "cpus_ok s" "tree_ok s" "waits_ok s"
    using inv by (simp_all add: proc_inv_def)
  have nth: "ptab s' ! j = (if j = i then p' else ptab s ! j)" if "j < NPROC" for j
    using that l s'(1) by (simp add: nth_list_update)
  have ne: "j \<noteq> i" if "live (st s j)" for j using that i(2) by auto
  have lv: "live (st s j) \<Longrightarrow> live (st s' j)" if "j < NPROC" for j using nth [OF that] p'(1) by simp
  have "pids_ok s'"
    unfolding pids_ok_def s'(2)
  proof (intro conjI allI impI)
    show "0 < nextpid s + 1" using ok(1) by (simp add: pids_ok_def)
    show "0 < p_pid (ptab s' ! j)" "p_pid (ptab s' ! j) < nextpid s + 1" if "j < NPROC" "st s' j \<noteq> UNUSED" for j
      using ok(1) that nth [OF that(1)] p'(2) unfolding pids_ok_def by (cases "j = i"; force)+
    have lt: "p_pid (ptab s ! j) \<noteq> nextpid s" if "j < NPROC" "st s j \<noteq> UNUSED" for j
      using ok(1) that unfolding pids_ok_def by force
    show "p_pid (ptab s' ! j) \<noteq> p_pid (ptab s' ! m)"
      if "j < NPROC" "m < NPROC" "j \<noteq> m" "st s' j \<noteq> UNUSED" "st s' m \<noteq> UNUSED" for j m
      using ok(1) that nth [OF that(1)] nth [OF that(2)] lt [of j] lt [of m] p'(2) unfolding pids_ok_def
      by (cases "j = i"; cases "m = i") auto
  qed
  moreover have "cpus_ok s'"
    using ok(2) i(2) nth p'(1) by (subst cpus_ok_cong [of s' s]) (auto simp: s'(4))
  moreover have "tree_ok s'"
    unfolding tree_ok_def s'(3)
  proof (intro conjI allI impI)
    show "initproc s \<noteq> None" using ok(3) by (simp add: tree_ok_def)
    show "ip < NPROC" "live (st s' ip)" "p_parent (ptab s' ! ip) = None" if "initproc s = Some ip" for ip
      using ok(3) that lv nth ne unfolding tree_ok_def by (metis)+
    show "p_parent (ptab s' ! j) \<noteq> None" if "j < NPROC" "st s' j \<noteq> UNUSED" "initproc s \<noteq> Some j" for j
      using ok(3) that nth p'(3) unfolding tree_ok_def by (metis option.distinct(1))
    show "p_parent (ptab s' ! j) = None" if "j < NPROC" "st s' j = UNUSED" for j
      using ok(3) that nth p'(1) unfolding tree_ok_def by (metis live_simps(2,4))
    show "q < NPROC" "live (st s' q)" "q \<noteq> j" if "j < NPROC" "p_parent (ptab s' ! j) = Some q" for j q
      using ok(3) that nth lv p'(3) cur ne unfolding tree_ok_def by (metis option.inject)+
  qed
  moreover have "waits_ok s'"
    using ok(4) by (rule waits_ok_frame) (use nth p'(1) in \<open>auto split: if_splits\<close>)
  ultimately show ?thesis using l s'(1) by (simp add: proc_inv_def)
qed

subsection \<open>The invariant along each operation\<close>

lemma upd_upd: "i < length (ptab s) \<Longrightarrow> upd_proc i g (upd_proc i f s) = upd_proc i (\<lambda>p. g (f p)) s"
  by (simp add: upd_proc_def)

lemma nth_upd: "i < length (ptab s) \<Longrightarrow> ptab (upd_proc i f s) ! i = f (ptab s ! i)"
  by (simp add: upd_nth)

text \<open>What allocproc does: nothing, or it claims the first free slot, or gives it back without a stack.\<close>

lemma allocproc_cases:
  assumes "length (ptab s) = NPROC" "- 2147483648 \<le> nextpid s" "nextpid s < 2147483647"
  obtains (full) "allocproc s = (None, s)" "\<forall>i < NPROC. st s i \<noteq> UNUSED"
  | (claimed) i page mem where "i < NPROC" "st s i = UNUSED" "\<forall>j < i. st s j \<noteq> UNUSED" "kalloc (pages s) = (page, mem)" "page \<noteq> 0"
      "allocproc s = (Some i, s\<lparr>nextpid := nextpid s + 1, pages := mem, ptab := (ptab s)[i :=
        (ptab s ! i)\<lparr>p_state := EMBRYO, p_pid := nextpid s, p_kstack := page\<rparr>]\<rparr>)"
  | (no_stack) i mem where "i < NPROC" "st s i = UNUSED" "kalloc (pages s) = (0, mem)"
      "allocproc s = (None, s\<lparr>nextpid := nextpid s + 1, pages := mem, ptab := (ptab s)[i :=
        (ptab s ! i)\<lparr>p_pid := nextpid s, p_kstack := 0, p_state := UNUSED\<rparr>]\<rparr>)"
proof (cases "scan_from (\<lambda>p. p_state p = UNUSED) 0 (ptab s)")
  case None
  then have "\<forall>i < NPROC. st s i \<noteq> UNUSED" using assms(1) by (auto simp: scan_from_None)
  with None full show ?thesis by (simp add: allocproc_def)
next
  case (Some i)
  then have i: "i < NPROC" "st s i = UNUSED" "\<forall>j < i. st s j \<noteq> UNUSED" using assms(1) by (auto simp: scan_0_Some)
  have n: "s32 (nextpid s + 1) = nextpid s + 1" using assms(2,3) by (intro s32_id) (simp add: is_s32_def)
  obtain page mem where k: "kalloc (pages s) = (page, mem)" by force
  show ?thesis
  proof (cases "page = 0")
    case True
    with Some i n k assms(1) show ?thesis
      by (intro no_stack [of i mem]) (simp_all add: allocproc_def Let_def upd_proc_def)
  next
    case False
    with Some i n k assms(1) show ?thesis
      by (intro claimed [of i page mem]) (simp_all add: allocproc_def Let_def upd_proc_def)
  qed
qed

lemma fork_inv:
  assumes inv: "proc_inv s" and cur: "cpu_proc s c = Some cur" and n: "nextpid s < 2147483647"
    and f: "fork kend copyuvm cur s = Inr (v, s')"
  shows "proc_inv s'"
proof -
  have l: "length (ptab s) = NPROC" "0 < nextpid s" using inv by (simp_all add: proc_inv_def pids_ok_def)
  have c: "cur < NPROC" "live (st s cur)" using inv cur by (auto simp: proc_inv_def cpus_ok_def)
  have n2: "- 2147483648 \<le> nextpid s" using l(2) by simp
  from l(1) n2 n show ?thesis
  proof (cases rule: allocproc_cases)
    case full
    then show ?thesis using inv f by (simp add: fork_def)
  next
    case (no_stack i mem)
    have "p_parent (ptab s ! i) = None" using inv no_stack(1,2) by (auto simp: proc_inv_def tree_ok_def)
    with no_stack f l show ?thesis
      by (intro free_slot_inv [OF inv no_stack(1), where p' = "ptab s' ! i"]) (auto simp: fork_def upd_proc_def Let_def)
  next
    case (claimed i page mem)
    have par: "p_parent (ptab s ! i) = None" using inv claimed(1,2) by (auto simp: proc_inv_def tree_ok_def)
    have ci: "cur \<noteq> i" using c(2) claimed(2) by auto
    obtain pgdir mem' where uvm: "copyuvm (p_pgdir (ptab s ! cur)) (p_sz (ptab s ! cur)) mem = (pgdir, mem')" by force
    show ?thesis
    proof (cases "pgdir = 0")
      case True
      obtain mem'' where k: "kfree kend page mem' = Inr mem''"
        using f claimed uvm True ci l by (auto simp: fork_def upd_proc_def bindR_eq_Inr Let_def)
      then show ?thesis
        using f claimed uvm True ci l par
        by (intro free_slot_inv [OF inv claimed(1), where p' = "ptab s' ! i"]) (auto simp: fork_def upd_proc_def Let_def)
    next
      case False
      obtain fs fr where d: "dup_files (p_ofile (ptab s ! cur)) (frefs s) = Inr (fs, fr)"
        using f claimed uvm False ci l by (auto simp: fork_def upd_proc_def bindR_eq_Inr Let_def)
      then show ?thesis
        using f claimed uvm False ci l c
        by (intro new_child_inv [OF inv claimed(1,2), where cur = cur and p' = "ptab s' ! i"])
          (auto simp: fork_def upd_proc_def Let_def)
    qed
  qed
qed

lemma wait_inv:
  assumes inv: "proc_inv s" and w: "wait kend freevm c s = Inr (v, s')"
  shows "proc_inv s'"
proof -
  obtain i where i: "myproc c s = Some i" using w by (auto simp: wait_def split: option.splits)
  note m = myproc_running [OF inv i]
  let ?P = "\<lambda>p. p_parent p = Some i \<and> p_state p = ZOMBIE"
  show ?thesis
  proof (cases "scan_from ?P 0 (ptab s)")
    case (Some j)
    then have j: "j < NPROC" "st s j = ZOMBIE" using m(3) by (auto simp: scan_0_Some)
    obtain mem where "kfree kend (p_kstack (ptab s ! j)) (pages s) = Inr mem"
      using w i Some by (auto simp: wait_def bindR_eq_Inr Let_def)
    with Some w i j m(3) show ?thesis
      by (intro free_slot_inv [OF inv j(1), where p' = "ptab s' ! j"]) (auto simp: wait_def upd_proc_def Let_def)
  next
    case None
    then have z: "p_parent (ptab s ! j) = Some i \<Longrightarrow> st s j \<noteq> ZOMBIE" if "j < NPROC" for j
      using that m(3) by (auto simp: scan_from_None)
    show ?thesis
    proof (cases "(\<forall>p \<in> set (ptab s). p_parent p \<noteq> Some i) \<or> p_killed (ptab s ! i) \<noteq> 0")
      case True
      then show ?thesis using inv w i None by (simp add: wait_def)
    next
      case False
      then have "sleep c (ChanProc i) s = Inr s'" using w i None by (auto simp: wait_def bindR_eq_Inr split: if_splits)
      then show ?thesis using i z by (intro sleep_inv [OF inv]) auto
    qed
  qed
qed

text \<open>One turn of the loop of exit, on a child j of i.\<close>

definition adopt :: "nat \<Rightarrow> ksys \<Rightarrow> ksys" where
  "adopt j s =
     (let s = upd_proc j (\<lambda>p. p\<lparr>p_parent := initproc s\<rparr>) s in
      if p_state (ptab s ! j) = ZOMBIE then case initproc s of Some ip \<Rightarrow> wakeup1 (ChanProc ip) s | None \<Rightarrow> s else s)"

lemma reparent_adopt:
  "reparent (j # js) i s = reparent js i (if p_parent (ptab s ! j) = Some i then adopt j s else s)"
  by (simp add: adopt_def Let_def)

text \<open>What changes in the table when children are handed to init and processes are woken.\<close>

definition handed :: "nat \<Rightarrow> ksys \<Rightarrow> ksys \<Rightarrow> bool" where
  "handed i s s' \<longleftrightarrow> length (ptab s') = length (ptab s) \<and> nextpid s' = nextpid s \<and> initproc s' = initproc s \<and>
     cpu_proc s' = cpu_proc s \<and> pages s' = pages s \<and>
     (\<forall>k < NPROC. p_pid (ptab s' ! k) = p_pid (ptab s ! k) \<and> p_kstack (ptab s' ! k) = p_kstack (ptab s ! k) \<and>
        p_ofile (ptab s' ! k) = p_ofile (ptab s ! k) \<and> p_chan (ptab s' ! k) = p_chan (ptab s ! k) \<and>
        (st s' k = st s k \<or> st s k = SLEEPING \<and> st s' k = RUNNABLE) \<and>
        (p_parent (ptab s' ! k) = p_parent (ptab s ! k) \<or>
         p_parent (ptab s ! k) = Some i \<and> p_parent (ptab s' ! k) = initproc s))"

lemma handed_refl: "handed i s s"
  by (simp add: handed_def)

lemma handed_trans: "handed i s t \<Longrightarrow> handed i t u \<Longrightarrow> handed i s u"
  unfolding handed_def by (auto 0 3)

lemma adopt_nth:
  assumes "length (ptab s) = NPROC" "j < NPROC" "k < NPROC" "initproc s = Some ip"
  shows "ptab (adopt j s) ! k =
    (let p = (if k = j then (ptab s ! k)\<lparr>p_parent := Some ip\<rparr> else ptab s ! k)
     in if st s j = ZOMBIE \<and> st s k = SLEEPING \<and> p_chan (ptab s ! k) = Some (ChanProc ip)
        then p\<lparr>p_state := RUNNABLE\<rparr> else p)"
  using assms by (auto simp: adopt_def upd_nth wakeup1_nth Let_def)

lemma adopt_fields:
  assumes "initproc s = Some ip"
  shows "length (ptab (adopt j s)) = length (ptab s)" "nextpid (adopt j s) = nextpid s"
    "initproc (adopt j s) = initproc s" "cpu_proc (adopt j s) = cpu_proc s" "pages (adopt j s) = pages s"
  using assms by (simp_all add: adopt_def Let_def split: option.split)

lemma adopt_handed:
  assumes "length (ptab s) = NPROC" "j < NPROC" "initproc s = Some ip" "p_parent (ptab s ! j) = Some i"
  shows "handed i s (adopt j s)"
  unfolding handed_def adopt_fields [OF assms(3)]
  using assms by (auto simp: adopt_nth Let_def)

lemma adopt_inv:
  assumes inv: "proc_inv s" and j: "j < NPROC" "p_parent (ptab s ! j) = Some i" and ip: "initproc s = Some ip"
  shows "proc_inv (adopt j s)"
proof -
  let ?s = "adopt j s"
  have l: "length (ptab s) = NPROC" and ok: "pids_ok s" "cpus_ok s" "tree_ok s" "waits_ok s"
    using inv by (simp_all add: proc_inv_def)
  note nth = adopt_nth [OF l j(1) _ ip] and f = adopt_fields [OF ip]
  have ipl: "ip < NPROC" "live (st s ip)" "p_parent (ptab s ! ip) = None" using ok(3) ip by (auto simp: tree_ok_def)
  have jip: "j \<noteq> ip" using ipl(3) j(2) by auto
  have pid: "p_pid (ptab ?s ! k) = p_pid (ptab s ! k)" and un: "st ?s k = UNUSED \<longleftrightarrow> st s k = UNUSED"
    and run: "st ?s k = RUNNING \<longleftrightarrow> st s k = RUNNING" and lv: "live (st ?s k) = live (st s k)"
    and par: "p_parent (ptab ?s ! k) = (if k = j then Some ip else p_parent (ptab s ! k))"
    and zom: "st ?s k = ZOMBIE \<longleftrightarrow> st s k = ZOMBIE" and ch: "p_chan (ptab ?s ! k) = p_chan (ptab s ! k)"
    and sl: "st ?s k = SLEEPING \<Longrightarrow> st s k = SLEEPING \<and> (st s j = ZOMBIE \<longrightarrow> p_chan (ptab s ! k) \<noteq> Some (ChanProc ip))"
    if "k < NPROC" for k
    using nth [OF that] by (auto simp: Let_def split: if_splits)
  have "pids_ok ?s = pids_ok s" unfolding pids_ok_def f by (simp add: pid un cong: conj_cong)
  moreover have "cpus_ok ?s = cpus_ok s" by (rule cpus_ok_cong) (simp_all add: run f)
  moreover have "tree_ok ?s"
    unfolding tree_ok_def f
  proof (intro conjI allI impI)
    show "initproc s \<noteq> None" using ip by simp
    show "q < NPROC" "live (st ?s q)" "p_parent (ptab ?s ! q) = None" if "initproc s = Some q" for q
      using that ip ipl jip lv par by auto
    show "p_parent (ptab ?s ! k) \<noteq> None" if "k < NPROC" "st ?s k \<noteq> UNUSED" "initproc s \<noteq> Some k" for k
      using tree_has_parent [OF ok(3)] that un par by (metis option.distinct(1))
    show "p_parent (ptab ?s ! k) = None" if "k < NPROC" "st ?s k = UNUSED" for k
      using tree_unused [OF ok(3)] that un par j by (metis option.distinct(1))
    show "q < NPROC" "live (st ?s q)" "q \<noteq> k" if "k < NPROC" "p_parent (ptab ?s ! k) = Some q" for k q
      using tree_parent [OF ok(3)] that par [OF that(1)] lv ipl jip by (metis option.inject)+
  qed
  moreover have "waits_ok ?s"
    using ok(4)
  proof (rule waits_ok_frame, goal_cases)
    case (1 k)
    then show ?case using sl ch by blast
  next
    case (2 k m)
    show ?case
    proof (cases "m = j")
      case True
      then have "k = ip" "st s j = ZOMBIE" using 2 par [OF j(1)] zom [OF j(1)] by auto
      then show ?thesis using sl [OF 2(1,3)] ch [OF 2(1)] 2(4) by simp
    next
      case False
      then show ?thesis using 2 par zom by simp
    qed
  qed
  ultimately show ?thesis using ok l f(1) by (simp add: proc_inv_def)
qed

lemma reparent_inv:
  assumes "proc_inv s" "set js \<subseteq> {..<NPROC}" "initproc s = Some ip" "ip \<noteq> i"
  shows "proc_inv (reparent js i s) \<and> handed i s (reparent js i s) \<and>
    (\<forall>j \<in> set js. p_parent (ptab (reparent js i s) ! j) \<noteq> Some i)"
  using assms
proof (induction js arbitrary: s)
  case Nil
  then show ?case by (simp add: handed_refl)
next
  case (Cons j js)
  let ?t = "if p_parent (ptab s ! j) = Some i then adopt j s else s"
  have l: "length (ptab s) = NPROC" and j: "j < NPROC" using Cons.prems by (simp_all add: proc_inv_def)
  have t: "proc_inv ?t" "handed i s ?t" "initproc ?t = Some ip"
    using Cons.prems j l adopt_inv adopt_handed adopt_fields handed_refl by auto
  have pj: "p_parent (ptab ?t ! j) \<noteq> Some i"
    using Cons.prems(3,4) j l by (auto simp: adopt_nth Let_def)
  note ih = Cons.IH [OF t(1) _ t(3) Cons.prems(4)]
  have h: "handed i s (reparent js i ?t)" using handed_trans [OF t(2)] ih Cons.prems(2) by simp
  have "p_parent (ptab (reparent js i ?t) ! j) \<noteq> Some i"
  proof -
    have "handed i ?t (reparent js i ?t)" using ih Cons.prems(2) by simp
    then have "p_parent (ptab (reparent js i ?t) ! j) = p_parent (ptab ?t ! j)"
      using pj j unfolding handed_def by blast
    with pj show ?thesis by simp
  qed
  with ih h Cons.prems(2) show ?case unfolding reparent_adopt by simp
qed

text \<open>The end of exit: a process without children, whose parent is not asleep in wait, becomes a zombie.\<close>

lemma zombie_inv:
  assumes inv: "proc_inv s" and i: "myproc c s = Some i" "initproc s \<noteq> Some i"
    and kids: "\<forall>j < NPROC. p_parent (ptab s ! j) \<noteq> Some i"
    and par: "\<And>q. p_parent (ptab s ! i) = Some q \<Longrightarrow> \<not> (st s q = SLEEPING \<and> p_chan (ptab s ! q) = Some (ChanProc q))"
    and s': "sched c i (upd_proc i (\<lambda>p. p\<lparr>p_state := ZOMBIE\<rparr>) s) = Inr s'"
  shows "proc_inv s'"
proof -
  note m = myproc_running [OF inv i(1)]
  have ok: "pids_ok s" "cpus_ok s" "tree_ok s" "waits_ok s" using inv by (simp_all add: proc_inv_def)
  let ?p = "(ptab s ! i)\<lparr>p_state := ZOMBIE\<rparr>"
  have f: "ptab s' = (ptab s)[i := ?p]" "nextpid s' = nextpid s" "initproc s' = initproc s"
    "cpu_proc s' = (cpu_proc s)(c := None)"
    using s' m by (auto simp: sched_def upd_proc_def split: if_splits)
  have nth: "ptab s' ! j = (if j = i then ?p else ptab s ! j)" if "j < NPROC" for j
    using that m(3) f(1) by (simp add: nth_list_update)
  have pid: "p_pid (ptab s' ! j) = p_pid (ptab s ! j)" and pr: "p_parent (ptab s' ! j) = p_parent (ptab s ! j)"
    and un: "st s' j = UNUSED \<longleftrightarrow> st s j = UNUSED" and lv: "live (st s' j) \<longleftrightarrow> j \<noteq> i \<and> live (st s j)"
    if "j < NPROC" for j
    using nth [OF that] m(2) by auto
  have "pids_ok s' = pids_ok s" unfolding pids_ok_def f(2) by (simp add: pid un cong: conj_cong)
  moreover have "cpus_ok s'"
    by (rule cpus_ok_leave [OF ok(2) _ m(3) _ f(4,1)]) (use i(1) in \<open>simp_all add: myproc_def\<close>)
  moreover have "tree_ok s'"
    unfolding tree_ok_def f(3)
  proof (intro conjI allI impI)
    show "initproc s \<noteq> None" using ok(3) by (simp add: tree_ok_def)
    show "q < NPROC" "live (st s' q)" "p_parent (ptab s' ! q) = None" if "initproc s = Some q" for q
      using that i(2) ok(3) lv pr unfolding tree_ok_def by metis+
    show "p_parent (ptab s' ! k) \<noteq> None" if "k < NPROC" "st s' k \<noteq> UNUSED" "initproc s \<noteq> Some k" for k
      using ok(3) that un pr unfolding tree_ok_def by simp
    show "p_parent (ptab s' ! k) = None" if "k < NPROC" "st s' k = UNUSED" for k
      using ok(3) that un pr unfolding tree_ok_def by simp
    show "q < NPROC" "live (st s' q)" "q \<noteq> k" if "k < NPROC" "p_parent (ptab s' ! k) = Some q" for k q
      using ok(3) that pr lv kids unfolding tree_ok_def by metis+
  qed
  moreover have "waits_ok s'"
    using ok(4)
  proof (rule waits_ok_frame, goal_cases)
    case (1 k)
    then show ?case using nth [OF 1(1)] by (cases "k = i") simp_all
  next
    case (2 k mm)
    have k: "k \<noteq> i" "ptab s' ! k = ptab s ! k" using nth [OF 2(1)] 2(3) by (cases "k = i"; simp)+
    have "mm \<noteq> i" using par [of k] pr [OF 2(2)] 2 k by auto
    then show ?case using nth [OF 2(2)] 2 by simp
  qed
  ultimately show ?thesis using ok m(3) f(1) by (simp add: proc_inv_def)
qed

text \<open>
  What precedes the end of exit: a state in which the process has no children left and its
  parent is not asleep in wait.
\<close>

lemma exit_shape:
  assumes inv: "proc_inv s" and e: "exit c s = Inr s'"
  obtains i q r where "myproc c s = Some i" "p_parent (ptab s ! i) = Some q" "proc_inv r" "myproc c r = Some i"
    "initproc r \<noteq> Some i" "p_parent (ptab r ! i) = Some q" "\<forall>j < NPROC. p_parent (ptab r ! j) \<noteq> Some i"
    "\<not> (st r q = SLEEPING \<and> p_chan (ptab r ! q) = Some (ChanProc q))" "q \<noteq> i"
    "sched c i (upd_proc i (\<lambda>p. p\<lparr>p_state := ZOMBIE\<rparr>) r) = Inr s'"
    "\<forall>j < NPROC. p_parent (ptab r ! j) = (if p_parent (ptab s ! j) = Some i then initproc s else p_parent (ptab s ! j))"
    "st s q = SLEEPING \<and> p_chan (ptab s ! q) = Some (ChanProc q) \<longrightarrow> st r q = RUNNABLE"
    "pages r = pages s" "p_kstack (ptab r ! i) = p_kstack (ptab s ! i)"
    "\<forall>j < NPROC. p_ofile (ptab r ! j) = (if j = i then replicate NOFILE None else p_ofile (ptab s ! j)) \<and>
       (st r j = st s j \<or> st s j = SLEEPING \<and> st r j = RUNNABLE)"
proof -
  obtain i where i: "myproc c s = Some i" "initproc s \<noteq> Some i"
    using e by (auto simp: exit_def split: option.splits if_splits)
  note m = myproc_running [OF inv i(1)]
  have tree: "tree_ok s" using inv by (simp add: proc_inv_def)
  obtain ip where ip: "initproc s = Some ip" "ip \<noteq> i" using tree_init_Some [OF tree] i(2) by auto
  have "st s i \<noteq> UNUSED" using m(2) by simp
  then obtain q where q: "p_parent (ptab s ! i) = Some q" "q < NPROC" "q \<noteq> i"
    using tree_has_parent [OF tree m(1) _ i(2)] tree_parent [OF tree m(1)] by blast
  obtain fr where fr: "close_files (p_ofile (ptab s ! i)) (frefs s) = Inr fr"
    using e i by (auto simp: exit_def bindR_eq_Inr)
  define ir where "ir = (case p_cwd (ptab s ! i) of None \<Rightarrow> irefs s | Some d \<Rightarrow> (irefs s)(d := irefs s d - 1))"
  let ?a = "upd_proc i (\<lambda>p. p\<lparr>p_ofile := replicate NOFILE None, p_cwd := None\<rparr>) (s\<lparr>frefs := fr, irefs := ir\<rparr>)"
  let ?b = "wakeup1 (ChanProc q) ?a"
  let ?r = "reparent [0..<NPROC] i ?b"
  have pa: "p_parent (ptab ?a ! i) = Some q" using q(1) m by (simp add: upd_nth)
  have s': "sched c i (upd_proc i (\<lambda>p. p\<lparr>p_state := ZOMBIE\<rparr>) ?r) = Inr s'"
    using e i fr pa by (simp add: exit_def Let_def ir_def cong: option.case_cong)
  have "proc_inv ?a" by (rule woken_inv [OF inv]) (use m in \<open>auto simp: upd_nth\<close>)
  then have b: "proc_inv ?b" by (rule wakeup1_inv)
  have ipb: "initproc ?b = Some ip" using ip by simp
  have r: "proc_inv ?r" "handed i ?b ?r" "\<forall>j < NPROC. p_parent (ptab ?r ! j) \<noteq> Some i"
    using reparent_inv [OF b _ ipb ip(2), of "[0..<NPROC]"] by (auto simp: atLeast0LessThan)
  have "\<not> (st ?b q = SLEEPING \<and> p_chan (ptab ?b ! q) = Some (ChanProc q))"
    using q(2) m(3) by (simp add: wakeup1_nth)
  then have "\<not> (st ?r q = SLEEPING \<and> p_chan (ptab ?r ! q) = Some (ChanProc q))"
    using r(2) q(2) unfolding handed_def by (metis procstate.distinct(17))
  moreover have "p_parent (ptab ?b ! i) = Some q" using q m by (simp add: wakeup1_nth upd_nth)
  then have "p_parent (ptab ?r ! i) = Some q" using r(2) m(1) q(3) unfolding handed_def by auto
  moreover have "myproc c ?r = Some i" "initproc ?r \<noteq> Some i" using r(2) i by (auto simp: handed_def myproc_def)
  moreover have bn: "ptab ?b ! j = (let p = (if j = i then (ptab s ! i)\<lparr>p_ofile := replicate NOFILE None, p_cwd := None\<rparr> else ptab s ! j)
      in if p_state p = SLEEPING \<and> p_chan p = Some (ChanProc q) then p\<lparr>p_state := RUNNABLE\<rparr> else p)" if "j < NPROC" for j
    using that m by (auto simp: wakeup1_nth upd_nth Let_def)
  have H: "pages ?r = pages ?b" "\<And>j. j < NPROC \<Longrightarrow> p_kstack (ptab ?r ! j) = p_kstack (ptab ?b ! j) \<and> p_ofile (ptab ?r ! j) = p_ofile (ptab ?b ! j) \<and>
      (st ?r j = st ?b j \<or> st ?b j = SLEEPING \<and> st ?r j = RUNNABLE) \<and>
      (p_parent (ptab ?r ! j) = p_parent (ptab ?b ! j) \<or> p_parent (ptab ?b ! j) = Some i \<and> p_parent (ptab ?r ! j) = initproc ?b)"
    using r(2) unfolding handed_def by blast+
  have bp: "p_parent (ptab ?b ! j) = p_parent (ptab s ! j)" "p_kstack (ptab ?b ! j) = p_kstack (ptab s ! j)"
    "p_ofile (ptab ?b ! j) = (if j = i then replicate NOFILE None else p_ofile (ptab s ! j))"
    "st ?b j = (if st s j = SLEEPING \<and> p_chan (ptab s ! j) = Some (ChanProc q) then RUNNABLE else st s j)" if "j < NPROC" for j
    unfolding bn [OF that] by (simp_all add: Let_def)
  have "initproc ?b = initproc s" by simp
  then have "\<forall>j < NPROC. p_parent (ptab ?r ! j) = (if p_parent (ptab s ! j) = Some i then initproc s else p_parent (ptab s ! j))"
    using r(3) H(2) bp(1) by metis
  moreover have "st s q = SLEEPING \<and> p_chan (ptab s ! q) = Some (ChanProc q) \<longrightarrow> st ?r q = RUNNABLE"
    using H(2) [OF q(2)] bp(4) [OF q(2)] by auto
  moreover have "pages ?r = pages s" using H(1) by simp
  moreover have "p_kstack (ptab ?r ! i) = p_kstack (ptab s ! i)" using H(2) [OF m(1)] bp(2) [OF m(1)] by simp
  moreover have "\<forall>j < NPROC. p_ofile (ptab ?r ! j) = (if j = i then replicate NOFILE None else p_ofile (ptab s ! j)) \<and>
       (st ?r j = st s j \<or> st s j = SLEEPING \<and> st ?r j = RUNNABLE)"
    using H(2) bp(3,4) by (metis (no_types, lifting))
  ultimately show ?thesis using that [of i q ?r] i(1) q(1,3) r(1,3) s' by blast
qed

lemma length_reparent: "length (ptab (reparent js i s)) = length (ptab s)"
  by (induction js i s rule: reparent.induct) (simp_all add: Let_def split: option.split)

text \<open>Apart from init, a process whose open files have their references can always exit.\<close>

lemma exit_returns:
  assumes "proc_inv s" "myproc c s = Some i" "initproc s \<noteq> Some i" "close_files (p_ofile (ptab s ! i)) (frefs s) = Inr fr"
  shows "\<exists>s'. exit c s = Inr s'"
proof -
  note m = myproc_running [OF assms(1,2)]
  have sc: "\<exists>s'. sched c i (upd_proc i (\<lambda>p. p\<lparr>p_state := ZOMBIE\<rparr>) r) = Inr s'" if "length (ptab r) = NPROC" for r
    using that m(1) by (simp add: sched_def upd_nth)
  show ?thesis
    using assms(2-4) unfolding exit_def
    by (simp add: Let_def) (rule sc, simp add: length_reparent m(3) split: option.split)
qed

lemma exit_inv:
  assumes "proc_inv s" "exit c s = Inr s'"
  shows "proc_inv s'"
proof -
  obtain i q r where "proc_inv r" "myproc c r = Some i" "initproc r \<noteq> Some i" "p_parent (ptab r ! i) = Some q"
    "\<forall>j < NPROC. p_parent (ptab r ! j) \<noteq> Some i" "\<not> (st r q = SLEEPING \<and> p_chan (ptab r ! q) = Some (ChanProc q))"
    "sched c i (upd_proc i (\<lambda>p. p\<lparr>p_state := ZOMBIE\<rparr>) r) = Inr s'"
    by (rule exit_shape [OF assms]) blast
  then show ?thesis using zombie_inv [of r c i s'] by auto
qed

lemma exit_effect:
  assumes "proc_inv s" "exit c s = Inr s'"
  obtains i q where "myproc c s = Some i" "p_parent (ptab s ! i) = Some q" "i < NPROC" "st s' i = ZOMBIE" "q < NPROC"
    "\<forall>j < NPROC. p_parent (ptab s' ! j) = (if p_parent (ptab s ! j) = Some i then initproc s else p_parent (ptab s ! j))"
    "\<not> (st s' q = SLEEPING \<and> p_chan (ptab s' ! q) = Some (ChanProc q))" "length (ptab s') = NPROC"
    "st s q = SLEEPING \<and> p_chan (ptab s ! q) = Some (ChanProc q) \<longrightarrow> st s' q = RUNNABLE" "p_parent (ptab s' ! i) = Some q"
    "pages s' = pages s" "p_kstack (ptab s' ! i) = p_kstack (ptab s ! i)"
    "\<forall>j < NPROC. p_ofile (ptab s' ! j) = (if j = i then replicate NOFILE None else p_ofile (ptab s ! j)) \<and>
       (j \<noteq> i \<longrightarrow> st s' j = st s j \<or> st s j = SLEEPING \<and> st s' j = RUNNABLE)"
  using assms
proof (rule exit_shape)
  fix i q r
  assume r: "myproc c s = Some i" "p_parent (ptab s ! i) = Some q" "proc_inv r" "myproc c r = Some i" "initproc r \<noteq> Some i"
    "p_parent (ptab r ! i) = Some q" "\<forall>j < NPROC. p_parent (ptab r ! j) \<noteq> Some i"
    "\<not> (st r q = SLEEPING \<and> p_chan (ptab r ! q) = Some (ChanProc q))" "q \<noteq> i"
    "sched c i (upd_proc i (\<lambda>p. p\<lparr>p_state := ZOMBIE\<rparr>) r) = Inr s'"
    "\<forall>j < NPROC. p_parent (ptab r ! j) = (if p_parent (ptab s ! j) = Some i then initproc s else p_parent (ptab s ! j))"
    "st s q = SLEEPING \<and> p_chan (ptab s ! q) = Some (ChanProc q) \<longrightarrow> st r q = RUNNABLE"
    "pages r = pages s" "p_kstack (ptab r ! i) = p_kstack (ptab s ! i)"
    "\<forall>j < NPROC. p_ofile (ptab r ! j) = (if j = i then replicate NOFILE None else p_ofile (ptab s ! j)) \<and>
       (st r j = st s j \<or> st s j = SLEEPING \<and> st r j = RUNNABLE)"
  note m = myproc_running [OF r(3,4)]
  have t: "ptab s' = ptab (upd_proc i (\<lambda>p. p\<lparr>p_state := ZOMBIE\<rparr>) r)" "pages s' = pages r"
    using r(10) by (auto simp: sched_def split: if_splits)
  have n: "ptab s' ! j = (if i = j then (ptab r ! i)\<lparr>p_state := ZOMBIE\<rparr> else ptab r ! j)" for j
    using m unfolding t(1) by (simp add: upd_nth)
  have "tree_ok r" using r(3) by (simp add: proc_inv_def)
  from tree_parent [OF this m(1) r(6)] have q: "q < NPROC" by blast
  have e: "length (ptab s') = NPROC" using t m(3) by simp
  have par: "\<forall>j < NPROC. p_parent (ptab s' ! j) = (if p_parent (ptab s ! j) = Some i then initproc s else p_parent (ptab s ! j))"
    using r(11) by (simp add: n)
  have old: "\<forall>j < NPROC. p_ofile (ptab s' ! j) = (if j = i then replicate NOFILE None else p_ofile (ptab s ! j)) \<and>
       (j \<noteq> i \<longrightarrow> st s' j = st s j \<or> st s j = SLEEPING \<and> st s' j = RUNNABLE)"
    using r(15) by (simp add: n)
  have z: "st s' i = ZOMBIE" "p_parent (ptab s' ! i) = Some q" "p_kstack (ptab s' ! i) = p_kstack (ptab s ! i)"
    using r(6,14) by (simp_all add: n)
  have "ptab s' ! q = ptab r ! q" using r(9) n [of q] by simp
  then have wk: "\<not> (st s' q = SLEEPING \<and> p_chan (ptab s' ! q) = Some (ChanProc q))"
    "st s q = SLEEPING \<and> p_chan (ptab s ! q) = Some (ChanProc q) \<longrightarrow> st s' q = RUNNABLE"
    using r(8,12) by simp_all
  have pg: "pages s' = pages s" using t(2) r(13) by simp
  show thesis by (rule that [OF r(1,2) m(1) z(1) q par wk(1) e wk(2) z(2) pg z(3) old])
qed

lemma dup_files_spec:
  "dup_files fs fr = Inr (gs, fr') \<Longrightarrow> gs = fs \<and> (\<forall>f. fr' f = fr f + int (count_list fs (Some f)))"
proof (induction fs fr arbitrary: gs fr' rule: dup_files.induct)
  case (2 fs fr)
  then show ?case by (auto simp: bindR_eq_Inr)
next
  case (3 f fs fr)
  then show ?case by (fastforce simp: bindR_eq_Inr split: if_splits)
qed auto

lemma merge_files_nth: "fd < length fs \<Longrightarrow> fs ! fd = Some f \<Longrightarrow> merge_files fs gs ! fd = Some f"
  by (induction fs gs arbitrary: fd rule: merge_files.induct) (auto simp: nth_Cons split: nat.splits)

subsection \<open>Sequences of operations\<close>

inductive proc_step :: "ksys \<Rightarrow> ksys \<Rightarrow> bool" where
  fork_step: "cpu_proc s c = Some cur \<Longrightarrow> nextpid s < 2147483647 \<Longrightarrow> fork kend copyuvm cur s = Inr (v, s') \<Longrightarrow> proc_step s s'"
| exit_step: "exit c s = Inr s' \<Longrightarrow> proc_step s s'"
| wait_step: "wait kend freevm c s = Inr (out, s') \<Longrightarrow> proc_step s s'"
| sleep_step: "sleep c (ChanAddr a) s = Inr s' \<Longrightarrow> proc_step s s'"
| yield_step: "yield c s = Inr s' \<Longrightarrow> proc_step s s'"
| wakeup_step: "proc_step s (wakeup (ChanAddr a) s)"
| kill_step: "kill n s = (v, s') \<Longrightarrow> proc_step s s'"
| grow_step: "cpu_proc s c = Some i \<Longrightarrow> growproc allocuvm deallocuvm i n s = (v, s') \<Longrightarrow> proc_step s s'"
| schedule_step: "cpu_proc s c = None \<Longrightarrow> scheduler c k s = Some (k', s') \<Longrightarrow> proc_step s s'"

lemma grow_inv:
  assumes "proc_inv s" "cpu_proc s c = Some i" "growproc allocuvm deallocuvm i n s = (v, s')"
  shows "proc_inv s'"
proof -
  have i: "i < length (ptab s)" using assms(1,2) by (auto simp: proc_inv_def cpus_ok_def)
  have "proc_inv (upd_proc i (\<lambda>p. p\<lparr>p_sz := z\<rparr>) s)" for z
    by (rule woken_inv [OF assms(1)]) (use i in \<open>auto simp: upd_nth\<close>)
  with assms(1,3) show ?thesis by (auto simp: growproc_def Let_def split: if_splits)
qed

lemma proc_step_inv: "proc_step s s' \<Longrightarrow> proc_inv s \<Longrightarrow> proc_inv s'"
proof (induction rule: proc_step.induct)
  case (sleep_step c a s s')
  show ?case by (rule sleep_inv [OF sleep_step.prems sleep_step.hyps]) simp_all
next
  case (wakeup_step s a)
  then show ?case by (simp add: wakeup_def wakeup1_inv)
qed (blast intro: fork_inv exit_inv wait_inv yield_inv kill_inv scheduler_inv grow_inv)+

text \<open>Every slot has its 16 descriptors, and no file is open in a free slot or in a zombie's.\<close>

definition slots_clear :: "ksys \<Rightarrow> bool" where
  "slots_clear s \<longleftrightarrow> (\<forall>i < NPROC. length (p_ofile (ptab s ! i)) = NOFILE \<and>
     (st s i = UNUSED \<or> st s i = ZOMBIE \<longrightarrow> p_ofile (ptab s ! i) = replicate NOFILE None))"

lemma slots_clear_frame:
  assumes "slots_clear s" "\<And>i. i < NPROC \<Longrightarrow> p_ofile (ptab s' ! i) = p_ofile (ptab s ! i) \<and>
    (st s' i = UNUSED \<or> st s' i = ZOMBIE \<longrightarrow> st s i = UNUSED \<or> st s i = ZOMBIE)"
  shows "slots_clear s'"
  using assms unfolding slots_clear_def by metis

lemma merge_files_empty: "length fs = n \<Longrightarrow> merge_files fs (replicate n None) = fs"
proof (induction fs arbitrary: n)
  case (Cons f fs)
  then show ?case by (cases n; cases f) auto
qed simp

lemma fork_files:
  assumes inv: "proc_inv s" and cur: "cpu_proc s c = Some cur" and n: "nextpid s < 2147483647" and sl: "slots_clear s"
    and f: "fork kend copyuvm cur s = Inr (v, s')" and j: "j < NPROC"
  shows "if v \<noteq> -1 \<and> st s j = UNUSED \<and> st s' j = RUNNABLE then p_ofile (ptab s' ! j) = p_ofile (ptab s ! cur)
     else p_ofile (ptab s' ! j) = p_ofile (ptab s ! j) \<and> st s' j = st s j"
proof -
  have l: "length (ptab s) = NPROC" "0 < nextpid s" using inv by (simp_all add: proc_inv_def pids_ok_def)
  have cl: "live (st s cur)" "cur < NPROC" using inv cur by (auto simp: proc_inv_def cpus_ok_def)
  have n2: "- 2147483648 \<le> nextpid s" using l(2) by simp
  from l(1) n2 n show ?thesis
  proof (cases rule: allocproc_cases)
    case full
    then show ?thesis using f by (simp add: fork_def)
  next
    case (no_stack i mem)
    then show ?thesis using f l j by (auto simp: fork_def nth_list_update)
  next
    case (claimed i page mem)
    have ci: "cur \<noteq> i" using cl claimed(2) by auto
    obtain pgdir mem' where uvm: "copyuvm (p_pgdir (ptab s ! cur)) (p_sz (ptab s ! cur)) mem = (pgdir, mem')" by force
    show ?thesis
    proof (cases "pgdir = 0")
      case True
      then show ?thesis
        using f claimed uvm ci l j by (auto simp: fork_def upd_proc_def bindR_eq_Inr Let_def nth_list_update)
    next
      case False
      obtain fs fr where d: "dup_files (p_ofile (ptab s ! cur)) (frefs s) = Inr (fs, fr)"
        using f claimed uvm False ci l by (auto simp: fork_def upd_proc_def bindR_eq_Inr Let_def)
      have v: "v \<noteq> -1" using f claimed uvm False ci l d by (auto simp: fork_def upd_proc_def Let_def)
      have t: "ptab s' = (ptab s)[i := ptab s' ! i]" "st s' i = RUNNABLE" "p_ofile (ptab s' ! i) = merge_files fs (p_ofile (ptab s ! i))"
        using f claimed uvm False ci l d by (auto simp: fork_def upd_proc_def Let_def)
      have "p_ofile (ptab s ! i) = replicate NOFILE None" "length fs = NOFILE"
        using sl claimed(1,2) cl(2) dup_files_spec [OF d] by (auto simp: slots_clear_def)
      then have "p_ofile (ptab s' ! i) = p_ofile (ptab s ! cur)" using t(3) dup_files_spec [OF d] by (simp add: merge_files_empty)
      moreover have "ptab s' ! k = ptab s ! k" if "k \<noteq> i" for k using that by (subst t(1)) simp
      ultimately show ?thesis using t(2) v claimed(2) by (cases "j = i") auto
    qed
  qed
qed

lemma slots_clear_step:
  assumes "proc_step s s'" "proc_inv s" "slots_clear s"
  shows "slots_clear s'"
  using assms(1)
proof cases
  case (fork_step c cur kend copyuvm v)
  have "cur < NPROC" using assms(2) fork_step(1) by (auto simp: proc_inv_def cpus_ok_def)
  then have "length (p_ofile (ptab s ! cur)) = NOFILE" using assms(3) by (simp add: slots_clear_def)
  then show ?thesis
    using fork_files [OF assms(2) fork_step(1,2) assms(3) fork_step(3)] assms(3)
    unfolding slots_clear_def by (metis procstate.distinct(5) procstate.distinct(27))
next
  case (exit_step c)
  from assms(2) this show ?thesis
  proof (rule exit_effect)
    fix i assume "\<forall>j < NPROC. p_ofile (ptab s' ! j) = (if j = i then replicate NOFILE None else p_ofile (ptab s ! j)) \<and>
       (j \<noteq> i \<longrightarrow> st s' j = st s j \<or> st s j = SLEEPING \<and> st s' j = RUNNABLE)"
    then show "slots_clear s'" using assms(3) unfolding slots_clear_def by auto
  qed
next
  case (wait_step kend freevm c out)
  then obtain i where i: "myproc c s = Some i" by (auto simp: wait_def split: option.splits)
  note m = myproc_running [OF assms(2) i]
  show ?thesis
  proof (cases "scan_from (\<lambda>p. p_parent p = Some i \<and> p_state p = ZOMBIE) 0 (ptab s)")
    case (Some j)
    then have "j < NPROC" "st s j = ZOMBIE" using m(3) by (auto simp: scan_0_Some)
    with Some wait_step i m(3) show ?thesis
      by (intro slots_clear_frame [OF assms(3)]) (auto simp: wait_def bindR_eq_Inr Let_def upd_nth split: if_splits)
  next
    case None
    with wait_step i m show ?thesis
      by (intro slots_clear_frame [OF assms(3)])
        (auto simp: wait_def bindR_eq_Inr sleep_def sched_def upd_nth split: if_splits)
  qed
next
  case (sleep_step c a)
  then obtain i where i: "myproc c s = Some i" by (auto simp: sleep_def split: option.splits)
  with sleep_step myproc_running [OF assms(2) i] show ?thesis
    by (intro slots_clear_frame [OF assms(3)]) (auto simp: sleep_def sched_def upd_nth split: if_splits)
next
  case (yield_step c)
  then obtain i where i: "myproc c s = Some i" by (auto simp: yield_def split: option.splits)
  with yield_step myproc_running [OF assms(2) i] show ?thesis
    by (intro slots_clear_frame [OF assms(3)]) (auto simp: yield_def sched_def upd_nth split: if_splits)
next
  case (wakeup_step a)
  then show ?thesis using assms(2)
    by (intro slots_clear_frame [OF assms(3)]) (auto simp: wakeup_def wakeup1_nth proc_inv_def)
next
  case (kill_step n v)
  have l: "length (ptab s) = NPROC" using assms(2) by (simp add: proc_inv_def)
  show ?thesis
  proof (cases "scan_from (\<lambda>p. p_pid p = n) 0 (ptab s)")
    case None
    then show ?thesis using kill_step assms(3) by (simp add: kill_def)
  next
    case (Some i)
    then have "i < NPROC" using l by (simp add: scan_0_Some)
    with Some kill_step l show ?thesis
      by (intro slots_clear_frame [OF assms(3)]) (auto simp: kill_def upd_nth split: if_splits)
  qed
next
  case (grow_step c i allocuvm deallocuvm n v)
  have i: "i < NPROC" "length (ptab s) = NPROC" using assms(2) grow_step(1) by (auto simp: proc_inv_def cpus_ok_def)
  with grow_step(2) show ?thesis
    by (intro slots_clear_frame [OF assms(3)]) (auto simp: growproc_def Let_def upd_nth split: if_splits)
next
  case (schedule_step c k k')
  have l: "length (ptab s) = NPROC" using assms(2) by (simp add: proc_inv_def)
  obtain i where i: "scan_from (\<lambda>p. p_state p = RUNNABLE) k (drop k (ptab s)) = Some i"
    using schedule_step by (auto simp: scheduler_def split: option.splits)
  then have "i < NPROC" using l by (auto simp: scan_from_Some)
  with i schedule_step(2) l show ?thesis
    by (intro slots_clear_frame [OF assms(3)]) (auto simp: scheduler_def sleep_tidy_def upd_nth split: if_splits)
qed

lemma slots_clear_run: "proc_step\<^sup>*\<^sup>* s s' \<Longrightarrow> proc_inv s \<Longrightarrow> slots_clear s \<Longrightarrow> slots_clear s'"
proof (induction rule: rtranclp_induct)
  case (step t u)
  have "proc_inv t" using step.hyps(1) step.prems(1) by (induction rule: rtranclp_induct) (auto intro: proc_step_inv)
  with step show ?case by (blast intro: slots_clear_step)
qed

text \<open>A machine whose only process is init, ready to run.\<close>

definition blank_proc :: proc where
  "blank_proc = \<lparr>p_sz = 0, p_pgdir = 0, p_kstack = 0, p_state = UNUSED, p_pid = 0, p_parent = None,
     p_tf = \<lparr>r_eax = 0, r_rest = []\<rparr>, p_chan = None, p_killed = 0, p_ofile = replicate 16 None, p_cwd = None, p_name = []\<rparr>"

definition sample_sys :: ksys where
  "sample_sys = \<lparr>ptab = (replicate 64 blank_proc)[0 := blank_proc\<lparr>p_state := RUNNABLE, p_pid := 1\<rparr>], nextpid = 2,
     initproc = Some 0, cpu_proc = (\<lambda>_. None), pages = sample_kmem, frefs = (\<lambda>_. 0), irefs = (\<lambda>_. 0)\<rparr>"

lemma sample_sys_inv: "proc_inv sample_sys"
proof -
  have e: "ptab sample_sys ! i = (if i = 0 then blank_proc\<lparr>p_state := RUNNABLE, p_pid := 1\<rparr> else blank_proc)" if "i < NPROC" for i
    using that by (auto simp: sample_sys_def nth_list_update)
  have f: "nextpid sample_sys = 2" "initproc sample_sys = Some 0" "cpu_proc sample_sys = (\<lambda>_. None)" "length (ptab sample_sys) = NPROC"
    by (simp_all add: sample_sys_def)
  show ?thesis
    unfolding proc_inv_def pids_ok_def cpus_ok_def tree_ok_def waits_ok_def f
    by (auto simp: e blank_proc_def)
qed

subsection \<open>Properties\<close>

text \<open>
  C3: whatever processes do - fork, exit, wait, sleep, wake, yield, kill, grow, and being
  scheduled on any number of processors - process identifiers in use stay distinct (until the
  32-bit counter is exhausted), a process runs on at most one processor and exactly the running
  ones are on a processor, every process but init has a live parent, and no process sleeps in
  wait while it has a zombie child.
\<close>

theorem process_table_consistent:
  assumes "proc_step\<^sup>*\<^sup>* s0 s" "proc_inv s0"
  shows "(\<forall>i < 64. \<forall>j < 64. st s i \<noteq> UNUSED \<longrightarrow> st s j \<noteq> UNUSED \<longrightarrow> p_pid (ptab s ! i) = p_pid (ptab s ! j) \<longrightarrow> i = j) \<and>
    (\<forall>i < 64. st s i = RUNNING \<longleftrightarrow> (\<exists>c. cpu_proc s c = Some i)) \<and>
    (\<forall>c d i. cpu_proc s c = Some i \<longrightarrow> cpu_proc s d = Some i \<longrightarrow> c = d) \<and>
    (\<forall>i < 64. st s i \<noteq> UNUSED \<longrightarrow> initproc s \<noteq> Some i \<longrightarrow>
      (\<exists>q < 64. p_parent (ptab s ! i) = Some q \<and> (st s q = SLEEPING \<or> st s q = RUNNABLE \<or> st s q = RUNNING))) \<and>
    (\<forall>i < 64. \<forall>j < 64. st s i = SLEEPING \<longrightarrow> p_chan (ptab s ! i) = Some (ChanProc i) \<longrightarrow>
      p_parent (ptab s ! j) = Some i \<longrightarrow> st s j \<noteq> ZOMBIE)"
proof -
  have inv: "proc_inv s"
    using assms by (induction rule: rtranclp_induct) (auto intro: proc_step_inv)
  then have ok: "pids_ok s" "cpus_ok s" "tree_ok s" "waits_ok s" by (simp_all add: proc_inv_def)
  have "\<exists>q < 64. p_parent (ptab s ! i) = Some q \<and> (st s q = SLEEPING \<or> st s q = RUNNABLE \<or> st s q = RUNNING)"
    if "i < 64" "st s i \<noteq> UNUSED" "initproc s \<noteq> Some i" for i
    using tree_has_parent [OF ok(3) that] tree_parent [OF ok(3) that(1)] unfolding live_def by blast
  moreover have "\<forall>i < 64. st s i = RUNNING \<longleftrightarrow> (\<exists>c. cpu_proc s c = Some i)" using ok(2) unfolding cpus_ok_def by blast
  ultimately show ?thesis
    using ok(1,2,4) unfolding pids_ok_def cpus_ok_def waits_ok_def by blast
qed

theorem process_table_consistent_witness:
  "\<exists>k s. scheduler 0 0 sample_sys = Some (k, s) \<and> st s 0 = RUNNING \<and> (\<exists>c. cpu_proc s c = Some 0)"
proof -
  have "scan_from (\<lambda>p. p_state p = RUNNABLE) 0 (ptab sample_sys) = Some 0"
    by (simp add: scan_0_Some sample_sys_def)
  moreover have "0 < length (ptab sample_sys)" by (simp add: sample_sys_def)
  ultimately obtain k s where s: "scheduler 0 0 sample_sys = Some (k, s)" "st s 0 = RUNNING"
    by (simp add: scheduler_def sleep_tidy_def upd_proc_def)
  have "proc_step sample_sys s" by (rule proc_step.schedule_step [OF _ s(1)]) (simp add: sample_sys_def)
  from process_table_consistent [OF r_into_rtranclp [of proc_step, OF this] sample_sys_inv] s show ?thesis by auto
qed

lemma proc_run_inv: "proc_step\<^sup>*\<^sup>* s s' \<Longrightarrow> proc_inv s \<Longrightarrow> proc_inv s'"
  by (induction rule: rtranclp_induct) (auto intro: proc_step_inv)

text \<open>A round of wait of a process that has a zombie child.\<close>

lemma wait_reaps:
  assumes inv: "proc_inv u" and i: "i < NPROC" "st u i = ZOMBIE" "p_parent (ptab u ! i) = Some q"
    and w: "myproc d u = Some q" "wait kend freevm d u = Inr (out, t)"
  shows "\<exists>j < 64. out = Reaped (p_pid (ptab u ! j)) \<and> st u j = ZOMBIE \<and> p_parent (ptab u ! j) = Some q \<and> st t j = UNUSED \<and>
    (\<forall>k < 64. k \<noteq> j \<longrightarrow> ptab t ! k = ptab u ! k)"
proof -
  have l: "length (ptab u) = NPROC" using inv by (simp add: proc_inv_def)
  let ?P = "\<lambda>p. p_parent p = Some q \<and> p_state p = ZOMBIE"
  have "ptab u ! i \<in> set (ptab u)" using i(1) l by simp
  then have "scan_from ?P 0 (ptab u) \<noteq> None" using i(2,3) unfolding scan_from_None by blast
  then obtain j where j: "scan_from ?P 0 (ptab u) = Some j" by auto
  then have "j < NPROC" "?P (ptab u ! j)" using l by (auto simp: scan_0_Some)
  with w j l show ?thesis by (auto simp: wait_def bindR_eq_Inr Let_def upd_nth intro!: exI [of _ j])
qed

text \<open>
  C28: exit and wait meet. When a process exits, it becomes a zombie that is still a child of its
  parent, its own children become children of init and all other processes keep their parents; a parent
  asleep in wait is made runnable, and in any case the parent is not left asleep there. From then on,
  through every sequence of operations and for as long as the zombie has not been reaped and has this
  parent, the parent is not asleep in wait, and whenever it runs a round of wait - in its
  first call, or going on in the loop after it was woken from its sleep - that returns, the round
  neither sleeps nor gives up: it reaps a zombie child, frees its slot and leaves the rest of the
  table alone.
\<close>

theorem exit_wait_rendezvous:
  assumes "proc_inv s" "exit c s = Inr s'" "myproc c s = Some i"
  shows "\<exists>q. p_parent (ptab s ! i) = Some q \<and> st s' i = ZOMBIE \<and> p_parent (ptab s' ! i) = Some q \<and>
    (\<forall>j < 64. p_parent (ptab s' ! j) = (if p_parent (ptab s ! j) = Some i then initproc s else p_parent (ptab s ! j))) \<and>
    (st s q = SLEEPING \<and> p_chan (ptab s ! q) = Some (ChanProc q) \<longrightarrow> st s' q = RUNNABLE) \<and>
    (\<forall>u. proc_step\<^sup>*\<^sup>* s' u \<longrightarrow> st u i = ZOMBIE \<longrightarrow> p_parent (ptab u ! i) = Some q \<longrightarrow>
      \<not> (st u q = SLEEPING \<and> p_chan (ptab u ! q) = Some (ChanProc q)) \<and>
      (\<forall>d kend freevm out t. myproc d u = Some q \<longrightarrow> wait kend freevm d u = Inr (out, t) \<longrightarrow>
        (\<exists>j < 64. out = Reaped (p_pid (ptab u ! j)) \<and> st u j = ZOMBIE \<and> p_parent (ptab u ! j) = Some q \<and> st t j = UNUSED \<and>
          (\<forall>k < 64. k \<noteq> j \<longrightarrow> ptab t ! k = ptab u ! k))))"
  using assms(1,2)
proof (rule exit_effect)
  fix k q
  assume e: "myproc c s = Some k" "p_parent (ptab s ! k) = Some q" "k < NPROC" "st s' k = ZOMBIE" "q < NPROC"
    "\<forall>j < NPROC. p_parent (ptab s' ! j) = (if p_parent (ptab s ! j) = Some k then initproc s else p_parent (ptab s ! j))"
    "st s q = SLEEPING \<and> p_chan (ptab s ! q) = Some (ChanProc q) \<longrightarrow> st s' q = RUNNABLE" "p_parent (ptab s' ! k) = Some q"
  have ki: "k = i" using e(1) assms(3) by simp
  have inv': "proc_inv s'" using assms(1,2) by (rule exit_inv)
  have "\<not> (st u q = SLEEPING \<and> p_chan (ptab u ! q) = Some (ChanProc q)) \<and>
      (\<forall>d kend freevm out t. myproc d u = Some q \<longrightarrow> wait kend freevm d u = Inr (out, t) \<longrightarrow>
        (\<exists>j < 64. out = Reaped (p_pid (ptab u ! j)) \<and> st u j = ZOMBIE \<and> p_parent (ptab u ! j) = Some q \<and> st t j = UNUSED \<and>
          (\<forall>k < 64. k \<noteq> j \<longrightarrow> ptab t ! k = ptab u ! k)))"
    if "proc_step\<^sup>*\<^sup>* s' u" "st u i = ZOMBIE" "p_parent (ptab u ! i) = Some q" for u
  proof -
    have inv: "proc_inv u" using that(1) inv' by (rule proc_run_inv)
    then have "waits_ok u" by (simp add: proc_inv_def)
    then have "\<not> (st u q = SLEEPING \<and> p_chan (ptab u ! q) = Some (ChanProc q))"
      using that(2,3) e(3,5) ki unfolding waits_ok_def by blast
    then show ?thesis using wait_reaps [OF inv _ that(2,3)] e(3) ki by blast
  qed
  with e(2,4,6-8) ki show ?thesis by blast
qed

definition sample_exit :: ksys where
  "sample_exit = sample_sys\<lparr>ptab := (ptab sample_sys)[1 := blank_proc\<lparr>p_state := RUNNING, p_pid := 2, p_parent := Some 0\<rparr>],
     nextpid := 3, cpu_proc := (\<lambda>_. None)(0 := Some 1)\<rparr>"

lemma sample_exit_nth: "i < 64 \<Longrightarrow> ptab sample_exit ! i =
    (if i = 0 then blank_proc\<lparr>p_state := RUNNABLE, p_pid := 1\<rparr>
     else if i = 1 then blank_proc\<lparr>p_state := RUNNING, p_pid := 2, p_parent := Some 0\<rparr> else blank_proc)"
  by (auto simp: sample_exit_def sample_sys_def nth_list_update)

lemma sample_exit_inv: "proc_inv sample_exit"
proof -
  have f: "nextpid sample_exit = 3" "initproc sample_exit = Some 0" "cpu_proc sample_exit = (\<lambda>_. None)(0 := Some 1)"
    "length (ptab sample_exit) = NPROC"
    by (simp_all add: sample_exit_def sample_sys_def)
  show ?thesis
    unfolding proc_inv_def pids_ok_def cpus_ok_def tree_ok_def waits_ok_def f
    by (auto simp: sample_exit_nth blank_proc_def split: if_splits)
qed

text \<open>The same machine with init asleep in wait.\<close>

definition sample_waiting :: ksys where
  "sample_waiting = sample_exit\<lparr>ptab := (ptab sample_exit)[0 := blank_proc\<lparr>p_state := SLEEPING, p_pid := 1, p_chan := Some (ChanProc 0)\<rparr>]\<rparr>"

lemma sample_waiting_nth: "i < 64 \<Longrightarrow> ptab sample_waiting ! i =
    (if i = 0 then blank_proc\<lparr>p_state := SLEEPING, p_pid := 1, p_chan := Some (ChanProc 0)\<rparr>
     else if i = 1 then blank_proc\<lparr>p_state := RUNNING, p_pid := 2, p_parent := Some 0\<rparr> else blank_proc)"
proof -
  have "length (ptab sample_exit) = 64" by (simp add: sample_exit_def sample_sys_def)
  then show "i < 64 \<Longrightarrow> ?thesis" by (auto simp: sample_waiting_def nth_list_update sample_exit_nth)
qed

lemma sample_waiting_inv: "proc_inv sample_waiting"
proof -
  have f: "nextpid sample_waiting = 3" "initproc sample_waiting = Some 0" "cpu_proc sample_waiting = (\<lambda>_. None)(0 := Some 1)"
    "length (ptab sample_waiting) = NPROC"
    by (simp_all add: sample_waiting_def sample_exit_def sample_sys_def)
  show ?thesis
    unfolding proc_inv_def pids_ok_def cpus_ok_def tree_ok_def waits_ok_def f
    by (auto simp: sample_waiting_nth blank_proc_def split: if_splits)
qed

theorem exit_wait_rendezvous_witness:
  "\<exists>s' u. exit 0 sample_waiting = Inr s' \<and> st s' 1 = ZOMBIE \<and> scheduler 0 0 s' = Some (1, u) \<and> myproc 0 u = Some 0 \<and>
    wait 0x80100000 (\<lambda>_ k. k) 0 u \<noteq> Inr (NoChildren, u) \<and> (\<nexists>t. wait 0x80100000 (\<lambda>_ k. k) 0 u = Inr (WaitSleeps, t))"
proof -
  have m: "myproc 0 sample_waiting = Some 1" by (simp add: myproc_def sample_waiting_def sample_exit_def)
  have em: "forR is (\<lambda>i fr. case replicate 16 None ! i of None \<Rightarrow> Inr fr | Some f \<Rightarrow> g f fr) fr = Inr fr"
    if "set is \<subseteq> {..<16}" for "is" g and fr :: "nat \<Rightarrow> int"
    using that by (induction "is") simp_all
  have c: "close_files (p_ofile (ptab sample_waiting ! 1)) (frefs sample_waiting) = Inr (frefs sample_waiting)"
    using em [of "[0..<16]" "\<lambda>f fr. if fr f < 1 then Inl (Panic ''fileclose'') else Inr (fr(f := fr f - 1))"]
    by (simp add: close_files_def sample_waiting_nth blank_proc_def atLeast0LessThan)
  have "initproc sample_waiting \<noteq> Some 1" by (simp add: sample_waiting_def sample_exit_def sample_sys_def)
  then obtain s' where e: "exit 0 sample_waiting = Inr s'" using exit_returns [OF sample_waiting_inv m _ c] by blast
  have q: "p_parent (ptab sample_waiting ! 1) = Some 0" "st sample_waiting 0 = SLEEPING" "p_chan (ptab sample_waiting ! 0) = Some (ChanProc 0)"
    by (simp_all add: sample_waiting_nth)
  note X = exit_wait_rendezvous [OF sample_waiting_inv e m, unfolded q(1) option.inject simp_thms]
  have z: "st s' 1 = ZOMBIE" "p_parent (ptab s' ! 1) = Some 0" "st s' 0 = RUNNABLE" using X q by auto
  have l: "length (ptab s') = 64" using exit_inv [OF sample_waiting_inv e] by (simp add: proc_inv_def)
  then have "scan_from (\<lambda>p. p_state p = RUNNABLE) 0 (ptab s') = Some 0" using z(3) by (simp add: scan_0_Some)
  then obtain u where u: "scheduler 0 0 s' = Some (1, u)" "myproc 0 u = Some 0" "ptab u ! 1 = ptab s' ! 1"
    using l by (simp add: scheduler_def sleep_tidy_def upd_proc_def myproc_def)
  have c0: "cpu_proc s' 0 = None" using e by (auto simp: exit_def m bindR_eq_Inr sched_def Let_def split: if_splits)
  have "proc_step\<^sup>*\<^sup>* s' u" using proc_step.schedule_step [OF c0 u(1)] by blast
  moreover have "st u 1 = ZOMBIE" "p_parent (ptab u ! 1) = Some 0" using u(3) z(1,2) by simp_all
  ultimately have "wait 0x80100000 (\<lambda>_ k. k) 0 u = Inr (out, t) \<Longrightarrow> \<exists>j. out = Reaped j" for out t
    using X u(2) by blast
  with e z(1) u(1,2) show ?thesis by (intro exI [of _ s'] exI [of _ u]) fastforce
qed

text \<open>
  C30: fork, in a state where no file is open in a free slot of the table (which holds at the start
  and after every step of the processes). A successful fork returns a fresh positive identifier and makes
  one runnable process with it: a child of the caller with its memory size, its name, its registers
  except that the child's result is 0, exactly its open files, descriptor by descriptor, and its current
  directory. The count of every file rises by the number of the caller's descriptors for it,
  the count of the directory's inode by one, all other counts stay, and no other entry of the
  table changes. A failed fork changes no entry that is in use and no count.
\<close>

theorem fork_makes_child:
  assumes inv: "proc_inv s" and cur: "cpu_proc s c = Some cur" and n: "nextpid s < 2147483647" and sl: "slots_clear s"
    and f: "fork kend copyuvm cur s = Inr (v, s')"
  shows "(v \<noteq> -1 \<longrightarrow> v = nextpid s \<and> 0 < v \<and> (\<exists>np < 64. st s np = UNUSED \<and> st s' np = RUNNABLE \<and> p_pid (ptab s' ! np) = v \<and>
      p_parent (ptab s' ! np) = Some cur \<and> p_sz (ptab s' ! np) = p_sz (ptab s ! cur) \<and> p_name (ptab s' ! np) = p_name (ptab s ! cur) \<and>
      p_tf (ptab s' ! np) = (p_tf (ptab s ! cur))\<lparr>r_eax := 0\<rparr> \<and> p_cwd (ptab s' ! np) = p_cwd (ptab s ! cur) \<and>
      p_ofile (ptab s' ! np) = p_ofile (ptab s ! cur) \<and>
      (\<forall>g. frefs s' g = frefs s g + int (count_list (p_ofile (ptab s ! cur)) (Some g))) \<and>
      (\<forall>d. irefs s' d = irefs s d + (if p_cwd (ptab s ! cur) = Some d then 1 else 0)) \<and>
      (\<forall>i < 64. i \<noteq> np \<longrightarrow> ptab s' ! i = ptab s ! i))) \<and>
    (v = -1 \<longrightarrow> (\<forall>i < 64. st s i \<noteq> UNUSED \<longrightarrow> ptab s' ! i = ptab s ! i) \<and> frefs s' = frefs s \<and> irefs s' = irefs s)"
proof -
  have l: "length (ptab s) = NPROC" "0 < nextpid s" using inv by (simp_all add: proc_inv_def pids_ok_def)
  have cl: "live (st s cur)" using inv cur by (auto simp: proc_inv_def cpus_ok_def)
  have n2: "- 2147483648 \<le> nextpid s" using l(2) by simp
  from l(1) n2 n show ?thesis
  proof (cases rule: allocproc_cases)
    case full
    then show ?thesis using f by (simp add: fork_def)
  next
    case (no_stack i mem)
    then show ?thesis using f l by (auto simp: fork_def nth_list_update)
  next
    case (claimed i page mem)
    have ci: "cur \<noteq> i" using cl claimed(2) by auto
    obtain pgdir mem' where uvm: "copyuvm (p_pgdir (ptab s ! cur)) (p_sz (ptab s ! cur)) mem = (pgdir, mem')" by force
    show ?thesis
    proof (cases "pgdir = 0")
      case True
      then show ?thesis
        using f claimed uvm ci l by (auto simp: fork_def upd_proc_def bindR_eq_Inr Let_def nth_list_update)
    next
      case False
      obtain fs fr where d: "dup_files (p_ofile (ptab s ! cur)) (frefs s) = Inr (fs, fr)"
        using f claimed uvm False ci l by (auto simp: fork_def upd_proc_def bindR_eq_Inr Let_def)
      have v: "v = nextpid s" "v \<noteq> -1" using f claimed uvm False ci l d by (auto simp: fork_def upd_proc_def Let_def)
      have t: "ptab s' = (ptab s)[i := ptab s' ! i]" "frefs s' = fr" "st s' i = RUNNABLE" "p_pid (ptab s' ! i) = v"
        "p_parent (ptab s' ! i) = Some cur" "p_sz (ptab s' ! i) = p_sz (ptab s ! cur)" "p_name (ptab s' ! i) = p_name (ptab s ! cur)"
        "p_tf (ptab s' ! i) = (p_tf (ptab s ! cur))\<lparr>r_eax := 0\<rparr>" "p_cwd (ptab s' ! i) = p_cwd (ptab s ! cur)"
        "irefs s' = (case p_cwd (ptab s ! cur) of None \<Rightarrow> irefs s | Some d \<Rightarrow> (irefs s)(d := irefs s d + 1))"
        using f claimed uvm False ci l d by (auto simp: fork_def upd_proc_def Let_def cong: option.case_cong split: option.split)
      have ir: "\<forall>d. irefs s' d = irefs s d + (if p_cwd (ptab s ! cur) = Some d then 1 else 0)"
        unfolding t(10) by (simp split: option.split)
      have "p_ofile (ptab s' ! i) = p_ofile (ptab s ! cur)"
        using fork_files [OF inv cur n sl f claimed(1)] v(2) claimed(2) t(3) by simp
      moreover have "ptab s' ! k = ptab s ! k" if "k < 64" "k \<noteq> i" for k
        using that by (subst t(1)) simp
      ultimately show ?thesis using t v l(2) claimed(1,2) dup_files_spec [OF d] ir by (auto intro!: exI [of _ i])
    qed
  qed
qed

text \<open>The same machine with two free pages; page directories are copied without fail.\<close>

definition sample_fork :: ksys where
  "sample_fork = sample_exit\<lparr>pages := sample_kmem\<lparr>freelist := 0x80400000\<rparr>\<rparr>"

lemma sample_fork_fields [simp]:
  "ptab sample_fork = ptab sample_exit" "nextpid sample_fork = 3" "initproc sample_fork = initproc sample_exit"
  "cpu_proc sample_fork = cpu_proc sample_exit" "frefs sample_fork = frefs sample_exit"
  "pages sample_fork = sample_kmem\<lparr>freelist := 0x80400000\<rparr>" "length (ptab sample_exit) = 64" "nextpid sample_exit = 3"
  by (simp_all add: sample_fork_def sample_exit_def sample_sys_def)

lemma sample_fork_inv: "proc_inv sample_fork"
  by (rule proc_inv_frame [THEN iffD2, OF _ _ _ _ sample_exit_inv]) simp_all

lemma dup_files_none: "dup_files (replicate n None) fr = Inr (replicate n None, fr)"
  by (induction n) simp_all

lemma fork_returns:
  assumes "proc_inv s" "kalloc (pages s) = (page, mem)" "page \<noteq> 0" "i < 64" "st s i = UNUSED" "\<forall>j < i. st s j \<noteq> UNUSED"
    "cur \<noteq> i" "p_ofile (ptab s ! cur) = replicate n None" "-2147483648 \<le> nextpid s" "nextpid s < 2147483647"
  shows "\<exists>s'. fork kend (\<lambda>_ _ k. (0x1000, k)) cur s = Inr (nextpid s, s')"
proof -
  have "length (ptab s) = 64" using assms(1) by (simp add: proc_inv_def)
  moreover from this have "scan_from (\<lambda>p. p_state p = UNUSED) 0 (ptab s) = Some i" using assms(4-6) by (simp add: scan_0_Some)
  ultimately show ?thesis
    using assms by (simp add: fork_def allocproc_def upd_proc_def Let_def dup_files_none)
qed

lemma sample_fork_clear: "slots_clear sample_fork"
  by (auto simp: slots_clear_def sample_exit_nth blank_proc_def)

theorem fork_makes_child_witness:
  "\<exists>s'. fork 0x80100000 (\<lambda>_ _ k. (0x1000, k)) 1 sample_fork = Inr (3, s') \<and>
     (\<exists>np < 64. st s' np = RUNNABLE \<and> p_pid (ptab s' ! np) = 3 \<and> p_parent (ptab s' ! np) = Some 1 \<and>
       p_ofile (ptab s' ! np) = replicate 16 None)"
proof -
  have "\<exists>s'. fork 0x80100000 (\<lambda>_ _ k. (0x1000, k)) 1 sample_fork = Inr (nextpid sample_fork, s')"
    by (rule fork_returns [OF sample_fork_inv, where i = 2 and n = 16]; (simp add: kalloc_def sample_exit_nth blank_proc_def)?)
       (auto simp: sample_exit_nth blank_proc_def)
  then obtain s' where f: "fork 0x80100000 (\<lambda>_ _ k. (0x1000, k)) 1 sample_fork = Inr (3, s')" by auto
  have c: "cpu_proc sample_fork 0 = Some 1" by (simp add: sample_exit_def)
  have o: "p_ofile (ptab sample_fork ! 1) = replicate 16 None" by (simp add: sample_exit_nth blank_proc_def)
  from fork_makes_child [OF sample_fork_inv c _ sample_fork_clear f] f o show ?thesis by auto
qed

text \<open>The slot of a new process keeps its killed mark: nothing on the way of fork assigns it.\<close>

lemma fork_slot:
  assumes sc: "scan_from (\<lambda>p. p_state p = UNUSED) 0 (ptab s) = Some m" and cm: "cur \<noteq> m"
    and f: "fork kend copyuvm cur s = Inr (w, s2)" "w \<noteq> -1"
  shows "st s2 m = RUNNABLE \<and> p_pid (ptab s2 ! m) = w \<and> p_killed (ptab s2 ! m) = p_killed (ptab s ! m)"
proof -
  have l: "m < length (ptab s)" using sc by (simp add: scan_0_Some)
  obtain page mem where k: "kalloc (pages s) = (page, mem)" by force
  have p0: "page \<noteq> 0" using f sc k by (auto simp: fork_def allocproc_def Let_def)
  define t where "t = s\<lparr>nextpid := s32 (nextpid s + 1), pages := mem, ptab := (ptab s)[m :=
        (ptab s ! m)\<lparr>p_state := EMBRYO, p_pid := nextpid s, p_kstack := page\<rparr>]\<rparr>"
  have a: "allocproc s = (Some m, t)" using sc k p0 l by (simp add: allocproc_def upd_proc_def Let_def t_def)
  have t: "p_killed (ptab t ! m) = p_killed (ptab s ! m)" "m < length (ptab t)" using l by (simp_all add: t_def)
  obtain pgdir mem' where uvm: "copyuvm (p_pgdir (ptab t ! cur)) (p_sz (ptab t ! cur)) (pages t) = (pgdir, mem')" by force
  have "pgdir \<noteq> 0" using f a uvm by (auto simp: fork_def Let_def bindR_eq_Inr)
  moreover from this obtain fs fr where "dup_files (p_ofile (ptab t ! cur)) (frefs t) = Inr (fs, fr)"
    using f a uvm by (auto simp: fork_def Let_def bindR_eq_Inr)
  ultimately show ?thesis using f a uvm t by (auto simp: fork_def upd_proc_def Let_def)
qed

text \<open>
  C40: kill with identifier 0 does not fail: while the free slots of the table carry identifier 0,
  as after a reap, it marks the first free slot as killed, and the next process that fork makes
  takes that slot and is born with the mark.
\<close>

theorem kill_zero_poisons_next_child:
  assumes inv: "proc_inv s" and free: "\<forall>j < 64. st s j = UNUSED \<longrightarrow> p_pid (ptab s ! j) = 0"
    and k: "i < 64" "st s i = UNUSED" "kill 0 s = (v, s1)"
    and f: "cpu_proc s c = Some cur" "nextpid s < 2147483647" "fork kend copyuvm cur s1 = Inr (w, s2)" "w \<noteq> -1"
  shows "v = 0 \<and> (\<exists>np < 64. st s2 np = RUNNABLE \<and> p_pid (ptab s2 ! np) = w \<and> p_killed (ptab s2 ! np) = 1)"
proof -
  have l: "length (ptab s) = 64" "0 < nextpid s" using inv by (simp_all add: proc_inv_def pids_ok_def)
  have pos: "0 < p_pid (ptab s ! j)" if "j < 64" "st s j \<noteq> UNUSED" for j using inv that by (simp add: proc_inv_def pids_ok_def)
  have "ptab s ! i \<in> set (ptab s)" using k(1) l by simp
  then have "scan_from (\<lambda>p. p_pid p = 0) 0 (ptab s) \<noteq> None" using k(1,2) free unfolding scan_from_None by blast
  then obtain m where m: "scan_from (\<lambda>p. p_pid p = 0) 0 (ptab s) = Some m" by auto
  then have m': "m < 64" "p_pid (ptab s ! m) = 0" "\<forall>j < m. p_pid (ptab s ! j) \<noteq> 0" using l by (simp_all add: scan_0_Some)
  have mu: "st s m = UNUSED" using pos [OF m'(1)] m'(2) by force
  have e: "(ptab s ! m)\<lparr>p_killed := 1, p_state := UNUSED\<rparr> = (ptab s ! m)\<lparr>p_killed := 1\<rparr>" using mu by simp
  have "kill 0 s = (0, upd_proc m (\<lambda>p. p\<lparr>p_killed := 1\<rparr>) s)" using m mu unfolding kill_def upd_proc_def by (simp add: e del: proc.ext_inject)
  with k(3) have s1: "v = 0" "s1 = upd_proc m (\<lambda>p. p\<lparr>p_killed := 1\<rparr>) s" by simp_all
  have "st s1 j \<noteq> UNUSED" if "j < m" for j using that free m'(1,3) l s1(2) by (auto simp: upd_nth)
  moreover have "st s1 m = UNUSED" "m < length (ptab s1)" using mu l m' s1(2) by (simp_all add: upd_nth)
  ultimately have sc: "scan_from (\<lambda>p. p_state p = UNUSED) 0 (ptab s1) = Some m" by (simp add: scan_0_Some)
  have cm: "cur \<noteq> m" using inv f(1) mu by (auto simp: proc_inv_def cpus_ok_def)
  have "st s2 m = RUNNABLE \<and> p_pid (ptab s2 ! m) = w \<and> p_killed (ptab s2 ! m) = p_killed (ptab s1 ! m)"
    using fork_slot [OF sc cm f(3,4)] .
  moreover have "p_killed (ptab s1 ! m) = 1" using s1(2) l m'(1) by (simp add: upd_nth)
  ultimately have "st s2 m = RUNNABLE \<and> p_pid (ptab s2 ! m) = w \<and> p_killed (ptab s2 ! m) = 1" by simp
  with m'(1) s1(1) show ?thesis by blast
qed

theorem kill_zero_poisons_next_child_witness:
  "\<exists>s1 s2. kill 0 sample_fork = (0, s1) \<and> fork 0x80100000 (\<lambda>_ _ k. (0x1000, k)) 1 s1 = Inr (3, s2) \<and>
     (\<exists>np < 64. p_killed (ptab s2 ! np) = 1)"
proof -
  obtain v s1 where k: "kill 0 sample_fork = (v, s1)" by force
  have "scan_from (\<lambda>p. p_pid p = 0) 0 (ptab sample_fork) = Some 2"
    by (auto simp: scan_0_Some sample_exit_nth blank_proc_def)
  then have s1: "s1 = upd_proc 2 (\<lambda>p. p\<lparr>p_killed := 1\<rparr>) sample_fork"
    using k by (auto simp: kill_def upd_proc_def sample_exit_nth blank_proc_def)
  have "\<exists>s'. fork 0x80100000 (\<lambda>_ _ k. (0x1000, k)) 1 s1 = Inr (nextpid s1, s')"
    by (rule fork_returns [OF kill_inv [OF sample_fork_inv k], where i = 2 and n = 16];
        (simp add: s1 upd_nth kalloc_def sample_exit_nth blank_proc_def)?)
       (auto simp: s1 upd_nth sample_exit_nth blank_proc_def)
  then obtain s2 where f: "fork 0x80100000 (\<lambda>_ _ k. (0x1000, k)) 1 s1 = Inr (3, s2)" using s1 by auto
  have c: "cpu_proc sample_fork 0 = Some 1" by (simp add: sample_exit_def)
  have "v = 0 \<and> (\<exists>np < 64. st s2 np = RUNNABLE \<and> p_pid (ptab s2 ! np) = 3 \<and> p_killed (ptab s2 ! np) = 1)"
    by (rule kill_zero_poisons_next_child [OF sample_fork_inv _ _ _ k _ _ f, where i = 2 and c = 0])
       (use c in \<open>auto simp: sample_exit_nth blank_proc_def\<close>)
  with k f show ?thesis by blast
qed

text \<open>
  Wakeup makes exactly the processes asleep on the channel runnable and changes nothing else,
  so a wakeup is not lost; and the scheduler, from any position of its pass, takes the first
  runnable process at or after it, runs it on its own processor and goes on behind it; the pass
  ends only when no runnable process is left there.
\<close>

theorem wakeup_and_scheduler:
  assumes "length (ptab s) = 64"
  shows "(\<forall>i < 64. ptab (wakeup ch s) ! i = (if st s i = SLEEPING \<and> p_chan (ptab s ! i) = Some ch
        then (ptab s ! i)\<lparr>p_state := RUNNABLE\<rparr> else ptab s ! i)) \<and>
    (scheduler c k s = None \<longleftrightarrow> (\<forall>i < 64. k \<le> i \<longrightarrow> st s i \<noteq> RUNNABLE)) \<and>
    (\<forall>k' s'. scheduler c k s = Some (k', s') \<longrightarrow> (\<exists>i < 64. k' = Suc i \<and> k \<le> i \<and> st s i = RUNNABLE \<and>
       (\<forall>j. k \<le> j \<longrightarrow> j < i \<longrightarrow> st s j \<noteq> RUNNABLE) \<and>
       ptab s' ! i = (ptab s ! i)\<lparr>p_state := RUNNING, p_chan := None\<rparr> \<and> cpu_proc s' c = Some i \<and>
       (\<forall>j < 64. j \<noteq> i \<longrightarrow> ptab s' ! j = ptab s ! j) \<and> (\<forall>d. d \<noteq> c \<longrightarrow> cpu_proc s' d = cpu_proc s d)))"
proof (intro conjI allI impI)
  show "ptab (wakeup ch s) ! i = (if st s i = SLEEPING \<and> p_chan (ptab s ! i) = Some ch
        then (ptab s ! i)\<lparr>p_state := RUNNABLE\<rparr> else ptab s ! i)" if "i < 64" for i
    using that assms by (simp add: wakeup_def wakeup1_def)
  have "(\<forall>x \<in> set (drop k (ptab s)). p_state x \<noteq> RUNNABLE) \<longleftrightarrow> (\<forall>i < 64. k \<le> i \<longrightarrow> st s i \<noteq> RUNNABLE)"
  proof -
    have "(\<forall>x \<in> set (drop k (ptab s)). p_state x \<noteq> RUNNABLE) \<longleftrightarrow> (\<forall>n < 64 - k. st s (k + n) \<noteq> RUNNABLE)"
      unfolding all_set_conv_all_nth using assms by (auto simp: add.commute)
    also have "\<dots> \<longleftrightarrow> (\<forall>i < 64. k \<le> i \<longrightarrow> st s i \<noteq> RUNNABLE)"
    proof (intro iffI allI impI)
      fix i assume "\<forall>n < 64 - k. st s (k + n) \<noteq> RUNNABLE" "i < 64" "k \<le> i"
      then show "st s i \<noteq> RUNNABLE" by (metis diff_less_mono le_add_diff_inverse)
    next
      fix n assume "\<forall>i < 64. k \<le> i \<longrightarrow> st s i \<noteq> RUNNABLE" "n < 64 - k"
      then show "st s (k + n) \<noteq> RUNNABLE" by (simp add: less_diff_conv add.commute)
    qed
    finally show ?thesis .
  qed
  moreover have "(scheduler c k s = None) = (\<forall>x \<in> set (drop k (ptab s)). p_state x \<noteq> RUNNABLE)"
    unfolding scheduler_def scan_from_None [of _ k, symmetric] by (auto split: option.splits)
  ultimately show "scheduler c k s = None \<longleftrightarrow> (\<forall>i < 64. k \<le> i \<longrightarrow> st s i \<noteq> RUNNABLE)"
    by simp
next
  fix k' s' assume "scheduler c k s = Some (k', s')"
  then obtain i where i: "scan_from (\<lambda>p. p_state p = RUNNABLE) k (drop k (ptab s)) = Some i"
    and s': "k' = Suc i" "s' = sleep_tidy i (upd_proc i (\<lambda>p. p\<lparr>p_state := RUNNING\<rparr>) (s\<lparr>cpu_proc := (cpu_proc s)(c := Some i)\<rparr>))"
    by (auto simp: scheduler_def split: option.splits)
  then have b: "k \<le> i" "i < k + (64 - k)" "st s i = RUNNABLE" "\<forall>n < i - k. st s (k + n) \<noteq> RUNNABLE"
    using assms by (auto simp: scan_from_Some)
  then have "st s j \<noteq> RUNNABLE" if "k \<le> j" "j < i" for j using that by (metis diff_less_mono le_add_diff_inverse)
  then show "\<exists>i < 64. k' = Suc i \<and> k \<le> i \<and> st s i = RUNNABLE \<and> (\<forall>j. k \<le> j \<longrightarrow> j < i \<longrightarrow> st s j \<noteq> RUNNABLE) \<and>
       ptab s' ! i = (ptab s ! i)\<lparr>p_state := RUNNING, p_chan := None\<rparr> \<and> cpu_proc s' c = Some i \<and>
       (\<forall>j < 64. j \<noteq> i \<longrightarrow> ptab s' ! j = ptab s ! j) \<and> (\<forall>d. d \<noteq> c \<longrightarrow> cpu_proc s' d = cpu_proc s d)"
    using b s' assms by (intro exI [of _ i]) (auto simp: sleep_tidy_def upd_proc_def)
qed

theorem wakeup_and_scheduler_witness:
  "scheduler 0 1 sample_sys = None \<and> (\<exists>s'. scheduler 0 0 sample_sys = Some (1, s') \<and> cpu_proc s' 0 = Some 0)"
proof -
  have l: "length (ptab sample_sys) = 64" by (simp add: sample_sys_def)
  have n: "scheduler 0 1 sample_sys = None \<longleftrightarrow> (\<forall>i < 64. 1 \<le> i \<longrightarrow> st sample_sys i \<noteq> RUNNABLE)"
    "scheduler 0 0 sample_sys = None \<longleftrightarrow> (\<forall>i < 64. 0 \<le> i \<longrightarrow> st sample_sys i \<noteq> RUNNABLE)"
    using wakeup_and_scheduler [OF l] by blast+
  have z: "st sample_sys 0 = RUNNABLE" by (simp add: sample_sys_def)
  then obtain k' s' where s: "scheduler 0 0 sample_sys = Some (k', s')" using n(2) by (cases "scheduler 0 0 sample_sys") auto
  then obtain i where "k' = Suc i" "cpu_proc s' 0 = Some i" "\<forall>j. 0 \<le> j \<longrightarrow> j < i \<longrightarrow> st sample_sys j \<noteq> RUNNABLE"
    using wakeup_and_scheduler [OF l, of undefined 0 0] by blast
  with z have "k' = 1" "cpu_proc s' 0 = Some 0" by (cases i; force)+
  with s n(1) show ?thesis by (auto simp: sample_sys_def nth_list_update blank_proc_def)
qed

end
