(* ===== verification/Vga.thy ===== *)
theory Vga
  imports Prelude
begin

text \<open>
  The video adapter driver (vga.c): the register tables of the three modes, the routine that
  programs the adapter from a table, plane selection and the font upload. The routines reach the
  adapter by the port instructions inb and outb of x86.h, which are arguments of the model. What
  the driver relies on of the adapter is its documented register file: index and data ports of
  the sequencer, the CRT controller and the graphics controller, the attribute controller's
  single port with its flip-flop, and the write protection of the first eight CRT controller
  registers. That is the locale \<open>vga_hw\<close>: a projection of the device state onto the register
  file that every port access respects. The font upload also stores bytes through the window at
  0xB8000, by the argument \<open>poke\<close>. Which of the four planes of the video memory such a store
  reaches is up to the registers: the locale \<open>vga_mem\<close> adds the documented behaviour for the plain
  planar mode (sequential addressing, write mode 0 without set/reset, rotation or bit mask),
  where a byte goes to exactly the planes of the map mask; it says nothing about other modes.
\<close>

subsection \<open>The adapter's register file\<close>

record vga =
  misc_reg :: u8
  seq_index :: u8
  seq_reg :: "u8 \<Rightarrow> u8"
  crtc_index :: u8
  crtc_reg :: "u8 \<Rightarrow> u8"
  gc_index :: u8
  gc_reg :: "u8 \<Rightarrow> u8"
  ac_index :: u8
  ac_reg :: "u8 \<Rightarrow> u8"
  ac_flip :: bool

abbreviation VGA_AC_INDEX :: u16 where "VGA_AC_INDEX \<equiv> 0x3C0"
abbreviation VGA_AC_WRITE :: u16 where "VGA_AC_WRITE \<equiv> 0x3C0"
abbreviation VGA_MISC_WRITE :: u16 where "VGA_MISC_WRITE \<equiv> 0x3C2"
abbreviation VGA_SEQ_INDEX :: u16 where "VGA_SEQ_INDEX \<equiv> 0x3C4"
abbreviation VGA_SEQ_DATA :: u16 where "VGA_SEQ_DATA \<equiv> 0x3C5"
abbreviation VGA_GC_INDEX :: u16 where "VGA_GC_INDEX \<equiv> 0x3CE"
abbreviation VGA_GC_DATA :: u16 where "VGA_GC_DATA \<equiv> 0x3CF"
abbreviation VGA_CRTC_INDEX :: u16 where "VGA_CRTC_INDEX \<equiv> 0x3D4"
abbreviation VGA_CRTC_DATA :: u16 where "VGA_CRTC_DATA \<equiv> 0x3D5"
abbreviation VGA_INSTAT_READ :: u16 where "VGA_INSTAT_READ \<equiv> 0x3DA"

text \<open>
  Bit 7 of CRT controller register 0x11 protects registers 0 to 7. With bit 5 of the attribute
  index set the sixteen palette registers cannot be written.
\<close>

definition vga_out :: "u16 \<Rightarrow> u8 \<Rightarrow> vga \<Rightarrow> vga" where
  "vga_out p v g =
     (if p = VGA_AC_INDEX then
        (if \<not> ac_flip g then g\<lparr>ac_index := v, ac_flip := True\<rparr>
         else if bit (ac_index g) 5 \<and> ac_index g AND 0x1F < 16 then g\<lparr>ac_flip := False\<rparr>
         else g\<lparr>ac_reg := (ac_reg g)(ac_index g AND 0x1F := v), ac_flip := False\<rparr>)
      else if p = VGA_MISC_WRITE then g\<lparr>misc_reg := v\<rparr>
      else if p = VGA_SEQ_INDEX then g\<lparr>seq_index := v\<rparr>
      else if p = VGA_SEQ_DATA then g\<lparr>seq_reg := (seq_reg g)(seq_index g := v)\<rparr>
      else if p = VGA_GC_INDEX then g\<lparr>gc_index := v\<rparr>
      else if p = VGA_GC_DATA then g\<lparr>gc_reg := (gc_reg g)(gc_index g := v)\<rparr>
      else if p = VGA_CRTC_INDEX then g\<lparr>crtc_index := v\<rparr>
      else if p = VGA_CRTC_DATA then
        (if crtc_index g < 8 \<and> bit (crtc_reg g 0x11) 7 then g
         else g\<lparr>crtc_reg := (crtc_reg g)(crtc_index g := v)\<rparr>)
      else g)"

definition vga_in :: "u16 \<Rightarrow> vga \<Rightarrow> u8 \<times> vga" where
  "vga_in p g =
     (if p = VGA_SEQ_DATA then (seq_reg g (seq_index g), g)
      else if p = VGA_GC_DATA then (gc_reg g (gc_index g), g)
      else if p = VGA_CRTC_DATA then (crtc_reg g (crtc_index g), g)
      else if p = VGA_INSTAT_READ then (0, g\<lparr>ac_flip := False\<rparr>)
      else (0, g))"

abbreviation vga_reads :: "u16 set" where
  "vga_reads \<equiv> {VGA_SEQ_DATA, VGA_GC_DATA, VGA_CRTC_DATA}"

subsection \<open>Driver\<close>

definition registers_80x25_text :: "u8 list" where
  "registers_80x25_text =
    [0x67,
     0x03, 0x00, 0x03, 0x00, 0x02,
     0x5F, 0x4F, 0x50, 0x82, 0x55, 0x81, 0xBF, 0x1F,
     0x00, 0x4F, 0x0D, 0x0E, 0x00, 0x00, 0x00, 0x50,
     0x9C, 0x0E, 0x8F, 0x28, 0x1F, 0x96, 0xB9, 0xA3,
     0xFF,
     0x00, 0x00, 0x00, 0x00, 0x00, 0x10, 0x0E, 0x00,
     0xFF,
     0x00, 0x01, 0x02, 0x03, 0x04, 0x05, 0x14, 0x07,
     0x38, 0x39, 0x3A, 0x3B, 0x3C, 0x3D, 0x3E, 0x3F,
     0x0C, 0x00, 0x0F, 0x08, 0x00]"

definition registers_320x200x256 :: "u8 list" where
  "registers_320x200x256 =
    [0x63,
     0x03, 0x01, 0x0F, 0x00, 0x0E,
     0x5F, 0x4F, 0x50, 0x82, 0x54, 0x80, 0xBF, 0x1F,
     0x00, 0x41, 0x00, 0x00, 0x00, 0x00, 0x00, 0x00,
     0x9C, 0x0E, 0x8F, 0x28, 0x40, 0x96, 0xB9, 0xA3,
     0xFF,
     0x00, 0x00, 0x00, 0x00, 0x00, 0x40, 0x05, 0x0F,
     0xFF,
     0x00, 0x01, 0x02, 0x03, 0x04, 0x05, 0x06, 0x07,
     0x08, 0x09, 0x0A, 0x0B, 0x0C, 0x0D, 0x0E, 0x0F,
     0x41, 0x00, 0x0F, 0x00, 0x00]"

definition registers_640x480x16 :: "u8 list" where
  "registers_640x480x16 =
    [0xE3,
     0x03, 0x01, 0x08, 0x00, 0x06,
     0x5F, 0x4F, 0x50, 0x82, 0x54, 0x80, 0x0B, 0x3E,
     0x00, 0x40, 0x00, 0x00, 0x00, 0x00, 0x00, 0x00,
     0xEA, 0x0C, 0xDF, 0x28, 0x00, 0xE7, 0x04, 0xE3,
     0xFF,
     0x00, 0x00, 0x00, 0x00, 0x03, 0x00, 0x05, 0x0F,
     0xFF,
     0x00, 0x01, 0x02, 0x03, 0x04, 0x05, 0x14, 0x07,
     0x38, 0x39, 0x3A, 0x3B, 0x3C, 0x3D, 0x3E, 0x3F,
     0x01, 0x00, 0x0F, 0x00, 0x00]"

text \<open>A loop that writes n registers of one group from position \<open>base\<close> of the table on.\<close>

definition write_group :: "(u16 \<Rightarrow> u8 \<Rightarrow> 'd \<Rightarrow> 'd) \<Rightarrow> u16 \<Rightarrow> u16 \<Rightarrow> nat \<Rightarrow> nat \<Rightarrow> u8 list \<Rightarrow> 'd \<Rightarrow> 'd res" where
  "write_group outp index data base n regs d = forR [0..<n]
     (\<lambda>i d. bindR (array_get regs (int (base + i))) (\<lambda>v. Inr (outp data v (outp index (of_nat i) d)))) d"

text \<open>The attribute controller's loop: each write is preceded by a read that resets the flip-flop.\<close>

definition write_attributes ::
  "(u16 \<Rightarrow> u8 \<Rightarrow> 'd \<Rightarrow> 'd) \<Rightarrow> (u16 \<Rightarrow> 'd \<Rightarrow> u8 \<times> 'd) \<Rightarrow> nat \<Rightarrow> nat \<Rightarrow> u8 list \<Rightarrow> 'd \<Rightarrow> 'd res" where
  "write_attributes outp inp base n regs d = forR [0..<n]
     (\<lambda>i d. bindR (array_get regs (int (base + i))) (\<lambda>v.
        let d = snd (inp VGA_INSTAT_READ d)
        in Inr (outp VGA_AC_WRITE v (outp VGA_AC_INDEX (of_nat i) d)))) d"

text \<open>Read a register, change it, write it back.\<close>

definition rmw :: "(u16 \<Rightarrow> u8 \<Rightarrow> 'd \<Rightarrow> 'd) \<Rightarrow> (u16 \<Rightarrow> 'd \<Rightarrow> u8 \<times> 'd) \<Rightarrow> u16 \<Rightarrow> (u8 \<Rightarrow> u8) \<Rightarrow> 'd \<Rightarrow> 'd" where
  "rmw outp inp port f d = (let (v, d) = inp port d in outp port (f v) d)"

text \<open>The table is changed in place; its new value is part of the result.\<close>

definition writevgaregisters ::
  "(u16 \<Rightarrow> u8 \<Rightarrow> 'd \<Rightarrow> 'd) \<Rightarrow> (u16 \<Rightarrow> 'd \<Rightarrow> u8 \<times> 'd) \<Rightarrow> u8 list \<Rightarrow> 'd \<Rightarrow> (u8 list \<times> 'd) res" where
  "writevgaregisters outp inp regs d =
     bindR (array_get regs 0) (\<lambda>misc.
     bindR (write_group outp VGA_SEQ_INDEX VGA_SEQ_DATA 1 5 regs (outp VGA_MISC_WRITE misc d)) (\<lambda>d.
       let d = outp VGA_CRTC_INDEX 0x03 d;
           d = rmw outp inp VGA_CRTC_DATA (\<lambda>v. v OR 0x80) d;
           d = outp VGA_CRTC_INDEX 0x11 d;
           d = rmw outp inp VGA_CRTC_DATA (\<lambda>v. v AND NOT 0x80) d
       in
     bindR (array_get regs (6 + 0x03)) (\<lambda>r. bindR (array_set regs (6 + 0x03) (r OR 0x80)) (\<lambda>regs.
     bindR (array_get regs (6 + 0x11)) (\<lambda>r. bindR (array_set regs (6 + 0x11) (r AND NOT 0x80)) (\<lambda>regs.
     bindR (write_group outp VGA_CRTC_INDEX VGA_CRTC_DATA 6 25 regs d) (\<lambda>d.
     bindR (write_group outp VGA_GC_INDEX VGA_GC_DATA 31 9 regs d) (\<lambda>d.
     bindR (write_attributes outp inp 40 21 regs d) (\<lambda>d.
       let d = snd (inp VGA_INSTAT_READ d)
       in Inr (regs, outp VGA_AC_INDEX 0x20 d))))))))))"

definition setplane :: "(u16 \<Rightarrow> u8 \<Rightarrow> 'd \<Rightarrow> 'd) \<Rightarrow> u8 \<Rightarrow> 'd \<Rightarrow> 'd" where
  "setplane outp plane d =
     (let plane = plane AND 3;
          planeMask = push_bit (unat plane) 1;
          d = outp VGA_GC_DATA plane (outp VGA_GC_INDEX 4 d)
      in outp VGA_SEQ_DATA planeMask (outp VGA_SEQ_INDEX 2 d))"

definition getframebufferBase :: "(u16 \<Rightarrow> u8 \<Rightarrow> 'd \<Rightarrow> 'd) \<Rightarrow> (u16 \<Rightarrow> 'd \<Rightarrow> u8 \<times> 'd) \<Rightarrow> 'd \<Rightarrow> u32 \<times> 'd" where
  "getframebufferBase outp inp d =
     (let (v, d) = inp VGA_GC_DATA (outp VGA_GC_INDEX 6 d);
          plane = drop_bit 2 v AND 3
      in (if plane = 0 \<or> plane = 1 then 0x800A0000 else if plane = 2 then 0x800B0000 else 0x800B8000, d))"

text \<open>The 256 copies into the window at 0xB8000, byte by byte.\<close>

definition write_glyph :: "(u32 \<Rightarrow> u8 \<Rightarrow> 'd \<Rightarrow> 'd) \<Rightarrow> u8 list \<Rightarrow> nat \<Rightarrow> nat \<Rightarrow> 'd \<Rightarrow> 'd res" where
  "write_glyph poke font h i d = forR [0..<h] (\<lambda>k d. bindR (array_get font (int (h * i + k))) (\<lambda>b.
     Inr (poke (0x800B8000 + of_nat (32 * i + k)) b d))) d"

definition write_glyphs :: "(u32 \<Rightarrow> u8 \<Rightarrow> 'd \<Rightarrow> 'd) \<Rightarrow> u8 list \<Rightarrow> nat \<Rightarrow> 'd \<Rightarrow> 'd res" where
  "write_glyphs poke font h d = forR [0..<256] (write_glyph poke font h) d"

definition writefont ::
  "(u16 \<Rightarrow> u8 \<Rightarrow> 'd \<Rightarrow> 'd) \<Rightarrow> (u16 \<Rightarrow> 'd \<Rightarrow> u8 \<times> 'd) \<Rightarrow> (u32 \<Rightarrow> u8 \<Rightarrow> 'd \<Rightarrow> 'd) \<Rightarrow> u8 list \<Rightarrow> nat \<Rightarrow> 'd \<Rightarrow> 'd res" where
  "writefont outp inp poke fontBuffer fontHeight d =
     (let (seq2, d) = inp VGA_SEQ_DATA (outp VGA_SEQ_INDEX 2 d);
          (seq4, d) = inp VGA_SEQ_DATA (outp VGA_SEQ_INDEX 4 d);
          d = outp VGA_SEQ_DATA (seq4 OR 0x04) d;
          (gc4, d) = inp VGA_GC_DATA (outp VGA_GC_INDEX 4 d);
          (gc5, d) = inp VGA_GC_DATA (outp VGA_GC_INDEX 5 d);
          d = outp VGA_GC_DATA (gc5 AND NOT 0x10) d;
          (gc6, d) = inp VGA_GC_DATA (outp VGA_GC_INDEX 6 d);
          d = outp VGA_GC_DATA (gc6 AND NOT 0x02) d;
          d = setplane outp 2 d
      in bindR (write_glyphs poke fontBuffer fontHeight d) (\<lambda>d.
         let d = outp VGA_SEQ_DATA seq2 (outp VGA_SEQ_INDEX 2 d);
             d = outp VGA_SEQ_DATA seq4 (outp VGA_SEQ_INDEX 4 d);
             d = outp VGA_GC_DATA gc4 (outp VGA_GC_INDEX 4 d);
             d = outp VGA_GC_DATA gc5 (outp VGA_GC_INDEX 5 d);
             d = outp VGA_GC_DATA gc6 (outp VGA_GC_INDEX 6 d)
         in Inr d))"

subsection \<open>What the adapter holds afterwards\<close>

text \<open>Registers 0 to n - 1 taken from a table.\<close>

definition set_regs :: "(u8 \<Rightarrow> u8) \<Rightarrow> nat \<Rightarrow> nat \<Rightarrow> u8 list \<Rightarrow> u8 \<Rightarrow> u8" where
  "set_regs f base n rs i = (if unat i < n then rs ! (base + unat i) else f i)"

lemma u8_of_nat_eq: "n < 256 \<Longrightarrow> w = of_nat n \<longleftrightarrow> unat w = n" for w :: u8
  using unat_of_nat_id [of n, where 'a = 8] by auto

lemma set_regs_Suc:
  assumes "n < 256"
  shows "(set_regs f base n rs)(of_nat n := rs ! (base + n)) = set_regs f base (Suc n) rs"
  using assms by (auto simp: set_regs_def less_Suc_eq fun_eq_iff u8_of_nat_eq)

lemma mask_5: "(mask 5 :: u8) = 0x1F"
  by (simp add: mask_eq_exp_minus_1)

lemma attribute_index: "i < 21 \<Longrightarrow> (of_nat i :: u8) AND 0x1F = of_nat i \<and> \<not> bit (of_nat i :: u8) 5"
proof -
  assume "i < 21"
  then have "of_nat i = take_bit 5 (of_nat i :: u8)" by (simp add: take_bit_of_nat take_bit_nat_eq_self)
  then show ?thesis by (metis bit_take_bit_iff less_irrefl mask_5 take_bit_eq_mask)
qed

text \<open>The contents of a table, and what writing it leaves in it.\<close>

definition programmed :: "u8 list \<Rightarrow> vga \<Rightarrow> bool" where
  "programmed rs g \<longleftrightarrow> misc_reg g = rs ! 0 \<and> (\<forall>i < 5. seq_reg g (of_nat i) = rs ! (1 + i)) \<and>
     (\<forall>i < 25. crtc_reg g (of_nat i) = rs ! (6 + i)) \<and> (\<forall>i < 9. gc_reg g (of_nat i) = rs ! (31 + i)) \<and>
     (\<forall>i < 21. ac_reg g (of_nat i) = rs ! (40 + i)) \<and> bit (ac_index g) 5"

definition unlocked :: "u8 list \<Rightarrow> u8 list" where
  "unlocked rs = rs[9 := rs ! 9 OR 0x80, 23 := rs ! 23 AND NOT 0x80]"

lemma set_regs_nth: "i < n \<Longrightarrow> n \<le> 256 \<Longrightarrow> set_regs f base n rs (of_nat i) = rs ! (base + i)"
  using unat_of_nat_id [of i, where 'a = 8] by (simp add: set_regs_def)

locale vga_hw =
  fixes outp :: "u16 \<Rightarrow> u8 \<Rightarrow> 'd \<Rightarrow> 'd" and inp :: "u16 \<Rightarrow> 'd \<Rightarrow> u8 \<times> 'd" and regs :: "'d \<Rightarrow> vga"
  assumes out_regs: "regs (outp p v d) = vga_out p v (regs d)"
    and in_regs: "regs (snd (inp p d)) = snd (vga_in p (regs d))"
    and in_value: "p \<in> vga_reads \<Longrightarrow> fst (inp p d) = fst (vga_in p (regs d))"

begin

lemmas out_step = out_regs vga_out_def

lemma rmw_crtc: "regs (rmw outp inp VGA_CRTC_DATA f d) = vga_out VGA_CRTC_DATA (f (crtc_reg (regs d) (crtc_index (regs d)))) (regs d)"
  using in_value [of VGA_CRTC_DATA d] in_regs [of VGA_CRTC_DATA d]
  by (cases "inp VGA_CRTC_DATA d") (simp add: rmw_def out_regs vga_in_def)

lemma write_group_ok:
  assumes "\<And>i d. i < n \<Longrightarrow> I d \<Longrightarrow> I (outp data (rs ! (base + i)) (outp index (of_nat i) d)) \<and>
      R (outp data (rs ! (base + i)) (outp index (of_nat i) d)) = (R d)(of_nat i := rs ! (base + i))"
    "I d" "base + n \<le> length rs" "n \<le> 256"
  shows "\<exists>d'. write_group outp index data base n rs d = Inr d' \<and> I d' \<and> R d' = set_regs (R d) base n rs"
  using assms
proof (induction n)
  case 0
  then show ?case by (simp add: write_group_def set_regs_def)
next
  case (Suc n)
  then obtain d' where d': "write_group outp index data base n rs d = Inr d'" "I d'" "R d' = set_regs (R d) base n rs" by force
  let ?d = "outp data (rs ! (base + n)) (outp index (of_nat n) d')"
  have "I ?d \<and> R ?d = (R d')(of_nat n := rs ! (base + n))" by (rule Suc.prems(1)) (simp_all add: d')
  moreover have "nat (int base + int n) = base + n" by simp
  then have "write_group outp index data base (Suc n) rs d = Inr ?d"
    using d'(1) Suc.prems(3) by (simp add: write_group_def forR_append array_get_def)
  ultimately show ?case using Suc.prems(4) d'(3) by (simp add: set_regs_Suc)
qed

text \<open>The registers that are all right after each group is written, whatever the adapter held before.\<close>

lemma write_seq:
  assumes "6 \<le> length rs"
  shows "\<exists>d'. write_group outp VGA_SEQ_INDEX VGA_SEQ_DATA 1 5 rs d = Inr d' \<and> misc_reg (regs d') = misc_reg (regs d) \<and>
    seq_reg (regs d') = set_regs (seq_reg (regs d)) 1 5 rs"
  by (rule write_group_ok [where I = "\<lambda>e. misc_reg (regs e) = misc_reg (regs d)"]) (use assms in \<open>simp_all add: out_step\<close>)

lemma write_crtc:
  assumes "31 \<le> length rs" "\<not> bit (crtc_reg (regs d) 0x11) 7" "\<not> bit (rs ! 23) 7"
  shows "\<exists>d'. write_group outp VGA_CRTC_INDEX VGA_CRTC_DATA 6 25 rs d = Inr d' \<and>
    (misc_reg (regs d') = misc_reg (regs d) \<and> seq_reg (regs d') = seq_reg (regs d) \<and> \<not> bit (crtc_reg (regs d') 0x11) 7) \<and>
    crtc_reg (regs d') = set_regs (crtc_reg (regs d)) 6 25 rs"
proof (rule write_group_ok)
  fix i :: nat and e
  assume i: "i < 25" and e: "misc_reg (regs e) = misc_reg (regs d) \<and> seq_reg (regs e) = seq_reg (regs d) \<and> \<not> bit (crtc_reg (regs e) 0x11) 7"
  have "(0x11 :: u8) = of_nat i \<Longrightarrow> i = 17"
    using i by (simp add: u8_of_nat_eq)
  with e assms(3) show "(misc_reg (regs (outp VGA_CRTC_DATA (rs ! (6 + i)) (outp VGA_CRTC_INDEX (of_nat i) e))) = misc_reg (regs d) \<and>
      seq_reg (regs (outp VGA_CRTC_DATA (rs ! (6 + i)) (outp VGA_CRTC_INDEX (of_nat i) e))) = seq_reg (regs d) \<and>
      \<not> bit (crtc_reg (regs (outp VGA_CRTC_DATA (rs ! (6 + i)) (outp VGA_CRTC_INDEX (of_nat i) e))) 0x11) 7) \<and>
      crtc_reg (regs (outp VGA_CRTC_DATA (rs ! (6 + i)) (outp VGA_CRTC_INDEX (of_nat i) e))) = (crtc_reg (regs e))(of_nat i := rs ! (6 + i))"
    by (auto simp: out_step)
qed (use assms in auto)

lemma write_gc:
  assumes "40 \<le> length rs"
  shows "\<exists>d'. write_group outp VGA_GC_INDEX VGA_GC_DATA 31 9 rs d = Inr d' \<and>
    (misc_reg (regs d') = misc_reg (regs d) \<and> seq_reg (regs d') = seq_reg (regs d) \<and> crtc_reg (regs d') = crtc_reg (regs d)) \<and>
    gc_reg (regs d') = set_regs (gc_reg (regs d)) 31 9 rs"
  by (rule write_group_ok) (use assms in \<open>simp_all add: out_step\<close>)

lemma write_attributes_ok:
  assumes "n \<le> 21" "40 + n \<le> length rs"
  shows "\<exists>d'. write_attributes outp inp 40 n rs d = Inr d' \<and> misc_reg (regs d') = misc_reg (regs d) \<and>
    seq_reg (regs d') = seq_reg (regs d) \<and> crtc_reg (regs d') = crtc_reg (regs d) \<and> gc_reg (regs d') = gc_reg (regs d) \<and>
    ac_reg (regs d') = set_regs (ac_reg (regs d)) 40 n rs"
  using assms
proof (induction n)
  case 0
  then show ?case by (simp add: write_attributes_def set_regs_def)
next
  case (Suc n)
  then obtain d' where d': "write_attributes outp inp 40 n rs d = Inr d'" "misc_reg (regs d') = misc_reg (regs d)"
    "seq_reg (regs d') = seq_reg (regs d)" "crtc_reg (regs d') = crtc_reg (regs d)" "gc_reg (regs d') = gc_reg (regs d)"
    "ac_reg (regs d') = set_regs (ac_reg (regs d)) 40 n rs" by force
  let ?d = "outp VGA_AC_WRITE (rs ! (40 + n)) (outp VGA_AC_INDEX (of_nat n) (snd (inp VGA_INSTAT_READ d')))"
  have i: "(of_nat n :: u8) AND 0x1F = of_nat n" "\<not> bit (of_nat n :: u8) 5" using attribute_index [of n] Suc.prems(1) by simp_all
  have "nat (40 + int n) = 40 + n" by simp
  then have "write_attributes outp inp 40 (Suc n) rs d = Inr ?d"
    using d'(1) Suc.prems(2) by (simp add: write_attributes_def forR_append array_get_def Let_def)
  moreover have "regs ?d = (regs d')\<lparr>ac_index := of_nat n, ac_flip := False, ac_reg := (ac_reg (regs d'))(of_nat n := rs ! (40 + n))\<rparr>"
    using i by (simp add: out_step in_regs vga_in_def)
  ultimately show ?case using Suc.prems(1) d'(2-) by (simp add: set_regs_Suc)
qed

lemma writevgaregisters_effect:
  assumes len: "length rs = 61"
  shows "\<exists>d'. writevgaregisters outp inp rs d = Inr (unlocked rs, d') \<and> programmed (unlocked rs) (regs d')"
proof -
  let ?u = "unlocked rs"
  have u: "length ?u = 61" "?u ! 0 = rs ! 0" "\<And>i. i < 5 \<Longrightarrow> ?u ! (1 + i) = rs ! (1 + i)" "\<not> bit (?u ! 23) 7"
    using len by (simp_all add: unlocked_def bit_simps)
  obtain d1 where d1: "write_group outp VGA_SEQ_INDEX VGA_SEQ_DATA 1 5 rs (outp VGA_MISC_WRITE (rs ! 0) d) = Inr d1"
    "misc_reg (regs d1) = rs ! 0" "seq_reg (regs d1) = set_regs (seq_reg (regs d)) 1 5 rs"
    using write_seq [of rs "outp VGA_MISC_WRITE (rs ! 0) d"] len by (auto simp: out_step)
  define d2 where "d2 = rmw outp inp VGA_CRTC_DATA (\<lambda>v. v AND NOT 0x80) (outp VGA_CRTC_INDEX 0x11
    (rmw outp inp VGA_CRTC_DATA (\<lambda>v. v OR 0x80) (outp VGA_CRTC_INDEX 0x03 d1)))"
  have d2: "misc_reg (regs d2) = rs ! 0" "seq_reg (regs d2) = seq_reg (regs d1)" "\<not> bit (crtc_reg (regs d2) 0x11) 7"
    using d1 by (simp_all add: d2_def rmw_crtc out_step bit_simps)
  obtain d3 where d3: "write_group outp VGA_CRTC_INDEX VGA_CRTC_DATA 6 25 ?u d2 = Inr d3" "misc_reg (regs d3) = rs ! 0"
    "seq_reg (regs d3) = seq_reg (regs d1)" "crtc_reg (regs d3) = set_regs (crtc_reg (regs d2)) 6 25 ?u"
    using write_crtc [of ?u d2] u d2 by auto
  obtain d4 where d4: "write_group outp VGA_GC_INDEX VGA_GC_DATA 31 9 ?u d3 = Inr d4" "misc_reg (regs d4) = rs ! 0"
    "seq_reg (regs d4) = seq_reg (regs d1)" "crtc_reg (regs d4) = crtc_reg (regs d3)" "gc_reg (regs d4) = set_regs (gc_reg (regs d3)) 31 9 ?u"
    using write_gc [of ?u d3] u d3 by auto
  obtain d5 where d5: "write_attributes outp inp 40 21 ?u d4 = Inr d5" "misc_reg (regs d5) = rs ! 0"
    "seq_reg (regs d5) = seq_reg (regs d1)" "crtc_reg (regs d5) = crtc_reg (regs d3)" "gc_reg (regs d5) = gc_reg (regs d4)"
    "ac_reg (regs d5) = set_regs (ac_reg (regs d4)) 40 21 ?u"
    using write_attributes_ok [of 21 ?u d4] u d4 by auto
  let ?d = "outp VGA_AC_INDEX 0x20 (snd (inp VGA_INSTAT_READ d5))"
  have "programmed ?u (regs ?d)"
    using d1(3) d3(4) d4(5) d5 u by (simp add: programmed_def out_step in_regs vga_in_def set_regs_nth)
  moreover have "writevgaregisters outp inp rs d = Inr (?u, ?d)"
    using d1(1) d3(1) [unfolded d2_def] d4(1) d5(1) len unfolding writevgaregisters_def Let_def
    by (simp add: array_get_def array_set_def unlocked_def)
  ultimately show ?thesis by blast
qed

end

text \<open>The register file is such a device itself.\<close>

interpretation vga_regs: vga_hw vga_out vga_in "\<lambda>g. g"
  by unfold_locales simp_all

subsection \<open>The font in video memory\<close>

definition glyph_image :: "u8 list \<Rightarrow> nat \<Rightarrow> nat \<Rightarrow> nat \<Rightarrow> memory \<Rightarrow> memory" where
  "glyph_image font h i n fm a =
     (let off = unat (a - 0x800B8000)
      in if 32 * i \<le> off \<and> off < 32 * i + n then font ! (h * i + (off - 32 * i)) else fm a)"

definition font_image :: "u8 list \<Rightarrow> nat \<Rightarrow> nat \<Rightarrow> memory \<Rightarrow> memory" where
  "font_image font h n fm a =
     (let off = unat (a - 0x800B8000)
      in if off < 32 * n \<and> off mod 32 < h then font ! (h * (off div 32) + off mod 32) else fm a)"

lemma window_address: "m < 2 ^ 32 \<Longrightarrow> a = 0x800B8000 + of_nat m \<longleftrightarrow> unat (a - 0x800B8000) = m" for a :: u32
proof -
  assume m: "m < 2 ^ 32"
  have "a = 0x800B8000 + of_nat m \<longleftrightarrow> a - 0x800B8000 = of_nat m" by (metis add_diff_cancel_left' diff_add_cancel add.commute)
  also have "\<dots> \<longleftrightarrow> unat (a - 0x800B8000) = m" using m unat_of_nat_id [of m, where 'a = 32] by auto
  finally show ?thesis .
qed

lemma glyph_image_Suc:
  assumes "32 * i + n < 2 ^ 32"
  shows "(glyph_image font h i n fm)(0x800B8000 + of_nat (32 * i + n) := font ! (h * i + n)) = glyph_image font h i (Suc n) fm"
proof
  note w = window_address [OF assms]
  fix a :: u32
  show "((glyph_image font h i n fm)(0x800B8000 + of_nat (32 * i + n) := font ! (h * i + n))) a = glyph_image font h i (Suc n) fm a"
    unfolding fun_upd_apply w glyph_image_def Let_def by auto
qed

lemma glyph_font_image:
  assumes "h \<le> 32"
  shows "glyph_image font h n h (font_image font h n fm) = font_image font h (Suc n) fm"
proof
  fix a :: u32
  define off where "off = unat (a - 0x800B8000)"
  consider "off < 32 * n" | "32 * n \<le> off" "off < 32 * Suc n" | "32 * Suc n \<le> off" by linarith
  then show "glyph_image font h n h (font_image font h n fm) a = font_image font h (Suc n) fm a"
  proof cases
    case 2
    then obtain k where k: "off = 32 * n + k" "k < 32" by (metis add_less_cancel_left le_iff_add mult_Suc_right add.commute)
    then have "off div 32 = n" "off mod 32 = k" by simp_all
    then show ?thesis using k assms by (simp add: glyph_image_def font_image_def Let_def off_def [symmetric])
  qed (use assms in \<open>simp_all add: glyph_image_def font_image_def Let_def off_def [symmetric]\<close>)
qed

text \<open>The byte of row r of the glyph of character c.\<close>

lemma font_image_byte:
  assumes "c < 256" "r < h" "h \<le> 32"
  shows "font_image font h 256 fm (0x800B8000 + of_nat (32 * c + r)) = font ! (h * c + r)"
proof -
  have "32 * c + r < 2 ^ 32" using assms by simp
  from window_address [OF this, of "0x800B8000 + of_nat (32 * c + r)"]
  have "unat ((0x800B8000 + of_nat (32 * c + r) :: u32) - 0x800B8000) = 32 * c + r" by simp
  moreover have "(32 * c + r) div 32 = c" "(32 * c + r) mod 32 = r" using assms by simp_all
  ultimately show ?thesis using assms by (simp add: font_image_def Let_def)
qed

subsection \<open>The planes of the video memory\<close>

lemma forR_keeps:
  "(\<And>i s s'. f i s = Inr s' \<Longrightarrow> q s' = q s) \<Longrightarrow> forR is f s = Inr s' \<Longrightarrow> q s' = q s"
  by (induction "is" arbitrary: s) (fastforce simp: bindR_eq_Inr)+

text \<open>
  The registers select plain planar stores through the 32 KB window at 0xB8000: no chaining of planes, no
  odd/even addressing, write mode 0, no set/reset, no function or rotation, no bit mask. A plane is
  addressed by the kernel addresses of the window.
\<close>

definition planar :: "vga \<Rightarrow> bool" where
  "planar g \<longleftrightarrow> bit (seq_reg g 4) 2 \<and> \<not> bit (seq_reg g 4) 3 \<and> gc_reg g 1 AND 0x0F = 0 \<and> gc_reg g 3 AND 0x1F = 0 \<and>
     \<not> bit (gc_reg g 5) 4 \<and> gc_reg g 5 AND 0x03 = 0 \<and> \<not> bit (gc_reg g 6) 1 \<and> gc_reg g 6 AND 0x0C = 0x0C \<and> gc_reg g 8 = 0xFF"

definition in_window :: "u32 \<Rightarrow> bool" where
  "in_window a \<longleftrightarrow> unat (a - 0x800B8000) < 32768"

definition plane_store :: "u8 \<Rightarrow> u32 \<Rightarrow> u8 \<Rightarrow> (nat \<Rightarrow> memory) \<Rightarrow> nat \<Rightarrow> memory" where
  "plane_store sel a b m = (\<lambda>p. if p < 4 \<and> bit sel p then (m p)(a := b) else m p)"

lemma bit_4: "bit (4 :: u8) p \<longleftrightarrow> p = 2"
proof -
  have "(4 :: u8) = push_bit 2 1" by simp
  then show ?thesis by (simp only: bit_push_bit_iff bit_1_iff) auto
qed

lemma plane_store_2: "plane_store 4 a b m = m(2 := (m 2)(a := b))"
  unfolding plane_store_def bit_4 by (rule ext) simp

lemma planar_bits:
  fixes x :: u8
  shows "bit (x OR 4) 2" "bit (x OR 4) 3 = bit x 3" "\<not> bit (x AND NOT 16) 4" "(x AND NOT 16) AND 3 = x AND 3"
    "\<not> bit (x AND NOT 2) 1" "(x AND NOT 2) AND 12 = x AND 12"
proof -
  have b: "bit (4 :: u8) 2" "\<not> bit (4 :: u8) 3" "bit (16 :: u8) 4" "bit (2 :: u8) 1" by (simp_all add: bit_iff_odd)
  show "bit (x OR 4) 2" "bit (x OR 4) 3 = bit x 3" "\<not> bit (x AND NOT 16) 4" "\<not> bit (x AND NOT 2) 1"
    using b by (simp_all only: bit_or_iff bit_and_iff bit_not_iff simp_thms)
  show "(x AND NOT 16) AND 3 = x AND 3" "(x AND NOT 2) AND 12 = x AND 12" unfolding and.assoc by simp_all
qed

lemma restored_2: "f(a := x, b := y, b := f b, a := f a) = f"
  and restored_3: "f(a := x, b := y, c := z, c := f c, a := f a, b := f b) = f"
  by auto

definition put_seq :: "u8 \<Rightarrow> u8 \<Rightarrow> vga \<Rightarrow> vga" where
  "put_seq i v g = g\<lparr>seq_index := i, seq_reg := (seq_reg g)(i := v)\<rparr>"

definition put_gc :: "u8 \<Rightarrow> u8 \<Rightarrow> vga \<Rightarrow> vga" where
  "put_gc i v g = g\<lparr>gc_index := i, gc_reg := (gc_reg g)(i := v)\<rparr>"

lemma registers_restored:
  "(put_gc 6 (gc_reg g 6) (put_gc 5 (gc_reg g 5) (put_gc 4 (gc_reg g 4) (put_seq 4 (seq_reg g 4) (put_seq 2 (seq_reg g 2)
     (g\<lparr>seq_index := 2, seq_reg := (seq_reg g)(4 := x, 2 := 4), gc_index := 4,
        gc_reg := (gc_reg g)(5 := y, 6 := z, 4 := 2)\<rparr>))))))\<lparr>seq_index := 0, gc_index := 0\<rparr> = g\<lparr>seq_index := 0, gc_index := 0\<rparr>"
  unfolding put_seq_def put_gc_def
  by (cases g) (simp only: vga.simps vga.select_convs vga.update_convs restored_2 restored_3)

locale vga_mem = vga_hw outp inp regs
  for outp :: "u16 \<Rightarrow> u8 \<Rightarrow> 'd \<Rightarrow> 'd" and inp :: "u16 \<Rightarrow> 'd \<Rightarrow> u8 \<times> 'd" and regs :: "'d \<Rightarrow> vga" +
  fixes poke :: "u32 \<Rightarrow> u8 \<Rightarrow> 'd \<Rightarrow> 'd" and planes :: "'d \<Rightarrow> nat \<Rightarrow> memory"
  assumes poke_regs: "regs (poke a b d) = regs d"
    and poke_planes: "planar (regs d) \<Longrightarrow> in_window a \<Longrightarrow> planes (poke a b d) = plane_store (seq_reg (regs d) 2) a b (planes d)"
    and out_planes: "planes (outp p v d) = planes d"
    and in_planes: "planes (snd (inp p d)) = planes d"

begin

lemma write_group_planes: "write_group outp index data base n rs d = Inr d' \<Longrightarrow> planes d' = planes d"
  unfolding write_group_def by (rule forR_keeps [where q = planes]) (auto simp: bindR_eq_Inr out_planes)

lemma write_attributes_planes: "write_attributes outp inp base n rs d = Inr d' \<Longrightarrow> planes d' = planes d"
  unfolding write_attributes_def
  by (rule forR_keeps [where q = planes]) (auto simp: bindR_eq_Inr Let_def out_planes in_planes)

lemma writevgaregisters_planes: "writevgaregisters outp inp rs d = Inr (rs', d') \<Longrightarrow> planes d' = planes d"
  unfolding writevgaregisters_def rmw_def Let_def case_prod_unfold
  by (auto simp: bindR_eq_Inr out_planes in_planes dest!: write_group_planes write_attributes_planes)

text \<open>With plane 2 alone in the map mask the copies put the glyphs there.\<close>

lemma write_glyph_loop:
  assumes "n \<le> h" "i < 256" "length font = 256 * h" "h \<le> 32" "planar (regs d)" "seq_reg (regs d) 2 = 4"
  shows "\<exists>d'. forR [0..<n] (\<lambda>k d. bindR (array_get font (int (h * i + k))) (\<lambda>b.
      Inr (poke (0x800B8000 + of_nat (32 * i + k)) b d))) d = Inr d' \<and> regs d' = regs d \<and>
    planes d' = (planes d)(2 := glyph_image font h i n (planes d 2))"
  using assms(1)
proof (induction n)
  case 0
  have "glyph_image font h i 0 fm = fm" for fm by (auto simp: glyph_image_def fun_eq_iff Let_def)
  then show ?case by simp
next
  case (Suc n)
  from Suc.IH [OF Suc_leD [OF Suc.prems]] obtain d' where d': "forR [0..<n] (\<lambda>k d. bindR (array_get font (int (h * i + k))) (\<lambda>b.
      Inr (poke (0x800B8000 + of_nat (32 * i + k)) b d))) d = Inr d'" "regs d' = regs d"
    "planes d' = (planes d)(2 := glyph_image font h i n (planes d 2))" by blast
  have "h * Suc i \<le> h * 256" using assms(2) by (intro mult_le_mono) simp_all
  then have b: "h * i + n < length font" using Suc.prems assms(3) by (simp only: mult_Suc_right)
  have lt: "32 * i + n < 2 ^ 32" "32 * i + n < 32768" using assms Suc.prems by simp_all
  let ?a = "0x800B8000 + of_nat (32 * i + n) :: u32"
  have "unat (?a - 0x800B8000) = 32 * i + n" using window_address [OF lt(1), of ?a] by simp
  then have w: "in_window ?a" using lt(2) by (simp add: in_window_def)
  have "planar (regs d')" "seq_reg (regs d') 2 = 4" using assms(5,6) d'(2) by simp_all
  then have p: "planes (poke ?a (font ! (h * i + n)) d') = (planes d)(2 := glyph_image font h i (Suc n) (planes d 2))"
    using poke_planes [OF _ w] d'(3) glyph_image_Suc [OF lt(1), of font h "planes d 2"]
    by (simp only: plane_store_2 fun_upd_same fun_upd_upd)
  have "array_get font (int (h * i + n)) = Inr (font ! (h * i + n))"
    unfolding array_get_def nat_int using b by (metis of_nat_0_le_iff of_nat_less_iff)
  then have "forR [0..<Suc n] (\<lambda>k d. bindR (array_get font (int (h * i + k))) (\<lambda>b.
      Inr (poke (0x800B8000 + of_nat (32 * i + k)) b d))) d = Inr (poke ?a (font ! (h * i + n)) d')"
    using d'(1) by (simp add: forR_append del: of_nat_add of_nat_mult)
  moreover have "regs (poke ?a (font ! (h * i + n)) d') = regs d" using d'(2) poke_regs by simp
  ultimately show ?case using p by blast
qed

lemma write_glyphs_effect:
  assumes "length font = 256 * h" "h \<le> 32" "planar (regs d)" "seq_reg (regs d) 2 = 4"
  shows "\<exists>d'. write_glyphs poke font h d = Inr d' \<and> regs d' = regs d \<and> planes d' = (planes d)(2 := font_image font h 256 (planes d 2))"
proof -
  have "\<exists>d'. forR [0..<n] (write_glyph poke font h) d = Inr d' \<and> regs d' = regs d \<and>
    planes d' = (planes d)(2 := font_image font h n (planes d 2))" if "n \<le> 256" for n
    using that
  proof (induction n)
    case 0
    have "font_image font h 0 fm = fm" for fm by (simp add: font_image_def fun_eq_iff Let_def)
    then show ?case by simp
  next
    case (Suc n)
    from Suc.IH [OF Suc_leD [OF Suc.prems]] obtain d' where d': "forR [0..<n] (write_glyph poke font h) d = Inr d'" "regs d' = regs d"
      "planes d' = (planes d)(2 := font_image font h n (planes d 2))" by blast
    have n: "n < 256" and r: "planar (regs d')" "seq_reg (regs d') 2 = 4" using Suc.prems assms(3,4) d'(2) by simp_all
    obtain d2 where "write_glyph poke font h n d' = Inr d2" "regs d2 = regs d'"
      "planes d2 = (planes d')(2 := glyph_image font h n h (planes d' 2))"
      using write_glyph_loop [OF le_refl n assms(1,2) r] unfolding write_glyph_def by blast
    moreover from this(1) have "forR [0..<Suc n] (write_glyph poke font h) d = Inr d2" using d'(1) by (simp add: forR_append)
    ultimately show ?case using d'(2,3) by (intro exI [of _ d2]) (simp only: glyph_font_image [OF assms(2)] fun_upd_same fun_upd_upd simp_thms)
  qed
  from this [OF le_refl] show ?thesis by (simp add: write_glyphs_def)
qed

text \<open>
  The font upload from a register file that stands for text mode: the glyphs are in plane 2, the other
  planes are as before, and so are the registers that hold data.
\<close>

lemma out_pairs:
  "regs (outp VGA_SEQ_DATA v (outp VGA_SEQ_INDEX i d)) = put_seq i v (regs d)"
  "regs (outp VGA_GC_DATA v (outp VGA_GC_INDEX i d)) = put_gc i v (regs d)"
  by (simp_all add: out_step put_seq_def put_gc_def)

lemma writefont_effect:
  assumes font: "length font = 256 * h" "h \<le> 32"
    and g: "\<not> bit (seq_reg (regs d) 4) 3" "gc_reg (regs d) 1 AND 0x0F = 0" "gc_reg (regs d) 3 AND 0x1F = 0"
      "gc_reg (regs d) 5 AND 0x03 = 0" "gc_reg (regs d) 6 AND 0x0C = 0x0C" "gc_reg (regs d) 8 = 0xFF"
  shows "\<exists>d'. writefont outp inp poke font h d = Inr d' \<and> (regs d')\<lparr>seq_index := 0, gc_index := 0\<rparr> = (regs d)\<lparr>seq_index := 0, gc_index := 0\<rparr> \<and>
    planes d' = (planes d)(2 := font_image font h 256 (planes d 2))"
proof -
  have r: "fst (inp VGA_SEQ_DATA d) = seq_reg (regs d) (seq_index (regs d))"
    "fst (inp VGA_GC_DATA d) = gc_reg (regs d) (gc_index (regs d))" for d
    using in_value [of VGA_SEQ_DATA d] in_value [of VGA_GC_DATA d] by (simp_all add: vga_in_def)
  have n: "regs (snd (inp VGA_SEQ_DATA d)) = regs d" "regs (snd (inp VGA_GC_DATA d)) = regs d" for d
    by (simp_all add: in_regs vga_in_def)
  define d1 where "d1 = snd (inp VGA_SEQ_DATA (outp VGA_SEQ_INDEX 2 d))"
  have 1: "regs d1 = (regs d)\<lparr>seq_index := 2\<rparr>" "fst (inp VGA_SEQ_DATA (outp VGA_SEQ_INDEX 2 d)) = seq_reg (regs d) 2"
    by (simp_all add: d1_def r n out_step)
  define d2 where "d2 = snd (inp VGA_SEQ_DATA (outp VGA_SEQ_INDEX 4 d1))"
  have 2: "regs d2 = (regs d)\<lparr>seq_index := 4\<rparr>" "fst (inp VGA_SEQ_DATA (outp VGA_SEQ_INDEX 4 d1)) = seq_reg (regs d) 4"
    by (simp_all add: d2_def r n out_step 1)
  define d3 where "d3 = snd (inp VGA_GC_DATA (outp VGA_GC_INDEX 4 (outp VGA_SEQ_DATA (seq_reg (regs d) 4 OR 0x04) d2)))"
  have 3: "regs d3 = (regs d)\<lparr>seq_index := 4, seq_reg := (seq_reg (regs d))(4 := seq_reg (regs d) 4 OR 0x04), gc_index := 4\<rparr>"
    "fst (inp VGA_GC_DATA (outp VGA_GC_INDEX 4 (outp VGA_SEQ_DATA (seq_reg (regs d) 4 OR 0x04) d2))) = gc_reg (regs d) 4"
    by (simp_all add: d3_def r n out_step 2)
  define d4 where "d4 = snd (inp VGA_GC_DATA (outp VGA_GC_INDEX 5 d3))"
  have 4: "regs d4 = (regs d3)\<lparr>gc_index := 5\<rparr>" "fst (inp VGA_GC_DATA (outp VGA_GC_INDEX 5 d3)) = gc_reg (regs d) 5"
    by (simp_all add: d4_def r n out_step 3)
  define d5 where "d5 = snd (inp VGA_GC_DATA (outp VGA_GC_INDEX 6 (outp VGA_GC_DATA (gc_reg (regs d) 5 AND NOT 0x10) d4)))"
  have 5: "regs d5 = (regs d3)\<lparr>gc_index := 6, gc_reg := (gc_reg (regs d))(5 := gc_reg (regs d) 5 AND NOT 0x10)\<rparr>"
    "fst (inp VGA_GC_DATA (outp VGA_GC_INDEX 6 (outp VGA_GC_DATA (gc_reg (regs d) 5 AND NOT 0x10) d4))) = gc_reg (regs d) 6"
    by (simp_all add: d5_def r n out_step 4 3(1))
  define e where "e = setplane outp 2 (outp VGA_GC_DATA (gc_reg (regs d) 6 AND NOT 0x02) d5)"
  have re: "regs e = (regs d)\<lparr>seq_index := 2, seq_reg := (seq_reg (regs d))(4 := seq_reg (regs d) 4 OR 0x04, 2 := 4), gc_index := 4,
      gc_reg := (gc_reg (regs d))(5 := gc_reg (regs d) 5 AND NOT 0x10, 6 := gc_reg (regs d) 6 AND NOT 0x02, 4 := 2)\<rparr>"
    by (simp add: e_def setplane_def Let_def out_step 5 3(1))
  have pe: "planes e = planes d"
    by (simp add: e_def d5_def d4_def d3_def d2_def d1_def setplane_def Let_def out_planes in_planes)
  have "planar (regs e)" "seq_reg (regs e) 2 = 4"
    using g unfolding re planar_def by (simp_all add: planar_bits [simplified])
  from write_glyphs_effect [OF font this] obtain e' where
    e': "write_glyphs poke font h e = Inr e'" "regs e' = regs e" "planes e' = (planes d)(2 := font_image font h 256 (planes d 2))"
    unfolding pe by blast
  let ?d = "outp VGA_GC_DATA (gc_reg (regs d) 6) (outp VGA_GC_INDEX 6 (outp VGA_GC_DATA (gc_reg (regs d) 5) (outp VGA_GC_INDEX 5
    (outp VGA_GC_DATA (gc_reg (regs d) 4) (outp VGA_GC_INDEX 4 (outp VGA_SEQ_DATA (seq_reg (regs d) 4) (outp VGA_SEQ_INDEX 4
    (outp VGA_SEQ_DATA (seq_reg (regs d) 2) (outp VGA_SEQ_INDEX 2 e')))))))))"
  have "writefont outp inp poke font h d = Inr ?d"
    by (simp only: writefont_def Let_def case_prod_unfold 1(2) 2(2) 3(2) 4(2) 5(2) d1_def [symmetric] d2_def [symmetric]
        d3_def [symmetric] d4_def [symmetric] d5_def [symmetric] e_def [symmetric] e'(1) bindR_Inr)
  moreover have "(regs ?d)\<lparr>seq_index := 0, gc_index := 0\<rparr> = (regs d)\<lparr>seq_index := 0, gc_index := 0\<rparr>"
    unfolding out_pairs e'(2) re by (rule registers_restored)
  moreover have "planes ?d = planes e'" by (simp add: out_planes)
  ultimately show ?thesis using e'(3) by (intro exI [of _ ?d] conjI) simp_all
qed

end

text \<open>A register file with four planes of memory is such a device.\<close>

definition ram_out :: "u16 \<Rightarrow> u8 \<Rightarrow> vga \<times> (nat \<Rightarrow> memory) \<Rightarrow> vga \<times> (nat \<Rightarrow> memory)" where
  "ram_out p v d = (vga_out p v (fst d), snd d)"

definition ram_in :: "u16 \<Rightarrow> vga \<times> (nat \<Rightarrow> memory) \<Rightarrow> u8 \<times> vga \<times> (nat \<Rightarrow> memory)" where
  "ram_in p d = (fst (vga_in p (fst d)), snd (vga_in p (fst d)), snd d)"

definition ram_poke :: "u32 \<Rightarrow> u8 \<Rightarrow> vga \<times> (nat \<Rightarrow> memory) \<Rightarrow> vga \<times> (nat \<Rightarrow> memory)" where
  "ram_poke a b d = (fst d, if planar (fst d) \<and> in_window a then plane_store (seq_reg (fst d) 2) a b (snd d) else snd d)"

interpretation vga_ram: vga_mem ram_out ram_in fst ram_poke snd
  by unfold_locales (simp_all add: ram_out_def ram_in_def ram_poke_def)

end
