(* ===== verification/Printf.thy ===== *)
theory Printf
  imports Prelude
begin

text \<open>
  Formatted output: the kernel's printint and cprintf (console.c) and the user library's printint
  and printf (printf.c). Both are modelled as the sequence of characters they send to consputc or
  putc. A format is its bytes before the terminating null; an argument is a 32-bit word, and
  \<open>str\<close> gives the bytes of the C string at an address. Reading an argument that was not passed is
  the error \<open>Bounds\<close>. The user's formatter walks the format with a state variable, the kernel's
  looks ahead; the theorem at the end relates the two.
\<close>

subsection \<open>Numbers\<close>

definition digits_lower :: "u8 list" where
  "digits_lower = map (\<lambda>c. of_nat (of_char c)) ''0123456789abcdef''"

definition digits_upper :: "u8 list" where
  "digits_upper = map (\<lambda>c. of_nat (of_char c)) ''0123456789ABCDEF''"

text \<open>
  The do-while loop that fills buf, least significant digit first. The callers pass base 10 or
  16; a base below 2, where the loop of the source would not end, is cut off.
\<close>

function printint_loop :: "u8 list \<Rightarrow> u32 \<Rightarrow> u32 \<Rightarrow> u8 list \<Rightarrow> u8 list" where
  "printint_loop digits base x buf =
     (let buf = buf @ [digits ! unat (x mod base)];
          x' = x div base
      in if x' = 0 \<or> base < 2 then buf else printint_loop digits base x' buf)"
  by auto

lemma unat_div_less: "x div base \<noteq> 0 \<Longrightarrow> \<not> base < 2 \<Longrightarrow> unat (x div base) < unat x" for x base :: u32
proof -
  assume "x div base \<noteq> 0" "\<not> base < 2"
  then have "x \<noteq> 0" "1 < unat base" by (auto simp: word_less_nat_alt)
  then have "0 < unat x" by (simp add: unat_gt_0)
  then show ?thesis using \<open>1 < unat base\<close> by (simp add: unat_div)
qed

termination printint_loop
  by (relation "measure (\<lambda>(_, _, x, _). unat x)") (auto simp: unat_div_less)

declare printint_loop.simps [simp del]

text \<open>The kernel's printint: the characters in the order in which they are printed.\<close>

definition printint :: "int \<Rightarrow> u32 \<Rightarrow> bool \<Rightarrow> u8 list" where
  "printint xx base sign =
     (let sign = (sign \<and> xx < 0);
          x = (if sign then word_of_int (- xx) else word_of_int xx);
          buf = printint_loop digits_lower base x [];
          buf = (if sign then buf @ [45] else buf)
      in rev buf)"

text \<open>The user library's.\<close>

definition user_printint :: "int \<Rightarrow> u32 \<Rightarrow> bool \<Rightarrow> u8 list" where
  "user_printint xx base sign =
     (let neg = (sign \<and> xx < 0);
          x = (if neg then word_of_int (- xx) else word_of_int xx);
          buf = printint_loop digits_upper base x [];
          buf = (if neg then buf @ [45] else buf)
      in rev buf)"

subsection \<open>Formats\<close>

definition next_arg :: "u32 list \<Rightarrow> (u32 \<times> u32 list) res" where
  "next_arg args = (case args of [] \<Rightarrow> Inl Bounds | a # as \<Rightarrow> Inr (a, as))"

definition null_string :: "u8 list" where
  "null_string = map (\<lambda>c. of_nat (of_char c)) ''(null)''"

definition format_string :: "(u32 \<Rightarrow> u8 list) \<Rightarrow> u32 \<Rightarrow> u8 list" where
  "format_string str a = (if a = 0 then null_string else str a)"

abbreviation "ch_percent \<equiv> (37 :: u8)"
abbreviation "ch_c \<equiv> (99 :: u8)"
abbreviation "ch_d \<equiv> (100 :: u8)"
abbreviation "ch_p \<equiv> (112 :: u8)"
abbreviation "ch_s \<equiv> (115 :: u8)"
abbreviation "ch_x \<equiv> (120 :: u8)"

text \<open>One conversion of cprintf, after the percent sign.\<close>

definition cprintf_conv :: "(u32 \<Rightarrow> u8 list) \<Rightarrow> u8 \<Rightarrow> u32 list \<Rightarrow> (u8 list \<times> u32 list) res" where
  "cprintf_conv str c args =
     (if c = ch_d then bindR (next_arg args) (\<lambda>(a, args). Inr (printint (sint a) 10 True, args))
      else if c = ch_x \<or> c = ch_p then bindR (next_arg args) (\<lambda>(a, args). Inr (printint (sint a) 16 False, args))
      else if c = ch_s then bindR (next_arg args) (\<lambda>(a, args). Inr (format_string str a, args))
      else if c = ch_percent then Inr ([ch_percent], args)
      else Inr ([ch_percent, c], args))"

fun kernel_cprintf :: "(u32 \<Rightarrow> u8 list) \<Rightarrow> u8 list \<Rightarrow> u32 list \<Rightarrow> u8 list res" where
  "kernel_cprintf str [] args = Inr []"
| "kernel_cprintf str (c # fmt) args =
     (if c \<noteq> ch_percent then bindR (kernel_cprintf str fmt args) (\<lambda>out. Inr (c # out))
      else (case fmt of
              [] \<Rightarrow> Inr []
            | c # fmt \<Rightarrow> bindR (cprintf_conv str c args) (\<lambda>(out, args).
                bindR (kernel_cprintf str fmt args) (\<lambda>rest. Inr (out @ rest)))))"

text \<open>The body of the loop of printf when the state is the percent sign.\<close>

definition printf_conv :: "(u32 \<Rightarrow> u8 list) \<Rightarrow> u8 \<Rightarrow> u32 list \<Rightarrow> (u8 list \<times> u32 list) res" where
  "printf_conv str c args =
     (if c = ch_d then bindR (next_arg args) (\<lambda>(a, args). Inr (user_printint (sint a) 10 True, args))
      else if c = ch_x \<or> c = ch_p then bindR (next_arg args) (\<lambda>(a, args). Inr (user_printint (sint a) 16 False, args))
      else if c = ch_s then bindR (next_arg args) (\<lambda>(a, args). Inr (format_string str a, args))
      else if c = ch_c then bindR (next_arg args) (\<lambda>(a, args). Inr ([ucast a], args))
      else if c = ch_percent then Inr ([c], args)
      else Inr ([ch_percent, c], args))"

text \<open>The loop: the state is 0 or the percent sign.\<close>

fun printf_loop :: "(u32 \<Rightarrow> u8 list) \<Rightarrow> bool \<Rightarrow> u8 list \<Rightarrow> u32 list \<Rightarrow> u8 list \<Rightarrow> u8 list res" where
  "printf_loop str state [] ap out = Inr out"
| "printf_loop str state (c # fmt) ap out =
     (if \<not> state then
        (if c = ch_percent then printf_loop str True fmt ap out
         else printf_loop str False fmt ap (out @ [c]))
      else bindR (printf_conv str c ap) (\<lambda>(o', ap). printf_loop str False fmt ap (out @ o')))"

definition printf :: "(u32 \<Rightarrow> u8 list) \<Rightarrow> u8 list \<Rightarrow> u32 list \<Rightarrow> u8 list res" where
  "printf str fmt ap = printf_loop str False fmt ap []"

subsection \<open>What is printed\<close>

text \<open>Reading digits back, most significant first.\<close>

definition digit_value :: "u8 \<Rightarrow> nat" where
  "digit_value c = (if c < 58 then unat c - 48 else if c < 97 then unat c - 55 else unat c - 87)"

definition num_value :: "nat \<Rightarrow> u8 list \<Rightarrow> nat" where
  "num_value base ds = foldl (\<lambda>v d. v * base + digit_value d) 0 ds"

lemma digits_ok:
  assumes "digits = digits_lower \<or> digits = digits_upper" "k < 16"
  shows "digit_value (digits ! k) = k"
proof -
  have "\<forall>k \<in> set [0..<16]. digit_value (digits_lower ! k) = k \<and> digit_value (digits_upper ! k) = k"
    by (simp add: upt_rec digits_lower_def digits_upper_def digit_value_def)
  then show ?thesis using assms by auto
qed

lemma num_value_snoc: "num_value base (ds @ [d]) = num_value base ds * base + digit_value d"
  by (simp add: num_value_def)

lemma printint_loop_append: "printint_loop digits base x buf = buf @ printint_loop digits base x []"
proof (induction "unat x" arbitrary: x buf rule: less_induct)
  case less
  let ?d = "digits ! unat (x mod base)"
  show ?case
  proof (cases "x div base = 0 \<or> base < 2")
    case True
    then show ?thesis by (simp add: printint_loop.simps [of digits base x])
  next
    case False
    then have "unat (x div base) < unat x" by (simp add: unat_div_less)
    note ih = less [OF this]
    have "printint_loop digits base x b = printint_loop digits base (x div base) (b @ [?d])" for b
      using False by (subst printint_loop.simps) (simp add: Let_def)
    then show ?thesis using ih [of "buf @ [?d]"] ih [of "[?d]"] by simp
  qed
qed

lemma printint_loop_rec:
  "printint_loop digits base x [] = digits ! unat (x mod base) #
     (if x div base = 0 \<or> base < 2 then [] else printint_loop digits base (x div base) [])"
  using printint_loop_append [of digits base "x div base" "[digits ! unat (x mod base)]"]
  by (subst printint_loop.simps) (simp add: Let_def)

text \<open>The loop prints the number it was given, with no more digits than it needs.\<close>

lemma printint_loop_value:
  assumes "digits = digits_lower \<or> digits = digits_upper" "2 \<le> unat base" "unat base \<le> 16"
  shows "num_value (unat base) (rev (printint_loop digits base x [])) = unat x \<and>
    printint_loop digits base x [] \<noteq> [] \<and>
    (1 < length (printint_loop digits base x []) \<longrightarrow>
       unat base ^ (length (printint_loop digits base x []) - 1) \<le> unat x \<and> digit_value (last (printint_loop digits base x [])) \<noteq> 0)"
proof (induction "unat x" arbitrary: x rule: less_induct)
  case less
  have b: "\<not> base < 2" using assms(2) by (simp add: word_less_nat_alt)
  have m: "unat (x mod base) < 16" using assms(2,3) by (simp add: unat_mod) (metis assms(2,3) less_le_trans mod_less_divisor zero_less_numeral order.strict_trans2)
  have d: "digit_value (digits ! unat (x mod base)) = unat x mod unat base"
    using digits_ok [OF assms(1) m] by (simp add: unat_mod)
  show ?case
  proof (cases "x div base = 0")
    case True
    then have "unat x div unat base = 0" by (metis unat_0 unat_div)
    then have "unat x mod unat base = unat x" using assms(2) by (auto simp: div_eq_0_iff)
    with True d show ?thesis by (simp add: printint_loop_rec [of digits base x] num_value_def)
  next
    case False
    let ?l = "printint_loop digits base (x div base) []"
    have ih: "num_value (unat base) (rev ?l) = unat x div unat base" "?l \<noteq> []"
      "1 < length ?l \<Longrightarrow> unat base ^ (length ?l - 1) \<le> unat x div unat base" "1 < length ?l \<Longrightarrow> digit_value (last ?l) \<noteq> 0"
      using less [OF unat_div_less [OF False b]] by (simp_all add: unat_div)
    have e: "printint_loop digits base x [] = digits ! unat (x mod base) # ?l" using False b by (simp add: printint_loop_rec [of digits base x])
    have q: "1 \<le> unat x div unat base" using False by (metis unat_div unat_0 word_unat_eq_iff less_one not_le)
    have p: "unat base ^ (length ?l - 1) \<le> unat x div unat base"
    proof (cases "length ?l = 1")
      case True
      with q show ?thesis by simp
    next
      case False
      with ih(2,3) show ?thesis by (cases ?l) auto
    qed
    have "unat base * unat base ^ (length ?l - 1) \<le> unat base * (unat x div unat base)" using p by simp
    also have "\<dots> \<le> unat x" by simp
    also have "unat base * unat base ^ (length ?l - 1) = unat base ^ length ?l" using ih(2) by (cases ?l) auto
    finally have pw: "unat base ^ length ?l \<le> unat x" .
    have "digit_value (last ?l) \<noteq> 0"
    proof (cases "length ?l = 1")
      case True
      then obtain c where c: "?l = [c]" by (cases ?l) auto
      with ih(1) have "digit_value c = unat x div unat base" by (simp add: num_value_def)
      with c q show ?thesis by simp
    next
      case False
      with ih(2,4) show ?thesis by (cases ?l) auto
    qed
    with ih(1,2) e pw d show ?thesis by (simp add: num_value_snoc div_mult_mod_eq)
  qed
qed

lemma printint_loop_length:
  assumes "digits = digits_lower \<or> digits = digits_upper"
  shows "length (printint_loop digits 10 x []) \<le> 10" "length (printint_loop digits 16 x []) \<le> 8"
proof -
  have b: "unat x < 2 ^ 32" using unsigned_less [of x] by simp
  have "10 ^ (length (printint_loop digits 10 x []) - 1) \<le> unat x" if "1 < length (printint_loop digits 10 x [])"
    using printint_loop_value [OF assms, of 10 x] that by simp
  moreover have "(10 :: nat) ^ 10 \<le> 10 ^ (length (printint_loop digits 10 x []) - 1)" if "10 < length (printint_loop digits 10 x [])"
    using that by (intro power_increasing) auto
  ultimately show "length (printint_loop digits 10 x []) \<le> 10" using b by (cases "10 < length (printint_loop digits 10 x [])") force+
  have "16 ^ (length (printint_loop digits 16 x []) - 1) \<le> unat x" if "1 < length (printint_loop digits 16 x [])"
    using printint_loop_value [OF assms, of 16 x] that by simp
  moreover have "(16 :: nat) ^ 8 \<le> 16 ^ (length (printint_loop digits 16 x []) - 1)" if "8 < length (printint_loop digits 16 x [])"
    using that by (intro power_increasing) auto
  ultimately show "length (printint_loop digits 16 x []) \<le> 8" using b by (cases "8 < length (printint_loop digits 16 x [])") force+
qed

lemma printint_loop_base_10: "printint_loop digits_upper 10 x [] = printint_loop digits_lower 10 x []"
proof (induction "unat x" arbitrary: x rule: less_induct)
  case less
  have "digits_upper ! k = digits_lower ! k" if "k \<in> set [0..<10]" for k
    using that by (auto simp: upt_rec digits_lower_def digits_upper_def)
  moreover have "unat (x mod 10) < 10" by (simp add: unat_mod)
  ultimately show ?case
    using less [of "x div 10"] unat_div_less [of x 10]
    by (subst (1 2) printint_loop_rec) (simp add: word_less_nat_alt)
qed

subsection \<open>Properties\<close>

text \<open>
  The decimal and hexadecimal output of both printint routines reads back as the number
  printed, the smallest int included, with a minus sign exactly for negative numbers, and never
  takes more than 11 of the 16 characters of the buffer.
\<close>

theorem printint_prints_number:
  assumes "is_s32 xx"
  shows "(\<forall>out \<in> {printint xx 10 True, user_printint xx 10 True}. length out \<le> 11 \<and>
      (if xx < 0 then hd out = 45 \<and> num_value 10 (tl out) = nat (- xx) else num_value 10 out = nat xx)) \<and>
    (\<forall>out \<in> {printint xx 16 False, user_printint xx 16 False}. length out \<le> 8 \<and> num_value 16 out = unat (word_of_int xx :: u32))"
proof -
  have D: "length (printint_loop ds 10 x []) \<le> 10" "num_value 10 (rev (printint_loop ds 10 x [])) = unat x"
    "length (printint_loop ds 16 x []) \<le> 8" "num_value 16 (rev (printint_loop ds 16 x [])) = unat x"
    if "ds = digits_lower \<or> ds = digits_upper" for ds x
    using printint_loop_length [OF that, of x] printint_loop_value [OF that, of 10 x] printint_loop_value [OF that, of 16 x] by simp_all
  have n: "xx < 0 \<Longrightarrow> unat (- word_of_int xx :: u32) = nat (- xx)" "0 \<le> xx \<Longrightarrow> unat (word_of_int xx :: u32) = nat xx"
    using assms unat_word_of_int_id [of "- xx", where 'a = 32] by (simp_all add: is_s32_def unat_word_of_int_id)
  show ?thesis
    using D [of digits_lower] D [of digits_upper] n by (simp add: printint_def user_printint_def Let_def le_SucI [of _ 10, simplified])
qed

theorem printint_prints_number_witness: "hd (printint (-2147483648) 10 True) = 45 \<and> num_value 10 (tl (printint (-2147483648) 10 True)) = 2147483648"
  using printint_prints_number [of "-2147483648"] by (simp add: is_s32_def)

text \<open>Formats whose conversions both routines know, apart from hexadecimal numbers.\<close>

fun common_format :: "u8 list \<Rightarrow> bool" where
  "common_format [] \<longleftrightarrow> True"
| "common_format (c # fmt) \<longleftrightarrow>
     (if c \<noteq> ch_percent then common_format fmt
      else (case fmt of [] \<Rightarrow> True | c # fmt \<Rightarrow> c \<notin> {ch_c, ch_x, ch_p} \<and> common_format fmt))"

lemma printf_conv_common: "c \<notin> {ch_c, ch_x, ch_p} \<Longrightarrow> printf_conv str c ap = cprintf_conv str c ap"
  by (simp add: printf_conv_def cprintf_conv_def user_printint_def printint_def printint_loop_base_10)

lemma printf_loop_cprintf:
  "common_format fmt \<Longrightarrow> printf_loop str False fmt ap out = bindR (kernel_cprintf str fmt ap) (\<lambda>r. Inr (out @ r))"
proof (induction str fmt ap arbitrary: out rule: kernel_cprintf.induct)
  case (2 str c fmt ap)
  show ?case
  proof (cases "c = ch_percent")
    case False
    then show ?thesis using 2 by (simp add: bindR_assoc)
  next
    case True
    show ?thesis
    proof (cases fmt)
      case (Cons c' fmt')
      have c': "c' \<notin> {ch_c, ch_x, ch_p}" "common_format fmt'" using 2(3) True Cons by auto
      show ?thesis
      proof (cases "cprintf_conv str c' ap")
        case (Inr r)
        obtain o' ap' where r: "r = (o', ap')" by force
        have "printf_loop str False fmt' ap' (out @ o') = bindR (kernel_cprintf str fmt' ap') (\<lambda>r. Inr ((out @ o') @ r))"
          using 2(2) [of c' fmt' "(o', ap')" o' ap'] True Cons c'(2) Inr r by simp
        then show ?thesis using True Cons Inr r printf_conv_common [OF c'(1)] by (simp add: bindR_assoc)
      qed (use True Cons printf_conv_common [OF c'(1)] in simp)
    qed (use True in simp)
  qed
qed simp

text \<open>
  On every format without the conversions for characters and hexadecimal numbers, known and
  unknown conversions, missing arguments and a trailing percent sign included, the user library's
  printf and the kernel's cprintf print the same characters or fail the same way.
\<close>

theorem printf_agrees_with_cprintf:
  assumes "common_format fmt"
  shows "printf str fmt ap = kernel_cprintf str fmt ap"
  using printf_loop_cprintf [OF assms, of str ap "[]"] by (cases "kernel_cprintf str fmt ap") (simp_all add: printf_def)

theorem printf_agrees_with_cprintf_witness:
  "printf (\<lambda>_. []) [120, 61, 37, 115, 37, 37, 37] [0] = Inr ([120, 61] @ null_string @ [37])"
  by (subst printf_agrees_with_cprintf)
     (simp_all add: cprintf_conv_def next_arg_def format_string_def)

end
