(* ===== verification/Console.thy ===== *)
theory Console
  imports Vga Printf
begin

text \<open>
  The console screen (console.c) and the serial line it is copied to (uart.c). The text is on the
  screen itself while textdisplayed is 1 and in a saved buffer while a graphics mode is on, and
  the cursor is correspondingly in the CRT controller or in a variable. \<open>text_view\<close> is the text
  and cursor wherever they are, and the lemmas show that output acts on it alone, as a terminal
  of 24 lines of 80 characters. A panic of the kernel is the error value; there is no state after
  it, so the flag panicked that freezes the other processors has no counterpart.
\<close>

abbreviation BACKSPACE :: int where "BACKSPACE \<equiv> 0x100"
abbreviation CRTPORT :: u16 where "CRTPORT \<equiv> 0x3d4"
abbreviation COM1 :: u16 where "COM1 \<equiv> 0x3f8"

record 'd console =
  dev :: 'd
  crt :: "u16 list"
  videobuffer :: "u16 list"
  cursorposition :: int
  textdisplayed :: int
  uart :: int

subsection \<open>Operations\<close>

definition sethardwarecursorposition :: "(u16 \<Rightarrow> u8 \<Rightarrow> 'd \<Rightarrow> 'd) \<Rightarrow> int \<Rightarrow> 'd \<Rightarrow> 'd" where
  "sethardwarecursorposition outp position d =
     (let d = outp (CRTPORT + 1) (word_of_int (position div 256)) (outp CRTPORT 14 d)
      in outp (CRTPORT + 1) (word_of_int position) (outp CRTPORT 15 d))"

definition gethardwarecursorposition :: "(u16 \<Rightarrow> u8 \<Rightarrow> 'd \<Rightarrow> 'd) \<Rightarrow> (u16 \<Rightarrow> 'd \<Rightarrow> u8 \<times> 'd) \<Rightarrow> 'd \<Rightarrow> int \<times> 'd" where
  "gethardwarecursorposition outp inp d =
     (let (hi, d) = inp (CRTPORT + 1) (outp CRTPORT 14 d);
          (lo, d) = inp (CRTPORT + 1) (outp CRTPORT 15 d)
      in (uint hi * 256 + uint lo, d))"

text \<open>The two memmoves between the screen and the buffer copy all 80 * 25 cells.\<close>

definition grabscreentobuffer :: "(u16 \<Rightarrow> u8 \<Rightarrow> 'd \<Rightarrow> 'd) \<Rightarrow> (u16 \<Rightarrow> 'd \<Rightarrow> u8 \<times> 'd) \<Rightarrow> 'd console \<Rightarrow> 'd console" where
  "grabscreentobuffer outp inp s =
     (let s = s\<lparr>videobuffer := crt s\<rparr>;
          (pos, d) = gethardwarecursorposition outp inp (dev s)
      in s\<lparr>cursorposition := pos, dev := d, textdisplayed := 0\<rparr>)"

definition outputbuffertoscreen :: "(u16 \<Rightarrow> u8 \<Rightarrow> 'd \<Rightarrow> 'd) \<Rightarrow> 'd console \<Rightarrow> 'd console" where
  "outputbuffertoscreen outp s =
     (let s = s\<lparr>crt := videobuffer s\<rparr>
      in s\<lparr>dev := sethardwarecursorposition outp (cursorposition s) (dev s), textdisplayed := 1\<rparr>)"

text \<open>Set the cells from position p on, n of them.\<close>

definition fill_cells :: "nat \<Rightarrow> nat \<Rightarrow> u16 \<Rightarrow> u16 list \<Rightarrow> u16 list" where
  "fill_cells p n v vm = take p vm @ replicate n v @ drop (p + n) vm"

text \<open>cgaputc on the text and cursor that it chose to work on.\<close>

definition cga_update :: "int \<Rightarrow> u16 list \<Rightarrow> int \<Rightarrow> (u16 list \<times> int) res" where
  "cga_update c vm pos =
     bindR (if c = 10 then Inr (vm, pos + (80 - c_rem pos 80))
            else if c = BACKSPACE then Inr (vm, if 0 < pos then pos - 1 else pos)
            else bindR (array_set vm pos (word_of_int (c mod 256) OR 0x0700)) (\<lambda>vm. Inr (vm, pos + 1)))
     (\<lambda>(vm, pos).
       if pos < 0 \<or> 25 * 80 < pos then Inl (Panic ''pos under/overflow'')
       else
         let (vm, pos) =
           (if 24 \<le> c_quot pos 80
            then let vm = take (23 * 80) (drop 80 vm) @ drop (23 * 80) vm;
                     pos = pos - 80
                 in (fill_cells (nat pos) (nat (24 * 80 - pos)) 0 vm, pos)
            else (vm, pos))
         in bindR (array_set vm pos (32 OR 0x0700)) (\<lambda>vm. Inr (vm, pos)))"

definition cgaputc :: "(u16 \<Rightarrow> u8 \<Rightarrow> 'd \<Rightarrow> 'd) \<Rightarrow> (u16 \<Rightarrow> 'd \<Rightarrow> u8 \<times> 'd) \<Rightarrow> int \<Rightarrow> 'd console \<Rightarrow> 'd console res" where
  "cgaputc outp inp c s =
     (let (pos, vm, s) =
        (if textdisplayed s = 0 then (cursorposition s, videobuffer s, s)
         else let (pos, d) = gethardwarecursorposition outp inp (dev s) in (pos, crt s, s\<lparr>dev := d\<rparr>))
      in bindR (cga_update c vm pos) (\<lambda>(vm, pos).
           let s = (if textdisplayed s = 1 then s\<lparr>dev := sethardwarecursorposition outp pos (dev s)\<rparr>
                    else s\<lparr>cursorposition := pos\<rparr>)
           in Inr (if textdisplayed s = 0 then s\<lparr>videobuffer := vm\<rparr> else s\<lparr>crt := vm\<rparr>)))"

text \<open>The wait for the transmitter, at most 128 times.\<close>

fun uart_wait :: "(u16 \<Rightarrow> 'd \<Rightarrow> u8 \<times> 'd) \<Rightarrow> nat \<Rightarrow> 'd \<Rightarrow> 'd" where
  "uart_wait inp 0 d = d"
| "uart_wait inp (Suc n) d = (let (v, d) = inp (COM1 + 5) d in if v AND 0x20 \<noteq> 0 then d else uart_wait inp n d)"

definition uartputc :: "(u16 \<Rightarrow> u8 \<Rightarrow> 'd \<Rightarrow> 'd) \<Rightarrow> (u16 \<Rightarrow> 'd \<Rightarrow> u8 \<times> 'd) \<Rightarrow> int \<Rightarrow> 'd console \<Rightarrow> 'd console" where
  "uartputc outp inp c s =
     (if uart s = 0 then s
      else s\<lparr>dev := outp COM1 (word_of_int c) (uart_wait inp 128 (dev s))\<rparr>)"

definition uartinit :: "(u16 \<Rightarrow> u8 \<Rightarrow> 'd \<Rightarrow> 'd) \<Rightarrow> (u16 \<Rightarrow> 'd \<Rightarrow> u8 \<times> 'd) \<Rightarrow> 'd console \<Rightarrow> 'd console" where
  "uartinit outp inp s =
     (let d = outp (COM1 + 2) 0 (dev s);
          d = outp (COM1 + 3) 0x80 d;
          d = outp (COM1 + 0) 12 d;
          d = outp (COM1 + 1) 0 d;
          d = outp (COM1 + 3) 0x03 d;
          d = outp (COM1 + 4) 0 d;
          d = outp (COM1 + 1) 0x01 d;
          (status, d) = inp (COM1 + 5) d
      in if status = 0xFF then s\<lparr>dev := d\<rparr>
         else let d = snd (inp (COM1 + 2) d);
                  d = snd (inp (COM1 + 0) d)
              in fold (uartputc outp inp) [120, 118, 54, 46, 46, 46, 10] (s\<lparr>dev := d, uart := 1\<rparr>))"

definition uartgetc :: "(u16 \<Rightarrow> 'd \<Rightarrow> u8 \<times> 'd) \<Rightarrow> 'd console \<Rightarrow> int \<times> 'd console" where
  "uartgetc inp s =
     (if uart s = 0 then (-1, s)
      else let (v, d) = inp (COM1 + 5) (dev s)
           in if v AND 0x01 = 0 then (-1, s\<lparr>dev := d\<rparr>)
              else let (v, d) = inp COM1 d in (uint v, s\<lparr>dev := d\<rparr>))"

definition consputc :: "(u16 \<Rightarrow> u8 \<Rightarrow> 'd \<Rightarrow> 'd) \<Rightarrow> (u16 \<Rightarrow> 'd \<Rightarrow> u8 \<times> 'd) \<Rightarrow> int \<Rightarrow> 'd console \<Rightarrow> 'd console res" where
  "consputc outp inp c s =
     (let s = (if c = BACKSPACE then uartputc outp inp 8 (uartputc outp inp 32 (uartputc outp inp 8 s))
               else uartputc outp inp c s)
      in cgaputc outp inp c s)"

text \<open>What cprintf and consolewrite do with the characters they print.\<close>

fun consputs :: "(u16 \<Rightarrow> u8 \<Rightarrow> 'd \<Rightarrow> 'd) \<Rightarrow> (u16 \<Rightarrow> 'd \<Rightarrow> u8 \<times> 'd) \<Rightarrow> int list \<Rightarrow> 'd console \<Rightarrow> 'd console res" where
  "consputs outp inp [] s = Inr s"
| "consputs outp inp (c # cs) s = bindR (consputc outp inp c s) (consputs outp inp cs)"

definition console_cprintf ::
  "(u16 \<Rightarrow> u8 \<Rightarrow> 'd \<Rightarrow> 'd) \<Rightarrow> (u16 \<Rightarrow> 'd \<Rightarrow> u8 \<times> 'd) \<Rightarrow> (u32 \<Rightarrow> u8 list) \<Rightarrow> u8 list \<Rightarrow> u32 list \<Rightarrow> 'd console \<Rightarrow> 'd console res" where
  "console_cprintf outp inp str fmt args s =
     bindR (kernel_cprintf str fmt args) (\<lambda>out. consputs outp inp (map uint out) s)"

definition consolewrite :: "(u16 \<Rightarrow> u8 \<Rightarrow> 'd \<Rightarrow> 'd) \<Rightarrow> (u16 \<Rightarrow> 'd \<Rightarrow> u8 \<times> 'd) \<Rightarrow> u8 list \<Rightarrow> int \<Rightarrow> 'd console \<Rightarrow> (int \<times> 'd console) res" where
  "consolewrite outp inp buf n s =
     (if int (length buf) < n then Inl Bounds
      else bindR (consputs outp inp (map uint (take (nat n) buf)) s) (\<lambda>s. Inr (n, s)))"

subsection \<open>The terminal it implements\<close>

definition scroll_up :: "u16 list \<Rightarrow> u16 list" where
  "scroll_up t = drop 80 (take 1920 t) @ replicate 80 0 @ drop 1920 t"

definition text_put :: "int \<Rightarrow> u16 list \<times> int \<Rightarrow> u16 list \<times> int" where
  "text_put c tp =
     (let (t, pos) = tp;
          (t, pos) = (if c = 10 then (t, (pos div 80 + 1) * 80)
                      else if c = BACKSPACE then (t, max 0 (pos - 1))
                      else (t[nat pos := word_of_int (c mod 256) OR 0x0700], pos + 1));
          (t, pos) = (if pos = 1920 then (scroll_up t, 1840) else (t, pos))
      in (t[nat pos := 0x0720], pos))"

definition text_ok :: "u16 list \<times> int \<Rightarrow> bool" where
  "text_ok tp \<longleftrightarrow> length (fst tp) = 2000 \<and> 0 \<le> snd tp \<and> snd tp < 1920"

lemma scroll_code:
  assumes "length vm = 2000"
  shows "fill_cells 1840 80 0 (take (23 * 80) (drop 80 vm) @ drop (23 * 80) vm) = scroll_up vm"
  using assms by (simp add: fill_cells_def scroll_up_def drop_take)

lemma cga_update_text_put:
  assumes "text_ok (vm, pos)"
  shows "cga_update c vm pos = Inr (text_put c (vm, pos)) \<and> text_ok (text_put c (vm, pos))"
proof -
  have b: "length vm = 2000" "0 \<le> pos" "pos < 1920" using assms by (simp_all add: text_ok_def)
  define q where "q = (if c = 10 then (vm, (pos div 80 + 1) * 80) else if c = BACKSPACE then (vm, max 0 (pos - 1))
    else (vm[nat pos := word_of_int (c mod 256) OR 0x0700], pos + 1))"
  obtain t p where tp: "q = (t, p)" by force
  have nl: "pos + (80 - pos mod 80) = (pos div 80 + 1) * 80" by (simp add: algebra_simps)
  have t: "length t = 2000" "0 \<le> p" "p \<le> 1920" using b tp by (auto simp: q_def split: if_splits)
  have first: "(if c = 10 then Inr (vm, pos + (80 - c_rem pos 80)) else if c = BACKSPACE then Inr (vm, if 0 < pos then pos - 1 else pos)
     else bindR (array_set vm pos (word_of_int (c mod 256) OR 0x0700)) (\<lambda>vm. Inr (vm, pos + 1))) = (Inr q :: (u16 list \<times> int) res)"
    using b nl by (simp add: q_def c_arith array_set_ok)
  have put: "text_put c (vm, pos) = (let (t, p) = (if p = 1920 then (scroll_up t, 1840) else (t, p)) in (t[nat p := 0x0720], p))"
    using tp by (simp add: text_put_def q_def [symmetric])
  have l: "length (scroll_up t) = 2000" using t by (simp add: scroll_up_def)
  show ?thesis
  proof (cases "p = 1920")
    case True
    have "c_quot 1920 80 = 24" by (simp add: c_arith)
    with True t l scroll_code [OF t(1)] show ?thesis
      unfolding cga_update_def first put tp by (simp add: array_set_ok text_ok_def)
  next
    case False
    then have "c_quot p 80 < 24" using t by (simp add: c_arith)
    with False t show ?thesis
      unfolding cga_update_def first put tp by (simp add: array_set_ok text_ok_def)
  qed
qed

definition hwcursor :: "vga \<Rightarrow> int" where
  "hwcursor g = uint (crtc_reg g 14) * 256 + uint (crtc_reg g 15)"

definition text_view :: "('d \<Rightarrow> vga) \<Rightarrow> 'd console \<Rightarrow> u16 list \<times> int" where
  "text_view regs s = (if textdisplayed s = 0 then (videobuffer s, cursorposition s) else (crt s, hwcursor (regs (dev s))))"

definition console_ok :: "('d \<Rightarrow> vga) \<Rightarrow> 'd console \<Rightarrow> bool" where
  "console_ok regs s \<longleftrightarrow> text_ok (text_view regs s) \<and> length (crt s) = 2000 \<and> length (videobuffer s) = 2000 \<and>
     (textdisplayed s = 0 \<or> textdisplayed s = 1)"

lemma position_bytes:
  assumes "0 \<le> p" "p < 65536"
  shows "uint (word_of_int (p div 256) :: u8) * 256 + uint (word_of_int p :: u8) = p"
proof -
  have "uint (word_of_int (p div 256) :: u8) = p div 256" using assms by (simp add: uint_word_of_int_id)
  moreover have "uint (word_of_int p :: u8) = p mod 256" by (simp add: uint_word_of_int)
  ultimately show ?thesis by simp
qed

context vga_hw
begin

lemma get_cursor:
  "fst (gethardwarecursorposition outp inp d) = hwcursor (regs d)"
  "regs (snd (gethardwarecursorposition outp inp d)) = (regs d)\<lparr>crtc_index := 15\<rparr>"
proof -
  have r: "fst (inp VGA_CRTC_DATA d) = crtc_reg (regs d) (crtc_index (regs d))" for d
    using in_value [of VGA_CRTC_DATA d] by (simp add: vga_in_def)
  have n: "regs (snd (inp VGA_CRTC_DATA d)) = regs d" for d
    by (simp add: in_regs vga_in_def)
  show "fst (gethardwarecursorposition outp inp d) = hwcursor (regs d)"
    "regs (snd (gethardwarecursorposition outp inp d)) = (regs d)\<lparr>crtc_index := 15\<rparr>"
    by (simp_all add: gethardwarecursorposition_def Let_def case_prod_unfold r n out_step hwcursor_def)
qed

lemma set_cursor:
  "regs (sethardwarecursorposition outp p d) = (regs d)\<lparr>crtc_index := 15,
     crtc_reg := (crtc_reg (regs d))(14 := word_of_int (p div 256), 15 := word_of_int p)\<rparr>"
  by (simp add: sethardwarecursorposition_def Let_def out_step)

lemma set_cursor_hwcursor:
  "0 \<le> p \<Longrightarrow> p < 65536 \<Longrightarrow> hwcursor (regs (sethardwarecursorposition outp p d)) = p"
  by (simp add: set_cursor hwcursor_def position_bytes)

lemma uart_wait_regs: "regs (uart_wait inp n d) = regs d"
  by (induction n arbitrary: d) (auto simp: Let_def case_prod_unfold in_regs vga_in_def)

lemma uartputc_text:
  "text_view regs (uartputc outp inp c s) = text_view regs s" "crt (uartputc outp inp c s) = crt s"
  "videobuffer (uartputc outp inp c s) = videobuffer s" "textdisplayed (uartputc outp inp c s) = textdisplayed s"
  "cursorposition (uartputc outp inp c s) = cursorposition s"
  by (simp_all add: uartputc_def text_view_def out_step uart_wait_regs)

text \<open>Output of a character acts on the text that is in view, and does not fail.\<close>

lemma cgaputc_ok:
  assumes "console_ok regs s"
  shows "\<exists>s'. cgaputc outp inp c s = Inr s' \<and> text_view regs s' = text_put c (text_view regs s) \<and>
    console_ok regs s' \<and> textdisplayed s' = textdisplayed s \<and> (textdisplayed s = 0 \<longrightarrow> crt s' = crt s)"
proof -
  obtain vm pos where v: "text_view regs s = (vm, pos)" by force
  have ok: "text_ok (vm, pos)" using assms v by (simp add: console_ok_def)
  obtain vm' pos' where p: "text_put c (vm, pos) = (vm', pos')" by force
  have u: "cga_update c vm pos = Inr (vm', pos')" "text_ok (vm', pos')" using cga_update_text_put [OF ok, of c] p by simp_all
  then have b: "0 \<le> pos'" "pos' < 65536" "length vm' = 2000" by (simp_all add: text_ok_def)
  show ?thesis
  proof (cases "textdisplayed s = 0")
    case True
    then show ?thesis using v u p assms by (auto simp: cgaputc_def text_view_def console_ok_def b)
  next
    case False
    then have "textdisplayed s = 1" using assms by (simp add: console_ok_def)
    moreover obtain d where "gethardwarecursorposition outp inp (dev s) = (pos, d)" "vm = crt s"
      using get_cursor(1) [of "dev s"] v False by (cases "gethardwarecursorposition outp inp (dev s)") (simp add: text_view_def)
    ultimately show ?thesis using u p assms v
      by (auto simp: cgaputc_def text_view_def console_ok_def set_cursor_hwcursor b)
  qed
qed

lemma consputc_ok:
  assumes "console_ok regs s"
  shows "\<exists>s'. consputc outp inp c s = Inr s' \<and> text_view regs s' = text_put c (text_view regs s) \<and>
    console_ok regs s' \<and> textdisplayed s' = textdisplayed s \<and> (textdisplayed s = 0 \<longrightarrow> crt s' = crt s)"
proof -
  let ?u = "if c = BACKSPACE then uartputc outp inp 8 (uartputc outp inp 32 (uartputc outp inp 8 s)) else uartputc outp inp c s"
  have "console_ok regs ?u" using assms by (simp add: console_ok_def uartputc_text)
  from cgaputc_ok [OF this, of c] show ?thesis by (simp add: consputc_def Let_def uartputc_text split: if_splits)
qed

lemma consputs_ok:
  assumes "console_ok regs s"
  shows "\<exists>s'. consputs outp inp cs s = Inr s' \<and> text_view regs s' = fold text_put cs (text_view regs s) \<and>
    console_ok regs s' \<and> textdisplayed s' = textdisplayed s \<and> (textdisplayed s = 0 \<longrightarrow> crt s' = crt s)"
  using assms
proof (induction cs arbitrary: s)
  case (Cons c cs)
  obtain s1 where s1: "consputc outp inp c s = Inr s1" "text_view regs s1 = text_put c (text_view regs s)"
    "console_ok regs s1" "textdisplayed s1 = textdisplayed s" "textdisplayed s = 0 \<longrightarrow> crt s1 = crt s"
    using consputc_ok [OF Cons.prems] by blast
  from Cons.IH [OF s1(3)] s1 show ?case by auto
qed simp

end

end
