(* ===== verification/Video.thy ===== *)
theory Video
  imports Console VgaFont GfxCalls
begin

text \<open>
  The video mode switch (vga.c): it composes the adapter driver, the console's saving and
  restoring of the text, the font upload and the clearing of the graphics screen. The mode tables
  are part of the state because programming the adapter changes them in place. The text cells of the
  console (\<open>crt\<close>), the 256-colour screen (\<open>pixMem\<close> of the graphics state) and the planes of the
  adapter are views of one video memory that are kept apart here: the planes speak of the font upload only.
\<close>

record 'd video =
  con :: "'d console"
  currentVideoMode :: u8
  table_text :: "u8 list"
  table_320 :: "u8 list"
  table_640 :: "u8 list"
  vgfx :: gfx

subsection \<open>Operations\<close>

definition getcurrentvideomode :: "'d video \<Rightarrow> u8" where
  "getcurrentvideomode s = currentVideoMode s"

definition videosetmode ::
  "(u16 \<Rightarrow> u8 \<Rightarrow> 'd \<Rightarrow> 'd) \<Rightarrow> (u16 \<Rightarrow> 'd \<Rightarrow> u8 \<times> 'd) \<Rightarrow> (u32 \<Rightarrow> u8 \<Rightarrow> 'd \<Rightarrow> 'd) \<Rightarrow> u8 \<Rightarrow> 'd video \<Rightarrow> (int \<times> 'd video) res" where
  "videosetmode outp inp poke mode s =
     (let currentmode = getcurrentvideomode s in
      if currentmode = mode then Inr (0, s)
      else
        let s = (if currentmode = 0x03 then s\<lparr>con := grabscreentobuffer outp inp (con s)\<rparr> else s) in
        if mode = 0x03 then
          bindR (writevgaregisters outp inp (table_text s) (dev (con s))) (\<lambda>(t, d).
          bindR (writefont outp inp poke font_8x16 16 d) (\<lambda>d.
            Inr (0, s\<lparr>table_text := t, currentVideoMode := 0x03,
              con := outputbuffertoscreen outp ((con s)\<lparr>dev := d\<rparr>)\<rparr>)))
        else if mode = 0x12 then
          bindR (writevgaregisters outp inp (table_640 s) (dev (con s))) (\<lambda>(t, d).
            Inr (0, s\<lparr>table_640 := t, currentVideoMode := 0x12, con := (con s)\<lparr>dev := d\<rparr>\<rparr>))
        else if mode = 0x13 then
          bindR (writevgaregisters outp inp (table_320 s) (dev (con s))) (\<lambda>(t, d).
            Inr (0, s\<lparr>table_320 := t, currentVideoMode := 0x13, con := (con s)\<lparr>dev := d\<rparr>,
              vgfx := clear320x200x256 (vgfx s)\<rparr>))
        else Inr (-1, s))"

text \<open>The system call: an int argument, of which videosetmode gets the low byte.\<close>

definition sys_setvideomode ::
  "(u16 \<Rightarrow> u8 \<Rightarrow> 'd \<Rightarrow> 'd) \<Rightarrow> (u16 \<Rightarrow> 'd \<Rightarrow> u8 \<times> 'd) \<Rightarrow> (u32 \<Rightarrow> u8 \<Rightarrow> 'd \<Rightarrow> 'd) \<Rightarrow> int option \<Rightarrow> 'd video \<Rightarrow> (int \<times> 'd video) res" where
  "sys_setvideomode outp inp poke modearg s =
     (case modearg of None \<Rightarrow> Inr (-1, s) | Some mode \<Rightarrow> videosetmode outp inp poke (word_of_int mode) s)"

subsection \<open>Invariant\<close>

text \<open>
  The text is on the screen exactly in text mode, and each table holds the values of the source, but
  for the two write protection bits that programming the adapter changes in it.
\<close>

definition video_ok :: "('d \<Rightarrow> vga) \<Rightarrow> 'd video \<Rightarrow> bool" where
  "video_ok regs s \<longleftrightarrow> console_ok regs (con s) \<and> (textdisplayed (con s) = 1 \<longleftrightarrow> currentVideoMode s = 0x03) \<and>
     unlocked (table_text s) = unlocked registers_80x25_text \<and> unlocked (table_320 s) = unlocked registers_320x200x256 \<and>
     unlocked (table_640 s) = unlocked registers_640x480x16"

lemma unlocked_length [simp]: "length (unlocked rs) = length rs"
  by (simp add: unlocked_def)

lemma unlocked_idem: "length rs = 61 \<Longrightarrow> unlocked (unlocked rs) = unlocked rs"
  by (rule nth_equalityI) (auto simp: unlocked_def nth_list_update or.assoc and.assoc)

definition mode_registers :: "u8 \<Rightarrow> u8 list" where
  "mode_registers m = (if m = 0x03 then registers_80x25_text else if m = 0x12 then registers_640x480x16 else registers_320x200x256)"

lemma table_lengths: "length registers_80x25_text = 61" "length registers_320x200x256 = 61" "length registers_640x480x16 = 61"
  by (simp_all add: registers_80x25_text_def registers_320x200x256_def registers_640x480x16_def)

definition mode_table :: "u8 \<Rightarrow> 'd video \<Rightarrow> u8 list" where
  "mode_table m s = (if m = 0x03 then table_text s else if m = 0x12 then table_640 s else table_320 s)"

text \<open>The registers of a table, apart from the two that hold the cursor in text mode.\<close>

definition shows_mode :: "u8 \<Rightarrow> u8 list \<Rightarrow> vga \<Rightarrow> bool" where
  "shows_mode m rs g \<longleftrightarrow> (\<exists>hi lo. programmed rs (g\<lparr>crtc_reg := (crtc_reg g)(14 := hi, 15 := lo)\<rparr>)) \<and>
     (m \<noteq> 0x03 \<longrightarrow> programmed rs g)"

lemma programmed_index: "programmed rs (g\<lparr>seq_index := a, gc_index := b\<rparr>) \<longleftrightarrow> programmed rs g"
  by (simp add: programmed_def)

lemma shows_modeI: "programmed rs g \<Longrightarrow> shows_mode m rs g"
proof -
  assume p: "programmed rs g"
  have "g\<lparr>crtc_reg := (crtc_reg g)(14 := crtc_reg g 14, 15 := crtc_reg g 15)\<rparr> = g" by simp
  with p show ?thesis unfolding shows_mode_def by metis
qed

lemma shows_mode_cursor:
  assumes "programmed rs g" "g'\<lparr>seq_index := 0, gc_index := 0\<rparr> = g\<lparr>seq_index := 0, gc_index := 0\<rparr>"
  shows "shows_mode 0x03 rs (g'\<lparr>crtc_index := i, crtc_reg := (crtc_reg g')(14 := a, 15 := b)\<rparr>)"
proof -
  have g': "programmed rs g'" using assms programmed_index by metis
  then have "programmed rs (g'\<lparr>crtc_index := i, crtc_reg := (crtc_reg g')(14 := crtc_reg g' 14, 15 := crtc_reg g' 15)\<rparr>)"
    by (simp add: programmed_def)
  then show ?thesis unfolding shows_mode_def
    by (intro conjI exI [of _ "crtc_reg g' 14"] exI [of _ "crtc_reg g' 15"]) (simp_all add: fun_upd_twist)
qed

context vga_hw
begin

lemma grab_ok:
  assumes "console_ok regs s" "textdisplayed s = 1"
  shows "console_ok regs (grabscreentobuffer outp inp s) \<and> text_view regs (grabscreentobuffer outp inp s) = text_view regs s \<and>
    textdisplayed (grabscreentobuffer outp inp s) = 0"
proof -
  obtain d where "gethardwarecursorposition outp inp (dev s) = (hwcursor (regs (dev s)), d)"
    using get_cursor(1) [of "dev s"] by (cases "gethardwarecursorposition outp inp (dev s)") simp
  with assms show ?thesis by (simp add: grabscreentobuffer_def console_ok_def text_view_def)
qed

text \<open>While the text is saved, the state of the adapter does not matter to the console.\<close>

lemma saved_text:
  assumes "textdisplayed s = 0"
  shows "text_view regs (s\<lparr>dev := d\<rparr>) = text_view regs s" "console_ok regs (s\<lparr>dev := d\<rparr>) = console_ok regs s"
  using assms by (simp_all add: text_view_def console_ok_def)

lemma restore_ok:
  assumes "console_ok regs s" "textdisplayed s = 0"
  shows "console_ok regs (outputbuffertoscreen outp s) \<and> text_view regs (outputbuffertoscreen outp s) = text_view regs s \<and>
    textdisplayed (outputbuffertoscreen outp s) = 1"
proof -
  have "0 \<le> cursorposition s" "cursorposition s < 65536" using assms by (simp_all add: console_ok_def text_view_def text_ok_def)
  with assms show ?thesis by (simp add: outputbuffertoscreen_def Let_def console_ok_def text_view_def set_cursor_hwcursor)
qed

text \<open>A request for a mode the driver does not know, made in text mode.\<close>

lemma videosetmode_unknown:
  assumes ok: "video_ok regs s" and m: "mode \<notin> {0x03, 0x12, 0x13}" "currentVideoMode s = 0x03"
  shows "\<exists>s'. videosetmode outp inp poke mode s = Inr (-1, s') \<and> currentVideoMode s' = 0x03 \<and> console_ok regs (con s') \<and>
    textdisplayed (con s') = 0 \<and> crt (con s') = crt (con s) \<and> text_view regs (con s') = text_view regs (con s)"
proof -
  have "videosetmode outp inp poke mode s = Inr (-1, s\<lparr>con := grabscreentobuffer outp inp (con s)\<rparr>)"
    using m by (auto simp: videosetmode_def getcurrentvideomode_def)
  moreover have "crt (grabscreentobuffer outp inp (con s)) = crt (con s)" by (simp add: grabscreentobuffer_def Let_def case_prod_unfold)
  moreover have "console_ok regs (con s)" "textdisplayed (con s) = 1" using ok m(2) by (simp_all add: video_ok_def)
  ultimately show ?thesis using grab_ok m(2) by auto
qed

end

text \<open>What text mode's own registers give the font upload.\<close>

lemma text_registers:
  assumes "programmed (unlocked registers_80x25_text) g"
  shows "\<not> bit (seq_reg g 4) 3" "gc_reg g 1 AND 0x0F = 0" "gc_reg g 3 AND 0x1F = 0" "gc_reg g 5 AND 0x03 = 0"
    "gc_reg g 6 AND 0x0C = 0x0C" "gc_reg g 8 = 0xFF"
proof -
  have gc: "gc_reg g (of_nat i) = unlocked registers_80x25_text ! (31 + i)" if "i < 9" for i
    using assms that by (simp add: programmed_def)
  have seq: "seq_reg g (of_nat i) = unlocked registers_80x25_text ! (1 + i)" if "i < 5" for i
    using assms that by (simp add: programmed_def)
  have "seq_reg g 4 = 0x02" using seq [of 4] by (simp add: unlocked_def registers_80x25_text_def)
  then show "\<not> bit (seq_reg g 4) 3" by (simp add: bit_iff_odd)
  show "gc_reg g 1 AND 0x0F = 0" "gc_reg g 3 AND 0x1F = 0" "gc_reg g 5 AND 0x03 = 0" "gc_reg g 6 AND 0x0C = 0x0C" "gc_reg g 8 = 0xFF"
    using gc [of 1] gc [of 3] gc [of 5] gc [of 6] gc [of 8] by (simp_all add: unlocked_def registers_80x25_text_def)
qed

text \<open>A switch to one of the three modes, from any other mode.\<close>

context vga_mem
begin

lemma console_planes:
  "planes (dev (grabscreentobuffer outp inp c)) = planes (dev c)" "planes (dev (outputbuffertoscreen outp c)) = planes (dev c)"
  by (simp_all add: grabscreentobuffer_def gethardwarecursorposition_def outputbuffertoscreen_def sethardwarecursorposition_def
      Let_def case_prod_unfold out_planes in_planes)

lemma videosetmode_ok:
  assumes ok: "video_ok regs s" and m: "mode \<in> {0x03, 0x12, 0x13}" "mode \<noteq> currentVideoMode s"
  shows "\<exists>s'. videosetmode outp inp poke mode s = Inr (0, s') \<and> currentVideoMode s' = mode \<and> video_ok regs s' \<and>
    text_view regs (con s') = text_view regs (con s) \<and> shows_mode mode (unlocked (mode_registers mode)) (regs (dev (con s'))) \<and>
    (mode = 0x03 \<longrightarrow> planes (dev (con s')) = (planes (dev (con s)))(2 := font_image font_8x16 16 256 (planes (dev (con s)) 2))) \<and>
    vgfx s' = (if mode = 0x13 then clear320x200x256 (vgfx s) else vgfx s)"
proof -
  define t where "t = (if currentVideoMode s = 0x03 then s\<lparr>con := grabscreentobuffer outp inp (con s)\<rparr> else s)"
  have t: "console_ok regs (con t)" "text_view regs (con t) = text_view regs (con s)" "textdisplayed (con t) = 0"
    "table_text t = table_text s" "table_320 t = table_320 s" "table_640 t = table_640 s" "planes (dev (con t)) = planes (dev (con s))" "vgfx t = vgfx s"
    using ok grab_ok [of "con s"] by (auto simp: t_def video_ok_def console_ok_def console_planes)
  define rs where "rs = (if mode = 0x03 then table_text s else if mode = 0x12 then table_640 s else table_320 s)"
  have u: "unlocked rs = unlocked (mode_registers mode)" using ok m(1) by (auto simp: rs_def video_ok_def mode_registers_def)
  have "length rs = length (mode_registers mode)" using arg_cong [OF u, of length] by simp
  then have len: "length rs = 61" by (simp add: mode_registers_def table_lengths)
  obtain d where w: "writevgaregisters outp inp rs (dev (con t)) = Inr (unlocked rs, d)"
    and pr: "programmed (unlocked rs) (regs d)"
    using writevgaregisters_effect [OF len] by blast
  have pd: "planes d = planes (dev (con s))" using writevgaregisters_planes [OF w] t(7) by simp
  have uu: "unlocked (unlocked rs) = unlocked rs" using len by (rule unlocked_idem)
  have tabs: "unlocked (table_text s) = unlocked registers_80x25_text" "unlocked (table_320 s) = unlocked registers_320x200x256"
    "unlocked (table_640 s) = unlocked registers_640x480x16" using ok by (simp_all add: video_ok_def)
  consider "mode = 0x03" | "mode = 0x12" | "mode = 0x13" using m(1) by auto
  then show ?thesis
  proof cases
    case 1
    have "programmed (unlocked registers_80x25_text) (regs d)" using pr u 1 by (simp add: mode_registers_def)
    note g = text_registers [OF this]
    have "length font_8x16 = 256 * 16" "(16 :: nat) \<le> 32" by (simp_all add: font_8x16_length)
    from writefont_effect [OF this g] obtain d' where f: "writefont outp inp poke font_8x16 16 d = Inr d'"
      and d': "(regs d')\<lparr>seq_index := 0, gc_index := 0\<rparr> = (regs d)\<lparr>seq_index := 0, gc_index := 0\<rparr>"
      and pl: "planes d' = (planes d)(2 := font_image font_8x16 16 256 (planes d 2))" by blast
    have c: "console_ok regs ((con t)\<lparr>dev := d'\<rparr>)" "textdisplayed ((con t)\<lparr>dev := d'\<rparr>) = 0" "text_view regs ((con t)\<lparr>dev := d'\<rparr>) = text_view regs (con s)"
      using t(1-3) saved_text [OF t(3), of d'] by simp_all
    let ?c = "outputbuffertoscreen outp ((con t)\<lparr>dev := d'\<rparr>)"
    have e: "videosetmode outp inp poke mode s = Inr (0, t\<lparr>table_text := unlocked rs, currentVideoMode := 0x03, con := ?c\<rparr>)"
      using 1 m(2) w f t unfolding videosetmode_def getcurrentvideomode_def Let_def t_def [symmetric] by (simp add: rs_def)
    have sm: "shows_mode 0x03 (unlocked rs) (regs (dev ?c))"
      using shows_mode_cursor [OF pr d'] by (simp add: outputbuffertoscreen_def Let_def set_cursor)
    have "planes (dev ?c) = (planes (dev (con s)))(2 := font_image font_8x16 16 256 (planes (dev (con s)) 2))"
      unfolding console_planes using pl pd by simp
    moreover have "unlocked (unlocked rs) = unlocked registers_80x25_text" using uu u 1 by (simp add: mode_registers_def)
    ultimately show ?thesis using 1 restore_ok [OF c(1,2)] c(3) tabs t sm u
      unfolding e by (simp add: video_ok_def)
  next
    case 2
    then have e: "videosetmode outp inp poke mode s = Inr (0, t\<lparr>table_640 := unlocked rs, currentVideoMode := 0x12, con := (con t)\<lparr>dev := d\<rparr>\<rparr>)"
      using m(2) w t unfolding videosetmode_def getcurrentvideomode_def Let_def t_def [symmetric] by (simp add: rs_def)
    have "unlocked (unlocked rs) = unlocked registers_640x480x16" using uu u 2 by (simp add: mode_registers_def)
    then show ?thesis using 2 saved_text [OF t(3), of d] shows_modeI [OF pr, of "0x12"] tabs t u
      unfolding e by (simp add: video_ok_def)
  next
    case 3
    then have e: "videosetmode outp inp poke mode s = Inr (0, t\<lparr>table_320 := unlocked rs, currentVideoMode := 0x13,
        con := (con t)\<lparr>dev := d\<rparr>, vgfx := clear320x200x256 (vgfx s)\<rparr>)"
      using m(2) w t unfolding videosetmode_def getcurrentvideomode_def Let_def t_def [symmetric] by (simp add: rs_def)
    have "unlocked (unlocked rs) = unlocked registers_320x200x256" using uu u 3 by (simp add: mode_registers_def)
    then show ?thesis using 3 saved_text [OF t(3), of d] shows_modeI [OF pr, of "0x13"] tabs t u
      unfolding e by (simp add: video_ok_def)
  qed
qed

end

subsection \<open>Properties\<close>

definition blank_regs :: vga where
  "blank_regs = \<lparr>misc_reg = 0, seq_index = 0, seq_reg = (\<lambda>_. 0), crtc_index = 0, crtc_reg = (\<lambda>_. 0), gc_index = 0,
     gc_reg = (\<lambda>_. 0), ac_index = 0, ac_reg = (\<lambda>_. 0), ac_flip = False\<rparr>"

text \<open>Text mode with an empty screen, on a register file alone and on one with video memory.\<close>

definition sample_screen :: "'d \<Rightarrow> 'd video" where
  "sample_screen d = \<lparr>con = \<lparr>dev = d, crt = replicate 2000 0, videobuffer = replicate 2000 0,
      cursorposition = 0, textdisplayed = 1, uart = 0\<rparr>,
    currentVideoMode = 0x03, table_text = registers_80x25_text, table_320 = registers_320x200x256, table_640 = registers_640x480x16,
    vgfx = \<lparr>hdcObjects = [], pixMem = (\<lambda>_. 7), ports = [], klog = [], lockinit = 0\<rparr>\<rparr>"

definition sample_video :: "vga video" where
  "sample_video = sample_screen blank_regs"

definition sample_ram :: "(vga \<times> (nat \<Rightarrow> memory)) video" where
  "sample_ram = sample_screen (blank_regs, \<lambda>_ _. 0)"

lemma sample_screen_ok: "regs d = blank_regs \<Longrightarrow> video_ok regs (sample_screen d)"
  by (simp add: video_ok_def sample_screen_def console_ok_def text_view_def text_ok_def hwcursor_def blank_regs_def)

lemma sample_video_ok: "video_ok (\<lambda>g. g) sample_video"
  unfolding sample_video_def by (rule sample_screen_ok) (rule refl)

lemma sample_ram_ok: "video_ok fst sample_ram"
  unfolding sample_ram_def by (rule sample_screen_ok) simp

lemma sample_video_mode: "currentVideoMode sample_video = 0x03" "currentVideoMode sample_ram = 0x03"
  by (simp_all add: sample_video_def sample_ram_def sample_screen_def)

text \<open>
  C18: console output is the output of a terminal with 24 lines of 80 characters: any sequence of
  characters, newlines and backspaces takes the text and cursor to what the terminal's own rules
  give, whether the text is on the screen or saved while a graphics mode is on, and the routine
  never reports a cursor out of range nor writes outside the text.
\<close>

theorem console_output_is_terminal:
  assumes "vga_hw outp inp regs" "console_ok regs s"
  shows "\<exists>s'. consputs outp inp cs s = Inr s' \<and> text_view regs s' = fold text_put cs (text_view regs s) \<and>
    console_ok regs s' \<and> textdisplayed s' = textdisplayed s"
  using vga_hw.consputs_ok [OF assms] by blast

theorem console_output_is_terminal_witness:
  "\<exists>s'. consputs vga_out vga_in [72, 105, 10] (con sample_video) = Inr s' \<and> snd (text_view (\<lambda>g. g) s') = 80"
proof -
  have c: "console_ok (\<lambda>g. g) (con sample_video)" using sample_video_ok by (simp add: video_ok_def)
  have "snd (fold text_put [72, 105, 10] (text_view (\<lambda>g. g) (con sample_video))) = 80"
    by (simp add: sample_video_def sample_screen_def blank_regs_def text_view_def hwcursor_def text_put_def)
  with console_output_is_terminal [OF vga_regs.vga_hw_axioms c, of "[72, 105, 10]"] show ?thesis by auto
qed

text \<open>
  C17: switching to a supported mode from any other one succeeds and leaves every register of the
  adapter with the value that vga.c lists for the mode (the write protection bits apart, which the
  driver forces), whatever it held before and although the CRT controller may start out
  write-protected; in text mode the two cursor registers show the cursor. The text and the cursor of
  the console survive every switch. The switch to text mode puts every row of every glyph of the font
  in its place in plane 2 of the video memory and leaves plane 3 alone; the planes a store reaches are
  those that the registers select at that moment. The switch to the 256-colour mode makes all 64000
  pixels of the screen black and changes nothing else of the graphics state, the other switches do
  not touch it. The adapter and its memory may be any that behave as documented (vga_mem).
\<close>

theorem mode_switch_programs_adapter:
  assumes "vga_mem outp inp regs poke planes" "video_ok regs s" "mode \<in> {0x03, 0x12, 0x13}" "mode \<noteq> currentVideoMode s"
  shows "\<exists>s'. videosetmode outp inp poke mode s = Inr (0, s') \<and> currentVideoMode s' = mode \<and> video_ok regs s' \<and>
    text_view regs (con s') = text_view regs (con s) \<and> shows_mode mode (unlocked (mode_registers mode)) (regs (dev (con s'))) \<and>
    (mode = 0x03 \<longrightarrow> planes (dev (con s')) 3 = planes (dev (con s)) 3 \<and>
      (\<forall>c < 256. \<forall>r < 16. planes (dev (con s')) 2 (0x800B8000 + of_nat (32 * c + r)) = font_8x16 ! (16 * c + r))) \<and>
    (if mode = 0x13
     then vgfx s' = (vgfx s)\<lparr>pixMem := pixMem (vgfx s')\<rparr> \<and> (\<forall>py < 200. \<forall>px < 320. pixMem (vgfx s') (of_nat (320 * py + px)) = 0)
     else vgfx s' = vgfx s)"
proof -
  obtain s' where s': "videosetmode outp inp poke mode s = Inr (0, s')" "currentVideoMode s' = mode" "video_ok regs s'"
    "text_view regs (con s') = text_view regs (con s)" "shows_mode mode (unlocked (mode_registers mode)) (regs (dev (con s')))"
    "mode = 0x03 \<longrightarrow> planes (dev (con s')) = (planes (dev (con s)))(2 := font_image font_8x16 16 256 (planes (dev (con s)) 2))"
    "vgfx s' = (if mode = 0x13 then clear320x200x256 (vgfx s) else vgfx s)"
    using vga_mem.videosetmode_ok [OF assms] by blast
  have "pixMem (clear320x200x256 g) (of_nat (320 * py + px)) = 0" if "py < 200" "px < 320" for g py px
  proof -
    have lt: "320 * py + px < 320 * 200" using that by linarith
    have "unat (of_nat (320 * py + px) :: u16) = 320 * py + px" using lt by (intro unat_of_nat_id) simp
    then show ?thesis using lt by (simp add: clear320x200x256_def del: of_nat_add of_nat_mult)
  qed
  moreover have "clear320x200x256 g = g\<lparr>pixMem := pixMem (clear320x200x256 g)\<rparr>" for g by (simp add: clear320x200x256_def)
  moreover have "font_image font_8x16 16 256 fm (0x800B8000 + of_nat (32 * c + r)) = font_8x16 ! (16 * c + r)" if "c < 256" "r < 16" for fm c r
    using that by (rule font_image_byte) simp
  ultimately show ?thesis using s' by (intro exI [of _ s']) (auto simp del: of_nat_add of_nat_mult)
qed

theorem mode_switch_programs_adapter_witness:
  "\<exists>s1 s2. videosetmode ram_out ram_in ram_poke 0x13 sample_ram = Inr (0, s1) \<and> misc_reg (fst (dev (con s1))) = 0x63 \<and>
     pixMem (vgfx s1) 0 = 0 \<and> videosetmode ram_out ram_in ram_poke 0x03 s1 = Inr (0, s2) \<and>
     snd (dev (con s2)) 2 0x800B8022 = 0x7E"
proof -
  note M = mode_switch_programs_adapter [OF vga_ram.vga_mem_axioms]
  have "(0x13 :: u8) \<noteq> currentVideoMode sample_ram" by (simp add: sample_video_mode)
  from M [OF sample_ram_ok _ this]
  obtain s1 where s1: "videosetmode ram_out ram_in ram_poke 0x13 sample_ram = Inr (0, s1)" "currentVideoMode s1 = 0x13" "video_ok fst s1"
    "shows_mode 0x13 (unlocked (mode_registers 0x13)) (fst (dev (con s1)))"
    and px: "\<forall>py < 200. \<forall>px < 320. pixMem (vgfx s1) (of_nat (320 * py + px)) = 0" by auto
  then have "programmed (unlocked (mode_registers 0x13)) (fst (dev (con s1)))" by (simp add: shows_mode_def)
  then have m: "misc_reg (fst (dev (con s1))) = 0x63"
    by (simp add: programmed_def mode_registers_def unlocked_def registers_320x200x256_def)
  have z: "pixMem (vgfx s1) 0 = 0" using px [rule_format, of 0 0] by simp
  have "(0x03 :: u8) \<noteq> currentVideoMode s1" using s1(2) by simp
  from M [OF s1(3) _ this] obtain s2 where s2: "videosetmode ram_out ram_in ram_poke 0x03 s1 = Inr (0, s2)"
    and g: "\<forall>c < 256. \<forall>r < 16. snd (dev (con s2)) 2 (0x800B8000 + of_nat (32 * c + r)) = font_8x16 ! (16 * c + r)" by auto
  have "snd (dev (con s2)) 2 0x800B8022 = font_8x16 ! 18" using g [rule_format, of 1 2] by simp
  also have "font_8x16 ! 18 = 0x7E" by (simp add: font_8x16_def font_8x16_0_def nth_append)
  finally show ?thesis using s1(1) m z s2 by blast
qed

text \<open>
  what is printed while a graphics mode is on is on the screen after the return to text mode,
  exactly as if it had been printed in text mode.
\<close>

theorem graphics_mode_output_kept:
  assumes mem: "vga_mem outp inp regs poke planes" and ok: "video_ok regs s" "currentVideoMode s = 0x03"
    and m: "mode \<in> {0x12, 0x13}" "videosetmode outp inp poke mode s = Inr (r, s1)"
    and p: "consputs outp inp cs (con s1) = Inr c" and ret: "videosetmode outp inp poke 0x03 (s1\<lparr>con := c\<rparr>) = Inr (r', s2)"
  shows "r = 0 \<and> r' = 0 \<and> textdisplayed (con s2) = 1 \<and>
    (crt (con s2), hwcursor (regs (dev (con s2)))) = fold text_put cs (crt (con s), hwcursor (regs (dev (con s))))"
proof -
  have hw: "vga_hw outp inp regs" using mem by (rule vga_mem.axioms)
  have s1: "r = 0" "currentVideoMode s1 = mode" "video_ok regs s1" "text_view regs (con s1) = text_view regs (con s)"
    using vga_mem.videosetmode_ok [OF mem ok(1), of mode] ok(2) m by auto
  have c: "console_ok regs c" "textdisplayed c = textdisplayed (con s1)" "text_view regs c = fold text_put cs (text_view regs (con s1))"
    using vga_hw.consputs_ok [OF hw, of "con s1" cs] s1(3) p by (auto simp: video_ok_def)
  have v: "video_ok regs (s1\<lparr>con := c\<rparr>)" "(0x03 :: u8) \<noteq> currentVideoMode (s1\<lparr>con := c\<rparr>)"
    using c s1(2,3) m(1) by (auto simp: video_ok_def)
  have s2: "r' = 0" "currentVideoMode s2 = 0x03" "video_ok regs s2" "text_view regs (con s2) = text_view regs c"
    using vga_mem.videosetmode_ok [OF mem v(1) _ v(2)] ret by auto
  have d: "textdisplayed (con s2) = 1" "textdisplayed (con s) = 1" using s2(2,3) ok by (simp_all add: video_ok_def)
  have "text_view regs (con s2) = fold text_put cs (text_view regs (con s))" using s2(4) c(3) s1(4) by simp
  then show ?thesis using s1(1) s2(1) d by (simp add: text_view_def)
qed

theorem graphics_mode_output_kept_witness:
  "\<exists>s1 c s2. videosetmode ram_out ram_in ram_poke 0x13 sample_ram = Inr (0, s1) \<and> consputs ram_out ram_in [65] (con s1) = Inr c \<and>
     videosetmode ram_out ram_in ram_poke 0x03 (s1\<lparr>con := c\<rparr>) = Inr (0, s2) \<and> hd (crt (con s2)) = 0x0741"
proof -
  note mem = vga_ram.vga_mem_axioms and hw = vga_ram.vga_hw_axioms
  have n: "(0x13 :: u8) \<noteq> currentVideoMode sample_ram" by (simp add: sample_video_mode)
  obtain s1 where s1: "videosetmode ram_out ram_in ram_poke 0x13 sample_ram = Inr (0, s1)" "video_ok fst s1" "currentVideoMode s1 = 0x13"
    using vga_mem.videosetmode_ok [OF mem sample_ram_ok _ n] by auto
  then obtain c where c: "consputs ram_out ram_in [65] (con s1) = Inr c" "console_ok fst c" "textdisplayed c = textdisplayed (con s1)"
    using vga_hw.consputs_ok [OF hw, of "con s1" "[65]"] unfolding video_ok_def by blast
  have v: "video_ok fst (s1\<lparr>con := c\<rparr>)" "(0x03 :: u8) \<noteq> currentVideoMode (s1\<lparr>con := c\<rparr>)"
    using c s1 by (auto simp: video_ok_def)
  obtain s2 where s2: "videosetmode ram_out ram_in ram_poke 0x03 (s1\<lparr>con := c\<rparr>) = Inr (0, s2)"
    using vga_mem.videosetmode_ok [OF mem v(1) _ v(2)] by auto
  have "(crt (con s2), hwcursor (fst (dev (con s2)))) = fold text_put [65] (crt (con sample_ram), hwcursor (fst (dev (con sample_ram))))"
    using graphics_mode_output_kept [OF mem sample_ram_ok _ _ s1(1) c(1) s2] by (simp add: sample_ram_def sample_screen_def blank_regs_def)
  then have "hd (crt (con s2)) = 0x0741"
    by (simp add: text_put_def sample_ram_def sample_screen_def blank_regs_def hwcursor_def hd_conv_nth)
  with s1(1) c(1) s2 show ?thesis by blast
qed

text \<open>
  A request for a mode that does not exist fails as documented, but in text mode it leaves
  the console thinking that the text is saved: the mode is still text mode, further output goes
  to the buffer and not to the screen, and setting text mode again changes nothing.
\<close>

theorem unknown_mode_freezes_screen:
  assumes hw: "vga_hw outp inp regs" and ok: "video_ok regs s" "currentVideoMode s = 0x03"
    and m: "mode \<notin> {0x03, 0x12, 0x13}" "videosetmode outp inp poke mode s = Inr (r, s1)"
  shows "r = -1 \<and> currentVideoMode s1 = 0x03 \<and> videosetmode outp inp poke 0x03 s1 = Inr (0, s1) \<and>
    (\<forall>cs. \<exists>c. consputs outp inp cs (con s1) = Inr c \<and> crt c = crt (con s))"
proof -
  have s1: "r = -1" "currentVideoMode s1 = 0x03" "console_ok regs (con s1)" "textdisplayed (con s1) = 0" "crt (con s1) = crt (con s)"
    using vga_hw.videosetmode_unknown [OF hw ok(1) m(1) ok(2), of poke] m(2) by auto
  have "\<exists>c. consputs outp inp cs (con s1) = Inr c \<and> crt c = crt (con s)" for cs
    using vga_hw.consputs_ok [OF hw s1(3), of cs] s1(4,5) by auto
  with s1(1,2) show ?thesis by (simp add: videosetmode_def getcurrentvideomode_def)
qed

theorem unknown_mode_freezes_screen_witness:
  "\<exists>s1. videosetmode ram_out ram_in ram_poke 0x55 sample_ram = Inr (-1, s1) \<and> videosetmode ram_out ram_in ram_poke 0x03 s1 = Inr (0, s1)"
proof -
  obtain r s1 where s1: "videosetmode ram_out ram_in ram_poke 0x55 sample_ram = Inr (r, s1)"
    using vga_hw.videosetmode_unknown [OF vga_ram.vga_hw_axioms sample_ram_ok, where mode = "0x55" and poke = ram_poke] sample_video_mode(2) by auto
  from unknown_mode_freezes_screen [OF vga_ram.vga_hw_axioms sample_ram_ok sample_video_mode(2) _ s1] s1 show ?thesis by auto
qed

end
