(* ===== verification/ConsInput.thy ===== *)
theory ConsInput
  imports Ring Console
begin

text \<open>
  Console input (console.c): the interrupt routine that edits the current line in a ring buffer of
  128 characters and commits it at the end of the line, and the read routine. The abstract view is
  the queue of committed characters and the line being edited. The ring locale is interpreted at
  the size of this buffer.
\<close>

abbreviation INPUT_BUF :: nat where "INPUT_BUF \<equiv> 128"

record input =
  ibuf :: "u8 list"
  in_r :: u32
  in_w :: u32
  in_e :: u32

subsection \<open>The interrupt routine\<close>

text \<open>Control-U: take back characters down to the last newline or the committed part.\<close>

function kill_line :: "(u16 \<Rightarrow> u8 \<Rightarrow> 'd \<Rightarrow> 'd) \<Rightarrow> (u16 \<Rightarrow> 'd \<Rightarrow> u8 \<times> 'd) \<Rightarrow> input \<Rightarrow> 'd console \<Rightarrow> (input \<times> 'd console) res" where
  "kill_line outp inp i s =
     (if in_e i \<noteq> in_w i \<and> ibuf i ! ring_slot INPUT_BUF (in_e i - 1) \<noteq> 10
      then bindR (consputc outp inp BACKSPACE s) (\<lambda>s. kill_line outp inp (i\<lparr>in_e := in_e i - 1\<rparr>) s)
      else Inr (i, s))"
  by auto

lemma edit_shrinks: "e \<noteq> w \<Longrightarrow> unat (e - w) = Suc (unat (e - 1 - w))" for e w :: u32
proof -
  assume "e \<noteq> w"
  then have "e - w \<noteq> 0" by simp
  then have "unat (e - w - 1) = unat (e - w) - 1" "0 < unat (e - w)" by (simp_all add: unat_minus_one unat_gt_0)
  moreover have "e - 1 - w = e - w - 1" by (simp add: algebra_simps)
  ultimately show ?thesis by (simp only:)
qed

termination kill_line
  by (relation "measure (\<lambda>(_, _, i, _). unat (in_e i - in_w i))") (auto simp: edit_shrinks)

declare kill_line.simps [simp del]

text \<open>One character: the new buffer, the echo, whether readers are woken, whether the process list is asked for.\<close>

definition consoleintr_key ::
  "(u16 \<Rightarrow> u8 \<Rightarrow> 'd \<Rightarrow> 'd) \<Rightarrow> (u16 \<Rightarrow> 'd \<Rightarrow> u8 \<times> 'd) \<Rightarrow> int \<Rightarrow> input \<Rightarrow> 'd console \<Rightarrow> (input \<times> 'd console \<times> bool \<times> bool) res" where
  "consoleintr_key outp inp c i s =
     (if c = 16 then Inr (i, s, False, True)
      else if c = 21 then bindR (kill_line outp inp i s) (\<lambda>(i, s). Inr (i, s, False, False))
      else if c = 8 \<or> c = 127 then
        (if in_e i \<noteq> in_w i
         then bindR (consputc outp inp BACKSPACE s) (\<lambda>s. Inr (i\<lparr>in_e := in_e i - 1\<rparr>, s, False, False))
         else Inr (i, s, False, False))
      else if c \<noteq> 0 \<and> in_e i - in_r i < 128 then
        let c = (if c = 13 then 10 else c);
            i = i\<lparr>ibuf := (ibuf i)[ring_slot INPUT_BUF (in_e i) := word_of_int c], in_e := in_e i + 1\<rparr>
        in bindR (consputc outp inp c s) (\<lambda>s.
             if c = 10 \<or> c = 4 \<or> in_e i = in_r i + 128 then Inr (i\<lparr>in_w := in_e i\<rparr>, s, True, False)
             else Inr (i, s, False, False))
      else Inr (i, s, False, False))"

text \<open>The loop over what getc returns, up to its first negative result.\<close>

fun consoleintr ::
  "(u16 \<Rightarrow> u8 \<Rightarrow> 'd \<Rightarrow> 'd) \<Rightarrow> (u16 \<Rightarrow> 'd \<Rightarrow> u8 \<times> 'd) \<Rightarrow> int list \<Rightarrow> input \<Rightarrow> 'd console \<Rightarrow> (input \<times> 'd console \<times> bool \<times> bool) res" where
  "consoleintr outp inp [] i s = Inr (i, s, False, False)"
| "consoleintr outp inp (c # cs) i s =
     (if c < 0 then Inr (i, s, False, False)
      else bindR (consoleintr_key outp inp c i s) (\<lambda>(i, s, wake, dump).
           bindR (consoleintr outp inp cs i s) (\<lambda>(i, s, wake', dump'). Inr (i, s, wake \<or> wake', dump \<or> dump'))))"

subsection \<open>The read routine\<close>

text \<open>What a call has done when it returns or goes to sleep with some characters left to read.\<close>

datatype cread = CReturned int | CSleeps int

function consoleread_loop :: "bool \<Rightarrow> int \<Rightarrow> int \<Rightarrow> u8 list \<Rightarrow> input \<Rightarrow> cread \<times> u8 list \<times> input" where
  "consoleread_loop killed target n dst i =
     (if n \<le> 0 then (CReturned (target - n), dst, i)
      else if in_r i = in_w i then ((if killed then CReturned (-1) else CSleeps n), dst, i)
      else
        let c = ibuf i ! ring_slot INPUT_BUF (in_r i);
            i = i\<lparr>in_r := in_r i + 1\<rparr>
        in if c = 4 then (CReturned (target - n), dst, if n < target then i\<lparr>in_r := in_r i - 1\<rparr> else i)
           else if c = 10 then (CReturned (target - (n - 1)), dst @ [c], i)
           else consoleread_loop killed target (n - 1) (dst @ [c]) i)"
  by auto

termination consoleread_loop
  by (relation "measure (\<lambda>(_, _, n, _, _). nat n)") auto

declare consoleread_loop.simps [simp del]

definition consoleread :: "bool \<Rightarrow> int \<Rightarrow> input \<Rightarrow> cread \<times> u8 list \<times> input" where
  "consoleread killed n i = consoleread_loop killed n n [] i"

subsection \<open>The line discipline it implements\<close>

interpretation input_ring: ring INPUT_BUF
  by unfold_locales simp_all

definition in_all :: "input \<Rightarrow> u8 list" where
  "in_all i = ring_range INPUT_BUF (ibuf i) (in_r i) (unat (in_e i - in_r i))"

definition committed :: "input \<Rightarrow> u8 list" where
  "committed i = ring_range INPUT_BUF (ibuf i) (in_r i) (unat (in_w i - in_r i))"

definition editing :: "input \<Rightarrow> u8 list" where
  "editing i = ring_range INPUT_BUF (ibuf i) (in_w i) (unat (in_e i - in_w i))"

definition input_ok :: "input \<Rightarrow> bool" where
  "input_ok i \<longleftrightarrow> length (ibuf i) = INPUT_BUF \<and> unat (in_w i - in_r i) + unat (in_e i - in_w i) \<le> INPUT_BUF \<and> 10 \<notin> set (editing i)"

text \<open>One character on the abstract state: the committed queue and the line.\<close>

definition line_key :: "int \<Rightarrow> u8 list \<times> u8 list \<Rightarrow> u8 list \<times> u8 list" where
  "line_key c ql =
     (let (q, l) = ql in
      if c = 16 then (q, l)
      else if c = 21 then (q, [])
      else if c = 8 \<or> c = 127 then (q, butlast l)
      else if c \<noteq> 0 \<and> length q + length l < 128 then
        let c = (if c = 13 then 10 else c);
            l = l @ [word_of_int c]
        in if c = 10 \<or> c = 4 \<or> length q + length l = 128 then (q @ l, []) else (q, l)
      else (q, l))"

lemma counters_add:
  assumes "input_ok i"
  shows "unat (in_e i - in_r i) = unat (in_w i - in_r i) + unat (in_e i - in_w i)"
proof -
  have "unat (in_w i - in_r i) + unat (in_e i - in_w i) < 2 ^ LENGTH(32)" using assms by (simp add: input_ok_def)
  from unat_add_no_wrap [OF this] show ?thesis by (simp add: algebra_simps)
qed

lemma in_all_split: "input_ok i \<Longrightarrow> in_all i = committed i @ editing i"
proof -
  assume ok: "input_ok i"
  let ?n = "unat (in_w i - in_r i)"
  have le: "?n \<le> unat (in_e i - in_r i)" using counters_add [OF ok] by simp
  have "take ?n (in_all i) = committed i" using input_ring.range_take [OF le] by (simp add: in_all_def committed_def)
  moreover have "drop ?n (in_all i) = editing i"
    using input_ring.range_drop [OF le, of "ibuf i" "in_r i"] counters_add [OF ok] by (simp add: in_all_def editing_def)
  ultimately show ?thesis by (metis append_take_drop_id)
qed

lemma view_lengths:
  "length (committed i) = unat (in_w i - in_r i)" "length (editing i) = unat (in_e i - in_w i)"
  by (simp_all add: committed_def editing_def)

lemma range_snoc: "ring_range N d r (Suc n) = ring_range N d r n @ [d ! ring_slot N (r + of_nat n)]"
  by (simp add: ring_range_def)

lemma erase_last:
  assumes "in_e i \<noteq> in_w i"
  shows "editing i = editing (i\<lparr>in_e := in_e i - 1\<rparr>) @ [ibuf i ! ring_slot INPUT_BUF (in_e i - 1)]"
    "committed (i\<lparr>in_e := in_e i - 1\<rparr>) = committed i"
proof -
  have "in_w i + of_nat (unat (in_e i - 1 - in_w i)) = in_e i - 1" by simp
  with edit_shrinks [OF assms] show "editing i = editing (i\<lparr>in_e := in_e i - 1\<rparr>) @ [ibuf i ! ring_slot INPUT_BUF (in_e i - 1)]"
    by (simp only: editing_def range_snoc) simp
qed (simp add: committed_def)

lemma erase_ok:
  assumes "input_ok i" "in_e i \<noteq> in_w i"
  shows "input_ok (i\<lparr>in_e := in_e i - 1\<rparr>)"
proof -
  have "unat (in_e i - 1 - in_w i) \<le> unat (in_e i - in_w i)" using edit_shrinks [OF assms(2)] by linarith
  moreover have "set (editing (i\<lparr>in_e := in_e i - 1\<rparr>)) \<subseteq> set (editing i)" using erase_last(1) [OF assms(2)] by auto
  ultimately show ?thesis using assms(1) by (auto simp: input_ok_def)
qed

lemma editing_empty: "editing i = [] \<longleftrightarrow> in_e i = in_w i"
  using view_lengths(2) [of i] unat_diff_eq_0_iff [of "in_e i" "in_w i"] by (metis length_0_conv)

text \<open>Appending a character to the line, and committing the line.\<close>

definition put_char :: "u8 \<Rightarrow> input \<Rightarrow> input" where
  "put_char b i = i\<lparr>ibuf := (ibuf i)[ring_slot INPUT_BUF (in_e i) := b], in_e := in_e i + 1\<rparr>"

lemma put_char_view:
  assumes "input_ok i" "unat (in_e i - in_r i) < 128"
  shows "committed (put_char b i) = committed i" "editing (put_char b i) = editing i @ [b]"
    "unat (in_e i + 1 - in_w i) = Suc (unat (in_e i - in_w i))" "unat (in_e i + 1 - in_r i) = Suc (unat (in_e i - in_r i))"
proof -
  have l: "length (ibuf i) = 128" using assms by (simp add: input_ok_def)
  have all: "in_all (put_char b i) = in_all i @ [b]"
    unfolding in_all_def put_char_def using input_ring.write_contents [OF l assms(2), of b] by simp
  show er: "unat (in_e i + 1 - in_r i) = Suc (unat (in_e i - in_r i))" by (rule input_ring.used_write) (rule assms(2))
  have "unat (in_e i - in_w i) < 128" using assms(2) counters_add [OF assms(1)] by simp
  then show ew: "unat (in_e i + 1 - in_w i) = Suc (unat (in_e i - in_w i))" by (rule input_ring.used_write)
  let ?n = "unat (in_w i - in_r i)"
  have n: "?n \<le> unat (in_e i + 1 - in_r i)" using er counters_add [OF assms(1)] by simp
  have d: "unat (in_e i + 1 - in_r i) - ?n = unat (in_e i + 1 - in_w i)" using er ew counters_add [OF assms(1)] by linarith
  have "committed (put_char b i) = take ?n (in_all (put_char b i))"
    unfolding committed_def in_all_def put_char_def
    using input_ring.range_take [OF n, of "(ibuf i)[ring_slot INPUT_BUF (in_e i) := b]" "in_r i"] by simp
  also have "\<dots> = committed i" unfolding all in_all_split [OF assms(1)] using view_lengths(1) [of i] by simp
  finally show "committed (put_char b i) = committed i" .
  have "editing (put_char b i) = drop ?n (in_all (put_char b i))"
    using input_ring.range_drop [OF n, of "(ibuf i)[ring_slot INPUT_BUF (in_e i) := b]" "in_r i"] d
    by (simp add: editing_def in_all_def put_char_def)
  also have "\<dots> = editing i @ [b]" unfolding all in_all_split [OF assms(1)] using view_lengths(1) [of i] by simp
  finally show "editing (put_char b i) = editing i @ [b]" .
qed

lemma put_char_ok:
  assumes "input_ok i" "unat (in_e i - in_r i) < 128" "b \<noteq> 10"
  shows "input_ok (put_char b i)"
proof -
  have "unat (in_w i - in_r i) + unat (in_e i + 1 - in_w i) \<le> 128"
    using put_char_view(3) [OF assms(1,2)] counters_add [OF assms(1)] assms(2) by linarith
  moreover have "10 \<notin> set (editing (put_char b i))" using put_char_view(2) [OF assms(1,2), of b] assms(1,3) by (auto simp: input_ok_def)
  ultimately show ?thesis using assms(1) by (simp add: input_ok_def) (simp add: put_char_def)
qed

lemma commit_view:
  assumes "input_ok i" "unat (in_e i - in_r i) < 128"
  shows "committed ((put_char b i)\<lparr>in_w := in_e i + 1\<rparr>) = committed i @ editing i @ [b]"
    "editing ((put_char b i)\<lparr>in_w := in_e i + 1\<rparr>) = []" "input_ok ((put_char b i)\<lparr>in_w := in_e i + 1\<rparr>)"
proof -
  have l: "length (ibuf i) = 128" using assms by (simp add: input_ok_def)
  have "committed ((put_char b i)\<lparr>in_w := in_e i + 1\<rparr>) = in_all (put_char b i)" by (simp add: committed_def in_all_def put_char_def)
  also have "\<dots> = in_all i @ [b]"
    unfolding in_all_def put_char_def using input_ring.write_contents [OF l assms(2), of b] by simp
  finally show "committed ((put_char b i)\<lparr>in_w := in_e i + 1\<rparr>) = committed i @ editing i @ [b]"
    using in_all_split [OF assms(1)] by simp
  show e: "editing ((put_char b i)\<lparr>in_w := in_e i + 1\<rparr>) = []" unfolding editing_empty by (simp add: put_char_def)
  show "input_ok ((put_char b i)\<lparr>in_w := in_e i + 1\<rparr>)"
    using e assms(2) put_char_view(4) [OF assms] l by (simp add: input_ok_def) (simp add: put_char_def)
qed

context vga_hw
begin

lemma kill_line_ok:
  assumes "input_ok i" "console_ok regs s"
  shows "\<exists>i' s'. kill_line outp inp i s = Inr (i', s') \<and> input_ok i' \<and> console_ok regs s' \<and> committed i' = committed i \<and> editing i' = []"
  using assms
proof (induction "unat (in_e i - in_w i)" arbitrary: i s)
  case 0
  then have "in_e i = in_w i" using unat_diff_eq_0_iff [of "in_e i" "in_w i"] by metis
  with 0 show ?case by (simp add: kill_line.simps [of _ _ i] editing_empty)
next
  case (Suc n)
  then have ne: "in_e i \<noteq> in_w i" by auto
  let ?i = "i\<lparr>in_e := in_e i - 1\<rparr>"
  have n: "n = unat (in_e ?i - in_w ?i)" using edit_shrinks [OF ne] Suc.hyps(2) by simp
  have c: "ibuf i ! ring_slot INPUT_BUF (in_e i - 1) \<noteq> 10"
    using Suc.prems(1) unfolding input_ok_def erase_last(1) [OF ne] by auto
  obtain s' where s': "consputc outp inp BACKSPACE s = Inr s'" "console_ok regs s'" using consputc_ok [OF Suc.prems(2)] by blast
  from Suc.hyps(1) [OF n erase_ok [OF Suc.prems(1) ne] s'(2)] s'(1) ne c erase_last(2) [OF ne] show ?case
    by (simp add: kill_line.simps [of _ _ i])
qed

lemma consoleintr_key_ok:
  assumes ok: "input_ok i" "console_ok regs s" and c: "0 \<le> c" "c \<le> 255"
  shows "\<exists>i' s' wake dump. consoleintr_key outp inp c i s = Inr (i', s', wake, dump) \<and> input_ok i' \<and> console_ok regs s' \<and>
    (committed i', editing i') = line_key c (committed i, editing i) \<and> (committed i' \<noteq> committed i \<longrightarrow> wake)"
proof -
  consider "c = 16" | "c = 21" | "c = 8 \<or> c = 127" | "c \<notin> {16, 21, 8, 127}" by auto
  then show ?thesis
  proof cases
    case 1
    then show ?thesis using ok by (auto simp: consoleintr_key_def line_key_def)
  next
    case 2
    then show ?thesis using kill_line_ok [OF ok] by (auto simp: consoleintr_key_def line_key_def)
  next
    case 3
    obtain s' where s': "consputc outp inp BACKSPACE s = Inr s'" "console_ok regs s'" using consputc_ok [OF ok(2)] by blast
    show ?thesis
    proof (cases "in_e i = in_w i")
      case True
      then have "editing i = []" by (simp add: editing_empty)
      with True 3 ok show ?thesis by (auto simp: consoleintr_key_def line_key_def)
    next
      case False
      have "butlast (editing i) = editing (i\<lparr>in_e := in_e i - 1\<rparr>)" unfolding erase_last(1) [OF False] by simp
      with False 3 s' erase_ok [OF ok(1) False] erase_last(2) [OF False] show ?thesis
        by (auto simp: consoleintr_key_def line_key_def)
    qed
  next
    case 4
    have len: "length (committed i) + length (editing i) = unat (in_e i - in_r i)" using counters_add [OF ok(1)] view_lengths [of i] by simp
    show ?thesis
    proof (cases "c \<noteq> 0 \<and> unat (in_e i - in_r i) < 128")
      case False
      then show ?thesis using ok 4 len by (auto simp: consoleintr_key_def line_key_def word_less_nat_alt)
    next
      case True
      define b where "b = (if c = 13 then 10 else c)"
      have lt: "unat (in_e i - in_r i) < 128" using True ..
      have b8: "word_of_int b = (10 :: u8) \<longleftrightarrow> b = 10" using c uint_word_of_int_id [of b, where 'a = 8] by (auto simp: b_def)
      obtain s' where s': "consputc outp inp b s = Inr s'" "console_ok regs s'" using consputc_ok [OF ok(2)] by blast
      have full: "in_e i + 1 = in_r i + 128 \<longleftrightarrow> length (committed i) + length (editing i) + 1 = 128"
        using input_ring.full_iff [of "in_e i + 1" "in_r i"] put_char_view(4) [OF ok(1) lt] len by simp
      have k: "consoleintr_key outp inp c i s = (if b = 10 \<or> b = 4 \<or> in_e i + 1 = in_r i + 128
          then Inr ((put_char (word_of_int b) i)\<lparr>in_w := in_e i + 1\<rparr>, s', True, False) else Inr (put_char (word_of_int b) i, s', False, False))"
        using 4 True s'(1) by (auto simp: consoleintr_key_def Let_def b_def put_char_def word_less_nat_alt)
      have line: "line_key c (committed i, editing i) = (if b = 10 \<or> b = 4 \<or> length (committed i) + length (editing i) + 1 = 128
          then (committed i @ editing i @ [word_of_int b], []) else (committed i, editing i @ [word_of_int b]))"
        using 4 True len by (auto simp: line_key_def Let_def b_def)
      show ?thesis
      proof (cases "b = 10 \<or> b = 4 \<or> in_e i + 1 = in_r i + 128")
        case True
        then show ?thesis using k line full commit_view [OF ok(1) lt, of "word_of_int b"] s'(2) by auto
      next
        case False
        then have "word_of_int b \<noteq> (10 :: u8)" using b8 by simp
        with False show ?thesis using k line full put_char_view(1,2) [OF ok(1) lt, of "word_of_int b"] put_char_ok [OF ok(1) lt] s'(2) by auto
      qed
    qed
  qed
qed

lemma consoleintr_ok:
  assumes "input_ok i" "console_ok regs s" "\<forall>c \<in> set cs. 0 \<le> c \<and> c \<le> 255"
  shows "\<exists>i' s' wake dump. consoleintr outp inp cs i s = Inr (i', s', wake, dump) \<and> input_ok i' \<and> console_ok regs s' \<and>
    (committed i', editing i') = fold line_key cs (committed i, editing i) \<and> (committed i' \<noteq> committed i \<longrightarrow> wake)"
  using assms
proof (induction cs arbitrary: i s)
  case (Cons c cs)
  obtain i1 s1 w1 d1 where k: "consoleintr_key outp inp c i s = Inr (i1, s1, w1, d1)" "input_ok i1" "console_ok regs s1"
    "(committed i1, editing i1) = line_key c (committed i, editing i)" "committed i1 \<noteq> committed i \<longrightarrow> w1"
    using consoleintr_key_ok [OF Cons.prems(1,2), of c] Cons.prems(3) by auto
  obtain i2 s2 w2 d2 where r: "consoleintr outp inp cs i1 s1 = Inr (i2, s2, w2, d2)" "input_ok i2" "console_ok regs s2"
    "(committed i2, editing i2) = fold line_key cs (committed i1, editing i1)" "committed i2 \<noteq> committed i1 \<longrightarrow> w2"
    using Cons.IH [OF k(2,3)] Cons.prems(3) by auto
  have "\<not> c < 0" using Cons.prems(3) by auto
  with k r show ?case by auto
qed auto

end

subsection \<open>Reading\<close>

text \<open>What a read of at most n characters takes from the committed queue.\<close>

fun read_line :: "int \<Rightarrow> int \<Rightarrow> u8 list \<Rightarrow> u8 list \<Rightarrow> u8 list \<times> u8 list \<times> bool" where
  "read_line target n dst [] = (dst, [], n \<le> 0)"
| "read_line target n dst (c # q) =
     (if n \<le> 0 then (dst, c # q, True)
      else if c = 4 then (dst, if n < target then c # q else q, True)
      else if c = 10 then (dst @ [c], q, True)
      else read_line target (n - 1) (dst @ [c]) q)"

lemma take_char:
  assumes "input_ok i" "in_r i \<noteq> in_w i"
  shows "committed i = ibuf i ! ring_slot INPUT_BUF (in_r i) # committed (i\<lparr>in_r := in_r i + 1\<rparr>)"
    "input_ok (i\<lparr>in_r := in_r i + 1\<rparr>)" "editing (i\<lparr>in_r := in_r i + 1\<rparr>) = editing i"
proof -
  show "committed i = ibuf i ! ring_slot INPUT_BUF (in_r i) # committed (i\<lparr>in_r := in_r i + 1\<rparr>)"
    using input_ring.read_contents [OF assms(2)] by (simp add: committed_def)
  show e: "editing (i\<lparr>in_r := in_r i + 1\<rparr>) = editing i" by (simp add: editing_def)
  have "unat (in_w i - (in_r i + 1)) \<le> unat (in_w i - in_r i)" using input_ring.used_read [OF assms(2)] by linarith
  with e assms(1) show "input_ok (i\<lparr>in_r := in_r i + 1\<rparr>)" by (simp add: input_ok_def)
qed

lemma committed_empty: "committed i = [] \<longleftrightarrow> in_r i = in_w i"
  using view_lengths(1) [of i] unat_diff_eq_0_iff [of "in_w i" "in_r i"] by (metis length_0_conv)

lemma consoleread_loop_ok:
  assumes "input_ok i" "read_line target n dst (committed i) = (out, q, done)"
  shows "\<exists>i' n'. consoleread_loop killed target n dst i =
      ((if done then CReturned (target - n') else if killed then CReturned (-1) else CSleeps n'), out, i') \<and>
    input_ok i' \<and> committed i' = q \<and> editing i' = editing i \<and> int (length out) - int (length dst) = n - n'"
  using assms
proof (induction killed target n dst i rule: consoleread_loop.induct)
  case (1 killed target n dst i)
  show ?case
  proof (cases "n \<le> 0")
    case True
    then have "(out, q, done) = (dst, committed i, True)" using 1(3) by (cases "committed i") auto
    with True 1(2) show ?thesis by (simp add: consoleread_loop.simps [of _ _ n])
  next
    case n: False
    show ?thesis
    proof (cases "in_r i = in_w i")
      case True
      then have "committed i = []" by (simp add: committed_empty)
      with True n 1(2,3) show ?thesis by (auto simp: consoleread_loop.simps [of _ _ n])
    next
      case False
      let ?c = "ibuf i ! ring_slot INPUT_BUF (in_r i)" and ?i = "i\<lparr>in_r := in_r i + 1\<rparr>"
      note t = take_char [OF 1(2) False]
      consider "?c = 4" | "?c = 10" | "?c \<noteq> 4" "?c \<noteq> 10" by blast
      then show ?thesis
      proof cases
        case 1
        moreover have "i\<lparr>in_r := in_r i + 1 - 1\<rparr> = i" by simp
        ultimately show ?thesis using \<open>input_ok i\<close> n False t 1(1)
          \<open>read_line target n dst (committed i) = (out, q, done)\<close> by (auto simp: consoleread_loop.simps [of _ _ n] Let_def)
      next
        case 2
        then show ?thesis using n False t \<open>read_line target n dst (committed i) = (out, q, done)\<close>
          by (auto simp: consoleread_loop.simps [of _ _ n] Let_def intro!: exI [of _ "n - 1"])
      next
        case 3
        have rl: "read_line target (n - 1) (dst @ [?c]) (committed ?i) = (out, q, done)"
          using 1(3) 3 n t(1) by simp
        obtain i' n' where i': "consoleread_loop killed target (n - 1) (dst @ [?c]) ?i =
            ((if done then CReturned (target - n') else if killed then CReturned (-1) else CSleeps n'), out, i')"
          "input_ok i'" "committed i' = q" "editing i' = editing ?i" "int (length out) - int (length (dst @ [?c])) = n - 1 - n'"
          using 1(1) [OF n False refl refl 3 t(2) rl] by blast
        then show ?thesis using n False 3 t(3) by (auto simp: consoleread_loop.simps [of _ _ n] Let_def)
      qed
    qed
  qed
qed

lemma read_line_takes:
  "read_line target n dst q = (out, q', done) \<Longrightarrow> \<exists>taken. out = dst @ taken \<and> 4 \<notin> set taken \<and> 10 \<notin> set (butlast taken) \<and>
     int (length taken) \<le> max 0 n \<and> (q = taken @ q' \<or> q = taken @ 4 # q' \<and> target \<le> n - int (length taken)) \<and>
     (\<not> done \<longrightarrow> q = taken \<and> q' = [] \<and> 10 \<notin> set taken \<and> int (length taken) < n)"
proof (induction target n dst q rule: read_line.induct)
  case (1 target n dst)
  then show ?case by auto
next
  case (2 target n dst c q)
  show ?case
  proof (cases "0 < n \<and> c \<noteq> 4 \<and> c \<noteq> 10")
    case True
    then obtain taken where "out = (dst @ [c]) @ taken" "4 \<notin> set taken" "10 \<notin> set (butlast taken)"
      "int (length taken) \<le> max 0 (n - 1)" "q = taken @ q' \<or> q = taken @ 4 # q' \<and> target \<le> n - 1 - int (length taken)"
      "\<not> done \<longrightarrow> q = taken \<and> q' = [] \<and> 10 \<notin> set taken \<and> int (length taken) < n - 1"
      using 2 by auto
    with True show ?thesis by (intro exI [of _ "c # taken"]) auto
  next
    case False
    then consider "n \<le> 0" | "0 < n" "c = 4" | "0 < n" "c = 10" by linarith
    then show ?thesis
    proof cases
      case 3
      then show ?thesis using 2(2) by (intro exI [of _ "[10]"]) auto
    qed (use 2(2) in \<open>auto split: if_splits\<close>)
  qed
qed

subsection \<open>Properties\<close>

text \<open>
  C16: typing is the line discipline of the abstract console: on the queue of committed characters
  and the line being edited, any run of characters from the keyboard or the serial line has the
  effect of the editing rules, the ring buffer never overflows or loses a character, echoing
  never fails, and readers are woken whenever the queue grows.
\<close>

theorem console_line_discipline:
  assumes "vga_hw outp inp regs" "input_ok i" "console_ok regs s" "\<forall>c \<in> set cs. 0 \<le> c \<and> c \<le> 255"
  shows "\<exists>i' s' wake dump. consoleintr outp inp cs i s = Inr (i', s', wake, dump) \<and> input_ok i' \<and> console_ok regs s' \<and>
    (committed i', editing i') = fold line_key cs (committed i, editing i) \<and> (committed i' \<noteq> committed i \<longrightarrow> wake)"
  by (rule vga_hw.consoleintr_ok [OF assms])

definition sample_console :: "vga console" where
  "sample_console = \<lparr>dev = \<lparr>misc_reg = 0, seq_index = 0, seq_reg = (\<lambda>_. 0), crtc_index = 0, crtc_reg = (\<lambda>_. 0), gc_index = 0,
      gc_reg = (\<lambda>_. 0), ac_index = 0, ac_reg = (\<lambda>_. 0), ac_flip = False\<rparr>, crt = replicate 2000 0, videobuffer = replicate 2000 0,
      cursorposition = 0, textdisplayed = 1, uart = 0\<rparr>"

definition sample_input :: input where
  "sample_input = \<lparr>ibuf = replicate 128 0, in_r = 0xFFFFFFFF, in_w = 0xFFFFFFFF, in_e = 0xFFFFFFFF\<rparr>"

lemma sample_input_ok: "input_ok sample_input" "committed sample_input = []" "editing sample_input = []"
  by (simp_all add: sample_input_def input_ok_def committed_def editing_def ring_range_def)

lemma sample_console_ok: "console_ok (\<lambda>g. g) sample_console"
  by (simp add: sample_console_def console_ok_def text_view_def text_ok_def hwcursor_def)

theorem console_line_discipline_witness:
  "\<exists>i' s' wake dump. consoleintr vga_out vga_in [97, 98, 8, 99, 13] sample_input sample_console = Inr (i', s', wake, dump) \<and>
     committed i' = [97, 99, 10] \<and> editing i' = [] \<and> wake"
proof -
  have "fold line_key [97, 98, 8, 99, 13] ([], []) = ([97, 99, 10], [])" by (simp add: line_key_def)
  with console_line_discipline [OF vga_regs.vga_hw_axioms sample_input_ok(1) sample_console_ok, of "[97, 98, 8, 99, 13]"]
  show ?thesis by (auto simp: sample_input_ok)
qed

text \<open>
  A read takes characters from the front of the committed queue, in order: at most the number
  asked for, and at most one line; it stops at an end-of-file character, which it never returns,
  and consumes it only if it has nothing else to return. It sleeps only when the queue is used up
  before a whole line was read, and the line being edited is not touched.
\<close>

theorem consoleread_returns_line:
  assumes "input_ok i" "consoleread killed n i = (r, out, i')"
  shows "input_ok i' \<and> editing i' = editing i \<and> 4 \<notin> set out \<and> 10 \<notin> set (butlast out) \<and> int (length out) \<le> max 0 n \<and>
    (committed i = out @ committed i' \<or> out = [] \<and> committed i = 4 # committed i') \<and>
    (r = CReturned (int (length out)) \<or>
     committed i' = [] \<and> 10 \<notin> set out \<and> int (length out) < n \<and> r = (if killed then CReturned (-1) else CSleeps (n - int (length out))))"
proof -
  obtain o' q fin where rl: "read_line n n [] (committed i) = (o', q, fin)" by (metis prod_cases3)
  obtain i1 n' where c: "consoleread killed n i = ((if fin then CReturned (n - n') else if killed then CReturned (-1) else CSleeps n'), o', i1)"
    "input_ok i1" "committed i1 = q" "editing i1 = editing i" "int (length o') = n - n'"
    using consoleread_loop_ok [OF assms(1) rl, of killed] by (auto simp: consoleread_def)
  from read_line_takes [OF rl] c assms(2) show ?thesis by (auto split: if_splits)
qed

theorem consoleread_returns_line_witness:
  "\<exists>r out i'. consoleread False 10 sample_input = (r, out, i') \<and> r = CSleeps 10 \<and> out = []"
proof -
  obtain r out i' where c: "consoleread False 10 sample_input = (r, out, i')" by (metis prod_cases3)
  from consoleread_returns_line [OF sample_input_ok(1) c] c show ?thesis
    using sample_input_ok(2) by (auto simp: consoleread_def consoleread_loop.simps [of _ _ 10] sample_input_def)
qed

end
