(* ===== verification/Keyboard.thy ===== *)
theory Keyboard
  imports Prelude
begin

text \<open>
  The keyboard driver (kbd.c, kbd.h): the translation of scan codes to characters, with the state
  of the modifier and lock keys and of a pending E0 escape. A table with designated initialisers
  is its leading entries, zeros, and then the designated entries.
\<close>

abbreviation KBSTATP :: u16 where "KBSTATP \<equiv> 0x64"
abbreviation KBDATAP :: u16 where "KBDATAP \<equiv> 0x60"
abbreviation KBS_DIB :: u8 where "KBS_DIB \<equiv> 0x01"

abbreviation SHIFT :: u8 where "SHIFT \<equiv> 0x01"
abbreviation CTL :: u8 where "CTL \<equiv> 0x02"
abbreviation ALT :: u8 where "ALT \<equiv> 0x04"
abbreviation CAPSLOCK :: u8 where "CAPSLOCK \<equiv> 0x08"
abbreviation NUMLOCK :: u8 where "NUMLOCK \<equiv> 0x10"
abbreviation SCROLLLOCK :: u8 where "SCROLLLOCK \<equiv> 0x20"
abbreviation E0ESC :: u32 where "E0ESC \<equiv> 0x40"

subsection \<open>Tables\<close>

definition designated :: "u8 list \<Rightarrow> (nat \<times> u8) list \<Rightarrow> u8 list" where
  "designated prefix ds = fold (\<lambda>(i, v) t. t[i := v]) ds (prefix @ replicate (256 - length prefix) 0)"

definition shiftcode :: "u8 list" where
  "shiftcode = designated [] [(0x1D, CTL), (0x2A, SHIFT), (0x36, SHIFT), (0x38, ALT), (0x9D, CTL), (0xB8, ALT)]"

definition togglecode :: "u8 list" where
  "togglecode = designated [] [(0x3A, CAPSLOCK), (0x45, NUMLOCK), (0x46, SCROLLLOCK)]"

text \<open>The keys behind an E0 escape that the three maps share.\<close>

definition escaped_keys :: "(nat \<times> u8) list" where
  "escaped_keys = [(0xC8, 0xE2), (0xD0, 0xE3), (0xC9, 0xE6), (0xD1, 0xE7), (0xCB, 0xE4), (0xCD, 0xE5),
     (0x97, 0xE0), (0xCF, 0xE1), (0xD2, 0xE8), (0xD3, 0xE9)]"

definition chars :: "string \<Rightarrow> u8 list" where
  "chars s = map (\<lambda>c. of_nat (of_char c)) s"

definition normal_keys :: "u8 list" where
  "normal_keys =
     ([0, 0x1B] @ chars ''1234567890-='' @ [8, 9] @ chars ''qwertyuiop[]'' @ [10, 0] @ chars ''asdfghjkl;'' @ [39] @ chars ''`'' @ [0, 92] @
      chars ''zxcvbnm,./'' @ [0] @ chars ''*'' @ [0] @ chars '' '' @ replicate 13 0 @ chars ''789-456+1230.'' @ replicate 4 0)"

definition normalmap :: "u8 list" where
  "normalmap = designated normal_keys ([(0x9C, 10), (0xB5, 47)] @ escaped_keys)"

definition shift_keys :: "u8 list" where
  "shift_keys =
     ([0, 27] @ chars ''!@#$%^&*()_+'' @ [8, 9] @ chars ''QWERTYUIOP{}'' @ [10, 0] @ chars ''ASDFGHJKL:'' @ [34] @ chars ''~'' @ [0] @ chars ''|'' @
      chars ''ZXCVBNM<>?'' @ [0] @ chars ''*'' @ [0] @ chars '' '' @ replicate 13 0 @ chars ''789-456+1230.'' @ replicate 4 0)"

definition shiftmap :: "u8 list" where
  "shiftmap = designated shift_keys ([(0x9C, 10), (0xB5, 47)] @ escaped_keys)"

text \<open>The source's C(x): the character minus 64, as an unsigned byte.\<close>

definition ctls :: "string \<Rightarrow> u8 list" where
  "ctls s = map (\<lambda>c. c - 64) (chars s)"

definition ctl_keys :: "u8 list" where
  "ctl_keys =
     (replicate 16 0 @ ctls ''QWERTYUIOP'' @ [0, 0, 13, 0] @ ctls ''ASDFGHJKL'' @ replicate 4 0 @ [92 - 64] @ ctls ''ZXCVBNM'' @ [0, 0] @ ctls ''/'' @ [0, 0])"

definition ctlmap :: "u8 list" where
  "ctlmap = designated ctl_keys ([(0x9C, 13), (0xB5, 47 - 64)] @ escaped_keys)"

subsection \<open>Decoding\<close>

definition charcode :: "u32 \<Rightarrow> u8 list" where
  "charcode k = (if k = 0 then normalmap else if k = 1 then shiftmap else ctlmap)"

text \<open>What kbdgetc does with a byte from the data port: its result and the new static variable shift.\<close>

definition kbd_decode :: "u8 \<Rightarrow> u32 \<Rightarrow> int \<times> u32" where
  "kbd_decode data shift =
     (if data = 0xE0 then (0, shift OR E0ESC)
      else if data AND 0x80 \<noteq> 0 then
        let data = (if shift AND E0ESC \<noteq> 0 then data else data AND 0x7F)
        in (0, shift AND NOT (ucast (shiftcode ! unat data) OR E0ESC))
      else
        let (data, shift) = (if shift AND E0ESC \<noteq> 0 then (data OR 0x80, shift AND NOT E0ESC) else (data, shift));
            shift = shift OR ucast (shiftcode ! unat data);
            shift = shift XOR ucast (togglecode ! unat data);
            c = charcode (shift AND ucast (CTL OR SHIFT)) ! unat data;
            c = (if shift AND ucast CAPSLOCK \<noteq> 0
                 then (if 97 \<le> c \<and> c \<le> 122 then c - 32 else if 65 \<le> c \<and> c \<le> 90 then c + 32 else c)
                 else c)
        in (uint c, shift))"

definition kbdgetc :: "(u16 \<Rightarrow> 'd \<Rightarrow> u8 \<times> 'd) \<Rightarrow> u32 \<Rightarrow> 'd \<Rightarrow> int \<times> u32 \<times> 'd" where
  "kbdgetc inp shift d =
     (let (st, d) = inp KBSTATP d
      in if st AND KBS_DIB = 0 then (-1, shift, d)
         else let (data, d) = inp KBDATAP d;
                  (c, shift) = kbd_decode data shift
              in (c, shift, d))"

subsection \<open>Lemmas\<close>

text \<open>The scan codes of the letter keys.\<close>

definition letter_codes :: "nat list" where
  "letter_codes = [0x10..<0x1A] @ [0x1E..<0x27] @ [0x2C..<0x33]"

lemma designated_length: "length p \<le> 256 \<Longrightarrow> length (designated p ds) = 256"
proof -
  have "length (fold (\<lambda>(i, v) t. t[i := v]) ds t) = length t" for t :: "u8 list"
    by (induction ds arbitrary: t) (auto split: prod.split)
  then show "length p \<le> 256 \<Longrightarrow> ?thesis" by (simp add: designated_def)
qed

lemma designated_nth:
  assumes "k \<notin> fst ` set ds" "k < 256"
  shows "designated p ds ! k = (if k < length p then p ! k else 0)"
proof -
  have "fold (\<lambda>(i, v) t. t[i := v]) ds t ! k = t ! k" for t :: "u8 list"
    using assms(1) by (induction ds arbitrary: t) (auto split: prod.split)
  then show ?thesis using assms(2) by (simp add: designated_def nth_append)
qed

lemma replicate_numeral: "replicate (numeral k) x = x # replicate (pred_numeral k) x"
  by (simp add: numeral_eq_Suc)

lemma key_values:
  "normal_keys = [
     0, 27, 49, 50, 51, 52, 53, 54, 55, 56, 57, 48, 45, 61, 8, 9, 113, 119, 101, 114, 116, 121, 117, 105,
     111, 112, 91, 93, 10, 0, 97, 115, 100, 102, 103, 104, 106, 107, 108, 59, 39, 96, 0, 92, 122, 120,
     99, 118, 98, 110, 109, 44, 46, 47, 0, 42, 0, 32, 0, 0, 0, 0, 0, 0, 0, 0, 0, 0, 0, 0, 0, 55, 56, 57,
     45, 52, 53, 54, 43, 49, 50, 51, 48, 46, 0, 0, 0, 0]"
  "shift_keys = [
     0, 27, 33, 64, 35, 36, 37, 94, 38, 42, 40, 41, 95, 43, 8, 9, 81, 87, 69, 82, 84, 89, 85, 73, 79, 80,
     123, 125, 10, 0, 65, 83, 68, 70, 71, 72, 74, 75, 76, 58, 34, 126, 0, 124, 90, 88, 67, 86, 66, 78,
     77, 60, 62, 63, 0, 42, 0, 32, 0, 0, 0, 0, 0, 0, 0, 0, 0, 0, 0, 0, 0, 55, 56, 57, 45, 52, 53, 54, 43,
     49, 50, 51, 48, 46, 0, 0, 0, 0]"
  "ctl_keys = [
     0, 0, 0, 0, 0, 0, 0, 0, 0, 0, 0, 0, 0, 0, 0, 0, 17, 23, 5, 18, 20, 25, 21, 9, 15, 16, 0, 0, 13, 0,
     1, 19, 4, 6, 7, 8, 10, 11, 12, 0, 0, 0, 0, 28, 26, 24, 3, 22, 2, 14, 13, 0, 0, 239, 0, 0]"
  by (simp_all add: normal_keys_def shift_keys_def ctl_keys_def chars_def ctls_def replicate_numeral)

lemma key_lengths: "length normal_keys = 88" "length shift_keys = 88" "length ctl_keys = 56"
  by (simp_all add: key_values)

lemma letter_keys:
  "map ((!) shift_keys) letter_codes = map (\<lambda>k. normal_keys ! k - 32) letter_codes"
  "map ((!) ctl_keys) letter_codes = map (\<lambda>k. normal_keys ! k - 96) letter_codes"
  "\<forall>k \<in> set letter_codes. 97 \<le> normal_keys ! k \<and> normal_keys ! k \<le> 122"
proof -
  have n: "map ((!) normal_keys) letter_codes = chars ''qwertyuiopasdfghjklzxcvbnm''"
    by (simp add: letter_codes_def key_values chars_def)
  have f: "map (\<lambda>k. f (normal_keys ! k)) letter_codes = map f (chars ''qwertyuiopasdfghjklzxcvbnm'')" for f :: "u8 \<Rightarrow> u8"
    unfolding n [symmetric] by simp
  have sh: "map ((!) shift_keys) letter_codes = chars ''QWERTYUIOPASDFGHJKLZXCVBNM''"
    by (simp add: letter_codes_def key_values chars_def)
  have ct: "map ((!) ctl_keys) letter_codes = ctls ''QWERTYUIOPASDFGHJKLZXCVBNM''"
    by (simp add: letter_codes_def key_values chars_def ctls_def)
  show "map ((!) shift_keys) letter_codes = map (\<lambda>k. normal_keys ! k - 32) letter_codes"
    "map ((!) ctl_keys) letter_codes = map (\<lambda>k. normal_keys ! k - 96) letter_codes"
    unfolding sh ct f [of "\<lambda>c. c - 32"] f [of "\<lambda>c. c - 96"] by (simp_all add: chars_def ctls_def)
  have "\<forall>c \<in> set (chars ''qwertyuiopasdfghjklzxcvbnm''). 97 \<le> c \<and> c \<le> 122" by (simp add: chars_def)
  moreover have "\<forall>k \<in> set letter_codes. normal_keys ! k \<in> set (chars ''qwertyuiopasdfghjklzxcvbnm'')"
    unfolding n [symmetric] by simp
  ultimately show "\<forall>k \<in> set letter_codes. 97 \<le> normal_keys ! k \<and> normal_keys ! k \<le> 122" by blast
qed

lemma letter_tables:
  "k \<in> set letter_codes \<Longrightarrow> k < 128 \<and> shiftcode ! k = 0 \<and> togglecode ! k = 0 \<and> 97 \<le> normalmap ! k \<and> normalmap ! k \<le> 122 \<and>
     shiftmap ! k = normalmap ! k - 32 \<and> ctlmap ! k = normalmap ! k - 96"
proof -
  assume k: "k \<in> set letter_codes"
  have e: "set letter_codes = {16,17,18,19,20,21,22,23,24,25,30,31,32,33,34,35,36,37,38,44,45,46,47,48,49,50}"
    by (auto simp: letter_codes_def)
  have n: "k \<notin> fst ` set ([(0x9C, x), (0xB5, y)] @ escaped_keys)" "k < 128" "k < 83"
    "k \<notin> fst ` set [(0x1D, CTL), (0x2A, SHIFT), (0x36, SHIFT), (0x38, ALT), (0x9D, CTL), (0xB8, ALT)]"
    "k \<notin> fst ` set [(0x3A, CAPSLOCK), (0x45, NUMLOCK), (0x46, SCROLLLOCK)]" "k < 56" for x y
    using k unfolding e by (auto simp: escaped_keys_def)
  then have d: "shiftcode ! k = 0" "togglecode ! k = 0"
    by (simp_all add: shiftcode_def togglecode_def designated_nth)
  have "normalmap ! k = normal_keys ! k" "shiftmap ! k = shift_keys ! k" "ctlmap ! k = ctl_keys ! k"
    using n key_lengths by (simp_all add: normalmap_def shiftmap_def ctlmap_def designated_nth)
  moreover have "shift_keys ! k = normal_keys ! k - 32" "ctl_keys ! k = normal_keys ! k - 96" "97 \<le> normal_keys ! k" "normal_keys ! k \<le> 122"
    using letter_keys k by (simp_all add: map_eq_conv)
  ultimately show ?thesis using d n(2) by simp
qed

lemma modifier_bits: "shift AND 3 = of_bool (bit shift 0) + 2 * of_bool (bit shift 1)" for shift :: u32
proof -
  have "shift AND 3 = take_bit 2 shift" by (simp add: take_bit_eq_mask mask_eq_exp_minus_1)
  also have "\<dots> = of_bool (bit shift 0) + 2 * of_bool (bit shift 1)"
    by (simp add: numeral_2_eq_2 take_bit_Suc bit_Suc bit_0 mod_2_eq_odd)
  finally show ?thesis .
qed

lemma and_8_bit: "shift AND 8 \<noteq> 0 \<longleftrightarrow> bit shift 3" for shift :: u32
  using and_exp_eq_0_iff_not_bit [of shift 3] by simp

lemma and_64_bit: "shift AND 0x40 \<noteq> 0 \<longleftrightarrow> bit shift 6" for shift :: u32
  using and_exp_eq_0_iff_not_bit [of shift 6] by simp

lemma make_code: "k < 128 \<Longrightarrow> (of_nat k :: u8) AND 0x80 = 0 \<and> of_nat k \<noteq> (0xE0 :: u8) \<and> unat (of_nat k :: u8) = k"
proof -
  assume k: "k < 128"
  then have "of_nat k = take_bit 7 (of_nat k :: u8)" by (simp add: take_bit_of_nat take_bit_nat_eq_self)
  then have "\<not> bit (of_nat k :: u8) 7" by (metis bit_take_bit_iff less_irrefl)
  moreover have "unat (of_nat k :: u8) = k" using k unat_of_nat_id [of k, where 'a = 8] by simp
  moreover from this have "of_nat k \<noteq> (0xE0 :: u8)" using k by auto
  ultimately show ?thesis using and_exp_eq_0_iff_not_bit [of "of_nat k :: u8" 7] by simp
qed

lemma designated_set: "set (designated p ds) \<subseteq> set p \<union> {0} \<union> snd ` set ds"
proof -
  have "set (fold (\<lambda>(i, v) t. t[i := v]) ds t) \<subseteq> set t \<union> snd ` set ds" for t :: "u8 list"
  proof (induction ds arbitrary: t)
    case (Cons d ds)
    then show ?case using set_update_subset_insert [of t "fst d" "snd d"] by (fastforce simp: case_prod_unfold)
  qed simp
  from this [of "p @ replicate (256 - length p) 0"] show ?thesis by (auto simp: designated_def set_replicate_conv_if split: if_splits)
qed

lemma modifier_tables: "\<not> bit (shiftcode ! unat data) 6" "\<not> bit (togglecode ! unat data) 6" for data :: u8
proof -
  have "unat data < 256" using unsigned_less [of data] by simp
  then have "shiftcode ! unat data \<in> set shiftcode" "togglecode ! unat data \<in> set togglecode"
    by (simp_all add: shiftcode_def togglecode_def designated_length)
  moreover have "\<forall>x \<in> set shiftcode. \<not> bit x 6" "\<forall>x \<in> set togglecode. \<not> bit x 6"
    using designated_set unfolding shiftcode_def togglecode_def by (fastforce simp: bit_simps)+
  ultimately show "\<not> bit (shiftcode ! unat data) 6" "\<not> bit (togglecode ! unat data) 6" by blast+
qed

subsection \<open>Properties\<close>

text \<open>
  Every code gives a character between 0 and 255, where 0 means none, and an E0 escape is
  pending after a code exactly when that code was E0: it lasts for one further code, whether that
  is a key going down or up.
\<close>

theorem keyboard_escape_is_one_code:
  "0 \<le> fst (kbd_decode data shift) \<and> fst (kbd_decode data shift) \<le> 255 \<and> (bit (snd (kbd_decode data shift)) 6 \<longleftrightarrow> data = 0xE0)"
proof -
  have u: "0 \<le> uint c \<and> uint c \<le> 255" for c :: u8 using unsigned_less [of c, where 'a = int] by simp
  have b: "\<not> bit (ucast x :: u32) 6" if "\<not> bit x 6" for x :: u8 using that by (simp add: bit_simps)
  have e: "bit (0x40 :: u32) 6" by (simp add: bit_simps)
  have n: "\<not> bit shift 6" if "shift AND 0x40 = 0" using that and_64_bit by blast
  show ?thesis
    using u b [OF modifier_tables(1)] b [OF modifier_tables(2)] e n
    by (auto simp: kbd_decode_def Let_def bit_or_iff bit_and_iff bit_not_iff bit_xor_iff split: prod.split)
qed


text \<open>
  On the letter keys, with no escape pending, the driver gives the control character while
  control is held, and otherwise the capital exactly when one of shift and caps lock is on but not
  both; the modifier state does not change.
\<close>

theorem keyboard_letters:
  assumes "k \<in> set letter_codes" "\<not> bit shift 6"
  shows "kbd_decode (of_nat k) shift =
    (let l = uint (normalmap ! k) in
       (if bit shift 1 then l - 96 else if bit shift 0 \<noteq> bit shift 3 then l - 32 else l, shift))"
proof -
  note t = letter_tables [OF assms(1)]
  have b: "97 \<le> uint (normalmap ! k)" "uint (normalmap ! k) \<le> 122" using t by (simp_all add: word_le_def)
  have u: "uint (normalmap ! k - 32) = uint (normalmap ! k) - 32" "uint (normalmap ! k - 96) = uint (normalmap ! k) - 96"
    using b by (simp_all add: uint_word_ariths)
  have s: "shift AND E0ESC = 0" using assms(2) and_64_bit by blast
  show ?thesis
    using make_code [of k] t s b u
    by (auto simp: kbd_decode_def Let_def and_8_bit modifier_bits charcode_def word_le_def)
qed

theorem keyboard_letters_witness: "kbd_decode 0x1E 0x08 = (65, 0x08) \<and> kbd_decode 0x1E 0x09 = (97, 0x09)"
proof -
  have k: "30 \<in> set letter_codes" by (simp add: letter_codes_def)
  have "normalmap ! 30 = 97" by (simp add: normalmap_def designated_nth escaped_keys_def key_values)
  with keyboard_letters [OF k, where shift = "0x08"] keyboard_letters [OF k, where shift = "0x09"] show ?thesis by (simp add: bit_simps)
qed

end
