(* ===== verification/FsAlloc.thy ===== *)
theory FsAlloc
  imports Block
begin

text \<open>
  The lowest layer of the file system (fs.c): the super block and the bitmap of used blocks. The
  state holds the blocks as the running transaction sees them: bread gives the current contents,
  and a change followed by log_write is an update that later breads see. That this is what the
  log provides is the interface \<open>transaction_blocks\<close> in theory FsLog. There is one device.
\<close>

subsection \<open>State\<close>

record superblock =
  sb_size :: u32
  sb_nblocks :: u32
  sb_ninodes :: u32
  sb_nlog :: u32
  sb_logstart :: u32
  sb_inodestart :: u32
  sb_bmapstart :: u32

text \<open>In-memory inodes (file.h); the lock is the identifier of the process that holds it, or None.\<close>

record inode =
  i_inum :: u32
  i_ref :: int
  i_lock :: "int option"
  i_valid :: bool
  i_type :: int
  i_major :: int
  i_minor :: int
  i_nlink :: int
  i_size :: u32
  i_addrs :: "u32 list"

record fsys =
  sb :: superblock
  blk :: "nat \<Rightarrow> block"
  icache :: "inode list"

abbreviation BPB :: nat where "BPB \<equiv> 4096"

abbreviation fs_size :: "fsys \<Rightarrow> nat" where "fs_size s \<equiv> unat (sb_size (sb s))"

definition put_blk :: "nat \<Rightarrow> block \<Rightarrow> fsys \<Rightarrow> fsys" where
  "put_blk b d s = s\<lparr>blk := (blk s)(b := d)\<rparr>"

subsection \<open>Operations\<close>

definition readsb :: "fsys \<Rightarrow> superblock" where
  "readsb s =
     (let d = blk s 1 in
      \<lparr>sb_size = get32 d 0, sb_nblocks = get32 d 1, sb_ninodes = get32 d 2, sb_nlog = get32 d 3,
       sb_logstart = get32 d 4, sb_inodestart = get32 d 5, sb_bmapstart = get32 d 6\<rparr>)"

definition BBLOCK :: "nat \<Rightarrow> superblock \<Rightarrow> nat" where
  "BBLOCK b sblk = b div BPB + unat (sb_bmapstart sblk)"

definition bzero :: "nat \<Rightarrow> fsys \<Rightarrow> fsys" where
  "bzero bno s = put_blk bno (replicate BSIZE 0) s"

text \<open>The bit of position \<open>bi\<close> in a bitmap block: its test, and the block with it set or cleared.\<close>

definition block_bit :: "block \<Rightarrow> nat \<Rightarrow> bool" where
  "block_bit d bi \<longleftrightarrow> d ! (bi div 8) AND push_bit (bi mod 8) 1 \<noteq> 0"

definition set_block_bit :: "block \<Rightarrow> nat \<Rightarrow> block" where
  "set_block_bit d bi = d[bi div 8 := d ! (bi div 8) OR push_bit (bi mod 8) 1]"

definition clear_block_bit :: "block \<Rightarrow> nat \<Rightarrow> block" where
  "clear_block_bit d bi = d[bi div 8 := d ! (bi div 8) AND NOT (push_bit (bi mod 8) 1)]"

function balloc_loop :: "nat \<Rightarrow> fsys \<Rightarrow> (nat \<times> fsys) res" where
  "balloc_loop b s =
     (if b < fs_size s then
        let bp = blk s (BBLOCK b (sb s)) in
        (case List.find (\<lambda>bi. \<not> block_bit bp bi) [0..<min BPB (fs_size s - b)] of
           Some bi \<Rightarrow> Inr (b + bi, bzero (b + bi) (put_blk (BBLOCK b (sb s)) (set_block_bit bp bi) s))
         | None \<Rightarrow> balloc_loop (b + BPB) s)
      else Inl (Panic ''balloc: out of blocks''))"
  by auto

termination balloc_loop
  by (relation "measure (\<lambda>(b, s). fs_size s - b)") auto

declare balloc_loop.simps [simp del]

definition balloc :: "fsys \<Rightarrow> (nat \<times> fsys) res" where
  "balloc s = balloc_loop 0 s"

definition bfree :: "nat \<Rightarrow> fsys \<Rightarrow> fsys res" where
  "bfree b s =
     (let bb = BBLOCK b (sb s);
          bp = blk s bb;
          bi = b mod BPB
      in if \<not> block_bit bp bi then Inl (Panic ''freeing free block'')
         else Inr (put_blk bb (clear_block_bit bp bi) s))"

subsection \<open>Bits\<close>

lemma block_bit_iff: "block_bit d bi \<longleftrightarrow> bit (d ! (bi div 8)) (bi mod 8)"
  unfolding block_bit_def using and_exp_eq_0_iff_not_bit [of "d ! (bi div 8)" "bi mod 8"] by (simp add: push_bit_of_1)

lemma div_mod_8_eq: "i div 8 = j div 8 \<Longrightarrow> i mod 8 = j mod 8 \<Longrightarrow> i = j" for i j :: nat
  by (metis div_mult_mod_eq)

lemma bit_masks:
  fixes x :: u8
  assumes "m < 8"
  shows "bit (x OR push_bit k 1) m \<longleftrightarrow> bit x m \<or> m = k" "bit (x AND NOT (push_bit k 1)) m \<longleftrightarrow> bit x m \<and> m \<noteq> k"
  using assms by (auto simp: bit_or_iff bit_and_iff bit_not_iff bit_exp_iff possible_bit_word)

lemma block_bit_set:
  assumes "length d = BSIZE" "i < BPB" "j < BPB"
  shows "block_bit (set_block_bit d i) j \<longleftrightarrow> i = j \<or> block_bit d j"
proof (cases "i div 8 = j div 8")
  case True
  then have "j mod 8 = i mod 8 \<longleftrightarrow> i = j" by (metis div_mult_mod_eq)
  with True assms show ?thesis unfolding block_bit_iff set_block_bit_def by (simp add: bit_masks(1) [of "j mod 8"] del: push_bit_of_1) auto
next
  case False
  then show ?thesis by (auto simp: block_bit_iff set_block_bit_def)
qed

lemma block_bit_clear:
  assumes "length d = BSIZE" "i < BPB" "j < BPB"
  shows "block_bit (clear_block_bit d i) j \<longleftrightarrow> i \<noteq> j \<and> block_bit d j"
proof (cases "i div 8 = j div 8")
  case True
  then have "j mod 8 = i mod 8 \<longleftrightarrow> i = j" by (metis div_mult_mod_eq)
  with True assms show ?thesis unfolding block_bit_iff clear_block_bit_def by (simp add: bit_masks(2) [of "j mod 8"] del: push_bit_of_1) auto
next
  case False
  then show ?thesis by (auto simp: block_bit_iff clear_block_bit_def)
qed

lemma bit_length [simp]: "length (set_block_bit d i) = length d" "length (clear_block_bit d i) = length d"
  by (simp_all add: set_block_bit_def clear_block_bit_def)

subsection \<open>The set of used blocks\<close>

definition used :: "fsys \<Rightarrow> nat \<Rightarrow> bool" where
  "used s b \<longleftrightarrow> block_bit (blk s (BBLOCK b (sb s))) (b mod BPB)"

text \<open>The layout of fs.h: boot block, super block, log, inodes and bitmap precede the data blocks.\<close>

definition data_start :: "fsys \<Rightarrow> nat" where
  "data_start s = unat (sb_bmapstart (sb s)) + fs_size s div BPB + 1"

definition layout_ok :: "fsys \<Rightarrow> bool" where
  "layout_ok s \<longleftrightarrow> (\<forall>b. length (blk s b) = BSIZE) \<and> (\<forall>b < data_start s. used s b) \<and> data_start s \<le> fs_size s"

lemma BBLOCK_inj: "BBLOCK b sblk = BBLOCK c sblk \<Longrightarrow> b mod BPB = c mod BPB \<Longrightarrow> b = c"
  by (metis BBLOCK_def add_right_cancel div_mult_mod_eq)

lemma BBLOCK_meta: "b < fs_size s \<Longrightarrow> unat (sb_bmapstart (sb s)) \<le> BBLOCK b (sb s) \<and> BBLOCK b (sb s) < data_start s"
  by (simp add: BBLOCK_def data_start_def less_Suc_eq_le div_le_mono)

lemma used_put_bitmap:
  assumes "length (blk s (BBLOCK b (sb s))) = BSIZE"
  shows "used (put_blk (BBLOCK b (sb s)) (set_block_bit (blk s (BBLOCK b (sb s))) (b mod BPB)) s) c \<longleftrightarrow> c = b \<or> used s c"
    "used (put_blk (BBLOCK b (sb s)) (clear_block_bit (blk s (BBLOCK b (sb s))) (b mod BPB)) s) c \<longleftrightarrow> c \<noteq> b \<and> used s c"
proof -
  have ne: "b mod BPB \<noteq> c mod BPB" if "BBLOCK c (sb s) = BBLOCK b (sb s)" "c \<noteq> b" using BBLOCK_inj that by metis
  have lt: "b mod BPB < BPB" "c mod BPB < BPB" by simp_all
  show "used (put_blk (BBLOCK b (sb s)) (set_block_bit (blk s (BBLOCK b (sb s))) (b mod BPB)) s) c \<longleftrightarrow> c = b \<or> used s c"
    using block_bit_set [OF assms lt] ne by (cases "BBLOCK c (sb s) = BBLOCK b (sb s)"; cases "c = b") (simp_all add: used_def put_blk_def)
  show "used (put_blk (BBLOCK b (sb s)) (clear_block_bit (blk s (BBLOCK b (sb s))) (b mod BPB)) s) c \<longleftrightarrow> c \<noteq> b \<and> used s c"
    using block_bit_clear [OF assms lt] ne by (cases "BBLOCK c (sb s) = BBLOCK b (sb s)"; cases "c = b") (simp_all add: used_def put_blk_def)
qed

lemma used_put_data:
  assumes "\<And>c. c < fs_size s \<Longrightarrow> b \<noteq> BBLOCK c (sb s)" "c < fs_size s"
  shows "used (put_blk b d s) c \<longleftrightarrow> used s c"
  using assms(1) [OF assms(2)] by (auto simp: used_def put_blk_def)

text \<open>What an allocation does.\<close>

definition allocated :: "fsys \<Rightarrow> nat \<Rightarrow> fsys \<Rightarrow> bool" where
  "allocated s b s' \<longleftrightarrow> data_start s \<le> b \<and> b < fs_size s \<and> \<not> used s b \<and> layout_ok s' \<and> sb s' = sb s \<and> icache s' = icache s \<and>
     (\<forall>c < fs_size s. used s' c \<longleftrightarrow> c = b \<or> used s c) \<and> blk s' b = replicate BSIZE 0 \<and>
     (\<forall>c. c \<noteq> b \<longrightarrow> c < unat (sb_bmapstart (sb s)) \<or> data_start s \<le> c \<longrightarrow> blk s' c = blk s c)"

lemma allocate_block:
  assumes lay: "layout_ok s" and b: "b < fs_size s" "\<not> used s b"
  shows "allocated s b (bzero b (put_blk (BBLOCK b (sb s)) (set_block_bit (blk s (BBLOCK b (sb s))) (b mod BPB)) s))"
proof -
  let ?t = "put_blk (BBLOCK b (sb s)) (set_block_bit (blk s (BBLOCK b (sb s))) (b mod BPB)) s"
  have len: "length (blk s c) = BSIZE" for c using lay by (simp add: layout_ok_def)
  have f: "sb ?t = sb s" "icache ?t = icache s" by (simp_all add: put_blk_def)
  have u: "used ?t c \<longleftrightarrow> c = b \<or> used s c" for c by (rule used_put_bitmap) (rule len)
  have d: "data_start s \<le> b" using lay b by (metis layout_ok_def not_less)
  have nb: "b \<noteq> BBLOCK c (sb ?t)" if "c < fs_size ?t" for c using BBLOCK_meta [of c s] that d f by auto
  have u': "used (bzero b ?t) c \<longleftrightarrow> c = b \<or> used s c" if "c < fs_size s" for c
    unfolding bzero_def using used_put_data [of ?t b c] nb that f u by simp
  have lens: "length (blk (bzero b ?t) c) = BSIZE" for c using len by (simp add: bzero_def put_blk_def)
  have ds: "data_start (bzero b ?t) = data_start s" "sb (bzero b ?t) = sb s" by (simp_all add: data_start_def bzero_def put_blk_def)
  have "data_start s \<le> fs_size s" using lay by (simp add: layout_ok_def)
  then have "layout_ok (bzero b ?t)" using lay lens u' by (simp add: layout_ok_def ds)
  moreover have "blk (bzero b ?t) c = blk s c" if "c \<noteq> b" "c < unat (sb_bmapstart (sb s)) \<or> data_start s \<le> c" for c
    using that BBLOCK_meta [OF b(1)] by (auto simp: bzero_def put_blk_def)
  ultimately show ?thesis
    using d b u' ds(2) by (simp add: allocated_def) (simp add: bzero_def put_blk_def)
qed

lemma find_upt_Some:
  "List.find P [0..<n] = Some i \<longleftrightarrow> i < n \<and> P i \<and> (\<forall>j < i. \<not> P j)"
  by (auto simp: find_Some_iff)

lemma find_upt_None: "List.find P [0..<n] = None \<longleftrightarrow> (\<forall>i < n. \<not> P i)"
  by (auto simp: find_None_iff)

lemma balloc_loop_spec:
  assumes lay: "layout_ok s" and m: "b mod BPB = 0" and before: "\<forall>c < b. c < fs_size s \<longrightarrow> used s c"
  shows "(\<exists>c < fs_size s. \<not> used s c) \<Longrightarrow> \<exists>c s'. balloc_loop b s = Inr (c, s') \<and> allocated s c s' \<and> (\<forall>x < c. used s x)"
    "(\<forall>c < fs_size s. used s c) \<Longrightarrow> balloc_loop b s = Inl (Panic ''balloc: out of blocks'')"
proof -
  have bb: "BBLOCK (b + bi) (sb s) = BBLOCK b (sb s) \<and> (b + bi) mod BPB = bi" if "b mod BPB = 0" "bi < BPB" for b bi
    using that by (auto simp: BBLOCK_def elim!: dvdE simp flip: dvd_eq_mod_eq_0)
  have "((\<exists>c < fs_size s. \<not> used s c) \<longrightarrow> (\<exists>c s'. balloc_loop b s = Inr (c, s') \<and> allocated s c s' \<and> (\<forall>x < c. used s x))) \<and>
    ((\<forall>c < fs_size s. used s c) \<longrightarrow> balloc_loop b s = Inl (Panic ''balloc: out of blocks''))"
    using m before
  proof (induction "fs_size s - b" arbitrary: b rule: less_induct)
    case less
    show ?case
    proof (cases "b < fs_size s")
      case False
      with less.prems(2) show ?thesis by (auto simp: balloc_loop.simps [of b])
    next
      case True
      let ?bp = "blk s (BBLOCK b (sb s))" and ?n = "min BPB (fs_size s - b)"
      have u: "used s (b + bi) \<longleftrightarrow> block_bit ?bp bi" if "bi < BPB" for bi using bb [OF less.prems(1) that] by (simp add: used_def)
      show ?thesis
      proof (cases "List.find (\<lambda>bi. \<not> block_bit ?bp bi) [0..<?n]")
        case (Some bi)
        then have bi: "bi < BPB" "b + bi < fs_size s" "\<not> block_bit ?bp bi" "\<forall>j < bi. block_bit ?bp j" by (auto simp: find_upt_Some)
        have "balloc_loop b s = Inr (b + bi, bzero (b + bi) (put_blk (BBLOCK (b + bi) (sb s))
            (set_block_bit (blk s (BBLOCK (b + bi) (sb s))) ((b + bi) mod BPB)) s))"
          using True Some bb [OF less.prems(1) bi(1)] by (simp add: balloc_loop.simps [of b] Let_def)
        moreover have "\<not> used s (b + bi)" using u bi by simp
        moreover have "used s x" if "x < b + bi" for x
        proof (cases "x < b")
          case True
          then show ?thesis using less.prems(2) bi(2) by simp
        next
          case False
          then have "x - b < bi" "x - b < BPB" "b + (x - b) = x" using that bi(1) by linarith+
          then show ?thesis using u [of "x - b"] bi(4) by auto
        qed
        ultimately show ?thesis using allocate_block [OF lay bi(2)] bi(2) by auto
      next
        case None
        then have nb: "\<forall>bi < ?n. block_bit ?bp bi" by (simp add: find_upt_None)
        have "used s c" if "c < b + BPB" "c < fs_size s" for c
        proof (cases "c < b")
          case False
          then have "c - b < ?n" "c - b < BPB" "b + (c - b) = c" using that by linarith+
          then show ?thesis using u [of "c - b"] nb by auto
        qed (use less.prems(2) that in simp)
        moreover have "fs_size s - (b + BPB) < fs_size s - b" using True by linarith
        moreover have "(b + BPB) mod BPB = 0" using less.prems(1) by simp
        moreover have "balloc_loop b s = balloc_loop (b + BPB) s" using True None by (simp add: balloc_loop.simps [of b] Let_def)
        ultimately show ?thesis using less.hyps [of "b + BPB"] by simp
      qed
    qed
  qed
  then show "(\<exists>c < fs_size s. \<not> used s c) \<Longrightarrow> \<exists>c s'. balloc_loop b s = Inr (c, s') \<and> allocated s c s' \<and> (\<forall>x < c. used s x)"
    "(\<forall>c < fs_size s. used s c) \<Longrightarrow> balloc_loop b s = Inl (Panic ''balloc: out of blocks'')" by blast+
qed

text \<open>What freeing a block does.\<close>

definition freed :: "fsys \<Rightarrow> nat \<Rightarrow> fsys \<Rightarrow> bool" where
  "freed s b s' \<longleftrightarrow> layout_ok s' \<and> sb s' = sb s \<and> icache s' = icache s \<and> (\<forall>c < fs_size s. used s' c \<longleftrightarrow> c \<noteq> b \<and> used s c) \<and>
     (\<forall>c. c < unat (sb_bmapstart (sb s)) \<or> data_start s \<le> c \<longrightarrow> blk s' c = blk s c)"

lemma bfree_spec:
  assumes lay: "layout_ok s" and b: "data_start s \<le> b" "b < fs_size s"
  shows "used s b \<Longrightarrow> \<exists>s'. bfree b s = Inr s' \<and> freed s b s'" "\<not> used s b \<Longrightarrow> bfree b s = Inl (Panic ''freeing free block'')"
proof -
  let ?t = "put_blk (BBLOCK b (sb s)) (clear_block_bit (blk s (BBLOCK b (sb s))) (b mod BPB)) s"
  have len: "length (blk s c) = BSIZE" for c using lay by (simp add: layout_ok_def)
  have u: "used ?t c \<longleftrightarrow> c \<noteq> b \<and> used s c" for c by (rule used_put_bitmap) (rule len)
  have f: "sb ?t = sb s" "icache ?t = icache s" "data_start ?t = data_start s" by (simp_all add: put_blk_def data_start_def)
  have "length (blk ?t c) = BSIZE" for c using len by (simp add: put_blk_def)
  then have "layout_ok ?t" using lay b u f by (auto simp: layout_ok_def)
  moreover have "blk ?t c = blk s c" if "c < unat (sb_bmapstart (sb s)) \<or> data_start s \<le> c" for c
    using that BBLOCK_meta [OF b(2)] by (auto simp: put_blk_def)
  ultimately have "freed s b ?t" using u f by (simp add: freed_def)
  moreover show "used s b \<Longrightarrow> \<exists>s'. bfree b s = Inr s' \<and> freed s b s'" using calculation by (simp add: bfree_def used_def Let_def)
  show "\<not> used s b \<Longrightarrow> bfree b s = Inl (Panic ''freeing free block'')" by (simp add: bfree_def used_def Let_def)
qed

lemma balloc_spec:
  assumes "layout_ok s"
  shows "(\<exists>c < fs_size s. \<not> used s c) \<Longrightarrow> \<exists>c s'. balloc s = Inr (c, s') \<and> allocated s c s' \<and> (\<forall>x < c. used s x)"
    "(\<forall>c < fs_size s. used s c) \<Longrightarrow> balloc s = Inl (Panic ''balloc: out of blocks'')"
  using balloc_loop_spec [OF assms, of 0] by (simp_all add: balloc_def)

lemma balloc_allocated: "layout_ok s \<Longrightarrow> balloc s = Inr (b, s') \<Longrightarrow> allocated s b s'"
  using balloc_spec [of s] by (cases "\<exists>c < fs_size s. \<not> used s c") auto

lemma allocatedD:
  assumes "allocated s b s'"
  shows "data_start s \<le> b" "b < fs_size s" "\<not> used s b" "layout_ok s'" "sb s' = sb s" "icache s' = icache s"
    "c < fs_size s \<Longrightarrow> used s' c \<longleftrightarrow> c = b \<or> used s c" "blk s' b = replicate BSIZE 0" "data_start s' = data_start s"
    "c \<noteq> b \<Longrightarrow> c < unat (sb_bmapstart (sb s)) \<or> data_start s \<le> c \<Longrightarrow> blk s' c = blk s c"
  using assms by (auto simp: allocated_def data_start_def)

subsection \<open>Properties\<close>

text \<open>A small file system: 20 blocks, the bitmap in block 3, blocks up to 3 in use.\<close>

definition sample_fs :: fsys where
  "sample_fs = \<lparr>sb = \<lparr>sb_size = 20, sb_nblocks = 16, sb_ninodes = 8, sb_nlog = 0, sb_logstart = 2, sb_inodestart = 2, sb_bmapstart = 3\<rparr>,
     blk = (\<lambda>b. if b = 3 then 0x0F # replicate 511 0 else replicate 512 0), icache = []\<rparr>"

lemma sample_used: "b < 20 \<Longrightarrow> used sample_fs b \<longleftrightarrow> b < 4"
proof -
  assume b: "b < 20"
  have "\<forall>b \<in> set [0..<20]. used sample_fs b \<longleftrightarrow> b < 4"
    by (simp add: upt_rec used_def BBLOCK_def sample_fs_def block_bit_iff bit_simps)
  with b show ?thesis by simp
qed

lemma sample_layout: "layout_ok sample_fs"
proof -
  have "data_start sample_fs = 4" "fs_size sample_fs = 20" by (simp_all add: data_start_def sample_fs_def)
  then show ?thesis using sample_used by (auto simp: layout_ok_def) (simp add: sample_fs_def)
qed

text \<open>
  C26: the bitmap allocator keeps the set of used blocks. Allocation returns the lowest free block
  of the disk, never a block of the log, the inodes or the bitmap, marks just that block used and
  zeroes it, and panics exactly when every block is in use; freeing a used block marks just that
  block free and changes no other block's contents, and freeing a free block panics.
\<close>

theorem block_allocator_correct:
  assumes "layout_ok s"
  shows "((\<exists>c < fs_size s. \<not> used s c) \<longrightarrow> (\<exists>b s'. balloc s = Inr (b, s') \<and> (\<forall>x < b. used s x) \<and> \<not> used s b \<and>
        data_start s \<le> b \<and> b < fs_size s \<and> (\<forall>c < fs_size s. used s' c \<longleftrightarrow> c = b \<or> used s c) \<and> blk s' b = replicate 512 0 \<and>
        (\<forall>c. c \<noteq> b \<longrightarrow> c < unat (sb_bmapstart (sb s)) \<or> data_start s \<le> c \<longrightarrow> blk s' c = blk s c) \<and> layout_ok s')) \<and>
    ((\<forall>c < fs_size s. used s c) \<longrightarrow> balloc s = Inl (Panic ''balloc: out of blocks'')) \<and>
    (\<forall>b. data_start s \<le> b \<longrightarrow> b < fs_size s \<longrightarrow>
      (if used s b then \<exists>s'. bfree b s = Inr s' \<and> (\<forall>c < fs_size s. used s' c \<longleftrightarrow> c \<noteq> b \<and> used s c) \<and>
          (\<forall>c. c < unat (sb_bmapstart (sb s)) \<or> data_start s \<le> c \<longrightarrow> blk s' c = blk s c) \<and> layout_ok s'
       else bfree b s = Inl (Panic ''freeing free block'')))"
proof (intro conjI impI allI)
  assume "\<exists>c < fs_size s. \<not> used s c"
  from balloc_spec(1) [OF assms this] show "\<exists>b s'. balloc s = Inr (b, s') \<and> (\<forall>x < b. used s x) \<and> \<not> used s b \<and>
        data_start s \<le> b \<and> b < fs_size s \<and> (\<forall>c < fs_size s. used s' c \<longleftrightarrow> c = b \<or> used s c) \<and> blk s' b = replicate 512 0 \<and>
        (\<forall>c. c \<noteq> b \<longrightarrow> c < unat (sb_bmapstart (sb s)) \<or> data_start s \<le> c \<longrightarrow> blk s' c = blk s c) \<and> layout_ok s'"
    unfolding allocated_def by blast
next
  show "balloc s = Inl (Panic ''balloc: out of blocks'')" if "\<forall>c < fs_size s. used s c"
    using balloc_spec(2) [OF assms that] .
next
  fix b assume b: "data_start s \<le> b" "b < fs_size s"
  show "if used s b then \<exists>s'. bfree b s = Inr s' \<and> (\<forall>c < fs_size s. used s' c \<longleftrightarrow> c \<noteq> b \<and> used s c) \<and>
          (\<forall>c. c < unat (sb_bmapstart (sb s)) \<or> data_start s \<le> c \<longrightarrow> blk s' c = blk s c) \<and> layout_ok s'
       else bfree b s = Inl (Panic ''freeing free block'')"
    using bfree_spec [OF assms b] unfolding freed_def by auto
qed

theorem block_allocator_correct_witness: "\<exists>b s'. balloc sample_fs = Inr (b, s') \<and> b = 4 \<and> used s' 4"
proof -
  have f: "fs_size sample_fs = 20" by (simp add: sample_fs_def)
  have "\<exists>c < fs_size sample_fs. \<not> used sample_fs c" by (rule exI [of _ 4]) (simp add: f sample_used)
  then obtain b s' where b: "balloc sample_fs = Inr (b, s')" "\<forall>x < b. used sample_fs x" "\<not> used sample_fs b" "b < 20"
    "\<forall>c < 20. used s' c \<longleftrightarrow> c = b \<or> used sample_fs c"
    using block_allocator_correct [OF sample_layout] f by auto
  have "\<not> b < 4" using b(3,4) sample_used [of b] by auto
  moreover have "\<not> 4 < b" using b(2) sample_used [of 4] by auto
  ultimately have "b = 4" by linarith
  with b show ?thesis by auto
qed

end
