(* ===== verification/FsLog.thy ===== *)
theory FsLog
  imports FsAlloc Log
begin

text \<open>
  How the file system sits on the log (fs.c and log.c). The file system reads a block, changes it
  and calls log_write; the locale \<open>transaction_blocks\<close> is what it relies on: a write that fits in
  the transaction succeeds, later reads see it and no other block changes. It is interpreted on
  log_write and bread of the log, and the property follows a transaction to the disk.
\<close>

fun tx_puts :: "(nat \<Rightarrow> block \<Rightarrow> 's \<Rightarrow> 's res) \<Rightarrow> (nat \<times> block) list \<Rightarrow> 's \<Rightarrow> 's res" where
  "tx_puts wr [] t = Inr t"
| "tx_puts wr ((b, d) # ups) t = bindR (wr b d t) (tx_puts wr ups)"

definition upd_view :: "(nat \<times> block) list \<Rightarrow> (nat \<Rightarrow> block) \<Rightarrow> nat \<Rightarrow> block" where
  "upd_view ups v = fold (\<lambda>(b, d) v. v(b := d)) ups v"

locale transaction_blocks =
  fixes view :: "'s \<Rightarrow> nat \<Rightarrow> block"
    and wr :: "nat \<Rightarrow> block \<Rightarrow> 's \<Rightarrow> 's res"
    and slots :: "'s \<Rightarrow> nat"
    and usable :: "'s \<Rightarrow> nat \<Rightarrow> bool"
    and same :: "'s \<Rightarrow> 's \<Rightarrow> bool"
  assumes wr_law: "0 < slots t \<Longrightarrow> usable t b \<Longrightarrow>
      \<exists>t'. wr b d t = Inr t' \<and> view t' = (view t)(b := d) \<and> slots t \<le> Suc (slots t') \<and> usable t' = usable t \<and> same t t'"
    and same_refl: "same t t"
    and same_trans: "same t u \<Longrightarrow> same u v \<Longrightarrow> same t v"
begin

lemma puts_law:
  assumes "length ups \<le> slots t" "\<forall>(b, d) \<in> set ups. usable t b"
  shows "\<exists>t'. tx_puts wr ups t = Inr t' \<and> view t' = upd_view ups (view t) \<and> same t t'"
  using assms
proof (induction ups arbitrary: t)
  case Nil
  then show ?case using same_refl by (simp add: upd_view_def)
next
  case (Cons p ups)
  obtain b d where p: "p = (b, d)" by (cases p)
  from wr_law [of t b d] Cons.prems p obtain u where u: "wr b d t = Inr u" "view u = (view t)(b := d)" "slots t \<le> Suc (slots u)"
    "usable u = usable t" "same t u" by auto
  have "length ups \<le> slots u" "\<forall>(b, d) \<in> set ups. usable u b" using Cons.prems u(3,4) by auto
  from Cons.IH [OF this] obtain t' where "tx_puts wr ups u = Inr t'" "view t' = upd_view ups (view u)" "same u t'" by blast
  then show ?case using u p same_trans by (auto simp: upd_view_def)
qed

end

subsection \<open>The log as provider\<close>

definition log_view :: "fslog \<Rightarrow> nat \<Rightarrow> block" where
  "log_view t b = bread_data t (int b)"

definition log_put :: "nat \<Rightarrow> block \<Rightarrow> fslog \<Rightarrow> fslog res" where
  "log_put b d t = log_write (int b) d t"

definition log_slots :: "fslog \<Rightarrow> nat" where
  "log_slots t = (if log_idle t \<and> 1 \<le> outstanding t then nat (min 30 (lg_size t - 1) - lh_n t) else 0)"

definition log_usable :: "fslog \<Rightarrow> nat \<Rightarrow> bool" where
  "log_usable t b \<longleftrightarrow> b < 2 ^ 31 \<and> int b \<notin> log_area t"

definition log_same :: "fslog \<Rightarrow> fslog \<Rightarrow> bool" where
  "log_same t u \<longleftrightarrow> (log_idle t \<longrightarrow> log_idle u) \<and> disk u = disk t \<and> outstanding u = outstanding t \<and> committing u = committing t \<and>
     lg_start u = lg_start t \<and> lg_size u = lg_size t"

interpretation fs_log: transaction_blocks log_view log_put log_slots log_usable log_same
proof (unfold_locales, goal_cases)
  case (1 t b d)
  have t: "log_idle t" "1 \<le> outstanding t" "lh_n t < 30" "lh_n t < lg_size t - 1" using 1(1) by (auto simp: log_slots_def split: if_splits)
  have b: "is_s32 (int b)" "int b \<notin> log_area t" using 1(2) by (simp_all add: log_usable_def is_s32_def)
  obtain u where u: "log_write (int b) d t = Inr u" "log_idle u" "disk u = disk t" "lg_size u = lg_size t" "outstanding u = outstanding t"
    "committing u = committing t" "lg_start u = lg_start t" "bread_data u = (bread_data t)(int b := d)" "lh_n u \<le> lh_n t + 1"
    using log_write_spec [OF t(1,3,4,2) b, of d] by blast
  have "log_view u = (log_view t)(b := d)" by (rule ext) (simp add: log_view_def u(8))
  moreover have "log_slots t \<le> Suc (log_slots u)" using t u(2,4,5,9) by (auto simp: log_slots_def)
  moreover have "log_usable u = log_usable t" by (rule ext) (simp add: log_usable_def log_area_def u(4,7))
  moreover have "log_same t u" using u by (simp add: log_same_def)
  ultimately show ?case using u(1) by (auto simp: log_put_def)
qed (auto simp: log_same_def)

subsection \<open>Transactions of the file system\<close>

text \<open>A list of block updates of the file system.\<close>

definition put_blks :: "(nat \<times> block) list \<Rightarrow> fsys \<Rightarrow> fsys" where
  "put_blks ups s = fold (\<lambda>(b, d). put_blk b d) ups s"

lemma blk_put_blks: "blk (put_blks ups s) = upd_view ups (blk s)"
  by (induction ups arbitrary: s) (auto simp: put_blks_def upd_view_def put_blk_def)

subsection \<open>Properties\<close>

text \<open>
  C24: the log implements the blocks of the file system. Take a file system state whose blocks are
  what the log's readers see, in an operation that runs alone. Any sequence of block updates of
  the file system that fits in the transaction and stays off the log's own blocks, those that the superblock gives to it, can be made with
  log_write without a panic, its readers then see the updated blocks, the disk is unchanged until
  the end of the operation, and after end_op the disk holds exactly the updated blocks, in every block outside the log.
\<close>

theorem fs_blocks_refine_log:
  assumes "\<forall>b. blk s b = bread_data t (int b)" "log_idle t" "outstanding t = 1" "committing t = 0"
    "int (length ups) \<le> min 30 (lg_size t - 1) - lh_n t" "\<forall>(b, d) \<in> set ups. b < 2 ^ 31 \<and> int b \<notin> log_area t"
  shows "\<exists>t' t''. tx_puts (\<lambda>b. log_write (int b)) ups t = Inr t' \<and> (\<forall>b. blk (put_blks ups s) b = bread_data t' (int b)) \<and> disk t' = disk t \<and>
    end_op t' = Inr (t'', True) \<and> (\<forall>b. int b \<notin> log_area t \<longrightarrow> disk t'' (int b) = blk (put_blks ups s) b)"
proof -
  have w: "(\<lambda>b. log_write (int b)) = log_put" by (simp add: log_put_def fun_eq_iff)
  have v: "log_view t = blk s" using assms(1) by (simp add: log_view_def fun_eq_iff)
  have "length ups \<le> log_slots t" using assms(2,3,5) by (simp add: log_slots_def)
  moreover have "\<forall>(b, d) \<in> set ups. log_usable t b" using assms(6) by (simp add: log_usable_def)
  ultimately obtain t' where t': "tx_puts log_put ups t = Inr t'" "log_view t' = blk (put_blks ups s)" "log_same t t'"
    using fs_log.puts_law [of ups t] unfolding v blk_put_blks by blast
  have T: "log_idle t'" "outstanding t' = 1" "committing t' = 0" "log_area t' = log_area t" "disk t' = disk t"
    using t'(3) assms(2-4) by (simp_all add: log_same_def log_area_def)
  from end_op_last [OF T(1-3)] obtain t'' where "end_op t' = Inr (t'', True)" "\<forall>b. b \<notin> log_area t \<longrightarrow> disk t'' b = bread_data t' b"
    unfolding T(4) by blast
  moreover have "blk (put_blks ups s) b = bread_data t' (int b)" for b using t'(2) by (metis log_view_def)
  ultimately show ?thesis using t'(1) T(5) unfolding w by auto
qed

theorem fs_blocks_refine_log_witness:
  "\<exists>t' t''. tx_puts (\<lambda>b. log_write (int b)) [(33, replicate 512 1)] (sample_log\<lparr>outstanding := 1, committing := 0\<rparr>) = Inr t' \<and>
     end_op t' = Inr (t'', True) \<and> disk t'' 33 = replicate 512 1 \<and> disk t'' 32 = replicate 512 7"
proof -
  let ?t = "sample_log\<lparr>outstanding := 1, committing := 0\<rparr>"
  let ?s = "sample_fs\<lparr>blk := \<lambda>b. bread_data ?t (int b)\<rparr>"
  have h: "\<forall>b. blk ?s b = bread_data ?t (int b)" "outstanding ?t = 1" "committing ?t = 0" by simp_all
  have i: "log_idle ?t" using sample_log_idle by (simp add: log_idle_def log_wf_def tx_blocks_def log_area_def)
  have m: "int (length [(33 :: nat, replicate 512 (1 :: u8))]) \<le> min 30 (lg_size ?t - 1) - lh_n ?t" by (simp add: sample_log_def)
  have u: "\<forall>(b, d) \<in> set [(33 :: nat, replicate 512 (1 :: u8))]. b < 2 ^ 31 \<and> int b \<notin> log_area ?t" by (simp add: log_area_def sample_log_def)
  have a: "int 33 \<notin> log_area ?t" "int 32 \<notin> log_area ?t" by (simp_all add: log_area_def sample_log_def)
  have b: "blk (put_blks [(33, replicate 512 1)] ?s) 33 = replicate 512 1" "blk (put_blks [(33, replicate 512 1)] ?s) 32 = replicate 512 7"
    by (simp_all add: put_blks_def put_blk_def bread_data_def sample_log_def)
  from fs_blocks_refine_log [OF h(1) i h(2,3) m u] obtain t' t'' where
    e: "tx_puts (\<lambda>b. log_write (int b)) [(33, replicate 512 1)] ?t = Inr t'" "end_op t' = Inr (t'', True)"
    and d: "\<forall>b. int b \<notin> log_area ?t \<longrightarrow> disk t'' (int b) = blk (put_blks [(33, replicate 512 1)] ?s) b" by blast
  from d a b have "disk t'' (int 33) = replicate 512 1" "disk t'' (int 32) = replicate 512 7" by metis+
  with e show ?thesis by auto
qed

end
