(* ===== verification/FsInode.thy ===== *)
theory FsInode
  imports FsAlloc
begin

text \<open>
  Inodes (fs.c): their layout on disk, the cache of in-memory inodes with reference counts and
  locks, the block map of a file and its truncation. A pointer to an in-memory inode is its index
  in the cache. \<open>Blocks\<close> is the result of locking an inode that is locked.
\<close>

abbreviation NDIRECT :: nat where "NDIRECT \<equiv> 12"
abbreviation NINDIRECT :: nat where "NINDIRECT \<equiv> 128"
abbreviation NINODE :: nat where "NINODE \<equiv> 50"
abbreviation IPB :: nat where "IPB \<equiv> 8"
abbreviation T_DIR :: int where "T_DIR \<equiv> 1"
abbreviation T_FILE :: int where "T_FILE \<equiv> 2"
abbreviation T_DEV :: int where "T_DEV \<equiv> 3"

definition IBLOCK :: "nat \<Rightarrow> superblock \<Rightarrow> nat" where
  "IBLOCK i sblk = i div IPB + unat (sb_inodestart sblk)"

definition upd_inode :: "nat \<Rightarrow> (inode \<Rightarrow> inode) \<Rightarrow> fsys \<Rightarrow> fsys" where
  "upd_inode i f s = s\<lparr>icache := (icache s)[i := f (icache s ! i)]\<rparr>"

subsection \<open>Inodes on disk\<close>

text \<open>
  The k-th dinode of a block: 64 bytes, the four shorts type, major, minor and nlink, the size and
  thirteen block addresses.
\<close>

definition read_dinode :: "block \<Rightarrow> nat \<Rightarrow> inode \<Rightarrow> inode" where
  "read_dinode d k ip = ip\<lparr>
     i_type := sint (word16 (slice (64 * k) 2 d)), i_major := sint (word16 (slice (64 * k + 2) 2 d)),
     i_minor := sint (word16 (slice (64 * k + 4) 2 d)), i_nlink := sint (word16 (slice (64 * k + 6) 2 d)),
     i_size := word32 (slice (64 * k + 8) 4 d), i_addrs := map (\<lambda>j. word32 (slice (64 * k + 12 + 4 * j) 4 d)) [0..<13]\<rparr>"

definition dinode_bytes :: "inode \<Rightarrow> u8 list" where
  "dinode_bytes ip = bytes16 (word_of_int (i_type ip)) @ bytes16 (word_of_int (i_major ip)) @ bytes16 (word_of_int (i_minor ip)) @
     bytes16 (word_of_int (i_nlink ip)) @ bytes32 (i_size ip) @ concat (map bytes32 (i_addrs ip))"

definition write_dinode :: "inode \<Rightarrow> nat \<Rightarrow> block \<Rightarrow> block" where
  "write_dinode ip k d = splice (64 * k) (dinode_bytes ip) d"

definition iupdate :: "nat \<Rightarrow> fsys \<Rightarrow> fsys" where
  "iupdate i s =
     (let ip = icache s ! i;
          ib = IBLOCK (unat (i_inum ip)) (sb s)
      in put_blk ib (write_dinode ip (unat (i_inum ip) mod IPB) (blk s ib)) s)"

subsection \<open>The inode cache\<close>

text \<open>At start every lock of the cache is free and the super block is read; the message to the console is left out.\<close>

definition iinit :: "fsys \<Rightarrow> fsys" where
  "iinit s = s\<lparr>icache := map (\<lambda>ip. ip\<lparr>i_lock := None\<rparr>) (icache s), sb := readsb s\<rparr>"

definition iget :: "u32 \<Rightarrow> fsys \<Rightarrow> (nat \<times> fsys) res" where
  "iget inum s =
     (case scan_from (\<lambda>ip. 0 < i_ref ip \<and> i_inum ip = inum) 0 (icache s) of
        Some i \<Rightarrow> Inr (i, upd_inode i (\<lambda>ip. ip\<lparr>i_ref := i_ref ip + 1\<rparr>) s)
      | None \<Rightarrow>
          (case scan_from (\<lambda>ip. i_ref ip = 0) 0 (icache s) of
             None \<Rightarrow> Inl (Panic ''iget: no inodes'')
           | Some i \<Rightarrow> Inr (i, upd_inode i (\<lambda>ip. ip\<lparr>i_inum := inum, i_ref := 1, i_valid := False\<rparr>) s)))"

definition idup :: "nat \<Rightarrow> fsys \<Rightarrow> fsys" where
  "idup i s = upd_inode i (\<lambda>ip. ip\<lparr>i_ref := i_ref ip + 1\<rparr>) s"

text \<open>The loop of ialloc over the inode numbers from \<open>inum\<close> on.\<close>

function ialloc_loop :: "nat \<Rightarrow> int \<Rightarrow> fsys \<Rightarrow> (nat \<times> fsys) res" where
  "ialloc_loop inum type s =
     (if inum < unat (sb_ninodes (sb s)) then
        let ib = IBLOCK inum (sb s);
            d = blk s ib;
            k = inum mod IPB
        in if sint (word16 (slice (64 * k) 2 d)) = 0 then
             let d = splice (64 * k) (replicate 64 0) d;
                 d = splice (64 * k) (bytes16 (word_of_int type)) d
             in iget (of_nat inum) (put_blk ib d s)
           else ialloc_loop (inum + 1) type s
      else Inl (Panic ''ialloc: no inodes''))"
  by auto

termination ialloc_loop
  by (relation "measure (\<lambda>(inum, _, s). unat (sb_ninodes (sb s)) - inum)") auto

declare ialloc_loop.simps [simp del]

definition ialloc :: "int \<Rightarrow> fsys \<Rightarrow> (nat \<times> fsys) res" where
  "ialloc type s = ialloc_loop 1 type s"

definition ilock :: "int \<Rightarrow> nat \<Rightarrow> fsys \<Rightarrow> fsys res" where
  "ilock pid i s =
     (if i_ref (icache s ! i) < 1 then Inl (Panic ''ilock'')
      else if i_lock (icache s ! i) \<noteq> None then Inl Blocks
      else
        let s = upd_inode i (\<lambda>ip. ip\<lparr>i_lock := Some pid\<rparr>) s;
            ip = icache s ! i
        in if i_valid ip then Inr s
           else
             let ib = IBLOCK (unat (i_inum ip)) (sb s);
                 s = upd_inode i (\<lambda>ip. (read_dinode (blk s ib) (unat (i_inum ip) mod IPB) ip)\<lparr>i_valid := True\<rparr>) s
             in if i_type (icache s ! i) = 0 then Inl (Panic ''ilock: no type'') else Inr s)"

definition iunlock :: "int \<Rightarrow> nat \<Rightarrow> fsys \<Rightarrow> fsys res" where
  "iunlock pid i s =
     (if i_lock (icache s ! i) \<noteq> Some pid \<or> i_ref (icache s ! i) < 1 then Inl (Panic ''iunlock'')
      else Inr (upd_inode i (\<lambda>ip. ip\<lparr>i_lock := None\<rparr>) s))"

subsection \<open>Contents\<close>

definition bmap :: "nat \<Rightarrow> nat \<Rightarrow> fsys \<Rightarrow> (nat \<times> fsys) res" where
  "bmap i bn s =
     (if bn < NDIRECT then
        let addr = i_addrs (icache s ! i) ! bn in
        if addr = 0 then
          bindR (balloc s) (\<lambda>(a, s).
            Inr (a, upd_inode i (\<lambda>ip. ip\<lparr>i_addrs := (i_addrs ip)[bn := of_nat a]\<rparr>) s))
        else Inr (unat addr, s)
      else if bn - NDIRECT < NINDIRECT then
        let bn = bn - NDIRECT in
        bindR (let addr = i_addrs (icache s ! i) ! NDIRECT in
               if addr = 0 then
                 bindR (balloc s) (\<lambda>(a, s).
                   Inr (a, upd_inode i (\<lambda>ip. ip\<lparr>i_addrs := (i_addrs ip)[NDIRECT := of_nat a]\<rparr>) s))
               else Inr (unat addr, s))
        (\<lambda>(ind, s).
          let addr = get32 (blk s ind) bn in
          if addr = 0 then
            bindR (balloc s) (\<lambda>(a, s). Inr (a, put_blk ind (put32 (blk s ind) bn (of_nat a)) s))
          else Inr (unat addr, s))
      else Inl (Panic ''bmap: out of range''))"

text \<open>The two loops of itrunc.\<close>

definition trunc_direct :: "nat \<Rightarrow> nat \<Rightarrow> fsys \<Rightarrow> fsys res" where
  "trunc_direct i k s =
     (let addr = i_addrs (icache s ! i) ! k in
      if addr \<noteq> 0 then bindR (bfree (unat addr) s) (\<lambda>s. Inr (upd_inode i (\<lambda>ip. ip\<lparr>i_addrs := (i_addrs ip)[k := 0]\<rparr>) s))
      else Inr s)"

definition trunc_indirect :: "block \<Rightarrow> nat \<Rightarrow> fsys \<Rightarrow> fsys res" where
  "trunc_indirect a j s = (if get32 a j \<noteq> 0 then bfree (unat (get32 a j)) s else Inr s)"

definition itrunc :: "nat \<Rightarrow> fsys \<Rightarrow> fsys res" where
  "itrunc i s =
     bindR (forR [0..<NDIRECT] (trunc_direct i) s) (\<lambda>s.
     bindR (let addr = i_addrs (icache s ! i) ! NDIRECT in
            if addr \<noteq> 0 then
              bindR (forR [0..<NINDIRECT] (trunc_indirect (blk s (unat addr))) s) (\<lambda>s.
              bindR (bfree (unat addr) s) (\<lambda>s.
                Inr (upd_inode i (\<lambda>ip. ip\<lparr>i_addrs := (i_addrs ip)[NDIRECT := 0]\<rparr>) s)))
            else Inr s) (\<lambda>s.
     Inr (iupdate i (upd_inode i (\<lambda>ip. ip\<lparr>i_size := 0\<rparr>) s))))"

definition iput :: "int \<Rightarrow> nat \<Rightarrow> fsys \<Rightarrow> fsys res" where
  "iput pid i s =
     (if i_lock (icache s ! i) \<noteq> None then Inl Blocks
      else
        bindR (let ip = icache s ! i in
               if i_valid ip \<and> i_nlink ip = 0 \<and> i_ref ip = 1 then
                 bindR (itrunc i s) (\<lambda>s.
                   let s = iupdate i (upd_inode i (\<lambda>ip. ip\<lparr>i_type := 0\<rparr>) s)
                   in Inr (upd_inode i (\<lambda>ip. ip\<lparr>i_valid := False\<rparr>) s))
               else Inr s) (\<lambda>s.
        Inr (upd_inode i (\<lambda>ip. ip\<lparr>i_ref := i_ref ip - 1\<rparr>) s)))"

definition iunlockput :: "int \<Rightarrow> nat \<Rightarrow> fsys \<Rightarrow> fsys res" where
  "iunlockput pid i s = bindR (iunlock pid i s) (iput pid i)"

record stat =
  st_type :: int
  st_dev :: int
  st_ino :: u32
  st_nlink :: int
  st_size :: u32

definition stati :: "nat \<Rightarrow> fsys \<Rightarrow> stat" where
  "stati i s = (let ip = icache s ! i in \<lparr>st_type = i_type ip, st_dev = 1, st_ino = i_inum ip, st_nlink = i_nlink ip, st_size = i_size ip\<rparr>)"

subsection \<open>Inodes survive the disk\<close>

lemma length_dinode_bytes [simp]: "length (i_addrs ip) = 13 \<Longrightarrow> length (dinode_bytes ip) = 64"
proof -
  assume l: "length (i_addrs ip) = 13"
  have "length (concat (map bytes32 ws)) = 4 * length ws" for ws by (induction ws) simp_all
  with l show ?thesis by (simp add: dinode_bytes_def)
qed

lemma slice_concat_bytes32: "j < length ws \<Longrightarrow> slice (4 * j) 4 (concat (map bytes32 ws)) = bytes32 (ws ! j)"
  by (induction ws arbitrary: j) (auto simp: slice_def nth_Cons split: nat.split)

lemma slice_slice: "o1 + n1 \<le> n \<Longrightarrow> off + n \<le> length d \<Longrightarrow> slice (off + o1) n1 d = slice o1 n1 (slice off n d)"
  by (simp add: slice_def drop_take min_def add.commute)

definition inode_shorts :: "inode \<Rightarrow> bool" where
  "inode_shorts ip \<longleftrightarrow> is_s16 (i_type ip) \<and> is_s16 (i_major ip) \<and> is_s16 (i_minor ip) \<and> is_s16 (i_nlink ip) \<and> length (i_addrs ip) = 13"

lemma dinode_fields:
  assumes "length (i_addrs ip) = 13"
  shows "slice 0 2 (dinode_bytes ip) = bytes16 (word_of_int (i_type ip))" "slice 2 2 (dinode_bytes ip) = bytes16 (word_of_int (i_major ip))"
    "slice 4 2 (dinode_bytes ip) = bytes16 (word_of_int (i_minor ip))" "slice 6 2 (dinode_bytes ip) = bytes16 (word_of_int (i_nlink ip))"
    "slice 8 4 (dinode_bytes ip) = bytes32 (i_size ip)" "\<And>j. j < 13 \<Longrightarrow> slice (12 + 4 * j) 4 (dinode_bytes ip) = bytes32 (i_addrs ip ! j)"
proof -
  show "slice (12 + 4 * j) 4 (dinode_bytes ip) = bytes32 (i_addrs ip ! j)" if "j < 13" for j
    using slice_concat_bytes32 [of j "i_addrs ip"] that assms by (simp add: slice_def dinode_bytes_def)
qed (simp_all add: slice_def dinode_bytes_def)

lemma dinode_roundtrip:
  assumes "inode_shorts ip" "64 * k + 64 \<le> length d"
  shows "read_dinode (write_dinode ip k d) k ip' = ip'\<lparr>i_type := i_type ip, i_major := i_major ip, i_minor := i_minor ip,
     i_nlink := i_nlink ip, i_size := i_size ip, i_addrs := i_addrs ip\<rparr>"
proof -
  have l: "length (i_addrs ip) = 13" using assms(1) by (simp add: inode_shorts_def)
  let ?w = "write_dinode ip k d"
  have s: "slice (64 * k) 64 ?w = dinode_bytes ip" using l assms(2) by (simp add: write_dinode_def slice_splice_same)
  have len: "length ?w = length d" using l assms(2) by (simp add: write_dinode_def)
  have f: "slice (64 * k + o1) n1 ?w = slice o1 n1 (dinode_bytes ip)" if "o1 + n1 \<le> 64" for o1 n1
    using slice_slice [OF that, of "64 * k" ?w] s len assms(2) by simp
  have f0: "slice (64 * k) 2 ?w = slice 0 2 (dinode_bytes ip)" using f [of 0 2] by simp
  have f2: "slice (64 * k + 2) 2 ?w = slice 2 2 (dinode_bytes ip)" by (rule f) simp
  have a: "map (\<lambda>j. word32 (slice (64 * k + 12 + 4 * j) 4 ?w)) [0..<13] = i_addrs ip"
  proof (rule nth_equalityI)
    fix j assume "j < length (map (\<lambda>j. word32 (slice (64 * k + 12 + 4 * j) 4 ?w)) [0..<13])"
    then have j: "j < 13" by simp
    then have "slice (64 * k + (12 + 4 * j)) 4 ?w = bytes32 (i_addrs ip ! j)" using f [of "12 + 4 * j" 4] dinode_fields(6) [OF l j] by simp
    then show "map (\<lambda>j. word32 (slice (64 * k + 12 + 4 * j) 4 ?w)) [0..<13] ! j = i_addrs ip ! j" using j by (simp add: add.assoc)
  qed (use l in simp)
  show ?thesis
    using assms(1) unfolding read_dinode_def a f0 f2 by (simp add: f dinode_fields [OF l] inode_shorts_def sint_word_of_int_s16)
qed

lemma dinode_other:
  assumes "length (i_addrs ip) = 13" "64 * k + 64 \<le> length d" "64 * k' + 64 \<le> length d" "k \<noteq> k'"
  shows "read_dinode (write_dinode ip k d) k' ip' = read_dinode d k' ip'"
proof -
  have "slice (64 * k' + o1) n1 (write_dinode ip k d) = slice (64 * k' + o1) n1 d" if "o1 + n1 \<le> 64" for o1 n1
  proof -
    consider "64 * k + 64 \<le> 64 * k'" | "64 * k' + 64 \<le> 64 * k" using assms(4) by (metis Suc_leI linorder_neqE_nat mult_Suc_right mult_le_mono2 add.commute)
    then show ?thesis unfolding write_dinode_def using assms(1-3) that by cases (auto intro!: slice_splice_other)
  qed
  from this [of 0 2] this [of 2 2] this [of 4 2] this [of 6 2] this [of 8 4] this [of "12 + 4 * _" 4]
  show ?thesis by (simp add: read_dinode_def add.assoc)
qed

end
