(* ===== verification/FsFile.thy ===== *)
theory FsFile
  imports FsInode
begin

text \<open>
  File contents (fs.c: bmap, readi, writei, itrunc). The contents of a file are the function that
  gives the byte at an offset through the block map, zero where no block is allocated. The lemmas
  show that bmap does not change them, that a write changes the bytes it should in this file and
  none in any other, that a read returns them, and that truncation frees exactly the blocks of
  the file.
\<close>

abbreviation MAXFILE :: nat where "MAXFILE \<equiv> 140"

subsection \<open>Reading and writing\<close>

text \<open>The loop of readi: n bytes from offset \<open>off\<close>.\<close>

function readi_loop :: "nat \<Rightarrow> nat \<Rightarrow> nat \<Rightarrow> u8 list \<Rightarrow> fsys \<Rightarrow> (u8 list \<times> fsys) res" where
  "readi_loop i off n dst s =
     (if n = 0 then Inr (dst, s)
      else bindR (bmap i (off div BSIZE) s) (\<lambda>(a, s).
        let m = min n (BSIZE - off mod BSIZE)
        in readi_loop i (off + m) (n - m) (dst @ slice (off mod BSIZE) m (blk s a)) s))"
  by auto

termination readi_loop
  by (relation "measure (\<lambda>(_, _, n, _, _). n)") (auto simp: min_def)

declare readi_loop.simps [simp del]

text \<open>The device switch gives the driver of a major number, if there is one.\<close>

definition readi ::
  "(int \<Rightarrow> (nat \<Rightarrow> u32 \<Rightarrow> fsys \<Rightarrow> (int \<times> u8 list \<times> fsys) res) option) \<Rightarrow> nat \<Rightarrow> u32 \<Rightarrow> u32 \<Rightarrow> fsys \<Rightarrow> (int \<times> u8 list \<times> fsys) res" where
  "readi devsw i off n s =
     (let ip = icache s ! i in
      if i_type ip = T_DEV then
        (if i_major ip < 0 \<or> 10 \<le> i_major ip then Inr (-1, [], s)
         else case devsw (i_major ip) of None \<Rightarrow> Inr (-1, [], s) | Some rd \<Rightarrow> rd i n s)
      else if i_size ip < off \<or> off + n < off then Inr (-1, [], s)
      else
        let n = (if i_size ip < off + n then i_size ip - off else n)
        in bindR (readi_loop i (unat off) (unat n) [] s) (\<lambda>(dst, s). Inr (uint n, dst, s)))"

function writei_loop :: "nat \<Rightarrow> nat \<Rightarrow> u8 list \<Rightarrow> fsys \<Rightarrow> fsys res" where
  "writei_loop i off src s =
     (if src = [] then Inr s
      else bindR (bmap i (off div BSIZE) s) (\<lambda>(a, s).
        let m = min (length src) (BSIZE - off mod BSIZE)
        in writei_loop i (off + m) (drop m src) (put_blk a (splice (off mod BSIZE) (take m src) (blk s a)) s)))"
  by auto

termination writei_loop
  by (relation "measure (\<lambda>(_, _, src, _). length src)") (auto simp: min_def)

declare writei_loop.simps [simp del]

definition writei ::
  "(int \<Rightarrow> (nat \<Rightarrow> u8 list \<Rightarrow> u32 \<Rightarrow> fsys \<Rightarrow> (int \<times> fsys) res) option) \<Rightarrow> nat \<Rightarrow> u8 list \<Rightarrow> u32 \<Rightarrow> u32 \<Rightarrow> fsys \<Rightarrow> (int \<times> fsys) res" where
  "writei devsw i src off n s =
     (let ip = icache s ! i in
      if i_type ip = T_DEV then
        (if i_major ip < 0 \<or> 10 \<le> i_major ip then Inr (-1, s)
         else case devsw (i_major ip) of None \<Rightarrow> Inr (-1, s) | Some wr \<Rightarrow> wr i src n s)
      else if i_size ip < off \<or> off + n < off then Inr (-1, s)
      else if of_nat (MAXFILE * BSIZE) < off + n then Inr (-1, s)
      else if length src < unat n then Inl Bounds
      else
        bindR (writei_loop i (unat off) (take (unat n) src) s) (\<lambda>s.
          let off = off + n
          in Inr (uint n, if 0 < n \<and> i_size (icache s ! i) < off
                          then iupdate i (upd_inode i (\<lambda>ip. ip\<lparr>i_size := off\<rparr>) s) else s)))"

subsection \<open>The contents of a file\<close>

definition faddr :: "fsys \<Rightarrow> inode \<Rightarrow> nat \<Rightarrow> nat" where
  "faddr s ip bn =
     (if bn < NDIRECT then unat (i_addrs ip ! bn)
      else if i_addrs ip ! NDIRECT = 0 then 0
      else unat (get32 (blk s (unat (i_addrs ip ! NDIRECT))) (bn - NDIRECT)))"

definition fcont :: "fsys \<Rightarrow> inode \<Rightarrow> nat \<Rightarrow> u8" where
  "fcont s ip p = (let a = faddr s ip (p div BSIZE) in if a = 0 then 0 else blk s a ! (p mod BSIZE))"

definition file_data :: "fsys \<Rightarrow> inode \<Rightarrow> u8 list" where
  "file_data s ip = map (fcont s ip) [0..<unat (i_size ip)]"

definition ind_block :: "inode \<Rightarrow> nat" where
  "ind_block ip = unat (i_addrs ip ! NDIRECT)"

definition file_blocks :: "fsys \<Rightarrow> inode \<Rightarrow> nat set" where
  "file_blocks s ip = {b. b \<noteq> 0 \<and> ((\<exists>bn < MAXFILE. faddr s ip bn = b) \<or> b = ind_block ip)}"

definition file_ok :: "fsys \<Rightarrow> inode \<Rightarrow> bool" where
  "file_ok s ip \<longleftrightarrow> length (i_addrs ip) = 13 \<and>
     (\<forall>b \<in> file_blocks s ip. data_start s \<le> b \<and> b < fs_size s \<and> used s b) \<and>
     (\<forall>m < MAXFILE. \<forall>n < MAXFILE. faddr s ip m = faddr s ip n \<longrightarrow> faddr s ip m \<noteq> 0 \<longrightarrow> m = n) \<and>
     (\<forall>m < MAXFILE. faddr s ip m \<noteq> 0 \<longrightarrow> faddr s ip m \<noteq> ind_block ip)"

lemma file_okD:
  assumes "file_ok s ip"
  shows "length (i_addrs ip) = 13" "b \<in> file_blocks s ip \<Longrightarrow> data_start s \<le> b" "b \<in> file_blocks s ip \<Longrightarrow> b < fs_size s"
    "b \<in> file_blocks s ip \<Longrightarrow> used s b"
    "m < MAXFILE \<Longrightarrow> n < MAXFILE \<Longrightarrow> faddr s ip m = faddr s ip n \<Longrightarrow> faddr s ip m \<noteq> 0 \<Longrightarrow> m = n"
    "m < MAXFILE \<Longrightarrow> faddr s ip m \<noteq> 0 \<Longrightarrow> faddr s ip m \<noteq> ind_block ip"
  using assms unfolding file_ok_def by blast+

lemma faddr_in: "bn < MAXFILE \<Longrightarrow> faddr s ip bn \<noteq> 0 \<Longrightarrow> faddr s ip bn \<in> file_blocks s ip"
  by (auto simp: file_blocks_def)

lemma ind_in: "ind_block ip \<noteq> 0 \<Longrightarrow> ind_block ip \<in> file_blocks s ip"
  by (simp add: file_blocks_def)

text \<open>What a step of one file may change: only free blocks and blocks of the file.\<close>

definition extends :: "nat \<Rightarrow> fsys \<Rightarrow> fsys \<Rightarrow> bool" where
  "extends i s s' \<longleftrightarrow> sb s' = sb s \<and> length (icache s') = length (icache s) \<and> (\<forall>j. j \<noteq> i \<longrightarrow> icache s' ! j = icache s ! j) \<and>
     (\<exists>a. icache s' ! i = (icache s ! i)\<lparr>i_addrs := a\<rparr>) \<and> (\<forall>b < fs_size s. used s b \<longrightarrow> used s' b) \<and>
     (\<forall>b \<in> file_blocks s' (icache s' ! i). b \<in> file_blocks s (icache s ! i) \<or> b < fs_size s \<and> \<not> used s b) \<and>
     (\<forall>b. data_start s \<le> b \<longrightarrow> b < fs_size s \<longrightarrow> used s b \<longrightarrow> b \<notin> file_blocks s (icache s ! i) \<longrightarrow> blk s' b = blk s b) \<and>
     (\<forall>b < unat (sb_bmapstart (sb s)). blk s' b = blk s b)"

lemma extendsD:
  assumes "extends i s s'"
  shows "sb s' = sb s" "length (icache s') = length (icache s)" "j \<noteq> i \<Longrightarrow> icache s' ! j = icache s ! j"
    "\<exists>a. icache s' ! i = (icache s ! i)\<lparr>i_addrs := a\<rparr>" "b < fs_size s \<Longrightarrow> used s b \<Longrightarrow> used s' b"
    "b \<in> file_blocks s' (icache s' ! i) \<Longrightarrow> b \<in> file_blocks s (icache s ! i) \<or> b < fs_size s \<and> \<not> used s b"
    "data_start s \<le> b \<Longrightarrow> b < fs_size s \<Longrightarrow> used s b \<Longrightarrow> b \<notin> file_blocks s (icache s ! i) \<Longrightarrow> blk s' b = blk s b"
    "b < unat (sb_bmapstart (sb s)) \<Longrightarrow> blk s' b = blk s b" "data_start s' = data_start s"
  using assms unfolding extends_def data_start_def by (blast | simp)+

lemma data_start_sb: "sb s' = sb s \<Longrightarrow> data_start s' = data_start s"
  by (simp add: data_start_def)

lemma extends_refl: "extends i s s"
  unfolding extends_def by (auto intro!: exI [of _ "i_addrs (icache s ! i)"])

lemma extends_trans:
  assumes st: "extends i s t" and tu: "extends i t u"
  shows "extends i s u"
proof -
  note D = extendsD [OF st] and E = extendsD [OF tu]
  have sz: "sb t = sb s" "data_start t = data_start s" using D(1,9) by simp_all
  have blocks: "b \<in> file_blocks s (icache s ! i) \<or> b < fs_size s \<and> \<not> used s b" if "b \<in> file_blocks u (icache u ! i)" for b
    using E(6) [OF that] D(6) [of b] D(5) [of b] sz by auto
  have out: "blk u b = blk s b" if "data_start s \<le> b" "b < fs_size s" "used s b" "b \<notin> file_blocks s (icache s ! i)" for b
    using D(5) [of b] D(6) [of b] D(7) [of b] E(7) [of b] that sz by auto
  obtain a where "icache u ! i = (icache s ! i)\<lparr>i_addrs := a\<rparr>" using D(4) E(4) by auto
  moreover have "icache u ! j = icache s ! j" if "j \<noteq> i" for j using D(3) E(3) that by simp
  moreover have "used u b" if "b < fs_size s" "used s b" for b using D(5) E(5) that sz by simp
  moreover have "blk u b = blk s b" if "b < unat (sb_bmapstart (sb s))" for b using D(8) E(8) that sz by simp
  ultimately show ?thesis using D(1,2) E(1,2) blocks out unfolding extends_def by auto
qed

subsection \<open>The block map\<close>

text \<open>A step that keeps the contents of file i.\<close>

definition keeps_file :: "nat \<Rightarrow> fsys \<Rightarrow> fsys \<Rightarrow> bool" where
  "keeps_file i s s' \<longleftrightarrow> layout_ok s' \<and> file_ok s' (icache s' ! i) \<and> extends i s s' \<and>
     (\<forall>p < MAXFILE * BSIZE. fcont s' (icache s' ! i) p = fcont s (icache s ! i) p) \<and>
     (\<forall>m < MAXFILE. faddr s (icache s ! i) m \<noteq> 0 \<longrightarrow> faddr s' (icache s' ! i) m \<noteq> 0)"

lemma keeps_refl: "layout_ok s \<Longrightarrow> file_ok s (icache s ! i) \<Longrightarrow> keeps_file i s s"
  by (simp add: keeps_file_def extends_refl)

lemma keeps_trans: "keeps_file i s t \<Longrightarrow> keeps_file i t u \<Longrightarrow> keeps_file i s u"
  unfolding keeps_file_def using extends_trans by fastforce

text \<open>
  One freshly allocated block a becomes the file's block k, or its indirect block (then k is not
  the number of a block).
\<close>

lemma new_block:
  assumes lay: "layout_ok s" and ok: "file_ok s (icache s ! i)" and al: "allocated s a t"
    and s': "sb s' = sb s" "layout_ok s'" "length (icache s') = length (icache s)" "\<And>j. j \<noteq> i \<Longrightarrow> icache s' ! j = icache s ! j"
    and ip: "icache s' ! i = (icache s ! i)\<lparr>i_addrs := as\<rparr>" "length as = 13"
    and us: "\<And>c. c < fs_size s \<Longrightarrow> used s' c \<longleftrightarrow> c = a \<or> used s c"
    and fa: "\<And>m. m < MAXFILE \<Longrightarrow> faddr s' (icache s' ! i) m = (if m = k then a else faddr s (icache s ! i) m)"
    and k: "k < MAXFILE \<Longrightarrow> faddr s (icache s ! i) k = 0"
    and ind: "unat (as ! NDIRECT) = (if k < MAXFILE then ind_block (icache s ! i) else a)"
      "k \<ge> MAXFILE \<Longrightarrow> ind_block (icache s ! i) = 0"
    and bl: "\<And>b. b \<noteq> a \<Longrightarrow> b \<noteq> ind_block (icache s ! i) \<or> b = 0 \<Longrightarrow> b < unat (sb_bmapstart (sb s)) \<or> data_start s \<le> b \<Longrightarrow> blk s' b = blk s b"
      "blk s' a = replicate BSIZE 0"
  shows "keeps_file i s s'"
proof -
  let ?ip = "icache s ! i" and ?ip' = "icache s' ! i"
  note A = allocatedD [OF al] and F = file_okD [OF ok]
  have ds: "data_start s' = data_start s" by (rule data_start_sb) (rule s'(1))
  have a0: "a \<noteq> 0" using A(1) by (auto simp: data_start_def)
  have na: "b \<noteq> a" if "b \<in> file_blocks s ?ip" for b using F(4) [OF that] A(3) by auto
  have ind': "ind_block ?ip' = (if k < MAXFILE then ind_block ?ip else a)" using ind(1) ip by (simp add: ind_block_def)
  have fb: "b \<in> file_blocks s ?ip \<or> b = a" if "b \<in> file_blocks s' ?ip'" for b
    using that fa ind' unfolding file_blocks_def by (auto split: if_splits)
  have range: "data_start s \<le> b \<and> b < fs_size s \<and> used s' b" if "b \<in> file_blocks s' ?ip'" for b
  proof (cases "b = a")
    case True
    then show ?thesis using A(1,2) us by simp
  next
    case False
    then have b: "b \<in> file_blocks s ?ip" using fb [OF that] by simp
    show ?thesis using F(2,3,4) [OF b] us by simp
  qed
  have old: "faddr s ?ip m \<noteq> a" if "m < MAXFILE" for m using na [OF faddr_in [OF that]] a0 by auto
  have inda: "ind_block ?ip \<noteq> a" using na [OF ind_in] a0 by auto
  have inj: "m = n" if m: "m < MAXFILE" "n < MAXFILE" "faddr s' ?ip' m = faddr s' ?ip' n" "faddr s' ?ip' m \<noteq> 0" for m n
    using m(3,4) old [OF m(1)] old [OF m(2)] F(5) [OF m(1,2)] unfolding fa [OF m(1)] fa [OF m(2)] by (auto split: if_splits)
  have sep: "faddr s' ?ip' m \<noteq> ind_block ?ip'" if m: "m < MAXFILE" "faddr s' ?ip' m \<noteq> 0" for m
    using m(2) old [OF m(1)] inda F(6) [OF m(1)] ind' m(1) unfolding fa [OF m(1)] by (auto split: if_splits)
  have len: "length (i_addrs ?ip') = 13" using ip by simp
  have ok': "file_ok s' ?ip'"
    unfolding file_ok_def s'(1) ds using len range inj sep by blast
  have ext: "extends i s s'"
    unfolding extends_def
  proof (intro conjI allI ballI impI)
    show "\<exists>a. ?ip' = ?ip\<lparr>i_addrs := a\<rparr>" using ip(1) by blast
    show "used s' b" if "b < fs_size s" "used s b" for b using us that by blast
    show "b \<in> file_blocks s ?ip \<or> b < fs_size s \<and> \<not> used s b" if "b \<in> file_blocks s' ?ip'" for b
      using fb [OF that] A(2,3) by auto
    show "blk s' b = blk s b" if b: "data_start s \<le> b" "b < fs_size s" "used s b" "b \<notin> file_blocks s ?ip" for b
    proof (rule bl(1))
      show "b \<noteq> a" using b(3) A(3) by auto
      have "b \<noteq> 0" using b(1) by (auto simp: data_start_def)
      then show "b \<noteq> ind_block ?ip \<or> b = 0" using b(4) ind_in by auto
    qed (use b(1) in simp)
    show "blk s' b = blk s b" if b: "b < unat (sb_bmapstart (sb s))" for b
    proof (rule bl(1))
      have lt: "b < data_start s" using b by (simp add: data_start_def)
      then show "b \<noteq> a" using A(1) by auto
      show "b \<noteq> ind_block ?ip \<or> b = 0" using lt F(2) [OF ind_in] by (metis not_less)
    qed (use b in simp)
  qed (use s' in simp_all)
  have "fcont s' ?ip' p = fcont s ?ip p" if p: "p < MAXFILE * BSIZE" for p
  proof -
    have m: "p div BSIZE < MAXFILE" using p by (simp add: less_mult_imp_div_less)
    show ?thesis
    proof (cases "p div BSIZE = k")
      case True
      then show ?thesis using fa [OF m] k m bl(2) a0 by (simp add: fcont_def)
    next
      case False
      then have e: "faddr s' ?ip' (p div BSIZE) = faddr s ?ip (p div BSIZE)" using fa [OF m] by simp
      show ?thesis
      proof (cases "faddr s ?ip (p div BSIZE) = 0")
        case False
        have "blk s' (faddr s ?ip (p div BSIZE)) = blk s (faddr s ?ip (p div BSIZE))"
          using old [OF m] F(6) [OF m False] F(2) [OF faddr_in [OF m False]] by (intro bl(1)) auto
        with e show ?thesis by (simp add: fcont_def Let_def)
      qed (simp add: fcont_def e)
    qed
  qed
  moreover have "faddr s' ?ip' m \<noteq> 0" if "m < MAXFILE" "faddr s ?ip m \<noteq> 0" for m using fa [OF that(1)] that a0 by simp
  ultimately show ?thesis using s'(2) ok' ext by (simp add: keeps_file_def)
qed

lemma get32_zero_block: "get32 (replicate BSIZE 0) j = 0" if "j < NINDIRECT"
proof -
  have "take 4 (drop (4 * j) (replicate BSIZE 0)) = replicate 4 (0 :: u8)" using that by (simp add: min_def)
  then show ?thesis by (simp add: get32_def word32_def)
qed

lemma unat_of_block: "b < fs_size s \<Longrightarrow> unat (of_nat b :: u32) = b"
  using unsigned_less [of "sb_size (sb s)", where 'a = nat] unat_of_nat_id [of b, where 'a = 32] by simp

lemma used_cong: "sb s' = sb s \<Longrightarrow> blk s' = blk s \<Longrightarrow> used s' = used s"
  by (simp add: used_def fun_eq_iff)

lemma layout_cong: "sb s' = sb s \<Longrightarrow> blk s' = blk s \<Longrightarrow> layout_ok s' = layout_ok s"
  using used_cong [of s' s] data_start_sb [of s' s] by (simp add: layout_ok_def)

lemma upd_inode_simps [simp]:
  "sb (upd_inode i f s) = sb s" "blk (upd_inode i f s) = blk s" "length (icache (upd_inode i f s)) = length (icache s)"
  "i < length (icache s) \<Longrightarrow> icache (upd_inode i f s) ! j = (if j = i then f (icache s ! i) else icache s ! j)"
  by (simp_all add: upd_inode_def nth_list_update)

lemma put_blk_simps [simp]:
  "sb (put_blk b d s) = sb s" "icache (put_blk b d s) = icache s" "blk (put_blk b d s) = (blk s)(b := d)"
  by (simp_all add: put_blk_def)

text \<open>An address entered in the inode: a direct block, or the indirect block.\<close>

lemma new_direct:
  assumes lay: "layout_ok s" and ok: "file_ok s (icache s ! i)" and al: "allocated s a t" and i: "i < length (icache s)"
    and k: "k \<le> NDIRECT" "i_addrs (icache s ! i) ! k = 0"
  shows "keeps_file i s (upd_inode i (\<lambda>ip. ip\<lparr>i_addrs := (i_addrs ip)[k := of_nat a]\<rparr>) t)" (is "keeps_file i s ?s'")
proof (rule new_block [OF lay ok al, where k = "if k = NDIRECT then MAXFILE else k" and as = "(i_addrs (icache s ! i))[k := of_nat a]"])
  let ?ip = "icache s ! i"
  note A = allocatedD [OF al] and F = file_okD [OF ok]
  have ua: "unat (of_nat a :: u32) = a" using A(2) by (rule unat_of_block)
  have ip': "icache ?s' ! i = ?ip\<lparr>i_addrs := (i_addrs ?ip)[k := of_nat a]\<rparr>" using A(6) i by simp
  show "layout_ok ?s'" using A(4) layout_cong [of ?s' t] by simp
  show "used ?s' c \<longleftrightarrow> c = a \<or> used s c" if "c < fs_size s" for c using A(7) [OF that] used_cong [of ?s' t] by simp
  show "sb ?s' = sb s" "length (icache ?s') = length (icache s)" "\<And>j. j \<noteq> i \<Longrightarrow> icache ?s' ! j = icache s ! j" using A i by simp_all
  show "length ((i_addrs ?ip)[k := of_nat a]) = 13" using F(1) by simp
  show "icache ?s' ! i = ?ip\<lparr>i_addrs := (i_addrs ?ip)[k := of_nat a]\<rparr>" by (rule ip')
  show "blk ?s' a = replicate BSIZE 0" using A(8) by simp
  show "blk ?s' b = blk s b" if "b \<noteq> a" "b < unat (sb_bmapstart (sb s)) \<or> data_start s \<le> b" for b using A(10) [OF that] by simp
  have ind: "blk t (ind_block ?ip) = blk s (ind_block ?ip)" if "ind_block ?ip \<noteq> 0"
    using F(2,4) [OF ind_in [OF that]] A(3) by (intro A(10)) auto
  show "faddr ?s' (icache ?s' ! i) m = (if m = (if k = NDIRECT then MAXFILE else k) then a else faddr s ?ip m)" if "m < MAXFILE" for m
  proof (cases "k = NDIRECT")
    case True
    have "get32 (blk t a) (m - NDIRECT) = 0" if "\<not> m < NDIRECT" using A(8) get32_zero_block [of "m - NDIRECT"] \<open>m < MAXFILE\<close> that by simp
    with True k(2) F(1) ua \<open>m < MAXFILE\<close> show ?thesis unfolding ip' by (auto simp: faddr_def)
  next
    case False
    have "blk t (unat (i_addrs ?ip ! NDIRECT)) = blk s (unat (i_addrs ?ip ! NDIRECT))" if "i_addrs ?ip ! NDIRECT \<noteq> 0"
      using ind that by (simp add: ind_block_def unat_eq_zero)
    with False k ua F(1) show ?thesis unfolding ip' by (auto simp: faddr_def nth_list_update)
  qed
  show "faddr s ?ip (if k = NDIRECT then MAXFILE else k) = 0" if "(if k = NDIRECT then MAXFILE else k) < MAXFILE"
    using that k by (auto simp: faddr_def split: if_splits)
  show "unat ((i_addrs ?ip)[k := of_nat a] ! NDIRECT) = (if (if k = NDIRECT then MAXFILE else k) < MAXFILE then ind_block ?ip else a)"
    using k F(1) ua by (auto simp: ind_block_def nth_list_update)
  show "ind_block ?ip = 0" if "MAXFILE \<le> (if k = NDIRECT then MAXFILE else k)"
    using that k by (auto simp: ind_block_def split: if_splits)
qed

text \<open>An address entered in the indirect block.\<close>

lemma new_indirect:
  assumes lay: "layout_ok s" and ok: "file_ok s (icache s ! i)" and al: "allocated s a t" and i: "i < length (icache s)"
    and ind: "ind_block (icache s ! i) = ib" "ib \<noteq> 0" and j: "j < NINDIRECT" "get32 (blk s ib) j = 0"
  shows "keeps_file i s (put_blk ib (put32 (blk t ib) j (of_nat a)) t)" (is "keeps_file i s ?s'")
    "faddr (put_blk ib (put32 (blk t ib) j (of_nat a)) t) (icache s ! i) (j + NDIRECT) = a"
proof -
  let ?ip = "icache s ! i"
  note A = allocatedD [OF al] and F = file_okD [OF ok]
  have ua: "unat (of_nat a :: u32) = a" using A(2) by (rule unat_of_block)
  have ibin: "ib \<in> file_blocks s ?ip" using ind ind_in by blast
  note B = F(2,3,4) [OF ibin]
  have iba: "ib \<noteq> a" using B(3) A(3) by auto
  have blt: "blk t ib = blk s ib" using B(1) iba by (intro A(10)) auto
  have len: "length (blk s c) = BSIZE" "length (blk t c) = BSIZE" for c using lay A(4) by (simp_all add: layout_ok_def)
  have bits: "ib \<noteq> BBLOCK c (sb t)" if "c < fs_size t" for c using BBLOCK_meta [of c s] that A(5) B(1) by auto
  have us: "used ?s' c \<longleftrightarrow> used t c" if "c < fs_size s" for c using used_put_data [of t ib c] bits that A(5) by simp
  have ds: "data_start ?s' = data_start t" by (rule data_start_sb) simp
  have lay': "layout_ok ?s'"
    using A(4) us A(5,9) len length_put32 [of j "blk t ib"] j(1) unfolding layout_ok_def ds by auto
  have g: "get32 (put32 (blk t ib) j (of_nat a)) m = (if j = m then of_nat a else get32 (blk s ib) m)" for m
    using j len(2) [of ib] by (simp add: get32_put32 blt)
  have ibw: "i_addrs ?ip ! NDIRECT \<noteq> 0" "unat (i_addrs ?ip ! NDIRECT) = ib" using ind by (auto simp: ind_block_def)
  have fa: "faddr ?s' ?ip m = (if m = j + NDIRECT then a else faddr s ?ip m)" if "m < MAXFILE" for m
    using ibw ua g [of "m - NDIRECT"] that by (auto simp: faddr_def)
  then show "faddr ?s' ?ip (j + NDIRECT) = a" using j by simp
  show "keeps_file i s ?s'"
  proof (rule new_block [OF lay ok al, where k = "j + NDIRECT" and as = "i_addrs ?ip"])
    show "blk ?s' a = replicate BSIZE 0" using A(8) iba by simp
    show "blk ?s' b = blk s b" if "b \<noteq> a" "b \<noteq> ind_block ?ip \<or> b = 0" "b < unat (sb_bmapstart (sb s)) \<or> data_start s \<le> b" for b
      using A(10) [OF that(1,3)] that(2) ind by auto
    show "used ?s' c \<longleftrightarrow> c = a \<or> used s c" if "c < fs_size s" for c using us A(7) that by simp
    show "faddr s ?ip (j + NDIRECT) = 0" using ibw j by (simp add: faddr_def)
    show "faddr ?s' (icache ?s' ! i) m = (if m = j + NDIRECT then a else faddr s ?ip m)" if "m < MAXFILE" for m
      using fa [OF that] A(6) by simp
  qed (use A lay' F(1) j ibw ind in simp_all)
qed

lemma balloc_cases:
  assumes "layout_ok s"
  obtains (full) "balloc s = Inl (Panic ''balloc: out of blocks'')" "\<forall>c < fs_size s. used s c"
  | (got) a t where "balloc s = Inr (a, t)" "allocated s a t"
  using balloc_spec [OF assms] by blast

lemma block_nonzero: "allocated s a t \<Longrightarrow> a \<noteq> 0 \<and> unat (of_nat a :: u32) = a"
  using allocatedD(1,2) [of s a t] unat_of_block by (auto simp: data_start_def)

lemma bmap_mapped: "bn < MAXFILE \<Longrightarrow> faddr s (icache s ! i) bn \<noteq> 0 \<Longrightarrow> bmap i bn s = Inr (faddr s (icache s ! i) bn, s)"
  by (auto simp: bmap_def faddr_def Let_def unat_gt_0 split: if_splits)

text \<open>The indirect block, allocated if there is none.\<close>

definition ind_addr :: "nat \<Rightarrow> fsys \<Rightarrow> (nat \<times> fsys) res" where
  "ind_addr i s =
     (let addr = i_addrs (icache s ! i) ! NDIRECT in
      if addr = 0 then bindR (balloc s) (\<lambda>(a, s). Inr (a, upd_inode i (\<lambda>ip. ip\<lparr>i_addrs := (i_addrs ip)[NDIRECT := of_nat a]\<rparr>) s))
      else Inr (unat addr, s))"

lemma ind_addr_ok:
  assumes "layout_ok s" "file_ok s (icache s ! i)" "i < length (icache s)"
  shows "ind_addr i s = Inl (Panic ''balloc: out of blocks'') \<or>
    (\<exists>a s'. ind_addr i s = Inr (a, s') \<and> keeps_file i s s' \<and> a \<noteq> 0 \<and> ind_block (icache s' ! i) = a \<and> i < length (icache s'))"
proof (cases "i_addrs (icache s ! i) ! NDIRECT = 0")
  case False
  then show ?thesis using assms keeps_refl by (auto simp: ind_addr_def ind_block_def unat_gt_0)
next
  case True
  from assms(1) show ?thesis
  proof (cases rule: balloc_cases)
    case full
    then show ?thesis using True by (simp add: ind_addr_def)
  next
    case (got a t)
    let ?s = "upd_inode i (\<lambda>ip. ip\<lparr>i_addrs := (i_addrs ip)[NDIRECT := of_nat a]\<rparr>) t"
    have "ind_addr i s = Inr (a, ?s)" using True got by (simp add: ind_addr_def)
    moreover have "keeps_file i s ?s" by (rule new_direct [OF assms(1,2) got(2) assms(3) le_refl True])
    moreover have "ind_block (icache ?s ! i) = a" "i < length (icache ?s)"
      using block_nonzero [OF got(2)] allocatedD(6) [OF got(2)] assms(3) file_okD(1) [OF assms(2)] by (simp_all add: ind_block_def)
    ultimately show ?thesis using block_nonzero [OF got(2)] by blast
  qed
qed

lemma bmap_ok:
  assumes lay: "layout_ok s" and ok: "file_ok s (icache s ! i)" and i: "i < length (icache s)" and bn: "bn < MAXFILE"
  shows "bmap i bn s = Inl (Panic ''balloc: out of blocks'') \<or>
    (\<exists>a s'. bmap i bn s = Inr (a, s') \<and> keeps_file i s s' \<and> a \<noteq> 0 \<and> faddr s' (icache s' ! i) bn = a)"
proof (cases "faddr s (icache s ! i) bn = 0")
  case False
  then show ?thesis using bmap_mapped [OF bn False] keeps_refl [OF lay ok] by blast
next
  case unmapped: True
  show ?thesis
  proof (cases "bn < NDIRECT")
    case True
    then have z: "i_addrs (icache s ! i) ! bn = 0" using unmapped by (simp add: faddr_def unat_eq_zero)
    from lay show ?thesis
    proof (cases rule: balloc_cases)
      case full
      then show ?thesis using True z by (simp add: bmap_def)
    next
      case (got a t)
      let ?s = "upd_inode i (\<lambda>ip. ip\<lparr>i_addrs := (i_addrs ip)[bn := of_nat a]\<rparr>) t"
      have "bmap i bn s = Inr (a, ?s)" using True z got by (simp add: bmap_def)
      moreover have "keeps_file i s ?s" using True by (intro new_direct [OF lay ok got(2) i _ z]) simp
      moreover have "faddr ?s (icache ?s ! i) bn = a"
        using True block_nonzero [OF got(2)] allocatedD(6) [OF got(2)] i file_okD(1) [OF ok] by (simp add: faddr_def)
      ultimately show ?thesis using block_nonzero [OF got(2)] by blast
    qed
  next
    case False
    have j: "bn - NDIRECT < NINDIRECT" "bn - NDIRECT + NDIRECT = bn" using False bn by linarith+
    have b: "bmap i bn s = bindR (ind_addr i s) (\<lambda>(ind, s).
        let addr = get32 (blk s ind) (bn - NDIRECT) in
        if addr = 0 then bindR (balloc s) (\<lambda>(a, s). Inr (a, put_blk ind (put32 (blk s ind) (bn - NDIRECT) (of_nat a)) s))
        else Inr (unat addr, s))"
      unfolding bmap_def ind_addr_def Let_def using False j(1) by (simp only: if_False if_True)
    consider "ind_addr i s = Inl (Panic ''balloc: out of blocks'')"
      | ib t where "ind_addr i s = Inr (ib, t)" "keeps_file i s t" "ib \<noteq> 0" "ind_block (icache t ! i) = ib" "i < length (icache t)"
      using ind_addr_ok [OF lay ok i] by blast
    then show ?thesis
    proof cases
      case 1
      then show ?thesis using b by simp
    next
      case (2 ib t)
      have t: "layout_ok t" "file_ok t (icache t ! i)" using 2(2) by (simp_all add: keeps_file_def)
      have w: "i_addrs (icache t ! i) ! NDIRECT \<noteq> 0" "unat (i_addrs (icache t ! i) ! NDIRECT) = ib" using 2(3,4) by (auto simp: ind_block_def)
      show ?thesis
      proof (cases "get32 (blk t ib) (bn - NDIRECT) = 0")
        case True
        from t(1) show ?thesis
        proof (cases rule: balloc_cases)
          case full
          then show ?thesis using b 2(1) True by simp
        next
          case (got a u)
          let ?s = "put_blk ib (put32 (blk u ib) (bn - NDIRECT) (of_nat a)) u"
          have "bmap i bn s = Inr (a, ?s)" using b 2(1) True got by simp
          moreover have "keeps_file i s ?s"
            using new_indirect(1) [OF t got(2) 2(5,4,3) j(1) True] keeps_trans [OF 2(2)] by blast
          moreover have "faddr ?s (icache ?s ! i) bn = a"
            using new_indirect(2) [OF t got(2) 2(5,4,3) j(1) True] j(2) allocatedD(6) [OF got(2)] by simp
          ultimately show ?thesis using block_nonzero [OF got(2)] by blast
        qed
      next
        case f: False
        then have "bmap i bn s = Inr (unat (get32 (blk t ib) (bn - NDIRECT)), t)" using b 2(1) by simp
        then show ?thesis using 2(2) f w False by (auto simp: faddr_def unat_gt_0)
      qed
    qed
  qed
qed

subsection \<open>Reads\<close>

lemma slice_fcont:
  assumes "length (blk s a) = BSIZE" "faddr s ip bn = a" "a \<noteq> 0" "q + m \<le> BSIZE"
  shows "slice q m (blk s a) = map (fcont s ip) [BSIZE * bn + q..<BSIZE * bn + q + m]"
proof (rule nth_equalityI)
  show "length (slice q m (blk s a)) = length (map (fcont s ip) [BSIZE * bn + q..<BSIZE * bn + q + m])" using assms by simp
  fix k assume "k < length (slice q m (blk s a))"
  then have k: "k < m" using assms by simp
  then have "q + k < BSIZE" using assms(4) by simp
  then have "(BSIZE * bn + q + k) div BSIZE = bn" "(BSIZE * bn + q + k) mod BSIZE = q + k" by (simp_all add: add.assoc)
  with k assms show "slice q m (blk s a) ! k = map (fcont s ip) [BSIZE * bn + q..<BSIZE * bn + q + m] ! k"
    by (simp add: nth_slice fcont_def)
qed

lemma readi_loop_ok:
  assumes "layout_ok s" "file_ok s (icache s ! i)" "i < length (icache s)" "off + n \<le> MAXFILE * BSIZE"
  shows "readi_loop i off n dst s = Inl (Panic ''balloc: out of blocks'') \<or>
    (\<exists>s'. readi_loop i off n dst s = Inr (dst @ map (fcont s (icache s ! i)) [off..<off + n], s') \<and> keeps_file i s s')"
  using assms
proof (induction n arbitrary: off dst s rule: less_induct)
  case (less n)
  show ?case
  proof (cases "n = 0")
    case True
    then show ?thesis using keeps_refl [OF less.prems(1,2)] by (simp add: readi_loop.simps [of _ _ 0])
  next
    case False
    let ?m = "min n (BSIZE - off mod BSIZE)" and ?bn = "off div BSIZE"
    have m: "0 < ?m" "?m \<le> n" "off mod BSIZE + ?m \<le> BSIZE" using False by (auto simp: min_def)
    have bn: "?bn < MAXFILE" using less.prems(4) False by (simp add: less_mult_imp_div_less)
    consider "bmap i ?bn s = Inl (Panic ''balloc: out of blocks'')"
      | a t where "bmap i ?bn s = Inr (a, t)" "keeps_file i s t" "a \<noteq> 0" "faddr t (icache t ! i) ?bn = a"
      using bmap_ok [OF less.prems(1-3) bn] by blast
    then show ?thesis
    proof cases
      case 1
      then show ?thesis using False by (simp add: readi_loop.simps [of _ _ n])
    next
      case (2 a t)
      have t: "layout_ok t" "file_ok t (icache t ! i)" "i < length (icache t)"
        using 2(2) less.prems(3) extendsD(2) [of i s t] by (simp_all add: keeps_file_def)
      have c: "fcont t (icache t ! i) p = fcont s (icache s ! i) p" if "p < MAXFILE * BSIZE" for p
        using 2(2) that by (simp add: keeps_file_def)
      have o: "BSIZE * ?bn + off mod BSIZE = off" by simp
      have sl: "slice (off mod BSIZE) ?m (blk t a) = map (fcont s (icache s ! i)) [off..<off + ?m]"
      proof -
        have "slice (off mod BSIZE) ?m (blk t a) = map (fcont t (icache t ! i)) [off..<off + ?m]"
          using slice_fcont [OF _ 2(4,3) m(3)] t(1) o by (simp add: layout_ok_def)
        also have "\<dots> = map (fcont s (icache s ! i)) [off..<off + ?m]" using c less.prems(4) m(2) by auto
        finally show ?thesis .
      qed
      have rest: "map (fcont t (icache t ! i)) [off + ?m..<off + ?m + (n - ?m)] = map (fcont s (icache s ! i)) [off + ?m..<off + n]"
        using c less.prems(4) m(2) by auto
      have cat: "map f [off..<off + ?m] @ map f [off + ?m..<off + n] = map f [off..<off + n]" for f :: "nat \<Rightarrow> u8"
        using upt_add_eq_append [of off "off + ?m" "n - ?m"] m(2) by (simp flip: map_append)
      have step: "readi_loop i off n dst s = readi_loop i (off + ?m) (n - ?m) (dst @ slice (off mod BSIZE) ?m (blk t a)) t"
        using 2(1) False by (simp add: readi_loop.simps [of _ _ n] Let_def)
      have "off + ?m + (n - ?m) \<le> MAXFILE * BSIZE" "n - ?m < n" using less.prems(4) m(1,2) False by simp_all
      from less.IH [OF this(2) t this(1), of "dst @ slice (off mod BSIZE) ?m (blk t a)"]
      show ?thesis unfolding step sl rest using keeps_trans [OF 2(2)] cat by auto
    qed
  qed
qed

text \<open>Without holes nothing is allocated, so a read cannot fail and changes nothing.\<close>

definition no_holes :: "fsys \<Rightarrow> inode \<Rightarrow> bool" where
  "no_holes s ip \<longleftrightarrow> unat (i_size ip) \<le> MAXFILE * BSIZE \<and> (\<forall>p < unat (i_size ip). faddr s ip (p div BSIZE) \<noteq> 0)"

lemma readi_loop_mapped:
  assumes "layout_ok s" "off + n \<le> MAXFILE * BSIZE" "\<forall>p. off \<le> p \<longrightarrow> p < off + n \<longrightarrow> faddr s (icache s ! i) (p div BSIZE) \<noteq> 0"
  shows "readi_loop i off n dst s = Inr (dst @ map (fcont s (icache s ! i)) [off..<off + n], s)"
  using assms
proof (induction n arbitrary: off dst rule: less_induct)
  case (less n)
  show ?case
  proof (cases "n = 0")
    case False
    let ?m = "min n (BSIZE - off mod BSIZE)" and ?bn = "off div BSIZE" and ?a = "faddr s (icache s ! i) (off div BSIZE)"
    have m: "0 < ?m" "?m \<le> n" "off mod BSIZE + ?m \<le> BSIZE" using False by (auto simp: min_def)
    have bn: "?bn < MAXFILE" "?a \<noteq> 0" using less.prems(2,3) False by (simp_all add: less_mult_imp_div_less)
    have o: "BSIZE * ?bn + off mod BSIZE = off" by simp
    have sl: "slice (off mod BSIZE) ?m (blk s ?a) = map (fcont s (icache s ! i)) [off..<off + ?m]"
      using slice_fcont [OF _ refl bn(2) m(3)] less.prems(1) o by (simp add: layout_ok_def)
    have cat: "map f [off..<off + ?m] @ map f [off + ?m..<off + n] = map f [off..<off + n]" for f :: "nat \<Rightarrow> u8"
      using upt_add_eq_append [of off "off + ?m" "n - ?m"] m(2) by (simp flip: map_append)
    have step: "readi_loop i off n dst s = readi_loop i (off + ?m) (n - ?m) (dst @ slice (off mod BSIZE) ?m (blk s ?a)) s"
      using bmap_mapped [OF bn] False by (simp add: readi_loop.simps [of _ _ n] Let_def)
    have b: "n - ?m < n" "off + ?m + (n - ?m) = off + n" using m(1,2) False by simp_all
    have "readi_loop i (off + ?m) (n - ?m) d s = Inr (d @ map (fcont s (icache s ! i)) [off + ?m..<off + ?m + (n - ?m)], s)" for d
      by (rule less.IH [OF b(1) less.prems(1)]) (use less.prems(2,3) b(2) in simp_all)
    then show ?thesis unfolding step sl b(2) using cat by (simp only: append_assoc)
  qed (simp add: readi_loop.simps [of _ _ 0])
qed

subsection \<open>Writes\<close>

lemma write_chunk:
  assumes lay: "layout_ok s" and ok: "file_ok s (icache s ! i)" and bn: "bn < MAXFILE" "faddr s (icache s ! i) bn = a" "a \<noteq> 0"
    and q: "q + length bs \<le> BSIZE"
  shows "layout_ok (put_blk a (splice q bs (blk s a)) s)" "file_ok (put_blk a (splice q bs (blk s a)) s) (icache s ! i)"
    "extends i s (put_blk a (splice q bs (blk s a)) s)"
    "p < MAXFILE * BSIZE \<Longrightarrow> fcont (put_blk a (splice q bs (blk s a)) s) (icache s ! i) p =
       (if BSIZE * bn + q \<le> p \<and> p < BSIZE * bn + q + length bs then bs ! (p - (BSIZE * bn + q)) else fcont s (icache s ! i) p)"
proof -
  let ?s = "put_blk a (splice q bs (blk s a)) s" and ?ip = "icache s ! i"
  note F = file_okD [OF ok]
  have ain: "a \<in> file_blocks s ?ip" using faddr_in [of bn s ?ip] bn by simp
  note B = F(2,3,4) [OF ain]
  have len: "length (blk s c) = BSIZE" for c using lay by (simp add: layout_ok_def)
  have bits: "a \<noteq> BBLOCK c (sb s)" if "c < fs_size s" for c using BBLOCK_meta [of c s] that B(1) by auto
  have us: "used ?s c \<longleftrightarrow> used s c" if "c < fs_size s" for c using used_put_data [OF bits that] by simp
  have ds: "data_start ?s = data_start s" by (rule data_start_sb) simp
  show lay': "layout_ok ?s" using lay us len q unfolding layout_ok_def ds by auto
  have ai: "a \<noteq> ind_block ?ip" using F(6) [of bn] bn by simp
  have fa: "faddr ?s ?ip m = faddr s ?ip m" for m using ai by (auto simp: faddr_def ind_block_def)
  have fb: "file_blocks ?s ?ip = file_blocks s ?ip" by (simp add: file_blocks_def fa)
  show "file_ok ?s ?ip" using ok us F(3) unfolding file_ok_def ds fb fa by auto
  show "extends i s ?s"
    using us B ain fb unfolding extends_def
    by (auto intro!: exI [of _ "i_addrs ?ip"] simp: data_start_def)
  show "fcont ?s ?ip p = (if BSIZE * bn + q \<le> p \<and> p < BSIZE * bn + q + length bs then bs ! (p - (BSIZE * bn + q)) else fcont s ?ip p)"
    if p: "p < MAXFILE * BSIZE"
  proof (cases "p div BSIZE = bn")
    case True
    then have "p = BSIZE * bn + p mod BSIZE" by (metis mult_div_mod_eq)
    then obtain r where r: "p = BSIZE * bn + r" "r < BSIZE" by (metis mod_less_divisor zero_less_numeral)
    with True bn show ?thesis using nth_splice [of q bs "blk s a" r] q len by (auto simp: fcont_def fa)
  next
    case False
    have m: "p div BSIZE < MAXFILE" using p by (simp add: less_mult_imp_div_less)
    have ne: "faddr s ?ip (p div BSIZE) \<noteq> a" using F(5) [OF bn(1) m] bn False by auto
    have out: "\<not> (BSIZE * bn + q \<le> p \<and> p < BSIZE * bn + q + length bs)"
    proof
      assume "BSIZE * bn + q \<le> p \<and> p < BSIZE * bn + q + length bs"
      then have "BSIZE * bn \<le> p" "p < BSIZE * Suc bn" using q by simp_all
      then show False using False by (metis div_nat_eqI)
    qed
    show ?thesis using ne out by (auto simp: fcont_def fa Let_def)
  qed
qed

text \<open>What a completed write of \<open>src\<close> at \<open>off\<close> does to file i.\<close>

definition wrote :: "nat \<Rightarrow> nat \<Rightarrow> u8 list \<Rightarrow> fsys \<Rightarrow> fsys \<Rightarrow> bool" where
  "wrote i off src s s' \<longleftrightarrow> layout_ok s' \<and> file_ok s' (icache s' ! i) \<and> extends i s s' \<and>
     (\<forall>p < MAXFILE * BSIZE. fcont s' (icache s' ! i) p =
        (if off \<le> p \<and> p < off + length src then src ! (p - off) else fcont s (icache s ! i) p)) \<and>
     (\<forall>p. off \<le> p \<longrightarrow> p < off + length src \<longrightarrow> faddr s' (icache s' ! i) (p div BSIZE) \<noteq> 0) \<and>
     (\<forall>m < MAXFILE. faddr s (icache s ! i) m \<noteq> 0 \<longrightarrow> faddr s' (icache s' ! i) m \<noteq> 0)"

lemma wrote_chunk:
  assumes k: "keeps_file i s t" and u: "u = put_blk a (splice (off mod BSIZE) bs (blk t a)) t"
    and a: "off div BSIZE < MAXFILE" "faddr t (icache t ! i) (off div BSIZE) = a" "a \<noteq> 0" and bs: "off mod BSIZE + length bs \<le> BSIZE"
    and w: "wrote i (off + length bs) src u s'"
  shows "wrote i off (bs @ src) s s'"
proof -
  let ?bn = "off div BSIZE"
  have t: "layout_ok t" "file_ok t (icache t ! i)" "extends i s t"
    "\<And>p. p < MAXFILE * BSIZE \<Longrightarrow> fcont t (icache t ! i) p = fcont s (icache s ! i) p"
    "\<And>m. m < MAXFILE \<Longrightarrow> faddr s (icache s ! i) m \<noteq> 0 \<Longrightarrow> faddr t (icache t ! i) m \<noteq> 0"
    using k by (simp_all add: keeps_file_def)
  note W = write_chunk [OF t(1,2) a bs, folded u]
  have o: "BSIZE * ?bn + off mod BSIZE = off" by simp
  have ic: "icache u = icache t" using u by simp
  have fa: "faddr u (icache u ! i) m = faddr t (icache t ! i) m" for m
    using file_okD(6) [OF t(2) a(1)] a(2,3) u by (auto simp: faddr_def ind_block_def)
  have s': "layout_ok s'" "file_ok s' (icache s' ! i)" "extends i u s'"
    "\<And>p. p < MAXFILE * BSIZE \<Longrightarrow> fcont s' (icache s' ! i) p = (if off + length bs \<le> p \<and> p < off + length bs + length src
       then src ! (p - (off + length bs)) else fcont u (icache u ! i) p)"
    "\<And>p. off + length bs \<le> p \<Longrightarrow> p < off + length bs + length src \<Longrightarrow> faddr s' (icache s' ! i) (p div BSIZE) \<noteq> 0"
    "\<And>m. m < MAXFILE \<Longrightarrow> faddr u (icache u ! i) m \<noteq> 0 \<Longrightarrow> faddr s' (icache s' ! i) m \<noteq> 0"
    using w by (simp_all add: wrote_def)
  have "extends i s s'" using extends_trans [OF extends_trans [OF t(3) W(3)] s'(3)] .
  moreover have "fcont s' (icache s' ! i) p =
      (if off \<le> p \<and> p < off + length (bs @ src) then (bs @ src) ! (p - off) else fcont s (icache s ! i) p)" if p: "p < MAXFILE * BSIZE" for p
    unfolding s'(4) [OF p] ic W(4) [OF p] o t(4) [OF p]
    by (auto simp: nth_append le_diff_conv2 diff_less_mono not_less)
  moreover have "faddr s' (icache s' ! i) (p div BSIZE) \<noteq> 0" if p: "off \<le> p" "p < off + length (bs @ src)" for p
  proof (cases "off + length bs \<le> p")
    case True
    then show ?thesis using s'(5) p(2) by simp
  next
    case False
    then have "BSIZE * ?bn \<le> p" "p < BSIZE * Suc ?bn" using p(1) o bs by (simp_all only: mult_Suc_right)
    then have "p div BSIZE = ?bn" by (intro div_nat_eqI) simp_all
    then show ?thesis using s'(6) [OF a(1)] fa a(2,3) by simp
  qed
  moreover have "faddr s' (icache s' ! i) m \<noteq> 0" if "m < MAXFILE" "faddr s (icache s ! i) m \<noteq> 0" for m
    using s'(6) [OF that(1)] fa t(5) [OF that] by simp
  ultimately show ?thesis using s'(1,2) by (simp add: wrote_def)
qed

lemma writei_loop_ok:
  assumes "layout_ok s" "file_ok s (icache s ! i)" "i < length (icache s)" "off + length src \<le> MAXFILE * BSIZE"
  shows "writei_loop i off src s = Inl (Panic ''balloc: out of blocks'') \<or> (\<exists>s'. writei_loop i off src s = Inr s' \<and> wrote i off src s s')"
  using assms
proof (induction "length src" arbitrary: off src s rule: less_induct)
  case less
  show ?case
  proof (cases "src = []")
    case True
    then show ?thesis using less.prems by (auto simp: writei_loop.simps [of _ _ "[]"] wrote_def extends_refl)
  next
    case False
    let ?m = "min (length src) (BSIZE - off mod BSIZE)" and ?bn = "off div BSIZE"
    have m: "0 < ?m" "?m \<le> length src" "off mod BSIZE + ?m \<le> BSIZE" using False by (auto simp: min_def)
    have bn: "?bn < MAXFILE" using less.prems(4) False by (cases src) (simp_all add: less_mult_imp_div_less)
    consider "bmap i ?bn s = Inl (Panic ''balloc: out of blocks'')"
      | a t where "bmap i ?bn s = Inr (a, t)" "keeps_file i s t" "a \<noteq> 0" "faddr t (icache t ! i) ?bn = a"
      using bmap_ok [OF less.prems(1-3) bn] by blast
    then show ?thesis
    proof cases
      case 1
      then show ?thesis using False by (simp add: writei_loop.simps [of _ _ src])
    next
      case (2 a t)
      define u where "u = put_blk a (splice (off mod BSIZE) (take ?m src) (blk t a)) t"
      have t: "layout_ok t" "file_ok t (icache t ! i)" "i < length (icache t)"
        using 2(2) less.prems(3) extendsD(2) [of i s t] by (simp_all add: keeps_file_def)
      have tk: "length (take ?m src) = ?m" by simp
      have q: "off mod BSIZE + length (take ?m src) \<le> BSIZE" using m(3) tk by simp
      have ic: "icache u = icache t" by (simp add: u_def)
      have u: "layout_ok u" "file_ok u (icache u ! i)" "i < length (icache u)"
        using write_chunk(1,2) [OF t(1,2) bn 2(4,3) q] t(3) unfolding ic by (simp_all add: u_def)
      have step: "writei_loop i off src s = writei_loop i (off + ?m) (drop ?m src) u"
        using 2(1) False by (simp add: writei_loop.simps [of _ _ src] Let_def u_def)
      have "length (drop ?m src) < length src" "off + ?m + length (drop ?m src) \<le> MAXFILE * BSIZE" using m(1,2) less.prems(4) by auto
      from less.hyps [OF this(1) u this(2)] show ?thesis
      proof
        assume "writei_loop i (off + ?m) (drop ?m src) u = Inl (Panic ''balloc: out of blocks'')"
        then show ?thesis using step by simp
      next
        assume "\<exists>s'. writei_loop i (off + ?m) (drop ?m src) u = Inr s' \<and> wrote i (off + ?m) (drop ?m src) u s'"
        then obtain s' where s': "writei_loop i (off + ?m) (drop ?m src) u = Inr s'" "wrote i (off + length (take ?m src)) (drop ?m src) u s'"
          using tk by auto
        have "wrote i off (take ?m src @ drop ?m src) s s'" by (rule wrote_chunk [OF 2(2) u_def bn 2(4,3) q s'(2)])
        then have "wrote i off src s s'" by simp
        with s'(1) step show ?thesis by auto
      qed
    qed
  qed
qed

subsection \<open>Whole calls\<close>

text \<open>A file depends on its own blocks only.\<close>

lemma file_frame:
  assumes "\<forall>b \<in> file_blocks s jp. blk s' b = blk s b"
  shows "faddr s' jp m = faddr s jp m" "p < MAXFILE * BSIZE \<Longrightarrow> fcont s' jp p = fcont s jp p" "file_blocks s' jp = file_blocks s jp"
proof -
  have ind: "blk s' (unat (i_addrs jp ! NDIRECT)) = blk s (unat (i_addrs jp ! NDIRECT))" if "i_addrs jp ! NDIRECT \<noteq> 0"
    using assms ind_in [of jp s] that by (simp add: ind_block_def unat_gt_0)
  then show fa: "faddr s' jp m = faddr s jp m" for m by (simp add: faddr_def)
  show "file_blocks s' jp = file_blocks s jp" by (simp add: file_blocks_def fa)
  show "fcont s' jp p = fcont s jp p" if "p < MAXFILE * BSIZE"
  proof -
    have "p div BSIZE < MAXFILE" using that by (simp add: less_mult_imp_div_less)
    then have "blk s' (faddr s jp (p div BSIZE)) = blk s (faddr s jp (p div BSIZE))" if "faddr s jp (p div BSIZE) \<noteq> 0"
      using assms faddr_in that by blast
    then show ?thesis by (simp add: fcont_def fa Let_def)
  qed
qed

lemma file_data_frame:
  assumes "\<forall>b \<in> file_blocks s jp. blk s' b = blk s b" "unat (i_size jp) \<le> MAXFILE * BSIZE"
  shows "file_data s' jp = file_data s jp"
  using file_frame(2) [OF assms(1)] assms(2) by (simp add: file_data_def)

text \<open>Writing a block below the bitmap touches no file and no bit.\<close>

lemma meta_write:
  assumes "layout_ok s" "b < unat (sb_bmapstart (sb s))" "length d = BSIZE"
  shows "layout_ok (put_blk b d s)" "c < fs_size s \<Longrightarrow> used (put_blk b d s) c \<longleftrightarrow> used s c"
    "file_ok s jp \<Longrightarrow> file_ok (put_blk b d s) jp" "file_ok s jp \<Longrightarrow> c \<in> file_blocks s jp \<Longrightarrow> blk (put_blk b d s) c = blk s c"
proof -
  have ne: "b \<noteq> BBLOCK c (sb s)" if "c < fs_size s" for c using BBLOCK_meta [OF that] assms(2) by auto
  show us: "used (put_blk b d s) c \<longleftrightarrow> used s c" if "c < fs_size s" for c using used_put_data [OF ne that] by simp
  have ds: "data_start (put_blk b d s) = data_start s" by (rule data_start_sb) simp
  show "layout_ok (put_blk b d s)" using assms us unfolding layout_ok_def ds by auto
  have bd: "b < data_start s" using assms(2) by (simp add: data_start_def)
  show fr: "blk (put_blk b d s) c = blk s c" if "file_ok s jp" "c \<in> file_blocks s jp" for c
    using file_okD(2) [OF that] bd by auto
  show "file_ok (put_blk b d s) jp" if "file_ok s jp"
  proof -
    have f: "\<forall>c \<in> file_blocks s jp. blk (put_blk b d s) c = blk s c" using fr that by blast
    show ?thesis using that us unfolding file_ok_def ds file_frame(1,3) [OF f] by auto
  qed
qed

lemma write_dinode_length: "length (i_addrs ip) = 13 \<Longrightarrow> k < IPB \<Longrightarrow> length d = BSIZE \<Longrightarrow> length (write_dinode ip k d) = BSIZE"
  by (simp add: write_dinode_def)

text \<open>The size of the file and its dinode after the loop.\<close>

definition resized :: "nat \<Rightarrow> u32 \<Rightarrow> fsys \<Rightarrow> fsys" where
  "resized i off s = (if i_size (icache s ! i) < off then iupdate i (upd_inode i (\<lambda>ip. ip\<lparr>i_size := off\<rparr>) s) else s)"

lemma file_ok_size: "file_ok s (ip\<lparr>i_size := z\<rparr>) = file_ok s ip" "faddr s (ip\<lparr>i_size := z\<rparr>) m = faddr s ip m"
  "fcont s (ip\<lparr>i_size := z\<rparr>) p = fcont s ip p" "file_blocks s (ip\<lparr>i_size := z\<rparr>) = file_blocks s ip"
proof -
  show f: "faddr s (ip\<lparr>i_size := z\<rparr>) m = faddr s ip m" for m by (simp add: faddr_def)
  show "file_blocks s (ip\<lparr>i_size := z\<rparr>) = file_blocks s ip" by (simp add: file_blocks_def f ind_block_def)
  then show "file_ok s (ip\<lparr>i_size := z\<rparr>) = file_ok s ip" by (simp add: file_ok_def f ind_block_def)
  show "fcont s (ip\<lparr>i_size := z\<rparr>) p = fcont s ip p" by (simp add: fcont_def f)
qed

lemma resized_ok:
  assumes lay: "layout_ok s" and ok: "file_ok s (icache s ! i)" and i: "i < length (icache s)"
    and ib: "IBLOCK (unat (i_inum (icache s ! i))) (sb s) < unat (sb_bmapstart (sb s))"
  shows "layout_ok (resized i off s) \<and> file_ok (resized i off s) (icache (resized i off s) ! i) \<and>
    i_size (icache (resized i off s) ! i) = max (i_size (icache s ! i)) off \<and>
    (\<forall>m. faddr (resized i off s) (icache (resized i off s) ! i) m = faddr s (icache s ! i) m) \<and>
    (\<forall>p < MAXFILE * BSIZE. fcont (resized i off s) (icache (resized i off s) ! i) p = fcont s (icache s ! i) p) \<and>
    (\<forall>b. data_start s \<le> b \<longrightarrow> blk (resized i off s) b = blk s b)"
proof (cases "i_size (icache s ! i) < off")
  case False
  then have "resized i off s = s" by (simp add: resized_def)
  then show ?thesis using False lay ok by (simp add: max_def not_less)
next
  case True
  let ?t = "upd_inode i (\<lambda>ip. ip\<lparr>i_size := off\<rparr>) s" and ?ip = "icache s ! i" and ?inum = "unat (i_inum (icache s ! i))"
  let ?d = "write_dinode (?ip\<lparr>i_size := off\<rparr>) (?inum mod IPB) (blk s (IBLOCK ?inum (sb s)))"
  have r: "resized i off s = put_blk (IBLOCK ?inum (sb s)) ?d ?t" using True i by (simp add: resized_def iupdate_def Let_def)
  have d: "length ?d = BSIZE" using file_okD(1) [OF ok] lay by (intro write_dinode_length) (simp_all add: layout_ok_def)
  have t: "layout_ok ?t" "sb ?t = sb s" "blk ?t = blk s" using layout_cong [of ?t s] lay by simp_all
  have ft: "faddr ?t jp = faddr s jp" "fcont ?t jp = fcont s jp" "file_blocks ?t jp = file_blocks s jp" for jp
    by (simp_all add: faddr_def fcont_def file_blocks_def fun_eq_iff Let_def)
  have ut: "used ?t = used s" using used_cong [OF t(2,3)] .
  have okt: "file_ok ?t (?ip\<lparr>i_size := off\<rparr>)"
    using ok unfolding file_ok_size by (simp add: file_ok_def ft ut data_start_sb [OF t(2)] t(2))
  note M = meta_write [OF t(1), of "IBLOCK ?inum (sb s)" ?d]
  have ic: "icache (resized i off s) ! i = ?ip\<lparr>i_size := off\<rparr>" using i r by simp
  have fr: "\<forall>c \<in> file_blocks ?t (?ip\<lparr>i_size := off\<rparr>). blk (resized i off s) c = blk ?t c" using M(4) ib d okt r by simp
  have "blk (resized i off s) b = blk s b" if "data_start s \<le> b" for b using that ib r by (auto simp: data_start_def)
  then show ?thesis
    using M(1,3) ib d okt r less_imp_le [OF True] file_frame [OF fr] unfolding ic by (simp add: ft file_ok_size max_def)
qed

lemma take_drop_data:
  assumes "length D = z" "off \<le> z" "E = map f [0..<max z (off + length src)]"
    "\<And>p. p < max z (off + length src) \<Longrightarrow> f p = (if off \<le> p \<and> p < off + length src then src ! (p - off) else D ! p)"
  shows "E = take off D @ src @ drop (off + length src) D"
proof (rule nth_equalityI)
  show "length E = length (take off D @ src @ drop (off + length src) D)" using assms(1-3) by (simp add: max_def)
  fix p assume "p < length E"
  then have p: "p < max z (off + length src)" using assms(3) by simp
  consider "p < off" | "off \<le> p" "p < off + length src" | "off + length src \<le> p" by linarith
  then show "E ! p = (take off D @ src @ drop (off + length src) D) ! p"
  proof cases
    case 3
    then obtain j where j: "p = off + length src + j" by (metis le_iff_add)
    then show ?thesis using p assms by (simp add: nth_append max_def split: if_splits)
  qed (use p assms in \<open>auto simp: nth_append\<close>)
qed

text \<open>A file and the place of its inode.\<close>

definition inode_ok :: "fsys \<Rightarrow> nat \<Rightarrow> bool" where
  "inode_ok s i \<longleftrightarrow> i < length (icache s) \<and> file_ok s (icache s ! i) \<and> no_holes s (icache s ! i) \<and> i_type (icache s ! i) \<noteq> T_DEV \<and>
     IBLOCK (unat (i_inum (icache s ! i))) (sb s) < unat (sb_bmapstart (sb s))"

lemma inode_okD:
  assumes "inode_ok s i"
  shows "i < length (icache s)" "file_ok s (icache s ! i)" "unat (i_size (icache s ! i)) \<le> MAXFILE * BSIZE"
    "p < unat (i_size (icache s ! i)) \<Longrightarrow> faddr s (icache s ! i) (p div BSIZE) \<noteq> 0" "i_type (icache s ! i) \<noteq> T_DEV"
    "IBLOCK (unat (i_inum (icache s ! i))) (sb s) < unat (sb_bmapstart (sb s))"
  using assms by (simp_all add: inode_ok_def no_holes_def)

lemma add_no_wrap:
  fixes off n :: u32
  assumes "unat off + unat n \<le> 71680"
  shows "unat (off + n) = unat off + unat n" "\<not> off + n < off"
proof -
  show "unat (off + n) = unat off + unat n" using assms by (intro unat_add_no_wrap) simp
  then show "\<not> off + n < off" by (simp add: word_less_nat_alt)
qed

lemma writei_ok:
  assumes lay: "layout_ok s" and ok: "inode_ok s i" and off: "off \<le> i_size (icache s ! i)" "unat off + unat n \<le> MAXFILE * BSIZE"
    and src: "length src = unat n"
  shows "writei devsw i src off n s = Inl (Panic ''balloc: out of blocks'') \<or>
    (\<exists>s'. writei devsw i src off n s = Inr (uint n, s') \<and> layout_ok s' \<and> inode_ok s' i \<and>
       file_data s' (icache s' ! i) = take (unat off) (file_data s (icache s ! i)) @ src @ drop (unat off + unat n) (file_data s (icache s ! i)) \<and>
       (\<forall>jp. file_ok s jp \<longrightarrow> unat (i_size jp) \<le> MAXFILE * BSIZE \<longrightarrow> file_blocks s jp \<inter> file_blocks s (icache s ! i) = {} \<longrightarrow>
          file_data s' jp = file_data s jp))"
proof -
  let ?ip = "icache s ! i" and ?o = "unat off"
  note I = inode_okD [OF ok]
  have sum: "unat (off + n) = ?o + unat n" "\<not> off + n < off" using add_no_wrap [of off n] off(2) by simp_all
  have chk: "\<not> of_nat (MAXFILE * BSIZE) < off + n" using off(2) sum(1) by (simp add: word_less_nat_alt)
  have w: "writei devsw i src off n s = bindR (writei_loop i ?o src s) (\<lambda>s. Inr (uint n, if 0 < n \<and> i_size (icache s ! i) < off + n
      then iupdate i (upd_inode i (\<lambda>ip. ip\<lparr>i_size := off + n\<rparr>) s) else s))"
    using I(5) off(1) sum(2) chk src by (simp add: writei_def Let_def leD)
  from writei_loop_ok [OF lay I(2,1), of ?o src] off(2) src
  consider "writei_loop i ?o src s = Inl (Panic ''balloc: out of blocks'')" | t where "writei_loop i ?o src s = Inr t" "wrote i ?o src s t" by force
  then show ?thesis
  proof cases
    case 1
    then show ?thesis using w by simp
  next
    case (2 t)
    have T: "layout_ok t" "file_ok t (icache t ! i)" "extends i s t"
      "\<And>p. p < MAXFILE * BSIZE \<Longrightarrow> fcont t (icache t ! i) p = (if ?o \<le> p \<and> p < ?o + length src then src ! (p - ?o) else fcont s ?ip p)"
      "\<And>p. ?o \<le> p \<Longrightarrow> p < ?o + length src \<Longrightarrow> faddr t (icache t ! i) (p div BSIZE) \<noteq> 0"
      "\<And>m. m < MAXFILE \<Longrightarrow> faddr s ?ip m \<noteq> 0 \<Longrightarrow> faddr t (icache t ! i) m \<noteq> 0"
      using 2(2) by (simp_all add: wrote_def)
    note E = extendsD [OF T(3)]
    obtain as where ip': "icache t ! i = ?ip\<lparr>i_addrs := as\<rparr>" using E(4) by blast
    have it: "i < length (icache t)" "i_size (icache t ! i) = i_size ?ip" "IBLOCK (unat (i_inum (icache t ! i))) (sb t) < unat (sb_bmapstart (sb t))"
      using I(1,6) E(1,2) ip' by simp_all
    let ?s = "resized i (off + n) t"
    have n0: "i_size ?ip < off + n \<Longrightarrow> 0 < n" using off(1) by (metis add_0_right leD word_neq_0_conv)
    have res: "writei devsw i src off n s = Inr (uint n, ?s)"
      unfolding w using 2(1) n0 it(2) by (auto simp: resized_def)
    have R: "layout_ok ?s" "file_ok ?s (icache ?s ! i)" "i_size (icache ?s ! i) = max (i_size ?ip) (off + n)"
      "\<And>m. faddr ?s (icache ?s ! i) m = faddr t (icache t ! i) m" "\<And>p. p < MAXFILE * BSIZE \<Longrightarrow> fcont ?s (icache ?s ! i) p = fcont t (icache t ! i) p"
      "\<And>b. data_start t \<le> b \<Longrightarrow> blk ?s b = blk t b"
      using resized_ok [OF T(1,2) it(1,3), of "off + n"] it(2) by simp_all
    have z: "unat (i_size (icache ?s ! i)) = max (unat (i_size ?ip)) (?o + length src)"
      unfolding R(3) using sum(1) src by (simp add: max_def word_le_nat_alt)
    have big: "max (unat (i_size ?ip)) (?o + length src) \<le> MAXFILE * BSIZE" using I(3) off(2) src by simp
    have data: "file_data ?s (icache ?s ! i) = take ?o (file_data s ?ip) @ src @ drop (?o + length src) (file_data s ?ip)"
    proof (rule take_drop_data)
      show "length (file_data s ?ip) = unat (i_size ?ip)" by (simp add: file_data_def)
      show "?o \<le> unat (i_size ?ip)" using off(1) by (simp add: word_le_nat_alt)
      show "file_data ?s (icache ?s ! i) = map (fcont ?s (icache ?s ! i)) [0..<max (unat (i_size ?ip)) (?o + length src)]"
        by (simp add: file_data_def z)
      show "fcont ?s (icache ?s ! i) p = (if ?o \<le> p \<and> p < ?o + length src then src ! (p - ?o) else file_data s ?ip ! p)"
        if p: "p < max (unat (i_size ?ip)) (?o + length src)" for p
      proof -
        have "p < MAXFILE * BSIZE" using p big by (rule less_le_trans)
        moreover have "\<not> (?o \<le> p \<and> p < ?o + length src) \<Longrightarrow> p < unat (i_size ?ip)"
          using p off(1) by (auto simp: word_le_nat_alt max_def split: if_splits)
        ultimately show ?thesis using R(5) T(4) by (auto simp: file_data_def)
      qed
    qed
    have mapped: "faddr ?s (icache ?s ! i) (p div BSIZE) \<noteq> 0" if p: "p < unat (i_size (icache ?s ! i))" for p
    proof -
      have "p < MAXFILE * BSIZE" using p [unfolded z] big by (rule less_le_trans)
      then have "p div BSIZE < MAXFILE" by (rule less_mult_imp_div_less)
      moreover have "?o \<le> p \<and> p < ?o + length src \<or> p < unat (i_size ?ip)"
        using p z off(1) by (auto simp: word_le_nat_alt max_def split: if_splits)
      ultimately show ?thesis unfolding R(4) using T(5,6) I(4) by blast
    qed
    have ok': "inode_ok ?s i"
    proof -
      have "i_type (icache ?s ! i) = i_type ?ip" "i_inum (icache ?s ! i) = i_inum ?ip" "sb ?s = sb s" "length (icache ?s) = length (icache s)"
        using it(1) ip' E(1,2) by (simp_all add: resized_def iupdate_def Let_def)
      with R(2) mapped z big I(1,5,6) show ?thesis by (simp add: inode_ok_def no_holes_def)
    qed
    have iso: "file_data ?s jp = file_data s jp"
      if j: "file_ok s jp" "unat (i_size jp) \<le> MAXFILE * BSIZE" "file_blocks s jp \<inter> file_blocks s ?ip = {}" for jp
    proof (rule file_data_frame [OF _ j(2)])
      show "\<forall>b \<in> file_blocks s jp. blk ?s b = blk s b"
      proof
        fix b assume b: "b \<in> file_blocks s jp"
        note D = file_okD(2,3,4) [OF j(1) b]
        have "blk t b = blk s b" using E(7) [OF D] j(3) b by blast
        then show "blk ?s b = blk s b" using R(6) [of b] D(1) E(9) by simp
      qed
    qed
    show ?thesis using res R(1) ok' data iso src by auto
  qed
qed

lemma readi_ok:
  assumes lay: "layout_ok s" and ok: "inode_ok s i" and off: "off \<le> i_size (icache s ! i)" "unat off + unat n < 2 ^ 32"
  shows "readi devsw i off n s = Inr (int (min (unat n) (unat (i_size (icache s ! i)) - unat off)),
    take (unat n) (drop (unat off) (file_data s (icache s ! i))), s)"
proof -
  let ?ip = "icache s ! i" and ?m = "min (unat n) (unat (i_size (icache s ! i)) - unat off)"
  note I = inode_okD [OF ok]
  have sum: "unat (off + n) = unat off + unat n" using off(2) by (intro unat_add_no_wrap) simp
  then have nw: "\<not> off + n < off" by (simp add: word_less_nat_alt)
  define n' where "n' = (if i_size ?ip < off + n then i_size ?ip - off else n)"
  have sub: "unat (i_size ?ip - off) = unat (i_size ?ip) - unat off" using off(1) by (simp add: unat_sub)
  have le: "unat off \<le> unat (i_size ?ip)" using off(1) by (simp add: word_le_nat_alt)
  have n': "unat n' = ?m" using sum sub le by (auto simp: n'_def word_less_nat_alt min_def)
  have b: "unat off + ?m \<le> MAXFILE * BSIZE" "unat off + ?m \<le> unat (i_size ?ip)" using I(3) le by simp_all
  have "readi_loop i (unat off) (unat n') [] s = Inr ([] @ map (fcont s ?ip) [unat off..<unat off + ?m], s)"
    unfolding n' using I(4) b by (intro readi_loop_mapped [OF lay b(1)]) auto
  moreover have "map (fcont s ?ip) [unat off..<unat off + ?m] = take (unat n) (drop (unat off) (file_data s ?ip))"
  proof -
    have "take (unat n) (drop (unat off) (file_data s ?ip)) = map (fcont s ?ip) (take (unat n) [unat off..<unat (i_size ?ip)])"
      by (simp add: file_data_def drop_map take_map)
    also have "take (unat n) [unat off..<unat (i_size ?ip)] = [unat off..<unat off + ?m]"
      using le by (simp add: min_def)
    finally show ?thesis by simp
  qed
  moreover have "readi devsw i off n s = bindR (readi_loop i (unat off) (unat n') [] s) (\<lambda>(dst, s). Inr (uint n', dst, s))"
    using I(5) off(1) nw by (simp add: readi_def Let_def n'_def leD)
  moreover have "uint n' = int ?m" using n' by (metis uint_nat)
  ultimately show ?thesis by simp
qed

text \<open>A small file system with one file of three bytes, in block 4.\<close>

definition sample_file :: fsys where
  "sample_file = sample_fs\<lparr>blk := (\<lambda>b. if b = 3 then 0x1F # replicate 511 0 else if b = 4 then [1, 2, 3] @ replicate 509 0 else replicate 512 0),
     icache := [\<lparr>i_inum = 1, i_ref = 1, i_lock = Some 1, i_valid = True, i_type = 2, i_major = 0, i_minor = 0, i_nlink = 1, i_size = 3,
       i_addrs = 4 # replicate 12 0\<rparr>]\<rparr>"

lemma sample_file_used: "b < 20 \<Longrightarrow> used sample_file b \<longleftrightarrow> b < 5"
proof -
  assume b: "b < 20"
  have "\<forall>b \<in> set [0..<20]. used sample_file b \<longleftrightarrow> b < 5"
    by (simp add: upt_rec used_def BBLOCK_def sample_fs_def sample_file_def block_bit_iff bit_simps)
  with b show ?thesis by simp
qed

lemma sample_file_layout: "layout_ok sample_file"
proof -
  have "data_start sample_file = 4" "fs_size sample_file = 20" by (simp_all add: data_start_def sample_fs_def sample_file_def)
  then show ?thesis using sample_file_used by (auto simp: layout_ok_def) (simp add: sample_file_def)
qed

lemma sample_file_faddr: "m < MAXFILE \<Longrightarrow> faddr sample_file (icache sample_file ! 0) m = (if m = 0 then 4 else 0)"
  by (auto simp: faddr_def sample_file_def nth_Cons')

lemma sample_file_blocks: "file_blocks sample_file (icache sample_file ! 0) = {4}"
proof -
  have i: "ind_block (icache sample_file ! 0) = 0" by (simp add: ind_block_def sample_file_def)
  have "\<exists>bn < MAXFILE. faddr sample_file (icache sample_file ! 0) bn = 4" by (rule exI [of _ 0]) (simp add: sample_file_faddr)
  moreover have "b = 4" if "b \<noteq> 0" "bn < MAXFILE" "faddr sample_file (icache sample_file ! 0) bn = b" for b bn
    using that sample_file_faddr [OF that(2)] by (simp split: if_splits)
  ultimately show ?thesis unfolding file_blocks_def i by auto
qed

lemma sample_file_inode: "inode_ok sample_file 0"
proof -
  have f: "data_start sample_file = 4" "fs_size sample_file = 20" by (simp_all add: data_start_def sample_fs_def sample_file_def)
  have "ind_block (icache sample_file ! 0) = 0" by (simp add: ind_block_def sample_file_def)
  then have "file_ok sample_file (icache sample_file ! 0)"
    using sample_file_used [of 4] sample_file_faddr unfolding file_ok_def sample_file_blocks f by (simp add: sample_file_def)
  moreover have "no_holes sample_file (icache sample_file ! 0)"
    using sample_file_faddr [of 0] by (auto simp: no_holes_def sample_file_def)
  ultimately show ?thesis by (simp add: inode_ok_def) (simp add: sample_file_def sample_fs_def IBLOCK_def)
qed

end
