(* ===== verification/FsTrunc.thy ===== *)
theory FsTrunc
  imports FsFile
begin

text \<open>
  Truncation (fs.c: itrunc). The lemmas follow the two loops and show that truncation frees exactly
  the blocks of the file, its indirect block included, and touches no other file.
\<close>

definition freeing :: "fsys \<Rightarrow> nat set \<Rightarrow> fsys \<Rightarrow> bool" where
  "freeing s F t \<longleftrightarrow> layout_ok t \<and> sb t = sb s \<and> (\<forall>c < fs_size s. used t c \<longleftrightarrow> used s c \<and> c \<notin> F) \<and>
     (\<forall>c. c < unat (sb_bmapstart (sb s)) \<or> data_start s \<le> c \<longrightarrow> blk t c = blk s c)"

lemma freeing_refl: "layout_ok s \<Longrightarrow> freeing s {} s"
  by (simp add: freeing_def)

lemma freeing_cong: "freeing s F t \<Longrightarrow> sb u = sb t \<Longrightarrow> blk u = blk t \<Longrightarrow> freeing s F u"
  using layout_cong [of u t] used_cong [of u t] by (simp add: freeing_def)

lemma freeing_step:
  assumes f: "freeing s F t" and b: "data_start s \<le> b" "b < fs_size s" "used s b" "b \<notin> F"
  shows "\<exists>u. bfree b t = Inr u \<and> freeing s (insert b F) u \<and> icache u = icache t"
proof -
  have sb: "sb t = sb s" and lay: "layout_ok t" and us: "used t b" using f b by (simp_all add: freeing_def)
  obtain u where u: "bfree b t = Inr u" "freed t b u" using bfree_spec(1) [OF lay _ _ us] b(1,2) sb data_start_sb [OF sb] by auto
  have "freeing s (insert b F) u" using u(2) f data_start_sb [OF sb] by (auto simp: freed_def freeing_def)
  with u show ?thesis by (auto simp: freed_def)
qed

lemma forR_last: "forR [0..<Suc k] f s = bindR (forR [0..<k] f s) (f k)"
proof -
  have "forR [k] f = f k" by (rule ext) (simp add: bindR_def split: sum.split)
  then show ?thesis by (simp add: forR_append)
qed

text \<open>The addresses of the first n blocks.\<close>

definition first_blocks :: "fsys \<Rightarrow> inode \<Rightarrow> nat \<Rightarrow> nat set" where
  "first_blocks s ip n = {b. b \<noteq> 0 \<and> (\<exists>m < n. faddr s ip m = b)}"

lemma first_blocks_Suc:
  "first_blocks s ip (Suc n) = (if faddr s ip n = 0 then first_blocks s ip n else insert (faddr s ip n) (first_blocks s ip n))"
  by (auto simp: first_blocks_def less_Suc_eq)

lemma first_blocks_new:
  assumes "file_ok s ip" "n < MAXFILE" "faddr s ip n \<noteq> 0"
  shows "faddr s ip n \<notin> first_blocks s ip n" "data_start s \<le> faddr s ip n" "faddr s ip n < fs_size s" "used s (faddr s ip n)"
proof -
  show "faddr s ip n \<notin> first_blocks s ip n"
  proof
    assume "faddr s ip n \<in> first_blocks s ip n"
    then obtain m where "m < n" "faddr s ip m = faddr s ip n" by (auto simp: first_blocks_def)
    then show False using file_okD(5) [OF assms(1) assms(2), of m] assms(2,3) by simp
  qed
qed (use faddr_in [OF assms(2,3)] file_okD(2-4) [OF assms(1)] in blast)+

lemma zero_prefix:
  "k < length A \<Longrightarrow> (replicate k 0 @ drop k A)[k := 0] = replicate (Suc k) 0 @ drop (Suc k) A"
  "k < length A \<Longrightarrow> (replicate k 0 @ drop k A) ! k = A ! k"
proof -
  assume "k < length A"
  then have "drop k A = A ! k # drop (Suc k) A" by (rule Cons_nth_drop_Suc [symmetric])
  then show "(replicate k 0 @ drop k A)[k := 0] = replicate (Suc k) 0 @ drop (Suc k) A" "(replicate k 0 @ drop k A) ! k = A ! k"
    by (simp_all add: list_update_append nth_append replicate_append_same [symmetric])
qed

lemma trunc_direct_loop:
  assumes lay: "layout_ok s" and ok: "file_ok s (icache s ! i)" and i: "i < length (icache s)" and k: "k \<le> NDIRECT"
  shows "\<exists>t. forR [0..<k] (trunc_direct i) s = Inr t \<and> freeing s (first_blocks s (icache s ! i) k) t \<and>
    icache t = (icache s)[i := (icache s ! i)\<lparr>i_addrs := replicate k 0 @ drop k (i_addrs (icache s ! i))\<rparr>]"
  using k
proof (induction k)
  case 0
  then show ?case using freeing_refl [OF lay] by (simp add: first_blocks_def)
next
  case (Suc k)
  let ?ip = "icache s ! i" and ?A = "i_addrs (icache s ! i)"
  obtain t where t: "forR [0..<k] (trunc_direct i) s = Inr t" "freeing s (first_blocks s ?ip k) t"
    "icache t = (icache s)[i := ?ip\<lparr>i_addrs := replicate k 0 @ drop k ?A\<rparr>]"
    using Suc by auto
  have kA: "k < length ?A" using Suc.prems file_okD(1) [OF ok] by simp
  have ad: "i_addrs (icache t ! i) ! k = ?A ! k" "faddr s ?ip k = unat (?A ! k)"
    using t(3) i zero_prefix(2) [OF kA] Suc.prems by (simp_all add: faddr_def)
  have st: "forR [0..<Suc k] (trunc_direct i) s = trunc_direct i k t" using t(1) unfolding forR_last by simp
  show ?case
  proof (cases "?A ! k = 0")
    case True
    have "replicate (Suc k) 0 @ drop (Suc k) ?A = replicate k 0 @ drop k ?A"
      unfolding zero_prefix(1) [OF kA, symmetric] using zero_prefix(2) [OF kA] True by (metis list_update_id)
    moreover have "trunc_direct i k t = Inr t" "first_blocks s ?ip (Suc k) = first_blocks s ?ip k"
      using ad True by (simp_all add: trunc_direct_def first_blocks_Suc)
    ultimately show ?thesis using st t(2,3) by metis
  next
    case False
    then have nz: "faddr s ?ip k \<noteq> 0" using ad(2) by (simp add: unat_gt_0)
    have kM: "k < MAXFILE" using Suc.prems by simp
    note N = first_blocks_new [OF ok kM nz]
    obtain u where u: "bfree (faddr s ?ip k) t = Inr u" "freeing s (insert (faddr s ?ip k) (first_blocks s ?ip k)) u" "icache u = icache t"
      using freeing_step [OF t(2) N(2-4,1)] by blast
    let ?u = "upd_inode i (\<lambda>ip. ip\<lparr>i_addrs := (i_addrs ip)[k := 0]\<rparr>) u"
    have "trunc_direct i k t = Inr ?u" using u(1) ad False by (simp add: trunc_direct_def)
    moreover have "freeing s (first_blocks s ?ip (Suc k)) ?u"
      by (rule freeing_cong [of _ _ u]) (use u(2) nz in \<open>simp_all add: first_blocks_Suc\<close>)
    moreover have "icache ?u = (icache s)[i := ?ip\<lparr>i_addrs := replicate (Suc k) 0 @ drop (Suc k) ?A\<rparr>]"
      using i u(3) t(3) by (simp add: upd_inode_def zero_prefix(1) [OF kA] del: replicate_Suc)
    ultimately show ?thesis using st by auto
  qed
qed

lemma trunc_indirect_loop:
  assumes ok: "file_ok s ip" and ind: "i_addrs ip ! NDIRECT \<noteq> 0" and t: "freeing s (first_blocks s ip NDIRECT) t" and k: "k \<le> NINDIRECT"
  shows "\<exists>u. forR [0..<k] (trunc_indirect (blk s (ind_block ip))) t = Inr u \<and> freeing s (first_blocks s ip (NDIRECT + k)) u \<and> icache u = icache t"
  using k
proof (induction k)
  case 0
  then show ?case using t by simp
next
  case (Suc k)
  then obtain u where u: "forR [0..<k] (trunc_indirect (blk s (ind_block ip))) t = Inr u" "freeing s (first_blocks s ip (NDIRECT + k)) u"
    "icache u = icache t" by auto
  have st: "forR [0..<Suc k] (trunc_indirect (blk s (ind_block ip))) t = trunc_indirect (blk s (ind_block ip)) k u"
    using u(1) unfolding forR_last by simp
  have ad: "faddr s ip (NDIRECT + k) = unat (get32 (blk s (ind_block ip)) k)" using ind by (simp add: faddr_def ind_block_def)
  show ?case
  proof (cases "get32 (blk s (ind_block ip)) k = 0")
    case True
    then have "first_blocks s ip (NDIRECT + Suc k) = first_blocks s ip (NDIRECT + k)" using ad first_blocks_Suc [of s ip "NDIRECT + k"] by simp
    moreover have "trunc_indirect (blk s (ind_block ip)) k u = Inr u" using True by (simp add: trunc_indirect_def)
    ultimately show ?thesis using st u(2,3) by metis
  next
    case False
    then have nz: "faddr s ip (NDIRECT + k) \<noteq> 0" using ad by (simp add: unat_gt_0)
    have kM: "NDIRECT + k < MAXFILE" using Suc.prems by simp
    note N = first_blocks_new [OF ok kM nz]
    have "first_blocks s ip (NDIRECT + Suc k) = insert (faddr s ip (NDIRECT + k)) (first_blocks s ip (NDIRECT + k))"
      using nz first_blocks_Suc [of s ip "NDIRECT + k"] by simp
    moreover have "trunc_indirect (blk s (ind_block ip)) k u = bfree (faddr s ip (NDIRECT + k)) u" using False ad by (simp add: trunc_indirect_def)
    ultimately show ?thesis using st freeing_step [OF u(2) N(2-4,1)] u(3) by metis
  qed
qed

lemma file_blocks_first: "file_blocks s ip = first_blocks s ip MAXFILE \<union> (if ind_block ip = 0 then {} else {ind_block ip})"
  by (auto simp: file_blocks_def first_blocks_def)

lemma first_blocks_direct:
  assumes "i_addrs ip ! NDIRECT = 0"
  shows "first_blocks s ip MAXFILE = first_blocks s ip NDIRECT"
proof -
  have z: "faddr s ip m = 0" if "\<not> m < NDIRECT" for m using that assms by (simp add: faddr_def)
  have "m < NDIRECT" if "faddr s ip m \<noteq> 0" for m using z [of m] that by (cases "m < NDIRECT") simp_all
  then have "b \<in> first_blocks s ip NDIRECT" if b: "b \<in> first_blocks s ip MAXFILE" for b
    using b unfolding first_blocks_def by auto
  moreover have "b \<in> first_blocks s ip MAXFILE" if b: "b \<in> first_blocks s ip NDIRECT" for b
  proof -
    obtain m where m: "m < NDIRECT" "faddr s ip m = b" "b \<noteq> 0" using b unfolding first_blocks_def by blast
    then have "m < MAXFILE" by simp
    with m show ?thesis unfolding first_blocks_def by blast
  qed
  ultimately show ?thesis by auto
qed

text \<open>Both loops, the state before the dinode is written.\<close>

lemma trunc_loops:
  assumes lay: "layout_ok s" and ok: "file_ok s (icache s ! i)" and i: "i < length (icache s)"
  shows "\<exists>t. itrunc i s = Inr (iupdate i (upd_inode i (\<lambda>ip. ip\<lparr>i_size := 0\<rparr>) t)) \<and> freeing s (file_blocks s (icache s ! i)) t \<and>
    icache t = (icache s)[i := (icache s ! i)\<lparr>i_addrs := replicate 13 0\<rparr>]"
proof -
  let ?ip = "icache s ! i" and ?A = "i_addrs (icache s ! i)"
  have len: "length ?A = 13" by (rule file_okD(1) [OF ok])
  obtain t where t: "forR [0..<NDIRECT] (trunc_direct i) s = Inr t" "freeing s (first_blocks s ?ip NDIRECT) t"
    "icache t = (icache s)[i := ?ip\<lparr>i_addrs := replicate NDIRECT 0 @ drop NDIRECT ?A\<rparr>]"
    using trunc_direct_loop [OF lay ok i le_refl] by blast
  have dr: "drop NDIRECT ?A = [?A ! NDIRECT]" using len Cons_nth_drop_Suc [of NDIRECT ?A] by simp
  have ad: "i_addrs (icache t ! i) ! NDIRECT = ?A ! NDIRECT" using t(3) i by (simp add: dr nth_append)
  have r13: "replicate 13 (0::u32) = replicate NDIRECT 0 @ [0]" by (simp add: numeral_eq_Suc)
  show ?thesis
  proof (cases "?A ! NDIRECT = 0")
    case True
    then have "ind_block ?ip = 0" by (simp add: ind_block_def)
    then have "file_blocks s ?ip = first_blocks s ?ip NDIRECT" using first_blocks_direct [of ?ip s] True by (simp add: file_blocks_first)
    moreover have "itrunc i s = Inr (iupdate i (upd_inode i (\<lambda>ip. ip\<lparr>i_size := 0\<rparr>) t))" using t(1) ad True by (simp add: itrunc_def)
    ultimately show ?thesis using t(2,3) True by (intro exI [of _ t]) (simp add: dr r13)
  next
    case False
    then have nz: "ind_block ?ip \<noteq> 0" by (simp add: ind_block_def unat_gt_0)
    note I = file_okD(2-4) [OF ok ind_in [OF nz]]
    have bi: "blk t (ind_block ?ip) = blk s (ind_block ?ip)" using t(2) I(1) by (simp add: freeing_def)
    obtain u where u: "forR [0..<NINDIRECT] (trunc_indirect (blk t (ind_block ?ip))) t = Inr u"
      "freeing s (first_blocks s ?ip MAXFILE) u" "icache u = icache t"
      using trunc_indirect_loop [OF ok False t(2) le_refl] unfolding bi by auto
    have nin: "ind_block ?ip \<notin> first_blocks s ?ip MAXFILE" 
    proof
      assume "ind_block ?ip \<in> first_blocks s ?ip MAXFILE"
      then obtain m where m: "m < MAXFILE" "faddr s ?ip m = ind_block ?ip" unfolding first_blocks_def by auto
      then show False using file_okD(6) [OF ok m(1)] nz by simp
    qed
    obtain v where v: "bfree (ind_block ?ip) u = Inr v" "freeing s (insert (ind_block ?ip) (first_blocks s ?ip MAXFILE)) v" "icache v = icache u"
      using freeing_step [OF u(2) I nin] by blast
    let ?v = "upd_inode i (\<lambda>ip. ip\<lparr>i_addrs := (i_addrs ip)[NDIRECT := 0]\<rparr>) v"
    have "itrunc i s = Inr (iupdate i (upd_inode i (\<lambda>ip. ip\<lparr>i_size := 0\<rparr>) ?v))"
      using t(1) ad False u(1) v(1) by (simp add: itrunc_def ind_block_def)
    moreover have "freeing s (file_blocks s ?ip) ?v"
      by (rule freeing_cong [of _ _ v]) (use v(2) nz in \<open>simp_all add: file_blocks_first\<close>)
    moreover have "icache ?v = (icache s)[i := ?ip\<lparr>i_addrs := replicate 13 0\<rparr>]"
      using i v(3) u(3) t(3) by (simp add: upd_inode_def dr r13 list_update_append)
    ultimately show ?thesis by blast
  qed
qed

subsection \<open>Properties\<close>

text \<open>
  C27: truncation frees a file. On a file whose blocks are in use and distinct, itrunc succeeds; the
  blocks of the file, direct, indirect and the indirect block itself, become free and no other
  block does; the inode then has size zero and no addresses; and every file that shares no block
  with it keeps its blocks and its contents.
\<close>

theorem truncation_frees_file:
  assumes "layout_ok s" "file_ok s (icache s ! i)" "i < length (icache s)" "IBLOCK (unat (i_inum (icache s ! i))) (sb s) < unat (sb_bmapstart (sb s))"
  shows "\<exists>s'. itrunc i s = Inr s' \<and> layout_ok s' \<and> (\<forall>c < fs_size s. used s' c \<longleftrightarrow> used s c \<and> c \<notin> file_blocks s (icache s ! i)) \<and>
    icache s' = (icache s)[i := (icache s ! i)\<lparr>i_addrs := replicate 13 0, i_size := 0\<rparr>] \<and>
    (\<forall>jp. file_ok s jp \<longrightarrow> unat (i_size jp) \<le> 71680 \<longrightarrow> file_blocks s jp \<inter> file_blocks s (icache s ! i) = {} \<longrightarrow>
       file_ok s' jp \<and> file_data s' jp = file_data s jp)"
proof -
  let ?ip = "icache s ! i" and ?b = "IBLOCK (unat (i_inum (icache s ! i))) (sb s)"
  obtain t where t: "itrunc i s = Inr (iupdate i (upd_inode i (\<lambda>ip. ip\<lparr>i_size := 0\<rparr>) t))" "freeing s (file_blocks s ?ip) t"
    "icache t = (icache s)[i := ?ip\<lparr>i_addrs := replicate 13 0\<rparr>]"
    using trunc_loops [OF assms(1-3)] by blast
  define u where "u = upd_inode i (\<lambda>ip. ip\<lparr>i_size := 0\<rparr>) t"
  have u: "freeing s (file_blocks s ?ip) u" "icache u = (icache s)[i := ?ip\<lparr>i_addrs := replicate 13 0, i_size := 0\<rparr>]"
    using freeing_cong [OF t(2), of u] t(3) assms(3) by (simp_all add: u_def upd_inode_def)
  have U: "layout_ok u" "sb u = sb s" "data_start u = data_start s" using u(1) data_start_sb [of u s] by (simp_all add: freeing_def)
  let ?ip' = "?ip\<lparr>i_addrs := replicate 13 0, i_size := 0\<rparr>"
  define d where "d = write_dinode ?ip' (unat (i_inum ?ip) mod IPB) (blk u ?b)"
  have s': "iupdate i u = put_blk ?b d u" using assms(3) by (simp add: iupdate_def Let_def u(2) U(2) d_def)
  have d: "length d = BSIZE" unfolding d_def using U(1) by (intro write_dinode_length) (simp_all add: layout_ok_def)
  note M = meta_write [OF U(1), of ?b d, unfolded U(2), OF assms(4) d]
  have us: "used (put_blk ?b d u) c \<longleftrightarrow> used s c \<and> c \<notin> file_blocks s ?ip" if "c < fs_size s" for c
    using M(2) [OF that] u(1) that by (simp add: freeing_def)
  have other: "file_ok (put_blk ?b d u) jp \<and> file_data (put_blk ?b d u) jp = file_data s jp"
    if j: "file_ok s jp" "unat (i_size jp) \<le> MAXFILE * BSIZE" "file_blocks s jp \<inter> file_blocks s ?ip = {}" for jp
  proof -
    have b: "\<forall>c \<in> file_blocks s jp. blk u c = blk s c" using file_okD(2) [OF j(1)] u(1) by (simp add: freeing_def)
    note F = file_frame [OF b]
    have "file_ok u jp" using j(1,3) u(1) unfolding file_ok_def F(1,3) U(3) freeing_def by auto
    with M(3) M(4) have "file_ok (put_blk ?b d u) jp" "\<forall>c \<in> file_blocks s jp. blk (put_blk ?b d u) c = blk s c" using b F(3) by auto
    then show ?thesis using file_data_frame [OF _ j(2)] by simp
  qed
  show ?thesis
    using t(1) s' M(1) us other u(2) unfolding u_def [symmetric] by (intro exI [of _ "put_blk ?b d u"]) simp
qed

theorem truncation_frees_file_witness:
  "\<exists>s'. itrunc 0 sample_file = Inr s' \<and> used sample_file 4 \<and> \<not> used s' 4 \<and> used s' 3 \<and> i_size (icache s' ! 0) = 0"
proof -
  note I = inode_okD [OF sample_file_inode]
  have "fs_size sample_file = 20" "length (icache sample_file) = 1" by (simp_all add: sample_file_def sample_fs_def)
  then show ?thesis
    using truncation_frees_file [OF sample_file_layout I(2,1,6)] sample_file_blocks sample_file_used [of 4] sample_file_used [of 3] by (auto simp: length_Suc_conv)
qed

end
