(* ===== verification/FsDir.thy ===== *)
theory FsDir
  imports FsFile
begin

text \<open>
  Directories and paths (fs.c: namecmp, dirlookup, dirlink, skipelem, namex, namei, nameiparent).
  A string is the list of its bytes before the terminating zero, a name buffer is a list of DIRSIZ
  bytes. A directory entry is 16 bytes of the directory's contents. The routines have checked that
  the inode is a directory, so the device switch of readi and writei is out of reach.
\<close>

abbreviation DIRSIZ :: nat where "DIRSIZ \<equiv> 14"

subsection \<open>Names\<close>

definition hd0 :: "u8 list \<Rightarrow> u8" where
  "hd0 p = (case p of [] \<Rightarrow> 0 | c # _ \<Rightarrow> c)"

text \<open>strncmp on the bytes of two strings.\<close>

fun strncmp_bytes :: "nat \<Rightarrow> u8 list \<Rightarrow> u8 list \<Rightarrow> int" where
  "strncmp_bytes 0 p q = 0"
| "strncmp_bytes (Suc n) p q =
     (if hd0 p \<noteq> 0 \<and> hd0 p = hd0 q then strncmp_bytes n (tl p) (tl q) else uint (hd0 p) - uint (hd0 q))"

definition namecmp :: "u8 list \<Rightarrow> u8 list \<Rightarrow> int" where
  "namecmp s t = strncmp_bytes DIRSIZ s t"

text \<open>strncpy of a name into a buffer of DIRSIZ bytes: the rest is zero.\<close>

definition strncpy_name :: "u8 list \<Rightarrow> u8 list" where
  "strncpy_name name = (let c = take DIRSIZ (takeWhile (\<lambda>b. b \<noteq> 0) name) in c @ replicate (DIRSIZ - length c) 0)"

subsection \<open>Directories\<close>

definition de_inum :: "u8 list \<Rightarrow> u16" where
  "de_inum de = word16 (slice 0 2 de)"

definition de_name :: "u8 list \<Rightarrow> u8 list" where
  "de_name de = slice 2 DIRSIZ de"

definition dirent_bytes :: "u16 \<Rightarrow> u8 list \<Rightarrow> u8 list" where
  "dirent_bytes inum name = bytes16 inum @ name"

lemma balloc_loop_icache: "balloc_loop b s = Inr (a, t) \<Longrightarrow> icache t = icache s"
proof (induction b s arbitrary: a t rule: balloc_loop.induct)
  case (1 b s)
  then show ?case
    by (subst (asm) (2) balloc_loop.simps) (auto simp: Let_def bzero_def put_blk_def split: if_splits option.splits)
qed

lemma upd_addrs_size: "i_size (icache (upd_inode i (\<lambda>ip. ip\<lparr>i_addrs := f ip\<rparr>) s) ! i) = i_size (icache s ! i)"
  by (cases "i < length (icache s)") (simp_all add: upd_inode_def not_less list_update_beyond)

lemma bmap_size: "bmap i bn s = Inr (a, t) \<Longrightarrow> i_size (icache t ! i) = i_size (icache s ! i)"
  unfolding bmap_def balloc_def
  by (auto simp: Let_def bindR_def upd_addrs_size put_blk_def split: if_splits sum.splits prod.splits dest!: balloc_loop_icache)

lemma readi_loop_size: "readi_loop i off n dst s = Inr (d, t) \<Longrightarrow> i_size (icache t ! i) = i_size (icache s ! i)"
proof (induction i off n dst s arbitrary: d t rule: readi_loop.induct)
  case (1 i off n dst s)
  show ?case
  proof (cases "n = 0 \<or> (\<exists>e. bmap i (off div BSIZE) s = Inl e)")
    case True
    then show ?thesis using 1(2) by (auto simp: readi_loop.simps [of i off n] split: if_splits)
  next
    case False
    then obtain a u where b: "bmap i (off div BSIZE) s = Inr (a, u)" "n \<noteq> 0" by (cases "bmap i (off div BSIZE) s") auto
    show ?thesis using 1(1) [OF b(2,1) refl refl] 1(2) bmap_size [OF b(1)] b by (simp add: readi_loop.simps [of i off n] Let_def)
  qed
qed

lemma readi_size:
  "readi (\<lambda>_. None) i off n s = Inr (r, d, t) \<Longrightarrow> i_size (icache t ! i) = i_size (icache s ! i)"
  by (auto simp: readi_def Let_def bindR_def dest: readi_loop_size split: if_splits sum.splits)

text \<open>The loops of dirlookup and dirlink over the entries.\<close>

function dirlookup_loop :: "nat \<Rightarrow> u8 list \<Rightarrow> nat \<Rightarrow> fsys \<Rightarrow> ((nat \<times> nat) option \<times> fsys) res" where
  "dirlookup_loop i name off s =
     (if off < unat (i_size (icache s ! i)) then
        bindR (readi (\<lambda>_. None) i (of_nat off) 16 s) (\<lambda>(r, de, s).
          if r \<noteq> 16 then Inl (Panic ''dirlookup read'')
          else if de_inum de = 0 then dirlookup_loop i name (off + 16) s
          else if namecmp name (de_name de) = 0 then
            bindR (iget (ucast (de_inum de)) s) (\<lambda>(j, s). Inr (Some (j, off), s))
          else dirlookup_loop i name (off + 16) s)
      else Inr (None, s))"
  by auto

termination dirlookup_loop
  by (relation "measure (\<lambda>(i, _, off, s). unat (i_size (icache s ! i)) - off)") (auto dest!: readi_size)

declare dirlookup_loop.simps [simp del]

definition dirlookup :: "nat \<Rightarrow> u8 list \<Rightarrow> fsys \<Rightarrow> ((nat \<times> nat) option \<times> fsys) res" where
  "dirlookup i name s =
     (if i_type (icache s ! i) \<noteq> T_DIR then Inl (Panic ''dirlookup not DIR'')
      else dirlookup_loop i name 0 s)"

function dirlink_slot :: "nat \<Rightarrow> nat \<Rightarrow> fsys \<Rightarrow> (nat \<times> fsys) res" where
  "dirlink_slot i off s =
     (if off < unat (i_size (icache s ! i)) then
        bindR (readi (\<lambda>_. None) i (of_nat off) 16 s) (\<lambda>(r, de, s).
          if r \<noteq> 16 then Inl (Panic ''dirlink read'')
          else if de_inum de = 0 then Inr (off, s)
          else dirlink_slot i (off + 16) s)
      else Inr (off, s))"
  by auto

termination dirlink_slot
  by (relation "measure (\<lambda>(i, off, s). unat (i_size (icache s ! i)) - off)") (auto dest!: readi_size)

declare dirlink_slot.simps [simp del]

definition dirlink :: "int \<Rightarrow> nat \<Rightarrow> u8 list \<Rightarrow> u32 \<Rightarrow> fsys \<Rightarrow> (int \<times> fsys) res" where
  "dirlink pid i name inum s =
     bindR (dirlookup i name s) (\<lambda>(r, s).
       case r of
         Some (j, _) \<Rightarrow> bindR (iput pid j s) (\<lambda>s. Inr (-1, s))
       | None \<Rightarrow>
           bindR (dirlink_slot i 0 s) (\<lambda>(off, s).
           bindR (writei (\<lambda>_. None) i (dirent_bytes (ucast inum) (strncpy_name name)) (of_nat off) 16 s) (\<lambda>(r, s).
             if r \<noteq> 16 then Inl (Panic ''dirlink'') else Inr (0, s))))"

subsection \<open>Paths\<close>

definition skipelem :: "u8 list \<Rightarrow> u8 list \<Rightarrow> (u8 list \<times> u8 list) option" where
  "skipelem path name =
     (let path = dropWhile (\<lambda>c. c = 47) path
      in if hd0 path = 0 then None
         else
           let e = takeWhile (\<lambda>c. c \<noteq> 47 \<and> c \<noteq> 0) path;
               path = drop (length e) path;
               name = (if DIRSIZ \<le> length e then take DIRSIZ e else e @ 0 # drop (length e + 1) name)
           in Some (dropWhile (\<lambda>c. c = 47) path, name))"

lemma skipelem_shorter: "skipelem path name = Some (path', name') \<Longrightarrow> length path' < length path"
proof -
  assume a: "skipelem path name = Some (path', name')"
  define p where "p = dropWhile (\<lambda>c. c = 47) path"
  have nz: "hd0 p \<noteq> 0" and p': "path' = dropWhile (\<lambda>c. c = 47) (drop (length (takeWhile (\<lambda>c. c \<noteq> 47 \<and> c \<noteq> 0) p)) p)"
    using a by (auto simp: skipelem_def Let_def p_def split: if_splits)
  obtain c cs where c: "p = c # cs" "c \<noteq> 0" using nz by (cases p) (auto simp: hd0_def)
  have "c \<noteq> 47" using c(1) hd_dropWhile [of "\<lambda>c. c = 47" path] unfolding p_def by (metis list.discI list.sel(1))
  then have "length path' < length p"
    using c p' length_dropWhile_le [of "\<lambda>c. c = 47" "drop (length (takeWhile (\<lambda>c. c \<noteq> 47 \<and> c \<noteq> 0) p)) p"] by auto
  also have "length p \<le> length path" unfolding p_def by (rule length_dropWhile_le)
  finally show ?thesis .
qed

function namex_loop :: "int \<Rightarrow> bool \<Rightarrow> u8 list \<Rightarrow> u8 list \<Rightarrow> nat \<Rightarrow> fsys \<Rightarrow> (nat option \<times> u8 list \<times> fsys) res" where
  "namex_loop pid nameiparent path name ip s =
     (case skipelem path name of
        None \<Rightarrow>
          if nameiparent then bindR (iput pid ip s) (\<lambda>s. Inr (None, name, s))
          else Inr (Some ip, name, s)
      | Some (path, name) \<Rightarrow>
          bindR (ilock pid ip s) (\<lambda>s.
            if i_type (icache s ! ip) \<noteq> T_DIR then bindR (iunlockput pid ip s) (\<lambda>s. Inr (None, name, s))
            else if nameiparent \<and> hd0 path = 0 then bindR (iunlock pid ip s) (\<lambda>s. Inr (Some ip, name, s))
            else
              bindR (dirlookup ip name s) (\<lambda>(r, s).
                case r of
                  None \<Rightarrow> bindR (iunlockput pid ip s) (\<lambda>s. Inr (None, name, s))
                | Some (nxt, _) \<Rightarrow> bindR (iunlockput pid ip s) (namex_loop pid nameiparent path name nxt))))"
  by auto

termination namex_loop
  by (relation "measure (\<lambda>(_, _, path, _). length path)") (auto dest: skipelem_shorter)

declare namex_loop.simps [simp del]

definition namex :: "int \<Rightarrow> nat \<Rightarrow> u8 list \<Rightarrow> bool \<Rightarrow> u8 list \<Rightarrow> fsys \<Rightarrow> (nat option \<times> u8 list \<times> fsys) res" where
  "namex pid cwd path nameiparent name s =
     (if hd0 path = 47 then bindR (iget 1 s) (\<lambda>(ip, s). namex_loop pid nameiparent path name ip s)
      else namex_loop pid nameiparent path name cwd (idup cwd s))"

text \<open>The buffer of namei is a local array that nothing has written: its contents are \<open>junk\<close>.\<close>

definition namei :: "int \<Rightarrow> nat \<Rightarrow> u8 list \<Rightarrow> u8 list \<Rightarrow> fsys \<Rightarrow> (nat option \<times> fsys) res" where
  "namei pid cwd junk path s = bindR (namex pid cwd path False junk s) (\<lambda>(r, _, s). Inr (r, s))"

definition nameiparent :: "int \<Rightarrow> nat \<Rightarrow> u8 list \<Rightarrow> u8 list \<Rightarrow> fsys \<Rightarrow> (nat option \<times> u8 list \<times> fsys) res" where
  "nameiparent pid cwd path name s = namex pid cwd path True name s"

end
