(* ===== verification/FsWrite.thy ===== *)
theory FsWrite
  imports FsFile
begin

text \<open>
  Room for a write, and the properties of files. A write needs a free block for each block of the
  file it touches and one for the indirect block; with that many it cannot run out of blocks.
\<close>

subsection \<open>Room\<close>

definition free_blocks :: "fsys \<Rightarrow> nat set" where
  "free_blocks s = {b. b < fs_size s \<and> \<not> used s b}"

text \<open>The blocks a write may still take: an allocated indirect block counts as one.\<close>

definition room :: "nat \<Rightarrow> fsys \<Rightarrow> nat" where
  "room i s = card (free_blocks s) + (if ind_block (icache s ! i) = 0 then 0 else 1)"

lemma finite_free [simp]: "finite (free_blocks s)"
  by (simp add: free_blocks_def)

lemma free_cong: "sb s' = sb s \<Longrightarrow> blk s' = blk s \<Longrightarrow> free_blocks s' = free_blocks s"
  using used_cong [of s' s] by (simp add: free_blocks_def)

lemma free_put_data: "data_start s \<le> b \<Longrightarrow> free_blocks (put_blk b d s) = free_blocks s"
  using used_put_data [of s b _ d] BBLOCK_meta [of _ s] by (fastforce simp: free_blocks_def)

lemma card_allocated: "allocated s a t \<Longrightarrow> card (free_blocks s) = Suc (card (free_blocks t))"
proof -
  assume al: "allocated s a t"
  have "free_blocks s = insert a (free_blocks t)" "a \<notin> free_blocks t"
    using allocatedD(2,3,5,7) [OF al] by (auto simp: free_blocks_def)
  then show ?thesis by simp
qed

lemma balloc_room:
  assumes "layout_ok s" "0 < card (free_blocks s)"
  obtains a t where "balloc s = Inr (a, t)" "allocated s a t" "card (free_blocks s) = Suc (card (free_blocks t))"
proof -
  have "\<exists>c < fs_size s. \<not> used s c" using assms(2) by (auto simp: free_blocks_def card_gt_0_iff)
  then show ?thesis using balloc_spec(1) [OF assms(1)] card_allocated that by blast
qed

lemma ind_addr_room:
  assumes "layout_ok s" "file_ok s (icache s ! i)" "i < length (icache s)" "2 \<le> room i s"
  shows "\<exists>a t. ind_addr i s = Inr (a, t) \<and> keeps_file i s t \<and> a \<noteq> 0 \<and> ind_block (icache t ! i) = a \<and> room i t = room i s"
proof (cases "i_addrs (icache s ! i) ! NDIRECT = 0")
  case False
  then show ?thesis using assms keeps_refl by (auto simp: ind_addr_def ind_block_def unat_gt_0)
next
  case True
  then have c: "0 < card (free_blocks s)" "ind_block (icache s ! i) = 0" using assms(4) by (auto simp: room_def ind_block_def)
  obtain a t where b: "balloc s = Inr (a, t)" "card (free_blocks s) = Suc (card (free_blocks t))"
    by (rule balloc_room [OF assms(1) c(1)])
  let ?s = "upd_inode i (\<lambda>ip. ip\<lparr>i_addrs := (i_addrs ip)[NDIRECT := of_nat a]\<rparr>) t"
  have e: "ind_addr i s = Inr (a, ?s)" using True b(1) by (simp add: ind_addr_def)
  moreover have f: "free_blocks ?s = free_blocks t" by (rule free_cong) simp_all
  moreover have k: "keeps_file i s ?s \<and> a \<noteq> 0 \<and> ind_block (icache ?s ! i) = a" using ind_addr_ok [OF assms(1-3)] e by auto
  moreover have "room i ?s = room i s" using k c(2) b(2) f by (simp add: room_def del: upd_inode_simps)
  ultimately show ?thesis by blast
qed

lemma bmap_room:
  assumes lay: "layout_ok s" and ok: "file_ok s (icache s ! i)" and i: "i < length (icache s)" and bn: "bn < MAXFILE" and r: "2 \<le> room i s"
  shows "\<exists>a t. bmap i bn s = Inr (a, t) \<and> room i s \<le> Suc (room i t)"
proof (cases "faddr s (icache s ! i) bn = 0")
  case False
  then show ?thesis using bmap_mapped [OF bn False] by auto
next
  case unmapped: True
  have c: "0 < card (free_blocks s)" using r by (simp add: room_def split: if_splits)
  show ?thesis
  proof (cases "bn < NDIRECT")
    case True
    then have z: "i_addrs (icache s ! i) ! bn = 0" using unmapped by (simp add: faddr_def unat_eq_zero)
    obtain a t where b: "balloc s = Inr (a, t)" "allocated s a t" "card (free_blocks s) = Suc (card (free_blocks t))"
      by (rule balloc_room [OF lay c])
    let ?s = "upd_inode i (\<lambda>ip. ip\<lparr>i_addrs := (i_addrs ip)[bn := of_nat a]\<rparr>) t"
    have "bmap i bn s = Inr (a, ?s)" using True z b(1) by (simp add: bmap_def)
    moreover have "free_blocks ?s = free_blocks t" by (rule free_cong) simp_all
    moreover have "ind_block (icache ?s ! i) = ind_block (icache s ! i)"
      using True allocatedD(6) [OF b(2)] i by (simp add: ind_block_def)
    ultimately show ?thesis using b(3) by (intro exI [of _ a] exI [of _ ?s]) (simp add: room_def del: upd_inode_simps)
  next
    case False
    have j: "bn - NDIRECT < NINDIRECT" using False bn by linarith
    obtain ib t where t: "ind_addr i s = Inr (ib, t)" "keeps_file i s t" "ib \<noteq> 0" "ind_block (icache t ! i) = ib" "room i t = room i s"
      using ind_addr_room [OF lay ok i r] by blast
    have bm: "bmap i bn s = (let addr = get32 (blk t ib) (bn - NDIRECT) in
        if addr = 0 then bindR (balloc t) (\<lambda>(a, s). Inr (a, put_blk ib (put32 (blk s ib) (bn - NDIRECT) (of_nat a)) s))
        else Inr (unat addr, t))"
      using False j t(1) by (simp add: bmap_def ind_addr_def Let_def)
    have "layout_ok t" "file_ok t (icache t ! i)" using t(2) by (simp_all add: keeps_file_def)
    moreover have "0 < card (free_blocks t)" using r t(3-5) by (simp add: room_def)
    ultimately obtain a u where b: "balloc t = Inr (a, u)" "allocated t a u" "card (free_blocks t) = Suc (card (free_blocks u))"
      using balloc_room by blast
    have "data_start t \<le> ib" using file_okD(2) [OF \<open>file_ok t (icache t ! i)\<close>] ind_in t(3,4) by blast
    then have "free_blocks (put_blk ib d u) = free_blocks u" for d
      using allocatedD(9) [OF b(2)] by (intro free_put_data) simp
    then show ?thesis
      using b allocatedD(6) [OF b(2)] t(5) unfolding bm by (auto simp: Let_def room_def)
  qed
qed

lemma writei_loop_room:
  assumes "layout_ok s" "file_ok s (icache s ! i)" "i < length (icache s)" "off + length src \<le> MAXFILE * BSIZE"
    "(off mod BSIZE + length src + (BSIZE - 1)) div BSIZE < room i s"
  shows "\<exists>s'. writei_loop i off src s = Inr s'"
  using assms
proof (induction "length src" arbitrary: off src s rule: less_induct)
  case less
  show ?case
  proof (cases "src = []")
    case True
    then show ?thesis by (simp add: writei_loop.simps [of _ _ "[]"])
  next
    case False
    let ?m = "min (length src) (BSIZE - off mod BSIZE)" and ?bn = "off div BSIZE"
    have m: "0 < ?m" "?m \<le> length src" "off mod BSIZE + ?m \<le> BSIZE" using False by (auto simp: min_def)
    have bn: "?bn < MAXFILE" using less.prems(4) False by (cases src) (simp_all add: less_mult_imp_div_less)
    have "1 \<le> (off mod BSIZE + length src + (BSIZE - 1)) div BSIZE" using False by (cases src) (simp_all add: div_greater_zero_iff)
    then have r: "2 \<le> room i s" using less.prems(5) by linarith
    obtain a t where b: "bmap i ?bn s = Inr (a, t)" "room i s \<le> Suc (room i t)" using bmap_room [OF less.prems(1-3) bn r] by blast
    then have k: "keeps_file i s t" "a \<noteq> 0" "faddr t (icache t ! i) ?bn = a" using bmap_ok [OF less.prems(1-3) bn] by auto
    define u where "u = put_blk a (splice (off mod BSIZE) (take ?m src) (blk t a)) t"
    have t: "layout_ok t" "file_ok t (icache t ! i)" "i < length (icache t)"
      using k(1) less.prems(3) extendsD(2) [of i s t] by (simp_all add: keeps_file_def)
    have q: "off mod BSIZE + length (take ?m src) \<le> BSIZE" using m(3) by simp
    have ic: "icache u = icache t" by (simp add: u_def)
    have u: "layout_ok u" "file_ok u (icache u ! i)" "i < length (icache u)"
      using write_chunk(1,2) [OF t(1,2) bn k(3,2) q] t(3) unfolding ic u_def [symmetric] by simp_all
    have step: "writei_loop i off src s = writei_loop i (off + ?m) (drop ?m src) u"
      using b(1) False by (simp add: writei_loop.simps [of _ _ src] Let_def u_def)
    have "data_start t \<le> a" using file_okD(2) [OF t(2), of a] faddr_in [OF bn, of t "icache t ! i"] k(2,3) by simp
    then have ru: "room i u = room i t" by (simp add: room_def ic u_def free_put_data)
    have l: "length (drop ?m src) < length src" "off + ?m + length (drop ?m src) \<le> MAXFILE * BSIZE" using m(1,2) less.prems(4) by auto
    show ?thesis
    proof (cases "?m = length src")
      case True
      then show ?thesis using step by (simp add: writei_loop.simps [of _ _ "[]"])
    next
      case False
      then have m': "?m = BSIZE - off mod BSIZE" "BSIZE - off mod BSIZE < length src" by linarith+
      have lt: "off mod BSIZE < BSIZE" by simp
      then have "off + (BSIZE - off mod BSIZE) = BSIZE * (off div BSIZE) + BSIZE" using mult_div_mod_eq [of BSIZE off] by linarith
      then have z: "(off + (BSIZE - off mod BSIZE)) mod BSIZE = 0" by (simp only: mod_add_self2 mod_mult_self1_is_0)
      note lt
      with m'(2) have "off mod BSIZE + length src + (BSIZE - 1) = (length src - (BSIZE - off mod BSIZE) + (BSIZE - 1)) + BSIZE" by linarith
      then have "(off mod BSIZE + length src + (BSIZE - 1)) div BSIZE = Suc ((length src - (BSIZE - off mod BSIZE) + (BSIZE - 1)) div BSIZE)" by simp
      then have "((off + ?m) mod BSIZE + length (drop ?m src) + (BSIZE - 1)) div BSIZE < room i u"
        using less.prems(5) b(2) ru z m'(1) by simp
      from less.hyps [OF l(1) u l(2) this] show ?thesis unfolding step .
    qed
  qed
qed

lemma writei_room:
  assumes "layout_ok s" "inode_ok s i" "off \<le> i_size (icache s ! i)" "unat off + unat n \<le> 71680" "length src = unat n"
    and room: "(unat off mod BSIZE + unat n + 511) div BSIZE < card (free_blocks s)"
  shows "\<exists>s'. writei devsw i src off n s = Inr (uint n, s')"
proof -
  note I = inode_okD [OF assms(2)]
  have sum: "unat (off + n) = unat off + unat n" "\<not> off + n < off" using add_no_wrap [OF assms(4)] by simp_all
  note W = writei_ok [OF assms(1-3) _ assms(5), of devsw, simplified, OF assms(4)]
  have "(unat off mod BSIZE + length src + (BSIZE - 1)) div BSIZE < room i s"
    using room assms(5) by (simp add: room_def)
  then obtain t where "writei_loop i (unat off) src s = Inr t"
    using writei_loop_room [OF assms(1) I(2,1), of "unat off" src] assms(4,5) by auto
  moreover have "writei_loop i (unat off) src s = Inl (Panic ''balloc: out of blocks'')" if "writei devsw i src off n s = Inl (Panic ''balloc: out of blocks'')"
    using that I(5) assms(3-5) sum by (auto simp: writei_def Let_def leD word_less_nat_alt bindR_def split: sum.splits if_splits)
  ultimately show ?thesis using W by auto
qed

subsection \<open>Properties\<close>

text \<open>
  C19: files hold what is written to them. A write of n bytes at an offset inside or at the end of
  a file, within the largest file size, either runs out of disk blocks and panics, which cannot
  happen when more blocks are free than the write touches, or returns n and replaces just the
  bytes of that range, extending the file when the range passes its end; a read of that range
  then returns the bytes written, and every file that shares no block with this one keeps its
  contents.
\<close>

theorem file_write_then_read:
  assumes "layout_ok s" "inode_ok s i" "off \<le> i_size (icache s ! i)" "unat off + unat n \<le> 71680" "length src = unat n"
  shows "(writei devsw i src off n s = Inl (Panic ''balloc: out of blocks'') \<or> (\<exists>s'. writei devsw i src off n s = Inr (uint n, s'))) \<and>
    ((unat off mod 512 + unat n + 511) div 512 < card {b. b < fs_size s \<and> \<not> used s b} \<longrightarrow> (\<exists>s'. writei devsw i src off n s = Inr (uint n, s'))) \<and>
    (\<forall>s'. writei devsw i src off n s = Inr (uint n, s') \<longrightarrow> layout_ok s' \<and> inode_ok s' i \<and>
       file_data s' (icache s' ! i) = take (unat off) (file_data s (icache s ! i)) @ src @ drop (unat off + unat n) (file_data s (icache s ! i)) \<and>
       readi devsr i off n s' = Inr (int (unat n), src, s') \<and>
       (\<forall>jp. file_ok s jp \<longrightarrow> unat (i_size jp) \<le> 71680 \<longrightarrow> file_blocks s jp \<inter> file_blocks s (icache s ! i) = {} \<longrightarrow>
          file_data s' jp = file_data s jp))"
proof -
  let ?ip = "icache s ! i"
  note W = writei_ok [OF assms(1-3) _ assms(5), of devsw, simplified, OF assms(4)]
  have room: "\<exists>s'. writei devsw i src off n s = Inr (uint n, s')"
    if "(unat off mod 512 + unat n + 511) div 512 < card {b. b < fs_size s \<and> \<not> used s b}"
    using that by (intro writei_room [OF assms]) (simp add: free_blocks_def)
  have after: "layout_ok s' \<and> inode_ok s' i \<and>
       file_data s' (icache s' ! i) = take (unat off) (file_data s ?ip) @ src @ drop (unat off + unat n) (file_data s ?ip) \<and>
       readi devsr i off n s' = Inr (int (unat n), src, s') \<and>
       (\<forall>jp. file_ok s jp \<longrightarrow> unat (i_size jp) \<le> 71680 \<longrightarrow> file_blocks s jp \<inter> file_blocks s ?ip = {} \<longrightarrow>
          file_data s' jp = file_data s jp)"
    if w: "writei devsw i src off n s = Inr (uint n, s')" for s'
  proof -
    from W w have A: "layout_ok s'" "inode_ok s' i"
      and D: "file_data s' (icache s' ! i) = take (unat off) (file_data s ?ip) @ src @ drop (unat off + unat n) (file_data s ?ip)"
      and J: "\<forall>jp. file_ok s jp \<longrightarrow> unat (i_size jp) \<le> 71680 \<longrightarrow> file_blocks s jp \<inter> file_blocks s ?ip = {} \<longrightarrow> file_data s' jp = file_data s jp"
      by auto
    have len: "length (file_data s ?ip) = unat (i_size ?ip)" "length (file_data s' (icache s' ! i)) = unat (i_size (icache s' ! i))"
      by (simp_all add: file_data_def)
    have o: "unat off \<le> unat (i_size ?ip)" using assms(3) by (simp add: word_le_nat_alt)
    have z: "unat off + unat n \<le> unat (i_size (icache s' ! i))" unfolding len(2) [symmetric] D using o len(1) assms(5) by simp
    then have "off \<le> i_size (icache s' ! i)" by (simp add: word_le_nat_alt)
    moreover have "min (unat n) (unat (i_size (icache s' ! i)) - unat off) = unat n" using z by linarith
    ultimately have "readi devsr i off n s' = Inr (int (unat n), src, s')"
      using readi_ok [OF A, of off n devsr] o assms(4,5) D len(1) by simp
    with A D J show ?thesis by blast
  qed
  show ?thesis using W room after by blast
qed

theorem file_write_then_read_witness:
  "\<exists>s'. writei (\<lambda>_. None) 0 [7, 8] 2 2 sample_file = Inr (2, s') \<and> file_data s' (icache s' ! 0) = [1, 2, 7, 8] \<and>
     readi (\<lambda>_. None) 0 2 2 s' = Inr (2, [7, 8], s')"
proof -
  have sz: "i_size (icache sample_file ! 0) = 3" "fs_size sample_file = 20" by (simp_all add: sample_file_def sample_fs_def)
  have "{b. b < 20 \<and> \<not> used sample_file b} = {5..<20}" using sample_file_used by auto
  then have c: "card {b. b < fs_size sample_file \<and> \<not> used sample_file b} = 15" using sz by simp
  have d: "file_data sample_file (icache sample_file ! 0) = [1, 2, 3]"
    using sample_file_faddr [of 0] by (simp add: file_data_def fcont_def sz upt_rec) (simp add: sample_file_def)
  have "2 \<le> i_size (icache sample_file ! 0)" using sz by simp
  from file_write_then_read [OF sample_file_layout sample_file_inode this, of 2 "[7, 8]" "\<lambda>_. None" "\<lambda>_. None", unfolded c d]
  show ?thesis by auto
qed

text \<open>
  C31: inodes survive the disk. After iupdate, locking any unlocked cache slot that stands for the
  same inode number and has not been read yet loads the type, device numbers, link count, size and
  block addresses that were written, and the dinode of every other inode number is unchanged.
\<close>

theorem inode_survives_disk:
  assumes "inode_shorts (icache s ! i)" "i_type (icache s ! i) \<noteq> 0" "\<forall>b. length (blk s b) = 512" "j < length (icache s)"
    "i_inum (icache s ! j) = i_inum (icache s ! i)" "1 \<le> i_ref (icache s ! j)" "i_lock (icache s ! j) = None" "\<not> i_valid (icache s ! j)"
  shows "(\<exists>s'. ilock pid j (iupdate i s) = Inr s' \<and>
      icache s' ! j = (icache s ! i)\<lparr>i_ref := i_ref (icache s ! j), i_lock := Some pid, i_valid := True\<rparr>) \<and>
    (\<forall>k ip. k \<noteq> unat (i_inum (icache s ! i)) \<longrightarrow>
      read_dinode (blk (iupdate i s) (IBLOCK k (sb s))) (k mod 8) ip = read_dinode (blk s (IBLOCK k (sb s))) (k mod 8) ip)"
proof
  let ?ip = "icache s ! i" and ?n = "unat (i_inum (icache s ! i))"
  have l: "length (i_addrs ?ip) = 13" using assms(1) by (simp add: inode_shorts_def)
  have k64: "64 * (k mod 8) + 64 \<le> 512" for k :: nat
  proof -
    have "k mod 8 < 8" by simp
    then show ?thesis by linarith
  qed
  have u: "iupdate i s = put_blk (IBLOCK ?n (sb s)) (write_dinode ?ip (?n mod 8) (blk s (IBLOCK ?n (sb s)))) s" by (simp add: iupdate_def Let_def)
  have rd: "read_dinode (write_dinode ?ip (?n mod 8) (blk s (IBLOCK ?n (sb s)))) (?n mod 8) jp =
      jp\<lparr>i_type := i_type ?ip, i_major := i_major ?ip, i_minor := i_minor ?ip, i_nlink := i_nlink ?ip, i_size := i_size ?ip, i_addrs := i_addrs ?ip\<rparr>" for jp
    using assms(3) k64 by (intro dinode_roundtrip [OF assms(1)]) simp
  show "\<exists>s'. ilock pid j (iupdate i s) = Inr s' \<and> icache s' ! j = ?ip\<lparr>i_ref := i_ref (icache s ! j), i_lock := Some pid, i_valid := True\<rparr>"
    using assms(2,4-8) unfolding u by (simp add: ilock_def Let_def rd)
  show "\<forall>k ip. k \<noteq> ?n \<longrightarrow> read_dinode (blk (iupdate i s) (IBLOCK k (sb s))) (k mod 8) ip = read_dinode (blk s (IBLOCK k (sb s))) (k mod 8) ip"
  proof (intro allI impI)
    fix k ip assume "k \<noteq> ?n"
    then have "k mod 8 \<noteq> ?n mod 8" if "IBLOCK k (sb s) = IBLOCK ?n (sb s)"
      using that by (auto simp: IBLOCK_def) (metis mult_div_mod_eq)
    then show "read_dinode (blk (iupdate i s) (IBLOCK k (sb s))) (k mod 8) ip = read_dinode (blk s (IBLOCK k (sb s))) (k mod 8) ip"
      unfolding u using dinode_other [OF l, of "?n mod 8" _ "k mod 8"] assms(3) k64 by auto
  qed
qed

theorem inode_survives_disk_witness:
  "\<exists>s'. ilock 9 1 (iupdate 0 (sample_file\<lparr>icache := icache sample_file @ [(icache sample_file ! 0)\<lparr>i_lock := None, i_valid := False, i_size := 77\<rparr>]\<rparr>)) = Inr s' \<and>
     i_size (icache s' ! 1) = 3 \<and> i_addrs (icache s' ! 1) = 4 # replicate 12 0"
proof -
  let ?s = "sample_file\<lparr>icache := icache sample_file @ [(icache sample_file ! 0)\<lparr>i_lock := None, i_valid := False, i_size := 77\<rparr>]\<rparr>"
  have h: "inode_shorts (icache ?s ! 0)" "i_type (icache ?s ! 0) \<noteq> 0" "\<forall>b. length (blk ?s b) = 512" "1 < length (icache ?s)"
    "i_inum (icache ?s ! 1) = i_inum (icache ?s ! 0)" "1 \<le> i_ref (icache ?s ! 1)" "i_lock (icache ?s ! 1) = None" "\<not> i_valid (icache ?s ! 1)"
    by (simp_all add: sample_file_def inode_shorts_def is_s16_def)
  have "i_size (icache ?s ! 0) = 3" "i_addrs (icache ?s ! 0) = 4 # replicate 12 0" by (simp_all add: sample_file_def)
  with inode_survives_disk [OF h, of 9] show ?thesis by auto
qed

end
