(* ===== verification/Directory.thy ===== *)
theory Directory
  imports FsDir FsWrite
begin

text \<open>
  What directories mean. The contents of a directory are a list of entries, and a directory is the
  map from names to inode numbers that its first matching entries give. dirlookup returns the
  inode of that number, and dirlink adds one binding to the map.
\<close>

subsection \<open>Names\<close>

text \<open>The significant part of a name.\<close>

definition cname :: "u8 list \<Rightarrow> u8 list" where
  "cname p = takeWhile (\<lambda>b. b \<noteq> 0) (take DIRSIZ p)"

lemma strncmp_bytes_eq:
  "strncmp_bytes n p q = 0 \<longleftrightarrow> takeWhile (\<lambda>b. b \<noteq> 0) (take n p) = takeWhile (\<lambda>b. b \<noteq> 0) (take n q)"
proof (induction n p q rule: strncmp_bytes.induct)
  case (2 n p q)
  then show ?case by (cases p; cases q) (auto simp: hd0_def unsigned_eq_0_iff dest: unsigned_word_eqI)
qed simp

lemma namecmp_eq: "namecmp p q = 0 \<longleftrightarrow> cname p = cname q"
  by (simp add: namecmp_def cname_def strncmp_bytes_eq)

lemma takeWhile_take: "takeWhile P (take n xs) = take n (takeWhile P xs)"
  by (induction xs arbitrary: n) (auto simp: take_Cons split: nat.split)

lemma length_strncpy_name [simp]: "length (strncpy_name name) = DIRSIZ"
  by (simp add: strncpy_name_def Let_def)

lemma takeWhile_padded: "\<forall>b \<in> set c. b \<noteq> 0 \<Longrightarrow> takeWhile (\<lambda>b. b \<noteq> 0) (c @ replicate r (0::u8)) = c"
  by (induction c) (simp_all add: takeWhile_replicate)

lemma cname_strncpy [simp]: "cname (strncpy_name name) = cname name"
proof -
  have "\<forall>b \<in> set (take DIRSIZ (takeWhile (\<lambda>b. b \<noteq> 0) name)). b \<noteq> 0" by (auto dest!: in_set_takeD set_takeWhileD)
  then have t: "takeWhile (\<lambda>b. b \<noteq> 0) (take DIRSIZ (takeWhile (\<lambda>b. b \<noteq> 0) name) @ replicate r 0) = take DIRSIZ (takeWhile (\<lambda>b. b \<noteq> 0) name)" for r
    by (rule takeWhile_padded)
  have "cname (strncpy_name name) = takeWhile (\<lambda>b. b \<noteq> 0) (strncpy_name name)" by (simp add: cname_def)
  also have "\<dots> = cname name" unfolding strncpy_name_def Let_def t by (simp add: cname_def takeWhile_take)
  finally show ?thesis .
qed

subsection \<open>Entries\<close>

definition dir_entries :: "u8 list \<Rightarrow> u8 list list" where
  "dir_entries data = map (\<lambda>k. slice (16 * k) 16 data) [0..<length data div 16]"

definition entry_match :: "u8 list \<Rightarrow> u8 list \<Rightarrow> bool" where
  "entry_match name de \<longleftrightarrow> de_inum de \<noteq> 0 \<and> cname name = cname (de_name de)"

definition dir_lookup :: "u8 list \<Rightarrow> u8 list \<Rightarrow> u16 option" where
  "dir_lookup data name = map_option de_inum (List.find (entry_match name) (dir_entries data))"

lemma dirent_fields [simp]:
  "length name = DIRSIZ \<Longrightarrow> de_inum (dirent_bytes m name) = m" "length name = DIRSIZ \<Longrightarrow> de_name (dirent_bytes m name) = name"
  by (simp_all add: de_inum_def de_name_def dirent_bytes_def slice_def)

lemma find_scan: "scan_from P i xs = None \<Longrightarrow> List.find P xs = None" "scan_from P i xs = Some k \<Longrightarrow> List.find P xs = Some (xs ! (k - i))"
proof (induction xs arbitrary: i)
  case (Cons x xs)
  {
    case 1
    then show ?case using Cons.IH(1) [of "Suc i"] by (auto split: if_splits)
  next
    case 2
    show ?case
    proof (cases "P x")
      case False
      then have s: "scan_from P (Suc i) xs = Some k" using 2 by simp
      then have "Suc i \<le> k" by (simp add: scan_from_Some)
      then show ?thesis using Cons.IH(2) [OF s] False by (simp add: nth_Cons')
    qed (use 2 in simp)
  }
qed simp_all

text \<open>A directory whose size is a whole number of entries.\<close>

definition dir_ok :: "fsys \<Rightarrow> nat \<Rightarrow> bool" where
  "dir_ok s i \<longleftrightarrow> inode_ok s i \<and> i_type (icache s ! i) = T_DIR \<and> unat (i_size (icache s ! i)) mod 16 = 0"

lemma length_file_data [simp]: "length (file_data s ip) = unat (i_size ip)"
  by (simp add: file_data_def)

lemma read_entry:
  assumes "layout_ok s" "dir_ok s i" "k < unat (i_size (icache s ! i)) div 16"
  shows "readi (\<lambda>_. None) i (of_nat (16 * k)) 16 s = Inr (16, dir_entries (file_data s (icache s ! i)) ! k, s)"
proof -
  let ?z = "unat (i_size (icache s ! i))"
  have z: "?z \<le> MAXFILE * BSIZE" using inode_okD(3) [of s i] assms(2) by (simp add: dir_ok_def)
  have k: "16 * k + 16 \<le> ?z" using assms(3) by (metis Suc_leI div_times_less_eq_dividend le_trans mult.commute mult_Suc_right mult_le_mono2 add.commute)
  have u: "unat (of_nat (16 * k) :: u32) = 16 * k" 
  proof -
    have "16 * k < 2 ^ 32" using k z by simp
    then show ?thesis unfolding unsigned_of_nat by (simp add: take_bit_nat_eq_self)
  qed
  have "of_nat (16 * k) \<le> i_size (icache s ! i)" unfolding word_le_nat_alt u using k by simp
  from readi_ok [OF assms(1) _ this, of 16 "\<lambda>_. None", unfolded u] assms(2) k z assms(3)
  show ?thesis by (simp add: dir_ok_def dir_entries_def slice_def)
qed

lemma dirlookup_loop_ok:
  assumes "layout_ok s" "dir_ok s i" "k \<le> unat (i_size (icache s ! i)) div 16"
  shows "dirlookup_loop i name (16 * k) s =
    (case scan_from (entry_match name) k (drop k (dir_entries (file_data s (icache s ! i)))) of
       None \<Rightarrow> Inr (None, s)
     | Some m \<Rightarrow> bindR (iget (ucast (de_inum (dir_entries (file_data s (icache s ! i)) ! m))) s) (\<lambda>(j, s). Inr (Some (j, 16 * m), s)))"
  using assms(3)
proof (induction "unat (i_size (icache s ! i)) div 16 - k" arbitrary: k)
  case 0
  let ?z = "unat (i_size (icache s ! i))"
  have "\<not> 16 * k < ?z" using 0 assms(2) by (auto simp: dir_ok_def)
  then show ?case using 0 by (simp add: dirlookup_loop.simps [of i name "16 * k"] dir_entries_def)
next
  case (Suc d)
  let ?z = "unat (i_size (icache s ! i))" and ?E = "dir_entries (file_data s (icache s ! i))"
  have k: "k < ?z div 16" "16 * k < ?z" using Suc(2) by linarith+
  have dr: "drop k ?E = ?E ! k # drop (Suc k) ?E" using k(1) by (intro Cons_nth_drop_Suc [symmetric]) (simp add: dir_entries_def)
  have IH: "dirlookup_loop i name (16 * k + 16) s = (case scan_from (entry_match name) (Suc k) (drop (Suc k) ?E) of
       None \<Rightarrow> Inr (None, s)
     | Some m \<Rightarrow> bindR (iget (ucast (de_inum (?E ! m))) s) (\<lambda>(j, s). Inr (Some (j, 16 * m), s)))"
    using Suc(1) [of "Suc k"] Suc(2) k(1) by (simp add: add.commute)
  show ?case
    using k(2) read_entry [OF assms(1,2) k(1)] IH
    by (simp add: dirlookup_loop.simps [of i name "16 * k"] dr entry_match_def namecmp_eq)
qed

lemma dirlookup_ok:
  assumes "layout_ok s" "dir_ok s i"
  shows "dirlookup i name s =
    (case scan_from (entry_match name) 0 (dir_entries (file_data s (icache s ! i))) of
       None \<Rightarrow> Inr (None, s)
     | Some m \<Rightarrow> bindR (iget (ucast (de_inum (dir_entries (file_data s (icache s ! i)) ! m))) s) (\<lambda>(j, s). Inr (Some (j, 16 * m), s)))"
  using dirlookup_loop_ok [OF assms, of 0 name] assms(2) by (simp add: dirlookup_def dir_ok_def)

lemma dirlink_slot_ok:
  assumes "layout_ok s" "dir_ok s i" "k \<le> unat (i_size (icache s ! i)) div 16"
  shows "dirlink_slot i (16 * k) s =
    Inr (16 * (case scan_from (\<lambda>de. de_inum de = 0) k (drop k (dir_entries (file_data s (icache s ! i)))) of
                 None \<Rightarrow> unat (i_size (icache s ! i)) div 16 | Some m \<Rightarrow> m), s)"
  using assms(3)
proof (induction "unat (i_size (icache s ! i)) div 16 - k" arbitrary: k)
  case 0
  let ?z = "unat (i_size (icache s ! i))"
  have "\<not> 16 * k < ?z" "k = ?z div 16" using 0 assms(2) by (auto simp: dir_ok_def)
  moreover from this(1) have "dirlink_slot i (16 * k) s = Inr (16 * k, s)" by (subst dirlink_slot.simps) simp
  ultimately show ?case by (simp add: dir_entries_def)
next
  case (Suc d)
  let ?z = "unat (i_size (icache s ! i))" and ?E = "dir_entries (file_data s (icache s ! i))"
  have k: "k < ?z div 16" "16 * k < ?z" using Suc(2) by linarith+
  have dr: "drop k ?E = ?E ! k # drop (Suc k) ?E" using k(1) by (intro Cons_nth_drop_Suc [symmetric]) (simp add: dir_entries_def)
  have IH: "dirlink_slot i (16 * k + 16) s = Inr (16 * (case scan_from (\<lambda>de. de_inum de = 0) (Suc k) (drop (Suc k) ?E) of
      None \<Rightarrow> ?z div 16 | Some m \<Rightarrow> m), s)"
    using Suc(1) [of "Suc k"] Suc(2) k(1) by (simp add: add.commute)
  show ?case
    using k(2) read_entry [OF assms(1,2) k(1)] IH by (simp add: dirlink_slot.simps [of i "16 * k"] dr)
qed

subsection \<open>Adding an entry\<close>

definition put_entry :: "nat \<Rightarrow> 'a \<Rightarrow> 'a list \<Rightarrow> 'a list" where
  "put_entry k x xs = (if k < length xs then xs[k := x] else xs @ [x])"

lemma slice_put:
  assumes "length de = n" "n * k + n \<le> length data \<or> n * k = length data" "0 < n"
  shows "slice (n * j) n (take (n * k) data @ de @ drop (n * k + n) data) = (if j = k then de else slice (n * j) n data)"
proof -
  have t: "n * k \<le> length data" using assms(2) by auto
  consider "j = k" | "n * j + n \<le> n * k" "j \<noteq> k" | d where "n * j = n * k + n + d" "j \<noteq> k"
    by (metis Suc_leI le_add_diff_inverse linorder_neqE_nat mult_Suc_right mult_le_mono2 add.commute)
  then show ?thesis
  proof cases
    case 2
    then have l: "n \<le> n * k - n * j" "n * j \<le> n * k" by linarith+
    have "take n (drop (n * j) (take (n * k) data @ de @ drop (n * k + n) data)) = take n (drop (n * j) (take (n * k) data))"
      using l t by simp
    also have "\<dots> = take n (drop (n * j) data)" using l by (simp add: drop_take min_absorb1)
    finally show ?thesis using 2(2) by (simp add: slice_def)
  next
    case (3 d)
    have "drop (n * k + n + d) (take (n * k) data @ de @ drop (n * k + n) data) = drop (n * k + n + d) data"
      using t assms(1) by (simp add: add.commute [of d] add.left_commute)
    then show ?thesis unfolding slice_def 3(1) using 3(2) by simp
  qed (use t assms(1) in \<open>simp add: slice_def\<close>)
qed

lemma dir_entries_put:
  assumes "length de = 16" "length data mod 16 = 0" "k \<le> length data div 16"
  shows "dir_entries (take (16 * k) data @ de @ drop (16 * k + 16) data) = put_entry k de (dir_entries data)"
proof -
  have n: "16 * (length data div 16) = length data" using assms(2) by auto
  have c: "16 * k + 16 \<le> length data \<or> 16 * k = length data" using assms(3) n by (cases "k = length data div 16") linarith+
  have len: "length (take (16 * k) data @ de @ drop (16 * k + 16) data) div 16 = length (put_entry k de (dir_entries data))"
  proof (cases "16 * k = length data")
    case True
    then show ?thesis using assms(1) n by (simp add: put_entry_def dir_entries_def)
  next
    case False
    then show ?thesis using c assms(1) n by (simp add: put_entry_def dir_entries_def)
  qed
  show ?thesis
  proof (rule nth_equalityI)
    show l: "length (dir_entries (take (16 * k) data @ de @ drop (16 * k + 16) data)) = length (put_entry k de (dir_entries data))"
      using len by (simp add: dir_entries_def)
    fix j assume "j < length (dir_entries (take (16 * k) data @ de @ drop (16 * k + 16) data))"
    then have j: "j < length (put_entry k de (dir_entries data))" using l by simp
    have "dir_entries (take (16 * k) data @ de @ drop (16 * k + 16) data) ! j = (if j = k then de else slice (16 * j) 16 data)"
      using j len slice_put [OF assms(1) c, of j] by (simp add: dir_entries_def)
    also have "\<dots> = put_entry k de (dir_entries data) ! j"
      using j assms(3) by (auto simp: put_entry_def dir_entries_def nth_append split: if_splits)
    finally show "dir_entries (take (16 * k) data @ de @ drop (16 * k + 16) data) ! j = put_entry k de (dir_entries data) ! j" .
  qed
qed

lemma put_entry_Cons: "put_entry k x (y # xs) = (case k of 0 \<Rightarrow> x # xs | Suc k \<Rightarrow> y # put_entry k x xs)"
  by (simp add: put_entry_def split: nat.split)

lemma find_put_miss: "\<not> P x \<Longrightarrow> (k < length xs \<Longrightarrow> \<not> P (xs ! k)) \<Longrightarrow> List.find P (put_entry k x xs) = List.find P xs"
proof (induction xs arbitrary: k)
  case (Cons y xs)
  then show ?case by (cases k) (auto simp: put_entry_Cons)
qed (simp add: put_entry_def)

lemma find_put_hit: "P x \<Longrightarrow> List.find P xs = None \<Longrightarrow> List.find P (put_entry k x xs) = Some x"
proof (induction xs arbitrary: k)
  case (Cons y xs)
  then show ?case by (cases k) (auto simp: put_entry_Cons split: if_splits)
qed (simp add: put_entry_def)

lemma lookup_put:
  assumes data: "length data mod 16 = 0" "k \<le> length data div 16" and free: "k < length data div 16 \<Longrightarrow> de_inum (dir_entries data ! k) = 0"
    and new: "dir_lookup data name = None" "m \<noteq> 0"
  shows "dir_lookup (take (16 * k) data @ dirent_bytes m (strncpy_name name) @ drop (16 * k + 16) data) nm =
    (if cname nm = cname name then Some m else dir_lookup data nm)"
proof -
  let ?de = "dirent_bytes m (strncpy_name name)" and ?E = "dir_entries data"
  have len: "length ?E = length data div 16" "length ?de = 16" by (simp_all add: dir_entries_def dirent_bytes_def)
  have e: "entry_match nm ?de \<longleftrightarrow> cname nm = cname name" using new(2) by (simp add: entry_match_def)
  note P = dir_entries_put [OF len(2) data]
  show ?thesis
  proof (cases "cname nm = cname name")
    case True
    then have "entry_match nm = entry_match name" by (simp add: entry_match_def fun_eq_iff)
    then show ?thesis using find_put_hit [of "entry_match nm" ?de ?E k] e True new unfolding dir_lookup_def P by simp
  next
    case False
    have "k < length ?E \<Longrightarrow> \<not> entry_match nm (?E ! k)" using free len(1) by (simp add: entry_match_def)
    then show ?thesis using find_put_miss [of "entry_match nm" ?de k ?E] e False unfolding dir_lookup_def P by simp
  qed
qed

subsection \<open>Properties\<close>

lemma upd_inode_type: "(\<And>ip. i_type (f ip) = i_type ip) \<Longrightarrow> i_type (icache (upd_inode i f s) ! i) = i_type (icache s ! i)"
  by (cases "i < length (icache s)") (simp_all add: upd_inode_def not_less list_update_beyond)

lemma bmap_type: "bmap i bn s = Inr (a, t) \<Longrightarrow> i_type (icache t ! i) = i_type (icache s ! i)"
  unfolding bmap_def balloc_def
  by (auto simp: Let_def bindR_def upd_inode_type put_blk_def split: if_splits sum.splits prod.splits dest!: balloc_loop_icache)

lemma writei_loop_type: "writei_loop i off src s = Inr t \<Longrightarrow> i_type (icache t ! i) = i_type (icache s ! i)"
proof (induction i off src s arbitrary: t rule: writei_loop.induct)
  case (1 i off src s)
  show ?case
  proof (cases "src = [] \<or> (\<exists>e. bmap i (off div BSIZE) s = Inl e)")
    case True
    then show ?thesis using 1(2) by (auto simp: writei_loop.simps [of i off src] split: if_splits)
  next
    case False
    then obtain a u where b: "bmap i (off div BSIZE) s = Inr (a, u)" "src \<noteq> []" by (cases "bmap i (off div BSIZE) s") auto
    show ?thesis using 1(1) [OF b(2,1) refl refl] 1(2) bmap_type [OF b(1)] b by (simp add: writei_loop.simps [of i off src] Let_def)
  qed
qed

lemma writei_type: "writei (\<lambda>_. None) i src off n s = Inr (r, t) \<Longrightarrow> i_type (icache t ! i) = i_type (icache s ! i)"
  by (auto simp: writei_def Let_def bindR_def iupdate_def upd_inode_type dest!: writei_loop_type split: if_splits sum.splits)

lemma dirlookup_map:
  assumes "layout_ok s" "dir_ok s i"
  shows "case dir_lookup (file_data s (icache s ! i)) name of
      None \<Rightarrow> dirlookup i name s = Inr (None, s)
    | Some m \<Rightarrow> \<exists>off. dirlookup i name s = bindR (iget (ucast m) s) (\<lambda>(j, s). Inr (Some (j, off), s))"
proof (cases "scan_from (entry_match name) 0 (dir_entries (file_data s (icache s ! i)))")
  case None
  then show ?thesis using find_scan(1) [OF None] by (simp add: dir_lookup_def dirlookup_ok [OF assms])
next
  case (Some k)
  then show ?thesis using find_scan(2) [OF Some] by (auto simp: dir_lookup_def dirlookup_ok [OF assms])
qed

text \<open>The entry that dirlink writes, and where.\<close>

lemma dirlink_new:
  assumes lay: "layout_ok s" and dir: "dir_ok s i" and new: "dir_lookup (file_data s (icache s ! i)) name = None"
  obtains k where "k \<le> unat (i_size (icache s ! i)) div 16"
    "k < unat (i_size (icache s ! i)) div 16 \<longrightarrow> de_inum (dir_entries (file_data s (icache s ! i)) ! k) = 0"
    "dirlink pid i name inum s = bindR (writei (\<lambda>_. None) i (dirent_bytes (ucast inum) (strncpy_name name)) (of_nat (16 * k)) 16 s)
       (\<lambda>(r, s). if r \<noteq> 16 then Inl (Panic ''dirlink'') else Inr (0, s))"
proof -
  let ?z = "unat (i_size (icache s ! i))" and ?E = "dir_entries (file_data s (icache s ! i))"
  let ?k = "case scan_from (\<lambda>de. de_inum de = 0) 0 ?E of None \<Rightarrow> ?z div 16 | Some m \<Rightarrow> m"
  have lk: "dirlookup i name s = Inr (None, s)" using dirlookup_map [OF lay dir, of name] new by simp
  have sl: "dirlink_slot i 0 s = Inr (16 * ?k, s)" using dirlink_slot_ok [OF lay dir, of 0] by simp
  have l: "length ?E = ?z div 16" by (simp add: dir_entries_def)
  show ?thesis
  proof (rule that)
    show "?k \<le> ?z div 16" using l by (auto simp: scan_0_Some split: option.split)
    have "scan_from (\<lambda>de. de_inum de = 0) 0 ?E = Some m \<Longrightarrow> de_inum (?E ! m) = 0" for m using scan_0_Some by fast
    then show "?k < ?z div 16 \<longrightarrow> de_inum (?E ! ?k) = 0" by (cases "scan_from (\<lambda>de. de_inum de = 0) 0 ?E") simp_all
    show "dirlink pid i name inum s = bindR (writei (\<lambda>_. None) i (dirent_bytes (ucast inum) (strncpy_name name)) (of_nat (16 * ?k)) 16 s)
       (\<lambda>(r, s). if r \<noteq> 16 then Inl (Panic ''dirlink'') else Inr (0, s))"
      using lk sl by (simp add: dirlink_def del: of_nat_mult)
  qed
qed

text \<open>
  C20: a directory is a map from names, of which the first 14 bytes count, to inode numbers.
  Looking up a bound name returns the inode of its number and an unbound one nothing. Linking a
  name that is bound does not return success. Linking an unbound one in a directory that can grow
  succeeds when two blocks are free and otherwise may only panic for lack of blocks; when it
  succeeds the name is bound to the number given and every other name is bound as it was.
\<close>

theorem directory_link_lookup:
  assumes "layout_ok s" "dir_ok s i" "unat (i_size (icache s ! i)) + 16 \<le> 71680" "(ucast inum :: u16) \<noteq> 0"
  shows "(case dir_lookup (file_data s (icache s ! i)) name of
      Some m \<Rightarrow> (\<exists>off. dirlookup i name s = bindR (iget (ucast m) s) (\<lambda>(j, s). Inr (Some (j, off), s))) \<and>
        (\<forall>r s'. dirlink pid i name inum s = Inr (r, s') \<longrightarrow> r = -1)
    | None \<Rightarrow> dirlookup i name s = Inr (None, s) \<and>
        (dirlink pid i name inum s = Inl (Panic ''balloc: out of blocks'') \<or> (\<exists>s'. dirlink pid i name inum s = Inr (0, s'))) \<and>
        (1 < card {b. b < fs_size s \<and> \<not> used s b} \<longrightarrow> (\<exists>s'. dirlink pid i name inum s = Inr (0, s'))) \<and>
        (\<forall>s'. dirlink pid i name inum s = Inr (0, s') \<longrightarrow> layout_ok s' \<and> dir_ok s' i \<and>
           (\<forall>nm. dir_lookup (file_data s' (icache s' ! i)) nm =
              (if cname nm = cname name then Some (ucast inum) else dir_lookup (file_data s (icache s ! i)) nm))))"
proof (cases "dir_lookup (file_data s (icache s ! i)) name")
  case (Some m)
  then obtain off where off: "dirlookup i name s = bindR (iget (ucast m) s) (\<lambda>(j, s). Inr (Some (j, off), s))"
    using dirlookup_map [OF assms(1,2), of name] by auto
  then have "r = -1" if "dirlink pid i name inum s = Inr (r, s')" for r s'
    using that by (auto simp: dirlink_def bindR_def split: sum.splits)
  with Some off show ?thesis by auto
next
  case None
  let ?ip = "icache s ! i" and ?D = "file_data s (icache s ! i)" and ?de = "dirent_bytes (ucast inum) (strncpy_name name)"
  have ok: "inode_ok s i" "i_type ?ip = T_DIR" "unat (i_size ?ip) mod 16 = 0" using assms(2) by (simp_all add: dir_ok_def)
  obtain k where k: "k \<le> unat (i_size ?ip) div 16" "k < unat (i_size ?ip) div 16 \<longrightarrow> de_inum (dir_entries ?D ! k) = 0"
    "dirlink pid i name inum s = bindR (writei (\<lambda>_. None) i ?de (of_nat (16 * k)) 16 s)
       (\<lambda>(r, s). if r \<noteq> 16 then Inl (Panic ''dirlink'') else Inr (0, s))"
    by (rule dirlink_new [OF assms(1,2) None, of pid inum])
  have k16: "16 * k \<le> unat (i_size ?ip)" using k(1) by linarith
  have u: "unat (of_nat (16 * k) :: u32) = 16 * k"
    using k16 unsigned_less [of "i_size ?ip", where 'a = nat] unat_of_nat_id [of "16 * k", where 'a = 32] by simp
  have h: "of_nat (16 * k) \<le> i_size ?ip" "unat (of_nat (16 * k) :: u32) + unat (16 :: u32) \<le> 71680" "length ?de = unat (16 :: u32)"
    unfolding word_le_nat_alt u using k16 assms(3) by (simp_all add: dirent_bytes_def)
  note W = writei_ok [OF assms(1) ok(1) h(1) _ h(3), of "\<lambda>_. None", unfolded u, simplified]
  have w: "writei (\<lambda>_. None) i ?de (of_nat (16 * k)) 16 s = Inl (Panic ''balloc: out of blocks'') \<or>
      (\<exists>t. writei (\<lambda>_. None) i ?de (of_nat (16 * k)) 16 s = Inr (16, t) \<and> layout_ok t \<and> inode_ok t i \<and>
         file_data t (icache t ! i) = take (16 * k) ?D @ ?de @ drop (16 * k + 16) ?D)"
    using W h(2) u by auto
  have room: "\<exists>t. writei (\<lambda>_. None) i ?de (of_nat (16 * k)) 16 s = Inr (16, t)" if "1 < card {b. b < fs_size s \<and> \<not> used s b}"
  proof -
    have "16 * k mod 512 = 16 * (k mod 32)" by (simp add: mult_mod_right)
    moreover have "k mod 32 < 32" by simp
    ultimately have "(16 * k mod BSIZE + 16 + 511) div BSIZE \<le> 1" by linarith
    then have "(unat (of_nat (16 * k) :: u32) mod BSIZE + unat (16 :: u32) + 511) div BSIZE < card (free_blocks s)"
      unfolding u using that by (simp add: free_blocks_def)
    from writei_room [OF assms(1) ok(1) h this, of "\<lambda>_. None"] show ?thesis by simp
  qed
  have bound: "layout_ok t \<and> dir_ok t i \<and> (\<forall>nm. dir_lookup (file_data t (icache t ! i)) nm =
      (if cname nm = cname name then Some (ucast inum) else dir_lookup ?D nm))"
    if t: "writei (\<lambda>_. None) i ?de (of_nat (16 * k)) 16 s = Inr (16, t)" for t
  proof -
    from w t have T: "layout_ok t" "inode_ok t i" and D: "file_data t (icache t ! i) = take (16 * k) ?D @ ?de @ drop (16 * k + 16) ?D" by auto
    have "i_type (icache t ! i) = T_DIR" using writei_type [OF t] ok(2) by simp
    moreover have "unat (i_size (icache t ! i)) mod 16 = 0"
    proof -
      have "unat (i_size (icache t ! i)) = length (take (16 * k) ?D @ ?de @ drop (16 * k + 16) ?D)" using D length_file_data [of t] by metis
      also have "\<dots> = 16 * k + 16 + (unat (i_size ?ip) - (16 * k + 16))" using k16 by (simp add: dirent_bytes_def)
      finally show ?thesis using ok(3) by (simp add: mod_0_imp_dvd)
    qed
    moreover have "dir_lookup (file_data t (icache t ! i)) nm = (if cname nm = cname name then Some (ucast inum) else dir_lookup ?D nm)" for nm
      unfolding D using k(1,2) ok(3) assms(4) None by (intro lookup_put) simp_all
    ultimately show ?thesis using T by (simp add: dir_ok_def)
  qed
  have "dirlookup i name s = Inr (None, s)" using dirlookup_map [OF assms(1,2), of name] None by simp
  then show ?thesis using None w room bound unfolding k(3) by (auto simp del: of_nat_mult)
qed

text \<open>The sample file as an empty directory.\<close>

definition sample_dir :: fsys where
  "sample_dir = upd_inode 0 (\<lambda>ip. ip\<lparr>i_type := 1, i_size := 0\<rparr>) sample_file"

lemma sample_dir_ok: "layout_ok sample_dir" "dir_ok sample_dir 0"
proof -
  have e: "sb sample_dir = sb sample_file" "blk sample_dir = blk sample_file" "i_addrs (icache sample_dir ! 0) = i_addrs (icache sample_file ! 0)"
    by (simp_all add: sample_dir_def upd_inode_def sample_file_def)
  show "layout_ok sample_dir" using layout_cong [OF e(1,2)] sample_file_layout by simp
  have f: "faddr sample_dir (icache sample_dir ! 0) = faddr sample_file (icache sample_file ! 0)"
    "ind_block (icache sample_dir ! 0) = ind_block (icache sample_file ! 0)" by (simp_all add: faddr_def ind_block_def fun_eq_iff e)
  then have b: "file_blocks sample_dir (icache sample_dir ! 0) = file_blocks sample_file (icache sample_file ! 0)" by (simp add: file_blocks_def)
  have "file_ok sample_dir (icache sample_dir ! 0)"
    using inode_okD(2) [OF sample_file_inode] unfolding file_ok_def b f e used_cong [OF e(1,2)] data_start_sb [OF e(1)] .
  then show "dir_ok sample_dir 0"
    by (simp add: dir_ok_def inode_ok_def no_holes_def) (simp add: sample_dir_def upd_inode_def sample_file_def sample_fs_def IBLOCK_def)
qed

theorem directory_link_lookup_witness:
  "\<exists>s'. dirlink 1 0 [97] 5 sample_dir = Inr (0, s') \<and> dir_lookup (file_data s' (icache s' ! 0)) [97] = Some 5 \<and>
     dir_lookup (file_data s' (icache s' ! 0)) [98] = None"
proof -
  let ?D = "file_data sample_dir (icache sample_dir ! 0)"
  have z: "i_size (icache sample_dir ! 0) = 0" "fs_size sample_dir = 20" by (simp_all add: sample_dir_def upd_inode_def sample_file_def sample_fs_def)
  then have n: "dir_lookup ?D nm = None" for nm by (simp add: dir_lookup_def dir_entries_def file_data_def)
  have us: "used sample_dir = used sample_file" by (rule used_cong) (simp_all add: sample_dir_def)
  have "{b. b < 20 \<and> \<not> used sample_dir b} = {5..<20}" using sample_file_used unfolding us by auto
  then have c: "1 < card {b. b < fs_size sample_dir \<and> \<not> used sample_dir b}" using z(2) by simp
  have h: "unat (i_size (icache sample_dir ! 0)) + 16 \<le> 71680" "(ucast (5 :: u32) :: u16) \<noteq> 0" using z(1) by simp_all
  from directory_link_lookup [OF sample_dir_ok h, of "[97]" 1] c
  obtain s' where "dirlink 1 0 [97] 5 sample_dir = Inr (0, s')"
    "\<forall>nm. dir_lookup (file_data s' (icache s' ! 0)) nm = (if cname nm = cname [97] then Some (ucast (5 :: u32)) else dir_lookup ?D nm)"
    unfolding n by auto
  then show ?thesis unfolding n by (auto simp: cname_def)
qed

subsection \<open>Paths\<close>

text \<open>The elements of a path: its non-empty parts between slashes.\<close>

fun split_slash :: "u8 list \<Rightarrow> u8 list list" where
  "split_slash [] = [[]]"
| "split_slash (c # cs) = (if c = 47 then [] # split_slash cs else (c # hd (split_slash cs)) # tl (split_slash cs))"

definition path_elems :: "u8 list \<Rightarrow> u8 list list" where
  "path_elems path = filter (\<lambda>e. e \<noteq> []) (split_slash path)"

lemma path_elems_slash [simp]: "path_elems (47 # cs) = path_elems cs"
  by (simp add: path_elems_def)

lemma path_elems_skip: "path_elems (dropWhile (\<lambda>c. c = 47) p) = path_elems p"
  by (induction p) auto

lemma split_slash_elem:
  "\<forall>c \<in> set e. c \<noteq> 47 \<Longrightarrow> rest = [] \<or> hd rest = 47 \<Longrightarrow> split_slash (e @ rest) = e # (if rest = [] then [] else split_slash (tl rest))"
  by (induction e) (cases rest; auto)+

lemma path_elems_elem:
  assumes "\<forall>c \<in> set e. c \<noteq> 47" "rest = [] \<or> hd rest = 47" "e \<noteq> []"
  shows "path_elems (e @ rest) = e # path_elems rest"
  using split_slash_elem [OF assms(1,2)] assms(2,3) by (cases rest) (auto simp: path_elems_def)

lemma hd0_skip: "hd0 (dropWhile (\<lambda>c. c = 47) p) \<noteq> 47"
  by (induction p) (simp_all add: hd0_def)

text \<open>
  Path names are split at their slashes. On a path with no zero byte, skipelem returns 0
  exactly when the path has no element; otherwise it leaves a path without leading slash whose
  elements are the remaining ones, and the name buffer holds the first element cut to 14 bytes.
\<close>

theorem skipelem_splits_path:
  assumes "0 \<notin> set path" "length name = 14"
  shows "case path_elems path of
      [] \<Rightarrow> skipelem path name = None
    | e # es \<Rightarrow> \<exists>path' name'. skipelem path name = Some (path', name') \<and> path_elems path' = es \<and> hd0 path' \<noteq> 47 \<and>
        0 \<notin> set path' \<and> cname name' = take 14 e \<and> length name' = 14"
proof -
  define p where "p = dropWhile (\<lambda>c. c = 47) path"
  have pe: "path_elems path = path_elems p" using path_elems_skip p_def by simp
  have p0: "0 \<notin> set p" using assms(1) unfolding p_def by (blast dest: set_dropWhileD)
  have h47: "p \<noteq> [] \<Longrightarrow> hd p \<noteq> 47" unfolding p_def by (rule hd_dropWhile)
  show ?thesis
  proof (cases p)
    case Nil
    then have "skipelem path name = None" "path_elems p = []" unfolding skipelem_def Let_def p_def [symmetric] by (simp_all add: hd0_def path_elems_def)
    then show ?thesis unfolding pe by simp
  next
    case (Cons c cs)
    let ?e = "takeWhile (\<lambda>c. c \<noteq> 47 \<and> c \<noteq> 0) p" and ?r = "dropWhile (\<lambda>c. c \<noteq> 47 \<and> c \<noteq> 0) p"
    have c: "c \<noteq> 0" "c \<noteq> 47" using p0 h47 Cons by auto
    have "\<forall>c \<in> set ?e. c \<noteq> 47 \<and> c \<noteq> 0" by (blast dest: set_takeWhileD)
    then have er3: "\<forall>c \<in> set ?e. c \<noteq> 47" and er4: "\<forall>c \<in> set ?e. c \<noteq> 0" by blast+
    have er1: "?e @ ?r = p" by (rule takeWhile_dropWhile_id)
    have er2: "?e \<noteq> []" using c Cons by simp
    note er = er1 er2 er3 er4
    have dr: "drop (length ?e) p = ?r" by (simp add: dropWhile_eq_drop)
    have r0: "0 \<notin> set ?r" using p0 by (blast dest: set_dropWhileD)
    have "?r = [] \<or> hd ?r = 47"
    proof (cases "?r = []")
      case False
      then have "hd ?r = 47 \<or> hd ?r = 0" using hd_dropWhile [OF False] by blast
      moreover have "hd ?r \<noteq> 0" using hd_in_set [OF False] r0 by metis
      ultimately show ?thesis by blast
    qed simp
    then have el: "path_elems p = ?e # path_elems ?r" using path_elems_elem [OF er(3) _ er(2), of ?r] unfolding er(1) by simp
    let ?p' = "dropWhile (\<lambda>c. c = 47) ?r" and ?n = "if DIRSIZ \<le> length ?e then take DIRSIZ ?e else ?e @ 0 # drop (length ?e + 1) name"
    have sk: "skipelem path name = Some (?p', ?n)" using c Cons unfolding skipelem_def Let_def p_def [symmetric] dr by (simp add: hd0_def)
    have "hd0 ?p' \<noteq> 47" by (rule hd0_skip)
    moreover have "0 \<notin> set ?p'" using r0 by (blast dest: set_dropWhileD)
    moreover have "length ?n = 14" using assms(2) by auto
    moreover have "cname ?n = take 14 ?e"
    proof (cases "DIRSIZ \<le> length ?e")
      case True
      then have "cname ?n = take DIRSIZ (takeWhile (\<lambda>b. b \<noteq> 0) ?e)" by (simp add: cname_def takeWhile_take)
      also have "takeWhile (\<lambda>b. b \<noteq> 0) ?e = ?e" by (rule takeWhile_eq_all_conv [THEN iffD2, OF er(4)])
      finally show ?thesis .
    next
      case False
      have "takeWhile (\<lambda>b. b \<noteq> 0) (?e @ 0 # drop (length ?e + 1) name) = ?e" using er(4) by (subst takeWhile_append2) simp_all
      moreover have "cname ?n = take DIRSIZ (takeWhile (\<lambda>b. b \<noteq> 0) ?n)" unfolding cname_def by (rule takeWhile_take)
      ultimately show ?thesis using False by simp
    qed
    ultimately show ?thesis unfolding pe el using sk path_elems_skip [of ?r] by auto
  qed
qed

theorem skipelem_splits_path_witness:
  "\<exists>path' name'. skipelem [47, 47, 97, 47, 47, 98] (replicate 14 9) = Some (path', name') \<and> path_elems path' = [[98]] \<and> cname name' = [97]"
  using skipelem_splits_path [of "[47, 47, 97, 47, 47, 98]" "replicate 14 9"] by (auto simp: path_elems_def)

end
