(* ===== verification/Grep.thy ===== *)
theory Grep
  imports Prelude
begin

text \<open>
  The pattern matcher and the line loop of grep (grep.c). Strings are the lists of their bytes
  before the terminating zero. The matcher is shown to recognise the language of its patterns, and
  the loop to print the matching lines of a file.
\<close>

subsection \<open>The matcher\<close>

function matchhere :: "u8 list \<Rightarrow> u8 list \<Rightarrow> bool" and matchstar :: "u8 \<Rightarrow> u8 list \<Rightarrow> u8 list \<Rightarrow> bool" where
  "matchhere re str =
     (if re = [] then True
      else if 1 < length re \<and> re ! 1 = 42 then matchstar (hd re) (drop 2 re) str
      else if hd re = 36 \<and> tl re = [] then str = []
      else if str \<noteq> [] \<and> (hd re = 46 \<or> hd re = hd str) then matchhere (tl re) (tl str)
      else False)"
| "matchstar c re str =
     (if matchhere re str then True
      else if str \<noteq> [] \<and> (hd str = c \<or> c = 46) then matchstar c re (tl str)
      else False)"
  by pat_completeness auto

termination
  by (relation "measure (\<lambda>x. case x of Inl (re, str) \<Rightarrow> 2 * (length re + length str) | Inr (c, re, str) \<Rightarrow> 2 * (length re + length str) + 1)") (auto simp: neq_Nil_conv)

declare matchhere.simps [simp del] matchstar.simps [simp del]

function match_loop :: "u8 list \<Rightarrow> u8 list \<Rightarrow> bool" where
  "match_loop re str = (if matchhere re str then True else if str \<noteq> [] then match_loop re (tl str) else False)"
  by auto

termination
  by (relation "measure (\<lambda>(re, str). length str)") auto

declare match_loop.simps [simp del]

definition match :: "u8 list \<Rightarrow> u8 list \<Rightarrow> bool" where
  "match re str = (if re \<noteq> [] \<and> hd re = 94 then matchhere (tl re) str else match_loop re str)"

subsection \<open>The line loop\<close>

text \<open>strchr as the position of the character (ulib.c).\<close>

fun strchr :: "u8 list \<Rightarrow> u8 \<Rightarrow> nat option" where
  "strchr [] c = None"
| "strchr (x # xs) c = (if x = 0 then None else if x = c then Some 0 else map_option Suc (strchr xs c))"

lemma strchr_less: "strchr xs c = Some i \<Longrightarrow> i < length xs"
  by (induction xs arbitrary: i) (auto split: if_splits)

text \<open>The inner loop over the lines of the buffer from p on: the output and what is left.\<close>

function grep_lines :: "u8 list \<Rightarrow> u8 list \<Rightarrow> u8 list \<times> u8 list" where
  "grep_lines pattern p =
     (case strchr p 10 of
        None \<Rightarrow> ([], p)
      | Some q \<Rightarrow>
          let (out, rest) = grep_lines pattern (drop (q + 1) p)
          in (if match pattern (take q p) then take (q + 1) p @ out else out, rest))"
  by auto

termination
  by (relation "measure (\<lambda>(_, p). length p)") (auto dest: strchr_less)

declare grep_lines.simps [simp del]

text \<open>
  The bytes come in bursts, as from a pipe; a read returns the pending part of one burst, as much
  of it as fits. A file is one burst. The output is what the calls of write are given.
\<close>

fun read_burst :: "u8 list list \<Rightarrow> nat \<Rightarrow> u8 list \<times> u8 list list" where
  "read_burst [] n = ([], [])"
| "read_burst (b # bs) n = (take n b, if drop n b = [] then bs else drop n b # bs)"

function grep_loop :: "u8 list \<Rightarrow> u8 list \<Rightarrow> u8 list list \<Rightarrow> u8 list" where
  "grep_loop pattern buf inp =
     (let (chunk, inp') = read_burst inp (1024 - length buf - 1)
      in if chunk = [] then []
         else
           let b = buf @ chunk;
               (out, p) = grep_lines pattern b;
               buf = (if length p = length b then [] else p)
           in out @ grep_loop pattern buf inp')"
  by auto

termination
proof (relation "measure (\<lambda>(_, _, inp). length (concat inp))")
  fix pattern buf :: "u8 list" and inp x chunk inp'
  assume "x = read_burst inp (1024 - length buf - 1)" "(chunk, inp') = x" "chunk \<noteq> []"
  then show "\<And>a b c y z. ((pattern, a, inp'), (pattern, buf, inp)) \<in> measure (\<lambda>(_, _, inp). length (concat inp))"
    by (cases inp) (auto split: if_splits)
qed auto

declare grep_loop.simps [simp del]

definition grep :: "u8 list \<Rightarrow> u8 list list \<Rightarrow> u8 list" where
  "grep pattern inp = grep_loop pattern [] inp"

subsection \<open>Patterns and their language\<close>

datatype atom = Lit u8 | Any
datatype elem = One atom | Star atom | Eol

definition atom_of :: "u8 \<Rightarrow> atom" where
  "atom_of c = (if c = 46 then Any else Lit c)"

fun accepts :: "atom \<Rightarrow> u8 \<Rightarrow> bool" where
  "accepts Any x = True"
| "accepts (Lit c) x = (x = c)"

text \<open>A star binds the character before it; a dollar at the very end stands for the end of the text.\<close>

function parse_re :: "u8 list \<Rightarrow> elem list" where
  "parse_re re =
     (if re = [] then []
      else if 1 < length re \<and> re ! 1 = 42 then Star (atom_of (hd re)) # parse_re (drop 2 re)
      else if hd re = 36 \<and> tl re = [] then [Eol]
      else One (atom_of (hd re)) # parse_re (tl re))"
  by auto

termination
  by (relation "measure length") (auto simp: neq_Nil_conv)

declare parse_re.simps [simp del]

fun elem_lang :: "elem \<Rightarrow> u8 list set" where
  "elem_lang (One a) = {[x] | x. accepts a x}"
| "elem_lang (Star a) = {w. \<forall>x \<in> set w. accepts a x}"
| "elem_lang Eol = {[]}"

fun re_lang :: "elem list \<Rightarrow> u8 list set" where
  "re_lang [] = {[]}"
| "re_lang (e # es) = {u @ v | u v. u \<in> elem_lang e \<and> v \<in> re_lang es}"

definition at_end :: "elem list \<Rightarrow> bool" where
  "at_end es \<longleftrightarrow> Eol \<in> set es"

text \<open>Some prefix of the text is in the language, the whole text if the pattern ends with a dollar.\<close>

definition prefix_match :: "elem list \<Rightarrow> u8 list \<Rightarrow> bool" where
  "prefix_match es str \<longleftrightarrow> (\<exists>u v. str = u @ v \<and> u \<in> re_lang es \<and> (at_end es \<longrightarrow> v = []))"

lemma prefix_match_Cons:
  assumes "e \<noteq> Eol"
  shows "prefix_match (e # es) str \<longleftrightarrow> (\<exists>u r. str = u @ r \<and> u \<in> elem_lang e \<and> prefix_match es r)"
proof
  assume "prefix_match (e # es) str"
  then obtain w v where w: "str = w @ v" "w \<in> re_lang (e # es)" "at_end (e # es) \<longrightarrow> v = []" unfolding prefix_match_def by blast
  then obtain u u' where u: "w = u @ u'" "u \<in> elem_lang e" "u' \<in> re_lang es" by auto
  have "prefix_match es (u' @ v)" unfolding prefix_match_def using u(3) w(3) assms by (intro exI [of _ u'] exI [of _ v]) (simp add: at_end_def)
  then show "\<exists>u r. str = u @ r \<and> u \<in> elem_lang e \<and> prefix_match es r" using w(1) u by (intro exI [of _ u] exI [of _ "u' @ v"]) simp
next
  assume "\<exists>u r. str = u @ r \<and> u \<in> elem_lang e \<and> prefix_match es r"
  then obtain u u' v where u: "str = u @ u' @ v" "u \<in> elem_lang e" "u' \<in> re_lang es" "at_end es \<longrightarrow> v = []" unfolding prefix_match_def by blast
  have "u @ u' \<in> re_lang (e # es)" unfolding re_lang.simps using u by blast
  then show "prefix_match (e # es) str" unfolding prefix_match_def using u assms
    by (intro exI [of _ "u @ u'"] exI [of _ v]) (simp add: at_end_def)
qed

lemma prefix_match_simps:
  "prefix_match [] str" "prefix_match [Eol] str \<longleftrightarrow> str = []"
  "prefix_match (One a # es) str \<longleftrightarrow> str \<noteq> [] \<and> accepts a (hd str) \<and> prefix_match es (tl str)"
  "prefix_match (Star a # es) str \<longleftrightarrow> prefix_match es str \<or> str \<noteq> [] \<and> accepts a (hd str) \<and> prefix_match (Star a # es) (tl str)"
proof -
  show "prefix_match [] str" "prefix_match [Eol] str \<longleftrightarrow> str = []" by (auto simp: prefix_match_def at_end_def)
  have o: "elem.One a \<noteq> Eol" "Star a \<noteq> Eol" by simp_all
  show "prefix_match (elem.One a # es) str \<longleftrightarrow> str \<noteq> [] \<and> accepts a (hd str) \<and> prefix_match es (tl str)"
    unfolding prefix_match_Cons [OF o(1)] by (cases str) (auto intro: exI [of _ "[hd str]"] exI [of _ "tl str"])
  let ?S = "\<lambda>str. \<exists>u r. str = u @ r \<and> (\<forall>x \<in> set u. accepts a x) \<and> prefix_match es r"
  have "?S str \<longleftrightarrow> prefix_match es str \<or> str \<noteq> [] \<and> accepts a (hd str) \<and> ?S (tl str)" (is "?l \<longleftrightarrow> ?r")
  proof
    assume ?l
    then obtain u r where u: "str = u @ r" "\<forall>x \<in> set u. accepts a x" "prefix_match es r" by blast
    then show ?r by (cases u) auto
  next
    assume ?r
    then show ?l
    proof
      assume "prefix_match es str"
      then show ?l by (intro exI [of _ "[]"] exI [of _ str]) simp
    next
      assume r: "str \<noteq> [] \<and> accepts a (hd str) \<and> ?S (tl str)"
      then obtain u r where "tl str = u @ r" "\<forall>x \<in> set u. accepts a x" "prefix_match es r" by blast
      then show ?l using r by (intro exI [of _ "hd str # u"] exI [of _ r]) (auto simp: neq_Nil_conv)
    qed
  qed
  then show "prefix_match (Star a # es) str \<longleftrightarrow> prefix_match es str \<or> str \<noteq> [] \<and> accepts a (hd str) \<and> prefix_match (Star a # es) (tl str)"
    unfolding prefix_match_Cons [OF o(2)] by simp
qed

lemma accepts_atom: "accepts (atom_of c) x \<longleftrightarrow> c = 46 \<or> x = c"
  by (simp add: atom_of_def)

lemma matcher_correct:
  "matchhere re str \<longleftrightarrow> prefix_match (parse_re re) str"
  "matchstar c re str \<longleftrightarrow> prefix_match (Star (atom_of c) # parse_re re) str"
proof (induction re str and c re str rule: matchhere_matchstar.induct)
  case (1 re str)
  show ?case
  proof (cases "re = []")
    case True
    show ?thesis unfolding True by (simp add: matchhere.simps [of "[]"] parse_re.simps [of "[]"] prefix_match_simps(1))
  next
    case ne: False
    consider "1 < length re \<and> re ! 1 = 42" | "\<not> (1 < length re \<and> re ! 1 = 42)" "hd re = 36 \<and> tl re = []"
      | "\<not> (1 < length re \<and> re ! 1 = 42)" "\<not> (hd re = 36 \<and> tl re = [])" by blast
    then show ?thesis
    proof cases
      case 1
      then have "matchhere re str = matchstar (hd re) (drop 2 re) str" "parse_re re = Star (atom_of (hd re)) # parse_re (drop 2 re)"
        using ne by (subst matchhere.simps parse_re.simps, simp)+
      then show ?thesis using "1.IH"(1) [OF ne 1] by simp
    next
      case 2
      then have "matchhere re str \<longleftrightarrow> str = []" "parse_re re = [Eol]" using ne by (subst matchhere.simps parse_re.simps, auto)+
      then show ?thesis using prefix_match_simps(2) by simp
    next
      case 3
      then have "matchhere re str \<longleftrightarrow> str \<noteq> [] \<and> (hd re = 46 \<or> hd re = hd str) \<and> matchhere (tl re) (tl str)"
        "parse_re re = One (atom_of (hd re)) # parse_re (tl re)"
        using ne by (subst matchhere.simps parse_re.simps, auto)+
      then show ?thesis using "1.IH"(2) [OF ne 3] by (auto simp: prefix_match_simps(3) accepts_atom)
    qed
  qed
next
  case (2 c re str)
  show ?case unfolding matchstar.simps [of c re str] prefix_match_simps(4) [of _ _ str] accepts_atom using 2 by auto
qed

lemma match_loop_suffix: "match_loop re str \<longleftrightarrow> (\<exists>p s. str = p @ s \<and> matchhere re s)"
proof (induction str)
  case Nil
  then show ?case by (simp add: match_loop.simps)
next
  case (Cons x xs)
  have "match_loop re (x # xs) \<longleftrightarrow> matchhere re (x # xs) \<or> match_loop re xs" by (subst match_loop.simps) simp
  then show ?case using Cons by (metis append_Cons append_Nil append_eq_Cons_conv)
qed

subsection \<open>Lines\<close>

text \<open>The complete lines of a text, each without its newline, and the rest.\<close>

fun split_lines :: "u8 list \<Rightarrow> u8 list list \<times> u8 list" where
  "split_lines [] = ([], [])"
| "split_lines (c # cs) = (case split_lines cs of
     (ls, r) \<Rightarrow> if c = 10 then ([] # ls, r) else case ls of [] \<Rightarrow> ([], c # r) | l # ls \<Rightarrow> ((c # l) # ls, r))"

definition matching_lines :: "u8 list \<Rightarrow> u8 list list \<Rightarrow> u8 list" where
  "matching_lines pattern ls = concat (map (\<lambda>l. l @ [10]) (filter (match pattern) ls))"

lemma split_lines_nonl: "10 \<notin> set xs \<Longrightarrow> split_lines xs = ([], xs)"
  by (induction xs) auto

lemma split_lines_line: "10 \<notin> set l \<Longrightarrow> split_lines (l @ 10 # r) = (l # fst (split_lines r), snd (split_lines r))"
  by (induction l) (auto split: prod.split)

lemma split_lines_rest: "10 \<notin> set (snd (split_lines xs))"
  by (induction xs) (auto split: prod.split list.split)

lemma strchr_split: "strchr xs c = None \<Longrightarrow> 0 \<notin> set xs \<Longrightarrow> c \<notin> set xs" "strchr xs c = Some i \<Longrightarrow> c \<notin> set (take i xs) \<and> xs = take i xs @ c # drop (Suc i) xs"
  by (induction xs arbitrary: i) (auto split: if_splits)

lemma grep_lines_eq: "0 \<notin> set p \<Longrightarrow> grep_lines pattern p = (matching_lines pattern (fst (split_lines p)), snd (split_lines p))"
proof (induction pattern p rule: grep_lines.induct)
  case (1 pattern p)
  show ?case
  proof (cases "strchr p 10")
    case None
    then show ?thesis using strchr_split(1) [OF None 1(2)] by (subst grep_lines.simps) (simp add: split_lines_nonl matching_lines_def)
  next
    case (Some q)
    note S = strchr_split(2) [OF Some]
    have sp: "split_lines p = (take q p # fst (split_lines (drop (Suc q) p)), snd (split_lines (drop (Suc q) p)))"
      using split_lines_line [of "take q p" "drop (Suc q) p"] S by metis
    have tk: "take (Suc q) p = take q p @ [10]" using S strchr_less [OF Some] by (metis nth_append_length take_Suc_conv_app_nth length_take min.absorb4)
    have z: "0 \<notin> set (drop (Suc q) p)" using 1(2) in_set_dropD [of 0 "Suc q" p] by blast
    show ?thesis
      using 1(1) [OF Some] z Some unfolding sp
      by (subst grep_lines.simps) (simp add: matching_lines_def tk)
  qed
qed

lemma split_lines_append:
  "split_lines (xs @ ys) = (fst (split_lines xs) @ fst (split_lines (snd (split_lines xs) @ ys)), snd (split_lines (snd (split_lines xs) @ ys)))"
proof (induction xs)
  case (Cons c xs)
  show ?case
  proof (cases "fst (split_lines xs)")
    case Nil
    then have "split_lines xs = ([], snd (split_lines xs))" by (metis prod.collapse)
    then show ?thesis using Cons by (auto split: prod.split list.split)
  next
    case (Cons l ls)
    then have "split_lines xs = (l # ls, snd (split_lines xs))" by (metis prod.collapse)
    then show ?thesis using \<open>split_lines (xs @ ys) = _\<close> by (auto split: prod.split list.split)
  qed
qed simp

lemma split_lines_length: "fst (split_lines xs) \<noteq> [] \<Longrightarrow> length (snd (split_lines xs)) < length xs"
proof (induction xs)
  case (Cons c xs)
  have le: "length (snd (split_lines ys)) \<le> length ys" for ys
    by (induction ys) (auto split: prod.split list.split)
  show ?case
  proof (cases "fst (split_lines xs)")
    case Nil
    then show ?thesis using Cons.prems le [of xs] by (auto split: prod.splits if_splits)
  next
    case (Cons l ls)
    then show ?thesis using Cons.IH by (auto split: prod.split)
  qed
qed simp

lemma split_lines_none: "fst (split_lines xs) = [] \<Longrightarrow> split_lines xs = ([], xs) \<and> 10 \<notin> set xs"
  by (induction xs) (auto split: prod.splits list.splits if_splits)

lemma split_lines_subset: "set (snd (split_lines xs)) \<subseteq> set xs"
  by (induction xs) (auto split: prod.split list.split)

text \<open>One turn of the loop.\<close>

lemma grep_loop_step:
  assumes "read_burst inp (1023 - length buf) = (chunk, inp')" "chunk \<noteq> []" "0 \<notin> set (buf @ chunk)"
  shows "grep_loop pattern buf inp = matching_lines pattern (fst (split_lines (buf @ chunk))) @
    grep_loop pattern (if length (snd (split_lines (buf @ chunk))) = length (buf @ chunk) then [] else snd (split_lines (buf @ chunk))) inp'"
  using assms by (subst grep_loop.simps) (simp add: grep_lines_eq Let_def)

lemma no_line_no_output:
  "10 \<notin> set buf \<Longrightarrow> 10 \<notin> set (concat inp) \<Longrightarrow> 0 \<notin> set buf \<Longrightarrow> 0 \<notin> set (concat inp) \<Longrightarrow> grep_loop pattern buf inp = []"
proof (induction "length (concat inp)" arbitrary: buf inp rule: less_induct)
  case less
  obtain chunk inp' where r: "read_burst inp (1023 - length buf) = (chunk, inp')" by fastforce
  have cc: "concat inp = chunk @ concat inp'" using r by (cases inp) (auto split: if_splits)
  show ?case
  proof (cases "chunk = []")
    case True
    then show ?thesis using r by (subst grep_loop.simps) simp
  next
    case False
    have nl: "10 \<notin> set (buf @ chunk)" "0 \<notin> set (buf @ chunk)" using less.prems cc by auto
    have "length (concat inp') < length (concat inp)" using cc False by simp
    then have "grep_loop pattern [] inp' = []" using less.prems(2,4) cc by (intro less.hyps) auto
    then show ?thesis using grep_loop_step [OF r False nl(2)] by (simp add: split_lines_nonl [OF nl(1)] matching_lines_def)
  qed
qed

lemma grep_file:
  assumes "10 \<notin> set buf" "length buf < 1023" "0 \<notin> set (buf @ data)" "\<forall>l \<in> set (fst (split_lines (buf @ data))). length l < 1023"
  shows "grep_loop pattern buf [data] = matching_lines pattern (fst (split_lines (buf @ data)))"
  using assms
proof (induction "length data" arbitrary: buf data rule: less_induct)
  case less
  let ?n = "1023 - length buf" and ?chunk = "take (1023 - length buf) data" and ?rest = "drop (1023 - length buf) data"
  show ?case
  proof (cases "data = []")
    case True
    then show ?thesis using less.prems(1) by (subst grep_loop.simps) (simp add: split_lines_nonl matching_lines_def)
  next
    case False
    then have ne: "?chunk \<noteq> []" using less.prems(2) by simp
    have sp: "split_lines (buf @ data) = (fst (split_lines (buf @ ?chunk)) @ fst (split_lines (snd (split_lines (buf @ ?chunk)) @ ?rest)),
        snd (split_lines (snd (split_lines (buf @ ?chunk)) @ ?rest)))"
      using split_lines_append [of "buf @ ?chunk" ?rest] by simp
    have z: "0 \<notin> set (buf @ ?chunk)" "0 \<notin> set (snd (split_lines (buf @ ?chunk)))" "0 \<notin> set ?rest"
      using less.prems(3) split_lines_subset [of "buf @ ?chunk"] by (auto dest: in_set_takeD in_set_dropD)
    let ?buf' = "if length (snd (split_lines (buf @ ?chunk))) = length (buf @ ?chunk) then [] else snd (split_lines (buf @ ?chunk))"
    let ?inp' = "if ?rest = [] then [] else [?rest]"
    have st: "grep_loop pattern buf [data] = matching_lines pattern (fst (split_lines (buf @ ?chunk))) @ grep_loop pattern ?buf' ?inp'"
      by (rule grep_loop_step [OF _ ne z(1)]) simp
    show ?thesis
    proof (cases "fst (split_lines (buf @ ?chunk)) = []")
      case True
      note N = split_lines_none [OF True]
      have s: "split_lines (buf @ data) = split_lines (buf @ ?chunk @ ?rest)" by simp
      have nr: "10 \<notin> set ?rest"
      proof
        assume a: "10 \<in> set ?rest"
        then obtain l r where lr: "?rest = l @ 10 # r" "10 \<notin> set l" by (meson split_list_first)
        have "split_lines ((buf @ ?chunk @ l) @ 10 # r) = ((buf @ ?chunk @ l) # fst (split_lines r), snd (split_lines r))"
          using N lr(2) by (intro split_lines_line) simp
        then have "buf @ ?chunk @ l \<in> set (fst (split_lines (buf @ data)))" unfolding s lr(1) by simp
        then have "length (buf @ ?chunk @ l) < 1023" using less.prems(4) by blast
        moreover have "?rest \<noteq> []" using a by auto
        ultimately show False using less.prems(2) by simp
      qed
      have o: "grep_loop pattern [] ?inp' = []" using nr z(3) by (intro no_line_no_output) simp_all
      have "set data = set ?chunk \<union> set ?rest" by (simp only: set_append [symmetric] append_take_drop_id)
      then have "10 \<notin> set data" using N nr by simp
      then have "fst (split_lines (buf @ data)) = []" using N by (subst split_lines_nonl) simp_all
      then show ?thesis unfolding st using o N by (simp add: matching_lines_def)
    next
      case False
      have len: "length (snd (split_lines (buf @ ?chunk))) < length (buf @ ?chunk)" by (rule split_lines_length [OF False])
      have "grep_loop pattern (snd (split_lines (buf @ ?chunk))) ?inp' = matching_lines pattern (fst (split_lines (snd (split_lines (buf @ ?chunk)) @ ?rest)))"
      proof (cases "?rest = []")
        case True
        then show ?thesis using split_lines_rest by (subst grep_loop.simps) (simp add: split_lines_nonl matching_lines_def)
      next
        case False
        have "length ?rest < length data" using less.prems(2) \<open>data \<noteq> []\<close> by (cases data) simp_all
        moreover have "length (snd (split_lines (buf @ ?chunk))) < 1023" using len less.prems(2) by simp
        moreover have "\<forall>l \<in> set (fst (split_lines (snd (split_lines (buf @ ?chunk)) @ ?rest))). length l < 1023"
          using less.prems(4) unfolding sp by simp
        ultimately show ?thesis using False less.hyps [of ?rest "snd (split_lines (buf @ ?chunk))"] split_lines_rest z by simp
      qed
      then show ?thesis unfolding st sp using len by (simp add: matching_lines_def)
    qed
  qed
qed

subsection \<open>Properties\<close>

text \<open>
  C36: the matcher recognises its patterns. A pattern is a sequence of characters, dots and starred
  characters or dots, with an optional caret in front and an optional dollar at the end. match
  holds of a text exactly when some part of it is in the language of that sequence, where the part
  begins the text if there is a caret and ends it if there is a dollar.
\<close>

theorem match_recognises_pattern:
  "match re str \<longleftrightarrow>
    (\<exists>p u v. str = p @ u @ v \<and> (if re \<noteq> [] \<and> hd re = 94
       then p = [] \<and> u \<in> re_lang (parse_re (tl re)) \<and> (\<not> at_end (parse_re (tl re)) \<or> v = [])
       else u \<in> re_lang (parse_re re) \<and> (\<not> at_end (parse_re re) \<or> v = [])))"
proof (cases "re \<noteq> [] \<and> hd re = 94")
  case True
  then show ?thesis by (auto simp: match_def matcher_correct(1) prefix_match_def)
next
  case False
  then have "match re str \<longleftrightarrow> (\<exists>p s. str = p @ s \<and> prefix_match (parse_re re) s)"
    unfolding match_def if_not_P [OF False] by (simp add: match_loop_suffix matcher_correct(1))
  then show ?thesis using False unfolding prefix_match_def by (simp only: if_False) blast
qed

theorem match_recognises_pattern_witness: "match [94, 46, 42, 97, 36] [98, 99, 97]"
proof -
  have p: "parse_re (tl [94, 46, 42, 97, 36]) = [Star Any, One (Lit 97), Eol]" by code_simp
  have "[98, 99, 97] \<in> re_lang [Star Any, One (Lit 97), Eol]"
    by (simp add: exI [of _ "[98, 99]"] exI [of _ "[97]"])
  then show ?thesis
    unfolding match_recognises_pattern [of "[94, 46, 42, 97, 36]" "[98, 99, 97]"] p
    by (intro exI [of _ "[]"] exI [of _ "[98, 99, 97]"]) (simp only: list.distinct list.sel append_Nil append_Nil2 if_True simp_thms)
qed

text \<open>
  C37: grep prints the matching lines of a file. On a file without zero bytes whose complete lines
  are shorter than the buffer, the output is the complete lines that match, each with its newline,
  in order; a last line without a newline is not printed.
\<close>

theorem grep_prints_matching_lines:
  assumes "0 \<notin> set bytes" "\<forall>l \<in> set (fst (split_lines bytes)). length l < 1023"
  shows "grep pattern [bytes] = concat (map (\<lambda>l. l @ [10]) (filter (match pattern) (fst (split_lines bytes))))"
  using grep_file [of "[]" bytes pattern] assms by (simp add: grep_def matching_lines_def)

theorem grep_prints_matching_lines_witness: "grep [97] [[98, 10, 97, 99, 10, 97]] = [97, 99, 10]"
proof -
  have m: "match [97] [98] = False" "match [97] [97, 99] = True" by code_simp+
  have "split_lines [98, 10, 97, 99, 10, 97] = ([[98], [97, 99]], [97])" by simp
  then show ?thesis using grep_prints_matching_lines [of "[98, 10, 97, 99, 10, 97]" "[97]"] m by simp
qed

text \<open>
  Grep loses the beginning of a line that arrives in parts. When a read returns bytes without
  a newline while no line is pending, as from a pipe whose writer has not finished the line, they
  are thrown away and the output is that of the remaining input alone.
\<close>

theorem grep_drops_partial_line:
  assumes "part \<noteq> []" "10 \<notin> set part" "0 \<notin> set part" "length part < 1024"
  shows "grep pattern (part # rest) = grep pattern rest"
proof -
  have "read_burst (part # rest) (1023 - length ([] :: u8 list)) = (part, rest)" using assms(4) by simp
  from grep_loop_step [OF this assms(1), of pattern] assms(2,3) show ?thesis by (simp add: grep_def split_lines_nonl matching_lines_def)
qed

theorem grep_drops_partial_line_witness: "grep [97] [[97], [10]] = [] \<and> grep [97] [[97, 10]] = [97, 10]"
proof
  have "grep [97] [[10]] = []" by code_simp
  then show "grep [97] [[97], [10]] = []" using grep_drops_partial_line [of "[97]" "[97]" "[[10]]"] by simp
  show "grep [97] [[97, 10]] = [97, 10]" by code_simp
qed

end
