(* ===== verification/Bio.thy ===== *)
theory Bio
  imports Block Locks
begin

text \<open>
  The buffer cache (bio.c) over the memory disk (memide.c). Buffers are named by their index, and
  index NBUF is the list head. The doubly linked list in order of use is modelled with its
  pointers. bget is split where it gives up the spin lock: \<open>bget_find\<close> chooses a buffer and takes a
  reference, \<open>bget_lock\<close> waits for its sleep lock.
\<close>

abbreviation NBUF :: nat where "NBUF \<equiv> 30"

record buf =
  b_flags :: u32
  b_dev :: u32
  b_blockno :: u32
  b_lock :: sleeplock
  b_refcnt :: int
  b_prev :: nat
  b_next :: nat
  b_data :: block

record bcache =
  bufs :: "buf list"
  memdisk :: "nat \<Rightarrow> block"
  disksize :: nat

abbreviation buf_at :: "bcache \<Rightarrow> nat \<Rightarrow> buf" where "buf_at s b \<equiv> bufs s ! b"

definition upd_buf :: "nat \<Rightarrow> (buf \<Rightarrow> buf) \<Rightarrow> bcache \<Rightarrow> bcache" where
  "upd_buf b f s = s\<lparr>bufs := (bufs s)[b := f (bufs s ! b)]\<rparr>"

subsection \<open>The memory disk\<close>

definition iderw :: "int \<Rightarrow> nat \<Rightarrow> bcache \<Rightarrow> bcache res" where
  "iderw pid b s =
     (if \<not> holdingsleep pid (b_lock (buf_at s b)) then Inl (Panic ''iderw: buf not locked'')
      else if b_flags (buf_at s b) AND 6 = 2 then Inl (Panic ''iderw: nothing to do'')
      else if b_dev (buf_at s b) \<noteq> 1 then Inl (Panic ''iderw: request not for disk 1'')
      else if disksize s \<le> unat (b_blockno (buf_at s b)) then Inl (Panic ''iderw: block out of range'')
      else
        let p = unat (b_blockno (buf_at s b));
            s = (if b_flags (buf_at s b) AND 4 \<noteq> 0
                 then (upd_buf b (\<lambda>x. x\<lparr>b_flags := b_flags x AND NOT 4\<rparr>) s)\<lparr>memdisk := (memdisk s)(p := b_data (buf_at s b))\<rparr>
                 else upd_buf b (\<lambda>x. x\<lparr>b_data := memdisk s p\<rparr>) s)
        in Inr (upd_buf b (\<lambda>x. x\<lparr>b_flags := b_flags x OR 2\<rparr>) s))"

subsection \<open>The cache\<close>

definition link_front :: "nat \<Rightarrow> bcache \<Rightarrow> bcache" where
  "link_front b s =
     (let s = upd_buf b (\<lambda>x. x\<lparr>b_next := b_next (buf_at s NBUF)\<rparr>) s;
          s = upd_buf b (\<lambda>x. x\<lparr>b_prev := NBUF\<rparr>) s;
          s = upd_buf (b_next (buf_at s NBUF)) (\<lambda>x. x\<lparr>b_prev := b\<rparr>) s
      in upd_buf NBUF (\<lambda>x. x\<lparr>b_next := b\<rparr>) s)"

definition unlink_buf :: "nat \<Rightarrow> bcache \<Rightarrow> bcache" where
  "unlink_buf b s =
     (let s = upd_buf (b_next (buf_at s b)) (\<lambda>x. x\<lparr>b_prev := b_prev (buf_at s b)\<rparr>) s
      in upd_buf (b_prev (buf_at s b)) (\<lambda>x. x\<lparr>b_next := b_next (buf_at s b)\<rparr>) s)"

definition binit :: "bcache \<Rightarrow> bcache" where
  "binit s =
     fold (\<lambda>b s. link_front b (upd_buf b (\<lambda>x. x\<lparr>b_lock := initsleeplock\<rparr>) s)) [0..<NBUF]
       (upd_buf NBUF (\<lambda>x. x\<lparr>b_prev := NBUF, b_next := NBUF\<rparr>) s)"

text \<open>A walk along the list from buffer b, in the direction of \<open>nx\<close>, to the first buffer with P.\<close>

partial_function (option) walk :: "(nat \<Rightarrow> nat) \<Rightarrow> (nat \<Rightarrow> bool) \<Rightarrow> nat \<Rightarrow> nat option option" where
  "walk nx P b = (if b = NBUF then Some None else if P b then Some (Some b) else walk nx P (nx b))"

declare walk.simps [code]

definition bget_find :: "u32 \<Rightarrow> u32 \<Rightarrow> bcache \<Rightarrow> (nat \<times> bcache) res option" where
  "bget_find dev blockno s =
     (case walk (\<lambda>b. b_next (buf_at s b)) (\<lambda>b. b_dev (buf_at s b) = dev \<and> b_blockno (buf_at s b) = blockno) (b_next (buf_at s NBUF)) of
        None \<Rightarrow> None
      | Some (Some b) \<Rightarrow> Some (Inr (b, upd_buf b (\<lambda>x. x\<lparr>b_refcnt := b_refcnt x + 1\<rparr>) s))
      | Some None \<Rightarrow>
          (case walk (\<lambda>b. b_prev (buf_at s b)) (\<lambda>b. b_refcnt (buf_at s b) = 0 \<and> b_flags (buf_at s b) AND 4 = 0) (b_prev (buf_at s NBUF)) of
             None \<Rightarrow> None
           | Some (Some b) \<Rightarrow>
               Some (Inr (b, upd_buf b (\<lambda>x. x\<lparr>b_dev := dev, b_blockno := blockno, b_flags := 0, b_refcnt := 1\<rparr>) s))
           | Some None \<Rightarrow> Some (Inl (Panic ''bget: no buffers''))))"

definition bget_lock :: "int \<Rightarrow> nat \<Rightarrow> bcache \<Rightarrow> bcache option" where
  "bget_lock pid b s = map_option (\<lambda>lk. upd_buf b (\<lambda>x. x\<lparr>b_lock := lk\<rparr>) s) (acquiresleep pid (b_lock (buf_at s b)))"

definition bread_fill :: "int \<Rightarrow> nat \<Rightarrow> bcache \<Rightarrow> bcache res" where
  "bread_fill pid b s = (if b_flags (buf_at s b) AND 2 = 0 then iderw pid b s else Inr s)"

text \<open>The whole of bread when nobody else runs in between; \<open>Blocks\<close> if the buffer is locked.\<close>

definition bread :: "int \<Rightarrow> u32 \<Rightarrow> u32 \<Rightarrow> bcache \<Rightarrow> (nat \<times> bcache) res option" where
  "bread pid dev blockno s =
     map_option (\<lambda>r. bindR r (\<lambda>(b, s).
       case bget_lock pid b s of
         None \<Rightarrow> Inl Blocks
       | Some s \<Rightarrow> bindR (bread_fill pid b s) (\<lambda>s. Inr (b, s)))) (bget_find dev blockno s)"

definition bwrite :: "int \<Rightarrow> nat \<Rightarrow> bcache \<Rightarrow> bcache res" where
  "bwrite pid b s =
     (if \<not> holdingsleep pid (b_lock (buf_at s b)) then Inl (Panic ''bwrite'')
      else iderw pid b (upd_buf b (\<lambda>x. x\<lparr>b_flags := b_flags x OR 4\<rparr>) s))"

definition brelse :: "int \<Rightarrow> nat \<Rightarrow> bcache \<Rightarrow> bcache res" where
  "brelse pid b s =
     (if \<not> holdingsleep pid (b_lock (buf_at s b)) then Inl (Panic ''brelse'')
      else
        let s = upd_buf b (\<lambda>x. x\<lparr>b_lock := releasesleep (b_lock x)\<rparr>) s;
            s = upd_buf b (\<lambda>x. x\<lparr>b_refcnt := b_refcnt x - 1\<rparr>) s
        in Inr (if b_refcnt (buf_at s b) = 0 then link_front b (unlink_buf b s) else s))"

subsection \<open>The list\<close>

fun path :: "(nat \<Rightarrow> nat) \<Rightarrow> nat \<Rightarrow> nat list \<Rightarrow> nat \<Rightarrow> bool" where
  "path nx a [] z \<longleftrightarrow> nx a = z"
| "path nx a (b # bs) z \<longleftrightarrow> nx a = b \<and> path nx b bs z"

lemma path_append: "path nx a (xs @ b # ys) z \<longleftrightarrow> path nx a xs b \<and> path nx b ys z"
  by (induction xs arbitrary: a) auto

lemma path_frame: "path nx a xs z \<Longrightarrow> (\<And>c. c \<in> set (a # xs) \<Longrightarrow> nx' c = nx c) \<Longrightarrow> path nx' a xs z"
  by (induction xs arbitrary: a) auto

lemma path_first: "path nx a xs z \<Longrightarrow> nx a = hd (xs @ [z])"
  by (cases xs) auto

lemma path_last: "path nx a xs z \<Longrightarrow> nx (last (a # xs)) = z"
  by (induction xs arbitrary: a) auto

lemma path_unlink:
  assumes "path nx a (xs @ b # ys) z" "distinct (a # xs @ b # ys)"
  shows "path (nx(last (a # xs) := nx b)) a (xs @ ys) z"
  using assms
proof (induction xs arbitrary: a)
  case Nil
  have p: "path nx b ys z" and d: "a \<notin> set ys" using Nil by simp_all
  show ?case
  proof (cases ys)
    case Nil
    then show ?thesis using p by simp
  next
    case (Cons y zs)
    have "path (nx(a := nx b)) y zs z" by (rule path_frame [of nx y zs z]) (use p d Cons in auto)
    then show ?thesis using p Cons by (simp add: fun_upd_same del: fun_upd_apply)
  qed
next
  case (Cons x xs)
  define l where "l = last (x # xs)"
  have "l \<in> set (x # xs)" unfolding l_def by (rule last_in_set) simp
  then have "a \<noteq> l" using Cons.prems(2) by auto
  moreover have "path (nx(l := nx b)) x (xs @ ys) z" unfolding l_def using Cons.prems by (intro Cons.IH) simp_all
  moreover have "last (a # x # xs) = l" by (simp add: l_def)
  ultimately show ?case using Cons.prems(1) by (simp add: fun_upd_other del: fun_upd_apply last.simps)
qed

lemma path_extend:
  assumes "path nx a xs z" "b \<notin> set (a # xs)" "distinct (a # xs)"
  shows "path (nx(last (a # xs) := b, b := z)) a (xs @ [b]) z"
  using assms
proof (induction xs arbitrary: a)
  case Nil
  then show ?case by auto
next
  case (Cons x xs)
  define l where "l = last (x # xs)"
  have "l \<in> set (x # xs)" unfolding l_def by (rule last_in_set) simp
  then have "a \<noteq> l" "a \<noteq> b" using Cons.prems(2,3) by auto
  moreover have "path (nx(l := b, b := z)) x (xs @ [b]) z" unfolding l_def using Cons.prems by (intro Cons.IH) simp_all
  moreover have "last (a # x # xs) = l" by (simp add: l_def)
  ultimately show ?case using Cons.prems(1) by (simp add: fun_upd_other del: fun_upd_apply last.simps)
qed

lemma walk_path: "path nx a xs NBUF \<Longrightarrow> NBUF \<notin> set xs \<Longrightarrow> walk nx P (nx a) = Some (List.find P xs)"
proof (induction xs arbitrary: a)
  case Nil
  then show ?case by (simp add: walk.simps)
next
  case (Cons x xs)
  then show ?case by (subst walk.simps) auto
qed

text \<open>The buffers from most to least recently used.\<close>

abbreviation nxt :: "bcache \<Rightarrow> nat \<Rightarrow> nat" where "nxt s \<equiv> \<lambda>b. b_next (buf_at s b)"
abbreviation prv :: "bcache \<Rightarrow> nat \<Rightarrow> nat" where "prv s \<equiv> \<lambda>b. b_prev (buf_at s b)"

definition lru :: "bcache \<Rightarrow> nat list \<Rightarrow> bool" where
  "lru s ns \<longleftrightarrow> length (bufs s) = Suc NBUF \<and> distinct (NBUF # ns) \<and> set ns \<subseteq> {..<NBUF} \<and>
     path (nxt s) NBUF ns NBUF \<and> path (prv s) NBUF (rev ns) NBUF"

text \<open>What a buffer is apart from its links.\<close>

definition core :: "buf \<Rightarrow> u32 \<times> u32 \<times> u32 \<times> sleeplock \<times> int \<times> block" where
  "core x = (b_flags x, b_dev x, b_blockno x, b_lock x, b_refcnt x, b_data x)"

lemma upd_buf_simps [simp]:
  "length (bufs (upd_buf b f s)) = length (bufs s)" "memdisk (upd_buf b f s) = memdisk s" "disksize (upd_buf b f s) = disksize s"
  "b < length (bufs s) \<Longrightarrow> buf_at (upd_buf b f s) c = (if c = b then f (buf_at s b) else buf_at s c)"
  by (simp_all add: upd_buf_def)

lemma link_front_fields:
  assumes "length (bufs s) = Suc NBUF" "b < NBUF" "nxt s NBUF \<le> NBUF" "nxt s NBUF \<noteq> b"
  shows "nxt (link_front b s) = (nxt s)(b := nxt s NBUF, NBUF := b)" "prv (link_front b s) = (prv s)(b := NBUF, nxt s NBUF := b)"
    "core (buf_at (link_front b s) c) = core (buf_at s c)" "memdisk (link_front b s) = memdisk s" "disksize (link_front b s) = disksize s"
    "length (bufs (link_front b s)) = Suc NBUF"
  using assms by (auto simp: link_front_def Let_def core_def fun_eq_iff)

lemma unlink_fields:
  assumes "length (bufs s) = Suc NBUF" "b < NBUF" "nxt s b \<le> NBUF" "prv s b \<le> NBUF" "nxt s b \<noteq> b" "prv s b \<noteq> b"
  shows "nxt (unlink_buf b s) = (nxt s)(prv s b := nxt s b)" "prv (unlink_buf b s) = (prv s)(nxt s b := prv s b)"
    "core (buf_at (unlink_buf b s) c) = core (buf_at s c)" "memdisk (unlink_buf b s) = memdisk s" "disksize (unlink_buf b s) = disksize s"
    "length (bufs (unlink_buf b s)) = Suc NBUF"
  using assms by (auto simp: unlink_buf_def Let_def core_def fun_eq_iff)

lemma path_members: "path nx a xs z \<Longrightarrow> c \<in> set (a # xs) \<Longrightarrow> nx c \<in> set xs \<union> {z}"
  by (induction xs arbitrary: a) auto

lemma lru_link:
  assumes l: "lru s ns" and b: "b < NBUF" "b \<notin> set ns"
  shows "lru (link_front b s) (b # ns)" "core (buf_at (link_front b s) c) = core (buf_at s c)"
    "memdisk (link_front b s) = memdisk s" "disksize (link_front b s) = disksize s"
proof -
  have len: "length (bufs s) = Suc NBUF" and d: "distinct (NBUF # ns)" and sub: "set ns \<subseteq> {..<NBUF}"
    and pn: "path (nxt s) NBUF ns NBUF" and pp: "path (prv s) NBUF (rev ns) NBUF" using l by (simp_all add: lru_def)
  have nb: "nxt s NBUF \<in> set ns \<union> {NBUF}" by (rule path_members [OF pn]) simp
  then have n: "nxt s NBUF \<le> NBUF" "nxt s NBUF \<noteq> b" using sub b by auto
  note F = link_front_fields [OF len b(1) n]
  show "core (buf_at (link_front b s) c) = core (buf_at s c)" "memdisk (link_front b s) = memdisk s" "disksize (link_front b s) = disksize s"
    by (rule F)+
  have "path ((nxt s)(b := nxt s NBUF, NBUF := b)) b ns NBUF"
  proof (cases ns)
    case Nil
    then show ?thesis using pn b(1) by simp
  next
    case (Cons y ys)
    have "path ((nxt s)(b := nxt s NBUF, NBUF := b)) y ys NBUF" by (rule path_frame [of "nxt s"]) (use pn d b Cons in auto)
    then show ?thesis using pn Cons b(1) by (simp add: fun_upd_other fun_upd_same del: fun_upd_apply)
  qed
  then have 1: "path (nxt (link_front b s)) NBUF (b # ns) NBUF" unfolding F(1) by (simp add: fun_upd_same del: fun_upd_apply)
  have last: "last (NBUF # rev ns) = nxt s NBUF" using path_first [OF pn] by (cases ns) simp_all
  have "path ((prv s)(last (NBUF # rev ns) := b, b := NBUF)) NBUF (rev ns @ [b]) NBUF"
    using pp b d by (intro path_extend) auto
  then have 2: "path (prv (link_front b s)) NBUF (rev (b # ns)) NBUF"
    unfolding F(2) last using n(2) by (simp add: fun_upd_twist del: fun_upd_apply)
  show "lru (link_front b s) (b # ns)" using 1 2 d sub b F(6) by (auto simp: lru_def)
qed

lemma lru_unlink:
  assumes l: "lru s (xs @ b # ys)"
  shows "lru (unlink_buf b s) (xs @ ys)" "core (buf_at (unlink_buf b s) c) = core (buf_at s c)"
    "memdisk (unlink_buf b s) = memdisk s" "disksize (unlink_buf b s) = disksize s"
proof -
  have len: "length (bufs s) = Suc NBUF" and d: "distinct (NBUF # xs @ b # ys)" and sub: "set (xs @ b # ys) \<subseteq> {..<NBUF}"
    and pn: "path (nxt s) NBUF (xs @ b # ys) NBUF" and pp: "path (prv s) NBUF (rev (xs @ b # ys)) NBUF" using l by (simp_all add: lru_def)
  have pn': "path (nxt s) NBUF xs b" "path (nxt s) b ys NBUF" using pn path_append by blast+
  have pp': "path (prv s) NBUF (rev ys) b" "path (prv s) b (rev xs) NBUF" using pp by (simp_all add: path_append)
  have nb: "nxt s b \<in> set ys \<union> {NBUF}" "prv s b \<in> set (rev xs) \<union> {NBUF}"
    using path_members [OF pn'(2), of b] path_members [OF pp'(2), of b] by simp_all
  have b: "b < NBUF" using sub by simp
  have n: "nxt s b \<le> NBUF" "prv s b \<le> NBUF" "nxt s b \<noteq> b" "prv s b \<noteq> b" using nb d sub by auto
  note F = unlink_fields [OF len b n]
  show "core (buf_at (unlink_buf b s) c) = core (buf_at s c)" "memdisk (unlink_buf b s) = memdisk s" "disksize (unlink_buf b s) = disksize s"
    by (rule F)+
  have l1: "last (NBUF # xs) = prv s b" using path_first [OF pp'(2)] by (cases xs rule: rev_cases) simp_all
  have l2: "last (NBUF # rev ys) = nxt s b" using path_first [OF pn'(2)] by (cases ys) simp_all
  have "path (nxt (unlink_buf b s)) NBUF (xs @ ys) NBUF" unfolding F(1) l1 [symmetric] by (rule path_unlink [OF pn d])
  moreover have "path (prv (unlink_buf b s)) NBUF (rev ys @ rev xs) NBUF"
    unfolding F(2) l2 [symmetric] using pp d by (intro path_unlink) auto
  ultimately show "lru (unlink_buf b s) (xs @ ys)" using d sub F(6) by (auto simp: lru_def)
qed

lemma lru_upd:
  assumes "lru s ns" "b < Suc NBUF" "\<And>x. b_next (f x) = b_next x" "\<And>x. b_prev (f x) = b_prev x"
  shows "lru (upd_buf b f s) ns"
proof -
  have "nxt (upd_buf b f s) = nxt s" "prv (upd_buf b f s) = prv s" using assms by (auto simp: lru_def fun_eq_iff)
  then show ?thesis using assms(1) by (simp add: lru_def del: upd_buf_simps(4))
qed

subsection \<open>Processes that use the cache\<close>

definition cached :: "bcache \<Rightarrow> nat \<Rightarrow> nat \<Rightarrow> bool" where
  "cached s n b \<longleftrightarrow> b_dev (buf_at s b) = 1 \<and> unat (b_blockno (buf_at s b)) = n \<and> b_flags (buf_at s b) AND 2 \<noteq> 0"

text \<open>The contents of a block of disk 1 as its readers see it: the cached copy if there is one.\<close>

definition contents :: "bcache \<Rightarrow> nat \<Rightarrow> block" where
  "contents s n = (case List.find (cached s n) [0..<NBUF] of Some b \<Rightarrow> b_data (buf_at s b) | None \<Rightarrow> memdisk s n)"

definition holds_buf :: "int \<Rightarrow> nat \<Rightarrow> bcache \<Rightarrow> bool" where
  "holds_buf pid b s \<longleftrightarrow> b < NBUF \<and> holdingsleep pid (b_lock (buf_at s b))"

text \<open>What a process leaves behind when it releases a buffer: valid data are on the disk or marked dirty.\<close>

definition settled :: "bcache \<Rightarrow> nat \<Rightarrow> bool" where
  "settled s b \<longleftrightarrow> (b_flags (buf_at s b) AND 2 \<noteq> 0 \<longrightarrow> b_flags (buf_at s b) AND 4 = 0 \<longrightarrow> b_data (buf_at s b) = memdisk s (unat (b_blockno (buf_at s b))))"

text \<open>
  A step of one process; R is the set of the references that processes have. A process stores into the
  data of a buffer only while it holds it and has read it (\<open>modify\<close>). The store and the mark are two
  steps, as in log.c, where write_log and install_trans copy the data before bwrite and log_write
  marks a buffer that its caller has changed before (\<open>mark\<close>). By the time it releases the buffer,
  what it stored is marked or written.
\<close>

inductive bio_step :: "bcache \<times> (int \<times> nat) set \<Rightarrow> bcache \<times> (int \<times> nat) set \<Rightarrow> bool" where
  get: "bget_find 1 n s = Some (Inr (b, s')) \<Longrightarrow> unat n < disksize s \<Longrightarrow> (pid, b) \<notin> R \<Longrightarrow> bio_step (s, R) (s', insert (pid, b) R)"
| lock: "(pid, b) \<in> R \<Longrightarrow> bget_lock pid b s = Some s' \<Longrightarrow> bio_step (s, R) (s', R)"
| fill: "holds_buf pid b s \<Longrightarrow> bread_fill pid b s = Inr s' \<Longrightarrow> bio_step (s, R) (s', R)"
| modify: "holds_buf pid b s \<Longrightarrow> b_flags (buf_at s b) AND 2 \<noteq> 0 \<Longrightarrow>
    bio_step (s, R) (upd_buf b (\<lambda>x. x\<lparr>b_data := d\<rparr>) s, R)"
| mark: "holds_buf pid b s \<Longrightarrow> b_flags (buf_at s b) AND 2 \<noteq> 0 \<Longrightarrow>
    bio_step (s, R) (upd_buf b (\<lambda>x. x\<lparr>b_flags := b_flags x OR 4\<rparr>) s, R)"
| flush: "holds_buf pid b s \<Longrightarrow> b_flags (buf_at s b) AND 2 \<noteq> 0 \<Longrightarrow> bwrite pid b s = Inr s' \<Longrightarrow> bio_step (s, R) (s', R)"
| rel: "holds_buf pid b s \<Longrightarrow> settled s b \<Longrightarrow> brelse pid b s = Inr s' \<Longrightarrow> bio_step (s, R) (s', R - {(pid, b)})"

definition buf_ok :: "bcache \<Rightarrow> (int \<times> nat) set \<Rightarrow> nat \<Rightarrow> bool" where
  "buf_ok s R b \<longleftrightarrow> b_refcnt (buf_at s b) = int (card {p. (p, b) \<in> R}) \<and>
     (slk_locked (b_lock (buf_at s b)) \<noteq> 0 \<longrightarrow> (slk_pid (b_lock (buf_at s b)), b) \<in> R) \<and>
     (b_flags (buf_at s b) \<noteq> 0 \<or> (\<exists>p. (p, b) \<in> R) \<longrightarrow> b_dev (buf_at s b) = 1 \<and> unat (b_blockno (buf_at s b)) < disksize s) \<and>
     (b_flags (buf_at s b) AND 4 \<noteq> 0 \<longrightarrow> b_flags (buf_at s b) AND 2 \<noteq> 0) \<and>
     (slk_locked (b_lock (buf_at s b)) = 0 \<longrightarrow> settled s b)"

definition bc_inv :: "bcache \<Rightarrow> (int \<times> nat) set \<Rightarrow> bool" where
  "bc_inv s R \<longleftrightarrow> (\<exists>ns. lru s ns \<and> set ns = {..<NBUF}) \<and> finite R \<and> (\<forall>(p, b) \<in> R. b < NBUF) \<and>
     (\<forall>b < NBUF. buf_ok s R b) \<and>
     (\<forall>b < NBUF. \<forall>c < NBUF. b_dev (buf_at s b) = 1 \<longrightarrow> b_dev (buf_at s c) = 1 \<longrightarrow> b_blockno (buf_at s b) = b_blockno (buf_at s c) \<longrightarrow> b = c)"

lemma bc_invD:
  assumes "bc_inv s R"
  shows "\<exists>ns. lru s ns \<and> set ns = {..<NBUF}" "finite R" "(p, b) \<in> R \<Longrightarrow> b < NBUF" "b < NBUF \<Longrightarrow> buf_ok s R b"
    "b < NBUF \<Longrightarrow> c < NBUF \<Longrightarrow> b_dev (buf_at s b) = 1 \<Longrightarrow> b_dev (buf_at s c) = 1 \<Longrightarrow> b_blockno (buf_at s b) = b_blockno (buf_at s c) \<Longrightarrow> b = c"
    "length (bufs s) = Suc NBUF"
  using assms by (auto simp: bc_inv_def lru_def)

text \<open>With unique blocks the cached copy is the buffer's.\<close>

lemma contents_cached:
  assumes "bc_inv s R" "b < NBUF" "cached s n b"
  shows "contents s n = b_data (buf_at s b)"
proof -
  have "List.find (cached s n) [0..<NBUF] \<noteq> None" using assms(2,3) by (auto simp: find_None_iff)
  then obtain c where c: "List.find (cached s n) [0..<NBUF] = Some c" by auto
  then have "c < NBUF" "cached s n c" by (auto simp: find_Some_iff)
  moreover from this(2) have "b_blockno (buf_at s c) = b_blockno (buf_at s b)" using assms(3) by (simp add: cached_def word_unat_eq_iff)
  ultimately have "c = b" using bc_invD(5) [OF assms(1), of c b] assms(2,3) by (simp add: cached_def)
  then show ?thesis using c by (simp add: contents_def)
qed

lemma contents_uncached: "(\<And>b. b < NBUF \<Longrightarrow> \<not> cached s n b) \<Longrightarrow> contents s n = memdisk s n"
proof -
  assume "\<And>b. b < NBUF \<Longrightarrow> \<not> cached s n b"
  then have "List.find (cached s n) [0..<NBUF] = None" by (auto simp: find_None_iff)
  then show ?thesis by (simp add: contents_def)
qed

lemma and_pow2:
  fixes f :: u32
  shows "f AND 2 ^ k = (if bit f k then 2 ^ k else 0)"
  by (rule bit_word_eqI) (auto simp: bit_and_iff bit_exp_iff)

lemma flag_bits:
  fixes f :: u32
  shows "(f OR 4) AND 2 = f AND 2" "(f OR 4) AND 4 = 4" "(f AND NOT 4) AND 4 = 0" "(f AND NOT 4) AND 2 = f AND 2"
    "(f OR 2) AND 2 = 2" "(f OR 2) AND 4 = f AND 4" "f AND 6 = 2 \<longleftrightarrow> f AND 2 \<noteq> 0 \<and> f AND 4 = 0" "f OR 4 \<noteq> 0" "f OR 2 \<noteq> 0"
proof -
  have p: "f AND 2 = (if bit f 1 then 2 else 0)" "f AND 4 = (if bit f 2 then 4 else 0)" for f :: u32
    using and_pow2 [of f 1] and_pow2 [of f 2] by simp_all
  show "(f OR 4) AND 2 = f AND 2" "(f OR 4) AND 4 = 4" "(f OR 2) AND 2 = 2" "(f OR 2) AND 4 = f AND 4"
    by (simp_all add: bit.conj_disj_distrib2)
  show "f OR 4 \<noteq> 0" "f OR 2 \<noteq> 0" by (simp_all add: or_eq_0_iff)
  show "(f AND NOT 4) AND 4 = 0" "(f AND NOT 4) AND 2 = f AND 2" by (simp_all add: and.assoc)
  have "f AND 6 = (f AND 2) OR (f AND 4)" using bit.conj_disj_distrib [of f 2 4] by simp
  then show "f AND 6 = 2 \<longleftrightarrow> f AND 2 \<noteq> 0 \<and> f AND 4 = 0" unfolding p by simp
qed

text \<open>A step that changes one buffer.\<close>

lemma bc_inv_upd:
  assumes inv: "bc_inv s R" and b: "b < NBUF" and s': "lru s' ns" "set ns = {..<NBUF}" "disksize s' = disksize s"
    and R': "finite R'" "\<forall>(p, c) \<in> R'. c < NBUF" "\<And>c. c \<noteq> b \<Longrightarrow> {p. (p, c) \<in> R'} = {p. (p, c) \<in> R}"
    and same: "\<And>c. c < NBUF \<Longrightarrow> c \<noteq> b \<Longrightarrow> core (buf_at s' c) = core (buf_at s c)"
    and disk: "\<And>c. c < NBUF \<Longrightarrow> c \<noteq> b \<Longrightarrow> b_dev (buf_at s c) = 1 \<Longrightarrow> memdisk s' (unat (b_blockno (buf_at s c))) = memdisk s (unat (b_blockno (buf_at s c)))"
    and ok: "buf_ok s' R' b"
    and uniq: "\<And>c. c < NBUF \<Longrightarrow> c \<noteq> b \<Longrightarrow> b_dev (buf_at s' b) = 1 \<Longrightarrow> b_dev (buf_at s c) = 1 \<Longrightarrow> b_blockno (buf_at s' b) \<noteq> b_blockno (buf_at s c)"
  shows "bc_inv s' R'"
proof -
  note D = bc_invD [OF inv]
  have eq: "b_flags (buf_at s' c) = b_flags (buf_at s c)" "b_dev (buf_at s' c) = b_dev (buf_at s c)" "b_blockno (buf_at s' c) = b_blockno (buf_at s c)"
    "b_lock (buf_at s' c) = b_lock (buf_at s c)" "b_refcnt (buf_at s' c) = b_refcnt (buf_at s c)" "b_data (buf_at s' c) = b_data (buf_at s c)"
    if "c < NBUF" "c \<noteq> b" for c using same [OF that] by (simp_all add: core_def)
  have "buf_ok s' R' c" if c: "c < NBUF" for c
  proof (cases "c = b")
    case False
    have mem: "(p, c) \<in> R' \<longleftrightarrow> (p, c) \<in> R" for p using R'(3) [OF False] by auto
    have z: "b_flags (buf_at s c) AND 2 \<noteq> 0 \<Longrightarrow> b_dev (buf_at s c) = 1" using D(4) [OF c] by (auto simp: buf_ok_def)
    show ?thesis using D(4) [OF c] z disk [OF c False] unfolding buf_ok_def settled_def eq [OF c False] mem s'(3) by auto
  qed (use ok in simp)
  moreover have "c = d" if "c < NBUF" "d < NBUF" "b_dev (buf_at s' c) = 1" "b_dev (buf_at s' d) = 1" "b_blockno (buf_at s' c) = b_blockno (buf_at s' d)" for c d
  proof (cases "c = b \<or> d = b")
    case True
    then show ?thesis using that eq [of c] eq [of d] uniq [of c] uniq [of d] by (cases "c = b"; cases "d = b") auto
  next
    case False
    then show ?thesis using that eq [of c] eq [of d] D(5) [of c d] by auto
  qed
  ultimately show ?thesis using s' R'(1,2) unfolding bc_inv_def by blast
qed

lemma find_SomeD: "List.find P xs = Some x \<Longrightarrow> x \<in> set xs \<and> P x"
  by (induction xs) (auto split: if_splits)

lemma bget_find_cases:
  assumes inv: "bc_inv s R"
  obtains (hit) b where "b < NBUF" "b_dev (buf_at s b) = dev" "b_blockno (buf_at s b) = n"
      "bget_find dev n s = Some (Inr (b, upd_buf b (\<lambda>x. x\<lparr>b_refcnt := b_refcnt x + 1\<rparr>) s))"
  | (recycle) b where "b < NBUF" "\<And>c. c < NBUF \<Longrightarrow> \<not> (b_dev (buf_at s c) = dev \<and> b_blockno (buf_at s c) = n)"
      "b_refcnt (buf_at s b) = 0" "b_flags (buf_at s b) AND 4 = 0"
      "bget_find dev n s = Some (Inr (b, upd_buf b (\<lambda>x. x\<lparr>b_dev := dev, b_blockno := n, b_flags := 0, b_refcnt := 1\<rparr>) s))"
  | (full) "\<And>c. c < NBUF \<Longrightarrow> b_refcnt (buf_at s c) \<noteq> 0 \<or> b_flags (buf_at s c) AND 4 \<noteq> 0" "bget_find dev n s = Some (Inl (Panic ''bget: no buffers''))"
proof -
  obtain ns where ns: "lru s ns" "set ns = {..<NBUF}" using bc_invD(1) [OF inv] by blast
  have p: "path (nxt s) NBUF ns NBUF" "path (prv s) NBUF (rev ns) NBUF" "NBUF \<notin> set ns" "NBUF \<notin> set (rev ns)" using ns by (auto simp: lru_def)
  let ?P = "\<lambda>b. b_dev (buf_at s b) = dev \<and> b_blockno (buf_at s b) = n" and ?Q = "\<lambda>b. b_refcnt (buf_at s b) = 0 \<and> b_flags (buf_at s b) AND 4 = 0"
  note W = walk_path [OF p(1,3), of ?P] walk_path [OF p(2,4), of ?Q]
  show ?thesis
  proof (cases "List.find ?P ns")
    case (Some b)
    then have "b \<in> set ns" "?P b" using find_SomeD [OF Some] by simp_all
    then show ?thesis using ns(2) Some W(1) by (intro hit [of b]) (auto simp: bget_find_def)
  next
    case None
    then have nP: "\<And>c. c < NBUF \<Longrightarrow> \<not> ?P c" using ns(2) by (auto simp: find_None_iff)
    show ?thesis
    proof (cases "List.find ?Q (rev ns)")
      case (Some b)
      then have "b \<in> set ns" "?Q b" using find_SomeD [OF Some] by simp_all
      then show ?thesis using ns(2) nP None Some W by (intro recycle [of b]) (auto simp: bget_find_def)
    next
      case n: None
      then have "\<And>c. c < NBUF \<Longrightarrow> \<not> ?Q c" using ns(2) by (auto simp: find_None_iff)
      then show ?thesis using None n W by (intro full) (auto simp: bget_find_def)
    qed
  qed
qed

lemma holds_lock: "holds_buf pid b s \<Longrightarrow> b < NBUF \<and> slk_locked (b_lock (buf_at s b)) \<noteq> 0 \<and> slk_pid (b_lock (buf_at s b)) = pid"
  by (simp add: holds_buf_def holdingsleep_def)

text \<open>The buffer that is read from the disk.\<close>

lemma fill_cases:
  assumes "bc_inv s R" "holds_buf pid b s"
  shows "b_flags (buf_at s b) AND 2 \<noteq> 0 \<Longrightarrow> bread_fill pid b s = Inr s"
    "b_flags (buf_at s b) AND 2 = 0 \<Longrightarrow> bread_fill pid b s =
       Inr (upd_buf b (\<lambda>x. x\<lparr>b_data := memdisk s (unat (b_blockno x)), b_flags := b_flags x OR 2\<rparr>) s)"
proof -
  show "b_flags (buf_at s b) AND 2 \<noteq> 0 \<Longrightarrow> bread_fill pid b s = Inr s" by (simp add: bread_fill_def)
  note H = holds_lock [OF assms(2)]
  have ok: "buf_ok s R b" and len: "length (bufs s) = Suc NBUF" using bc_invD(4,6) [OF assms(1)] H by auto
  have R: "(pid, b) \<in> R" using ok H by (auto simp: buf_ok_def)
  then have d: "b_dev (buf_at s b) = 1" "unat (b_blockno (buf_at s b)) < disksize s" using ok by (auto simp: buf_ok_def)
  show "bread_fill pid b s = Inr (upd_buf b (\<lambda>x. x\<lparr>b_data := memdisk s (unat (b_blockno x)), b_flags := b_flags x OR 2\<rparr>) s)"
    if z: "b_flags (buf_at s b) AND 2 = 0"
  proof -
    have "b_flags (buf_at s b) AND 4 = 0" "b_flags (buf_at s b) AND 6 \<noteq> 2" using ok z unfolding flag_bits(7) by (auto simp: buf_ok_def)
    then show ?thesis using z d assms(2) len H by (simp add: bread_fill_def iderw_def holds_buf_def upd_buf_def Let_def)
  qed
qed

lemma flush_eq:
  assumes "bc_inv s R" "holds_buf pid b s"
  shows "bwrite pid b s = Inr ((upd_buf b (\<lambda>x. x\<lparr>b_flags := (b_flags x OR 4) AND NOT 4 OR 2\<rparr>) s)
    \<lparr>memdisk := (memdisk s)(unat (b_blockno (buf_at s b)) := b_data (buf_at s b))\<rparr>)"
proof -
  note H = holds_lock [OF assms(2)]
  have ok: "buf_ok s R b" and len: "length (bufs s) = Suc NBUF" using bc_invD(4,6) [OF assms(1)] H by auto
  have R: "(pid, b) \<in> R" using ok H by (auto simp: buf_ok_def)
  then have d: "b_dev (buf_at s b) = 1" "unat (b_blockno (buf_at s b)) < disksize s" using ok by (auto simp: buf_ok_def)
  have f: "(b_flags (buf_at s b) OR 4) AND 6 \<noteq> 2" "(b_flags (buf_at s b) OR 4) AND 4 \<noteq> 0" unfolding flag_bits(7) flag_bits(1,2) by simp_all
  show ?thesis using d f assms(2) len H by (simp add: bwrite_def iderw_def holds_buf_def upd_buf_def Let_def)
qed

definition local_view :: "bcache \<Rightarrow> nat \<Rightarrow> nat \<Rightarrow> block" where
  "local_view s b n = (if cached s n b then b_data (buf_at s b) else memdisk s n)"

lemma contents_local:
  assumes "bc_inv s R" "b < NBUF" "\<And>c. c < NBUF \<Longrightarrow> c \<noteq> b \<Longrightarrow> \<not> cached s n c"
  shows "contents s n = local_view s b n"
proof (cases "cached s n b")
  case True
  then show ?thesis using contents_cached [OF assms(1,2)] by (simp add: local_view_def)
next
  case False
  then have "\<not> cached s n c" if "c < NBUF" for c using assms(3) that by (cases "c = b") simp_all
  then show ?thesis using contents_uncached [of s n] False by (simp add: local_view_def)
qed

lemma contents_same:
  assumes inv: "bc_inv s R" "bc_inv s' R'" and b: "b < NBUF"
    and same: "\<And>c. c < NBUF \<Longrightarrow> c \<noteq> b \<Longrightarrow> core (buf_at s' c) = core (buf_at s c)"
    and loc: "\<And>n. local_view s' b n = local_view s b n"
  shows "contents s' = contents s"
proof
  fix n
  have eq: "cached s' n c \<longleftrightarrow> cached s n c" "b_data (buf_at s' c) = b_data (buf_at s c)" if "c < NBUF" "c \<noteq> b" for c
    using same [OF that] by (simp_all add: core_def cached_def)
  show "contents s' n = contents s n"
  proof (cases "\<exists>c < NBUF. c \<noteq> b \<and> cached s n c")
    case True
    then obtain c where c: "c < NBUF" "c \<noteq> b" "cached s n c" by blast
    then show ?thesis using contents_cached [OF inv(1)] contents_cached [OF inv(2)] eq [OF c(1,2)] by simp
  next
    case False
    then have n: "\<not> cached s n c" if "c < NBUF" "c \<noteq> b" for c using that by blast
    then have "\<not> cached s' n c" if "c < NBUF" "c \<noteq> b" for c using eq(1) [OF that] that by simp
    then have "contents s' n = local_view s' b n" by (rule contents_local [OF inv(2) b])
    also have "\<dots> = contents s n" unfolding loc using contents_local [OF inv(1) b n] by simp
    finally show ?thesis .
  qed
qed

text \<open>The steps that change one buffer without moving it in the list.\<close>

lemma upd_step:
  assumes inv: "bc_inv s R" and b: "b < NBUF"
    and f: "\<And>x. b_next (f x) = b_next x" "\<And>x. b_prev (f x) = b_prev x"
    and R': "finite R'" "\<forall>(p, c) \<in> R'. c < NBUF" "\<And>c. c \<noteq> b \<Longrightarrow> {p. (p, c) \<in> R'} = {p. (p, c) \<in> R}"
    and D: "\<And>n. n \<noteq> unat (b_blockno (buf_at s b)) \<Longrightarrow> D n = memdisk s n" "b_dev (buf_at s b) = 1 \<or> D = memdisk s"
    and s': "s' = (upd_buf b f s)\<lparr>memdisk := D\<rparr>" and ok: "buf_ok s' R' b"
    and uniq: "\<And>c. c < NBUF \<Longrightarrow> c \<noteq> b \<Longrightarrow> b_dev (f (buf_at s b)) = 1 \<Longrightarrow> b_dev (buf_at s c) = 1 \<Longrightarrow> b_blockno (f (buf_at s b)) \<noteq> b_blockno (buf_at s c)"
  shows "bc_inv s' R'" "(\<And>n. local_view s' b n = local_view s b n) \<Longrightarrow> contents s' = contents s"
    "\<And>c. c < NBUF \<Longrightarrow> c \<noteq> b \<Longrightarrow> core (buf_at s' c) = core (buf_at s c)" "buf_at s' b = f (buf_at s b)"
proof -
  obtain ns where ns: "lru s ns" "set ns = {..<NBUF}" using bc_invD(1) [OF inv] by blast
  have len: "length (bufs s) = Suc NBUF" by (rule bc_invD(6) [OF inv])
  have "lru (upd_buf b f s) ns" using b f by (intro lru_upd [OF ns(1)]) simp_all
  then have l: "lru s' ns" by (simp add: s' lru_def del: upd_buf_simps(4))
  show core: "core (buf_at s' c) = core (buf_at s c)" if "c < NBUF" "c \<noteq> b" for c using that len b by (simp add: s')
  show at: "buf_at s' b = f (buf_at s b)" using len b by (simp add: s')
  show inv': "bc_inv s' R'"
  proof (rule bc_inv_upd [OF inv b l ns(2) _ R' core _ ok])
    show "memdisk s' (unat (b_blockno (buf_at s c))) = memdisk s (unat (b_blockno (buf_at s c)))" if "c < NBUF" "c \<noteq> b" "b_dev (buf_at s c) = 1" for c
    proof (cases "D = memdisk s")
      case False
      then have "b_blockno (buf_at s c) \<noteq> b_blockno (buf_at s b)" using D(2) bc_invD(5) [OF inv that(1) b that(3)] that(2) by auto
      then show ?thesis using D(1) by (simp add: s' word_unat_eq_iff)
    qed (simp add: s')
    show "b_blockno (buf_at s' b) \<noteq> b_blockno (buf_at s c)" if "c < NBUF" "c \<noteq> b" "b_dev (buf_at s' b) = 1" "b_dev (buf_at s c) = 1" for c
      using uniq [OF that(1,2) _ that(4)] that(3) unfolding at by simp
  qed (simp add: s')
  show "(\<And>n. local_view s' b n = local_view s b n) \<Longrightarrow> contents s' = contents s" using contents_same [OF inv inv' b core] by blast
qed

lemma relinked:
  assumes inv: "bc_inv s R" and s': "lru s' ns" "set ns = {..<NBUF}" "disksize s' = disksize s" "memdisk s' = memdisk s"
    "\<And>c. core (buf_at s' c) = core (buf_at s c)"
  shows "bc_inv s' R" "contents s' = contents s"
proof -
  have eq: "b_flags (buf_at s' c) = b_flags (buf_at s c)" "b_dev (buf_at s' c) = b_dev (buf_at s c)" "b_blockno (buf_at s' c) = b_blockno (buf_at s c)"
    "b_lock (buf_at s' c) = b_lock (buf_at s c)" "b_refcnt (buf_at s' c) = b_refcnt (buf_at s c)" "b_data (buf_at s' c) = b_data (buf_at s c)" for c
    using s'(5) [of c] by (simp_all add: core_def)
  have "buf_ok s' R c \<longleftrightarrow> buf_ok s R c" for c by (simp add: buf_ok_def settled_def eq s'(3,4))
  then show "bc_inv s' R" using inv s'(1,2) unfolding bc_inv_def eq by blast
  have c: "cached s' = cached s" by (simp add: cached_def eq fun_eq_iff)
  show "contents s' = contents s" by (rule ext) (simp add: contents_def c eq s'(4) split: option.split)
qed

lemma refs_insert: "{p. (p, c) \<in> insert (pid, b) R} = (if c = b then insert pid {p. (p, c) \<in> R} else {p. (p, c) \<in> R})"
  "{p. (p, c) \<in> R - {(pid, b)}} = (if c = b then {p. (p, c) \<in> R} - {pid} else {p. (p, c) \<in> R})"
  by auto

lemma finite_refs: "finite R \<Longrightarrow> finite {p. (p, b) \<in> R}"
proof -
  assume "finite R"
  then have "finite (fst ` R)" by simp
  moreover have "{p. (p, b) \<in> R} \<subseteq> fst ` R" by force
  ultimately show ?thesis by (rule rev_finite_subset)
qed

lemma upd_buf_memdisk: "(upd_buf b f s)\<lparr>memdisk := memdisk s\<rparr> = upd_buf b f s"
  by (simp add: upd_buf_def)

lemma get_step:
  assumes inv: "bc_inv s R" and g: "bget_find 1 n s = Some (Inr (b, s'))" and n: "unat n < disksize s" and new: "(pid, b) \<notin> R"
  shows "bc_inv s' (insert (pid, b) R) \<and> contents s' = contents s \<and> b < NBUF \<and> b_dev (buf_at s' b) = 1 \<and> b_blockno (buf_at s' b) = n"
proof -
  let ?R = "insert (pid, b) R"
  note D = bc_invD [OF inv]
  from inv show ?thesis
  proof (cases rule: bget_find_cases [where dev = 1 and n = n])
    case (hit c)
    let ?f = "\<lambda>x. x\<lparr>b_refcnt := b_refcnt x + 1\<rparr>"
    have c: "c = b" "s' = (upd_buf b ?f s)\<lparr>memdisk := memdisk s\<rparr>" using g hit(4) unfolding upd_buf_memdisk by auto
    have b: "b < NBUF" using hit(1) c(1) by simp
    have at: "buf_at s' b = ?f (buf_at s b)" "memdisk s' = memdisk s" "disksize s' = disksize s" using c(2) b D(6) by simp_all
    have ok: "buf_ok s' ?R b"
      using D(4) [OF b] new finite_refs [OF D(2), of b] hit(2,3) c(1) n unfolding buf_ok_def settled_def at refs_insert by simp
    have R: "finite ?R" "\<forall>(p, c) \<in> ?R. c < NBUF" using D(2,3) b by auto
    note U = upd_step [OF inv b, of ?f ?R "memdisk s" s', OF _ _ R _ _ _ c(2) ok]
    have "bc_inv s' ?R" using D(5) [OF b] by (intro U(1)) (auto simp: refs_insert)
    moreover have "contents s' = contents s"
      using D(5) [OF b] by (intro U(2)) (auto simp: refs_insert local_view_def cached_def at)
    ultimately show ?thesis using b at hit(2,3) c(1) by simp
  next
    case (recycle c)
    let ?f = "\<lambda>x. x\<lparr>b_dev := 1, b_blockno := n, b_flags := 0, b_refcnt := 1\<rparr>"
    have c: "c = b" "s' = (upd_buf b ?f s)\<lparr>memdisk := memdisk s\<rparr>" using g recycle(5) unfolding upd_buf_memdisk by auto
    have b: "b < NBUF" using recycle(1) c(1) by simp
    have at: "buf_at s' b = ?f (buf_at s b)" "memdisk s' = memdisk s" "disksize s' = disksize s" using c(2) b D(6) by simp_all
    have "card {p. (p, b) \<in> R} = 0" using D(4) [OF b] recycle(3) c(1) by (simp add: buf_ok_def)
    then have e: "{p. (p, b) \<in> R} = {}" using finite_refs [OF D(2), of b] by simp
    have ok: "buf_ok s' ?R b"
      using D(4) [OF b] e n unfolding buf_ok_def settled_def at refs_insert by auto
    have R: "finite ?R" "\<forall>(p, c) \<in> ?R. c < NBUF" using D(2,3) b by auto
    note U = upd_step [OF inv b, of ?f ?R "memdisk s" s', OF _ _ R _ _ _ c(2) ok]
    have clean: "b_flags (buf_at s b) AND 2 \<noteq> 0 \<Longrightarrow> b_data (buf_at s b) = memdisk s (unat (b_blockno (buf_at s b)))"
      using D(4) [OF b] recycle(4) c(1) e by (auto simp: buf_ok_def settled_def)
    have "bc_inv s' ?R" using recycle(2) by (intro U(1)) (auto simp: refs_insert)
    moreover have "contents s' = contents s"
      using recycle(2) clean by (intro U(2)) (auto simp: refs_insert local_view_def cached_def at)
    ultimately show ?thesis using b at by simp
  next
    case full
    then show ?thesis using g by simp
  qed
qed

text \<open>A step that changes one buffer, keeps its block and leaves the references.\<close>

lemma local_step:
  assumes inv: "bc_inv s R" and b: "b < NBUF" and s': "s' = (upd_buf b f s)\<lparr>memdisk := D\<rparr>"
    and f: "\<And>x. b_next (f x) = b_next x" "\<And>x. b_prev (f x) = b_prev x" "\<And>x. b_dev (f x) = b_dev x" "\<And>x. b_blockno (f x) = b_blockno x"
    and D: "\<And>n. n \<noteq> unat (b_blockno (buf_at s b)) \<Longrightarrow> D n = memdisk s n" "b_dev (buf_at s b) = 1 \<or> D = memdisk s"
    and R': "finite R'" "\<forall>(p, c) \<in> R'. c < NBUF" "\<And>c. c \<noteq> b \<Longrightarrow> {p. (p, c) \<in> R'} = {p. (p, c) \<in> R}" and ok: "buf_ok s' R' b"
  shows "bc_inv s' R'" "(\<And>n. local_view s' b n = local_view s b n) \<Longrightarrow> contents s' = contents s"
    "\<And>c. c < NBUF \<Longrightarrow> c \<noteq> b \<Longrightarrow> core (buf_at s' c) = core (buf_at s c)"
proof -
  have uniq: "b_blockno (f (buf_at s b)) \<noteq> b_blockno (buf_at s c)" if "c < NBUF" "c \<noteq> b" "b_dev (f (buf_at s b)) = 1" "b_dev (buf_at s c) = 1" for c
    using bc_invD(5) [OF inv b that(1)] that(2-4) f(3,4) by auto
  note U = upd_step [OF inv b f(1,2) R' D s' ok uniq]
  show "bc_inv s' R'" "(\<And>n. local_view s' b n = local_view s b n) \<Longrightarrow> contents s' = contents s"
    "\<And>c. c < NBUF \<Longrightarrow> c \<noteq> b \<Longrightarrow> core (buf_at s' c) = core (buf_at s c)" by (rule U, assumption+)+
qed

lemmas refs_kept = bc_invD(2,3)

lemma lock_step:
  assumes inv: "bc_inv s R" and l: "(pid, b) \<in> R" "bget_lock pid b s = Some s'"
  shows "bc_inv s' R \<and> contents s' = contents s"
proof -
  note D = bc_invD [OF inv]
  have b: "b < NBUF" using D(3) l(1) .
  let ?f = "\<lambda>x. x\<lparr>b_lock := (b_lock (buf_at s b))\<lparr>slk_locked := 1, slk_pid := pid\<rparr>\<rparr>"
  have s': "s' = (upd_buf b ?f s)\<lparr>memdisk := memdisk s\<rparr>"
    using l(2) unfolding upd_buf_memdisk by (auto simp: bget_lock_def acquiresleep_def split: if_splits)
  have at: "buf_at s' b = ?f (buf_at s b)" "memdisk s' = memdisk s" "disksize s' = disksize s" using s' b D(6) by simp_all
  have ok: "buf_ok s' R b" using D(4) [OF b] l(1) unfolding buf_ok_def at by simp
  have R: "\<forall>(p, c) \<in> R. c < NBUF" using D(3) by auto
  note U = local_step [OF inv b s' _ _ _ _ _ _ D(2) R _ ok]
  have "bc_inv s' R" by (rule U(1)) simp_all
  moreover have "contents s' = contents s" by (rule U(2)) (simp_all add: local_view_def cached_def at)
  ultimately show ?thesis ..
qed

lemma holder_ref: "bc_inv s R \<Longrightarrow> holds_buf pid b s \<Longrightarrow> (pid, b) \<in> R \<and> b_dev (buf_at s b) = 1 \<and> unat (b_blockno (buf_at s b)) < disksize s"
proof -
  assume inv: "bc_inv s R" and h: "holds_buf pid b s"
  have "buf_ok s R b" using bc_invD(4) [OF inv] holds_lock [OF h] by blast
  then show ?thesis using holds_lock [OF h] by (auto simp: buf_ok_def)
qed

lemma fill_step:
  assumes inv: "bc_inv s R" and h: "holds_buf pid b s" and f: "bread_fill pid b s = Inr s'"
  shows "bc_inv s' R \<and> contents s' = contents s"
proof (cases "b_flags (buf_at s b) AND 2 = 0")
  case False
  then show ?thesis using fill_cases(1) [OF inv h] f inv by simp
next
  case True
  note D = bc_invD [OF inv]
  have b: "b < NBUF" using holds_lock [OF h] by blast
  let ?f = "\<lambda>x. x\<lparr>b_data := memdisk s (unat (b_blockno x)), b_flags := b_flags x OR 2\<rparr>"
  have s': "s' = (upd_buf b ?f s)\<lparr>memdisk := memdisk s\<rparr>" using fill_cases(2) [OF inv h True] f unfolding upd_buf_memdisk by simp
  have at: "buf_at s' b = ?f (buf_at s b)" "memdisk s' = memdisk s" "disksize s' = disksize s" using s' b D(6) by simp_all
  have ok: "buf_ok s' R b"
    using D(4) [OF b] holder_ref [OF inv h] holds_lock [OF h] unfolding buf_ok_def settled_def at by (simp add: flag_bits)
  have R: "\<forall>(p, c) \<in> R. c < NBUF" using D(3) by auto
  note U = local_step [OF inv b s' _ _ _ _ _ _ D(2) R _ ok]
  have "bc_inv s' R" by (rule U(1)) simp_all
  moreover have "contents s' = contents s" by (rule U(2)) (use True in \<open>auto simp: local_view_def cached_def at flag_bits\<close>)
  ultimately show ?thesis ..
qed

lemma flush_step:
  assumes inv: "bc_inv s R" and h: "holds_buf pid b s" and v: "b_flags (buf_at s b) AND 2 \<noteq> 0" and f: "bwrite pid b s = Inr s'"
  shows "bc_inv s' R \<and> contents s' = contents s \<and> memdisk s' (unat (b_blockno (buf_at s b))) = b_data (buf_at s b)"
proof -
  note D = bc_invD [OF inv]
  have b: "b < NBUF" using holds_lock [OF h] by blast
  let ?f = "\<lambda>x. x\<lparr>b_flags := (b_flags x OR 4) AND NOT 4 OR 2\<rparr>" and ?D = "(memdisk s)(unat (b_blockno (buf_at s b)) := b_data (buf_at s b))"
  have s': "s' = (upd_buf b ?f s)\<lparr>memdisk := ?D\<rparr>" using flush_eq [OF inv h] f by simp
  have at: "buf_at s' b = ?f (buf_at s b)" "memdisk s' = ?D" "disksize s' = disksize s" using s' b D(6) by simp_all
  have fl: "(((b_flags (buf_at s b) OR 4) AND NOT 4) OR 2) AND 2 \<noteq> 0" "(((b_flags (buf_at s b) OR 4) AND NOT 4) OR 2) AND 4 = 0"
    unfolding flag_bits(5,6,3) by simp_all
  have ok: "buf_ok s' R b"
    using D(4) [OF b] holder_ref [OF inv h] fl unfolding buf_ok_def settled_def at by simp
  have R: "\<forall>(p, c) \<in> R. c < NBUF" using D(3) by auto
  note U = local_step [OF inv b s' _ _ _ _ _ _ D(2) R _ ok]
  have "bc_inv s' R" by (rule U(1)) (use holder_ref [OF inv h] in simp_all)
  moreover have "contents s' = contents s"
    by (rule U(2)) (use holder_ref [OF inv h] v fl in \<open>auto simp: local_view_def cached_def at\<close>)
  ultimately show ?thesis using at by simp
qed

lemma modify_step:
  assumes inv: "bc_inv s R" and h: "holds_buf pid b s" and v: "b_flags (buf_at s b) AND 2 \<noteq> 0"
    and s': "s' = upd_buf b (\<lambda>x. x\<lparr>b_data := d\<rparr>) s"
  shows "bc_inv s' R \<and> contents s' = (contents s)(unat (b_blockno (buf_at s b)) := d)"
proof -
  note D = bc_invD [OF inv]
  have b: "b < NBUF" using holds_lock [OF h] by blast
  let ?f = "\<lambda>x. x\<lparr>b_data := d\<rparr>"
  have s'': "s' = (upd_buf b ?f s)\<lparr>memdisk := memdisk s\<rparr>" unfolding upd_buf_memdisk by (rule s')
  have at: "buf_at s' b = ?f (buf_at s b)" "memdisk s' = memdisk s" "disksize s' = disksize s" using s' b D(6) by simp_all
  have ok: "buf_ok s' R b" using D(4) [OF b] holder_ref [OF inv h] v holds_lock [OF h] unfolding buf_ok_def at by simp
  have R: "\<forall>(p, c) \<in> R. c < NBUF" using D(3) by auto
  note U = local_step [OF inv b s'' _ _ _ _ _ _ D(2) R _ ok]
  have inv': "bc_inv s' R" by (rule U(1)) simp_all
  have core: "core (buf_at s' c) = core (buf_at s c)" if "c < NBUF" "c \<noteq> b" for c by (rule U(3)) (use that in simp_all)
  let ?n = "unat (b_blockno (buf_at s b))"
  have cb: "cached s' ?n b" using holder_ref [OF inv h] v by (simp add: cached_def at)
  have "contents s' m = ((contents s)(?n := d)) m" for m
  proof (cases "m = ?n")
    case True
    then show ?thesis using contents_cached [OF inv' b cb] by (simp add: at)
  next
    case False
    have eq: "cached s' m c \<longleftrightarrow> cached s m c" if "c < NBUF" for c
      using core [OF that] False by (cases "c = b") (auto simp: core_def cached_def at)
    have da: "b_data (buf_at s' c) = b_data (buf_at s c)" if "c < NBUF" "cached s m c" for c
      using core [OF that(1)] that(2) False by (cases "c = b") (auto simp: core_def cached_def)
    show ?thesis
    proof (cases "\<exists>c < NBUF. cached s m c")
      case True
      then obtain c where c: "c < NBUF" "cached s m c" by blast
      then show ?thesis using contents_cached [OF inv' c(1)] contents_cached [OF inv c] eq da False by simp
    next
      case none: False
      then show ?thesis using contents_uncached [of s m] contents_uncached [of s' m] eq at(2) False by auto
    qed
  qed
  then show ?thesis using inv' by auto
qed

lemma mark_step:
  assumes inv: "bc_inv s R" and h: "holds_buf pid b s" and v: "b_flags (buf_at s b) AND 2 \<noteq> 0"
    and s': "s' = upd_buf b (\<lambda>x. x\<lparr>b_flags := b_flags x OR 4\<rparr>) s"
  shows "bc_inv s' R \<and> contents s' = contents s"
proof -
  note D = bc_invD [OF inv]
  have b: "b < NBUF" using holds_lock [OF h] by blast
  let ?f = "\<lambda>x. x\<lparr>b_flags := b_flags x OR 4\<rparr>"
  have s'': "s' = (upd_buf b ?f s)\<lparr>memdisk := memdisk s\<rparr>" unfolding upd_buf_memdisk by (rule s')
  have at: "buf_at s' b = ?f (buf_at s b)" "memdisk s' = memdisk s" "disksize s' = disksize s" using s' b D(6) by simp_all
  have ok: "buf_ok s' R b" using D(4) [OF b] holder_ref [OF inv h] v holds_lock [OF h] unfolding buf_ok_def at by (simp add: flag_bits)
  have R: "\<forall>(p, c) \<in> R. c < NBUF" using D(3) by auto
  note U = local_step [OF inv b s'' _ _ _ _ _ _ D(2) R _ ok]
  have "bc_inv s' R" by (rule U(1)) simp_all
  moreover have "contents s' = contents s" by (rule U(2)) (simp_all add: local_view_def cached_def at flag_bits)
  ultimately show ?thesis ..
qed

lemma rel_step:
  assumes inv: "bc_inv s R" and h: "holds_buf pid b s" and st: "settled s b" and r: "brelse pid b s = Inr s'"
  shows "bc_inv s' (R - {(pid, b)}) \<and> contents s' = contents s \<and> \<not> holds_buf pid b s'"
proof -
  note D = bc_invD [OF inv]
  have b: "b < NBUF" using holds_lock [OF h] by blast
  let ?f = "\<lambda>x. x\<lparr>b_lock := releasesleep (b_lock x), b_refcnt := b_refcnt x - 1\<rparr>" and ?R = "R - {(pid, b)}"
  define u where "u = (upd_buf b ?f s)\<lparr>memdisk := memdisk s\<rparr>"
  have at: "buf_at u b = ?f (buf_at s b)" "memdisk u = memdisk s" "disksize u = disksize s" using b D(6) by (simp_all add: u_def)
  have u2: "upd_buf b (\<lambda>x. x\<lparr>b_refcnt := b_refcnt x - 1\<rparr>) (upd_buf b (\<lambda>x. x\<lparr>b_lock := releasesleep (b_lock x)\<rparr>) s) = u"
    unfolding u_def upd_buf_memdisk using b D(6) by (simp add: upd_buf_def)
  have pr: "pid \<in> {p. (p, b) \<in> R}" using holder_ref [OF inv h] by simp
  have "card ({p. (p, b) \<in> R} - {pid}) = card {p. (p, b) \<in> R} - 1" using pr by (rule card_Diff_singleton)
  moreover have "0 < card {p. (p, b) \<in> R}" using finite_refs [OF D(2), of b] pr card_gt_0_iff by blast
  ultimately have ok: "buf_ok u ?R b"
    using D(4) [OF b] st unfolding buf_ok_def settled_def at refs_insert by (auto simp: releasesleep_def)
  have R: "finite ?R" "\<forall>(p, c) \<in> ?R. c < NBUF" using D(2,3) by auto
  note U = local_step [OF inv b u_def _ _ _ _ _ _ R _ ok]
  have iu: "bc_inv u ?R" by (rule U(1)) (simp_all add: refs_insert)
  have cu: "contents u = contents s" by (rule U(2)) (simp_all add: local_view_def cached_def at refs_insert)
  have nl: "\<not> holdingsleep pid (b_lock (buf_at u b))" by (simp add: at holdingsleep_def releasesleep_def)
  show ?thesis
  proof (cases "b_refcnt (buf_at u b) = 0")
    case False
    then have "s' = u" using r h unfolding brelse_def Let_def u2 by (simp add: holds_buf_def)
    then show ?thesis using iu cu nl by (simp add: holds_buf_def)
  next
    case True
    then have s': "s' = link_front b (unlink_buf b u)" using r h unfolding brelse_def Let_def u2 by (simp add: holds_buf_def)
    obtain ns where ns: "lru u ns" "set ns = {..<NBUF}" using bc_invD(1) [OF iu] by blast
    then have "b \<in> set ns" using b by simp
    then obtain xs ys where xy: "ns = xs @ b # ys" by (meson split_list)
    have d: "distinct ns" using ns(1) by (simp add: lru_def)
    note A = lru_unlink [of u xs b ys, folded xy, OF ns(1)]
    have nb: "b \<notin> set (xs @ ys)" using d xy by simp
    note B = lru_link [OF A(1) b nb]
    have "set (b # xs @ ys) = {..<NBUF}" using ns(2) xy by auto
    from relinked [OF iu B(1) this] have "bc_inv (link_front b (unlink_buf b u)) ?R" "contents (link_front b (unlink_buf b u)) = contents u"
      using A B by simp_all
    moreover have "b_lock (buf_at (link_front b (unlink_buf b u)) b) = b_lock (buf_at u b)" using A(2) [of b] B(2) [of b] by (simp add: core_def)
    ultimately show ?thesis using cu nl unfolding s' by (simp add: holds_buf_def)
  qed
qed

subsection \<open>Start\<close>

definition blank_buf :: buf where
  "blank_buf = \<lparr>b_flags = 0, b_dev = 0, b_blockno = 0, b_lock = \<lparr>slk_locked = 0, slk_pid = 0\<rparr>, b_refcnt = 0, b_prev = 0, b_next = 0,
     b_data = replicate BSIZE 0\<rparr>"

text \<open>The static variables before binit, with a disk of n blocks.\<close>

definition boot_cache :: "(nat \<Rightarrow> block) \<Rightarrow> nat \<Rightarrow> bcache" where
  "boot_cache D n = \<lparr>bufs = replicate (Suc NBUF) blank_buf, memdisk = D, disksize = n\<rparr>"

lemma binit_loop:
  assumes "k \<le> NBUF"
  shows "let s = fold (\<lambda>b s. link_front b (upd_buf b (\<lambda>x. x\<lparr>b_lock := initsleeplock\<rparr>) s)) [0..<k] (upd_buf NBUF (\<lambda>x. x\<lparr>b_prev := NBUF, b_next := NBUF\<rparr>) (boot_cache D n))
    in lru s (rev [0..<k]) \<and> (\<forall>c < Suc NBUF. core (buf_at s c) = core blank_buf) \<and> memdisk s = D \<and> disksize s = n"
  using assms
proof (induction k)
  case 0
  then show ?case by (auto simp: lru_def boot_cache_def core_def nth_replicate simp del: replicate.simps)
next
  case (Suc k)
  define s where "s = fold (\<lambda>b s. link_front b (upd_buf b (\<lambda>x. x\<lparr>b_lock := initsleeplock\<rparr>) s)) [0..<k] (upd_buf NBUF (\<lambda>x. x\<lparr>b_prev := NBUF, b_next := NBUF\<rparr>) (boot_cache D n))"
  have s: "lru s (rev [0..<k])" "\<And>c. c < Suc NBUF \<Longrightarrow> core (buf_at s c) = core blank_buf" "memdisk s = D" "disksize s = n"
    using Suc by (simp_all add: Let_def s_def)
  let ?u = "upd_buf k (\<lambda>x. x\<lparr>b_lock := initsleeplock\<rparr>) s"
  have k: "k < NBUF" using Suc.prems by simp
  have u: "lru ?u (rev [0..<k])" using k by (intro lru_upd [OF s(1)]) simp_all
  have len: "length (bufs s) = Suc NBUF" using s(1) by (simp add: lru_def)
  have cu: "core (buf_at ?u c) = core blank_buf" if "c < Suc NBUF" for c
    using s(2) [OF that] k len by (auto simp: core_def blank_buf_def initsleeplock_def)
  have kn: "k \<notin> set (rev [0..<k])" by simp
  note L = lru_link [OF u k kn]
  have "fold (\<lambda>b s. link_front b (upd_buf b (\<lambda>x. x\<lparr>b_lock := initsleeplock\<rparr>) s)) [0..<Suc k] (upd_buf NBUF (\<lambda>x. x\<lparr>b_prev := NBUF, b_next := NBUF\<rparr>) (boot_cache D n)) = link_front k ?u"
    by (simp add: s_def)
  then show ?case using L cu s(3,4) by (simp add: Let_def del: upd_buf_simps(4))
qed

lemma binit_inv: "bc_inv (binit (boot_cache D n)) {}" "contents (binit (boot_cache D n)) = D"
proof -
  let ?s = "binit (boot_cache D n)"
  have s: "lru ?s (rev [0..<NBUF])" "\<And>c. c < NBUF \<Longrightarrow> core (buf_at ?s c) = core blank_buf" "memdisk ?s = D"
    using binit_loop [OF order_refl, of D n] by (simp_all add: binit_def Let_def)
  have eq: "b_flags (buf_at ?s c) = 0" "b_dev (buf_at ?s c) = 0" "b_lock (buf_at ?s c) = \<lparr>slk_locked = 0, slk_pid = 0\<rparr>" "b_refcnt (buf_at ?s c) = 0"
    if "c < NBUF" for c using s(2) [OF that] by (simp_all add: core_def blank_buf_def)
  have "set (rev [0..<NBUF]) = {..<NBUF}" by auto
  then show inv: "bc_inv ?s {}" using s(1) eq unfolding bc_inv_def buf_ok_def settled_def by auto
  have "contents ?s m = D m" for m using contents_uncached [of ?s m] eq s(3) by (auto simp: cached_def)
  then show "contents ?s = D" by blast
qed

lemma binit_blank:
  "disksize (binit (boot_cache D n)) = n"
  "c < NBUF \<Longrightarrow> b_refcnt (buf_at (binit (boot_cache D n)) c) = 0"
  "c < NBUF \<Longrightarrow> b_flags (buf_at (binit (boot_cache D n)) c) = 0"
  "c < NBUF \<Longrightarrow> slk_locked (b_lock (buf_at (binit (boot_cache D n)) c)) = 0"
  using binit_loop [OF order_refl, of D n] by (simp_all add: binit_def Let_def core_def blank_buf_def)

lemma bio_step_inv:
  assumes "bc_inv s R" "bio_step (s, R) (s', R')"
  shows "bc_inv s' R'" "contents s' = contents s \<or> (\<exists>pid b d. holds_buf pid b s \<and> s' = upd_buf b (\<lambda>x. x\<lparr>b_data := d\<rparr>) s \<and>
    contents s' = (contents s)(unat (b_blockno (buf_at s b)) := d))"
proof -
  have "bc_inv s' R' \<and> (contents s' = contents s \<or> (\<exists>pid b d. holds_buf pid b s \<and> s' = upd_buf b (\<lambda>x. x\<lparr>b_data := d\<rparr>) s \<and>
    contents s' = (contents s)(unat (b_blockno (buf_at s b)) := d)))"
    using assms(2)
  proof cases
    case (get n b pid)
    then show ?thesis using get_step [OF assms(1)] by blast
  next
    case (lock pid b)
    then show ?thesis using lock_step [OF assms(1)] by blast
  next
    case (fill pid b)
    then show ?thesis using fill_step [OF assms(1)] by blast
  next
    case (modify pid b d)
    then show ?thesis using modify_step [OF assms(1) modify(3,4,1)] by blast
  next
    case (mark pid b)
    then show ?thesis using mark_step [OF assms(1) mark(3,4,1)] by blast
  next
    case (flush pid b)
    then show ?thesis using flush_step [OF assms(1)] by blast
  next
    case (rel pid b)
    then show ?thesis using rel_step [OF assms(1)] by blast
  qed
  then show "bc_inv s' R'" "contents s' = contents s \<or> (\<exists>pid b d. holds_buf pid b s \<and> s' = upd_buf b (\<lambda>x. x\<lparr>b_data := d\<rparr>) s \<and>
    contents s' = (contents s)(unat (b_blockno (buf_at s b)) := d))" by blast+
qed

text \<open>A holder's bwrite and brelse do not panic.\<close>

lemma flush_returns:
  assumes "bc_inv s R" "holds_buf pid b s" "b_flags (buf_at s b) AND 2 \<noteq> 0"
  shows "\<exists>s'. bwrite pid b s = Inr s' \<and> contents s' = contents s \<and> memdisk s' (unat (b_blockno (buf_at s b))) = contents s (unat (b_blockno (buf_at s b)))"
proof -
  note F = flush_eq [OF assms(1,2)]
  have "cached s (unat (b_blockno (buf_at s b))) b" using holder_ref [OF assms(1,2)] assms(3) by (simp add: cached_def)
  then have "contents s (unat (b_blockno (buf_at s b))) = b_data (buf_at s b)"
    using holds_lock [OF assms(2)] by (intro contents_cached [OF assms(1)]) simp_all
  then show ?thesis using flush_step [OF assms F] F by simp
qed

lemma release_returns:
  assumes "bc_inv s R" "holds_buf pid b s" "settled s b"
  shows "\<exists>s'. brelse pid b s = Inr s' \<and> contents s' = contents s \<and> \<not> holds_buf pid b s'"
proof -
  obtain s' where r: "brelse pid b s = Inr s'" using assms(2) by (simp add: brelse_def holds_buf_def Let_def)
  then show ?thesis using rel_step [OF assms r] by blast
qed

text \<open>Every way bread can fail.\<close>

lemma bread_on:
  assumes "b < length (bufs t)" "b_dev (buf_at t b) = 1" "b_blockno (buf_at t b) = k"
  shows "slk_locked (b_lock (buf_at t b)) \<noteq> 0 \<Longrightarrow> bget_lock pid b t = None"
    "slk_locked (b_lock (buf_at t b)) = 0 \<Longrightarrow> \<exists>u. bget_lock pid b t = Some u \<and>
       (bread_fill pid b u = Inl e \<longrightarrow> e = Panic ''iderw: block out of range'' \<and> disksize t \<le> unat k)"
  using assms by (auto simp: bget_lock_def acquiresleep_def bread_fill_def iderw_def holdingsleep_def flag_bits(7) Let_def)

lemma bread_fails:
  assumes inv: "bc_inv s R" and r: "bread pid 1 k s = Some (Inl e)"
  shows "e = Panic ''bget: no buffers'' \<and> (\<forall>c < NBUF. b_refcnt (buf_at s c) \<noteq> 0 \<or> b_flags (buf_at s c) AND 4 \<noteq> 0) \<or>
    e = Panic ''iderw: block out of range'' \<and> disksize s \<le> unat k \<or>
    e = Blocks \<and> (\<exists>c < NBUF. b_dev (buf_at s c) = 1 \<and> b_blockno (buf_at s c) = k \<and> slk_locked (b_lock (buf_at s c)) \<noteq> 0)"
  using inv
proof (cases rule: bget_find_cases [where dev = 1 and n = k])
  case (hit b)
  let ?t = "upd_buf b (\<lambda>x. x\<lparr>b_refcnt := b_refcnt x + 1\<rparr>) s"
  have t: "b < length (bufs ?t)" "b_dev (buf_at ?t b) = 1" "b_blockno (buf_at ?t b) = k" "b_lock (buf_at ?t b) = b_lock (buf_at s b)" "disksize ?t = disksize s"
    using hit(1-3) bc_invD(6) [OF inv] by simp_all
  show ?thesis using r hit bread_on(1) [OF t(1-3), of pid] bread_on(2) [OF t(1-3), of pid e] t(4,5)
    by (cases "slk_locked (b_lock (buf_at s b)) = 0") (auto simp: bread_def bindR_def split: sum.splits)
next
  case (recycle b)
  let ?t = "upd_buf b (\<lambda>x. x\<lparr>b_dev := 1, b_blockno := k, b_flags := 0, b_refcnt := 1\<rparr>) s"
  have t: "b < length (bufs ?t)" "b_dev (buf_at ?t b) = 1" "b_blockno (buf_at ?t b) = k" "b_lock (buf_at ?t b) = b_lock (buf_at s b)" "disksize ?t = disksize s"
    using recycle(1) bc_invD(6) [OF inv] by simp_all
  have "card {p. (p, b) \<in> R} = 0" using bc_invD(4) [OF inv recycle(1)] recycle(3) by (simp add: buf_ok_def)
  then have "{p. (p, b) \<in> R} = {}" using finite_refs [OF bc_invD(2) [OF inv], of b] by simp
  then have "slk_locked (b_lock (buf_at s b)) = 0" using bc_invD(4) [OF inv recycle(1)] by (auto simp: buf_ok_def)
  then show ?thesis using r recycle(5) bread_on(2) [OF t(1-3), of pid e] t(4,5) by (auto simp: bread_def bindR_def split: sum.splits)
next
  case full
  then show ?thesis using r by (simp add: bread_def bindR_def)
qed

lemma reachable_inv: "bio_step\<^sup>*\<^sup>* (binit (boot_cache D n), {}) (s, R) \<Longrightarrow> bc_inv s R"
proof (induction "(s, R)" arbitrary: s R rule: rtranclp_induct)
  case base
  then show ?case using binit_inv(1) by simp
next
  case (step t)
  then show ?case using bio_step_inv(1) by (cases t) blast
qed

text \<open>A block past the end is never valid, so bread of it ends in the panic.\<close>

lemma bread_in_range:
  assumes inv: "bc_inv s R" and r: "bread pid 1 k s = Some (Inr (b, s'))"
  shows "unat k < disksize s"
  using inv
proof (cases rule: bget_find_cases [where dev = 1 and n = k])
  case (hit c)
  show ?thesis
  proof (rule ccontr)
    assume k: "\<not> unat k < disksize s"
    then have "b_flags (buf_at s c) = 0" using bc_invD(4) [OF inv hit(1)] hit(2,3) by (auto simp: buf_ok_def)
    then show False using r hit(1-4) k bc_invD(6) [OF inv]
      by (auto simp: bread_def bindR_def bget_lock_def acquiresleep_def bread_fill_def iderw_def holdingsleep_def split: if_splits option.splits)
  qed
next
  case (recycle c)
  then show ?thesis using r bc_invD(6) [OF inv]
    by (auto simp: bread_def bindR_def bget_lock_def acquiresleep_def bread_fill_def iderw_def holdingsleep_def split: if_splits option.splits)
next
  case full
  then show ?thesis using r by (simp add: bread_def bindR_def)
qed

lemma bread_reads:
  assumes inv: "bc_inv s R" and r: "bread pid 1 k s = Some (Inr (b, s'))" and k: "unat k < disksize s" and new: "(pid, b) \<notin> R"
  shows "holds_buf pid b s' \<and> b_blockno (buf_at s' b) = k \<and> b_data (buf_at s' b) = contents s (unat k) \<and> contents s' = contents s \<and> bc_inv s' (insert (pid, b) R)"
proof -
  obtain z where z: "bget_find 1 k s = Some z" using r by (auto simp: bread_def)
  with r obtain t where t: "z = Inr (b, t)" "(case bget_lock pid b t of None \<Rightarrow> Inl Blocks | Some s \<Rightarrow> bindR (bread_fill pid b s) (\<lambda>s. Inr (b, s))) = Inr (b, s')"
    by (cases z) (auto simp: bread_def bindR_eq_Inr split: option.splits)
  then obtain u where l: "bget_lock pid b t = Some u" and f: "bread_fill pid b u = Inr s'" by (auto simp: bindR_eq_Inr split: option.splits)
  have g: "bget_find 1 k s = Some (Inr (b, t))" using z t(1) by simp
  note G = get_step [OF inv g k new]
  have it: "bc_inv t (insert (pid, b) R)" and b: "b < NBUF" using G by blast+
  have L: "bc_inv u (insert (pid, b) R)" "contents u = contents t" using lock_step [OF it _ l] by blast+
  have len: "length (bufs t) = Suc NBUF" by (rule bc_invD(6) [OF it])
  have bu: "b_blockno (buf_at u b) = k" "b_dev (buf_at u b) = 1" and h: "holds_buf pid b u"
    using l G b len by (auto simp: bget_lock_def acquiresleep_def holds_buf_def holdingsleep_def split: if_splits)
  have F: "bc_inv s' (insert (pid, b) R)" "contents s' = contents u" using fill_step [OF L(1) h f] by blast+
  have lu: "length (bufs u) = Suc NBUF" by (rule bc_invD(6) [OF L(1)])
  have v: "b_flags (buf_at s' b) AND 2 \<noteq> 0" "b_blockno (buf_at s' b) = k" "b_dev (buf_at s' b) = 1" "holds_buf pid b s'"
    using fill_cases [OF L(1) h] f bu b lu h by (cases "b_flags (buf_at u b) AND 2 = 0"; auto simp: flag_bits holds_buf_def)+
  have "contents s' (unat k) = b_data (buf_at s' b)" using contents_cached [OF F(1) b] v by (simp add: cached_def)
  then show ?thesis using v F L(2) G by simp
qed

subsection \<open>Properties\<close>

text \<open>
  C25: the buffer cache is transparent. However processes get, lock, fill, change, mark, flush and
  release buffers of disk 1, where a process that stored into a buffer marks it dirty or writes it
  before it releases it: no disk block is in two buffers; the contents of a block as its readers see
  it (the cached copy if there is one, the disk otherwise) change only when a process that holds the
  block's buffer stores into it, and then become exactly what it stored, so recycling, marking,
  flushing and releasing buffers lose nothing. bwrite by a holder returns and puts those contents on
  the disk, brelse by a holder returns and keeps them. bread never loops, and it fails in three
  ways only: a panic "bget: no buffers" when every buffer is referenced or dirty, a panic "block out
  of range" for a block past the end of the disk, or it waits because the buffer of this block is
  locked. When it returns to a process without a reference to that buffer, the block is on the disk,
  the caller holds its buffer with the block's contents, and no block has changed.
\<close>

theorem buffer_cache_transparent:
  assumes "bio_step\<^sup>*\<^sup>* (binit (boot_cache D n), {}) (s, R)"
  shows "(\<forall>b < 30. \<forall>c < 30. b_dev (buf_at s b) = 1 \<longrightarrow> b_dev (buf_at s c) = 1 \<longrightarrow> b_blockno (buf_at s b) = b_blockno (buf_at s c) \<longrightarrow> b = c) \<and>
    (\<forall>s' R'. bio_step (s, R) (s', R') \<longrightarrow> contents s' = contents s \<or>
       (\<exists>pid b d. holds_buf pid b s \<and> s' = upd_buf b (\<lambda>x. x\<lparr>b_data := d\<rparr>) s \<and> contents s' = (contents s)(unat (b_blockno (buf_at s b)) := d))) \<and>
    (\<forall>pid b. holds_buf pid b s \<longrightarrow>
       (b_flags (buf_at s b) AND 2 \<noteq> 0 \<longrightarrow> (\<exists>s'. bwrite pid b s = Inr s' \<and> contents s' = contents s \<and>
          memdisk s' (unat (b_blockno (buf_at s b))) = contents s (unat (b_blockno (buf_at s b))))) \<and>
       (settled s b \<longrightarrow> (\<exists>s'. brelse pid b s = Inr s' \<and> contents s' = contents s \<and> \<not> holds_buf pid b s'))) \<and>
    (\<forall>pid k. bread pid 1 k s \<noteq> None \<and>
       (\<forall>e. bread pid 1 k s = Some (Inl e) \<longrightarrow>
          e = Panic ''bget: no buffers'' \<and> (\<forall>c < 30. b_refcnt (buf_at s c) \<noteq> 0 \<or> b_flags (buf_at s c) AND 4 \<noteq> 0) \<or>
          e = Panic ''iderw: block out of range'' \<and> disksize s \<le> unat k \<or>
          e = Blocks \<and> (\<exists>c < 30. b_dev (buf_at s c) = 1 \<and> b_blockno (buf_at s c) = k \<and> slk_locked (b_lock (buf_at s c)) \<noteq> 0)) \<and>
       (\<forall>b s'. bread pid 1 k s = Some (Inr (b, s')) \<longrightarrow> (pid, b) \<notin> R \<longrightarrow> unat k < disksize s \<and>
          holds_buf pid b s' \<and> b_blockno (buf_at s' b) = k \<and> b_data (buf_at s' b) = contents s (unat k) \<and> contents s' = contents s))"
proof -
  have inv: "bc_inv s R" by (rule reachable_inv [OF assms])
  have ret: "bread pid 1 k s \<noteq> None" for pid k
    using inv by (cases rule: bget_find_cases [where dev = 1 and n = k]) (simp_all add: bread_def)
  have read: "unat k < disksize s \<and> holds_buf pid b s' \<and> b_blockno (buf_at s' b) = k \<and> b_data (buf_at s' b) = contents s (unat k) \<and> contents s' = contents s"
    if "bread pid 1 k s = Some (Inr (b, s'))" "(pid, b) \<notin> R" for pid k b s'
    using bread_reads [OF inv that(1) _ that(2)] bread_in_range [OF inv that(1)] by blast
  have fails: "e = Panic ''bget: no buffers'' \<and> (\<forall>c < 30. b_refcnt (buf_at s c) \<noteq> 0 \<or> b_flags (buf_at s c) AND 4 \<noteq> 0) \<or>
      e = Panic ''iderw: block out of range'' \<and> disksize s \<le> unat k \<or>
      e = Blocks \<and> (\<exists>c < 30. b_dev (buf_at s c) = 1 \<and> b_blockno (buf_at s c) = k \<and> slk_locked (b_lock (buf_at s c)) \<noteq> 0)"
    if "bread pid 1 k s = Some (Inl e)" for pid k e by (rule bread_fails [OF inv that])
  show ?thesis
    apply (intro conjI allI impI)
    subgoal by (rule bc_invD(5) [OF inv])
    subgoal by (rule bio_step_inv(2) [OF inv])
    subgoal by (rule flush_returns [OF inv])
    subgoal by (rule release_returns [OF inv])
    subgoal by (rule ret)
    subgoal by (rule fails)
    using read by blast+
qed

theorem buffer_cache_transparent_witness:
  "\<exists>b s'. bread 1 1 7 (binit (boot_cache (\<lambda>b. replicate 512 (of_nat b)) 20)) = Some (Inr (b, s')) \<and> holds_buf 1 b s' \<and> b_data (buf_at s' b) = replicate 512 7"
proof -
  let ?s = "binit (boot_cache (\<lambda>b. replicate 512 (of_nat b)) 20)"
  have d: "disksize ?s = 20" and c: "contents ?s 7 = replicate 512 7" using binit_blank by (simp_all add: binit_inv(2))
  have e: "bio_step\<^sup>*\<^sup>* (?s, {}) (?s, {})" by simp
  note T = buffer_cache_transparent [OF e, THEN conjunct2, THEN conjunct2, THEN conjunct2, rule_format, of 1 7]
  have f: "\<And>c. c < 30 \<Longrightarrow> b_refcnt (buf_at ?s c) = 0 \<and> b_flags (buf_at ?s c) = 0 \<and> slk_locked (b_lock (buf_at ?s c)) = 0"
    using binit_blank by simp
  obtain z where z: "bread 1 1 7 ?s = Some z" using T by blast
  show ?thesis
  proof (cases z)
    case (Inl x)
    have "(0::nat) < 30" by simp
    then show ?thesis using T z Inl d f by fastforce
  next
    case (Inr y)
    then show ?thesis using T z c by (cases y) simp
  qed
qed

end
