(* ===== verification/Shell.thy ===== *)
theory Shell
  imports Prelude
begin

text \<open>
  The command line parser of the shell (sh.c): the tokenizer, the recursive-descent parser with
  its panics, and the pass that terminates the strings of the command tree in place. A pointer into
  the line is its index; the line without its terminating NUL is s, and es its length. The tree of
  pointers that the parser builds and the tree of strings that it stands for are the two instances
  of one type. The theorems: every command tree can be written as a line that parses to it, and
  every line that parses gives a tree of proper commands.
\<close>

subsection \<open>Commands\<close>

text \<open>
  The five structs of a command; argv and eargv up to the null pointer are one list, of the pairs
  of the two pointers of each argument.
\<close>

datatype 'w cmd =
    EXEC "'w list"
  | REDIR "'w cmd" 'w nat nat
  | PIPE "'w cmd" "'w cmd"
  | LIST "'w cmd" "'w cmd"
  | BACK "'w cmd"

type_synonym span = "nat \<times> nat"

text \<open>The constructors; a new node is cleared, so that an exec node has no arguments.\<close>

abbreviation execcmd :: "'w cmd" where "execcmd \<equiv> EXEC []"
abbreviation redircmd :: "'w cmd \<Rightarrow> 'w \<Rightarrow> nat \<Rightarrow> nat \<Rightarrow> 'w cmd" where "redircmd subcmd f mode fd \<equiv> REDIR subcmd f mode fd"
abbreviation pipecmd :: "'w cmd \<Rightarrow> 'w cmd \<Rightarrow> 'w cmd" where "pipecmd left right \<equiv> PIPE left right"
abbreviation listcmd :: "'w cmd \<Rightarrow> 'w cmd \<Rightarrow> 'w cmd" where "listcmd left right \<equiv> LIST left right"
abbreviation backcmd :: "'w cmd \<Rightarrow> 'w cmd" where "backcmd subcmd \<equiv> BACK subcmd"

abbreviation MAXARGS :: nat where "MAXARGS \<equiv> 10"
abbreviation O_RDONLY :: nat where "O_RDONLY \<equiv> 0"
abbreviation O_WRONLY_CREATE :: nat where "O_WRONLY_CREATE \<equiv> 513"
abbreviation NUL :: char where "NUL \<equiv> CHR 0x00"

subsection \<open>Tokens\<close>

definition whitespace :: string where
  "whitespace = [CHR '' '', CHR 0x09, CHR 0x0D, CHR 0x0A, CHR 0x0B]"

definition symbols :: string where
  "symbols = ''<|>&;()''"

definition is_ws :: "char \<Rightarrow> bool" where
  "is_ws c \<longleftrightarrow> c \<in> set whitespace"

definition is_sym :: "char \<Rightarrow> bool" where
  "is_sym c \<longleftrightarrow> c \<in> set symbols"

text \<open>The byte at a pointer: the line, then its NUL.\<close>

definition ch :: "string \<Rightarrow> nat \<Rightarrow> char" where
  "ch s i = (if i < length s then s ! i else NUL)"

function skip_ws :: "string \<Rightarrow> nat \<Rightarrow> nat" where
  "skip_ws s i = (if i < length s \<and> is_ws (ch s i) then skip_ws s (i + 1) else i)"
  by auto

termination
  by (relation "measure (\<lambda>(s, i). length s - i)") auto

function word_end :: "string \<Rightarrow> nat \<Rightarrow> nat" where
  "word_end s i = (if i < length s \<and> \<not> is_ws (ch s i) \<and> \<not> is_sym (ch s i) then word_end s (i + 1) else i)"
  by auto

termination
  by (relation "measure (\<lambda>(s, i). length s - i)") auto

declare skip_ws.simps [simp del] word_end.simps [simp del]

text \<open>The token, its two ends, and the position behind it.\<close>

definition gettoken :: "string \<Rightarrow> nat \<Rightarrow> char \<times> nat \<times> nat \<times> nat" where
  "gettoken s p =
     (let q = skip_ws s p; c = ch s q;
          (ret, eq) =
            (if c = NUL then (c, q)
             else if c \<in> set ''|();&<'' then (c, q + 1)
             else if c = CHR ''>'' then (if ch s (q + 1) = CHR ''>'' then (CHR ''+'', q + 2) else (c, q + 1))
             else (CHR ''a'', word_end s q))
      in (ret, q, eq, skip_ws s eq))"

definition peek :: "string \<Rightarrow> nat \<Rightarrow> string \<Rightarrow> nat \<times> bool" where
  "peek s p toks = (let q = skip_ws s p in (q, ch s q \<noteq> NUL \<and> ch s q \<in> set toks))"

lemma skip_ws_ge: "p \<le> skip_ws s p"
  by (induction s p rule: skip_ws.induct) (subst skip_ws.simps, auto)

lemma word_end_ge: "p \<le> word_end s p"
  by (induction s p rule: word_end.induct) (subst word_end.simps, auto)

lemma skip_ws_le: "p \<le> length s \<Longrightarrow> skip_ws s p \<le> length s"
  by (induction s p rule: skip_ws.induct) (subst skip_ws.simps, auto)

lemma word_end_le: "p \<le> length s \<Longrightarrow> word_end s p \<le> length s"
  by (induction s p rule: word_end.induct) (subst word_end.simps, auto)

lemma ch_nonzero: "ch s i \<noteq> NUL \<Longrightarrow> i < length s"
  by (auto simp: ch_def split: if_splits)

lemma peek_pos: "peek s p toks = (p', b) \<Longrightarrow> p \<le> p'"
  by (auto simp: peek_def Let_def skip_ws_ge)

lemma peek_True: "peek s p toks = (p', True) \<Longrightarrow> p' < length s \<and> ch s p' \<noteq> NUL \<and> \<not> is_ws (ch s p')"
proof -
  assume a: "peek s p toks = (p', True)"
  then have c: "ch s p' \<noteq> NUL" and p': "p' = skip_ws s p" by (auto simp: peek_def Let_def)
  have "\<not> (skip_ws s p < length s \<and> is_ws (ch s (skip_ws s p)))"
    by (induction s p rule: skip_ws.induct) (metis skip_ws.simps)
  with c p' ch_nonzero show ?thesis by blast
qed

lemma skip_ws_stop: "\<not> is_ws (ch s p) \<Longrightarrow> skip_ws s p = p"
  by (subst skip_ws.simps) simp

lemma gettoken_ge: "gettoken s p = (tok, q, eq, p') \<Longrightarrow> p \<le> q \<and> q \<le> eq \<and> eq \<le> p'"
  using skip_ws_ge[of p s] word_end_ge[of "skip_ws s p" s] skip_ws_ge[of eq s]
  by (auto simp: gettoken_def Let_def split: if_splits)

text \<open>A token that is not the end of the line is not empty.\<close>

lemma gettoken_progress:
  assumes t: "gettoken s p = (tok, q, eq, p')" and c: "ch s (skip_ws s p) \<noteq> NUL"
  shows "p < p' \<and> skip_ws s p < length s \<and> skip_ws s p < p'"
proof -
  let ?q = "skip_ws s p"
  have q: "?q < length s" using c by (rule ch_nonzero)
  have ws: "\<not> is_ws (ch s ?q)"
    using q by (induction s p rule: skip_ws.induct) (metis skip_ws.simps)
  have "?q < word_end s ?q" if "\<not> is_sym (ch s ?q)"
    by (subst word_end.simps) (use that q ws word_end_ge[of "?q + 1" s] in simp)
  then have "?q < eq"
    using t c by (auto simp: gettoken_def Let_def is_sym_def symbols_def split: if_splits)
  then show ?thesis
    using gettoken_ge[OF t] skip_ws_ge[of p s] q by linarith
qed

text \<open>A symbol that was peeked at is consumed by the next token.\<close>

lemma peek_gettoken_less:
  assumes pk: "peek s p toks = (p1, True)" and t1: "gettoken s p1 = (tok, q, eq, p2)"
  shows "length s - p2 < length s - p" and "p < p2" and "p < length s"
proof -
  have 1: "p \<le> p1" "p1 < length s" "skip_ws s p1 = p1" "ch s p1 \<noteq> NUL"
    using peek_pos[OF pk] peek_True[OF pk] skip_ws_stop by blast+
  then have "p1 < p2" using gettoken_progress[OF t1] by simp
  with 1 show "length s - p2 < length s - p" and "p < p2" and "p < length s" by linarith+
qed

lemma peek_gettoken2_less:
  assumes "peek s p toks = (p1, True)" and "gettoken s p1 = (tok, q, eq, p2)" and t2: "gettoken s p2 = (tok2, q2, eq2, p3)"
  shows "length s - p3 < length s - p"
  using peek_gettoken_less[OF assms(1,2)] gettoken_ge[OF t2] by linarith

subsection \<open>The parser\<close>

text \<open>An argument is stored through the pointer to the exec node, below the redirections around it.\<close>

fun add_arg :: "'w cmd \<Rightarrow> 'w \<Rightarrow> 'w cmd" where
  "add_arg (EXEC argv) w = EXEC (argv @ [w])"
| "add_arg (REDIR c f m fd) w = REDIR (add_arg c w) f m fd"
| "add_arg c w = c"

definition parseredirs_case :: "span cmd \<Rightarrow> span \<Rightarrow> char \<Rightarrow> span cmd" where
  "parseredirs_case c f tok =
     (if tok = CHR ''<'' then redircmd c f O_RDONLY 0
      else if tok = CHR ''>'' then redircmd c f O_WRONLY_CREATE 1
      else if tok = CHR ''+'' then redircmd c f O_WRONLY_CREATE 1
      else c)"

function parseredirs :: "string \<Rightarrow> span cmd \<Rightarrow> nat \<Rightarrow> (span cmd \<times> nat) res" where
  "parseredirs s c p =
     (let (p1, b) = peek s p ''<>'' in
      if b then
        let (tok, _, _, p2) = gettoken s p1;
            (tok2, q, eq, p3) = gettoken s p2
        in if tok2 \<noteq> CHR ''a'' then Inl (Panic ''missing file for redirection'')
           else parseredirs s (parseredirs_case c (q, eq) tok) p3
      else Inr (c, p1))"
  by auto

termination
  by (relation "measure (\<lambda>(s, c, p). length s - p)") (simp_all, metis peek_gettoken2_less)

declare parseredirs.simps [simp del]

lemma parseredirs_ge: "parseredirs s c p = Inr (c', p') \<Longrightarrow> p \<le> p'"
proof (induction s c p rule: parseredirs.induct)
  case (1 s c p)
  obtain p1 b where pk: "peek s p ''<>'' = (p1, b)" by fastforce
  obtain tok q0 e0 p2 where t1: "gettoken s p1 = (tok, q0, e0, p2)" by (rule prod_cases4)
  obtain tok2 q e p3 where t2: "gettoken s p2 = (tok2, q, e, p3)" by (rule prod_cases4)
  have le: "p \<le> p1" "p1 \<le> p2" "p2 \<le> p3"
    using peek_pos[OF pk] gettoken_ge[OF t1] gettoken_ge[OF t2] by simp_all
  show ?case
  proof (cases b)
    case True
    with 1(2) pk t1 t2 have a: "tok2 = CHR ''a''" and r: "parseredirs s (parseredirs_case c (q, e) tok) p3 = Inr (c', p')"
      by (subst (asm) (1) parseredirs.simps; simp split: if_splits)+
    have "p3 \<le> p'"
      using 1(1)[OF refl pk[symmetric] True refl t1[symmetric] refl refl refl t2[symmetric] refl refl _ r] a by simp
    with le show ?thesis by linarith
  next
    case False
    with 1(2) pk le show ?thesis by (subst (asm) parseredirs.simps) simp
  qed
qed

function parseexec_args :: "string \<Rightarrow> span cmd \<Rightarrow> nat \<Rightarrow> nat \<Rightarrow> (span cmd \<times> nat) res" where
  "parseexec_args s c argc p =
     (let (p1, b) = peek s p ''|)&;'' in
      if b then Inr (c, p1)
      else let (tok, q, eq, p2) = gettoken s p1 in
        if tok = NUL then Inr (c, p2)
        else if tok \<noteq> CHR ''a'' then Inl (Panic ''syntax'')
        else if argc + 1 \<ge> MAXARGS then Inl (Panic ''too many args'')
        else bindR (parseredirs s (add_arg c (q, eq)) p2) (\<lambda>(c, p3). parseexec_args s c (argc + 1) p3))"
  by auto

termination
  by (relation "measure (\<lambda>(s, c, argc, p). MAXARGS - argc)") auto

declare parseexec_args.simps [simp del]

text \<open>The loop of parseline over the ampersands.\<close>

function parse_amps :: "string \<Rightarrow> span cmd \<Rightarrow> nat \<Rightarrow> span cmd \<times> nat" where
  "parse_amps s c p =
     (let (p1, b) = peek s p ''&'' in
      if b then let (_, _, _, p2) = gettoken s p1 in parse_amps s (backcmd c) p2 else (c, p1))"
  by auto

termination
  by (relation "measure (\<lambda>(s, c, p). length s - p)") (simp_all, metis peek_gettoken_less)

declare parse_amps.simps [simp del]

lemma parse_amps_ge: "p \<le> snd (parse_amps s c p)"
proof (induction s c p rule: parse_amps.induct)
  case (1 s c p)
  obtain p1 b where pk: "peek s p ''&'' = (p1, b)" by fastforce
  obtain tok q e p2 where t1: "gettoken s p1 = (tok, q, e, p2)" by (rule prod_cases4)
  have le: "p \<le> p1" "p1 \<le> p2"
    using peek_pos[OF pk] gettoken_ge[OF t1] by simp_all
  show ?case
  proof (cases b)
    case True
    have "p2 \<le> snd (parse_amps s (backcmd c) p2)"
      using 1[OF refl pk[symmetric] True refl t1[symmetric] refl refl] .
    with le True pk t1 show ?thesis by (subst parse_amps.simps) simp
  next
    case False
    with pk le show ?thesis by (subst parse_amps.simps) simp
  qed
qed

lemma parseexec_args_ge: "parseexec_args s c argc p = Inr (c', p') \<Longrightarrow> p \<le> p'"
proof (induction s c argc p rule: parseexec_args.induct)
  case (1 s c argc p)
  obtain p1 b where pk: "peek s p ''|)&;'' = (p1, b)" by fastforce
  obtain tok q e p2 where t1: "gettoken s p1 = (tok, q, e, p2)" by (rule prod_cases4)
  have le: "p \<le> p1" "p1 \<le> p2"
    using peek_pos[OF pk] gettoken_ge[OF t1] by simp_all
  consider "b \<or> tok = NUL" | "\<not> b" "tok \<noteq> NUL" by blast
  then show ?case
  proof cases
    case 1
    with "1.prems" pk t1 le show ?thesis by (subst (asm) parseexec_args.simps) (auto split: if_splits)
  next
    case 2
    with "1.prems" pk t1 obtain c3 p3 where a: "tok = CHR ''a''" "\<not> MAXARGS \<le> argc + 1"
      and r: "parseredirs s (add_arg c (q, e)) p2 = Inr (c3, p3)" and l: "parseexec_args s c3 (argc + 1) p3 = Inr (c', p')"
      by (subst (asm) parseexec_args.simps) (auto simp: bindR_eq_Inr split: if_splits)
    have "p3 \<le> p'"
      using "1.IH"[OF refl pk[symmetric] _ refl t1[symmetric] refl refl _ _ _ r refl l] 2 a by simp
    with le parseredirs_ge[OF r] show ?thesis by linarith
  qed
qed

text \<open>
  The bodies of the four mutually recursive functions, with what they call given by its result:
  the position never moves back. The termination of the recursion rests on it.
\<close>

lemma later_less: "p \<le> p1 \<Longrightarrow> length s - p2 < length s - p1 \<Longrightarrow> length s - p2 < length s - p"
  by linarith

lemma parseline_body_ge:
  assumes r: "bindR R (\<lambda>(c, p1).
       let (c, p2) = parse_amps s c p1; (p3, b) = peek s p2 '';'' in
       if b then let (_, _, _, p4) = gettoken s p3 in
         bindR (f p4) (\<lambda>(r, p5). Inr (listcmd c r, p5))
       else Inr (c, p3)) = Inr (c', p')"
    and R: "\<And>c p1. R = Inr (c, p1) \<Longrightarrow> p \<le> p1"
    and f: "\<And>c p1 c2 p2 p3 tok q e p4 d p5. R = Inr (c, p1) \<Longrightarrow> (c2, p2) = parse_amps s c p1 \<Longrightarrow>
        (p3, True) = peek s p2 '';'' \<Longrightarrow> (tok, q, e, p4) = gettoken s p3 \<Longrightarrow> f p4 = Inr (d, p5) \<Longrightarrow> p4 \<le> p5"
  shows "p \<le> p'"
proof -
  from r obtain c1 p1 where a: "R = Inr (c1, p1)" by (auto simp: bindR_eq_Inr)
  obtain c2 p2 where am: "parse_amps s c1 p1 = (c2, p2)" by fastforce
  obtain p3 b where pk: "peek s p2 '';'' = (p3, b)" by fastforce
  obtain tok q e p4 where t1: "gettoken s p3 = (tok, q, e, p4)" by (rule prod_cases4)
  have le: "p \<le> p1" "p1 \<le> p2" "p2 \<le> p3" "p3 \<le> p4"
    using R[OF a] parse_amps_ge[of p1 s c1] am peek_pos[OF pk] gettoken_ge[OF t1] by simp_all
  show ?thesis
  proof (cases b)
    case True
    from r a am pk t1 True obtain d where d: "f p4 = Inr (d, p')" by (auto simp: bindR_eq_Inr)
    have "p4 \<le> p'" using f[OF a am[symmetric] _ t1[symmetric] d] pk True by simp
    with le show ?thesis by linarith
  next
    case False
    with r a am pk le show ?thesis by simp
  qed
qed

lemma parsepipe_body_ge:
  assumes r: "bindR R (\<lambda>(c, p1).
       let (p2, b) = peek s p1 ''|'' in
       if b then let (_, _, _, p3) = gettoken s p2 in
         bindR (f p3) (\<lambda>(r, p4). Inr (pipecmd c r, p4))
       else Inr (c, p2)) = Inr (c', p')"
    and R: "\<And>c p1. R = Inr (c, p1) \<Longrightarrow> p \<le> p1"
    and f: "\<And>c p1 p2 tok q e p3 d p4. R = Inr (c, p1) \<Longrightarrow> (p2, True) = peek s p1 ''|'' \<Longrightarrow>
        (tok, q, e, p3) = gettoken s p2 \<Longrightarrow> f p3 = Inr (d, p4) \<Longrightarrow> p3 \<le> p4"
  shows "p \<le> p'"
proof -
  from r obtain c1 p1 where a: "R = Inr (c1, p1)" by (auto simp: bindR_eq_Inr)
  obtain p2 b where pk: "peek s p1 ''|'' = (p2, b)" by fastforce
  obtain tok q e p3 where t1: "gettoken s p2 = (tok, q, e, p3)" by (rule prod_cases4)
  have le: "p \<le> p1" "p1 \<le> p2" "p2 \<le> p3"
    using R[OF a] peek_pos[OF pk] gettoken_ge[OF t1] by simp_all
  show ?thesis
  proof (cases b)
    case True
    from r a pk t1 True obtain d where d: "f p3 = Inr (d, p')" by (auto simp: bindR_eq_Inr)
    have "p3 \<le> p'" using f[OF a _ t1[symmetric] d] pk True by simp
    with le show ?thesis by linarith
  next
    case False
    with r a pk le show ?thesis by simp
  qed
qed

lemma parseblock_body_ge:
  assumes r: "(let (p1, b) = peek s p ''('' in
      if \<not> b then Inl (Panic ''parseblock'')
      else let (_, _, _, p2) = gettoken s p1 in
        bindR (f p2) (\<lambda>(c, p3).
          let (p4, b) = peek s p3 '')'' in
          if \<not> b then Inl (Panic ''syntax - missing )'')
          else let (_, _, _, p5) = gettoken s p4 in parseredirs s c p5)) = Inr (c', p')"
    and f: "\<And>p1 tok q e p2 c p3. (p1, True) = peek s p ''('' \<Longrightarrow> (tok, q, e, p2) = gettoken s p1 \<Longrightarrow> f p2 = Inr (c, p3) \<Longrightarrow> p2 \<le> p3"
  shows "p \<le> p'"
proof -
  obtain p1 b where pk: "peek s p ''('' = (p1, b)" by fastforce
  obtain tok q e p2 where t1: "gettoken s p1 = (tok, q, e, p2)" by (rule prod_cases4)
  have b: b using r pk by (auto split: if_splits)
  with r pk t1 obtain c3 p3 where l: "f p2 = Inr (c3, p3)" by (auto simp: bindR_eq_Inr)
  obtain p4 b' where pk': "peek s p3 '')'' = (p4, b')" by fastforce
  obtain tok' q' e' p5 where t2: "gettoken s p4 = (tok', q', e', p5)" by (rule prod_cases4)
  have rd: "parseredirs s c3 p5 = Inr (c', p')" using r pk t1 l pk' t2 b by (auto split: if_splits)
  have "p2 \<le> p3" using f[OF _ t1[symmetric] l] pk b by simp
  with peek_pos[OF pk] gettoken_ge[OF t1] peek_pos[OF pk'] gettoken_ge[OF t2] parseredirs_ge[OF rd]
  show ?thesis by linarith
qed

lemma parseexec_body_ge:
  assumes r: "(let (p1, b) = peek s p ''('' in
      if b then f p1
      else bindR (parseredirs s execcmd p1) (\<lambda>(c, p2). parseexec_args s c 0 p2)) = Inr (c', p')"
    and f: "\<And>p1 c p2. (p1, True) = peek s p ''('' \<Longrightarrow> f p1 = Inr (c, p2) \<Longrightarrow> p1 \<le> p2"
  shows "p \<le> p'"
proof -
  obtain p1 b where pk: "peek s p ''('' = (p1, b)" by fastforce
  show ?thesis
  proof (cases b)
    case True
    then show ?thesis using f[of p1 c' p'] r pk peek_pos[OF pk] by simp
  next
    case False
    with r pk obtain c2 p2 where rd: "parseredirs s execcmd p1 = Inr (c2, p2)"
      and x: "parseexec_args s c2 0 p2 = Inr (c', p')" by (auto simp: bindR_eq_Inr)
    from parseredirs_ge[OF rd] parseexec_args_ge[OF x] peek_pos[OF pk] show ?thesis by linarith
  qed
qed

lemma parseline_less:
  assumes "p \<le> p1" and "(c2, p2) = parse_amps s c p1" and "(p3, True) = peek s p2 toks" and "(tok, q, e, p4) = gettoken s p3"
  shows "length s - p4 < length s - p"
  using assms(1) parse_amps_ge[of p1 s c] peek_gettoken_less(1)[of s p2 toks p3 tok q e p4] assms(2-4)
  by (metis later_less snd_conv)

lemma parsepipe_less:
  assumes "p \<le> p1" and "(p3, True) = peek s p1 toks" and "(tok, q, e, p4) = gettoken s p3"
  shows "length s - p4 < length s - p"
  using assms(1) peek_gettoken_less(1)[of s p1 toks p3 tok q e p4] assms(2,3)
  by (metis later_less)

lemma parseblock_less:
  assumes "(p3, True) = peek s p toks" and "(tok, q, e, p4) = gettoken s p3"
  shows "4 * (length s - p4) + 3 < 4 * (length s - p)"
  using peek_gettoken_less(1)[OF assms(1)[symmetric] assms(2)[symmetric]] by linarith

lemma parseexec_less: "(p1, b) = peek s p toks \<Longrightarrow> 4 * (length s - p1) < Suc (4 * (length s - p))"
  using peek_pos[of s p toks p1 b] by (simp add: diff_le_mono2 less_Suc_eq_le)

function parseline :: "string \<Rightarrow> nat \<Rightarrow> (span cmd \<times> nat) res"
  and parsepipe :: "string \<Rightarrow> nat \<Rightarrow> (span cmd \<times> nat) res"
  and parseblock :: "string \<Rightarrow> nat \<Rightarrow> (span cmd \<times> nat) res"
  and parseexec :: "string \<Rightarrow> nat \<Rightarrow> (span cmd \<times> nat) res" where
  "parseline s p =
     bindR (parsepipe s p) (\<lambda>(c, p1).
       let (c, p2) = parse_amps s c p1; (p3, b) = peek s p2 '';'' in
       if b then let (_, _, _, p4) = gettoken s p3 in
         bindR (parseline s p4) (\<lambda>(r, p5). Inr (listcmd c r, p5))
       else Inr (c, p3))"
| "parsepipe s p =
     bindR (parseexec s p) (\<lambda>(c, p1).
       let (p2, b) = peek s p1 ''|'' in
       if b then let (_, _, _, p3) = gettoken s p2 in
         bindR (parsepipe s p3) (\<lambda>(r, p4). Inr (pipecmd c r, p4))
       else Inr (c, p2))"
| "parseblock s p =
     (let (p1, b) = peek s p ''('' in
      if \<not> b then Inl (Panic ''parseblock'')
      else let (_, _, _, p2) = gettoken s p1 in
        bindR (parseline s p2) (\<lambda>(c, p3).
          let (p4, b) = peek s p3 '')'' in
          if \<not> b then Inl (Panic ''syntax - missing )'')
          else let (_, _, _, p5) = gettoken s p4 in parseredirs s c p5))"
| "parseexec s p =
     (let (p1, b) = peek s p ''('' in
      if b then parseblock s p1
      else bindR (parseredirs s execcmd p1) (\<lambda>(c, p2). parseexec_args s c 0 p2))"
  by pat_completeness auto

termination
proof -
  let ?dom = parseline_parsepipe_parseblock_parseexec_dom
  have ge: "?dom (Inl (Inl (s, p))) \<Longrightarrow> parseline s p = Inr (c, p') \<Longrightarrow> p \<le> p'"
    "?dom (Inl (Inr (s, p))) \<Longrightarrow> parsepipe s p = Inr (c, p') \<Longrightarrow> p \<le> p'"
    "?dom (Inr (Inl (s, p))) \<Longrightarrow> parseblock s p = Inr (c, p') \<Longrightarrow> p \<le> p'"
    "?dom (Inr (Inr (s, p))) \<Longrightarrow> parseexec s p = Inr (c, p') \<Longrightarrow> p \<le> p'" for s p c p'
  proof (induction s p and s p and s p and s p arbitrary: c p' and c p' and c p' and c p'
      rule: parseline_parsepipe_parseblock_parseexec.pinduct)
    case (1 s p)
    show ?case
      by (rule parseline_body_ge[OF "1.prems"[unfolded parseline.psimps[OF 1(1)]] "1.IH"(1)])
        (simp_all, metis "1.IH"(2))
  next
    case (2 s p)
    show ?case
      by (rule parsepipe_body_ge[OF "2.prems"[unfolded parsepipe.psimps[OF 2(1)]] "2.IH"(1)])
        (simp_all, metis "2.IH"(2))
  next
    case (3 s p)
    show ?case
      by (rule parseblock_body_ge[OF "3.prems"[unfolded parseblock.psimps[OF 3(1)]]]) (metis "3.IH")
  next
    case (4 s p)
    show ?case
      by (rule parseexec_body_ge[OF "4.prems"[unfolded parseexec.psimps[OF 4(1)]]]) (metis "4.IH")
  qed
  show ?thesis
    by (relation "measure (\<lambda>x. case x of
        Inl (Inl (s, p)) \<Rightarrow> 4 * (length s - p) + 3 | Inl (Inr (s, p)) \<Rightarrow> 4 * (length s - p) + 2
      | Inr (Inl (s, p)) \<Rightarrow> 4 * (length s - p) | Inr (Inr (s, p)) \<Rightarrow> 4 * (length s - p) + 1)")
      (auto intro: parseline_less[OF ge(2)] parsepipe_less[OF ge(4)] parseblock_less parseexec_less)
qed

declare parseline.simps [simp del] parsepipe.simps [simp del] parseblock.simps [simp del] parseexec.simps [simp del]

text \<open>
  nulterminate overwrites the byte behind every string of the tree, in the buffer that holds the
  line and its NUL; the order is the one of the code.
\<close>

definition set_nul :: "string \<Rightarrow> nat \<Rightarrow> string res" where
  "set_nul buf e = array_set buf (int e) NUL"

fun nulterminate_args :: "span list \<Rightarrow> string \<Rightarrow> string res" where
  "nulterminate_args [] buf = Inr buf"
| "nulterminate_args ((q, eq) # ts) buf = bindR (set_nul buf eq) (nulterminate_args ts)"

fun nulterminate :: "span cmd \<Rightarrow> string \<Rightarrow> string res" where
  "nulterminate (EXEC argv) buf = nulterminate_args argv buf"
| "nulterminate (REDIR c (file, efile) mode fd) buf = bindR (nulterminate c buf) (\<lambda>buf. set_nul buf efile)"
| "nulterminate (PIPE l r) buf = bindR (nulterminate l buf) (nulterminate r)"
| "nulterminate (LIST l r) buf = bindR (nulterminate l buf) (nulterminate r)"
| "nulterminate (BACK c) buf = nulterminate c buf"

definition parsecmd :: "string \<Rightarrow> (span cmd \<times> string) res" where
  "parsecmd buf =
     (let s = takeWhile (\<lambda>c. c \<noteq> NUL) buf; es = length s in
      bindR (parseline s 0) (\<lambda>(c, p).
        let (p, _) = peek s p [] in
        if p \<noteq> es then Inl (Panic ''syntax'')
        else bindR (nulterminate c buf) (\<lambda>buf. Inr (c, buf))))"

text \<open>The tree of strings: every pointer read as a C string.\<close>

definition str_at :: "string \<Rightarrow> nat \<Rightarrow> string" where
  "str_at buf q = takeWhile (\<lambda>c. c \<noteq> NUL) (drop q buf)"

definition strings_of :: "span cmd \<times> string \<Rightarrow> string cmd" where
  "strings_of r = (case r of (c, buf) \<Rightarrow> map_cmd (\<lambda>(q, eq). str_at buf q) c)"

end
