(* ===== verification/ShellWf.thy ===== *)
theory ShellWf
  imports Shell
begin

text \<open>
  What the shell's parser can return (sh.c): one of four complaints, or a tree of at most nine
  arguments per command whose strings, read from the buffer after nulterminate has cut it up, are
  proper words.
\<close>

subsection \<open>Words and well-formed commands\<close>

definition is_word :: "char \<Rightarrow> bool" where
  "is_word c \<longleftrightarrow> \<not> is_ws c \<and> \<not> is_sym c"

definition word_ok :: "string \<Rightarrow> bool" where
  "word_ok w \<longleftrightarrow> w \<noteq> [] \<and> list_all is_word w \<and> NUL \<notin> set w"

fun wf_cmd :: "('w \<Rightarrow> bool) \<Rightarrow> 'w cmd \<Rightarrow> bool" where
  "wf_cmd P (EXEC argv) \<longleftrightarrow> length argv < MAXARGS \<and> list_all P argv"
| "wf_cmd P (REDIR c f m fd) \<longleftrightarrow> wf_cmd P c \<and> P f \<and> (m, fd) \<in> {(O_RDONLY, 0), (O_WRONLY_CREATE, 1)}"
| "wf_cmd P (PIPE l r) \<longleftrightarrow> wf_cmd P l \<and> wf_cmd P r"
| "wf_cmd P (LIST l r) \<longleftrightarrow> wf_cmd P l \<and> wf_cmd P r"
| "wf_cmd P (BACK c) \<longleftrightarrow> wf_cmd P c"

fun nargs :: "'w cmd \<Rightarrow> nat" where
  "nargs (EXEC argv) = length argv"
| "nargs (REDIR c f m fd) = nargs c"
| "nargs c = 0"

lemma wf_cmd_map:
  "wf_cmd P c \<Longrightarrow> (\<And>w. w \<in> set_cmd c \<Longrightarrow> P w \<Longrightarrow> Q (f w)) \<Longrightarrow> wf_cmd Q (map_cmd f c)"
  by (induction c) (auto simp: list_all_iff)

lemma wf_cmd_set: "wf_cmd P c \<Longrightarrow> w \<in> set_cmd c \<Longrightarrow> P w"
  by (induction c) (auto simp: list_all_iff)

lemma wf_add_arg: "wf_cmd P c \<Longrightarrow> P w \<Longrightarrow> nargs c + 1 < MAXARGS \<Longrightarrow> wf_cmd P (add_arg c w)"
  by (induction c w rule: add_arg.induct) auto

lemma nargs_add_arg: "nargs (add_arg c w) \<le> nargs c + 1"
  by (induction c w rule: add_arg.induct) auto

lemma parseredirs_case_cases:
  assumes "wf_cmd P c" and "P f"
  shows "wf_cmd P (parseredirs_case c f tok)" and "nargs (parseredirs_case c f tok) = nargs c"
  using assms by (auto simp: parseredirs_case_def)

subsection \<open>The words the tokenizer finds\<close>

text \<open>A stretch of word characters of the line that nothing but a separator or the end follows.\<close>

definition word_span :: "string \<Rightarrow> span \<Rightarrow> bool" where
  "word_span s t \<longleftrightarrow>
     (case t of (q, e) \<Rightarrow> q < e \<and> e \<le> length s \<and> (\<forall>i. q \<le> i \<and> i < e \<longrightarrow> is_word (s ! i)) \<and>
        (e < length s \<longrightarrow> \<not> is_word (s ! e)))"

lemma word_end_span:
  "p \<le> length s \<Longrightarrow>
     word_end s p \<le> length s \<and> (\<forall>i. p \<le> i \<and> i < word_end s p \<longrightarrow> is_word (s ! i)) \<and>
     (word_end s p < length s \<longrightarrow> \<not> is_word (s ! word_end s p))"
proof (induction s p rule: word_end.induct)
  case (1 s p)
  show ?case
  proof (cases "p < length s \<and> \<not> is_ws (ch s p) \<and> \<not> is_sym (ch s p)")
    case True
    then have w: "word_end s p = word_end s (p + 1)" by (subst word_end.simps) simp
    have "is_word (s ! p)" using True by (auto simp: is_word_def ch_def)
    moreover have "i = p \<or> p + 1 \<le> i" if "p \<le> i" for i using that by linarith
    ultimately show ?thesis using 1 True unfolding w by (metis Suc_eq_plus1 Suc_leI)
  next
    case False
    then have w: "word_end s p = p" by (subst word_end.simps) auto
    show ?thesis unfolding w using False 1(2) by (auto simp: is_word_def ch_def split: if_splits)
  qed
qed

lemma gettoken_word_span:
  assumes t: "gettoken s p = (CHR ''a'', q, e, p')"
  shows "word_span s (q, e)"
proof -
  let ?q = "skip_ws s p"
  have c: "ch s ?q \<noteq> NUL" and qe: "q = ?q" "e = word_end s ?q" and ns: "\<not> is_sym (ch s ?q)"
    using t by (auto simp: gettoken_def Let_def is_sym_def symbols_def split: if_splits)
  have l: "?q < length s" using c by (rule ch_nonzero)
  have ws: "\<not> is_ws (ch s ?q)"
    using l by (induction s p rule: skip_ws.induct) (metis skip_ws.simps)
  have "?q < word_end s ?q"
    by (subst word_end.simps) (use ns l ws word_end_ge[of "?q + 1" s] in simp)
  with word_end_span[of ?q s] l qe show ?thesis by (simp add: word_span_def)
qed

subsection \<open>The parser\<close>

definition parse_errors :: "kerr set" where
  "parse_errors = Panic ` {''missing file for redirection'', ''syntax'', ''too many args'', ''syntax - missing )''}"

definition parse_ok :: "string \<Rightarrow> (span cmd \<times> nat) res \<Rightarrow> bool" where
  "parse_ok s r \<longleftrightarrow> (case r of Inl e \<Rightarrow> e \<in> parse_errors | Inr (c, p) \<Rightarrow> wf_cmd (word_span s) c)"

lemma parse_ok_simps [simp]:
  "parse_ok s (Inr (c, p)) \<longleftrightarrow> wf_cmd (word_span s) c"
  "parse_ok s (Inl e) \<longleftrightarrow> e \<in> parse_errors"
  by (simp_all add: parse_ok_def)

lemma parse_ok_bind:
  "parse_ok s r \<Longrightarrow> (\<And>c p. r = Inr (c, p) \<Longrightarrow> wf_cmd (word_span s) c \<Longrightarrow> parse_ok s (f (c, p))) \<Longrightarrow> parse_ok s (bindR r f)"
  by (cases r) auto

lemma parseredirs_wf:
  "wf_cmd (word_span s) c \<Longrightarrow>
     parse_ok s (parseredirs s c p) \<and> (\<forall>c' p'. parseredirs s c p = Inr (c', p') \<longrightarrow> nargs c' = nargs c)"
proof (induction s c p rule: parseredirs.induct)
  case (1 s c p)
  obtain p1 b where pk: "peek s p ''<>'' = (p1, b)" by fastforce
  obtain tok q0 e0 p2 where t1: "gettoken s p1 = (tok, q0, e0, p2)" by (rule prod_cases4)
  obtain tok2 q e p3 where t2: "gettoken s p2 = (tok2, q, e, p3)" by (rule prod_cases4)
  show ?case
  proof (cases "b \<and> tok2 = CHR ''a''")
    case True
    then have b: b and a: "\<not> tok2 \<noteq> CHR ''a''" by simp_all
    have w: "word_span s (q, e)" using gettoken_word_span t2 True by blast
    note r = parseredirs_case_cases[OF 1(2) w, of tok]
    have "parseredirs s c p = parseredirs s (parseredirs_case c (q, e) tok) p3"
      using True pk t1 t2 by (subst parseredirs.simps) simp
    with 1(1)[OF refl pk[symmetric] b refl t1[symmetric] refl refl refl t2[symmetric] refl refl a r(1)] r(2)
    show ?thesis by simp
  next
    case False
    with pk t1 t2 1(2) show ?thesis
      by (subst (1 2) parseredirs.simps) (auto simp: parse_errors_def)
  qed
qed

lemma parseexec_args_wf:
  "wf_cmd (word_span s) c \<Longrightarrow> nargs c \<le> argc \<Longrightarrow> parse_ok s (parseexec_args s c argc p)"
proof (induction s c argc p rule: parseexec_args.induct)
  case (1 s c argc p)
  obtain p1 b where pk: "peek s p ''|)&;'' = (p1, b)" by fastforce
  obtain tok q e p2 where t1: "gettoken s p1 = (tok, q, e, p2)" by (rule prod_cases4)
  let ?c = "add_arg c (q, e)"
  show ?case
  proof (cases "\<not> b \<and> tok = CHR ''a'' \<and> \<not> MAXARGS \<le> argc + 1")
    case True
    have w: "word_span s (q, e)" using gettoken_word_span t1 True by blast
    have wf: "wf_cmd (word_span s) ?c" using wf_add_arg[OF "1.prems"(1) w] "1.prems"(2) True by linarith
    note r = parseredirs_wf[OF wf, of p2]
    have n: "nargs c3 \<le> argc + 1" if "parseredirs s ?c p2 = Inr (c3, p3)" for c3 p3
      using r that nargs_add_arg[of c "(q, e)"] "1.prems"(2) by fastforce
    have "parse_ok s (parseexec_args s c3 (argc + 1) p3)"
      if "parseredirs s ?c p2 = Inr (c3, p3)" "wf_cmd (word_span s) c3" for c3 p3
      using "1.IH"[OF refl pk[symmetric] _ refl t1[symmetric] refl refl _ _ _ that(1) refl that(2) n[OF that(1)]] True by simp
    then have "parse_ok s (bindR (parseredirs s ?c p2) (\<lambda>(c, p3). parseexec_args s c (argc + 1) p3))"
      using parse_ok_bind[OF conjunct1[OF r]] by simp
    with True pk t1 show ?thesis by (subst parseexec_args.simps) simp
  next
    case False
    with pk t1 "1.prems" show ?thesis
      by (subst parseexec_args.simps) (auto simp: parse_errors_def)
  qed
qed

lemma parse_amps_wf: "wf_cmd P c \<Longrightarrow> wf_cmd P (fst (parse_amps s c p))"
proof (induction s c p rule: parse_amps.induct)
  case (1 s c p)
  obtain p1 b where pk: "peek s p ''&'' = (p1, b)" by fastforce
  obtain tok q e p2 where t1: "gettoken s p1 = (tok, q, e, p2)" by (rule prod_cases4)
  show ?case
  proof (cases b)
    case True
    have "wf_cmd P (fst (parse_amps s (BACK c) p2))"
      using 1(1)[OF refl pk[symmetric] True refl t1[symmetric] refl refl] 1(2) by simp
    with True pk t1 show ?thesis by (subst parse_amps.simps) simp
  next
    case False
    with pk 1(2) show ?thesis by (subst parse_amps.simps) simp
  qed
qed

lemma peek_again: "peek s p toks = (p1, True) \<Longrightarrow> peek s p1 toks = (p1, True)"
  using peek_True[of s p toks p1] skip_ws_stop[of s p1] by (auto simp: peek_def Let_def)

lemma parse_wf:
  shows "parse_ok s (parseline s p)" and "parse_ok s (parsepipe s p)"
    and "snd (peek s p ''('') \<Longrightarrow> parse_ok s (parseblock s p)" and "parse_ok s (parseexec s p)"
proof (induction s p and s p and s p and s p rule: parseline_parsepipe_parseblock_parseexec.induct)
  case (1 s p)
  show ?case
  proof (subst parseline.simps, rule parse_ok_bind[OF "1.IH"(1)], simp only: prod.case)
    fix c1 p1
    assume a: "parsepipe s p = Inr (c1, p1)" and w: "wf_cmd (word_span s) c1"
    obtain c2 p2 where am: "parse_amps s c1 p1 = (c2, p2)" by fastforce
    obtain p3 b where pk: "peek s p2 '';'' = (p3, b)" by fastforce
    obtain tok q e p4 where t1: "gettoken s p3 = (tok, q, e, p4)" by (rule prod_cases4)
    have w2: "wf_cmd (word_span s) c2" using parse_amps_wf[OF w, of s p1] am by simp
    have "parse_ok s (bindR (parseline s p4) (\<lambda>(r, p5). Inr (LIST c2 r, p5)))" if b
      using parse_ok_bind[OF "1.IH"(2)[OF a refl refl am[symmetric] refl pk[symmetric] that refl t1[symmetric] refl refl]] w2 by simp
    with am pk t1 w2 show "parse_ok s (let (c, p2) = parse_amps s c1 p1; (p3, b) = peek s p2 '';''
        in if b then let (_, _, _, p4) = gettoken s p3 in bindR (parseline s p4) (\<lambda>(r, p5). Inr (LIST c r, p5)) else Inr (c, p3))"
      by simp
  qed
next
  case (2 s p)
  show ?case
  proof (subst parsepipe.simps, rule parse_ok_bind[OF "2.IH"(1)], simp only: prod.case)
    fix c1 p1
    assume a: "parseexec s p = Inr (c1, p1)" and w: "wf_cmd (word_span s) c1"
    obtain p2 b where pk: "peek s p1 ''|'' = (p2, b)" by fastforce
    obtain tok q e p3 where t1: "gettoken s p2 = (tok, q, e, p3)" by (rule prod_cases4)
    have "parse_ok s (bindR (parsepipe s p3) (\<lambda>(r, p4). Inr (PIPE c1 r, p4)))" if b
      using parse_ok_bind[OF "2.IH"(2)[OF a refl refl pk[symmetric] that refl t1[symmetric] refl refl]] w by simp
    with pk t1 w show "parse_ok s (let (p2, b) = peek s p1 ''|''
        in if b then let (_, _, _, p3) = gettoken s p2 in bindR (parsepipe s p3) (\<lambda>(r, p4). Inr (PIPE c1 r, p4)) else Inr (c1, p2))"
      by simp
  qed
next
  case (3 s p)
  obtain p1 where pk: "peek s p ''('' = (p1, True)" using "3.prems" by (cases "peek s p ''(''") simp
  obtain tok q e p2 where t1: "gettoken s p1 = (tok, q, e, p2)" by (rule prod_cases4)
  have ih: "parse_ok s (parseline s p2)"
    using "3.IH"[OF refl pk[symmetric] _ refl t1[symmetric] refl refl] by simp
  have "parse_ok s (bindR (parseline s p2) (\<lambda>(c, p3). let (p4, b) = peek s p3 '')''
      in if \<not> b then Inl (Panic ''syntax - missing )'') else let (_, _, _, p5) = gettoken s p4 in parseredirs s c p5))"
    by (rule parse_ok_bind[OF ih]) (auto simp: parse_errors_def parseredirs_wf split: prod.split)
  with pk t1 show ?case by (subst parseblock.simps) simp
next
  case (4 s p)
  obtain p1 b where pk: "peek s p ''('' = (p1, b)" by fastforce
  show ?case
  proof (cases b)
    case True
    with pk peek_again have "snd (peek s p1 ''('')" by fastforce
    with "4.IH"[OF refl pk[symmetric] True] pk True show ?thesis by (subst parseexec.simps) simp
  next
    case False
    have r: "parse_ok s (parseredirs s (EXEC []) p1)"
      and n: "\<And>c' p'. parseredirs s (EXEC []) p1 = Inr (c', p') \<Longrightarrow> nargs c' = 0"
      using parseredirs_wf[of s "EXEC []" p1] by auto
    have "parse_ok s (bindR (parseredirs s (EXEC []) p1) (\<lambda>(c, p2). parseexec_args s c 0 p2))"
      by (rule parse_ok_bind[OF r]) (use n in \<open>auto intro!: parseexec_args_wf\<close>)
    with pk False show ?thesis by (subst parseexec.simps) simp
  qed
qed

subsection \<open>Terminating the strings\<close>

definition ends :: "span cmd \<Rightarrow> nat set" where
  "ends c = snd ` set_cmd c"

text \<open>The buffer with a NUL written at every index of a set.\<close>

definition cut :: "nat set \<Rightarrow> string \<Rightarrow> string" where
  "cut E buf = map (\<lambda>i. if i \<in> E then NUL else buf ! i) [0..<length buf]"

lemma cut_length [simp]: "length (cut E buf) = length buf"
  by (simp add: cut_def)

lemma cut_nth: "i < length buf \<Longrightarrow> cut E buf ! i = (if i \<in> E then NUL else buf ! i)"
  by (simp add: cut_def)

lemma cut_empty [simp]: "cut {} buf = buf"
  by (simp add: cut_def map_nth)

lemma cut_cut: "cut E (cut F buf) = cut (E \<union> F) buf"
  by (auto simp: list_eq_iff_nth_eq cut_nth)

lemma cut_insert: "e < length buf \<Longrightarrow> buf[e := NUL] = cut {e} buf"
  by (auto simp: list_eq_iff_nth_eq cut_nth nth_list_update)

lemma set_nul_cut: "e < length buf \<Longrightarrow> set_nul buf e = Inr (cut {e} buf)"
  by (simp add: set_nul_def array_set_def cut_insert)

lemma nulterminate_args_cut:
  "snd ` set ts \<subseteq> {..<length buf} \<Longrightarrow> nulterminate_args ts buf = Inr (cut (snd ` set ts) buf)"
  by (induction ts buf rule: nulterminate_args.induct) (auto simp: set_nul_cut cut_cut)

lemma nulterminate_cut:
  "ends c \<subseteq> {..<length buf} \<Longrightarrow> nulterminate c buf = Inr (cut (ends c) buf)"
  unfolding ends_def
proof (induction c buf rule: nulterminate.induct)
  case (1 argv buf)
  then show ?case by (simp add: nulterminate_args_cut)
next
  case (2 c q e m fd buf)
  then show ?case by (simp add: set_nul_cut cut_cut)
next
  case (3 l r buf)
  then show ?case by (simp add: cut_cut image_Un Un_commute)
next
  case (4 l r buf)
  then show ?case by (simp add: cut_cut image_Un Un_commute)
next
  case (5 c buf)
  then show ?case by simp
qed

definition span_str :: "string \<Rightarrow> span \<Rightarrow> string" where
  "span_str s t = (case t of (q, e) \<Rightarrow> take (e - q) (drop q s))"

text \<open>Cutting at the ends of words never cuts into a word.\<close>

lemma str_at_cut:
  assumes t: "word_span s (q, e)" and E: "\<And>e'. e' \<in> E \<Longrightarrow> \<exists>q'. word_span s (q', e')" and e: "e \<in> E" "e < length buf"
    and pre: "take (length s) buf = s" and nul: "NUL \<notin> set s"
  shows "str_at (cut E buf) q = span_str s (q, e)" and "word_ok (span_str s (q, e))"
proof -
  have q: "q < e" "e \<le> length s" and w: "\<And>i. q \<le> i \<Longrightarrow> i < e \<Longrightarrow> is_word (s ! i)"
    using t by (auto simp: word_span_def)
  have keep: "cut E buf ! i = s ! i" if "q \<le> i" "i < e" for i
  proof -
    have "i \<notin> E" using E[of i] w[OF that] that q by (auto simp: word_span_def)
    moreover have "buf ! i = s ! i" using nth_take[of i "length s" buf] pre that q by simp
    ultimately show ?thesis using that e by (simp add: cut_nth)
  qed
  let ?w = "span_str s (q, e)"
  have lw: "length ?w = e - q" using q by (simp add: span_str_def)
  have "drop q (cut E buf) = ?w @ NUL # drop (Suc e) (cut E buf)"
  proof -
    have "take (e - q) (drop q (cut E buf)) = ?w"
      using q e keep by (auto simp: list_eq_iff_nth_eq span_str_def)
    moreover have "drop (e - q) (drop q (cut E buf)) = drop e (cut E buf)" using q by simp
    moreover have "drop e (cut E buf) = NUL # drop (Suc e) (cut E buf)"
      using e Cons_nth_drop_Suc[of e "cut E buf"] by (simp add: cut_nth)
    ultimately show ?thesis by (metis append_take_drop_id)
  qed
  moreover have nw: "NUL \<notin> set ?w" using nul by (auto simp: span_str_def dest!: in_set_takeD in_set_dropD)
  ultimately show "str_at (cut E buf) q = ?w" by (auto simp: str_at_def takeWhile_append)
  have "list_all is_word ?w"
    using w q by (auto simp: list_all_length span_str_def)
  moreover have "?w \<noteq> []" using lw q by fastforce
  ultimately show "word_ok ?w" using nw by (simp add: word_ok_def)
qed

lemma nulterminate_strings:
  assumes wf: "wf_cmd (word_span s) c" and pre: "take (length s) buf = s" and nul: "NUL \<notin> set s" and l: "length s < length buf"
  shows "nulterminate c buf = Inr (cut (ends c) buf)"
    and "strings_of (c, cut (ends c) buf) = map_cmd (span_str s) c"
    and "wf_cmd word_ok (map_cmd (span_str s) c)"
proof -
  have span: "word_span s t" if "t \<in> set_cmd c" for t using wf_cmd_set[OF wf that] .
  have E: "\<exists>q'. word_span s (q', e')" if "e' \<in> ends c" for e' using that span by (fastforce simp: ends_def)
  have lt: "e' < length buf" if "e' \<in> ends c" for e' using E[OF that] l by (auto simp: word_span_def)
  then show "nulterminate c buf = Inr (cut (ends c) buf)" using nulterminate_cut[of c buf] by blast
  have end_in: "e \<in> ends c" if "(q, e) \<in> set_cmd c" for q e using that by (force simp: ends_def)
  note at = str_at_cut[OF span E end_in lt[OF end_in] pre nul]
  show "strings_of (c, cut (ends c) buf) = map_cmd (span_str s) c"
    unfolding strings_of_def prod.case by (rule cmd.map_cong[OF refl]) (use at(1) in auto)
  show "wf_cmd word_ok (map_cmd (span_str s) c)"
    by (rule wf_cmd_map[OF wf]) (use at(2) in auto)
qed

lemma takeWhile_NUL:
  assumes "NUL \<in> set buf"
  defines "s \<equiv> takeWhile (\<lambda>c. c \<noteq> NUL) buf"
  shows "take (length s) buf = s" and "NUL \<notin> set s" and "length s < length buf"
proof -
  show "take (length s) buf = s" unfolding s_def by (metis takeWhile_eq_take length_takeWhile_le min.absorb2 length_take)
  show "NUL \<notin> set s" unfolding s_def by (auto dest: set_takeWhileD)
  show "length s < length buf" using assms(1) unfolding s_def by (induction buf) auto
qed

text \<open>
  C35: parsing a terminated line always ends, with one of the four complaints of the parser or with
  a command tree that runcmd can walk: no node has more than nine arguments, every redirection is of
  one of the two kinds, and every string of the tree, read from the cut buffer up to its NUL, is a
  non-empty word free of blanks, symbols and NULs.
\<close>

theorem parsecmd_well_formed:
  assumes "NUL \<in> set buf"
  shows "case parsecmd buf of Inl e \<Rightarrow> e \<in> parse_errors | Inr r \<Rightarrow> wf_cmd word_ok (strings_of r)"
proof -
  let ?s = "takeWhile (\<lambda>c. c \<noteq> NUL) buf"
  note s = takeWhile_NUL[OF assms]
  show ?thesis
  proof (cases "parseline ?s 0")
    case (Inl e)
    then show ?thesis using parse_wf(1)[of ?s 0] by (simp add: parsecmd_def Let_def)
  next
    case (Inr cp)
    obtain c p where cp: "cp = (c, p)" by (cases cp)
    have "wf_cmd (word_span ?s) c" using parse_wf(1)[of ?s 0] Inr cp by simp
    note n = nulterminate_strings[OF this s]
    show ?thesis
      using Inr cp n by (auto simp: parsecmd_def Let_def parse_errors_def split: prod.split)
  qed
qed

theorem parsecmd_well_formed_witness:
  "let buf = ''ls|wc'' @ [NUL] in
     NUL \<in> set buf \<and> (case parsecmd buf of Inl e \<Rightarrow> e \<in> parse_errors | Inr r \<Rightarrow> wf_cmd word_ok (strings_of r))"
  using parsecmd_well_formed[of "''ls|wc'' @ [NUL]"] by simp

end
