(* ===== verification/ShellPrint.thy ===== *)
theory ShellPrint
  imports ShellWf
begin

text \<open>
  Every command tree has a line that the shell's parser turns into it (sh.c): a printer that puts
  parentheses where the grammar needs them, and the proof that parsecmd inverts it, strings included.
\<close>

subsection \<open>Printing\<close>

definition paren :: "bool \<Rightarrow> string \<Rightarrow> string" where
  "paren b x = (if b then ''('' @ x @ '')'' else x)"

text \<open>The level is 0 for a line, 1 for what an ampersand follows, 2 for a pipeline, 3 for a command.\<close>

fun print_cmd :: "nat \<Rightarrow> string cmd \<Rightarrow> string" where
  "print_cmd k (EXEC argv) = concat (map (\<lambda>w. '' '' @ w) argv)"
| "print_cmd k (REDIR c f m fd) = print_cmd 3 c @ (if fd = 0 then '' < '' else '' > '') @ f"
| "print_cmd k (PIPE l r) = paren (2 < k) (print_cmd 3 l @ ''|'' @ print_cmd 2 r)"
| "print_cmd k (LIST l r) = paren (0 < k) (print_cmd 1 l @ '';'' @ print_cmd 0 r)"
| "print_cmd k (BACK c) = paren (1 < k) (print_cmd 1 c @ ''&'')"

lemma print_cmd_no_NUL: "wf_cmd word_ok t \<Longrightarrow> NUL \<notin> set (print_cmd k t)"
  by (induction k t rule: print_cmd.induct) (auto simp: paren_def word_ok_def list_all_iff)

subsection \<open>Tokens of the remaining line\<close>

abbreviation unblank :: "string \<Rightarrow> string" where
  "unblank \<equiv> dropWhile is_ws"

text \<open>What is left of the line at a pointer, up to leading blanks.\<close>

definition at :: "string \<Rightarrow> nat \<Rightarrow> string \<Rightarrow> bool" where
  "at s p r \<longleftrightarrow> p \<le> length s \<and> unblank (drop p s) = unblank r"

definition sep :: "string \<Rightarrow> bool" where
  "sep r \<longleftrightarrow> (r = [] \<or> is_ws (hd r) \<or> is_sym (hd r))"

lemma drop_skip_ws: "drop (skip_ws s p) s = unblank (drop p s)"
proof (induction s p rule: skip_ws.induct)
  case (1 s p)
  show ?case
  proof (cases "p < length s \<and> is_ws (ch s p)")
    case True
    then have "skip_ws s p = skip_ws s (p + 1)" by (subst skip_ws.simps) simp
    moreover have "drop p s = s ! p # drop (p + 1) s" "is_ws (s ! p)"
      using True Cons_nth_drop_Suc[of p s] by (auto simp: ch_def)
    ultimately show ?thesis using 1 True by simp
  next
    case False
    then have "skip_ws s p = p" by (subst skip_ws.simps) auto
    moreover have "unblank (drop p s) = drop p s"
    proof (cases "p < length s")
      case True
      then show ?thesis using False Cons_nth_drop_Suc[of p s, symmetric] by (simp add: ch_def)
    qed simp
    ultimately show ?thesis by simp
  qed
qed

lemma unblank_idem [simp]: "unblank (unblank r) = unblank r"
  by (induction r) auto

lemma at_skip_ws: "at s p r \<Longrightarrow> at s (skip_ws s p) r"
  by (simp add: at_def drop_skip_ws skip_ws_le)

lemma at_cong: "at s p r \<Longrightarrow> unblank r = unblank r' \<Longrightarrow> at s p r'"
  by (simp add: at_def)

lemma drop_at: "at s p r \<Longrightarrow> drop (skip_ws s p) s = unblank r"
  by (simp add: at_def drop_skip_ws)

lemma ch_drop: "ch s p = (case drop p s of [] \<Rightarrow> NUL | c # _ \<Rightarrow> c)"
proof (cases "p < length s")
  case True
  then show ?thesis using Cons_nth_drop_Suc[of p s, symmetric] by (simp add: ch_def)
qed (simp add: ch_def)

lemma peek_at:
  assumes "at s p r"
  obtains p1 where "peek s p toks = (p1, case unblank r of [] \<Rightarrow> False | c # _ \<Rightarrow> c \<noteq> NUL \<and> c \<in> set toks)" and "at s p1 r"
  using at_skip_ws[OF assms] drop_at[OF assms]
  by (cases "unblank r") (auto simp: peek_def Let_def ch_drop)

lemma at_after: "drop q s = c # r \<Longrightarrow> at s (skip_ws s (q + 1)) r"
proof -
  assume d: "drop q s = c # r"
  then have "q < length s" by (metis drop_all list.distinct(1) not_le)
  moreover have "drop (q + 1) s = r" using d by (metis Suc_eq_plus1 drop_Suc list.sel(3) tl_drop)
  ultimately show ?thesis using at_skip_ws[of s "q + 1" r] by (simp add: at_def)
qed

lemma gettoken_sym:
  assumes a: "at s p (c # r)" and c: "c \<in> set ''|();&<>''" and gt: "c = CHR ''>'' \<Longrightarrow> r = [] \<or> hd r \<noteq> CHR ''>''"
  obtains q e p' where "gettoken s p = (c, q, e, p')" and "at s p' r"
proof -
  have "unblank (c # r) = c # r" using c by (auto simp: is_ws_def whitespace_def)
  then have d: "drop (skip_ws s p) s = c # r" using drop_at[OF a] by simp
  then have c0: "ch s (skip_ws s p) = c" by (simp add: ch_drop)
  have "drop (Suc (skip_ws s p)) s = r" using d by (metis drop_Suc list.sel(3) tl_drop)
  then have c1: "ch s (Suc (skip_ws s p)) = (case r of [] \<Rightarrow> NUL | c # _ \<Rightarrow> c)" by (simp add: ch_drop)
  have "gettoken s p = (c, skip_ws s p, skip_ws s p + 1, skip_ws s (skip_ws s p + 1))"
    using c gt by (auto simp: gettoken_def Let_def c0 c1 split: list.split)
  with at_after[OF d] that show thesis by blast
qed

lemma word_end_drop:
  "drop q s = w @ r \<Longrightarrow> list_all is_word w \<Longrightarrow> sep r \<Longrightarrow> word_end s q = q + length w"
proof (induction w arbitrary: q)
  case Nil
  then have "\<not> (q < length s \<and> \<not> is_ws (ch s q) \<and> \<not> is_sym (ch s q))"
    by (cases r) (auto simp: sep_def ch_drop)
  then show ?case by (subst word_end.simps) auto
next
  case (Cons c w)
  have q: "q < length s" using Cons.prems(1) by (metis append_Cons drop_all list.distinct(1) not_le)
  have "ch s q = c" using Cons.prems(1) by (simp add: ch_drop)
  moreover have "drop (q + 1) s = w @ r" using Cons.prems(1) by (metis Suc_eq_plus1 append_Cons drop_Suc list.sel(3) tl_drop)
  ultimately show ?case using Cons q by (subst word_end.simps) (simp add: is_word_def)
qed

lemma gettoken_word:
  assumes a: "at s p (w @ r)" and w: "word_ok w" and r: "sep r"
  obtains q e p' where "gettoken s p = (CHR ''a'', q, e, p')" and "span_str s (q, e) = w" and "at s p' r"
proof -
  let ?q = "skip_ws s p"
  have w': "w \<noteq> []" "list_all is_word w" "NUL \<notin> set w" using w by (auto simp: word_ok_def)
  then have hd: "is_word (hd w)" "hd w \<noteq> NUL" by (cases w; auto)+
  have "unblank (w @ r) = w @ r" using w' hd by (cases w) (auto simp: is_word_def)
  then have d: "drop ?q s = w @ r" using drop_at[OF a] by simp
  have e: "word_end s ?q = ?q + length w" by (rule word_end_drop[OF d w'(2) r])
  have c: "ch s ?q = hd w" using d w' by (cases w) (simp_all add: ch_drop)
  have "gettoken s p = (CHR ''a'', ?q, ?q + length w, skip_ws s (?q + length w))"
    using hd by (auto simp: gettoken_def Let_def c e is_word_def is_sym_def symbols_def)
  moreover have "span_str s (?q, ?q + length w) = w" by (simp add: span_str_def d)
  moreover have "at s (skip_ws s (?q + length w)) r"
  proof (rule at_skip_ws)
    have "drop (?q + length w) s = r" using d by (metis add.commute append_eq_conv_conj drop_drop)
    moreover have "length s - ?q = length w + length r" using arg_cong[OF d, of length] by simp
    moreover have "?q \<le> length s" using skip_ws_le[of p s] a by (simp add: at_def)
    ultimately show "at s (?q + length w) r" using w' by (simp add: at_def) 
  qed
  ultimately show thesis using that by blast
qed

lemma gettoken_end:
  assumes "at s p []"
  obtains q e p' where "gettoken s p = (NUL, q, e, p')" and "at s p' []"
proof -
  have "drop (skip_ws s p) s = []" using drop_at[OF assms] by simp
  then have "ch s (skip_ws s p) = NUL" by (simp add: ch_drop)
  then have "gettoken s p = (NUL, skip_ws s p, skip_ws s p, skip_ws s (skip_ws s p))" by (simp add: gettoken_def Let_def)
  moreover have "at s (skip_ws s (skip_ws s p)) []" by (intro at_skip_ws assms)
  ultimately show thesis using that by blast
qed

subsection \<open>Parsing a printed command\<close>

abbreviation tree :: "string \<Rightarrow> span cmd \<Rightarrow> string cmd" where
  "tree s \<equiv> map_cmd (span_str s)"

text \<open>The number of arguments read so far, when the command is not a parenthesised one.\<close>

fun exec_args :: "'w cmd \<Rightarrow> nat option" where
  "exec_args (EXEC argv) = Some (length argv)"
| "exec_args (REDIR c f m fd) = exec_args c"
| "exec_args c = None"

definition resume :: "string \<Rightarrow> 'w cmd \<Rightarrow> span cmd \<times> nat \<Rightarrow> (span cmd \<times> nat) res" where
  "resume s t cp = (case exec_args t of Some n \<Rightarrow> parseexec_args s (fst cp) n (snd cp) | None \<Rightarrow> Inr cp)"

lemma resume_EXEC: "resume s (EXEC argv) = (\<lambda>(c, p). parseexec_args s c (length argv) p)"
  by (rule ext) (simp add: resume_def case_prod_beta')

definition starts :: "string \<Rightarrow> string \<Rightarrow> bool" where
  "starts cs r \<longleftrightarrow> (r = [] \<or> hd r \<in> set cs)"

text \<open>
  What the four parsing levels do with a printed command and what follows it. A command at the
  lowest level may be followed by more arguments or redirections: the parser is then in its loop
  over redirections.
\<close>

definition exec_open :: "string \<Rightarrow> string cmd \<Rightarrow> bool" where
  "exec_open s t \<longleftrightarrow> (\<forall>p r. at s p (print_cmd 3 t @ r) \<longrightarrow> sep r \<longrightarrow> (unblank r = [] \<or> hd (unblank r) \<noteq> CHR ''('') \<longrightarrow>
     (\<exists>c p'. tree s c = t \<and> at s p' r \<and> parseexec s p = bindR (parseredirs s c p') (resume s t)))"

definition level :: "(string \<Rightarrow> nat \<Rightarrow> (span cmd \<times> nat) res) \<Rightarrow> nat \<Rightarrow> string \<Rightarrow> string \<Rightarrow> string cmd \<Rightarrow> bool" where
  "level parse k cs s t \<longleftrightarrow> (\<forall>p r. at s p (print_cmd k t @ r) \<longrightarrow> starts cs r \<longrightarrow>
     (\<exists>c p'. parse s p = Inr (c, p') \<and> tree s c = t \<and> at s p' r))"

definition amps_open :: "string \<Rightarrow> string cmd \<Rightarrow> bool" where
  "amps_open s t \<longleftrightarrow> (\<forall>p r. at s p (print_cmd 1 t @ r) \<longrightarrow> starts '')&;'' r \<longrightarrow>
     (\<exists>c0 p0 c p'. parsepipe s p = Inr (c0, p0) \<and> parse_amps s c0 p0 = parse_amps s c p' \<and> tree s c = t \<and> at s p' r))"

lemma unblank_stop: "r \<noteq> [] \<Longrightarrow> \<not> is_ws (hd r) \<Longrightarrow> unblank r = r"
  by (cases r) simp_all

lemma symbol_not_ws: "c \<in> set ''<|>&;()'' \<Longrightarrow> \<not> is_ws c \<and> c \<noteq> NUL \<and> is_sym c"
  by (auto simp: is_ws_def whitespace_def is_sym_def symbols_def)

lemma starts_unblank: "starts cs r \<Longrightarrow> set cs \<subseteq> set ''<|>&;()'' \<Longrightarrow> unblank r = r \<and> sep r"
proof (cases r)
  case (Cons x r')
  assume "starts cs r" and "set cs \<subseteq> set ''<|>&;()''"
  then have "x \<in> set ''<|>&;()''" unfolding starts_def Cons by (simp only: list.sel list.distinct) blast
  from symbol_not_ws[OF this] show ?thesis unfolding Cons sep_def by simp
qed (simp add: sep_def)

text \<open>Peeking at what follows.\<close>

lemma peek_not:
  assumes "at s p r" and "unblank r = [] \<or> hd (unblank r) \<notin> set toks"
  obtains p1 where "peek s p toks = (p1, False)" and "at s p1 r"
proof (rule peek_at[OF assms(1), of toks])
  fix p1
  assume "peek s p toks = (p1, case unblank r of [] \<Rightarrow> False | c # _ \<Rightarrow> c \<noteq> NUL \<and> c \<in> set toks)" and "at s p1 r"
  with assms(2) that show thesis by (cases "unblank r") auto
qed

lemma peek_yes:
  assumes "at s p (c # r)" and "c \<in> set toks" and "set toks \<subseteq> set ''<|>&;()''"
  obtains p1 where "peek s p toks = (p1, True)" and "at s p1 (c # r)"
proof (rule peek_at[OF assms(1), of toks])
  fix p1
  assume a: "peek s p toks = (p1, case unblank (c # r) of [] \<Rightarrow> False | c # _ \<Rightarrow> c \<noteq> NUL \<and> c \<in> set toks)" and "at s p1 (c # r)"
  moreover have "c \<in> set ''<|>&;()''" using assms(2,3) by blast
  from symbol_not_ws[OF this] have "unblank (c # r) = c # r" "c \<noteq> NUL" by simp_all
  ultimately show thesis using that assms(2) by simp
qed

lemma parseredirs_stop:
  assumes "at s p r" and "unblank r = [] \<or> hd (unblank r) \<notin> set ''<>''"
  obtains p1 where "parseredirs s c p = Inr (c, p1)" and "at s p1 r"
proof (rule peek_not[OF assms])
  fix p1
  assume "peek s p ''<>'' = (p1, False)" and a: "at s p1 r"
  then have "parseredirs s c p = Inr (c, p1)" by (subst parseredirs.simps) simp
  with a that show thesis by blast
qed

lemma parseexec_args_stop:
  assumes a: "at s p r" and r: "starts ''|)&;'' r"
  obtains p1 where "parseexec_args s c n p = Inr (c, p1)" and "at s p1 r"
proof (cases r)
  case Nil
  obtain p1 where pk: "peek s p ''|)&;'' = (p1, False)" and p1: "at s p1 r"
    using peek_not[OF a, of "''|)&;''"] Nil by auto
  obtain q e p2 where t: "gettoken s p1 = (NUL, q, e, p2)" and "at s p2 []" using gettoken_end p1 Nil by blast
  then have "at s p2 r" using Nil by simp
  with that show thesis using pk t by (subst (asm) parseexec_args.simps) simp
next
  case (Cons x r')
  then obtain p1 where "peek s p ''|)&;'' = (p1, True)" and "at s p1 r"
    using peek_yes[of s p x r' "''|)&;''"] a r by (auto simp: starts_def)
  with that show thesis by (subst (asm) parseexec_args.simps) simp
qed

lemma level_3:
  assumes "exec_open s t"
  shows "level parseexec 3 ''|)&;'' s t"
  unfolding level_def
proof (intro allI impI)
  fix p r
  assume a: "at s p (print_cmd 3 t @ r)" and r: "starts ''|)&;'' r"
  have u: "unblank r = r" "sep r" using starts_unblank[OF r] by auto
  have n: "unblank r = [] \<or> hd (unblank r) \<noteq> CHR ''(''" "unblank r = [] \<or> hd (unblank r) \<notin> set ''<>''"
    using r u by (auto simp: starts_def)
  obtain c p' where c: "tree s c = t" "at s p' r" "parseexec s p = bindR (parseredirs s c p') (resume s t)"
    using assms a u(2) n(1) unfolding exec_open_def by blast
  obtain p1 where p1: "parseredirs s c p' = Inr (c, p1)" "at s p1 r" using parseredirs_stop[OF c(2) n(2)] .
  show "\<exists>c p'. parseexec s p = Inr (c, p') \<and> tree s c = t \<and> at s p' r"
  proof (cases "exec_args t")
    case None
    then show ?thesis using c p1 by (simp add: resume_def)
  next
    case (Some n)
    obtain p2 where "parseexec_args s c n p1 = Inr (c, p2)" "at s p2 r" using parseexec_args_stop[OF p1(2) r] .
    then show ?thesis using c p1 Some by (simp add: resume_def)
  qed
qed

lemma parsepipe_after:
  assumes x: "level parseexec 3 ''|)&;'' s t" and a: "at s p (print_cmd 3 t @ r)" and r: "starts ''|)&;'' r"
  obtains c p1 where "tree s c = t" and "at s p1 r"
    and "parsepipe s p = (let (p2, b) = peek s p1 ''|'' in
       if b then let (_, _, _, p3) = gettoken s p2 in bindR (parsepipe s p3) (\<lambda>(r, p4). Inr (PIPE c r, p4))
       else Inr (c, p2))"
proof -
  from x a r obtain c p1 where "parseexec s p = Inr (c, p1)" "tree s c = t" "at s p1 r"
    unfolding level_def by blast
  with that show thesis by (subst (asm) parsepipe.simps) simp
qed

lemma level_2:
  assumes x: "level parseexec 3 ''|)&;'' s t" and k: "print_cmd 2 t = print_cmd 3 t"
  shows "level parsepipe 2 '')&;'' s t"
  unfolding level_def k
proof (intro allI impI)
  fix p r
  assume a: "at s p (print_cmd 3 t @ r)" and r: "starts '')&;'' r"
  have r': "starts ''|)&;'' r" using r by (auto simp: starts_def)
  have n: "unblank r = [] \<or> hd (unblank r) \<notin> set ''|''" using r starts_unblank[OF r] by (auto simp: starts_def)
  show "\<exists>c p'. parsepipe s p = Inr (c, p') \<and> tree s c = t \<and> at s p' r"
    by (rule parsepipe_after[OF x a r'], erule peek_not[OF _ n]) simp
qed

lemma level_2_PIPE:
  assumes l: "level parseexec 3 ''|)&;'' s l" and r: "level parsepipe 2 '')&;'' s r"
  shows "level parsepipe 2 '')&;'' s (PIPE l r)"
  unfolding level_def
proof (intro allI impI)
  fix p x
  assume a: "at s p (print_cmd 2 (PIPE l r) @ x)" and x: "starts '')&;'' x"
  let ?rest = "CHR ''|'' # print_cmd 2 r @ x"
  have a': "at s p (print_cmd 3 l @ ?rest)" using a by (simp add: paren_def)
  obtain c p1 where c: "tree s c = l" "at s p1 ?rest"
    and pp: "parsepipe s p = (let (p2, b) = peek s p1 ''|'' in
       if b then let (_, _, _, p3) = gettoken s p2 in bindR (parsepipe s p3) (\<lambda>(r, p4). Inr (PIPE c r, p4))
       else Inr (c, p2))"
    using parsepipe_after[OF l a'] by (auto simp: starts_def)
  obtain p2 where pk: "peek s p1 ''|'' = (p2, True)" and p2: "at s p2 ?rest" using peek_yes[OF c(2), of "''|''"] by auto
  obtain q e p3 where t: "gettoken s p2 = (CHR ''|'', q, e, p3)" and p3: "at s p3 (print_cmd 2 r @ x)"
    using gettoken_sym[OF p2] by auto
  obtain d p4 where "parsepipe s p3 = Inr (d, p4)" "tree s d = r" "at s p4 x"
    using r p3 x unfolding level_def by blast
  with pp pk t c show "\<exists>c p'. parsepipe s p = Inr (c, p') \<and> tree s c = PIPE l r \<and> at s p' x" by simp
qed

lemma amps_open_pipe:
  "level parsepipe 2 '')&;'' s t \<Longrightarrow> print_cmd 1 t = print_cmd 2 t \<Longrightarrow> amps_open s t"
  unfolding level_def amps_open_def by metis

lemma amps_open_BACK:
  assumes "amps_open s t"
  shows "amps_open s (BACK t)"
  unfolding amps_open_def
proof (intro allI impI)
  fix p r
  assume a: "at s p (print_cmd 1 (BACK t) @ r)" and r: "starts '')&;'' r"
  have "at s p (print_cmd 1 t @ CHR ''&'' # r)" using a by (simp add: paren_def)
  moreover have "starts '')&;'' (CHR ''&'' # r)" by (simp add: starts_def)
  ultimately obtain c0 p0 c p' where c: "parsepipe s p = Inr (c0, p0)" "parse_amps s c0 p0 = parse_amps s c p'"
    "tree s c = t" and p': "at s p' (CHR ''&'' # r)"
    using assms unfolding amps_open_def by blast
  obtain p1 where pk: "peek s p' ''&'' = (p1, True)" and p1: "at s p1 (CHR ''&'' # r)" using peek_yes[OF p', of "''&''"] by auto
  obtain q e p2 where t: "gettoken s p1 = (CHR ''&'', q, e, p2)" and p2: "at s p2 r"
    using gettoken_sym[OF p1] by auto
  have "parse_amps s c p' = parse_amps s (BACK c) p2" using pk t by (subst parse_amps.simps) simp
  with c p2 show "\<exists>c0 p0 c p'. parsepipe s p = Inr (c0, p0) \<and> parse_amps s c0 p0 = parse_amps s c p' \<and> tree s c = BACK t \<and> at s p' r"
    by (metis cmd.map(5))
qed

lemma parseline_after:
  assumes x: "amps_open s t" and a: "at s p (print_cmd 1 t @ r)" and r: "starts '');'' r"
  obtains c p2 where "tree s c = t" and "at s p2 r"
    and "parseline s p = (let (p3, b) = peek s p2 '';'' in
       if b then let (_, _, _, p4) = gettoken s p3 in bindR (parseline s p4) (\<lambda>(r, p5). Inr (LIST c r, p5))
       else Inr (c, p3))"
proof -
  have "starts '')&;'' r" using r by (auto simp: starts_def)
  then obtain c0 p0 c p1 where c: "parsepipe s p = Inr (c0, p0)" "parse_amps s c0 p0 = parse_amps s c p1" "tree s c = t" and p1: "at s p1 r"
    using x a unfolding amps_open_def by blast
  have "unblank r = [] \<or> hd (unblank r) \<notin> set ''&''" using r starts_unblank[OF r] by (auto simp: starts_def)
  then obtain p2 where pk: "peek s p1 ''&'' = (p2, False)" and p2: "at s p2 r" using peek_not[OF p1, of "''&''"] by blast
  have "parse_amps s c p1 = (c, p2)" using pk by (subst parse_amps.simps) simp
  with c p2 that show thesis by (subst (asm) parseline.simps) simp
qed

lemma level_0:
  assumes x: "amps_open s t" and k: "print_cmd 0 t = print_cmd 1 t"
  shows "level parseline 0 '')'' s t"
  unfolding level_def k
proof (intro allI impI)
  fix p r
  assume a: "at s p (print_cmd 1 t @ r)" and r: "starts '')'' r"
  have r': "starts '');'' r" using r by (auto simp: starts_def)
  have n: "unblank r = [] \<or> hd (unblank r) \<notin> set '';''" using r starts_unblank[OF r] by (auto simp: starts_def)
  show "\<exists>c p'. parseline s p = Inr (c, p') \<and> tree s c = t \<and> at s p' r"
    by (rule parseline_after[OF x a r'], erule peek_not[OF _ n]) simp
qed

lemma level_0_LIST:
  assumes l: "amps_open s l" and r: "level parseline 0 '')'' s r"
  shows "level parseline 0 '')'' s (LIST l r)"
  unfolding level_def
proof (intro allI impI)
  fix p x
  assume a: "at s p (print_cmd 0 (LIST l r) @ x)" and x: "starts '')'' x"
  let ?rest = "CHR '';'' # print_cmd 0 r @ x"
  have a': "at s p (print_cmd 1 l @ ?rest)" using a by (simp add: paren_def)
  obtain c p2 where c: "tree s c = l" "at s p2 ?rest"
    and pl: "parseline s p = (let (p3, b) = peek s p2 '';'' in
       if b then let (_, _, _, p4) = gettoken s p3 in bindR (parseline s p4) (\<lambda>(r, p5). Inr (LIST c r, p5))
       else Inr (c, p3))"
    using parseline_after[OF l a'] by (auto simp: starts_def)
  obtain p3 where pk: "peek s p2 '';'' = (p3, True)" and p3: "at s p3 ?rest" using peek_yes[OF c(2), of "'';''"] by auto
  obtain q e p4 where t: "gettoken s p3 = (CHR '';'', q, e, p4)" and p4: "at s p4 (print_cmd 0 r @ x)"
    using gettoken_sym[OF p3] by auto
  obtain d p5 where "parseline s p4 = Inr (d, p5)" "tree s d = r" "at s p5 x"
    using r p4 x unfolding level_def by blast
  with pl pk t c show "\<exists>c p'. parseline s p = Inr (c, p') \<and> tree s c = LIST l r \<and> at s p' x" by simp
qed

lemma exec_open_block:
  assumes l: "level parseline 0 '')'' s t" and k: "print_cmd 3 t = ''('' @ print_cmd 0 t @ '')''" and n: "exec_args t = None"
  shows "exec_open s t"
  unfolding exec_open_def
proof (intro allI impI)
  fix p r
  assume "at s p (print_cmd 3 t @ r)"
  then have a: "at s p (CHR ''('' # print_cmd 0 t @ CHR '')'' # r)" (is "at s p ?line") by (simp add: k)
  obtain p1 where pk: "peek s p ''('' = (p1, True)" and p1: "at s p1 ?line" using peek_yes[OF a, of "''(''"] by auto
  obtain q e p2 where t: "gettoken s p1 = (CHR ''('', q, e, p2)" and p2: "at s p2 (print_cmd 0 t @ CHR '')'' # r)"
    using gettoken_sym[OF p1] by auto
  have "starts '')'' (CHR '')'' # r)" by (simp add: starts_def)
  then obtain c p3 where c: "parseline s p2 = Inr (c, p3)" "tree s c = t" and p3: "at s p3 (CHR '')'' # r)"
    using l p2 unfolding level_def by blast
  obtain p4 where pk': "peek s p3 '')'' = (p4, True)" and p4: "at s p4 (CHR '')'' # r)" using peek_yes[OF p3, of "'')''"] by auto
  obtain q' e' p5 where t': "gettoken s p4 = (CHR '')'', q', e', p5)" and p5: "at s p5 r"
    using gettoken_sym[OF p4] by auto
  have "parseexec s p = parseredirs s c p5"
    using pk peek_again[OF pk] t c(1) pk' t' by (subst parseexec.simps, subst parseblock.simps) simp
  moreover have "bindR x (resume s t) = x" for x using n by (cases x) (simp_all add: resume_def)
  ultimately show "\<exists>c p'. tree s c = t \<and> at s p' r \<and> parseexec s p = bindR (parseredirs s c p') (resume s t)"
    using c(2) p5 by metis
qed

lemma exec_open_REDIR:
  assumes o: "exec_open s t" and f: "word_ok f" and m: "(m, fd) \<in> {(O_RDONLY, 0), (O_WRONLY_CREATE, 1)}"
  shows "exec_open s (REDIR t f m fd)"
  unfolding exec_open_def
proof (intro allI impI)
  fix p r
  define tok where "tok = (if fd = 0 then CHR ''<'' else CHR ''>'')"
  let ?line = "tok # CHR '' '' # f @ r"
  assume "at s p (print_cmd 3 (REDIR t f m fd) @ r)" and r: "sep r"
  then have a: "at s p (print_cmd 3 t @ CHR '' '' # ?line)" by (simp add: tok_def split: if_splits)
  have tok: "tok \<in> {CHR ''<'', CHR ''>''}" by (simp add: tok_def)
  then have u: "unblank (CHR '' '' # ?line) = ?line" by (auto simp: is_ws_def whitespace_def)
  have "sep (CHR '' '' # ?line)" by (simp add: sep_def is_ws_def whitespace_def)
  moreover have "unblank (CHR '' '' # ?line) = [] \<or> hd (unblank (CHR '' '' # ?line)) \<noteq> CHR ''(''"
    unfolding u using tok by auto
  ultimately obtain c p' where c: "tree s c = t" "parseexec s p = bindR (parseredirs s c p') (resume s t)" and "at s p' (CHR '' '' # ?line)"
    using o a unfolding exec_open_def by blast
  then have p': "at s p' ?line" using at_cong u by (metis unblank_idem)
  obtain p1 where pk: "peek s p' ''<>'' = (p1, True)" and p1: "at s p1 ?line"
    using peek_yes[OF p', of "''<>''"] tok by auto
  obtain q e p2 where t1: "gettoken s p1 = (tok, q, e, p2)" and "at s p2 (CHR '' '' # f @ r)"
    using gettoken_sym[OF p1] tok by auto
  then have "at s p2 (f @ r)" by (auto elim!: at_cong simp: is_ws_def whitespace_def)
  then obtain q' e' p3 where t2: "gettoken s p2 = (CHR ''a'', q', e', p3)" and sp: "span_str s (q', e') = f" and p3: "at s p3 r"
    using gettoken_word f r by blast
  have "parseredirs s c p' = parseredirs s (parseredirs_case c (q', e') tok) p3"
    using pk t1 t2 by (subst parseredirs.simps) simp
  moreover have "tree s (parseredirs_case c (q', e') tok) = REDIR t f m fd"
    using m by (auto simp: parseredirs_case_def c(1) sp tok_def)
  moreover have "resume s (REDIR t f m fd) = resume s t" by (rule ext) (simp add: resume_def)
  ultimately show "\<exists>c p'. tree s c = REDIR t f m fd \<and> at s p' r \<and> parseexec s p = bindR (parseredirs s c p') (resume s (REDIR t f m fd))"
    using c(2) p3 by metis
qed

lemma tree_add_arg: "tree s (add_arg c t) = add_arg (tree s c) (span_str s t)"
  by (induction c t rule: add_arg.induct) auto

lemma word_head: "word_ok w \<Longrightarrow> w \<noteq> [] \<and> unblank (w @ r) = w @ r \<and> hd w \<notin> set ''<|>&;()''"
  by (cases w) (auto simp: word_ok_def is_word_def is_sym_def symbols_def)

lemma exec_open_EXEC:
  "length argv < MAXARGS \<Longrightarrow> list_all word_ok argv \<Longrightarrow> exec_open s (EXEC argv)"
proof (induction argv rule: rev_induct)
  case Nil
  show ?case unfolding exec_open_def
  proof (intro allI impI)
    fix p r
    assume "at s p (print_cmd 3 (EXEC []) @ r)" and r: "unblank r = [] \<or> hd (unblank r) \<noteq> CHR ''(''"
    then have a: "at s p r" by simp
    obtain p1 where "peek s p ''('' = (p1, False)" and p1: "at s p1 r" using peek_not[OF a, of "''(''"] r by auto
    then have "parseexec s p = bindR (parseredirs s (EXEC []) p1) (\<lambda>(c, p2). parseexec_args s c 0 p2)"
      by (subst parseexec.simps) simp
    then have "parseexec s p = bindR (parseredirs s (EXEC []) p1) (resume s (EXEC ([] :: string list)))"
      by (simp add: resume_EXEC)
    moreover have "tree s (EXEC []) = EXEC []" by simp
    ultimately show "\<exists>c p'. tree s c = EXEC [] \<and> at s p' r \<and> parseexec s p = bindR (parseredirs s c p') (resume s (EXEC ([] :: string list)))"
      using p1 by metis
  qed
next
  case (snoc w argv)
  have w: "word_ok w" and n: "\<not> MAXARGS \<le> length argv + 1" and o: "exec_open s (EXEC argv)" using snoc by auto
  show ?case unfolding exec_open_def
  proof (intro allI impI)
    fix p r
    let ?line = "w @ r"
    assume "at s p (print_cmd 3 (EXEC (argv @ [w])) @ r)" and r: "sep r"
    then have a: "at s p (print_cmd 3 (EXEC argv) @ CHR '' '' # ?line)" by simp
    note wh = word_head[OF w, of r]
    have u: "unblank (CHR '' '' # ?line) = ?line" using wh by (simp add: is_ws_def whitespace_def)
    have "sep (CHR '' '' # ?line)" by (simp add: sep_def is_ws_def whitespace_def)
    moreover have "unblank (CHR '' '' # ?line) = [] \<or> hd (unblank (CHR '' '' # ?line)) \<noteq> CHR ''(''"
      unfolding u using wh by auto
    ultimately obtain c p' where c: "tree s c = EXEC argv" "parseexec s p = bindR (parseredirs s c p') (resume s (EXEC argv))"
      and "at s p' (CHR '' '' # ?line)"
      using o a unfolding exec_open_def by blast
    then have p': "at s p' ?line" using at_cong u by (metis unblank_idem)
    obtain p1 where r1: "parseredirs s c p' = Inr (c, p1)" and p1: "at s p1 ?line"
      by (rule parseredirs_stop[OF p', of c]) (use wh in auto)
    obtain p2 where pk: "peek s p1 ''|)&;'' = (p2, False)" and p2: "at s p2 ?line"
      by (rule peek_not[OF p1, of "''|)&;''"]) (use wh in auto)
    obtain q e p3 where t1: "gettoken s p2 = (CHR ''a'', q, e, p3)" and sp: "span_str s (q, e) = w" and p3: "at s p3 r"
      using gettoken_word[OF p2 w r] .
    have "parseexec s p = parseexec_args s c (length argv) p1"
      using c(2) r1 by (simp add: resume_def)
    also have "\<dots> = bindR (parseredirs s (add_arg c (q, e)) p3) (\<lambda>(c, p3). parseexec_args s c (length argv + 1) p3)"
      using pk t1 n by (subst parseexec_args.simps) simp
    also have "\<dots> = bindR (parseredirs s (add_arg c (q, e)) p3) (resume s (EXEC (argv @ [w])))"
      by (simp add: resume_EXEC)
    finally have x: "parseexec s p = bindR (parseredirs s (add_arg c (q, e)) p3) (resume s (EXEC (argv @ [w])))" .
    have "tree s (add_arg c (q, e)) = EXEC (argv @ [w])" by (simp add: tree_add_arg c(1) sp)
    with x p3 show "\<exists>c p'. tree s c = EXEC (argv @ [w]) \<and> at s p' r \<and>
        parseexec s p = bindR (parseredirs s c p') (resume s (EXEC (argv @ [w])))" by metis
  qed
qed

lemma printed_levels:
  "wf_cmd word_ok t \<Longrightarrow>
     exec_open s t \<and> level parsepipe 2 '')&;'' s t \<and> amps_open s t \<and> level parseline 0 '')'' s t"
proof (induction t)
  case (EXEC argv)
  then have "exec_open s (EXEC argv)" by (simp add: exec_open_EXEC)
  moreover from level_2[OF level_3[OF this]] have "level parsepipe 2 '')&;'' s (EXEC argv)" by simp
  moreover from amps_open_pipe[OF this] have "amps_open s (EXEC argv)" by simp
  ultimately show ?case using level_0 by simp
next
  case (REDIR c f m fd)
  then have "exec_open s (REDIR c f m fd)" by (simp add: exec_open_REDIR)
  moreover from level_2[OF level_3[OF this]] have "level parsepipe 2 '')&;'' s (REDIR c f m fd)" by simp
  moreover from amps_open_pipe[OF this] have "amps_open s (REDIR c f m fd)" by simp
  ultimately show ?case using level_0 by simp
next
  case (PIPE l r)
  then have p: "level parsepipe 2 '')&;'' s (PIPE l r)" using level_2_PIPE level_3 by simp
  then have a: "amps_open s (PIPE l r)" using amps_open_pipe by (simp add: paren_def)
  then have l: "level parseline 0 '')'' s (PIPE l r)" using level_0 by (simp add: paren_def)
  then have "exec_open s (PIPE l r)" using exec_open_block by (simp add: paren_def)
  with p a l show ?case by blast
next
  case (LIST l r)
  then have l: "level parseline 0 '')'' s (LIST l r)" using level_0_LIST by simp
  then have e: "exec_open s (LIST l r)" using exec_open_block by (simp add: paren_def)
  then have p: "level parsepipe 2 '')&;'' s (LIST l r)" using level_2 level_3 by (simp add: paren_def)
  then have "amps_open s (LIST l r)" using amps_open_pipe by (simp add: paren_def)
  with p e l show ?case by blast
next
  case (BACK c)
  then have a: "amps_open s (BACK c)" using amps_open_BACK by simp
  then have l: "level parseline 0 '')'' s (BACK c)" using level_0 by (simp add: paren_def)
  then have e: "exec_open s (BACK c)" using exec_open_block by (simp add: paren_def)
  then have "level parsepipe 2 '')&;'' s (BACK c)" using level_2 level_3 by (simp add: paren_def)
  with a e l show ?case by blast
qed

subsection \<open>The round trip\<close>

lemma printed_parseline:
  assumes "wf_cmd word_ok t"
  obtains c p where "parseline (print_cmd 0 t) 0 = Inr (c, p)" and "tree (print_cmd 0 t) c = t"
    and "peek (print_cmd 0 t) p [] = (length (print_cmd 0 t), False)"
proof -
  let ?s = "print_cmd 0 t"
  have "at ?s 0 (print_cmd 0 t @ [])" by (simp add: at_def)
  then obtain c p where c: "parseline ?s 0 = Inr (c, p)" "tree ?s c = t" and p: "at ?s p []"
    using printed_levels[OF assms, of ?s] unfolding level_def by (metis starts_def)
  have "skip_ws ?s p = length ?s"
    using drop_at[OF p] skip_ws_le[of p ?s] p by (simp add: at_def)
  then have "peek ?s p [] = (length ?s, False)" by (simp add: peek_def)
  with c that show thesis by blast
qed

text \<open>
  C34: every command tree that runcmd can execute is written as a line that parses to it. Whatever
  the nesting of pipelines, lists, background commands, parentheses and redirections, the printed
  line followed by its NUL is accepted, and the pointers of the returned tree read, in the buffer as
  nulterminate leaves it, exactly the argument and file names of the command.
\<close>

theorem parsecmd_inverts_print:
  assumes "wf_cmd word_ok t"
  shows "map_sum id strings_of (parsecmd (print_cmd 0 t @ NUL # junk)) = Inr t"
proof -
  let ?s = "print_cmd 0 t" and ?buf = "print_cmd 0 t @ NUL # junk"
  have s: "takeWhile (\<lambda>c. c \<noteq> NUL) ?buf = ?s"
    using print_cmd_no_NUL[OF assms, of 0] by (auto simp: takeWhile_append)
  obtain c p where c: "parseline ?s 0 = Inr (c, p)" "tree ?s c = t" "peek ?s p [] = (length ?s, False)"
    using printed_parseline[OF assms] .
  have "wf_cmd (word_span ?s) c" using parse_wf(1)[of ?s 0] c(1) by simp
  note n = nulterminate_strings[OF this, of ?buf, OF _ print_cmd_no_NUL[OF assms]]
  show ?thesis using c n by (simp add: parsecmd_def s)
qed

theorem parsecmd_inverts_print_witness:
  "let t = LIST (BACK (PIPE (EXEC [''ls'']) (REDIR (LIST (EXEC [''cat'']) (EXEC [''wc''])) ''out'' O_WRONLY_CREATE 1))) (EXEC [''echo'', ''hi'']) in
     wf_cmd word_ok t \<and> print_cmd 0 t = '' ls|( cat; wc) > out&; echo hi'' \<and>
     map_sum id strings_of (parsecmd ('' ls|( cat; wc) > out&; echo hi'' @ [NUL, NUL])) = Inr t"
proof -
  let ?t = "LIST (BACK (PIPE (EXEC [''ls'']) (REDIR (LIST (EXEC [''cat'']) (EXEC [''wc''])) ''out'' O_WRONLY_CREATE 1))) (EXEC [''echo'', ''hi''])"
  have wf: "wf_cmd word_ok ?t"
    by (simp add: word_ok_def is_word_def is_ws_def is_sym_def whitespace_def symbols_def)
  have p: "print_cmd 0 ?t = '' ls|( cat; wc) > out&; echo hi''" by (simp add: paren_def)
  from parsecmd_inverts_print[OF wf, of "[NUL]"] wf p show ?thesis by (simp add: Let_def)
qed

end
