(* ===== verification/File.thy ===== *)
theory File
  imports FsDir Pipe Syscall
begin

text \<open>
  The table of open files (file.c), the two ends of a pipe (pipe.c: pipealloc) and the descriptor
  tables of the processes. A pointer to an open file is its index in the table, one to a pipe the
  address of its page, one to a process its slot. File operations on inodes run inside a log
  transaction, as theory FsLog describes it. Where a call waits for a pipe, its result says so; a
  wait for the lock of an inode is the error \<open>Blocks\<close>.
\<close>

subsection \<open>State\<close>

abbreviation NFILE :: nat where "NFILE \<equiv> 100"
abbreviation NOFILE :: nat where "NOFILE \<equiv> 16"

datatype fd_type = FD_NONE | FD_PIPE | FD_INODE

record ofile =
  f_type :: fd_type
  f_ref :: int
  f_readable :: bool
  f_writable :: bool
  f_pipe :: nat
  f_ip :: nat
  f_off :: u32

text \<open>
  The kernel as these calls see it: the open files, the descriptor table and the current directory
  of every process, the pipes by their pages, the wakeups issued so far, and the file system.
\<close>

record kern =
  ftable :: "ofile list"
  ofiles :: "nat option list list"
  cwds :: "nat list"
  pipes :: "nat \<Rightarrow> pipe option"
  woken :: "(nat \<times> pchan) list"
  kfs :: fsys

type_synonym dev_read = "int \<Rightarrow> (nat \<Rightarrow> u32 \<Rightarrow> fsys \<Rightarrow> (int \<times> u8 list \<times> fsys) res) option"
type_synonym dev_write = "int \<Rightarrow> (nat \<Rightarrow> u8 list \<Rightarrow> u32 \<Rightarrow> fsys \<Rightarrow> (int \<times> fsys) res) option"

definition upd_file :: "nat \<Rightarrow> (ofile \<Rightarrow> ofile) \<Rightarrow> kern \<Rightarrow> kern" where
  "upd_file f g s = s\<lparr>ftable := (ftable s)[f := g (ftable s ! f)]\<rparr>"

definition upd_fs :: "(fsys \<Rightarrow> fsys res) \<Rightarrow> kern \<Rightarrow> kern res" where
  "upd_fs g s = bindR (g (kfs s)) (\<lambda>fs. Inr (s\<lparr>kfs := fs\<rparr>))"

subsection \<open>Open files\<close>

definition filealloc :: "kern \<Rightarrow> (nat \<times> kern) option" where
  "filealloc s =
     (case scan_from (\<lambda>f. f_ref f = 0) 0 (ftable s) of
        None \<Rightarrow> None
      | Some f \<Rightarrow> Some (f, upd_file f (\<lambda>x. x\<lparr>f_ref := 1\<rparr>) s))"

definition filedup :: "nat \<Rightarrow> kern \<Rightarrow> kern res" where
  "filedup f s =
     (if f_ref (ftable s ! f) < 1 then Inl (Panic ''filedup'')
      else Inr (upd_file f (\<lambda>x. x\<lparr>f_ref := f_ref x + 1\<rparr>) s))"

text \<open>pipeclose on the page of a pipe, which is freed when both ends are closed.\<close>

definition close_pipe :: "nat \<Rightarrow> bool \<Rightarrow> kern \<Rightarrow> kern res" where
  "close_pipe pg writable s =
     (case pipes s pg of
        None \<Rightarrow> Inl Bounds
      | Some p \<Rightarrow>
          let (p, wk, freed) = pipeclose p (if writable then 1 else 0)
          in Inr (s\<lparr>pipes := (pipes s)(pg := if freed then None else Some p), woken := woken s @ map (Pair pg) wk\<rparr>))"

definition fileclose :: "int \<Rightarrow> nat \<Rightarrow> kern \<Rightarrow> kern res" where
  "fileclose pid f s =
     (let x = ftable s ! f in
      if f_ref x < 1 then Inl (Panic ''fileclose'')
      else if 0 < f_ref x - 1 then Inr (upd_file f (\<lambda>x. x\<lparr>f_ref := f_ref x - 1\<rparr>) s)
      else
        let s = upd_file f (\<lambda>x. x\<lparr>f_ref := 0, f_type := FD_NONE\<rparr>) s in
        case f_type x of
          FD_PIPE \<Rightarrow> close_pipe (f_pipe x) (f_writable x) s
        | FD_INODE \<Rightarrow> upd_fs (iput pid (f_ip x)) s
        | FD_NONE \<Rightarrow> Inr s)"

definition filestat :: "int \<Rightarrow> nat \<Rightarrow> kern \<Rightarrow> (stat option \<times> kern) res" where
  "filestat pid f s =
     (let x = ftable s ! f in
      if f_type x = FD_INODE then
        bindR (ilock pid (f_ip x) (kfs s)) (\<lambda>fs.
        let st = stati (f_ip x) fs in
        bindR (iunlock pid (f_ip x) fs) (\<lambda>fs. Inr (Some st, s\<lparr>kfs := fs\<rparr>)))
      else Inr (None, s))"

text \<open>The pipe's part of a read or write: the new pipe and the wakeups.\<close>

definition put_pipe :: "nat \<Rightarrow> pipe \<Rightarrow> pchan list \<Rightarrow> kern \<Rightarrow> kern" where
  "put_pipe pg p wk s = s\<lparr>pipes := (pipes s)(pg := Some p), woken := woken s @ map (Pair pg) wk\<rparr>"

definition fileread :: "bool \<Rightarrow> int \<Rightarrow> dev_read \<Rightarrow> nat \<Rightarrow> int \<Rightarrow> kern \<Rightarrow> (pout \<times> u8 list \<times> kern) res" where
  "fileread killed pid devsw f n s =
     (let x = ftable s ! f in
      if \<not> f_readable x then Inr (Returned (-1), [], s)
      else if f_type x = FD_PIPE then
        (case pipes s (f_pipe x) of
           None \<Rightarrow> Inl Bounds
         | Some p \<Rightarrow> let (out, bs, wk, p) = piperead killed n p in Inr (out, bs, put_pipe (f_pipe x) p wk s))
      else if f_type x = FD_INODE then
        bindR (ilock pid (f_ip x) (kfs s)) (\<lambda>fs.
        bindR (readi devsw (f_ip x) (f_off x) (word_of_int n) fs) (\<lambda>(r, bs, fs).
        let s = (if 0 < r then upd_file f (\<lambda>x. x\<lparr>f_off := f_off x + word_of_int r\<rparr>) s else s) in
        bindR (iunlock pid (f_ip x) fs) (\<lambda>fs. Inr (Returned r, bs, s\<lparr>kfs := fs\<rparr>))))
      else Inl (Panic ''fileread''))"

text \<open>
  The loop of filewrite over pieces of at most \<open>max\<close> bytes, each in a transaction of its own, from
  byte i on; \<open>(MAXOPBLOCKS - 1 - 1 - 2) / 2 * 512\<close> is 1536.
\<close>

definition filewrite_max :: int where
  "filewrite_max = ((10 - 1 - 1 - 2) div 2) * 512"

function filewrite_loop :: "int \<Rightarrow> dev_write \<Rightarrow> nat \<Rightarrow> u8 list \<Rightarrow> int \<Rightarrow> int \<Rightarrow> kern \<Rightarrow> (int \<times> kern) res" where
  "filewrite_loop pid devsw f addr n i s =
     (if i < n then
        let n1 = (if n - i > filewrite_max then filewrite_max else n - i);
            ip = f_ip (ftable s ! f)
        in bindR (ilock pid ip (kfs s)) (\<lambda>fs.
           bindR (writei devsw ip (drop (nat i) addr) (f_off (ftable s ! f)) (word_of_int n1) fs) (\<lambda>(r, fs).
           let s = (if 0 < r then upd_file f (\<lambda>x. x\<lparr>f_off := f_off x + word_of_int r\<rparr>) s else s) in
           bindR (iunlock pid ip fs) (\<lambda>fs.
           let s = s\<lparr>kfs := fs\<rparr> in
           if r < 0 then Inr (i, s)
           else if r \<noteq> n1 then Inl (Panic ''short filewrite'')
           else filewrite_loop pid devsw f addr n (i + r) s)))
      else Inr (i, s))"
  by auto

termination
  by (relation "measure (\<lambda>(_, _, _, _, n, i, _). nat (n - i))") (auto simp: filewrite_max_def)

declare filewrite_loop.simps [simp del]

text \<open>A writer of a pipe that slept goes on from byte i; the result carries the byte it has reached.\<close>

definition filewrite :: "bool \<Rightarrow> int \<Rightarrow> dev_write \<Rightarrow> nat \<Rightarrow> u8 list \<Rightarrow> int \<Rightarrow> nat \<Rightarrow> kern \<Rightarrow> (pout \<times> nat \<times> kern) res" where
  "filewrite killed pid devsw f addr n i s =
     (let x = ftable s ! f in
      if \<not> f_writable x then Inr (Returned (-1), 0, s)
      else if f_type x = FD_PIPE then
        (case pipes s (f_pipe x) of
           None \<Rightarrow> Inl Bounds
         | Some p \<Rightarrow> let (out, i, wk, p) = pipewrite killed addr n i p in Inr (out, i, put_pipe (f_pipe x) p wk s))
      else if f_type x = FD_INODE then
        bindR (filewrite_loop pid devsw f addr n 0 s) (\<lambda>(i, s).
          Inr (Returned (if i = n then n else -1), nat i, s))
      else Inl (Panic ''filewrite''))"

subsection \<open>The ends of a pipe\<close>

text \<open>The page is what kalloc returned, with its contents; \<open>None\<close> stands for 0.\<close>

definition cleanuppipealloc :: "int \<Rightarrow> nat option \<Rightarrow> nat option \<Rightarrow> kern \<Rightarrow> kern res" where
  "cleanuppipealloc pid f0 f1 s =
     bindR (case f0 of None \<Rightarrow> Inr s | Some f \<Rightarrow> fileclose pid f s) (\<lambda>s.
       case f1 of None \<Rightarrow> Inr s | Some f \<Rightarrow> fileclose pid f s)"

definition pipealloc :: "int \<Rightarrow> (nat \<times> u8 list) option \<Rightarrow> kern \<Rightarrow> ((nat \<times> nat) option \<times> kern) res" where
  "pipealloc pid page s =
     (case filealloc s of
        None \<Rightarrow> bindR (cleanuppipealloc pid None None s) (\<lambda>s. Inr (None, s))
      | Some (f0, s) \<Rightarrow>
          (case filealloc s of
             None \<Rightarrow> bindR (cleanuppipealloc pid (Some f0) None s) (\<lambda>s. Inr (None, s))
           | Some (f1, s) \<Rightarrow>
               (case page of
                  None \<Rightarrow> bindR (cleanuppipealloc pid (Some f0) (Some f1) s) (\<lambda>s. Inr (None, s))
                | Some (pg, bytes) \<Rightarrow>
                    let s = s\<lparr>pipes := (pipes s)(pg \<mapsto> pipealloc_init bytes)\<rparr>;
                        s = upd_file f0 (\<lambda>x. x\<lparr>f_type := FD_PIPE, f_readable := True, f_writable := False, f_pipe := pg\<rparr>) s;
                        s = upd_file f1 (\<lambda>x. x\<lparr>f_type := FD_PIPE, f_readable := False, f_writable := True, f_pipe := pg\<rparr>) s
                    in Inr (Some (f0, f1), s))))"

subsection \<open>Descriptors\<close>

definition set_ofile :: "nat \<Rightarrow> nat \<Rightarrow> nat option \<Rightarrow> kern \<Rightarrow> kern" where
  "set_ofile p fd v s = s\<lparr>ofiles := (ofiles s)[p := (ofiles s ! p)[fd := v]]\<rparr>"

definition argfd :: "uproc \<Rightarrow> nat \<Rightarrow> nat \<Rightarrow> kern \<Rightarrow> (nat \<times> nat) option" where
  "argfd u p n s =
     (case argint u n of
        None \<Rightarrow> None
      | Some fd \<Rightarrow>
          if fd < 0 \<or> int NOFILE \<le> fd then None
          else map_option (Pair (nat fd)) (ofiles s ! p ! nat fd))"

definition fdalloc :: "nat \<Rightarrow> nat \<Rightarrow> kern \<Rightarrow> (nat \<times> kern) option" where
  "fdalloc p f s =
     (case scan_from (\<lambda>x. x = None) 0 (ofiles s ! p) of
        None \<Rightarrow> None
      | Some fd \<Rightarrow> Some (fd, set_ofile p fd (Some f) s))"

definition sys_dup :: "uproc \<Rightarrow> nat \<Rightarrow> kern \<Rightarrow> (int \<times> kern) res" where
  "sys_dup u p s =
     (case argfd u p 0 s of
        None \<Rightarrow> Inr (-1, s)
      | Some (_, f) \<Rightarrow>
          (case fdalloc p f s of
             None \<Rightarrow> Inr (-1, s)
           | Some (fd, s) \<Rightarrow> bindR (filedup f s) (\<lambda>s. Inr (int fd, s))))"

definition sys_close :: "int \<Rightarrow> uproc \<Rightarrow> nat \<Rightarrow> kern \<Rightarrow> (int \<times> kern) res" where
  "sys_close pid u p s =
     (case argfd u p 0 s of
        None \<Rightarrow> Inr (-1, s)
      | Some (fd, f) \<Rightarrow> bindR (fileclose pid f (set_ofile p fd None s)) (\<lambda>s. Inr (0, s)))"

text \<open>The two descriptors are stored in the user's memory.\<close>

definition sys_pipe :: "int \<Rightarrow> (nat \<times> u8 list) option \<Rightarrow> uproc \<Rightarrow> nat \<Rightarrow> kern \<Rightarrow> (int \<times> uproc \<times> kern) res" where
  "sys_pipe pid page u p s =
     (case argptr u 0 8 of
        None \<Rightarrow> Inr (-1, u, s)
      | Some fd \<Rightarrow>
          bindR (pipealloc pid page s) (\<lambda>(r, s).
            case r of
              None \<Rightarrow> Inr (-1, u, s)
            | Some (rd, wr) \<Rightarrow>
                (case fdalloc p rd s of
                   None \<Rightarrow> bindR (fileclose pid rd s) (\<lambda>s. bindR (fileclose pid wr s) (\<lambda>s. Inr (-1, u, s)))
                 | Some (fd0, s) \<Rightarrow>
                     (case fdalloc p wr s of
                        None \<Rightarrow> bindR (fileclose pid rd (set_ofile p fd0 None s)) (\<lambda>s.
                                 bindR (fileclose pid wr s) (\<lambda>s. Inr (-1, u, s)))
                      | Some (fd1, s) \<Rightarrow>
                          Inr (0, u\<lparr>umem := store_le32 (store_le32 (umem u) fd (of_nat fd0)) (fd + 4) (of_nat fd1)\<rparr>, s)))))"

text \<open>The loops of fork and exit over the descriptors of a process.\<close>

definition fork_files :: "nat \<Rightarrow> nat \<Rightarrow> kern \<Rightarrow> kern res" where
  "fork_files cur np s = forR [0..<NOFILE]
     (\<lambda>i s. case ofiles s ! cur ! i of None \<Rightarrow> Inr s
        | Some f \<Rightarrow> bindR (filedup f s) (\<lambda>s. Inr (set_ofile np i (Some f) s))) s"

definition exit_files :: "int \<Rightarrow> nat \<Rightarrow> kern \<Rightarrow> kern res" where
  "exit_files pid p s = forR [0..<NOFILE]
     (\<lambda>fd s. case ofiles s ! p ! fd of None \<Rightarrow> Inr s
        | Some f \<Rightarrow> bindR (fileclose pid f s) (\<lambda>s. Inr (set_ofile p fd None s))) s"

end
