(* ===== verification/SysFile.thy ===== *)
theory SysFile
  imports File
begin

text \<open>
  The file system calls (sysfile.c) other than the ones on descriptors alone, which are in theory
  File. The file system part of every call runs between begin_op and end_op, that is in one
  transaction; filewrite, and the last close of a file, open their own. Paths are fetched from the
  user's memory; \<open>junk\<close> is what the local name buffers hold before they are written.
\<close>

subsection \<open>Reading and writing\<close>

text \<open>The bytes of a user buffer, and storing bytes there.\<close>

fun store_bytes :: "memory \<Rightarrow> u32 \<Rightarrow> u8 list \<Rightarrow> memory" where
  "store_bytes m a [] = m"
| "store_bytes m a (b # bs) = store_bytes (m(a := b)) (a + 1) bs"

definition sys_read :: "bool \<Rightarrow> int \<Rightarrow> dev_read \<Rightarrow> uproc \<Rightarrow> nat \<Rightarrow> kern \<Rightarrow> (pout \<times> uproc \<times> kern) res" where
  "sys_read killed pid devsw u p s =
     (case argfd u p 0 s of
        None \<Rightarrow> Inr (Returned (-1), u, s)
      | Some (_, f) \<Rightarrow>
          (case argint u 2 of
             None \<Rightarrow> Inr (Returned (-1), u, s)
           | Some n \<Rightarrow>
               (case argptr u 1 n of
                  None \<Rightarrow> Inr (Returned (-1), u, s)
                | Some a \<Rightarrow>
                    bindR (fileread killed pid devsw f n s) (\<lambda>(r, bs, s).
                      Inr (r, u\<lparr>umem := store_bytes (umem u) a bs\<rparr>, s)))))"

definition sys_write :: "bool \<Rightarrow> int \<Rightarrow> dev_write \<Rightarrow> uproc \<Rightarrow> nat \<Rightarrow> nat \<Rightarrow> kern \<Rightarrow> (pout \<times> nat \<times> kern) res" where
  "sys_write killed pid devsw u p i s =
     (case argfd u p 0 s of
        None \<Rightarrow> Inr (Returned (-1), 0, s)
      | Some (_, f) \<Rightarrow>
          (case argint u 2 of
             None \<Rightarrow> Inr (Returned (-1), 0, s)
           | Some n \<Rightarrow>
               (case argptr u 1 n of
                  None \<Rightarrow> Inr (Returned (-1), 0, s)
                | Some a \<Rightarrow> filewrite killed pid devsw f (bytes_at (umem u) a (nat n)) n i s)))"

text \<open>The fields of struct stat; the two bytes after each short are padding and stay as they are.\<close>

definition store_le16 :: "memory \<Rightarrow> u32 \<Rightarrow> u16 \<Rightarrow> memory" where
  "store_le16 m a w = m(a := ucast w, a + 1 := ucast (drop_bit 8 w))"

definition store_stat :: "memory \<Rightarrow> u32 \<Rightarrow> stat \<Rightarrow> memory" where
  "store_stat m a st =
     store_le32 (store_le16 (store_le32 (store_le32 (store_le16 m a (word_of_int (st_type st)))
       (a + 4) (word_of_int (st_dev st))) (a + 8) (st_ino st)) (a + 12) (word_of_int (st_nlink st))) (a + 16) (st_size st)"

definition sys_fstat :: "int \<Rightarrow> uproc \<Rightarrow> nat \<Rightarrow> kern \<Rightarrow> (int \<times> uproc \<times> kern) res" where
  "sys_fstat pid u p s =
     (case argfd u p 0 s of
        None \<Rightarrow> Inr (-1, u, s)
      | Some (_, f) \<Rightarrow>
          (case argptr u 1 20 of
             None \<Rightarrow> Inr (-1, u, s)
           | Some a \<Rightarrow>
               bindR (filestat pid f s) (\<lambda>(r, s).
                 case r of None \<Rightarrow> Inr (-1, u, s)
                 | Some st \<Rightarrow> Inr (0, u\<lparr>umem := store_stat (umem u) a st\<rparr>, s))))"

subsection \<open>Links\<close>

definition fetch_path :: "uproc \<Rightarrow> nat \<Rightarrow> u8 list option" where
  "fetch_path u n = map_option (\<lambda>(a, len). bytes_at (umem u) a (nat len)) (argstr u n)"

definition add_nlink :: "int \<Rightarrow> nat \<Rightarrow> fsys \<Rightarrow> fsys" where
  "add_nlink d i s = iupdate i (upd_inode i (\<lambda>ip. ip\<lparr>i_nlink := sint (word_of_int (i_nlink ip + d) :: u16)\<rparr>) s)"

definition cleanupsyslink :: "int \<Rightarrow> nat \<Rightarrow> fsys \<Rightarrow> fsys res" where
  "cleanupsyslink pid i s = bindR (ilock pid i s) (\<lambda>s. iunlockput pid i (add_nlink (-1) i s))"

text \<open>There is one device, so that the two inodes are always on the same one.\<close>

definition link_fs :: "int \<Rightarrow> nat \<Rightarrow> u8 list \<Rightarrow> u8 list \<Rightarrow> u8 list \<Rightarrow> fsys \<Rightarrow> (int \<times> fsys) res" where
  "link_fs pid cwd junk old new s =
     bindR (namei pid cwd junk old s) (\<lambda>(r, s).
       case r of
         None \<Rightarrow> Inr (-1, s)
       | Some ip \<Rightarrow>
           bindR (ilock pid ip s) (\<lambda>s.
             if i_type (icache s ! ip) = T_DIR then bindR (iunlockput pid ip s) (\<lambda>s. Inr (-1, s))
             else
               bindR (iunlock pid ip (add_nlink 1 ip s)) (\<lambda>s.
               bindR (nameiparent pid cwd new junk s) (\<lambda>(r, name, s).
                 case r of
                   None \<Rightarrow> bindR (cleanupsyslink pid ip s) (\<lambda>s. Inr (-1, s))
                 | Some dp \<Rightarrow>
                     bindR (ilock pid dp s) (\<lambda>s.
                     bindR (dirlink pid dp name (i_inum (icache s ! ip)) s) (\<lambda>(r, s).
                       if r < 0 then
                         bindR (iunlockput pid dp s) (\<lambda>s. bindR (cleanupsyslink pid ip s) (\<lambda>s. Inr (-1, s)))
                       else
                         bindR (iunlockput pid dp s) (\<lambda>s. bindR (iput pid ip s) (\<lambda>s. Inr (0, s)))))))))"

definition sys_link :: "int \<Rightarrow> u8 list \<Rightarrow> uproc \<Rightarrow> nat \<Rightarrow> kern \<Rightarrow> (int \<times> kern) res" where
  "sys_link pid junk u p s =
     (case (fetch_path u 0, fetch_path u 1) of
        (Some old, Some new) \<Rightarrow> bindR (link_fs pid (cwds s ! p) junk old new (kfs s)) (\<lambda>(r, fs). Inr (r, s\<lparr>kfs := fs\<rparr>))
      | _ \<Rightarrow> Inr (-1, s))"

text \<open>The entries after the first two must be free.\<close>

function isdirempty_loop :: "nat \<Rightarrow> nat \<Rightarrow> fsys \<Rightarrow> (bool \<times> fsys) res" where
  "isdirempty_loop i off s =
     (if off < unat (i_size (icache s ! i)) then
        bindR (readi (\<lambda>_. None) i (of_nat off) 16 s) (\<lambda>(r, de, s).
          if r \<noteq> 16 then Inl (Panic ''isdirempty: readi'')
          else if de_inum de \<noteq> 0 then Inr (False, s)
          else isdirempty_loop i (off + 16) s)
      else Inr (True, s))"
  by auto

termination
  by (relation "measure (\<lambda>(i, off, s). unat (i_size (icache s ! i)) - off)") (auto dest!: readi_size)

declare isdirempty_loop.simps [simp del]

definition isdirempty :: "nat \<Rightarrow> fsys \<Rightarrow> (bool \<times> fsys) res" where
  "isdirempty i s = isdirempty_loop i 32 s"

definition dot :: "u8 list" where "dot = [46]"

definition dotdot :: "u8 list" where "dotdot = [46, 46]"

definition unlink_fs :: "int \<Rightarrow> nat \<Rightarrow> u8 list \<Rightarrow> u8 list \<Rightarrow> fsys \<Rightarrow> (int \<times> fsys) res" where
  "unlink_fs pid cwd junk path s =
     bindR (nameiparent pid cwd path junk s) (\<lambda>(r, name, s).
       case r of
         None \<Rightarrow> Inr (-1, s)
       | Some dp \<Rightarrow>
           bindR (ilock pid dp s) (\<lambda>s.
             if namecmp name dot = 0 \<or> namecmp name dotdot = 0 then bindR (iunlockput pid dp s) (\<lambda>s. Inr (-1, s))
             else
               bindR (dirlookup dp name s) (\<lambda>(r, s).
                 case r of
                   None \<Rightarrow> bindR (iunlockput pid dp s) (\<lambda>s. Inr (-1, s))
                 | Some (ip, off) \<Rightarrow>
                     bindR (ilock pid ip s) (\<lambda>s.
                       if i_nlink (icache s ! ip) < 1 then Inl (Panic ''unlink: nlink < 1'')
                       else
                         bindR (if i_type (icache s ! ip) = T_DIR then isdirempty ip s else Inr (True, s)) (\<lambda>(empty, s).
                           if \<not> empty then
                             bindR (iunlockput pid ip s) (\<lambda>s. bindR (iunlockput pid dp s) (\<lambda>s. Inr (-1, s)))
                           else
                             bindR (writei (\<lambda>_. None) dp (replicate 16 0) (of_nat off) 16 s) (\<lambda>(r, s).
                               if r \<noteq> 16 then Inl (Panic ''unlink: writei'')
                               else
                                 let s = (if i_type (icache s ! ip) = T_DIR then add_nlink (-1) dp s else s) in
                                 bindR (iunlockput pid dp s) (\<lambda>s.
                                 bindR (iunlockput pid ip (add_nlink (-1) ip s)) (\<lambda>s. Inr (0, s)))))))))"

definition sys_unlink :: "int \<Rightarrow> u8 list \<Rightarrow> uproc \<Rightarrow> nat \<Rightarrow> kern \<Rightarrow> (int \<times> kern) res" where
  "sys_unlink pid junk u p s =
     (case fetch_path u 0 of
        None \<Rightarrow> Inr (-1, s)
      | Some path \<Rightarrow> bindR (unlink_fs pid (cwds s ! p) junk path (kfs s)) (\<lambda>(r, fs). Inr (r, s\<lparr>kfs := fs\<rparr>)))"

subsection \<open>Creating and opening\<close>

text \<open>The inode is returned locked.\<close>

definition create :: "int \<Rightarrow> nat \<Rightarrow> u8 list \<Rightarrow> u8 list \<Rightarrow> int \<Rightarrow> int \<Rightarrow> int \<Rightarrow> fsys \<Rightarrow> (nat option \<times> fsys) res" where
  "create pid cwd junk path type major minor s =
     bindR (nameiparent pid cwd path junk s) (\<lambda>(r, name, s).
       case r of
         None \<Rightarrow> Inr (None, s)
       | Some dp \<Rightarrow>
           bindR (ilock pid dp s) (\<lambda>s.
           bindR (dirlookup dp name s) (\<lambda>(r, s).
             case r of
               Some (ip, _) \<Rightarrow>
                 bindR (iunlockput pid dp s) (\<lambda>s.
                 bindR (ilock pid ip s) (\<lambda>s.
                   if type = T_FILE \<and> i_type (icache s ! ip) = T_FILE then Inr (Some ip, s)
                   else bindR (iunlockput pid ip s) (\<lambda>s. Inr (None, s))))
             | None \<Rightarrow>
                 bindR (ialloc type s) (\<lambda>(ip, s).
                 bindR (ilock pid ip s) (\<lambda>s.
                   let s = iupdate ip (upd_inode ip (\<lambda>x. x\<lparr>i_major := major, i_minor := minor, i_nlink := 1\<rparr>) s) in
                   bindR (if type = T_DIR then
                            let s = add_nlink 1 dp s in
                            bindR (dirlink pid ip dot (i_inum (icache s ! ip)) s) (\<lambda>(r, s).
                              if r < 0 then Inl (Panic ''create dots'')
                              else bindR (dirlink pid ip dotdot (i_inum (icache s ! dp)) s) (\<lambda>(r, s).
                                if r < 0 then Inl (Panic ''create dots'') else Inr s))
                          else Inr s) (\<lambda>s.
                   bindR (dirlink pid dp name (i_inum (icache s ! ip)) s) (\<lambda>(r, s).
                     if r < 0 then Inl (Panic ''create: dirlink'')
                     else bindR (iunlockput pid dp s) (\<lambda>s. Inr (Some ip, s)))))))))"

text \<open>The inode that open works on, locked.\<close>

definition open_inode :: "int \<Rightarrow> nat \<Rightarrow> u8 list \<Rightarrow> u8 list \<Rightarrow> u32 \<Rightarrow> fsys \<Rightarrow> (nat option \<times> fsys) res" where
  "open_inode pid cwd junk path omode s =
     (if omode AND 0x200 \<noteq> 0 then create pid cwd junk path T_FILE 0 0 s
      else
        bindR (namei pid cwd junk path s) (\<lambda>(r, s).
          case r of
            None \<Rightarrow> Inr (None, s)
          | Some ip \<Rightarrow>
              bindR (ilock pid ip s) (\<lambda>s.
                if i_type (icache s ! ip) = T_DIR \<and> omode \<noteq> 0
                then bindR (iunlockput pid ip s) (\<lambda>s. Inr (None, s))
                else Inr (Some ip, s))))"

definition sys_open :: "int \<Rightarrow> u8 list \<Rightarrow> uproc \<Rightarrow> nat \<Rightarrow> kern \<Rightarrow> (int \<times> kern) res" where
  "sys_open pid junk u p s =
     (case (fetch_path u 0, argint u 1) of
        (Some path, Some om) \<Rightarrow>
          let omode = (word_of_int om :: u32) in
          bindR (open_inode pid (cwds s ! p) junk path omode (kfs s)) (\<lambda>(r, fs).
            let s = s\<lparr>kfs := fs\<rparr> in
            case r of
              None \<Rightarrow> Inr (-1, s)
            | Some ip \<Rightarrow>
                (case filealloc s of
                   None \<Rightarrow> bindR (upd_fs (iunlockput pid ip) s) (\<lambda>s. Inr (-1, s))
                 | Some (f, s) \<Rightarrow>
                     (case fdalloc p f s of
                        None \<Rightarrow> bindR (fileclose pid f s) (\<lambda>s. bindR (upd_fs (iunlockput pid ip) s) (\<lambda>s. Inr (-1, s)))
                      | Some (fd, s) \<Rightarrow>
                          bindR (upd_fs (iunlock pid ip) s) (\<lambda>s.
                            Inr (int fd, upd_file f (\<lambda>x. x\<lparr>f_type := FD_INODE, f_ip := ip, f_off := 0,
                                   f_readable := (omode AND 1 = 0), f_writable := (omode AND 1 \<noteq> 0 \<or> omode AND 2 \<noteq> 0)\<rparr>) s)))))
      | _ \<Rightarrow> Inr (-1, s))"

definition make_node :: "int \<Rightarrow> nat \<Rightarrow> u8 list \<Rightarrow> u8 list \<Rightarrow> int \<Rightarrow> int \<Rightarrow> int \<Rightarrow> kern \<Rightarrow> (int \<times> kern) res" where
  "make_node pid p junk path type major minor s =
     bindR (create pid (cwds s ! p) junk path type major minor (kfs s)) (\<lambda>(r, fs).
       case r of
         None \<Rightarrow> Inr (-1, s\<lparr>kfs := fs\<rparr>)
       | Some ip \<Rightarrow> bindR (iunlockput pid ip fs) (\<lambda>fs. Inr (0, s\<lparr>kfs := fs\<rparr>)))"

definition sys_mkdir :: "int \<Rightarrow> u8 list \<Rightarrow> uproc \<Rightarrow> nat \<Rightarrow> kern \<Rightarrow> (int \<times> kern) res" where
  "sys_mkdir pid junk u p s =
     (case fetch_path u 0 of
        None \<Rightarrow> Inr (-1, s)
      | Some path \<Rightarrow> make_node pid p junk path T_DIR 0 0 s)"

text \<open>The device numbers are passed as shorts.\<close>

definition sys_mknod :: "int \<Rightarrow> u8 list \<Rightarrow> uproc \<Rightarrow> nat \<Rightarrow> kern \<Rightarrow> (int \<times> kern) res" where
  "sys_mknod pid junk u p s =
     (case (fetch_path u 0, argint u 1, argint u 2) of
        (Some path, Some major, Some minor) \<Rightarrow>
          make_node pid p junk path T_DEV (sint (word_of_int major :: u16)) (sint (word_of_int minor :: u16)) s
      | _ \<Rightarrow> Inr (-1, s))"

definition sys_chdir :: "int \<Rightarrow> u8 list \<Rightarrow> uproc \<Rightarrow> nat \<Rightarrow> kern \<Rightarrow> (int \<times> kern) res" where
  "sys_chdir pid junk u p s =
     (case fetch_path u 0 of
        None \<Rightarrow> Inr (-1, s)
      | Some path \<Rightarrow>
          bindR (namei pid (cwds s ! p) junk path (kfs s)) (\<lambda>(r, fs).
            case r of
              None \<Rightarrow> Inr (-1, s\<lparr>kfs := fs\<rparr>)
            | Some ip \<Rightarrow>
                bindR (ilock pid ip fs) (\<lambda>fs.
                  if i_type (icache fs ! ip) \<noteq> T_DIR then bindR (iunlockput pid ip fs) (\<lambda>fs. Inr (-1, s\<lparr>kfs := fs\<rparr>))
                  else
                    bindR (iunlock pid ip fs) (\<lambda>fs.
                    bindR (iput pid (cwds s ! p) fs) (\<lambda>fs.
                      Inr (0, s\<lparr>kfs := fs, cwds := (cwds s)[p := ip]\<rparr>))))))"

end
