(* ===== verification/FileInv.thy ===== *)
theory FileInv
  imports SysFile
begin

text \<open>
  The invariant of the open file table (file.c, pipe.c, sysfile.c): reference counts are the numbers
  of descriptors, and the ends of a pipe are open as long as a descriptor refers to them. It is
  stated with the references that a call in progress holds, so that every routine can be treated
  on its own.
\<close>

subsection \<open>Counting descriptors\<close>

lemma count_list_update:
  "i < length xs \<Longrightarrow> count_list (xs[i := v]) y + of_bool (xs ! i = y) = count_list xs y + of_bool (v = y)"
proof (induction xs arbitrary: i)
  case (Cons x xs)
  show ?case
  proof (cases i)
    case (Suc j)
    then show ?thesis using Cons.IH[of j] Cons.prems by simp
  qed simp
qed simp

lemma sum_list_map_update:
  fixes g :: "'a \<Rightarrow> nat"
  shows "i < length xs \<Longrightarrow> sum_list (map g (xs[i := v])) + g (xs ! i) = sum_list (map g xs) + g v"
proof (induction xs arbitrary: i)
  case (Cons x xs)
  show ?case
  proof (cases i)
    case (Suc j)
    then show ?thesis using Cons.IH[of j] Cons.prems by simp
  qed simp
qed simp

definition refs :: "kern \<Rightarrow> nat \<Rightarrow> nat" where
  "refs s f = sum_list (map (\<lambda>t. count_list t (Some f)) (ofiles s))"

lemma refs_set_ofile:
  assumes "p < length (ofiles s)" and "fd < length (ofiles s ! p)"
  shows "refs (set_ofile p fd v s) f + of_bool (ofiles s ! p ! fd = Some f) = refs s f + of_bool (v = Some f)"
  using sum_list_map_update[OF assms(1), of "\<lambda>t. count_list t (Some f)" "(ofiles s ! p)[fd := v]"]
    count_list_update[OF assms(2), of v "Some f"]
  by (simp add: refs_def set_ofile_def)

lemma refs_pos_iff: "0 < refs s f \<longleftrightarrow> (\<exists>p < length (ofiles s). \<exists>fd < length (ofiles s ! p). ofiles s ! p ! fd = Some f)"
proof -
  have "0 < refs s f \<longleftrightarrow> (\<exists>t \<in> set (ofiles s). 0 < count_list t (Some f))"
    by (simp add: refs_def sum_list_eq_0_iff flip: neq0_conv)
  also have "\<dots> \<longleftrightarrow> (\<exists>t \<in> set (ofiles s). Some f \<in> set t)" by (metis count_list_0_iff neq0_conv)
  finally show ?thesis by (metis in_set_conv_nth)
qed

subsection \<open>The invariant\<close>

text \<open>The files that are the given end of a pipe.\<close>

definition pipe_ends :: "kern \<Rightarrow> nat \<Rightarrow> bool \<Rightarrow> nat set" where
  "pipe_ends s pg w = {f. f < NFILE \<and> f_type (ftable s ! f) = FD_PIPE \<and> f_pipe (ftable s ! f) = pg \<and> f_writable (ftable s ! f) = w}"

definition end_open :: "kern \<Rightarrow> nat \<Rightarrow> bool \<Rightarrow> bool" where
  "end_open s pg w \<longleftrightarrow> (case pipes s pg of None \<Rightarrow> False | Some p \<Rightarrow> (if w then writeopen p else readopen p) \<noteq> 0)"

text \<open>
  E f is the number of references to f that the running call holds; the files of X are allocated
  and not yet given a type.
\<close>

definition tables_ok :: "kern \<Rightarrow> bool" where
  "tables_ok s \<longleftrightarrow> length (ftable s) = NFILE \<and> list_all (\<lambda>t. length t = NOFILE) (ofiles s)"

definition counts_ok :: "(nat \<Rightarrow> nat) \<Rightarrow> kern \<Rightarrow> bool" where
  "counts_ok E s \<longleftrightarrow> (\<forall>f. if f < NFILE then f_ref (ftable s ! f) = int (refs s f + E f) else refs s f + E f = 0)"

definition types_ok :: "nat set \<Rightarrow> kern \<Rightarrow> bool" where
  "types_ok X s \<longleftrightarrow> (\<forall>f < NFILE. (f_ref (ftable s ! f) = 0 \<longrightarrow> f_type (ftable s ! f) = FD_NONE) \<and>
     (f_ref (ftable s ! f) \<noteq> 0 \<longrightarrow> (f_type (ftable s ! f) = FD_NONE \<longleftrightarrow> f \<in> X)) \<and>
     (f_type (ftable s ! f) = FD_PIPE \<longrightarrow> f_readable (ftable s ! f) = (\<not> f_writable (ftable s ! f))))"

definition pipes_ok :: "kern \<Rightarrow> bool" where
  "pipes_ok s \<longleftrightarrow> (\<forall>pg w. (\<exists>f. pipe_ends s pg w = (if end_open s pg w then {f} else {}))) \<and>
     (\<forall>pg. pipes s pg \<noteq> None \<longrightarrow> end_open s pg True \<or> end_open s pg False)"

definition finv :: "(nat \<Rightarrow> nat) \<Rightarrow> nat set \<Rightarrow> kern \<Rightarrow> bool" where
  "finv E X s \<longleftrightarrow> tables_ok s \<and> counts_ok E s \<and> types_ok X s \<and> pipes_ok s"

abbreviation file_inv :: "kern \<Rightarrow> bool" where
  "file_inv \<equiv> finv (\<lambda>_. 0) {}"

lemmas finv_defs = finv_def tables_ok_def counts_ok_def types_ok_def pipes_ok_def

lemma finv_cong:
  assumes "ftable s' = ftable s" and "ofiles s' = ofiles s" and "pipes s' = pipes s"
  shows "finv E X s' = finv E X s"
proof -
  have "refs s' = refs s" "pipe_ends s' = pipe_ends s" "end_open s' = end_open s"
    using assms by (auto simp: refs_def pipe_ends_def end_open_def fun_eq_iff)
  with assms show ?thesis by (simp add: finv_defs)
qed

lemma upd_file_simps [simp]:
  "ofiles (upd_file f g s) = ofiles s" "pipes (upd_file f g s) = pipes s" "kfs (upd_file f g s) = kfs s" "cwds (upd_file f g s) = cwds s"
  "length (ftable (upd_file f g s)) = length (ftable s)"
  "ftable (upd_file f g s) ! h = (if h = f \<and> f < length (ftable s) then g (ftable s ! f) else ftable s ! h)"
  by (auto simp: upd_file_def nth_list_update list_update_beyond)

lemma set_ofile_simps [simp]:
  "ftable (set_ofile p fd v s) = ftable s" "pipes (set_ofile p fd v s) = pipes s" "kfs (set_ofile p fd v s) = kfs s"
  "length (ofiles (set_ofile p fd v s)) = length (ofiles s)" "cwds (set_ofile p fd v s) = cwds s"
  by (simp_all add: set_ofile_def)

lemma refs_upd_file [simp]: "refs (upd_file f g s) h = refs s h"
  by (simp add: refs_def)

lemma end_open_upd_file [simp]: "end_open (upd_file f g s) pg w = end_open s pg w"
  by (simp add: end_open_def)

lemma finvD:
  assumes "finv E X s"
  shows "length (ftable s) = NFILE" and "t \<in> set (ofiles s) \<Longrightarrow> length t = NOFILE"
    and "f < NFILE \<Longrightarrow> f_ref (ftable s ! f) = int (refs s f + E f)" and "0 < refs s f + E f \<Longrightarrow> f < NFILE"
    and "f < NFILE \<Longrightarrow> f_ref (ftable s ! f) = 0 \<Longrightarrow> f_type (ftable s ! f) = FD_NONE"
    and "f < NFILE \<Longrightarrow> f_ref (ftable s ! f) \<noteq> 0 \<Longrightarrow> f_type (ftable s ! f) = FD_NONE \<longleftrightarrow> f \<in> X"
    and "f < NFILE \<Longrightarrow> f_type (ftable s ! f) = FD_PIPE \<Longrightarrow> f_readable (ftable s ! f) = (\<not> f_writable (ftable s ! f))"
    and "f \<in> pipe_ends s pg w \<Longrightarrow> end_open s pg w \<and> pipe_ends s pg w = {f}"
    and "pipes s pg \<noteq> None \<Longrightarrow> end_open s pg True \<or> end_open s pg False"
    and "end_open s pg w \<Longrightarrow> \<exists>f. pipe_ends s pg w = {f}"
proof -
  have a: "tables_ok s" "counts_ok E s" "types_ok X s" "pipes_ok s" using assms by (simp_all add: finv_def)
  show "length (ftable s) = NFILE" and "t \<in> set (ofiles s) \<Longrightarrow> length t = NOFILE"
    using a(1) by (auto simp: tables_ok_def list_all_iff)
  show "f < NFILE \<Longrightarrow> f_ref (ftable s ! f) = int (refs s f + E f)" and "0 < refs s f + E f \<Longrightarrow> f < NFILE"
    using a(2) by (auto simp: counts_ok_def split: if_splits)
  show "f < NFILE \<Longrightarrow> f_ref (ftable s ! f) = 0 \<Longrightarrow> f_type (ftable s ! f) = FD_NONE"
    and "f < NFILE \<Longrightarrow> f_ref (ftable s ! f) \<noteq> 0 \<Longrightarrow> f_type (ftable s ! f) = FD_NONE \<longleftrightarrow> f \<in> X"
    and "f < NFILE \<Longrightarrow> f_type (ftable s ! f) = FD_PIPE \<Longrightarrow> f_readable (ftable s ! f) = (\<not> f_writable (ftable s ! f))"
    using a(3) by (simp_all add: types_ok_def)
  show "f \<in> pipe_ends s pg w \<Longrightarrow> end_open s pg w \<and> pipe_ends s pg w = {f}"
    using a(4) unfolding pipes_ok_def by (metis empty_iff singletonD)
  show "pipes s pg \<noteq> None \<Longrightarrow> end_open s pg True \<or> end_open s pg False"
    using a(4) unfolding pipes_ok_def by blast
  show "end_open s pg w \<Longrightarrow> \<exists>f. pipe_ends s pg w = {f}"
    using a(4) unfolding pipes_ok_def by metis
qed

subsection \<open>The routines on open files\<close>

lemma filealloc_finv:
  assumes inv: "finv E X s" and a: "filealloc s = Some (f, s')"
  shows "f < NFILE" and "refs s f = 0" and "E f = 0" and "ofiles s' = ofiles s" and "kfs s' = kfs s" and "pipes s' = pipes s"
    and "f_type (ftable s' ! f) = FD_NONE" and "finv (E(f := 1)) (insert f X) s'"
proof -
  from a have sc: "scan_from (\<lambda>f. f_ref f = 0) 0 (ftable s) = Some f" and s': "s' = upd_file f (\<lambda>x. x\<lparr>f_ref := 1\<rparr>) s"
    by (auto simp: filealloc_def split: option.splits)
  from sc have f: "f < NFILE" "f_ref (ftable s ! f) = 0" using finvD(1)[OF inv] by (simp_all add: scan_0_Some)
  show "f < NFILE" "ofiles s' = ofiles s" "kfs s' = kfs s" "pipes s' = pipes s" using f s' by simp_all
  show z: "refs s f = 0" "E f = 0" using finvD(3)[OF inv f(1)] f(2) by simp_all
  have ty: "f_type (ftable s ! f) = FD_NONE" using finvD(5)[OF inv f] .
  show "f_type (ftable s' ! f) = FD_NONE" unfolding s' using ty by simp
  have pe: "pipe_ends s' = pipe_ends s" unfolding s' by (auto simp: pipe_ends_def fun_eq_iff)
  have "tables_ok s'" "pipes_ok s'" using inv pe unfolding s' by (simp_all add: finv_def tables_ok_def pipes_ok_def)
  moreover have "counts_ok (E(f := 1)) s'"
    using inv f z finvD(1)[OF inv] unfolding s' by (simp add: finv_def counts_ok_def)
  moreover have "types_ok (insert f X) s'"
    using inv f ty finvD(1)[OF inv] unfolding s' by (simp add: finv_def types_ok_def)
  ultimately show "finv (E(f := 1)) (insert f X) s'" by (simp add: finv_def)
qed

lemma filedup_finv:
  assumes inv: "finv E X s" and f: "0 < refs s f + E f"
  obtains s' where "filedup f s = Inr s'" and "ofiles s' = ofiles s" and "finv (E(f := E f + 1)) X s'"
proof -
  have lt: "f < NFILE" using finvD(4)[OF inv f] .
  have r: "\<not> f_ref (ftable s ! f) < 1" using finvD(3)[OF inv lt] f by linarith
  let ?s = "upd_file f (\<lambda>x. x\<lparr>f_ref := f_ref x + 1\<rparr>) s"
  have "pipe_ends ?s = pipe_ends s" by (auto simp: pipe_ends_def fun_eq_iff)
  then have "tables_ok ?s" "pipes_ok ?s" using inv by (simp_all add: finv_def tables_ok_def pipes_ok_def)
  moreover have "counts_ok (E(f := E f + 1)) ?s"
    using inv lt finvD(1)[OF inv] by (simp add: finv_def counts_ok_def)
  moreover have "types_ok X ?s"
    using inv lt r finvD(1)[OF inv] by (simp add: finv_def types_ok_def)
  ultimately have "finv (E(f := E f + 1)) X ?s" by (simp add: finv_def)
  with r that show thesis by (simp add: filedup_def)
qed

text \<open>Giving up a reference that is not the last one, or the last one to a file of no type or to an inode.\<close>

lemma finv_unref:
  assumes inv: "finv E X s" and E: "0 < E f"
    and g: "g = (\<lambda>x. if f_ref x = 1 then x\<lparr>f_ref := 0, f_type := FD_NONE\<rparr> else x\<lparr>f_ref := f_ref x - 1\<rparr>)"
    and np: "f_ref (ftable s ! f) = 1 \<Longrightarrow> f_type (ftable s ! f) \<noteq> FD_PIPE"
  shows "finv (E(f := E f - 1)) X (upd_file f g s)"
proof -
  let ?s = "upd_file f g s"
  have lt: "f < NFILE" using finvD(4)[OF inv, of f] E by simp
  note l = finvD(1)[OF inv]
  have ty: "f_type (ftable ?s ! h) = FD_PIPE \<longleftrightarrow> f_type (ftable s ! h) = FD_PIPE" for h
    using np lt l by (auto simp: g)
  have "f_pipe (ftable ?s ! h) = f_pipe (ftable s ! h)" "f_writable (ftable ?s ! h) = f_writable (ftable s ! h)" for h
    by (simp_all add: g)
  with ty have "pipe_ends ?s = pipe_ends s" by (auto simp: pipe_ends_def fun_eq_iff simp del: upd_file_simps)
  then have "tables_ok ?s" "pipes_ok ?s" using inv by (simp_all add: finv_def tables_ok_def pipes_ok_def)
  moreover have "counts_ok (E(f := E f - 1)) ?s"
  proof -
    have "f_ref (ftable s ! f) = int (refs s f + E f)" using finvD(3)[OF inv lt] .
    then have "f_ref (g (ftable s ! f)) = int (refs s f + (E f - 1))" using E by (auto simp: g)
    then show ?thesis using inv lt l by (simp add: finv_def counts_ok_def)
  qed
  moreover have "f_ref (ftable s ! f) \<noteq> 0" using finvD(3)[OF inv lt] E by linarith
  then have "types_ok X ?s" using inv lt l by (auto simp: finv_def types_ok_def g)
  ultimately show ?thesis by (simp add: finv_def)
qed

text \<open>Giving up the last reference to an end of a pipe.\<close>

lemma finv_close_pipe:
  assumes inv: "finv E X s" and E: "0 < E f" and x: "f_ref (ftable s ! f) = 1" "f_type (ftable s ! f) = FD_PIPE"
  defines "pg \<equiv> f_pipe (ftable s ! f)" and "w \<equiv> f_writable (ftable s ! f)"
  obtains s' where "close_pipe pg w (upd_file f (\<lambda>x. x\<lparr>f_ref := 0, f_type := FD_NONE\<rparr>) s) = Inr s'"
    and "ofiles s' = ofiles s" and "finv (E(f := E f - 1)) X s'"
proof -
  let ?t = "upd_file f (\<lambda>x. x\<lparr>f_ref := 0, f_type := FD_NONE\<rparr>) s"
  have lt: "f < NFILE" using finvD(4)[OF inv, of f] E by simp
  note l = finvD(1)[OF inv]
  have fin: "f \<in> pipe_ends s pg w" using lt x by (simp add: pipe_ends_def pg_def w_def)
  have op: "end_open s pg w" and me: "pipe_ends s pg w = {f}" using finvD(8)[OF inv fin] by simp_all
  obtain p where p: "pipes s pg = Some p" using op by (auto simp: end_open_def split: option.splits)
  obtain p' wk freed where pc: "pipeclose p (if w then 1 else 0) = (p', wk, freed)" by (rule prod_cases3)
  define s' where "s' = ?t\<lparr>pipes := (pipes ?t)(pg := if freed then None else Some p'), woken := woken ?t @ map (Pair pg) wk\<rparr>"
  have cl: "close_pipe pg w ?t = Inr s'" using p pc by (simp add: close_pipe_def s'_def)
  have p': "readopen p' = (if w then readopen p else 0)" "writeopen p' = (if w then 0 else writeopen p)"
    "freed \<longleftrightarrow> readopen p' = 0 \<and> writeopen p' = 0"
    using pc by (auto simp: pipeclose_def Let_def split: if_splits)
  have f': "ftable s' = ftable ?t" "ofiles s' = ofiles s" by (simp_all add: s'_def)
  have eo: "end_open s' pg' w' \<longleftrightarrow> end_open s pg' w' \<and> \<not> (pg' = pg \<and> w' = w)" for pg' w'
    using p p' by (auto simp: end_open_def s'_def)
  have pe: "pipe_ends s' pg' w' = pipe_ends s pg' w' - {f}" for pg' w'
    using lt l by (auto simp: pipe_ends_def f')
  have fo: "f \<notin> pipe_ends s pg' w'" if "\<not> (pg' = pg \<and> w' = w)" for pg' w'
    using that by (auto simp: pipe_ends_def pg_def w_def)
  have "pipes_ok s'"
  proof -
    have "\<exists>h. pipe_ends s' pg' w' = (if end_open s' pg' w' then {h} else {})" for pg' w'
    proof (cases "pg' = pg \<and> w' = w")
      case True
      then show ?thesis using me by (simp add: eo pe)
    next
      case False
      then have "pipe_ends s' pg' w' = pipe_ends s pg' w'" "end_open s' pg' w' = end_open s pg' w'"
        using fo[OF False] by (auto simp: eo pe)
      then show ?thesis using inv by (simp add: finv_def pipes_ok_def)
    qed
    moreover have "end_open s' pg' True \<or> end_open s' pg' False" if "pipes s' pg' \<noteq> None" for pg'
    proof (cases "pg' = pg")
      case True
      then show ?thesis using that p p' by (auto simp: s'_def end_open_def split: if_splits)
    next
      case False
      then show ?thesis using finvD(9)[OF inv, of pg'] that by (simp add: eo) (simp add: s'_def)
    qed
    ultimately show ?thesis unfolding pipes_ok_def by blast
  qed
  moreover have "tables_ok s'" using inv f' by (simp add: finv_def tables_ok_def)
  moreover have "counts_ok (E(f := E f - 1)) s'"
  proof -
    have "refs s f + (E f - 1) = 0" using finvD(3)[OF inv lt] x(1) E by simp
    moreover have "refs s' = refs s" using f' by (simp add: refs_def fun_eq_iff)
    ultimately show ?thesis using inv lt l f' by (simp add: finv_def counts_ok_def)
  qed
  moreover have "types_ok X s'" using inv lt l f' by (auto simp: finv_def types_ok_def)
  ultimately have "finv (E(f := E f - 1)) X s'" by (simp add: finv_def)
  with cl f'(2) that show thesis by blast
qed

text \<open>fileclose gives up a reference; only iput can keep it from returning.\<close>

lemma fileclose_finv:
  assumes inv: "finv E X s" and E: "0 < E f"
  shows "(\<exists>s'. fileclose pid f s = Inr s' \<and> ofiles s' = ofiles s \<and> finv (E(f := E f - 1)) X s') \<or>
    (\<exists>e. fileclose pid f s = Inl e \<and> f_type (ftable s ! f) = FD_INODE \<and> iput pid (f_ip (ftable s ! f)) (kfs s) = Inl e)"
proof -
  let ?x = "ftable s ! f"
  let ?g = "\<lambda>x :: ofile. if f_ref x = 1 then x\<lparr>f_ref := 0, f_type := FD_NONE\<rparr> else x\<lparr>f_ref := f_ref x - 1\<rparr>"
  have lt: "f < NFILE" using finvD(4)[OF inv, of f] E by simp
  have r: "1 \<le> f_ref ?x" using finvD(3)[OF inv lt] E by linarith
  show ?thesis
  proof (cases "f_ref ?x = 1")
    case False
    then have eq: "upd_file f (\<lambda>x. x\<lparr>f_ref := f_ref x - 1\<rparr>) s = upd_file f ?g s" by (simp add: upd_file_def)
    have "finv (E(f := E f - 1)) X (upd_file f ?g s)" by (rule finv_unref[OF inv E refl]) (use False in simp)
    moreover have "fileclose pid f s = Inr (upd_file f ?g s)" using r False by (simp add: fileclose_def Let_def flip: eq)
    ultimately show ?thesis by simp
  next
    case True
    let ?t = "upd_file f (\<lambda>x. x\<lparr>f_ref := 0, f_type := FD_NONE\<rparr>) s"
    have eq: "?t = upd_file f ?g s" using True by (simp add: upd_file_def)
    have t: "finv (E(f := E f - 1)) X ?t" if "f_type ?x \<noteq> FD_PIPE"
      unfolding eq by (rule finv_unref[OF inv E refl]) (use that in simp)
    have c: "fileclose pid f s = (case f_type ?x of FD_PIPE \<Rightarrow> close_pipe (f_pipe ?x) (f_writable ?x) ?t
        | FD_INODE \<Rightarrow> upd_fs (iput pid (f_ip ?x)) ?t | FD_NONE \<Rightarrow> Inr ?t)"
      using True by (simp add: fileclose_def Let_def)
    show ?thesis
    proof (cases "f_type ?x")
      case FD_NONE
      then show ?thesis using c t by simp
    next
      case FD_PIPE
      from finv_close_pipe[OF inv E True this] c FD_PIPE show ?thesis by (metis fd_type.simps(8))
    next
      case FD_INODE
      show ?thesis
      proof (cases "iput pid (f_ip ?x) (kfs s)")
        case (Inl e)
        then show ?thesis using c FD_INODE by (simp add: upd_fs_def)
      next
        case (Inr fs)
        have "finv (E(f := E f - 1)) X (?t\<lparr>kfs := fs\<rparr>)" using t FD_INODE by (simp add: finv_cong[of "?t\<lparr>kfs := fs\<rparr>" ?t])
        then show ?thesis using c FD_INODE Inr by (simp add: upd_fs_def)
      qed
    qed
  qed
qed

lemma finv_typed: "finv E X s \<Longrightarrow> refs s f + E f = 0 \<Longrightarrow> finv E (X - {f}) s"
proof -
  assume inv: "finv E X s" and z: "refs s f + E f = 0"
  have "f < NFILE \<Longrightarrow> f_ref (ftable s ! f) = 0" using finvD(3)[OF inv, of f] z by simp
  then have "types_ok (X - {f}) s" using inv by (auto simp: finv_def types_ok_def)
  with inv show ?thesis by (simp add: finv_def)
qed

subsection \<open>Descriptors\<close>

lemma ofile_bounds:
  assumes "finv E X s" and "p < length (ofiles s)"
  shows "length (ofiles s ! p) = NOFILE"
  using finvD(2)[OF assms(1)] assms(2) by simp

lemma finv_set_ofile:
  assumes inv: "finv E X s" and p: "p < length (ofiles s)" and fd: "fd < NOFILE"
    and E: "\<And>f. E' f + of_bool (v = Some f) = E f + of_bool (ofiles s ! p ! fd = Some f)"
  shows "finv E' X (set_ofile p fd v s)"
proof -
  let ?s = "set_ofile p fd v s"
  note l = ofile_bounds[OF inv p]
  have eq: "refs ?s f + E' f = refs s f + E f" for f
    using refs_set_ofile[of p s fd v f] p fd l E[of f] by simp
  have "counts_ok E' ?s" using inv by (simp add: finv_def counts_ok_def eq)
  moreover have "types_ok X ?s" using inv by (simp add: finv_def types_ok_def)
  moreover have "tables_ok ?s"
    using inv l p ofile_bounds[OF inv] by (auto simp: finv_def tables_ok_def set_ofile_def list_all_length nth_list_update)
  moreover have "pipe_ends ?s = pipe_ends s" "end_open ?s = end_open s" "pipes ?s = pipes s"
    by (auto simp: pipe_ends_def end_open_def fun_eq_iff)
  then have "pipes_ok ?s" using inv by (simp add: finv_def pipes_ok_def)
  ultimately show ?thesis by (simp add: finv_def)
qed

text \<open>A held reference goes into a free slot, and the reference of a slot is taken out.\<close>

lemma finv_give:
  assumes "finv E X s" and "p < length (ofiles s)" and "fd < NOFILE" and "ofiles s ! p ! fd = None" and "0 < E f"
  shows "finv (E(f := E f - 1)) X (set_ofile p fd (Some f) s)"
  by (rule finv_set_ofile[OF assms(1-3)]) (use assms(4,5) in auto)

lemma finv_take:
  assumes "finv E X s" and "p < length (ofiles s)" and "fd < NOFILE" and "ofiles s ! p ! fd = Some f"
  shows "finv (E(f := E f + 1)) X (set_ofile p fd None s)"
  by (rule finv_set_ofile[OF assms(1-3)]) (use assms(4) in auto)

lemma fdalloc_finv:
  assumes inv: "finv E X s" and p: "p < length (ofiles s)" and a: "fdalloc p f s = Some (fd, s')"
  shows "fd < NOFILE" and "ofiles s ! p ! fd = None" and "s' = set_ofile p fd (Some f) s" and "\<And>k. k < fd \<Longrightarrow> ofiles s ! p ! k \<noteq> None"
  using a ofile_bounds[OF inv p] by (auto simp: fdalloc_def scan_0_Some split: option.splits)

lemma argfd_Some:
  assumes "argfd u p n s = Some (fd, f)"
  shows "fd < NOFILE" and "ofiles s ! p ! fd = Some f"
  using assms by (auto simp: argfd_def split: option.splits if_splits)

lemma ofile_ref:
  assumes "finv E X s" and "p < length (ofiles s)" and "fd < NOFILE" and "ofiles s ! p ! fd = Some f"
  shows "0 < refs s f"
  unfolding refs_pos_iff using assms(2-4) ofile_bounds[OF assms(1,2)] by metis

subsection \<open>The calls\<close>

text \<open>Every call keeps the invariant; a call that closes a file can only fail in iput.\<close>

lemma sys_dup_inv:
  assumes inv: "file_inv s" and p: "p < length (ofiles s)"
  obtains r s' where "sys_dup u p s = Inr (r, s')" and "file_inv s'" and "length (ofiles s') = length (ofiles s)"
proof (cases "argfd u p 0 s")
  case None
  then show thesis using that inv by (simp add: sys_dup_def)
next
  case (Some ff)
  obtain fd0 f where ff: "argfd u p 0 s = Some (fd0, f)" using Some by (cases ff) simp
  have ref: "0 < refs s f" using ofile_ref[OF inv p argfd_Some[OF ff]] .
  show thesis
  proof (cases "fdalloc p f s")
    case None
    then show thesis using that inv ff by (simp add: sys_dup_def)
  next
    case (Some r)
    obtain fd s1 where a: "fdalloc p f s = Some (fd, s1)" using Some by (cases r) simp
    note A = fdalloc_finv[OF inv p a]
    obtain t where t: "filedup f s = Inr t" "ofiles t = ofiles s" "finv ((\<lambda>_. 0)(f := 1)) {} t"
      using filedup_finv[OF inv, of f] ref by auto
    have inv': "file_inv (set_ofile p fd (Some f) t)"
      using finv_give[OF t(3), of p fd f] p A(1,2) t(2) by (simp add: fun_upd_idem)
    have "filedup f s1 = Inr (set_ofile p fd (Some f) t)"
      using t(1) unfolding A(3) by (auto simp: filedup_def upd_file_def set_ofile_def split: if_splits)
    then have "sys_dup u p s = Inr (int fd, set_ofile p fd (Some f) t)" using ff a by (simp add: sys_dup_def)
    with inv' that t(2) show thesis by simp
  qed
qed

lemma sys_close_inv:
  assumes inv: "file_inv s" and p: "p < length (ofiles s)"
  shows "(\<exists>r s'. sys_close pid u p s = Inr (r, s') \<and> file_inv s' \<and> length (ofiles s') = length (ofiles s)) \<or>
    (\<exists>e f. sys_close pid u p s = Inl e \<and> f_type (ftable s ! f) = FD_INODE \<and> iput pid (f_ip (ftable s ! f)) (kfs s) = Inl e)"
proof (cases "argfd u p 0 s")
  case None
  then show ?thesis using inv by (simp add: sys_close_def)
next
  case (Some ff)
  obtain fd f where ff: "argfd u p 0 s = Some (fd, f)" using Some by (cases ff) simp
  note A = argfd_Some[OF ff]
  have t: "finv ((\<lambda>_. 0)(f := 1)) {} (set_ofile p fd None s)" using finv_take[OF inv p A] by simp
  have E: "((\<lambda>_. 0)(f := 1 :: nat))(f := ((\<lambda>_. 0)(f := 1 :: nat)) f - 1) = (\<lambda>_. 0)" by (simp add: fun_eq_iff)
  from fileclose_finv[OF t, of f pid] ff show ?thesis
    unfolding E by (auto simp: sys_close_def)
qed

text \<open>Closing what is not an inode returns.\<close>

lemma fileclose_other:
  assumes "finv E X s" and "0 < E f" and "f_type (ftable s ! f) \<noteq> FD_INODE"
  obtains s' where "fileclose pid f s = Inr s'" and "ofiles s' = ofiles s" and "finv (E(f := E f - 1)) X s'"
  using fileclose_finv[OF assms(1,2), of pid] assms(3) that by blast

lemma fileclose_type: "h \<noteq> f \<Longrightarrow> fileclose pid f s = Inr s' \<Longrightarrow> ftable s' ! h = ftable s ! h"
  by (auto simp: fileclose_def Let_def close_pipe_def upd_fs_def bindR_def split: if_splits fd_type.splits option.splits prod.splits sum.splits)

lemma fileclose_fresh:
  assumes r: "finv E (insert f X) t" and t: "E f = 1" "refs t f = 0" "f_type (ftable t ! f) = FD_NONE" and X: "f \<notin> X"
  obtains t' where "fileclose pid f t = Inr t'" and "ofiles t' = ofiles t" and "finv (E(f := 0)) X t'"
    and "\<And>h. h \<noteq> f \<Longrightarrow> ftable t' ! h = ftable t ! h"
proof -
  obtain t' where t': "fileclose pid f t = Inr t'" "ofiles t' = ofiles t" "finv (E(f := 0)) (insert f X) t'"
    using fileclose_other[OF r, of f pid] t by auto
  have "refs t' f = 0" using t'(2) t(2) by (simp add: refs_def)
  then have "finv (E(f := 0)) (insert f X - {f}) t'" using finv_typed[OF t'(3), of f] by simp
  with t' X that fileclose_type[OF _ t'(1)] show thesis by simp
qed

lemma finv_new_pipe:
  assumes inv: "finv E X s" and f: "f0 \<in> X" "f1 \<in> X" "f0 \<noteq> f1" "0 < refs s f0 + E f0" "0 < refs s f1 + E f1" and pg: "pipes s pg = None"
  shows "finv E (X - {f0, f1}) (upd_file f1 (\<lambda>x. x\<lparr>f_type := FD_PIPE, f_readable := False, f_writable := True, f_pipe := pg\<rparr>)
     (upd_file f0 (\<lambda>x. x\<lparr>f_type := FD_PIPE, f_readable := True, f_writable := False, f_pipe := pg\<rparr>)
       (s\<lparr>pipes := (pipes s)(pg \<mapsto> pipealloc_init bytes)\<rparr>)))" (is "finv E _ ?s")
proof -
  have lt: "f0 < NFILE" "f1 < NFILE" using finvD(4)[OF inv f(4)] finvD(4)[OF inv f(5)] .
  note l = finvD(1)[OF inv]
  have r: "f_ref (ftable s ! f0) \<noteq> 0" "f_ref (ftable s ! f1) \<noteq> 0" using finvD(3)[OF inv lt(1)] finvD(3)[OF inv lt(2)] f(4,5) by linarith+
  have ty: "f_type (ftable s ! f0) = FD_NONE" "f_type (ftable s ! f1) = FD_NONE"
    using finvD(6)[OF inv lt(1) r(1)] finvD(6)[OF inv lt(2) r(2)] f by simp_all
  have none: "pipe_ends s pg w = {}" for w
  proof -
    have "\<not> end_open s pg w" using pg by (simp add: end_open_def)
    then show ?thesis using finvD(8)[OF inv] by blast
  qed
  have refs: "refs ?s = refs s" by (simp add: refs_def fun_eq_iff)
  have pe: "pipe_ends ?s pg' w = (if pg' = pg then {if w then f1 else f0} else pipe_ends s pg' w)" for pg' w
    using none[of w] lt l f(3) ty by (auto simp: pipe_ends_def)
  have eo: "end_open ?s pg' w = (pg' = pg \<or> end_open s pg' w)" for pg' w
    by (auto simp: end_open_def pipealloc_init_def)
  have "pipes_ok ?s"
  proof -
    have "\<exists>h. pipe_ends ?s pg' w = (if end_open ?s pg' w then {h} else {})" for pg' w
      using inv unfolding pe eo by (simp add: finv_def pipes_ok_def)
    moreover have "pipes ?s pg' \<noteq> None \<Longrightarrow> end_open ?s pg' True \<or> end_open ?s pg' False" for pg'
      using finvD(9)[OF inv, of pg'] unfolding eo by auto
    ultimately show ?thesis unfolding pipes_ok_def by blast
  qed
  moreover have "tables_ok ?s" using inv by (simp add: finv_def tables_ok_def)
  moreover have "counts_ok E ?s" using inv lt l unfolding finv_def counts_ok_def refs by simp
  moreover have "types_ok (X - {f0, f1}) ?s" using inv lt l r f(3) by (simp add: finv_def types_ok_def)
  ultimately show ?thesis by (simp add: finv_def)
qed

lemma finv_set_inode:
  assumes inv: "finv E X s" and f: "f \<in> X" "0 < refs s f + E f"
  shows "finv E (X - {f}) (upd_file f (\<lambda>x. x\<lparr>f_type := FD_INODE, f_ip := ip, f_off := off, f_readable := r, f_writable := w\<rparr>) s)" (is "finv E _ ?s")
proof -
  have lt: "f < NFILE" using finvD(4)[OF inv f(2)] .
  note l = finvD(1)[OF inv]
  have rf: "f_ref (ftable s ! f) \<noteq> 0" using finvD(3)[OF inv lt] f(2) by linarith
  have ty: "f_type (ftable s ! f) = FD_NONE" using finvD(6)[OF inv lt rf] f by simp
  have "pipe_ends ?s = pipe_ends s" using ty by (auto simp: pipe_ends_def fun_eq_iff)
  then have "tables_ok ?s" "pipes_ok ?s" using inv by (simp_all add: finv_def tables_ok_def pipes_ok_def)
  moreover have "counts_ok E ?s" using inv lt l by (simp add: finv_def counts_ok_def)
  moreover have "types_ok (X - {f}) ?s" using inv lt l rf by (simp add: finv_def types_ok_def)
  ultimately show ?thesis by (simp add: finv_def)
qed

text \<open>kalloc hands out a page that is not in use.\<close>

definition fresh_page :: "(nat \<times> u8 list) option \<Rightarrow> kern \<Rightarrow> bool" where
  "fresh_page page s \<longleftrightarrow> (case page of None \<Rightarrow> True | Some (pg, _) \<Rightarrow> pipes s pg = None)"

text \<open>pipealloc hands out two ends, or leaves the table as it was.\<close>

lemma pipealloc_inv:
  assumes inv: "file_inv s" and pg: "fresh_page page s"
  obtains s' where "pipealloc pid page s = Inr (None, s')" and "ofiles s' = ofiles s" and "file_inv s'"
  | f0 f1 s' where "pipealloc pid page s = Inr (Some (f0, f1), s')" and "ofiles s' = ofiles s" and "f0 \<noteq> f1"
      and "finv ((\<lambda>_. 0)(f0 := 1, f1 := 1)) {} s'" and "f_type (ftable s' ! f0) = FD_PIPE" and "f_type (ftable s' ! f1) = FD_PIPE"
proof (cases "filealloc s")
  case None
  then show thesis using that(1) inv by (simp add: pipealloc_def cleanuppipealloc_def)
next
  case (Some x)
  obtain f0 s1 where a0: "filealloc s = Some (f0, s1)" using Some by (cases x) simp
  note A = filealloc_finv[OF inv a0]
  show thesis
  proof (cases "filealloc s1")
    case None
    have z: "refs s1 f0 = 0" using A(2,4) by (simp add: refs_def)
    obtain t where "fileclose pid f0 s1 = Inr t" "ofiles t = ofiles s1" "finv (((\<lambda>_. 0)(f0 := 1))(f0 := 0)) {} t"
      using fileclose_fresh[OF A(8), of pid] z A(7) by auto
    then show thesis using that(1) None a0 A(4) by (simp add: pipealloc_def cleanuppipealloc_def fun_upd_idem)
  next
    case (Some y)
    obtain f1 s2 where a1: "filealloc s1 = Some (f1, s2)" using Some by (cases y) simp
    note B = filealloc_finv[OF A(8) a1]
    have ne: "f0 \<noteq> f1" using B(3) by (auto split: if_splits)
    have z: "refs s2 f0 = 0" "refs s2 f1 = 0" "ofiles s2 = ofiles s" using A(2,4) B(2,4) by (simp_all add: refs_def)
    have ty: "f_type (ftable s2 ! f0) = FD_NONE"
      using A(7) a1 ne by (auto simp: filealloc_def split: option.splits)
    have inv2: "finv ((\<lambda>_. 0)(f0 := 1, f1 := 1)) (insert f0 {f1}) s2" using B(8) by (simp add: insert_commute)
    show thesis
    proof (cases page)
      case None
      obtain t where t: "fileclose pid f0 s2 = Inr t" "ofiles t = ofiles s2" "finv (((\<lambda>_. 0)(f0 := 1, f1 := 1))(f0 := 0)) {f1} t"
        "ftable t ! f1 = ftable s2 ! f1"
        using fileclose_fresh[OF inv2, of pid] z ty ne by auto
      have E: "((\<lambda>_. 0)(f0 := 1, f1 := 1))(f0 := 0) = (\<lambda>_. 0)(f1 := 1 :: nat)" using ne by (auto simp: fun_eq_iff)
      have zt: "refs t f1 = 0" using t(2) z(2) by (simp add: refs_def)
      obtain t' where "fileclose pid f1 t = Inr t'" "ofiles t' = ofiles t" "finv (((\<lambda>_. 0)(f1 := 1))(f1 := 0)) {} t'"
        using fileclose_fresh[OF t(3)[unfolded E], of pid] zt B(7) t(4) by auto
      then show thesis using that(1) None a0 a1 t z by (simp add: pipealloc_def cleanuppipealloc_def fun_upd_idem)
    next
      case (Some pb)
      obtain pg bytes where pb: "page = Some (pg, bytes)" using Some by (cases pb) simp
      have pn: "pipes s2 pg = None" using pg pb A(6) B(6) by (simp add: fresh_page_def)
      have f: "f0 \<in> insert f0 {f1}" "f1 \<in> insert f0 {f1}" "f0 \<noteq> f1" "0 < refs s2 f0 + ((\<lambda>_. 0)(f0 := 1, f1 := 1)) f0"
        "0 < refs s2 f1 + ((\<lambda>_. 0)(f0 := 1, f1 := 1)) f1" using ne by simp_all
      note N = finv_new_pipe[OF inv2 f pn, of bytes]
      have X: "insert f0 {f1} - {f0, f1} = {}" by auto
      let ?s = "upd_file f1 (\<lambda>x. x\<lparr>f_type := FD_PIPE, f_readable := False, f_writable := True, f_pipe := pg\<rparr>)
         (upd_file f0 (\<lambda>x. x\<lparr>f_type := FD_PIPE, f_readable := True, f_writable := False, f_pipe := pg\<rparr>)
         (s2\<lparr>pipes := (pipes s2)(pg \<mapsto> pipealloc_init bytes)\<rparr>))"
      have r: "pipealloc pid page s = Inr (Some (f0, f1), ?s)" using a0 a1 pb by (simp add: pipealloc_def Let_def)
      have l: "length (ftable s2) = NFILE" using finvD(1)[OF inv2] .
      show thesis by (rule that(2)[OF r _ ne N[unfolded X]]) (use z(3) l A(1) B(1) in simp_all)
    qed
  qed
qed

lemma close_both:
  assumes inv: "finv ((\<lambda>_. 0)(f0 := 1, f1 := 1)) {} s" and ne: "f0 \<noteq> f1"
    and ty: "f_type (ftable s ! f0) = FD_PIPE" "f_type (ftable s ! f1) = FD_PIPE"
  obtains s1 s2 where "fileclose pid f0 s = Inr s1" and "fileclose pid f1 s1 = Inr s2" and "ofiles s2 = ofiles s" and "file_inv s2"
proof -
  obtain s1 where s1: "fileclose pid f0 s = Inr s1" "ofiles s1 = ofiles s" "finv (((\<lambda>_. 0)(f0 := 1, f1 := 1))(f0 := 0)) {} s1"
    using fileclose_other[OF inv, of f0 pid] ne ty by auto
  have E: "((\<lambda>_. 0)(f0 := 1, f1 := 1))(f0 := 0) = (\<lambda>_. 0)(f1 := 1 :: nat)" using ne by (auto simp: fun_eq_iff)
  have "f_type (ftable s1 ! f1) \<noteq> FD_INODE" using fileclose_type[OF ne[symmetric] s1(1)] ty by simp
  then obtain s2 where "fileclose pid f1 s1 = Inr s2" "ofiles s2 = ofiles s1" "finv (((\<lambda>_. 0)(f1 := 1))(f1 := 0)) {} s2"
    using fileclose_other[OF s1(3)[unfolded E], of f1 pid] by auto
  with s1 that show thesis by (simp add: fun_upd_idem)
qed

lemma sys_pipe_inv:
  assumes inv: "file_inv s" and p: "p < length (ofiles s)" and pg: "fresh_page page s"
  obtains r u' s' where "sys_pipe pid page u p s = Inr (r, u', s')" and "file_inv s'" and "length (ofiles s') = length (ofiles s)"
proof (cases "argptr u 0 8")
  case None
  then show thesis using that inv by (simp add: sys_pipe_def)
next
  case (Some a)
  show thesis
  proof (cases rule: pipealloc_inv[OF inv pg, of pid])
    case (1 s')
    then show thesis using that Some by (simp add: sys_pipe_def)
  next
    case (2 f0 f1 s1)
    have p1: "p < length (ofiles s1)" using p 2 by simp
    show thesis
    proof (cases "fdalloc p f0 s1")
      case None
      obtain s2 s3 where "fileclose pid f0 s1 = Inr s2" "fileclose pid f1 s2 = Inr s3" "ofiles s3 = ofiles s1" "file_inv s3"
        using close_both[OF 2(4,3,5,6)] .
      then show thesis using that 2 None Some by (simp add: sys_pipe_def)
    next
      case (Some x)
      obtain fd0 s2 where d0: "fdalloc p f0 s1 = Some (fd0, s2)" using Some by (cases x) simp
      note D = fdalloc_finv[OF 2(4) p1 d0]
      have E: "((\<lambda>_. 0)(f0 := 1, f1 := 1))(f0 := ((\<lambda>_. 0)(f0 := 1, f1 := 1)) f0 - 1) = (\<lambda>_. 0)(f1 := 1 :: nat)"
        using 2(3) by (auto simp: fun_eq_iff)
      have i2: "finv ((\<lambda>_. 0)(f1 := 1)) {} s2"
        using finv_give[OF 2(4) p1 D(1,2), of f0] 2(3) unfolding E D(3) by simp
      have p2: "p < length (ofiles s2)" using p1 D(3) by simp
      have l1: "length (ofiles s1 ! p) = NOFILE" using ofile_bounds[OF 2(4) p1] .
      show thesis
      proof (cases "fdalloc p f1 s2")
        case None
        have o: "ofiles s2 ! p ! fd0 = Some f0" using D l1 p1 by (simp add: set_ofile_def)
        have "((\<lambda>_. 0)(f1 := 1 :: nat))(f0 := ((\<lambda>_. 0)(f1 := 1 :: nat)) f0 + 1) = (\<lambda>_. 0)(f0 := 1, f1 := 1)"
          using 2(3) by (auto simp: fun_eq_iff)
        then have i3: "finv ((\<lambda>_. 0)(f0 := 1, f1 := 1)) {} (set_ofile p fd0 None s2)"
          using finv_take[OF i2 p2 D(1) o] by simp
        obtain s3 s4 where "fileclose pid f0 (set_ofile p fd0 None s2) = Inr s3" "fileclose pid f1 s3 = Inr s4"
          "ofiles s4 = ofiles (set_ofile p fd0 None s2)" "file_inv s4"
          using close_both[OF i3 2(3)] 2(5,6) D(3) by auto
        then show thesis using that 2 None d0 \<open>argptr u 0 8 = Some a\<close> D(3) by (simp add: sys_pipe_def)
      next
        case (Some y)
        obtain fd1 s3 where d1: "fdalloc p f1 s2 = Some (fd1, s3)" using Some by (cases y) simp
        note F = fdalloc_finv[OF i2 p2 d1]
        have "file_inv s3" using finv_give[OF i2 p2 F(1,2), of f1] unfolding F(3) by (simp add: fun_upd_idem)
        then show thesis using that 2 d0 d1 \<open>argptr u 0 8 = Some a\<close> D(3) F(3) by (simp add: sys_pipe_def)
      qed
    qed
  qed
qed

lemma finv_kfs [simp]: "finv E X (s\<lparr>kfs := fs\<rparr>) = finv E X s"
  by (rule finv_cong) simp_all

lemma finv_cwds [simp]: "finv E X (s\<lparr>cwds := c\<rparr>) = finv E X s"
  by (rule finv_cong) simp_all

lemma upd_fs_Inr: "upd_fs g s = Inr s' \<Longrightarrow> \<exists>fs. s' = s\<lparr>kfs := fs\<rparr>"
  by (auto simp: upd_fs_def bindR_eq_Inr)

lemma sys_open_inv:
  assumes inv: "file_inv s" and p: "p < length (ofiles s)" and o: "sys_open pid junk u p s = Inr (r, s')"
  shows "file_inv s' \<and> length (ofiles s') = length (ofiles s)"
proof -
  consider "s' = s" | path om rr fs where "fetch_path u 0 = Some path" "argint u 1 = Some om"
      "open_inode pid (cwds s ! p) junk path (word_of_int om) (kfs s) = Inr (rr, fs)"
  proof (cases "fetch_path u 0")
    case (Some path)
    note path = this
    show thesis
    proof (cases "argint u 1")
      case (Some om)
      show thesis
      proof (cases "open_inode pid (cwds s ! p) junk path (word_of_int om) (kfs s)")
        case (Inl e)
        then show thesis using o path Some by (simp add: sys_open_def)
      next
        case (Inr x)
        then show thesis using that(2) path Some by (cases x) simp
      qed
    qed (use o path that(1) in \<open>simp add: sys_open_def\<close>)
  qed (use o that(1) in \<open>simp add: sys_open_def\<close>)
  then show ?thesis
  proof cases
    case 1
    then show ?thesis using inv by simp
  next
    case (2 path om rr fs)
    define t where "t = s\<lparr>kfs := fs\<rparr>"
    have it: "file_inv t" "p < length (ofiles t)" "ofiles t = ofiles s" using inv p by (simp_all add: t_def)
    show ?thesis
    proof (cases rr)
      case None
      then have "s' = t" using o 2 by (simp add: sys_open_def t_def Let_def)
      then show ?thesis using it by simp
    next
      case (Some ip)
      show ?thesis
      proof (cases "filealloc t")
        case None
        then have "upd_fs (iunlockput pid ip) t = Inr s'"
          using o 2 \<open>rr = Some ip\<close> by (auto simp: sys_open_def t_def Let_def bindR_eq_Inr)
        then show ?thesis using upd_fs_Inr it by fastforce
      next
        case (Some x)
        obtain f t1 where a: "filealloc t = Some (f, t1)" using Some by (cases x) simp
        note A = filealloc_finv[OF it(1) a]
        have p1: "p < length (ofiles t1)" using A(4) it by simp
        show ?thesis
        proof (cases "fdalloc p f t1")
          case None
          have "refs t1 f = 0" using A(2,4) by (simp add: refs_def)
          then obtain t2 where t2: "fileclose pid f t1 = Inr t2" "ofiles t2 = ofiles t1" "finv (((\<lambda>_. 0)(f := 1))(f := 0)) {} t2"
            using fileclose_fresh[OF A(8), of pid] A(7) by auto
          then have "upd_fs (iunlockput pid ip) t2 = Inr s'"
            using o 2 \<open>rr = Some ip\<close> a None by (auto simp: sys_open_def t_def Let_def bindR_eq_Inr)
          then obtain fs' where s': "s' = t2\<lparr>kfs := fs'\<rparr>" using upd_fs_Inr by blast
          show ?thesis unfolding s' using t2 A(4) it(3) by (simp add: fun_upd_idem)
        next
          case (Some y)
          obtain fd t2 where d: "fdalloc p f t1 = Some (fd, t2)" using Some by (cases y) simp
          note D = fdalloc_finv[OF A(8) p1 d]
          have i2: "finv (\<lambda>_. 0) {f} t2" using finv_give[OF A(8) p1 D(1,2), of f] unfolding D(3) by (simp add: fun_upd_idem)
          have "0 < refs t2 f"
            using ofile_ref[OF i2, of p fd f] p1 D(1,3) ofile_bounds[OF A(8) p1] by (simp add: set_ofile_def)
          moreover from o 2 \<open>rr = Some ip\<close> a d obtain t3 where u3: "upd_fs (iunlock pid ip) t2 = Inr t3"
            and s': "s' = upd_file f (\<lambda>x. x\<lparr>f_type := FD_INODE, f_ip := ip, f_off := 0, f_readable := ((word_of_int om :: u32) AND 1 = 0),
                f_writable := ((word_of_int om :: u32) AND 1 \<noteq> 0 \<or> (word_of_int om :: u32) AND 2 \<noteq> 0)\<rparr>) t3"
            by (auto simp: sys_open_def t_def Let_def bindR_eq_Inr)
          moreover obtain fs' where t3: "t3 = t2\<lparr>kfs := fs'\<rparr>" using upd_fs_Inr[OF u3] by blast
          moreover have "refs t3 f = refs t2 f" using t3 by (simp add: refs_def)
          ultimately have "finv (\<lambda>_. 0) ({f} - {f}) s'" using i2 unfolding s' by (intro finv_set_inode) simp_all
          then show ?thesis using s' t3 D(3) A(4) it(3) by simp
        qed
      qed
    qed
  qed
qed

text \<open>Reading and writing move offsets and the contents of pipes only.\<close>

lemma finv_upd_off: "finv E X s \<Longrightarrow> finv E X (upd_file f (\<lambda>x. x\<lparr>f_off := g x\<rparr>) s)"
proof -
  assume inv: "finv E X s"
  let ?s = "upd_file f (\<lambda>x. x\<lparr>f_off := g x\<rparr>) s"
  have "pipe_ends ?s = pipe_ends s" by (auto simp: pipe_ends_def fun_eq_iff)
  with inv show ?thesis by (simp add: finv_defs)
qed

lemma finv_put_pipe:
  assumes "finv E X s" and "pipes s pg = Some p" and "readopen p' = readopen p" and "writeopen p' = writeopen p"
  shows "finv E X (put_pipe pg p' wk s)"
proof -
  let ?s = "put_pipe pg p' wk s"
  have "refs ?s = refs s" "pipe_ends ?s = pipe_ends s" "end_open ?s = end_open s" "ftable ?s = ftable s" "ofiles ?s = ofiles s"
    "\<And>pg. (pipes ?s pg = None) = (pipes s pg = None)"
    using assms(2-4) by (auto simp: put_pipe_def refs_def pipe_ends_def end_open_def fun_eq_iff)
  with assms(1) show ?thesis by (simp add: finv_defs)
qed

lemma piperead_copy_open: "piperead_copy n p = (bs, p') \<Longrightarrow> readopen p' = readopen p \<and> writeopen p' = writeopen p"
  by (induction n p arbitrary: bs p' rule: piperead_copy.induct) (fastforce split: if_splits prod.splits simp: Let_def)+

lemma pipewrite_loop_open: "pipewrite_loop killed n i bs p = (out, k, wk, p') \<Longrightarrow> readopen p' = readopen p \<and> writeopen p' = writeopen p"
  by (induction killed n i bs p arbitrary: out k wk p' rule: pipewrite_loop.induct) (auto split: if_splits simp: pipe_put_def)

lemma fileread_inv:
  assumes inv: "finv E X s" and r: "fileread killed pid devsw f n s = Inr (out, bs, s')"
  shows "finv E X s' \<and> ofiles s' = ofiles s"
proof (cases "f_readable (ftable s ! f)")
  case False
  then show ?thesis using r inv by (simp add: fileread_def Let_def)
next
  case True
  let ?x = "ftable s ! f"
  show ?thesis
  proof (cases "f_type ?x = FD_PIPE")
    case True
    with r \<open>f_readable ?x\<close> obtain p where p: "pipes s (f_pipe ?x) = Some p"
      by (cases "pipes s (f_pipe ?x)") (simp_all add: fileread_def Let_def)
    obtain out' bs' wk p' where q: "piperead killed n p = (out', bs', wk, p')" by (rule prod_cases4)
    have s': "s' = put_pipe (f_pipe ?x) p' wk s" using r True \<open>f_readable ?x\<close> p q by (simp add: fileread_def Let_def)
    have "readopen p' = readopen p \<and> writeopen p' = writeopen p"
      using q by (auto simp: piperead_def Let_def split: if_splits prod.splits dest: piperead_copy_open)
    then show ?thesis using finv_put_pipe[OF inv p] s' by (simp add: put_pipe_def)
  next
    case False
    with r \<open>f_readable ?x\<close> have ty: "f_type ?x = FD_INODE" by (auto simp: fileread_def Let_def split: if_splits)
    from r \<open>f_readable ?x\<close> ty obtain fs1 r' bs' fs2 fs3 where "ilock pid (f_ip ?x) (kfs s) = Inr fs1"
      "readi devsw (f_ip ?x) (f_off ?x) (word_of_int n) fs1 = Inr (r', bs', fs2)" "iunlock pid (f_ip ?x) fs2 = Inr fs3"
      and s': "s' = (if 0 < r' then upd_file f (\<lambda>x. x\<lparr>f_off := f_off x + word_of_int r'\<rparr>) s else s)\<lparr>kfs := fs3\<rparr>"
      by (auto simp: fileread_def Let_def bindR_eq_Inr)
    show ?thesis unfolding s' using inv finv_upd_off[OF inv] by simp
  qed
qed

lemma filewrite_loop_inv:
  "filewrite_loop pid devsw f addr n i s = Inr (k, s') \<Longrightarrow> finv E X s \<Longrightarrow> finv E X s' \<and> ofiles s' = ofiles s"
proof (induction pid devsw f addr n i s rule: filewrite_loop.induct)
  case (1 pid devsw f addr n i s)
  let ?ip = "f_ip (ftable s ! f)" and ?n1 = "if filewrite_max < n - i then filewrite_max else n - i"
  show ?case
  proof (cases "i < n")
    case True
    note eq0 = "1.prems"(1)[unfolded filewrite_loop.simps[of pid devsw f addr n i s] Let_def if_P[OF True]]
    then obtain fs1 where l: "ilock pid ?ip (kfs s) = Inr fs1" by (auto simp only: bindR_eq_Inr)
    obtain r fs2 where w: "writei devsw ?ip (drop (nat i) addr) (f_off (ftable s ! f)) (word_of_int ?n1) fs1 = Inr (r, fs2)"
      using eq0 unfolding l bindR_Inr by (auto simp only: bindR_eq_Inr)
    obtain fs3 where un: "iunlock pid ?ip fs2 = Inr fs3"
      using eq0 unfolding l bindR_Inr w by (auto simp only: bindR_eq_Inr prod.case)
    define t where "t = (if 0 < r then upd_file f (\<lambda>x. x\<lparr>f_off := f_off x + word_of_int r\<rparr>) s else s)"
    have t: "finv E X (t\<lparr>kfs := fs3\<rparr>)" "ofiles (t\<lparr>kfs := fs3\<rparr>) = ofiles s"
      using finv_upd_off[OF "1.prems"(2)] "1.prems"(2) by (simp_all add: t_def)
    have eq: "filewrite_loop pid devsw f addr n i s = (if r < 0 then Inr (i, t\<lparr>kfs := fs3\<rparr>)
        else if r \<noteq> ?n1 then Inl (Panic ''short filewrite'') else filewrite_loop pid devsw f addr n (i + r) (t\<lparr>kfs := fs3\<rparr>))"
      using True l w un by (subst filewrite_loop.simps) (simp add: Let_def t_def)
    show ?thesis
    proof (cases "r < 0")
      case True
      then show ?thesis using eq "1.prems"(1) t by auto
    next
      case False
      then have rn: "\<not> r < 0" "\<not> r \<noteq> ?n1" and rec: "filewrite_loop pid devsw f addr n (i + r) (t\<lparr>kfs := fs3\<rparr>) = Inr (k, s')"
        using eq "1.prems"(1) by (auto split: if_splits)
      show ?thesis
        using "1.IH"[OF True refl refl l w refl t_def un refl rn rec t(1)] t(2) by simp
    qed
  next
    case False
    then show ?thesis using "1.prems" by (subst (asm) filewrite_loop.simps) simp
  qed
qed

lemma filewrite_inv:
  assumes inv: "finv E X s" and r: "filewrite killed pid devsw f addr n i s = Inr (out, k, s')"
  shows "finv E X s' \<and> ofiles s' = ofiles s"
proof (cases "f_writable (ftable s ! f)")
  case False
  then show ?thesis using r inv by (simp add: filewrite_def Let_def)
next
  case True
  let ?x = "ftable s ! f"
  show ?thesis
  proof (cases "f_type ?x = FD_PIPE")
    case True
    with r \<open>f_writable ?x\<close> obtain p where p: "pipes s (f_pipe ?x) = Some p"
      by (cases "pipes s (f_pipe ?x)") (simp_all add: filewrite_def Let_def)
    obtain out' k' wk p' where q: "pipewrite killed addr n i p = (out', k', wk, p')" by (rule prod_cases4)
    have s': "s' = put_pipe (f_pipe ?x) p' wk s" using r True \<open>f_writable ?x\<close> p q by (simp add: filewrite_def Let_def)
    have "readopen p' = readopen p \<and> writeopen p' = writeopen p"
      using q by (auto simp: pipewrite_def dest: pipewrite_loop_open)
    then show ?thesis using finv_put_pipe[OF inv p] s' by (simp add: put_pipe_def)
  next
    case False
    with r \<open>f_writable ?x\<close> have ty: "f_type ?x = FD_INODE" by (auto simp: filewrite_def Let_def split: if_splits)
    from r \<open>f_writable ?x\<close> ty obtain j where "filewrite_loop pid devsw f addr n 0 s = Inr (j, s')"
      by (auto simp: filewrite_def Let_def bindR_eq_Inr)
    then show ?thesis using filewrite_loop_inv inv by blast
  qed
qed

end
