(* ===== verification/FileTable.thy ===== *)
theory FileTable
  imports FileInv
begin

text \<open>
  Runs of the file system calls of several processes (sysfile.c, and the descriptor loops of fork
  and exit in proc.c): the open file table stays consistent, whatever the processes open, copy,
  close, read and write, and whoever forks and exits.
\<close>

subsection \<open>fork and exit\<close>

lemma all_slots [simp]: "{0..<NOFILE} \<subseteq> {..<NOFILE}"
  by auto

lemma set_ofile_nth:
  "p < length (ofiles s) \<Longrightarrow> ofiles (set_ofile p fd v s) ! q = (if q = p then (ofiles s ! p)[fd := v] else ofiles s ! q)"
  by (simp add: set_ofile_def nth_list_update)

lemma dup_into_slot:
  assumes inv: "file_inv s" and np: "np < length (ofiles s)" "k < NOFILE" "ofiles s ! np ! k = None" and f: "0 < refs s f"
  obtains s' where "bindR (filedup f s) (\<lambda>s. Inr (set_ofile np k (Some f) s)) = Inr s'" and "file_inv s'"
    and "ofiles s' = (ofiles s)[np := (ofiles s ! np)[k := Some f]]"
proof -
  obtain t where t: "filedup f s = Inr t" "ofiles t = ofiles s" "finv ((\<lambda>_. 0)(f := 1)) {} t"
    using filedup_finv[OF inv, of f] f by auto
  have "file_inv (set_ofile np k (Some f) t)"
    using finv_give[OF t(3), of np k f] np t(2) by (simp add: fun_upd_idem)
  with t that show thesis by (simp add: set_ofile_def)
qed

lemma fork_files_loop:
  assumes "file_inv s" and "cur < length (ofiles s)" and "np < length (ofiles s)" and "cur \<noteq> np"
    and "distinct ks" and "set ks \<subseteq> {..<NOFILE}" and "\<forall>k \<in> set ks. ofiles s ! np ! k = None"
  shows "\<exists>s'. forR ks (\<lambda>i s. case ofiles s ! cur ! i of None \<Rightarrow> Inr s
        | Some f \<Rightarrow> bindR (filedup f s) (\<lambda>s. Inr (set_ofile np i (Some f) s))) s = Inr s' \<and> file_inv s' \<and>
      length (ofiles s') = length (ofiles s) \<and> (\<forall>q. q \<noteq> np \<longrightarrow> ofiles s' ! q = ofiles s ! q) \<and>
      (\<forall>k < NOFILE. ofiles s' ! np ! k = (if k \<in> set ks then ofiles s ! cur ! k else ofiles s ! np ! k))"
  using assms
proof (induction ks arbitrary: s)
  case Nil
  then show ?case by auto
next
  case (Cons i ks)
  let ?step = "\<lambda>i s. case ofiles s ! cur ! i of None \<Rightarrow> Inr s
        | Some f \<Rightarrow> bindR (filedup f s) (\<lambda>s. Inr (set_ofile np i (Some f) s))"
  have i: "i < NOFILE" "i \<notin> set ks" "ofiles s ! np ! i = None" using Cons.prems by auto
  have l: "length (ofiles s ! np) = NOFILE" using ofile_bounds[OF Cons.prems(1,3)] .
  obtain t where t: "?step i s = Inr t" "file_inv t" "length (ofiles t) = length (ofiles s)" "\<And>q. q \<noteq> np \<Longrightarrow> ofiles t ! q = ofiles s ! q"
    "\<And>k. k < NOFILE \<Longrightarrow> ofiles t ! np ! k = (if k = i then ofiles s ! cur ! i else ofiles s ! np ! k)"
  proof (cases "ofiles s ! cur ! i")
    case None
    then show thesis using that[of s] Cons.prems(1) i(3) by auto
  next
    case (Some f)
    have "0 < refs s f" using ofile_ref[OF Cons.prems(1,2) i(1) Some] .
    from dup_into_slot[OF Cons.prems(1,3) i(1,3) this] obtain t where
      "bindR (filedup f s) (\<lambda>s. Inr (set_ofile np i (Some f) s)) = Inr t" "file_inv t" "ofiles t = (ofiles s)[np := (ofiles s ! np)[i := Some f]]" by blast
    then show thesis using that[of t] Some Cons.prems(3) i(1) l by auto
  qed
  have "\<exists>s'. forR ks ?step t = Inr s' \<and> file_inv s' \<and> length (ofiles s') = length (ofiles t) \<and>
      (\<forall>q. q \<noteq> np \<longrightarrow> ofiles s' ! q = ofiles t ! q) \<and>
      (\<forall>k < NOFILE. ofiles s' ! np ! k = (if k \<in> set ks then ofiles t ! cur ! k else ofiles t ! np ! k))"
  proof (rule Cons.IH[OF t(2)])
    show "\<forall>k \<in> set ks. ofiles t ! np ! k = None" using t(5) i(2) Cons.prems(6,7) by fastforce
  qed (use Cons.prems t(3) in auto)
  then obtain s' where s': "forR ks ?step t = Inr s'" "file_inv s'" "length (ofiles s') = length (ofiles t)"
    "\<And>q. q \<noteq> np \<Longrightarrow> ofiles s' ! q = ofiles t ! q" "\<And>k. k < NOFILE \<Longrightarrow> ofiles s' ! np ! k = (if k \<in> set ks then ofiles t ! cur ! k else ofiles t ! np ! k)"
    by blast
  show ?case
  proof (intro exI conjI allI impI)
    show "forR (i # ks) ?step s = Inr s'" using t(1) s'(1) by simp
  qed (use s' t Cons.prems(4) i in auto)
qed

lemma fork_files_inv:
  assumes "file_inv s" and "cur < length (ofiles s)" and "np < length (ofiles s)" and "cur \<noteq> np" and "ofiles s ! np = replicate NOFILE None"
  obtains s' where "fork_files cur np s = Inr s'" and "file_inv s'" and "length (ofiles s') = length (ofiles s)"
    and "ofiles s' ! np = ofiles s ! cur" and "\<And>q. q \<noteq> np \<Longrightarrow> ofiles s' ! q = ofiles s ! q"
proof -
  obtain s' where s': "fork_files cur np s = Inr s'" "file_inv s'" "length (ofiles s') = length (ofiles s)"
    "\<And>q. q \<noteq> np \<Longrightarrow> ofiles s' ! q = ofiles s ! q" "\<And>k. k < NOFILE \<Longrightarrow> ofiles s' ! np ! k = ofiles s ! cur ! k"
    using fork_files_loop[OF assms(1-4), of "[0..<NOFILE]"] assms(5) unfolding fork_files_def by auto
  have "ofiles s' ! np = ofiles s ! cur"
    using ofile_bounds[OF s'(2), of np] ofile_bounds[OF assms(1,2)] assms(3) s'(3,5) by (simp add: list_eq_iff_nth_eq)
  with s' that show thesis by blast
qed

text \<open>exit clears a slot after it has closed the file; the two commute.\<close>

lemma fileclose_set_ofile:
  "fileclose pid f (set_ofile p fd v s) = bindR (fileclose pid f s) (\<lambda>s. Inr (set_ofile p fd v s))"
  by (simp add: fileclose_def Let_def close_pipe_def upd_fs_def upd_file_def set_ofile_def bindR_def split: fd_type.split option.split prod.split sum.split)

lemma exit_files_loop:
  assumes "file_inv s" and "p < length (ofiles s)" and "set ks \<subseteq> {..<NOFILE}"
  shows "case forR ks (\<lambda>fd s. case ofiles s ! p ! fd of None \<Rightarrow> Inr s
        | Some f \<Rightarrow> bindR (fileclose pid f s) (\<lambda>s. Inr (set_ofile p fd None s))) s of
      Inr s' \<Rightarrow> file_inv s' \<and> length (ofiles s') = length (ofiles s) \<and> (\<forall>q. q \<noteq> p \<longrightarrow> ofiles s' ! q = ofiles s ! q) \<and>
        (\<forall>k < NOFILE. ofiles s' ! p ! k = (if k \<in> set ks then None else ofiles s ! p ! k))
    | Inl e \<Rightarrow> (\<exists>ip fs. iput pid ip fs = Inl e)"
  using assms
proof (induction ks arbitrary: s)
  case Nil
  then show ?case by auto
next
  case (Cons i ks)
  let ?step = "\<lambda>fd s. case ofiles s ! p ! fd of None \<Rightarrow> Inr s
        | Some f \<Rightarrow> bindR (fileclose pid f s) (\<lambda>s. Inr (set_ofile p fd None s))"
  have i: "i < NOFILE" using Cons.prems by auto
  have l: "length (ofiles s ! p) = NOFILE" using ofile_bounds[OF Cons.prems(1,2)] .
  show ?case
  proof (cases "ofiles s ! p ! i")
    case None
    then have "forR (i # ks) ?step s = forR ks ?step s" by simp
    with Cons.IH[OF Cons.prems(1,2)] Cons.prems(3) None show ?thesis by (auto split: sum.splits)
  next
    case (Some f)
    have E: "((\<lambda>_. 0)(f := 1 :: nat))(f := ((\<lambda>_. 0)(f := 1 :: nat)) f - 1) = (\<lambda>_. 0)" by (simp add: fun_eq_iff)
    have "finv ((\<lambda>_. 0)(f := 1)) {} (set_ofile p i None s)" using finv_take[OF Cons.prems(1,2) i Some] by simp
    from fileclose_finv[OF this, of f pid, unfolded E]
    consider t where "fileclose pid f (set_ofile p i None s) = Inr t" "ofiles t = ofiles (set_ofile p i None s)" "file_inv t"
      | e ip fs where "fileclose pid f (set_ofile p i None s) = Inl e" "iput pid ip fs = Inl e" by fastforce
    then show ?thesis
    proof cases
      case (1 t)
      have st: "?step i s = Inr t" using Some 1(1) by (simp add: fileclose_set_ofile)
      have "length (ofiles t) = length (ofiles s)" "\<And>q. ofiles t ! q = (if q = p then (ofiles s ! p)[i := None] else ofiles s ! q)"
        using 1(2) Cons.prems(2) by (simp_all add: set_ofile_nth)
      with Cons.IH[OF 1(3)] Cons.prems(2,3) st i l show ?thesis
        by (auto split: sum.splits)
    next
      case (2 e)
      then have "?step i s = Inl e" using Some by (simp add: fileclose_set_ofile)
      with 2(2) show ?thesis by auto
    qed
  qed
qed

lemma exit_files_inv:
  assumes "file_inv s" and "p < length (ofiles s)"
  shows "case exit_files pid p s of
      Inr s' \<Rightarrow> file_inv s' \<and> length (ofiles s') = length (ofiles s) \<and> ofiles s' ! p = replicate NOFILE None \<and> (\<forall>q. q \<noteq> p \<longrightarrow> ofiles s' ! q = ofiles s ! q)
    | Inl e \<Rightarrow> (\<exists>ip fs. iput pid ip fs = Inl e)"
proof (cases "exit_files pid p s")
  case (Inl e)
  then show ?thesis using exit_files_loop[OF assms, of "[0..<NOFILE]" pid] by (simp add: exit_files_def)
next
  case (Inr s')
  then have s': "file_inv s'" "length (ofiles s') = length (ofiles s)" "\<forall>q. q \<noteq> p \<longrightarrow> ofiles s' ! q = ofiles s ! q" "\<forall>k < NOFILE. ofiles s' ! p ! k = None"
    using exit_files_loop[OF assms, of "[0..<NOFILE]" pid] by (simp_all add: exit_files_def)
  have "ofiles s' ! p = replicate NOFILE None"
    using ofile_bounds[OF s'(1), of p] assms(2) s'(2,4) by (simp add: list_eq_iff_nth_eq)
  then show ?thesis using Inr s' by simp
qed

subsection \<open>Runs\<close>

text \<open>The calls that change nothing but the file system and current directories.\<close>

lemma sys_fstat_frame: "sys_fstat pid u p s = Inr (r, u', s') \<Longrightarrow> \<exists>fs. s' = s\<lparr>kfs := fs\<rparr>"
  by (auto simp: sys_fstat_def filestat_def Let_def bindR_eq_Inr split: option.splits if_splits) (metis kern.surjective kern.update_convs(6))+

lemma sys_link_frame: "sys_link pid junk u p s = Inr (r, s') \<Longrightarrow> s' = s \<or> (\<exists>fs. s' = s\<lparr>kfs := fs\<rparr>)"
  by (auto simp: sys_link_def bindR_eq_Inr split: option.splits)

lemma sys_unlink_frame: "sys_unlink pid junk u p s = Inr (r, s') \<Longrightarrow> s' = s \<or> (\<exists>fs. s' = s\<lparr>kfs := fs\<rparr>)"
  by (auto simp: sys_unlink_def bindR_eq_Inr split: option.splits)

lemma make_node_frame: "make_node pid p junk path type major minor s = Inr (r, s') \<Longrightarrow> \<exists>fs. s' = s\<lparr>kfs := fs\<rparr>"
  by (auto simp: make_node_def bindR_eq_Inr split: option.splits)

lemma sys_mkdir_frame: "sys_mkdir pid junk u p s = Inr (r, s') \<Longrightarrow> s' = s \<or> (\<exists>fs. s' = s\<lparr>kfs := fs\<rparr>)"
  by (auto simp: sys_mkdir_def dest: make_node_frame split: option.splits)

lemma sys_mknod_frame: "sys_mknod pid junk u p s = Inr (r, s') \<Longrightarrow> s' = s \<or> (\<exists>fs. s' = s\<lparr>kfs := fs\<rparr>)"
  by (auto simp: sys_mknod_def dest: make_node_frame split: option.splits)

lemma sys_chdir_frame: "sys_chdir pid junk u p s = Inr (r, s') \<Longrightarrow> s' = s \<or> (\<exists>fs c. s' = s\<lparr>kfs := fs, cwds := c\<rparr> \<or> s' = s\<lparr>kfs := fs\<rparr>)"
  by (auto simp: sys_chdir_def bindR_eq_Inr split: option.splits if_splits)

text \<open>A step is a call of the process in slot p that returns or goes to sleep on a pipe.\<close>

inductive file_step :: "kern \<Rightarrow> kern \<Rightarrow> bool" where
  step_dup: "p < length (ofiles s) \<Longrightarrow> sys_dup u p s = Inr (r, s') \<Longrightarrow> file_step s s'"
| step_close: "p < length (ofiles s) \<Longrightarrow> sys_close pid u p s = Inr (r, s') \<Longrightarrow> file_step s s'"
| step_pipe: "p < length (ofiles s) \<Longrightarrow> fresh_page page s \<Longrightarrow> sys_pipe pid page u p s = Inr (r, u', s') \<Longrightarrow> file_step s s'"
| step_open: "p < length (ofiles s) \<Longrightarrow> sys_open pid junk u p s = Inr (r, s') \<Longrightarrow> file_step s s'"
| step_read: "sys_read killed pid devr u p s = Inr (out, u', s') \<Longrightarrow> file_step s s'"
| step_write: "sys_write killed pid devw u p i s = Inr (out, k, s') \<Longrightarrow> file_step s s'"
| step_fstat: "sys_fstat pid u p s = Inr (r, u', s') \<Longrightarrow> file_step s s'"
| step_link: "sys_link pid junk u p s = Inr (r, s') \<Longrightarrow> file_step s s'"
| step_unlink: "sys_unlink pid junk u p s = Inr (r, s') \<Longrightarrow> file_step s s'"
| step_mkdir: "sys_mkdir pid junk u p s = Inr (r, s') \<Longrightarrow> file_step s s'"
| step_mknod: "sys_mknod pid junk u p s = Inr (r, s') \<Longrightarrow> file_step s s'"
| step_chdir: "sys_chdir pid junk u p s = Inr (r, s') \<Longrightarrow> file_step s s'"
| step_fork: "cur < length (ofiles s) \<Longrightarrow> np < length (ofiles s) \<Longrightarrow> cur \<noteq> np \<Longrightarrow> ofiles s ! np = replicate NOFILE None \<Longrightarrow>
    fork_files cur np s = Inr s' \<Longrightarrow> file_step s s'"
| step_exit: "p < length (ofiles s) \<Longrightarrow> exit_files pid p s = Inr s' \<Longrightarrow> file_step s s'"

lemma sys_read_inv: "file_inv s \<Longrightarrow> sys_read killed pid devr u p s = Inr (out, u', s') \<Longrightarrow> file_inv s'"
  by (auto simp: sys_read_def bindR_eq_Inr dest: fileread_inv split: option.splits prod.splits)

lemma sys_write_inv: "file_inv s \<Longrightarrow> sys_write killed pid devw u p i s = Inr (out, k, s') \<Longrightarrow> file_inv s'"
  by (auto simp: sys_write_def dest: filewrite_inv split: option.splits)

lemma file_step_inv: "file_step s s' \<Longrightarrow> file_inv s \<Longrightarrow> file_inv s'"
proof (induction rule: file_step.induct)
  case (step_dup p s u r s')
  then show ?case using sys_dup_inv[of s p u] by (metis Inr_inject prod.inject)
next
  case (step_close p s pid u r s')
  then show ?case using sys_close_inv[of s p pid u] by auto
next
  case (step_pipe p s page pid u r u' s')
  then show ?case using sys_pipe_inv[of s p page pid u] by (metis Inr_inject prod.inject)
next
  case (step_open p s pid junk u r s')
  then show ?case using sys_open_inv by blast
next
  case (step_read killed pid devr u p s out u' s')
  then show ?case using sys_read_inv by blast
next
  case (step_write killed pid devw u p i s out k s')
  then show ?case using sys_write_inv by blast
next
  case (step_fstat pid u p s r u' s')
  then show ?case using sys_fstat_frame by fastforce
next
  case (step_link pid junk u p s r s')
  then show ?case using sys_link_frame by fastforce
next
  case (step_unlink pid junk u p s r s')
  then show ?case using sys_unlink_frame by fastforce
next
  case (step_mkdir pid junk u p s r s')
  then show ?case using sys_mkdir_frame by fastforce
next
  case (step_mknod pid junk u p s r s')
  then show ?case using sys_mknod_frame by fastforce
next
  case (step_chdir pid junk u p s r s')
  then show ?case using sys_chdir_frame by fastforce
next
  case (step_fork cur s np s')
  then show ?case using fork_files_inv[of s cur np] by (metis Inr_inject)
next
  case (step_exit p s pid s')
  then show ?case using exit_files_inv[of s p pid] by simp
qed

definition closed_file :: ofile where
  "closed_file = \<lparr>f_type = FD_NONE, f_ref = 0, f_readable = False, f_writable = False, f_pipe = 0, f_ip = 0, f_off = 0\<rparr>"

definition boot_files :: "nat \<Rightarrow> fsys \<Rightarrow> kern" where
  "boot_files nproc fs = \<lparr>ftable = replicate NFILE closed_file, ofiles = replicate nproc (replicate NOFILE None),
     cwds = replicate nproc 0, pipes = (\<lambda>_. None), woken = [], kfs = fs\<rparr>"

lemma boot_files_inv: "file_inv (boot_files n fs)"
proof -
  have "refs (boot_files n fs) f = 0" for f
    by (simp add: refs_def boot_files_def sum_list_replicate)
  then show ?thesis
    by (auto simp: finv_defs boot_files_def closed_file_def pipe_ends_def end_open_def list_all_iff)
qed

lemma reachable_file_inv: "file_step\<^sup>*\<^sup>* (boot_files n fs) s \<Longrightarrow> file_inv s"
  by (induction rule: rtranclp_induct) (auto intro: boot_files_inv file_step_inv)

subsection \<open>Properties\<close>

text \<open>A descriptor of some process refers to the file.\<close>

definition has_fd :: "kern \<Rightarrow> nat \<Rightarrow> bool" where
  "has_fd s f \<longleftrightarrow> (\<exists>p < length (ofiles s). \<exists>fd < length (ofiles s ! p). ofiles s ! p ! fd = Some f)"

text \<open>Some process has a descriptor of the given end of the pipe.\<close>

definition has_end :: "kern \<Rightarrow> nat \<Rightarrow> bool \<Rightarrow> bool" where
  "has_end s pg w \<longleftrightarrow> (\<exists>f. has_fd s f \<and> f_type (ftable s ! f) = FD_PIPE \<and> f_pipe (ftable s ! f) = pg \<and> f_writable (ftable s ! f) = w)"

lemma end_open_has_end:
  assumes inv: "file_inv s"
  shows "end_open s pg w \<longleftrightarrow> has_end s pg w"
proof
  assume "end_open s pg w"
  then obtain f where "pipe_ends s pg w = {f}" using finvD(10)[OF inv] by blast
  then have f: "f < NFILE" "f_type (ftable s ! f) = FD_PIPE" "f_pipe (ftable s ! f) = pg" "f_writable (ftable s ! f) = w"
    by (auto simp: pipe_ends_def)
  have "f_ref (ftable s ! f) \<noteq> 0" using finvD(5)[OF inv f(1)] f(2) by auto
  then have "0 < refs s f" using finvD(3)[OF inv f(1)] by simp
  then show "has_end s pg w" using f by (auto simp: has_end_def has_fd_def refs_pos_iff)
next
  assume "has_end s pg w"
  then obtain f where f: "0 < refs s f" "f_type (ftable s ! f) = FD_PIPE" "f_pipe (ftable s ! f) = pg" "f_writable (ftable s ! f) = w"
    by (auto simp: has_end_def has_fd_def refs_pos_iff)
  have "f \<in> pipe_ends s pg w" using f finvD(4)[OF inv, of f] by (simp add: pipe_ends_def)
  then show "end_open s pg w" using finvD(8)[OF inv] by blast
qed

text \<open>
  C21: the open file table is consistent in every reachable state. The reference count of a file is
  the number of descriptors of all processes that refer to it, a descriptor never refers to a closed
  file, and dup and close never panic over a count: a close fails only inside iput. The page of a
  pipe is kept exactly as long as a descriptor of one of its ends exists, and the write end (the
  read end) counts as open exactly as long as some process has a descriptor of it, which is what
  the end of file at a reader and the error at a writer depend on.
\<close>

theorem file_table_consistent:
  assumes "file_step\<^sup>*\<^sup>* (boot_files n fs) s"
  shows "(\<forall>f < 100. f_ref (ftable s ! f) = int (refs s f)) \<and>
    (\<forall>f. has_fd s f \<longrightarrow> f < 100 \<and> f_type (ftable s ! f) \<noteq> FD_NONE) \<and>
    (\<forall>pg. pipes s pg \<noteq> None \<longleftrightarrow> has_end s pg True \<or> has_end s pg False) \<and>
    (\<forall>pg p. pipes s pg = Some p \<longrightarrow> (writeopen p \<noteq> 0 \<longleftrightarrow> has_end s pg True) \<and> (readopen p \<noteq> 0 \<longleftrightarrow> has_end s pg False)) \<and>
    (\<forall>p < length (ofiles s). \<forall>pid u. (\<exists>r. sys_dup u p s = Inr r) \<and>
       (\<forall>e. sys_close pid u p s = Inl e \<longrightarrow> (\<exists>f. f_type (ftable s ! f) = FD_INODE \<and> iput pid (f_ip (ftable s ! f)) (kfs s) = Inl e)))"
proof -
  have inv: "file_inv s" by (rule reachable_file_inv[OF assms])
  have fd: "f < 100 \<and> f_type (ftable s ! f) \<noteq> FD_NONE" if "has_fd s f" for f
  proof -
    have r: "0 < refs s f" using that by (simp add: has_fd_def refs_pos_iff)
    then have "f < NFILE" using finvD(4)[OF inv, of f] by simp
    moreover have "f_ref (ftable s ! f) \<noteq> 0" using finvD(3)[OF inv \<open>f < NFILE\<close>] r by simp
    ultimately show ?thesis using finvD(6)[OF inv, of f] by simp
  qed
  have pg: "pipes s pg \<noteq> None \<longleftrightarrow> has_end s pg True \<or> has_end s pg False" for pg
    using finvD(9)[OF inv, of pg] unfolding end_open_has_end[OF inv, symmetric] by (auto simp: end_open_def split: option.splits)
  have op: "(writeopen p \<noteq> 0 \<longleftrightarrow> has_end s pg True) \<and> (readopen p \<noteq> 0 \<longleftrightarrow> has_end s pg False)" if "pipes s pg = Some p" for pg p
    using that unfolding end_open_has_end[OF inv, symmetric] by (simp add: end_open_def)
  have cl: "\<exists>f. f_type (ftable s ! f) = FD_INODE \<and> iput pid (f_ip (ftable s ! f)) (kfs s) = Inl e"
    if "p < length (ofiles s)" "sys_close pid u p s = Inl e" for p pid u e
    using sys_close_inv[OF inv that(1), of pid u] that(2) by auto
  have "\<exists>r. sys_dup u p s = Inr r" if "p < length (ofiles s)" for p u using sys_dup_inv[OF inv that] by metis
  then show ?thesis using finvD(3)[OF inv] fd pg op cl by simp
qed

theorem file_table_consistent_witness:
  "\<exists>r u' s'. sys_pipe 1 (Some (7, [])) \<lparr>sz = 4096, tf_esp = 0, tf_eax = 0, umem = (\<lambda>_. 0)\<rparr> 0 (boot_files 2 sample_fs) = Inr (r, u', s') \<and>
     (pipes s' 7 \<noteq> None \<longleftrightarrow> has_end s' 7 True \<or> has_end s' 7 False) \<and> f_ref (ftable s' ! 0) = int (refs s' 0)"
proof -
  let ?b = "boot_files 2 sample_fs" and ?u = "\<lparr>sz = 4096, tf_esp = 0, tf_eax = 0, umem = (\<lambda>_. 0)\<rparr>"
  have p: "0 < length (ofiles ?b)" and fr: "fresh_page (Some (7, [])) ?b" by (simp_all add: boot_files_def fresh_page_def)
  obtain r u' s' where r: "sys_pipe 1 (Some (7, [])) ?u 0 ?b = Inr (r, u', s')"
    using sys_pipe_inv[OF boot_files_inv p fr, of 1 ?u] by blast
  then have "file_step\<^sup>*\<^sup>* ?b s'" using step_pipe[OF p fr] by blast
  note c = file_table_consistent[OF this]
  have "pipes s' 7 \<noteq> None \<longleftrightarrow> has_end s' 7 True \<or> has_end s' 7 False" using c by blast
  moreover have "f_ref (ftable s' ! 0) = int (refs s' 0)" using conjunct1[OF c] by simp
  ultimately show ?thesis using r by blast
qed

end
