(* ===== verification/FileWrite.thy ===== *)
theory FileWrite
  imports File FsWrite
begin

text \<open>
  Writing to an open file (file.c: filewrite). The write goes to the disk in pieces, each in its own
  log transaction: the lemmas bound the blocks that a piece can change by what a transaction may
  hold (log.c), and show that the pieces together write all the bytes.
\<close>

subsection \<open>The blocks that a piece changes\<close>

abbreviation ind_of :: "nat \<Rightarrow> fsys \<Rightarrow> nat" where
  "ind_of i s \<equiv> ind_block (icache s ! i)"

text \<open>With one bitmap block, an allocation changes that block and the block it hands out.\<close>

lemma balloc_changes:
  assumes "fs_size s \<le> BPB" and "balloc s = Inr (b, s')"
  shows "sb s' = sb s" and "icache s' = icache s" and "c \<noteq> b \<Longrightarrow> c \<noteq> BBLOCK 0 (sb s) \<Longrightarrow> blk s' c = blk s c"
proof -
  let ?bp = "blk s (BBLOCK 0 (sb s))"
  have stop: "balloc_loop BPB s = Inl (Panic ''balloc: out of blocks'')" using assms(1) by (subst balloc_loop.simps) simp
  from assms(2) have "balloc_loop 0 s = Inr (b, s')" by (simp add: balloc_def)
  then obtain bi where "s' = bzero bi (put_blk (BBLOCK 0 (sb s)) (set_block_bit ?bp bi) s)" "b = bi"
    using stop by (subst (asm) balloc_loop.simps) (auto simp: Let_def split: if_splits option.splits)
  then show "sb s' = sb s" "icache s' = icache s" "c \<noteq> b \<Longrightarrow> c \<noteq> BBLOCK 0 (sb s) \<Longrightarrow> blk s' c = blk s c"
    by (simp_all add: bzero_def put_blk_def)
qed

lemma ind_addr_changes:
  assumes sz: "fs_size s \<le> BPB" and lay: "layout_ok s" and i: "i < length (icache s)" "length (i_addrs (icache s ! i)) = 13"
    and a: "ind_addr i s = Inr (a, s')"
  shows "sb s' = sb s" and "ind_of i s' = a" and "ind_of i s \<noteq> 0 \<Longrightarrow> s' = s"
    and "c \<noteq> a \<Longrightarrow> c \<noteq> BBLOCK 0 (sb s) \<Longrightarrow> blk s' c = blk s c" and "fs_size s' \<le> BPB"
proof -
  have "sb s' = sb s \<and> ind_of i s' = a \<and> (ind_of i s \<noteq> 0 \<longrightarrow> s' = s) \<and>
      (c \<noteq> a \<longrightarrow> c \<noteq> BBLOCK 0 (sb s) \<longrightarrow> blk s' c = blk s c) \<and> fs_size s' \<le> BPB"
  proof (cases "i_addrs (icache s ! i) ! NDIRECT = 0")
  case False
  then show ?thesis
    using a sz by (auto simp: ind_addr_def ind_block_def Let_def)
next
  case True
  with a obtain t where t: "balloc s = Inr (a, t)" "s' = upd_inode i (\<lambda>ip. ip\<lparr>i_addrs := (i_addrs ip)[NDIRECT := of_nat a]\<rparr>) t"
    by (auto simp: ind_addr_def Let_def bindR_eq_Inr)
  note B = balloc_changes[OF sz t(1)]
  have "a < fs_size s" using lay t(1) by (cases rule: balloc_cases) (auto dest: allocatedD(2))
  then have "unat (of_nat a :: u32) = a" by (rule unat_of_block)
  then have "ind_of i s' = a" using t(2) B(2) i by (simp add: ind_block_def)
  then show ?thesis
    using B t(2) True sz by (simp add: ind_block_def)
qed
  then show "sb s' = sb s" and "ind_of i s' = a" and "ind_of i s \<noteq> 0 \<Longrightarrow> s' = s"
    and "c \<noteq> a \<Longrightarrow> c \<noteq> BBLOCK 0 (sb s) \<Longrightarrow> blk s' c = blk s c" and "fs_size s' \<le> BPB" by blast+
qed

lemma bmap_indirect:
  "\<not> bn < NDIRECT \<Longrightarrow> bn < MAXFILE \<Longrightarrow> bmap i bn s = bindR (ind_addr i s) (\<lambda>(ind, s).
     let addr = get32 (blk s ind) (bn - NDIRECT) in
     if addr = 0 then bindR (balloc s) (\<lambda>(a, s). Inr (a, put_blk ind (put32 (blk s ind) (bn - NDIRECT) (of_nat a)) s))
     else Inr (unat addr, s))"
proof -
  assume bn: "\<not> bn < NDIRECT" "bn < MAXFILE"
  then have "bn - NDIRECT < NINDIRECT" by linarith
  then show ?thesis using bn(1) by (simp only: bmap_def ind_addr_def Let_def if_False if_True)
qed

lemma bmap_changes:
  assumes sz: "fs_size s \<le> BPB" and lay: "layout_ok s" and i: "i < length (icache s)" "length (i_addrs (icache s ! i)) = 13"
    and bn: "bn < MAXFILE" and b: "bmap i bn s = Inr (a, s')"
  shows "sb s' = sb s" and "ind_of i s \<noteq> 0 \<Longrightarrow> ind_of i s' = ind_of i s"
    and "c \<noteq> a \<Longrightarrow> c \<noteq> BBLOCK 0 (sb s) \<Longrightarrow> c \<noteq> ind_of i s' \<or> bn < NDIRECT \<Longrightarrow> blk s' c = blk s c"
proof -
  have "sb s' = sb s \<and> (ind_of i s \<noteq> 0 \<longrightarrow> ind_of i s' = ind_of i s) \<and>
      (c \<noteq> a \<longrightarrow> c \<noteq> BBLOCK 0 (sb s) \<longrightarrow> c \<noteq> ind_of i s' \<or> bn < NDIRECT \<longrightarrow> blk s' c = blk s c)"
  proof (cases "bn < NDIRECT")
  case True
  show ?thesis
  proof (cases "i_addrs (icache s ! i) ! bn = 0")
    case False
    then show ?thesis using b True by (simp add: bmap_def)
  next
    case unmapped: True
    with b True obtain t where t: "balloc s = Inr (a, t)" "s' = upd_inode i (\<lambda>ip. ip\<lparr>i_addrs := (i_addrs ip)[bn := of_nat a]\<rparr>) t"
      by (auto simp: bmap_def bindR_eq_Inr)
    then show ?thesis using balloc_changes[OF sz t(1)] i True by (simp add: ind_block_def)
  qed
next
  case False
  from b obtain ind t where t: "ind_addr i s = Inr (ind, t)"
    unfolding bmap_indirect[OF False bn] by (auto simp: bindR_eq_Inr)
  note I = ind_addr_changes[OF sz lay i t]
  show ?thesis
  proof (cases "get32 (blk t ind) (bn - NDIRECT) = 0")
    case mapped: False
    then have "s' = t" using b t unfolding bmap_indirect[OF False bn] by (simp add: Let_def)
    then show ?thesis using I False by auto
  next
    case True
    with b t obtain u where u: "balloc t = Inr (a, u)" "s' = put_blk ind (put32 (blk u ind) (bn - NDIRECT) (of_nat a)) u"
      unfolding bmap_indirect[OF False bn] by (auto simp: bindR_eq_Inr Let_def)
    note U = balloc_changes[OF I(5) u(1)]
    have "ind_of i s' = ind" using u(2) U(2) I(2) by simp
    then show ?thesis using U u(2) I False by auto
  qed
qed
  then show "sb s' = sb s" and "ind_of i s \<noteq> 0 \<Longrightarrow> ind_of i s' = ind_of i s"
    and "c \<noteq> a \<Longrightarrow> c \<noteq> BBLOCK 0 (sb s) \<Longrightarrow> c \<noteq> ind_of i s' \<or> bn < NDIRECT \<Longrightarrow> blk s' c = blk s c" by simp_all
qed

text \<open>The data blocks that a stretch of bytes touches.\<close>

definition spanned :: "nat \<Rightarrow> nat \<Rightarrow> nat" where
  "spanned off len = (off mod BSIZE + len + (BSIZE - 1)) div BSIZE"

lemma spanned_pos: "0 < len \<Longrightarrow> 1 \<le> spanned off len"
  by (simp add: spanned_def div_greater_zero_iff Suc_le_eq)

lemma spanned_next:
  assumes "BSIZE - off mod BSIZE < len"
  shows "spanned off len = Suc (spanned (off + (BSIZE - off mod BSIZE)) (len - (BSIZE - off mod BSIZE)))"
proof -
  have lt: "off mod BSIZE < BSIZE" by simp
  then have "off + (BSIZE - off mod BSIZE) = BSIZE * (off div BSIZE) + BSIZE" using mult_div_mod_eq [of BSIZE off] by linarith
  then have z: "(off + (BSIZE - off mod BSIZE)) mod BSIZE = 0" by (simp only: mod_add_self2 mod_mult_self1_is_0)
  have "off mod BSIZE + len + (BSIZE - 1) = (len - (BSIZE - off mod BSIZE) + (BSIZE - 1)) + BSIZE" using lt assms by linarith
  then show ?thesis unfolding spanned_def z by simp
qed

lemma spanned_piece: "len \<le> 1536 \<Longrightarrow> spanned off len \<le> 4"
proof -
  assume l: "len \<le> 1536"
  have "off mod BSIZE < BSIZE" by simp
  then have "off mod BSIZE + len + (BSIZE - 1) < 5 * BSIZE" using l by linarith
  then show ?thesis unfolding spanned_def by (simp add: less_Suc_eq_le div_less_iff_less_mult flip: less_Suc_eq_le)
qed

text \<open>What the loop of writei changes: the bitmap block, the indirect block, and the data blocks it touches.\<close>

definition changes_only :: "nat set \<Rightarrow> fsys \<Rightarrow> fsys \<Rightarrow> bool" where
  "changes_only D s t \<longleftrightarrow> (\<forall>c. c \<notin> D \<longrightarrow> blk t c = blk s c)"

lemma writei_loop_changes:
  assumes "layout_ok s" "file_ok s (icache s ! i)" "i < length (icache s)" "off + length src \<le> MAXFILE * BSIZE"
    and "fs_size s \<le> BPB" and "writei_loop i off src s = Inr t"
  shows "\<exists>D. finite D \<and> card D \<le> spanned off (length src) \<and> changes_only (insert (BBLOCK 0 (sb s)) (insert (ind_of i t) D)) s t \<and>
    (ind_of i s \<noteq> 0 \<longrightarrow> ind_of i t = ind_of i s) \<and> sb t = sb s"
  using assms
proof (induction "length src" arbitrary: off src s rule: less_induct)
  case less
  show ?case
  proof (cases "src = []")
    case True
    then have "t = s" using less.prems(6) by (simp add: writei_loop.simps [of _ _ "[]"])
    then show ?thesis by (auto intro!: exI [of _ "{}"] simp: changes_only_def)
  next
    case False
    let ?m = "min (length src) (BSIZE - off mod BSIZE)" and ?bn = "off div BSIZE"
    have m: "0 < ?m" "?m \<le> length src" "off mod BSIZE + ?m \<le> BSIZE" using False by (auto simp: min_def)
    have bn: "?bn < MAXFILE" using less.prems(4) False by (cases src) (simp_all add: less_mult_imp_div_less)
    obtain a u where b: "bmap i ?bn s = Inr (a, u)"
      using less.prems(6) False by (subst (asm) writei_loop.simps) (auto simp: bindR_eq_Inr)
    then have k: "keeps_file i s u" "a \<noteq> 0" "faddr u (icache u ! i) ?bn = a" using bmap_ok [OF less.prems(1-3) bn] by auto
    note B = bmap_changes [OF less.prems(5,1,3) file_okD(1) [OF less.prems(2)] bn b]
    have ku: "layout_ok u" "file_ok u (icache u ! i)" "i < length (icache u)"
      using k(1) less.prems(3) extendsD(2) [of i s u] by (simp_all add: keeps_file_def)
    define v where "v = put_blk a (splice (off mod BSIZE) (take ?m src) (blk u a)) u"
    have q: "off mod BSIZE + length (take ?m src) \<le> BSIZE" using m(3) by simp
    have v: "layout_ok v" "file_ok v (icache v ! i)" "i < length (icache v)" "icache v = icache u" "sb v = sb s"
      using write_chunk(1,2) [OF ku(1,2) bn k(3,2) q] ku(3) B(1) by (simp_all add: v_def)
    have step: "writei_loop i (off + ?m) (drop ?m src) v = Inr t"
      using less.prems(6) b False by (simp add: writei_loop.simps [of _ _ src] Let_def v_def)
    have l: "length (drop ?m src) < length src" "off + ?m + length (drop ?m src) \<le> MAXFILE * BSIZE" using m(1,2) less.prems(4) by auto
    have "fs_size v \<le> BPB" using less.prems(5) v(5) by simp
    from less.hyps [OF l(1) v(1-3) l(2) this step] obtain D where D: "finite D" "card D \<le> spanned (off + ?m) (length (drop ?m src))"
      "changes_only (insert (BBLOCK 0 (sb v)) (insert (ind_of i t) D)) v t" "ind_of i v \<noteq> 0 \<Longrightarrow> ind_of i t = ind_of i v" "sb t = sb v"
      by blast
    define D' where "D' = (if ?m = length src then {a} else insert a D)"
    have ind: "ind_of i u = ind_of i t" if "\<not> ?bn < NDIRECT"
    proof -
      have "i_addrs (icache u ! i) ! NDIRECT \<noteq> 0" using k(2,3) that by (auto simp: faddr_def)
      then show ?thesis using D(4) v(4) by (simp add: ind_block_def unat_eq_0)
    qed
    have same: "t = v" if "?m = length src" using step that by (simp add: writei_loop.simps [of _ _ "[]"])
    have sv: "blk v c = blk s c" if "c \<noteq> a" "c \<noteq> BBLOCK 0 (sb s)" "c \<noteq> ind_of i t" for c
      using B(3) [of c] that ind by (auto simp: v_def)
    have "changes_only (insert (BBLOCK 0 (sb s)) (insert (ind_of i t) D')) s t"
      using D(3) v(5) sv same unfolding changes_only_def D'_def by auto
    moreover have "finite D'" using D(1) by (simp add: D'_def)
    moreover have "card D' \<le> spanned off (length src)"
    proof (cases "?m = length src")
      case True
      then show ?thesis using spanned_pos [of "length src" off] False by (simp add: D'_def)
    next
      case ne: False
      then have m': "?m = BSIZE - off mod BSIZE" "BSIZE - off mod BSIZE < length src" by linarith+
      have "card D' \<le> Suc (card D)" using ne D(1) by (simp add: D'_def card_insert_if)
      then show ?thesis using D(2) spanned_next [OF m'(2)] m'(1) by simp
    qed
    moreover have "ind_of i s \<noteq> 0 \<longrightarrow> ind_of i t = ind_of i s" using B(2) D(4) v(4) by auto
    ultimately show ?thesis using D(5) v(5) by metis
  qed
qed

lemma changes_only_mono: "changes_only D s t \<Longrightarrow> D \<subseteq> D' \<Longrightarrow> changes_only D' s t"
  by (auto simp: changes_only_def)

text \<open>What writei returns on a file: nothing was done, or the loop ran and the size was set.\<close>

lemma writei_cases:
  assumes ty: "i_type (icache s ! i) \<noteq> T_DEV" and w: "writei devsw i src off n s = Inr (r, s')"
  obtains "s' = s" | t where "writei_loop i (unat off) (take (unat n) src) s = Inr t" "unat n \<le> length src"
      "s' = (if 0 < n \<and> i_size (icache t ! i) < off + n then iupdate i (upd_inode i (\<lambda>ip. ip\<lparr>i_size := off + n\<rparr>) t) else t)"
proof (cases "(i_size (icache s ! i) < off \<or> off + n < off) \<or> of_nat (MAXFILE * BSIZE) < off + n")
  case True
  then show thesis using w ty that(1) by (auto simp: writei_def Let_def split: if_splits)
next
  case False
  then have l: "unat n \<le> length src" using w ty by (auto simp: writei_def Let_def split: if_splits)
  have eq: "writei devsw i src off n s = bindR (writei_loop i (unat off) (take (unat n) src) s) (\<lambda>s.
      Inr (uint n, if 0 < n \<and> i_size (icache s ! i) < off + n then iupdate i (upd_inode i (\<lambda>ip. ip\<lparr>i_size := off + n\<rparr>) s) else s))"
    using False ty l by (simp add: writei_def Let_def)
  show thesis
  proof (cases "writei_loop i (unat off) (take (unat n) src) s")
    case (Inr t)
    then show thesis using w l that(2) [of t] unfolding eq by simp
  qed (use w eq in simp)
qed

text \<open>A write of at most one piece changes seven blocks at most: four of data, the indirect block, the bitmap and the inode.\<close>

lemma writei_changes:
  assumes lay: "layout_ok s" and ok: "inode_ok s i" and n: "unat off + unat n \<le> MAXFILE * BSIZE" "unat n \<le> 1536"
    and sz: "fs_size s \<le> BPB" and w: "writei devsw i src off n s = Inr (r, s')"
  obtains D where "finite D" and "card D \<le> 7" and "changes_only D s s'"
proof -
  note I = inode_okD [OF ok]
  from I(5) w show thesis
  proof (cases rule: writei_cases)
    case 1
    then show thesis using that [of "{}"] by (simp add: changes_only_def)
  next
    case (2 t)
    let ?src = "take (unat n) src"
    have len: "length ?src = unat n" using 2(2) by simp
    have "unat off + length ?src \<le> MAXFILE * BSIZE" using n(1) len by simp
    from writei_loop_changes [OF lay I(2,1) this sz 2(1)] obtain D where D: "finite D" "card D \<le> spanned (unat off) (unat n)"
      "changes_only (insert (BBLOCK 0 (sb s)) (insert (ind_of i t) D)) s t" unfolding len by blast
    let ?ib = "IBLOCK (unat (i_inum (icache (upd_inode i (\<lambda>ip. ip\<lparr>i_size := off + n\<rparr>) t) ! i))) (sb t)"
    let ?D = "insert ?ib (insert (BBLOCK 0 (sb s)) (insert (ind_of i t) D))"
    have "changes_only ?D s s'"
      using D(3) 2(3) by (auto simp: changes_only_def iupdate_def Let_def)
    moreover have "card ?D \<le> 7"
    proof -
      have "card D \<le> 4" using D(2) spanned_piece [OF n(2), of "unat off"] by (rule order_trans)
      then show ?thesis using D(1) by (simp add: card_insert_if)
    qed
    ultimately show thesis using that [of ?D] D(1) by simp
  qed
qed

subsection \<open>Locked inodes\<close>

text \<open>A file in use whose inode is in the cache and not locked.\<close>

definition idle :: "fsys \<Rightarrow> nat \<Rightarrow> bool" where
  "idle s i \<longleftrightarrow> i_lock (icache s ! i) = None \<and> 1 \<le> i_ref (icache s ! i) \<and> i_valid (icache s ! i)"

abbreviation locked :: "int \<Rightarrow> nat \<Rightarrow> fsys \<Rightarrow> fsys" where
  "locked pid i s \<equiv> upd_inode i (\<lambda>ip. ip\<lparr>i_lock := Some pid\<rparr>) s"

abbreviation unlocked :: "nat \<Rightarrow> fsys \<Rightarrow> fsys" where
  "unlocked i s \<equiv> upd_inode i (\<lambda>ip. ip\<lparr>i_lock := None\<rparr>) s"

lemma lock_file_frame:
  "faddr s (ip\<lparr>i_lock := x\<rparr>) = faddr s ip" "file_blocks s (ip\<lparr>i_lock := x\<rparr>) = file_blocks s ip"
  "file_ok s (ip\<lparr>i_lock := x\<rparr>) = file_ok s ip" "file_data s (ip\<lparr>i_lock := x\<rparr>) = file_data s ip"
proof -
  show f: "faddr s (ip\<lparr>i_lock := x\<rparr>) = faddr s ip" by (simp add: faddr_def fun_eq_iff)
  show b: "file_blocks s (ip\<lparr>i_lock := x\<rparr>) = file_blocks s ip" by (simp add: file_blocks_def f ind_block_def)
  show "file_ok s (ip\<lparr>i_lock := x\<rparr>) = file_ok s ip" by (simp add: file_ok_def f b ind_block_def)
  show "file_data s (ip\<lparr>i_lock := x\<rparr>) = file_data s ip" by (simp add: file_data_def fcont_def f Let_def)
qed

lemma upd_inode_frame:
  "layout_ok (upd_inode i g s) = layout_ok s" "file_ok (upd_inode i g s) jp = file_ok s jp" "file_data (upd_inode i g s) jp = file_data s jp"
  "faddr (upd_inode i g s) jp = faddr s jp"
proof -
  have u: "used (upd_inode i g s) = used s" by (rule used_cong) simp_all
  show "layout_ok (upd_inode i g s) = layout_ok s" by (rule layout_cong) simp_all
  show f: "faddr (upd_inode i g s) jp = faddr s jp" by (simp add: faddr_def fun_eq_iff)
  have ds: "data_start (upd_inode i g s) = data_start s" by (rule data_start_sb) simp
  have b: "file_blocks (upd_inode i g s) jp = file_blocks s jp" by (simp add: file_blocks_def f)
  show "file_ok (upd_inode i g s) jp = file_ok s jp" by (simp only: file_ok_def f b u ds upd_inode_simps)
  show "file_data (upd_inode i g s) jp = file_data s jp" by (simp add: file_data_def fcont_def f Let_def)
qed

lemma lock_frame:
  fixes x :: "int option"
  assumes i: "i < length (icache s)"
  defines "t \<equiv> upd_inode i (\<lambda>ip. ip\<lparr>i_lock := x\<rparr>) s"
  shows "layout_ok t = layout_ok s" "inode_ok t i = inode_ok s i" "file_data t (icache t ! i) = file_data s (icache s ! i)"
    "i_size (icache t ! i) = i_size (icache s ! i)" "i < length (icache t)"
proof -
  have ic: "icache t ! i = (icache s ! i)\<lparr>i_lock := x\<rparr>" using i by (simp add: t_def)
  have z: "i_size ((icache s ! i)\<lparr>i_lock := x\<rparr>) = i_size (icache s ! i)" by simp
  show "layout_ok t = layout_ok s" unfolding t_def by (rule upd_inode_frame)
  show "file_data t (icache t ! i) = file_data s (icache s ! i)" unfolding ic lock_file_frame unfolding t_def upd_inode_frame ..
  show "i_size (icache t ! i) = i_size (icache s ! i)" "i < length (icache t)" using ic i by (simp_all add: t_def)
  have "file_ok t (icache t ! i) = file_ok s (icache s ! i)" unfolding ic lock_file_frame unfolding t_def upd_inode_frame ..
  moreover have "no_holes t (icache t ! i) = no_holes s (icache s ! i)"
    unfolding no_holes_def ic lock_file_frame unfolding t_def upd_inode_frame z ..
  ultimately show "inode_ok t i = inode_ok s i" unfolding inode_ok_def using i ic by (simp add: t_def)
qed

text \<open>writei changes the addresses and the size of the inode only.\<close>

lemma writei_inode:
  assumes "layout_ok s" and ok: "inode_ok s i" and "unat off + unat n \<le> MAXFILE * BSIZE" and w: "writei devsw i src off n s = Inr (r, s')"
  obtains a z where "icache s' ! i = (icache s ! i)\<lparr>i_addrs := a, i_size := z\<rparr>" and "length (icache s') = length (icache s)"
proof -
  note I = inode_okD [OF ok]
  from I(5) w show thesis
  proof (cases rule: writei_cases)
    case 1
    then show thesis using that [where a = "i_addrs (icache s ! i)" and z = "i_size (icache s ! i)"] by simp
  next
    case (2 t)
    have "wrote i (unat off) (take (unat n) src) s t" using writei_loop_ok [OF assms(1) I(2,1), of "unat off" "take (unat n) src"] 2(1) assms(3) by simp
    then have e: "extends i s t" by (simp add: wrote_def)
    obtain a where a: "icache t ! i = (icache s ! i)\<lparr>i_addrs := a\<rparr>" using extendsD(4) [OF e] by blast
    have l: "length (icache t) = length (icache s)" using extendsD(2) [OF e] .
    show thesis
    proof (cases "0 < n \<and> i_size (icache t ! i) < off + n")
      case True
      then show thesis using that [where a = a and z = "off + n"] 2(3) a l I(1) by (simp add: iupdate_def Let_def)
    next
      case False
      then have "s' = t" using 2(3) by (simp only: if_False)
      then show thesis using that [where a = a and z = "i_size (icache s ! i)"] a l by simp
    qed
  qed
qed

lemma writei_take:
  assumes "i_type (icache s ! i) \<noteq> T_DEV" and "unat n \<le> length src"
  shows "writei devsw i src off n s = writei devsw i (take (unat n) src) off n s"
  using assms by (simp add: writei_def Let_def)

subsection \<open>All the pieces\<close>

text \<open>One piece: lock, write, unlock.\<close>

lemma piece_ok:
  assumes lay: "layout_ok s" and ok: "inode_ok s i" and id: "idle s i" and off: "off \<le> i_size (icache s ! i)"
    and n: "unat off + unat n \<le> MAXFILE * BSIZE" "unat n \<le> length src"
  defines "D \<equiv> file_data s (icache s ! i)"
  shows "ilock pid i s = Inr (locked pid i s)"
    and "writei devsw i src off n (locked pid i s) = Inl (Panic ''balloc: out of blocks'') \<or>
      (\<exists>t. writei devsw i src off n (locked pid i s) = Inr (uint n, t) \<and> iunlock pid i t = Inr (unlocked i t) \<and>
        layout_ok (unlocked i t) \<and> inode_ok (unlocked i t) i \<and> idle (unlocked i t) i \<and>
        file_data (unlocked i t) (icache (unlocked i t) ! i) = take (unat off) D @ take (unat n) src @ drop (unat off + unat n) D)"
proof -
  let ?s = "locked pid i s"
  have i: "i < length (icache s)" using inode_okD(1) [OF ok] .
  note L = lock_frame [OF i, of "Some pid"]
  have s: "layout_ok ?s" "inode_ok ?s i" "file_data ?s (icache ?s ! i) = D" "off \<le> i_size (icache ?s ! i)"
    using L lay ok off by (simp_all add: D_def)
  show "ilock pid i s = Inr ?s" using id i by (simp add: ilock_def idle_def Let_def)
  have tk: "writei devsw i src off n ?s = writei devsw i (take (unat n) src) off n ?s"
    using inode_okD(5) [OF s(2)] n(2) by (rule writei_take)
  have len: "length (take (unat n) src) = unat n" using n(2) by simp
  note W = writei_ok [OF s(1,2,4) n(1) len, of devsw, folded tk]
  show "writei devsw i src off n ?s = Inl (Panic ''balloc: out of blocks'') \<or>
      (\<exists>t. writei devsw i src off n ?s = Inr (uint n, t) \<and> iunlock pid i t = Inr (unlocked i t) \<and>
        layout_ok (unlocked i t) \<and> inode_ok (unlocked i t) i \<and> idle (unlocked i t) i \<and>
        file_data (unlocked i t) (icache (unlocked i t) ! i) = take (unat off) D @ take (unat n) src @ drop (unat off + unat n) D)"
  proof (cases "writei devsw i src off n ?s = Inl (Panic ''balloc: out of blocks'')")
    case False
    with W obtain t where t: "writei devsw i src off n ?s = Inr (uint n, t)" "layout_ok t" "inode_ok t i"
      "file_data t (icache t ! i) = take (unat off) D @ take (unat n) src @ drop (unat off + unat n) D"
      unfolding s(3) by blast
    obtain a z where az: "icache t ! i = (icache ?s ! i)\<lparr>i_addrs := a, i_size := z\<rparr>" "length (icache t) = length (icache ?s)"
      using writei_inode [OF s(1,2) n(1) t(1)] .
    have it: "i < length (icache t)" using az(2) i by simp
    have fl: "i_lock (icache t ! i) = Some pid" "1 \<le> i_ref (icache t ! i)" "i_valid (icache t ! i)"
      using az(1) id i by (simp_all add: idle_def)
    have "iunlock pid i t = Inr (unlocked i t)" "idle (unlocked i t) i" using fl it by (simp_all add: iunlock_def idle_def)
    then show ?thesis using t lock_frame [OF it, of None] by auto
  qed simp
qed

lemma splice_pieces:
  assumes "off \<le> length D" and "length p = n1"
  shows "take (off + n1) (take off D @ p @ drop (off + n1) D) @ q @ drop (off + n1 + m) (take off D @ p @ drop (off + n1) D) =
    take off D @ (p @ q) @ drop (off + n1 + m) D"
  using assms by (simp add: min_def ac_simps)

lemma filewrite_loop_ok:
  assumes "layout_ok (kfs s)" "inode_ok (kfs s) ip" "idle (kfs s) ip" "f < length (ftable s)" "f_ip (ftable s ! f) = ip"
    and "f_off (ftable s ! f) \<le> i_size (icache (kfs s) ! ip)" "unat (f_off (ftable s ! f)) + nat (n - i) \<le> 71680"
    and "0 \<le> i" "i \<le> n" "length addr = nat n"
  shows "filewrite_loop pid devsw f addr n i s = Inl (Panic ''balloc: out of blocks'') \<or>
    (\<exists>s'. filewrite_loop pid devsw f addr n i s = Inr (n, s') \<and> layout_ok (kfs s') \<and> inode_ok (kfs s') ip \<and> idle (kfs s') ip \<and>
      ftable s' = (ftable s)[f := (ftable s ! f)\<lparr>f_off := f_off (ftable s ! f) + word_of_int (n - i)\<rparr>] \<and>
      file_data (kfs s') (icache (kfs s') ! ip) = take (unat (f_off (ftable s ! f))) (file_data (kfs s) (icache (kfs s) ! ip)) @ drop (nat i) addr @
        drop (unat (f_off (ftable s ! f)) + nat (n - i)) (file_data (kfs s) (icache (kfs s) ! ip)))"
  using assms
proof (induction "nat (n - i)" arbitrary: i s rule: less_induct)
  case less
  let ?off = "f_off (ftable s ! f)" and ?D = "file_data (kfs s) (icache (kfs s) ! ip)"
  have len: "length ?D = unat (i_size (icache (kfs s) ! ip))" by (simp add: file_data_def)
  then have od: "unat ?off \<le> length ?D" using less.prems(6) by (simp add: word_le_nat_alt)
  show ?case
  proof (cases "i < n")
    case False
    then have "i = n" using less.prems(9) by simp
    then show ?thesis using less.prems od by (subst (1 2) filewrite_loop.simps) simp
  next
    case True
    define n1 where "n1 = (if n - i > filewrite_max then filewrite_max else n - i)"
    have n1: "0 < n1" "n1 \<le> n - i" "n1 \<le> 1536" using True by (auto simp: n1_def filewrite_max_def)
    define w :: u32 where "w = word_of_int n1"
    have w: "unat w = nat n1" "uint w = n1" using n1 by (simp_all add: w_def unat_word_of_int_id uint_word_of_int_id)
    have lim: "unat ?off + unat w \<le> MAXFILE * BSIZE" using less.prems(7) n1 w(1) by simp
    have src: "unat w \<le> length (drop (nat i) addr)" using w(1) n1 less.prems(8,10) by simp
    note P1 = piece_ok(1) [OF less.prems(1-3,6) lim src, of pid]
      and P2 = piece_ok(2) [OF less.prems(1-3,6) lim src, where pid = pid and devsw = devsw]
    show ?thesis
    proof (cases "writei devsw ip (drop (nat i) addr) ?off w (locked pid ip (kfs s)) = Inl (Panic ''balloc: out of blocks'')")
      case full: True
      have "filewrite_loop pid devsw f addr n i s = Inl (Panic ''balloc: out of blocks'')"
        using True P1 full less.prems(5) by (subst filewrite_loop.simps) (simp add: Let_def w_def n1_def)
      then show ?thesis by blast
    next
      case False
      then obtain t where t: "writei devsw ip (drop (nat i) addr) ?off w (locked pid ip (kfs s)) = Inr (n1, t)"
        "iunlock pid ip t = Inr (unlocked ip t)" "layout_ok (unlocked ip t)" "inode_ok (unlocked ip t) ip" "idle (unlocked ip t) ip"
        "file_data (unlocked ip t) (icache (unlocked ip t) ! ip) = take (unat ?off) ?D @ take (nat n1) (drop (nat i) addr) @ drop (unat ?off + nat n1) ?D"
        using P2 unfolding w by blast
      define s1 where "s1 = (upd_file f (\<lambda>x. x\<lparr>f_off := f_off x + word_of_int n1\<rparr>) s)\<lparr>kfs := unlocked ip t\<rparr>"
      have step: "filewrite_loop pid devsw f addr n i s = filewrite_loop pid devsw f addr n (i + n1) s1"
        using True P1 t(1,2) less.prems(5) n1(1) by (subst filewrite_loop.simps) (simp add: Let_def w_def s1_def flip: n1_def)
      have k1: "kfs s1 = unlocked ip t" "ftable s1 = (ftable s)[f := (ftable s ! f)\<lparr>f_off := ?off + w\<rparr>]"
        by (simp_all add: s1_def upd_file_def w_def)
      have f1: "ftable s1 ! f = (ftable s ! f)\<lparr>f_off := ?off + w\<rparr>" "length (ftable s1) = length (ftable s)" using k1(2) less.prems(4) by simp_all
      have o1: "unat (?off + w) = unat ?off + nat n1" using add_no_wrap(1) [of ?off w] lim w(1) by simp
      let ?D1 = "file_data (kfs s1) (icache (kfs s1) ! ip)" and ?p = "take (nat n1) (drop (nat i) addr)"
      have D1: "?D1 = take (unat ?off) ?D @ ?p @ drop (unat ?off + nat n1) ?D" using t(6) k1(1) by simp
      have lp: "length ?p = nat n1" using src w(1) by simp
      have "length ?D1 = unat (i_size (icache (kfs s1) ! ip))" by (simp add: file_data_def)
      moreover have "unat ?off + nat n1 \<le> length ?D1" unfolding D1 using od lp by simp
      ultimately have sz1: "f_off (ftable s1 ! f) \<le> i_size (icache (kfs s1) ! ip)" using f1(1) o1 by (simp add: word_le_nat_alt)
      have "nat (n - (i + n1)) < nat (n - i)" using True n1(1) by simp
      from less.hyps [OF this, of s1] t(3-5) k1(1) f1 less.prems(4,5,7-10) sz1 o1 n1
      have IH: "filewrite_loop pid devsw f addr n (i + n1) s1 = Inl (Panic ''balloc: out of blocks'') \<or>
        (\<exists>s'. filewrite_loop pid devsw f addr n (i + n1) s1 = Inr (n, s') \<and> layout_ok (kfs s') \<and> inode_ok (kfs s') ip \<and> idle (kfs s') ip \<and>
          ftable s' = (ftable s1)[f := (ftable s1 ! f)\<lparr>f_off := f_off (ftable s1 ! f) + word_of_int (n - (i + n1))\<rparr>] \<and>
          file_data (kfs s') (icache (kfs s') ! ip) = take (unat ?off + nat n1) ?D1 @ drop (nat (i + n1)) addr @ drop (unat ?off + nat n1 + nat (n - (i + n1))) ?D1)"
        by simp
      have ft: "(ftable s1)[f := (ftable s1 ! f)\<lparr>f_off := f_off (ftable s1 ! f) + word_of_int (n - (i + n1))\<rparr>] =
          (ftable s)[f := (ftable s ! f)\<lparr>f_off := ?off + word_of_int (n - i)\<rparr>]"
      proof -
        have "word_of_int n1 + word_of_int (n - (i + n1)) = (word_of_int (n - i) :: u32)" unfolding wi_hom_add by simp
        then have "?off + w + word_of_int (n - (i + n1)) = ?off + word_of_int (n - i)" unfolding w_def by (simp only: add.assoc)
        then show ?thesis unfolding k1(2) using less.prems(4) by simp
      qed
      have ad: "?p @ drop (nat (i + n1)) addr = drop (nat i) addr"
        using n1(1) less.prems(8) append_take_drop_id [of "nat n1" "drop (nat i) addr"] by (simp add: nat_add_distrib add.commute)
      have sum: "nat n1 + nat (n - (i + n1)) = nat (n - i)" using n1 by simp
      have data: "take (unat ?off + nat n1) ?D1 @ drop (nat (i + n1)) addr @ drop (unat ?off + nat n1 + nat (n - (i + n1))) ?D1 =
          take (unat ?off) ?D @ drop (nat i) addr @ drop (unat ?off + nat (n - i)) ?D"
        unfolding D1 splice_pieces [OF od lp] ad by (simp add: add.assoc sum)
      show ?thesis using IH unfolding step ft data by blast
    qed
  qed
qed

subsection \<open>Properties\<close>

text \<open>
  C22: a write to an open file writes all its bytes. The write of any number of bytes at the offset of
  the file, within the largest file size, is cut into pieces and either runs out of disk blocks and
  panics, or returns the number of bytes and has replaced just the bytes from the offset on,
  extending the file when it passes the end; the offset has moved by that number, the inode is
  unlocked again, and other open files keep their offsets.
\<close>

theorem filewrite_writes_all:
  assumes "layout_ok (kfs s)" "f < length (ftable s)" "f_type (ftable s ! f) = FD_INODE" "f_writable (ftable s ! f)"
    "inode_ok (kfs s) (f_ip (ftable s ! f))" "idle (kfs s) (f_ip (ftable s ! f))"
    "f_off (ftable s ! f) \<le> i_size (icache (kfs s) ! f_ip (ftable s ! f))" "unat (f_off (ftable s ! f)) + length addr \<le> 71680"
  shows "filewrite killed pid devsw f addr (int (length addr)) 0 s = Inl (Panic ''balloc: out of blocks'') \<or>
    (\<exists>s'. filewrite killed pid devsw f addr (int (length addr)) 0 s = Inr (Returned (int (length addr)), length addr, s') \<and>
      layout_ok (kfs s') \<and> inode_ok (kfs s') (f_ip (ftable s ! f)) \<and> idle (kfs s') (f_ip (ftable s ! f)) \<and>
      ftable s' = (ftable s)[f := (ftable s ! f)\<lparr>f_off := f_off (ftable s ! f) + of_nat (length addr)\<rparr>] \<and>
      file_data (kfs s') (icache (kfs s') ! f_ip (ftable s ! f)) =
        take (unat (f_off (ftable s ! f))) (file_data (kfs s) (icache (kfs s) ! f_ip (ftable s ! f))) @ addr @
        drop (unat (f_off (ftable s ! f)) + length addr) (file_data (kfs s) (icache (kfs s) ! f_ip (ftable s ! f))))"
proof -
  have fw: "filewrite killed pid devsw f addr (int (length addr)) 0 s =
      bindR (filewrite_loop pid devsw f addr (int (length addr)) 0 s) (\<lambda>(i, s).
        Inr (Returned (if i = int (length addr) then int (length addr) else -1), nat i, s))"
    using assms(3,4) by (simp add: filewrite_def Let_def)
  from filewrite_loop_ok [OF assms(1,5,6,2) refl assms(7), of "int (length addr)" 0 addr pid devsw] assms(8)
  show ?thesis unfolding fw by auto
qed

theorem filewrite_writes_all_witness:
  "let s = \<lparr>ftable = [\<lparr>f_type = FD_INODE, f_ref = 1, f_readable = True, f_writable = True, f_pipe = 0, f_ip = 0, f_off = 2\<rparr>],
       ofiles = [], cwds = [], pipes = (\<lambda>_. None), woken = [], kfs = unlocked 0 sample_file\<rparr> in
     filewrite False 1 (\<lambda>_. None) 0 [7, 8] 2 0 s = Inl (Panic ''balloc: out of blocks'') \<or>
     (\<exists>s'. filewrite False 1 (\<lambda>_. None) 0 [7, 8] 2 0 s = Inr (Returned 2, 2, s') \<and> file_data (kfs s') (icache (kfs s') ! 0) = [1, 2, 7, 8])"
proof -
  let ?s = "\<lparr>ftable = [\<lparr>f_type = FD_INODE, f_ref = 1, f_readable = True, f_writable = True, f_pipe = 0, f_ip = 0, f_off = 2\<rparr>],
       ofiles = [], cwds = [], pipes = (\<lambda>_. None), woken = [], kfs = unlocked 0 sample_file\<rparr>"
  have sz: "i_size (icache sample_file ! 0) = 3" by (simp add: sample_file_def)
  have d: "file_data sample_file (icache sample_file ! 0) = [1, 2, 3]"
    using sample_file_faddr [of 0] by (simp add: file_data_def fcont_def sz upt_rec) (simp add: sample_file_def)
  have l: "0 < length (icache sample_file)" by (simp add: sample_file_def)
  note L = lock_frame [OF l, of None]
  define fs where "fs = unlocked 0 sample_file"
  have F: "layout_ok fs" "inode_ok fs 0" "file_data fs (icache fs ! 0) = [1, 2, 3]" "i_size (icache fs ! 0) = 3"
    unfolding fs_def L by (fact sample_file_layout sample_file_inode d sz)+
  have id: "idle fs 0" by (simp add: idle_def sample_file_def fs_def)
  let ?t = "\<lparr>ftable = [\<lparr>f_type = FD_INODE, f_ref = 1, f_readable = True, f_writable = True, f_pipe = 0, f_ip = 0, f_off = 2\<rparr>],
       ofiles = [], cwds = [], pipes = (\<lambda>_. None), woken = [], kfs = fs\<rparr>"
  have "filewrite False 1 (\<lambda>_. None) 0 [7, 8] 2 0 ?t = Inl (Panic ''balloc: out of blocks'') \<or>
     (\<exists>s'. filewrite False 1 (\<lambda>_. None) 0 [7, 8] 2 0 ?t = Inr (Returned 2, 2, s') \<and> file_data (kfs s') (icache (kfs s') ! 0) = [1, 2, 7, 8])"
  proof -
    have P: "layout_ok (kfs ?t)" "0 < length (ftable ?t)" "f_type (ftable ?t ! 0) = FD_INODE" "f_writable (ftable ?t ! 0)"
      "inode_ok (kfs ?t) (f_ip (ftable ?t ! 0))" "idle (kfs ?t) (f_ip (ftable ?t ! 0))"
      "f_off (ftable ?t ! 0) \<le> i_size (icache (kfs ?t) ! f_ip (ftable ?t ! 0))" "unat (f_off (ftable ?t ! 0)) + length [7 :: u8, 8] \<le> 71680"
      by (simp_all add: F id)
    from filewrite_writes_all [OF P, of False 1 "\<lambda>_. None"] show ?thesis by (auto simp: F(3))
  qed
  then show ?thesis unfolding fs_def Let_def .
qed

text \<open>
  C23: every piece of a write fits in a log transaction. On a disk whose bitmap is one block, as mkfs
  makes it, a call of writei with at most the bytes of one piece of filewrite changes at most seven
  disk blocks (four of data, the indirect block, the bitmap and the inode block), fewer than the ten
  that begin_op reserves for an operation.
\<close>

theorem filewrite_piece_fits_transaction:
  assumes "layout_ok s" "inode_ok s i" "unat off + unat n \<le> 71680" "uint n \<le> filewrite_max" "fs_size s \<le> 4096"
    "writei devsw i src off n s = Inr (r, s')"
  shows "finite {b. blk s' b \<noteq> blk s b} \<and> card {b. blk s' b \<noteq> blk s b} \<le> 7"
proof -
  have n: "unat n \<le> 1536" using assms(4) unfolding filewrite_max_def uint_nat by linarith
  have lim: "unat off + unat n \<le> MAXFILE * BSIZE" using assms(3) by simp
  obtain D where D: "finite D" "card D \<le> 7" "changes_only D s s'"
    using writei_changes [OF assms(1,2) lim n assms(5,6)] .
  have sub: "{b. blk s' b \<noteq> blk s b} \<subseteq> D" using D(3) by (auto simp: changes_only_def)
  show ?thesis using finite_subset [OF sub D(1)] order_trans [OF card_mono [OF D(1) sub] D(2)] ..
qed

theorem filewrite_piece_fits_transaction_witness:
  "\<exists>s'. writei (\<lambda>_. None) 0 [7, 8] 2 2 sample_file = Inr (2, s') \<and> card {b. blk s' b \<noteq> blk sample_file b} \<le> 7"
proof -
  have sz: "i_size (icache sample_file ! 0) = 3" "fs_size sample_file = 20" by (simp_all add: sample_file_def sample_fs_def)
  have "{b. b < 20 \<and> \<not> used sample_file b} = {5..<20}" using sample_file_used by auto
  then have c: "card (free_blocks sample_file) = 15" using sz by (simp add: free_blocks_def)
  have "2 \<le> i_size (icache sample_file ! 0)" using sz by simp
  from writei_room [OF sample_file_layout sample_file_inode this, of 2 "[7, 8]" "\<lambda>_. None", unfolded c]
  obtain s' where w: "writei (\<lambda>_. None) 0 [7, 8] 2 2 sample_file = Inr (2, s')" by auto
  from filewrite_piece_fits_transaction [OF sample_file_layout sample_file_inode _ _ _ w] sz w show ?thesis
    by (auto simp: filewrite_max_def)
qed

end
