(* ===== verification/Vm.thy ===== *)
theory Vm
  imports Kalloc FsFile
begin

text \<open>
  Page tables (vm.c). They live in pages of the allocator, as words of the same memory that the free
  list runs through, so that the state is that of kalloc.c. Pointers are kernel virtual addresses.
  Setting up segments and loading the processor's registers is left out. A pointer to a page table
  entry is its address, 0 the null pointer.
\<close>

subsection \<open>Addresses and entries\<close>

definition P2V :: "u32 \<Rightarrow> u32" where
  "P2V a = a + KERNBASE"

definition PDX :: "u32 \<Rightarrow> u32" where
  "PDX va = drop_bit 22 va AND 0x3FF"

definition PTX :: "u32 \<Rightarrow> u32" where
  "PTX va = drop_bit 12 va AND 0x3FF"

definition PTE_ADDR :: "u32 \<Rightarrow> u32" where
  "PTE_ADDR pte = pte AND NOT 0xFFF"

definition PTE_FLAGS :: "u32 \<Rightarrow> u32" where
  "PTE_FLAGS pte = pte AND 0xFFF"

abbreviation (input) PTE_P :: u32 where "PTE_P \<equiv> 1"
abbreviation (input) PTE_W :: u32 where "PTE_W \<equiv> 2"
abbreviation (input) PTE_U :: u32 where "PTE_U \<equiv> 4"
abbreviation (input) PGSIZE :: nat where "PGSIZE \<equiv> 4096"

abbreviation kload :: "kmem \<Rightarrow> u32 \<Rightarrow> u32" where
  "kload k a \<equiv> load_le32 (kmem_mem k) a"

definition kstore :: "u32 \<Rightarrow> u32 \<Rightarrow> kmem \<Rightarrow> kmem" where
  "kstore a w k = k\<lparr>kmem_mem := store_le32 (kmem_mem k) a w\<rparr>"

definition kzero :: "u32 \<Rightarrow> kmem \<Rightarrow> kmem" where
  "kzero a k = k\<lparr>kmem_mem := memset (kmem_mem k) a 0 4096\<rparr>"

lemma page_offset: "unat (va - PGROUNDDOWN va) = unat va mod 4096"
proof -
  have "PGROUNDDOWN va \<le> va" by (simp add: word_le_nat_alt unat_PGROUNDDOWN)
  then show ?thesis by (simp add: unat_sub unat_PGROUNDDOWN)
qed

subsection \<open>Walking and mapping\<close>

definition walkpgdir :: "u32 \<Rightarrow> u32 \<Rightarrow> bool \<Rightarrow> kmem \<Rightarrow> u32 \<times> kmem" where
  "walkpgdir pgdir va alloc k =
     (let pde = pgdir + 4 * PDX va in
      if kload k pde AND PTE_P \<noteq> 0 then (P2V (PTE_ADDR (kload k pde)) + 4 * PTX va, k)
      else if \<not> alloc then (0, k)
      else
        let (pgtab, k) = kalloc k in
        if pgtab = 0 then (0, k)
        else (pgtab + 4 * PTX va, kstore pde (V2P pgtab OR PTE_P OR PTE_W OR PTE_U) (kzero pgtab k)))"

text \<open>
  The loop of mappages: a and last are page aligned, so it ends after as many more rounds as there
  are pages from a to last, which is the first argument.
\<close>

fun mappages_loop :: "nat \<Rightarrow> u32 \<Rightarrow> u32 \<Rightarrow> u32 \<Rightarrow> u32 \<Rightarrow> kmem \<Rightarrow> (int \<times> kmem) res" where
  "mappages_loop n pgdir a pa perm k =
     (let (pte, k) = walkpgdir pgdir a True k in
      if pte = 0 then Inr (-1, k)
      else if kload k pte AND PTE_P \<noteq> 0 then Inl (Panic ''remap'')
      else
        let k = kstore pte (pa OR perm OR PTE_P) k in
        (case n of 0 \<Rightarrow> Inr (0, k) | Suc n \<Rightarrow> mappages_loop n pgdir (a + 4096) (pa + 4096) perm k))"

declare mappages_loop.simps [simp del]

definition mappages :: "u32 \<Rightarrow> u32 \<Rightarrow> u32 \<Rightarrow> u32 \<Rightarrow> u32 \<Rightarrow> kmem \<Rightarrow> (int \<times> kmem) res" where
  "mappages pgdir va usz pa perm k =
     (let a = PGROUNDDOWN va; lst = PGROUNDDOWN (va + usz - 1)
      in mappages_loop (unat (lst - a) div PGSIZE) pgdir a pa perm k)"

subsection \<open>Releasing\<close>

lemma next_table_above: "a < (a div 4194304 + 1) * (4194304 :: nat)"
  using div_mult_mod_eq [of a 4194304] mod_less_divisor [of 4194304 a] by simp

text \<open>
  The loop of deallocuvm over the addresses below oldsz; they are numbers here, since sizes of
  processes are at most KERNBASE and never wrap.
\<close>

function deallocuvm_loop :: "u32 \<Rightarrow> u32 \<Rightarrow> nat \<Rightarrow> nat \<Rightarrow> kmem \<Rightarrow> kmem res" where
  "deallocuvm_loop kend pgdir oldsz a k =
     (if a < oldsz then
        let (pte, k) = walkpgdir pgdir (of_nat a) False k in
        if pte = 0 then deallocuvm_loop kend pgdir oldsz ((a div 4194304 + 1) * 4194304) k
        else if kload k pte AND PTE_P \<noteq> 0 then
          let pa = PTE_ADDR (kload k pte) in
          if pa = 0 then Inl (Panic ''kfree'')
          else bindR (kfree kend (P2V pa) k) (\<lambda>k. deallocuvm_loop kend pgdir oldsz (a + PGSIZE) (kstore pte 0 k))
        else deallocuvm_loop kend pgdir oldsz (a + PGSIZE) k
      else Inr k)"
  by auto

termination
proof (relation "measure (\<lambda>(kend, pgdir, oldsz, a, k). oldsz - a)", goal_cases)
  case (2 kend pgdir oldsz a k)
  then show ?case using next_table_above [of a] by (simp add: diff_less_mono2)
qed simp_all

declare deallocuvm_loop.simps [simp del]

definition deallocuvm :: "u32 \<Rightarrow> u32 \<Rightarrow> u32 \<Rightarrow> u32 \<Rightarrow> kmem \<Rightarrow> (u32 \<times> kmem) res" where
  "deallocuvm kend pgdir oldsz newsz k =
     (if oldsz \<le> newsz then Inr (oldsz, k)
      else bindR (deallocuvm_loop kend pgdir (unat oldsz) (unat (PGROUNDUP newsz)) k) (\<lambda>k. Inr (newsz, k)))"

text \<open>The entries of the directory are freed in turn.\<close>

definition freevm_entry :: "u32 \<Rightarrow> u32 \<Rightarrow> nat \<Rightarrow> kmem \<Rightarrow> kmem res" where
  "freevm_entry kend pgdir i k =
     (let e = kload k (pgdir + 4 * of_nat i) in
      if e AND PTE_P \<noteq> 0 then kfree kend (P2V (PTE_ADDR e)) k else Inr k)"

definition freevm :: "u32 \<Rightarrow> u32 \<Rightarrow> kmem \<Rightarrow> kmem res" where
  "freevm kend pgdir k =
     (if pgdir = 0 then Inl (Panic ''freevm: no pgdir'')
      else
        bindR (deallocuvm kend pgdir KERNBASE 0 k) (\<lambda>(_, k).
        bindR (forR [0..<1024] (freevm_entry kend pgdir) k) (\<lambda>k.
        kfree kend pgdir k)))"

subsection \<open>The kernel's part of a page table\<close>

record kmap =
  km_virt :: u32
  km_phys_start :: u32
  km_phys_end :: u32
  km_perm :: u32

definition EXTMEM :: u32 where "EXTMEM = 0x100000"

definition KERNLINK :: u32 where "KERNLINK = KERNBASE + EXTMEM"

definition DEVSPACE :: u32 where "DEVSPACE = 0xFE000000"

text \<open>The start of the kernel's data is set by the linker.\<close>

definition kmap_table :: "u32 \<Rightarrow> kmap list" where
  "kmap_table data =
     [\<lparr>km_virt = KERNBASE, km_phys_start = 0, km_phys_end = EXTMEM, km_perm = PTE_W\<rparr>,
      \<lparr>km_virt = KERNLINK, km_phys_start = V2P KERNLINK, km_phys_end = V2P data, km_perm = 0\<rparr>,
      \<lparr>km_virt = data, km_phys_start = V2P data, km_phys_end = PHYSTOP, km_perm = PTE_W\<rparr>,
      \<lparr>km_virt = DEVSPACE, km_phys_start = DEVSPACE, km_phys_end = 0, km_perm = PTE_W\<rparr>]"

fun setupkvm_loop :: "u32 \<Rightarrow> u32 \<Rightarrow> kmap list \<Rightarrow> kmem \<Rightarrow> (u32 \<times> kmem) res" where
  "setupkvm_loop kend pgdir [] k = Inr (pgdir, k)"
| "setupkvm_loop kend pgdir (e # es) k =
     bindR (mappages pgdir (km_virt e) (km_phys_end e - km_phys_start e) (km_phys_start e) (km_perm e) k) (\<lambda>(r, k).
       if r < 0 then bindR (freevm kend pgdir k) (\<lambda>k. Inr (0, k))
       else setupkvm_loop kend pgdir es k)"

definition setupkvm :: "u32 \<Rightarrow> u32 \<Rightarrow> kmem \<Rightarrow> (u32 \<times> kmem) res" where
  "setupkvm kend data k =
     (let (pgdir, k) = kalloc k in
      if pgdir = 0 then Inr (0, k)
      else if P2V PHYSTOP > DEVSPACE then Inl (Panic ''PHYSTOP too high'')
      else setupkvm_loop kend pgdir (kmap_table data) (kzero pgdir k))"

subsection \<open>User memory\<close>

text \<open>Bytes copied into a page.\<close>

fun kput :: "u32 \<Rightarrow> u8 list \<Rightarrow> kmem \<Rightarrow> kmem" where
  "kput a [] k = k"
| "kput a (b # bs) k = kput (a + 1) bs (k\<lparr>kmem_mem := (kmem_mem k)(a := b)\<rparr>)"

text \<open>A failing allocation is not noticed: the null page is written.\<close>

definition inituvm :: "u32 \<Rightarrow> u8 list \<Rightarrow> kmem \<Rightarrow> kmem res" where
  "inituvm pgdir init k =
     (if PGSIZE \<le> length init then Inl (Panic ''inituvm: more than a page'')
      else
        let (mem, k) = kalloc k in
        if mem = 0 then Inl Bounds
        else bindR (mappages pgdir 0 4096 (V2P mem) (PTE_W OR PTE_U) (kzero mem k)) (\<lambda>(_, k). Inr (kput mem init k)))"

function loaduvm_loop ::
  "(int \<Rightarrow> (nat \<Rightarrow> u32 \<Rightarrow> fsys \<Rightarrow> (int \<times> u8 list \<times> fsys) res) option) \<Rightarrow> u32 \<Rightarrow> u32 \<Rightarrow> nat \<Rightarrow> u32 \<Rightarrow> nat \<Rightarrow> nat \<Rightarrow> kmem \<times> fsys \<Rightarrow> (int \<times> kmem \<times> fsys) res" where
  "loaduvm_loop devsw pgdir addr ip offset usz i s =
     (if i < usz then
        let (k, fs) = s;
            (pte, k) = walkpgdir pgdir (addr + of_nat i) False k in
        if pte = 0 then Inl (Panic ''loaduvm: address should exist'')
        else
          let pa = PTE_ADDR (kload k pte);
              n = (if usz - i < PGSIZE then usz - i else PGSIZE)
          in bindR (readi devsw ip (offset + of_nat i) (of_nat n) fs) (\<lambda>(r, bs, fs).
               let k = kput (P2V pa) bs k in
               if r \<noteq> int n then Inr (-1, k, fs)
               else loaduvm_loop devsw pgdir addr ip offset usz (i + PGSIZE) (k, fs))
      else Inr (0, s))"
  by auto

termination
  by (relation "measure (\<lambda>(_, _, _, _, _, usz, i, _). usz - i)") auto

declare loaduvm_loop.simps [simp del]

definition loaduvm ::
  "(int \<Rightarrow> (nat \<Rightarrow> u32 \<Rightarrow> fsys \<Rightarrow> (int \<times> u8 list \<times> fsys) res) option) \<Rightarrow> u32 \<Rightarrow> u32 \<Rightarrow> nat \<Rightarrow> u32 \<Rightarrow> u32 \<Rightarrow> kmem \<times> fsys \<Rightarrow> (int \<times> kmem \<times> fsys) res" where
  "loaduvm devsw pgdir addr ip offset usz s =
     (if addr mod 4096 \<noteq> 0 then Inl (Panic ''loaduvm: addr must be page aligned'')
      else loaduvm_loop devsw pgdir addr ip offset (unat usz) 0 s)"

text \<open>The loop of allocuvm, below KERNBASE; the messages to the console are left out.\<close>

function allocuvm_loop :: "u32 \<Rightarrow> u32 \<Rightarrow> u32 \<Rightarrow> u32 \<Rightarrow> nat \<Rightarrow> kmem \<Rightarrow> (u32 \<times> kmem) res" where
  "allocuvm_loop kend pgdir oldsz newsz a k =
     (if a < unat newsz then
        let (mem, k) = kalloc k in
        if mem = 0 then bindR (deallocuvm kend pgdir newsz oldsz k) (\<lambda>(_, k). Inr (0, k))
        else
          bindR (mappages pgdir (of_nat a) 4096 (V2P mem) (PTE_W OR PTE_U) (kzero mem k)) (\<lambda>(r, k).
            if r < 0 then
              bindR (deallocuvm kend pgdir newsz oldsz k) (\<lambda>(_, k).
              bindR (kfree kend mem k) (\<lambda>k. Inr (0, k)))
            else allocuvm_loop kend pgdir oldsz newsz (a + PGSIZE) k)
      else Inr (newsz, k))"
  by auto

termination
  by (relation "measure (\<lambda>(_, _, _, newsz, a, _). unat newsz - a)") auto

declare allocuvm_loop.simps [simp del]

definition allocuvm :: "u32 \<Rightarrow> u32 \<Rightarrow> u32 \<Rightarrow> u32 \<Rightarrow> kmem \<Rightarrow> (u32 \<times> kmem) res" where
  "allocuvm kend pgdir oldsz newsz k =
     (if newsz \<ge> KERNBASE then Inr (0, k)
      else if newsz < oldsz then Inr (oldsz, k)
      else allocuvm_loop kend pgdir oldsz newsz (unat (PGROUNDUP oldsz)) k)"

definition clearpteu :: "u32 \<Rightarrow> u32 \<Rightarrow> kmem \<Rightarrow> kmem res" where
  "clearpteu pgdir uva k =
     (let (pte, k) = walkpgdir pgdir uva False k in
      if pte = 0 then Inl (Panic ''clearpteu'')
      else Inr (kstore pte (kload k pte AND NOT PTE_U) k))"

function copyuvm_loop :: "u32 \<Rightarrow> u32 \<Rightarrow> nat \<Rightarrow> nat \<Rightarrow> u32 \<Rightarrow> kmem \<Rightarrow> (u32 \<times> kmem) res" where
  "copyuvm_loop kend pgdir usz i d k =
     (if i < usz then
        let (pte, k) = walkpgdir pgdir (of_nat i) False k in
        if pte = 0 then Inl (Panic ''copyuvm: pte should exist'')
        else if kload k pte AND PTE_P = 0 then Inl (Panic ''copyuvm: page not present'')
        else
          let pa = PTE_ADDR (kload k pte);
              flags = PTE_FLAGS (kload k pte);
              (mem, k) = kalloc k
          in if mem = 0 then bindR (freevm kend d k) (\<lambda>k. Inr (0, k))
             else
               let k = k\<lparr>kmem_mem := memmove (kmem_mem k) mem (P2V pa) 4096\<rparr> in
               bindR (mappages d (of_nat i) 4096 (V2P mem) flags k) (\<lambda>(r, k).
                 if r < 0 then bindR (kfree kend mem k) (\<lambda>k. bindR (freevm kend d k) (\<lambda>k. Inr (0, k)))
                 else copyuvm_loop kend pgdir usz (i + PGSIZE) d k)
      else Inr (d, k))"
  by auto

termination
  by (relation "measure (\<lambda>(_, _, usz, i, _, _). usz - i)") auto

declare copyuvm_loop.simps [simp del]

definition copyuvm :: "u32 \<Rightarrow> u32 \<Rightarrow> u32 \<Rightarrow> u32 \<Rightarrow> kmem \<Rightarrow> (u32 \<times> kmem) res" where
  "copyuvm kend data pgdir usz k =
     bindR (setupkvm kend data k) (\<lambda>(d, k).
       if d = 0 then Inr (0, k) else copyuvm_loop kend pgdir (unat usz) 0 d k)"

text \<open>The entry is read even when there is none: the null pointer is followed.\<close>

definition uva2ka :: "u32 \<Rightarrow> u32 \<Rightarrow> kmem \<Rightarrow> u32 res" where
  "uva2ka pgdir uva k =
     (let (pte, k) = walkpgdir pgdir uva False k in
      if pte = 0 then Inl Bounds
      else if kload k pte AND PTE_P = 0 then Inr 0
      else if kload k pte AND PTE_U = 0 then Inr 0
      else Inr (P2V (PTE_ADDR (kload k pte))))"

text \<open>The length of the buffer is the number of bytes to copy.\<close>

function copyout :: "u32 \<Rightarrow> u32 \<Rightarrow> u8 list \<Rightarrow> kmem \<Rightarrow> (int \<times> kmem) res" where
  "copyout pgdir va buf k =
     (if buf \<noteq> [] then
        let va0 = PGROUNDDOWN va in
        bindR (uva2ka pgdir va0 k) (\<lambda>pa0.
          if pa0 = 0 then Inr (-1, k)
          else
            let n = (if PGSIZE - unat (va - va0) > length buf then length buf else PGSIZE - unat (va - va0))
            in copyout pgdir (va0 + 4096) (drop n buf) (kput (pa0 + (va - va0)) (take n buf) k))
      else Inr (0, k))"
  by auto

termination
proof (relation "measure (\<lambda>(_, _, buf, _). length buf)", goal_cases)
  case (2 pgdir va buf k va0 pa0 n)
  then have "n \<noteq> 0" using page_offset[of va] mod_less_divisor[of 4096 "unat va"] by (auto split: if_splits)
  then show ?case using 2(1) by simp
qed simp

declare copyout.simps [simp del]

end
