(* ===== verification/VmInv.thy ===== *)
theory VmInv
  imports Vm "HOL-Library.Sublist"
begin

text \<open>
  Invariants of page tables: what a walk finds, and that mapping a range of absent pages maps them or
  runs out of pages, keeps the tables distinct pages that are not free, and changes no other
  translation.
\<close>

subsection \<open>Entries of a page\<close>

text \<open>The i-th word of page p; indices are below 1024.\<close>

definition entry :: "kmem \<Rightarrow> u32 \<Rightarrow> u32 \<Rightarrow> u32" where
  "entry k p i = kload k (p + 4 * i)"

lemma unat_4_index: "i < 1024 \<Longrightarrow> unat (4 * i :: u32) = 4 * unat i"
proof -
  assume "i < 1024"
  then have "unat i < 1024" by (simp add: word_less_nat_alt)
  moreover have "unat (4 * i) = (4 * unat i) mod 2 ^ 32" by (simp add: unat_word_ariths)
  ultimately show ?thesis by simp
qed

lemma entry_byte_offset:
  fixes i p :: u32
  assumes "i < 1024" "b < 4"
  shows "unat (p + 4 * i + of_nat b - p) = 4 * unat i + b"
proof -
  have i: "unat i < 1024" using assms(1) by (simp add: word_less_nat_alt)
  have b: "unat (of_nat b :: u32) = b" using assms(2) by (intro unat_of_nat_id) simp
  have "unat (4 * i + of_nat b) = unat (4 * i) + unat (of_nat b :: u32)"
    by (rule unat_add_no_wrap) (use unat_4_index [OF assms(1)] b i assms(2) in simp)
  then show ?thesis using unat_4_index [OF assms(1)] b by simp
qed

lemma entry_in_page:
  "i < 1024 \<Longrightarrow> b < 4 \<Longrightarrow> in_page p (p + 4 * i + of_nat b)"
proof -
  assume "i < 1024" "b < (4 :: nat)"
  moreover from this(1) have "unat i < 1024" by (simp add: word_less_nat_alt)
  ultimately show ?thesis unfolding in_page_def using entry_byte_offset [of i b p] by linarith
qed

text \<open>Entries of different pages, or at different places of one page, have no byte in common.\<close>

lemma entry_bytes_apart:
  fixes p q i j :: u32
  assumes "p mod 4096 = 0" "q mod 4096 = 0" "i < 1024" "j < 1024" "b < 4" "c < 4"
    "p + 4 * i + of_nat b = q + 4 * j + of_nat c"
  shows "p = q \<and> i = j"
proof -
  have pq: "p = q"
    using in_page_unique [OF assms(1,2)] entry_in_page assms(3-7) by metis
  have "4 * unat i + b = 4 * unat j + c"
    using entry_byte_offset [OF assms(3,5), of p] entry_byte_offset [OF assms(4,6), of q] assms(7) pq by simp
  then have "unat i = unat j" using assms(5,6) by presburger
  then show ?thesis using pq by (simp add: word_unat_eq_iff)
qed

lemma store_le32_other:
  assumes "\<And>b. b < 4 \<Longrightarrow> x \<noteq> a + of_nat b"
  shows "store_le32 m a w x = m x"
  using assms [of 0] assms [of 1] assms [of 2] assms [of 3] by (simp add: store_le32_def)

lemma entry_kstore:
  assumes "p mod 4096 = 0" "q mod 4096 = 0" "i < 1024" "j < 1024"
  shows "entry (kstore (p + 4 * i) w k) q j = (if q = p \<and> j = i then w else entry k q j)"
proof (cases "q = p \<and> j = i")
  case True
  then show ?thesis by (simp add: entry_def kstore_def load_store_le32)
next
  case False
  have "load_le32 (store_le32 (kmem_mem k) (p + 4 * i) w) (q + 4 * j) = load_le32 (kmem_mem k) (q + 4 * j)"
  proof (rule load_le32_cong, rule store_le32_other)
    show "q + 4 * j + of_nat b \<noteq> p + 4 * i + of_nat c" if "b < 4" "c < 4" for b c
      using entry_bytes_apart [OF assms(2,1,4,3) that] False by blast
  qed
  moreover have "kmem_mem (kstore (p + 4 * i) w k) = store_le32 (kmem_mem k) (p + 4 * i) w" by (simp add: kstore_def)
  ultimately show ?thesis unfolding entry_def using False by (simp only: if_False)
qed

lemma kstore_frame:
  "i < 1024 \<Longrightarrow> \<not> in_page p x \<Longrightarrow> kmem_mem (kstore (p + 4 * i) w k) x = kmem_mem k x"
  unfolding kstore_def using entry_in_page [of i _ p] by (auto intro!: store_le32_other)

lemma kzero_mem: "kmem_mem (kzero p k) x = (if in_page p x then 0 else kmem_mem k x)"
  by (simp add: kzero_def memset_pointwise in_page_def)

lemma entry_kzero:
  assumes "p mod 4096 = 0" "q mod 4096 = 0" "j < 1024"
  shows "entry (kzero p k) q j = (if q = p then 0 else entry k q j)"
proof (cases "q = p")
  case True
  have "load_le32 (kmem_mem (kzero p k)) (p + 4 * j) = load_le32 (\<lambda>_. 0) (p + 4 * j)"
    by (rule load_le32_cong) (simp add: kzero_mem entry_in_page assms(3))
  then show ?thesis using True by (simp add: entry_def load_le32_def)
next
  case False
  have "load_le32 (kmem_mem (kzero p k)) (q + 4 * j) = load_le32 (kmem_mem k) (q + 4 * j)"
  proof (rule load_le32_cong)
    show "kmem_mem (kzero p k) (q + 4 * j + of_nat b) = kmem_mem k (q + 4 * j + of_nat b)" if "b < 4" for b
      using in_page_unique [OF assms(1,2) _ entry_in_page [OF assms(3) that]] False by (auto simp: kzero_mem)
  qed
  then show ?thesis using False by (simp add: entry_def)
qed

lemma entry_cong:
  "j < 1024 \<Longrightarrow> (\<And>x. in_page q x \<Longrightarrow> kmem_mem k' x = kmem_mem k x) \<Longrightarrow> entry k' q j = entry k q j"
  unfolding entry_def by (rule load_le32_cong) (simp add: entry_in_page)

subsection \<open>Indices of an address\<close>

lemma PDX_bound: "PDX va < 1024" and PTX_bound: "PTX va < 1024"
proof -
  have "x AND 0x3FF < (1024 :: u32)" for x
    using word_and_le1 [of x "0x3FF"] by (rule order.strict_trans1) simp
  then show "PDX va < 1024" "PTX va < 1024" by (simp_all add: PDX_def PTX_def)
qed

lemma unat_low10: "unat (x AND 0x3FF :: u32) = unat x mod 1024"
proof -
  have m: "(0x3FF :: u32) = mask 10" by (simp add: mask_eq_exp_minus_1)
  have "x AND 0x3FF = take_bit 10 x" unfolding m by (simp only: take_bit_eq_mask)
  also have "\<dots> = x mod 1024" by (simp add: take_bit_eq_mod)
  finally show ?thesis by (simp add: unat_mod)
qed

lemma unat_PDX: "unat (PDX va) = unat va div 4194304"
proof -
  have "unat va div 4194304 < 1024" using unat_lt_2_32 [of va] by (simp add: less_mult_imp_div_less)
  then show ?thesis by (simp add: PDX_def unat_low10 drop_bit_eq_div unat_div)
qed

lemma unat_PTX: "unat (PTX va) = unat va div 4096 mod 1024"
  by (simp add: PTX_def unat_low10 drop_bit_eq_div unat_div)

lemma same_page_iff: "PDX va = PDX vb \<and> PTX va = PTX vb \<longleftrightarrow> unat va div 4096 = unat vb div 4096"
proof -
  have "n div 4194304 = n div 4096 div (1024 :: nat)" for n by (simp add: div_mult2_eq [symmetric])
  then have "unat va div 4096 = unat vb div 4096 \<longleftrightarrow>
      unat va div 4194304 = unat vb div 4194304 \<and> unat va div 4096 mod 1024 = unat vb div 4096 mod 1024"
    by (metis div_mult_mod_eq)
  then show ?thesis by (simp only: unat_PDX [symmetric] unat_PTX [symmetric] word_unat_eq_iff)
qed

subsection \<open>Page tables\<close>

abbreviation (input) present :: "u32 \<Rightarrow> bool" where
  "present e \<equiv> e AND PTE_P \<noteq> 0"

lemma present_bit: "present e \<longleftrightarrow> bit e 0"
  by (simp add: and_one_eq bit_0 odd_iff_mod_2_eq_one even_iff_mod_2_eq_zero)

lemma present_or: "present (a OR b) \<longleftrightarrow> present a \<or> present b"
  by (simp only: present_bit bit_or_iff)

text \<open>The page table of the i-th directory entry, and the entry that the paging hardware finds for an address.\<close>

definition ptab :: "kmem \<Rightarrow> u32 \<Rightarrow> u32 \<Rightarrow> u32" where
  "ptab k d i = P2V (PTE_ADDR (entry k d i))"

definition pte_of :: "kmem \<Rightarrow> u32 \<Rightarrow> u32 \<Rightarrow> u32" where
  "pte_of k d va = (if present (entry k d (PDX va)) then entry k (ptab k d (PDX va)) (PTX va) else 0)"

text \<open>
  The directory and its tables are pages that are not free; different entries of the directory have
  different tables.
\<close>

definition vm_tables :: "u32 \<Rightarrow> kmem \<Rightarrow> u32 list \<Rightarrow> u32 \<Rightarrow> bool" where
  "vm_tables kend k ps d \<longleftrightarrow> free_pages kend k ps \<and> page_ok kend d \<and> d \<notin> set ps \<and>
     (\<forall>i < 1024. present (entry k d i) \<longrightarrow> page_ok kend (ptab k d i) \<and> ptab k d i \<notin> set ps \<and> ptab k d i \<noteq> d) \<and>
     (\<forall>i < 1024. \<forall>j < 1024. present (entry k d i) \<longrightarrow> present (entry k d j) \<longrightarrow> ptab k d i = ptab k d j \<longrightarrow> i = j)"

text \<open>Memory in the directory or one of its tables.\<close>

definition in_vm :: "kmem \<Rightarrow> u32 \<Rightarrow> u32 \<Rightarrow> bool" where
  "in_vm k d x \<longleftrightarrow> in_page d x \<or> (\<exists>i < 1024. present (entry k d i) \<and> in_page (ptab k d i) x)"

definition tabs :: "kmem \<Rightarrow> u32 \<Rightarrow> u32 set" where
  "tabs k d = {ptab k d i | i. i < 1024 \<and> present (entry k d i)}"

lemma in_vm_tabs: "in_vm k d x \<longleftrightarrow> (\<exists>p \<in> insert d (tabs k d). in_page p x)"
  by (auto simp: in_vm_def tabs_def)

text \<open>A change that keeps the present tables and changes no memory but that of the resulting tables.\<close>

definition vm_grow :: "u32 \<Rightarrow> kmem \<Rightarrow> kmem \<Rightarrow> bool" where
  "vm_grow d k k' \<longleftrightarrow>
     (\<forall>i < 1024. present (entry k d i) \<longrightarrow> entry k' d i = entry k d i) \<and>
     (\<forall>x. \<not> in_vm k' d x \<longrightarrow> kmem_mem k' x = kmem_mem k x)"

lemma vm_grow_refl: "vm_grow d k k"
  by (simp add: vm_grow_def)

lemma vm_grow_trans: "vm_grow d k k' \<Longrightarrow> vm_grow d k' k'' \<Longrightarrow> vm_grow d k k''"
proof -
  assume a: "vm_grow d k k'" "vm_grow d k' k''"
  then have "in_vm k'' d x" if "in_vm k' d x" for x
    using that by (auto simp: in_vm_def vm_grow_def ptab_def)
  with a show ?thesis by (auto simp: vm_grow_def)
qed

subsection \<open>Walking\<close>

lemma vm_tablesD:
  assumes "vm_tables kend k ps d"
  shows "free_pages kend k ps" "page_ok kend d" "d mod 4096 = 0" "d \<notin> set ps"
    and "i < 1024 \<Longrightarrow> present (entry k d i) \<Longrightarrow> page_ok kend (ptab k d i)"
    and "i < 1024 \<Longrightarrow> present (entry k d i) \<Longrightarrow> ptab k d i mod 4096 = 0"
    and "i < 1024 \<Longrightarrow> present (entry k d i) \<Longrightarrow> ptab k d i \<notin> set ps \<and> ptab k d i \<noteq> d"
    and "i < 1024 \<Longrightarrow> j < 1024 \<Longrightarrow> present (entry k d i) \<Longrightarrow> present (entry k d j) \<Longrightarrow>
      ptab k d i = ptab k d j \<longleftrightarrow> i = j"
  using assms by (auto simp: vm_tables_def page_ok_def)

text \<open>An address of the kernel's memory survives being stored as the frame of an entry.\<close>

lemma aligned_diff:
  fixes p q :: u32
  assumes "p mod 4096 = 0" "q mod 4096 = 0"
  shows "(q - p) mod 4096 = 0"
proof -
  have "unat q = (unat (q - p) + unat p) mod 2 ^ 32"
    using unat_word_ariths(1) [of "q - p" p] by simp
  then have "unat q mod 4096 = (unat (q - p) + unat p) mod 4096"
    using mod_mod_cancel [of 4096 "2 ^ 32" "unat (q - p) + unat p"] by simp
  also have "\<dots> = (unat (q - p) + 0) mod 4096"
    using assms(1) unfolding unat_aligned by (intro mod_add_cong) (simp_all only: mod_0)
  finally show ?thesis using assms(2) by (simp only: unat_aligned add_0_right)
qed

lemma aligned_sum: "(p :: u32) mod 4096 = 0 \<Longrightarrow> q mod 4096 = 0 \<Longrightarrow> (p + q) mod 4096 = 0"
  using aligned_diff [of "0 - q" p] aligned_diff [of q 0] by simp

lemma PTE_ADDR_PGROUNDDOWN: "PTE_ADDR e = PGROUNDDOWN e"
  by (simp add: PTE_ADDR_def PGROUNDDOWN_def)

lemma PGROUNDDOWN_aligned: "PGROUNDDOWN a mod 4096 = 0"
  by (simp add: unat_aligned unat_PGROUNDDOWN minus_mod_eq_div_mult)

lemma PGROUNDDOWN_id: "a mod 4096 = 0 \<Longrightarrow> PGROUNDDOWN a = a"
  unfolding unat_aligned by (simp add: word_unat_eq_iff unat_PGROUNDDOWN)

lemma PTE_ADDR_or:
  assumes "a mod 4096 = 0" "f < 4096"
  shows "PTE_ADDR (a OR f) = a"
proof -
  have "unat f < 4096" using assms(2) by (simp add: word_less_nat_alt)
  then have "PGROUNDDOWN f = 0" by (simp add: word_unat_eq_iff unat_PGROUNDDOWN)
  moreover have "PGROUNDDOWN (a OR f) = PGROUNDDOWN a OR PGROUNDDOWN f"
    by (simp add: PGROUNDDOWN_def bit.conj_disj_distrib2)
  ultimately show ?thesis using assms(1) by (simp add: PTE_ADDR_PGROUNDDOWN PGROUNDDOWN_id)
qed

lemma V2P_aligned: "p mod 4096 = 0 \<Longrightarrow> V2P p mod 4096 = 0"
  unfolding V2P_def by (rule aligned_diff) (simp_all add: KERNBASE_def)

lemma P2V_V2P: "P2V (V2P p) = p"
  by (simp add: P2V_def V2P_def)

lemma frame_of_page: "p mod 4096 = 0 \<Longrightarrow> f < 4096 \<Longrightarrow> P2V (PTE_ADDR (V2P p OR f)) = p"
  by (simp add: PTE_ADDR_or V2P_aligned P2V_V2P)

lemma walk_present:
  assumes "present (entry k d (PDX va))"
  shows "walkpgdir d va alloc k = (ptab k d (PDX va) + 4 * PTX va, k)"
  using assms by (simp add: walkpgdir_def Let_def ptab_def entry_def)

lemma walk_absent:
  assumes "\<not> present (entry k d (PDX va))"
  shows "walkpgdir d va False k = (0, k)"
  using assms by (simp add: walkpgdir_def Let_def entry_def)

text \<open>With a fresh table the walk finds the address in it, and no translation has changed.\<close>

lemma add_table:
  assumes vm: "vm_tables kend k (p # ps) d" and ab: "\<not> present (entry k d i)" and i: "i < 1024"
    and k1: "free_pages kend k1 ps" "kmem_mem k1 = kmem_mem k"
    and k': "k' = kstore (d + 4 * i) (V2P p OR PTE_P OR PTE_W OR PTE_U) (kzero p k1)"
  shows "vm_tables kend k' ps d" "present (entry k' d i)" "ptab k' d i = p" "vm_grow d k k'" "pte_of k' d va = pte_of k d va"
    "tabs k' d = insert p (tabs k d)"
proof -
  note D = vm_tablesD [OF vm]
  have p: "page_ok kend p" "p mod 4096 = 0" "p \<noteq> d" "p \<notin> set ps"
    using D(1,4) by (auto simp: free_pages_def page_ok_def)
  have e1: "entry k1 q j = entry k q j" for q j by (simp add: entry_def k1(2))
  have e: "entry k' q j = (if q = d \<and> j = i then V2P p OR PTE_P OR PTE_W OR PTE_U else if q = p then 0 else entry k q j)"
    if "q mod 4096 = 0" "j < 1024" for q j
    unfolding k' entry_kstore [OF D(3) that(1) i that(2)] entry_kzero [OF p(2) that] e1 by (rule refl)
  have ei: "entry k' d i = V2P p OR PTE_P OR PTE_W OR PTE_U" using e [OF D(3) i] by simp
  have ej: "entry k' d j = entry k d j" if "j < 1024" "j \<noteq> i" for j using e [OF D(3) that(1)] that(2) p(3) by simp
  show pr: "present (entry k' d i)" unfolding ei present_or by simp
  show pt: "ptab k' d i = p" unfolding ptab_def ei by (rule frame_of_page [OF p(2)]) simp
  have pj: "ptab k' d j = ptab k d j" if "j < 1024" "j \<noteq> i" for j using ej [OF that] by (simp add: ptab_def)
  show "tabs k' d = insert p (tabs k d)"
  proof (intro equalityI subsetI)
    show "q \<in> insert p (tabs k d)" if "q \<in> tabs k' d" for q
      using that pt ej pj by (auto simp: tabs_def) metis
    have "ptab k d j \<in> tabs k' d" if "j < 1024" "present (entry k d j)" for j
    proof -
      have "j \<noteq> i" using that(2) ab by blast
      then have "ptab k' d j = ptab k d j" "present (entry k' d j)" using that pj ej by simp_all
      with that(1) show ?thesis unfolding tabs_def by force
    qed
    then show "q \<in> tabs k' d" if "q \<in> insert p (tabs k d)" for q
      using that pr pt i by (auto simp: tabs_def)
  qed
  have mem: "kmem_mem k' x = kmem_mem k x" if "\<not> in_page d x" "\<not> in_page p x" for x
    unfolding k' using kstore_frame [OF i that(1)] that(2) k1(2) by (simp add: kzero_mem)
  have "kmem_mem k' x = kmem_mem k x" if "\<not> in_vm k' d x" for x
    using that i pr pt mem unfolding in_vm_def by metis
  then show "vm_grow d k k'" using ej ab by (auto simp: vm_grow_def)
  have fr: "free_pages kend k' ps"
  proof -
    have eq: "k' = k1\<lparr>kmem_mem := kmem_mem k'\<rparr>" by (simp add: k' kstore_def kzero_def)
    have "kmem_mem k' x = kmem_mem k1 x" if "\<exists>q \<in> set ps. in_page q x" for x
    proof -
      from that obtain q where q: "q \<in> set ps" "in_page q x" by blast
      then have "q mod 4096 = 0" using k1(1) by (auto simp: free_pages_def page_ok_def)
      then have "\<not> in_page d x" "\<not> in_page p x"
        using in_page_unique [OF D(3) _ _ q(2)] in_page_unique [OF p(2) _ _ q(2)] q(1) p(4) D(4) by fastforce+
      then show ?thesis using mem k1(2) by simp
    qed
    then show ?thesis using free_pages_store [OF k1(1)] eq by metis
  qed
  have tb: "page_ok kend (ptab k' d j) \<and> ptab k' d j \<notin> set ps \<and> ptab k' d j \<noteq> d" if "j < 1024" "present (entry k' d j)" for j
  proof (cases "j = i")
    case True
    then show ?thesis using pt p by simp
  next
    case False
    then show ?thesis using D(5,7) [of j] ej [of j] pj [of j] that by simp
  qed
  have "ptab k d j \<noteq> p" if "j < 1024" "present (entry k d j)" for j using D(7) [OF that] by auto
  then have "j = j'" if "j < 1024" "j' < 1024" "present (entry k' d j)" "present (entry k' d j')" "ptab k' d j = ptab k' d j'" for j j'
    using that pt pj ej D(8) by metis
  with fr tb D(2,4) show "vm_tables kend k' ps d" by (auto simp: vm_tables_def)
  show "pte_of k' d va = pte_of k d va"
  proof (cases "PDX va = i")
    case True
    then show ?thesis using pr pt ab e [OF p(2) PTX_bound] p(3) by (simp add: pte_of_def)
  next
    case False
    have "entry k' (ptab k d (PDX va)) (PTX va) = entry k (ptab k d (PDX va)) (PTX va)" if "present (entry k d (PDX va))"
      using e [OF D(6) [OF PDX_bound that] PTX_bound] D(7) [OF PDX_bound that] by auto
    then show ?thesis using ej [OF PDX_bound False] pj [OF PDX_bound False] by (simp add: pte_of_def)
  qed
qed

lemma walk_alloc:
  assumes vm: "vm_tables kend k ps d" and w: "walkpgdir d va True k = (pte, k')"
  obtains (none) "pte = 0" "k' = k" "ps = []" "\<not> present (entry k d (PDX va))"
  | (some) qs where "pte = ptab k' d (PDX va) + 4 * PTX va" "present (entry k' d (PDX va))" "vm_tables kend k' qs d"
      "vm_grow d k k'" "\<And>vb. pte_of k' d vb = pte_of k d vb" "suffix qs ps"
      "tabs k' d \<union> set qs = tabs k d \<union> set ps" "tabs k' d \<subseteq> insert (ptab k' d (PDX va)) (tabs k d)"
proof (cases "present (entry k d (PDX va))")
  case True
  then show thesis using w vm some [of ps] walk_present [OF True, of True] by (auto intro: vm_grow_refl)
next
  case False
  show thesis
  proof (cases ps)
    case Nil
    then show thesis using none w False kalloc_free_pages(1) [OF vm_tablesD(1) [OF vm]]
      by (simp add: walkpgdir_def Let_def entry_def)
  next
    case (Cons p qs)
    obtain k1 where k1: "kalloc k = (p, k1)" "free_pages kend k1 qs" "kmem_mem k1 = kmem_mem k"
      using kalloc_free_pages(2) [OF vm_tablesD(1) [OF vm] Cons] by blast
    have "p \<noteq> 0" using vm_tablesD(1) [OF vm] Cons by (auto simp: free_pages_def)
    with w False k1(1) have e: "pte = p + 4 * PTX va"
      "k' = kstore (d + 4 * PDX va) (V2P p OR PTE_P OR PTE_W OR PTE_U) (kzero p k1)"
      by (auto simp: walkpgdir_def Let_def entry_def)
    note T = add_table [OF vm [unfolded Cons] False PDX_bound k1(2,3) e(2)]
    show thesis by (rule some [of qs]) (use T e(1) Cons in \<open>auto simp: suffix_def\<close>)
  qed
qed


text \<open>Storing an entry changes the translation of the addresses in that page only.\<close>

lemma set_pte:
  assumes vm: "vm_tables kend k ps d" and pr: "present (entry k d (PDX va))"
    and k': "k' = kstore (ptab k d (PDX va) + 4 * PTX va) w k"
  shows "vm_tables kend k' ps d" "vm_grow d k k'" "tabs k' d = tabs k d"
    "pte_of k' d vb = (if unat vb div 4096 = unat va div 4096 then w else pte_of k d vb)"
proof -
  note D = vm_tablesD [OF vm]
  note t = D(5-7) [OF PDX_bound pr]
  have e: "entry k' q j = (if q = ptab k d (PDX va) \<and> j = PTX va then w else entry k q j)"
    if "q mod 4096 = 0" "j < 1024" for q j
    unfolding k' by (rule entry_kstore [OF t(2) that(1) PTX_bound that(2)])
  have ed: "entry k' d j = entry k d j" if "j < 1024" for j using e [OF D(3) that] t(3) by auto
  have pt: "ptab k' d j = ptab k d j" if "j < 1024" for j using ed [OF that] by (simp add: ptab_def)
  show "tabs k' d = tabs k d" unfolding tabs_def using ed pt by (metis (no_types, lifting))
  have mem: "kmem_mem k' x = kmem_mem k x" if "\<not> in_page (ptab k d (PDX va)) x" for x
    unfolding k' by (rule kstore_frame [OF PTX_bound that])
  have "kmem_mem k' x = kmem_mem k x" if "\<not> in_vm k' d x" for x
    using that pr mem ed [OF PDX_bound] pt [OF PDX_bound] PDX_bound unfolding in_vm_def by metis
  then show "vm_grow d k k'" using ed by (simp add: vm_grow_def)
  have "kmem_mem k' x = kmem_mem k x" if "\<exists>q \<in> set ps. in_page q x" for x
  proof -
    from that obtain q where q: "q \<in> set ps" "in_page q x" by blast
    then have "q mod 4096 = 0" using D(1) by (auto simp: free_pages_def page_ok_def)
    then have "\<not> in_page (ptab k d (PDX va)) x" using in_page_unique [OF t(2) _ _ q(2)] q(1) t(3) by metis
    then show ?thesis by (rule mem)
  qed
  then have "free_pages kend (k\<lparr>kmem_mem := kmem_mem k'\<rparr>) ps" by (rule free_pages_store [OF D(1)])
  moreover have "k\<lparr>kmem_mem := kmem_mem k'\<rparr> = k'" by (simp add: k' kstore_def)
  ultimately show "vm_tables kend k' ps d" using vm ed pt by (simp add: vm_tables_def)
  have "ptab k d (PDX vb) = ptab k d (PDX va) \<longleftrightarrow> PDX vb = PDX va" if "present (entry k d (PDX vb))"
    using D(8) [OF PDX_bound PDX_bound that pr] .
  then show "pte_of k' d vb = (if unat vb div 4096 = unat va div 4096 then w else pte_of k d vb)"
    using e [OF D(6) [OF PDX_bound] PTX_bound, of vb vb] ed [OF PDX_bound, of vb] pt [OF PDX_bound, of vb] same_page_iff [of vb va] pr
    by (auto simp: pte_of_def)
qed

subsection \<open>Mapping a range\<close>

text \<open>How many pages an address lies above the page a, around the end of the address space.\<close>

definition vpn_off :: "u32 \<Rightarrow> u32 \<Rightarrow> nat" where
  "vpn_off a va = unat (va - a) div 4096"

lemma pte_nonzero:
  assumes "page_ok kend p" "i < 1024"
  shows "p + 4 * i \<noteq> 0"
proof
  assume "p + 4 * i = 0"
  then have "in_page p 0" using entry_in_page [of i 0 p] assms(2) by simp
  moreover have "in_page 0 0" by (simp add: in_page_def)
  ultimately have "p = 0" using in_page_unique [of p 0 0] assms(1) by (simp add: page_ok_def)
  with page_ok_nonzero [OF assms(1)] show False by simp
qed

lemma in_page_iff_div:
  assumes "a mod 4096 = 0"
  shows "in_page a va \<longleftrightarrow> unat va div 4096 = unat a div 4096"
proof -
  obtain c where c: "unat a = 4096 * c" using aligned_mult [OF assms] by blast
  show ?thesis
  proof
    assume "in_page a va"
    then have lt: "unat (va - a) < 4096" by (simp add: in_page_def)
    have "4096 * c < 2 ^ 32" using unat_lt_2_32 [of a] unfolding c .
    then have "unat a + unat (va - a) < 2 ^ LENGTH(32)" using lt unfolding c by simp
    then have "unat (a + (va - a)) = unat a + unat (va - a)" by (rule unat_add_no_wrap)
    then have "unat va = 4096 * c + unat (va - a)" unfolding c by simp
    then show "unat va div 4096 = unat a div 4096" using lt unfolding c by simp
  next
    assume "unat va div 4096 = unat a div 4096"
    then have d: "unat va div 4096 = c" unfolding c by simp
    then have "unat a \<le> unat va" using div_times_less_eq_dividend [of "unat va" 4096] unfolding c by simp
    then have "unat (va - a) = unat va - 4096 * c" unfolding c [symmetric] by (simp add: unat_sub word_le_nat_alt)
    also have "\<dots> = unat va mod 4096" using d by (simp add: minus_div_mult_eq_mod [symmetric] mult.commute)
    finally show "in_page a va" by (simp add: in_page_def)
  qed
qed

lemma vpn_off_step:
  assumes "a mod 4096 = 0"
  shows "vpn_off a va = 0 \<longleftrightarrow> unat va div 4096 = unat a div 4096"
    and "vpn_off a va \<noteq> 0 \<Longrightarrow> vpn_off (a + 4096) va = vpn_off a va - 1"
    and "vpn_off a va = 0 \<Longrightarrow> vpn_off (a + 4096) va = 2 ^ 20 - 1"
proof -
  show "vpn_off a va = 0 \<longleftrightarrow> unat va div 4096 = unat a div 4096"
    unfolding in_page_iff_div [OF assms, symmetric] in_page_def vpn_off_def by (simp add: div_eq_0_iff)
  have t: "va - (a + 4096) = (va - a) - 4096" by simp
  have c: "unat (4096 :: u32) = 4096" by simp
  show "vpn_off (a + 4096) va = vpn_off a va - 1" if "vpn_off a va \<noteq> 0"
  proof -
    have ge: "4096 \<le> unat (va - a)" using that by (simp add: vpn_off_def div_eq_0_iff)
    then have "unat ((va - a) - 4096) = unat (va - a) - 4096"
      by (metis c unat_sub word_le_nat_alt)
    then show ?thesis unfolding vpn_off_def t using ge by (simp add: le_div_geq)
  qed
  show "vpn_off (a + 4096) va = 2 ^ 20 - 1" if "vpn_off a va = 0"
  proof -
    have lt: "unat (va - a) < 4096" using that by (simp add: vpn_off_def div_eq_0_iff)
    have "unat ((va - a) + 0xFFFFF000) = unat (va - a) + unat (0xFFFFF000 :: u32)"
      by (rule unat_add_no_wrap) (use lt in simp)
    moreover have "(va - a) - 4096 = (va - a) + (0xFFFFF000 :: u32)" by simp
    moreover have "unat (0xFFFFF000 :: u32) = 4096 * 1048575" by simp
    ultimately have "unat ((va - a) - 4096) = unat (va - a) + 4096 * 1048575" by presburger
    then show ?thesis unfolding vpn_off_def t using lt by simp
  qed
qed

text \<open>The first m pages from a are now mapped to the frames from pa, every other translation is as before.\<close>

definition mapped :: "u32 \<Rightarrow> u32 \<Rightarrow> u32 \<Rightarrow> u32 \<Rightarrow> nat \<Rightarrow> kmem \<Rightarrow> kmem \<Rightarrow> bool" where
  "mapped d a pa perm m k k' \<longleftrightarrow> (\<forall>va. pte_of k' d va =
     (if vpn_off a va < m then (pa + 4096 * of_nat (vpn_off a va)) OR perm OR PTE_P else pte_of k d va))"

lemma mapped_0: "mapped d a pa perm 0 k k"
  by (simp add: mapped_def)

lemma mapped_Suc:
  assumes "mapped d a pa perm 1 k k1" "mapped d (a + 4096) (pa + 4096) perm m k1 k2" "a mod 4096 = 0" "m < 2 ^ 20"
  shows "mapped d a pa perm (Suc m) k k2"
  unfolding mapped_def
proof
  fix va
  show "pte_of k2 d va =
     (if vpn_off a va < Suc m then (pa + 4096 * of_nat (vpn_off a va)) OR perm OR PTE_P else pte_of k d va)"
  proof (cases "vpn_off a va")
    case 0
    then show ?thesis using assms(1,2,4) vpn_off_step(3) [OF assms(3) 0] by (simp add: mapped_def)
  next
    case (Suc i)
    then have "vpn_off (a + 4096) va = i" using vpn_off_step(2) [OF assms(3), of va] by simp
    then show ?thesis using assms(1,2) Suc by (simp add: mapped_def algebra_simps)
  qed
qed

lemma map_one:
  assumes vm: "vm_tables kend k ps d" and al: "a mod 4096 = 0" and ab: "\<not> present (pte_of k d a)"
  obtains (none) "mappages_loop n d a pa perm k = Inr (-1, k)" "ps = []" "\<not> present (entry k d (PDX a))"
  | (one) k' qs where
      "mappages_loop n d a pa perm k =
         (case n of 0 \<Rightarrow> Inr (0, k') | Suc n \<Rightarrow> mappages_loop n d (a + 4096) (pa + 4096) perm k')"
      "vm_tables kend k' qs d" "suffix qs ps" "vm_grow d k k'" "mapped d a pa perm 1 k k'"
      "tabs k' d \<union> set qs = tabs k d \<union> set ps" "\<exists>t. tabs k' d \<subseteq> insert t (tabs k d)"
      "present (entry k d (PDX a)) \<Longrightarrow> tabs k' d \<subseteq> tabs k d"
proof -
  obtain pte k1 where w: "walkpgdir d a True k = (pte, k1)" by force
  from vm w show thesis
  proof (cases rule: walk_alloc)
    case none
    then show thesis using that(1) w by (simp add: mappages_loop.simps)
  next
    case (some qs)
    let ?k = "kstore pte (pa OR perm OR PTE_P) k1"
    note S = set_pte [OF some(3,2) some(1) [THEN arg_cong, of "\<lambda>e. kstore e (pa OR perm OR PTE_P) k1"]]
    have "pte \<noteq> 0" unfolding some(1) using vm_tablesD(5) [OF some(3) PDX_bound some(2)] PTX_bound by (rule pte_nonzero)
    moreover have "kload k1 pte = pte_of k d a"
      using some(1,2) some(5) [of a] by (simp add: pte_of_def entry_def)
    ultimately have "mappages_loop n d a pa perm k =
         (case n of 0 \<Rightarrow> Inr (0, ?k) | Suc n \<Rightarrow> mappages_loop n d (a + 4096) (pa + 4096) perm ?k)"
      using w ab by (subst mappages_loop.simps) (simp add: Let_def)
    moreover have "mapped d a pa perm 1 k ?k"
      unfolding mapped_def S(4) some(5) vpn_off_step(1) [OF al, symmetric] by auto
    moreover have "tabs ?k d \<union> set qs = tabs k d \<union> set ps" by (simp only: S(3) some(7))
    moreover have "\<exists>t. tabs ?k d \<subseteq> insert t (tabs k d)" using some(8) unfolding S(3) by blast
    moreover have "tabs ?k d \<subseteq> tabs k d" if pr: "present (entry k d (PDX a))"
    proof -
      have "ptab k1 d (PDX a) = ptab k d (PDX a)" using some(4) pr PDX_bound by (simp add: vm_grow_def ptab_def)
      moreover have "ptab k d (PDX a) \<in> tabs k d" using pr PDX_bound by (auto simp: tabs_def)
      ultimately show ?thesis using some(8) unfolding S(3) by auto
    qed
    ultimately show thesis using that(2) S(1) some(6) vm_grow_trans [OF some(4) S(2)] by blast
  qed
qed

text \<open>
  Mapping n+1 absent pages from a: all are mapped or the allocator has run out of pages, and then
  only some are.
\<close>

lemma mappages_loop_spec:
  assumes "vm_tables kend k ps d" "a mod 4096 = 0" "n < 2 ^ 20" "\<And>va. vpn_off a va \<le> n \<Longrightarrow> \<not> present (pte_of k d va)"
  shows "\<exists>r k' qs m. mappages_loop n d a pa perm k = Inr (r, k') \<and> vm_tables kend k' qs d \<and> suffix qs ps \<and> vm_grow d k k' \<and>
     mapped d a pa perm m k k' \<and> tabs k' d \<union> set qs = tabs k d \<union> set ps \<and> (r = 0 \<and> m = Suc n \<or> r = -1 \<and> m \<le> n \<and> qs = [])"
  using assms
proof (induction n arbitrary: a pa k ps)
  case (0 a pa k ps)
  have "\<not> present (pte_of k d a)" by (rule 0(4)) (simp add: vpn_off_def)
  with 0(1,2) show ?case
  proof (cases rule: map_one [where n = 0 and pa = pa and perm = perm])
    case none
    then show ?thesis using 0(1) vm_grow_refl mapped_0 by blast
  next
    case (one k' qs)
    then show ?thesis by auto
  qed
next
  case (Suc n a pa k ps)
  have "\<not> present (pte_of k d a)" by (rule Suc.prems(4)) (simp add: vpn_off_def)
  with Suc.prems(1,2) show ?case
  proof (cases rule: map_one [where n = "Suc n" and pa = pa and perm = perm])
    case none
    then show ?thesis using Suc.prems(1) vm_grow_refl mapped_0 by (metis le0 suffix_order.order_refl)
  next
    case (one k1 qs)
    have "\<not> present (pte_of k1 d va)" if "vpn_off (a + 4096) va \<le> n" for va
    proof -
      have "vpn_off a va \<noteq> 0" using vpn_off_step(3) [OF Suc.prems(2), of va] that Suc.prems(3) by auto
      then have "vpn_off a va \<le> Suc n" "pte_of k1 d va = pte_of k d va"
        using vpn_off_step(2) [OF Suc.prems(2), of va] that one(5) by (auto simp: mapped_def)
      then show ?thesis using Suc.prems(4) by simp
    qed
    moreover have "(a + 4096) mod 4096 = 0" by (rule aligned_sum [OF Suc.prems(2)]) simp
    ultimately obtain r k2 rs m where
      *: "mappages_loop n d (a + 4096) (pa + 4096) perm k1 = Inr (r, k2)" "vm_tables kend k2 rs d" "suffix rs qs"
      "vm_grow d k1 k2" "mapped d (a + 4096) (pa + 4096) perm m k1 k2" "r = 0 \<and> m = Suc n \<or> r = -1 \<and> m \<le> n \<and> rs = []"
      "tabs k2 d \<union> set rs = tabs k1 d \<union> set qs"
      using Suc.IH [OF one(2), of "a + 4096" "pa + 4096"] Suc.prems(3) by auto
    have "mapped d a pa perm (Suc m) k k2"
      by (rule mapped_Suc [OF one(5) *(5) Suc.prems(2)]) (use *(6) Suc.prems(3) in auto)
    moreover have "mappages_loop (Suc n) d a pa perm k = Inr (r, k2)" using one(1) *(1) by simp
    moreover have "suffix rs ps" using *(3) one(3) by (rule suffix_order.trans)
    moreover have "r = 0 \<and> Suc m = Suc (Suc n) \<or> r = -1 \<and> Suc m \<le> Suc n \<and> rs = []" using *(6) by auto
    ultimately show ?thesis using *(2) vm_grow_trans [OF one(4) *(4)] *(7) one(6) by metis
  qed
qed

end
