(* ===== verification/VmSpace.thy ===== *)
theory VmSpace
  imports VmInv
begin

text \<open>
  Address spaces: the pages of a directory, its tables and its user part, and the invariant that they
  are pages of the allocator, none of them free, each used once. Mapping in terms of page numbers.
\<close>

subsection \<open>Ranges of pages\<close>

definition vpn :: "u32 \<Rightarrow> nat" where
  "vpn va = unat va div 4096"

lemma vpn_bound: "vpn va < 2 ^ 20"
  unfolding vpn_def using unat_lt_2_32 [of va] by (simp add: less_mult_imp_div_less)

lemma vpn_off_eq:
  assumes "a mod 4096 = 0"
  shows "vpn_off a vb = (if vpn a \<le> vpn vb then vpn vb - vpn a else 2 ^ 20 + vpn vb - vpn a)"
proof -
  obtain A where A: "unat a = 4096 * A" using aligned_mult [OF assms] by blast
  obtain B r where B: "unat vb = 4096 * B + r" "r < 4096"
    using div_mult_mod_eq [of "unat vb" 4096] mod_less_divisor [of 4096 "unat vb"] by (metis mult.commute zero_less_numeral)
  have v: "vpn a = A" "vpn vb = B" using A B by (simp_all add: vpn_def)
  have "4096 * A < 2 ^ 32" using unat_lt_2_32 [of a] unfolding A .
  then have A20: "A < 2 ^ 20" by simp
  show ?thesis
  proof (cases "A \<le> B")
    case True
    then have "a \<le> vb" using A B by (simp add: word_le_nat_alt)
    then have "unat (vb - a) = 4096 * (B - A) + r" using A B True by (simp add: unat_sub algebra_simps)
    then show ?thesis using True B(2) v by (simp add: vpn_off_def)
  next
    case False
    then have "\<not> unat a \<le> unat vb" using A B by simp
    then have "unat (vb - a) = unat vb + 2 ^ 32 - unat a"
      unfolding unat_sub_if_size by (simp add: word_size)
    also have "\<dots> = 4096 * (2 ^ 20 + B - A) + r" unfolding A B(1) using A20 by simp
    finally show ?thesis unfolding vpn_off_def v using False B(2) by simp
  qed
qed

lemma vpn_PGROUNDDOWN: "vpn (PGROUNDDOWN va) = vpn va"
  by (simp add: vpn_def unat_PGROUNDDOWN minus_mod_eq_div_mult)

lemma PGROUNDDOWN_range:
  assumes "0 < usz" "unat va + unat usz \<le> 2 ^ 32"
  shows "unat (PGROUNDDOWN (va + usz - 1) - PGROUNDDOWN va) div 4096 = (unat va + unat usz - 1) div 4096 - vpn va"
    and "vpn va \<le> (unat va + unat usz - 1) div 4096" "(unat va + unat usz - 1) div 4096 < 2 ^ 20"
proof -
  have "0 < unat usz" using assms(1) by (simp add: word_less_nat_alt)
  then have u: "unat (usz - 1) = unat usz - 1" using assms(1) by (simp add: unat_minus_one)
  have "unat (va + (usz - 1)) = unat va + unat (usz - 1)"
    by (rule unat_add_no_wrap) (use u assms(2) \<open>0 < unat usz\<close> in simp)
  then have l: "unat (va + usz - 1) = unat va + unat usz - 1" using u \<open>0 < unat usz\<close> by (simp add: algebra_simps)
  have v: "vpn (PGROUNDDOWN (va + usz - 1)) = (unat va + unat usz - 1) div 4096" by (simp only: vpn_PGROUNDDOWN) (simp only: vpn_def l)
  show le: "vpn va \<le> (unat va + unat usz - 1) div 4096" unfolding vpn_def using \<open>0 < unat usz\<close> by (intro div_le_mono) simp
  have "unat va + unat usz - 1 < 4096 * 2 ^ 20" using assms(2) \<open>0 < unat usz\<close> by simp
  then show "(unat va + unat usz - 1) div 4096 < 2 ^ 20" by (simp add: less_mult_imp_div_less)
  show "unat (PGROUNDDOWN (va + usz - 1) - PGROUNDDOWN va) div 4096 = (unat va + unat usz - 1) div 4096 - vpn va"
    using vpn_off_eq [OF PGROUNDDOWN_aligned, of va "PGROUNDDOWN (va + usz - 1)"] le v
    unfolding vpn_off_def vpn_PGROUNDDOWN by simp
qed

text \<open>Pages lo up to but without hi are mapped to consecutive frames from pa.\<close>

definition mapped_to :: "u32 \<Rightarrow> nat \<Rightarrow> nat \<Rightarrow> u32 \<Rightarrow> u32 \<Rightarrow> kmem \<Rightarrow> kmem \<Rightarrow> bool" where
  "mapped_to d lo hi pa perm k k' \<longleftrightarrow> (\<forall>va. pte_of k' d va =
     (if lo \<le> vpn va \<and> vpn va < hi then (pa + 4096 * of_nat (vpn va - lo)) OR perm OR PTE_P else pte_of k d va))"

lemma mapped_mapped_to:
  assumes "mapped d a pa perm m k k'" "a mod 4096 = 0" "vpn a + m \<le> 2 ^ 20"
  shows "mapped_to d (vpn a) (vpn a + m) pa perm k k'"
proof -
  have "vpn_off a va < m \<longleftrightarrow> vpn a \<le> vpn va \<and> vpn va < vpn a + m" for va
    unfolding vpn_off_eq [OF assms(2)] using assms(3) vpn_bound [of va] by auto
  moreover have "vpn_off a va = vpn va - vpn a" if "vpn a \<le> vpn va" for va
    unfolding vpn_off_eq [OF assms(2)] using that by simp
  ultimately show ?thesis using assms(1) by (auto simp: mapped_def mapped_to_def)
qed

lemma mappages_spec:
  assumes vm: "vm_tables kend k ps d" and sz: "0 < usz" "unat va + unat usz \<le> 2 ^ 32"
    and lo: "lo = vpn va" and hi: "hi = (unat va + unat usz - 1) div 4096 + 1"
    and ab: "\<And>vb. lo \<le> vpn vb \<Longrightarrow> vpn vb < hi \<Longrightarrow> \<not> present (pte_of k d vb)"
  shows "\<exists>r k' qs h. mappages d va usz pa perm k = Inr (r, k') \<and> vm_tables kend k' qs d \<and> suffix qs ps \<and> vm_grow d k k' \<and>
     mapped_to d lo h pa perm k k' \<and> tabs k' d \<union> set qs = tabs k d \<union> set ps \<and> (r = 0 \<and> h = hi \<or> r = -1 \<and> h < hi \<and> qs = [])"
proof -
  note R = PGROUNDDOWN_range [OF sz]
  let ?n = "hi - 1 - lo" and ?a = "PGROUNDDOWN va"
  have n: "?n < 2 ^ 20" "lo \<le> hi - 1" "hi - 1 < 2 ^ 20" "0 < hi" using R(2,3) lo hi by (simp_all add: less_imp_diff_less)
  have "\<not> present (pte_of k d vb)" if "vpn_off ?a vb \<le> ?n" for vb
  proof -
    have "vpn_off ?a vb = (if lo \<le> vpn vb then vpn vb - lo else 2 ^ 20 + vpn vb - lo)"
      using vpn_off_eq [OF PGROUNDDOWN_aligned, of va vb] unfolding vpn_PGROUNDDOWN lo .
    then have "lo \<le> vpn vb \<and> vpn vb < hi" using that n(2-4) by (cases "lo \<le> vpn vb") auto
    then show ?thesis using ab by blast
  qed
  from mappages_loop_spec [OF vm PGROUNDDOWN_aligned n(1) this] obtain r k' qs m where
    *: "mappages_loop ?n d ?a pa perm k = Inr (r, k')" "vm_tables kend k' qs d" "suffix qs ps" "vm_grow d k k'"
     "mapped d ?a pa perm m k k'" "tabs k' d \<union> set qs = tabs k d \<union> set ps" "r = 0 \<and> m = Suc ?n \<or> r = -1 \<and> m \<le> ?n \<and> qs = []"
    by blast
  have "mapped_to d lo (lo + m) pa perm k k'"
    using mapped_mapped_to [OF *(5) PGROUNDDOWN_aligned] *(7) n unfolding vpn_PGROUNDDOWN lo by auto
  moreover have "mappages d va usz pa perm k = Inr (r, k')"
    unfolding mappages_def Let_def R(1) using *(1) lo hi by simp
  moreover have "r = 0 \<and> lo + m = hi \<or> r = -1 \<and> lo + m < hi \<and> qs = []" using *(7) n(2,4) by auto
  ultimately show ?thesis using *(2-4,6) by blast
qed

subsection \<open>The pages of an address space\<close>

definition upage :: "kmem \<Rightarrow> u32 \<Rightarrow> u32 \<Rightarrow> u32" where
  "upage k d va = P2V (PTE_ADDR (pte_of k d va))"

definition upages :: "kmem \<Rightarrow> u32 \<Rightarrow> u32 set" where
  "upages k d = {upage k d va | va. va < KERNBASE \<and> present (pte_of k d va)}"

definition vm_pages :: "kmem \<Rightarrow> u32 \<Rightarrow> u32 set" where
  "vm_pages k d = insert d (tabs k d \<union> upages k d)"

text \<open>
  The user part maps pages that are neither free nor part of the tables, each at one place only.
  The first kernel address is no page of the allocator.
\<close>

definition vm_space :: "u32 \<Rightarrow> kmem \<Rightarrow> u32 list \<Rightarrow> u32 \<Rightarrow> bool" where
  "vm_space kend k ps d \<longleftrightarrow> KERNBASE < kend \<and> vm_tables kend k ps d \<and>
     (\<forall>va < KERNBASE. present (pte_of k d va) \<longrightarrow>
        page_ok kend (upage k d va) \<and> upage k d va \<notin> set ps \<and> upage k d va \<noteq> d \<and> upage k d va \<notin> tabs k d) \<and>
     (\<forall>va < KERNBASE. \<forall>vb < KERNBASE. present (pte_of k d va) \<longrightarrow> present (pte_of k d vb) \<longrightarrow>
        upage k d va = upage k d vb \<longrightarrow> vpn va = vpn vb)"

lemma vm_spaceD:
  assumes "vm_space kend k ps d"
  shows "KERNBASE < kend" "vm_tables kend k ps d"
    and "va < KERNBASE \<Longrightarrow> present (pte_of k d va) \<Longrightarrow> page_ok kend (upage k d va)"
    and "va < KERNBASE \<Longrightarrow> present (pte_of k d va) \<Longrightarrow> upage k d va \<notin> set ps"
    and "va < KERNBASE \<Longrightarrow> present (pte_of k d va) \<Longrightarrow> upage k d va \<notin> insert d (tabs k d)"
    and "va < KERNBASE \<Longrightarrow> vb < KERNBASE \<Longrightarrow> present (pte_of k d va) \<Longrightarrow> present (pte_of k d vb) \<Longrightarrow>
      upage k d va = upage k d vb \<Longrightarrow> vpn va = vpn vb"
  using assms unfolding vm_space_def by blast+

lemma vm_spaceI:
  assumes "KERNBASE < kend" "vm_tables kend k ps d"
    and "\<And>va. va < KERNBASE \<Longrightarrow> present (pte_of k d va) \<Longrightarrow>
      page_ok kend (upage k d va) \<and> upage k d va \<notin> set ps \<and> upage k d va \<notin> insert d (tabs k d)"
    and "\<And>va vb. va < KERNBASE \<Longrightarrow> vb < KERNBASE \<Longrightarrow> present (pte_of k d va) \<Longrightarrow> present (pte_of k d vb) \<Longrightarrow>
      upage k d va = upage k d vb \<Longrightarrow> vpn va = vpn vb"
  shows "vm_space kend k ps d"
  unfolding vm_space_def
proof (intro conjI allI impI)
  show "vpn va = vpn vb" if "va < KERNBASE" "vb < KERNBASE" "present (pte_of k d va)" "present (pte_of k d vb)"
      "upage k d va = upage k d vb" for va vb
    using that by (rule assms(4))
qed (use assms(1-3) in auto)

text \<open>The tables depend on the memory of the directory and the tables only.\<close>

lemma tables_cong:
  assumes vm: "vm_tables kend k ps d" and mem: "\<forall>x. in_vm k d x \<longrightarrow> kmem_mem k' x = kmem_mem k x"
  shows "i < 1024 \<Longrightarrow> entry k' d i = entry k d i" "i < 1024 \<Longrightarrow> ptab k' d i = ptab k d i" "tabs k' d = tabs k d"
    "pte_of k' d va = pte_of k d va" "upage k' d va = upage k d va" "upages k' d = upages k d"
    "free_pages kend k' qs \<Longrightarrow> set qs \<inter> insert d (tabs k d) = {} \<Longrightarrow> vm_tables kend k' qs d"
proof -
  show e: "entry k' d i = entry k d i" if "i < 1024" for i
    using that by (rule entry_cong) (use mem in \<open>simp add: in_vm_def\<close>)
  then show pt: "ptab k' d i = ptab k d i" if "i < 1024" for i using that by (simp add: ptab_def)
  show tb: "tabs k' d = tabs k d" unfolding tabs_def using e pt by (metis (no_types, lifting))
  have "entry k' (ptab k d (PDX va)) (PTX va) = entry k (ptab k d (PDX va)) (PTX va)" if "present (entry k d (PDX va))" for va
    by (rule entry_cong [OF PTX_bound]) (use that PDX_bound mem in \<open>auto simp: in_vm_def\<close>)
  then show p: "pte_of k' d va = pte_of k d va" for va by (simp add: pte_of_def e [OF PDX_bound] pt [OF PDX_bound])
  then show u: "upage k' d va = upage k d va" for va by (simp add: upage_def)
  show "upages k' d = upages k d" by (simp add: upages_def p u)
  have t: "ptab k d i \<in> tabs k d" if "i < 1024" "present (entry k d i)" for i using that by (auto simp: tabs_def)
  show "vm_tables kend k' qs d" if "free_pages kend k' qs" "set qs \<inter> insert d (tabs k d) = {}"
  proof -
    have A: "page_ok kend (ptab k d i) \<and> ptab k d i \<notin> set qs \<and> ptab k d i \<noteq> d" if "i < 1024" "present (entry k d i)" for i
      using vm_tablesD(5,7) [OF vm that] t [OF that] \<open>set qs \<inter> insert d (tabs k d) = {}\<close> by blast
    have B: "i = j" if "i < 1024" "j < 1024" "present (entry k d i)" "present (entry k d j)" "ptab k d i = ptab k d j" for i j
      using vm_tablesD(8) [OF vm that(1-4)] that(5) by simp
    have "free_pages kend k' qs" "page_ok kend d" "d \<notin> set qs" using that vm_tablesD(2) [OF vm] by blast+
    moreover have "\<forall>i < 1024. present (entry k' d i) \<longrightarrow> page_ok kend (ptab k' d i) \<and> ptab k' d i \<notin> set qs \<and> ptab k' d i \<noteq> d"
      using A e pt by simp
    moreover have "\<forall>i < 1024. \<forall>j < 1024. present (entry k' d i) \<longrightarrow> present (entry k' d j) \<longrightarrow> ptab k' d i = ptab k' d j \<longrightarrow> i = j"
      using B e pt by metis
    ultimately show ?thesis unfolding vm_tables_def by blast
  qed
qed

lemma space_cong:
  assumes vm: "vm_space kend k ps d" and mem: "\<forall>x. in_vm k d x \<longrightarrow> kmem_mem k' x = kmem_mem k x"
    and fr: "free_pages kend k' qs" "set qs \<inter> vm_pages k d = {}"
  shows "vm_space kend k' qs d"
proof -
  note C = tables_cong [OF vm_spaceD(2) [OF vm] mem]
  have T: "vm_tables kend k' qs d" by (rule C(7)) (use fr in \<open>auto simp: vm_pages_def\<close>)
  have U: "upage k d va \<notin> set qs" if "va < KERNBASE" "present (pte_of k d va)" for va
    using that fr(2) by (auto simp: vm_pages_def upages_def)
  show ?thesis
  proof (rule vm_spaceI [OF _ T])
    show "KERNBASE < kend" by (rule vm_spaceD(1) [OF vm])
    show "page_ok kend (upage k' d va) \<and> upage k' d va \<notin> set qs \<and> upage k' d va \<notin> insert d (tabs k' d)"
      if "va < KERNBASE" "present (pte_of k' d va)" for va
    proof -
      have p: "present (pte_of k d va)" using that(2) unfolding C(4) .
      from U [OF that(1) p] vm_spaceD(3,5) [OF vm that(1) p] show ?thesis unfolding C(3,5) by blast
    qed
    show "vpn va = vpn vb" if "va < KERNBASE" "vb < KERNBASE" "present (pte_of k' d va)" "present (pte_of k' d vb)"
      "upage k' d va = upage k' d vb" for va vb
      using that unfolding C(4,5) by (rule vm_spaceD(6) [OF vm])
  qed
qed

end
