(* ===== verification/VmFree.thy ===== *)
theory VmFree
  imports VmSpace
begin

text \<open>
  Freeing: deallocuvm frees the user pages of a range, freevm all pages of an address space.
\<close>

subsection \<open>Freeing user pages\<close>

lemma walk_entry:
  assumes "vm_tables kend k ps d" "present (pte_of k d va)"
  shows "walkpgdir d va alloc k = (ptab k d (PDX va) + 4 * PTX va, k)" "ptab k d (PDX va) + 4 * PTX va \<noteq> 0"
    "kload k (ptab k d (PDX va) + 4 * PTX va) = pte_of k d va" "present (entry k d (PDX va))"
proof -
  show p: "present (entry k d (PDX va))" using assms(2) by (auto simp: pte_of_def split: if_splits)
  then show "walkpgdir d va alloc k = (ptab k d (PDX va) + 4 * PTX va, k)" by (rule walk_present)
  show "ptab k d (PDX va) + 4 * PTX va \<noteq> 0"
    using vm_tablesD(5) [OF assms(1) PDX_bound p] PTX_bound by (rule pte_nonzero)
  show "kload k (ptab k d (PDX va) + 4 * PTX va) = pte_of k d va" using p by (simp add: pte_of_def entry_def)
qed

lemma tabs_apart:
  assumes "vm_tables kend k ps d"
  shows "d \<notin> tabs k d" "tabs k d \<inter> set ps = {}"
proof -
  have "p \<notin> set ps \<and> p \<noteq> d" if "p \<in> tabs k d" for p
    using that vm_tablesD(7) [OF assms] by (auto simp: tabs_def)
  then show "d \<notin> tabs k d" "tabs k d \<inter> set ps = {}" by auto
qed

lemma upage_cases:
  assumes "vm_space kend k ps d" "va < KERNBASE" "present (pte_of k d va)"
  shows "PTE_ADDR (pte_of k d va) \<noteq> 0"
proof
  assume "PTE_ADDR (pte_of k d va) = 0"
  then have "upage k d va = KERNBASE" by (simp add: upage_def P2V_def)
  with vm_spaceD(1) [OF assms(1)] vm_spaceD(3) [OF assms] show False by (auto simp: page_ok_def dest: leD)
qed

lemma disjoint_pages:
  assumes "p mod 4096 = 0" "q mod 4096 = 0" "p \<noteq> q" "in_page q x"
  shows "\<not> in_page p x"
  using in_page_unique [OF assms(1,2) _ assms(4)] assms(3) by blast

lemma free_one:
  assumes vm: "vm_space kend k ps d" and va: "va < KERNBASE" and pr: "present (pte_of k d va)"
  obtains k1 k' where "kfree kend (upage k d va) k = Inr k1" "k' = kstore (ptab k d (PDX va) + 4 * PTX va) 0 k1"
    "vm_space kend k' (upage k d va # ps) d" "tabs k' d = tabs k d"
    "\<And>vb. pte_of k' d vb = (if vpn vb = vpn va then 0 else pte_of k d vb)"
    "\<And>x. (\<forall>p \<in> insert (upage k d va) (insert d (tabs k d)). \<not> in_page p x) \<Longrightarrow> kmem_mem k' x = kmem_mem k x"
proof -
  let ?p = "upage k d va"
  note S = vm_spaceD [OF vm]
  note p = S(3-5) [OF va pr]
  note T = vm_tablesD [OF S(2)]
  obtain k1 where k1: "kfree kend ?p k = Inr k1" "free_pages kend k1 (?p # ps)"
    using kfree_free_pages [OF T(1) p(1,2)] by blast
  define k' where "k' = kstore (ptab k d (PDX va) + 4 * PTX va) 0 k1"
  have al: "?p mod 4096 = 0" using p(1) by (simp add: page_ok_def)
  have ta: "q mod 4096 = 0" if "q \<in> insert d (tabs k d)" for q
    using that T(3,6) unfolding tabs_def by blast
  have mem: "\<forall>x. in_vm k d x \<longrightarrow> kmem_mem k1 x = kmem_mem k x"
    using kfree_frame [OF k1(1)] disjoint_pages [OF al ta] p(3) unfolding in_vm_tabs by metis
  note C = tables_cong [OF S(2) mem]
  have pe: "present (entry k d (PDX va))" by (rule walk_entry(4) [OF S(2) pr])
  have e: "ptab k d (PDX va) = ptab k1 d (PDX va)" "present (entry k1 d (PDX va))"
    using C(1,2) [OF PDX_bound, of va] pe by simp_all
  have V1: "vm_tables kend k1 (?p # ps) d"
    by (rule C(7) [OF k1(2)]) (use p(3) T(4,7) in \<open>auto simp: tabs_def\<close>)
  note P = set_pte [OF V1 e(2) k'_def [unfolded e(1)]]
  have pt: "pte_of k' d vb = (if vpn vb = vpn va then 0 else pte_of k d vb)" for vb
    unfolding vpn_def P(4) C(4) by (rule refl)
  have tb: "tabs k' d = tabs k d" by (simp only: P(3) C(3))
  have up: "upage k' d vb = upage k d vb" "vpn vb \<noteq> vpn va" "present (pte_of k d vb)" if "present (pte_of k' d vb)" for vb
    using that unfolding upage_def pt by (auto split: if_splits)
  have "vm_space kend k' (?p # ps) d"
  proof (rule vm_spaceI [OF S(1) P(1)])
    show "page_ok kend (upage k' d vb) \<and> upage k' d vb \<notin> set (?p # ps) \<and> upage k' d vb \<notin> insert d (tabs k' d)"
      if "vb < KERNBASE" "present (pte_of k' d vb)" for vb
      using S(3-5) [OF that(1) up(3) [OF that(2)]] S(6) [OF that(1) va up(3) [OF that(2)] pr] up(1,2) [OF that(2)] tb by auto
    show "vpn vb = vpn vc" if "vb < KERNBASE" "vc < KERNBASE" "present (pte_of k' d vb)" "present (pte_of k' d vc)"
      "upage k' d vb = upage k' d vc" for vb vc
      using S(6) [OF that(1,2) up(3) [OF that(3)] up(3) [OF that(4)]] up(1) [OF that(3)] up(1) [OF that(4)] that(5) by simp
  qed
  moreover have "kmem_mem k' x = kmem_mem k x" if "\<forall>p \<in> insert ?p (insert d (tabs k d)). \<not> in_page p x" for x
  proof -
    have "ptab k d (PDX va) \<in> insert ?p (insert d (tabs k d))" using pe PDX_bound by (auto simp: tabs_def)
    then show ?thesis unfolding k'_def using that kstore_frame [OF PTX_bound] kfree_frame [OF k1(1)] by (metis insertI1)
  qed
  ultimately show thesis using that [OF k1(1) k'_def _ tb pt] by blast
qed

text \<open>Present entries of the pages from lo up to hi are cleared, all others are as before.\<close>

definition cleared :: "u32 \<Rightarrow> nat \<Rightarrow> nat \<Rightarrow> kmem \<Rightarrow> kmem \<Rightarrow> bool" where
  "cleared d lo hi k k' \<longleftrightarrow> (\<forall>va. pte_of k' d va =
     (if lo \<le> vpn va \<and> vpn va < hi \<and> present (pte_of k d va) then 0 else pte_of k d va))"

definition only_in :: "u32 set \<Rightarrow> kmem \<Rightarrow> kmem \<Rightarrow> bool" where
  "only_in P k k' \<longleftrightarrow> (\<forall>x. (\<forall>p \<in> P. \<not> in_page p x) \<longrightarrow> kmem_mem k' x = kmem_mem k x)"

lemma only_in_refl: "only_in P k k"
  by (simp add: only_in_def)

lemma only_in_trans: "only_in P k k1 \<Longrightarrow> only_in Q k1 k2 \<Longrightarrow> Q \<subseteq> P \<Longrightarrow> only_in P k k2"
  unfolding only_in_def by (metis subset_iff)

lemma cleared_refl: "hi \<le> lo \<Longrightarrow> cleared d lo hi k k"
  by (auto simp: cleared_def)

lemma cleared_skip:
  assumes "cleared d lo' hi k k'" "\<And>vb. lo \<le> vpn vb \<Longrightarrow> vpn vb < lo' \<Longrightarrow> \<not> present (pte_of k d vb)" "lo \<le> lo'"
  shows "cleared d lo hi k k'"
  using assms unfolding cleared_def by (metis not_le order_trans)

lemma cleared_one:
  assumes "cleared d (Suc lo) hi k1 k'" "lo < hi" "\<And>vb. pte_of k1 d vb = (if vpn vb = lo then 0 else pte_of k d vb)"
    "\<And>vb. vpn vb = lo \<Longrightarrow> present (pte_of k d vb)"
  shows "cleared d lo hi k k'"
  unfolding cleared_def
proof
  fix va
  show "pte_of k' d va = (if lo \<le> vpn va \<and> vpn va < hi \<and> present (pte_of k d va) then 0 else pte_of k d va)"
    using assms(1,2) assms(3,4) [of va] by (cases "vpn va = lo") (auto simp: cleared_def Suc_le_eq)
qed

lemma vpn_pte: "vpn va = vpn vb \<Longrightarrow> pte_of k d va = pte_of k d vb"
  using same_page_iff [of va vb] by (simp add: vpn_def pte_of_def)

lemma upages_one:
  assumes "\<And>vb. pte_of k1 d vb = (if vpn vb = vpn va then 0 else pte_of k d vb)" "va < KERNBASE" "present (pte_of k d va)"
  shows "insert (upage k d va) (upages k1 d) = upages k d"
proof (intro equalityI subsetI)
  have "upage k d vb \<in> insert (upage k d va) (upages k1 d)" if "vb < KERNBASE" "present (pte_of k d vb)" for vb
  proof (cases "vpn vb = vpn va")
    case True
    then show ?thesis using vpn_pte [OF True] by (simp add: upage_def)
  next
    case False
    then have "upage k1 d vb = upage k d vb" "present (pte_of k1 d vb)" using assms(1) [of vb] that by (simp_all add: upage_def)
    then show ?thesis using that(1) by (force simp: upages_def)
  qed
  then show "p \<in> insert (upage k d va) (upages k1 d)" if "p \<in> upages k d" for p using that by (auto simp: upages_def)
  have "upage k1 d vb \<in> upages k d" if "vb < KERNBASE" "present (pte_of k1 d vb)" for vb
    using that assms(1) [of vb] by (auto simp: upages_def upage_def split: if_splits)
  then show "p \<in> upages k d" if "p \<in> insert (upage k d va) (upages k1 d)" for p
    using that assms(2,3) by (auto simp: upages_def)
qed

lemma deallocuvm_skip:
  "a < oldsz \<Longrightarrow> \<not> present (entry k d (PDX (of_nat a))) \<Longrightarrow>
   deallocuvm_loop kend d oldsz a k = deallocuvm_loop kend d oldsz ((a div 4194304 + 1) * 4194304) k"
  by (subst deallocuvm_loop.simps) (simp add: walk_absent)

lemma deallocuvm_pass:
  assumes "vm_tables kend k ps d" "a < oldsz" "present (entry k d (PDX (of_nat a)))" "\<not> present (pte_of k d (of_nat a))"
  shows "deallocuvm_loop kend d oldsz a k = deallocuvm_loop kend d oldsz (a + 4096) k"
proof -
  have "ptab k d (PDX (of_nat a)) + 4 * PTX (of_nat a) \<noteq> 0"
    using vm_tablesD(5) [OF assms(1) PDX_bound assms(3)] PTX_bound by (rule pte_nonzero)
  moreover have "kload k (ptab k d (PDX (of_nat a)) + 4 * PTX (of_nat a)) = pte_of k d (of_nat a)"
    using assms(3) by (simp add: pte_of_def entry_def)
  ultimately show ?thesis using assms(2-4) by (subst deallocuvm_loop.simps) (simp add: walk_present)
qed

lemma deallocuvm_free:
  assumes "vm_space kend k ps d" "a < oldsz" "(of_nat a :: u32) < KERNBASE" "present (pte_of k d (of_nat a))"
    "kfree kend (upage k d (of_nat a)) k = Inr k1"
  shows "deallocuvm_loop kend d oldsz a k =
     deallocuvm_loop kend d oldsz (a + 4096) (kstore (ptab k d (PDX (of_nat a)) + 4 * PTX (of_nat a)) 0 k1)"
  using walk_entry [OF vm_spaceD(2) [OF assms(1)] assms(4)] upage_cases [OF assms(1,3,4)] assms(2,4,5)
  by (subst deallocuvm_loop.simps) (simp add: Let_def upage_def)

lemma absent_directory_entry:
  assumes "\<not> present (entry k d (PDX va))" "vpn va \<le> vpn vb" "vpn vb < (unat va div 4194304 + 1) * 1024"
  shows "\<not> present (pte_of k d vb)"
proof -
  have q: "n div 4194304 = n div 4096 div (1024 :: nat)" for n by (simp add: div_mult2_eq [symmetric])
  have "vpn va div 1024 \<le> vpn vb div 1024" using assms(2) by (rule div_le_mono)
  moreover have "vpn vb div 1024 < vpn va div 1024 + 1"
    using assms(3) unfolding q vpn_def by (simp add: less_mult_imp_div_less)
  ultimately have "unat vb div 4194304 = unat va div 4194304" unfolding q vpn_def by linarith
  then have "PDX vb = PDX va" by (simp add: word_unat_eq_iff unat_PDX)
  then show ?thesis using assms(1) by (simp add: pte_of_def)
qed

lemma deallocuvm_loop_spec:
  assumes "vm_space kend k ps d" "a mod 4096 = 0" "oldsz \<le> 2 ^ 31"
  shows "\<exists>k' qs. deallocuvm_loop kend d oldsz a k = Inr k' \<and> vm_space kend k' qs d \<and> tabs k' d = tabs k d \<and>
     cleared d (a div 4096) ((oldsz + 4095) div 4096) k k' \<and> set qs \<union> upages k' d = set ps \<union> upages k d \<and>
     set ps \<subseteq> set qs \<and> only_in (insert d (tabs k d) \<union> (set qs - set ps)) k k'"
  using assms
proof (induction "oldsz - a" arbitrary: a k ps rule: less_induct)
  case less
  let ?hi = "(oldsz + 4095) div 4096"
  note vm = vm_spaceD(2) [OF less.prems(1)]
  obtain c where c: "a = 4096 * c" using less.prems(2) by (auto simp: mod_eq_0_iff_dvd dvd_def)
  show ?case
  proof (cases "a < oldsz")
    case False
    then have "?hi \<le> a div 4096" unfolding c by auto
    then have "cleared d (a div 4096) ?hi k k" by (rule cleared_refl)
    moreover have "deallocuvm_loop kend d oldsz a k = Inr k" using False by (subst deallocuvm_loop.simps) simp
    ultimately show ?thesis using less.prems(1) only_in_refl by blast
  next
    case True
    have u: "unat (of_nat a :: u32) = a" using True less.prems(3) by (intro unat_of_nat_id) simp
    have kb: "(of_nat a :: u32) < KERNBASE" using True less.prems(3) u by (simp add: word_less_nat_alt KERNBASE_def)
    have v: "vpn (of_nat a) = a div 4096" by (simp add: vpn_def u)
    have lh: "a div 4096 < ?hi" "(a + 4096) div 4096 = Suc (a div 4096)" "(a + 4096) mod 4096 = 0"
      using True unfolding c by auto
    have dec: "oldsz - (a + 4096) < oldsz - a" using True by simp
    consider (skip) "\<not> present (entry k d (PDX (of_nat a)))"
      | (pass) "present (entry k d (PDX (of_nat a)))" "\<not> present (pte_of k d (of_nat a))"
      | (free) "present (pte_of k d (of_nat a))"
      by blast
    then show ?thesis
    proof cases
      case skip
      let ?b = "(a div 4194304 + 1) * 4194304"
      have "?b = 4096 * ((a div 4194304 + 1) * 1024)" by simp
      then have b: "?b mod 4096 = 0" "?b div 4096 = (a div 4194304 + 1) * 1024" by (simp_all only: mod_mult_self1_is_0 nonzero_mult_div_cancel_left)
      have ab: "a < ?b" by (rule next_table_above)
      have "a div 4096 \<le> ?b div 4096" using ab by (intro div_le_mono) simp
      moreover have "oldsz - ?b < oldsz - a" using ab True by (rule diff_less_mono2)
      ultimately show ?thesis
        using less.hyps [OF _ less.prems(1) b(1) less.prems(3)] deallocuvm_skip [OF True skip]
          cleared_skip [of d "?b div 4096" ?hi k _ "a div 4096"] absent_directory_entry [OF skip, unfolded v u] b(2) by metis
    next
      case pass
      have "\<not> present (pte_of k d vb)" if "a div 4096 \<le> vpn vb" "vpn vb < Suc (a div 4096)" for vb
        using pass(2) vpn_pte [of vb "of_nat a" k d] that v by auto
      then show ?thesis
        using less.hyps [OF dec less.prems(1) lh(3) less.prems(3)] deallocuvm_pass [OF vm True pass]
          cleared_skip [of d "Suc (a div 4096)" ?hi k _ "a div 4096"] lh(2) by (metis le_SucI order_refl)
    next
      case free
      obtain k1 k2 where k: "kfree kend (upage k d (of_nat a)) k = Inr k1"
        "k2 = kstore (ptab k d (PDX (of_nat a)) + 4 * PTX (of_nat a)) 0 k1"
        "vm_space kend k2 (upage k d (of_nat a) # ps) d" "tabs k2 d = tabs k d"
        "\<And>vb. pte_of k2 d vb = (if vpn vb = a div 4096 then 0 else pte_of k d vb)" "only_in (insert (upage k d (of_nat a)) (insert d (tabs k d))) k k2"
        using free_one [OF less.prems(1) kb free] unfolding v only_in_def by metis
      obtain k' qs where *: "deallocuvm_loop kend d oldsz (a + 4096) k2 = Inr k'" "vm_space kend k' qs d" "tabs k' d = tabs k2 d"
        "cleared d (Suc (a div 4096)) ?hi k2 k'" "set qs \<union> upages k' d = set (upage k d (of_nat a) # ps) \<union> upages k2 d"
        "set (upage k d (of_nat a) # ps) \<subseteq> set qs"
        "only_in (insert d (tabs k2 d) \<union> (set qs - set (upage k d (of_nat a) # ps))) k2 k'"
        using less.hyps [OF dec k(3) lh(3) less.prems(3)] unfolding lh(2) by blast
      have up: "insert (upage k d (of_nat a)) (upages k2 d) = upages k d"
        using k(5) kb free unfolding v [symmetric] by (rule upages_one)
      have "cleared d (a div 4096) ?hi k k'"
        by (rule cleared_one [OF *(4) lh(1) k(5)]) (use vpn_pte [of _ "of_nat a"] free v in metis)
      moreover have "deallocuvm_loop kend d oldsz a k = Inr k'"
        using deallocuvm_free [OF less.prems(1) True kb free k(1)] *(1) k(2) by simp
      moreover have "set qs \<union> upages k' d = set ps \<union> upages k d" using *(5) up by auto
      moreover have "only_in (insert d (tabs k d) \<union> (set qs - set ps)) k k'"
      proof (rule only_in_trans)
        have "upage k d (of_nat a) \<notin> set ps" by (rule vm_spaceD(4) [OF less.prems(1) kb free])
        then show "only_in (insert d (tabs k d) \<union> (set qs - set ps)) k k2"
          using *(6) by (intro only_in_trans [OF only_in_refl k(6)]) auto
        show "only_in (insert d (tabs k2 d) \<union> (set qs - set (upage k d (of_nat a) # ps))) k2 k'" by (rule *(7))
      qed (use k(4) in auto)
      moreover have "set ps \<subseteq> set qs" using *(6) by simp
      ultimately show ?thesis using *(2,3) k(4) by metis
    qed
  qed
qed

subsection \<open>Freeing an address space\<close>

lemma freevm_entry_eq: "freevm_entry kend d i k = (if present (entry k d (of_nat i)) then kfree kend (ptab k d (of_nat i)) k else Inr k)"
  by (simp add: freevm_entry_def entry_def ptab_def Let_def)

lemma freevm_entries:
  assumes "vm_tables kend k0 ps0 d" "distinct is" "set is \<subseteq> {..<1024}" "free_pages kend k ps"
    "\<forall>i < 1024. entry k d i = entry k0 d i" "\<forall>i \<in> set is. present (entry k0 d (of_nat i)) \<longrightarrow> ptab k0 d (of_nat i) \<notin> set ps"
  shows "\<exists>k' qs. forR is (freevm_entry kend d) k = Inr k' \<and> free_pages kend k' qs \<and>
     set qs = set ps \<union> {ptab k0 d (of_nat i) | i. i \<in> set is \<and> present (entry k0 d (of_nat i))} \<and> only_in (tabs k0 d) k k'"
  using assms(2-)
proof (induction "is" arbitrary: k ps)
  case Nil
  then show ?case using only_in_refl by auto
next
  case (Cons i "is")
  let ?i = "of_nat i :: u32"
  note T = vm_tablesD [OF assms(1)]
  have i: "i < 1024" using Cons.prems(2) by simp
  have u: "unat ?i = i" using i by (intro unat_of_nat_id) simp
  have i': "?i < 1024" using i u by (simp add: word_less_nat_alt)
  have e: "entry k d ?i = entry k0 d ?i" "ptab k d ?i = ptab k0 d ?i" using Cons.prems(4) i' by (simp_all add: ptab_def)
  have pr: "distinct is" "set is \<subseteq> {..<1024}" "\<forall>j \<in> set is. present (entry k0 d (of_nat j)) \<longrightarrow> ptab k0 d (of_nat j) \<notin> set ps"
    using Cons.prems by auto
  show ?case
  proof (cases "present (entry k0 d ?i)")
    case False
    then have "forR (i # is) (freevm_entry kend d) k = forR is (freevm_entry kend d) k" by (simp add: freevm_entry_eq e)
    moreover have "{ptab k0 d (of_nat j) | j. j \<in> set (i # is) \<and> present (entry k0 d (of_nat j))} =
        {ptab k0 d (of_nat j) | j. j \<in> set is \<and> present (entry k0 d (of_nat j))}" using False by auto
    ultimately show ?thesis using Cons.IH [OF pr(1,2) Cons.prems(3,4) pr(3)] by presburger
  next
    case True
    let ?p = "ptab k0 d ?i"
    note p = T(5-7) [OF i' True]
    have np: "?p \<notin> set ps" using Cons.prems(5) True by simp
    obtain k1 where k1: "kfree kend ?p k = Inr k1" "free_pages kend k1 (?p # ps)"
      using kfree_free_pages [OF Cons.prems(3) p(1) np] by blast
    have m1: "only_in (tabs k0 d) k k1"
      unfolding only_in_def using kfree_frame [OF k1(1)] i' True by (auto simp: tabs_def)
    have "entry k1 d j = entry k d j" if "j < 1024" for j
      using that by (rule entry_cong) (use kfree_frame [OF k1(1)] disjoint_pages [OF p(2) T(3)] p(3) in blast)
    then have e1: "\<forall>j < 1024. entry k1 d j = entry k0 d j" using Cons.prems(4) by simp
    have "\<forall>j \<in> set is. present (entry k0 d (of_nat j)) \<longrightarrow> ptab k0 d (of_nat j) \<notin> set (?p # ps)"
    proof (intro ballI impI)
      fix j
      assume j: "j \<in> set is" "present (entry k0 d (of_nat j))"
      then have "unat (of_nat j :: u32) = j" "j < 1024" "j \<noteq> i"
        using Cons.prems(1,2) by (auto intro!: unat_of_nat_id)
      moreover from this have "(of_nat j :: u32) < 1024" "of_nat j \<noteq> ?i" using u by (auto simp: word_less_nat_alt)
      ultimately have "ptab k0 d (of_nat j) \<noteq> ?p" using T(8) [OF _ i' j(2) True] by simp
      then show "ptab k0 d (of_nat j) \<notin> set (?p # ps)" using pr(3) j by simp
    qed
    from Cons.IH [OF pr(1,2) k1(2) e1 this] obtain k' qs where
      *: "forR is (freevm_entry kend d) k1 = Inr k'" "free_pages kend k' qs" "only_in (tabs k0 d) k1 k'"
      "set qs = set (?p # ps) \<union> {ptab k0 d (of_nat j) | j. j \<in> set is \<and> present (entry k0 d (of_nat j))}" by blast
    have "forR (i # is) (freevm_entry kend d) k = Inr k'" using True k1(1) *(1) by (simp add: freevm_entry_eq e)
    moreover have "set qs = set ps \<union> {ptab k0 d (of_nat j) | j. j \<in> set (i # is) \<and> present (entry k0 d (of_nat j))}"
      using *(4) True by auto
    ultimately show ?thesis using *(2) only_in_trans [OF m1 *(3)] by blast
  qed
qed

lemma tabs_upt: "{ptab k d (of_nat i) | i. i \<in> set [0..<1024] \<and> present (entry k d (of_nat i))} = tabs k d"
proof (intro equalityI subsetI)
  fix p
  assume "p \<in> {ptab k d (of_nat i) | i. i \<in> set [0..<1024] \<and> present (entry k d (of_nat i))}"
  then obtain i where i: "p = ptab k d (of_nat i)" "i < 1024" "present (entry k d (of_nat i))" by auto
  then have "(of_nat i :: u32) < 1024" using unat_of_nat_id [of i, where 'a = 32] by (simp add: word_less_nat_alt)
  then show "p \<in> tabs k d" using i by (auto simp: tabs_def)
next
  fix p
  assume "p \<in> tabs k d"
  then obtain i where i: "p = ptab k d i" "i < 1024" "present (entry k d i)" by (auto simp: tabs_def)
  then have "unat i \<in> set [0..<1024]" "i = of_nat (unat i)" by (simp_all add: word_less_nat_alt)
  then show "p \<in> {ptab k d (of_nat i) | i. i \<in> set [0..<1024] \<and> present (entry k d (of_nat i))}" using i by (metis (mono_tags, lifting) mem_Collect_eq)
qed

lemma freevm_spec:
  assumes vm: "vm_space kend k ps d"
  shows "\<exists>k' qs. freevm kend d k = Inr k' \<and> free_pages kend k' qs \<and> set qs = set ps \<union> vm_pages k d \<and> only_in (vm_pages k d) k k'"
proof -
  have z: "unat KERNBASE = 2 ^ 31" "PGROUNDUP 0 = 0" "\<not> KERNBASE \<le> 0" by (simp_all add: KERNBASE_def PGROUNDUP_def)
  obtain k1 qs where 1: "deallocuvm_loop kend d (2 ^ 31) 0 k = Inr k1" "vm_space kend k1 qs d" "tabs k1 d = tabs k d"
     "cleared d 0 ((2 ^ 31 + 4095) div 4096) k k1" "set qs \<union> upages k1 d = set ps \<union> upages k d" "only_in (insert d (tabs k d) \<union> (set qs - set ps)) k k1"
    using deallocuvm_loop_spec [OF vm, of 0 "2 ^ 31"] by auto
  have "\<not> present (pte_of k1 d va)" if "va < KERNBASE" for va
  proof -
    have "unat va < 2 ^ 31" using that z(1) by (simp add: word_less_nat_alt)
    then have "vpn va < (2 ^ 31 + 4095) div 4096" by (simp add: vpn_def less_mult_imp_div_less)
    then show ?thesis using 1(4) by (auto simp: cleared_def)
  qed
  then have "upages k1 d = {}" by (auto simp: upages_def)
  with 1(5) have qs: "set qs = set ps \<union> upages k d" by simp
  note V = vm_spaceD(2) [OF 1(2)]
  note T = vm_tablesD [OF V]
  have "\<forall>i \<in> set [0..<1024]. present (entry k1 d (of_nat i)) \<longrightarrow> ptab k1 d (of_nat i) \<notin> set qs"
  proof (intro ballI impI)
    fix i
    assume "i \<in> set [0..<1024]" "present (entry k1 d (of_nat i))"
    then have "ptab k1 d (of_nat i) \<in> tabs k1 d" unfolding tabs_upt [symmetric] by blast
    then show "ptab k1 d (of_nat i) \<notin> set qs" using T(7) by (auto simp: tabs_def)
  qed
  note I = this
  have S: "set [0..<1024] \<subseteq> {..<1024 :: nat}" unfolding set_upt by auto
  have "\<forall>i < 1024. entry k1 d i = entry k1 d i" by blast
  from freevm_entries [OF V distinct_upt S T(1) this I] obtain k2 rs where
    2: "forR [0..<1024] (freevm_entry kend d) k1 = Inr k2" "free_pages kend k2 rs" "set rs = set qs \<union> tabs k1 d" "only_in (tabs k1 d) k1 k2"
    unfolding tabs_upt by blast
  have "d \<notin> set rs" using 2(3) T(4) tabs_apart(1) [OF V] by blast
  from kfree_free_pages [OF 2(2) T(2) this] obtain k3 where 3: "kfree kend d k2 = Inr k3" "free_pages kend k3 (d # rs)" by blast
  have "only_in {d} k2 k3" unfolding only_in_def using kfree_frame [OF 3(1)] by blast
  moreover have "only_in (vm_pages k d) k k1"
    by (rule only_in_trans [OF only_in_refl 1(6)]) (use qs in \<open>auto simp: vm_pages_def\<close>)
  ultimately have "only_in (vm_pages k d) k k3"
    using only_in_trans [OF only_in_trans [OF _ 2(4)]] 1(3) by (auto simp: vm_pages_def)
  moreover have "set (d # rs) = set ps \<union> vm_pages k d" using 2(3) qs 1(3) by (auto simp: vm_pages_def)
  moreover have "freevm kend d k = Inr k3"
    using page_ok_nonzero [OF T(2)] z 1(1) 2(1) 3(1)
    unfolding freevm_def deallocuvm_def by simp
  ultimately show ?thesis using 3(2) by blast
qed

subsection \<open>Properties\<close>

text \<open>An address space with one page, at address 0, in a machine with no free page.\<close>

definition sample_vm :: kmem where
  "sample_vm = kstore 0x80201000 (V2P 0x80202000 OR 7) (kstore 0x80200000 (V2P 0x80201000 OR 7) sample_kmem)"

lemma sample_entry:
  assumes "q mod 4096 = 0" "j < 1024"
  shows "entry sample_vm q j =
    (if q = 0x80201000 \<and> j = 0 then V2P 0x80202000 OR 7 else if q = 0x80200000 \<and> j = 0 then V2P 0x80201000 OR 7 else 0)"
proof -
  have "(0x80201000 :: u32) mod 4096 = 0" "(0x80200000 :: u32) mod 4096 = 0" "(0 :: u32) < 1024" by simp_all
  note E = entry_kstore [OF this(1) assms(1) this(3) assms(2)] entry_kstore [OF this(2) assms(1) this(3) assms(2)]
  have "entry sample_kmem q j = 0" by (simp add: entry_def sample_kmem_def load_le32_def)
  then show ?thesis using E unfolding sample_vm_def by (simp only: mult_zero_right add_0_right)
qed

lemma sample_tables:
  shows "i < 1024 \<Longrightarrow> present (entry sample_vm 0x80200000 i) \<longleftrightarrow> i = 0" "ptab sample_vm 0x80200000 0 = 0x80201000"
    and "tabs sample_vm 0x80200000 = {0x80201000}"
    and "pte_of sample_vm 0x80200000 va = (if vpn va = 0 then V2P 0x80202000 OR 7 else 0)"
proof -
  have e: "entry sample_vm 0x80200000 i = (if i = 0 then V2P 0x80201000 OR 7 else 0)" if "i < 1024" for i
    using sample_entry [of "0x80200000" i] that by simp
  have pr: "present (entry sample_vm 0x80200000 i) \<longleftrightarrow> i = 0" if "i < 1024" for i
    unfolding e [OF that] by (simp add: V2P_def KERNBASE_def)
  then show "i < 1024 \<Longrightarrow> present (entry sample_vm 0x80200000 i) \<longleftrightarrow> i = 0" .
  show pt: "ptab sample_vm 0x80200000 0 = 0x80201000"
    unfolding ptab_def using e [of 0] by (simp add: V2P_def P2V_def PTE_ADDR_def KERNBASE_def)
  show "tabs sample_vm 0x80200000 = {0x80201000}" unfolding tabs_def using pr pt by force
  have z: "vpn va = 0 \<longleftrightarrow> PDX va = 0 \<and> PTX va = 0"
    using same_page_iff [of va 0] by (simp add: vpn_def PDX_def PTX_def)
  have "entry sample_vm 0x80201000 (PTX va) = (if PTX va = 0 then V2P 0x80202000 OR 7 else 0)"
    using sample_entry [of "0x80201000" "PTX va"] PTX_bound by simp
  then show "pte_of sample_vm 0x80200000 va = (if vpn va = 0 then V2P 0x80202000 OR 7 else 0)"
    unfolding pte_of_def z using pr [OF PDX_bound, of va] pt by auto
qed

lemma sample_user:
  shows "present (pte_of sample_vm 0x80200000 va) \<longleftrightarrow> vpn va = 0" "vpn va = 0 \<Longrightarrow> upage sample_vm 0x80200000 va = 0x80202000"
    and "upages sample_vm 0x80200000 = {0x80202000}" "vm_pages sample_vm 0x80200000 = {0x80200000, 0x80201000, 0x80202000}"
proof -
  have pr: "present (pte_of sample_vm 0x80200000 va) \<longleftrightarrow> vpn va = 0" for va
    unfolding sample_tables(4) by (simp add: V2P_def KERNBASE_def)
  then show "present (pte_of sample_vm 0x80200000 va) \<longleftrightarrow> vpn va = 0" .
  have up: "upage sample_vm 0x80200000 va = 0x80202000" if "vpn va = 0" for va
    unfolding upage_def sample_tables(4) using that by (simp add: V2P_def P2V_def PTE_ADDR_def KERNBASE_def)
  then show "vpn va = 0 \<Longrightarrow> upage sample_vm 0x80200000 va = 0x80202000" .
  have "(0 :: u32) < KERNBASE" "vpn 0 = 0" by (simp_all add: KERNBASE_def vpn_def)
  then show u: "upages sample_vm 0x80200000 = {0x80202000}" unfolding upages_def pr using up by force
  show "vm_pages sample_vm 0x80200000 = {0x80200000, 0x80201000, 0x80202000}"
    by (auto simp: vm_pages_def u sample_tables(3))
qed

lemma sample_space: "vm_space 0x80200000 sample_vm [] 0x80200000"
proof (rule vm_spaceI)
  have ok: "page_ok 0x80200000 0x80200000" "page_ok 0x80200000 0x80201000" "page_ok 0x80200000 0x80202000"
    by (simp_all add: page_ok_def V2P_def PHYSTOP_def KERNBASE_def)
  show "KERNBASE < (0x80200000 :: u32)" by (simp add: KERNBASE_def)
  have "free_pages 0x80200000 sample_vm []" by (simp add: free_pages_def sample_vm_def kstore_def sample_kmem_def)
  then show "vm_tables 0x80200000 sample_vm [] 0x80200000"
    using ok(1,2) sample_tables(1,2) by (auto simp: vm_tables_def)
  show "page_ok 0x80200000 (upage sample_vm 0x80200000 va) \<and> upage sample_vm 0x80200000 va \<notin> set [] \<and>
      upage sample_vm 0x80200000 va \<notin> insert 0x80200000 (tabs sample_vm 0x80200000)"
    if "va < KERNBASE" "present (pte_of sample_vm 0x80200000 va)" for va
    using that ok(3) sample_user(2) [of va] unfolding sample_user(1) by (simp add: sample_tables(3))
  show "vpn va = vpn vb" if "va < KERNBASE" "vb < KERNBASE" "present (pte_of sample_vm 0x80200000 va)"
    "present (pte_of sample_vm 0x80200000 vb)" "upage sample_vm 0x80200000 va = upage sample_vm 0x80200000 vb" for va vb
    using that(3,4) unfolding sample_user(1) by simp
qed

text \<open>
  C11: freeing an address space never panics and gives back all of it: afterwards the free pages are
  those that were free before, the directory, its page tables and the user pages, each of them once,
  and no other memory has changed.
\<close>

theorem freevm_returns_pages:
  assumes "vm_space kend k ps d"
  shows "\<exists>k' qs. freevm kend d k = Inr k' \<and> free_pages kend k' qs \<and> set qs = set ps \<union> vm_pages k d \<and>
    set ps \<inter> vm_pages k d = {} \<and> only_in (vm_pages k d) k k'"
proof -
  note T = vm_spaceD(2) [OF assms]
  have "set ps \<inter> vm_pages k d = {}"
    using vm_tablesD(4) [OF T] tabs_apart(2) [OF T] vm_spaceD(4) [OF assms] unfolding vm_pages_def upages_def by blast
  then show ?thesis using freevm_spec [OF assms] by blast
qed

theorem freevm_returns_pages_witness:
  "\<exists>k' qs. freevm 0x80200000 0x80200000 sample_vm = Inr k' \<and> free_pages 0x80200000 k' qs \<and> set qs = {0x80200000, 0x80201000, 0x80202000}"
  using freevm_returns_pages [OF sample_space] unfolding sample_user(4) by auto

end
