(* ===== verification/VmKernel.thy ===== *)
theory VmKernel
  imports VmFree
begin

text \<open>
  The kernel's part of every page table, against the layout that the comment in vm.c gives.
\<close>

subsection \<open>The kernel's mappings\<close>

definition seg_lo :: "kmap \<Rightarrow> nat" where
  "seg_lo e = vpn (km_virt e)"

definition seg_hi :: "kmap \<Rightarrow> nat" where
  "seg_hi e = (unat (km_virt e) + unat (km_phys_end e - km_phys_start e) - 1) div 4096 + 1"

definition seg_pte :: "kmap \<Rightarrow> u32 \<Rightarrow> u32" where
  "seg_pte e va = (km_phys_start e + 4096 * of_nat (vpn va - seg_lo e)) OR km_perm e OR PTE_P"

definition seg_ok :: "kmap \<Rightarrow> bool" where
  "seg_ok e \<longleftrightarrow> 0 < km_phys_end e - km_phys_start e \<and> unat (km_virt e) + unat (km_phys_end e - km_phys_start e) \<le> 2 ^ 32"

fun segs_from :: "nat \<Rightarrow> kmap list \<Rightarrow> bool" where
  "segs_from b [] \<longleftrightarrow> True"
| "segs_from b (e # es) \<longleftrightarrow> b \<le> seg_lo e \<and> seg_ok e \<and> segs_from (seg_hi e) es"

fun segs_pte :: "kmap list \<Rightarrow> u32 \<Rightarrow> u32 \<Rightarrow> u32" where
  "segs_pte [] w va = w"
| "segs_pte (e # es) w va = segs_pte es (if seg_lo e \<le> vpn va \<and> vpn va < seg_hi e then seg_pte e va else w) va"

lemma seg_lo_hi: "seg_ok e \<Longrightarrow> seg_lo e < seg_hi e"
  using PGROUNDDOWN_range(2) [of "km_phys_end e - km_phys_start e" "km_virt e"]
  by (simp add: seg_ok_def seg_lo_def seg_hi_def)

lemma vm_grow_only_in: "vm_grow d k k' \<Longrightarrow> only_in (insert d (tabs k' d)) k k'"
  by (auto simp: vm_grow_def only_in_def in_vm_tabs)

lemma no_user_space:
  assumes "vm_tables kend k ps d" "KERNBASE < kend" "\<And>va. va < KERNBASE \<Longrightarrow> \<not> present (pte_of k d va)"
  shows "vm_space kend k ps d" "upages k d = {}"
  using assms by (auto intro!: vm_spaceI simp: upages_def)

lemma below_kernel: "va < KERNBASE \<longleftrightarrow> vpn va < 2 ^ 19"
proof -
  have "va < KERNBASE \<longleftrightarrow> unat va < 2 ^ 31" by (simp add: word_less_nat_alt KERNBASE_def)
  also have "\<dots> \<longleftrightarrow> vpn va < 2 ^ 19" unfolding vpn_def by auto
  finally show ?thesis .
qed

lemma card_tabs: "card (tabs k d) \<le> 1024"
proof -
  have "tabs k d \<subseteq> (\<lambda>i. ptab k d (of_nat i)) ` {..<1024 :: nat}"
  proof
    fix p
    assume "p \<in> tabs k d"
    then obtain i where i: "p = ptab k d i" "i < 1024" by (auto simp: tabs_def)
    then have "unat i \<in> {..<1024}" "p = ptab k d (of_nat (unat i))" by (simp_all add: word_less_nat_alt)
    then show "p \<in> (\<lambda>i. ptab k d (of_nat i)) ` {..<1024 :: nat}" by blast
  qed
  then have "card (tabs k d) \<le> card ((\<lambda>i. ptab k d (of_nat i)) ` {..<1024 :: nat})" by (intro card_mono) auto
  also have "\<dots> \<le> 1024" using card_image_le [of "{..<1024 :: nat}"] by (metis card_lessThan finite_lessThan)
  finally show ?thesis .
qed

lemma setupkvm_loop_spec:
  assumes "vm_tables kend k ps d" "KERNBASE < kend" "segs_from b es" "2 ^ 19 \<le> b"
    "\<forall>va. b \<le> vpn va \<longrightarrow> \<not> present (pte_of k d va)" "\<forall>va < KERNBASE. \<not> present (pte_of k d va)"
  shows "\<exists>r k' qs. setupkvm_loop kend d es k = Inr (r, k') \<and> only_in (insert d (tabs k d \<union> set ps)) k k' \<and>
     (r = d \<and> vm_tables kend k' qs d \<and> tabs k' d \<union> set qs = tabs k d \<union> set ps \<and>
        (\<forall>va. pte_of k' d va = segs_pte es (pte_of k d va) va) \<or>
      r = 0 \<and> free_pages kend k' qs \<and> set qs = insert d (tabs k d \<union> set ps) \<and> card (tabs k d \<union> set ps) \<le> 1024)"
  using assms
proof (induction es arbitrary: k ps b)
  case Nil
  then show ?case using only_in_refl by auto
next
  case (Cons e es)
  have so: "b \<le> seg_lo e" "seg_ok e" "segs_from (seg_hi e) es" using Cons.prems(3) by simp_all
  have "\<not> present (pte_of k d va)" if "seg_lo e \<le> vpn va" "vpn va < seg_hi e" for va
    using that(1) so(1) Cons.prems(5) by auto
  then obtain r k1 qs h where *:
    "mappages d (km_virt e) (km_phys_end e - km_phys_start e) (km_phys_start e) (km_perm e) k = Inr (r, k1)"
    "vm_tables kend k1 qs d" "vm_grow d k k1" "mapped_to d (seg_lo e) h (km_phys_start e) (km_perm e) k k1"
    "tabs k1 d \<union> set qs = tabs k d \<union> set ps" "r = 0 \<and> h = seg_hi e \<or> r = -1 \<and> h < seg_hi e \<and> qs = []"
    using mappages_spec [OF Cons.prems(1) _ _ seg_lo_def seg_hi_def, of e] so(2) unfolding seg_ok_def by metis
  have P: "insert d (tabs k1 d) \<subseteq> insert d (tabs k d \<union> set ps)" using *(5) by auto
  have m: "only_in (insert d (tabs k d \<union> set ps)) k k1"
    by (rule only_in_trans [OF only_in_refl vm_grow_only_in [OF *(3)] P])
  have nu: "\<not> present (pte_of k1 d va)" if "va < KERNBASE" for va
    using *(4) Cons.prems(4,6) so(1) that below_kernel [of va] by (auto simp: mapped_to_def)
  show ?case
  proof (cases "r = 0")
    case True
    have I1: "\<forall>va. seg_hi e \<le> vpn va \<longrightarrow> \<not> present (pte_of k1 d va)"
    proof (intro allI impI)
      fix va
      assume that: "seg_hi e \<le> vpn va"
      have "b \<le> vpn va" using that seg_lo_hi [OF so(2)] so(1) by simp
      then show "\<not> present (pte_of k1 d va)" using *(4,6) True that Cons.prems(5) by (auto simp: mapped_to_def)
    qed
    have I2: "\<forall>va < KERNBASE. \<not> present (pte_of k1 d va)" using nu by blast
    have I0: "2 ^ 19 \<le> seg_hi e" using Cons.prems(4) so(1) seg_lo_hi [OF so(2)] by simp
    obtain r' k' rs where
      2: "setupkvm_loop kend d es k1 = Inr (r', k')" "only_in (insert d (tabs k1 d \<union> set qs)) k1 k'"
      "r' = d \<and> vm_tables kend k' rs d \<and> tabs k' d \<union> set rs = tabs k1 d \<union> set qs \<and>
        (\<forall>va. pte_of k' d va = segs_pte es (pte_of k1 d va) va) \<or>
      r' = 0 \<and> free_pages kend k' rs \<and> set rs = insert d (tabs k1 d \<union> set qs) \<and> card (tabs k1 d \<union> set qs) \<le> 1024"
      using Cons.IH [OF *(2) Cons.prems(2) so(3) I0 I1 I2] by blast
    have "pte_of k1 d va = (if seg_lo e \<le> vpn va \<and> vpn va < seg_hi e then seg_pte e va else pte_of k d va)" for va
      using *(4,6) True by (simp add: mapped_to_def seg_pte_def)
    then have "segs_pte (e # es) (pte_of k d va) va = segs_pte es (pte_of k1 d va) va" for va by simp
    moreover have "setupkvm_loop kend d (e # es) k = Inr (r', k')" using *(1) True 2(1) by simp
    moreover have "only_in (insert d (tabs k d \<union> set ps)) k k'" using only_in_trans [OF m] 2(2) *(5) by simp
    ultimately show ?thesis using 2(3) *(5) by metis
  next
    case False
    note N = no_user_space [OF *(2) Cons.prems(2) nu]
    obtain k' rs where f: "freevm kend d k1 = Inr k'" "free_pages kend k' rs" "set rs = set qs \<union> vm_pages k1 d"
      "only_in (vm_pages k1 d) k1 k'"
      using freevm_spec [OF N(1)] by blast
    have v: "vm_pages k1 d = insert d (tabs k1 d)" by (simp add: vm_pages_def N(2))
    have "setupkvm_loop kend d (e # es) k = Inr (0, k')" using *(1,6) False f(1) by auto
    moreover have "set rs = insert d (tabs k d \<union> set ps)" using f(3) v *(5) by auto
    moreover have "only_in (insert d (tabs k d \<union> set ps)) k k'" using only_in_trans [OF m f(4)] P v by simp
    moreover have "card (tabs k d \<union> set ps) \<le> 1024" using *(5,6) False card_tabs [of k1 d] by auto
    ultimately show ?thesis using f(2) by blast
  qed
qed

text \<open>The layout of the comment in vm.c: the entry of each address of a fresh page table.\<close>

definition kernel_pte :: "u32 \<Rightarrow> u32 \<Rightarrow> u32" where
  "kernel_pte data va =
     (if va < KERNBASE then 0
      else if va < KERNBASE + EXTMEM then V2P (PGROUNDDOWN va) OR PTE_W OR PTE_P
      else if va < data then V2P (PGROUNDDOWN va) OR PTE_P
      else if va < KERNBASE + PHYSTOP then V2P (PGROUNDDOWN va) OR PTE_W OR PTE_P
      else if va < DEVSPACE then 0
      else PGROUNDDOWN va OR PTE_W OR PTE_P)"

lemma vpn_less: "b mod 4096 = 0 \<Longrightarrow> va < b \<longleftrightarrow> vpn va < vpn b"
proof -
  assume b: "b mod 4096 = 0"
  obtain c where c: "unat b = 4096 * c" using aligned_mult [OF b] by blast
  have "va < b \<longleftrightarrow> unat va < 4096 * c" using c by (simp add: word_less_nat_alt)
  also have "\<dots> \<longleftrightarrow> vpn va < c" unfolding vpn_def by auto
  finally show ?thesis using c by (simp add: vpn_def)
qed

lemma page_address:
  assumes "b mod 4096 = 0" "b \<le> va"
  shows "b + 4096 * of_nat (vpn va - vpn b) = PGROUNDDOWN va"
proof -
  obtain c where c: "unat b = 4096 * c" using aligned_mult [OF assms(1)] by blast
  have vb: "vpn b = c" using c by (simp add: vpn_def)
  have le: "c \<le> vpn va" using assms(2) c unfolding word_le_nat_alt vpn_def by (metis div_le_mono nonzero_mult_div_cancel_left zero_neq_numeral)
  have "of_nat (unat b) + 4096 * of_nat (vpn va - c) = (of_nat (4096 * c + 4096 * (vpn va - c)) :: u32)" unfolding c by simp
  also have "4096 * c + 4096 * (vpn va - c) = 4096 * vpn va" using le by (simp add: algebra_simps)
  also have "4096 * vpn va = unat (PGROUNDDOWN va)" by (simp add: vpn_def unat_PGROUNDDOWN minus_mod_eq_div_mult)
  finally show ?thesis by (simp add: vb)
qed

text \<open>What the linker script ensures of the start of the kernel's data.\<close>

definition data_ok :: "u32 \<Rightarrow> bool" where
  "data_ok data \<longleftrightarrow> data mod 4096 = 0 \<and> KERNLINK < data \<and> V2P data < PHYSTOP"

lemma data_range:
  assumes "data_ok data"
  shows "0x80100000 < unat data" "unat data < 0x8E000000" "unat (V2P data) = unat data - 0x80000000" "4096 * vpn data = unat data"
proof -
  have kl: "KERNLINK = 0x80100000" by (simp add: KERNLINK_def KERNBASE_def EXTMEM_def)
  show lo: "0x80100000 < unat data" using assms unfolding data_ok_def kl by (simp add: word_less_nat_alt)
  then have "(0x80000000 :: u32) \<le> data" by (simp add: word_le_nat_alt)
  then show v: "unat (V2P data) = unat data - 0x80000000" by (simp add: V2P_def KERNBASE_def unat_sub)
  have "unat (V2P data) < 0xE000000" using assms by (simp add: data_ok_def PHYSTOP_def word_less_nat_alt)
  then show "unat data < 0x8E000000" unfolding v using lo by simp
  have "data mod 4096 = 0" using assms by (simp add: data_ok_def)
  from aligned_mult [OF this] show "4096 * vpn data = unat data" by (auto simp: vpn_def)
qed

lemma kmap_segs:
  assumes "data_ok data" "kmap_table data = [e1, e2, e3, e4]"
  shows "seg_lo e1 = 524288" "seg_hi e1 = 524544" "seg_ok e1"
    and "seg_lo e2 = 524544" "seg_hi e2 = vpn data" "seg_ok e2"
    and "seg_lo e3 = vpn data" "seg_hi e3 = 581632" "seg_ok e3"
    and "seg_lo e4 = 1040384" "seg_hi e4 = 1048576" "seg_ok e4"
proof -
  note R = data_range [OF assms(1)]
  note defs = kmap_table_def seg_lo_def seg_hi_def seg_ok_def vpn_def KERNLINK_def KERNBASE_def EXTMEM_def DEVSPACE_def PHYSTOP_def
  have 2: "unat (V2P data - 0x100000) = unat data - 0x80100000"
  proof -
    have "(0x100000 :: u32) \<le> V2P data" using R by (simp add: word_le_nat_alt)
    then show ?thesis using R by (simp add: unat_sub)
  qed
  have 3: "unat (0xE000000 - V2P data) = 0x8E000000 - unat data"
  proof -
    have "V2P data \<le> 0xE000000" using R by (simp add: word_le_nat_alt)
    then show ?thesis using R by (simp add: unat_sub)
  qed
  have v: "V2P 0x80100000 = 0x100000" by (simp add: V2P_def KERNBASE_def)
  show "seg_lo e1 = 524288" "seg_hi e1 = 524544" "seg_ok e1" "seg_lo e2 = 524544" "seg_lo e3 = vpn data"
    "seg_lo e4 = 1040384" "seg_hi e4 = 1048576"
    using assms(2) by (auto simp: defs)
  have neg: "- 0xFE000000 = (0x2000000 :: u32)" by simp
  show "seg_ok e4" using assms(2) by (auto simp: defs neg)
  show "seg_ok e2" using assms(2) R by (auto simp: defs v 2 word_less_nat_alt)
  show "seg_ok e3" using assms(2) R by (auto simp: defs 3 word_less_nat_alt)
  have "seg_hi e2 = (unat data - 1) div 4096 + 1" using assms(2) R by (auto simp: defs v 2)
  also have "\<dots> = vpn data" unfolding R(4) [symmetric] using R(1,4) by (cases "vpn data") auto
  finally show "seg_hi e2 = vpn data" .
  show "seg_hi e3 = 581632" using assms(2) R by (auto simp: defs 3)
qed

lemma kmap_table_segs: "data_ok data \<Longrightarrow> segs_from (2 ^ 19) (kmap_table data)"
proof -
  assume d: "data_ok data"
  obtain e1 e2 e3 e4 where e: "kmap_table data = [e1, e2, e3, e4]" by (simp add: kmap_table_def)
  note K = kmap_segs [OF d e]
  have "524544 \<le> vpn data" "vpn data \<le> 581632" using data_range [OF d] by auto
  then show ?thesis unfolding e by (simp add: K)
qed

lemma kmap_table_pte:
  assumes "data_ok data"
  shows "segs_pte (kmap_table data) 0 va = kernel_pte data va"
proof -
  obtain e1 e2 e3 e4 where e: "kmap_table data = [e1, e2, e3, e4]" by (simp add: kmap_table_def)
  note K = kmap_segs [OF assms e]
  have D: "524544 \<le> vpn data" "vpn data \<le> 581632" using data_range [OF assms] by auto
  have less: "va < KERNBASE \<longleftrightarrow> vpn va < 524288" "va < KERNBASE + EXTMEM \<longleftrightarrow> vpn va < 524544" "va < data \<longleftrightarrow> vpn va < vpn data"
    "va < KERNBASE + PHYSTOP \<longleftrightarrow> vpn va < 581632" "va < DEVSPACE \<longleftrightarrow> vpn va < 1040384"
    using assms by (subst vpn_less; simp add: KERNBASE_def EXTMEM_def PHYSTOP_def DEVSPACE_def vpn_def data_ok_def)+
  have P: "seg_pte e va = (km_phys_start e - km_virt e + PGROUNDDOWN va) OR km_perm e OR PTE_P"
    if "km_virt e mod 4096 = 0" "km_virt e \<le> va" for e
    unfolding page_address [OF that, symmetric] seg_pte_def seg_lo_def by (simp add: algebra_simps)
  have vl: "km_virt e1 = KERNBASE" "km_virt e2 = KERNBASE + EXTMEM" "km_virt e3 = data" "km_virt e4 = DEVSPACE"
    using e by (auto simp: kmap_table_def KERNLINK_def)
  have "data mod 4096 = 0" using assms unfolding data_ok_def by blast
  then have al: "km_virt e1 mod 4096 = 0" "km_virt e2 mod 4096 = 0" "km_virt e3 mod 4096 = 0" "km_virt e4 mod 4096 = 0"
    unfolding vl by (simp_all only: KERNBASE_def EXTMEM_def DEVSPACE_def) simp_all
  have ph: "km_phys_start e1 = 0" "km_phys_start e2 = EXTMEM" "km_phys_start e3 = V2P data" "km_phys_start e4 = DEVSPACE"
    "km_perm e1 = PTE_W" "km_perm e2 = 0" "km_perm e3 = PTE_W" "km_perm e4 = PTE_W"
    using e by (auto simp: kmap_table_def KERNLINK_def V2P_def)
  have p1: "seg_pte e1 va = V2P (PGROUNDDOWN va) OR PTE_W OR PTE_P" if "\<not> va < KERNBASE"
    using P [OF al(1)] that unfolding vl ph by (simp add: V2P_def not_less)
  have p2: "seg_pte e2 va = V2P (PGROUNDDOWN va) OR PTE_P" if "\<not> va < KERNBASE + EXTMEM"
    using P [OF al(2)] that unfolding vl ph by (simp add: V2P_def not_less)
  have p3: "seg_pte e3 va = V2P (PGROUNDDOWN va) OR PTE_W OR PTE_P" if "\<not> va < data"
    using P [OF al(3)] that unfolding vl ph by (simp add: V2P_def not_less)
  have p4: "seg_pte e4 va = PGROUNDDOWN va OR PTE_W OR PTE_P" if "\<not> va < DEVSPACE"
    using P [OF al(4)] that unfolding vl ph by (simp add: not_less)
  show ?thesis
    unfolding e kernel_pte_def segs_pte.simps K using p1 p2 p3 p4 D vpn_bound [of va] unfolding less by auto
qed

lemma setupkvm_spec:
  assumes "free_pages kend k ps" "KERNBASE < kend" "data_ok data"
  shows "\<exists>r k' qs. setupkvm kend data k = Inr (r, k') \<and> only_in (set ps) k k' \<and>
     (r = 0 \<and> free_pages kend k' qs \<and> set qs = set ps \<and> card (set ps) \<le> 1025 \<or>
      r \<noteq> 0 \<and> vm_space kend k' qs r \<and> upages k' r = {} \<and> set qs \<union> vm_pages k' r = set ps \<and>
      (\<forall>va. pte_of k' r va = kernel_pte data va))"
proof (cases ps)
  case Nil
  then show ?thesis using kalloc_free_pages(1) [OF assms(1)] assms(1) only_in_refl by (auto simp: setupkvm_def)
next
  case (Cons d qs)
  obtain k1 where k1: "kalloc k = (d, k1)" "free_pages kend k1 qs" "kmem_mem k1 = kmem_mem k"
    using kalloc_free_pages(2) [OF assms(1) Cons] by blast
  have d: "page_ok kend d" "d mod 4096 = 0" "d \<notin> set qs" using assms(1) Cons by (auto simp: free_pages_def page_ok_def)
  let ?k = "kzero d k1"
  have z: "entry ?k d i = 0" if "i < 1024" for i using entry_kzero [OF d(2,2) that] by simp
  have tb: "tabs ?k d = {}" using z by (auto simp: tabs_def)
  have pt: "pte_of ?k d va = 0" for va using z [OF PDX_bound] by (simp add: pte_of_def)
  have "free_pages kend ?k qs"
  proof -
    have "kmem_mem ?k x = kmem_mem k1 x" if "\<exists>q \<in> set qs. in_page q x" for x
    proof -
      from that obtain q where q: "q \<in> set qs" "in_page q x" by blast
      then have "q mod 4096 = 0" using k1(2) by (auto simp: free_pages_def page_ok_def)
      then show ?thesis using disjoint_pages [OF d(2) _ _ q(2)] q(1) d(3) by (auto simp: kzero_mem)
    qed
    then have "free_pages kend (k1\<lparr>kmem_mem := kmem_mem ?k\<rparr>) qs" by (rule free_pages_store [OF k1(2)])
    then show ?thesis by (simp add: kzero_def)
  qed
  then have vm: "vm_tables kend ?k qs d" using d z by (simp add: vm_tables_def)
  have *: "\<forall>va. 2 ^ 19 \<le> vpn va \<longrightarrow> \<not> present (pte_of ?k d va)" "\<forall>va < KERNBASE. \<not> present (pte_of ?k d va)"
    unfolding pt by simp_all
  obtain r k' rs where s: "setupkvm_loop kend d (kmap_table data) ?k = Inr (r, k')"
    "only_in (insert d (tabs ?k d \<union> set qs)) ?k k'"
    "r = d \<and> vm_tables kend k' rs d \<and> tabs k' d \<union> set rs = tabs ?k d \<union> set qs \<and>
        (\<forall>va. pte_of k' d va = segs_pte (kmap_table data) (pte_of ?k d va) va) \<or>
      r = 0 \<and> free_pages kend k' rs \<and> set rs = insert d (tabs ?k d \<union> set qs) \<and> card (tabs ?k d \<union> set qs) \<le> 1024"
    using setupkvm_loop_spec [OF vm assms(2) kmap_table_segs [OF assms(3)] order_refl *] by blast
  have "only_in (set ps) k ?k" unfolding only_in_def using Cons k1(3) by (simp add: kzero_mem)
  from only_in_trans [OF this s(2)] have m: "only_in (set ps) k k'" using Cons tb by simp
  have "\<not> DEVSPACE < P2V PHYSTOP" by (simp add: DEVSPACE_def P2V_def PHYSTOP_def KERNBASE_def)
  then have st: "setupkvm kend data k = Inr (r, k')"
    using k1(1) page_ok_nonzero [OF d(1)] s(1) by (simp add: setupkvm_def)
  from s(3) show ?thesis
  proof
    assume f: "r = 0 \<and> free_pages kend k' rs \<and> set rs = insert d (tabs ?k d \<union> set qs) \<and> card (tabs ?k d \<union> set qs) \<le> 1024"
    then have "set rs = set ps" using Cons tb by simp
    moreover have "card (set ps) \<le> 1025" using f Cons tb card_insert_le_m1 [of 1025 "set qs" d] by simp
    ultimately show ?thesis using st m f by blast
  next
    assume t: "r = d \<and> vm_tables kend k' rs d \<and> tabs k' d \<union> set rs = tabs ?k d \<union> set qs \<and>
        (\<forall>va. pte_of k' d va = segs_pte (kmap_table data) (pte_of ?k d va) va)"
    then have p: "pte_of k' d va = kernel_pte data va" for va using pt kmap_table_pte [OF assms(3)] by simp
    then have "\<not> present (pte_of k' d va)" if "va < KERNBASE" for va using that by (simp add: kernel_pte_def)
    note N = no_user_space [OF _ assms(2) this]
    have "vm_space kend k' rs d" "upages k' d = {}" using N t by blast+
    moreover have "set rs \<union> vm_pages k' d = set ps" using t tb Cons \<open>upages k' d = {}\<close> by (auto simp: vm_pages_def)
    ultimately show ?thesis using st m p t page_ok_nonzero [OF d(1)] by blast
  qed
qed

subsection \<open>Properties\<close>

text \<open>
  C12: setupkvm builds the address space that the comment in vm.c draws. When the start of the
  kernel's data is aligned and lies between the kernel and the end of the memory, no mapping is made
  twice. The call fails only when at most 1025 pages are free; it then returns 0 with all of them free
  again. Otherwise the new directory maps KERNBASE up to the data, the data up to the end of the
  memory, and the device space to the frames and with the permissions of the layout, and nothing else.
  Only memory of pages that were free has changed.
\<close>

theorem setupkvm_layout:
  assumes "free_pages kend k ps" "KERNBASE < kend" "data_ok data"
  shows "\<exists>r k' qs. setupkvm kend data k = Inr (r, k') \<and> only_in (set ps) k k' \<and>
     (r = 0 \<and> free_pages kend k' qs \<and> set qs = set ps \<and> card (set ps) \<le> 1025 \<or>
      r \<noteq> 0 \<and> vm_space kend k' qs r \<and> set qs \<union> vm_pages k' r = set ps \<and>
      (\<forall>va. pte_of k' r va = kernel_pte data va))"
  using setupkvm_spec [OF assms] by blast

lemma free_pages_exist:
  assumes "finite S" "\<And>p. p \<in> S \<Longrightarrow> page_ok kend p"
  shows "\<exists>k ps. free_pages kend k ps \<and> set ps = S"
  using assms
proof (induction S rule: finite_induct)
  case empty
  have "free_pages kend sample_kmem []" by (simp add: free_pages_def sample_kmem_def)
  then show ?case by force
next
  case (insert p S)
  then obtain k ps where "free_pages kend k ps" "set ps = S" by auto
  with insert kfree_free_pages [of kend k ps p] show ?case by (metis insertI1 list.simps(15))
qed

text \<open>1100 pages from four megabytes up.\<close>

lemma many_pages:
  assumes "n \<le> 50000"
  shows "\<exists>k ps. free_pages 0x80200000 k ps \<and> card (set ps) = n"
proof -
  let ?f = "\<lambda>i :: nat. 0x80400000 + 4096 * of_nat i :: u32"
  have u: "unat (4096 * of_nat i :: u32) = 4096 * i" if "i < n" for i
  proof -
    have "unat (of_nat (4096 * i) :: u32) = 4096 * i" using that assms by (intro unat_of_nat_id) simp
    then show ?thesis by simp
  qed
  have ok: "page_ok 0x80200000 (?f i)" if "i < n" for i
  proof -
    have f: "unat (?f i) = 0x80400000 + 4096 * i"
      using unat_add_no_wrap [of "0x80400000 :: u32" "4096 * of_nat i"] u [OF that] that assms by simp
    have "?f i mod 4096 = 0" unfolding unat_aligned f by simp
    moreover have "0x80200000 \<le> ?f i" unfolding word_le_nat_alt f by simp
    moreover have "V2P (?f i) = 0x400000 + 4096 * of_nat i" by (simp add: V2P_def KERNBASE_def)
    moreover have "0x400000 + 4096 * of_nat i < PHYSTOP"
      using unat_add_no_wrap [of "0x400000 :: u32" "4096 * of_nat i"] u [OF that] that assms
      by (simp add: PHYSTOP_def word_less_nat_alt)
    ultimately show ?thesis unfolding page_ok_def by simp
  qed
  have "inj_on ?f {..<n}" by (rule inj_onI) (use u in \<open>auto dest: arg_cong [where f = unat]\<close>)
  then have "card (?f ` {..<n}) = n" by (simp only: card_image card_lessThan)
  moreover obtain k ps where "free_pages 0x80200000 k ps" "set ps = ?f ` {..<n}"
    using free_pages_exist [of "?f ` {..<n}" "0x80200000"] ok by auto
  ultimately show ?thesis by metis
qed

theorem setupkvm_layout_witness:
  "\<exists>k r k' qs. setupkvm 0x80200000 0x80108000 k = Inr (r, k') \<and> r \<noteq> 0 \<and> vm_space 0x80200000 k' qs r \<and>
     pte_of k' r 0x80109ABC = 0x109003 \<and> pte_of k' r 0 = 0"
proof -
  obtain k ps where k: "free_pages 0x80200000 k ps" "card (set ps) = 1100" using many_pages [of 1100] by auto
  have d: "data_ok 0x80108000" by (simp add: data_ok_def KERNLINK_def KERNBASE_def EXTMEM_def V2P_def PHYSTOP_def)
  have "KERNBASE < (0x80200000 :: u32)" by (simp add: KERNBASE_def)
  moreover have "kernel_pte 0x80108000 0x80109ABC = 0x109003" "kernel_pte 0x80108000 0 = 0"
    by (simp_all add: kernel_pte_def KERNBASE_def EXTMEM_def PHYSTOP_def V2P_def PGROUNDDOWN_def)
  ultimately show ?thesis using setupkvm_layout [OF k(1) _ d] k(2) by fastforce
qed

end
