(* ===== verification/VmUser.thy ===== *)
theory VmUser
  imports VmKernel
begin

text \<open>
  Mapping one fresh page into the user part, the step that allocuvm and copyuvm share.
\<close>

subsection \<open>Mapping a user page\<close>

lemma vm_tables_apart_page:
  assumes "vm_space kend k (p # qs) c"
  shows "page_ok kend p" "p mod 4096 = 0" "p \<notin> set qs" "p \<notin> vm_pages k c" "vm_pages k c \<inter> set qs = {}"
proof -
  note T = vm_tablesD [OF vm_spaceD(2) [OF assms]]
  show "page_ok kend p" "p mod 4096 = 0" "p \<notin> set qs" using T(1) by (auto simp: free_pages_def page_ok_def)
  have "q \<notin> set (p # qs)" if "q \<in> vm_pages k c" for q
    using that T(4) tabs_apart(2) [OF vm_spaceD(2) [OF assms]] vm_spaceD(4) [OF assms]
    unfolding vm_pages_def upages_def by blast
  then show "p \<notin> vm_pages k c" "vm_pages k c \<inter> set qs = {}" by auto
qed

lemma vm_pages_aligned:
  assumes "vm_space kend k ps c" "q \<in> vm_pages k c"
  shows "q mod 4096 = 0"
proof -
  have "page_ok kend q"
    using assms(2) vm_tablesD(2,5) [OF vm_spaceD(2) [OF assms(1)]] vm_spaceD(3) [OF assms(1)]
    unfolding vm_pages_def tabs_def upages_def by blast
  then show ?thesis by (simp add: page_ok_def)
qed

lemma in_vm_pages: "in_vm k c x \<Longrightarrow> \<exists>q \<in> vm_pages k c. in_page q x"
  by (auto simp: in_vm_tabs vm_pages_def)

text \<open>Taking a page off the free list and writing into it leaves an address space as it was.\<close>

lemma take_page:
  assumes vm: "vm_space kend k (p # qs) c" and fr: "free_pages kend k1 qs" and m: "only_in {p} k k1"
  shows "vm_space kend k1 qs c" "pte_of k1 c va = pte_of k c va" "vm_pages k1 c = vm_pages k c" "tabs k1 c = tabs k c" "upage k1 c va = upage k c va"
    "i < 1024 \<Longrightarrow> entry k1 c i = entry k c i"
proof -
  note A = vm_tables_apart_page [OF vm]
  have mem: "\<forall>x. in_vm k c x \<longrightarrow> kmem_mem k1 x = kmem_mem k x"
  proof (intro allI impI)
    fix x
    assume "in_vm k c x"
    then obtain q where q: "q \<in> vm_pages k c" "in_page q x" using in_vm_pages by blast
    then have "\<not> in_page p x" using disjoint_pages [OF A(2) vm_pages_aligned [OF vm q(1)] _ q(2)] A(4) by blast
    then show "kmem_mem k1 x = kmem_mem k x" using m by (simp add: only_in_def)
  qed
  note C = tables_cong [OF vm_spaceD(2) [OF vm] mem]
  show "vm_space kend k1 qs c" by (rule space_cong [OF vm mem fr]) (use A(5) in blast)
  show "pte_of k1 c va = pte_of k c va" "tabs k1 c = tabs k c" "upage k1 c va = upage k c va" by (rule C)+
  show "entry k1 c i = entry k c i" if "i < 1024" using that by (rule C(1))
  show "vm_pages k1 c = vm_pages k c" by (simp only: vm_pages_def C(3,6))
qed

lemma user_pte:
  assumes "p mod 4096 = 0" "flags < 4096"
  shows "present (V2P p OR flags OR PTE_P)" "P2V (PTE_ADDR (V2P p OR flags OR PTE_P)) = p"
proof -
  show "present (V2P p OR flags OR PTE_P)" unfolding present_or by simp
  have z: "PGROUNDDOWN f = 0" if "f < 4096" for f
  proof -
    have "unat f < 4096" using that by (simp add: word_less_nat_alt)
    then show ?thesis by (simp add: word_unat_eq_iff unat_PGROUNDDOWN)
  qed
  have "PGROUNDDOWN (V2P p OR flags OR PTE_P) = PGROUNDDOWN (V2P p) OR PGROUNDDOWN flags OR PGROUNDDOWN PTE_P"
    by (simp add: PGROUNDDOWN_def bit.conj_disj_distrib2)
  then show "P2V (PTE_ADDR (V2P p OR flags OR PTE_P)) = p"
    using assms z by (simp add: PTE_ADDR_PGROUNDDOWN PGROUNDDOWN_id V2P_aligned P2V_V2P)
qed

lemma one_page_range:
  assumes "va < KERNBASE"
  shows "unat va + unat (4096 :: u32) \<le> 2 ^ 32"
    and "va mod 4096 = 0 \<Longrightarrow> (unat va + unat (4096 :: u32) - 1) div 4096 + 1 = Suc (vpn va)"
proof -
  have "unat va < 2 ^ 31" using assms by (simp add: word_less_nat_alt KERNBASE_def)
  then show "unat va + unat (4096 :: u32) \<le> 2 ^ 32" by simp
  show "(unat va + unat (4096 :: u32) - 1) div 4096 + 1 = Suc (vpn va)" if al: "va mod 4096 = 0"
  proof -
    obtain n where n: "unat va = 4096 * n" using aligned_mult [OF al] by blast
    then show ?thesis by (simp add: vpn_def)
  qed
qed

lemma map_user_page:
  assumes vm: "vm_space kend k (p # qs) c" and fr: "free_pages kend k1 qs" and m: "only_in {p} k k1"
    and va: "va < KERNBASE" "va mod 4096 = 0" and ab: "\<not> present (pte_of k c va)" and fl: "flags < 4096"
  shows "\<exists>r k' rs. mappages c va 4096 (V2P p) flags k1 = Inr (r, k') \<and> only_in (insert c (tabs k' c)) k1 k' \<and>
     vm_space kend k' rs c \<and> page_ok kend p \<and> p \<notin> insert c (tabs k' c) \<and> p \<notin> set rs \<and>
     (r = 0 \<and> set rs \<union> vm_pages k' c = insert p (set qs \<union> vm_pages k c) \<and>
        (\<forall>vb. pte_of k' c vb = (if vpn vb = vpn va then V2P p OR flags OR PTE_P else pte_of k c vb)) \<or>
      r = -1 \<and> rs = [] \<and> p \<notin> vm_pages k' c \<and> set rs \<union> vm_pages k' c = set qs \<union> vm_pages k c \<and> (\<forall>vb. pte_of k' c vb = pte_of k c vb))"
proof -
  note A = vm_tables_apart_page [OF vm]
  note T = take_page [OF vm fr m]
  have lh: "(4096 :: u32) > 0" by simp
  have "\<not> present (pte_of k1 c vb)" if "vpn va \<le> vpn vb" "vpn vb < (unat va + unat (4096 :: u32) - 1) div 4096 + 1" for vb
    using ab that vpn_pte [of vb va k c] unfolding T(2) one_page_range(2) [OF va] by auto
  then obtain r k' rs h where *: "mappages c va 4096 (V2P p) flags k1 = Inr (r, k')" "vm_tables kend k' rs c" "suffix rs qs" "vm_grow c k1 k'"
     "mapped_to c (vpn va) h (V2P p) flags k1 k'" "tabs k' c \<union> set rs = tabs k c \<union> set qs"
     "r = 0 \<and> h = Suc (vpn va) \<or> r = -1 \<and> h < Suc (vpn va) \<and> rs = []"
    using mappages_spec [OF vm_spaceD(2) [OF T(1)] lh one_page_range(1) [OF va(1)] refl refl, where pa = "V2P p" and perm = flags]
    unfolding T(4) one_page_range(2) [OF va] by blast
  have np: "p \<notin> insert c (tabs k' c)" "p \<notin> set rs" using *(6) A(3,4) by (auto simp: vm_pages_def)
  have oi: "only_in (insert c (tabs k' c)) k1 k'" by (rule vm_grow_only_in [OF *(4)])
  have old: "page_ok kend (upage k c vb) \<and> upage k c vb \<notin> set rs \<and> upage k c vb \<notin> insert c (tabs k' c) \<and> upage k c vb \<noteq> p"
    if "vb < KERNBASE" "present (pte_of k c vb)" for vb
  proof -
    have "upage k c vb \<in> vm_pages k c" using that by (auto simp: vm_pages_def upages_def)
    then have "upage k c vb \<notin> set qs" "upage k c vb \<noteq> p" using A(4,5) by auto
    then show ?thesis using *(6) vm_spaceD(3,5) [OF vm that] by auto
  qed
  show ?thesis
  proof (cases "r = 0")
    case True
    then have pt: "pte_of k' c vb = (if vpn vb = vpn va then V2P p OR flags OR PTE_P else pte_of k c vb)" for vb
      using *(5,7) by (auto simp: mapped_to_def T(2))
    have up: "upage k' c vb = (if vpn vb = vpn va then p else upage k c vb)" for vb
      unfolding upage_def pt using user_pte(2) [OF A(2) fl] by simp
    have "vm_space kend k' rs c"
    proof (rule vm_spaceI [OF vm_spaceD(1) [OF vm] *(2)])
      show "page_ok kend (upage k' c vb) \<and> upage k' c vb \<notin> set rs \<and> upage k' c vb \<notin> insert c (tabs k' c)"
        if "vb < KERNBASE" "present (pte_of k' c vb)" for vb
        using that old [OF that(1)] A(1) np unfolding up pt by (auto split: if_splits)
      show "vpn vb = vpn vc" if "vb < KERNBASE" "vc < KERNBASE" "present (pte_of k' c vb)" "present (pte_of k' c vc)"
        "upage k' c vb = upage k' c vc" for vb vc
        using that(3-5) old [OF that(1)] old [OF that(2)] vm_spaceD(6) [OF vm that(1,2)] unfolding up pt by (auto split: if_splits)
    qed
    moreover have "upages k' c = insert p (upages k c)"
    proof (intro equalityI subsetI)
      have "upage k' c vb \<in> insert p (upages k c)" if "vb < KERNBASE" "present (pte_of k' c vb)" for vb
        using that unfolding up pt upages_def by (auto split: if_splits)
      then show "q \<in> insert p (upages k c)" if "q \<in> upages k' c" for q using that by (auto simp: upages_def)
      have "p \<in> upages k' c"
        using va(1) user_pte(1) [OF A(2) fl] up [of va] pt [of va] unfolding upages_def by force
      moreover have "upage k c vb \<in> upages k' c" if "vb < KERNBASE" "present (pte_of k c vb)" for vb
      proof -
        have "vpn vb \<noteq> vpn va" using that(2) ab vpn_pte by metis
        then have "upage k' c vb = upage k c vb" "present (pte_of k' c vb)" using up pt that(2) by simp_all
        then show ?thesis using that(1) unfolding upages_def by force
      qed
      ultimately show "q \<in> upages k' c" if "q \<in> insert p (upages k c)" for q using that unfolding upages_def [of k] by blast
    qed
    then have "set rs \<union> vm_pages k' c = insert p (set qs \<union> vm_pages k c)" using *(6) by (auto simp: vm_pages_def)
    ultimately show ?thesis using *(1) True pt oi A(1) np by blast
  next
    case False
    then have pt: "pte_of k' c vb = pte_of k c vb" for vb using *(5,7) by (auto simp: mapped_to_def T(2))
    then have up: "upage k' c vb = upage k c vb" for vb by (simp add: upage_def)
    have ups: "upages k' c = upages k c" by (simp add: upages_def up pt)
    have "vm_space kend k' rs c"
    proof (rule vm_spaceI [OF vm_spaceD(1) [OF vm] *(2)])
      show "page_ok kend (upage k' c vb) \<and> upage k' c vb \<notin> set rs \<and> upage k' c vb \<notin> insert c (tabs k' c)"
        if "vb < KERNBASE" "present (pte_of k' c vb)" for vb
        using old that unfolding up pt by blast
      show "vpn vb = vpn vc" if "vb < KERNBASE" "vc < KERNBASE" "present (pte_of k' c vb)" "present (pte_of k' c vc)"
        "upage k' c vb = upage k' c vc" for vb vc
        using that unfolding up pt by (rule vm_spaceD(6) [OF vm])
    qed
    moreover have "p \<notin> vm_pages k' c" using np A(4) ups by (auto simp: vm_pages_def)
    moreover have "set rs \<union> vm_pages k' c = set qs \<union> vm_pages k c" using *(6) ups by (auto simp: vm_pages_def)
    ultimately show ?thesis using *(1,7) False pt oi A(1) np by blast
  qed
qed

text \<open>An address space has a directory, at most 1024 tables, and a page for each mapped address.\<close>

lemma card_upage_range:
  "card {upage k d va | va. lo \<le> vpn va \<and> vpn va < hi} \<le> hi - lo"
proof -
  let ?f = "\<lambda>i. upage k d (of_nat (4096 * i))"
  have "upage k d va = ?f (vpn va)" for va
  proof -
    have "4096 * vpn va = unat (PGROUNDDOWN va)" by (simp add: vpn_def unat_PGROUNDDOWN minus_mod_eq_mult_div)
    then have "of_nat (4096 * vpn va) = PGROUNDDOWN va" by simp
    then show ?thesis unfolding upage_def using vpn_pte [OF vpn_PGROUNDDOWN, of k d va] by simp
  qed
  then have "{upage k d va | va. lo \<le> vpn va \<and> vpn va < hi} \<subseteq> ?f ` {lo..<hi}"
    using atLeastLessThan_iff by blast
  then have "card {upage k d va | va. lo \<le> vpn va \<and> vpn va < hi} \<le> card (?f ` {lo..<hi})" by (intro card_mono) auto
  also have "\<dots> \<le> hi - lo" using card_image_le [of "{lo..<hi}" ?f] by simp
  finally show ?thesis .
qed

lemma card_vm_pages:
  assumes "\<And>va. va < KERNBASE \<Longrightarrow> present (pte_of k d va) \<Longrightarrow> vpn va < n"
  shows "card (vm_pages k d) \<le> 1025 + n"
proof -
  let ?U = "{upage k d va | va. 0 \<le> vpn va \<and> vpn va < n}"
  have "vm_pages k d \<subseteq> insert d (tabs k d \<union> ?U)" using assms unfolding vm_pages_def upages_def by blast
  then have "card (vm_pages k d) \<le> card (insert d (tabs k d \<union> ?U))" by (intro card_mono) simp_all
  also have "\<dots> \<le> Suc (card (tabs k d \<union> ?U))" by (rule card_insert_le_m1) simp_all
  also have "card (tabs k d \<union> ?U) \<le> card (tabs k d) + card ?U" by (rule card_Un_le)
  finally show ?thesis using card_tabs [of k d] card_upage_range [of k d 0 n] by linarith
qed

end
