(* ===== verification/VmCopy.thy ===== *)
theory VmCopy
  imports VmUser
begin

text \<open>
  copyuvm, the copy of an address space that fork makes.
\<close>

subsection \<open>Contents of pages\<close>

definition same_page :: "kmem \<Rightarrow> u32 \<Rightarrow> kmem \<Rightarrow> u32 \<Rightarrow> bool" where
  "same_page k p k' q \<longleftrightarrow> (\<forall>i < 4096. kmem_mem k' (q + of_nat i) = kmem_mem k (p + of_nat i))"

lemma page_byte: "i < 4096 \<Longrightarrow> in_page p (p + of_nat i)"
  using unat_of_nat_id [of i, where 'a = 32] by (simp add: in_page_def)

lemma only_in_page:
  assumes "only_in P k k'" "\<And>q. q \<in> P \<Longrightarrow> q mod 4096 = 0" "p mod 4096 = 0" "p \<notin> P" "in_page p x"
  shows "kmem_mem k' x = kmem_mem k x"
  using assms disjoint_pages [of _ p x] unfolding only_in_def by metis

lemma same_page_keep:
  assumes "same_page k0 p k q" "only_in P k k'" "\<And>r. r \<in> P \<Longrightarrow> r mod 4096 = 0" "q mod 4096 = 0" "q \<notin> P"
  shows "same_page k0 p k' q"
  using assms(1) only_in_page [OF assms(2-5) page_byte] by (simp add: same_page_def)

lemma fresh_page:
  assumes fr: "free_pages kend k (p # qs)" and al: "kalloc k = (p', k1)" and m: "\<And>x. \<not> in_page p x \<Longrightarrow> m' x = kmem_mem k x"
  shows "p' = p" "p \<noteq> 0" "p mod 4096 = 0" "free_pages kend (k1\<lparr>kmem_mem := m'\<rparr>) qs" "only_in {p} k (k1\<lparr>kmem_mem := m'\<rparr>)"
proof -
  obtain k2 where k2: "kalloc k = (p, k2)" "free_pages kend k2 qs" "kmem_mem k2 = kmem_mem k"
    using kalloc_free_pages(2) [OF fr refl] by blast
  then show "p' = p" using al by simp
  have k1: "k1 = k2" using al k2(1) by simp
  show "p \<noteq> 0" "p mod 4096 = 0" using fr by (auto simp: free_pages_def page_ok_def)
  have "m' x = kmem_mem k1 x" if "\<exists>q \<in> set qs. in_page q x" for x
  proof -
    from that obtain q where q: "q \<in> set qs" "in_page q x" by blast
    then have "q mod 4096 = 0" "q \<noteq> p" using fr by (auto simp: free_pages_def page_ok_def)
    then have "\<not> in_page p x" using disjoint_pages [OF \<open>p mod 4096 = 0\<close> _ _ q(2)] by metis
    then show ?thesis using m k2(3) k1 by simp
  qed
  then show "free_pages kend (k1\<lparr>kmem_mem := m'\<rparr>) qs" using free_pages_store [OF k2(2)] k1 by blast
  show "only_in {p} k (k1\<lparr>kmem_mem := m'\<rparr>)" using m by (simp add: only_in_def)
qed

lemma memmove_page:
  assumes "page_ok kend p" "page_ok kend q"
  shows "memmove m p q 4096 x = (if in_page p x then m (q + (x - p)) else m x)"
proof -
  have b: "unat r + unat (4096 :: u32) < 2 ^ 32" if "page_ok kend r" for r
  proof -
    have "unat (r - KERNBASE) < 0xE000000" using that by (simp add: page_ok_def V2P_def PHYSTOP_def word_less_nat_alt)
    moreover have "unat r \<le> unat (r - KERNBASE) + unat KERNBASE" using unat_word_ariths(1) [of "r - KERNBASE" KERNBASE] by simp
    ultimately show ?thesis by (simp add: KERNBASE_def)
  qed
  show ?thesis using memmove_eq [OF b [OF assms(2)] b [OF assms(1)], of m x] by (simp add: in_page_def)
qed

subsection \<open>Flags\<close>

lemma PTE_FLAGS_mod: "PTE_FLAGS e = e mod 4096"
proof -
  have m: "(0xFFF :: u32) = mask 12" by (simp add: mask_eq_exp_minus_1)
  have "PTE_FLAGS e = take_bit 12 e" unfolding PTE_FLAGS_def m by (simp only: take_bit_eq_mask)
  then show ?thesis by (simp add: take_bit_eq_mod)
qed

lemma PTE_FLAGS_less: "PTE_FLAGS e < 4096"
  unfolding PTE_FLAGS_mod by (rule word_mod_less_divisor) simp

lemma copied_flags:
  assumes "p mod 4096 = 0" "present e"
  shows "PTE_FLAGS (V2P p OR PTE_FLAGS e OR PTE_P) = PTE_FLAGS e"
proof -
  have "PTE_FLAGS (V2P p OR PTE_FLAGS e OR PTE_P) = PTE_FLAGS (V2P p) OR PTE_FLAGS e OR PTE_P"
    unfolding PTE_FLAGS_def by (rule bit_word_eqI) (auto simp: bit_simps)
  moreover have "PTE_FLAGS (V2P p) = 0" using V2P_aligned [OF assms(1)] by (simp only: PTE_FLAGS_mod)
  moreover have "PTE_FLAGS e OR PTE_P = PTE_FLAGS e"
    using assms(2) unfolding present_bit PTE_FLAGS_def by (intro bit_word_eqI) (auto simp: bit_simps bit_0)
  ultimately show ?thesis by simp
qed

subsection \<open>Copying an address space\<close>

text \<open>The page of an address in the copy c has the flags and the contents of that of the original.\<close>

definition copied :: "kmem \<Rightarrow> u32 \<Rightarrow> kmem \<Rightarrow> u32 \<Rightarrow> u32 \<Rightarrow> bool" where
  "copied k0 d k c va \<longleftrightarrow> present (pte_of k c va) \<and> PTE_FLAGS (pte_of k c va) = PTE_FLAGS (pte_of k0 d va) \<and>
     same_page k0 (upage k0 d va) k (upage k c va)"

definition copy_inv :: "u32 \<Rightarrow> u32 \<Rightarrow> u32 list \<Rightarrow> kmem \<Rightarrow> u32 \<Rightarrow> u32 \<Rightarrow> nat \<Rightarrow> kmem \<Rightarrow> u32 list \<Rightarrow> bool" where
  "copy_inv kend data ps0 k0 d c n k ps \<longleftrightarrow> vm_space kend k ps c \<and> set ps \<union> vm_pages k c = set ps0 \<and> only_in (set ps0) k0 k \<and>
     (\<forall>va. va < KERNBASE \<longrightarrow> vpn va < n \<longrightarrow> copied k0 d k c va) \<and>
     (\<forall>va. \<not> (va < KERNBASE \<and> vpn va < n) \<longrightarrow> pte_of k c va = kernel_pte data va)"

lemma free_set_aligned: "free_pages kend k ps \<Longrightarrow> q \<in> set ps \<Longrightarrow> q mod 4096 = 0"
  by (auto simp: free_pages_def page_ok_def)

text \<open>The original's pages are never free, so what happens to the free pages leaves it alone.\<close>

lemma original_kept:
  assumes vm: "vm_space kend k0 ps0 d" and m: "only_in (set ps0) k0 k" and fr: "free_pages kend k ps" "set ps \<subseteq> set ps0"
  shows "vm_space kend k ps d" "pte_of k d va = pte_of k0 d va" "upage k d va = upage k0 d va"
    and "q \<in> vm_pages k0 d \<Longrightarrow> in_page q x \<Longrightarrow> kmem_mem k x = kmem_mem k0 x"
proof -
  note F = vm_tablesD(1) [OF vm_spaceD(2) [OF vm]]
  have A: "vm_pages k0 d \<inter> set ps0 = {}"
    using vm_tablesD(4) [OF vm_spaceD(2) [OF vm]] tabs_apart(2) [OF vm_spaceD(2) [OF vm]] vm_spaceD(4) [OF vm]
    unfolding vm_pages_def upages_def by blast
  show K: "kmem_mem k x = kmem_mem k0 x" if "q \<in> vm_pages k0 d" "in_page q x" for q x
    by (rule only_in_page [OF m free_set_aligned [OF F] vm_pages_aligned [OF vm that(1)] _ that(2)]) (use A that(1) in auto)
  have mem: "\<forall>x. in_vm k0 d x \<longrightarrow> kmem_mem k x = kmem_mem k0 x" using K in_vm_pages by blast
  note C = tables_cong [OF vm_spaceD(2) [OF vm] mem]
  show "pte_of k d va = pte_of k0 d va" "upage k d va = upage k0 d va" by (rule C)+
  show "vm_space kend k ps d" by (rule space_cong [OF vm mem fr(1)]) (use A fr(2) in blast)
qed

text \<open>A round that copies the page of the address va.\<close>

lemma copy_page:
  assumes vm: "vm_space kend k0 ps0 d" and inv: "copy_inv kend data ps0 k0 d c n k (p # qs)"
    and va: "va < KERNBASE" "va mod 4096 = 0" "vpn va = n" and pr: "present (pte_of k0 d va)"
    and al: "kalloc k = (p', k1)" and k2: "k2 = k1\<lparr>kmem_mem := memmove (kmem_mem k1) p (upage k0 d va) 4096\<rparr>"
  shows "p' = p" "p \<noteq> 0"
    "\<exists>r k' rs. mappages c va 4096 (V2P p) (PTE_FLAGS (pte_of k0 d va)) k2 = Inr (r, k') \<and>
       (r = 0 \<and> copy_inv kend data ps0 k0 d c (Suc n) k' rs \<or>
        r = -1 \<and> vm_space kend k' rs c \<and> page_ok kend p \<and> p \<notin> set rs \<and> p \<notin> vm_pages k' c \<and>
          insert p (set rs \<union> vm_pages k' c) = set ps0 \<and> only_in (set ps0) k0 k' \<and> card (set ps0) \<le> 1026 + n)"
proof -
  let ?s = "upage k0 d va" and ?e = "pte_of k0 d va"
  have I: "vm_space kend k (p # qs) c" "set (p # qs) \<union> vm_pages k c = set ps0" "only_in (set ps0) k0 k"
    "\<And>vb. vb < KERNBASE \<Longrightarrow> vpn vb < n \<Longrightarrow> copied k0 d k c vb"
    "\<And>vb. \<not> (vb < KERNBASE \<and> vpn vb < n) \<Longrightarrow> pte_of k c vb = kernel_pte data vb"
    using inv unfolding copy_inv_def by blast+
  note F = vm_tablesD(1) [OF vm_spaceD(2) [OF I(1)]]
  note A = vm_tables_apart_page [OF I(1)]
  have ps0: "q mod 4096 = 0" if "q \<in> set ps0" for q
    using free_set_aligned [OF vm_tablesD(1) [OF vm_spaceD(2) [OF vm]] that] .
  have sp: "page_ok kend ?s" "?s mod 4096 = 0" "?s \<in> vm_pages k0 d"
    using vm_spaceD(3) [OF vm va(1) pr] va(1) pr by (auto simp: page_ok_def vm_pages_def upages_def)
  have k1: "kmem_mem k1 = kmem_mem k" using al kalloc_free_pages(2) [OF F refl] by auto
  have mv: "memmove (kmem_mem k1) p ?s 4096 x = (if in_page p x then kmem_mem k (?s + (x - p)) else kmem_mem k x)" for x
    using memmove_page [OF A(1) sp(1)] k1 by simp
  have out: "memmove (kmem_mem k1) p ?s 4096 x = kmem_mem k x" if "\<not> in_page p x" for x using that mv by simp
  have N: "p' = p" "p \<noteq> 0" "free_pages kend k2 qs" "only_in {p} k k2"
    unfolding k2 using out by (intro fresh_page [OF F al]; assumption)+
  show "p' = p" "p \<noteq> 0" by (rule N)+
  have src: "kmem_mem k (?s + of_nat i) = kmem_mem k0 (?s + of_nat i)" if "i < 4096" for i
    using original_kept(4) [OF vm I(3) F _ sp(3) page_byte [OF that]] I(2) by auto
  have "same_page k0 ?s k2 p"
    unfolding same_page_def k2 using mv page_byte src by simp
  have ab: "\<not> present (pte_of k c va)" using I(5) [of va] va by (simp add: kernel_pte_def)
  obtain r k' rs where *: "mappages c va 4096 (V2P p) (PTE_FLAGS ?e) k2 = Inr (r, k')" "only_in (insert c (tabs k' c)) k2 k'"
     "vm_space kend k' rs c" "p \<notin> insert c (tabs k' c)" "p \<notin> set rs"
     "r = 0 \<and> set rs \<union> vm_pages k' c = insert p (set qs \<union> vm_pages k c) \<and>
        (\<forall>vb. pte_of k' c vb = (if vpn vb = vpn va then V2P p OR PTE_FLAGS ?e OR PTE_P else pte_of k c vb)) \<or>
      r = -1 \<and> rs = [] \<and> p \<notin> vm_pages k' c \<and> set rs \<union> vm_pages k' c = set qs \<union> vm_pages k c \<and> (\<forall>vb. pte_of k' c vb = pte_of k c vb)"
    using map_user_page [OF I(1) N(3,4) va(1,2) ab PTE_FLAGS_less] by blast
  have tal: "q mod 4096 = 0" if "q \<in> insert c (tabs k' c)" for q
    using vm_pages_aligned [OF *(3)] that by (auto simp: vm_pages_def)
  have sub: "insert c (tabs k' c) \<subseteq> set ps0" using *(6) I(2) by (auto simp: vm_pages_def)
  have "only_in (set ps0) k0 k2" by (rule only_in_trans [OF I(3) N(4)]) (use I(2) in auto)
  then have oi: "only_in (set ps0) k0 k'" by (rule only_in_trans [OF _ *(2) sub])
  show "\<exists>r k' rs. mappages c va 4096 (V2P p) (PTE_FLAGS ?e) k2 = Inr (r, k') \<and>
       (r = 0 \<and> copy_inv kend data ps0 k0 d c (Suc n) k' rs \<or>
        r = -1 \<and> vm_space kend k' rs c \<and> page_ok kend p \<and> p \<notin> set rs \<and> p \<notin> vm_pages k' c \<and>
          insert p (set rs \<union> vm_pages k' c) = set ps0 \<and> only_in (set ps0) k0 k' \<and> card (set ps0) \<le> 1026 + n)"
  proof (cases "r = 0")
    case False
    then have f: "r = -1" "rs = []" "p \<notin> vm_pages k' c" "set rs \<union> vm_pages k' c = set qs \<union> vm_pages k c" "\<And>vb. pte_of k' c vb = pte_of k c vb"
      using *(6) by auto
    then have pg: "insert p (set rs \<union> vm_pages k' c) = set ps0" using I(2) by auto
    have "card (vm_pages k' c) \<le> 1025 + n"
      by (rule card_vm_pages) (use f(5) I(5) in \<open>force simp: kernel_pte_def\<close>)
    then have "card (set ps0) \<le> 1026 + n" unfolding pg [symmetric] using f(2) card_insert_le_m1 [of "1026 + n" "vm_pages k' c" p] by simp
    then show ?thesis using *(1,3,5) f(1,3) A(1) oi pg by blast
  next
    case True
    then have pt: "pte_of k' c vb = (if vpn vb = n then V2P p OR PTE_FLAGS ?e OR PTE_P else pte_of k c vb)" for vb
      using *(6) va(3) by auto
    have pg: "set rs \<union> vm_pages k' c = set ps0" using *(6) True I(2) by auto
    have new: "copied k0 d k' c vb" if "vpn vb = n" for vb
    proof -
      have v: "pte_of k0 d vb = ?e" using vpn_pte that va(3) by metis
      have u: "upage k' c vb = p" unfolding upage_def pt using that user_pte(2) [OF A(2) PTE_FLAGS_less] by simp
      have "same_page k0 ?s k' p"
        by (rule same_page_keep [OF \<open>same_page k0 ?s k2 p\<close> *(2) tal A(2) *(4)])
      moreover have "present (pte_of k' c vb)" unfolding pt using that user_pte(1) [OF A(2) PTE_FLAGS_less] by simp
      moreover have "PTE_FLAGS (pte_of k' c vb) = PTE_FLAGS ?e" unfolding pt using that copied_flags [OF A(2) pr] by simp
      ultimately show ?thesis unfolding copied_def u v by (simp add: upage_def v)
    qed
    have old: "copied k0 d k' c vb" if "vb < KERNBASE" "vpn vb < n" for vb
    proof -
      have e: "pte_of k' c vb = pte_of k c vb" "upage k' c vb = upage k c vb" using that(2) pt by (simp_all add: upage_def)
      note c = I(4) [OF that, unfolded copied_def]
      have u: "upage k c vb \<in> vm_pages k c" using that(1) c by (auto simp: vm_pages_def upages_def)
      then have al: "upage k c vb mod 4096 = 0" "upage k c vb \<notin> {p}" using vm_pages_aligned [OF I(1)] A(4) by auto
      have "same_page k0 (upage k0 d vb) k2 (upage k c vb)"
        by (rule same_page_keep [OF _ N(4) _ al]) (use c A(2) in auto)
      moreover have "upage k c vb \<notin> insert c (tabs k' c)"
        using vm_spaceD(5) [OF *(3) that(1)] c unfolding e by blast
      ultimately have "same_page k0 (upage k0 d vb) k' (upage k c vb)"
        using same_page_keep [OF _ *(2) tal al(1)] by blast
      then show ?thesis unfolding copied_def e using c by blast
    qed
    have "pte_of k' c vb = kernel_pte data vb" if "\<not> (vb < KERNBASE \<and> vpn vb < Suc n)" for vb
    proof -
      have "vb < KERNBASE" if "vpn vb = n" using va(1,3) below_kernel [of va] below_kernel [of vb] that by simp
      then have "vpn vb \<noteq> n" using that by auto
      then show ?thesis using that I(5) [of vb] pt by auto
    qed
    moreover have "copied k0 d k' c vb" if "vb < KERNBASE" "vpn vb < Suc n" for vb
      using new [of vb] old [OF that(1)] that(2) by (cases "vpn vb = n") auto
    ultimately have "copy_inv kend data ps0 k0 d c (Suc n) k' rs"
      unfolding copy_inv_def using *(3) pg oi by blast
    then show ?thesis using *(1) True by blast
  qed
qed

lemma copy_fail:
  assumes "vm_space kend k rs c" "only_in (set ps0) k0 k" "set rs \<union> vm_pages k c = set ps0"
  shows "\<exists>k' qs. freevm kend c k = Inr k' \<and> free_pages kend k' qs \<and> set qs = set ps0 \<and> only_in (set ps0) k0 k'"
proof -
  obtain k' qs where "freevm kend c k = Inr k'" "free_pages kend k' qs" "set qs = set rs \<union> vm_pages k c" "only_in (vm_pages k c) k k'"
    using freevm_spec [OF assms(1)] by blast
  moreover have "vm_pages k c \<subseteq> set ps0" using assms(3) by blast
  ultimately show ?thesis using only_in_trans [OF assms(2)] assms(3) by metis
qed

lemma free_held_page:
  assumes "vm_space kend k rs c" "page_ok kend p" "p \<notin> set rs" "p \<notin> vm_pages k c"
  shows "\<exists>k'. kfree kend p k = Inr k' \<and> vm_space kend k' (p # rs) c \<and> vm_pages k' c = vm_pages k c \<and>
    (\<forall>va. pte_of k' c va = pte_of k c va) \<and> only_in {p} k k'"
proof -
  obtain k' where k': "kfree kend p k = Inr k'" "free_pages kend k' (p # rs)"
    using kfree_free_pages [OF vm_tablesD(1) [OF vm_spaceD(2) [OF assms(1)]] assms(2,3)] by blast
  have p: "p mod 4096 = 0" using assms(2) by (simp add: page_ok_def)
  have m: "only_in {p} k k'" unfolding only_in_def using kfree_frame [OF k'(1)] by blast
  have mem: "\<forall>x. in_vm k c x \<longrightarrow> kmem_mem k' x = kmem_mem k x"
  proof (intro allI impI)
    fix x
    assume "in_vm k c x"
    then obtain q where q: "q \<in> vm_pages k c" "in_page q x" using in_vm_pages by blast
    show "kmem_mem k' x = kmem_mem k x"
      by (rule only_in_page [OF m _ vm_pages_aligned [OF assms(1) q(1)] _ q(2)]) (use p assms(4) q(1) in auto)
  qed
  note C = tables_cong [OF vm_spaceD(2) [OF assms(1)] mem]
  have "vm_pages k c \<inter> set rs = {}"
    using vm_tablesD(4) [OF vm_spaceD(2) [OF assms(1)]] tabs_apart(2) [OF vm_spaceD(2) [OF assms(1)]] vm_spaceD(4) [OF assms(1)]
    unfolding vm_pages_def upages_def by blast
  then have "vm_space kend k' (p # rs) c"
    using space_cong [OF assms(1) mem k'(2)] assms(4) by auto
  then show ?thesis using k'(1) C(3,4,6) m by (simp add: vm_pages_def)
qed

lemma copyuvm_loop_spec:
  assumes vm: "vm_space kend k0 ps0 d" and sz: "usz \<le> 2 ^ 31"
    and pr: "\<And>va. unat va < usz \<Longrightarrow> present (pte_of k0 d va)"
    and "copy_inv kend data ps0 k0 d c (i div 4096) k ps" "i mod 4096 = 0"
  shows "\<exists>r k' qs. copyuvm_loop kend d usz i c k = Inr (r, k') \<and> only_in (set ps0) k0 k' \<and>
     (r = c \<and> copy_inv kend data ps0 k0 d c (max (i div 4096) ((usz + 4095) div 4096)) k' qs \<or>
      r = 0 \<and> free_pages kend k' qs \<and> set qs = set ps0 \<and> card (set ps0) \<le> 1025 + (usz + 4095) div 4096)"
  using assms(4,5)
proof (induction "usz - i" arbitrary: i k ps rule: less_induct)
  case less
  obtain n where n: "i = 4096 * n" using less.prems(2) by (auto simp: mod_eq_0_iff_dvd dvd_def)
  show ?case
  proof (cases "i < usz")
    case False
    then have "(usz + 4095) div 4096 \<le> i div 4096" unfolding n by auto
    moreover have "copyuvm_loop kend d usz i c k = Inr (c, k)" using False by (subst copyuvm_loop.simps) simp
    moreover have "only_in (set ps0) k0 k" using less.prems(1) by (simp add: copy_inv_def)
    ultimately show ?thesis using less.prems(1) by (metis max.absorb1)
  next
    case True
    define va :: u32 where "va = of_nat i"
    have u: "unat va = i" unfolding va_def using True sz by (intro unat_of_nat_id) simp
    have va: "va < KERNBASE" "va mod 4096 = 0" "vpn va = i div 4096"
      using True sz u less.prems(2) unfolding unat_aligned by (simp_all add: word_less_nat_alt KERNBASE_def vpn_def)
    have p0: "present (pte_of k0 d va)" using pr u True by simp
    have nh: "Suc (i div 4096) \<le> (usz + 4095) div 4096" using True n by auto
    have I: "vm_space kend k ps c" "set ps \<union> vm_pages k c = set ps0" "only_in (set ps0) k0 k"
      using less.prems(1) by (auto simp: copy_inv_def)
    note F = vm_tablesD(1) [OF vm_spaceD(2) [OF I(1)]]
    have O: "vm_space kend k ps d" "pte_of k d va = pte_of k0 d va" "upage k d va = upage k0 d va"
      using original_kept(1-3) [OF vm I(3) F] I(2) by blast+
    have W: "walkpgdir d va False k = (ptab k d (PDX va) + 4 * PTX va, k)" "ptab k d (PDX va) + 4 * PTX va \<noteq> 0"
      "kload k (ptab k d (PDX va) + 4 * PTX va) = pte_of k0 d va"
      using walk_entry [OF vm_spaceD(2) [OF O(1)], of va] p0 O(2) by simp_all
    obtain p' k1 where al: "kalloc k = (p', k1)" by force
    let ?k2 = "k1\<lparr>kmem_mem := memmove (kmem_mem k1) p' (upage k0 d va) 4096\<rparr>"
    have body: "copyuvm_loop kend d usz i c k =
      (if p' = 0 then bindR (freevm kend c k1) (\<lambda>k. Inr (0, k))
       else bindR (mappages c va 4096 (V2P p') (PTE_FLAGS (pte_of k0 d va)) ?k2) (\<lambda>(r, k).
              if r < 0 then bindR (kfree kend p' k) (\<lambda>k. bindR (freevm kend c k) (\<lambda>k. Inr (0, k)))
              else copyuvm_loop kend d usz (i + 4096) c k))"
      using True W p0 al unfolding va_def upage_def by (subst copyuvm_loop.simps) (simp add: Let_def)
    show ?thesis
    proof (cases ps)
      case Nil
      then have "p' = 0" "k1 = k" using kalloc_free_pages(1) [OF F] al by auto
      moreover obtain k' qs where "freevm kend c k = Inr k'" "free_pages kend k' qs" "set qs = set ps0" "only_in (set ps0) k0 k'"
        using copy_fail [OF I(1,3,2)] by blast
      moreover have "card (vm_pages k c) \<le> 1025 + i div 4096"
        by (rule card_vm_pages) (use less.prems(1) in \<open>force simp: copy_inv_def kernel_pte_def\<close>)
      moreover have "vm_pages k c = set ps0" using I(2) Nil by simp
      ultimately show ?thesis using body nh by force
    next
      case (Cons p qs)
      note C = copy_page [OF vm less.prems(1) [unfolded Cons] va p0 al refl]
      obtain r k' rs where *: "mappages c va 4096 (V2P p) (PTE_FLAGS (pte_of k0 d va)) ?k2 = Inr (r, k')"
        "r = 0 \<and> copy_inv kend data ps0 k0 d c (Suc (i div 4096)) k' rs \<or>
         r = -1 \<and> vm_space kend k' rs c \<and> page_ok kend p \<and> p \<notin> set rs \<and> p \<notin> vm_pages k' c \<and>
          insert p (set rs \<union> vm_pages k' c) = set ps0 \<and> only_in (set ps0) k0 k' \<and> card (set ps0) \<le> 1026 + i div 4096"
        using C(3) unfolding C(1) by blast
      show ?thesis
      proof (cases "r = 0")
        case r: True
        have s: "(i + 4096) div 4096 = Suc (i div 4096)" "(i + 4096) mod 4096 = 0" using n by auto
        have "max (i div 4096) ((usz + 4095) div 4096) = max ((i + 4096) div 4096) ((usz + 4095) div 4096)" unfolding s using nh by simp
        moreover have "copyuvm_loop kend d usz i c k = copyuvm_loop kend d usz (i + 4096) c k'"
          using body *(1) r C(1,2) by simp
        moreover have "copy_inv kend data ps0 k0 d c ((i + 4096) div 4096) k' rs" using *(2) r s(1) by simp
        ultimately show ?thesis using less.hyps [OF _ _ s(2)] True by (metis diff_less_mono2 less_add_same_cancel1 zero_less_numeral)
      next
        case False
        then have f: "r = -1" "vm_space kend k' rs c" "page_ok kend p" "p \<notin> set rs" "p \<notin> vm_pages k' c"
          "insert p (set rs \<union> vm_pages k' c) = set ps0" "only_in (set ps0) k0 k'" "card (set ps0) \<le> 1026 + i div 4096"
          using *(2) by auto
        obtain k3 where 3: "kfree kend p k' = Inr k3" "vm_space kend k3 (p # rs) c" "vm_pages k3 c = vm_pages k' c" "only_in {p} k' k3"
          using free_held_page [OF f(2-5)] by blast
        have "only_in (set ps0) k0 k3" by (rule only_in_trans [OF f(7) 3(4)]) (use f(6) in auto)
        from copy_fail [OF 3(2) this] f(6) 3(3) obtain k4 qs4 where
          "freevm kend c k3 = Inr k4" "free_pages kend k4 qs4" "set qs4 = set ps0" "only_in (set ps0) k0 k4" by auto
        moreover from this body *(1) f(1) 3(1) C(1,2) have "copyuvm_loop kend d usz i c k = Inr (0, k4)" by simp
        moreover have "card (set ps0) \<le> 1025 + (usz + 4095) div 4096" using f(8) nh by simp
        ultimately show ?thesis by blast
      qed
    qed
  qed
qed

subsection \<open>Properties\<close>

text \<open>
  C7: copyuvm makes a copy of an address space whose pages below usz are all mapped. Either it runs out
  of pages, which it does only when there are too few: then it returns 0 and has given back every page it took. Or it returns a directory with
  pages of its own: the kernel's part is that of the layout, each user page has the flags and the
  contents of the original's, and no other user address is mapped. In both cases no memory outside
  of the free pages has changed, so that the original still stands with its pages and contents.
\<close>

theorem copyuvm_copies:
  assumes "vm_space kend k ps d" "data_ok data" "unat usz \<le> 2 ^ 31" "\<And>va. va < usz \<Longrightarrow> present (pte_of k d va)"
  shows "\<exists>r k' qs. copyuvm kend data d usz k = Inr (r, k') \<and> only_in (set ps) k k' \<and> vm_space kend k' qs d \<and>
     (\<forall>va. pte_of k' d va = pte_of k d va) \<and>
     (r = 0 \<and> set qs = set ps \<and> card (set ps) \<le> 1025 + (unat usz + 4095) div 4096 \<or>
      r \<noteq> 0 \<and> vm_space kend k' qs r \<and> set qs \<union> vm_pages k' r = set ps \<and>
      (\<forall>va. if va < KERNBASE \<and> vpn va < (unat usz + 4095) div 4096 then copied k d k' r va
            else pte_of k' r va = kernel_pte data va))"
proof -
  note F = vm_tablesD(1) [OF vm_spaceD(2) [OF assms(1)]]
  note K = original_kept [OF assms(1)]
  obtain c k1 qs where s: "setupkvm kend data k = Inr (c, k1)" "only_in (set ps) k k1"
     "c = 0 \<and> free_pages kend k1 qs \<and> set qs = set ps \<and> card (set ps) \<le> 1025 \<or>
      c \<noteq> 0 \<and> vm_space kend k1 qs c \<and> upages k1 c = {} \<and> set qs \<union> vm_pages k1 c = set ps \<and>
      (\<forall>va. pte_of k1 c va = kernel_pte data va)"
    using setupkvm_spec [OF F vm_spaceD(1) [OF assms(1)] assms(2)] by blast
  show ?thesis
  proof (cases "c = 0")
    case True
    then have "free_pages kend k1 qs" "set qs = set ps" "card (set ps) \<le> 1025 + (unat usz + 4095) div 4096" using s(3) by auto
    moreover have "copyuvm kend data d usz k = Inr (0, k1)" using s(1) True by (simp add: copyuvm_def)
    ultimately show ?thesis using K(1,2) [OF s(2)] s(2) by blast
  next
    case False
    then have "copy_inv kend data ps k d c (0 div 4096) k1 qs" using s(2,3) by (auto simp: copy_inv_def)
    moreover have "present (pte_of k d va)" if "unat va < unat usz" for va
      using that assms(4) by (simp add: word_less_nat_alt)
    ultimately obtain r k' rs where l: "copyuvm_loop kend d (unat usz) 0 c k1 = Inr (r, k')" "only_in (set ps) k k'"
     "r = c \<and> copy_inv kend data ps k d c (max (0 div 4096) ((unat usz + 4095) div 4096)) k' rs \<or>
      r = 0 \<and> free_pages kend k' rs \<and> set rs = set ps \<and> card (set ps) \<le> 1025 + (unat usz + 4095) div 4096"
      using copyuvm_loop_spec [OF assms(1,3), of data c 0 k1 qs] by auto
    have cp: "copyuvm kend data d usz k = Inr (r, k')" using s(1) False l(1) by (simp add: copyuvm_def)
    show ?thesis
    proof (cases "r = 0")
      case True
      then have "free_pages kend k' rs" "set rs = set ps" "card (set ps) \<le> 1025 + (unat usz + 4095) div 4096" using l(3) False by auto
      then show ?thesis using cp l(2) True K(1,2) [OF l(2)] by blast
    next
      case r: False
      then have i: "r = c" "copy_inv kend data ps k d c ((unat usz + 4095) div 4096) k' rs" using l(3) by auto
      then have v: "vm_space kend k' rs c" "set rs \<union> vm_pages k' c = set ps" by (auto simp: copy_inv_def)
      have "free_pages kend k' rs" "set rs \<subseteq> set ps" using v vm_tablesD(1) [OF vm_spaceD(2) [OF v(1)]] by auto
      then have "vm_space kend k' rs d" "\<forall>va. pte_of k' d va = pte_of k d va" using K(1,2) [OF l(2)] by blast+
      moreover have "\<forall>va. if va < KERNBASE \<and> vpn va < (unat usz + 4095) div 4096 then copied k d k' c va
            else pte_of k' c va = kernel_pte data va" using i(2) by (simp add: copy_inv_def)
      ultimately show ?thesis using cp l(2) v False i(1) by blast
    qed
  qed
qed

theorem copyuvm_copies_witness:
  "\<exists>r k' qs. copyuvm 0x80200000 0x80108000 0x80200000 4096 sample_vm = Inr (r, k') \<and> vm_space 0x80200000 k' qs 0x80200000"
proof -
  have d: "data_ok 0x80108000" by (simp add: data_ok_def KERNLINK_def KERNBASE_def EXTMEM_def V2P_def PHYSTOP_def)
  have "unat (4096 :: u32) \<le> 2 ^ 31" by simp
  moreover have "present (pte_of sample_vm 0x80200000 va)" if "va < 4096" for va
    unfolding sample_user(1) using that by (simp add: vpn_def word_less_nat_alt)
  ultimately show ?thesis using copyuvm_copies [OF sample_space d, of 4096] by blast
qed

end
