(* ===== verification/VmAlloc.thy ===== *)
theory VmAlloc
  imports VmCopy
begin

text \<open>
  allocuvm, which grows the user part of an address space, and what it leaves when it fails.
\<close>

subsection \<open>Growing an address space\<close>

text \<open>The page of the address is a user page that holds zeros.\<close>

definition zero_page :: "kmem \<Rightarrow> u32 \<Rightarrow> u32 \<Rightarrow> bool" where
  "zero_page k d va \<longleftrightarrow> pte_of k d va = V2P (upage k d va) OR (PTE_W OR PTE_U) OR PTE_P \<and>
     (\<forall>i < 4096. kmem_mem k (upage k d va + of_nat i) = 0)"

definition grow_inv :: "u32 \<Rightarrow> u32 list \<Rightarrow> kmem \<Rightarrow> u32 \<Rightarrow> nat \<Rightarrow> nat \<Rightarrow> kmem \<Rightarrow> u32 list \<Rightarrow> bool" where
  "grow_inv kend ps0 k0 d lo n k ps \<longleftrightarrow> vm_space kend k ps d \<and> set ps \<union> vm_pages k d = set ps0 \<union> vm_pages k0 d \<and>
     only_in (set ps0 \<union> insert d (tabs k0 d)) k0 k \<and>
     (\<forall>va. if lo \<le> vpn va \<and> vpn va < n then zero_page k d va else pte_of k d va = pte_of k0 d va)"

text \<open>Old user pages are still user pages, so that the tables are made of old tables and pages that were free.\<close>

lemma grown_tabs:
  assumes "vm_space kend k ps d" "set ps \<union> vm_pages k d \<subseteq> set ps0 \<union> vm_pages k0 d"
    "\<And>va. va < KERNBASE \<Longrightarrow> present (pte_of k0 d va) \<Longrightarrow> pte_of k d va = pte_of k0 d va"
  shows "insert d (tabs k d) \<subseteq> set ps0 \<union> insert d (tabs k0 d)"
proof -
  have "upages k0 d \<inter> insert d (tabs k d) = {}"
  proof -
    have "upage k0 d va \<notin> insert d (tabs k d)" if "va < KERNBASE" "present (pte_of k0 d va)" for va
      using vm_spaceD(5) [OF assms(1) that(1)] assms(3) [OF that] that(2) by (simp add: upage_def)
    then show ?thesis unfolding upages_def by blast
  qed
  then show ?thesis using assms(2) unfolding vm_pages_def by blast
qed

text \<open>
  The entries of the directory that the pages from lo to n need and that have no table yet, and the
  bound that growing keeps: it adds no table beyond those.
\<close>

definition new_tabs :: "kmem \<Rightarrow> u32 \<Rightarrow> nat \<Rightarrow> nat \<Rightarrow> nat set" where
  "new_tabs k d lo n = {i \<in> (\<lambda>v. v div 1024) ` {lo..<n}. \<not> present (entry k d (of_nat i))}"

definition tab_inv :: "kmem \<Rightarrow> u32 \<Rightarrow> nat \<Rightarrow> nat \<Rightarrow> kmem \<Rightarrow> bool" where
  "tab_inv k0 d lo n k \<longleftrightarrow> (\<forall>i < 1024. present (entry k0 d i) \<longrightarrow> present (entry k d i)) \<and>
     card (tabs k d - tabs k0 d) \<le> card (new_tabs k0 d lo n)"

lemma tab_inv_refl: "tab_inv k d lo lo k"
  by (simp add: tab_inv_def)

lemma finite_new_tabs [simp]: "finite (new_tabs k d lo n)"
  by (simp add: new_tabs_def)

lemma new_tabs_mono: "n \<le> m \<Longrightarrow> card (new_tabs k d lo n) \<le> card (new_tabs k d lo m)"
  by (rule card_mono) (auto simp: new_tabs_def)

lemma card_new_tabs: "n \<le> 2 ^ 20 \<Longrightarrow> card (new_tabs k d lo n) \<le> 1024"
proof -
  assume "n \<le> 2 ^ 20"
  then have "v div 1024 < 1024" if "v < n" for v using that by (simp add: less_mult_imp_div_less)
  then have "new_tabs k d lo n \<subseteq> {..<1024}" by (auto simp: new_tabs_def)
  from card_mono [OF _ this] show ?thesis by simp
qed

lemma new_tabs_fresh:
  assumes "lo \<le> n" "\<not> present (entry k d (of_nat (n div 1024)))" "lo < n \<Longrightarrow> (n - 1) div 1024 \<noteq> n div 1024"
  shows "card (new_tabs k d lo (Suc n)) = Suc (card (new_tabs k d lo n))"
proof -
  have "{lo..<Suc n} = insert n {lo..<n}" using assms(1) by auto
  then have "new_tabs k d lo (Suc n) = insert (n div 1024) (new_tabs k d lo n)" using assms(2) by (auto simp: new_tabs_def)
  moreover have "v div 1024 \<noteq> n div 1024" if "lo \<le> v" "v < n" for v
  proof -
    have "v div 1024 \<le> (n - 1) div 1024" "(n - 1) div 1024 \<le> n div 1024" using that by (auto intro: div_le_mono)
    with assms(3) that show ?thesis by linarith
  qed
  then have "n div 1024 \<notin> (\<lambda>v. v div 1024) ` {lo..<n}" by fastforce
  then have "n div 1024 \<notin> new_tabs k d lo n" by (simp add: new_tabs_def)
  ultimately show ?thesis by simp
qed

lemma PDX_vpn: "PDX va = of_nat (vpn va div 1024)"
proof -
  have "unat (PDX va) = vpn va div 1024" by (simp add: unat_PDX vpn_def div_mult2_eq [symmetric])
  moreover have "of_nat (unat (PDX va)) = PDX va" by simp
  ultimately show ?thesis by metis
qed

lemma present_entry: "present (pte_of k d va) \<Longrightarrow> present (entry k d (PDX va))"
  by (auto simp: pte_of_def split: if_splits)

text \<open>Mapping one page adds at most one table, and none where there is one.\<close>

lemma map_page_tabs:
  assumes vm: "vm_tables kend k ps d" and va: "va < KERNBASE" "va mod 4096 = 0" and ab: "\<not> present (pte_of k d va)"
    and m: "mappages d va 4096 pa perm k = Inr (r, k')"
  shows "vm_grow d k k'" "card (tabs k' d - X) \<le> Suc (card (tabs k d - X))"
    "present (entry k d (PDX va)) \<Longrightarrow> r = 0 \<and> tabs k' d \<subseteq> tabs k d" "r \<noteq> 0 \<Longrightarrow> k' = k"
proof -
  have fin: "finite (tabs k d)" by simp
  have l: "mappages_loop 0 d va pa perm k = Inr (r, k')"
  proof -
    have s: "(0 :: u32) < 4096" by simp
    note G = PGROUNDDOWN_range [OF s one_page_range(1) [OF va(1)]]
    have "unat (PGROUNDDOWN (va + 4096 - 1) - PGROUNDDOWN va) div 4096 = 0"
      using G(1) one_page_range(2) [OF va] by (simp add: vpn_def)
    then show ?thesis using m va(2) by (simp add: mappages_def Let_def PGROUNDDOWN_id)
  qed
  have "vm_grow d k k' \<and> card (tabs k' d - X) \<le> Suc (card (tabs k d - X)) \<and>
    (present (entry k d (PDX va)) \<longrightarrow> r = 0 \<and> tabs k' d \<subseteq> tabs k d) \<and> (r \<noteq> 0 \<longrightarrow> k' = k)"
    using vm va(2) ab
  proof (cases rule: map_one [where n = 0 and pa = pa and perm = perm])
    case none
    then show ?thesis using l by (auto intro: vm_grow_refl)
  next
    case (one k2 qs)
    then have e: "k2 = k'" "r = 0" using l by auto
    obtain t where "tabs k' d \<subseteq> insert t (tabs k d)" using one(7) e by blast
    then have "tabs k' d - X \<subseteq> insert t (tabs k d - X)" by blast
    then have "card (tabs k' d - X) \<le> card (insert t (tabs k d - X))" using fin by (intro card_mono) simp_all
    also have "\<dots> \<le> Suc (card (tabs k d - X))" using fin by (simp add: card_insert_if)
    finally show ?thesis using one(4,8) e by auto
  qed
  then show "vm_grow d k k'" "card (tabs k' d - X) \<le> Suc (card (tabs k d - X))"
    "present (entry k d (PDX va)) \<Longrightarrow> r = 0 \<and> tabs k' d \<subseteq> tabs k d" "r \<noteq> 0 \<Longrightarrow> k' = k" by blast+
qed

lemma grow_card:
  assumes "vm_space kend k0 ps0 d" "set ps0 \<subseteq> X \<union> vm_pages k d"
    "\<And>va. \<not> (lo \<le> vpn va \<and> vpn va < n) \<Longrightarrow> pte_of k d va = pte_of k0 d va"
  shows "card (set ps0) \<le> card X + card (tabs k d - tabs k0 d) + (n - lo)"
proof -
  let ?U = "{upage k d va | va. lo \<le> vpn va \<and> vpn va < n}"
  have dj: "d \<notin> set ps0" "set ps0 \<inter> upages k0 d = {}" "set ps0 \<inter> tabs k0 d = {}"
    using vm_tablesD(4) [OF vm_spaceD(2) [OF assms(1)]] tabs_apart(2) [OF vm_spaceD(2) [OF assms(1)]] vm_spaceD(4) [OF assms(1)] unfolding upages_def by blast+
  have "upages k d \<subseteq> ?U \<union> upages k0 d"
  proof
    fix q
    assume "q \<in> upages k d"
    then obtain va where va: "q = upage k d va" "va < KERNBASE" "present (pte_of k d va)" by (auto simp: upages_def)
    show "q \<in> ?U \<union> upages k0 d"
    proof (cases "lo \<le> vpn va \<and> vpn va < n")
      case True
      then show ?thesis using va(1) by blast
    next
      case False
      then show ?thesis using va assms(3) [OF False] by (auto simp: upages_def upage_def)
    qed
  qed
  then have "set ps0 \<subseteq> X \<union> ((tabs k d - tabs k0 d) \<union> ?U)" using assms(2) dj unfolding vm_pages_def by blast
  then have "card (set ps0) \<le> card (X \<union> ((tabs k d - tabs k0 d) \<union> ?U))" by (intro card_mono) simp_all
  also have "\<dots> \<le> card X + card ((tabs k d - tabs k0 d) \<union> ?U)" by (rule card_Un_le)
  also have "card ((tabs k d - tabs k0 d) \<union> ?U) \<le> card (tabs k d - tabs k0 d) + card ?U" by (rule card_Un_le)
  finally show ?thesis using card_upage_range [of k d lo n] by linarith
qed

lemma zero_present: "zero_page k d va \<Longrightarrow> present (pte_of k d va)"
  unfolding zero_page_def by (metis present_or one_neq_zero bit.conj_one_right and.idem)

lemma grow_page:
  assumes inv: "grow_inv kend ps0 k0 d lo n k (p # qs)" and va: "va < KERNBASE" "va mod 4096 = 0" "vpn va = n" "lo \<le> n"
    and ab: "\<And>vb. lo \<le> vpn vb \<Longrightarrow> vpn vb < 2 ^ 19 \<Longrightarrow> \<not> present (pte_of k0 d vb)"
    and vm0: "vm_space kend k0 ps0 d" and al: "kalloc k = (p', k1)"
  shows "p' = p" "p \<noteq> 0"
    "\<exists>r k' rs. mappages d va 4096 (V2P p) (PTE_W OR PTE_U) (kzero p k1) = Inr (r, k') \<and>
       (r = 0 \<and> grow_inv kend ps0 k0 d lo (Suc n) k' rs \<or>
        r = -1 \<and> page_ok kend p \<and> vm_space kend k' rs d \<and> p \<notin> set rs \<and> p \<notin> vm_pages k' d \<and>
          insert p (set rs \<union> vm_pages k' d) = set ps0 \<union> vm_pages k0 d \<and> only_in (set ps0 \<union> insert d (tabs k0 d)) k0 k' \<and>
          (\<forall>vb. pte_of k' d vb = pte_of k d vb) \<and> card (set ps0) \<le> Suc (card (tabs k' d - tabs k0 d) + (n - lo)))"
proof -
  let ?P = "set ps0 \<union> insert d (tabs k0 d)"
  have I: "vm_space kend k (p # qs) d" "set (p # qs) \<union> vm_pages k d = set ps0 \<union> vm_pages k0 d" "only_in ?P k0 k"
    "\<And>vb. lo \<le> vpn vb \<Longrightarrow> vpn vb < n \<Longrightarrow> zero_page k d vb"
    "\<And>vb. \<not> (lo \<le> vpn vb \<and> vpn vb < n) \<Longrightarrow> pte_of k d vb = pte_of k0 d vb"
    using inv unfolding grow_inv_def by metis+
  note F = vm_tablesD(1) [OF vm_spaceD(2) [OF I(1)]]
  note A = vm_tables_apart_page [OF I(1)]
  have n19: "n < 2 ^ 19" using va(1,3) below_kernel by simp
  have k1: "kmem_mem k1 = kmem_mem k" using al kalloc_free_pages(2) [OF F refl] by auto
  let ?z = "k1\<lparr>kmem_mem := kmem_mem (kzero p k1)\<rparr>"
  have kz: "?z = kzero p k1" by (simp add: kzero_def)
  have out: "kmem_mem (kzero p k1) x = kmem_mem k x" if "\<not> in_page p x" for x using that k1 by (simp add: kzero_mem)
  have Z: "p' = p" "p \<noteq> 0" "free_pages kend ?z qs" "only_in {p} k ?z"
    using out by (intro fresh_page [OF F al]; assumption)+
  note N = Z [unfolded kz]
  show "p' = p" "p \<noteq> 0" by (rule N)+
  have old: "pte_of k d vb = pte_of k0 d vb" if "vb < KERNBASE" "present (pte_of k0 d vb)" for vb
    using I(5) [of vb] ab [of vb] that below_kernel [of vb] by auto
  have abs: "\<not> present (pte_of k d va)" using I(5) [of va] ab [of va] va n19 by simp
  have wu: "(PTE_W OR PTE_U :: u32) < 4096" by simp
  obtain r k' rs where *: "mappages d va 4096 (V2P p) (PTE_W OR PTE_U) (kzero p k1) = Inr (r, k')"
     "only_in (insert d (tabs k' d)) (kzero p k1) k'" "vm_space kend k' rs d" "p \<notin> insert d (tabs k' d)" "p \<notin> set rs"
     "r = 0 \<and> set rs \<union> vm_pages k' d = insert p (set qs \<union> vm_pages k d) \<and>
        (\<forall>vb. pte_of k' d vb = (if vpn vb = vpn va then V2P p OR (PTE_W OR PTE_U) OR PTE_P else pte_of k d vb)) \<or>
      r = -1 \<and> rs = [] \<and> p \<notin> vm_pages k' d \<and> set rs \<union> vm_pages k' d = set qs \<union> vm_pages k d \<and> (\<forall>vb. pte_of k' d vb = pte_of k d vb)"
    using map_user_page [OF I(1) N(3,4) va(1,2) abs wu] by blast
  have tal: "q mod 4096 = 0" if "q \<in> insert d (tabs k' d)" for q
    using vm_pages_aligned [OF *(3)] that by (auto simp: vm_pages_def)
  have same: "pte_of k' d vb = pte_of k d vb" if "vpn vb \<noteq> n" for vb using *(6) va(3) that by auto
  have sub: "insert d (tabs k' d) \<subseteq> ?P"
  proof (rule grown_tabs [OF *(3)])
    show "set rs \<union> vm_pages k' d \<subseteq> set ps0 \<union> vm_pages k0 d" using *(6) I(2) by auto
    show "pte_of k' d vb = pte_of k0 d vb" if "vb < KERNBASE" "present (pte_of k0 d vb)" for vb
      using same [of vb] old [OF that] ab [of vb] that va(4) n19 by auto
  qed
  have pP: "p \<in> ?P"
  proof -
    have "p \<notin> upages k0 d"
    proof -
      have "upage k0 d vb \<noteq> p" if "vb < KERNBASE" "present (pte_of k0 d vb)" for vb
        using vm_spaceD(4) [OF I(1) that(1)] old [OF that] that(2) by (auto simp: upage_def)
      then show ?thesis unfolding upages_def by blast
    qed
    then show ?thesis using I(2) by (auto simp: vm_pages_def)
  qed
  have "only_in ?P k0 (kzero p k1)" by (rule only_in_trans [OF I(3) N(4)]) (use pP in blast)
  then have oi: "only_in ?P k0 k'" by (rule only_in_trans [OF _ *(2) sub])
  show "\<exists>r k' rs. mappages d va 4096 (V2P p) (PTE_W OR PTE_U) (kzero p k1) = Inr (r, k') \<and>
       (r = 0 \<and> grow_inv kend ps0 k0 d lo (Suc n) k' rs \<or>
        r = -1 \<and> page_ok kend p \<and> vm_space kend k' rs d \<and> p \<notin> set rs \<and> p \<notin> vm_pages k' d \<and>
          insert p (set rs \<union> vm_pages k' d) = set ps0 \<union> vm_pages k0 d \<and> only_in (set ps0 \<union> insert d (tabs k0 d)) k0 k' \<and>
          (\<forall>vb. pte_of k' d vb = pte_of k d vb) \<and> card (set ps0) \<le> Suc (card (tabs k' d - tabs k0 d) + (n - lo)))"
  proof (cases "r = 0")
    case False
    then have f: "r = -1" "p \<notin> vm_pages k' d" "set rs \<union> vm_pages k' d = set qs \<union> vm_pages k d" "\<forall>vb. pte_of k' d vb = pte_of k d vb" "rs = []"
      using *(6) by auto
    then have pg: "insert p (set rs \<union> vm_pages k' d) = set ps0 \<union> vm_pages k0 d" using I(2) by auto
    have "card (set ps0) \<le> card {p} + card (tabs k' d - tabs k0 d) + (n - lo)"
      by (rule grow_card [OF vm0, where k = k']) (use pg f(4,5) I(5) in auto)
    then have "card (set ps0) \<le> Suc (card (tabs k' d - tabs k0 d) + (n - lo))" by simp
    then show ?thesis using *(1,3,5) f(1,2,4) A(1) oi pg by blast
  next
    case True
    then have pt: "pte_of k' d vb = (if vpn vb = n then V2P p OR (PTE_W OR PTE_U) OR PTE_P else pte_of k d vb)" for vb
      using *(6) va(3) by auto
    have keep: "kmem_mem k' x = kmem_mem (kzero p k1) x" if "in_page q x" "q mod 4096 = 0" "q \<notin> insert d (tabs k' d)" for q x
      by (rule only_in_page [OF *(2) tal that(2,3,1)])
    have "zero_page k' d vb" if "lo \<le> vpn vb" "vpn vb < Suc n" for vb
    proof (cases "vpn vb = n")
      case True
      then have u: "upage k' d vb = p" unfolding upage_def pt using user_pte(2) [OF A(2) wu] by simp
      have "kmem_mem k' (p + of_nat i) = 0" if "i < 4096" for i
        using keep [OF page_byte [OF that] A(2) *(4)] page_byte [OF that, of p] by (simp add: kzero_mem)
      then show ?thesis unfolding zero_page_def u pt using True by simp
    next
      case False
      then have z: "zero_page k d vb" using I(4) that by simp
      have vb: "vb < KERNBASE" unfolding below_kernel using that n19 by simp
      have e: "pte_of k' d vb = pte_of k d vb" "upage k' d vb = upage k d vb" using False pt by (simp_all add: upage_def)
      have u: "upage k d vb \<in> vm_pages k d" using zero_present [OF z] vb by (auto simp: vm_pages_def upages_def)
      have al: "upage k d vb mod 4096 = 0" "upage k d vb \<notin> {p}" using vm_pages_aligned [OF I(1) u] A(4) u by auto
      have nt: "upage k d vb \<notin> insert d (tabs k' d)"
        using vm_spaceD(5) [OF *(3) vb] zero_present [OF z] unfolding e by blast
      have "kmem_mem k' (upage k d vb + of_nat i) = 0" if "i < 4096" for i
        using keep [OF page_byte [OF that] al(1) nt] z that only_in_page [OF N(4) _ al page_byte [OF that]] A(2)
        by (simp add: zero_page_def)
      then show ?thesis using z unfolding zero_page_def e by blast
    qed
    moreover have "pte_of k' d vb = pte_of k0 d vb" if "\<not> (lo \<le> vpn vb \<and> vpn vb < Suc n)" for vb
      using I(5) [of vb] pt [of vb] that va(4) by auto
    moreover have "set rs \<union> vm_pages k' d = set ps0 \<union> vm_pages k0 d" using *(6) True I(2) by auto
    ultimately have "grow_inv kend ps0 k0 d lo (Suc n) k' rs" unfolding grow_inv_def using *(3) oi by simp
    then show ?thesis using *(1) True by blast
  qed
qed

lemma grow_tabs:
  assumes inv: "grow_inv kend ps0 k0 d lo n k (p # qs)" and t: "tab_inv k0 d lo n k"
    and va: "va < KERNBASE" "va mod 4096 = 0" "vpn va = n" "lo \<le> n"
    and ab: "\<And>vb. lo \<le> vpn vb \<Longrightarrow> vpn vb < 2 ^ 19 \<Longrightarrow> \<not> present (pte_of k0 d vb)"
    and al: "kalloc k = (p, k1)"
    and m: "mappages d va 4096 (V2P p) (PTE_W OR PTE_U) (kzero p k1) = Inr (r, k')"
  shows "r = 0 \<Longrightarrow> tab_inv k0 d lo (Suc n) k'"
    "r \<noteq> 0 \<Longrightarrow> card (tabs k' d - tabs k0 d) < card (new_tabs k0 d lo (Suc n))"
proof -
  let ?i = "n div 1024"
  have I: "vm_space kend k (p # qs) d" "\<And>vb. lo \<le> vpn vb \<Longrightarrow> vpn vb < n \<Longrightarrow> zero_page k d vb"
    "\<And>vb. \<not> (lo \<le> vpn vb \<and> vpn vb < n) \<Longrightarrow> pte_of k d vb = pte_of k0 d vb"
    using inv unfolding grow_inv_def by metis+
  have n19: "n < 2 ^ 19" using va(1,3) below_kernel by simp
  note F = vm_tablesD(1) [OF vm_spaceD(2) [OF I(1)]]
  have k1: "kmem_mem k1 = kmem_mem k" using al kalloc_free_pages(2) [OF F refl] by auto
  let ?z = "k1\<lparr>kmem_mem := kmem_mem (kzero p k1)\<rparr>"
  have kz: "?z = kzero p k1" by (simp add: kzero_def)
  have out: "kmem_mem (kzero p k1) x = kmem_mem k x" if "\<not> in_page p x" for x using that k1 by (simp add: kzero_mem)
  have Z: "free_pages kend ?z qs" "only_in {p} k ?z"
    using out by (intro fresh_page [OF F al]; assumption)+
  note T = take_page [OF I(1) Z, unfolded kz]
  have abs: "\<not> present (pte_of (kzero p k1) d va)"
    unfolding T(2) using I(3) [of va] ab [of va] va n19 by simp
  note M = map_page_tabs [OF vm_spaceD(2) [OF T(1)] va(1,2) abs m]
  have PD: "PDX va = of_nat ?i" using PDX_vpn va(3) by simp
  have ez: "entry (kzero p k1) d (PDX va) = entry k d (PDX va)" by (rule T(6) [OF PDX_bound])
  have mono: "\<forall>i < 1024. present (entry k0 d i) \<longrightarrow> present (entry k' d i)"
    using t M(1) T(6) unfolding tab_inv_def vm_grow_def by (metis (no_types, lifting))
  have c: "card (tabs k d - tabs k0 d) \<le> card (new_tabs k0 d lo n)" using t by (simp add: tab_inv_def)
  have fresh: "card (new_tabs k0 d lo (Suc n)) = Suc (card (new_tabs k0 d lo n))" if ne: "\<not> present (entry k d (PDX va))"
  proof (rule new_tabs_fresh [OF va(4)])
    show "\<not> present (entry k0 d (of_nat ?i))" using t ne PDX_bound [of va] unfolding tab_inv_def PD by blast
    show "(n - 1) div 1024 \<noteq> ?i" if "lo < n"
    proof
      assume e: "(n - 1) div 1024 = ?i"
      let ?vb = "of_nat (4096 * (n - 1)) :: u32"
      have "unat ?vb = 4096 * (n - 1)" using n19 by (intro unat_of_nat_id) simp
      then have vb: "vpn ?vb = n - 1" by (simp add: vpn_def)
      then have "zero_page k d ?vb" using that by (intro I(2)) simp_all
      then have "present (entry k d (PDX ?vb))" by (intro present_entry zero_present)
      then show False using ne e vb PDX_vpn [of ?vb] unfolding PD by simp
    qed
  qed
  show "tab_inv k0 d lo (Suc n) k'" if "r = 0"
  proof (cases "present (entry k d (PDX va))")
    case True
    then have "tabs k' d \<subseteq> tabs k d" using M(3) T(4) ez by simp
    then have "card (tabs k' d - tabs k0 d) \<le> card (tabs k d - tabs k0 d)" by (intro card_mono) auto
    then show ?thesis using mono c new_tabs_mono [of n "Suc n" k0 d lo] by (simp add: tab_inv_def)
  next
    case False
    then show ?thesis using mono c M(2) [of "tabs k0 d"] T(4) fresh [OF False] by (simp add: tab_inv_def)
  qed
  show "card (tabs k' d - tabs k0 d) < card (new_tabs k0 d lo (Suc n))" if r: "r \<noteq> 0"
  proof -
    have "\<not> present (entry k d (PDX va))" using M(3) r ez by auto
    from fresh [OF this] show ?thesis using M(4) [OF r] T(4) c by simp
  qed
qed

text \<open>What is left after a failure: the pages taken are free again or hold tables.\<close>

definition grow_failed :: "u32 \<Rightarrow> u32 list \<Rightarrow> kmem \<Rightarrow> u32 \<Rightarrow> kmem \<Rightarrow> u32 list \<Rightarrow> bool" where
  "grow_failed kend ps0 k0 d k ps \<longleftrightarrow> vm_space kend k ps d \<and> set ps \<union> vm_pages k d = set ps0 \<union> vm_pages k0 d \<and>
     only_in (set ps0 \<union> insert d (tabs k0 d)) k0 k \<and>
     (\<forall>va. present (pte_of k d va) \<longleftrightarrow> present (pte_of k0 d va)) \<and>
     (\<forall>va. present (pte_of k0 d va) \<longrightarrow> pte_of k d va = pte_of k0 d va)"

lemma grow_undo:
  assumes vm: "vm_space kend k rs d" and oi: "only_in (set ps0 \<union> insert d (tabs k0 d)) k0 k"
    and pg: "set rs \<union> vm_pages k d \<subseteq> set ps0 \<union> vm_pages k0 d"
    and pt: "\<And>va. \<not> (lo \<le> vpn va \<and> vpn va < hi) \<Longrightarrow> pte_of k d va = pte_of k0 d va"
    and ab: "\<And>vb. lo \<le> vpn vb \<Longrightarrow> vpn vb < 2 ^ 19 \<Longrightarrow> \<not> present (pte_of k0 d vb)"
    and sz: "oldsz < newsz" "unat newsz \<le> 2 ^ 31" "lo = unat (PGROUNDUP oldsz) div 4096" "hi = (unat newsz + 4095) div 4096"
  shows "\<exists>k' qs. deallocuvm kend d newsz oldsz k = Inr (oldsz, k') \<and> vm_space kend k' qs d \<and>
     set qs \<union> vm_pages k' d = set rs \<union> vm_pages k d \<and> only_in (set ps0 \<union> insert d (tabs k0 d)) k0 k' \<and>
     (\<forall>va. present (pte_of k' d va) \<longleftrightarrow> present (pte_of k0 d va)) \<and>
     (\<forall>va. present (pte_of k0 d va) \<longrightarrow> pte_of k' d va = pte_of k0 d va)"
proof -
  let ?P = "set ps0 \<union> insert d (tabs k0 d)"
  have "unat oldsz + 4095 < 2 ^ 32" using sz(1,2) by (simp add: word_less_nat_alt)
  from PGROUNDUP_spec(1) [OF this] have al: "unat (PGROUNDUP oldsz) mod 4096 = 0" unfolding unat_aligned .
  obtain k' qs where *: "deallocuvm_loop kend d (unat newsz) (unat (PGROUNDUP oldsz)) k = Inr k'" "vm_space kend k' qs d" "tabs k' d = tabs k d"
     "cleared d lo hi k k'" "set qs \<union> upages k' d = set rs \<union> upages k d" "set rs \<subseteq> set qs"
     "only_in (insert d (tabs k d) \<union> (set qs - set rs)) k k'"
    using deallocuvm_loop_spec [OF vm al sz(2)] unfolding sz(3,4) by blast
  have hi: "hi \<le> 2 ^ 19" unfolding sz(4) using sz(2) by auto
  have np: "\<not> present (pte_of k0 d va)" if "lo \<le> vpn va \<and> vpn va < hi" for va using ab [of va] that hi by auto
  have pr: "present (pte_of k' d va) \<longleftrightarrow> present (pte_of k0 d va)" for va
    using *(4) pt [of va] np [of va] unfolding cleared_def by (cases "lo \<le> vpn va \<and> vpn va < hi") auto
  have e: "pte_of k' d va = pte_of k0 d va" "pte_of k d va = pte_of k0 d va" if "present (pte_of k0 d va)" for va
    using *(4) pt [of va] np [of va] that unfolding cleared_def by auto
  have pg': "set qs \<union> vm_pages k' d = set rs \<union> vm_pages k d" using *(3,5) unfolding vm_pages_def by blast
  have "upages k0 d \<inter> set qs = {}"
  proof -
    have "upage k0 d va \<notin> set qs" if "va < KERNBASE" "present (pte_of k0 d va)" for va
      using vm_spaceD(4) [OF *(2) that(1)] e(1) [OF that(2)] that(2) by (simp add: upage_def)
    then show ?thesis unfolding upages_def by blast
  qed
  then have "set qs \<subseteq> ?P" using pg pg' unfolding vm_pages_def by blast
  moreover have "insert d (tabs k d) \<subseteq> ?P" by (rule grown_tabs [OF vm pg]) (use e(2) in blast)
  ultimately have "only_in ?P k0 k'" by (intro only_in_trans [OF oi *(7)]) blast
  moreover have "\<not> newsz \<le> oldsz" using sz(1) by simp
  with *(1) have "deallocuvm kend d newsz oldsz k = Inr (oldsz, k')" by (simp add: deallocuvm_def)
  ultimately show ?thesis using *(2) pg' pr e(1) by blast
qed

lemma allocuvm_loop_spec:
  assumes vm0: "vm_space kend k0 ps0 d" and "grow_inv kend ps0 k0 d lo (a div 4096) k ps" "a mod 4096 = 0" "lo \<le> a div 4096" "lo = unat (PGROUNDUP oldsz) div 4096"
    and ab: "\<And>vb. lo \<le> vpn vb \<Longrightarrow> vpn vb < 2 ^ 19 \<Longrightarrow> \<not> present (pte_of k0 d vb)"
    and sz: "unat newsz \<le> 2 ^ 31" "oldsz \<le> newsz" "oldsz = newsz \<longrightarrow> unat newsz \<le> a"
    and tab: "tab_inv k0 d lo (a div 4096) k"
  shows "\<exists>r k' qs. allocuvm_loop kend d oldsz newsz a k = Inr (r, k') \<and>
     (r = newsz \<and> grow_inv kend ps0 k0 d lo (max (a div 4096) ((unat newsz + 4095) div 4096)) k' qs \<or>
      r = 0 \<and> grow_failed kend ps0 k0 d k' qs \<and>
        card (set ps0) < (unat newsz + 4095) div 4096 - lo + card (new_tabs k0 d lo ((unat newsz + 4095) div 4096)))"
  using assms(2-4) sz(3) tab
proof (induction "unat newsz - a" arbitrary: a k ps rule: less_induct)
  case less
  let ?hi = "(unat newsz + 4095) div 4096" and ?P = "set ps0 \<union> insert d (tabs k0 d)"
  obtain n where n: "a = 4096 * n" using less.prems(2) by (auto simp: mod_eq_0_iff_dvd dvd_def)
  show ?case
  proof (cases "a < unat newsz")
    case False
    then have "?hi \<le> a div 4096" unfolding n by auto
    moreover have "allocuvm_loop kend d oldsz newsz a k = Inr (newsz, k)" using False by (subst allocuvm_loop.simps) simp
    ultimately show ?thesis using less.prems(1) by (metis max.absorb1)
  next
    case True
    define va :: u32 where "va = of_nat a"
    have u: "unat va = a" unfolding va_def using True sz(1) by (intro unat_of_nat_id) simp
    have va: "va < KERNBASE" "va mod 4096 = 0" "vpn va = a div 4096"
      using True sz(1) u less.prems(2) unfolding unat_aligned by (simp_all add: word_less_nat_alt KERNBASE_def vpn_def)
    have lt: "oldsz < newsz" using sz(2) less.prems(4) True by auto
    have nh: "a div 4096 < ?hi" using True unfolding n by auto
    have I: "vm_space kend k ps d" "set ps \<union> vm_pages k d = set ps0 \<union> vm_pages k0 d" "only_in ?P k0 k"
      "\<And>vb. \<not> (lo \<le> vpn vb \<and> vpn vb < a div 4096) \<Longrightarrow> pte_of k d vb = pte_of k0 d vb"
      using less.prems(1) unfolding grow_inv_def by metis+
    then have pt: "pte_of k d vb = pte_of k0 d vb" if "\<not> (lo \<le> vpn vb \<and> vpn vb < ?hi)" for vb using that nh by auto
    obtain p' k1 where al: "kalloc k = (p', k1)" by force
    have body: "allocuvm_loop kend d oldsz newsz a k =
       (if p' = 0 then bindR (deallocuvm kend d newsz oldsz k1) (\<lambda>(_, k). Inr (0, k))
        else
          bindR (mappages d va 4096 (V2P p') (PTE_W OR PTE_U) (kzero p' k1)) (\<lambda>(r, k).
            if r < 0 then
              bindR (deallocuvm kend d newsz oldsz k) (\<lambda>(_, k).
              bindR (kfree kend p' k) (\<lambda>k. Inr (0, k)))
            else allocuvm_loop kend d oldsz newsz (a + 4096) k))"
      using True al unfolding va_def by (subst allocuvm_loop.simps) simp
    show ?thesis
    proof (cases ps)
      case Nil
      then have z: "p' = 0" "k1 = k" using kalloc_free_pages(1) [OF vm_tablesD(1) [OF vm_spaceD(2) [OF I(1)]]] al by auto
      have sub: "set ps \<union> vm_pages k d \<subseteq> set ps0 \<union> vm_pages k0 d" using I(2) by simp
      obtain k' qs where *: "deallocuvm kend d newsz oldsz k = Inr (oldsz, k')" "vm_space kend k' qs d"
        "set qs \<union> vm_pages k' d = set ps \<union> vm_pages k d" "only_in ?P k0 k'"
        "\<forall>va. present (pte_of k' d va) \<longleftrightarrow> present (pte_of k0 d va)" "\<forall>va. present (pte_of k0 d va) \<longrightarrow> pte_of k' d va = pte_of k0 d va"
        using grow_undo [OF I(1,3) sub pt ab lt sz(1) assms(5) refl] by blast
      then have "grow_failed kend ps0 k0 d k' qs" unfolding grow_failed_def using I(2) by simp
      moreover have "card (set ps0) \<le> card ({} :: u32 set) + card (tabs k d - tabs k0 d) + (a div 4096 - lo)"
        by (rule grow_card [OF vm0, where k = k]) (use I(2,4) Nil in auto)
      then have "card (set ps0) < ?hi - lo + card (new_tabs k0 d lo ?hi)"
        using nh less.prems(3) less.prems(5) [unfolded tab_inv_def, THEN conjunct2] new_tabs_mono [of "a div 4096" ?hi k0 d lo]
        unfolding card.empty by linarith
      ultimately show ?thesis using body z *(1) by fastforce
    next
      case (Cons p qs)
      note G = grow_page [OF less.prems(1) [unfolded Cons] va less.prems(3) ab vm0 al]
      have G1: "p' = p" "p \<noteq> 0" using G(1,2) by blast+
      obtain r k' rs where *: "mappages d va 4096 (V2P p) (PTE_W OR PTE_U) (kzero p k1) = Inr (r, k')"
        "r = 0 \<and> grow_inv kend ps0 k0 d lo (Suc (a div 4096)) k' rs \<or>
         r = -1 \<and> page_ok kend p \<and> vm_space kend k' rs d \<and> p \<notin> set rs \<and> p \<notin> vm_pages k' d \<and>
          insert p (set rs \<union> vm_pages k' d) = set ps0 \<union> vm_pages k0 d \<and> only_in ?P k0 k' \<and> (\<forall>vb. pte_of k' d vb = pte_of k d vb) \<and>
          card (set ps0) \<le> Suc (card (tabs k' d - tabs k0 d) + (a div 4096 - lo))"
        using G(3) by blast
      have TB: "r = 0 \<Longrightarrow> tab_inv k0 d lo (Suc (a div 4096)) k'"
        "r \<noteq> 0 \<Longrightarrow> card (tabs k' d - tabs k0 d) < card (new_tabs k0 d lo (Suc (a div 4096)))"
        using grow_tabs [OF less.prems(1) [unfolded Cons] less.prems(5) va less.prems(3) _ al [unfolded G1(1)] *(1)] ab by blast+
      show ?thesis
      proof (cases "r = 0")
        case r: True
        have s: "(a + 4096) div 4096 = Suc (a div 4096)" "(a + 4096) mod 4096 = 0" using n by auto
        have b: "allocuvm_loop kend d oldsz newsz a k = allocuvm_loop kend d oldsz newsz (a + 4096) k'"
          using body *(1) r G1 by simp
        have g: "grow_inv kend ps0 k0 d lo ((a + 4096) div 4096) k' rs" using *(2) r s(1) by simp
        have m: "max (a div 4096) ?hi = max ((a + 4096) div 4096) ?hi" unfolding s using nh by simp
        have "unat newsz - (a + 4096) < unat newsz - a" using True by simp
        from less.hyps [OF this g s(2)] show ?thesis unfolding b m using less.prems(3) s(1) lt TB(1) [OF r] by auto
      next
        case False
        then have f: "r = -1" "page_ok kend p" "vm_space kend k' rs d" "p \<notin> set rs" "p \<notin> vm_pages k' d"
          "insert p (set rs \<union> vm_pages k' d) = set ps0 \<union> vm_pages k0 d" "only_in ?P k0 k'" "\<forall>vb. pte_of k' d vb = pte_of k d vb" "card (set ps0) \<le> Suc (card (tabs k' d - tabs k0 d) + (a div 4096 - lo))"
          using *(2) by auto
        have sub: "set rs \<union> vm_pages k' d \<subseteq> set ps0 \<union> vm_pages k0 d" using f(6) by auto
        have pt': "pte_of k' d vb = pte_of k0 d vb" if "\<not> (lo \<le> vpn vb \<and> vpn vb < ?hi)" for vb using pt [OF that] f(8) by simp
        obtain k2 qs2 where 2: "deallocuvm kend d newsz oldsz k' = Inr (oldsz, k2)" "vm_space kend k2 qs2 d"
          "set qs2 \<union> vm_pages k2 d = set rs \<union> vm_pages k' d" "only_in ?P k0 k2"
          "\<forall>va. present (pte_of k2 d va) \<longleftrightarrow> present (pte_of k0 d va)" "\<forall>va. present (pte_of k0 d va) \<longrightarrow> pte_of k2 d va = pte_of k0 d va"
          using grow_undo [OF f(3,7) sub pt' ab lt sz(1) assms(5) refl] by blast
        have pn: "p \<notin> set qs2" "p \<notin> vm_pages k2 d" using 2(3) f(4,5) by auto
        obtain k3 where 3: "kfree kend p k2 = Inr k3" "vm_space kend k3 (p # qs2) d" "vm_pages k3 d = vm_pages k2 d"
          "\<forall>va. pte_of k3 d va = pte_of k2 d va" "only_in {p} k2 k3"
          using free_held_page [OF 2(2) f(2) pn] by blast
        have "p \<in> ?P"
        proof -
          have "upage k0 d vb \<noteq> p" if "vb < KERNBASE" "present (pte_of k0 d vb)" for vb
          proof -
            have "upage k0 d vb = upage k2 d vb" "present (pte_of k2 d vb)" using that(2) 2(5,6) by (simp_all add: upage_def)
            moreover from this(2) that(1) have "upage k2 d vb \<in> vm_pages k2 d" by (auto simp: vm_pages_def upages_def)
            ultimately show ?thesis using pn(2) by metis
          qed
          then have "p \<notin> upages k0 d" unfolding upages_def by blast
          then show ?thesis using f(6) unfolding vm_pages_def by blast
        qed
        then have "only_in ?P k0 k3" by (intro only_in_trans [OF 2(4) 3(5)]) simp
        moreover have "set (p # qs2) \<union> vm_pages k3 d = set ps0 \<union> vm_pages k0 d" using 2(3) 3(3) f(6) by auto
        ultimately have "grow_failed kend ps0 k0 d k3 (p # qs2)" unfolding grow_failed_def using 3(2,4) 2(5,6) by simp
        moreover have "card (set ps0) < ?hi - lo + card (new_tabs k0 d lo ?hi)"
          using f(9) nh less.prems(3) TB(2) [OF False] new_tabs_mono [of "Suc (a div 4096)" ?hi k0 d lo] by linarith
        ultimately show ?thesis using body *(1) G1 f(1) 2(1) 3(1) by fastforce
      qed
    qed
  qed
qed

lemma PGROUNDUP_vpn:
  assumes "unat v + 4095 < 2 ^ 32"
  shows "unat (PGROUNDUP v) div 4096 = (unat v + 4095) div 4096" "PGROUNDUP v \<le> va \<longleftrightarrow> (unat v + 4095) div 4096 \<le> vpn va"
    "va < PGROUNDUP v \<longleftrightarrow> vpn va < (unat v + 4095) div 4096"
proof -
  note r = PGROUNDUP_spec [OF assms]
  obtain c where c: "unat (PGROUNDUP v) = 4096 * c" using aligned_mult [OF r(1)] by blast
  have "(unat v + 4095) div 4096 = c" using r(2,3) unfolding c by (intro div_nat_eqI) auto
  then show v: "unat (PGROUNDUP v) div 4096 = (unat v + 4095) div 4096" unfolding c by simp
  show l: "va < PGROUNDUP v \<longleftrightarrow> vpn va < (unat v + 4095) div 4096"
    using vpn_less [OF r(1), of va] unfolding vpn_def [of "PGROUNDUP v"] v .
  then show "PGROUNDUP v \<le> va \<longleftrightarrow> (unat v + 4095) div 4096 \<le> vpn va" by (simp add: not_less [symmetric])
qed

text \<open>The pages between the two sizes and the page tables they lack.\<close>

definition pages_needed :: "kmem \<Rightarrow> u32 \<Rightarrow> u32 \<Rightarrow> u32 \<Rightarrow> nat" where
  "pages_needed k d oldsz newsz = (let lo = (unat oldsz + 4095) div 4096; hi = (unat newsz + 4095) div 4096 in
     hi - lo + card (new_tabs k d lo hi))"

lemma allocuvm_exact:
  assumes "vm_space kend k ps d" "newsz < KERNBASE" "oldsz \<le> newsz"
    "\<And>va. PGROUNDUP oldsz \<le> va \<Longrightarrow> va < KERNBASE \<Longrightarrow> \<not> present (pte_of k d va)"
  shows "\<exists>r k' qs. allocuvm kend d oldsz newsz k = Inr (r, k') \<and> vm_space kend k' qs d \<and>
     set qs \<union> vm_pages k' d = set ps \<union> vm_pages k d \<and> only_in (set ps \<union> insert d (tabs k d)) k k' \<and>
     (r = newsz \<and> (\<forall>va. if PGROUNDUP oldsz \<le> va \<and> va < PGROUNDUP newsz then zero_page k' d va else pte_of k' d va = pte_of k d va) \<or>
      r = 0 \<and> card (set ps) < pages_needed k d oldsz newsz \<and>
      (\<forall>va. if present (pte_of k d va) then pte_of k' d va = pte_of k d va else \<not> present (pte_of k' d va)))"
proof -
  have n31: "unat newsz < 2 ^ 31" using assms(2) by (simp add: word_less_nat_alt KERNBASE_def)
  have o31: "unat oldsz \<le> unat newsz" using assms(3) by (simp add: word_le_nat_alt)
  have w: "unat oldsz + 4095 < 2 ^ 32" "unat newsz + 4095 < 2 ^ 32" using n31 o31 by simp_all
  note R = PGROUNDUP_vpn [OF w(1)] PGROUNDUP_vpn [OF w(2)]
  let ?lo = "unat (PGROUNDUP oldsz) div 4096"
  have gi: "grow_inv kend ps k d ?lo ?lo k ps" unfolding grow_inv_def using assms(1) only_in_refl by auto
  have al: "unat (PGROUNDUP oldsz) mod 4096 = 0" using PGROUNDUP_spec(1) [OF w(1)] unfolding unat_aligned .
  have ab: "\<not> present (pte_of k d vb)" if "?lo \<le> vpn vb" "vpn vb < 2 ^ 19" for vb
    using assms(4) [of vb] that below_kernel [of vb] R(1,2) by simp
  have eq: "oldsz = newsz \<longrightarrow> unat newsz \<le> unat (PGROUNDUP oldsz)" using PGROUNDUP_spec(2) [OF w(1)] by auto
  obtain r k' qs where *: "allocuvm_loop kend d oldsz newsz (unat (PGROUNDUP oldsz)) k = Inr (r, k')"
     "r = newsz \<and> grow_inv kend ps k d ?lo (max ?lo ((unat newsz + 4095) div 4096)) k' qs \<or>
      r = 0 \<and> grow_failed kend ps k d k' qs \<and> card (set ps) < pages_needed k d oldsz newsz"
    using allocuvm_loop_spec [OF assms(1) gi al order_refl refl ab _ assms(3) eq tab_inv_refl] n31
    unfolding pages_needed_def Let_def R(1) [symmetric] by fastforce
  have c: "allocuvm kend d oldsz newsz k = Inr (r, k')"
    using *(1) leD [OF assms(3)] leD [of KERNBASE newsz] assms(2) by (auto simp: allocuvm_def)
  from *(2) show ?thesis
  proof
    assume g: "r = newsz \<and> grow_inv kend ps k d ?lo (max ?lo ((unat newsz + 4095) div 4096)) k' qs"
    have "?lo \<le> (unat newsz + 4095) div 4096" unfolding R(1) using o31 by (intro div_le_mono) simp
    then have "\<forall>va. if PGROUNDUP oldsz \<le> va \<and> va < PGROUNDUP newsz then zero_page k' d va else pte_of k' d va = pte_of k d va"
      using g R(1) unfolding grow_inv_def R(2,6) by (simp add: max_absorb2)
    then show ?thesis using c g unfolding grow_inv_def by blast
  next
    assume g: "r = 0 \<and> grow_failed kend ps k d k' qs \<and> card (set ps) < pages_needed k d oldsz newsz"
    then show ?thesis using c unfolding grow_failed_def R(1) by force
  qed
qed

text \<open>A page table for each of the entries of the directory is always enough.\<close>

lemma pages_needed_le:
  "newsz < KERNBASE \<Longrightarrow> pages_needed k d oldsz newsz \<le> 1024 + ((unat newsz + 4095) div 4096 - (unat oldsz + 4095) div 4096)"
proof -
  assume "newsz < KERNBASE"
  then have "(unat newsz + 4095) div 4096 \<le> 2 ^ 20" by (simp add: word_less_nat_alt KERNBASE_def)
  from card_new_tabs [OF this, of k d "(unat oldsz + 4095) div 4096"] show ?thesis by (simp add: pages_needed_def Let_def)
qed

lemma allocuvm_spec:
  assumes "vm_space kend k ps d" "newsz < KERNBASE" "oldsz \<le> newsz"
    "\<And>va. PGROUNDUP oldsz \<le> va \<Longrightarrow> va < KERNBASE \<Longrightarrow> \<not> present (pte_of k d va)"
  shows "\<exists>r k' qs. allocuvm kend d oldsz newsz k = Inr (r, k') \<and> vm_space kend k' qs d \<and>
     set qs \<union> vm_pages k' d = set ps \<union> vm_pages k d \<and> only_in (set ps \<union> insert d (tabs k d)) k k' \<and>
     (r = newsz \<and> (\<forall>va. if PGROUNDUP oldsz \<le> va \<and> va < PGROUNDUP newsz then zero_page k' d va else pte_of k' d va = pte_of k d va) \<or>
      r = 0 \<and> card (set ps) \<le> 1024 + ((unat newsz + 4095) div 4096 - (unat oldsz + 4095) div 4096) \<and>
      (\<forall>va. if present (pte_of k d va) then pte_of k' d va = pte_of k d va else \<not> present (pte_of k' d va)))"
proof -
  have "card (set ps) \<le> 1024 + ((unat newsz + 4095) div 4096 - (unat oldsz + 4095) div 4096)"
    if "card (set ps) < pages_needed k d oldsz newsz"
    using that pages_needed_le [OF assms(2), of k d oldsz] by linarith
  then show ?thesis using allocuvm_exact [OF assms] by blast
qed

subsection \<open>Properties\<close>

text \<open>
  C8: what allocuvm does with an address space of size oldsz for any new size. For a size of
  KERNBASE or more it returns 0 and changes nothing; for one below oldsz it returns oldsz and changes
  nothing. Otherwise, where nothing is mapped yet above oldsz, it either succeeds, and then every page
  between the two sizes is mapped, writable by the user, to a page of zeros of its own, and no other
  translation has changed; or it returns 0, and that only when there are fewer free pages than
  the pages to be mapped and the page tables that their entries of the directory still lack, and then
  every translation that was there is there as before and no new one is left. In both cases nothing
  is lost: a page is free or part of the address space as it was before, and no memory but that of
  free pages and page tables has changed, so that the user's data are intact.
\<close>

theorem allocuvm_grows:
  assumes "vm_space kend k ps d" "\<And>va. PGROUNDUP oldsz \<le> va \<Longrightarrow> va < KERNBASE \<Longrightarrow> \<not> present (pte_of k d va)"
  shows "if KERNBASE \<le> newsz then allocuvm kend d oldsz newsz k = Inr (0, k)
    else if newsz < oldsz then allocuvm kend d oldsz newsz k = Inr (oldsz, k)
    else \<exists>r k' qs. allocuvm kend d oldsz newsz k = Inr (r, k') \<and> vm_space kend k' qs d \<and>
     set qs \<union> vm_pages k' d = set ps \<union> vm_pages k d \<and> only_in (set ps \<union> insert d (tabs k d)) k k' \<and>
     (r = newsz \<and> (\<forall>va. if PGROUNDUP oldsz \<le> va \<and> va < PGROUNDUP newsz then zero_page k' d va else pte_of k' d va = pte_of k d va) \<or>
      r = 0 \<and> card (set ps) < pages_needed k d oldsz newsz \<and>
      (\<forall>va. if present (pte_of k d va) then pte_of k' d va = pte_of k d va else \<not> present (pte_of k' d va)))"
proof (cases "KERNBASE \<le> newsz \<or> newsz < oldsz")
  case True
  then show ?thesis by (auto simp: allocuvm_def)
next
  case False
  then have "newsz < KERNBASE" "oldsz \<le> newsz" by (simp_all add: not_le not_less)
  from allocuvm_exact [OF assms(1) this assms(2)] False show ?thesis by simp
qed

theorem allocuvm_grows_witness:
  "\<exists>r k' qs. allocuvm 0x80200000 0x80200000 4000 9000 sample_vm = Inr (r, k') \<and> vm_space 0x80200000 k' qs 0x80200000 \<and>
     set qs \<union> vm_pages k' 0x80200000 = {0x80200000, 0x80201000, 0x80202000} \<and>
     allocuvm 0x80200000 0x80200000 4000 0x80000000 sample_vm = Inr (0, sample_vm) \<and>
     allocuvm 0x80200000 0x80200000 4000 3000 sample_vm = Inr (4000, sample_vm)"
proof -
  have "\<not> present (pte_of sample_vm 0x80200000 va)" if "PGROUNDUP 4000 \<le> va" "va < KERNBASE" for va
  proof -
    have "PGROUNDUP 4000 = 4096" by (simp add: PGROUNDUP_def)
    then have "4096 \<le> unat va" using that(1) by (simp add: word_le_nat_alt)
    then show ?thesis unfolding sample_user(1) by (simp add: vpn_def div_eq_0_iff)
  qed
  note G = allocuvm_grows [OF sample_space this]
  have "\<not> KERNBASE \<le> (9000 :: u32)" "\<not> KERNBASE \<le> (3000 :: u32)" "KERNBASE \<le> 0x80000000" by (simp_all add: KERNBASE_def)
  with G [where newsz = 9000] G [where newsz = 3000] G [where newsz = "0x80000000"] show ?thesis
    unfolding sample_user(4) by fastforce
qed

end
