(* ===== verification/VmOut.thy ===== *)
theory VmOut
  imports VmCopy
begin

text \<open>
  copyout, and the bytes a process sees through its page table.
\<close>

subsection \<open>Writing into a page\<close>

lemma kput_mem:
  "length bs \<le> 2 ^ 32 \<Longrightarrow> kmem_mem (kput a bs k) x = (if unat (x - a) < length bs then bs ! unat (x - a) else kmem_mem k x)"
proof (induction bs arbitrary: a k)
  case (Cons b bs)
  show ?case
  proof (cases "x = a")
    case True
    have "unat (- 1 :: u32) = 2 ^ 32 - 1" by (simp add: unsigned_minus_1_eq_mask mask_eq_exp_minus_1)
    moreover have "a - (a + 1) = (- 1 :: u32)" by simp
    ultimately show ?thesis using True Cons by simp
  next
    case False
    then have "unat (x - a) \<noteq> 0" by (simp add: unat_eq_0)
    moreover have "unat (x - (a + 1)) = unat (x - a) - 1"
    proof -
      have e: "x - (a + 1) = (x - a) - 1" by simp
      show ?thesis unfolding e by (rule unat_minus_one) (use False in simp)
    qed
    ultimately show ?thesis using Cons False by (cases "unat (x - a)") simp_all
  qed
qed simp

lemma kput_keeps: "kput a bs k = k\<lparr>kmem_mem := kmem_mem (kput a bs k)\<rparr>"
proof (induction bs arbitrary: a k)
  case (Cons b bs)
  show ?case by (simp, subst Cons.IH) simp
qed simp

lemma kput_page:
  assumes "p mod 4096 = 0" "off + length bs \<le> 4096"
  shows "j < 4096 \<Longrightarrow> kmem_mem (kput (p + of_nat off) bs k) (p + of_nat j) =
      (if off \<le> j \<and> j < off + length bs then bs ! (j - off) else kmem_mem k (p + of_nat j))"
    and "\<not> in_page p x \<Longrightarrow> kmem_mem (kput (p + of_nat off) bs k) x = kmem_mem k x"
proof -
  have l: "length bs \<le> 2 ^ 32" using assms(2) by simp
  show "kmem_mem (kput (p + of_nat off) bs k) (p + of_nat j) =
      (if off \<le> j \<and> j < off + length bs then bs ! (j - off) else kmem_mem k (p + of_nat j))" if "j < 4096"
  proof (cases "off \<le> j")
    case True
    have "(p + of_nat j) - (p + of_nat off) = (of_nat (j - off) :: u32)" using True by (simp add: of_nat_diff)
    moreover have "unat (of_nat (j - off) :: u32) = j - off" using that by (intro unat_of_nat_id) simp
    ultimately show ?thesis using kput_mem [OF l, of "p + of_nat off" k "p + of_nat j"] True by auto
  next
    case False
    show ?thesis
    proof (cases "bs = []")
      case True
      then show ?thesis by auto
    next
      case bs: False
      then have o: "off < 4096" using assms(2) by (cases bs) auto
      have "(p + of_nat j) - (p + of_nat off) = - (of_nat (off - j) :: u32)" using False by (simp add: of_nat_diff)
      moreover have "unat (- (of_nat (off - j) :: u32)) = 2 ^ 32 - (off - j)"
      proof -
        have "unat (of_nat (off - j) :: u32) = off - j" using o by (intro unat_of_nat_id) simp
        then show ?thesis using False unat_sub_if_size [of 0 "of_nat (off - j) :: u32"] by (simp add: word_size)
      qed
      ultimately show ?thesis using kput_mem [OF l, of "p + of_nat off" k "p + of_nat j"] False o assms(2) by auto
    qed
  qed
  show "kmem_mem (kput (p + of_nat off) bs k) x = kmem_mem k x" if "\<not> in_page p x"
  proof -
    have "\<not> unat (x - (p + of_nat off)) < length bs"
    proof
      assume b: "unat (x - (p + of_nat off)) < length bs"
      have o: "unat (of_nat off :: u32) = off" using assms(2) by (intro unat_of_nat_id) simp
      have "unat ((x - (p + of_nat off)) + of_nat off) = unat (x - (p + of_nat off)) + unat (of_nat off :: u32)"
        by (rule unat_add_no_wrap) (use b o assms(2) in simp)
      moreover have "(x - (p + of_nat off)) + of_nat off = x - p" by simp
      ultimately have "unat (x - p) < 4096" using b o assms(2) by simp
      then show False using that by (simp add: in_page_def)
    qed
    then show ?thesis using kput_mem [OF l, of "p + of_nat off" k x] by simp
  qed
qed

subsection \<open>The memory a process sees\<close>

definition uread :: "kmem \<Rightarrow> u32 \<Rightarrow> u32 \<Rightarrow> u8" where
  "uread k d va = kmem_mem k (upage k d va + of_nat (unat va mod 4096))"

definition user_mapped :: "kmem \<Rightarrow> u32 \<Rightarrow> u32 \<Rightarrow> bool" where
  "user_mapped k d va \<longleftrightarrow> present (pte_of k d va) \<and> pte_of k d va AND PTE_U \<noteq> 0"

lemma user_write:
  assumes vm: "vm_space kend k ps d" and va: "va < KERNBASE" "present (pte_of k d va)"
    and k': "k' = kput (upage k d va + of_nat off) bs k" "off + length bs \<le> 4096"
  shows "vm_space kend k' ps d" "pte_of k' d vb = pte_of k d vb" "upages k' d = upages k d" "only_in (upages k d) k k'"
    and "vb < KERNBASE \<Longrightarrow> present (pte_of k d vb) \<Longrightarrow> uread k' d vb =
      (if vpn vb = vpn va \<and> off \<le> unat vb mod 4096 \<and> unat vb mod 4096 < off + length bs then bs ! (unat vb mod 4096 - off)
       else uread k d vb)"
proof -
  let ?p = "upage k d va"
  note S = vm_spaceD [OF vm]
  have p: "?p mod 4096 = 0" "?p \<notin> insert d (tabs k d)" "?p \<notin> set ps" "?p \<in> upages k d"
    using S(3-5) [OF va] va by (auto simp: page_ok_def upages_def)
  note W = kput_page [OF p(1) k'(2), of _ k, folded k'(1)]
  have oi: "only_in {?p} k k'" unfolding only_in_def using W(2) by simp
  then show "only_in (upages k d) k k'" by (rule only_in_trans [OF only_in_refl]) (use p(4) in simp)
  have mem: "\<forall>x. in_vm k d x \<longrightarrow> kmem_mem k' x = kmem_mem k x"
  proof (intro allI impI)
    fix x
    assume "in_vm k d x"
    then obtain q where q: "q \<in> insert d (tabs k d)" "in_page q x" by (auto simp: in_vm_tabs)
    have "q \<in> vm_pages k d" using q(1) by (auto simp: vm_pages_def)
    then show "kmem_mem k' x = kmem_mem k x"
      by (intro only_in_page [OF oi _ vm_pages_aligned [OF vm] _ q(2)]) (use p q in auto)
  qed
  note C = tables_cong [OF S(2) mem]
  have "kmem_mem k' x = kmem_mem k x" if "\<exists>q \<in> set ps. in_page q x" for x
  proof -
    from that obtain q where q: "q \<in> set ps" "in_page q x" by blast
    show ?thesis
      by (rule only_in_page [OF oi _ free_set_aligned [OF vm_tablesD(1) [OF S(2)] q(1)] _ q(2)]) (use p q in auto)
  qed
  then have "free_pages kend (k\<lparr>kmem_mem := kmem_mem k'\<rparr>) ps" by (rule free_pages_store [OF vm_tablesD(1) [OF S(2)]])
  then have "free_pages kend k' ps" unfolding k'(1) using kput_keeps by metis
  moreover have "set ps \<inter> vm_pages k d = {}"
    using vm_tablesD(4) [OF S(2)] tabs_apart(2) [OF S(2)] S(4) unfolding vm_pages_def upages_def by blast
  ultimately show "vm_space kend k' ps d" by (rule space_cong [OF vm mem])
  show "pte_of k' d vb = pte_of k d vb" "upages k' d = upages k d" by (rule C)+
  show "uread k' d vb =
      (if vpn vb = vpn va \<and> off \<le> unat vb mod 4096 \<and> unat vb mod 4096 < off + length bs then bs ! (unat vb mod 4096 - off)
       else uread k d vb)" if vb: "vb < KERNBASE" "present (pte_of k d vb)"
  proof (cases "vpn vb = vpn va")
    case True
    then have "upage k d vb = ?p" using vpn_pte [OF True] by (simp add: upage_def)
    then show ?thesis using W(1) [of "unat vb mod 4096"] True by (simp add: uread_def C(5))
  next
    case False
    then have "upage k d vb \<noteq> ?p" using S(6) [OF vb(1) va(1) vb(2) va(2)] by blast
    then have "\<not> in_page ?p (upage k d vb + of_nat (unat vb mod 4096))"
      using S(3) [OF vb] p(1) by (intro disjoint_pages [OF p(1) _ _ page_byte]) (auto simp: page_ok_def)
    then show ?thesis using W(2) False by (simp add: uread_def C(5))
  qed
qed

subsection \<open>Copying out\<close>

lemma uva2ka_user:
  assumes vm: "vm_space kend k ps d" and "user_mapped k d va"
  shows "uva2ka d (PGROUNDDOWN va) k = Inr (upage k d va)"
proof -
  have v: "pte_of k d (PGROUNDDOWN va) = pte_of k d va" by (rule vpn_pte) (rule vpn_PGROUNDDOWN)
  have pr: "present (pte_of k d (PGROUNDDOWN va))" using assms(2) v by (simp add: user_mapped_def)
  note W = walk_entry [OF vm_spaceD(2) [OF vm] pr]
  show ?thesis using W(1) [of False] W(2,3) assms(2) v by (simp add: uva2ka_def user_mapped_def upage_def)
qed

lemma copyout_step:
  assumes vm: "vm_space kend k ps d" and um: "user_mapped k d va" "va < KERNBASE" and ne: "buf \<noteq> []"
    and n: "n = min (4096 - unat va mod 4096) (length buf)"
  shows "copyout d va buf k =
     copyout d (PGROUNDDOWN va + 4096) (drop n buf) (kput (upage k d va + of_nat (unat va mod 4096)) (take n buf) k)"
proof -
  have "upage k d va \<noteq> 0"
    using page_ok_nonzero [OF vm_spaceD(3) [OF vm um(2)]] um(1) by (simp add: user_mapped_def)
  moreover have "va - PGROUNDDOWN va = of_nat (unat va mod 4096)"
  proof -
    have "va - PGROUNDDOWN va = of_nat (unat (va - PGROUNDDOWN va))" by simp
    then show ?thesis unfolding page_offset .
  qed
  moreover have "(if 4096 - unat va mod 4096 > length buf then length buf else 4096 - unat va mod 4096) = n" unfolding n by simp
  ultimately show ?thesis
    using ne uva2ka_user [OF vm um(1)] page_offset [of va]
    by (subst copyout.simps) (cases "length buf < 4096 - unat va mod 4096"; simp add: Let_def)
qed

lemma in_range_iff:
  assumes "n \<le> 4096 - a mod (4096 :: nat)"
  shows "x div 4096 = a div 4096 \<and> a mod 4096 \<le> x mod 4096 \<and> x mod 4096 < a mod 4096 + n \<longleftrightarrow> a \<le> x \<and> x < a + n" (is "?L \<longleftrightarrow> ?R")
proof -
  obtain c r where a: "a = 4096 * c + r" "r < 4096" using div_mult_mod_eq [of a 4096] mod_less_divisor [of 4096 a] by (metis mult.commute zero_less_numeral)
  obtain e s where x: "x = 4096 * e + s" "s < 4096" using div_mult_mod_eq [of x 4096] mod_less_divisor [of 4096 x] by (metis mult.commute zero_less_numeral)
  have m: "a div 4096 = c" "a mod 4096 = r" "x div 4096 = e" "x mod 4096 = s" using a x by simp_all
  have "e = c" if "4096 * c + r \<le> 4096 * e + s" "4096 * e + s < 4096 * c + r + n"
    using that assms x(2) a(2) unfolding m by linarith
  then show ?thesis unfolding m unfolding a(1) x(1) by auto
qed

text \<open>
  When the whole range is mapped for the user, copyout returns 0 and then the process sees the
  bytes of the buffer at the addresses from va on, across page boundaries wherever the frames lie, and
  what it saw before at every other address; translations, page tables and free pages are untouched.
\<close>

lemma copyout_spec:
  assumes "vm_space kend k ps d" "unat va + length buf \<le> 2 ^ 31"
    "\<And>x. unat va \<le> unat x \<Longrightarrow> unat x < unat va + length buf \<Longrightarrow> user_mapped k d x"
  shows "\<exists>k'. copyout d va buf k = Inr (0, k') \<and> vm_space kend k' ps d \<and> only_in (upages k d) k k' \<and>
     (\<forall>x. pte_of k' d x = pte_of k d x) \<and>
     (\<forall>x. x < KERNBASE \<and> present (pte_of k d x) \<longrightarrow>
        uread k' d x = (if unat va \<le> unat x \<and> unat x < unat va + length buf then buf ! (unat x - unat va) else uread k d x))"
  using assms
proof (induction "length buf" arbitrary: va buf k rule: less_induct)
  case less
  show ?case
  proof (cases "buf = []")
    case True
    then show ?thesis using less.prems(1) only_in_refl by (subst copyout.simps) auto
  next
    case False
    define n where "n = min (4096 - unat va mod 4096) (length buf)"
    let ?p = "upage k d va" and ?o = "unat va mod 4096" and ?w = "PGROUNDDOWN va + 4096"
    let ?k = "kput (?p + of_nat ?o) (take n buf) k"
    have o: "?o < 4096" by simp
    have n: "0 < n" "n \<le> 4096 - ?o" "n \<le> length buf" using False o unfolding n_def by auto
    have um: "user_mapped k d va" using less.prems(3) [of va] False by simp
    have va: "va < KERNBASE" using less.prems(2) False by (cases buf) (auto simp: word_less_nat_alt KERNBASE_def)
    have pr: "present (pte_of k d va)" using um by (simp add: user_mapped_def)
    have fit: "?o + length (take n buf) \<le> 4096" using n by simp
    note U = user_write [OF less.prems(1) va pr refl fit]
    have w: "unat ?w = unat va - ?o + 4096"
    proof -
      have "unat (PGROUNDDOWN va) + unat (4096 :: u32) < 2 ^ 32" using va by (simp add: unat_PGROUNDDOWN word_less_nat_alt KERNBASE_def)
      then show ?thesis using unat_add_no_wrap [of "PGROUNDDOWN va" 4096] by (simp add: unat_PGROUNDDOWN)
    qed
    have rest: "unat ?w = unat va + n" if "n < length buf"
    proof -
      have "n = 4096 - ?o" using that unfolding n_def by auto
      moreover have "?o \<le> unat va" by (rule mod_less_eq_dividend)
      ultimately show ?thesis using w o by linarith
    qed
    have rng: "unat ?w \<le> unat x \<and> unat x < unat ?w + length (drop n buf) \<longleftrightarrow> unat va + n \<le> unat x \<and> unat x < unat va + length buf" for x
      using rest n(3) by (cases "n < length buf") auto
    have "user_mapped ?k d x" if "unat ?w \<le> unat x" "unat x < unat ?w + length (drop n buf)" for x
      using less.prems(3) [of x] rng [of x] that by (auto simp: user_mapped_def U(2))
    moreover have "length (drop n buf) < length buf" using n by simp
    moreover have "unat ?w + length (drop n buf) \<le> 2 ^ 31"
    proof (cases "n < length buf")
      case True
      then show ?thesis using rest less.prems(2) by simp
    next
      case False
      have "unat va div 4096 < 2 ^ 19" using va by (simp add: word_less_nat_alt KERNBASE_def less_mult_imp_div_less)
      then show ?thesis using False n(3) w by (simp add: minus_mod_eq_div_mult)
    qed
    ultimately obtain k' where *: "copyout d ?w (drop n buf) ?k = Inr (0, k')" "vm_space kend k' ps d" "only_in (upages ?k d) ?k k'"
      "\<forall>x. pte_of k' d x = pte_of ?k d x"
      "\<forall>x. x < KERNBASE \<and> present (pte_of ?k d x) \<longrightarrow> uread k' d x =
         (if unat ?w \<le> unat x \<and> unat x < unat ?w + length (drop n buf) then drop n buf ! (unat x - unat ?w) else uread ?k d x)"
      using less.hyps [OF _ U(1)] by blast
    have "copyout d va buf k = Inr (0, k')" using copyout_step [OF less.prems(1) um va False n_def] *(1) by simp
    moreover have "only_in (upages k d) k k'" using only_in_trans [OF U(4) *(3)] U(3) by simp
    moreover have "uread k' d x = (if unat va \<le> unat x \<and> unat x < unat va + length buf then buf ! (unat x - unat va) else uread k d x)"
      if x: "x < KERNBASE" "present (pte_of k d x)" for x
    proof -
      have "uread k' d x = (if unat va + n \<le> unat x \<and> unat x < unat va + length buf then drop n buf ! (unat x - unat ?w) else uread ?k d x)"
        using *(5) x unfolding rng by (simp add: U(2))
      moreover have "uread ?k d x = (if unat va \<le> unat x \<and> unat x < unat va + n then take n buf ! (unat x mod 4096 - ?o) else uread k d x)"
        using U(5) [OF x] in_range_iff [OF n(2), of "unat x"] n(3) by (simp add: vpn_def min_absorb2)
      moreover have "unat x mod 4096 - ?o = unat x - unat va" if "unat va \<le> unat x" "unat x < unat va + n"
      proof -
        have "unat x div 4096 = unat va div 4096" "?o \<le> unat x mod 4096" using in_range_iff [OF n(2), of "unat x"] that by blast+
        then show ?thesis using div_mult_mod_eq [of "unat x" 4096] div_mult_mod_eq [of "unat va" 4096] by linarith
      qed
      moreover have "unat ?w = unat va + n" if "unat va + n \<le> unat x" "unat x < unat va + length buf" using rest that by simp
      ultimately show ?thesis using n(3) by (auto simp: not_le)
    qed
    moreover have "\<forall>x. pte_of k' d x = pte_of k d x" using *(4) U(2) by simp
    ultimately show ?thesis using *(2) by blast
  qed
qed

end
