(* ===== verification/Exec.thy ===== *)
theory Exec
  imports SysFile VmAlloc VmOut
begin

text \<open>
  Program loading (exec.c, elf.h), the system call exec (sysfile.c) and the growing of a process
  (proc.c: growproc), over the file system and the page tables. A process enters with the fields of its
  structure and of its trap frame that exec changes. The argument strings are bytes of the old address
  space, which exec does not write before it gives it up; the messages to the console are left out. As for the other
  system calls, the part that uses the file system is one transaction.
\<close>

subsection \<open>Headers\<close>

record elfhdr =
  e_magic :: u32
  e_elf :: "u8 list"
  e_type :: u16
  e_machine :: u16
  e_version :: u32
  e_entry :: u32
  e_phoff :: u32
  e_shoff :: u32
  e_flags :: u32
  e_ehsize :: u16
  e_phentsize :: u16
  e_phnum :: u16
  e_shentsize :: u16
  e_shnum :: u16
  e_shstrndx :: u16

record proghdr =
  ph_type :: u32
  ph_off :: u32
  ph_vaddr :: u32
  ph_paddr :: u32
  ph_filesz :: u32
  ph_memsz :: u32
  ph_flags :: u32
  ph_align :: u32

text \<open>The structures as readi fills them.\<close>

definition elfhdr_of :: "u8 list \<Rightarrow> elfhdr" where
  "elfhdr_of b = \<lparr>e_magic = get32 b 0, e_elf = slice 4 12 b, e_type = word16 (slice 16 2 b), e_machine = word16 (slice 18 2 b),
     e_version = get32 b 5, e_entry = get32 b 6, e_phoff = get32 b 7, e_shoff = get32 b 8, e_flags = get32 b 9,
     e_ehsize = word16 (slice 40 2 b), e_phentsize = word16 (slice 42 2 b), e_phnum = word16 (slice 44 2 b),
     e_shentsize = word16 (slice 46 2 b), e_shnum = word16 (slice 48 2 b), e_shstrndx = word16 (slice 50 2 b)\<rparr>"

definition proghdr_of :: "u8 list \<Rightarrow> proghdr" where
  "proghdr_of b = \<lparr>ph_type = get32 b 0, ph_off = get32 b 1, ph_vaddr = get32 b 2, ph_paddr = get32 b 3,
     ph_filesz = get32 b 4, ph_memsz = get32 b 5, ph_flags = get32 b 6, ph_align = get32 b 7\<rparr>"

abbreviation (input) ELF_MAGIC :: u32 where "ELF_MAGIC \<equiv> 0x464C457F"
abbreviation (input) ELF_PROG_LOAD :: u32 where "ELF_PROG_LOAD \<equiv> 1"
abbreviation (input) MAXARG :: nat where "MAXARG \<equiv> 32"

subsection \<open>Processes\<close>

record eproc =
  e_pgdir :: u32
  e_sz :: u32
  e_eip :: u32
  e_esp :: u32
  e_name :: "u8 list"

text \<open>The sum is one of a uint and an int, so it wraps.\<close>

definition growproc_vm :: "u32 \<Rightarrow> int \<Rightarrow> eproc \<Rightarrow> kmem \<Rightarrow> (int \<times> eproc \<times> kmem) res" where
  "growproc_vm kend n p k =
     (if 0 < n then
        bindR (allocuvm kend (e_pgdir p) (e_sz p) (e_sz p + word_of_int n) k) (\<lambda>(usz, k).
          if usz = 0 then Inr (-1, p, k) else Inr (0, p\<lparr>e_sz := usz\<rparr>, k))
      else if n < 0 then
        bindR (deallocuvm kend (e_pgdir p) (e_sz p) (e_sz p + word_of_int n) k) (\<lambda>(usz, k).
          if usz = 0 then Inr (-1, p, k) else Inr (0, p\<lparr>e_sz := usz\<rparr>, k))
      else Inr (0, p, k))"

definition sys_sbrk :: "u32 \<Rightarrow> uproc \<Rightarrow> eproc \<Rightarrow> kmem \<Rightarrow> (int \<times> eproc \<times> kmem) res" where
  "sys_sbrk kend u p k =
     (case argint u 0 of
        None \<Rightarrow> Inr (-1, p, k)
      | Some n \<Rightarrow>
          let addr = sint (e_sz p) in
          bindR (growproc_vm kend n p k) (\<lambda>(r, p, k). Inr (if r < 0 then -1 else addr, p, k)))"

subsection \<open>The parts of exec\<close>

type_synonym devsw = "int \<Rightarrow> (nat \<Rightarrow> u32 \<Rightarrow> fsys \<Rightarrow> (int \<times> u8 list \<times> fsys) res) option"

definition cleanupexec :: "u32 \<Rightarrow> int \<Rightarrow> u32 \<Rightarrow> nat option \<Rightarrow> kmem \<times> fsys \<Rightarrow> (kmem \<times> fsys) res" where
  "cleanupexec kend pid pgdir ip s =
     (let (k, fs) = s in
      bindR (if pgdir \<noteq> 0 then freevm kend pgdir k else Inr k) (\<lambda>k.
      bindR (case ip of None \<Rightarrow> Inr fs | Some i \<Rightarrow> iunlockput pid i fs) (\<lambda>fs.
      Inr (k, fs))))"

text \<open>The loop over n more program headers from the offset off on; None asks for the clean-up.\<close>

fun exec_load :: "u32 \<Rightarrow> devsw \<Rightarrow> u32 \<Rightarrow> nat \<Rightarrow> nat \<Rightarrow> u32 \<Rightarrow> u32 \<Rightarrow> kmem \<times> fsys \<Rightarrow> (u32 option \<times> kmem \<times> fsys) res" where
  "exec_load kend devsw pgdir ip 0 off usz s = Inr (Some usz, s)"
| "exec_load kend devsw pgdir ip (Suc n) off usz s =
     (let (k, fs) = s in
      bindR (readi devsw ip off 32 fs) (\<lambda>(r, b, fs).
        if r \<noteq> 32 then Inr (None, k, fs)
        else
          let ph = proghdr_of b in
          if ph_type ph \<noteq> ELF_PROG_LOAD then exec_load kend devsw pgdir ip n (off + 32) usz (k, fs)
          else if ph_memsz ph < ph_filesz ph then Inr (None, k, fs)
          else if ph_vaddr ph + ph_memsz ph < ph_vaddr ph then Inr (None, k, fs)
          else
            bindR (allocuvm kend pgdir usz (ph_vaddr ph + ph_memsz ph) k) (\<lambda>(usz, k).
              if usz = 0 then Inr (None, k, fs)
              else if ph_vaddr ph mod 4096 \<noteq> 0 then Inr (None, k, fs)
              else
                bindR (loaduvm devsw pgdir (ph_vaddr ph) ip (ph_off ph) (ph_filesz ph) (k, fs)) (\<lambda>(r, k, fs).
                  if r < 0 then Inr (None, k, fs)
                  else exec_load kend devsw pgdir ip n (off + 32) usz (k, fs)))))"

text \<open>The argument strings; ptrs are the words of ustack from index 3 on.\<close>

fun exec_args :: "u32 \<Rightarrow> u32 \<Rightarrow> u32 list \<Rightarrow> u8 list list \<Rightarrow> kmem \<Rightarrow> ((u32 \<times> u32 list) option \<times> kmem) res" where
  "exec_args pgdir sp ptrs [] k = Inr (Some (sp, ptrs), k)"
| "exec_args pgdir sp ptrs (arg # argv) k =
     (if length ptrs \<ge> MAXARG then Inr (None, k)
      else
        let sp = (sp - of_nat (length arg + 1)) AND NOT 3 in
        bindR (copyout pgdir sp (arg @ [0]) k) (\<lambda>(r, k).
          if r < 0 then Inr (None, k) else exec_args pgdir sp (ptrs @ [sp]) argv k))"

definition exec_ustack :: "u32 \<Rightarrow> u32 list \<Rightarrow> u32 list" where
  "exec_ustack sp ptrs = [0xFFFFFFFF, of_nat (length ptrs), sp - of_nat (4 * (length ptrs + 1))] @ ptrs @ [0]"

text \<open>The stack: two pages, the first inaccessible, with the arguments at the top of the second.\<close>

definition exec_stack :: "u32 \<Rightarrow> u32 \<Rightarrow> u32 \<Rightarrow> u8 list list \<Rightarrow> kmem \<Rightarrow> ((u32 \<times> u32) option \<times> kmem) res" where
  "exec_stack kend pgdir usz argv k =
     (let usz = PGROUNDUP usz in
      bindR (allocuvm kend pgdir usz (usz + 2 * 4096) k) (\<lambda>(usz, k).
        if usz = 0 then Inr (None, k)
        else
          bindR (clearpteu pgdir (usz - 2 * 4096) k) (\<lambda>k.
          bindR (exec_args pgdir usz [] argv k) (\<lambda>(r, k).
            case r of
              None \<Rightarrow> Inr (None, k)
            | Some (sp, ptrs) \<Rightarrow>
                let ustack = exec_ustack sp ptrs;
                    sp = sp - of_nat (4 * (3 + length ptrs + 1))
                in bindR (copyout pgdir sp (concat (map bytes32 ustack)) k) (\<lambda>(r, k).
                     Inr (if r < 0 then None else Some (usz, sp), k))))))"

text \<open>The name for debugging: what follows the last slash, cut to fifteen bytes.\<close>

definition exec_name :: "u8 list \<Rightarrow> u8 list" where
  "exec_name path = take 15 (rev (takeWhile (\<lambda>c. c \<noteq> 47) (rev path)))"

subsection \<open>exec\<close>

text \<open>A failure: the clean-up, then -1.\<close>

definition exec_bad :: "u32 \<Rightarrow> int \<Rightarrow> eproc \<Rightarrow> u32 \<Rightarrow> nat option \<Rightarrow> kmem \<times> fsys \<Rightarrow> (int \<times> eproc \<times> kmem \<times> fsys) res" where
  "exec_bad kend pid p pgdir ip s = bindR (cleanupexec kend pid pgdir ip s) (\<lambda>(k, fs). Inr (-1, p, k, fs))"

text \<open>The part of exec from the allocation of the page table on.\<close>

definition exec_build :: "u32 \<Rightarrow> u32 \<Rightarrow> devsw \<Rightarrow> int \<Rightarrow> nat \<Rightarrow> u8 list \<Rightarrow> u8 list list \<Rightarrow> elfhdr \<Rightarrow>
    eproc \<times> kmem \<times> fsys \<Rightarrow> (int \<times> eproc \<times> kmem \<times> fsys) res" where
  "exec_build kend data devsw pid ip path argv elf s =
     (let (p, k, fs) = s in
      bindR (setupkvm kend data k) (\<lambda>(pgdir, k).
        if pgdir = 0 then exec_bad kend pid p pgdir (Some ip) (k, fs)
        else
          bindR (exec_load kend devsw pgdir ip (unat (e_phnum elf)) (e_phoff elf) 0 (k, fs)) (\<lambda>(r, k, fs).
            case r of
              None \<Rightarrow> exec_bad kend pid p pgdir (Some ip) (k, fs)
            | Some usz \<Rightarrow>
                bindR (iunlockput pid ip fs) (\<lambda>fs.
                bindR (exec_stack kend pgdir usz argv k) (\<lambda>(r, k).
                  case r of
                    None \<Rightarrow> exec_bad kend pid p pgdir None (k, fs)
                  | Some (usz, sp) \<Rightarrow>
                      bindR (freevm kend (e_pgdir p) k) (\<lambda>k.
                        Inr (0, p\<lparr>e_name := exec_name path, e_pgdir := pgdir, e_sz := usz, e_eip := e_entry elf, e_esp := sp\<rparr>, k, fs)))))))"

definition exec :: "u32 \<Rightarrow> u32 \<Rightarrow> devsw \<Rightarrow> int \<Rightarrow> nat \<Rightarrow> u8 list \<Rightarrow> u8 list \<Rightarrow> u8 list list \<Rightarrow>
    eproc \<times> kmem \<times> fsys \<Rightarrow> (int \<times> eproc \<times> kmem \<times> fsys) res" where
  "exec kend data devsw pid cwd junk path argv s =
     (let (p, k, fs) = s in
      bindR (namei pid cwd junk path fs) (\<lambda>(r, fs).
        case r of
          None \<Rightarrow> Inr (-1, p, k, fs)
        | Some ip \<Rightarrow>
            bindR (ilock pid ip fs) (\<lambda>fs.
            bindR (readi devsw ip 0 52 fs) (\<lambda>(r, b, fs).
              if r \<noteq> 52 then exec_bad kend pid p 0 (Some ip) (k, fs)
              else if e_magic (elfhdr_of b) \<noteq> ELF_MAGIC then exec_bad kend pid p 0 (Some ip) (k, fs)
              else exec_build kend data devsw pid ip path argv (elfhdr_of b) (p, k, fs)))))"

text \<open>The system call: the arguments are fetched until a null pointer.\<close>

function fetch_args :: "uproc \<Rightarrow> u32 \<Rightarrow> nat \<Rightarrow> u8 list list \<Rightarrow> u8 list list option" where
  "fetch_args u uargv i argv =
     (if i \<ge> MAXARG then None
      else
        case fetchint u (uargv + of_nat (4 * i)) of
          None \<Rightarrow> None
        | Some uarg \<Rightarrow>
            if uarg = 0 then Some argv
            else
              (case fetchstr u (word_of_int uarg) of
                 None \<Rightarrow> None
               | Some (a, n) \<Rightarrow> fetch_args u uargv (i + 1) (argv @ [bytes_at (umem u) a (nat n)])))"
  by auto

termination
  by (relation "measure (\<lambda>(_, _, i, _). MAXARG - i)") auto

declare fetch_args.simps [simp del]

definition sys_exec :: "u32 \<Rightarrow> u32 \<Rightarrow> devsw \<Rightarrow> int \<Rightarrow> nat \<Rightarrow> u8 list \<Rightarrow> uproc \<Rightarrow>
    eproc \<times> kmem \<times> fsys \<Rightarrow> (int \<times> eproc \<times> kmem \<times> fsys) res" where
  "sys_exec kend data devsw pid cwd junk u s =
     (let (p, k, fs) = s in
      case (fetch_path u 0, argint u 1) of
        (Some path, Some uargv) \<Rightarrow>
          (case fetch_args u (word_of_int uargv) 0 [] of
             None \<Rightarrow> Inr (-1, p, k, fs)
           | Some argv \<Rightarrow> exec kend data devsw pid cwd junk path argv s)
      | _ \<Rightarrow> Inr (-1, p, k, fs))"

text \<open>The system call passes on fewer arguments than exec can take.\<close>

lemma fetch_args_length: "fetch_args u uargv i argv = Some r \<Longrightarrow> length argv = i \<Longrightarrow> length r < MAXARG"
proof (induction u uargv i argv rule: fetch_args.induct)
  case (1 u uargv i argv)
  obtain uarg where f: "i < 32" "fetchint u (uargv + of_nat (4 * i)) = Some uarg"
    using 1(2) by (subst (asm) fetch_args.simps) (auto split: if_splits option.splits)
  show ?case
  proof (cases "uarg = 0")
    case True
    then show ?thesis using 1(2,3) f by (subst (asm) fetch_args.simps) auto
  next
    case False
    then obtain a n where s: "fetchstr u (word_of_int uarg) = Some (a, n)" "fetch_args u uargv (i + 1) (argv @ [bytes_at (umem u) a (nat n)]) = Some r"
      using 1(2) f by (subst (asm) fetch_args.simps) (auto split: option.splits)
    show ?thesis using 1(1) [OF _ f(2) False s(1) refl s(2)] 1(3) f(1) by simp
  qed
qed

end
