(* ===== verification/ExecImage.thy ===== *)
theory ExecImage
  imports Exec
begin

text \<open>
  An address space under construction. Its user part is the first n pages, none of the kernel part is
  open to the user, and the pages that are free or part of it are those that were free before, the set
  S; since only these are written, other address spaces are not affected.
\<close>

definition uimage :: "u32 \<Rightarrow> u32 set \<Rightarrow> kmem \<Rightarrow> u32 \<Rightarrow> nat \<Rightarrow> kmem \<Rightarrow> u32 list \<Rightarrow> bool" where
  "uimage kend S k0 d n k ps \<longleftrightarrow> vm_space kend k ps d \<and> set ps \<union> vm_pages k d = S \<and> only_in S k0 k \<and> n \<le> 2 ^ 19 \<and>
     (\<forall>va < KERNBASE. present (pte_of k d va) \<longleftrightarrow> vpn va < n) \<and> (\<forall>va \<ge> KERNBASE. \<not> user_mapped k d va)"

lemma imageD:
  assumes "uimage kend S k0 d n k ps"
  shows "vm_space kend k ps d" "set ps \<union> vm_pages k d = S" "only_in S k0 k" "n \<le> 2 ^ 19"
    "va < KERNBASE \<Longrightarrow> present (pte_of k d va) \<longleftrightarrow> vpn va < n" "KERNBASE \<le> va \<Longrightarrow> \<not> user_mapped k d va"
  using assms unfolding uimage_def by blast+

lemma imageI:
  assumes "vm_space kend k ps d" "set ps \<union> vm_pages k d = S" "only_in S k0 k" "n \<le> 2 ^ 19"
    "\<And>va. va < KERNBASE \<Longrightarrow> present (pte_of k d va) \<longleftrightarrow> vpn va < n" "\<And>va. KERNBASE \<le> va \<Longrightarrow> \<not> user_mapped k d va"
  shows "uimage kend S k0 d n k ps"
  using assms unfolding uimage_def by blast

lemma image_present:
  assumes "uimage kend S k0 d n k ps" "vpn va < n"
  shows "va < KERNBASE" "present (pte_of k d va)"
  using imageD(4,5) [OF assms(1)] assms(2) below_kernel [of va] by auto

text \<open>Number of pages of a process of some size.\<close>

definition npages :: "u32 \<Rightarrow> nat" where
  "npages usz = (unat usz + 4095) div 4096"

lemma npages_le: "usz \<le> KERNBASE \<Longrightarrow> npages usz \<le> 2 ^ 19"
  by (simp add: npages_def word_le_nat_alt KERNBASE_def)

lemma npages_mono: "a \<le> b \<Longrightarrow> npages a \<le> npages b"
  by (simp add: npages_def word_le_nat_alt div_le_mono)

lemma npages_PGROUNDUP:
  assumes "usz \<le> KERNBASE"
  shows "PGROUNDUP usz \<le> KERNBASE" "npages (PGROUNDUP usz) = npages usz" "unat (PGROUNDUP usz) = 4096 * npages usz"
proof -
  have w: "unat usz + 4095 < 2 ^ 32" using assms by (simp add: word_le_nat_alt KERNBASE_def)
  have m: "unat (PGROUNDUP usz) mod 4096 = 0" using PGROUNDUP_spec(1) [OF w] unfolding unat_aligned .
  show u: "unat (PGROUNDUP usz) = 4096 * npages usz"
    unfolding npages_def PGROUNDUP_vpn(1) [OF w, symmetric] using m minus_mod_eq_mult_div [of "unat (PGROUNDUP usz)" 4096] by simp
  show "PGROUNDUP usz \<le> KERNBASE" using u npages_le [OF assms] by (simp add: word_le_nat_alt KERNBASE_def)
  show "npages (PGROUNDUP usz) = npages usz" using u by (simp add: npages_def [of "PGROUNDUP usz"])
qed

lemma vpn_npages: "unat va < unat usz \<Longrightarrow> vpn va < npages usz"
  by (simp add: vpn_def npages_def div_less_iff_less_mult)

subsection \<open>The kernel part\<close>

lemma aligned_bits: "(a :: u32) mod 4096 = 0 \<Longrightarrow> a AND 4 = 0"
proof -
  assume "a mod 4096 = 0"
  then have "a AND mask 12 = 0" by (simp add: take_bit_eq_mod flip: take_bit_eq_mask)
  moreover have "a AND 4 = (a AND mask 12) AND 4" by (simp add: and.assoc mask_eq_exp_minus_1)
  ultimately show ?thesis by simp
qed

lemma kernel_not_user: "KERNBASE \<le> va \<Longrightarrow> kernel_pte data va AND PTE_U = 0"
proof -
  have "V2P (PGROUNDDOWN va) AND 4 = 0" "PGROUNDDOWN va AND 4 = 0"
    using aligned_bits V2P_aligned PGROUNDDOWN_aligned by blast+
  then show ?thesis by (simp add: kernel_pte_def bit.conj_disj_distrib2)
qed

lemma image_start:
  assumes "free_pages kend k ps" "KERNBASE < kend" "data_ok data"
  shows "\<exists>r k' qs. setupkvm kend data k = Inr (r, k') \<and>
     (r = 0 \<and> free_pages kend k' qs \<and> set qs = set ps \<and> only_in (set ps) k k' \<and> card (set ps) \<le> 1025 \<or>
      r \<noteq> 0 \<and> uimage kend (set ps) k r 0 k' qs \<and> (\<forall>va. pte_of k' r va = kernel_pte data va))"
proof -
  obtain r k' qs where *: "setupkvm kend data k = Inr (r, k')" "only_in (set ps) k k'"
     "r = 0 \<and> free_pages kend k' qs \<and> set qs = set ps \<and> card (set ps) \<le> 1025 \<or>
      r \<noteq> 0 \<and> vm_space kend k' qs r \<and> upages k' r = {} \<and> set qs \<union> vm_pages k' r = set ps \<and>
      (\<forall>va. pte_of k' r va = kernel_pte data va)"
    using setupkvm_spec [OF assms] by blast
  have "uimage kend (set ps) k r 0 k' qs" if r: "vm_space kend k' qs r" "set qs \<union> vm_pages k' r = set ps" "\<forall>va. pte_of k' r va = kernel_pte data va"
    by (rule imageI [OF r(1,2) *(2)]) (use r(3) kernel_not_user in \<open>auto simp: user_mapped_def kernel_pte_def\<close>)
  then show ?thesis using * by blast
qed

subsection \<open>Growing\<close>

lemma only_in_mono: "only_in P k k' \<Longrightarrow> P \<subseteq> Q \<Longrightarrow> only_in Q k k'"
  by (auto simp: only_in_def)

lemma uread_kept:
  assumes vm: "vm_space kend k ps d" and oi: "only_in (set ps \<union> insert d (tabs k d)) k k'"
    and va: "va < KERNBASE" "present (pte_of k d va)" and p: "upage k' d va = upage k d va"
  shows "uread k' d va = uread k d va"
proof -
  note S = vm_spaceD [OF vm]
  have al: "q mod 4096 = 0" if "q \<in> set ps \<union> insert d (tabs k d)" for q
    using that vm_pages_aligned [OF vm, of q] free_set_aligned [OF vm_tablesD(1) [OF S(2)], of q] by (auto simp: vm_pages_def)
  have "kmem_mem k' x = kmem_mem k x" if "in_page (upage k d va) x" for x
    by (rule only_in_page [OF oi al _ _ that]) (use S(3-5) [OF va] in \<open>auto simp: page_ok_def\<close>)
  then show ?thesis unfolding uread_def p by (simp add: page_byte)
qed

lemma zero_page_read:
  assumes "zero_page k d va"
  shows "user_mapped k d va" "uread k d va = 0"
proof -
  have "pte_of k d va = V2P (upage k d va) OR (PTE_W OR PTE_U) OR PTE_P" using assms by (simp add: zero_page_def)
  then show "user_mapped k d va" using zero_present [OF assms] by (simp add: user_mapped_def bit.conj_disj_distrib2 or_eq_0_iff)
  show "uread k d va = 0" using assms by (simp add: zero_page_def uread_def)
qed

lemma image_alloc:
  assumes im: "uimage kend S k0 d (npages usz) k ps" and usz: "usz \<le> KERNBASE"
  shows "\<exists>r k' qs. allocuvm kend d usz newsz k = Inr (r, k') \<and>
     (r = 0 \<and> uimage kend S k0 d (npages usz) k' qs \<and> (KERNBASE \<le> newsz \<or> newsz = 0 \<or> card (set ps) \<le> 1024 + (npages newsz - npages usz)) \<or>
      r \<noteq> 0 \<and> r = max usz newsz \<and> newsz < KERNBASE \<and> uimage kend S k0 d (npages r) k' qs \<and>
      (\<forall>va. if npages usz \<le> vpn va \<and> vpn va < npages r then user_mapped k' d va \<and> uread k' d va = 0
            else pte_of k' d va = pte_of k d va \<and> (vpn va < npages usz \<longrightarrow> uread k' d va = uread k d va)))"
proof -
  consider (high) "KERNBASE \<le> newsz" | (low) "newsz < KERNBASE" "newsz < usz" | (grow) "newsz < KERNBASE" "usz \<le> newsz" by fastforce
  then show ?thesis
  proof cases
    case high
    then show ?thesis using im by (intro exI [of _ 0] exI [of _ k] exI [of _ ps]) (simp add: allocuvm_def)
  next
    case low
    then have "allocuvm kend d usz newsz k = Inr (usz, k)" "max usz newsz = usz" "usz \<noteq> 0" by (auto simp: allocuvm_def not_le)
    then show ?thesis using im low(1) by (intro exI [of _ usz] exI [of _ k] exI [of _ ps]) auto
  next
    case grow
    note I = imageD [OF im]
    have w: "unat usz + 4095 < 2 ^ 32" "unat newsz + 4095 < 2 ^ 32" using usz grow(1) by (simp_all add: word_le_nat_alt word_less_nat_alt KERNBASE_def)
    note R = PGROUNDUP_vpn [OF w(1), folded npages_def] PGROUNDUP_vpn [OF w(2), folded npages_def]
    have le: "npages usz \<le> npages newsz" "npages newsz \<le> 2 ^ 19" using npages_mono [OF grow(2)] npages_le [of newsz] grow(1) by simp_all
    have ab: "\<not> present (pte_of k d va)" if "PGROUNDUP usz \<le> va" "va < KERNBASE" for va using I(5) [OF that(2)] that(1) R(2) [of va] by simp
    obtain r k' qs where *: "allocuvm kend d usz newsz k = Inr (r, k')" "vm_space kend k' qs d"
       "set qs \<union> vm_pages k' d = set ps \<union> vm_pages k d" "only_in (set ps \<union> insert d (tabs k d)) k k'"
       "r = newsz \<and> (\<forall>va. if npages usz \<le> vpn va \<and> vpn va < npages newsz then zero_page k' d va else pte_of k' d va = pte_of k d va) \<or>
        r = 0 \<and> card (set ps) \<le> 1024 + (npages newsz - npages usz) \<and>
        (\<forall>va. if present (pte_of k d va) then pte_of k' d va = pte_of k d va else \<not> present (pte_of k' d va))"
      using allocuvm_spec [OF I(1) grow ab] unfolding npages_def [symmetric] R(2,6) by blast
    have oi: "only_in S k0 k'" by (rule only_in_trans [OF I(3) *(4)]) (use I(2) in \<open>auto simp: vm_pages_def\<close>)
    have pg: "set qs \<union> vm_pages k' d = S" using *(3) I(2) by simp
    from *(5) show ?thesis
    proof (elim disjE conjE)
      assume r: "r = newsz" and z: "\<forall>va. if npages usz \<le> vpn va \<and> vpn va < npages newsz then zero_page k' d va else pte_of k' d va = pte_of k d va"
      have z1: "zero_page k' d va" if "npages usz \<le> vpn va" "vpn va < npages newsz" for va using z that by simp
      have z2: "pte_of k' d va = pte_of k d va" if "vpn va < npages usz \<or> npages newsz \<le> vpn va" for va using z that by (metis leD)
      have "uimage kend S k0 d (npages newsz) k' qs"
      proof (rule imageI [OF *(2) pg oi le(2)])
        show "present (pte_of k' d va) \<longleftrightarrow> vpn va < npages newsz" if "va < KERNBASE" for va
          using z1 [of va, THEN zero_present] z2 [of va] I(5) [OF that] le(1)
          by (cases "npages usz \<le> vpn va"; cases "npages newsz \<le> vpn va") (auto simp: not_le)
        show "\<not> user_mapped k' d va" if "KERNBASE \<le> va" for va
          using z2 [of va] I(6) [OF that] below_kernel [of va] that le(2) by (auto simp: user_mapped_def not_less)
      qed
      moreover have "uread k' d va = uread k d va" if "vpn va < npages usz" for va
        by (rule uread_kept [OF I(1) *(4) image_present [OF im that]]) (use that z2 [of va] in \<open>simp add: upage_def\<close>)
      moreover have "max usz newsz = newsz" using grow(2) by (rule max_absorb2)
      ultimately have A: "r = max usz newsz" "uimage kend S k0 d (npages r) k' qs"
        "\<forall>va. if npages usz \<le> vpn va \<and> vpn va < npages r then user_mapped k' d va \<and> uread k' d va = 0
            else pte_of k' d va = pte_of k d va \<and> (vpn va < npages usz \<longrightarrow> uread k' d va = uread k d va)"
        using r z1 [THEN zero_page_read(1)] z1 [THEN zero_page_read(2)] z2 by (simp_all add: not_le not_less)
      show ?thesis
      proof (cases "r = 0")
        case True
        then have "usz = 0" using r grow(2) by simp
        then show ?thesis using *(1) A(2) True r by auto
      next
        case False
        then show ?thesis using *(1) A grow(1) by blast
      qed
    next
      assume r: "r = 0" "card (set ps) \<le> 1024 + (npages newsz - npages usz)"
        and z: "\<forall>va. if present (pte_of k d va) then pte_of k' d va = pte_of k d va else \<not> present (pte_of k' d va)"
      have "uimage kend S k0 d (npages usz) k' qs"
        by (rule imageI [OF *(2) pg oi I(4)]) (use z I(5,6) in \<open>auto simp: user_mapped_def split: if_splits\<close>, metis+)
      then show ?thesis using *(1) r by blast
    qed
  qed
qed

subsection \<open>Writing\<close>

lemma only_in_user:
  assumes vm: "vm_space kend k ps d" and oi: "only_in (upages k d) k k'"
  shows "pte_of k' d va = pte_of k d va" "vm_pages k' d = vm_pages k d"
proof -
  note S = vm_spaceD [OF vm]
  have "\<forall>x. in_vm k d x \<longrightarrow> kmem_mem k' x = kmem_mem k x"
  proof (intro allI impI)
    fix x
    assume "in_vm k d x"
    then obtain q where q: "q \<in> insert d (tabs k d)" "in_page q x" by (auto simp: in_vm_tabs)
    have "q \<notin> upages k d" using S(5) q(1) by (auto simp: upages_def)
    moreover have "r mod 4096 = 0" if "r \<in> vm_pages k d" for r by (rule vm_pages_aligned [OF vm that])
    ultimately show "kmem_mem k' x = kmem_mem k x" by (intro only_in_page [OF oi _ _ _ q(2)]) (use q(1) in \<open>auto simp: vm_pages_def\<close>)
  qed
  note C = tables_cong [OF S(2) this]
  show "pte_of k' d va = pte_of k d va" by (rule C)
  show "vm_pages k' d = vm_pages k d" by (simp only: vm_pages_def C(3,6))
qed

lemma image_user_write:
  assumes im: "uimage kend S k0 d n k ps" and vm: "vm_space kend k' ps d" and oi: "only_in (upages k d) k k'"
  shows "uimage kend S k0 d n k' ps" "pte_of k' d va = pte_of k d va"
proof -
  note I = imageD [OF im] and U = only_in_user [OF imageD(1) [OF im] oi]
  show "pte_of k' d va = pte_of k d va" by (rule U)
  have "only_in S k0 k'" by (rule only_in_trans [OF I(3) oi]) (use I(2) in \<open>auto simp: vm_pages_def\<close>)
  then show "uimage kend S k0 d n k' ps" using I(2,4-6) U by (intro imageI [OF vm]) (auto simp: user_mapped_def)
qed

lemma uva2ka_not_user:
  assumes vm: "vm_space kend k ps d" and "\<not> user_mapped k d va"
  shows "uva2ka d (PGROUNDDOWN va) k = Inl Bounds \<or> uva2ka d (PGROUNDDOWN va) k = Inr 0"
proof -
  let ?v = "PGROUNDDOWN va"
  have v: "pte_of k d ?v = pte_of k d va" by (rule vpn_pte) (rule vpn_PGROUNDDOWN)
  show ?thesis
  proof (cases "present (entry k d (PDX ?v))")
    case True
    have "ptab k d (PDX ?v) + 4 * PTX ?v \<noteq> 0"
      by (rule pte_nonzero [OF vm_tablesD(5) [OF vm_spaceD(2) [OF vm] PDX_bound True] PTX_bound])
    moreover have "kload k (ptab k d (PDX ?v) + 4 * PTX ?v) = pte_of k d ?v" using True by (simp add: pte_of_def entry_def)
    ultimately show ?thesis using assms(2) v unfolding uva2ka_def walk_present [OF True] user_mapped_def by auto
  next
    case False
    then show ?thesis using walk_absent [OF False] by (simp add: uva2ka_def)
  qed
qed

lemma copyout_any:
  assumes "uimage kend S k0 d n k ps"
  shows "copyout d va buf k = Inl Bounds \<or>
    (\<exists>r k'. copyout d va buf k = Inr (r, k') \<and> uimage kend S k0 d n k' ps \<and> (\<forall>x. pte_of k' d x = pte_of k d x))"
  using assms
proof (induction "length buf" arbitrary: va buf k rule: less_induct)
  case less
  note I = imageD [OF less.prems]
  show ?case
  proof (cases "buf = [] \<or> \<not> user_mapped k d va")
    case True
    then have "copyout d va buf k = Inl Bounds \<or> (\<exists>r. copyout d va buf k = Inr (r, k))"
      using uva2ka_not_user [OF I(1), of va] by (subst (1 2) copyout.simps) (auto simp: Let_def)
    then show ?thesis using less.prems by blast
  next
    case False
    then have um: "user_mapped k d va" "buf \<noteq> []" "va < KERNBASE" using I(6) [of va] not_le [of KERNBASE va] by auto
    define m where "m = min (4096 - unat va mod 4096) (length buf)"
    let ?k = "kput (upage k d va + of_nat (unat va mod 4096)) (take m buf) k"
    have m: "0 < m" "m \<le> 4096 - unat va mod 4096" using um(2) by (auto simp: m_def)
    have pr: "present (pte_of k d va)" using um(1) by (simp add: user_mapped_def)
    have fit: "unat va mod 4096 + length (take m buf) \<le> 4096" using m by simp
    note U = user_write [OF I(1) um(3) pr refl fit] and J = image_user_write [OF less.prems]
    have "length (drop m buf) < length buf" using m(1) um(2) by simp
    from less.hyps [OF this J(1) [OF U(1,4)], of "PGROUNDDOWN va + 4096"] show ?thesis
      unfolding copyout_step [OF I(1) um(1,3,2) m_def] U(2) .
  qed
qed

lemma copyout_kept:
  assumes "uimage kend S k0 d n k ps" "copyout d va buf k = Inr (r, k')"
  shows "uimage kend S k0 d n k' ps" "pte_of k' d x = pte_of k d x"
  using copyout_any [OF assms(1), of va buf] assms(2) by auto

lemma pte_clear:
  "PTE_ADDR (e AND NOT PTE_U) = PTE_ADDR e" "present (e AND NOT PTE_U) \<longleftrightarrow> present e" "(e AND NOT PTE_U) AND PTE_U = 0"
  by (simp_all add: PTE_ADDR_def and.assoc)

lemma image_clear:
  assumes im: "uimage kend S k0 d n k ps" and va: "vpn va < n"
  shows "\<exists>k'. clearpteu d va k = Inr k' \<and> uimage kend S k0 d n k' ps \<and>
    (\<forall>vb. pte_of k' d vb = (if vpn vb = vpn va then pte_of k d va AND NOT PTE_U else pte_of k d vb)) \<and>
    (\<forall>vb. vpn vb < n \<longrightarrow> uread k' d vb = uread k d vb)"
proof -
  note I = imageD [OF im] and P = image_present [OF im va]
  note W = walk_entry [OF vm_spaceD(2) [OF I(1)] P(2)]
  define w where "w = pte_of k d va AND NOT PTE_U"
  note w = pte_clear [of "pte_of k d va", folded w_def]
  define k' where "k' = kstore (ptab k d (PDX va) + 4 * PTX va) w k"
  have c: "clearpteu d va k = Inr k'" using W(1) [of False] W(2,3) by (simp add: clearpteu_def k'_def w_def)
  note E = set_pte [OF vm_spaceD(2) [OF I(1)] W(4) k'_def]
  have pt: "pte_of k' d vb = (if vpn vb = vpn va then w else pte_of k d vb)" for vb using E(4) by (simp add: vpn_def)
  have tb: "tabs k' d = tabs k d" by (rule E)
  have pr: "present (pte_of k' d vb) \<longleftrightarrow> present (pte_of k d vb)" for vb
    using pt [of vb] vpn_pte [of vb va k d] w(2) by (cases "vpn vb = vpn va") auto
  have up: "upage k' d vb = upage k d vb" for vb using pt [of vb] vpn_pte [of vb va k d] by (simp add: upage_def w)
  have oi: "only_in (insert d (tabs k d)) k k'" using vm_grow_only_in [OF E(2)] unfolding tb .
  have vm: "vm_space kend k' ps d"
    by (rule vm_spaceI [OF vm_spaceD(1) [OF I(1)] E(1)]) (use vm_spaceD(3-6) [OF I(1)] in \<open>simp_all only: pr up tb, blast+\<close>)
  have "uimage kend S k0 d n k' ps"
  proof (rule imageI [OF vm _ _ I(4)])
    show "set ps \<union> vm_pages k' d = S" using I(2) by (simp add: vm_pages_def upages_def tb pr up)
    show "only_in S k0 k'" by (rule only_in_trans [OF I(3) oi]) (use I(2) in \<open>auto simp: vm_pages_def\<close>)
    show "present (pte_of k' d vb) \<longleftrightarrow> vpn vb < n" if "vb < KERNBASE" for vb using I(5) [OF that] pr by simp
    show "\<not> user_mapped k' d vb" if "KERNBASE \<le> vb" for vb
      using I(6) [OF that] pr [of vb] pt [of vb] vpn_pte [of vb va k d] by (auto simp: user_mapped_def w)
  qed
  moreover have "uread k' d vb = uread k d vb" if "vpn vb < n" for vb
    by (rule uread_kept [OF I(1) only_in_mono [OF oi] image_present [OF im that] up]) blast
  ultimately show ?thesis using c pt unfolding w_def by blast
qed

end
