(* ===== verification/ExecLoad.thy ===== *)
theory ExecLoad
  imports ExecImage
begin

text \<open>
  Reading a program into its address space: whatever the file contains, the loop over the program headers keeps
  the address space well formed, so that it can be freed.
\<close>

subsection \<open>Lengths of reads\<close>

text \<open>What loading relies on: a driver does not deliver more bytes than it is asked for.\<close>

definition devsw_ok :: "devsw \<Rightarrow> bool" where
  "devsw_ok devsw \<longleftrightarrow> (\<forall>m rd i n s r bs s'. devsw m = Some rd \<longrightarrow> rd i n s = Inr (r, bs, s') \<longrightarrow> length bs \<le> unat n)"

lemma readi_loop_length:
  "readi_loop i off n dst s = Inr (dst', s') \<Longrightarrow> length dst' \<le> length dst + n"
proof (induction i off n dst s rule: readi_loop.induct)
  case (1 i off n dst s)
  show ?case
  proof (cases "n = 0")
    case True
    then show ?thesis using 1(2) by (subst (asm) readi_loop.simps) simp
  next
    case False
    let ?m = "min n (BSIZE - off mod BSIZE)"
    obtain a s1 where b: "bmap i (off div BSIZE) s = Inr (a, s1)"
      "readi_loop i (off + ?m) (n - ?m) (dst @ slice (off mod BSIZE) ?m (blk s1 a)) s1 = Inr (dst', s')"
      using 1(2) False by (subst (asm) readi_loop.simps) (auto simp: Let_def bindR_eq_Inr)
    have "length dst' \<le> length (dst @ slice (off mod BSIZE) ?m (blk s1 a)) + (n - ?m)"
      using 1(1) [OF False _ refl refl] b by blast
    moreover have "length (slice (off mod BSIZE) ?m (blk s1 a)) \<le> ?m" unfolding slice_def length_take by (rule min.cobounded2)
    moreover have "?m \<le> n" by simp
    ultimately show ?thesis unfolding length_append by linarith
  qed
qed

lemma readi_length:
  assumes "devsw_ok devsw" "readi devsw i off n s = Inr (r, bs, s')"
  shows "length bs \<le> unat n"
proof (cases "i_type (icache s ! i) = T_DEV")
  case True
  then show ?thesis using assms unfolding devsw_ok_def by (auto simp: readi_def Let_def split: if_splits option.splits) blast
next
  case False
  let ?ip = "icache s ! i"
  define n' where "n' = (if i_size ?ip < off + n then i_size ?ip - off else n)"
  have "bs = [] \<or> \<not> (i_size ?ip < off \<or> off + n < off) \<and> readi_loop i (unat off) (unat n') [] s = Inr (bs, s')"
    using assms(2) False by (auto simp: readi_def n'_def Let_def bindR_eq_Inr split: if_splits)
  moreover have "unat n' \<le> unat n" if "\<not> (i_size ?ip < off \<or> off + n < off)"
  proof (cases "i_size ?ip < off + n")
    case True
    have "off \<le> i_size ?ip" "off \<le> off + n" using that by (simp_all add: not_less)
    then have "unat (i_size ?ip - off) = unat (i_size ?ip) - unat off" "unat n = unat (off + n) - unat off"
      using unat_sub [of off "off + n"] by (simp_all add: unat_sub)
    then show ?thesis using True unfolding n'_def by (simp add: word_less_nat_alt)
  qed (simp add: n'_def)
  ultimately show ?thesis using readi_loop_length [of i "unat off" "unat n'" "[]" s bs s'] by auto
qed

subsection \<open>One segment\<close>

lemma load_step:
  assumes im: "uimage kend S k0 d n k ps" and fit: "unat addr + usz \<le> 4096 * n" "i < usz"
    and va: "va = addr + of_nat i" and m: "m = min (usz - i) 4096"
  shows "unat va = unat addr + i" "vpn va < n"
    "loaduvm_loop devsw d addr ip offset usz i (k, fs) =
     bindR (readi devsw ip (offset + of_nat i) (of_nat m) fs) (\<lambda>(r, bs, fs).
       if r \<noteq> int m then Inr (-1, kput (upage k d va) bs k, fs)
       else loaduvm_loop devsw d addr ip offset usz (i + 4096) (kput (upage k d va) bs k, fs))"
proof -
  have lim: "unat addr + i < 4096 * n" "4096 * n \<le> 2 ^ 31" using fit imageD(4) [OF im] by simp_all
  then have "unat (of_nat i :: u32) = i" by (intro unat_of_nat_id) simp
  then show u: "unat va = unat addr + i" unfolding va using lim by (subst unat_add_no_wrap) simp_all
  show vn: "vpn va < n" using u lim by (simp add: vpn_def less_mult_imp_div_less mult.commute)
  note P = image_present [OF im vn]
  note W = walk_entry [OF vm_spaceD(2) [OF imageD(1) [OF im]] P(2)]
  have "(if usz - i < 4096 then usz - i else 4096) = m" unfolding m by simp
  then show "loaduvm_loop devsw d addr ip offset usz i (k, fs) =
     bindR (readi devsw ip (offset + of_nat i) (of_nat m) fs) (\<lambda>(r, bs, fs).
       if r \<noteq> int m then Inr (-1, kput (upage k d va) bs k, fs)
       else loaduvm_loop devsw d addr ip offset usz (i + 4096) (kput (upage k d va) bs k, fs))"
    using fit(2) W(1) [of False] W(2,3) by (subst loaduvm_loop.simps) (simp add: Let_def upage_def flip: va cong: if_cong)
qed

lemma load_write:
  assumes im: "uimage kend S k0 d n k ps" and va: "vpn va < n" and bs: "length bs \<le> 4096"
  shows "uimage kend S k0 d n (kput (upage k d va) bs k) ps" "pte_of (kput (upage k d va) bs k) d vb = pte_of k d vb"
    "vpn vb < n \<Longrightarrow> uread (kput (upage k d va) bs k) d vb =
       (if vpn vb = vpn va \<and> unat vb mod 4096 < length bs then bs ! (unat vb mod 4096) else uread k d vb)"
proof -
  have k': "kput (upage k d va) bs k = kput (upage k d va + of_nat 0) bs k" "0 + length bs \<le> 4096" using bs by simp_all
  note U = user_write [OF imageD(1) [OF im] image_present [OF im va] k']
  note J = image_user_write [OF im U(1,4)]
  show "uimage kend S k0 d n (kput (upage k d va) bs k) ps" "pte_of (kput (upage k d va) bs k) d vb = pte_of k d vb" by (rule J)+
  show "uread (kput (upage k d va) bs k) d vb =
       (if vpn vb = vpn va \<and> unat vb mod 4096 < length bs then bs ! (unat vb mod 4096) else uread k d vb)" if "vpn vb < n"
    using U(5) [OF image_present [OF im that]] by simp
qed

lemma loaduvm_any:
  assumes "uimage kend S k0 d n k ps" "unat addr + usz \<le> 4096 * n" "devsw_ok devsw"
    "loaduvm_loop devsw d addr ip offset usz i (k, fs) = Inr (r, k', fs')"
  shows "uimage kend S k0 d n k' ps" "pte_of k' d va = pte_of k d va"
proof -
  have "uimage kend S k0 d n k' ps \<and> (\<forall>va. pte_of k' d va = pte_of k d va)" using assms(1,2,4)
  proof (induction "usz - i" arbitrary: i k fs rule: less_induct)
    case less
    show ?case
    proof (cases "i < usz")
      case False
      then show ?thesis using less.prems by (subst (asm) loaduvm_loop.simps) simp
    next
      case True
      let ?va = "addr + of_nat i" and ?m = "min (usz - i) 4096"
      note L = load_step [OF less.prems(1,2) True refl refl]
      obtain r1 bs fs1 where rd: "readi devsw ip (offset + of_nat i) (of_nat ?m) fs = Inr (r1, bs, fs1)"
        "(if r1 \<noteq> int ?m then Inr (-1, kput (upage k d ?va) bs k, fs1)
          else loaduvm_loop devsw d addr ip offset usz (i + 4096) (kput (upage k d ?va) bs k, fs1)) = Inr (r, k', fs')"
        using less.prems(3) unfolding L(3) by (auto simp: bindR_eq_Inr)
      have "unat (of_nat ?m :: u32) \<le> 4096" using unat_of_nat_id [of ?m, where 'a = 32] by simp
      then have "length bs \<le> 4096" using readi_length [OF assms(3) rd(1)] by simp
      note W = load_write [OF less.prems(1) L(2) this]
      show ?thesis
      proof (cases "r1 \<noteq> int ?m")
        case True
        then show ?thesis using rd(2) W by auto
      next
        case False
        then have "uimage kend S k0 d n k' ps \<and> (\<forall>va. pte_of k' d va = pte_of (kput (upage k d ?va) bs k) d va)"
          using less.hyps [OF _ W(1) less.prems(2), of "i + 4096" fs1] rd(2) True by simp
        then show ?thesis using W(2) by simp
      qed
    qed
  qed
  then show "uimage kend S k0 d n k' ps" "pte_of k' d va = pte_of k d va" by blast+
qed

subsection \<open>All segments\<close>

lemma npages_bound: "unat usz \<le> 4096 * npages usz"
  unfolding npages_def using div_mult_mod_eq [of "unat usz + 4095" 4096] mod_less_divisor [of 4096 "unat usz + 4095"] by simp

lemma segment_fits:
  assumes "\<not> ph_memsz ph < ph_filesz ph" "\<not> ph_vaddr ph + ph_memsz ph < ph_vaddr ph"
  shows "unat (ph_vaddr ph) + unat (ph_filesz ph) \<le> unat (ph_vaddr ph + ph_memsz ph)"
proof -
  have "ph_vaddr ph \<le> ph_vaddr ph + ph_memsz ph" "ph_filesz ph \<le> ph_memsz ph" using assms by (simp_all add: not_less)
  then show ?thesis using unat_sub [of "ph_vaddr ph" "ph_vaddr ph + ph_memsz ph"] by (simp add: word_le_nat_alt)
qed

lemma exec_load_any:
  assumes "uimage kend S k0 d (npages usz) k ps" "usz < KERNBASE" "devsw_ok devsw"
    "exec_load kend devsw d ip n off usz (k, fs) = Inr (r, k', fs')"
  shows "\<exists>m qs. uimage kend S k0 d m k' qs \<and> (\<forall>u. r = Some u \<longrightarrow> u < KERNBASE \<and> m = npages u)"
  using assms(1,2,4)
proof (induction n arbitrary: off usz k ps fs)
  case 0
  then show ?case by auto
next
  case (Suc n)
  obtain r1 b fs1 where rd: "readi devsw ip off 32 fs = Inr (r1, b, fs1)" using Suc.prems(3) by (auto simp: bindR_eq_Inr)
  define ph where "ph = proghdr_of b"
  let ?new = "ph_vaddr ph + ph_memsz ph"
  note E = Suc.prems(3) [simplified rd exec_load.simps prod.case bindR_Inr Let_def, folded ph_def]
  consider (stop) "r = None" "k' = k" | (skip) "exec_load kend devsw d ip n (off + 32) usz (k, fs1) = Inr (r, k', fs')"
    | (load) "\<not> ph_memsz ph < ph_filesz ph" "\<not> ?new < ph_vaddr ph"
      "bindR (allocuvm kend d usz ?new k) (\<lambda>(usz, k).
              if usz = 0 then Inr (None, k, fs1)
              else if ph_vaddr ph mod 4096 \<noteq> 0 then Inr (None, k, fs1)
              else
                bindR (loaduvm devsw d (ph_vaddr ph) ip (ph_off ph) (ph_filesz ph) (k, fs1)) (\<lambda>(r, k, fs).
                  if r < 0 then Inr (None, k, fs)
                  else exec_load kend devsw d ip n (off + 32) usz (k, fs))) = Inr (r, k', fs')"
    using E by (auto split: if_splits)
  then show ?case
  proof cases
    case stop
    then show ?thesis using Suc.prems(1) by auto
  next
    case skip
    then show ?thesis by (rule Suc.IH [OF Suc.prems(1,2)])
  next
    case load
    obtain u k1 qs where a: "allocuvm kend d usz ?new k = Inr (u, k1)"
      "u = 0 \<and> uimage kend S k0 d (npages usz) k1 qs \<or> u \<noteq> 0 \<and> u = max usz ?new \<and> ?new < KERNBASE \<and> uimage kend S k0 d (npages u) k1 qs"
      using image_alloc [OF Suc.prems(1) less_imp_le [OF Suc.prems(2)], of ?new] by blast
    show ?thesis
    proof (cases "u = 0 \<or> ph_vaddr ph mod 4096 \<noteq> 0")
      case True
      then have "r = None" "k' = k1" using load(3) a(1) by (auto split: if_splits)
      then show ?thesis using a(2) by auto
    next
      case False
      then have u: "u = max usz ?new" "u < KERNBASE" "uimage kend S k0 d (npages u) k1 qs" using a(2) Suc.prems(2) by (auto simp: max_def)
      obtain r2 k2 fs2 where l: "loaduvm devsw d (ph_vaddr ph) ip (ph_off ph) (ph_filesz ph) (k1, fs1) = Inr (r2, k2, fs2)"
        "(if r2 < 0 then Inr (None, k2, fs2) else exec_load kend devsw d ip n (off + 32) u (k2, fs2)) = Inr (r, k', fs')"
        using load(3) a(1) False by (auto simp: bindR_eq_Inr)
      have "?new \<le> u" unfolding u(1) by simp
      then have "unat (ph_vaddr ph) + unat (ph_filesz ph) \<le> 4096 * npages u"
        using segment_fits [OF load(1,2)] npages_bound [of u] by (simp add: word_le_nat_alt)
      moreover have "loaduvm_loop devsw d (ph_vaddr ph) ip (ph_off ph) (unat (ph_filesz ph)) 0 (k1, fs1) = Inr (r2, k2, fs2)"
        using l(1) False by (simp add: loaduvm_def)
      ultimately have "uimage kend S k0 d (npages u) k2 qs" by (rule loaduvm_any(1) [OF u(3) _ assms(3)])
      then show ?thesis using l(2) Suc.IH [OF _ u(2)] by (cases "r2 < 0") auto
    qed
  qed
qed

end
