(* ===== verification/ExecStack.thy ===== *)
theory ExecStack
  imports ExecLoad
begin

text \<open>
  The stack of a new program, and the two ends of exec: giving up the new address space, or the old one.
\<close>

subsection \<open>Any arguments\<close>

lemma exec_args_step:
  assumes "exec_args d sp ptrs (arg # argv) k = Inr (r, k')" "length ptrs < MAXARG" "sp' = (sp - of_nat (length arg + 1)) AND NOT 3"
  shows "\<exists>r1 k1. copyout d sp' (arg @ [0]) k = Inr (r1, k1) \<and>
    (if r1 < 0 then Inr (None, k1) else exec_args d sp' (ptrs @ [sp']) argv k1) = Inr (r, k')"
  using assms(1,2) unfolding exec_args.simps Let_def assms(3) [symmetric] by (simp add: bindR_eq_Inr split_paired_Ex)

lemma exec_args_any:
  assumes "uimage kend S k0 d n k ps" "exec_args d sp ptrs argv k = Inr (r, k')"
  shows "uimage kend S k0 d n k' ps" "pte_of k' d va = pte_of k d va"
proof -
  have "uimage kend S k0 d n k' ps \<and> (\<forall>va. pte_of k' d va = pte_of k d va)" using assms
  proof (induction argv arbitrary: sp ptrs k)
    case Nil
    then show ?case by simp
  next
    case (Cons arg argv)
    let ?sp = "(sp - of_nat (length arg + 1)) AND NOT 3"
    show ?case
    proof (cases "length ptrs \<ge> MAXARG")
      case True
      then show ?thesis using Cons.prems by simp
    next
      case False
      then obtain r1 k1 where c: "copyout d ?sp (arg @ [0]) k = Inr (r1, k1)"
        "(if r1 < 0 then Inr (None, k1) else exec_args d ?sp (ptrs @ [?sp]) argv k1) = Inr (r, k')"
        using exec_args_step [OF Cons.prems(2) _ refl] by (metis not_le)
      note i = copyout_kept [OF Cons.prems(1) c(1)]
      show ?thesis
      proof (cases "r1 < 0")
        case True
        then show ?thesis using c(2) i by simp
      next
        case False
        then show ?thesis using Cons.IH [OF i(1)] c(2) i(2) by simp
      qed
    qed
  qed
  then show "uimage kend S k0 d n k' ps" "pte_of k' d va = pte_of k d va" by blast+
qed

lemma stack_pages:
  assumes "usz < KERNBASE" "newsz = PGROUNDUP usz + 2 * 4096"
  shows "PGROUNDUP usz \<le> newsz" "newsz < KERNBASE \<Longrightarrow> npages newsz = npages usz + 2" "newsz \<noteq> 0"
    "newsz < KERNBASE \<Longrightarrow> unat newsz = 4096 * (npages usz + 2)" "newsz < KERNBASE \<Longrightarrow> vpn (newsz - 2 * 4096) = npages usz"
    "newsz < KERNBASE \<longleftrightarrow> npages usz + 2 < 2 ^ 19"
proof -
  have le: "usz \<le> KERNBASE" using assms(1) by simp
  note R = npages_PGROUNDUP [OF le]
  have "unat (PGROUNDUP usz) + 8192 < 2 ^ 32" using R(1) by (simp add: word_le_nat_alt KERNBASE_def)
  then have u: "unat newsz = unat (PGROUNDUP usz) + 8192" unfolding assms(2) by (subst unat_add_no_wrap) simp_all
  then show "PGROUNDUP usz \<le> newsz" "newsz \<noteq> 0" by (auto simp: word_le_nat_alt)
  show "newsz < KERNBASE \<longleftrightarrow> npages usz + 2 < 2 ^ 19" unfolding word_less_nat_alt u R(3) by (simp add: KERNBASE_def)
  show "npages newsz = npages usz + 2" unfolding npages_def [of newsz] u R(3) by simp
  show "unat newsz = 4096 * (npages usz + 2)" unfolding u R(3) by simp
  have "newsz - 2 * 4096 = PGROUNDUP usz" unfolding assms(2) by simp
  then show "vpn (newsz - 2 * 4096) = npages usz" using R(3) by (simp add: vpn_def)
qed

lemma exec_stack_any:
  assumes im: "uimage kend S k0 d (npages usz) k ps" and usz: "usz < KERNBASE" and e: "exec_stack kend d usz argv k = Inr (r, k')"
  shows "\<exists>n qs. uimage kend S k0 d n k' qs \<and>
    (\<forall>u sp. r = Some (u, sp) \<longrightarrow> u = PGROUNDUP usz + 2 * 4096 \<and> u < KERNBASE \<and> n = npages u \<and> (\<forall>va. vpn va = npages usz \<longrightarrow> \<not> user_mapped k' d va))"
proof -
  let ?new = "PGROUNDUP usz + 2 * 4096"
  note N = stack_pages [OF usz refl] and R = npages_PGROUNDUP [OF less_imp_le [OF usz]]
  have im0: "uimage kend S k0 d (npages (PGROUNDUP usz)) k ps" using im R(2) by simp
  obtain u k1 qs where a: "allocuvm kend d (PGROUNDUP usz) ?new k = Inr (u, k1)"
    "u = 0 \<and> uimage kend S k0 d (npages usz) k1 qs \<or>
     u \<noteq> 0 \<and> u = max (PGROUNDUP usz) ?new \<and> ?new < KERNBASE \<and> uimage kend S k0 d (npages u) k1 qs"
    using image_alloc [OF im0 R(1), of ?new] unfolding R(2) by blast
  note e' = e [unfolded exec_stack_def Let_def a(1), simplified]
  show ?thesis
  proof (cases "u = 0")
    case True
    then show ?thesis using e' a(2) by auto
  next
    case False
    then have u: "u = ?new" "?new < KERNBASE" "uimage kend S k0 d (npages u) k1 qs" using a(2) N(1) by (auto simp: max_absorb2)
    have vn: "vpn (u - 2 * 4096) < npages u" using N(2,5) [OF u(2)] u(1) by simp
    obtain k2 where c: "clearpteu d (u - 2 * 4096) k1 = Inr k2" "uimage kend S k0 d (npages u) k2 qs"
      "\<forall>vb. pte_of k2 d vb = (if vpn vb = vpn (u - 2 * 4096) then pte_of k1 d (u - 2 * 4096) AND NOT PTE_U else pte_of k1 d vb)"
      using image_clear [OF u(3) vn] by blast
    have guard: "\<not> user_mapped k2 d va" if "vpn va = npages usz" for va
    proof -
      have "pte_of k2 d va = pte_of k1 d (u - 2 * 4096) AND NOT PTE_U" using c(3) that N(5) [OF u(2)] u(1) by simp
      then show ?thesis using pte_clear(3) unfolding user_mapped_def by metis
    qed
    obtain r1 k3 where x: "exec_args d u [] argv k2 = Inr (r1, k3)"
      "(case r1 of None \<Rightarrow> Inr (None, k3) | Some (sp, ptrs) \<Rightarrow>
          bindR (copyout d (sp - of_nat (4 * (3 + length ptrs + 1))) (concat (map bytes32 (exec_ustack sp ptrs))) k3) (\<lambda>(r, k).
            Inr (if r < 0 then None else Some (u, sp - of_nat (4 * (3 + length ptrs + 1))), k))) = Inr (r, k')"
      using e False c(1) unfolding exec_stack_def Let_def a(1)
      by (auto simp: bindR_eq_Inr simp del: of_nat_add of_nat_Suc of_nat_mult)
    note A = exec_args_any [OF c(2) x(1)]
    show ?thesis
    proof (cases r1)
      case None
      then show ?thesis using x(2) A(1) by auto
    next
      case (Some q)
      obtain sp ptrs where q: "q = (sp, ptrs)" by (cases q)
      obtain r2 where o: "copyout d (sp - of_nat (4 * (3 + length ptrs + 1))) (concat (map bytes32 (exec_ustack sp ptrs))) k3 = Inr (r2, k')"
        "r = (if r2 < 0 then None else Some (u, sp - of_nat (4 * (3 + length ptrs + 1))))"
        using x(2) unfolding Some q by (auto simp: bindR_eq_Inr simp del: of_nat_add of_nat_Suc of_nat_mult)
      note B = copyout_kept [OF A(1) o(1)]
      have "\<not> user_mapped k' d va" if "vpn va = npages usz" for va using guard [OF that] B(2) A(2) by (simp add: user_mapped_def)
      then show ?thesis using B(1) u(1,2) o(2) by (auto split: if_splits)
    qed
  qed
qed

end
