(* ===== verification/ExecRun.thy ===== *)
theory ExecRun
  imports ExecStack
begin

text \<open>What exec does to the address spaces, whatever the file and the arguments are.\<close>

subsection \<open>Giving up the new address space\<close>

definition space_kept :: "u32 \<Rightarrow> u32 \<Rightarrow> u32 list \<Rightarrow> kmem \<Rightarrow> kmem \<Rightarrow> bool" where
  "space_kept kend d ps k k' \<longleftrightarrow> (\<exists>qs. vm_space kend k' qs d \<and> set qs = set ps) \<and>
     (\<forall>va. pte_of k' d va = pte_of k d va) \<and> (\<forall>va. va < KERNBASE \<and> present (pte_of k d va) \<longrightarrow> uread k' d va = uread k d va)"

lemma original_read:
  assumes vm: "vm_space kend k ps d" and m: "only_in (set ps) k k'" and fr: "free_pages kend k' qs" "set qs \<subseteq> set ps"
    and va: "va < KERNBASE" "present (pte_of k d va)"
  shows "uread k' d va = uread k d va"
proof -
  have "upage k d va \<in> vm_pages k d" using va by (auto simp: vm_pages_def upages_def)
  from original_kept(4) [OF vm m fr this page_byte] show ?thesis by (simp add: uread_def original_kept(3) [OF vm m fr])
qed

lemma space_kept_free:
  assumes "vm_space kend k ps d" "only_in (set ps) k k'" "free_pages kend k' qs" "set qs = set ps"
  shows "space_kept kend d ps k k'"
proof -
  have sub: "set qs \<subseteq> set ps" using assms(4) by simp
  show ?thesis unfolding space_kept_def
    using original_kept(1,2) [OF assms(1-3) sub] original_read [OF assms(1-3) sub] assms(4) by blast
qed

lemma space_kept_refl: "vm_space kend k ps d \<Longrightarrow> space_kept kend d ps k k"
  by (auto simp: space_kept_def)

lemma cleanup_image:
  assumes im: "uimage kend (set ps) k d n k1 qs" and old: "vm_space kend k ps od"
    and c: "cleanupexec kend pid d ip (k1, fs) = Inr (k', fs')"
  shows "space_kept kend od ps k k'"
proof -
  note I = imageD [OF im]
  have "d \<noteq> 0" by (rule page_ok_nonzero [OF vm_tablesD(2) [OF vm_spaceD(2) [OF I(1)]]])
  then have f: "freevm kend d k1 = Inr k'" using c by (auto simp: cleanupexec_def bindR_eq_Inr)
  obtain rs where r: "free_pages kend k' rs" "set rs = set ps" "only_in (set ps) k k'" using copy_fail [OF I(1,3,2)] f by auto
  show ?thesis by (rule space_kept_free [OF old r(3,1,2)])
qed

subsection \<open>Giving up the old one\<close>

lemma space_apart: "vm_space kend k ps d \<Longrightarrow> set ps \<inter> vm_pages k d = {}"
  using vm_tablesD(4) [OF vm_spaceD(2)] tabs_apart(2) [OF vm_spaceD(2)] vm_spaceD(4) unfolding vm_pages_def upages_def by blast

lemma free_other:
  assumes im: "uimage kend (set ps) k d n k1 qs" and old: "vm_space kend k ps od"
  shows "\<exists>k' rs. freevm kend od k1 = Inr k' \<and> vm_space kend k' rs d \<and> set rs \<union> vm_pages k' d = set ps \<union> vm_pages k od \<and>
    (\<forall>va. pte_of k' d va = pte_of k1 d va) \<and> (\<forall>va. va < KERNBASE \<and> present (pte_of k1 d va) \<longrightarrow> uread k' d va = uread k1 d va)"
proof -
  note I = imageD [OF im]
  have fr: "free_pages kend k1 qs" "set qs \<subseteq> set ps" using vm_tablesD(1) [OF vm_spaceD(2) [OF I(1)]] I(2) by auto
  note K = original_kept [OF old I(3) fr]
  have "\<forall>x. in_vm k od x \<longrightarrow> kmem_mem k1 x = kmem_mem k x"
  proof (intro allI impI)
    fix x
    assume "in_vm k od x"
    then obtain q where "q \<in> vm_pages k od" "in_page q x" using in_vm_pages by blast
    then show "kmem_mem k1 x = kmem_mem k x" by (rule K(4))
  qed
  note C = tables_cong [OF vm_spaceD(2) [OF old] this]
  have op: "vm_pages k1 od = vm_pages k od" by (simp only: vm_pages_def C(3,6))
  note apart = space_apart [OF old] space_apart [OF I(1)]
  obtain k' rs where f: "freevm kend od k1 = Inr k'" "free_pages kend k' rs" "set rs = set qs \<union> vm_pages k od" "only_in (vm_pages k od) k1 k'"
    using freevm_spec [OF K(1)] unfolding op by blast
  have mem: "kmem_mem k' x = kmem_mem k1 x" if "q \<in> vm_pages k1 d" "in_page q x" for q x
  proof (rule only_in_page [OF f(4) vm_pages_aligned [OF old] vm_pages_aligned [OF I(1) that(1)] _ that(2)])
    show "q \<notin> vm_pages k od" using that(1) I(2) apart by blast
  qed
  have mem': "\<forall>x. in_vm k1 d x \<longrightarrow> kmem_mem k' x = kmem_mem k1 x" using mem in_vm_pages by blast
  note D = tables_cong [OF vm_spaceD(2) [OF I(1)] mem']
  have "vm_space kend k' rs d" by (rule space_cong [OF I(1) mem' f(2)]) (use f(3) apart I(2) in blast)
  moreover have "vm_pages k' d = vm_pages k1 d" by (simp only: vm_pages_def D(3,6))
  then have "set rs \<union> vm_pages k' d = set ps \<union> vm_pages k od" using f(3) I(2) by blast
  moreover have "uread k' d va = uread k1 d va" if "va < KERNBASE" "present (pte_of k1 d va)" for va
  proof -
    have "upage k1 d va \<in> vm_pages k1 d" using that by (auto simp: vm_pages_def upages_def)
    from mem [OF this page_byte] show ?thesis by (simp add: uread_def D(5))
  qed
  ultimately show ?thesis using f(1) D(4) by blast
qed

subsection \<open>Outcomes\<close>

text \<open>The new address space of a process after exec.\<close>

definition fresh_space :: "u32 \<Rightarrow> u32 list \<Rightarrow> kmem \<Rightarrow> u32 \<Rightarrow> eproc \<Rightarrow> kmem \<Rightarrow> bool" where
  "fresh_space kend ps k od p k' \<longleftrightarrow>
     (\<exists>qs. vm_space kend k' qs (e_pgdir p) \<and> set qs \<union> vm_pages k' (e_pgdir p) = set ps \<union> vm_pages k od) \<and>
     e_sz p mod 4096 = 0 \<and> 0x2000 \<le> e_sz p \<and> e_sz p < KERNBASE \<and>
     (\<forall>va. va < KERNBASE \<longrightarrow> (present (pte_of k' (e_pgdir p) va) \<longleftrightarrow> va < e_sz p)) \<and>
     (\<forall>va. user_mapped k' (e_pgdir p) va \<longrightarrow> va < e_sz p \<and> \<not> (e_sz p - 0x2000 \<le> va \<and> va < e_sz p - 0x1000))"

lemma fresh_spaceI:
  assumes im: "uimage kend (set ps) k d (npages u) k1 qs" and old: "vm_space kend k ps od" and f: "freevm kend od k1 = Inr k'"
    and u: "u = PGROUNDUP usz + 2 * 4096" "usz < KERNBASE" "u < KERNBASE"
    and g: "\<And>va. vpn va = npages usz \<Longrightarrow> \<not> user_mapped k1 d va"
    and p: "e_pgdir p = d" "e_sz p = u"
  shows "fresh_space kend ps k od p k'"
proof -
  note N = stack_pages [OF u(2,1)] and I = imageD [OF im]
  note U = N(4) [OF u(3)]
  obtain rs where r: "vm_space kend k' rs d" "set rs \<union> vm_pages k' d = set ps \<union> vm_pages k od" "\<forall>va. pte_of k' d va = pte_of k1 d va"
    using free_other [OF im old] f by auto
  have lt: "va < u \<longleftrightarrow> vpn va < npages u" for va
    unfolding N(2) [OF u(3)] by (simp add: word_less_nat_alt U vpn_def div_less_iff_less_mult mult.commute)
  have pr: "present (pte_of k1 d va) \<longleftrightarrow> va < u" if "va < KERNBASE" for va using I(5) [OF that] lt by simp
  have guard: "vpn va = npages usz" if "u - 0x2000 \<le> va" "va < u - 0x1000" for va
  proof -
    have "unat (u - 0x2000) = 4096 * npages usz" "unat (u - 0x1000) = 4096 * npages usz + 4096"
      using U by (simp_all add: unat_sub word_le_nat_alt)
    then have "4096 * npages usz \<le> unat va" "unat va < 4096 * npages usz + 4096" using that by (simp_all add: word_le_nat_alt word_less_nat_alt)
    then show ?thesis unfolding vpn_def by (intro div_nat_eqI) simp_all
  qed
  have "va < u" if "user_mapped k1 d va" for va
    using that I(6) [of va] pr [of va] not_le [of KERNBASE va] by (auto simp: user_mapped_def)
  then have "va < u \<and> \<not> (u - 0x2000 \<le> va \<and> va < u - 0x1000)" if "user_mapped k' d va" for va
    using that g guard r(3) by (auto simp: user_mapped_def)
  moreover have "u mod 4096 = 0" "0x2000 \<le> u" using U unfolding unat_aligned by (simp_all add: word_le_nat_alt)
  ultimately show ?thesis unfolding fresh_space_def p using r u(3) pr by auto
qed

lemma exec_bad_image:
  assumes "exec_bad kend pid p d ip (k1, fs) = Inr (r, p', k', fs')" "uimage kend (set ps) k d n k1 qs" "vm_space kend k ps od"
  shows "r = -1 \<and> p' = p \<and> space_kept kend od ps k k'"
  using assms(1) cleanup_image [OF assms(2,3)] by (auto simp: exec_bad_def bindR_eq_Inr)

lemma exec_bad_none:
  assumes "exec_bad kend pid p 0 ip (k1, fs) = Inr (r, p', k', fs')"
  shows "r = -1 \<and> p' = p \<and> k' = k1"
  using assms by (auto simp: exec_bad_def bindR_eq_Inr cleanupexec_def)

lemma bindR_InrE: "bindR r f = Inr y \<Longrightarrow> (\<And>x. r = Inr x \<Longrightarrow> f x = Inr y \<Longrightarrow> thesis) \<Longrightarrow> thesis"
  by (auto simp: bindR_eq_Inr)

lemma exec_build_outcome:
  assumes old: "vm_space kend k ps (e_pgdir p)" and ok: "data_ok data" "devsw_ok devsw"
    and e: "exec_build kend data devsw pid ip path argv elf (p, k, fs) = Inr (r, p', k', fs')"
  shows "r = -1 \<and> p' = p \<and> space_kept kend (e_pgdir p) ps k k' \<or> r = 0 \<and> fresh_space kend ps k (e_pgdir p) p' k'"
proof -
  have fr: "free_pages kend k ps" "KERNBASE < kend" using vm_spaceD(1,2) [OF old] vm_tablesD(1) by auto
  obtain d k1 qs where s: "setupkvm kend data k = Inr (d, k1)"
     "d = 0 \<and> free_pages kend k1 qs \<and> set qs = set ps \<and> only_in (set ps) k k1 \<or> d \<noteq> 0 \<and> uimage kend (set ps) k d 0 k1 qs"
    using image_start [OF fr ok(1)] by blast
  show ?thesis
  proof (cases "d = 0")
    case True
    then have "r = -1 \<and> p' = p \<and> k' = k1" using e s(1) by (intro exec_bad_none) (simp add: exec_build_def)
    then show ?thesis using space_kept_free [OF old, of k1 qs] s(2) True by blast
  next
    case False
    then have i0: "uimage kend (set ps) k d (npages 0) k1 qs" using s(2) by (simp add: npages_def)
    obtain r1 k2 fs2 where l: "exec_load kend devsw d ip (unat (e_phnum elf)) (e_phoff elf) 0 (k1, fs) = Inr (r1, k2, fs2)"
      and e1: "(case r1 of None \<Rightarrow> exec_bad kend pid p d (Some ip) (k2, fs2)
            | Some usz \<Rightarrow>
                bindR (iunlockput pid ip fs2) (\<lambda>fs.
                bindR (exec_stack kend d usz argv k2) (\<lambda>(r, k).
                  case r of
                    None \<Rightarrow> exec_bad kend pid p d None (k, fs)
                  | Some (usz, sp) \<Rightarrow>
                      bindR (freevm kend (e_pgdir p) k) (\<lambda>k.
                        Inr (0, p\<lparr>e_name := exec_name path, e_pgdir := d, e_sz := usz, e_eip := e_entry elf, e_esp := sp\<rparr>, k, fs))))) = Inr (r, p', k', fs')"
      using e False s(1) unfolding exec_build_def Let_def prod.case by (auto elim!: bindR_InrE)
    obtain m rs where i1: "uimage kend (set ps) k d m k2 rs" "\<forall>u. r1 = Some u \<longrightarrow> u < KERNBASE \<and> m = npages u"
      using exec_load_any [OF i0 _ ok(2) l] by (auto simp: KERNBASE_def)
    show ?thesis
    proof (cases r1)
      case None
      then show ?thesis using exec_bad_image [OF _ i1(1) old] e1 by simp
    next
      case (Some usz)
      have u: "usz < KERNBASE" "uimage kend (set ps) k d (npages usz) k2 rs" using i1 Some by simp_all
      obtain fs3 r2 k3 where x: "iunlockput pid ip fs2 = Inr fs3" "exec_stack kend d usz argv k2 = Inr (r2, k3)"
        and e2: "(case r2 of None \<Rightarrow> exec_bad kend pid p d None (k3, fs3)
          | Some (usz, sp) \<Rightarrow> bindR (freevm kend (e_pgdir p) k3) (\<lambda>k.
               Inr (0, p\<lparr>e_name := exec_name path, e_pgdir := d, e_sz := usz, e_eip := e_entry elf, e_esp := sp\<rparr>, k, fs3))) = Inr (r, p', k', fs')"
        using e1 unfolding Some option.case by (auto elim!: bindR_InrE)
      obtain n ts where st: "uimage kend (set ps) k d n k3 ts"
        "\<forall>u sp. r2 = Some (u, sp) \<longrightarrow> u = PGROUNDUP usz + 2 * 4096 \<and> u < KERNBASE \<and> n = npages u \<and> (\<forall>va. vpn va = npages usz \<longrightarrow> \<not> user_mapped k3 d va)"
        using exec_stack_any [OF u(2,1) x(2)] by blast
      show ?thesis
      proof (cases r2)
        case None
        then show ?thesis using exec_bad_image [OF _ st(1) old] e2 by simp
      next
        case (Some q)
        obtain v sp where q: "r2 = Some (v, sp)" using Some by (cases q) simp
        have f: "freevm kend (e_pgdir p) k3 = Inr k'" "r = 0" "e_pgdir p' = d" "e_sz p' = v"
          using e2 unfolding q by (auto simp: bindR_eq_Inr)
        have st': "v = PGROUNDUP usz + 2 * 4096 \<and> v < KERNBASE \<and> n = npages v \<and> (\<forall>va. vpn va = npages usz \<longrightarrow> \<not> user_mapped k3 d va)"
          using st(2) q by blast
        then have v: "v = PGROUNDUP usz + 2 * 4096" "v < KERNBASE" "uimage kend (set ps) k d (npages v) k3 ts"
          and g: "\<And>va. vpn va = npages usz \<Longrightarrow> \<not> user_mapped k3 d va" using st(1) by (blast, blast, metis, blast)
        show ?thesis using fresh_spaceI [OF v(3) old f(1) v(1) u(1) v(2) g f(3,4)] f(2) by blast
      qed
    qed
  qed
qed

lemma exec_outcome:
  assumes old: "vm_space kend k ps (e_pgdir p)" and ok: "data_ok data" "devsw_ok devsw"
    and e: "exec kend data devsw pid cwd junk path argv (p, k, fs) = Inr (r, p', k', fs')"
  shows "r = -1 \<and> p' = p \<and> space_kept kend (e_pgdir p) ps k k' \<or> r = 0 \<and> fresh_space kend ps k (e_pgdir p) p' k'"
proof -
  obtain ro fs0 where n: "namei pid cwd junk path fs = Inr (ro, fs0)" using e by (auto simp: exec_def bindR_eq_Inr)
  show ?thesis
  proof (cases ro)
    case None
    then show ?thesis using e n space_kept_refl [OF old] by (auto simp: exec_def)
  next
    case (Some ip)
    then obtain fs1 r1 b fs2 where f: "ilock pid ip fs0 = Inr fs1" "readi devsw ip 0 52 fs1 = Inr (r1, b, fs2)"
      using e n by (auto simp: exec_def bindR_eq_Inr)
    consider (bad) "exec_bad kend pid p 0 (Some ip) (k, fs2) = Inr (r, p', k', fs')"
      | (build) "exec_build kend data devsw pid ip path argv (elfhdr_of b) (p, k, fs2) = Inr (r, p', k', fs')"
      using e n f Some by (auto simp: exec_def split: if_splits)
    then show ?thesis
    proof cases
      case bad
      then show ?thesis using exec_bad_none [OF bad] space_kept_refl [OF old] by blast
    next
      case build
      then show ?thesis by (rule exec_build_outcome [OF old ok])
    qed
  qed
qed

end
