(* ===== verification/ExecProg.thy ===== *)
theory ExecProg
  imports ExecRun
begin

text \<open>
  What a well-formed program file becomes in memory: each loaded segment has the bytes of the file and
  then zeros.
\<close>

subsection \<open>One segment\<close>

abbreviation (input) seg_in :: "nat \<Rightarrow> nat \<Rightarrow> u32 \<Rightarrow> bool" where
  "seg_in a b x \<equiv> a \<le> unat x \<and> unat x < b"

lemma page_piece:
  assumes "a mod 4096 = (0 :: nat)" "m \<le> 4096"
  shows "x div 4096 = a div 4096 \<and> x mod 4096 < m \<longleftrightarrow> a \<le> x \<and> x < a + m"
  using in_range_iff [of m a x] assms by simp

lemma loaduvm_exact:
  assumes lay: "layout_ok fs" and ino: "inode_ok fs ip" and dat: "data = file_data fs (icache fs ! ip)"
    and fit: "unat addr + usz \<le> 4096 * n" "unat addr mod 4096 = 0" "unat offset + usz \<le> length data"
    and im: "uimage kend S k0 d n k ps" and i: "i mod 4096 = 0"
  shows "\<exists>k'. loaduvm_loop devsw d addr ip offset usz i (k, fs) = Inr (0, k', fs) \<and> uimage kend S k0 d n k' ps \<and>
    (\<forall>x. pte_of k' d x = pte_of k d x) \<and>
    (\<forall>x. vpn x < n \<longrightarrow> uread k' d x = (if seg_in (unat addr + i) (unat addr + usz) x then data ! (unat offset + (unat x - unat addr)) else uread k d x))"
  using im i
proof (induction "usz - i" arbitrary: i k rule: less_induct)
  case less
  show ?case
  proof (cases "i < usz")
    case False
    then show ?thesis using less.prems by (subst loaduvm_loop.simps) auto
  next
    case True
    let ?va = "addr + of_nat i" and ?m = "min (usz - i) 4096"
    note L = load_step [OF less.prems(1) fit(1) True refl refl]
    let ?bs = "take ?m (drop (unat offset + i) data)"
    let ?k = "kput (upage k d ?va) ?bs k"
    have len: "length data = unat (i_size (icache fs ! ip))" "length data \<le> MAXFILE * BSIZE" using dat inode_okD(3) [OF ino] by (simp_all add: file_data_def)
    have oi: "unat (offset + of_nat i) = unat offset + i"
    proof -
      have "unat (of_nat i :: u32) = i" using fit(3) len(2) True by (intro unat_of_nat_id) simp
      then show ?thesis using fit(3) len(2) True by (subst unat_add_no_wrap) simp_all
    qed
    have um: "unat (of_nat ?m :: u32) = ?m" by (intro unat_of_nat_id) simp
    have lb: "length ?bs = ?m" using fit(3) by simp
    have rd: "readi devsw ip (offset + of_nat i) (of_nat ?m) fs = Inr (int ?m, ?bs, fs)"
    proof -
      have "offset + of_nat i \<le> i_size (icache fs ! ip)" unfolding word_le_nat_alt oi using fit(3) len(1) True by simp
      moreover have "i + ?m \<le> usz" using True by simp
      then have "unat (offset + of_nat i) + unat (of_nat ?m :: u32) < 2 ^ 32" unfolding oi um using fit(3) len(2) [simplified] by simp
      moreover have "min ?m (length data - (unat offset + i)) = ?m" using fit(3) by simp
      ultimately show ?thesis using readi_ok [OF lay ino, of "offset + of_nat i" "of_nat ?m" devsw] unfolding oi um dat [symmetric] len(1) [symmetric] by simp
    qed
    have "length ?bs \<le> 4096" using lb by simp
    note W = load_write [OF less.prems(1) L(2) this]
    have lt: "usz - (i + 4096) < usz - i" and mm: "(i + 4096) mod 4096 = 0" using True less.prems(2) by simp_all
    obtain k' where IH: "loaduvm_loop devsw d addr ip offset usz (i + 4096) (?k, fs) = Inr (0, k', fs)" "uimage kend S k0 d n k' ps"
      "\<forall>x. pte_of k' d x = pte_of ?k d x"
      "\<forall>x. vpn x < n \<longrightarrow> uread k' d x = (if seg_in (unat addr + (i + 4096)) (unat addr + usz) x then data ! (unat offset + (unat x - unat addr)) else uread ?k d x)"
      using less.hyps [OF lt W(1) mm] by blast
    have "loaduvm_loop devsw d addr ip offset usz i (k, fs) = Inr (0, k', fs)" unfolding L(3) rd by (simp add: IH(1))
    moreover have "uread k' d x = (if seg_in (unat addr + i) (unat addr + usz) x then data ! (unat offset + (unat x - unat addr)) else uread k d x)"
      if x: "vpn x < n" for x
    proof -
      have al: "(unat addr + i) mod 4096 = 0" using fit(2) less.prems(2) by (simp add: mod_eq_0_iff_dvd)
      have pc: "vpn x = vpn ?va \<and> unat x mod 4096 < ?m \<longleftrightarrow> seg_in (unat addr + i) (unat addr + i + ?m) x"
        unfolding vpn_def L(1) by (rule page_piece [OF al]) simp
      have k: "uread ?k d x = (if seg_in (unat addr + i) (unat addr + i + ?m) x then ?bs ! (unat x mod 4096) else uread k d x)"
        using W(3) [OF x] unfolding lb pc .
      have b: "?bs ! (unat x mod 4096) = data ! (unat offset + (unat x - unat addr))" if s: "seg_in (unat addr + i) (unat addr + i + ?m) x"
      proof -
        have v: "unat x div 4096 = (unat addr + i) div 4096" "unat x mod 4096 < ?m" using s pc unfolding vpn_def L(1) by simp_all
        have "unat x mod 4096 = unat x - (unat addr + i)"
          using v(1) al div_mult_mod_eq [of "unat x" 4096] div_mult_mod_eq [of "unat addr + i" 4096] by linarith
        moreover have "unat offset + i + (unat x - (unat addr + i)) = unat offset + (unat x - unat addr)" using s by simp
        moreover have "drop (unat offset + i) data ! j = data ! (unat offset + i + j)" for j using fit(3) True by (intro nth_drop) simp
        ultimately show ?thesis using v(2) by (simp only: nth_take)
      qed
      show ?thesis
      proof (cases "seg_in (unat addr + i) (unat addr + i + ?m) x")
        case True
        then have "\<not> seg_in (unat addr + (i + 4096)) (unat addr + usz) x" by linarith
        moreover have "seg_in (unat addr + i) (unat addr + usz) x" using True by linarith
        ultimately show ?thesis using IH(4) x k b [OF True] True by simp
      next
        case False
        then have "seg_in (unat addr + (i + 4096)) (unat addr + usz) x \<longleftrightarrow> seg_in (unat addr + i) (unat addr + usz) x" using True by linarith
        then show ?thesis using IH(4) x k False by simp
      qed
    qed
    ultimately show ?thesis using IH(2,3) W(2) by auto
  qed
qed

subsection \<open>Program files\<close>

fun hdrs_from :: "u8 list \<Rightarrow> nat \<Rightarrow> nat \<Rightarrow> proghdr list" where
  "hdrs_from file off 0 = []"
| "hdrs_from file off (Suc n) = proghdr_of (slice off 32 file) # hdrs_from file (off + 32) n"

definition elf_of :: "u8 list \<Rightarrow> elfhdr" where
  "elf_of file = elfhdr_of (take 52 file)"

definition seg_end :: "proghdr \<Rightarrow> nat" where
  "seg_end ph = unat (ph_vaddr ph) + unat (ph_memsz ph)"

text \<open>Segments that exec accepts, in memory up to lim.\<close>

definition load_ok :: "nat \<Rightarrow> u8 list \<Rightarrow> proghdr \<Rightarrow> bool" where
  "load_ok lim file ph \<longleftrightarrow> ph_filesz ph \<le> ph_memsz ph \<and> unat (ph_vaddr ph) mod 4096 = 0 \<and> 0 < seg_end ph \<and> seg_end ph \<le> lim \<and>
     unat (ph_off ph) + unat (ph_filesz ph) \<le> length file"

definition loads :: "proghdr list \<Rightarrow> proghdr list" where
  "loads phs = filter (\<lambda>ph. ph_type ph = ELF_PROG_LOAD) phs"

definition elf_loads :: "u8 list \<Rightarrow> proghdr list" where
  "elf_loads file = loads (hdrs_from file (unat (e_phoff (elf_of file))) (unat (e_phnum (elf_of file))))"

definition elf_ok :: "nat \<Rightarrow> u8 list \<Rightarrow> bool" where
  "elf_ok lim file \<longleftrightarrow> 52 \<le> length file \<and> e_magic (elf_of file) = ELF_MAGIC \<and>
     unat (e_phoff (elf_of file)) + 32 * unat (e_phnum (elf_of file)) \<le> length file \<and> list_all (load_ok lim file) (elf_loads file)"

text \<open>Memory after loading: bytes of the file in the segments, zeros elsewhere.\<close>

definition put_seg :: "u8 list \<Rightarrow> proghdr \<Rightarrow> (nat \<Rightarrow> u8) \<Rightarrow> nat \<Rightarrow> u8" where
  "put_seg file ph m x =
     (if unat (ph_vaddr ph) \<le> x \<and> x < unat (ph_vaddr ph) + unat (ph_filesz ph) then file ! (unat (ph_off ph) + (x - unat (ph_vaddr ph))) else m x)"

definition segs_mem :: "u8 list \<Rightarrow> proghdr list \<Rightarrow> (nat \<Rightarrow> u8) \<Rightarrow> nat \<Rightarrow> u8" where
  "segs_mem file phs m = fold (put_seg file) phs m"

definition segs_end :: "proghdr list \<Rightarrow> nat \<Rightarrow> nat" where
  "segs_end phs u = fold (\<lambda>ph u. max u (seg_end ph)) phs u"

lemma segs_end_le: "list_all (\<lambda>ph. seg_end ph \<le> lim) phs \<Longrightarrow> u \<le> lim \<Longrightarrow> segs_end phs u \<le> lim \<and> u \<le> segs_end phs u"
proof (induction phs arbitrary: u)
  case (Cons ph phs)
  have "segs_end phs (max u (seg_end ph)) \<le> lim \<and> max u (seg_end ph) \<le> segs_end phs (max u (seg_end ph))"
    by (rule Cons.IH) (use Cons.prems in simp_all)
  then show ?case by (simp add: segs_end_def)
qed (simp add: segs_end_def)

subsection \<open>All segments\<close>

text \<open>A loaded user part: open to the user, with the contents m.\<close>

definition holds :: "kmem \<Rightarrow> u32 \<Rightarrow> nat \<Rightarrow> (nat \<Rightarrow> u8) \<Rightarrow> bool" where
  "holds k d n m \<longleftrightarrow> (\<forall>x. vpn x < n \<longrightarrow> user_mapped k d x \<and> uread k d x = m (unat x)) \<and> (\<forall>y. 4096 * n \<le> y \<longrightarrow> m y = 0)"

lemma image_enough:
  assumes im: "uimage kend S k0 d n k ps" and c: "2049 + m < card S" and n: "n \<le> m"
  shows "1024 + (m - n) < card (set ps)"
proof -
  have "card (vm_pages k d) \<le> 1025 + n" by (rule card_vm_pages) (use imageD(5) [OF im] in blast)
  moreover have "card S \<le> card (set ps) + card (vm_pages k d)" unfolding imageD(2) [OF im, symmetric] by (rule card_Un_le)
  ultimately show ?thesis using c n by simp
qed

lemma load_segment:
  assumes im: "uimage kend S k0 d (npages usz) k ps" and usz: "usz < KERNBASE" and h: "holds k d (npages usz) m"
    and lay: "layout_ok fs" and ino: "inode_ok fs ip" and dat: "file = file_data fs (icache fs ! ip)"
    and ph: "load_ok lim file ph" and lim: "lim < 2 ^ 31" and c: "2049 + (lim + 4095) div 4096 < card S" and u: "unat usz \<le> lim"
  shows "\<not> ph_memsz ph < ph_filesz ph" "\<not> ph_vaddr ph + ph_memsz ph < ph_vaddr ph"
    "\<exists>usz' k1 k' qs. allocuvm kend d usz (ph_vaddr ph + ph_memsz ph) k = Inr (usz', k1) \<and> usz' \<noteq> 0 \<and> ph_vaddr ph mod 4096 = 0 \<and>
      loaduvm devsw d (ph_vaddr ph) ip (ph_off ph) (ph_filesz ph) (k1, fs) = Inr (0, k', fs) \<and>
      unat usz' = max (unat usz) (seg_end ph) \<and> usz' < KERNBASE \<and> uimage kend S k0 d (npages usz') k' qs \<and>
      holds k' d (npages usz') (put_seg file ph m)"
proof -
  let ?new = "ph_vaddr ph + ph_memsz ph"
  note P = ph [unfolded load_ok_def]
  have new: "unat ?new = seg_end ph" using P lim unfolding seg_end_def by (intro unat_add_no_wrap) simp
  show c1: "\<not> ph_memsz ph < ph_filesz ph" "\<not> ?new < ph_vaddr ph" using P new by (auto simp: not_less word_le_nat_alt seg_end_def)
  have nl: "?new < KERNBASE" "?new \<noteq> 0" using P lim new by (auto simp: word_less_nat_alt KERNBASE_def)
  define u' where "u' = max usz ?new"
  have u': "unat u' = max (unat usz) (seg_end ph)" unfolding u'_def new [symmetric] by (simp add: max_def word_le_nat_alt)
  have k': "u' < KERNBASE" "?new \<le> u'" "usz \<le> u'" "u' \<noteq> 0" using usz nl u' new by (auto simp: u'_def max_def)
  have "npages ?new \<le> (lim + 4095) div 4096" unfolding npages_def new using P by (intro div_le_mono) simp
  moreover have "npages usz \<le> (lim + 4095) div 4096" unfolding npages_def using u by (intro div_le_mono) simp
  ultimately have en: "1024 + ((lim + 4095) div 4096 - npages usz) < card (set ps)" "1024 + (npages ?new - npages usz) < card (set ps)"
    using image_enough [OF im c] by auto
  obtain r k1 qs where a: "allocuvm kend d usz ?new k = Inr (r, k1)"
     "r = 0 \<and> (KERNBASE \<le> ?new \<or> ?new = 0 \<or> card (set ps) \<le> 1024 + (npages ?new - npages usz)) \<or>
      r = max usz ?new \<and> uimage kend S k0 d (npages r) k1 qs \<and>
      (\<forall>va. if npages usz \<le> vpn va \<and> vpn va < npages r then user_mapped k1 d va \<and> uread k1 d va = 0
            else pte_of k1 d va = pte_of k d va \<and> (vpn va < npages usz \<longrightarrow> uread k1 d va = uread k d va))"
    using image_alloc [OF im less_imp_le [OF usz], of ?new] by blast
  have r: "r = u'" "uimage kend S k0 d (npages u') k1 qs"
    and z: "\<And>va. if npages usz \<le> vpn va \<and> vpn va < npages u' then user_mapped k1 d va \<and> uread k1 d va = 0
            else pte_of k1 d va = pte_of k d va \<and> (vpn va < npages usz \<longrightarrow> uread k1 d va = uread k d va)"
    using a(2) nl en(2) unfolding u'_def by (auto simp: not_le)
  have h1: "user_mapped k1 d x \<and> uread k1 d x = m (unat x)" if "vpn x < npages u'" for x
  proof (cases "vpn x < npages usz")
    case True
    then show ?thesis using z [of x] h unfolding holds_def user_mapped_def by auto
  next
    case False
    then have "4096 * npages usz \<le> unat x" by (simp add: vpn_def not_less less_eq_div_iff_mult_less_eq mult.commute)
    then show ?thesis using z [of x] h False that unfolding holds_def by auto
  qed
  have fit: "unat (ph_vaddr ph) + unat (ph_filesz ph) \<le> 4096 * npages u'"
    using segment_fits [OF c1] k'(2) npages_bound [of u'] by (simp add: word_le_nat_alt)
  have al: "unat (ph_vaddr ph) mod 4096 = 0" "unat (ph_off ph) + unat (ph_filesz ph) \<le> length file" using P by blast+
  obtain k2 where l: "loaduvm_loop devsw d (ph_vaddr ph) ip (ph_off ph) (unat (ph_filesz ph)) 0 (k1, fs) = Inr (0, k2, fs)"
    "uimage kend S k0 d (npages u') k2 qs" "\<forall>x. pte_of k2 d x = pte_of k1 d x"
    "\<forall>x. vpn x < npages u' \<longrightarrow> uread k2 d x = (if seg_in (unat (ph_vaddr ph) + 0) (unat (ph_vaddr ph) + unat (ph_filesz ph)) x
       then file ! (unat (ph_off ph) + (unat x - unat (ph_vaddr ph))) else uread k1 d x)"
    using loaduvm_exact [OF lay ino dat fit al r(2) mod_0, where devsw = devsw] by blast
  have vm: "ph_vaddr ph mod 4096 = 0" using al(1) unfolding unat_aligned .
  have "holds k2 d (npages u') (put_seg file ph m)"
    unfolding holds_def
  proof (intro conjI allI impI)
    fix x
    assume x: "vpn x < npages u'"
    show "user_mapped k2 d x" using h1 [OF x] l(3) by (simp add: user_mapped_def)
    show "uread k2 d x = put_seg file ph m (unat x)" using l(4) x h1 [OF x] by (simp add: put_seg_def)
  next
    fix y
    assume y: "4096 * npages u' \<le> y"
    then have "m y = 0" using h npages_mono [OF k'(3)] unfolding holds_def by (meson le_trans mult_le_mono2)
    then show "put_seg file ph m y = 0" using y fit by (simp add: put_seg_def)
  qed
  then show "\<exists>usz' k1 k' qs. allocuvm kend d usz ?new k = Inr (usz', k1) \<and> usz' \<noteq> 0 \<and> ph_vaddr ph mod 4096 = 0 \<and>
      loaduvm devsw d (ph_vaddr ph) ip (ph_off ph) (ph_filesz ph) (k1, fs) = Inr (0, k', fs) \<and>
      unat usz' = max (unat usz) (seg_end ph) \<and> usz' < KERNBASE \<and> uimage kend S k0 d (npages usz') k' qs \<and>
      holds k' d (npages usz') (put_seg file ph m)"
    using a(1) r(1) k' u' vm l(1,2) by (intro exI [of _ u'] exI [of _ k1] exI [of _ k2] exI [of _ qs]) (simp add: loaduvm_def)
qed

lemma read_header:
  assumes lay: "layout_ok fs" and ino: "inode_ok fs ip" and dat: "file = file_data fs (icache fs ! ip)"
    and fit: "unat off + unat n \<le> length file"
  shows "readi devsw ip off n fs = Inr (int (unat n), slice (unat off) (unat n) file, fs)"
proof -
  have len: "length file = unat (i_size (icache fs ! ip))" "length file \<le> 71680" using dat inode_okD(3) [OF ino] by (simp_all add: file_data_def)
  have "off \<le> i_size (icache fs ! ip)" using fit len by (simp add: word_le_nat_alt)
  moreover have "unat off + unat n < 2 ^ 32" using fit len(2) by simp
  moreover have "min (unat n) (length file - unat off) = unat n" using fit by simp
  ultimately show ?thesis using readi_ok [OF lay ino, of off n devsw] unfolding slice_def dat [symmetric] len(1) [symmetric] by simp
qed

lemma exec_load_exact:
  assumes lay: "layout_ok fs" and ino: "inode_ok fs ip" and dat: "file = file_data fs (icache fs ! ip)"
    and lim: "lim < 2 ^ 31" and c: "2049 + (lim + 4095) div 4096 < card S"
    and "uimage kend S k0 d (npages usz) k ps" "usz < KERNBASE" "holds k d (npages usz) m" "unat usz \<le> lim"
    and "unat off + 32 * n \<le> length file" "list_all (load_ok lim file) (loads (hdrs_from file (unat off) n))"
  shows "\<exists>usz' k' qs. exec_load kend devsw d ip n off usz (k, fs) = Inr (Some usz', k', fs) \<and>
    unat usz' = segs_end (loads (hdrs_from file (unat off) n)) (unat usz) \<and> usz' < KERNBASE \<and> uimage kend S k0 d (npages usz') k' qs \<and>
    holds k' d (npages usz') (segs_mem file (loads (hdrs_from file (unat off) n)) m)"
  using assms(6-)
proof (induction n arbitrary: off usz k ps m)
  case 0
  then show ?case by (auto simp: segs_end_def segs_mem_def loads_def)
next
  case (Suc n)
  have len: "length file \<le> 71680" using dat inode_okD(3) [OF ino] by (simp add: file_data_def)
  have off: "unat (off + 32) = unat off + 32" using Suc.prems(5) len by (subst unat_add_no_wrap) simp_all
  define ph where "ph = proghdr_of (slice (unat off) 32 file)"
  have rd: "readi devsw ip off 32 fs = Inr (32, slice (unat off) 32 file, fs)"
    using read_header [OF lay ino dat, of off 32 devsw] Suc.prems(5) by simp
  let ?hs = "hdrs_from file (unat (off + 32)) n"
  have hs: "hdrs_from file (unat off) (Suc n) = ph # ?hs" by (simp add: off ph_def)
  have fit: "unat (off + 32) + 32 * n \<le> length file" using Suc.prems(5) off by simp
  show ?case
  proof (cases "ph_type ph = 1")
    case False
    then have ls: "loads (hdrs_from file (unat off) (Suc n)) = loads ?hs" unfolding hs by (simp add: loads_def)
    have "exec_load kend devsw d ip (Suc n) off usz (k, fs) = exec_load kend devsw d ip n (off + 32) usz (k, fs)"
      using False by (simp add: rd flip: ph_def)
    then show ?thesis using Suc.IH [OF Suc.prems(1-4) fit] Suc.prems(6) unfolding ls by simp
  next
    case True
    then have ls: "loads (hdrs_from file (unat off) (Suc n)) = ph # loads ?hs" unfolding hs by (simp add: loads_def)
    have ok: "load_ok lim file ph" "list_all (load_ok lim file) (loads ?hs)" using Suc.prems(6) unfolding ls by simp_all
    note L = load_segment [OF Suc.prems(1-3) lay ino dat ok(1) lim c Suc.prems(4)]
    obtain u k1 k2 qs where l: "allocuvm kend d usz (ph_vaddr ph + ph_memsz ph) k = Inr (u, k1)" "u \<noteq> 0" "ph_vaddr ph mod 4096 = 0"
      "loaduvm devsw d (ph_vaddr ph) ip (ph_off ph) (ph_filesz ph) (k1, fs) = Inr (0, k2, fs)"
      "unat u = max (unat usz) (seg_end ph)" "u < KERNBASE" "uimage kend S k0 d (npages u) k2 qs" "holds k2 d (npages u) (put_seg file ph m)"
      using L(3) [where devsw = devsw] by (elim exE conjE) (rule that)
    have e: "exec_load kend devsw d ip (Suc n) off usz (k, fs) = exec_load kend devsw d ip n (off + 32) u (k2, fs)"
      using True L(1,2) l(1-4) by (simp add: rd flip: ph_def)
    have ul: "unat u \<le> lim" using l(5) ok(1) Suc.prems(4) by (simp add: load_ok_def)
    show ?thesis using Suc.IH [OF l(7,6,8) ul fit ok(2)] unfolding ls e l(5) by (simp add: segs_end_def segs_mem_def)
  qed
qed

end
