(* ===== verification/ExecArgs.thy ===== *)
theory ExecArgs
  imports ExecProg
begin

text \<open>The stack that a program finds: its arguments, as main expects them.\<close>

subsection \<open>What the process reads\<close>

definition ubytes :: "kmem \<Rightarrow> u32 \<Rightarrow> u32 \<Rightarrow> nat \<Rightarrow> u8 list" where
  "ubytes k d a n = map (\<lambda>i. uread k d (a + of_nat i)) [0..<n]"

definition uword :: "kmem \<Rightarrow> u32 \<Rightarrow> u32 \<Rightarrow> u32" where
  "uword k d a = word32 (ubytes k d a 4)"

lemma ubytes_cong: "(\<And>i. i < n \<Longrightarrow> uread k' d (a + of_nat i) = uread k d (a + of_nat i)) \<Longrightarrow> ubytes k' d a n = ubytes k d a n"
  by (simp add: ubytes_def)

lemma ubytes_slice: "off + n \<le> m \<Longrightarrow> slice off n (ubytes k d a m) = ubytes k d (a + of_nat off) n"
  by (rule nth_equalityI) (simp_all add: slice_def ubytes_def ac_simps)

lemma offset_below:
  assumes "unat a + n \<le> 2 ^ 31" "i < n"
  shows "unat (a + of_nat i :: u32) = unat a + i"
proof -
  have "unat (of_nat i :: u32) = i" using assms by (intro unat_of_nat_id) simp
  then show ?thesis using assms by (subst unat_add_no_wrap) simp_all
qed

abbreviation (input) stack_at :: "kmem \<Rightarrow> u32 \<Rightarrow> nat \<Rightarrow> nat \<Rightarrow> bool" where
  "stack_at k d lo hi \<equiv> \<forall>x. lo \<le> unat x \<and> unat x < hi \<longrightarrow> user_mapped k d x"

lemma copyout_ubytes:
  assumes im: "uimage kend S k0 d n k ps" and rng: "lo \<le> unat va" "unat va + length buf \<le> hi" "hi \<le> 2 ^ 31" and um: "stack_at k d lo hi"
  shows "\<exists>k'. copyout d va buf k = Inr (0, k') \<and> uimage kend S k0 d n k' ps \<and> (\<forall>x. pte_of k' d x = pte_of k d x) \<and>
    ubytes k' d va (length buf) = buf \<and>
    (\<forall>x. vpn x < n \<and> \<not> (unat va \<le> unat x \<and> unat x < unat va + length buf) \<longrightarrow> uread k' d x = uread k d x)"
proof -
  have fit: "unat va + length buf \<le> 2 ^ 31" using rng by simp
  have um': "user_mapped k d x" if "unat va \<le> unat x" "unat x < unat va + length buf" for x using um that rng by simp
  obtain k' where c: "copyout d va buf k = Inr (0, k')" "vm_space kend k' ps d" "only_in (upages k d) k k'"
     "\<forall>x. x < KERNBASE \<and> present (pte_of k d x) \<longrightarrow>
        uread k' d x = (if unat va \<le> unat x \<and> unat x < unat va + length buf then buf ! (unat x - unat va) else uread k d x)"
    using copyout_spec [OF imageD(1) [OF im] fit um'] by blast
  note J = image_user_write [OF im c(2,3)]
  have rd: "uread k' d (va + of_nat i) = buf ! i" if "i < length buf" for i
  proof -
    note o = offset_below [OF fit that]
    have "user_mapped k d (va + of_nat i)" by (rule um') (use o that in simp_all)
    moreover have "va + of_nat i < KERNBASE" using o fit that by (simp add: word_less_nat_alt KERNBASE_def)
    ultimately show ?thesis using c(4) o that by (simp add: user_mapped_def)
  qed
  have "ubytes k' d va (length buf) = buf" by (rule nth_equalityI) (simp_all add: ubytes_def rd)
  moreover have "uread k' d x = uread k d x" if "vpn x < n" "\<not> (unat va \<le> unat x \<and> unat x < unat va + length buf)" for x
    using c(4) image_present [OF im that(1)] that(2) by metis
  ultimately show ?thesis using c(1) J by blast
qed

subsection \<open>Strings\<close>

lemma align_down: "unat (a AND NOT 3 :: u32) = unat a div 4 * 4"
proof -
  have m: "(3 :: u32) = mask 2" by (simp add: mask_eq_exp_minus_1)
  have "a AND NOT (mask 2) = push_bit 2 (drop_bit 2 a)" by (rule bit_word_eqI) (auto simp: bit_simps simp del: add_2_eq_Suc add_2_eq_Suc')
  then have "a AND NOT 3 = drop_bit 2 a * 4" unfolding m by (simp add: push_bit_eq_mult)
  moreover have d: "unat (drop_bit 2 a) = unat a div 4" by (simp add: drop_bit_eq_div unat_div)
  moreover have "unat (drop_bit 2 a) * unat (4 :: u32) < 2 ^ 32"
    unfolding d using unat_lt_2_32 [of a] by (simp add: le_less_trans [OF div_times_less_eq_dividend])
  ultimately show ?thesis by (simp add: unat_word_ariths)
qed

lemma next_sp:
  fixes sp :: u32
  assumes "n + 3 \<le> unat sp" "sp' = (sp - of_nat n) AND NOT 3"
  shows "unat sp' + n \<le> unat sp" "unat sp \<le> unat sp' + n + 3"
proof -
  have "unat (of_nat n :: u32) = n" using assms(1) unat_lt_2_32 [of sp] by (intro unat_of_nat_id) simp
  then have "unat (sp - of_nat n) = unat sp - n" using assms(1) by (simp add: unat_sub word_le_nat_alt)
  then have "unat sp' = (unat sp - n) div 4 * 4" unfolding assms(2) align_down by simp
  then show "unat sp' + n \<le> unat sp" "unat sp \<le> unat sp' + n + 3" using assms(1) div_mult_mod_eq [of "unat sp - n" 4] by auto
qed

definition args_room :: "u8 list list \<Rightarrow> nat" where
  "args_room argv = sum_list (map (\<lambda>a. length a + 4) argv)"

definition args_at :: "kmem \<Rightarrow> u32 \<Rightarrow> u32 list \<Rightarrow> u8 list list \<Rightarrow> bool" where
  "args_at k d ptrs argv \<longleftrightarrow> list_all2 (\<lambda>p a. ubytes k d p (length a + 1) = a @ [0]) ptrs argv"

definition args_in :: "nat \<Rightarrow> nat \<Rightarrow> u32 list \<Rightarrow> u8 list list \<Rightarrow> bool" where
  "args_in lo hi ptrs argv \<longleftrightarrow> list_all2 (\<lambda>p a. lo \<le> unat p \<and> unat p + length a < hi) ptrs argv"

lemma exec_args_exact:
  assumes "uimage kend S k0 d n k ps" "stack_at k d lo hi" "hi \<le> 2 ^ 31" "unat sp \<le> hi" "lo + args_room argv \<le> unat sp" "length ptrs + length argv \<le> 32"
  shows "\<exists>sp' qs k'. exec_args d sp ptrs argv k = Inr (Some (sp', ptrs @ qs), k') \<and> uimage kend S k0 d n k' ps \<and> (\<forall>x. pte_of k' d x = pte_of k d x) \<and>
    unat sp \<le> unat sp' + args_room argv \<and> unat sp' \<le> unat sp \<and>
    (\<forall>x. vpn x < n \<and> (unat sp \<le> unat x \<or> unat x < unat sp') \<longrightarrow> uread k' d x = uread k d x) \<and>
    args_in (unat sp') (unat sp) qs argv \<and> args_at k' d qs argv"
  using assms(1,2,4-)
proof (induction argv arbitrary: sp ptrs k)
  case Nil
  then show ?case by (auto simp: args_at_def args_in_def args_room_def)
next
  case (Cons arg argv)
  define s1 where "s1 = (sp - of_nat (length arg + 1)) AND NOT 3"
  have room: "lo + (length arg + 4) + args_room argv \<le> unat sp" using Cons.prems(4) by (simp add: args_room_def)
  then have "length arg + 1 + 3 \<le> unat sp" by simp
  note N = next_sp [OF this s1_def]
  have ln: "length (arg @ [0 :: u8]) = length arg + 1" by simp
  obtain k1 where c: "copyout d s1 (arg @ [0]) k = Inr (0, k1)" "uimage kend S k0 d n k1 ps" "\<forall>x. pte_of k1 d x = pte_of k d x"
    "ubytes k1 d s1 (length arg + 1) = arg @ [0]"
    "\<forall>x. vpn x < n \<and> \<not> (unat s1 \<le> unat x \<and> unat x < unat s1 + (length arg + 1)) \<longrightarrow> uread k1 d x = uread k d x"
    using copyout_ubytes [OF Cons.prems(1) _ _ assms(3) Cons.prems(2), of s1 "arg @ [0]"] N room Cons.prems(3) unfolding ln by auto
  have um1: "stack_at k1 d lo hi" using Cons.prems(2) c(3) by (simp add: user_mapped_def)
  have pre: "unat s1 \<le> hi" "lo + args_room argv \<le> unat s1" "length (ptrs @ [s1]) + length argv \<le> 32"
    using N room Cons.prems(3,5) by simp_all
  obtain s2 qs k2 where x: "exec_args d s1 (ptrs @ [s1]) argv k1 = Inr (Some (s2, (ptrs @ [s1]) @ qs), k2)" "uimage kend S k0 d n k2 ps"
    "\<forall>x. pte_of k2 d x = pte_of k1 d x" "unat s1 \<le> unat s2 + args_room argv" "unat s2 \<le> unat s1"
    "\<forall>x. vpn x < n \<and> (unat s1 \<le> unat x \<or> unat x < unat s2) \<longrightarrow> uread k2 d x = uread k1 d x"
    "args_in (unat s2) (unat s1) qs argv" "args_at k2 d qs argv"
    using Cons.IH [OF c(2) um1 pre] by blast
  have "exec_args d sp ptrs (arg # argv) k = Inr (Some (s2, ptrs @ s1 # qs), k2)"
    using Cons.prems(5) c(1) x(1) unfolding exec_args.simps Let_def s1_def [symmetric] by simp
  moreover have "unat sp \<le> unat s2 + args_room (arg # argv)" "unat s2 \<le> unat sp" using N x(4,5) by (simp_all add: args_room_def)
  moreover have "uread k2 d x = uread k d x" if "vpn x < n" "unat sp \<le> unat x \<or> unat x < unat s2" for x
  proof -
    have "unat s1 \<le> unat x \<or> unat x < unat s2" "\<not> (unat s1 \<le> unat x \<and> unat x < unat s1 + (length arg + 1))" using that(2) N x(5) by auto
    then show ?thesis using x(6) c(5) that(1) by simp
  qed
  moreover have "args_in (unat s2) (unat sp) (s1 # qs) (arg # argv)"
  proof -
    have "args_in (unat s2) (unat sp) qs argv" using x(7) N unfolding args_in_def by (auto elim!: list_all2_mono)
    then show ?thesis using x(5) N by (simp add: args_in_def)
  qed
  moreover have "ubytes k2 d s1 (length arg + 1) = arg @ [0]"
  proof -
    have fit: "unat s1 + (length arg + 1) \<le> 2 ^ 31" using N Cons.prems(3) assms(3) by simp
    have "uread k2 d (s1 + of_nat i) = uread k1 d (s1 + of_nat i)" if "i < length arg + 1" for i
    proof -
      note o = offset_below [OF fit that]
      have "user_mapped k1 d (s1 + of_nat i)" using um1 o that N room Cons.prems(3) by simp
      moreover have "s1 + of_nat i < KERNBASE" using o fit that by (simp add: word_less_nat_alt KERNBASE_def)
      ultimately have "vpn (s1 + of_nat i) < n" using imageD(5) [OF c(2)] by (simp add: user_mapped_def)
      then show ?thesis using x(6) o by simp
    qed
    then have "ubytes k2 d s1 (length arg + 1) = ubytes k1 d s1 (length arg + 1)" by (rule ubytes_cong)
    then show ?thesis using c(4) by simp
  qed
  ultimately show ?case using x(2,3,8) c(3) by (intro exI [of _ s2] exI [of _ "s1 # qs"] exI [of _ k2]) (auto simp: args_at_def)
qed

subsection \<open>The whole stack\<close>

text \<open>At sp: a return address that faults, argc, argv, and at argv pointers to the strings and a null pointer.\<close>

definition main_frame :: "kmem \<Rightarrow> u32 \<Rightarrow> u32 \<Rightarrow> u8 list list \<Rightarrow> bool" where
  "main_frame k d sp argv \<longleftrightarrow> uword k d sp = 0xFFFFFFFF \<and> uword k d (sp + 4) = of_nat (length argv) \<and>
     (let av = uword k d (sp + 8) in
      list_all (\<lambda>(j, a). ubytes k d (uword k d (av + 4 * of_nat j)) (length a + 1) = a @ [0]) (enumerate 0 argv) \<and>
      uword k d (av + 4 * of_nat (length argv)) = 0)"

lemma ustack_words:
  assumes "ubytes k d sp (4 * length ws) = concat (map bytes32 ws)" "j < length ws"
  shows "uword k d (sp + 4 * of_nat j) = ws ! j"
proof -
  have "ubytes k d (sp + of_nat (4 * j)) 4 = slice (4 * j) 4 (ubytes k d sp (4 * length ws))"
    by (rule ubytes_slice [symmetric]) (use assms(2) in simp)
  also have "\<dots> = bytes32 (ws ! j)" unfolding assms(1) by (rule slice_concat_bytes32 [OF assms(2)])
  finally show ?thesis by (simp add: uword_def)
qed

lemma main_frameI:
  assumes ub: "ubytes k d sp (4 * length (exec_ustack s ptrs)) = concat (map bytes32 (exec_ustack s ptrs))"
    and sp: "sp = s - of_nat (4 * (3 + length ptrs + 1))" and ar: "args_at k d ptrs argv"
  shows "main_frame k d sp argv"
proof -
  note W = ustack_words [OF ub]
  have ln: "length ptrs = length argv" using ar by (auto simp: args_at_def dest: list_all2_lengthD)
  have av: "uword k d (sp + 8) = sp + 12" using W [of 2] unfolding sp by (simp add: exec_ustack_def)
  have "uword k d (sp + 12 + 4 * of_nat j) = ptrs ! j" if "j < length ptrs" for j
    using W [of "3 + j"] that by (simp add: exec_ustack_def nth_append numeral_3_eq_3 algebra_simps)
  then have "ubytes k d (uword k d (sp + 12 + 4 * of_nat j)) (length (argv ! j) + 1) = argv ! j @ [0]" if "j < length argv" for j
    using ar that ln by (simp add: args_at_def list_all2_conv_all_nth)
  then have "list_all (\<lambda>(j, a). ubytes k d (uword k d (sp + 12 + 4 * of_nat j)) (length a + 1) = a @ [0]) (enumerate 0 argv)"
    by (auto simp: list_all_length nth_enumerate_eq)
  moreover have "uword k d (sp + 12 + 4 * of_nat (length argv)) = 0"
    using W [of "3 + length ptrs"] ln by (simp add: exec_ustack_def nth_append numeral_3_eq_3 algebra_simps)
  moreover have "uword k d sp = 0xFFFFFFFF" "uword k d (sp + 4) = of_nat (length argv)"
    using W [of 0] W [of 1] ln by (simp_all add: exec_ustack_def)
  ultimately show ?thesis unfolding main_frame_def Let_def av by blast
qed

lemma args_at_keep:
  assumes "args_at k d ptrs argv" "args_in lo hi ptrs argv" "hi \<le> 2 ^ 31" "\<And>x. lo \<le> unat x \<Longrightarrow> unat x < hi \<Longrightarrow> uread k' d x = uread k d x"
  shows "args_at k' d ptrs argv"
proof -
  have "ubytes k' d p (length a + 1) = ubytes k d p (length a + 1)" if "lo \<le> unat p" "unat p + length a < hi" for p and a :: "u8 list"
  proof (rule ubytes_cong)
    fix i
    assume i: "i < length a + 1"
    have "unat (p + of_nat i) = unat p + i" by (rule offset_below [OF _ i]) (use that assms(3) in simp)
    then show "uread k' d (p + of_nat i) = uread k d (p + of_nat i)" using assms(4) that i by simp
  qed
  then show ?thesis using assms(1,2) unfolding args_at_def args_in_def list_all2_conv_all_nth by auto
qed

lemma length_ustack: "length (concat (map bytes32 (exec_ustack s ptrs))) = 4 * (4 + length ptrs)" "length (exec_ustack s ptrs) = 4 + length ptrs"
proof -
  have "length (concat (map bytes32 ws)) = 4 * length ws" for ws by (induction ws) simp_all
  then show "length (concat (map bytes32 (exec_ustack s ptrs))) = 4 * (4 + length ptrs)" by (simp add: exec_ustack_def)
qed (simp add: exec_ustack_def)

text \<open>Pushing the arguments and the frame into a stack between lo and hi.\<close>

lemma push_frame:
  assumes im: "uimage kend S k0 d n k ps" and um: "stack_at k d lo hi" and hi: "hi \<le> 2 ^ 31" "unat u = hi"
    and room: "lo + args_room argv + 4 * (4 + length argv) \<le> hi" "length argv \<le> 32"
  shows "\<exists>s ptrs k1 k' sp. exec_args d u [] argv k = Inr (Some (s, ptrs), k1) \<and> sp = s - of_nat (4 * (3 + length ptrs + 1)) \<and>
    copyout d sp (concat (map bytes32 (exec_ustack s ptrs))) k1 = Inr (0, k') \<and> uimage kend S k0 d n k' ps \<and> (\<forall>x. pte_of k' d x = pte_of k d x) \<and>
    lo \<le> unat sp \<and> unat sp < hi \<and> (\<forall>k''. (\<forall>x. lo \<le> unat x \<and> unat x < hi \<longrightarrow> uread k'' d x = uread k' d x) \<longrightarrow> main_frame k'' d sp argv) \<and> (\<forall>x. vpn x < n \<and> unat x < lo \<longrightarrow> uread k' d x = uread k d x)"
proof -
  have r1: "unat u \<le> hi" "lo + args_room argv \<le> unat u" "length ([] :: u32 list) + length argv \<le> 32" using hi room by simp_all
  obtain s ptrs k1 where x: "exec_args d u [] argv k = Inr (Some (s, ptrs), k1)" "uimage kend S k0 d n k1 ps" "\<forall>x. pte_of k1 d x = pte_of k d x"
    "unat u \<le> unat s + args_room argv" "unat s \<le> unat u"
    "\<forall>x. vpn x < n \<and> (unat u \<le> unat x \<or> unat x < unat s) \<longrightarrow> uread k1 d x = uread k d x"
    "args_in (unat s) (unat u) ptrs argv" "args_at k1 d ptrs argv"
    using exec_args_exact [OF im um hi(1) r1] unfolding append_Nil by blast
  have ln: "length ptrs = length argv" using x(8) by (auto simp: args_at_def dest: list_all2_lengthD)
  define sp where "sp = s - of_nat (4 * (3 + length ptrs + 1))"
  have sp: "unat sp + 4 * (4 + length argv) = unat s" "lo \<le> unat sp"
  proof -
    let ?n = "4 * (3 + length ptrs + 1)"
    have n: "?n \<le> unat s" using x(4) room(1) hi(2) ln by simp
    have "unat (of_nat ?n :: u32) = ?n" using n unat_lt_2_32 [of s] by (intro unat_of_nat_id) simp
    then have "unat sp = unat s - ?n" unfolding sp_def using n by (simp add: unat_sub word_le_nat_alt del: of_nat_mult of_nat_add)
    then show "unat sp + 4 * (4 + length argv) = unat s" "lo \<le> unat sp" using n x(4) room(1) hi(2) ln by simp_all
  qed
  have um1: "stack_at k1 d lo hi" using um x(3) by (simp add: user_mapped_def)
  have lb: "length (concat (map bytes32 (exec_ustack s ptrs))) = 4 * (4 + length argv)" using length_ustack(1) ln by simp
  obtain k' where c: "copyout d sp (concat (map bytes32 (exec_ustack s ptrs))) k1 = Inr (0, k')" "uimage kend S k0 d n k' ps"
    "\<forall>x. pte_of k' d x = pte_of k1 d x" "ubytes k' d sp (4 * (4 + length argv)) = concat (map bytes32 (exec_ustack s ptrs))"
    "\<forall>x. vpn x < n \<and> \<not> (unat sp \<le> unat x \<and> unat x < unat sp + 4 * (4 + length argv)) \<longrightarrow> uread k' d x = uread k1 d x"
    using copyout_ubytes [OF x(2) sp(2) _ hi(1) um1, of "concat (map bytes32 (exec_ustack s ptrs))"] sp(1) x(5) hi(2) unfolding lb by auto
  have vp: "vpn y < n" if "lo \<le> unat y" "unat y < hi" for y
  proof -
    have "y < KERNBASE" using that hi(1) by (simp add: word_less_nat_alt KERNBASE_def)
    then show ?thesis using um that imageD(5) [OF im] by (auto simp: user_mapped_def)
  qed
  have ar: "args_at k' d ptrs argv"
  proof (rule args_at_keep [OF x(8,7)])
    show "unat u \<le> 2 ^ 31" using hi by simp
    show "uread k' d y = uread k1 d y" if "unat s \<le> unat y" "unat y < unat u" for y
    proof -
      have "vpn y < n" using vp sp that hi(2) by simp
      then show ?thesis using c(5) sp that by simp
    qed
  qed
  have "main_frame k'' d sp argv" if same: "\<forall>y. lo \<le> unat y \<and> unat y < hi \<longrightarrow> uread k'' d y = uread k' d y" for k''
  proof (rule main_frameI [OF _ sp_def])
    show "args_at k'' d ptrs argv" by (rule args_at_keep [OF ar x(7)]) (use same sp hi in auto)
    have "ubytes k'' d sp (4 * (4 + length argv)) = ubytes k' d sp (4 * (4 + length argv))"
    proof (rule ubytes_cong)
      fix i
      assume i: "i < 4 * (4 + length argv)"
      have "unat (sp + of_nat i) = unat sp + i" by (rule offset_below [OF _ i]) (use sp x(5) hi in simp)
      then show "uread k'' d (sp + of_nat i) = uread k' d (sp + of_nat i)" using same sp x(5) hi(2) i by simp
    qed
    then show "ubytes k'' d sp (4 * length (exec_ustack s ptrs)) = concat (map bytes32 (exec_ustack s ptrs))"
      using c(4) length_ustack(2) ln by simp
  qed
  moreover have "uread k' d y = uread k d y" if "vpn y < n" "unat y < lo" for y
    using c(5) x(6) that sp by simp
  ultimately show ?thesis using x(1,3) c(1-3) sp x(5) hi(2) sp_def by (intro exI [of _ s] exI [of _ ptrs] exI [of _ k1] exI [of _ k'] exI [of _ sp]) auto
qed

end
