(* ===== verification/ExecMain.thy ===== *)
theory ExecMain
  imports ExecArgs
begin

text \<open>
  exec as a whole: with enough pages and room for the arguments it starts the program of a well-formed
  file; in every case it leaves the pages of memory accounted for.
\<close>

subsection \<open>The stack\<close>

lemma exec_stack_exact:
  assumes im: "uimage kend S k0 d (npages usz) k ps" and usz: "usz < KERNBASE" and h: "holds k d (npages usz) m"
    and lim: "npages usz + 2 < 2 ^ 19" "2051 + npages usz < card S"
    and room: "args_room argv + 4 * (4 + length argv) \<le> 4096" "length argv \<le> 32"
  shows "\<exists>u sp k' qs. exec_stack kend d usz argv k = Inr (Some (u, sp), k') \<and> u = PGROUNDUP usz + 2 * 4096 \<and> u < KERNBASE \<and>
    uimage kend S k0 d (npages u) k' qs \<and> (\<forall>x. vpn x = npages usz \<longrightarrow> \<not> user_mapped k' d x) \<and>
    (\<forall>x. vpn x < npages usz \<longrightarrow> user_mapped k' d x \<and> uread k' d x = m (unat x)) \<and>
    (\<forall>x. vpn x = npages usz + 1 \<longrightarrow> user_mapped k' d x) \<and> vpn sp = npages usz + 1 \<and>
    (\<forall>k''. (\<forall>x. vpn x = npages usz + 1 \<longrightarrow> uread k'' d x = uread k' d x) \<longrightarrow> main_frame k'' d sp argv)"
proof -
  define u where "u = PGROUNDUP usz + 2 * 4096"
  note N = stack_pages [OF usz u_def] and R = npages_PGROUNDUP [OF less_imp_le [OF usz]]
  have uk: "u < KERNBASE" using N(6) lim(1) by simp
  note U = N(2) [OF uk] N(4) [OF uk] N(5) [OF uk]
  have im0: "uimage kend S k0 d (npages (PGROUNDUP usz)) k ps" using im R(2) by simp
  have c: "1024 + (npages u - npages usz) < card (set ps)" using image_enough [OF im, of "npages u"] lim(2) U(1) by simp
  have mx: "max (PGROUNDUP usz) u = u" using N(1) by (rule max_absorb2)
  obtain k1 qs where a: "allocuvm kend d (PGROUNDUP usz) u k = Inr (u, k1)" "uimage kend S k0 d (npages u) k1 qs"
    "\<forall>va. if npages usz \<le> vpn va \<and> vpn va < npages u then user_mapped k1 d va \<and> uread k1 d va = 0
            else pte_of k1 d va = pte_of k d va \<and> (vpn va < npages usz \<longrightarrow> uread k1 d va = uread k d va)"
    using image_alloc [OF im0 R(1), of u] c uk N(3) unfolding R(2) mx by (auto simp: not_le)
  have vn: "vpn (u - 2 * 4096) < npages u" using U by simp
  obtain k2 where e: "clearpteu d (u - 2 * 4096) k1 = Inr k2" "uimage kend S k0 d (npages u) k2 qs"
    "\<forall>vb. pte_of k2 d vb = (if vpn vb = npages usz then pte_of k1 d (u - 2 * 4096) AND NOT PTE_U else pte_of k1 d vb)"
    "\<forall>vb. vpn vb < npages u \<longrightarrow> uread k2 d vb = uread k1 d vb"
    using image_clear [OF a(2) vn] unfolding U(3) by blast
  have low: "user_mapped k2 d x \<and> uread k2 d x = m (unat x)" if "vpn x < npages usz" for x
    using a(3) [rule_format, of x] e(3,4) h that U(1) by (auto simp: user_mapped_def holds_def)
  have top: "user_mapped k2 d x" if "vpn x = npages usz + 1" for x
    using a(3) [rule_format, of x] e(3) that U(1) by (simp add: user_mapped_def)
  have guard: "\<not> user_mapped k2 d x" if "vpn x = npages usz" for x
    using e(3) that pte_clear(3) unfolding user_mapped_def by metis
  let ?lo = "4096 * (npages usz + 1)" and ?hi = "4096 * (npages usz + 2)"
  have pg: "?lo \<le> unat x \<and> unat x < ?hi \<longleftrightarrow> vpn x = npages usz + 1" for x :: u32
    by (simp add: vpn_def div_nat_eqI) (auto intro: div_nat_eqI simp: dividend_less_times_div)
  have hi: "?hi \<le> 2 ^ 31" "unat u = ?hi" using U(2) lim(1) by simp_all
  have um: "\<forall>x. ?lo \<le> unat x \<and> unat x < ?hi \<longrightarrow> user_mapped k2 d x" using top pg by blast
  have rm: "?lo + args_room argv + 4 * (4 + length argv) \<le> ?hi" using room(1) by simp
  obtain s ptrs k3 k4 sp where p: "exec_args d u [] argv k2 = Inr (Some (s, ptrs), k3)" "sp = s - of_nat (4 * (3 + length ptrs + 1))"
    "copyout d sp (concat (map bytes32 (exec_ustack s ptrs))) k3 = Inr (0, k4)" "uimage kend S k0 d (npages u) k4 qs"
    "\<forall>x. pte_of k4 d x = pte_of k2 d x" "?lo \<le> unat sp" "unat sp < ?hi"
    "\<forall>k''. (\<forall>x. ?lo \<le> unat x \<and> unat x < ?hi \<longrightarrow> uread k'' d x = uread k4 d x) \<longrightarrow> main_frame k'' d sp argv"
    "\<forall>x. vpn x < npages u \<and> unat x < ?lo \<longrightarrow> uread k4 d x = uread k2 d x"
    using push_frame [OF e(2) um hi rm room(2)] by blast
  have um4: "user_mapped k4 d x \<longleftrightarrow> user_mapped k2 d x" for x using p(5) by (simp add: user_mapped_def)
  have "exec_stack kend d usz argv k = Inr (Some (u, sp), k4)"
    unfolding exec_stack_def Let_def u_def [symmetric] a(1) bindR_Inr prod.case if_not_P [OF N(3)] e(1) p(1) option.case p(2) [symmetric] p(3) by simp
  moreover have "uread k4 d x = uread k2 d x" if "vpn x < npages usz" for x
  proof -
    have "unat x < ?lo" using that by (simp add: vpn_def div_less_iff_less_mult mult.commute)
    then show ?thesis using p(9) that U(1) by simp
  qed
  moreover have "vpn sp = npages usz + 1" using p(6,7) pg by blast
  ultimately show ?thesis using u_def uk p(4) p(8) [unfolded pg] low top guard um4
    by (intro exI [of _ u] exI [of _ sp] exI [of _ k4] exI [of _ qs]) simp
qed

subsection \<open>Success\<close>

text \<open>The process after exec of a file: its program, its stack and its arguments.\<close>

definition runs_program :: "u8 list \<Rightarrow> u8 list list \<Rightarrow> eproc \<Rightarrow> kmem \<Rightarrow> bool" where
  "runs_program file argv p k \<longleftrightarrow> e_eip p = e_entry (elf_of file) \<and>
     (\<forall>x. unat x < segs_end (elf_loads file) 0 \<longrightarrow>
        user_mapped k (e_pgdir p) x \<and> uread k (e_pgdir p) x = segs_mem file (elf_loads file) (\<lambda>_. 0) (unat x)) \<and>
     (\<forall>x. e_sz p - 0x1000 \<le> x \<and> x < e_sz p \<longrightarrow> user_mapped k (e_pgdir p) x) \<and>
     e_sz p - 0x1000 \<le> e_esp p \<and> e_esp p < e_sz p \<and> main_frame k (e_pgdir p) (e_esp p) argv"

lemma exec_build_exact:
  assumes old: "vm_space kend k ps (e_pgdir p)" and ok: "data_ok data" "iunlockput pid ip fs = Inr fs'"
    and lay: "layout_ok fs" and ino: "inode_ok fs ip" and dat: "file = file_data fs (icache fs ! ip)" and elf: "elf_ok lim file"
    and lim: "lim \<le> 2 ^ 31 - 0x3000" "2051 + (lim + 4095) div 4096 < card (set ps)"
    and room: "args_room argv + 4 * (4 + length argv) \<le> 4096" "length argv \<le> 32"
  shows "\<exists>p' k'. exec_build kend data devsw pid ip path argv (elf_of file) (p, k, fs) = Inr (0, p', k', fs') \<and> e_name p' = exec_name path \<and>
    fresh_space kend ps k (e_pgdir p) p' k' \<and> runs_program file argv p' k'"
proof -
  have fr: "free_pages kend k ps" "KERNBASE < kend" using vm_spaceD(1,2) [OF old] vm_tablesD(1) by auto
  obtain d k1 qs where s: "setupkvm kend data k = Inr (d, k1)" "d \<noteq> 0" "uimage kend (set ps) k d (npages 0) k1 qs"
    using image_start [OF fr ok(1)] lim(2) by (auto simp: npages_def)
  have h0: "holds k1 d (npages 0) (\<lambda>_. 0)" "(0 :: u32) < KERNBASE" "unat (0 :: u32) \<le> lim" by (simp_all add: holds_def npages_def KERNBASE_def)
  note E = elf [unfolded elf_ok_def]
  have l: "lim < 2 ^ 31" "2049 + (lim + 4095) div 4096 < card (set ps)" using lim by simp_all
  have hd: "unat (e_phoff (elf_of file)) + 32 * unat (e_phnum (elf_of file)) \<le> length file"
    "list_all (load_ok lim file) (loads (hdrs_from file (unat (e_phoff (elf_of file))) (unat (e_phnum (elf_of file)))))"
    using E by (auto simp: elf_loads_def)
  obtain usz k2 rs where x: "exec_load kend devsw d ip (unat (e_phnum (elf_of file))) (e_phoff (elf_of file)) 0 (k1, fs) = Inr (Some usz, k2, fs)"
    "unat usz = segs_end (elf_loads file) 0" "usz < KERNBASE" "uimage kend (set ps) k d (npages usz) k2 rs"
    "holds k2 d (npages usz) (segs_mem file (elf_loads file) (\<lambda>_. 0))"
    using exec_load_exact [OF lay ino dat l s(3) h0(2,1,3) hd] unfolding elf_loads_def unat_0 by blast
  have ul: "unat usz \<le> lim"
  proof -
    have "list_all (\<lambda>ph. seg_end ph \<le> lim) (elf_loads file)" using E by (auto simp: load_ok_def elim: list.pred_mono_strong)
    from segs_end_le [OF this, of 0] show ?thesis using x(2) by simp
  qed
  then have np: "npages usz \<le> (lim + 4095) div 4096" unfolding npages_def by (intro div_le_mono) simp
  have np2: "npages usz + 2 < 2 ^ 19" "2051 + npages usz < card (set ps)" using np lim by simp_all
  obtain u sp k3 ts where st: "exec_stack kend d usz argv k2 = Inr (Some (u, sp), k3)" "u = PGROUNDUP usz + 2 * 4096" "u < KERNBASE"
    "uimage kend (set ps) k d (npages u) k3 ts" "\<forall>x. vpn x = npages usz \<longrightarrow> \<not> user_mapped k3 d x"
    "\<forall>x. vpn x < npages usz \<longrightarrow> user_mapped k3 d x \<and> uread k3 d x = segs_mem file (elf_loads file) (\<lambda>_. 0) (unat x)"
    "\<forall>x. vpn x = npages usz + 1 \<longrightarrow> user_mapped k3 d x" "vpn sp = npages usz + 1"
    "\<forall>k''. (\<forall>x. vpn x = npages usz + 1 \<longrightarrow> uread k'' d x = uread k3 d x) \<longrightarrow> main_frame k'' d sp argv"
    using exec_stack_exact [OF x(4,3,5) np2 room] by blast
  obtain k' ws where f: "freevm kend (e_pgdir p) k3 = Inr k'" "\<forall>va. pte_of k' d va = pte_of k3 d va"
    "\<forall>va. va < KERNBASE \<and> present (pte_of k3 d va) \<longrightarrow> uread k' d va = uread k3 d va"
    using free_other [OF st(4) old] by blast
  define p' where "p' = p\<lparr>e_name := exec_name path, e_pgdir := d, e_sz := u, e_eip := e_entry (elf_of file), e_esp := sp\<rparr>"
  have p': "e_pgdir p' = d" "e_sz p' = u" "e_esp p' = sp" "e_eip p' = e_entry (elf_of file)" "e_name p' = exec_name path" by (simp_all add: p'_def)
  have rn: "exec_build kend data devsw pid ip path argv (elf_of file) (p, k, fs) = Inr (0, p', k', fs')"
    unfolding exec_build_def p'_def using s x(1) ok(2) st(1) f(1) by simp
  have fresh: "fresh_space kend ps k (e_pgdir p) p' k'"
    by (rule fresh_spaceI [OF st(4) old f(1) st(2) x(3) st(3) _ p'(1,2)]) (use st(5) in blast)
  note N = stack_pages [OF x(3) st(2)]
  have rd: "uread k' d x = uread k3 d x" if "vpn x < npages u" for x using f(3) image_present [OF st(4) that] by blast
  have um: "user_mapped k' d x \<longleftrightarrow> user_mapped k3 d x" for x using f(2) by (simp add: user_mapped_def)
  have top: "u - 0x1000 \<le> x \<and> x < u \<longleftrightarrow> vpn x = npages usz + 1" for x
  proof -
    have "unat (u - 0x1000) = 4096 * (npages usz + 1)" using N(4) [OF st(3)] by (simp add: unat_sub word_le_nat_alt)
    then have "u - 0x1000 \<le> x \<and> x < u \<longleftrightarrow> 4096 * (npages usz + 1) \<le> unat x \<and> unat x < 4096 * (npages usz + 2)"
      using N(4) [OF st(3)] by (simp add: word_le_nat_alt word_less_nat_alt)
    then show ?thesis by (simp add: vpn_def) (auto intro: div_nat_eqI simp: dividend_less_times_div)
  qed
  have "main_frame k' d sp argv" using st(9) rd N(2) [OF st(3)] by simp
  moreover have "user_mapped k' d x \<and> uread k' d x = segs_mem file (elf_loads file) (\<lambda>_. 0) (unat x)" if "unat x < segs_end (elf_loads file) 0" for x
  proof -
    have "vpn x < npages usz" using vpn_npages [of x usz] that x(2) by simp
    then show ?thesis using st(6) rd [of x] um N(2) [OF st(3)] by simp
  qed
  ultimately have "runs_program file argv p' k'" unfolding runs_program_def p' using st(7,8) um top by blast
  then show ?thesis using rn fresh p'(5) by blast
qed

subsection \<open>A program\<close>

text \<open>A file with one segment of four bytes that takes eight in memory, in a file system of its own.\<close>

definition sample_elf :: "u8 list" where
  "sample_elf =
     [127, 69, 76, 70, 0, 0, 0, 0, 0, 0, 0, 0, 0, 0, 0, 0, 0, 0, 0, 0, 0, 0, 0, 0,
      2, 0, 0, 0, 52, 0, 0, 0, 0, 0, 0, 0, 0, 0, 0, 0, 0, 0, 0, 0, 1, 0, 0, 0, 0, 0, 0, 0,
      1, 0, 0, 0, 84, 0, 0, 0, 0, 0, 0, 0, 0, 0, 0, 0, 4, 0, 0, 0, 8, 0, 0, 0, 0, 0, 0, 0, 0, 0, 0, 0,
      10, 11, 12, 13]"

definition sample_prog :: "int \<Rightarrow> int option \<Rightarrow> fsys" where
  "sample_prog ref lock = sample_fs\<lparr>blk := (\<lambda>b. if b = 3 then 0x1F # replicate 511 0 else if b = 4 then sample_elf @ replicate 424 0 else replicate 512 0),
     icache := [\<lparr>i_inum = 1, i_ref = ref, i_lock = lock, i_valid = True, i_type = 2, i_major = 0, i_minor = 0, i_nlink = 1, i_size = 88,
       i_addrs = 4 # replicate 12 0\<rparr>]\<rparr>"

lemma sample_elf_length: "length sample_elf = 88"
  by (simp add: sample_elf_def)

lemma sample_elf_ok: "elf_ok 8 sample_elf" "elf_loads sample_elf = [proghdr_of (slice 52 32 sample_elf)]"
  "ph_vaddr (proghdr_of (slice 52 32 sample_elf)) = 0" "ph_off (proghdr_of (slice 52 32 sample_elf)) = 84"
  "ph_filesz (proghdr_of (slice 52 32 sample_elf)) = 4" "ph_memsz (proghdr_of (slice 52 32 sample_elf)) = 8" "e_entry (elf_of sample_elf) = 2"
proof -
  have f: "e_phoff (elf_of sample_elf) = 52" "e_phnum (elf_of sample_elf) = 1" "e_magic (elf_of sample_elf) = ELF_MAGIC"
    by (simp_all add: elf_of_def elfhdr_of_def sample_elf_def get32_def slice_def word32_def word16_def)
  let ?ph = "proghdr_of (slice 52 32 sample_elf)"
  show e: "e_entry (elf_of sample_elf) = 2" by (simp add: elf_of_def elfhdr_of_def sample_elf_def get32_def slice_def word32_def word16_def)
  show p: "ph_vaddr ?ph = 0" "ph_off ?ph = 84" "ph_filesz ?ph = 4" "ph_memsz ?ph = 8"
    by (simp_all add: proghdr_of_def sample_elf_def get32_def slice_def word32_def)
  have "ph_type ?ph = 1" by (simp add: proghdr_of_def sample_elf_def get32_def slice_def word32_def)
  then show l: "elf_loads sample_elf = [?ph]" by (simp add: elf_loads_def f loads_def)
  show "elf_ok 8 sample_elf" unfolding elf_ok_def l by (simp add: f sample_elf_length load_ok_def p seg_end_def)
qed

lemma sample_prog_used: "b < 20 \<Longrightarrow> used (sample_prog r l) b \<longleftrightarrow> b < 5"
proof -
  assume b: "b < 20"
  have "\<forall>b \<in> set [0..<20]. used (sample_prog r l) b \<longleftrightarrow> b < 5"
    by (simp add: upt_rec used_def BBLOCK_def sample_fs_def sample_prog_def block_bit_iff bit_simps)
  with b show ?thesis by simp
qed

lemma sample_prog_layout: "layout_ok (sample_prog r l)"
proof -
  have "data_start (sample_prog r l) = 4" "fs_size (sample_prog r l) = 20" by (simp_all add: data_start_def sample_fs_def sample_prog_def)
  then show ?thesis using sample_prog_used by (auto simp: layout_ok_def) (simp add: sample_prog_def sample_elf_length)
qed

lemma sample_prog_faddr: "m < MAXFILE \<Longrightarrow> faddr (sample_prog r l) (icache (sample_prog r l) ! 0) m = (if m = 0 then 4 else 0)"
  by (auto simp: faddr_def sample_prog_def nth_Cons')

lemma sample_prog_inode: "inode_ok (sample_prog r l) 0"
proof -
  let ?s = "sample_prog r l"
  have f: "data_start ?s = 4" "fs_size ?s = 20" by (simp_all add: data_start_def sample_fs_def sample_prog_def)
  have i: "ind_block (icache ?s ! 0) = 0" by (simp add: ind_block_def sample_prog_def)
  have "\<exists>bn < MAXFILE. faddr ?s (icache ?s ! 0) bn = 4" by (rule exI [of _ 0]) (simp add: sample_prog_faddr)
  moreover have "b = 4" if "b \<noteq> 0" "bn < MAXFILE" "faddr ?s (icache ?s ! 0) bn = b" for b bn
    using that sample_prog_faddr [OF that(2)] by (simp split: if_splits)
  ultimately have bl: "file_blocks ?s (icache ?s ! 0) = {4}" unfolding file_blocks_def i by auto
  have "file_ok ?s (icache ?s ! 0)"
    using sample_prog_used [of 4] sample_prog_faddr i unfolding file_ok_def bl f by (simp add: sample_prog_def)
  moreover have "no_holes ?s (icache ?s ! 0)"
    using sample_prog_faddr [of 0] by (auto simp: no_holes_def sample_prog_def)
  ultimately show ?thesis by (simp add: inode_ok_def) (simp add: sample_prog_def sample_fs_def IBLOCK_def)
qed

lemma sample_prog_data: "file_data (sample_prog r l) (icache (sample_prog r l) ! 0) = sample_elf"
proof (rule nth_equalityI)
  show n: "length (file_data (sample_prog r l) (icache (sample_prog r l) ! 0)) = length sample_elf"
    by (simp add: file_data_def sample_elf_length) (simp add: sample_prog_def)
  show "file_data (sample_prog r l) (icache (sample_prog r l) ! 0) ! i = sample_elf ! i"
    if "i < length (file_data (sample_prog r l) (icache (sample_prog r l) ! 0))" for i
  proof -
    have i: "i < 88" using that n sample_elf_length by simp
    then have "fcont (sample_prog r l) (icache (sample_prog r l) ! 0) i = blk (sample_prog r l) 4 ! i"
      by (simp add: fcont_def sample_prog_faddr)
    then show ?thesis using i that by (simp add: file_data_def) (simp add: sample_prog_def nth_append sample_elf_length)
  qed
qed

lemma sample_prog_calls:
  "namei 1 0 [] [47] (sample_prog 1 None) = Inr (Some 0, sample_prog 2 None)" "ilock 1 0 (sample_prog 2 None) = Inr (sample_prog 2 (Some 1))"
  "iunlockput 1 0 (sample_prog 2 (Some 1)) = Inr (sample_prog 1 None)"
  by (simp_all add: sample_prog_def namei_def namex_def hd0_def iget_def upd_inode_def namex_loop.simps skipelem_def ilock_def
      iunlockput_def iunlock_def iput_def Let_def)

lemma sample_process:
  "\<exists>k ps d. vm_space 0x80200000 k ps d \<and> 2900 < card (set ps)"
proof -
  obtain k ps where k: "free_pages 0x80200000 k ps" "card (set ps) = 4000" using many_pages [of 4000] by auto
  have d: "data_ok 0x80108000" by (simp add: data_ok_def KERNLINK_def KERNBASE_def EXTMEM_def V2P_def PHYSTOP_def)
  have kb: "KERNBASE < (0x80200000 :: u32)" by (simp add: KERNBASE_def)
  obtain r k' qs where r: "uimage 0x80200000 (set ps) k r 0 k' qs" using image_start [OF k(1) kb d] k(2) by auto
  have "1024 + (1900 - 0) < card (set qs)" by (rule image_enough [OF r]) (use k(2) in simp_all)
  then have "2900 < card (set qs)" by simp
  then show ?thesis using imageD(1) [OF r] by blast
qed

lemma exec_exact:
  assumes "vm_space kend k ps (e_pgdir p)" "data_ok data"
    and fs: "namei pid cwd junk path fs = Inr (Some ip, fs0)" "ilock pid ip fs0 = Inr fs1" "iunlockput pid ip fs1 = Inr fs2"
    and fl: "layout_ok fs1" "inode_ok fs1 ip" "file = file_data fs1 (icache fs1 ! ip)" and elf: "elf_ok lim file"
    and "lim \<le> 2 ^ 31 - 0x3000" "2051 + (lim + 4095) div 4096 < card (set ps)"
    and "args_room argv + 4 * (4 + length argv) \<le> 4096" "length argv \<le> 32"
  shows "\<exists>p' k'. exec kend data devsw pid cwd junk path argv (p, k, fs) = Inr (0, p', k', fs2) \<and> e_name p' = exec_name path \<and>
    fresh_space kend ps k (e_pgdir p) p' k' \<and> runs_program file argv p' k'"
proof -
  note E = elf [unfolded elf_ok_def]
  have "readi devsw ip 0 52 fs1 = Inr (52, take 52 file, fs1)" using read_header [OF fl, of 0 52 devsw] E by (simp add: slice_def)
  then have "exec kend data devsw pid cwd junk path argv (p, k, fs) = exec_build kend data devsw pid ip path argv (elf_of file) (p, k, fs1)"
    using fs E by (simp add: exec_def elf_of_def)
  then show ?thesis using exec_build_exact [OF assms(1,2) fs(3) fl elf assms(10-13)] by simp
qed

lemma sample_exec:
  assumes "vm_space 0x80200000 k ps (e_pgdir p)" "2900 < card (set ps)"
  shows "\<exists>p' k'. exec 0x80200000 0x80108000 (\<lambda>_. None) 1 0 [] [47] [[104, 105], []] (p, k, sample_prog 1 None) = Inr (0, p', k', sample_prog 1 None)"
proof -
  have d: "data_ok 0x80108000" by (simp add: data_ok_def KERNLINK_def KERNBASE_def EXTMEM_def V2P_def PHYSTOP_def)
  show ?thesis
    using exec_exact [OF assms(1) d sample_prog_calls sample_prog_layout sample_prog_inode sample_prog_data [symmetric] sample_elf_ok(1),
        of "[[104, 105], []]" "\<lambda>_. None"] assms(2) by (auto simp: args_room_def)
qed

subsection \<open>Properties\<close>

text \<open>
  C9: exec starts a program. When the file is a well-formed executable, the arguments fit into a page,
  there are at most 32 of them, and there are enough free pages, exec returns 0. The process then has a new address space in
  which it sees the bytes of the file in each segment and zeros in the rest, and a stack of one page
  above an inaccessible one; its next instruction is the entry of the file, and its stack pointer is at a frame with a return
  address that faults, the number of arguments and a null-terminated vector of pointers to copies of the strings. The
  pages of the old address space are free, and none is lost.
\<close>

theorem exec_starts_program:
  assumes "vm_space kend k ps (e_pgdir p)" "data_ok data"
    "namei pid cwd junk path fs = Inr (Some ip, fs0)" "ilock pid ip fs0 = Inr fs1" "iunlockput pid ip fs1 = Inr fs2"
    "layout_ok fs1" "inode_ok fs1 ip" "file = file_data fs1 (icache fs1 ! ip)" "elf_ok lim file"
    "lim \<le> 2 ^ 31 - 0x3000" "2051 + (lim + 4095) div 4096 < card (set ps)"
    "args_room argv + 4 * (4 + length argv) \<le> 4096" "length argv \<le> 32"
  shows "\<exists>p' k'. exec kend data devsw pid cwd junk path argv (p, k, fs) = Inr (0, p', k', fs2) \<and> e_name p' = exec_name path \<and>
    fresh_space kend ps k (e_pgdir p) p' k' \<and> runs_program file argv p' k'"
  by (rule exec_exact [OF assms])

theorem exec_starts_program_witness:
  "\<exists>k ps p p' k'. exec 0x80200000 0x80108000 (\<lambda>_. None) 1 0 [] [47] [[104, 105], []] (p, k, sample_prog 1 None) = Inr (0, p', k', sample_prog 1 None) \<and>
     vm_space 0x80200000 k ps (e_pgdir p) \<and> e_eip p' = 2 \<and> uread k' (e_pgdir p') 3 = 13 \<and> uread k' (e_pgdir p') 5 = 0 \<and> uword k' (e_pgdir p') (e_esp p' + 4) = 2"
proof -
  obtain k ps d where k: "vm_space 0x80200000 k ps d" "2900 < card (set ps)" using sample_process by blast
  define p where "p = \<lparr>e_pgdir = d, e_sz = 0, e_eip = 0, e_esp = 0, e_name = []\<rparr>"
  have vm: "vm_space 0x80200000 k ps (e_pgdir p)" using k(1) by (simp add: p_def)
  have dt: "data_ok 0x80108000" by (simp add: data_ok_def KERNLINK_def KERNBASE_def EXTMEM_def V2P_def PHYSTOP_def)
  obtain p' k' where e: "exec 0x80200000 0x80108000 (\<lambda>_. None) 1 0 [] [47] [[104, 105], []] (p, k, sample_prog 1 None) = Inr (0, p', k', sample_prog 1 None)"
    and r: "runs_program sample_elf [[104, 105], []] p' k'"
    using exec_starts_program [OF vm dt sample_prog_calls sample_prog_layout sample_prog_inode sample_prog_data [symmetric] sample_elf_ok(1),
        of "[[104, 105], []]" "\<lambda>_. None"] k(2) by (auto simp: args_room_def)
  have x: "uread k' (e_pgdir p') x = segs_mem sample_elf (elf_loads sample_elf) (\<lambda>_. 0) (unat x)" if "unat x < 8" for x
    using r that unfolding runs_program_def sample_elf_ok(2) by (simp add: segs_end_def seg_end_def sample_elf_ok)
  have "uread k' (e_pgdir p') 3 = 13" "uread k' (e_pgdir p') 5 = 0"
    using x [of 3] x [of 5] unfolding sample_elf_ok(2) by (simp_all add: segs_mem_def put_seg_def sample_elf_ok) (simp add: sample_elf_def)
  moreover have "e_eip p' = 2" "uword k' (e_pgdir p') (e_esp p' + 4) = 2"
    using r by (simp_all add: runs_program_def sample_elf_ok main_frame_def)
  ultimately show ?thesis using e vm by blast
qed

text \<open>
  C10: exec is all or nothing. Whatever the file contains and whatever the arguments are, a call that returns -1 has left the
  process, its address space and its memory as they were and all pages that were free are free again; a call that
  returns 0 has given the process a complete new address space, mapped exactly below its size, with a page
  below the stack and the whole kernel closed to the user, and has freed the old one.
\<close>

theorem exec_all_or_nothing:
  assumes "vm_space kend k ps (e_pgdir p)" "data_ok data" "devsw_ok devsw"
    "exec kend data devsw pid cwd junk path argv (p, k, fs) = Inr (r, p', k', fs')"
  shows "r = -1 \<and> p' = p \<and> space_kept kend (e_pgdir p) ps k k' \<or> r = 0 \<and> fresh_space kend ps k (e_pgdir p) p' k'"
  by (rule exec_outcome [OF assms])

theorem exec_all_or_nothing_witness:
  "\<exists>k ps p p' k'. exec 0x80200000 0x80108000 (\<lambda>_. None) 1 0 [] [47] [[104, 105], []] (p, k, sample_prog 1 None) = Inr (0, p', k', sample_prog 1 None) \<and>
     fresh_space 0x80200000 ps k (e_pgdir p) p' k'"
proof -
  obtain k ps d where k: "vm_space 0x80200000 k ps d" "2900 < card (set ps)" using sample_process by blast
  define p where "p = \<lparr>e_pgdir = d, e_sz = 0, e_eip = 0, e_esp = 0, e_name = []\<rparr>"
  have vm: "vm_space 0x80200000 k ps (e_pgdir p)" using k(1) by (simp add: p_def)
  have dt: "data_ok 0x80108000" by (simp add: data_ok_def KERNLINK_def KERNBASE_def EXTMEM_def V2P_def PHYSTOP_def)
  have dv: "devsw_ok (\<lambda>_. None)" by (simp add: devsw_ok_def)
  obtain p' k' where e: "exec 0x80200000 0x80108000 (\<lambda>_. None) 1 0 [] [47] [[104, 105], []] (p, k, sample_prog 1 None) = Inr (0, p', k', sample_prog 1 None)"
    using sample_exec [OF vm k(2)] by blast
  from exec_all_or_nothing [OF vm dt dv e] have "fresh_space 0x80200000 ps k (e_pgdir p) p' k'" by simp
  then show ?thesis using e by blast
qed

end
