(* ===== verification/Umalloc.thy ===== *)
theory Umalloc
  imports Kalloc "HOL-Library.Monad_Syntax"
begin

text \<open>
  The allocator of user programs (umalloc.c). A header of two words, the next free block and the size
  in headers, stands before each block, in the memory of the process; pointers are addresses. The loops run
  around a circular list, so they are partial functions and None is a loop that does not end. Whether
  the kernel can grow the process by some bytes is the argument \<open>grow\<close>.
\<close>

subsection \<open>Operations\<close>

record um =
  um_mem :: memory
  um_freep :: u32
  um_brk :: u32

definition hptr :: "um \<Rightarrow> u32 \<Rightarrow> u32" where
  "hptr s a = load_le32 (um_mem s) a"

definition hsize :: "um \<Rightarrow> u32 \<Rightarrow> u32" where
  "hsize s a = load_le32 (um_mem s) (a + 4)"

definition set_hptr :: "u32 \<Rightarrow> u32 \<Rightarrow> um \<Rightarrow> um" where
  "set_hptr a v s = s\<lparr>um_mem := store_le32 (um_mem s) a v\<rparr>"

definition set_hsize :: "u32 \<Rightarrow> u32 \<Rightarrow> um \<Rightarrow> um" where
  "set_hsize a v s = s\<lparr>um_mem := store_le32 (um_mem s) (a + 4) v\<rparr>"

definition sbrk :: "(u32 \<Rightarrow> u32 \<Rightarrow> bool) \<Rightarrow> u32 \<Rightarrow> um \<Rightarrow> u32 \<times> um" where
  "sbrk grow n s = (if grow (um_brk s) n then (um_brk s, s\<lparr>um_brk := um_brk s + n\<rparr>) else (- 1, s))"

partial_function (option) free_scan :: "um \<Rightarrow> u32 \<Rightarrow> u32 \<Rightarrow> u32 option" where
  "free_scan s bp p =
     (if bp > p \<and> bp < hptr s p then Some p
      else if p \<ge> hptr s p \<and> (bp > p \<or> bp < hptr s p) then Some p
      else free_scan s bp (hptr s p))"

definition free_right :: "u32 \<Rightarrow> u32 \<Rightarrow> um \<Rightarrow> um" where
  "free_right bp p s =
     (if bp + 8 * hsize s bp = hptr s p
      then let s1 = set_hsize bp (hsize s bp + hsize s (hptr s p)) s
           in set_hptr bp (hptr s1 (hptr s1 p)) s1
      else set_hptr bp (hptr s p) s)"

definition free_left :: "u32 \<Rightarrow> u32 \<Rightarrow> um \<Rightarrow> um" where
  "free_left bp p s =
     (if p + 8 * hsize s p = bp
      then let s1 = set_hsize p (hsize s p + hsize s bp) s in set_hptr p (hptr s1 bp) s1
      else set_hptr p bp s)"

definition free :: "u32 \<Rightarrow> um \<Rightarrow> um option" where
  "free ap s =
     (let bp = ap - 8 in
      do { p \<leftarrow> free_scan s bp (um_freep s);
           Some ((free_left bp p (free_right bp p s))\<lparr>um_freep := p\<rparr>) })"

definition morecore :: "(u32 \<Rightarrow> u32 \<Rightarrow> bool) \<Rightarrow> u32 \<Rightarrow> um \<Rightarrow> (u32 \<times> um) option" where
  "morecore grow nu s =
     (let nu = (if nu < 4096 then 4096 else nu);
          (p, s) = sbrk grow (nu * 8) s
      in if p = - 1 then Some (0, s)
         else do { s \<leftarrow> free (p + 8) (set_hsize p nu s); Some (um_freep s, s) })"

text \<open>Taking nunits from the block p, whose predecessor in the list is prevp.\<close>

definition take_block :: "u32 \<Rightarrow> u32 \<Rightarrow> u32 \<Rightarrow> um \<Rightarrow> u32 \<times> um" where
  "take_block nunits prevp p s =
     (if hsize s p = nunits then (p + 8, (set_hptr prevp (hptr s p) s)\<lparr>um_freep := prevp\<rparr>)
      else
        let s = set_hsize p (hsize s p - nunits) s;
            p = p + 8 * hsize s p
        in (p + 8, (set_hsize p nunits s)\<lparr>um_freep := prevp\<rparr>))"

partial_function (option) malloc_loop ::
  "(u32 \<Rightarrow> u32 \<Rightarrow> bool) \<Rightarrow> u32 \<Rightarrow> u32 \<Rightarrow> u32 \<Rightarrow> um \<Rightarrow> (u32 \<times> um) option" where
  "malloc_loop grow nunits prevp p s =
     (if hsize s p \<ge> nunits then Some (take_block nunits prevp p s)
      else if p = um_freep s then
        do { (p, s) \<leftarrow> morecore grow nunits s;
             if p = 0 then Some (0, s) else malloc_loop grow nunits p (hptr s p) s }
      else malloc_loop grow nunits p (hptr s p) s)"

definition malloc :: "(u32 \<Rightarrow> u32 \<Rightarrow> bool) \<Rightarrow> u32 \<Rightarrow> u32 \<Rightarrow> um \<Rightarrow> (u32 \<times> um) option" where
  "malloc grow base nbytes s =
     (let nunits = (nbytes + 8 - 1) div 8 + 1;
          s = (if um_freep s = 0 then set_hsize base 0 ((set_hptr base base s)\<lparr>um_freep := base\<rparr>) else s)
      in malloc_loop grow nunits (um_freep s) (hptr s (um_freep s)) s)"

subsection \<open>Headers in memory\<close>

lemma load_store_apart:
  assumes "x + 4 \<le> y \<or> y + 4 \<le> x" "x < 2 ^ 32 - 4" "y < 2 ^ 32 - 4"
  shows "load_le32 (store_le32 m (of_nat x) v) (of_nat y) = load_le32 m (of_nat y)"
proof (rule load_le32_cong)
  fix i :: nat
  assume i: "i < 4"
  have ne: "of_nat y + of_nat i \<noteq> (of_nat x + of_nat j :: u32)" if "j < 4" for j
  proof
    assume "of_nat y + of_nat i = (of_nat x + of_nat j :: u32)"
    then have "(of_nat (y + i) :: u32) = of_nat (x + j)" by simp
    then have "unat (of_nat (y + i) :: u32) = unat (of_nat (x + j) :: u32)" by simp
    moreover have "unat (of_nat (y + i) :: u32) = y + i" "unat (of_nat (x + j) :: u32) = x + j"
      using unat_of_nat_id [of "y + i", where 'a = 32] unat_of_nat_id [of "x + j", where 'a = 32] i that assms(2,3) by simp_all
    ultimately show False using assms(1) i that by linarith
  qed
  show "store_le32 m (of_nat x) v (of_nat y + of_nat i) = m (of_nat y + of_nat i)"
    using ne [of 0] ne [of 1] ne [of 2] ne [of 3] by (simp add: store_le32_def)
qed

text \<open>Two header addresses below 2 GB, equal or with their headers apart.\<close>

definition hdrs :: "nat \<Rightarrow> nat \<Rightarrow> bool" where
  "hdrs x y \<longleftrightarrow> x < 2 ^ 31 \<and> y < 2 ^ 31 \<and> (x = y \<or> x + 8 \<le> y \<or> y + 8 \<le> x)"

abbreviation (input) nx :: "um \<Rightarrow> nat \<Rightarrow> u32" where "nx s x \<equiv> hptr s (of_nat x)"
abbreviation (input) us :: "um \<Rightarrow> nat \<Rightarrow> u32" where "us s x \<equiv> hsize s (of_nat x)"

lemma load_store_field:
  assumes "hdrs x y" "i < 8" "j < 8" "i mod 4 = 0" "j mod 4 = 0"
  shows "load_le32 (store_le32 m (of_nat (x + i)) v) (of_nat (y + j)) =
    (if x = y \<and> i = j then v else load_le32 m (of_nat (y + j)))"
proof (cases "x = y \<and> i = j")
  case True
  then show ?thesis by (simp add: load_store_le32)
next
  case False
  have "i = 0 \<or> i = 4" "j = 0 \<or> j = 4" using assms(2-5) by presburger+
  then have "x + i + 4 \<le> y + j \<or> y + j + 4 \<le> x + i" using assms(1) False unfolding hdrs_def by auto
  then show ?thesis using False load_store_apart [of "x + i" "y + j" m v] assms(1-3) unfolding hdrs_def by auto
qed

lemma header_fields:
  assumes "hdrs x y"
  shows "nx (set_hptr (of_nat x) v s) y = (if y = x then v else nx s y)" "us (set_hptr (of_nat x) v s) y = us s y"
    "nx (set_hsize (of_nat x) v s) y = nx s y" "us (set_hsize (of_nat x) v s) y = (if y = x then v else us s y)"
  using load_store_field [OF assms, of 0 0 "um_mem s" v] load_store_field [OF assms, of 0 4 "um_mem s" v]
    load_store_field [OF assms, of 4 0 "um_mem s" v] load_store_field [OF assms, of 4 4 "um_mem s" v]
  by (auto simp: hptr_def hsize_def set_hptr_def set_hsize_def add.commute)

lemma header_other [simp]:
  "um_freep (set_hptr a v s) = um_freep s" "um_freep (set_hsize a v s) = um_freep s"
  "um_brk (set_hptr a v s) = um_brk s" "um_brk (set_hsize a v s) = um_brk s"
  "hptr (s\<lparr>um_freep := q\<rparr>) a = hptr s a" "hsize (s\<lparr>um_freep := q\<rparr>) a = hsize s a"
  "hptr (s\<lparr>um_brk := q\<rparr>) a = hptr s a" "hsize (s\<lparr>um_brk := q\<rparr>) a = hsize s a"
  by (simp_all add: set_hptr_def set_hsize_def hptr_def hsize_def)

text \<open>A header is changed by stores into it only.\<close>

definition kept :: "nat set \<Rightarrow> um \<Rightarrow> um \<Rightarrow> bool" where
  "kept X s s' \<longleftrightarrow> (\<forall>a. (\<forall>x \<in> X. \<not> (x \<le> unat a \<and> unat a < x + 8)) \<longrightarrow> um_mem s' a = um_mem s a)"

lemma kept_refl: "kept X s s"
  by (simp add: kept_def)

lemma kept_trans: "kept X s s1 \<Longrightarrow> kept Y s1 s2 \<Longrightarrow> kept (X \<union> Y) s s2"
  by (auto simp: kept_def)

lemma kept_mono: "kept X s s' \<Longrightarrow> X \<subseteq> Y \<Longrightarrow> kept Y s s'"
  by (auto simp: kept_def)

lemma kept_stores:
  assumes "x < 2 ^ 31"
  shows "kept {x} s (set_hptr (of_nat x) v s)" "kept {x} s (set_hsize (of_nat x) v s)"
proof -
  have "store_le32 m (of_nat (x + i)) v a = m a" if "i \<le> 4" "\<not> (x \<le> unat a \<and> unat a < x + 8)" for m a i
  proof -
    have ne: "a \<noteq> of_nat (x + i) + of_nat j" if "j < 4" for j
    proof
      assume "a = of_nat (x + i) + of_nat j"
      then have "a = of_nat (x + i + j)" by simp
      then have "unat a = x + i + j" using unat_of_nat_id [of "x + i + j", where 'a = 32] \<open>i \<le> 4\<close> that assms by simp
      then show False using \<open>\<not> (x \<le> unat a \<and> unat a < x + 8)\<close> \<open>i \<le> 4\<close> that by auto
    qed
    show ?thesis unfolding store_le32_def using ne [of 0] ne [of 1] ne [of 2] ne [of 3] by (simp del: of_nat_add)
  qed
  from this [of 0] this [of 4] show "kept {x} s (set_hptr (of_nat x) v s)" "kept {x} s (set_hsize (of_nat x) v s)"
    by (auto simp: kept_def set_hptr_def set_hsize_def add.commute)
qed

subsection \<open>Blocks\<close>

type_synonym block = "nat \<times> nat"

definition span :: "block \<Rightarrow> nat set" where
  "span b = {fst b ..< fst b + 8 * snd b}"

text \<open>Blocks, none of them empty, that tile the heap from lo up to hi.\<close>

definition tile :: "block set \<Rightarrow> nat \<Rightarrow> nat \<Rightarrow> bool" where
  "tile B lo hi \<longleftrightarrow> (\<forall>b \<in> B. 0 < snd b) \<and> (\<forall>b \<in> B. \<forall>c \<in> B. b \<noteq> c \<longrightarrow> span b \<inter> span c = {}) \<and> \<Union> (span ` B) = {lo..<hi}"

lemma tileD:
  assumes "tile B lo hi" "(a, n) \<in> B"
  shows "0 < n" "lo \<le> a" "a + 8 * n \<le> hi"
    and "(b, m) \<in> B \<Longrightarrow> (a, n) \<noteq> (b, m) \<Longrightarrow> a + 8 * n \<le> b \<or> b + 8 * m \<le> a"
proof -
  show n: "0 < n" using assms by (auto simp: tile_def)
  have "span (a, n) \<subseteq> {lo..<hi}" using assms by (auto simp: tile_def)
  then have "a \<in> {lo..<hi}" "a + 8 * n - 1 \<in> {lo..<hi}" using n by (auto simp: span_def)
  then show "lo \<le> a" "a + 8 * n \<le> hi" by auto
  show "a + 8 * n \<le> b \<or> b + 8 * m \<le> a" if "(b, m) \<in> B" "(a, n) \<noteq> (b, m)"
  proof (rule ccontr)
    assume "\<not> (a + 8 * n \<le> b \<or> b + 8 * m \<le> a)"
    moreover have "0 < m" using assms(1) that(1) by (auto simp: tile_def)
    ultimately have "max a b \<in> span (a, n) \<inter> span (b, m)" using n by (auto simp: span_def)
    then show False using assms that unfolding tile_def by blast
  qed
qed

lemma tile_split:
  assumes "tile (insert (a, n + m) B) lo hi" "(a, n + m) \<notin> B" "0 < n" "0 < m"
  shows "tile (insert (a, n) (insert (a + 8 * n, m) B)) lo hi" "(a, n) \<notin> B" "(a + 8 * n, m) \<notin> B"
proof -
  have sp: "span (a, n + m) = span (a, n) \<union> span (a + 8 * n, m)" by (auto simp: span_def)
  have dj: "span (a, n) \<inter> span (a + 8 * n, m) = {}" by (auto simp: span_def)
  have out: "span (a, n + m) \<inter> span c = {}" "0 < snd c" if "c \<in> B" for c using assms(1,2) that unfolding tile_def by auto
  have ne: "span (a, n) \<noteq> {}" "span (a + 8 * n, m) \<noteq> {}" using assms(3,4) by (auto simp: span_def)
  show "(a, n) \<notin> B" "(a + 8 * n, m) \<notin> B" using out(1) sp ne by blast+
  have "\<Union> (span ` insert (a, n) (insert (a + 8 * n, m) B)) = {lo..<hi}"
    using assms(1) sp unfolding tile_def by auto
  moreover have "span b \<inter> span c = {}" if "b \<in> insert (a, n) (insert (a + 8 * n, m) B)" "c \<in> insert (a, n) (insert (a + 8 * n, m) B)" "b \<noteq> c" for b c
    using that dj out(1) sp assms(1) unfolding tile_def by blast
  ultimately show "tile (insert (a, n) (insert (a + 8 * n, m) B)) lo hi"
    unfolding tile_def using assms(3,4) out(2) by auto
qed

lemma tile_join:
  assumes "tile (insert (a, n) (insert (a + 8 * n, m) B)) lo hi" "(a, n) \<notin> B" "(a + 8 * n, m) \<notin> B"
  shows "tile (insert (a, n + m) B) lo hi" "(a, n + m) \<notin> B"
proof -
  have pos: "0 < n" "0 < m" using assms(1) by (auto simp: tile_def)
  have sp: "span (a, n + m) = span (a, n) \<union> span (a + 8 * n, m)" by (auto simp: span_def)
  have out: "span (a, n + m) \<inter> span c = {}" if "c \<in> B" for c
  proof -
    have "c \<noteq> (a, n)" "c \<noteq> (a + 8 * n, m)" using that assms(2,3) by auto
    then have "span (a, n) \<inter> span c = {}" "span (a + 8 * n, m) \<inter> span c = {}" using assms(1) that unfolding tile_def by blast+
    then show ?thesis unfolding sp by blast
  qed
  have "span (a, n + m) \<noteq> {}" using pos by (auto simp: span_def)
  then show "(a, n + m) \<notin> B" using out by blast
  have "\<Union> (span ` insert (a, n + m) B) = {lo..<hi}" using assms(1) sp unfolding tile_def by auto
  moreover have "span b \<inter> span c = {}" if "b \<in> insert (a, n + m) B" "c \<in> insert (a, n + m) B" "b \<noteq> c" for b c
    using that out assms(1) unfolding tile_def by blast
  ultimately show "tile (insert (a, n + m) B) lo hi" unfolding tile_def using pos assms(1) unfolding tile_def by auto
qed

lemma tile_extend:
  assumes "tile B lo hi" "0 < n" "lo \<le> hi"
  shows "tile (insert (hi, n) B) lo (hi + 8 * n)" "(hi, n) \<notin> B"
proof -
  have sub: "span b \<subseteq> {lo..<hi}" if "b \<in> B" for b using assms(1) that by (auto simp: tile_def)
  have new: "span (hi, n) = {hi..<hi + 8 * n}" by (simp add: span_def)
  then have dj: "span b \<inter> span (hi, n) = {}" if "b \<in> B" for b using sub [OF that] by auto
  show "(hi, n) \<notin> B" using dj new assms(2) by force
  have "\<Union> (span ` insert (hi, n) B) = {lo..<hi + 8 * n}" using assms new unfolding tile_def by auto
  then show "tile (insert (hi, n) B) lo (hi + 8 * n)" unfolding tile_def using assms dj unfolding tile_def by auto
qed

end
