(* ===== verification/UmallocInv.thy ===== *)
theory UmallocInv
  imports Umalloc
begin

text \<open>
  The invariant of the user allocator: blocks tile the heap, the free ones are on the circular list
  in the order of their addresses, no two of them touch.
\<close>

subsection \<open>The circular list\<close>

fun chain :: "um \<Rightarrow> nat list \<Rightarrow> bool" where
  "chain s (x # y # xs) \<longleftrightarrow> nx s x = of_nat y \<and> chain s (y # xs)"
| "chain s xs \<longleftrightarrow> True"

lemma chain_append: "chain s (xs @ y # ys) \<longleftrightarrow> chain s (xs @ [y]) \<and> chain s (y # ys)"
  by (induction s xs rule: chain.induct) auto

lemma chain_last: "chain s (xs @ [x, y]) \<longleftrightarrow> chain s (xs @ [x]) \<and> nx s x = of_nat y"
  using chain_append [of s xs x "[y]"] by simp

lemma chain_cong:
  "(\<And>x. x \<in> set (butlast xs) \<Longrightarrow> nx s' x = nx s x) \<Longrightarrow> chain s' xs \<longleftrightarrow> chain s xs"
  by (induction s xs rule: chain.induct) auto

definition heap :: "nat \<Rightarrow> nat \<Rightarrow> um \<Rightarrow> block list \<Rightarrow> block set \<Rightarrow> bool" where
  "heap base lo s fs A \<longleftrightarrow> base \<noteq> 0 \<and> base + 8 \<le> lo \<and> lo \<le> unat (um_brk s) \<and> unat (um_brk s) < 2 ^ 31 \<and>
     tile (set fs \<union> A) lo (unat (um_brk s)) \<and> set fs \<inter> A = {} \<and>
     (\<forall>b \<in> set fs \<union> A. us s (fst b) = of_nat (snd b)) \<and> us s base = 0 \<and>
     chain s (base # map fst fs @ [base]) \<and> sorted_wrt (\<lambda>b c. fst b + 8 * snd b < fst c) fs \<and>
     um_freep s \<in> of_nat ` set (base # map fst fs)"

lemma heapD:
  assumes "heap base lo s fs A"
  shows "base \<noteq> 0" "base + 8 \<le> lo" "lo \<le> unat (um_brk s)" "unat (um_brk s) < 2 ^ 31" "tile (set fs \<union> A) lo (unat (um_brk s))"
    "set fs \<inter> A = {}" "b \<in> set fs \<union> A \<Longrightarrow> us s (fst b) = of_nat (snd b)" "us s base = 0"
    "chain s (base # map fst fs @ [base])" "sorted_wrt (\<lambda>b c. fst b + 8 * snd b < fst c) fs"
    "um_freep s \<in> of_nat ` set (base # map fst fs)"
  using assms by (auto simp: heap_def)

lemma heapI:
  assumes "base \<noteq> 0" "base + 8 \<le> lo" "lo \<le> unat (um_brk s)" "unat (um_brk s) < 2 ^ 31" "tile (set fs \<union> A) lo (unat (um_brk s))"
    "set fs \<inter> A = {}" "\<And>b. b \<in> set fs \<union> A \<Longrightarrow> us s (fst b) = of_nat (snd b)" "us s base = 0"
    "chain s (base # map fst fs @ [base])" "sorted_wrt (\<lambda>b c. fst b + 8 * snd b < fst c) fs"
    "um_freep s = of_nat p" "p \<in> set (base # map fst fs)"
  shows "heap base lo s fs A"
proof -
  have "um_freep s \<in> of_nat ` set (base # map fst fs)" unfolding assms(11) by (rule imageI [OF assms(12)])
  then show ?thesis unfolding heap_def using assms(1-10) by blast
qed

text \<open>Headers of the heap do not overlap.\<close>

lemma tile_hdrs:
  assumes "tile B lo hi" "base + 8 \<le> lo" "hi < 2 ^ 31" "lo \<le> hi" "x \<in> insert base (fst ` B)" "y \<in> insert base (fst ` B)"
  shows "hdrs x y"
proof -
  have bnd: "lo \<le> x \<and> x + 8 \<le> hi" if "x \<in> fst ` B" for x
    using that tileD(1-3) [OF assms(1)] by force
  have "x = y \<or> x + 8 \<le> y \<or> y + 8 \<le> x" if "x \<in> fst ` B" "y \<in> fst ` B" for x y
  proof -
    from that obtain n m where nm: "(x, n) \<in> B" "(y, m) \<in> B" by force
    then show ?thesis using tileD(4) [OF assms(1) nm] tileD(1) [OF assms(1) nm(1)] tileD(1) [OF assms(1) nm(2)] by fastforce
  qed
  then show ?thesis using assms(2-6) bnd unfolding hdrs_def by fastforce
qed

lemma heap_hdrs:
  assumes "heap base lo s fs A" "x \<in> insert base (fst ` (set fs \<union> A))" "y \<in> insert base (fst ` (set fs \<union> A))"
  shows "hdrs x y"
  using tile_hdrs [OF heapD(5,2,4,3) [OF assms(1)] assms(2,3)] .

lemma word_less_of_nat: "x < 2 ^ 31 \<Longrightarrow> y < 2 ^ 31 \<Longrightarrow> (of_nat x :: u32) < of_nat y \<longleftrightarrow> x < y"
  using unat_of_nat_id [of x, where 'a = 32] unat_of_nat_id [of y, where 'a = 32] by (simp add: word_less_nat_alt)

lemma word_eq_of_nat: "x < 2 ^ 31 \<Longrightarrow> y < 2 ^ 31 \<Longrightarrow> (of_nat x :: u32) = of_nat y \<longleftrightarrow> x = y"
  using unat_of_nat_id [of x, where 'a = 32] unat_of_nat_id [of y, where 'a = 32] by (simp add: word_unat_eq_iff)

subsection \<open>Where a block goes\<close>

lemma scan_left:
  assumes "chain s (a # map fst Y @ c # xs)" "b < 2 ^ 31" "c < 2 ^ 31" "sorted_wrt (<) (a # map fst Y)" "last (a # map fst Y) < b"
    "b < c \<or> c \<le> a"
  shows "free_scan s (of_nat b) (of_nat a) = Some (of_nat (last (a # map fst Y)))"
  using assms
proof (induction Y arbitrary: a)
  case Nil
  have "a < 2 ^ 31" using Nil by auto
  then show ?case using Nil by (subst free_scan.simps) (auto simp: word_less_of_nat not_less [symmetric])
next
  case (Cons y Y)
  have le: "fst y \<le> last (fst y # map fst Y)" using Cons.prems(4) by (cases Y rule: rev_cases) auto
  then have b: "a < fst y" "fst y < b" using Cons.prems(4,5) by auto
  then have lt: "a < 2 ^ 31" "fst y < 2 ^ 31" using Cons.prems(2) by auto
  have n: "nx s a = of_nat (fst y)" using Cons.prems(1) by simp
  have "free_scan s (of_nat b) (of_nat a) = free_scan s (of_nat b) (of_nat (fst y))"
    using b lt Cons.prems(2) by (subst free_scan.simps) (simp add: n word_less_of_nat not_less [symmetric])
  also have "\<dots> = Some (of_nat (last (fst y # map fst Y)))"
    using Cons.prems b by (intro Cons.IH) auto
  finally show ?case by simp
qed

lemma scan_right:
  assumes "chain s (a # map fst Y @ [base])" "b < 2 ^ 31" "base < b" "\<forall>x \<in> set (a # map fst Y). b < x \<and> x < 2 ^ 31" "sorted_wrt (<) (a # map fst Y)"
  shows "free_scan s (of_nat b) (of_nat a) = free_scan s (of_nat b) (of_nat base)"
  using assms
proof (induction Y arbitrary: a)
  case Nil
  then show ?case by (subst free_scan.simps) (auto simp: word_less_of_nat not_less [symmetric])
next
  case (Cons y Y)
  have "free_scan s (of_nat b) (of_nat a) = free_scan s (of_nat b) (of_nat (fst y))"
    using Cons.prems by (subst free_scan.simps) (auto simp: word_less_of_nat not_less [symmetric])
  also have "\<dots> = free_scan s (of_nat b) (of_nat base)"
    using Cons.prems by (intro Cons.IH) auto
  finally show ?case .
qed

lemma heap_sorted:
  assumes "heap base lo s fs A"
  shows "sorted_wrt (<) (base # map fst fs)" "\<forall>x \<in> set (base # map fst fs). x < 2 ^ 31"
proof -
  have "sorted_wrt (\<lambda>b c. fst b < fst c) fs"
    using heapD(10) [OF assms] by (rule sorted_wrt_mono_rel [rotated]) simp
  moreover have "base < x \<and> x < 2 ^ 31" if "x \<in> set (map fst fs)" for x
    using that tileD(1-3) [OF heapD(5) [OF assms]] heapD(2-4) [OF assms] by force
  ultimately show "sorted_wrt (<) (base # map fst fs)" "\<forall>x \<in> set (base # map fst fs). x < 2 ^ 31"
    using heapD(2-4) [OF assms] by (auto simp: sorted_wrt_map)
qed

lemma sorted_suffix: "sorted_wrt P (xs @ ys) \<Longrightarrow> sorted_wrt P ys"
  by (simp add: sorted_wrt_append)

lemma scan_heap:
  assumes h: "heap base lo s (L @ R) A" and b: "b < 2 ^ 31" "base < b"
    and LR: "\<forall>x \<in> set L. fst x < b" "\<forall>x \<in> set R. b < fst x"
  shows "free_scan s (of_nat b) (um_freep s) = Some (of_nat (last (base # map fst L)))"
proof -
  note S = heap_sorted [OF h]
  obtain c xs where c: "map fst R @ [base] = c # xs" by (cases R) auto
  have c31: "c < 2 ^ 31" "b < c \<or> c = base" using c S(2) LR(2) by (cases R; auto)+
  have ch: "chain s (base # map fst L @ c # xs)" using heapD(9) [OF h] c by simp
  have left: "free_scan s (of_nat b) (of_nat a) = Some (of_nat (last (base # map fst L)))" if "base # map fst L = X @ a # map fst Y" for X a Y
  proof -
    have 1: "last (a # map fst Y) = last (base # map fst L)" unfolding that by simp
    have 2: "chain s (a # map fst Y @ c # xs)"
      using ch chain_append [of s X a "map fst Y @ c # xs"] that by (metis Cons_eq_appendI append.assoc)
    have "sorted_wrt (<) ((X @ a # map fst Y) @ map fst R)" using S(1) unfolding that [symmetric] by simp
    then have 3: "sorted_wrt (<) (a # map fst Y)" by (simp add: sorted_wrt_append)
    have 4: "last (base # map fst L) < b" using LR(1) b(2) by (cases L rule: rev_cases) auto
    have "a \<in> set (base # map fst L)" unfolding that by simp
    then have "a = base \<or> a \<in> set (map fst (L @ R))" by auto
    moreover have "\<forall>x \<in> set (map fst (L @ R)). base < x" using S(1) by simp
    ultimately have "base \<le> a" by (blast intro: less_imp_le)
    then show ?thesis using scan_left [of s a Y c xs b] b(1) c31 1 2 3 4 by auto
  qed
  obtain q where q: "um_freep s = of_nat q" "q \<in> set (base # map fst (L @ R))" using heapD(11) [OF h] by auto
  consider "q = base" | "q \<in> fst ` set L" | "q \<in> fst ` set R" using q(2) by auto
  then show ?thesis
  proof cases
    case 1
    then show ?thesis using left [of "[]" base L] q(1) by simp
  next
    case 2
    then obtain y L1 L2 where "q = fst y" "L = L1 @ y # L2" by (metis imageE split_list)
    then show ?thesis using left [of "base # map fst L1" q L2] q(1) by simp
  next
    case 3
    then obtain y R1 R2 where y: "q = fst y" "R = R1 @ y # R2" by (metis imageE split_list)
    have "chain s (q # map fst R2 @ [base])"
      using heapD(9) [OF h] chain_append [of s "base # map fst (L @ R1)" q "map fst R2 @ [base]"] y by simp
    moreover have "sorted_wrt (<) (q # map fst R2)"
      using S(1) sorted_suffix [of "(<)" "base # map fst (L @ R1)" "q # map fst R2"] y by (simp add: sorted_wrt_append)
    moreover have "\<forall>x \<in> set (q # map fst R2). b < x \<and> x < 2 ^ 31" using y LR(2) S(2) by auto
    ultimately have "free_scan s (of_nat b) (of_nat q) = free_scan s (of_nat b) (of_nat base)"
      using b by (intro scan_right)
    then show ?thesis using left [of "[]" base L] q(1) by simp
  qed
qed

subsection \<open>Releasing a block\<close>

text \<open>
  The state while a block is released: the blocks L below it and R above it are linked, but for the
  pointers of the last of L and of the block.
\<close>

definition opened :: "nat \<Rightarrow> nat \<Rightarrow> um \<Rightarrow> block list \<Rightarrow> block \<Rightarrow> block list \<Rightarrow> block set \<Rightarrow> bool" where
  "opened base lo s L b R A \<longleftrightarrow> base \<noteq> 0 \<and> base + 8 \<le> lo \<and> lo \<le> unat (um_brk s) \<and> unat (um_brk s) < 2 ^ 31 \<and>
     tile (insert b (set L \<union> set R \<union> A)) lo (unat (um_brk s)) \<and> b \<notin> set L \<union> set R \<union> A \<and> (set L \<union> set R) \<inter> A = {} \<and>
     (\<forall>c \<in> insert b (set L \<union> set R \<union> A). us s (fst c) = of_nat (snd c)) \<and> us s base = 0 \<and>
     sorted_wrt (\<lambda>b c. fst b + 8 * snd b < fst c) (L @ R) \<and> (\<forall>x \<in> set L. fst x < fst b) \<and> (\<forall>x \<in> set R. fst b < fst x) \<and>
     chain s (base # map fst L)"

lemma openedD:
  assumes "opened base lo s L b R A"
  shows "base \<noteq> 0" "base + 8 \<le> lo" "lo \<le> unat (um_brk s)" "unat (um_brk s) < 2 ^ 31"
    "tile (insert b (set L \<union> set R \<union> A)) lo (unat (um_brk s))" "b \<notin> set L \<union> set R \<union> A" "(set L \<union> set R) \<inter> A = {}"
    "c \<in> insert b (set L \<union> set R \<union> A) \<Longrightarrow> us s (fst c) = of_nat (snd c)" "us s base = 0"
    "sorted_wrt (\<lambda>b c. fst b + 8 * snd b < fst c) (L @ R)" "\<forall>x \<in> set L. fst x < fst b" "\<forall>x \<in> set R. fst b < fst x"
    "chain s (base # map fst L)"
  using assms unfolding opened_def by blast+

lemma opened_hdrs:
  assumes "opened base lo s L b R A" "x \<in> insert base (fst ` insert b (set L \<union> set R \<union> A))" "y \<in> insert base (fst ` insert b (set L \<union> set R \<union> A))"
  shows "hdrs x y"
  using tile_hdrs [OF openedD(5,2,4,3) [OF assms(1)] assms(2,3)] .

lemma block_end:
  assumes "opened base lo s L (b, n) R A"
  shows "0 < n" "lo \<le> b" "b + 8 * n < 2 ^ 31" "unat (of_nat b + 8 * of_nat n :: u32) = b + 8 * n"
proof -
  note T = tileD(1-3) [OF openedD(5) [OF assms] insertI1]
  show "0 < n" "lo \<le> b" and e: "b + 8 * n < 2 ^ 31" using T openedD(4) [OF assms] by auto
  have "of_nat b + 8 * of_nat n = (of_nat (b + 8 * n) :: u32)" by simp
  then show "unat (of_nat b + 8 * of_nat n :: u32) = b + 8 * n" using unat_of_nat_id [of "b + 8 * n", where 'a = 32] e by simp
qed

text \<open>The neighbour above is joined when it starts where the block ends.\<close>

lemma chain_next:
  assumes "chain s (base # map fst L @ q # xs)"
  shows "nx s (last (base # map fst L)) = of_nat q"
proof -
  obtain X p where X: "base # map fst L = X @ [p]" by (metis list.distinct(1) rev_exhaust)
  have "chain s ((base # map fst L) @ q # xs)" using assms by simp
  then have "chain s (X @ p # q # xs)" unfolding X by simp
  then show ?thesis unfolding X using chain_append [of s X p "q # xs"] by simp
qed

text \<open>Changing the header of the block alone keeps the rest of the list.\<close>

lemma opened_block:
  assumes o: "opened base lo s L (b, n) R A" and R: "R = R0 @ R'" and v: "us s' b = of_nat n'" "um_brk s' = um_brk s"
    and tl: "tile (insert (b, n') (set L \<union> set R' \<union> A)) lo (unat (um_brk s))" "(b, n') \<notin> set L \<union> set R' \<union> A"
    and same: "\<And>x. x \<in> insert base (fst ` (set L \<union> set R \<union> A)) \<Longrightarrow> x \<noteq> b \<Longrightarrow> nx s' x = nx s x \<and> us s' x = us s x"
  shows "opened base lo s' L (b, n') R' A"
proof -
  note D = openedD [OF o]
  have nb: "x \<noteq> b" if x: "x \<in> insert base (fst ` (set L \<union> set R \<union> A))" for x
  proof (cases "x = base")
    case True
    then show ?thesis using block_end(2) [OF o] D(2) by simp
  next
    case False
    then obtain m where m: "(x, m) \<in> set L \<union> set R \<union> A" using x by force
    then have "(x, m) \<noteq> (b, n)" using D(6) by metis
    then have "x + 8 * m \<le> b \<or> b + 8 * n \<le> x" using tileD(4) [OF D(5) _ insertI1, of x m] m by blast
    moreover have "0 < m" using tileD(1) [OF D(5), of x m] m by blast
    ultimately show ?thesis using block_end(1) [OF o] by auto
  qed
  have "us s' (fst c) = of_nat (snd c)" if "c \<in> insert (b, n') (set L \<union> set R' \<union> A)" for c
  proof (cases "c = (b, n')")
    case True
    then show ?thesis using v(1) by simp
  next
    case False
    then have c: "c \<in> set L \<union> set R \<union> A" using that R by auto
    then have "fst c \<in> insert base (fst ` (set L \<union> set R \<union> A))" by blast
    then show ?thesis using same nb D(8) [of c] c by simp
  qed
  moreover have "us s' base = 0" using same [of base] nb [of base] D(9) by simp
  moreover have "chain s' (base # map fst L)"
  proof -
    have "nx s' x = nx s x" if "x \<in> set (butlast (base # map fst L))" for x
    proof -
      have "x \<in> insert base (fst ` (set L \<union> set R \<union> A))" using in_set_butlastD [OF that] by auto
      then show ?thesis using same nb by blast
    qed
    then show ?thesis using chain_cong [of "base # map fst L" s' s] D(13) by blast
  qed
  moreover have "sorted_wrt (\<lambda>b c. fst b + 8 * snd b < fst c) (L @ R')" using D(10) R by (auto simp: sorted_wrt_append)
  ultimately show ?thesis
    unfolding opened_def using D(1-4,7,11,12) v(2) tl R by auto
qed

lemma opened_above:
  assumes "opened base lo s L (b, n) R A" "x \<in> set R"
  shows "b + 8 * n \<le> fst x"
proof -
  note D = openedD [OF assms(1)]
  have "(b, n) \<noteq> (fst x, snd x)" using D(6) assms(2) by auto
  then show ?thesis using tileD(4) [OF D(5) insertI1, of "fst x" "snd x"] assms(2) D(12) block_end(1) [OF assms(1)] by auto
qed

lemma free_right_spec:
  assumes o: "opened base lo s L (b, n) R A" and ch: "chain s (base # map fst (L @ R) @ [base])" and p: "p = last (base # map fst L)"
    and s': "s' = free_right (of_nat b) (of_nat p) s"
  shows "\<exists>n' R'. opened base lo s' L (b, n') R' A \<and> chain s' (b # map fst R' @ [base]) \<and>
    (\<forall>x \<in> set R'. b + 8 * n' < fst x) \<and> kept {b} s s' \<and> um_brk s' = um_brk s \<and> n \<le> n'"
proof -
  note D = openedD [OF o]
  note E = block_end [OF o]
  let ?H = "insert base (fst ` insert (b, n) (set L \<union> set R \<union> A))"
  have hd: "hdrs x y" if "x \<in> ?H" "y \<in> ?H" for x y using opened_hdrs [OF o that] .
  have bH: "b \<in> ?H" and pH: "p \<in> ?H" unfolding p by (cases L rule: rev_cases; auto)+
  have b31: "b < 2 ^ 31" using E(3) by simp
  have sb: "us s b = of_nat n" using D(8) [of "(b, n)"] by simp
  obtain q xs where q: "map fst R @ [base] = q # xs" by (cases R) auto
  have np: "nx s p = of_nat q" unfolding p using ch q by (intro chain_next [where xs = xs]) simp
  have chq: "chain s (q # xs)" using ch q chain_append [of s "base # map fst L" q xs] by simp
  have qH: "q \<in> ?H" "q < 2 ^ 31" using q hd [of q q] by (cases R; auto simp: hdrs_def)+
  have cond: "of_nat b + 8 * us s b = nx s p \<longleftrightarrow> b + 8 * n = q"
    unfolding sb np using E(3,4) qH(2) unat_of_nat_id [of q, where 'a = 32] by (simp add: word_unat_eq_iff)
  have rb: "fst x \<noteq> b" if "x \<in> set R" for x using opened_above [OF o that] E(1) by simp
  show ?thesis
  proof (cases "b + 8 * n = q")
    case False
    then have s'': "s' = set_hptr (of_nat b) (of_nat q) s" unfolding s' free_right_def using cond np by simp
    have same: "nx s' x = nx s x \<and> us s' x = us s x" if "x \<in> ?H" "x \<noteq> b" for x
      unfolding s'' using header_fields(1,2) [OF hd [OF bH that(1)]] that(2) by simp
    have "opened base lo s' L (b, n) R A"
      by (rule opened_block [OF o, of "[]" R]) (use D(5,6) same sb header_fields(2) [OF hd [OF bH bH]] s'' in auto)
    moreover have "chain s' (b # map fst R @ [base])"
    proof -
      have "chain s' (map fst R @ [base]) \<longleftrightarrow> chain s (map fst R @ [base])"
        by (rule chain_cong) (use same rb in auto)
      moreover have "nx s' b = of_nat q" unfolding s'' using header_fields(1) [OF hd [OF bH bH]] by simp
      ultimately show ?thesis using q chq by simp
    qed
    moreover have "\<forall>x \<in> set R. b + 8 * n < fst x"
    proof (cases R)
      case (Cons c R2)
      then have "b + 8 * n < fst c" using q False opened_above [OF o, of c] by simp
      moreover have "fst c < fst x" if "x \<in> set R2" for x using D(10) Cons that by (auto simp: sorted_wrt_append)
      ultimately have "b + 8 * n < fst x" if "x \<in> set R2" for x using that less_trans by blast
      then show ?thesis using Cons \<open>b + 8 * n < fst c\<close> by auto
    qed simp
    moreover have "kept {b} s s'" unfolding s'' by (rule kept_stores(1) [OF b31])
    ultimately show ?thesis unfolding s'' by auto
  next
    case True
    have "q \<noteq> base" using True E(2) D(2) by simp
    then obtain m R2 where R: "R = (q, m) # R2" using q by (cases R) auto
    obtain q2 ys where q2: "map fst R2 @ [base] = q2 # ys" by (cases R2) auto
    have nq: "nx s q = of_nat q2" and ch2: "chain s (map fst R2 @ [base])" using chq q R q2 by auto
    have sq: "us s q = of_nat m" using D(8) [of "(q, m)"] R by simp
    define s1 where "s1 = set_hsize (of_nat b) (of_nat n + of_nat m) s"
    have f1: "nx s1 x = nx s x" "us s1 x = (if x = b then of_nat n + of_nat m else us s x)" if "x \<in> ?H" for x
      unfolding s1_def using header_fields(3,4) [OF hd [OF bH that]] by simp_all
    have s'': "s' = set_hptr (of_nat b) (of_nat q2) s1"
      unfolding s' free_right_def using cond True np sb sq f1(1) [OF pH] f1(1) [OF qH(1)] nq by (simp add: s1_def [symmetric])
    have f2: "nx s' x = (if x = b then of_nat q2 else nx s x)" "us s' x = (if x = b then of_nat (n + m) else us s x)" if "x \<in> ?H" for x
      unfolding s'' using header_fields(1,2) [OF hd [OF bH that]] f1 [OF that] by simp_all
    have nin: "(q, m) \<notin> set L \<union> set R2 \<union> A"
    proof -
      have "(q, m) \<notin> set L" "(q, m) \<notin> set R2" using D(10) R by (auto simp: sorted_wrt_append)
      then show ?thesis using D(7) R by auto
    qed
    have "tile (insert (b, n) (insert (b + 8 * n, m) (set L \<union> set R2 \<union> A))) lo (unat (um_brk s))"
      using D(5) unfolding R True by (simp add: Un_ac insert_commute)
    from tile_join [OF this] have J: "tile (insert (b, n + m) (set L \<union> set R2 \<union> A)) lo (unat (um_brk s))" "(b, n + m) \<notin> set L \<union> set R2 \<union> A"
      using D(6) nin R True by auto
    have "opened base lo s' L (b, n + m) R2 A"
    proof (rule opened_block [OF o, of "[(q, m)]" R2])
      show "us s' b = of_nat (n + m)" using f2(2) [OF bH] by simp
      show "um_brk s' = um_brk s" by (simp add: s'' s1_def)
      show "nx s' x = nx s x \<and> us s' x = us s x" if "x \<in> insert base (fst ` (set L \<union> set R \<union> A))" "x \<noteq> b" for x
        using f2 [of x] that by auto
    qed (use R J in auto)
    moreover have "chain s' (b # map fst R2 @ [base])"
    proof -
      have "chain s' (map fst R2 @ [base]) \<longleftrightarrow> chain s (map fst R2 @ [base])"
      proof (rule chain_cong)
        fix x
        assume "x \<in> set (butlast (map fst R2 @ [base]))"
        then obtain y where "x = fst y" "y \<in> set R2" by auto
        then show "nx s' x = nx s x" using f2(1) [of x] rb [of y] R by auto
      qed
      moreover have "nx s' b = of_nat q2" using f2(1) [OF bH] by simp
      ultimately show ?thesis using q2 ch2 by simp
    qed
    moreover have "\<forall>x \<in> set R2. b + 8 * (n + m) < fst x" using D(10) R True by (auto simp: sorted_wrt_append)
    moreover have "kept {b} s s'"
      unfolding s'' s1_def using kept_trans [OF kept_stores(2) [OF b31] kept_stores(1) [OF b31]] by simp
    moreover have "um_brk s' = um_brk s" "n \<le> n + m" by (simp_all add: s'' s1_def)
    ultimately show ?thesis by blast
  qed
qed

text \<open>Then the neighbour below is joined, or linked to the block.\<close>

lemma free_left_spec:
  assumes o: "opened base lo s L (b, n) R A" and ch: "chain s (b # map fst R @ [base])" and p: "p = last (base # map fst L)"
    and gap: "\<forall>x \<in> set R. b + 8 * n < fst x" and s': "s' = (free_left (of_nat b) (of_nat p) s)\<lparr>um_freep := of_nat p\<rparr>"
  shows "\<exists>fs. heap base lo s' fs A \<and> kept {p} s s' \<and> um_brk s' = um_brk s \<and> (\<exists>c \<in> set fs. n \<le> snd c)"
proof -
  note D = openedD [OF o]
  note E = block_end [OF o]
  let ?H = "insert base (fst ` insert (b, n) (set L \<union> set R \<union> A))"
  have hd: "hdrs x y" if "x \<in> ?H" "y \<in> ?H" for x y using opened_hdrs [OF o that] .
  have bH: "b \<in> ?H" and pH: "p \<in> ?H" unfolding p by (cases L rule: rev_cases; auto)+
  have p31: "p < 2 ^ 31" using hd [OF pH pH] by (simp add: hdrs_def)
  have sb: "us s b = of_nat n" using D(8) [of "(b, n)"] by simp
  obtain X where X: "base # map fst L = X @ [p]" unfolding p by (metis append_butlast_last_id list.distinct(1))
  have lo: "lo \<le> fst x" if "x \<in> set L \<union> set R \<union> A" for x using tileD(2) [OF D(5), of "fst x" "snd x"] that by auto
  have lt: "x < p" if "x \<in> set (butlast (base # map fst L))" for x
  proof (cases L rule: rev_cases)
    case (snoc L' c)
    then have "p = fst c" "x = base \<or> x \<in> fst ` set L'" using p that by (auto simp: butlast_append)
    moreover have "fst y < fst c" if "y \<in> set L'" for y using D(10) snoc that by (auto simp: sorted_wrt_append)
    ultimately show ?thesis using lo [of c] snoc D(2) by auto
  qed (use that in simp)
  have inH: "x \<in> ?H" if "x \<in> set (butlast (base # map fst L))" for x using in_set_butlastD [OF that] by auto
  have pb: "p < b" using D(2,11) E(2) unfolding p by (cases L rule: rev_cases) auto
  have below: "fst x + 8 * snd x \<le> b" if "x \<in> set L" for x
  proof -
    have "(fst x, snd x) \<noteq> (b, n)" using D(6) that by auto
    then show ?thesis using tileD(4) [OF D(5) _ insertI1, of "fst x" "snd x"] that D(11) E(1) by fastforce
  qed
  show ?thesis
  proof (cases "of_nat p + 8 * us s p = (of_nat b :: u32)")
    case False
    then have s'': "s' = (set_hptr (of_nat p) (of_nat b) s)\<lparr>um_freep := of_nat p\<rparr>" by (simp add: s' free_left_def)
    have f: "nx s' x = (if x = p then of_nat b else nx s x)" "us s' x = us s x" if "x \<in> ?H" for x
      unfolding s'' using header_fields(1,2) [OF hd [OF pH that]] by simp_all
    have gapL: "fst x + 8 * snd x < b" if x: "x \<in> set L" for x
    proof (cases L rule: rev_cases)
      case (snoc L' c)
      have c: "p = fst c" "us s (fst c) = of_nat (snd c)" "c \<in> set L" using p snoc D(8) [of c] by simp_all
      have le: "fst c + 8 * snd c \<le> b" by (rule below [OF c(3)])
      have "of_nat (fst c) + 8 * of_nat (snd c) = (of_nat (fst c + 8 * snd c) :: u32)" by simp
      then have "fst c + 8 * snd c \<noteq> b" using False c by auto
      then have "fst c + 8 * snd c < b" using le by simp
      moreover have "fst x + 8 * snd x < fst c" if "x \<in> set L'" using D(10) snoc that by (auto simp: sorted_wrt_append)
      ultimately show ?thesis using x snoc by auto
    qed (use x in simp)
    let ?fs = "L @ (b, n) # R"
    have "chain s' (base # map fst L)"
      using chain_cong [of "base # map fst L" s' s] f(1) lt D(13) inH by (metis less_irrefl)
    moreover have "chain s' (b # map fst R @ [base])"
    proof -
      have "nx s' x = nx s x" if "x \<in> set (butlast (b # map fst R @ [base]))" for x
      proof -
        have "x \<in> ?H" "p < x" using that pb D(12) by (auto simp: butlast_append)
        then show ?thesis using f(1) by simp
      qed
      then show ?thesis using chain_cong [of "b # map fst R @ [base]" s' s] ch by blast
    qed
    moreover have "nx s' p = of_nat b" using f(1) [OF pH] by simp
    moreover have "(base # map fst L) @ b # map fst R @ [base] = X @ p # b # map fst R @ [base]" unfolding X by simp
    ultimately have "chain s' ((base # map fst L) @ b # map fst R @ [base])"
      using chain_append [of s' X p "b # map fst R @ [base]"] X by simp
    then have "chain s' (base # map fst ?fs @ [base])" by simp
    moreover have "sorted_wrt (\<lambda>b c. fst b + 8 * snd b < fst c) ?fs"
      using D(10) gap gapL by (auto simp: sorted_wrt_append)
    moreover have "um_freep s' \<in> of_nat ` set (base # map fst ?fs)" unfolding s'' p by (cases L rule: rev_cases) auto
    moreover have "us s' (fst c) = of_nat (snd c)" if "c \<in> set ?fs \<union> A" for c
      using f(2) [of "fst c"] D(8) [of c] that by auto
    moreover have "us s' base = 0" using f(2) [of base] D(9) by simp
    moreover have "tile (set ?fs \<union> A) lo (unat (um_brk s'))" using D(5) by (simp add: s'' Un_ac insert_commute)
    ultimately have "heap base lo s' ?fs A"
      unfolding heap_def using D(1-4,6,7) by (auto simp: s'')
    moreover have "kept {p} s s'" unfolding s'' using kept_stores(1) [OF p31, of s] by (simp add: kept_def)
    ultimately show ?thesis by (intro exI [of _ ?fs]) (auto simp: s'')
  next
    case True
    have "L \<noteq> []"
    proof
      assume "L = []"
      then have "(of_nat base :: u32) = of_nat b" using True p D(9) by simp
      then show False using word_eq_of_nat [of base b] E(2,3) D(2) by simp
    qed
    then obtain L' q k where L: "L = L' @ [(q, k)]" by (metis rev_exhaust surj_pair)
    have q: "p = q" "us s q = of_nat k" using p L D(8) [of "(q, k)"] by simp_all
    have "q + 8 * k \<le> b" using below [of "(q, k)"] L by simp
    moreover have "(of_nat (q + 8 * k) :: u32) = of_nat b" using True q by simp
    ultimately have qb: "q + 8 * k = b" using word_eq_of_nat [of "q + 8 * k" b] E(3) by simp
    obtain c ys where c: "map fst R @ [base] = c # ys" by (cases R) auto
    have nb: "nx s b = of_nat c" and ch2: "chain s (map fst R @ [base])" using ch c by auto
    define s1 where "s1 = set_hsize (of_nat q) (of_nat k + of_nat n) s"
    have f1: "nx s1 x = nx s x" "us s1 x = (if x = q then of_nat k + of_nat n else us s x)" if "x \<in> ?H" for x
      unfolding s1_def using header_fields(3,4) [OF hd [OF pH that]] q(1) by simp_all
    have s'': "s' = (set_hptr (of_nat q) (of_nat c) s1)\<lparr>um_freep := of_nat q\<rparr>"
      unfolding s' free_left_def using True q sb nb f1(1) [OF bH] by (simp add: s1_def [symmetric])
    have f: "nx s' x = (if x = q then of_nat c else nx s x)" "us s' x = (if x = q then of_nat (k + n) else us s x)" if "x \<in> ?H" for x
      unfolding s'' using header_fields(1,2) [OF hd [OF pH that]] f1 [OF that] q(1) by simp_all
    let ?fs = "L' @ (q, k + n) # R" and ?B = "set L' \<union> set R \<union> A"
    have nq: "fst x \<noteq> q" if "x \<in> ?B" for x
    proof -
      have qk: "(q, k) \<in> insert (b, n) (set L \<union> set R \<union> A)" and xB: "(fst x, snd x) \<in> insert (b, n) (set L \<union> set R \<union> A)"
        using that L by auto
      have "(q, k) \<notin> set L'" "(q, k) \<notin> set R" "(q, k) \<notin> A" using D(7,10,12) pb q(1) L by (auto simp: sorted_wrt_append)
      then have "(q, k) \<noteq> (fst x, snd x)" using that by auto
      then show ?thesis using tileD(4) [OF D(5) qk xB] tileD(1) [OF D(5) qk] tileD(1) [OF D(5) xB] by auto
    qed
    have "tile (insert (q, k) (insert (q + 8 * k, n) ?B)) lo (unat (um_brk s))"
      using D(5) unfolding L qb by (simp add: Un_ac insert_commute)
    moreover have "(q, k) \<notin> ?B" using nq [of "(q, k)"] by auto
    moreover have "(q + 8 * k, n) \<notin> ?B" using D(6) unfolding qb L by auto
    ultimately have J: "tile (insert (q, k + n) ?B) lo (unat (um_brk s))" "(q, k + n) \<notin> ?B" using tile_join by blast+
    have "chain s' (base # map fst L)"
      using chain_cong [of "base # map fst L" s' s] f(1) lt D(13) inH q(1) by (metis less_irrefl)
    moreover have "chain s' (map fst R @ [base])"
    proof -
      have "nx s' x = nx s x" if "x \<in> set (butlast (map fst R @ [base]))" for x
      proof -
        have "x \<in> ?H" "q < x" using that pb D(12) q(1) by auto
        then show ?thesis using f(1) by simp
      qed
      then show ?thesis using chain_cong [of "map fst R @ [base]" s' s] ch2 by blast
    qed
    moreover have "nx s' q = of_nat c" using f(1) [OF pH] q(1) by simp
    ultimately have "chain s' (base # map fst ?fs @ [base])"
      using chain_append [of s' "base # map fst L'" q "map fst R @ [base]"] L c by simp
    moreover have "sorted_wrt (\<lambda>b c. fst b + 8 * snd b < fst c) ?fs"
      using D(10) gap qb L by (auto simp: sorted_wrt_append)
    moreover have "us s' (fst x) = of_nat (snd x)" if "x \<in> set ?fs \<union> A" for x
    proof (cases "x = (q, k + n)")
      case True
      then show ?thesis using f(2) [OF pH] q(1) by simp
    next
      case False
      then have "x \<in> ?B" using that by auto
      then show ?thesis using f(2) [of "fst x"] D(8) [of x] nq [of x] L by auto
    qed
    moreover have "us s' base = 0" using f(2) [of base] D(9) D(2) E(2) lt L q(1) by auto
    moreover have "tile (set ?fs \<union> A) lo (unat (um_brk s'))" using J(1) by (simp add: s'' s1_def Un_ac insert_commute)
    ultimately have "heap base lo s' ?fs A"
      unfolding heap_def using D(1-4,7) J(2) L by (auto simp: s'' s1_def)
    moreover have "kept {p} s s'"
      unfolding s'' s1_def q(1) using kept_trans [OF kept_stores(2) kept_stores(1), of q q s] p31 q(1) by (simp add: kept_def)
    ultimately show ?thesis by (intro exI [of _ ?fs]) (auto simp: s'' s1_def)
  qed
qed

lemma chain_prefix: "chain s (xs @ ys) \<Longrightarrow> chain s xs"
  by (induction s xs rule: chain.induct) auto

lemma block_place:
  assumes h: "heap base lo s fs A" and b: "(b, n) \<in> A"
  obtains L R where "fs = L @ R" "\<forall>x \<in> set L. fst x < b" "\<forall>x \<in> set R. b < fst x"
proof -
  note T = heapD(5) [OF h]
  have ne: "fst x \<noteq> b" if "x \<in> set fs" for x
  proof -
    have x: "(fst x, snd x) \<in> set fs \<union> A" and bn: "(b, n) \<in> set fs \<union> A" and d: "(fst x, snd x) \<noteq> (b, n)"
      using that b heapD(6) [OF h] by auto
    from tileD(4) [OF T x bn d] tileD(1) [OF T x] tileD(1) [OF T bn] show ?thesis by auto
  qed
  let ?L = "takeWhile (\<lambda>x. fst x < b) fs" and ?R = "dropWhile (\<lambda>x. fst x < b) fs"
  have "b < fst x" if "x \<in> set ?R" for x
  proof (cases ?R)
    case (Cons r R')
    then have "\<not> fst r < b" using hd_dropWhile [of "\<lambda>x. fst x < b" fs] by auto
    then have r: "b < fst r" using ne [of r] Cons set_dropWhileD [of r "\<lambda>x. fst x < b" fs] by auto
    have "sorted_wrt (\<lambda>b c. fst b + 8 * snd b < fst c) (?L @ ?R)" using heapD(10) [OF h] by simp
    then have "\<forall>y \<in> set R'. fst r < fst y" unfolding Cons by (auto simp: sorted_wrt_append)
    then show ?thesis using that r unfolding Cons by auto
  next
    case Nil
    show ?thesis using that unfolding Nil by simp
  qed
  then have R: "\<forall>x \<in> set ?R. b < fst x" by blast
  have L: "\<forall>x \<in> set ?L. fst x < b" using set_takeWhileD [of _ "\<lambda>x. fst x < b" fs] by blast
  show thesis by (rule that [OF takeWhile_dropWhile_id [symmetric] L R])
qed

lemma free_spec:
  assumes h: "heap base lo s fs (insert (b, n) A)" "(b, n) \<notin> A"
  shows "\<exists>s' fs'. free (of_nat b + 8) s = Some s' \<and> heap base lo s' fs' A \<and> kept (insert b (insert base (fst ` set fs))) s s' \<and>
     um_brk s' = um_brk s \<and> (\<exists>c \<in> set fs'. n \<le> snd c)"
proof -
  note H = heapD [OF h(1)]
  obtain L R where LR: "fs = L @ R" "\<forall>x \<in> set L. fst x < b" "\<forall>x \<in> set R. b < fst x"
    using block_place [OF h(1), of b n] by auto
  have "tile (insert (b, n) (set L \<union> set R \<union> A)) lo (unat (um_brk s))" using H(5) LR(1) by (simp add: Un_ac)
  moreover have "us s (fst c) = of_nat (snd c)" if "c \<in> insert (b, n) (set L \<union> set R \<union> A)" for c using H(7) [of c] that LR(1) by auto
  moreover have "chain s (base # map fst L)" using H(9) LR(1) chain_prefix [of s "base # map fst L" "map fst R @ [base]"] by simp
  ultimately have o: "opened base lo s L (b, n) R A"
    unfolding opened_def using H(1-4,6,8,10) LR h(2) by auto
  let ?p = "last (base # map fst L)"
  have sc: "free_scan s (of_nat b) (um_freep s) = Some (of_nat ?p)"
    using h(1) LR block_end(2,3) [OF o] H(2) by (intro scan_heap [of base lo s L R]) auto
  have ch: "chain s (base # map fst (L @ R) @ [base])" using H(9) LR(1) by simp
  obtain s1 n' R' where 1: "s1 = free_right (of_nat b) (of_nat ?p) s" "opened base lo s1 L (b, n') R' A" "chain s1 (b # map fst R' @ [base])"
    "\<forall>x \<in> set R'. b + 8 * n' < fst x" "kept {b} s s1" "um_brk s1 = um_brk s" "n \<le> n'"
    using free_right_spec [OF o ch refl refl] by blast
  obtain s2 fs' where 2: "s2 = (free_left (of_nat b) (of_nat ?p) s1)\<lparr>um_freep := of_nat ?p\<rparr>" "heap base lo s2 fs' A" "kept {?p} s1 s2"
    "um_brk s2 = um_brk s1" "\<exists>c \<in> set fs'. n' \<le> snd c"
    using free_left_spec [OF 1(2,3) refl 1(4) refl] by blast
  have "?p \<in> insert base (fst ` set fs)" using LR(1) by (cases L rule: rev_cases) auto
  then have "kept (insert b (insert base (fst ` set fs))) s s2" by (intro kept_mono [OF kept_trans [OF 1(5) 2(3)]]) auto
  moreover have "free (of_nat b + 8) s = Some s2" using sc by (simp add: free_def Let_def 1(1) 2(1))
  moreover have "\<exists>c \<in> set fs'. n \<le> snd c" using 2(5) 1(7) by (meson le_trans)
  ultimately show ?thesis using 2(2,4) 1(6) by auto
qed

end
