(* ===== verification/UmallocRun.thy ===== *)
theory UmallocRun
  imports UmallocInv
begin

text \<open>
  What malloc does on a well-formed heap, and histories of a program that allocates, writes into its
  blocks and frees them.
\<close>

subsection \<open>Taking a block off the list\<close>

lemma heap_units:
  assumes "heap base lo s fs A" "(c, m) \<in> set fs \<union> A"
  shows "0 < m" "lo \<le> c" "c + 8 * m < 2 ^ 31" "unat (of_nat m :: u32) = m" "unat (of_nat c :: u32) = c"
proof -
  show "0 < m" "lo \<le> c" "c + 8 * m < 2 ^ 31" using tileD(1-3) [OF heapD(5) [OF assms(1)] assms(2)] heapD(4) [OF assms(1)] by auto
  then show "unat (of_nat m :: u32) = m" "unat (of_nat c :: u32) = c"
    using unat_of_nat_id [of m, where 'a = 32] unat_of_nat_id [of c, where 'a = 32] by simp_all
qed

text \<open>Replacing the block c of the free list, or removing it.\<close>

lemma heap_distinct:
  assumes "heap base lo s fs A"
  shows "distinct (base # map fst fs)"
  using heap_sorted(1) [OF assms] strict_sorted_iff by blast

lemma take_exact:
  assumes h: "heap base lo s (F1 @ (c, n) # F2) A" and p: "p = last (base # map fst F1)"
  shows "heap base lo ((set_hptr (of_nat p) (nx s c) s)\<lparr>um_freep := of_nat p\<rparr>) (F1 @ F2) (insert (c, n) A)"
    "kept {p} s ((set_hptr (of_nat p) (nx s c) s)\<lparr>um_freep := of_nat p\<rparr>)" "(c, n) \<notin> A"
proof -
  let ?fs = "F1 @ (c, n) # F2"
  note H = heapD [OF h]
  let ?H = "insert base (fst ` (set ?fs \<union> A))"
  have pF: "p \<in> set (base # map fst F1)" unfolding p by (rule last_in_set) simp
  then have pH: "p \<in> ?H" by auto
  have hd: "hdrs p x" if "x \<in> ?H" for x by (rule heap_hdrs [OF h pH that])
  obtain q xs where q: "map fst F2 @ [base] = q # xs" by (cases F2) auto
  have ch: "chain s ((base # map fst F1) @ c # q # xs)" using H(9) q by simp
  have nc: "nx s c = of_nat q" using chain_append [of s "base # map fst F1" c "q # xs"] ch by simp
  let ?s = "(set_hptr (of_nat p) (nx s c) s)\<lparr>um_freep := of_nat p\<rparr>"
  have f: "nx ?s x = (if x = p then of_nat q else nx s x)" "us ?s x = us s x" if "x \<in> ?H" for x
    using header_fields(1,2) [OF hd [OF that], of "nx s c" s] nc by simp_all
  obtain X where X: "base # map fst F1 = X @ [p]" unfolding p by (metis append_butlast_last_id list.distinct(1))
  have dst: "distinct (X @ p # c # map fst F2)" using heap_distinct [OF h] X by (metis append.assoc append_Cons append_Nil list.simps(9) map_append fst_conv)
  have "chain ?s (X @ [p])"
  proof -
    have "nx ?s x = nx s x" if "x \<in> set (butlast (X @ [p]))" for x
    proof -
      have "x \<in> set (X @ [p])" "x \<noteq> p" using that dst by auto
      then show ?thesis using f(1) [of x] unfolding X [symmetric] by auto
    qed
    moreover have "chain s (X @ [p])" using ch unfolding X by (metis chain_prefix)
    ultimately show ?thesis using chain_cong by blast
  qed
  moreover have "chain ?s (map fst F2 @ [base])"
  proof -
    have "nx ?s x = nx s x" if "x \<in> set (butlast (map fst F2 @ [base]))" for x
    proof -
      have "x \<in> set (map fst F2)" "x \<noteq> p" using that dst by auto
      then show ?thesis using f(1) [of x] by auto
    qed
    moreover have "chain s (map fst F2 @ [base])" using ch chain_append [of s "(base # map fst F1) @ [c]" q xs] q by simp
    ultimately show ?thesis using chain_cong by blast
  qed
  moreover have "nx ?s p = of_nat q" using f(1) [OF pH] by simp
  ultimately have "chain ?s ((base # map fst F1) @ map fst F2 @ [base])"
    unfolding X q using chain_append [of ?s X p "q # xs"] by simp
  then have chs: "chain ?s (base # map fst (F1 @ F2) @ [base])" by simp
  have sz: "us ?s (fst b) = of_nat (snd b)" if "b \<in> set (F1 @ F2) \<union> insert (c, n) A" for b
    using H(7) [of b] f(2) [of "fst b"] that by auto
  have un: "set (F1 @ F2) \<union> insert (c, n) A = set ?fs \<union> A" by auto
  show na: "(c, n) \<notin> A" using H(6) by auto
  have "distinct (map fst F1 @ c # map fst F2)" using heap_distinct [OF h] by simp
  then have "(c, n) \<notin> set F1 \<union> set F2" by force
  then have "set (F1 @ F2) \<inter> insert (c, n) A = {}" using H(6) by auto
  moreover have "sorted_wrt (\<lambda>b c. fst b + 8 * snd b < fst c) (F1 @ F2)" using H(10) by (auto simp: sorted_wrt_append)
  ultimately show "heap base lo ?s (F1 @ F2) (insert (c, n) A)"
    unfolding heap_def un using H(1-5) chs sz un f(2) [of base] H(8) pF by auto
  have "p < 2 ^ 31" using hd [OF pH] by (simp add: hdrs_def)
  then show "kept {p} s ?s" using kept_stores(1) [of p s] by (simp add: kept_def)
qed

text \<open>The end of a block that is too large is split off.\<close>

lemma take_tail:
  assumes h: "heap base lo s (F1 @ (c, k + n) # F2) A" and n: "0 < n" "0 < k" and p: "p \<in> set (base # map fst (F1 @ (c, k + n) # F2))"
    and s': "s' = (set_hsize (of_nat (c + 8 * k)) (of_nat n) (set_hsize (of_nat c) (of_nat k) s))\<lparr>um_freep := of_nat p\<rparr>"
  shows "heap base lo s' (F1 @ (c, k) # F2) (insert (c + 8 * k, n) A)" "kept {c, c + 8 * k} s s'" "(c + 8 * k, n) \<notin> A"
proof -
  let ?fs = "F1 @ (c, k + n) # F2" and ?a = "c + 8 * k" and ?B = "set F1 \<union> set F2 \<union> A"
  note H = heapD [OF h]
  have d: "distinct (map fst F1 @ c # map fst F2)" using heap_distinct [OF h] by simp
  have cn: "(c, k + n) \<notin> ?B" using d H(6) by force
  have "tile (insert (c, k + n) ?B) lo (unat (um_brk s))" using H(5) by (simp add: Un_ac insert_commute)
  note T = tile_split [OF this cn n(2,1)]
  let ?H = "insert base (fst ` insert (c, k) (insert (?a, n) ?B))"
  have hd: "hdrs x y" if "x \<in> ?H" "y \<in> ?H" for x y using tile_hdrs [OF T(1) H(2,4,3) that] .
  have cH: "c \<in> ?H" and aH: "?a \<in> ?H" by auto
  have ca: "c \<noteq> ?a" using n by simp
  let ?s1 = "set_hsize (of_nat c) (of_nat k) s"
  have f: "nx s' x = nx s x" "us s' x = (if x = ?a then of_nat n else if x = c then of_nat k else us s x)" if "x \<in> ?H" for x
    unfolding s' using header_fields(3,4) [OF hd [OF aH that], of "of_nat n" ?s1] header_fields(3,4) [OF hd [OF cH that], of "of_nat k" s]
    by (simp_all del: of_nat_add)
  have nb: "fst b \<noteq> c \<and> fst b \<noteq> ?a" if "b \<in> ?B" for b
  proof -
    have bB: "(fst b, snd b) \<in> insert (c, k) (insert (?a, n) ?B)" using that by simp
    have "(fst b, snd b) \<noteq> (c, k)" "(fst b, snd b) \<noteq> (?a, n)" using that T(2,3) by auto
    from tileD(4) [OF T(1) bB _ this(1)] tileD(4) [OF T(1) bB _ this(2)] tileD(1) [OF T(1) bB] n show ?thesis by fastforce
  qed
  have bb: "base \<noteq> c \<and> base \<noteq> ?a" using tileD(2) [OF T(1), of c k] H(2) by auto
  have "chain s' (base # map fst (F1 @ (c, k) # F2) @ [base]) \<longleftrightarrow> chain s (base # map fst (F1 @ (c, k) # F2) @ [base])"
    by (rule chain_cong) (use f(1) in \<open>auto simp: butlast_append split: if_splits\<close>)
  moreover have "map fst (F1 @ (c, k) # F2) = map fst ?fs" by simp
  ultimately have ch: "chain s' (base # map fst (F1 @ (c, k) # F2) @ [base])" using H(9) by metis
  have sz: "us s' (fst b) = of_nat (snd b)" if b: "b \<in> set (F1 @ (c, k) # F2) \<union> insert (?a, n) A" for b
  proof -
    consider "b = (c, k)" | "b = (?a, n)" | "b \<in> ?B" using b by auto
    then show ?thesis
    proof cases
      case 3
      have "fst b \<in> ?H" using 3 by blast
      moreover have "us s (fst b) = of_nat (snd b)" using H(7) [of b] 3 by auto
      ultimately show ?thesis using f(2) [of "fst b"] nb [OF 3] by simp
    qed (use f(2) [OF cH] f(2) [OF aH] ca in auto)
  qed
  have un: "set (F1 @ (c, k) # F2) \<union> insert (?a, n) A = insert (c, k) (insert (?a, n) ?B)" by auto
  have "set (F1 @ (c, k) # F2) \<inter> insert (?a, n) A = {}" using T(2,3) H(6) ca by auto
  moreover have "sorted_wrt (\<lambda>b c. fst b + 8 * snd b < fst c) (F1 @ (c, k) # F2)" using H(10) by (auto simp: sorted_wrt_append)
  moreover have "us s' base = 0" using f(2) [of base] bb H(8) by simp
  moreover have brk: "um_brk s' = um_brk s" and fp: "um_freep s' = of_nat p" by (simp_all add: s')
  moreover have "p \<in> set (base # map fst (F1 @ (c, k) # F2))" using p by simp
  moreover have "tile (set (F1 @ (c, k) # F2) \<union> insert (?a, n) A) lo (unat (um_brk s'))" unfolding un brk by (rule T(1))
  ultimately show "heap base lo s' (F1 @ (c, k) # F2) (insert (?a, n) A)"
    using H(1-4) ch sz by (intro heapI [OF _ _ _ _ _ _ _ _ _ _ fp]) simp_all
  show "(?a, n) \<notin> A" using T(3) by auto
  have "c < 2 ^ 31" "?a < 2 ^ 31" using hd [OF cH cH] hd [OF aH aH] by (simp_all add: hdrs_def)
  from kept_trans [OF kept_stores(2) [OF this(1), of s "of_nat k"] kept_stores(2) [OF this(2), of ?s1 "of_nat n"]]
  show "kept {c, ?a} s s'" unfolding s' by (simp add: kept_def insert_commute)
qed

lemma take_block_spec:
  assumes h: "heap base lo s (F1 @ (c, m) # F2) A" and n: "0 < n" "n \<le> m" and p: "p = last (base # map fst F1)"
  shows "\<exists>a s' fs'. take_block (of_nat n) (of_nat p) (of_nat c) s = (of_nat a + 8, s') \<and> (a, n) \<notin> A \<and> heap base lo s' fs' (insert (a, n) A) \<and>
     kept {p, c, a} s s' \<and> um_brk s' = um_brk s \<and> c \<le> a \<and> a + 8 * n \<le> c + 8 * m"
proof -
  note U = heap_units [OF h, of c m]
  have sc: "us s c = of_nat m" using heapD(7) [OF h, of "(c, m)"] by simp
  have eq: "us s c = of_nat n \<longleftrightarrow> m = n"
    unfolding sc using U(3,4) n unat_of_nat_id [of n, where 'a = 32] by (auto simp: word_unat_eq_iff)
  show ?thesis
  proof (cases "m = n")
    case True
    let ?s = "(set_hptr (of_nat p) (nx s c) s)\<lparr>um_freep := of_nat p\<rparr>"
    have "take_block (of_nat n) (of_nat p) (of_nat c) s = (of_nat c + 8, ?s)" unfolding take_block_def using eq True by simp
    moreover have "heap base lo ?s (F1 @ F2) (insert (c, n) A)" "kept {p} s ?s" "(c, n) \<notin> A"
      using take_exact [OF h [unfolded True] p] by blast+
    moreover from this(2) have "kept {p, c, c} s ?s" by (rule kept_mono) auto
    ultimately show ?thesis using True by (intro exI [of _ c] exI [of _ ?s] exI [of _ "F1 @ F2"]) simp
  next
    case False
    define k where "k = m - n"
    have m: "m = k + n" "0 < k" using False n by (auto simp: k_def)
    let ?s1 = "set_hsize (of_nat c) (of_nat k) s"
    have "c < 2 ^ 31" using U(3) by simp
    then have "hdrs c c" by (simp add: hdrs_def)
    then have s1: "us ?s1 c = of_nat k" using header_fields(4) by simp
    have dm: "us s c - of_nat n = of_nat k" unfolding sc m(1) by simp
    define s' where "s' = (set_hsize (of_nat (c + 8 * k)) (of_nat n) ?s1)\<lparr>um_freep := of_nat p\<rparr>"
    have e: "take_block (of_nat n) (of_nat p) (of_nat c) s = (of_nat (c + 8 * k) + 8, s')"
      unfolding take_block_def Let_def s'_def using eq False dm s1 by (simp add: algebra_simps)
    have pF: "p \<in> set (base # map fst (F1 @ (c, k + n) # F2))" unfolding p by (cases F1 rule: rev_cases) auto
    note T = take_tail [OF h [unfolded m(1)] n(1) m(2) pF s'_def]
    moreover have "kept {p, c, c + 8 * k} s s'" using T(2) by (rule kept_mono) auto
    moreover have "um_brk s' = um_brk s" by (simp add: s'_def)
    ultimately show ?thesis using e m by (intro exI [of _ "c + 8 * k"] exI [of _ s'] exI [of _ "F1 @ (c, k) # F2"]) simp
  qed
qed

subsection \<open>The search\<close>

lemma malloc_search:
  assumes "chain s (prev # ps @ [q])" "\<forall>x \<in> set ps. x \<noteq> q \<and> x < 2 ^ 31" "q < 2 ^ 31" "um_freep s = of_nat q" "x0 = hd (ps @ [q])"
  shows "(\<exists>x y. x \<in> set (ps @ [q]) \<and> y \<in> set (prev # ps) \<and> nx s y = of_nat x \<and> nu \<le> us s x \<and>
       malloc_loop grow nu (of_nat prev) (of_nat x0) s = Some (take_block nu (of_nat y) (of_nat x) s)) \<or>
     (\<forall>x \<in> set (ps @ [q]). us s x < nu) \<and>
       malloc_loop grow nu (of_nat prev) (of_nat x0) s =
       do { (p, s) \<leftarrow> morecore grow nu s; if p = 0 then Some (0, s) else malloc_loop grow nu p (hptr s p) s }"
  using assms
proof (induction ps arbitrary: prev x0)
  case Nil
  then have x0: "x0 = q" "nx s prev = of_nat q" by simp_all
  show ?case
  proof (cases "nu \<le> us s q")
    case True
    then have "malloc_loop grow nu (of_nat prev) (of_nat x0) s = Some (take_block nu (of_nat prev) (of_nat q) s)"
      using x0 by (subst malloc_loop.simps) simp
    then show ?thesis using True x0 by auto
  next
    case False
    then show ?thesis using x0 Nil.prems(4) by (subst (2) malloc_loop.simps) (auto simp: not_le)
  qed
next
  case (Cons y ps)
  then have x0: "x0 = y" "nx s prev = of_nat y" by simp_all
  show ?case
  proof (cases "nu \<le> us s y")
    case True
    then have "malloc_loop grow nu (of_nat prev) (of_nat x0) s = Some (take_block nu (of_nat prev) (of_nat y) s)"
      using x0 by (subst malloc_loop.simps) simp
    then show ?thesis using True x0 by auto
  next
    case False
    have ch: "chain s (y # ps @ [q])" using Cons.prems(1) by simp
    have ny: "nx s y = of_nat (hd (ps @ [q]))" using ch by (cases ps) auto
    have "(of_nat y :: u32) \<noteq> of_nat q" using Cons.prems(2,3) word_eq_of_nat [of y q] by simp
    then have e: "malloc_loop grow nu (of_nat prev) (of_nat x0) s = malloc_loop grow nu (of_nat y) (of_nat (hd (ps @ [q]))) s"
      using False x0 ny Cons.prems(4) by (subst malloc_loop.simps) simp
    have "\<forall>x \<in> set ps. x \<noteq> q \<and> x < 2 ^ 31" using Cons.prems(2) by simp
    from Cons.IH [OF ch this Cons.prems(3,4) refl] show ?thesis
      unfolding e using False by (auto simp: not_le)
  qed
qed

text \<open>A block of the list has one predecessor.\<close>

lemma chain_nth: "chain s xs \<Longrightarrow> Suc i < length xs \<Longrightarrow> nx s (xs ! i) = of_nat (xs ! Suc i)"
proof (induction s xs arbitrary: i rule: chain.induct)
  case (1 s x y xs)
  then show ?case by (cases i) auto
qed auto

lemma chain_pred:
  assumes h: "heap base lo s (F1 @ (c, m) # F2) A" and y: "y \<in> set (base # map fst (F1 @ (c, m) # F2))" "nx s y = of_nat c"
  shows "y = last (base # map fst F1)"
proof -
  let ?fs = "F1 @ (c, m) # F2"
  let ?xs = "base # map fst ?fs @ [base]"
  obtain i where i: "i < length (base # map fst ?fs)" "y = (base # map fst ?fs) ! i" using y(1) by (metis in_set_conv_nth)
  then have yi: "y = ?xs ! i" "Suc i < length ?xs" by (auto simp: nth_Cons nth_append split: nat.splits)
  have s31: "\<forall>x \<in> set (base # map fst ?fs). x < 2 ^ 31" by (rule heap_sorted(2) [OF h])
  have "?xs ! Suc i = (map fst ?fs @ [base]) ! i" by simp
  moreover have "(map fst ?fs @ [base]) ! i \<in> set (base # map fst ?fs)"
    using nth_mem [of i "map fst ?fs @ [base]"] i(1) by auto
  moreover have "of_nat (?xs ! Suc i) = (of_nat c :: u32)" using chain_nth [OF heapD(9) [OF h] yi(2)] y(2) yi(1) by simp
  moreover have "c \<in> set (base # map fst ?fs)" by simp
  ultimately have ci: "(map fst ?fs @ [base]) ! i = c" using word_eq_of_nat [of "?xs ! Suc i" c] s31 by metis
  have "distinct (map fst ?fs @ [base])" using heap_distinct [OF h] by auto
  moreover have "(map fst ?fs @ [base]) ! length F1 = c" by (simp add: nth_append)
  ultimately have "i = length F1" using ci i(1) nth_eq_iff_index_eq [of "map fst ?fs @ [base]" i "length F1"] by simp
  then show ?thesis using i(2) by (cases F1 rule: rev_cases) (auto simp: nth_Cons nth_append split: nat.splits)
qed

lemma heap_cycle:
  assumes h: "heap base lo s fs A"
  obtains q ps where "um_freep s = of_nat q" "q < 2 ^ 31" "chain s (q # ps @ [q])" "\<forall>x \<in> set ps. x \<noteq> q \<and> x < 2 ^ 31"
    "set (ps @ [q]) = set (base # map fst fs)" "q \<in> set (base # map fst fs)"
proof -
  note H = heapD [OF h]
  note S = heap_sorted [OF h]
  obtain q where q: "um_freep s = of_nat q" "q \<in> set (base # map fst fs)" using H(11) by auto
  then obtain X Y where X: "base # map fst fs = X @ q # Y" by (metis split_list)
  have d: "distinct (X @ q # Y)" using heap_distinct [OF h] X by simp
  have ch: "chain s (X @ q # Y @ [base])" using H(9) X by (metis append.assoc append_Cons)
  have "chain s (q # (Y @ X) @ [q])"
  proof (cases X)
    case Nil
    then show ?thesis using ch X by simp
  next
    case (Cons b X')
    then have b: "b = base" using X by simp
    have "chain s (q # Y @ [base])" "chain s (X @ [q])" using ch chain_append [of s X q "Y @ [base]"] by simp_all
    then show ?thesis using chain_append [of s "q # Y" base "X' @ [q]"] Cons b by simp
  qed
  moreover have "\<forall>x \<in> set (Y @ X). x \<noteq> q \<and> x < 2 ^ 31" using d S(2) unfolding X by auto
  moreover have "set ((Y @ X) @ [q]) = set (base # map fst fs)" unfolding X by auto
  moreover have "q < 2 ^ 31" using S(2) q(2) by blast
  ultimately show thesis using that q by blast
qed

subsection \<open>Memory of the blocks in use\<close>

definition intact :: "block set \<Rightarrow> um \<Rightarrow> um \<Rightarrow> bool" where
  "intact A s s' \<longleftrightarrow> (\<forall>b \<in> A. \<forall>x. unat x \<in> span b \<longrightarrow> um_mem s' x = um_mem s x)"

lemma intact_trans: "intact A s s1 \<Longrightarrow> intact A s1 s2 \<Longrightarrow> intact A s s2"
  by (simp add: intact_def)

text \<open>Headers that are stored into belong to blocks that are not in use.\<close>

lemma kept_intact:
  assumes "tile (F \<union> A) lo hi" "F \<inter> A = {}" "base + 8 \<le> lo" "kept X s s'"
    and "\<And>y. y \<in> X \<Longrightarrow> y = base \<or> (\<exists>c m. (c, m) \<in> F \<and> c \<le> y \<and> y + 8 \<le> c + 8 * m)"
  shows "intact A s s'"
  unfolding intact_def
proof (intro ballI allI impI)
  fix b and x :: u32
  assume b: "b \<in> A" and x: "unat x \<in> span b"
  have bA: "(fst b, snd b) \<in> F \<union> A" using b by simp
  have "\<not> (y \<le> unat x \<and> unat x < y + 8)" if y: "y \<in> X" for y
  proof (cases "y = base")
    case True
    then show ?thesis using tileD(2) [OF assms(1) bA] assms(3) x by (auto simp: span_def)
  next
    case False
    then obtain c m where c: "(c, m) \<in> F" "c \<le> y" "y + 8 \<le> c + 8 * m" using assms(5) [OF y] by blast
    then have "(c, m) \<noteq> (fst b, snd b)" using assms(2) b by auto
    from tileD(4) [OF assms(1) _ bA this] c show ?thesis using x by (auto simp: span_def)
  qed
  then show "um_mem s' x = um_mem s x" using assms(4) by (simp add: kept_def)
qed

lemma free_block_header:
  assumes "heap base lo s fs A" "x \<in> fst ` set fs"
  shows "\<exists>c m. (c, m) \<in> set fs \<and> c \<le> x \<and> x + 8 \<le> c + 8 * m"
proof -
  from assms(2) obtain m where m: "(x, m) \<in> set fs" by force
  then show ?thesis using heap_units(1) [OF assms(1), of x m] by fastforce
qed

lemma free_intact:
  assumes "heap base lo s fs (insert (b, n) A)" "(b, n) \<notin> A" "kept (insert b (insert base (fst ` set fs))) s s'"
  shows "intact A s s'"
proof (rule kept_intact [where F = "insert (b, n) (set fs)"])
  note H = heapD [OF assms(1)]
  show "tile (insert (b, n) (set fs) \<union> A) lo (unat (um_brk s))" using H(5) by simp
  show "insert (b, n) (set fs) \<inter> A = {}" using H(6) assms(2) by auto
  show "base + 8 \<le> lo" by (rule H(2))
  show "kept (insert b (insert base (fst ` set fs))) s s'" by (rule assms(3))
  have "b + 8 \<le> b + 8 * n" using heap_units(1) [OF assms(1), of b n] by simp
  then show "y = base \<or> (\<exists>c m. (c, m) \<in> insert (b, n) (set fs) \<and> c \<le> y \<and> y + 8 \<le> c + 8 * m)"
    if "y \<in> insert b (insert base (fst ` set fs))" for y
    using that free_block_header [OF assms(1), of y] by blast
qed

lemma take_intact:
  assumes h: "heap base lo s fs A" and k: "kept {p, c, a} s s'" and p: "p \<in> set (base # map fst fs)" and c: "(c, m) \<in> set fs"
    and a: "c \<le> a" "a + 8 * n \<le> c + 8 * m" "0 < n"
  shows "intact A s s'"
proof (rule kept_intact [OF heapD(5,6,2) [OF h] k])
  show "y = base \<or> (\<exists>c m. (c, m) \<in> set fs \<and> c \<le> y \<and> y + 8 \<le> c + 8 * m)" if "y \<in> {p, c, a}" for y
  proof -
    have "c + 8 \<le> c + 8 * m" using heap_units(1) [OF h, of c m] c by simp
    moreover have "p = base \<or> p \<in> fst ` set fs" using p by auto
    moreover have "a + 8 \<le> c + 8 * m" using a by simp
    ultimately show ?thesis using that free_block_header [OF h, of p] c a(1) by blast
  qed
qed

subsection \<open>Allocation\<close>

lemma malloc_found:
  assumes h: "heap base lo s fs A" and n: "0 < n" "n < 2 ^ 28" and big: "\<exists>b \<in> set fs. n \<le> snd b"
  shows "\<exists>a s' fs'. malloc_loop grow (of_nat n) (um_freep s) (hptr s (um_freep s)) s = Some (of_nat a + 8, s') \<and>
     (a, n) \<notin> A \<and> heap base lo s' fs' (insert (a, n) A) \<and> intact A s s' \<and> um_brk s' = um_brk s"
proof -
  obtain q ps where q: "um_freep s = of_nat q" "q < 2 ^ 31" "chain s (q # ps @ [q])" "\<forall>x \<in> set ps. x \<noteq> q \<and> x < 2 ^ 31"
    "set (ps @ [q]) = set (base # map fst fs)" "q \<in> set (base # map fst fs)"
    using heap_cycle [OF h] by blast
  have nq: "hptr s (um_freep s) = of_nat (hd (ps @ [q]))" using q(1,3) by (cases ps) auto
  have un: "unat (of_nat n :: u32) = n" using n(2) by (intro unat_of_nat_id) simp
  have big': "\<not> (\<forall>x \<in> set (ps @ [q]). us s x < of_nat n)"
  proof -
    obtain b where b: "b \<in> set fs" "n \<le> snd b" using big by blast
    then have "us s (fst b) = of_nat (snd b)" "unat (of_nat (snd b) :: u32) = snd b"
      using heapD(7) [OF h, of b] heap_units(4) [OF h, of "fst b" "snd b"] by auto
    then have "\<not> us s (fst b) < of_nat n" using b(2) un by (simp add: word_less_nat_alt)
    moreover have "fst b \<in> set (ps @ [q])" unfolding q(5) using b(1) by simp
    ultimately show ?thesis by blast
  qed
  obtain x y where x: "x \<in> set (ps @ [q])" "y \<in> set (q # ps)" "nx s y = of_nat x" "of_nat n \<le> us s x"
    "malloc_loop grow (of_nat n) (of_nat q) (of_nat (hd (ps @ [q]))) s = Some (take_block (of_nat n) (of_nat y) (of_nat x) s)"
    using malloc_search [OF q(3,4,2,1) refl, of "of_nat n" grow] big' by blast
  have "x \<noteq> base"
  proof
    assume "x = base"
    then have "us s x = 0" using heapD(8) [OF h] by simp
    then show False using x(4) un n(1) by (simp add: word_le_nat_alt)
  qed
  then obtain m where xm: "(x, m) \<in> set fs" using x(1) unfolding q(5) by force
  then obtain F1 F2 where F: "fs = F1 @ (x, m) # F2" by (metis split_list)
  have m: "us s x = of_nat m" "unat (of_nat m :: u32) = m" using heapD(7) [OF h, of "(x, m)"] heap_units(4) [OF h, of x m] xm by auto
  then have nm: "n \<le> m" using x(4) un by (simp add: word_le_nat_alt)
  have yF: "y \<in> set (base # map fst fs)" using x(2) unfolding q(5) [symmetric] by auto
  have y: "y = last (base # map fst F1)" using chain_pred [OF h [unfolded F] _ x(3)] yF F by simp
  obtain a s' fs' where t: "take_block (of_nat n) (of_nat y) (of_nat x) s = (of_nat a + 8, s')" "(a, n) \<notin> A" "heap base lo s' fs' (insert (a, n) A)"
     "kept {y, x, a} s s'" "um_brk s' = um_brk s" "x \<le> a" "a + 8 * n \<le> x + 8 * m"
    using take_block_spec [OF h [unfolded F] n(1) nm y] by blast
  have "intact A s s'" by (rule take_intact [OF h t(4) yF xm t(6,7) n(1)])
  then show ?thesis using t x(5) q(1) nq by auto
qed

text \<open>
  What malloc relies on: the kernel grows a process only below KERNBASE (the check in allocuvm).
\<close>

definition grow_ok :: "(u32 \<Rightarrow> u32 \<Rightarrow> bool) \<Rightarrow> bool" where
  "grow_ok grow \<longleftrightarrow> (\<forall>b n. grow b n \<longrightarrow> unat b < 2 ^ 31 \<longrightarrow> unat n < 2 ^ 31 \<longrightarrow> unat b + unat n < 2 ^ 31)"

lemma morecore_spec:
  assumes h: "heap base lo s fs A" and n: "0 < n" "n < 2 ^ 28" and g: "grow_ok grow" and k: "k = max n 4096"
  shows "\<not> grow (um_brk s) (of_nat (8 * k)) \<Longrightarrow> morecore grow (of_nat n) s = Some (0, s)"
    and "grow (um_brk s) (of_nat (8 * k)) \<Longrightarrow> \<exists>s' fs'. morecore grow (of_nat n) s = Some (um_freep s', s') \<and> um_freep s' \<noteq> 0 \<and>
      heap base lo s' fs' A \<and> intact A s s' \<and> (\<exists>b \<in> set fs'. n \<le> snd b)"
proof -
  note H = heapD [OF h]
  have un: "unat (of_nat n :: u32) = n" using n(2) by (intro unat_of_nat_id) simp
  have ku: "(if (of_nat n :: u32) < 4096 then 4096 else of_nat n) = (of_nat k :: u32)"
    unfolding k using un by (simp add: word_less_nat_alt max_def)
  have k8: "(of_nat k :: u32) * 8 = of_nat (8 * k)" "8 * k < 2 ^ 31" "0 < k" "n \<le> k" unfolding k using n by auto
  have uk: "unat (of_nat (8 * k) :: u32) = 8 * k" using k8(2) by (intro unat_of_nat_id) simp
  show "morecore grow (of_nat n) s = Some (0, s)" if "\<not> grow (um_brk s) (of_nat (8 * k))"
    unfolding morecore_def Let_def ku k8(1) using that by (simp add: sbrk_def)
  show "\<exists>s' fs'. morecore grow (of_nat n) s = Some (um_freep s', s') \<and> um_freep s' \<noteq> 0 \<and>
      heap base lo s' fs' A \<and> intact A s s' \<and> (\<exists>b \<in> set fs'. n \<le> snd b)" if gr: "grow (um_brk s) (of_nat (8 * k))"
  proof -
    let ?b = "unat (um_brk s)"
    have lim: "?b + 8 * k < 2 ^ 31" using g gr uk k8(2) heapD(4) [OF h] unfolding grow_ok_def by metis
    let ?s0 = "s\<lparr>um_brk := um_brk s + of_nat (8 * k)\<rparr>"
    let ?s1 = "set_hsize (um_brk s) (of_nat k) ?s0"
    have brk: "unat (um_brk ?s1) = ?b + 8 * k"
      using unat_add_no_wrap [of "um_brk s" "of_nat (8 * k)"] uk lim by simp
    have ob: "um_brk s = of_nat ?b" by simp
    have "um_brk s \<noteq> - 1"
    proof
      assume "um_brk s = - 1"
      then have "?b = 2 ^ 32 - 1" by (simp add: unsigned_minus_1_eq_mask mask_eq_exp_minus_1)
      then show False using H(4) by simp
    qed
    then have mc: "morecore grow (of_nat n) s = do { s \<leftarrow> free (of_nat ?b + 8) ?s1; Some (um_freep s, s) }"
      unfolding morecore_def Let_def ku k8(1) using gr by (simp add: sbrk_def)
    note E = tile_extend [OF H(5) k8(3) H(3)]
    have T: "tile (set fs \<union> insert (?b, k) A) lo (unat (um_brk ?s1))" unfolding brk using E(1) by simp
    have hd: "hdrs ?b x" if "x \<in> insert base (fst ` insert (?b, k) (set fs \<union> A))" for x
      by (rule tile_hdrs [OF E(1) H(2) lim _ _ that]) (use H(3) in auto)
    have f: "nx ?s1 x = nx s x" "us ?s1 x = (if x = ?b then of_nat k else us s x)" if "x \<in> insert base (fst ` insert (?b, k) (set fs \<union> A))" for x
      using header_fields(3,4) [OF hd [OF that], of "of_nat k" ?s0] by simp_all
    have h1: "heap base lo ?s1 fs (insert (?b, k) A)"
    proof -
      obtain p where p: "um_freep s = of_nat p" "p \<in> set (base # map fst fs)" using H(11) by auto
      have nb: "fst x \<noteq> ?b" if "x \<in> set fs \<union> A" for x using tileD(1,3) [OF H(5), of "fst x" "snd x"] that by auto
      have sz: "us ?s1 (fst x) = of_nat (snd x)" if "x \<in> set fs \<union> insert (?b, k) A" for x
      proof (cases "x = (?b, k)")
        case True
        then show ?thesis using f(2) [of ?b] by simp
      next
        case False
        then have x: "x \<in> set fs \<union> A" using that by auto
        then show ?thesis using f(2) [of "fst x"] nb H(7) [of x] by auto
      qed
      have "chain ?s1 (base # map fst fs @ [base]) \<longleftrightarrow> chain s (base # map fst fs @ [base])"
        by (rule chain_cong) (use f(1) in \<open>auto simp: butlast_append split: if_splits\<close>)
      then have ch: "chain ?s1 (base # map fst fs @ [base])" using H(9) by blast
      have dj: "set fs \<inter> insert (?b, k) A = {}" using H(6) E(2) by auto
      have b0: "us ?s1 base = 0" using f(2) [of base] H(2,3,8) by simp
      have fp: "um_freep ?s1 = of_nat p" using p(1) by simp
      have bl: "lo \<le> unat (um_brk ?s1)" "unat (um_brk ?s1) < 2 ^ 31" unfolding brk using H(3) lim by auto
      show ?thesis by (rule heapI [OF H(1,2) bl T dj sz b0 ch H(10) fp p(2)])
    qed
    have nA: "(?b, k) \<notin> A" using E(2) by simp
    obtain s' fs' where s': "free (of_nat ?b + 8) ?s1 = Some s'" "heap base lo s' fs' A" "kept (insert ?b (insert base (fst ` set fs))) ?s1 s'"
      "\<exists>c \<in> set fs'. k \<le> snd c"
      using free_spec [OF h1 nA] by blast
    have i1: "intact A ?s1 s'" by (rule free_intact [OF h1 nA s'(3)])
    have "kept {?b} ?s0 ?s1" using kept_stores(2) [of ?b ?s0 "of_nat k"] H(4) by simp
    then have "intact A ?s0 ?s1"
    proof (rule kept_intact [where F = "insert (?b, k) (set fs)", rotated 3])
      show "tile (insert (?b, k) (set fs) \<union> A) lo (unat (um_brk ?s1))" using T by simp
      show "insert (?b, k) (set fs) \<inter> A = {}" using H(6) nA by auto
      show "base + 8 \<le> lo" by (rule H(2))
      show "y = base \<or> (\<exists>c m. (c, m) \<in> insert (?b, k) (set fs) \<and> c \<le> y \<and> y + 8 \<le> c + 8 * m)" if "y \<in> {?b}" for y
        using that k8(3) by (intro disjI2 exI [of _ ?b] exI [of _ k]) auto
    qed
    then have "intact A s s'" using intact_trans [OF _ i1] by (simp add: intact_def)
    moreover have "um_freep s' \<noteq> 0"
    proof -
      obtain p where p: "um_freep s' = of_nat p" "p \<in> set (base # map fst fs')" using heapD(11) [OF s'(2)] by auto
      have "p \<noteq> 0" using heap_sorted(1) [OF s'(2)] p(2) H(1) by fastforce
      moreover have "unat (of_nat p :: u32) = p"
      proof (rule unat_of_nat_id)
        have "p < 2 ^ 31" using heap_sorted(2) [OF s'(2)] p(2) by blast
        then show "p < 2 ^ LENGTH(32)" by simp
      qed
      ultimately show ?thesis unfolding p(1) by (metis unat_0)
    qed
    moreover have "\<exists>b \<in> set fs'. n \<le> snd b" using s'(4) k8(4) by (meson le_trans)
    ultimately show ?thesis using mc s'(1,2) by auto
  qed
qed

lemma malloc_loop_spec:
  assumes h: "heap base lo s fs A" and n: "0 < n" "n < 2 ^ 28" and g: "grow_ok grow"
  shows "malloc_loop grow (of_nat n) (um_freep s) (hptr s (um_freep s)) s = Some (0, s) \<and> \<not> grow (um_brk s) (of_nat (8 * max n 4096)) \<or>
    (\<exists>a s' fs'. malloc_loop grow (of_nat n) (um_freep s) (hptr s (um_freep s)) s = Some (of_nat a + 8, s') \<and>
     (a, n) \<notin> A \<and> heap base lo s' fs' (insert (a, n) A) \<and> intact A s s')"
proof (cases "\<exists>b \<in> set fs. n \<le> snd b")
  case True
  then show ?thesis using malloc_found [OF h n True, of grow] by blast
next
  case False
  obtain q ps where q: "um_freep s = of_nat q" "q < 2 ^ 31" "chain s (q # ps @ [q])" "\<forall>x \<in> set ps. x \<noteq> q \<and> x < 2 ^ 31"
    "set (ps @ [q]) = set (base # map fst fs)" "q \<in> set (base # map fst fs)"
    using heap_cycle [OF h] by blast
  have nq: "hptr s (um_freep s) = of_nat (hd (ps @ [q]))" using q(1,3) by (cases ps) auto
  have un: "unat (of_nat n :: u32) = n" using n(2) by (intro unat_of_nat_id) simp
  have small: "us s x < of_nat n" if x: "x \<in> set (ps @ [q])" for x
  proof (cases "x = base")
    case True
    then show ?thesis using heapD(8) [OF h] un n(1) by (simp add: word_less_nat_alt)
  next
    case b: False
    then obtain m where m: "(x, m) \<in> set fs" using x unfolding q(5) by force
    then have "us s x = of_nat m" "unat (of_nat m :: u32) = m" using heapD(7) [OF h, of "(x, m)"] heap_units(4) [OF h, of x m] by auto
    moreover have "m < n" using False m by force
    ultimately show ?thesis using un by (simp add: word_less_nat_alt)
  qed
  have more: "malloc_loop grow (of_nat n) (um_freep s) (hptr s (um_freep s)) s =
     do { (p, s) \<leftarrow> morecore grow (of_nat n) s; if p = 0 then Some (0, s) else malloc_loop grow (of_nat n) p (hptr s p) s }"
    using malloc_search [OF q(3,4,2,1) refl, of "of_nat n" grow] small leD nq [unfolded q(1)] unfolding q(1) by metis
  note M = morecore_spec [OF h n g refl]
  show ?thesis
  proof (cases "grow (um_brk s) (of_nat (8 * max n 4096))")
    case False
    then show ?thesis using M(1) more by simp
  next
    case True
    obtain s1 fs1 where s1: "morecore grow (of_nat n) s = Some (um_freep s1, s1)" "um_freep s1 \<noteq> 0" "heap base lo s1 fs1 A" "intact A s s1"
      "\<exists>b \<in> set fs1. n \<le> snd b"
      using M(2) [OF True] by blast
    obtain a s' fs' where a: "malloc_loop grow (of_nat n) (um_freep s1) (hptr s1 (um_freep s1)) s1 = Some (of_nat a + 8, s')"
      "(a, n) \<notin> A" "heap base lo s' fs' (insert (a, n) A)" "intact A s1 s'"
      using malloc_found [OF s1(3) n s1(5), of grow] by blast
    have "intact A s s'" by (rule intact_trans [OF s1(4) a(4)])
    then show ?thesis using more s1(1,2) a(1-3) by auto
  qed
qed

text \<open>Before the first call the list is not set up.\<close>

definition heap_state :: "nat \<Rightarrow> nat \<Rightarrow> um \<Rightarrow> block set \<Rightarrow> bool" where
  "heap_state base lo s A \<longleftrightarrow> (\<exists>fs. heap base lo s fs A) \<or>
     um_freep s = 0 \<and> A = {} \<and> base \<noteq> 0 \<and> base + 8 \<le> lo \<and> lo = unat (um_brk s) \<and> lo < 2 ^ 31"

definition units :: "u32 \<Rightarrow> nat" where
  "units nbytes = (unat nbytes + 7) div 8 + 1"

lemma nunits_units:
  assumes "unat nbytes \<le> 2 ^ 31 - 32"
  shows "(nbytes + 8 - 1) div 8 + 1 = (of_nat (units nbytes) :: u32)" "0 < units nbytes" "units nbytes < 2 ^ 28" "unat nbytes \<le> 8 * (units nbytes - 1)"
proof -
  show "0 < units nbytes" "units nbytes < 2 ^ 28" "unat nbytes \<le> 8 * (units nbytes - 1)" using assms by (auto simp: units_def)
  have "unat (nbytes + 7) = unat nbytes + 7" using unat_add_no_wrap [of nbytes 7] assms by simp
  then have "unat ((nbytes + 7) div 8) = (unat nbytes + 7) div 8" by (simp add: unat_div)
  moreover have "unat (of_nat ((unat nbytes + 7) div 8) :: u32) = (unat nbytes + 7) div 8"
    using assms by (intro unat_of_nat_id) simp
  ultimately have "(nbytes + 7) div 8 = of_nat ((unat nbytes + 7) div 8)" by (simp only: word_unat_eq_iff)
  then show "(nbytes + 8 - 1) div 8 + 1 = (of_nat (units nbytes) :: u32)" by (simp add: units_def add.commute)
qed

lemma heap_start:
  assumes "um_freep s = 0" "base \<noteq> 0" "base + 8 \<le> lo" "lo = unat (um_brk s)" "lo < 2 ^ 31"
  shows "heap base lo (set_hsize (of_nat base) 0 ((set_hptr (of_nat base) (of_nat base) s)\<lparr>um_freep := of_nat base\<rparr>)) [] {}"
proof -
  have "hdrs base base" using assms by (simp add: hdrs_def)
  note F = header_fields [OF this]
  show ?thesis using assms by (intro heapI [where p = base]) (auto simp: F tile_def)
qed

lemma malloc_spec:
  assumes "heap_state base lo s A" "unat nbytes \<le> 2 ^ 31 - 32" "grow_ok grow"
  shows "\<exists>r s'. malloc grow (of_nat base) nbytes s = Some (r, s') \<and> intact A s s' \<and>
    (r = 0 \<and> \<not> grow (um_brk s) (of_nat (8 * max (units nbytes) 4096)) \<and> heap_state base lo s' A \<or>
     (\<exists>a. unat r = a + 8 \<and> (a, units nbytes) \<notin> A \<and> heap_state base lo s' (insert (a, units nbytes) A)))"
proof -
  let ?s = "if um_freep s = 0 then set_hsize (of_nat base) 0 ((set_hptr (of_nat base) (of_nat base) s)\<lparr>um_freep := of_nat base\<rparr>) else s"
  note N = nunits_units [OF assms(2)]
  have m: "malloc grow (of_nat base) nbytes s = malloc_loop grow (of_nat (units nbytes)) (um_freep ?s) (hptr ?s (um_freep ?s)) ?s"
    unfolding malloc_def Let_def N(1) by simp
  have "\<exists>fs. heap base lo ?s fs A \<and> intact A s ?s \<and> um_brk ?s = um_brk s"
  proof (cases "um_freep s = 0")
    case True
    have "\<not> heap base lo s fs A" for fs
    proof
      assume h: "heap base lo s fs A"
      then obtain p where p: "um_freep s = of_nat p" "p \<in> set (base # map fst fs)" using heapD(11) by blast
      have "p \<noteq> 0" using heap_sorted(1) [OF h] p(2) heapD(1) [OF h] by fastforce
      moreover have "p < 2 ^ 31" using heap_sorted(2) [OF h] p(2) by blast
      then have "unat (of_nat p :: u32) = p" by (intro unat_of_nat_id) simp
      ultimately show False using True p(1) by (metis unat_0)
    qed
    then have f: "A = {}" "base \<noteq> 0" "base + 8 \<le> lo" "lo = unat (um_brk s)" "lo < 2 ^ 31" using assms(1) unfolding heap_state_def by blast+
    then show ?thesis using heap_start [OF True f(2-5)] True by (auto simp: intact_def)
  next
    case False
    then show ?thesis using assms(1) by (auto simp: heap_state_def intact_def)
  qed
  then obtain fs where fs: "heap base lo ?s fs A" "intact A s ?s" "um_brk ?s = um_brk s" by blast
  consider (none) "malloc grow (of_nat base) nbytes s = Some (0, ?s)" "\<not> grow (um_brk s) (of_nat (8 * max (units nbytes) 4096))"
    | (some) a s' fs' where "malloc grow (of_nat base) nbytes s = Some (of_nat a + 8, s')" "(a, units nbytes) \<notin> A"
      "heap base lo s' fs' (insert (a, units nbytes) A)" "intact A ?s s'"
    using malloc_loop_spec [OF fs(1) N(2,3) assms(3)] unfolding m fs(3) by blast
  then show ?thesis
  proof cases
    case none
    moreover have "heap_state base lo ?s A" using fs(1) by (auto simp: heap_state_def)
    ultimately show ?thesis using fs(2) by blast
  next
    case some
    have "unat (of_nat a + 8 :: u32) = a + 8"
      using heap_units(3,5) [OF some(3), of a "units nbytes"] N(2) unat_add_no_wrap [of "of_nat a :: u32" 8] by simp
    moreover have "heap_state base lo s' (insert (a, units nbytes) A)" using some(3) by (auto simp: heap_state_def)
    moreover have "intact A s s'" by (rule intact_trans [OF fs(2) some(4)])
    ultimately show ?thesis using some(1,2) by blast
  qed
qed

subsection \<open>Histories\<close>

text \<open>
  A program that starts with an empty heap at the break lo. A is the set of its blocks: it gets them
  from malloc, writes into them but not into their headers, and frees them once.
\<close>

inductive urun :: "nat \<Rightarrow> nat \<Rightarrow> um \<Rightarrow> block set \<Rightarrow> bool" for base lo where
  start: "um_freep s = 0 \<Longrightarrow> base \<noteq> 0 \<Longrightarrow> base + 8 \<le> lo \<Longrightarrow> lo = unat (um_brk s) \<Longrightarrow> lo < 2 ^ 31 \<Longrightarrow> urun base lo s {}"
| get: "urun base lo s A \<Longrightarrow> grow_ok grow \<Longrightarrow> unat nbytes \<le> 2 ^ 31 - 32 \<Longrightarrow> malloc grow (of_nat base) nbytes s = Some (r, s') \<Longrightarrow>
    r \<noteq> 0 \<Longrightarrow> urun base lo s' (insert (unat r - 8, units nbytes) A)"
| none: "urun base lo s A \<Longrightarrow> grow_ok grow \<Longrightarrow> unat nbytes \<le> 2 ^ 31 - 32 \<Longrightarrow> malloc grow (of_nat base) nbytes s = Some (0, s') \<Longrightarrow>
    urun base lo s' A"
| release: "urun base lo s A \<Longrightarrow> (a, n) \<in> A \<Longrightarrow> free (of_nat a + 8) s = Some s' \<Longrightarrow> urun base lo s' (A - {(a, n)})"
| put: "urun base lo s A \<Longrightarrow> (a, n) \<in> A \<Longrightarrow> a + 8 \<le> unat x \<Longrightarrow> unat x < a + 8 * n \<Longrightarrow>
    urun base lo (s\<lparr>um_mem := (um_mem s)(x := v)\<rparr>) A"

lemma header_write:
  assumes "h < 2 ^ 31" "unat x < h \<or> h + 8 \<le> unat x"
  shows "nx (s\<lparr>um_mem := (um_mem s)(x := v)\<rparr>) h = nx s h" "us (s\<lparr>um_mem := (um_mem s)(x := v)\<rparr>) h = us s h"
proof -
  have ne: "of_nat (h + j) + of_nat i \<noteq> x" if "i < 4" "j \<le> 4" for i j
  proof
    assume "of_nat (h + j) + of_nat i = x"
    then have "x = of_nat (h + j + i)" by simp
    then have "unat x = h + j + i" using unat_of_nat_id [of "h + j + i", where 'a = 32] that assms(1) by simp
    then show False using assms(2) that by auto
  qed
  have "load_le32 ((um_mem s)(x := v)) (of_nat (h + j)) = load_le32 (um_mem s) (of_nat (h + j))" if "j \<le> 4" for j
    by (rule load_le32_cong) (use ne [OF _ that] in \<open>auto simp del: of_nat_add\<close>)
  from this [of 0] this [of 4] show "nx (s\<lparr>um_mem := (um_mem s)(x := v)\<rparr>) h = nx s h" "us (s\<lparr>um_mem := (um_mem s)(x := v)\<rparr>) h = us s h"
    by (simp_all add: hptr_def hsize_def add.commute)
qed

lemma heap_write:
  assumes h: "heap base lo s fs A" and b: "(a, n) \<in> A" "a + 8 \<le> unat x" "unat x < a + 8 * n"
  shows "heap base lo (s\<lparr>um_mem := (um_mem s)(x := v)\<rparr>) fs A"
proof -
  let ?s = "s\<lparr>um_mem := (um_mem s)(x := v)\<rparr>"
  note H = heapD [OF h]
  have aB: "(a, n) \<in> set fs \<union> A" using b(1) by simp
  have out: "unat x < c \<or> c + 8 \<le> unat x" if c: "c \<in> insert base (fst ` (set fs \<union> A))" for c
  proof (cases "c = base")
    case True
    then show ?thesis using tileD(2) [OF H(5) aB] H(2) b(2) by simp
  next
    case False
    then obtain m where m: "(c, m) \<in> set fs \<union> A" using c by force
    show ?thesis
    proof (cases "(c, m) = (a, n)")
      case True
      then show ?thesis using b(2) by simp
    next
      case False
      then show ?thesis using tileD(4) [OF H(5) m aB False] tileD(1) [OF H(5) m] b(2,3) by auto
    qed
  qed
  have f: "nx ?s c = nx s c" "us ?s c = us s c" if "c \<in> insert base (fst ` (set fs \<union> A))" for c
    using header_write [OF _ out [OF that], of s v] heap_hdrs [OF h that that] by (simp_all add: hdrs_def)
  obtain p where p: "um_freep s = of_nat p" "p \<in> set (base # map fst fs)" using H(11) by auto
  have "chain ?s (base # map fst fs @ [base]) \<longleftrightarrow> chain s (base # map fst fs @ [base])"
    by (rule chain_cong) (use f(1) in \<open>auto simp: butlast_append split: if_splits\<close>)
  then have ch: "chain ?s (base # map fst fs @ [base])" using H(9) by blast
  have sz: "us ?s (fst c) = of_nat (snd c)" if "c \<in> set fs \<union> A" for c using f(2) [of "fst c"] H(7) [OF that] that by auto
  have b0: "us ?s base = 0" using f(2) [of base] H(8) by simp
  show ?thesis using H(1-5) p(1) by (intro heapI [OF _ _ _ _ _ H(6) sz b0 ch H(10) _ p(2)]) simp_all
qed

lemma urun_heap: "urun base lo s A \<Longrightarrow> heap_state base lo s A"
proof (induction rule: urun.induct)
  case (start s)
  then show ?case by (simp add: heap_state_def)
next
  case (get s A grow nbytes r s')
  from malloc_spec [OF get.IH get.hyps(3,2)] get.hyps(4,5) show ?case by auto
next
  case (none s A grow nbytes s')
  from malloc_spec [OF none.IH none.hyps(3,2)] none.hyps(4) show ?case by auto
next
  case (release s A a n s')
  then obtain fs where h: "heap base lo s fs A" by (auto simp: heap_state_def)
  have "heap base lo s fs (insert (a, n) (A - {(a, n)}))" using h release.hyps(2) by (simp add: insert_absorb)
  from free_spec [OF this] release.hyps(3) show ?case by (auto simp: heap_state_def)
next
  case (put s A a n x v)
  then obtain fs where "heap base lo s fs A" by (auto simp: heap_state_def)
  from heap_write [OF this put.hyps(2-4)] show ?case by (auto simp: heap_state_def)
qed

subsection \<open>Properties\<close>

text \<open>The number of units wraps around: the largest request is served like one for no bytes.\<close>

lemma malloc_wraps: "malloc grow base 0xFFFFFFFF s = malloc grow base 0 s"
  by (simp add: malloc_def)

text \<open>
  C13: the user allocator. After any history of a program that frees each block once and does not
  write outside of its blocks, every byte of the heap is in exactly one block, free or in use, so that
  none is lost. A call of malloc for less than 2 GB returns: with 0 only when the kernel refuses to grow
  the process, otherwise with a block of at least the size asked for, within the heap and apart from all blocks
  in use. A call of free for a block in use returns as well, and neither call touches
  the contents of the other blocks in use.
\<close>

theorem malloc_free_safe:
  assumes "urun base lo s A" "grow_ok grow" "unat nbytes \<le> 2 ^ 31 - 32"
  shows "(\<exists>F. F \<inter> A = {} \<and> tile (F \<union> A) lo (unat (um_brk s))) \<and>
    (\<exists>r s'. malloc grow (of_nat base) nbytes s = Some (r, s') \<and> intact A s s' \<and>
      (r = 0 \<and> \<not> grow (um_brk s) (of_nat (8 * max (units nbytes) 4096)) \<or>
       r \<noteq> 0 \<and> lo + 8 \<le> unat r \<and> unat r + unat nbytes \<le> unat (um_brk s') \<and>
       (\<forall>b \<in> A. span b \<inter> {unat r - 8..<unat r + unat nbytes} = {}))) \<and>
    (\<forall>(a, n) \<in> A. \<exists>s'. free (of_nat a + 8) s = Some s' \<and> intact (A - {(a, n)}) s s')"
proof (intro conjI)
  have hs: "heap_state base lo s A" by (rule urun_heap [OF assms(1)])
  let ?F = "\<lambda>F. F \<inter> A = {} \<and> tile (F \<union> A) lo (unat (um_brk s))"
  have "tile {} lo lo" by (simp add: tile_def)
  then have t0: "A = {} \<Longrightarrow> lo = unat (um_brk s) \<Longrightarrow> ?F {}" by simp
  have "?F (set fs)" if h: "heap base lo s fs A" for fs using heapD(5,6) [OF h] by simp
  then show "\<exists>F. ?F F" using t0 hs unfolding heap_state_def by blast
  show "\<forall>(a, n) \<in> A. \<exists>s'. free (of_nat a + 8) s = Some s' \<and> intact (A - {(a, n)}) s s'"
  proof clarify
    fix a n
    assume b: "(a, n) \<in> A"
    then obtain fs where h: "heap base lo s fs A" using hs by (auto simp: heap_state_def)
    have h': "heap base lo s fs (insert (a, n) (A - {(a, n)}))" using h b by (simp add: insert_absorb)
    then show "\<exists>s'. free (of_nat a + 8) s = Some s' \<and> intact (A - {(a, n)}) s s'"
      using free_spec [OF h'] free_intact [OF h'] by blast
  qed
  obtain r s' where m: "malloc grow (of_nat base) nbytes s = Some (r, s')" "intact A s s'"
    "r = 0 \<and> \<not> grow (um_brk s) (of_nat (8 * max (units nbytes) 4096)) \<and> heap_state base lo s' A \<or>
     (\<exists>a. unat r = a + 8 \<and> (a, units nbytes) \<notin> A \<and> heap_state base lo s' (insert (a, units nbytes) A))"
    using malloc_spec [OF hs assms(3,2)] by blast
  have "r \<noteq> 0 \<and> lo + 8 \<le> unat r \<and> unat r + unat nbytes \<le> unat (um_brk s') \<and> (\<forall>b \<in> A. span b \<inter> {unat r - 8..<unat r + unat nbytes} = {})"
    if a: "unat r = a + 8" "(a, units nbytes) \<notin> A" "heap_state base lo s' (insert (a, units nbytes) A)" for a
  proof -
    obtain fs where h: "heap base lo s' fs (insert (a, units nbytes) A)" using a(3) by (auto simp: heap_state_def)
    note T = heapD(5) [OF h]
    have aB: "(a, units nbytes) \<in> set fs \<union> insert (a, units nbytes) A" by simp
    have sz: "unat nbytes + 8 \<le> 8 * units nbytes" using nunits_units(2,4) [OF assms(3)] by simp
    have "span b \<inter> {unat r - 8..<unat r + unat nbytes} = {}" if b: "b \<in> A" for b
    proof -
      have "(a, units nbytes) \<noteq> (fst b, snd b)" using a(2) b by auto
      then have "a + 8 * units nbytes \<le> fst b \<or> fst b + 8 * snd b \<le> a" using tileD(4) [OF T aB, of "fst b" "snd b"] b by simp
      then show ?thesis using a(1) sz by (auto simp: span_def)
    qed
    then show ?thesis using tileD(2,3) [OF T aB] a(1) sz by auto
  qed
  then show "\<exists>r s'. malloc grow (of_nat base) nbytes s = Some (r, s') \<and> intact A s s' \<and>
      (r = 0 \<and> \<not> grow (um_brk s) (of_nat (8 * max (units nbytes) 4096)) \<or>
       r \<noteq> 0 \<and> lo + 8 \<le> unat r \<and> unat r + unat nbytes \<le> unat (um_brk s') \<and>
       (\<forall>b \<in> A. span b \<inter> {unat r - 8..<unat r + unat nbytes} = {}))"
    using m by blast
qed

definition sample_grow :: "u32 \<Rightarrow> u32 \<Rightarrow> bool" where
  "sample_grow b n \<longleftrightarrow> unat b + unat n < 2 ^ 31"

definition sample_um :: um where
  "sample_um = \<lparr>um_mem = (\<lambda>_. 0), um_freep = 0, um_brk = 0x2000\<rparr>"

theorem malloc_free_safe_witness:
  "\<exists>r s'. malloc sample_grow 0x1000 100 sample_um = Some (r, s') \<and> r \<noteq> 0 \<and> 0x2008 \<le> unat r \<and> unat r + 100 \<le> unat (um_brk s')"
proof -
  have u: "urun 0x1000 0x2000 sample_um {}" by (rule urun.start) (simp_all add: sample_um_def)
  have g: "grow_ok sample_grow" by (simp add: grow_ok_def sample_grow_def)
  have n: "unat (100 :: u32) \<le> 2 ^ 31 - 32" by simp
  have "sample_grow (um_brk sample_um) (of_nat (8 * max (units 100) 4096))"
    by (simp add: sample_grow_def sample_um_def units_def)
  with malloc_free_safe [OF u g n] show ?thesis by auto
qed

end
