(* ===== verification/Sbrk.thy ===== *)
theory Sbrk
  imports ExecMain UmallocRun
begin

text \<open>
  What the user allocator assumes of the kernel is what growproc does: whether the kernel
  \<open>grow\<close>s a process is decided by growproc (over the page tables: growproc_vm), and it never grows one beyond KERNBASE.
\<close>

definition kernel_grow :: "u32 \<Rightarrow> eproc \<Rightarrow> kmem \<Rightarrow> u32 \<Rightarrow> u32 \<Rightarrow> bool" where
  "kernel_grow kend p k b n = (case growproc_vm kend (sint n) (p\<lparr>e_sz := b\<rparr>) k of Inl _ \<Rightarrow> False | Inr (r, _) \<Rightarrow> r = 0)"

lemma kernel_grow_ok: "grow_ok (kernel_grow kend p k)"
  unfolding grow_ok_def
proof (intro allI impI)
  fix b n :: u32
  assume g: "kernel_grow kend p k b n" and b: "unat b < 2 ^ 31" "unat n < 2 ^ 31"
  have s: "sint n = int (unat n)" 
  proof -
    have "uint n < 2 ^ 31" using b(2) unfolding uint_nat by (simp del: of_nat_unat)
    then have "signed_take_bit 31 (uint n) = uint n" by (intro signed_take_bit_int_eq_self) (auto intro: order_trans [OF _ uint_ge_0])
    then show ?thesis by (simp add: sint_uint)
  qed
  show "unat b + unat n < 2 ^ 31"
  proof (cases "n = 0")
    case True
    then show ?thesis using b by simp
  next
    case False
    then have "0 < sint n" using s by (simp add: unat_gt_0 del: of_nat_unat)
    moreover have "\<not> KERNBASE \<le> b + word_of_int (sint n)"
      using g \<open>0 < sint n\<close> by (auto simp: kernel_grow_def growproc_vm_def allocuvm_def)
    moreover have "word_of_int (sint n) = n" by simp
    moreover have "unat (b + n) = unat b + unat n" using b by (intro unat_add_no_wrap) simp
    ultimately show ?thesis by (simp add: not_le word_less_nat_alt KERNBASE_def)
  qed
qed

end
