(* ===== verification/Spec2Isabelle.thy ===== *)
theory Spec2Isabelle
  imports CString GfxSpec Pipe Kalloc Log Locks Proc Video ConsInput Keyboard FsLog FsTrunc Directory Grep Bio ShellPrint FileTable FileWrite Sbrk
begin

text \<open>
  A model of a small Unix kernel, xv6 for x86 extended with drawing system calls, and of parts of
  its user programs, with the theorems that its parts are correct. The source is C, under src/.

  The program. Processes (proc.c) run on several processors under spin locks and sleep locks
  (spinlock.c, sleeplock.c), enter the kernel through system calls (syscall.c) and use pages of
  physical memory (kalloc.c). Their files live in a file system of four layers: a write-ahead log
  (log.c), an allocator of disk blocks, inodes with a map of blocks, and directories (fs.c); pipes
  (pipe.c) carry bytes between processes. The console (console.c, kbd.c, uart.c, vga.c) edits input
  lines, prints characters and switches the video adapter between text and graphics. In graphics
  mode processes draw through device contexts (graphics.c, graphicsQueueables.c), either at once or
  by queueing commands that endpaint executes.

  Conventions. Each definition carries the name of the C function it translates; a suffix names the
  loop or the part of the function it stands for. Structures are records, machine words are words
  of HOL-Library.Word where their width matters, an int is an int with s32 where it can wrap. A
  panic, an access outside an array and a wait are the errors \<open>Panic\<close>, \<open>Bounds\<close> and \<open>Blocks\<close> of
  the result type (theory Prelude); where a process sleeps and tries again the step returns None or
  a value that says so, and step relations interleave the steps of several processes. Loops are
  recursive functions with a termination proof, or partial functions that are shown to return; no fuel
  is used. Code that the modelled part
  calls and that is not modelled, and hardware, are arguments of the definitions.

  Theories, in the order of the code.
  Prelude: results, arrays with bounds checks, scans and loops. CString (string.c): the memory and
  string routines on a flat memory. Syscall (syscall.c): fetching of arguments.
  GfxNum, GfxDraw, GfxQueue (graphicsQueueables.c), GfxCalls (graphics.c), GfxSpec: decimal
  conversion, drawing, the command queue and the calls; GfxSpec has the abstract screen and shows
  that queued drawing equals direct drawing, that every call keeps the invariant of the contexts,
  what each call draws, and which unchecked indices leave the arrays. GfxDraw shows that the two
  plotters paint the Bresenham line, through the locale bresenham.
  Ring, Pipe (pipe.c), ConsInput (console.c): the locale ring is a bounded queue with wrapping
  counters; pipes and the input buffer interpret it. A pipe is a FIFO and blocks only when it must;
  the line editor refines an editor of lists.
  Kalloc (kalloc.c): the locale page_allocator conserves pages; the free list threaded through the
  pages interprets it.
  Block, Log (log.c): crashes at any point of a commit leave all or none of a transaction, recovery
  is idempotent, and the reservation of log space.
  Locks (spinlock.c, sleeplock.c): steps of several processors; mutual exclusion, nesting of
  interrupt disabling, no lost wakeups. Proc (proc.c): the process table, its invariant under every
  call, and what fork, exit, wait, wakeup and the scheduler do.
  Vga, VgaFont, Video (vga.c), Printf (printf.c, console.c), Console (console.c, uart.c), Keyboard
  (kbd.c, kbd.h): the locale vga_hw is the documented behaviour of the adapter's registers, and is
  interpreted on an adapter made of register files; console output is a terminal, mode switches
  program the adapter, formatted output and key codes.
  FsAlloc, FsInode, FsFile, FsWrite, FsTrunc (fs.c): blocks, inodes and file contents. A write
  changes just the bytes it should, in one file; it cannot run out of blocks when enough are free;
  truncation frees exactly the file's blocks. FsLog: the locale transaction_blocks is what the
  file system relies on and the log provides. FsDir, Directory (fs.c): a directory is a map from
  names to inode numbers, and paths are split at slashes.
  Grep (grep.c): the matcher recognises the language of its patterns; grep prints the matching
  lines of a file and loses parts of lines from a pipe.
  Bio (bio.c, memide.c): the buffer cache with its pointers, and the steps of processes that use it;
  cached contents agree with what was last written, whatever is recycled.
  File, SysFile (file.c, sysfile.c, pipe.c): open files, descriptors and the file system calls, over
  the file system and the pipes. FileInv, FileTable: reference counts are the numbers of
  descriptors in every reachable state, and a pipe's ends are open as long as some process has a
  descriptor of them. FileWrite: a write is cut into pieces that fit in a log transaction and writes
  all its bytes.
  Vm (vm.c): page tables as words in the allocator's pages. VmInv, VmSpace: the invariant of an
  address space and what mapping does. VmKernel: setupkvm builds the documented layout. VmFree: freeing
  returns each page once. VmUser, VmAlloc, VmCopy: growing gives pages of zeros, copying gives equal
  contents in other pages, and failures give everything back; both fail only when pages are short.
  VmOut: copyout writes what the process sees.
  Shell, ShellWf, ShellPrint (sh.c): the parser of command lines. Its result is a well-formed
  command or one of four complaints, and every command can be written so that it parses to itself.
  Umalloc (umalloc.c): malloc and free on headers in the memory of the process, with loops that are
  partial functions. UmallocInv, UmallocRun: the free list is sorted and coalesced, blocks tile the heap, the
  calls return, and no block is handed out twice.
  Exec (exec.c, elf.h, sysfile.c: sys_exec, proc.c: growproc): program loading over the file system
  and the page tables. ExecImage, ExecLoad, ExecStack, ExecRun: the new address space stays well formed whatever the
  file contains, so that exec is all or nothing. ExecProg, ExecArgs, ExecMain: the memory and the
  stack that a well-formed program finds. Sbrk: growproc meets the assumption of the user allocator.

  Bounds. The constants of the source are kept: 5 device contexts of 50 commands, screens of 320 by
  200, pipes of 512 bytes, input lines of 128, 64 processes, logs of 30 blocks, blocks of 512 bytes,
  files of 140 blocks. Theorems about writes bound offset plus length by the largest file, which is
  what writei checks; other numbers range over their machine types.

  Not modelled. The disk controllers, interrupt controllers and start-up code program devices and have
  no behaviour of their own to state; trap.c and main.c dispatch to what is modelled. The context
  switch and the contents of kernel stacks are assembly. The loading of page tables into the
  processor and the shell's interpreter are left out.
  User programs that only call the system interface, the tests and the image builder mkfs are left
  out. The freeze of other processors after a panic is the error value itself.
\<close>

end
